(* ===== verification/Prelude.thy ===== *)
theory Prelude
  imports Complex_Main "HOL-Library.Word"
begin

text \<open>
  Shared vocabulary of the development: bytes, machine-size arithmetic, results of operations
  that may throw, byte-level encodings of integers, and list slices and patches (what
  \<^verbatim>\<open>memcpy\<close> reads and writes).

  \<^item> A byte is an \<open>8 word\<close>; \<^verbatim>\<open>size_t\<close> and \<^verbatim>\<open>uint64_t\<close> values are natural numbers, with the
    wrap-around of their additions written out by \<open>u64\<close>.
  \<^item> A C++ function that may throw returns \<open>exn + 'a\<close>. The constructors of \<open>exn\<close> are the exception
    classes of \<^verbatim>\<open>src/lib/libutils/utils/exception\<close> and the standard ones the code throws.
    \<open>MemFault\<close> stands for an access outside the allocation a pointer belongs to (undefined
    behaviour of the C++ program) and \<open>Terminate\<close> for \<^verbatim>\<open>std::terminate\<close>.
\<close>

named_theorems buf_simps "byte buffers: sizes, slices and patches"
named_theorems wf_intros "operations keep the invariant of their component"

type_synonym byte = "8 word"

section \<open>Results\<close>

datatype exn =
    IndexError nat nat
  | KeyError
  | ParserError
  | OutOfRange
  | RuntimeError
  | InvalidArgument
  | OverflowError
  | TaskNotExecuted nat
  | TaskNotCompleted nat
  | CryptoInitializationError
  | InvalidKeyError
  | EncryptionError
  | DecryptionError
  | MemFault
  | Terminate

type_synonym 'a res = "exn + 'a"

definition rbind :: "'a res \<Rightarrow> ('a \<Rightarrow> 'b res) \<Rightarrow> 'b res" where
  "rbind m f = (case m of Inl e \<Rightarrow> Inl e | Inr x \<Rightarrow> f x)"

lemma rbind_simps [simp]:
  "rbind (Inl e) f = Inl e"
  "rbind (Inr x) f = f x"
  by (simp_all add: rbind_def)

lemma rbind_cong [fundef_cong]:
  "m = m' \<Longrightarrow> (\<And>x. m' = Inr x \<Longrightarrow> f x = f' x) \<Longrightarrow> rbind m f = rbind m' f'"
  by (simp add: rbind_def split: sum.split)

lemma rbind_eq_Inr_iff: "rbind m f = Inr y \<longleftrightarrow> (\<exists>x. m = Inr x \<and> f x = Inr y)"
  by (cases m) auto

lemma rbind_InrE [elim]:
  assumes "rbind m f = Inr y"
  obtains x where "m = Inr x" and "f x = Inr y"
  using assms by (auto simp: rbind_eq_Inr_iff)

lemma rbind_assoc: "rbind (rbind m f) g = rbind m (\<lambda>x. rbind (f x) g)"
  by (cases m) auto

section \<open>Machine-size arithmetic\<close>

definition u64 :: "nat \<Rightarrow> nat" where
  "u64 n = n mod 2 ^ 64"

definition u64_sub :: "nat \<Rightarrow> nat \<Rightarrow> nat" where
  "u64_sub a b = u64 (a + (2 ^ 64 - u64 b))"

definition u32 :: "nat \<Rightarrow> nat" where
  "u32 n = n mod 2 ^ 32"

lemma u64_id: "n < 2 ^ 64 \<Longrightarrow> u64 n = n"
  by (simp add: u64_def)

lemma u32_id: "n < 2 ^ 32 \<Longrightarrow> u32 n = n"
  by (simp add: u32_def)

lemma u64_less: "u64 n < 2 ^ 64"
  by (simp add: u64_def)

lemma u64_sub_id:
  assumes "b \<le> a" and "a < 2 ^ 64"
  shows "u64_sub a b = a - b"
proof -
  have "a + (2 ^ 64 - u64 b) = (a - b) + 2 ^ 64" using assms by (simp add: u64_id)
  then have "u64_sub a b = ((a - b) + 2 ^ 64) mod 2 ^ 64" by (simp only: u64_sub_def u64_def)
  then show ?thesis using assms by (simp only: mod_add_self2) simp
qed

section \<open>Slices and patches of lists\<close>

definition slice :: "nat \<Rightarrow> nat \<Rightarrow> 'a list \<Rightarrow> 'a list" where
  "slice p k xs = take k (drop p xs)"

definition patch :: "nat \<Rightarrow> 'a list \<Rightarrow> 'a list \<Rightarrow> 'a list" where
  "patch p ys xs = take p xs @ ys @ drop (p + length ys) xs"

definition vec_resize :: "nat \<Rightarrow> byte list \<Rightarrow> byte list" where
  "vec_resize n xs = take n xs @ replicate (n - length xs) 0"

lemma length_slice [simp]: "length (slice p k xs) = min k (length xs - p)"
  by (simp add: slice_def)

lemma slice_0_all: "length xs \<le> k \<Longrightarrow> slice 0 k xs = xs"
  by (simp add: slice_def)

lemma slice_zero [simp]: "slice p 0 xs = []"
  by (simp add: slice_def)

lemma slice_append_left: "p + k \<le> length xs \<Longrightarrow> slice p k (xs @ ys) = slice p k xs"
  by (simp add: slice_def)

lemma slice_append_right:
  "length xs \<le> p \<Longrightarrow> slice p k (xs @ ys) = slice (p - length xs) k ys"
  by (simp add: slice_def)

lemma slice_middle: "length xs = p \<Longrightarrow> length ys = k \<Longrightarrow> slice p k (xs @ ys @ zs) = ys"
  by (simp add: slice_def)

lemma slice_slice:
  "j + l \<le> k \<Longrightarrow> slice j l (slice p k xs) = slice (p + j) l xs"
  by (simp add: slice_def drop_take min_def add.commute)

lemma take_slice: "j \<le> k \<Longrightarrow> take j (slice p k xs) = slice p j xs"
  by (simp add: slice_def min_def)

lemma slice_drop: "slice p k (drop q xs) = slice (q + p) k xs"
  by (simp add: slice_def add.commute)

lemma slice_add: "slice p (j + k) xs = slice p j xs @ slice (p + j) k xs"
  by (simp add: slice_def take_add add.commute)

lemma nth_slice: "i < k \<Longrightarrow> p + i < length xs \<Longrightarrow> slice p k xs ! i = xs ! (p + i)"
  by (simp add: slice_def)

lemma length_patch [simp]: "p + length ys \<le> length xs \<Longrightarrow> length (patch p ys xs) = length xs"
  by (simp add: patch_def)

lemma patch_at_end: "length xs = p \<Longrightarrow> patch p ys (xs @ zs) = xs @ ys @ drop (length ys) zs"
  by (simp add: patch_def)

lemma take_patch:
  "p + length ys \<le> n \<Longrightarrow> p + length ys \<le> length xs \<Longrightarrow>
   take n (patch p ys xs) = patch p ys (take n xs)"
  by (simp add: patch_def min_absorb1 min_absorb2 drop_take)

lemma slice_patch_same: "p \<le> length xs \<Longrightarrow> slice p (length ys) (patch p ys xs) = ys"
  by (simp add: slice_def patch_def)

lemma slice_patch_before: "q + k \<le> p \<Longrightarrow> p \<le> length xs \<Longrightarrow> slice q k (patch p ys xs) = slice q k xs"
  by (auto simp: slice_def patch_def min_def drop_take)

lemma drop_patch_after:
  "p + length ys \<le> q \<Longrightarrow> p \<le> length xs \<Longrightarrow> drop q (patch p ys xs) = drop q xs"
  by (simp add: patch_def)

lemma slice_patch_after:
  "p + length ys \<le> q \<Longrightarrow> p \<le> length xs \<Longrightarrow> slice q k (patch p ys xs) = slice q k xs"
  by (simp add: slice_def drop_patch_after)

lemma patch_commute:
  assumes "p + length ys \<le> q" and "q + length zs \<le> length xs"
  shows "patch p ys (patch q zs xs) = patch q zs (patch p ys xs)"
  using assms by (simp add: patch_def min_absorb1 min_absorb2 drop_take)

lemma patch_0: "patch 0 ys xs = ys @ drop (length ys) xs"
  by (simp add: patch_def)

lemma patch_split: "patch p (ys @ zs) xs = patch p ys (patch (p + length ys) zs xs)"
  if "p + length ys + length zs \<le> length xs"
  using that by (simp add: patch_def add.assoc)

lemma length_vec_resize [simp]: "length (vec_resize n xs) = n"
  by (simp add: vec_resize_def)

lemma take_vec_resize: "k \<le> n \<Longrightarrow> k \<le> length xs \<Longrightarrow> take k (vec_resize n xs) = take k xs"
  by (simp add: vec_resize_def)

lemma take_vec_resize_min: "take (min n (length xs)) (vec_resize n xs) = take n xs"
  by (simp add: vec_resize_def min_def)

lemmas [buf_simps] =
  slice_append_left slice_append_right take_slice slice_slice take_patch take_vec_resize

section \<open>Integers in memory\<close>

text \<open>
  The targets of the build are little-endian: \<open>le_bytes k v\<close> is the memory image of the low \<open>k\<close>
  bytes of \<open>v\<close>, \<open>le_val\<close> the value a load of those bytes has.
\<close>

fun le_bytes :: "nat \<Rightarrow> nat \<Rightarrow> byte list" where
  "le_bytes 0 v = []"
| "le_bytes (Suc k) v = of_nat v # le_bytes k (v div 256)"

fun le_val :: "byte list \<Rightarrow> nat" where
  "le_val [] = 0"
| "le_val (b # bs) = unat b + 256 * le_val bs"

lemma le_bytes_numeral:
  "le_bytes (numeral n) v = of_nat v # le_bytes (pred_numeral n) (v div 256)"
  by (simp only: numeral_eq_Suc [of n] le_bytes.simps)

lemma length_le_bytes [simp]: "length (le_bytes k v) = k"
  by (induction k arbitrary: v) auto

lemma le_bytes_eq_Nil [simp]: "le_bytes k v = [] \<longleftrightarrow> k = 0"
  by (cases k) auto

lemma unat_of_nat_byte: "unat (of_nat v :: byte) = v mod 256"
  by (simp add: unat_of_nat)

lemma unat_byte_less: "unat (b :: byte) < 256"
  using unsigned_less [of b] by simp

lemma le_val_le_bytes_mod: "le_val (le_bytes k v) = v mod 256 ^ k"
proof (induction k arbitrary: v)
  case (Suc k)
  have "v mod (256 * 256 ^ k) = 256 * (v div 256 mod 256 ^ k) + v mod 256"
    by (rule mod_mult2_eq)
  then show ?case by (simp add: Suc unat_of_nat_byte)
qed simp

lemma le_val_le_bytes: "v < 256 ^ k \<Longrightarrow> le_val (le_bytes k v) = v"
  by (simp add: le_val_le_bytes_mod)

lemma le_val_less: "le_val bs < 256 ^ length bs"
proof (induction bs)
  case (Cons b bs)
  have "unat b + 256 * le_val bs < 256 + 256 * le_val bs" using unat_byte_less [of b] by simp
  also have "\<dots> \<le> 256 * 256 ^ length bs" using Cons by simp
  finally show ?case by simp
qed simp

lemma le_bytes_le_val: "le_bytes (length bs) (le_val bs) = bs"
proof (induction bs)
  case (Cons b bs)
  have "(unat b + 256 * le_val bs) div 256 = le_val bs" using unat_byte_less [of b] by simp
  moreover have "(of_nat (unat b + 256 * le_val bs) :: byte) = b"
  proof -
    have "(of_nat 256 :: byte) = 0" by simp
    then show ?thesis by (simp only: of_nat_add of_nat_mult of_nat_unat ucast_id mult_zero_left add_0_right)
  qed
  ultimately show ?case using Cons by simp
qed simp

lemma le_val_append: "le_val (xs @ ys) = le_val xs + 256 ^ length xs * le_val ys"
  by (induction xs) (auto simp: algebra_simps)

lemma le_val_zeros [simp]: "le_val (replicate k 0) = 0"
  by (induction k) auto

text \<open>Big-endian images, as the reversal the code computes.\<close>

definition be_bytes :: "nat \<Rightarrow> nat \<Rightarrow> byte list" where
  "be_bytes k v = rev (le_bytes k v)"

definition be_val :: "byte list \<Rightarrow> nat" where
  "be_val bs = le_val (rev bs)"

lemma length_be_bytes [simp]: "length (be_bytes k v) = k"
  by (simp add: be_bytes_def)

lemma be_bytes_eq_Nil [simp]: "be_bytes k v = [] \<longleftrightarrow> k = 0"
  by (simp add: be_bytes_def)

lemma be_val_be_bytes: "v < 256 ^ k \<Longrightarrow> be_val (be_bytes k v) = v"
  by (simp add: be_val_def be_bytes_def le_val_le_bytes)

lemma be_val_less: "be_val bs < 256 ^ length bs"
  using le_val_less [of "rev bs"] by (simp add: be_val_def)

end
