(* ===== verification/Buffers.thy ===== *)
theory Buffers
  imports Prelude
begin

text \<open>
  Byte buffers of \<^verbatim>\<open>src/lib/libutils/utils/common\<close>: \<open>BufferView\<close> (a window on memory owned by
  somebody else), \<open>BufferCopy\<close> and \<open>ByteArray\<close> (an owned, growable output buffer), with the
  contract of a byte source as the locale \<open>byte_source\<close>.

  A view holds the allocation its pointer points to (\<open>None\<close> for \<^verbatim>\<open>nullptr\<close>), an offset and a
  size. \<^verbatim>\<open>operator[]\<close> is unchecked, so a read through it fails with \<open>MemFault\<close> only when it
  leaves the allocation; \<^verbatim>\<open>at\<close> checks the index against the size of the view.
  A \<open>ByteArray\<close> keeps the whole vector it owns, not only the bytes below its length: an operation
  that grows the length again exposes the bytes that were there before. Failure to allocate
  memory is not modelled.
\<close>

section \<open>BufferView\<close>

record buffer_view =
  bv_buf :: "byte list option"
  bv_from :: nat
  bv_size :: nat

definition bv_empty :: buffer_view where
  "bv_empty = \<lparr>bv_buf = None, bv_from = 0, bv_size = 0\<rparr>"

definition bv_of_ptr :: "byte list \<Rightarrow> nat \<Rightarrow> nat \<Rightarrow> buffer_view" where
  "bv_of_ptr mem sz from = \<lparr>bv_buf = Some mem, bv_from = from, bv_size = sz\<rparr>"

definition bv_of_vector :: "byte list \<Rightarrow> nat \<Rightarrow> nat \<Rightarrow> buffer_view res" where
  "bv_of_vector xs len from =
     (if xs = [] then Inl OutOfRange
      else Inr \<lparr>bv_buf = Some xs, bv_from = from, bv_size = (if len \<noteq> 0 then len else length xs)\<rparr>)"

definition bv_sub :: "buffer_view \<Rightarrow> nat \<Rightarrow> nat \<Rightarrow> buffer_view" where
  "bv_sub src len from =
     \<lparr>bv_buf = bv_buf src, bv_from = u64 (bv_from src + from), bv_size = len\<rparr>"

definition bv_to_bool :: "buffer_view \<Rightarrow> bool" where
  "bv_to_bool v \<longleftrightarrow> bv_buf v \<noteq> None"

text \<open>\<open>bv_read v off k\<close> dereferences \<open>k\<close> bytes at \<^verbatim>\<open>&v[off]\<close>.\<close>

definition bv_read :: "buffer_view \<Rightarrow> nat \<Rightarrow> nat \<Rightarrow> byte list res" where
  "bv_read v off k =
     (case bv_buf v of
        None \<Rightarrow> Inl MemFault
      | Some mem \<Rightarrow>
          (let p = u64 (bv_from v + off)
           in if p + k \<le> length mem then Inr (slice p k mem) else Inl MemFault))"

definition bv_index :: "buffer_view \<Rightarrow> nat \<Rightarrow> byte res" where
  "bv_index v idx = rbind (bv_read v idx 1) (\<lambda>bs. Inr (hd bs))"

definition bv_at :: "buffer_view \<Rightarrow> nat \<Rightarrow> byte res" where
  "bv_at v idx = (if bv_size v \<le> idx then Inl (IndexError idx (bv_size v)) else bv_index v idx)"

definition bv_at_read :: "buffer_view \<Rightarrow> nat \<Rightarrow> nat \<Rightarrow> byte list res" where
  \<comment> \<open>\<^verbatim>\<open>memcpy(_, &v.at(idx), k)\<close>: the index of the first byte is checked\<close>
  "bv_at_read v idx k =
     (if bv_size v \<le> idx then Inl (IndexError idx (bv_size v)) else bv_read v idx k)"

definition bv_vector :: "buffer_view \<Rightarrow> nat \<Rightarrow> nat \<Rightarrow> byte list res" where
  \<comment> \<open>\<^verbatim>\<open>vector(offset, length)\<close> starts at the pointer of the view and ignores its own offset\<close>
  "bv_vector v off len =
     (case bv_buf v of
        None \<Rightarrow> if len = 0 then Inr [] else Inl MemFault
      | Some mem \<Rightarrow> if off + len \<le> length mem then Inr (slice off len mem) else Inl MemFault)"

definition bv_get_offset :: "buffer_view \<Rightarrow> nat" where
  "bv_get_offset v = bv_from v"

definition bv_set_buffer :: "buffer_view \<Rightarrow> byte list \<Rightarrow> nat \<Rightarrow> buffer_view" where
  "bv_set_buffer v mem sz = v\<lparr>bv_buf := Some mem, bv_size := sz\<rparr>"

definition buffer_copy :: "buffer_view \<Rightarrow> buffer_view res" where
  "buffer_copy v =
     (if bv_size v = 0 then Inl OutOfRange
      else rbind (bv_at_read v 0 (bv_size v)) (\<lambda>bs. Inr (bv_set_buffer bv_empty bs (length bs))))"

definition bv_bytes :: "buffer_view \<Rightarrow> byte list" where
  "bv_bytes v = (case bv_buf v of None \<Rightarrow> [] | Some mem \<Rightarrow> slice (bv_from v) (bv_size v) mem)"

definition bv_wf :: "buffer_view \<Rightarrow> bool" where
  "bv_wf v \<longleftrightarrow>
     (case bv_buf v of
        None \<Rightarrow> bv_size v = 0 \<and> bv_from v = 0
      | Some mem \<Rightarrow> bv_from v + bv_size v \<le> length mem \<and> length mem < 2 ^ 64)"

text \<open>A view of a whole message.\<close>

definition bv_msg :: "byte list \<Rightarrow> buffer_view" where
  "bv_msg xs = bv_of_ptr xs (length xs) 0"

lemma bv_msg_simps [simp]:
  "bv_buf (bv_msg xs) = Some xs" "bv_from (bv_msg xs) = 0" "bv_size (bv_msg xs) = length xs"
  "bv_bytes (bv_msg xs) = xs"
  by (simp_all add: bv_msg_def bv_of_ptr_def bv_bytes_def slice_0_all)

lemma bv_wf_msg [simp]: "bv_wf (bv_msg xs) \<longleftrightarrow> length xs < 2 ^ 64"
  by (simp add: bv_wf_def)

lemma length_bv_bytes [simp]: "bv_wf v \<Longrightarrow> length (bv_bytes v) = bv_size v"
  by (auto simp: bv_wf_def bv_bytes_def split: option.splits)

lemma bv_sub_simps [simp]:
  "bv_buf (bv_sub v n f) = bv_buf v" "bv_size (bv_sub v n f) = n"
  by (simp_all add: bv_sub_def)

lemma bv_read_inside:
  assumes wf: "bv_wf v" and fits: "off + k \<le> bv_size v" and ne: "bv_buf v \<noteq> None"
  shows "bv_read v off k = Inr (slice off k (bv_bytes v))"
proof -
  from ne obtain mem where mem: "bv_buf v = Some mem" by auto
  with wf fits have le: "bv_from v + off + k \<le> length mem" and "length mem < 2 ^ 64"
    by (auto simp: bv_wf_def)
  then have "u64 (bv_from v + off) = bv_from v + off" by (intro u64_id) linarith
  with mem le fits show ?thesis
    by (simp add: bv_read_def bv_bytes_def Let_def slice_slice)
qed

lemma bv_read_msg:
  "off + k \<le> length xs \<Longrightarrow> length xs < 2 ^ 64 \<Longrightarrow> bv_read (bv_msg xs) off k = Inr (slice off k xs)"
  by (subst bv_read_inside) auto

lemma bv_at_read_inside:
  assumes "bv_wf v" and "off + k \<le> bv_size v" and "off < bv_size v"
  shows "bv_at_read v off k = Inr (slice off k (bv_bytes v))"
proof -
  from assms have "bv_buf v \<noteq> None" by (cases "bv_buf v") (auto simp: bv_wf_def)
  with assms show ?thesis by (simp add: bv_at_read_def bv_read_inside)
qed

lemma bv_wf_sub:
  assumes "bv_wf v" and "from + len \<le> bv_size v" and ne: "bv_buf v \<noteq> None"
  shows "bv_wf (bv_sub v len from)" and "bv_bytes (bv_sub v len from) = slice from len (bv_bytes v)"
    and "bv_from (bv_sub v len from) = bv_from v + from"
proof -
  from ne obtain mem where mem: "bv_buf v = Some mem" by auto
  with assms have le: "bv_from v + from + len \<le> length mem" and lt: "length mem < 2 ^ 64"
    by (auto simp: bv_wf_def)
  then have "bv_from v + from < 2 ^ 64" by linarith
  then show f: "bv_from (bv_sub v len from) = bv_from v + from"
    by (simp add: bv_sub_def u64_id)
  from mem le lt f show "bv_wf (bv_sub v len from)" by (simp add: bv_wf_def)
  from mem assms(2) f show "bv_bytes (bv_sub v len from) = slice from len (bv_bytes v)"
    by (simp add: bv_bytes_def slice_slice)
qed

lemma buffer_copy_bytes:
  assumes "bv_wf v" and "0 < bv_size v"
  shows "buffer_copy v = Inr (bv_msg (bv_bytes v))"
  using assms
  by (simp add: buffer_copy_def bv_at_read_inside slice_0_all bv_set_buffer_def bv_empty_def
      bv_msg_def bv_of_ptr_def)

section \<open>ByteArray\<close>

record byte_array =
  ba_arr :: "byte list"
  ba_len :: nat
  ba_cap :: nat
  ba_shape :: nat
  ba_owns :: bool

definition ba_new :: byte_array where
  "ba_new = \<lparr>ba_arr = [], ba_len = 0, ba_cap = 0, ba_shape = 0, ba_owns = True\<rparr>"

definition ba_with_capacity :: "nat \<Rightarrow> byte_array" where
  "ba_with_capacity c =
     \<lparr>ba_arr = vec_resize (c + 1) [], ba_len = 0, ba_cap = c, ba_shape = 0, ba_owns = True\<rparr>"

definition ba_of_string :: "byte list \<Rightarrow> byte_array res" where
  \<comment> \<open>the constructor is \<^verbatim>\<open>noexcept\<close>: the \<open>IndexError\<close> of \<^verbatim>\<open>at(0)\<close> ends the program\<close>
  "ba_of_string s =
     (if s = [] then Inl Terminate
      else Inr \<lparr>ba_arr = s, ba_len = length s, ba_cap = length s, ba_shape = 0, ba_owns = True\<rparr>)"

definition ba_transfer_ownership :: "byte_array \<Rightarrow> byte list \<times> byte_array" where
  "ba_transfer_ownership b = (ba_arr b, b\<lparr>ba_owns := False\<rparr>)"

definition ba_move :: "byte_array \<Rightarrow> byte_array \<times> byte_array" where
  "ba_move rhs =
     (let (arr, rhs') = ba_transfer_ownership rhs
      in (\<lparr>ba_arr = arr, ba_len = ba_len rhs', ba_cap = ba_cap rhs', ba_shape = ba_shape rhs',
           ba_owns = True\<rparr>, rhs'))"

definition ba_move_assign :: "byte_array \<Rightarrow> byte_array \<Rightarrow> byte_array \<times> byte_array" where
  "ba_move_assign lhs rhs =
     (let (arr, rhs') = ba_transfer_ownership rhs
      in (lhs\<lparr>ba_arr := arr, ba_len := ba_len rhs', ba_cap := ba_cap rhs', ba_shape := ba_shape rhs'\<rparr>,
          rhs'))"

definition ba_at :: "byte_array \<Rightarrow> nat \<Rightarrow> byte res" where
  "ba_at b idx =
     (if ba_len b \<le> idx then Inl (IndexError idx (ba_len b))
      else if idx < length (ba_arr b) then Inr (ba_arr b ! idx) else Inl OutOfRange)"

text \<open>Reading and writing \<open>k\<close> bytes at \<^verbatim>\<open>&b[off]\<close>, which is \<^verbatim>\<open>&b.at(off)\<close>.\<close>

definition ba_read :: "byte_array \<Rightarrow> nat \<Rightarrow> nat \<Rightarrow> byte list res" where
  "ba_read b off k =
     rbind (ba_at b off) (\<lambda>_.
       if off + k \<le> length (ba_arr b) then Inr (slice off k (ba_arr b)) else Inl MemFault)"

definition ba_poke :: "byte_array \<Rightarrow> nat \<Rightarrow> byte list \<Rightarrow> byte_array res" where
  "ba_poke b off bs =
     rbind (ba_at b off) (\<lambda>_.
       if off + length bs \<le> length (ba_arr b) then Inr (b\<lparr>ba_arr := patch off bs (ba_arr b)\<rparr>)
       else Inl MemFault)"

definition ba_reserve :: "byte_array \<Rightarrow> nat \<Rightarrow> byte_array" where
  "ba_reserve b c =
     (if ba_cap b < c then b\<lparr>ba_arr := vec_resize (c + 1) (ba_arr b), ba_cap := c\<rparr> else b)"

definition ba_resize :: "byte_array \<Rightarrow> nat \<Rightarrow> byte_array" where
  "ba_resize b n = (ba_reserve b n)\<lparr>ba_len := n\<rparr>"

definition ba_clear :: "byte_array \<Rightarrow> byte_array res" where
  \<comment> \<open>\<^verbatim>\<open>memset(byte_array(), 0, _length + 1)\<close>\<close>
  "ba_clear b =
     (if ba_len b = 0 then Inr b else ba_poke b 0 (replicate (ba_len b + 1) 0))"

definition ba_reset :: "byte_array \<Rightarrow> byte_array res" where
  "ba_reset b = ba_clear (ba_resize b 0)"

definition ba_from_array :: "byte_array \<Rightarrow> byte list \<Rightarrow> nat \<Rightarrow> nat \<Rightarrow> byte_array res" where
  "ba_from_array b src pos len =
     (let len = (if len = 0 then length src else len);
          b = (if ba_cap b < len + pos then ba_reserve b (len + pos) else b)
      in rbind (ba_clear b) (\<lambda>b.
           let b = b\<lparr>ba_len := len + pos\<rparr>
           in rbind (ba_at b pos) (\<lambda>_.
                if len \<le> length src then ba_poke b pos (take len src) else Inl MemFault)))"

definition ba_from_char_array :: "byte_array \<Rightarrow> byte list \<Rightarrow> nat \<Rightarrow> byte_array res" where
  \<comment> \<open>\<^verbatim>\<open>from_char_array\<close> and \<^verbatim>\<open>from_str\<close>: the source and its length are one list\<close>
  "ba_from_char_array b src pos =
     (let b = (if ba_cap b < length src + pos then ba_reserve b (length src + pos) else b)
      in rbind (ba_clear b) (\<lambda>b. ba_poke (b\<lparr>ba_len := length src + pos\<rparr>) pos src))"

definition ba_shift_left :: "byte_array \<Rightarrow> nat \<Rightarrow> byte_array res" where
  \<comment> \<open>the loop copies the bytes below the length from the left, each read and write checked\<close>
  "ba_shift_left b n =
     (let n = (if ba_len b < n then u64_sub (ba_len b) 1 else n);
          kept = slice n (ba_len b - n) (ba_arr b)
      in if n < ba_len b \<and> length (ba_arr b) < ba_len b then Inl OutOfRange
         else Inr (b\<lparr>ba_arr := patch 0 kept (ba_arr b), ba_len := u64_sub (ba_len b) n\<rparr>))"

definition ba_set_output :: "byte_array \<Rightarrow> byte_array" where
  "ba_set_output b = b\<lparr>ba_shape := ba_len b\<rparr>"

definition ba_copy_from_array :: "byte_array \<Rightarrow> byte list \<Rightarrow> nat \<Rightarrow> nat \<Rightarrow> nat \<Rightarrow> (byte_array \<times> nat) res" where
  "ba_copy_from_array b src off from len =
     (let total = u64 (off + len); b = ba_resize b total
      in if from + len \<le> length src \<and> off + len \<le> length (ba_arr b)
         then Inr (b\<lparr>ba_arr := patch off (slice from len src) (ba_arr b)\<rparr>, total)
         else Inl MemFault)"

definition ba_copy_from_buffer ::
  "byte_array \<Rightarrow> buffer_view \<Rightarrow> nat \<Rightarrow> nat \<Rightarrow> nat \<Rightarrow> (byte_array \<times> nat) res" where
  "ba_copy_from_buffer b v off from len =
     (let total = u64 (off + len); b = (if ba_len b < total then ba_resize b total else b)
      in rbind (ba_at b 0) (\<lambda>_. rbind (bv_at_read v from len) (\<lambda>bs.
           if off + len \<le> length (ba_arr b)
           then Inr (b\<lparr>ba_arr := patch off bs (ba_arr b)\<rparr>, total) else Inl MemFault)))"

definition ba_append :: "byte_array \<Rightarrow> byte_array \<Rightarrow> byte_array res" where
  "ba_append b other =
     rbind (ba_copy_from_array b (ba_arr other) (ba_len b) 0 (ba_len other)) (\<lambda>(b, _). Inr b)"

definition ba_append_view :: "byte_array \<Rightarrow> buffer_view \<Rightarrow> byte_array res" where
  "ba_append_view b v =
     (let origin = ba_len b; b = ba_resize b (u64 (origin + bv_size v))
      in rbind (ba_at b 0) (\<lambda>_. rbind (bv_at_read v 0 (bv_size v)) (\<lambda>bs.
           if origin + bv_size v \<le> length (ba_arr b)
           then Inr (b\<lparr>ba_arr := patch origin bs (ba_arr b)\<rparr>) else Inl MemFault)))"

subsection \<open>Invariant and contents\<close>

definition ba_wf :: "byte_array \<Rightarrow> bool" where
  "ba_wf b \<longleftrightarrow> ba_len b \<le> ba_cap b \<and> ba_cap b \<le> length (ba_arr b)"

definition ba_bytes :: "byte_array \<Rightarrow> byte list" where
  "ba_bytes b = take (ba_len b) (ba_arr b)"

lemma length_ba_bytes [simp]: "ba_wf b \<Longrightarrow> length (ba_bytes b) = ba_len b"
  by (simp add: ba_wf_def ba_bytes_def)

lemma ba_wf_new [wf_intros, simp]: "ba_wf ba_new"
  by (simp add: ba_wf_def ba_new_def)

lemma ba_wf_with_capacity [wf_intros, simp]: "ba_wf (ba_with_capacity c)"
  by (simp add: ba_wf_def ba_with_capacity_def)

lemma ba_wf_reserve [wf_intros, simp]: "ba_wf b \<Longrightarrow> ba_wf (ba_reserve b c)"
  by (auto simp: ba_wf_def ba_reserve_def)

lemma ba_wf_resize [wf_intros, simp]: "ba_wf b \<Longrightarrow> ba_wf (ba_resize b n)"
  by (auto simp: ba_wf_def ba_resize_def ba_reserve_def)

lemma ba_wf_set_output [wf_intros, simp]: "ba_wf (ba_set_output b) \<longleftrightarrow> ba_wf b"
  by (simp add: ba_wf_def ba_set_output_def)

lemma ba_resize_simps [simp]:
  "ba_len (ba_resize b n) = n"
  "ba_cap (ba_resize b n) = max (ba_cap b) n"
  by (auto simp: ba_resize_def ba_reserve_def)

lemma ba_reserve_simps [simp]:
  "ba_len (ba_reserve b n) = ba_len b"
  "ba_cap (ba_reserve b n) = max (ba_cap b) n"
  by (auto simp: ba_reserve_def)

lemma take_arr_resize:
  assumes "ba_wf b" and "k \<le> ba_len b"
  shows "take k (ba_arr (ba_resize b n)) = take k (ba_arr b)"
  using assms by (auto simp: ba_resize_def ba_reserve_def ba_wf_def take_vec_resize)

lemma ba_bytes_reserve [simp]: "ba_wf b \<Longrightarrow> ba_bytes (ba_reserve b n) = ba_bytes b"
  by (auto simp: ba_bytes_def ba_reserve_def ba_wf_def take_vec_resize)

lemma ba_bytes_set_output [simp]: "ba_bytes (ba_set_output b) = ba_bytes b"
  by (simp add: ba_bytes_def ba_set_output_def)

lemma ba_bytes_resize_take:
  "ba_wf b \<Longrightarrow> k \<le> n \<Longrightarrow> k \<le> ba_len b \<Longrightarrow> take k (ba_bytes (ba_resize b n)) = take k (ba_bytes b)"
  by (simp add: ba_bytes_def take_arr_resize min_absorb1)

lemma ba_bytes_resize_shrink:
  "ba_wf b \<Longrightarrow> n \<le> ba_len b \<Longrightarrow> ba_bytes (ba_resize b n) = take n (ba_bytes b)"
  by (simp add: ba_bytes_def take_arr_resize min_absorb1)

lemma ba_bytes_eqI:
  "ba_arr b = ba_arr b' \<Longrightarrow> ba_len b = ba_len b' \<Longrightarrow> ba_bytes b = ba_bytes b'"
  by (simp add: ba_bytes_def)

lemma ba_at_inside: "ba_wf b \<Longrightarrow> idx < ba_len b \<Longrightarrow> ba_at b idx = Inr (ba_bytes b ! idx)"
  by (simp add: ba_at_def ba_wf_def ba_bytes_def)

lemma ba_read_inside:
  "ba_wf b \<Longrightarrow> off + k \<le> ba_len b \<Longrightarrow> off < ba_len b \<Longrightarrow> ba_read b off k = Inr (slice off k (ba_bytes b))"
  by (simp add: ba_read_def ba_at_inside ba_wf_def ba_bytes_def slice_def drop_take min_def)

lemma ba_poke_inside:
  assumes "ba_wf b" and "off + length bs \<le> ba_len b" and "off < ba_len b"
  obtains b' where "ba_poke b off bs = Inr b'" and "ba_wf b'" and "ba_len b' = ba_len b"
    and "ba_cap b' = ba_cap b" and "ba_bytes b' = patch off bs (ba_bytes b)"
proof
  show "ba_poke b off bs = Inr (b\<lparr>ba_arr := patch off bs (ba_arr b)\<rparr>)"
    using assms by (simp add: ba_poke_def ba_at_inside) (simp add: ba_wf_def)
qed (use assms in \<open>auto simp: ba_wf_def ba_bytes_def take_patch\<close>)

lemma ba_wf_poked:
  assumes "ba_wf b" and "p + length ys \<le> ba_len b"
  shows "ba_wf (b\<lparr>ba_arr := patch p ys (ba_arr b)\<rparr>)"
    and "ba_bytes (b\<lparr>ba_arr := patch p ys (ba_arr b)\<rparr>) = patch p ys (ba_bytes b)"
  using assms by (auto simp: ba_wf_def ba_bytes_def take_patch)

lemma patch_resize_end:
  assumes "ba_wf b" and "n = ba_len b + length ys"
  shows "patch (ba_len b) ys (ba_bytes (ba_resize b n)) = ba_bytes b @ ys"
proof -
  have "take (ba_len b) (ba_bytes (ba_resize b n)) = ba_bytes b"
    using assms ba_bytes_resize_take [of b "ba_len b" n] by simp
  moreover have "drop n (ba_bytes (ba_resize b n)) = []" using assms by simp
  ultimately show ?thesis using assms by (simp add: patch_def)
qed

lemma ba_copy_from_buffer_spec:
  assumes "ba_wf b" and "bv_wf v" and "0 < len" and "from + len \<le> bv_size v" and "off + len < 2 ^ 64"
  obtains b' where "ba_copy_from_buffer b v off from len = Inr (b', off + len)" and "ba_wf b'"
    and "ba_len b' = max (ba_len b) (off + len)"
    and "ba_bytes b' = patch off (slice from len (bv_bytes v))
           (ba_bytes (if ba_len b < off + len then ba_resize b (off + len) else b))"
proof -
  define b1 where "b1 = (if ba_len b < off + len then ba_resize b (off + len) else b)"
  have b1: "ba_wf b1" "ba_len b1 = max (ba_len b) (off + len)" using assms(1) by (auto simp: b1_def)
  define bs where "bs = slice from len (bv_bytes v)"
  have lbs: "length bs = len" using assms(2,4) by (simp add: bs_def)
  have at: "ba_at b1 0 = Inr (ba_bytes b1 ! 0)" using b1 assms(3) by (intro ba_at_inside) auto
  have rd: "bv_at_read v from len = Inr bs"
    using assms(2-4) by (auto simp: bs_def intro: bv_at_read_inside)
  have fits: "off + len \<le> length (ba_arr b1)" using b1 by (simp add: ba_wf_def)
  have "ba_copy_from_buffer b v off from len = Inr (b1\<lparr>ba_arr := patch off bs (ba_arr b1)\<rparr>, off + len)"
    using assms(5) at rd fits by (simp add: ba_copy_from_buffer_def Let_def u64_id flip: b1_def)
  then show thesis
    using that b1 ba_wf_poked [of b1 off bs] lbs by (simp add: bs_def b1_def)
qed

lemma ba_copy_from_buffer_append:
  assumes "ba_wf b" and "bv_wf v" and "0 < len" and "from + len \<le> bv_size v"
    and "off = ba_len b" and "off + len < 2 ^ 64"
  obtains b' where "ba_copy_from_buffer b v off from len = Inr (b', off + len)" and "ba_wf b'"
    and "ba_bytes b' = ba_bytes b @ slice from len (bv_bytes v)"
proof -
  from assms obtain b' where b': "ba_copy_from_buffer b v off from len = Inr (b', off + len)" "ba_wf b'"
    "ba_bytes b' = patch off (slice from len (bv_bytes v)) (ba_bytes (ba_resize b (off + len)))"
    using ba_copy_from_buffer_spec [of b v len "from" off] by auto
  then show thesis using that assms patch_resize_end [of b "off + len" "slice from len (bv_bytes v)"] by simp
qed

lemma ba_copy_from_array_append:
  assumes "ba_wf b" and "from + len \<le> length src" and "ba_len b + len < 2 ^ 64"
  obtains b' where "ba_copy_from_array b src (ba_len b) from len = Inr (b', ba_len b + len)"
    and "ba_wf b'" and "ba_bytes b' = ba_bytes b @ slice from len src"
proof -
  let ?n = "ba_len b + len" and ?ys = "slice from len src"
  have ly: "length ?ys = len" using assms(2) by simp
  have wf: "ba_wf (ba_resize b ?n)" using assms(1) by simp
  then have "?n \<le> length (ba_arr (ba_resize b ?n))" by (simp add: ba_wf_def)
  then have "ba_copy_from_array b src (ba_len b) from len =
      Inr ((ba_resize b ?n)\<lparr>ba_arr := patch (ba_len b) ?ys (ba_arr (ba_resize b ?n))\<rparr>, ?n)"
    using assms by (simp add: ba_copy_from_array_def Let_def u64_id)
  then show thesis
    using that ba_wf_poked [OF wf, of "ba_len b" ?ys] patch_resize_end [OF assms(1), of ?n ?ys] ly by simp
qed

subsection \<open>Zeroing\<close>

text \<open>
  \<^verbatim>\<open>clear\<close> writes one byte beyond the length. That byte exists in every array that was allocated
  by its capacity, and the operations keep it.
\<close>

definition ba_has_spare :: "byte_array \<Rightarrow> bool" where
  "ba_has_spare b \<longleftrightarrow> ba_wf b \<and> (ba_cap b = 0 \<or> ba_cap b < length (ba_arr b))"

lemma ba_has_spare_base [wf_intros]:
  "ba_has_spare ba_new" "ba_has_spare (ba_with_capacity c)"
  by (auto simp: ba_has_spare_def ba_new_def ba_with_capacity_def ba_wf_def)

lemma ba_has_spare_resize [wf_intros]:
  "ba_has_spare b \<Longrightarrow> ba_has_spare (ba_reserve b n)" "ba_has_spare b \<Longrightarrow> ba_has_spare (ba_resize b n)"
  by (auto simp: ba_has_spare_def ba_wf_def ba_resize_def ba_reserve_def)

lemma ba_clear_in_bounds:
  assumes "ba_has_spare b"
  obtains b' where "ba_clear b = Inr b'" and "ba_has_spare b'" and "ba_len b' = ba_len b"
    and "ba_cap b' = ba_cap b" and "ba_bytes b' = replicate (ba_len b) 0"
proof (cases "ba_len b = 0")
  case True
  then show thesis using that [of b] assms by (simp add: ba_clear_def ba_bytes_def)
next
  case False
  have fits: "ba_len b + 1 \<le> length (ba_arr b)" using assms False by (auto simp: ba_has_spare_def ba_wf_def)
  then have "ba_clear b = Inr (b\<lparr>ba_arr := patch 0 (replicate (ba_len b + 1) 0) (ba_arr b)\<rparr>)"
    using False by (auto simp: ba_clear_def ba_poke_def ba_at_def)
  moreover have "take (ba_len b) (patch 0 (replicate (ba_len b + 1) 0) (ba_arr b)) = replicate (ba_len b) 0"
    by (simp add: patch_0 take_Cons' take_replicate flip: replicate_Suc)
  ultimately show thesis
    using that assms fits by (auto simp: ba_has_spare_def ba_wf_def ba_bytes_def)
qed

section \<open>Contracts of buffers\<close>

text \<open>
  The helpers that read and write integers are templates over the buffer class. What they rely on
  is a locale: a \<open>byte_source\<close> hands out the bytes of its contents, a \<open>byte_sink\<close> can be resized
  without losing its prefix and overwritten in place. Vectors are sinks, views are sources, byte
  arrays are both.
\<close>

locale byte_source =
  fixes rd :: "'s \<Rightarrow> nat \<Rightarrow> nat \<Rightarrow> byte list res"
    and bytes :: "'s \<Rightarrow> byte list"
    and wf :: "'s \<Rightarrow> bool"
  assumes rd_inside:
      "\<lbrakk>wf s; 0 < k; off + k \<le> length (bytes s)\<rbrakk> \<Longrightarrow> rd s off k = Inr (slice off k (bytes s))"
    and bytes_small: "wf s \<Longrightarrow> length (bytes s) < 2 ^ 64"
begin

lemma rd_middle:
  assumes "wf s" and "bytes s = pre @ ys @ post" and "ys \<noteq> []"
  shows "rd s (length pre) (length ys) = Inr ys"
  using assms by (subst rd_inside) (auto simp: slice_middle)

lemma offset_small:
  assumes "wf s" and "bytes s = pre @ ys @ post"
  shows "u64 (length pre + length ys) = length pre + length ys"
  using bytes_small [OF assms(1)] assms(2) by (intro u64_id) simp

end

text \<open>Grow when needed, then write: the common shape of every setter.\<close>

definition buf_store ::
  "('s \<Rightarrow> nat) \<Rightarrow> ('s \<Rightarrow> nat \<Rightarrow> 's) \<Rightarrow> ('s \<Rightarrow> nat \<Rightarrow> byte list \<Rightarrow> 's res) \<Rightarrow> 's \<Rightarrow> nat \<Rightarrow> byte list \<Rightarrow> ('s \<times> nat) res"
where
  "buf_store sz rsz pk s off bs =
     (let fin = u64 (off + length bs)
      in rbind (pk (if sz s < fin then rsz s fin else s) off bs) (\<lambda>s. Inr (s, fin)))"

locale byte_sink =
  fixes sz :: "'s \<Rightarrow> nat"
    and rsz :: "'s \<Rightarrow> nat \<Rightarrow> 's"
    and pk :: "'s \<Rightarrow> nat \<Rightarrow> byte list \<Rightarrow> 's res"
    and bytes :: "'s \<Rightarrow> byte list"
    and wf :: "'s \<Rightarrow> bool"
  assumes sz_bytes: "wf s \<Longrightarrow> sz s = length (bytes s)"
    and rsz_wf: "wf s \<Longrightarrow> wf (rsz s n)"
    and rsz_length: "wf s \<Longrightarrow> length (bytes (rsz s n)) = n"
    and rsz_prefix: "\<lbrakk>wf s; k \<le> n; k \<le> length (bytes s)\<rbrakk> \<Longrightarrow> take k (bytes (rsz s n)) = take k (bytes s)"
    and pk_inside: "\<lbrakk>wf s; bs \<noteq> []; off + length bs \<le> length (bytes s)\<rbrakk> \<Longrightarrow>
      \<exists>s'. pk s off bs = Inr s' \<and> wf s' \<and> bytes s' = patch off bs (bytes s)"
begin

lemma store_inside:
  assumes "wf s" and "bs \<noteq> []" and "off + length bs \<le> length (bytes s)" and "length (bytes s) < 2 ^ 64"
  shows "\<exists>s'. buf_store sz rsz pk s off bs = Inr (s', off + length bs) \<and> wf s' \<and>
    bytes s' = patch off bs (bytes s)"
  using assms pk_inside [of s bs off] by (auto simp: buf_store_def sz_bytes u64_id)

lemma store_append:
  assumes "wf s" and "bs \<noteq> []" and "length (bytes s) + length bs < 2 ^ 64"
  shows "\<exists>s'. buf_store sz rsz pk s (length (bytes s)) bs = Inr (s', length (bytes s) + length bs) \<and>
    wf s' \<and> bytes s' = bytes s @ bs"
proof -
  let ?n = "length (bytes s) + length bs" and ?p = "length (bytes s)"
  have eq: "buf_store sz rsz pk s ?p bs = rbind (pk (rsz s ?n) ?p bs) (\<lambda>s. Inr (s, ?n))"
    using assms by (simp add: buf_store_def Let_def sz_bytes u64_id)
  obtain s' where s': "pk (rsz s ?n) ?p bs = Inr s'" "wf s'" "bytes s' = patch ?p bs (bytes (rsz s ?n))"
    using pk_inside [of "rsz s ?n" bs ?p] assms by (auto simp: rsz_wf rsz_length)
  have "take ?p (bytes (rsz s ?n)) = bytes s" using rsz_prefix [of s ?p ?n] assms(1) by simp
  then have "bytes s' = bytes s @ bs" using s'(3) rsz_length [OF assms(1), of ?n] by (simp add: patch_def)
  with eq s' show ?thesis by simp
qed

end

definition vec_poke :: "byte list \<Rightarrow> nat \<Rightarrow> byte list \<Rightarrow> byte list res" where
  \<comment> \<open>a write through \<^verbatim>\<open>&v[off]\<close> of a \<^verbatim>\<open>std::vector\<close>\<close>
  "vec_poke xs off bs =
     (if off + length bs \<le> length xs then Inr (patch off bs xs) else Inl MemFault)"

definition vec_read :: "byte list \<Rightarrow> nat \<Rightarrow> nat \<Rightarrow> byte list res" where
  "vec_read xs off k = (if off + k \<le> length xs then Inr (slice off k xs) else Inl MemFault)"

definition bv_ok :: "buffer_view \<Rightarrow> bool" where
  "bv_ok v \<longleftrightarrow> bv_wf v \<and> bv_buf v \<noteq> None"

definition ba_ok :: "byte_array \<Rightarrow> bool" where
  "ba_ok b \<longleftrightarrow> ba_wf b \<and> ba_len b < 2 ^ 64"

lemma bv_size_less: "bv_wf v \<Longrightarrow> bv_size v < 2 ^ 64"
  by (cases "bv_buf v") (auto simp: bv_wf_def)

lemma bv_ok_msg [simp]: "bv_ok (bv_msg xs) \<longleftrightarrow> length xs < 2 ^ 64"
  by (simp add: bv_ok_def)

interpretation bvs: byte_source bv_read bv_bytes bv_ok
  by unfold_locales (auto simp: bv_ok_def bv_read_inside simp del: One_nat_def dest: bv_size_less)

interpretation bas: byte_source ba_read ba_bytes ba_ok
  by unfold_locales (auto simp: ba_ok_def ba_read_inside)

interpretation vecs: byte_source vec_read "\<lambda>xs. xs" "\<lambda>xs. length xs < 2 ^ 64"
  by unfold_locales (auto simp: vec_read_def)

interpretation bak: byte_sink ba_len ba_resize ba_poke ba_bytes ba_wf
proof unfold_locales
  fix s :: byte_array and bs :: "byte list" and off
  assume "ba_wf s" "bs \<noteq> []" "off + length bs \<le> length (ba_bytes s)"
  then show "\<exists>s'. ba_poke s off bs = Inr s' \<and> ba_wf s' \<and> ba_bytes s' = patch off bs (ba_bytes s)"
    by (metis add_leD1 add_less_cancel_left ba_poke_inside le_trans length_ba_bytes length_greater_0_conv
        less_add_same_cancel1 order.strict_trans2)
qed (auto simp: ba_bytes_resize_take)

interpretation veck: byte_sink length "\<lambda>xs n. vec_resize n xs" vec_poke "\<lambda>xs. xs" "\<lambda>_. True"
  by unfold_locales (auto simp: vec_poke_def take_vec_resize)

end
