(* ===== verification/BufferHelper.thy ===== *)
theory BufferHelper
  imports Buffers
begin

text \<open>
  The integer codecs of \<^verbatim>\<open>src/lib/libutils/utils/common/buffer_helper.h\<close> and
  \<^verbatim>\<open>buffer_helper.cpp\<close>. The width of the C++ type argument is the argument \<open>k\<close> (in bytes), the
  buffer class is the reader \<open>rd\<close> of the getters and the triple \<open>sz rsz pk\<close> (\<^verbatim>\<open>size\<close>,
  \<^verbatim>\<open>resize\<close>, a write through \<^verbatim>\<open>&buffer[i]\<close>) of the setters. The laws of both are those of the
  locales of theory \<open>Buffers\<close>, and the lemmas on the codecs are proved inside them.
\<close>

type_synonym reader = "nat \<Rightarrow> nat \<Rightarrow> byte list res"

definition get_le :: "reader \<Rightarrow> nat \<Rightarrow> nat \<Rightarrow> (nat \<times> nat) res" where
  "get_le rd k off = rbind (rd off k) (\<lambda>bs. Inr (le_val bs, u64 (k + off)))"

definition get_be :: "reader \<Rightarrow> nat \<Rightarrow> nat \<Rightarrow> (nat \<times> nat) res" where
  "get_be rd k off = rbind (rd off k) (\<lambda>bs. Inr (le_val (rev bs), u64 (off + k)))"

definition get_be_sized :: "reader \<Rightarrow> nat \<Rightarrow> nat \<Rightarrow> nat \<Rightarrow> (nat \<times> nat) res" where
  \<comment> \<open>the bytes are copied to the end of an array of \<open>k\<close> zeros, which is then reversed\<close>
  "get_be_sized rd k off n =
     (if k < n then Inl MemFault
      else rbind (rd off n) (\<lambda>bs. Inr (le_val (rev (replicate (k - n) 0 @ bs)), u64 (off + n))))"

definition set_le ::
  "('s \<Rightarrow> nat) \<Rightarrow> ('s \<Rightarrow> nat \<Rightarrow> 's) \<Rightarrow> ('s \<Rightarrow> nat \<Rightarrow> byte list \<Rightarrow> 's res) \<Rightarrow> nat \<Rightarrow> 's \<Rightarrow> nat \<Rightarrow> nat \<Rightarrow> ('s \<times> nat) res"
where
  "set_le sz rsz pk k s v off = buf_store sz rsz pk s off (le_bytes k v)"

definition set_be ::
  "('s \<Rightarrow> nat) \<Rightarrow> ('s \<Rightarrow> nat \<Rightarrow> 's) \<Rightarrow> ('s \<Rightarrow> nat \<Rightarrow> byte list \<Rightarrow> 's res) \<Rightarrow> nat \<Rightarrow> 's \<Rightarrow> nat \<Rightarrow> nat \<Rightarrow> ('s \<times> nat) res"
where
  "set_be sz rsz pk k s v off = buf_store sz rsz pk s off (rev (le_bytes k v))"

definition set_be_sized ::
  "('s \<Rightarrow> nat) \<Rightarrow> ('s \<Rightarrow> nat \<Rightarrow> 's) \<Rightarrow> ('s \<Rightarrow> nat \<Rightarrow> byte list \<Rightarrow> 's res) \<Rightarrow> nat \<Rightarrow> 's \<Rightarrow> nat \<Rightarrow> nat \<Rightarrow> nat \<Rightarrow> ('s \<times> nat) res"
where
  "set_be_sized sz rsz pk k s v off n =
     (if k < n then Inl MemFault
      else let arr = rev (replicate (k - n) 0 @ take n (le_bytes k v))
           in buf_store sz rsz pk s off (take n arr))"

definition get_compact_short_id :: "reader \<Rightarrow> nat \<Rightarrow> (nat \<times> nat) res" where
  "get_compact_short_id rd off =
     rbind (rd off 6) (\<lambda>bs. Inr (le_val (patch 0 bs (replicate 8 0)), u64 (off + 6)))"

abbreviation ba_set_le :: "nat \<Rightarrow> byte_array \<Rightarrow> nat \<Rightarrow> nat \<Rightarrow> (byte_array \<times> nat) res" where
  "ba_set_le \<equiv> set_le ba_len ba_resize ba_poke"

section \<open>Codecs over a source\<close>

lemma take_le_bytes: "n \<le> k \<Longrightarrow> take n (le_bytes k v) = le_bytes n v"
proof (induction k arbitrary: n v)
  case (Suc k)
  then show ?case by (cases n) auto
qed simp

context byte_source
begin

lemma get_le_at:
  assumes "wf s" and "bytes s = pre @ ys @ post" and "ys \<noteq> []"
  shows "get_le (rd s) (length ys) (length pre) = Inr (le_val ys, length pre + length ys)"
  using assms by (simp add: get_le_def rd_middle offset_small add.commute [of "length ys"])

lemma get_be_at:
  assumes "wf s" and "bytes s = pre @ ys @ post" and "ys \<noteq> []"
  shows "get_be (rd s) (length ys) (length pre) = Inr (be_val ys, length pre + length ys)"
  using assms by (simp add: get_be_def rd_middle offset_small be_val_def)

lemma get_be_sized_at:
  assumes "wf s" and "bytes s = pre @ ys @ post" and "ys \<noteq> []" and "length ys \<le> k"
  shows "get_be_sized (rd s) k (length pre) (length ys) = Inr (be_val ys, length pre + length ys)"
  using assms
  by (simp add: get_be_sized_def rd_middle offset_small be_val_def le_val_append)

lemma get_le_inside:
  assumes "wf s" and "0 < k" and "off + k \<le> length (bytes s)"
  shows "get_le (rd s) k off = Inr (le_val (slice off k (bytes s)), off + k)"
proof -
  have "u64 (k + off) = off + k" using assms bytes_small [of s] by (simp add: u64_id)
  with assms show ?thesis by (simp add: get_le_def rd_inside)
qed

lemma get_compact_short_id_at:
  assumes "wf s" and "bytes s = pre @ ys @ post" and "length ys = 6"
  shows "get_compact_short_id (rd s) (length pre) = Inr (le_val ys, length pre + 6)"
proof -
  have "rd s (length pre) 6 = Inr ys" using rd_middle [OF assms(1,2)] assms(3) by force
  moreover have "u64 (length pre + 6) = length pre + 6"
    using offset_small [OF assms(1,2)] assms(3) by simp
  moreover have "le_val (patch 0 ys (replicate 8 0)) = le_val ys"
    by (simp add: patch_0 le_val_append drop_replicate)
  ultimately show ?thesis by (simp add: get_compact_short_id_def)
qed

end

context byte_sink
begin

lemma set_le_append:
  assumes "wf s" and "0 < k" and "length (bytes s) + k < 2 ^ 64" and "off = length (bytes s)"
  shows "\<exists>s'. set_le sz rsz pk k s v off = Inr (s', off + k) \<and> wf s' \<and>
    bytes s' = bytes s @ le_bytes k v"
  using store_append [of s "le_bytes k v"] assms by (simp add: set_le_def)

lemma set_le_inside:
  assumes "wf s" and "0 < k" and "off + k \<le> length (bytes s)" and "length (bytes s) < 2 ^ 64"
  shows "\<exists>s'. set_le sz rsz pk k s v off = Inr (s', off + k) \<and> wf s' \<and>
    bytes s' = patch off (le_bytes k v) (bytes s)"
  using store_inside [of s "le_bytes k v" off] assms by (simp add: set_le_def)

lemma set_be_append:
  assumes "wf s" and "0 < k" and "length (bytes s) + k < 2 ^ 64" and "off = length (bytes s)"
  shows "\<exists>s'. set_be sz rsz pk k s v off = Inr (s', off + k) \<and> wf s' \<and>
    bytes s' = bytes s @ be_bytes k v"
  using store_append [of s "be_bytes k v"] assms by (simp add: set_be_def flip: be_bytes_def)

lemma set_be_sized_append:
  assumes "wf s" and "0 < n" and "n \<le> k" and "length (bytes s) + n < 2 ^ 64" and "off = length (bytes s)"
  shows "\<exists>s'. set_be_sized sz rsz pk k s v off n = Inr (s', off + n) \<and> wf s' \<and>
    bytes s' = bytes s @ be_bytes n v"
  using store_append [of s "be_bytes n v"] assms
  by (simp add: set_be_sized_def take_le_bytes flip: be_bytes_def)

end

end
