(* ===== verification/Rlp.thy ===== *)
theory Rlp
  imports BufferHelper
begin

text \<open>
  The recursive length prefix encoding of Ethereum: \<^verbatim>\<open>src/lib/libutils/utils/encoding/rlp_encoder.h\<close>,
  \<^verbatim>\<open>rlp_encoder.cpp\<close> and the class \<open>Rlp\<close> of \<^verbatim>\<open>rlp.cpp\<close>.

  The encoder functions are templates over the buffer, like those of theory \<open>BufferHelper\<close>. The
  loop that splits a list into its items advances by a length it reads from the message, with the
  wrap-around of \<^verbatim>\<open>size_t\<close>: it is a partial function, whose value \<open>None\<close> means that the loop does
  not end.
\<close>

section \<open>rlp_encoder\<close>

definition RLP_BYTE :: nat where "RLP_BYTE = 1"
definition RLP_STRING :: nat where "RLP_STRING = 2"
definition RLP_LIST :: nat where "RLP_LIST = 3"

definition RLP_STR_ENCODING_TYPE :: nat where "RLP_STR_ENCODING_TYPE = 128"
definition RLP_LIST_ENCODING_TYPE :: nat where "RLP_LIST_ENCODING_TYPE = 192"

lemmas rlp_consts = RLP_BYTE_def RLP_STRING_def RLP_LIST_def RLP_STR_ENCODING_TYPE_def RLP_LIST_ENCODING_TYPE_def

fun length_bytes_loop :: "nat \<Rightarrow> nat \<Rightarrow> nat \<Rightarrow> nat \<Rightarrow> nat" where
  \<comment> \<open>the turns that are left, \<^verbatim>\<open>i\<close>, \<^verbatim>\<open>current_mask\<close>, \<^verbatim>\<open>length\<close>\<close>
  "length_bytes_loop 0 i current_mask len = 8"
| "length_bytes_loop (Suc n) i current_mask len =
     (if len < current_mask then i else length_bytes_loop n (i + 1) (u64 (current_mask * 2 ^ 8)) len)"

definition get_length_bytes_size :: "nat \<Rightarrow> nat" where
  "get_length_bytes_size len = length_bytes_loop 4 1 (2 ^ 8) len"

definition set_big_endian_rlp_value ::
  "('s \<Rightarrow> nat) \<Rightarrow> ('s \<Rightarrow> nat \<Rightarrow> 's) \<Rightarrow> ('s \<Rightarrow> nat \<Rightarrow> byte list \<Rightarrow> 's res) \<Rightarrow> 's \<Rightarrow> nat \<Rightarrow> nat \<Rightarrow> nat \<Rightarrow> ('s \<times> nat) res"
where
  "set_big_endian_rlp_value sz rsz pk s v off len =
     (if 8 < len then set_be_sized sz rsz pk 16 s v off len
      else if 4 < len then set_be_sized sz rsz pk 8 s v off len
      else if 2 < len then set_be_sized sz rsz pk 4 s v off len
      else if 1 < len then set_be_sized sz rsz pk 2 s v off len
      else if 0 < len then set_be_sized sz rsz pk 1 s v off len
      else Inr (s, off))"

definition get_length_prefix ::
  "('s \<Rightarrow> nat) \<Rightarrow> ('s \<Rightarrow> nat \<Rightarrow> 's) \<Rightarrow> ('s \<Rightarrow> nat \<Rightarrow> byte list \<Rightarrow> 's res) \<Rightarrow> 's \<Rightarrow> nat \<Rightarrow> nat \<Rightarrow> nat \<Rightarrow> ('s \<times> nat) res"
where
  "get_length_prefix sz rsz pk s v off encoding_type =
     (let length_size = get_length_bytes_size v
      in if v < 56 then set_be_sized sz rsz pk 1 s ((encoding_type + v) mod 256) off length_size
         else rbind (set_be_sized sz rsz pk 1 s ((encoding_type + 56 - 1 + length_size) mod 256) off 1) (\<lambda>(s, off).
                set_big_endian_rlp_value sz rsz pk s v off length_size))"

definition get_length_prefix_str where
  "get_length_prefix_str sz rsz pk s v off = get_length_prefix sz rsz pk s v off RLP_STR_ENCODING_TYPE"

definition get_length_prefix_list where
  "get_length_prefix_list sz rsz pk s v off = get_length_prefix sz rsz pk s v off RLP_LIST_ENCODING_TYPE"

definition encode_int ::
  "('s \<Rightarrow> nat) \<Rightarrow> ('s \<Rightarrow> nat \<Rightarrow> 's) \<Rightarrow> ('s \<Rightarrow> nat \<Rightarrow> byte list \<Rightarrow> 's res) \<Rightarrow> 's \<Rightarrow> nat \<Rightarrow> nat \<Rightarrow> ('s \<times> nat) res"
where
  "encode_int sz rsz pk s v off =
     (let length_size = get_length_bytes_size v
      in rbind (if 128 \<le> v then get_length_prefix_str sz rsz pk s length_size off else Inr (s, off)) (\<lambda>(s, off).
           set_big_endian_rlp_value sz rsz pk s v off length_size))"

definition get_big_endian_rlp_value :: "reader \<Rightarrow> nat \<Rightarrow> nat \<Rightarrow> (nat \<times> nat) res" where
  "get_big_endian_rlp_value rd off len =
     (if 8 < len then rbind (get_be_sized rd 16 off len) (\<lambda>(v, off). Inr (u64 v, off))
      else if 4 < len then get_be_sized rd 8 off len
      else if 2 < len then get_be_sized rd 4 off len
      else if 1 < len then get_be_sized rd 2 off len
      else if 0 < len then get_be_sized rd 1 off len
      else Inr (0, off))"

fun get_big_endian_rlp_large_value :: "reader \<Rightarrow> nat \<Rightarrow> nat \<Rightarrow> nat list \<Rightarrow> (nat list \<times> nat \<times> nat) res" where
  \<comment> \<open>the values, the last of them, and the offset\<close>
  "get_big_endian_rlp_large_value rd off len values =
     (if 8 < len then
        rbind (get_be_sized rd 8 off 8) (\<lambda>(v, off). get_big_endian_rlp_large_value rd off (len - 8) (values @ [v]))
      else rbind (get_big_endian_rlp_value rd off len) (\<lambda>(v, off). Inr (values @ [v], v, off)))"

declare get_big_endian_rlp_large_value.simps [simp del]

definition rd_byte :: "reader \<Rightarrow> nat \<Rightarrow> nat res" where
  \<comment> \<open>\<^verbatim>\<open>rlp_buf[offset]\<close>\<close>
  "rd_byte rd off = rbind (rd off 1) (\<lambda>bs. Inr (unat (hd bs)))"

definition long_length :: "reader \<Rightarrow> nat \<Rightarrow> nat \<Rightarrow> (nat \<times> nat) res" where
  \<comment> \<open>the two branches for a length of \<open>ll\<close> bytes; neither a leading zero nor a short length is accepted\<close>
  "long_length rd off ll =
     rbind (rd_byte rd (u64 (off + 1))) (\<lambda>b1.
     if b1 = 0 then Inl ParserError
     else rbind (get_big_endian_rlp_value rd (u64 (off + 1)) ll) (\<lambda>(len, off).
            if len < 56 then Inl ParserError else Inr (len, off)))"

definition consume_length_prefix :: "reader \<Rightarrow> nat \<Rightarrow> nat \<Rightarrow> (nat \<times> nat \<times> nat) res" where
  \<comment> \<open>reader and size of the buffer, offset; the result is the length, the type and the offset of the payload\<close>
  "consume_length_prefix rd buf_size off =
     (if buf_size \<le> off then Inl ParserError
      else rbind (rd_byte rd off) (\<lambda>b0.
        if b0 < 128 then Inr (1, RLP_BYTE, off)
        else if b0 < 128 + 56 then
          rbind (if b0 - 128 = 1
                 then rbind (rd_byte rd (u64 (off + 1))) (\<lambda>b1. if b1 < 128 then Inl ParserError else Inr ())
                 else Inr ()) (\<lambda>_.
            Inr (b0 - 128, RLP_STRING, u64 (off + 1)))
        else if b0 < 192 then
          rbind (long_length rd off (b0 - 128 - 56 + 1)) (\<lambda>(len, off). Inr (len, RLP_STRING, off))
        else if b0 < 192 + 56 then Inr (b0 - 192, RLP_LIST, u64 (off + 1))
        else rbind (long_length rd off (b0 - 192 - 56 + 1)) (\<lambda>(len, off). Inr (len, RLP_LIST, off))))"

definition decode_int :: "reader \<Rightarrow> nat \<Rightarrow> nat \<Rightarrow> (nat \<times> nat) res" where
  "decode_int rd buf_size off =
     rbind (consume_length_prefix rd buf_size off) (\<lambda>(val_len, _, val_offset).
       get_big_endian_rlp_value rd val_offset val_len)"

definition decode_large_int :: "reader \<Rightarrow> nat \<Rightarrow> nat \<Rightarrow> (nat list \<times> nat \<times> nat) res" where
  \<comment> \<open>the overload of \<^verbatim>\<open>decode_int\<close> that collects the words of a long integer\<close>
  "decode_large_int rd buf_size off =
     rbind (consume_length_prefix rd buf_size off) (\<lambda>(val_len, _, val_offset).
       if 8 < val_len then get_big_endian_rlp_large_value rd val_offset val_len []
       else rbind (get_big_endian_rlp_value rd val_offset val_len) (\<lambda>(v, off). Inr ([], v, off)))"

section \<open>Rlp\<close>

record rlp =
  rlp_buf :: buffer_view
  rlp_val_offset :: nat
  rlp_starting_offset :: nat
  rlp_length :: nat
  rlp_type :: nat

abbreviation bv_consume :: "buffer_view \<Rightarrow> nat \<Rightarrow> (nat \<times> nat \<times> nat) res" where
  "bv_consume v \<equiv> consume_length_prefix (bv_read v) (bv_size v)"

definition rlp_new :: "buffer_view \<Rightarrow> nat \<Rightarrow> rlp res" where
  \<comment> \<open>the offset of the payload is one of the buffer\<close>
  "rlp_new v off =
     rbind (bv_consume v off) (\<lambda>(len, ty, val_offset).
       Inr \<lparr>rlp_buf = v, rlp_val_offset = val_offset, rlp_starting_offset = off, rlp_length = len, rlp_type = ty\<rparr>)"

definition rlp_item :: "buffer_view \<Rightarrow> nat \<Rightarrow> nat \<Rightarrow> nat \<Rightarrow> nat \<Rightarrow> rlp" where
  \<comment> \<open>the constructor of list items: the offset of the payload is relative to the start of the item\<close>
  "rlp_item v len val_offset off ty =
     \<lparr>rlp_buf = v, rlp_val_offset = val_offset, rlp_starting_offset = off, rlp_length = len, rlp_type = ty\<rparr>"

partial_function (option) rlp_items :: "buffer_view \<Rightarrow> nat \<Rightarrow> nat \<Rightarrow> rlp list \<Rightarrow> (rlp list res) option" where
  "rlp_items v end_offset off acc =
     (if off < end_offset then
        (case bv_consume v off of
           Inl e \<Rightarrow> Some (Inl e)
         | Inr t \<Rightarrow> (case t of (len, ty, next_offset) \<Rightarrow>
             rlp_items v end_offset (u64 (next_offset + len))
               (acc @ [rlp_item v len (u64_sub next_offset off) off ty])))
      else Some (Inr acc))"

definition rlp_reload :: "rlp \<Rightarrow> rlp res" where
  \<comment> \<open>\<^verbatim>\<open>get_rlp_list\<close> reads the prefix again when the length is zero\<close>
  "rlp_reload r =
     (if rlp_length r = 0
      then rbind (bv_consume (rlp_buf r) (rlp_starting_offset r)) (\<lambda>(len, ty, val_offset).
             Inr (r\<lparr>rlp_length := len, rlp_type := ty, rlp_val_offset := val_offset\<rparr>))
      else Inr r)"

definition get_rlp_list :: "rlp \<Rightarrow> (rlp list res) option" where
  "get_rlp_list r =
     (case rlp_reload r of
        Inl e \<Rightarrow> Some (Inl e)
      | Inr r \<Rightarrow> rlp_items (rlp_buf r) (u64 (rlp_val_offset r + rlp_length r)) (rlp_val_offset r) [])"

definition rlp_end :: "rlp \<Rightarrow> nat" where
  "rlp_end r = u64 (u64 (rlp_starting_offset r + rlp_val_offset r) + rlp_length r)"

definition rlp_check :: "rlp \<Rightarrow> unit res" where
  "rlp_check r = (if bv_size (rlp_buf r) < rlp_end r then Inl RuntimeError else Inr ())"

definition as_rlp_string :: "rlp \<Rightarrow> buffer_view res" where
  "as_rlp_string r =
     rbind (rlp_check r) (\<lambda>_.
       Inr (if 0 < rlp_length r
            then bv_sub (rlp_buf r) (rlp_length r) (u64 (rlp_val_offset r + rlp_starting_offset r)) else bv_empty))"

definition rlp_as_int :: "rlp \<Rightarrow> nat res" where
  "rlp_as_int r =
     rbind (rlp_check r) (\<lambda>_.
     let rd = bv_read (rlp_buf r); pos = u64 (rlp_starting_offset r + rlp_val_offset r)
     in rbind (if 0 < rlp_val_offset r then
                 (if 8 < rlp_length r
                  then rbind (get_big_endian_rlp_large_value rd pos (rlp_length r) []) (\<lambda>(_, v, end_offset). Inr (v, end_offset))
                  else get_big_endian_rlp_value rd pos (rlp_length r))
               else decode_int rd (bv_size (rlp_buf r)) (rlp_starting_offset r)) (\<lambda>(v, end_offset).
        if rlp_end r < end_offset then Inl RuntimeError else Inr v))"

definition rlp_as_large_int :: "rlp \<Rightarrow> nat list res" where
  "rlp_as_large_int r =
     rbind (rlp_check r) (\<lambda>_.
     rbind (get_big_endian_rlp_large_value (bv_read (rlp_buf r)) (u64 (rlp_starting_offset r + rlp_val_offset r)) (rlp_length r) [])
       (\<lambda>(values, _, end_offset).
         if end_offset = 0 \<or> rlp_end r < end_offset then Inl RuntimeError else Inr values))"

definition rlp_as_vector :: "rlp \<Rightarrow> byte list res" where
  "rlp_as_vector r =
     rbind (rlp_check r) (\<lambda>_. bv_vector (rlp_buf r) (u64 (rlp_starting_offset r + rlp_val_offset r)) (rlp_length r))"

section \<open>The encoding\<close>

definition rlp_prefix :: "nat \<Rightarrow> nat \<Rightarrow> byte list" where
  "rlp_prefix base n =
     (if n < 56 then [of_nat (base + n)]
      else of_nat (base + 55 + get_length_bytes_size n) # be_bytes (get_length_bytes_size n) n)"

definition enc_str :: "byte list \<Rightarrow> byte list" where
  "enc_str bs = (if length bs = 1 \<and> unat (hd bs) < 128 then bs else rlp_prefix RLP_STR_ENCODING_TYPE (length bs) @ bs)"

definition enc_list :: "byte list \<Rightarrow> byte list" where
  \<comment> \<open>the argument is the concatenation of the encoded items\<close>
  "enc_list bs = rlp_prefix RLP_LIST_ENCODING_TYPE (length bs) @ bs"

lemma get_length_bytes_size_eq:
  "get_length_bytes_size n =
     (if n < 2 ^ 8 then 1 else if n < 2 ^ 16 then 2 else if n < 2 ^ 24 then 3 else if n < 2 ^ 32 then 4 else 8)"
proof -
  have "length_bytes_loop 4 1 m n = length_bytes_loop (Suc (Suc (Suc (Suc 0)))) 1 m n" for m
    by (rule arg_cong [where f = "\<lambda>k. length_bytes_loop k 1 m n"]) simp
  then show ?thesis by (simp add: get_length_bytes_size_def u64_def)
qed

lemma get_length_bytes_size_bounds:
  "0 < get_length_bytes_size n" "get_length_bytes_size n \<le> 8"
  "n < 2 ^ 32 \<Longrightarrow> get_length_bytes_size n \<le> 4"
  "n < 2 ^ 64 \<Longrightarrow> n < 256 ^ get_length_bytes_size n"
  by (simp_all add: get_length_bytes_size_eq)

lemma length_rlp_prefix: "n < 2 ^ 32 \<Longrightarrow> length (rlp_prefix base n) \<le> 5"
  using get_length_bytes_size_bounds(3) [of n] by (simp add: rlp_prefix_def)

lemma rlp_prefix_nonempty [simp]: "rlp_prefix base n \<noteq> []" "0 < length (rlp_prefix base n)"
  by (simp_all add: rlp_prefix_def)

lemma be_bytes_minimal:
  assumes "56 \<le> n" and "n < 2 ^ 32"
  obtains b bs where "be_bytes (get_length_bytes_size n) n = b # bs" and "b \<noteq> 0"
proof -
  let ?k = "get_length_bytes_size n"
  obtain b bs where eq: "be_bytes ?k n = b # bs"
    using get_length_bytes_size_bounds(1) [of n] by (cases "be_bytes ?k n") auto
  have len: "length bs = ?k - 1" using arg_cong [OF eq, of length] by simp
  have "be_val (b # bs) = n" using be_val_be_bytes [of n ?k] eq get_length_bytes_size_bounds(4) [of n] assms by simp
  moreover have "be_val (0 # bs) = be_val bs" by (simp add: be_val_def le_val_append)
  moreover have "be_val bs < 256 ^ (?k - 1)" using be_val_less [of bs] len by simp
  moreover have "256 ^ (?k - 1) \<le> n" using assms by (simp add: get_length_bytes_size_eq)
  ultimately have "b \<noteq> 0" by (metis leD)
  then show thesis using that eq by blast
qed

context byte_sink
begin

lemma set_rlp_value_append:
  assumes "wf s" and "0 < n" and "n \<le> 8" and "length (bytes s) + n < 2 ^ 64" and "off = length (bytes s)"
  shows "\<exists>s'. set_big_endian_rlp_value sz rsz pk s v off n = Inr (s', off + n) \<and> wf s' \<and> bytes s' = bytes s @ be_bytes n v"
  using assms set_be_sized_append [of s n _ off v]
  by (simp add: set_big_endian_rlp_value_def)

lemma be_bytes_1: "be_bytes 1 (v mod 256) = [of_nat v :: byte]"
  by (simp add: be_bytes_def word_of_nat_eq_iff take_bit_nat_def)

lemma get_length_prefix_append:
  assumes s: "wf s" and small: "length (bytes s) + 9 < 2 ^ 64" and off: "off = length (bytes s)"
  shows "\<exists>s'. get_length_prefix sz rsz pk s v off base = Inr (s', off + length (rlp_prefix base v)) \<and>
    wf s' \<and> bytes s' = bytes s @ rlp_prefix base v"
proof (cases "v < 56")
  case True
  obtain s' where "set_be_sized sz rsz pk 1 s ((base + v) mod 256) off 1 = Inr (s', off + 1)" "wf s'"
    "bytes s' = bytes s @ [of_nat (base + v)]"
    using set_be_sized_append [OF s, of 1 1 off "(base + v) mod 256"] small off unfolding be_bytes_1 by auto
  then show ?thesis using True by (simp add: get_length_prefix_def get_length_bytes_size_eq rlp_prefix_def)
next
  case False
  let ?k = "get_length_bytes_size v"
  note k = get_length_bytes_size_bounds(1,2) [of v]
  obtain s1 where s1: "set_be_sized sz rsz pk 1 s ((base + 56 - 1 + ?k) mod 256) off 1 = Inr (s1, off + 1)" "wf s1"
    "bytes s1 = bytes s @ [of_nat (base + 55 + ?k)]"
    using set_be_sized_append [OF s, of 1 1 off "(base + 56 - 1 + ?k) mod 256"] small off unfolding be_bytes_1 by auto
  obtain s2 where "set_big_endian_rlp_value sz rsz pk s1 v (off + 1) ?k = Inr (s2, off + 1 + ?k)" "wf s2"
    "bytes s2 = bytes s1 @ be_bytes ?k v"
    using set_rlp_value_append [OF s1(2) k, of "off + 1" v] small off k(2) s1(3) by auto
  then show ?thesis using False s1(1,3) by (simp add: get_length_prefix_def rlp_prefix_def)
qed

end

context byte_source
begin

lemma rd_byte_at:
  assumes "wf s" and "bytes s = pre @ b # post"
  shows "rd_byte (rd s) (length pre) = Inr (unat b)"
  using rd_middle [OF assms(1), of pre "[b]" post] assms(2) by (simp add: rd_byte_def)

lemma get_rlp_value_at:
  assumes "wf s" and "bytes s = pre @ ys @ post" and "ys \<noteq> []" and "length ys \<le> 8"
  shows "get_big_endian_rlp_value (rd s) (length pre) (length ys) = Inr (be_val ys, length pre + length ys)"
  using get_be_sized_at [OF assms(1-3)] assms(3,4) by (simp add: get_big_endian_rlp_value_def)

lemma long_length_at:
  assumes s: "wf s" "bytes s = pre @ b0 # be_bytes (get_length_bytes_size n) n @ post"
    and n: "56 \<le> n" "n < 2 ^ 32"
  shows "long_length (rd s) (length pre) (get_length_bytes_size n) = Inr (n, length pre + 1 + get_length_bytes_size n)"
proof -
  let ?ys = "be_bytes (get_length_bytes_size n) n"
  obtain b bs where b: "?ys = b # bs" "b \<noteq> 0" by (rule be_bytes_minimal [OF n])
  have eq: "bytes s = (pre @ [b0]) @ ?ys @ post" using s(2) by simp
  have u: "u64 (length pre + 1) = length (pre @ [b0])" using bytes_small [OF s(1)] s(2) by (simp add: u64_id)
  have "rd_byte (rd s) (length (pre @ [b0])) = Inr (unat b)" using rd_byte_at [OF s(1), of "pre @ [b0]" b] eq b(1) by simp
  moreover have "get_big_endian_rlp_value (rd s) (length (pre @ [b0])) (get_length_bytes_size n) =
      Inr (n, length (pre @ [b0]) + get_length_bytes_size n)"
    using get_rlp_value_at [OF s(1) eq] get_length_bytes_size_bounds [of n] n be_val_be_bytes [of n "get_length_bytes_size n"] by simp
  ultimately show ?thesis using u b(2) n(1) by (simp add: long_length_def unsigned_eq_0_iff)
qed

lemma consume_list_at:
  assumes s: "wf s" "bytes s = pre @ rlp_prefix RLP_LIST_ENCODING_TYPE n @ post" and n: "n < 2 ^ 32"
  shows "consume_length_prefix (rd s) (length (bytes s)) (length pre) =
    Inr (n, RLP_LIST, length pre + length (rlp_prefix RLP_LIST_ENCODING_TYPE n))"
proof (cases "n < 56")
  case True
  have b: "rd_byte (rd s) (length pre) = Inr (192 + n)"
    using rd_byte_at [OF s(1), of pre "of_nat (192 + n)" post] s(2) True
    by (simp add: rlp_prefix_def rlp_consts unat_of_nat_byte del: of_nat_add)
  have "u64 (length pre + 1) = length pre + 1" using bytes_small [OF s(1)] s(2) True by (simp add: rlp_prefix_def u64_id)
  then show ?thesis using b True s(2) by (simp add: consume_length_prefix_def rlp_prefix_def)
next
  case False
  let ?k = "get_length_bytes_size n"
  note k = get_length_bytes_size_bounds(1) [of n] get_length_bytes_size_bounds(3) [OF n]
  have b: "rd_byte (rd s) (length pre) = Inr (192 + 55 + ?k)"
    using rd_byte_at [OF s(1), of pre "of_nat (192 + 55 + ?k)" "be_bytes ?k n @ post"] s(2) False k
    by (simp add: rlp_prefix_def rlp_consts unat_of_nat_byte del: of_nat_add)
  have "long_length (rd s) (length pre) ?k = Inr (n, length pre + 1 + ?k)"
    using long_length_at [OF s(1)] s(2) False n by (simp add: rlp_prefix_def)
  moreover have "192 + 55 + ?k - 192 - 56 + 1 = ?k" using k(1) by simp
  ultimately show ?thesis using b False s(2) k(1)
    by (simp add: consume_length_prefix_def rlp_prefix_def)
qed

lemma consume_str_at:
  assumes s: "wf s" "bytes s = pre @ enc_str bs @ post" and n: "length bs < 2 ^ 32"
  shows "\<exists>ty. consume_length_prefix (rd s) (length (bytes s)) (length pre) =
      Inr (length bs, ty, length pre + length (enc_str bs) - length bs) \<and>
    (ty = RLP_BYTE \<longleftrightarrow> length bs = 1 \<and> unat (hd bs) < 128) \<and> (ty = RLP_BYTE \<or> ty = RLP_STRING)"
proof (cases "length bs = 1 \<and> unat (hd bs) < 128")
  case True
  then obtain b where bs: "bs = [b]" "unat b < 128" by (cases bs) auto
  have "rd_byte (rd s) (length pre) = Inr (unat b)" using rd_byte_at [OF s(1), of pre b post] s(2) bs by (simp add: enc_str_def)
  then show ?thesis using bs s(2) by (simp add: consume_length_prefix_def enc_str_def)
next
  case long: False
  let ?n = "length bs"
  have s2: "bytes s = pre @ rlp_prefix 128 ?n @ bs @ post"
    using s(2) long by (auto simp: enc_str_def rlp_consts)
  have lenc: "length (enc_str bs) = length (rlp_prefix 128 ?n) + ?n" using long by (auto simp: enc_str_def rlp_consts)
  show ?thesis
  proof (cases "?n < 56")
    case True
    have b: "rd_byte (rd s) (length pre) = Inr (128 + ?n)"
      using rd_byte_at [OF s(1), of pre "of_nat (128 + ?n)" "bs @ post"] s2 True
      by (simp add: rlp_prefix_def unat_of_nat_byte del: of_nat_add)
    have u: "u64 (length pre + 1) = length pre + 1" using bytes_small [OF s(1)] s2 True by (simp add: rlp_prefix_def u64_id)
    have one: "rd_byte (rd s) (length pre + 1) = Inr (unat (hd bs)) \<and> 128 \<le> unat (hd bs)" if n1: "?n = 1"
    proof -
      obtain b where "bs = [b]" using n1 by (cases bs) auto
      then show ?thesis using rd_byte_at [OF s(1), of "pre @ [of_nat (128 + ?n)]" b post] s2 long by (simp add: rlp_prefix_def)
    qed
    show ?thesis using b u one True s2 lenc long
      by (cases "?n = 1") (auto simp: consume_length_prefix_def rlp_prefix_def rlp_consts)
  next
    case False
    let ?k = "get_length_bytes_size ?n"
    note k = get_length_bytes_size_bounds(1) [of ?n] get_length_bytes_size_bounds(3) [OF n]
    have b: "rd_byte (rd s) (length pre) = Inr (128 + 55 + ?k)"
      using rd_byte_at [OF s(1), of pre "of_nat (128 + 55 + ?k)" "be_bytes ?k ?n @ bs @ post"] s2 False k
      by (simp add: rlp_prefix_def unat_of_nat_byte del: of_nat_add)
    have "long_length (rd s) (length pre) ?k = Inr (?n, length pre + 1 + ?k)"
      using long_length_at [OF s(1)] s2 False n by (simp add: rlp_prefix_def)
    moreover have "128 + 55 + ?k - 128 - 56 + 1 = ?k" using k(1) by simp
    ultimately show ?thesis using b False s2 k lenc long
      by (simp add: consume_length_prefix_def rlp_prefix_def) (auto simp: rlp_consts)
  qed
qed

end

section \<open>Items\<close>

datatype rlp_value = RStr "byte list" | RList "byte list"

fun payload :: "rlp_value \<Rightarrow> byte list" where
  "payload (RStr bs) = bs"
| "payload (RList bs) = bs"

fun enc_value :: "rlp_value \<Rightarrow> byte list" where
  "enc_value (RStr bs) = enc_str bs"
| "enc_value (RList bs) = enc_list bs"

fun value_type :: "rlp_value \<Rightarrow> nat" where
  "value_type (RStr bs) = (if length bs = 1 \<and> unat (hd bs) < 128 then RLP_BYTE else RLP_STRING)"
| "value_type (RList bs) = RLP_LIST"

lemma enc_value_split: "\<exists>p. enc_value x = p @ payload x \<and> length p \<le> 9"
proof -
  have "length (rlp_prefix b n) \<le> 9" for b n
    using get_length_bytes_size_bounds(2) [of n] by (simp add: rlp_prefix_def)
  then show ?thesis by (cases x) (auto simp: enc_str_def enc_list_def)
qed

lemma enc_value_nonempty: "enc_value x \<noteq> []"
  by (cases x) (auto simp: enc_str_def enc_list_def)

lemma consume_value_at:
  assumes v: "bv_ok v" "bv_bytes v = pre @ enc_value x @ post" and n: "length (payload x) < 2 ^ 32"
  shows "bv_consume v (length pre) =
    Inr (length (payload x), value_type x, length pre + (length (enc_value x) - length (payload x)))"
proof -
  have sz: "bv_size v = length (bv_bytes v)" using v(1) by (simp add: bv_ok_def)
  obtain p where p: "enc_value x = p @ payload x" using enc_value_split by blast
  show ?thesis
  proof (cases x)
    case (RStr bs)
    then show ?thesis using bvs.consume_str_at [OF v(1), of pre bs post] v(2) n sz p by (auto simp: rlp_consts split: if_splits)
  next
    case (RList bs)
    then show ?thesis using bvs.consume_list_at [OF v(1), of pre "length bs" "bs @ post"] v(2) n sz by (simp add: enc_list_def)
  qed
qed

fun items_at :: "buffer_view \<Rightarrow> nat \<Rightarrow> rlp_value list \<Rightarrow> rlp list" where
  "items_at v off [] = []"
| "items_at v off (x # xs) =
     rlp_item v (length (payload x)) (length (enc_value x) - length (payload x)) off (value_type x) #
     items_at v (off + length (enc_value x)) xs"

lemma rlp_items_spec:
  assumes v: "bv_ok v" "bv_bytes v = pre @ concat (map enc_value xs) @ post"
    and n: "\<forall>x \<in> set xs. length (payload x) < 2 ^ 32" and e: "e = length pre + length (concat (map enc_value xs))"
  shows "rlp_items v e (length pre) acc = Some (Inr (acc @ items_at v (length pre) xs))"
  using v(2) n e
proof (induction xs arbitrary: pre acc)
  case Nil
  then show ?case by (subst rlp_items.simps) simp
next
  case (Cons x xs)
  obtain p where p: "enc_value x = p @ payload x" using enc_value_split by blast
  have c: "bv_consume v (length pre) = Inr (length (payload x), value_type x, length pre + length p)"
    using consume_value_at [OF v(1), of pre x "concat (map enc_value xs) @ post"] Cons.prems(1,2) p by simp
  have small: "length pre + length (enc_value x) < 2 ^ 64"
    using bvs.bytes_small [OF v(1)] Cons.prems(1) by simp
  then have u: "u64 (length pre + length p + length (payload x)) = length (pre @ enc_value x)"
    "u64_sub (length pre + length p) (length pre) = length p"
    using p by (simp_all add: u64_id u64_sub_id)
  have lt: "length pre < e" using Cons.prems(3) enc_value_nonempty [of x] by simp
  have "rlp_items v e (length pre) acc =
      rlp_items v e (length (pre @ enc_value x)) (acc @ [rlp_item v (length (payload x)) (length p) (length pre) (value_type x)])"
    by (subst rlp_items.simps) (simp only: lt c u if_True sum.case prod.case)
  then show ?case using Cons.IH [of "pre @ enc_value x"] Cons.prems p by simp
qed

lemma items_at_strings:
  assumes v: "bv_ok v" "bv_bytes v = pre @ concat (map enc_value xs) @ post"
  shows "list_all2 (\<lambda>r x. \<exists>w. as_rlp_string r = Inr w \<and> bv_wf w \<and> bv_bytes w = payload x \<and> rlp_type r = value_type x)
    (items_at v (length pre) xs) xs"
  using v(2)
proof (induction xs arbitrary: pre)
  case (Cons x xs)
  obtain p where p: "enc_value x = p @ payload x" using enc_value_split by blast
  let ?r = "rlp_item v (length (payload x)) (length p) (length pre) (value_type x)"
  have eq: "bv_bytes v = (pre @ p) @ payload x @ concat (map enc_value xs) @ post" using Cons.prems p by simp
  have sz: "bv_size v = length (bv_bytes v)" "length (bv_bytes v) < 2 ^ 64"
    using v(1) bvs.bytes_small [OF v(1)] by (simp_all add: bv_ok_def)
  have fits: "length (pre @ p) + length (payload x) \<le> bv_size v" using eq sz(1) by simp
  have u: "u64 (length pre + length p) = length (pre @ p)" "u64 (length p + length pre) = length (pre @ p)"
    "u64 (length (pre @ p) + length (payload x)) = length (pre @ p) + length (payload x)"
    using fits sz by (simp_all add: u64_id)
  have chk: "rlp_check ?r = Inr ()" using fits u by (simp add: rlp_check_def rlp_end_def rlp_item_def)
  have "\<exists>w. as_rlp_string ?r = Inr w \<and> bv_wf w \<and> bv_bytes w = payload x"
  proof (cases "payload x = []")
    case True
    then show ?thesis using chk by (simp add: as_rlp_string_def rlp_item_def bv_empty_def bv_wf_def bv_bytes_def)
  next
    case False
    have "bv_wf (bv_sub v (length (payload x)) (length (pre @ p)))"
      "bv_bytes (bv_sub v (length (payload x)) (length (pre @ p))) = payload x"
      using bv_wf_sub [of v "length (pre @ p)" "length (payload x)"] v(1) fits eq
        slice_middle [of "pre @ p" _ "payload x" _ "concat (map enc_value xs) @ post"] by (simp_all add: bv_ok_def)
    then show ?thesis using False chk u(2) by (simp add: as_rlp_string_def rlp_item_def)
  qed
  moreover have "rlp_type ?r = value_type x" by (simp add: rlp_item_def)
  ultimately show ?case using Cons.IH [of "pre @ enc_value x"] Cons.prems p by simp
qed simp

lemma rlp_list_at:
  assumes v: "bv_ok v" "bv_bytes v = pre @ enc_list (concat (map enc_value xs)) @ post"
    and xs: "length (concat (map enc_value xs)) < 2 ^ 32"
    and q: "q = pre @ rlp_prefix RLP_LIST_ENCODING_TYPE (length (concat (map enc_value xs)))"
    and r: "r = \<lparr>rlp_buf = v, rlp_val_offset = length q, rlp_starting_offset = length pre,
      rlp_length = length (concat (map enc_value xs)), rlp_type = RLP_LIST\<rparr>"
  shows "rlp_new v (length pre) = Inr r" and "get_rlp_list r = Some (Inr (items_at v (length q) xs))"
    and "bv_bytes v = q @ concat (map enc_value xs) @ post" and "\<And>x. x \<in> set xs \<Longrightarrow> length (payload x) < 2 ^ 32"
proof -
  let ?c = "concat (map enc_value xs)"
  show eq: "bv_bytes v = q @ ?c @ post" using v(2) q by (simp add: enc_list_def)
  show n: "length (payload x) < 2 ^ 32" if "x \<in> set xs" for x
  proof -
    from that have "length (enc_value x) \<le> length ?c" by (auto dest!: split_list)
    then show ?thesis using enc_value_split [of x] xs by auto
  qed
  have c: "bv_consume v (length pre) = Inr (length ?c, RLP_LIST, length q)"
    using consume_value_at [OF v(1), of pre "RList ?c" post] v(2) xs q by (simp add: enc_list_def)
  then show "rlp_new v (length pre) = Inr r" by (simp add: rlp_new_def r)
  have re: "rlp_reload r = Inr r" using c by (simp add: rlp_reload_def r)
  have "u64 (length q + length ?c) = length q + length ?c" using bvs.bytes_small [OF v(1)] eq by (intro u64_id) simp
  then show "get_rlp_list r = Some (Inr (items_at v (length q) xs))"
    using rlp_items_spec [OF v(1) eq _ refl, of "[]"] n re by (simp add: get_rlp_list_def r)
qed

text \<open>
  C34: splitting an encoded list ends and gives back its items in order: the type and the payload of
  each, whether it is a byte, a string or a list, wherever the list stands in the message.
\<close>

theorem rlp_list_round_trip:
  assumes v: "bv_ok v" "bv_bytes v = pre @ enc_list (concat (map enc_value xs)) @ post"
    and xs: "length (concat (map enc_value xs)) < 2 ^ 32"
  shows "\<exists>r items. rlp_new v (length pre) = Inr r \<and> rlp_type r = RLP_LIST \<and> get_rlp_list r = Some (Inr items) \<and>
    list_all2 (\<lambda>r x. rlp_type r = value_type x \<and> (\<exists>w. as_rlp_string r = Inr w \<and> bv_wf w \<and> bv_bytes w = payload x)) items xs"
  using rlp_list_at [OF assms refl refl] items_at_strings [OF v(1) rlp_list_at(3) [OF assms refl refl]]
  by (auto elim!: list_all2_mono)

theorem rlp_list_round_trip_witness:
  "\<exists>r items. rlp_new (bv_msg [0xc4, 0x83, 5, 6, 7]) 0 = Inr r \<and> get_rlp_list r = Some (Inr items) \<and> length items = 1"
proof -
  have enc: "[0xc4, 0x83, 5, 6, 7] = [] @ enc_list (concat (map enc_value [RStr [5, 6, 7]])) @ []"
    by (simp add: enc_list_def enc_str_def rlp_prefix_def rlp_consts)
  have len: "length (concat (map enc_value [RStr [5, 6, 7]])) < 2 ^ 32" by (simp add: enc_str_def rlp_prefix_def)
  have "bv_ok (bv_msg [0xc4, 0x83, 5, 6, 7])" by simp
  from rlp_list_round_trip [OF this _ len, of "[]" "[]"] enc
  obtain r items where "rlp_new (bv_msg [0xc4, 0x83, 5, 6, 7]) 0 = Inr r" "get_rlp_list r = Some (Inr items)"
    "length items = length [RStr [5, 6, 7]]" by (auto dest: list_all2_lengthD)
  then show ?thesis by auto
qed

section \<open>Integers\<close>

lemma encode_int_append:
  assumes b: "ba_wf b" and v: "v < 2 ^ 64" and room: "ba_len b + 18 < 2 ^ 64"
  shows "\<exists>b'. encode_int ba_len ba_resize ba_poke b v (ba_len b) = Inr (b', ba_len b') \<and> ba_wf b' \<and>
    ba_bytes b' = ba_bytes b @ enc_str (be_bytes (get_length_bytes_size v) v)"
proof -
  let ?k = "get_length_bytes_size v" let ?be = "be_bytes ?k v"
  note k = get_length_bytes_size_bounds(1,2) [of v]
  have lb: "ba_len b = length (ba_bytes b)" using b by simp
  show ?thesis
  proof (cases "128 \<le> v")
    case False
    then have k1: "?k = 1" by (simp add: get_length_bytes_size_eq)
    obtain b' where b': "set_big_endian_rlp_value ba_len ba_resize ba_poke b v (ba_len b) 1 = Inr (b', ba_len b + 1)" "ba_wf b'"
      "ba_bytes b' = ba_bytes b @ be_bytes 1 v"
      using bak.set_rlp_value_append [OF b, of 1 "ba_len b" v] length_ba_bytes [OF b] room by fastforce
    have "ba_len b' = ba_len b + 1" using length_ba_bytes [OF b'(2)] b'(3) b by simp
    moreover have "enc_str (be_bytes 1 v) = be_bytes 1 v" using False by (simp add: enc_str_def be_bytes_def unat_of_nat_byte)
    ultimately show ?thesis using False b' k1 by (simp add: encode_int_def)
  next
    case True
    obtain b1 where b1: "get_length_prefix ba_len ba_resize ba_poke b ?k (ba_len b) RLP_STR_ENCODING_TYPE =
        Inr (b1, ba_len b + length (rlp_prefix RLP_STR_ENCODING_TYPE ?k))" "ba_wf b1"
      "ba_bytes b1 = ba_bytes b @ rlp_prefix RLP_STR_ENCODING_TYPE ?k"
      using bak.get_length_prefix_append [OF b _ lb, of ?k RLP_STR_ENCODING_TYPE] lb room by auto
    have p: "rlp_prefix RLP_STR_ENCODING_TYPE ?k = [of_nat (128 + ?k)]" using k by (simp add: rlp_prefix_def rlp_consts)
    have l1: "ba_len b1 = ba_len b + 1" using length_ba_bytes [OF b1(2)] b1(3) b p by simp
    obtain b2 where b2: "set_big_endian_rlp_value ba_len ba_resize ba_poke b1 v (ba_len b1) ?k = Inr (b2, ba_len b1 + ?k)" "ba_wf b2"
      "ba_bytes b2 = ba_bytes b1 @ ?be"
      using bak.set_rlp_value_append [OF b1(2) k _ length_ba_bytes [OF b1(2), symmetric], of v] length_ba_bytes [OF b1(2)] room l1 k by auto
    have l2: "ba_len b2 = ba_len b1 + ?k" using length_ba_bytes [OF b2(2)] b2(3) b1(2) by simp
    have "\<not> (length ?be = 1 \<and> unat (hd ?be) < 128)"
    proof
      assume h: "length ?be = 1 \<and> unat (hd ?be) < 128"
      then obtain c where "?be = [c]" by (cases ?be) auto
      then have "unat (hd ?be) = v" using be_val_be_bytes [OF get_length_bytes_size_bounds(4) [OF v]] by (simp add: be_val_def)
      then show False using h True by simp
    qed
    then have "enc_str ?be = rlp_prefix RLP_STR_ENCODING_TYPE ?k @ ?be" by (auto simp: enc_str_def)
    then show ?thesis using True b1 b2 l1 l2 p by (simp add: encode_int_def get_length_prefix_str_def)
  qed
qed

text \<open>
  Every 64-bit integer that is encoded at the end of a buffer is decoded again from that
  place, and the decoder stops where the encoder did.
\<close>

theorem rlp_int_round_trip:
  assumes b: "ba_wf b" and v: "v < 2 ^ 64" and room: "ba_len b + 18 < 2 ^ 64"
  shows "\<exists>b'. encode_int ba_len ba_resize ba_poke b v (ba_len b) = Inr (b', ba_len b') \<and>
    decode_int (ba_read b') (ba_len b') (ba_len b) = Inr (v, ba_len b')"
proof -
  let ?k = "get_length_bytes_size v" let ?be = "be_bytes ?k v"
  note k = get_length_bytes_size_bounds(1,2) [of v]
  obtain b' where b': "encode_int ba_len ba_resize ba_poke b v (ba_len b) = Inr (b', ba_len b')" "ba_wf b'"
    "ba_bytes b' = ba_bytes b @ enc_str ?be" using encode_int_append [OF assms] by blast
  have split: "length (enc_str ?be) \<le> ?k + 9" "\<exists>p. enc_str ?be = p @ ?be" using enc_value_split [of "RStr ?be"] by auto
  then obtain p where p: "enc_str ?be = p @ ?be" by blast
  have l: "length (ba_bytes b') = ba_len b'" "length (ba_bytes b) = ba_len b" using b b'(2) by simp_all
  have len: "ba_len b' = ba_len b + length p + ?k" using arg_cong [OF b'(3), of length] l p by simp
  have ok: "ba_ok b'" using b'(2) len split(1) p k(2) room by (simp add: ba_ok_def)
  have "length ?be < 2 ^ 32" using k(2) by simp
  then obtain ty where c: "consume_length_prefix (ba_read b') (ba_len b') (ba_len b) = Inr (?k, ty, ba_len b + length p)"
    using bas.consume_str_at [OF ok, of "ba_bytes b" ?be "[]"] b'(3) l p by auto
  have "get_big_endian_rlp_value (ba_read b') (length (ba_bytes b @ p)) (length ?be) = Inr (be_val ?be, length (ba_bytes b @ p) + length ?be)"
    using bas.get_rlp_value_at [OF ok, of "ba_bytes b @ p" ?be "[]"] b'(3) p k by simp
  then have "decode_int (ba_read b') (ba_len b') (ba_len b) = Inr (v, ba_len b')"
    using c l len be_val_be_bytes [OF get_length_bytes_size_bounds(4) [OF v]] by (simp add: decode_int_def)
  then show ?thesis using b'(1) by blast
qed

theorem rlp_int_round_trip_witness:
  "\<exists>b'. encode_int ba_len ba_resize ba_poke ba_new 5000000000 0 = Inr (b', ba_len b') \<and>
    decode_int (ba_read b') (ba_len b') 0 = Inr (5000000000, ba_len b')"
  using rlp_int_round_trip [OF ba_wf_new, of 5000000000] by (simp add: ba_new_def)

section \<open>Lengths that wrap around\<close>

lemma rlp_items_stuck:
  assumes "bv_consume v off = Inr (len, ty, nxt)" and "u64 (nxt + len) = off" and "off < e"
  shows "rlp_items v e off acc = None"
proof (cases "rlp_items v e off acc")
  case (Some y)
  then have "\<not> (v = v \<and> e = e \<and> off = off)"
  proof (rule rlp_items.raw_induct [where P = "\<lambda>v' e' off' acc' y. \<not> (v' = v \<and> e' = e \<and> off' = off)", rotated])
    fix f v' e' off' acc' y
    assume ih: "\<And>v' e' off' acc' y. f v' e' off' acc' = Some y \<Longrightarrow> \<not> (v' = v \<and> e' = e \<and> off' = off)"
      and eq: "(if off' < e' then (case bv_consume v' off' of Inl e \<Rightarrow> Some (Inl e)
          | Inr t \<Rightarrow> (case t of (len, ty, next_offset) \<Rightarrow> f v' e' (u64 (next_offset + len))
              (acc' @ [rlp_item v' len (u64_sub next_offset off') off' ty]))) else Some (Inr acc')) = Some y"
    show "\<not> (v' = v \<and> e' = e \<and> off' = off)"
    proof
      assume "v' = v \<and> e' = e \<and> off' = off"
      then have "f v e off (acc' @ [rlp_item v len (u64_sub nxt off) off ty]) = Some y" using eq assms by simp
      then show False using ih by blast
    qed
  qed
  then show ?thesis by simp
qed

text \<open>
  C40: the length of an item is not compared with what is left of the list, and the position behind
  the item is computed with wrap-around: for a list of nine bytes whose only item claims the
  length \<open>2\<^sup>6\<^sup>4 - 9\<close>, the loop that splits the list comes back to the same item for ever.
\<close>

theorem rlp_list_diverges:
  assumes v: "bv_ok v" "bv_bytes v = pre @ [0xc9, 0xbf] @ be_bytes 8 (2 ^ 64 - 9) @ post"
  shows "\<exists>r. rlp_new v (length pre) = Inr r \<and> get_rlp_list r = None"
proof -
  let ?n = "2 ^ 64 - 9 :: nat" and ?q = "length pre + 1"
  have sz: "bv_size v = length (bv_bytes v)" "length (bv_bytes v) < 2 ^ 64" using v(1) bvs.bytes_small [OF v(1)] by (simp_all add: bv_ok_def)
  have small: "length pre + 10 < 2 ^ 64" using sz(2) v(2) by simp
  have u: "u64 (length pre + 1) = ?q" "u64 (?q + 1) = length pre + 2" "u64 (?q + 9) = length pre + 10" using small by (simp_all add: u64_id)
  have b0: "rd_byte (bv_read v) (length pre) = Inr 0xc9" using bvs.rd_byte_at [OF v(1), of pre "0xc9"] v(2) by simp
  have b1: "rd_byte (bv_read v) ?q = Inr 0xbf" using bvs.rd_byte_at [OF v(1), of "pre @ [0xc9]" "0xbf"] v(2) by simp
  have be: "be_bytes 8 ?n = [255, 255, 255, 255, 255, 255, 255, 247]" by (simp add: be_bytes_def le_bytes_numeral)
  have b2: "rd_byte (bv_read v) (length pre + 2) = Inr 255" using bvs.rd_byte_at [OF v(1), of "pre @ [0xc9, 0xbf]" 255] v(2) be by simp
  have n: "get_big_endian_rlp_value (bv_read v) (length pre + 2) 8 = Inr (?n, length pre + 10)"
    using bvs.get_rlp_value_at [OF v(1), of "pre @ [0xc9, 0xbf]" "be_bytes 8 ?n" post] v(2) be_val_be_bytes [of ?n 8] by simp
  have c: "bv_consume v (length pre) = Inr (9, RLP_LIST, ?q)" using b0 u(1) sz(1) v(2) by (simp add: consume_length_prefix_def)
  have "long_length (bv_read v) ?q 8 = Inr (?n, length pre + 10)" using b2 n u(2) by (simp add: long_length_def)
  then have "bv_consume v ?q = Inr (?n, RLP_STRING, length pre + 10)"
    using b1 sz(1) v(2) by (simp add: consume_length_prefix_def)
  moreover have "u64 (length pre + 10 + ?n) = ?q"
  proof -
    have "length pre + 10 + ?n = ?q + 2 ^ 64" by simp
    then have "u64 (length pre + 10 + ?n) = ?q mod 2 ^ 64" by (simp only: u64_def mod_add_self2)
    then show ?thesis using small by simp
  qed
  ultimately have "rlp_items v (length pre + 10) ?q [] = None" by (rule rlp_items_stuck) simp
  then have "get_rlp_list \<lparr>rlp_buf = v, rlp_val_offset = ?q, rlp_starting_offset = length pre, rlp_length = 9, rlp_type = RLP_LIST\<rparr> = None"
    using u(3) by (simp add: get_rlp_list_def rlp_reload_def)
  then show ?thesis using c by (simp add: rlp_new_def)
qed

theorem rlp_list_diverges_witness:
  "\<exists>r. rlp_new (bv_msg [0xc9, 0xbf, 255, 255, 255, 255, 255, 255, 255, 247]) 0 = Inr r \<and> get_rlp_list r = None"
  using rlp_list_diverges [of "bv_msg [0xc9, 0xbf, 255, 255, 255, 255, 255, 255, 255, 247]" "[]" "[]"]
  by (simp add: be_bytes_def le_bytes_numeral)

text \<open>
  As long as the end of an item is below \<open>2\<^sup>6\<^sup>4\<close>, its string is either refused, because it ends
  behind the buffer, or a view that lies inside the buffer and holds exactly its bytes.
\<close>

theorem as_rlp_string_bounds:
  assumes v: "bv_ok (rlp_buf r)" and small: "rlp_starting_offset r + rlp_val_offset r + rlp_length r < 2 ^ 64"
  shows "as_rlp_string r = Inl RuntimeError \<and> bv_size (rlp_buf r) < rlp_starting_offset r + rlp_val_offset r + rlp_length r \<or>
    (\<exists>w. as_rlp_string r = Inr w \<and> bv_wf w \<and> bv_size w = rlp_length r \<and>
       bv_bytes w = slice (rlp_starting_offset r + rlp_val_offset r) (rlp_length r) (bv_bytes (rlp_buf r)))"
proof -
  let ?p = "rlp_starting_offset r + rlp_val_offset r"
  have u: "u64 ?p = ?p" "u64 (rlp_val_offset r + rlp_starting_offset r) = ?p" "u64 (?p + rlp_length r) = ?p + rlp_length r"
    using small by (simp_all add: u64_id add.commute)
  show ?thesis
  proof (cases "bv_size (rlp_buf r) < ?p + rlp_length r")
    case True
    then show ?thesis using u by (simp add: as_rlp_string_def rlp_check_def rlp_end_def)
  next
    case False
    then have sub: "bv_wf (bv_sub (rlp_buf r) (rlp_length r) ?p)"
      "bv_bytes (bv_sub (rlp_buf r) (rlp_length r) ?p) = slice ?p (rlp_length r) (bv_bytes (rlp_buf r))"
      using bv_wf_sub [of "rlp_buf r" ?p "rlp_length r"] v by (simp_all add: bv_ok_def)
    show ?thesis
    proof (cases "rlp_length r = 0")
      case True
      then show ?thesis using False u by (simp add: as_rlp_string_def rlp_check_def rlp_end_def bv_empty_def bv_wf_def bv_bytes_def)
    next
      case nz: False
      then have "as_rlp_string r = Inr (bv_sub (rlp_buf r) (rlp_length r) ?p)"
        using False u by (simp add: as_rlp_string_def rlp_check_def rlp_end_def)
      then show ?thesis using sub by simp
    qed
  qed
qed

theorem as_rlp_string_bounds_witness:
  "as_rlp_string \<lparr>rlp_buf = bv_msg [0x82, 5, 6], rlp_val_offset = 1, rlp_starting_offset = 0, rlp_length = 2, rlp_type = RLP_STRING\<rparr> =
     Inr (bv_sub (bv_msg [0x82, 5, 6]) 2 1)"
proof -
  let ?r = "\<lparr>rlp_buf = bv_msg [0x82, 5, 6], rlp_val_offset = 1, rlp_starting_offset = 0, rlp_length = 2, rlp_type = RLP_STRING\<rparr>"
  from as_rlp_string_bounds [of ?r] obtain w where "as_rlp_string ?r = Inr w" by auto
  then show ?thesis by (simp add: as_rlp_string_def rlp_check_def rlp_end_def u64_def)
qed

text \<open>
  The check of an item against the buffer adds with wrap-around: a string that claims
  \<open>2\<^sup>6\<^sup>4 - 9\<close> bytes ends at position 0 and is accepted, as a view far beyond the buffer.
\<close>

theorem rlp_string_length_wraps:
  assumes v: "bv_ok v" "bv_bytes v = [0xbf] @ be_bytes 8 (2 ^ 64 - 9) @ post"
  shows "\<exists>r w. rlp_new v 0 = Inr r \<and> as_rlp_string r = Inr w \<and> bv_size w = 2 ^ 64 - 9 \<and> \<not> bv_wf w"
proof -
  let ?n = "2 ^ 64 - 9 :: nat"
  have be: "be_bytes 8 ?n = [255, 255, 255, 255, 255, 255, 255, 247]" by (simp add: be_bytes_def le_bytes_numeral)
  have sz: "bv_size v = length (bv_bytes v)" using v(1) by (simp add: bv_ok_def)
  have b0: "rd_byte (bv_read v) 0 = Inr 0xbf" using bvs.rd_byte_at [OF v(1), of "[]" "0xbf"] v(2) by simp
  have b1: "rd_byte (bv_read v) 1 = Inr 255" using bvs.rd_byte_at [OF v(1), of "[0xbf]" 255] v(2) be by simp
  have n: "get_big_endian_rlp_value (bv_read v) 1 8 = Inr (?n, 9)"
    using bvs.get_rlp_value_at [OF v(1), of "[0xbf]" "be_bytes 8 ?n" post] v(2) be_val_be_bytes [of ?n 8] by simp
  have "long_length (bv_read v) 0 8 = Inr (?n, 9)" using b1 n by (simp add: long_length_def u64_def)
  then have c: "bv_consume v 0 = Inr (?n, RLP_STRING, 9)" using b0 sz v(2) by (simp add: consume_length_prefix_def)
  let ?r = "\<lparr>rlp_buf = v, rlp_val_offset = 9, rlp_starting_offset = 0, rlp_length = ?n, rlp_type = RLP_STRING\<rparr>"
  have a: "as_rlp_string ?r = Inr (bv_sub v ?n 9)" by (simp add: as_rlp_string_def rlp_check_def rlp_end_def u64_def)
  have "\<not> bv_wf (bv_sub v ?n 9)"
  proof
    assume wf: "bv_wf (bv_sub v ?n 9)"
    obtain mem where mem: "bv_buf v = Some mem" using v(1) by (auto simp: bv_ok_def)
    have "9 \<le> bv_size v" using sz v(2) by simp
    then have f: "bv_from v + 9 \<le> length mem" "length mem < 2 ^ 64" using v(1) mem by (simp_all add: bv_ok_def bv_wf_def)
    then have "bv_from (bv_sub v ?n 9) = bv_from v + 9" by (simp add: bv_sub_def u64_id)
    then show False using wf mem f(2) by (auto simp: bv_wf_def)
  qed
  then show ?thesis using c a by (simp add: rlp_new_def)
qed

theorem rlp_string_length_wraps_witness:
  "\<exists>r w. rlp_new (bv_msg [0xbf, 255, 255, 255, 255, 255, 255, 255, 247]) 0 = Inr r \<and> as_rlp_string r = Inr w \<and> \<not> bv_wf w"
  using rlp_string_length_wraps [of "bv_msg [0xbf, 255, 255, 255, 255, 255, 255, 255, 247]" "[]"]
  by (auto simp: be_bytes_def le_bytes_numeral)

end
