(* ===== verification/ByteRegions.thy ===== *)
theory ByteRegions
  imports Rlp
begin

text \<open>
  Regions of a byte array. The Ethereum tasks fill their output buffer out of order: they leave room
  for the prefixes, write the transactions, and then go backwards; some of their writes set the
  length of the array below bytes that were written before, which stay in the allocation and come
  back when the array is extended again. So the bytes are tracked in the allocation itself:
  \<open>holds\<close> says what a region of it contains, and \<open>wrote\<close> what an operation may change.
\<close>

definition ba_tight :: "byte_array \<Rightarrow> bool" where
  \<comment> \<open>growing the array never drops bytes: the allocation is at most one byte larger than the capacity\<close>
  "ba_tight b \<longleftrightarrow> ba_wf b \<and> length (ba_arr b) \<le> ba_cap b + 1"

definition holds :: "byte_array \<Rightarrow> nat \<Rightarrow> byte list \<Rightarrow> bool" where
  "holds b off xs \<longleftrightarrow> slice off (length xs) (ba_arr b) = xs"

definition wrote :: "byte_array \<Rightarrow> nat \<Rightarrow> byte list \<Rightarrow> byte_array \<Rightarrow> bool" where
  "wrote b off ys b' \<longleftrightarrow>
     ba_tight b' \<and> holds b' off ys \<and> ba_cap b \<le> ba_cap b' \<and> length (ba_arr b) \<le> length (ba_arr b') \<and>
     (\<forall>p k. p + k \<le> length (ba_arr b) \<and> (p + k \<le> off \<or> off + length ys \<le> p) \<longrightarrow>
        slice p k (ba_arr b') = slice p k (ba_arr b))"

lemma ba_tight_wf [simp]: "ba_tight b \<Longrightarrow> ba_wf b"
  by (simp add: ba_tight_def)

lemma ba_tight_base [wf_intros, simp]: "ba_tight ba_new" "ba_tight (ba_with_capacity c)"
  by (simp_all add: ba_tight_def) (simp_all add: ba_new_def ba_with_capacity_def)

lemma holds_bound: "holds b off xs \<Longrightarrow> xs \<noteq> [] \<Longrightarrow> off + length xs \<le> length (ba_arr b)"
  by (drule arg_cong [of _ _ length, OF holds_def [THEN iffD1]]) (cases xs, auto simp: min_def split: if_splits)

lemma holds_append: "holds b off (xs @ ys) \<longleftrightarrow> holds b off xs \<and> holds b (off + length xs) ys"
proof
  assume h: "holds b off (xs @ ys)"
  then have eq: "slice off (length xs) (ba_arr b) @ slice (off + length xs) (length ys) (ba_arr b) = xs @ ys"
    by (simp add: holds_def slice_add)
  have "length (slice off (length xs) (ba_arr b)) = length xs" using arg_cong [OF eq, of length] by (simp add: min_def split: if_splits)
  then show "holds b off xs \<and> holds b (off + length xs) ys" using eq append_eq_append_conv by (auto simp: holds_def)
qed (simp add: holds_def slice_add)

lemma holds_Nil [simp]: "holds b off []"
  by (simp add: holds_def)

lemma wrote_tight: "wrote b off ys b' \<Longrightarrow> ba_tight b'"
  by (simp add: wrote_def)

lemma wrote_holds: "wrote b off ys b' \<Longrightarrow> holds b' off ys"
  by (simp add: wrote_def)

lemma wrote_keeps:
  "\<lbrakk>wrote b off ys b'; holds b p xs; p + length xs \<le> off \<or> off + length ys \<le> p\<rbrakk> \<Longrightarrow> holds b' p xs"
  using holds_bound [of b p xs] by (cases "xs = []") (auto simp: wrote_def holds_def)

lemma wrote_refl: "ba_tight b \<Longrightarrow> wrote b off [] b"
  by (simp add: wrote_def)

lemma wrote_extends:
  assumes "wrote b off ys b'" and "holds b p xs" and "off = p + length xs"
  shows "holds b' p (xs @ ys)"
  using assms wrote_keeps [of b off ys b' p xs] by (simp add: holds_append wrote_holds)

lemma wrote_prepends:
  assumes "wrote b off ys b'" and "holds b (off + length ys) xs"
  shows "holds b' off (ys @ xs)"
  using assms wrote_keeps [of b off ys b' "off + length ys" xs] by (simp add: holds_append wrote_holds)

lemma wrote_trans:
  assumes "wrote b off ys b1" and "wrote b1 (off + length ys) zs b2"
  shows "wrote b off (ys @ zs) b2"
proof -
  have "holds b2 off (ys @ zs)" using wrote_extends [OF assms(2) wrote_holds [OF assms(1)]] by simp
  then show ?thesis using assms unfolding wrote_def by (auto simp: add.assoc)
qed

lemma slice_vec_resize: "p + k \<le> length xs \<Longrightarrow> p + k \<le> n \<Longrightarrow> slice p k (vec_resize n xs) = slice p k xs"
  by (auto simp: slice_def vec_resize_def drop_take min_def)

lemma wrote_resize: "ba_tight b \<Longrightarrow> wrote b 0 [] (ba_resize b n)"
  by (auto simp: wrote_def ba_tight_def ba_wf_def ba_resize_def ba_reserve_def slice_vec_resize)

lemma wrote_reserve: "ba_tight b \<Longrightarrow> wrote b 0 [] (ba_reserve b n)"
  by (auto simp: wrote_def ba_tight_def ba_wf_def ba_reserve_def slice_vec_resize)

lemma wrote_len:
  assumes "ba_tight b" and "n \<le> ba_cap b"
  shows "wrote b 0 [] (b\<lparr>ba_len := n\<rparr>)"
  using assms by (auto simp: wrote_def ba_tight_def ba_wf_def)

lemma wrote_set_output: "ba_tight b \<Longrightarrow> wrote b 0 [] (ba_set_output b)"
  by (auto simp: wrote_def ba_tight_def ba_wf_def ba_set_output_def)

lemma ba_tight_resize [wf_intros, simp]: "ba_tight b \<Longrightarrow> ba_tight (ba_resize b n)"
  using wrote_resize wrote_tight by blast

lemma ba_tight_reserve [wf_intros, simp]: "ba_tight b \<Longrightarrow> ba_tight (ba_reserve b n)"
  using wrote_reserve wrote_tight by blast

lemma wrote_patch:
  assumes b: "ba_tight b" and fits: "off + length ys \<le> length (ba_arr b)"
  shows "wrote b off ys (b\<lparr>ba_arr := patch off ys (ba_arr b)\<rparr>)"
  unfolding wrote_def
proof (intro conjI allI impI)
  show "ba_tight (b\<lparr>ba_arr := patch off ys (ba_arr b)\<rparr>)" using assms by (simp add: ba_tight_def ba_wf_def)
  show "holds (b\<lparr>ba_arr := patch off ys (ba_arr b)\<rparr>) off ys" using fits by (simp add: holds_def slice_patch_same)
qed (use fits in \<open>auto simp: slice_patch_before slice_patch_after\<close>)

lemma wrote_quiet_trans:
  assumes "wrote b 0 [] b1" and "wrote b1 off ys b2"
  shows "wrote b off ys b2"
  using assms unfolding wrote_def by auto

lemma wrote_then_quiet:
  assumes "wrote b off ys b1" and "wrote b1 0 [] b2"
  shows "wrote b off ys b2"
  using assms wrote_keeps [OF assms(2) wrote_holds [OF assms(1)]] unfolding wrote_def by auto

section \<open>Operations\<close>

lemma wrote_copy_from_array:
  assumes b: "ba_tight b" and src: "from + len \<le> length src" and small: "off + len < 2 ^ 64"
  shows "\<exists>b'. ba_copy_from_array b src off from len = Inr (b', off + len) \<and> wrote b off (slice from len src) b' \<and> ba_len b' = off + len"
proof -
  let ?r = "ba_resize b (off + len)"
  have r: "ba_tight ?r" "off + len \<le> length (ba_arr ?r)"
    using b by simp_all (metis b ba_resize_simps(1) ba_tight_wf ba_wf_def ba_wf_resize le_trans)
  let ?b = "?r\<lparr>ba_arr := patch off (slice from len src) (ba_arr ?r)\<rparr>"
  have "wrote b off (slice from len src) ?b"
    using wrote_quiet_trans [OF wrote_resize [OF b] wrote_patch [OF r(1), of off "slice from len src"]] r(2) src by simp
  moreover have "ba_copy_from_array b src off from len = Inr (?b, off + len)"
    using r(2) src small by (simp add: ba_copy_from_array_def Let_def u64_id)
  ultimately show ?thesis by simp
qed

lemma wrote_copy_from_buffer:
  assumes b: "ba_tight b" and v: "bv_wf v" "0 < len" "from + len \<le> bv_size v" and small: "off + len < 2 ^ 64"
  shows "\<exists>b'. ba_copy_from_buffer b v off from len = Inr (b', off + len) \<and> wrote b off (slice from len (bv_bytes v)) b' \<and>
    ba_len b' = max (ba_len b) (off + len) \<and> ba_cap b' = max (ba_cap b) (off + len)"
proof -
  define r where "r = (if ba_len b < off + len then ba_resize b (off + len) else b)"
  define ys where "ys = slice from len (bv_bytes v)"
  have r: "ba_tight r" "wrote b 0 [] r" using b wrote_resize [OF b] wrote_len [OF b, of "ba_len b"]
    by (simp_all add: r_def) (simp add: ba_tight_def ba_wf_def)
  have l: "ba_len r = max (ba_len b) (off + len)" "ba_cap r = max (ba_cap b) (off + len)"
    using b by (auto simp: r_def ba_tight_def ba_wf_def)
  have fits: "off + len \<le> length (ba_arr r)" using r(1) l(1) by (auto simp: ba_tight_def ba_wf_def)
  have ly: "length ys = len" using v by (simp add: ys_def)
  have "ba_at r 0 = Inr (ba_bytes r ! 0)" using r(1) l(1) v(2) by (intro ba_at_inside) auto
  moreover have "bv_at_read v from len = Inr ys" using v by (auto simp: ys_def intro: bv_at_read_inside)
  ultimately have "ba_copy_from_buffer b v off from len = Inr (r\<lparr>ba_arr := patch off ys (ba_arr r)\<rparr>, off + len)"
    using small fits by (simp add: ba_copy_from_buffer_def Let_def u64_id flip: r_def)
  moreover have "wrote b off ys (r\<lparr>ba_arr := patch off ys (ba_arr r)\<rparr>)"
    using wrote_quiet_trans [OF r(2) wrote_patch [OF r(1)]] fits ly by simp
  ultimately show ?thesis using l by (simp add: ys_def)
qed

lemma wrote_store:
  assumes b: "ba_tight b" and ys: "ys \<noteq> []" and small: "off + length ys < 2 ^ 64"
  shows "\<exists>b'. buf_store ba_len ba_resize ba_poke b off ys = Inr (b', off + length ys) \<and> wrote b off ys b' \<and>
    ba_len b' = max (ba_len b) (off + length ys)"
proof -
  define r where "r = (if ba_len b < off + length ys then ba_resize b (off + length ys) else b)"
  have r: "ba_tight r" "wrote b 0 [] r" using b wrote_resize [OF b] wrote_len [OF b, of "ba_len b"]
    by (simp_all add: r_def) (simp add: ba_tight_def ba_wf_def)
  have l: "ba_len r = max (ba_len b) (off + length ys)" by (auto simp: r_def)
  have fits: "off + length ys \<le> length (ba_arr r)" using r(1) l by (auto simp: ba_tight_def ba_wf_def)
  have "off < ba_len r" using ys l by (cases ys) auto
  then have "ba_at r off = Inr (ba_bytes r ! off)" using r(1) by (intro ba_at_inside) auto
  then have "ba_poke r off ys = Inr (r\<lparr>ba_arr := patch off ys (ba_arr r)\<rparr>)" using fits by (simp add: ba_poke_def)
  then have "buf_store ba_len ba_resize ba_poke b off ys = Inr (r\<lparr>ba_arr := patch off ys (ba_arr r)\<rparr>, off + length ys)"
    using small by (simp add: buf_store_def Let_def u64_id flip: r_def)
  moreover have "wrote b off ys (r\<lparr>ba_arr := patch off ys (ba_arr r)\<rparr>)"
    using wrote_quiet_trans [OF r(2) wrote_patch [OF r(1)]] fits by simp
  ultimately show ?thesis using l by simp
qed

lemma wrote_set_le:
  assumes "ba_tight b" and "0 < k" and "off + k < 2 ^ 64"
  shows "\<exists>b'. ba_set_le k b v off = Inr (b', off + k) \<and> wrote b off (le_bytes k v) b' \<and> ba_len b' = max (ba_len b) (off + k)"
  using wrote_store [of b "le_bytes k v" off] assms by (simp add: set_le_def)

lemma wrote_set_be_sized:
  assumes "ba_tight b" and "0 < n" and "n \<le> k" and "off + n < 2 ^ 64"
  shows "\<exists>b'. set_be_sized ba_len ba_resize ba_poke k b v off n = Inr (b', off + n) \<and> wrote b off (be_bytes n v) b' \<and>
    ba_len b' = max (ba_len b) (off + n)"
  using wrote_store [of b "be_bytes n v" off] assms
  by (simp add: set_be_sized_def take_le_bytes flip: be_bytes_def)

lemma wrote_set_rlp_value:
  assumes "ba_tight b" and "0 < n" and "n \<le> 8" and "off + n < 2 ^ 64"
  shows "\<exists>b'. set_big_endian_rlp_value ba_len ba_resize ba_poke b v off n = Inr (b', off + n) \<and> wrote b off (be_bytes n v) b' \<and>
    ba_len b' = max (ba_len b) (off + n)"
  using assms wrote_set_be_sized [of b n _ off v] by (simp add: set_big_endian_rlp_value_def)

lemma wrote_length_prefix:
  assumes b: "ba_tight b" and small: "off + 9 < 2 ^ 64"
  shows "\<exists>b'. get_length_prefix ba_len ba_resize ba_poke b v off base = Inr (b', off + length (rlp_prefix base v)) \<and>
    wrote b off (rlp_prefix base v) b' \<and> ba_len b' = max (ba_len b) (off + length (rlp_prefix base v))"
proof (cases "v < 56")
  case True
  obtain b' where "set_be_sized ba_len ba_resize ba_poke 1 b ((base + v) mod 256) off 1 = Inr (b', off + 1)"
    "wrote b off [of_nat (base + v)] b'" "ba_len b' = max (ba_len b) (off + 1)"
    using wrote_set_be_sized [OF b, of 1 1 off "(base + v) mod 256"] small unfolding bak.be_bytes_1 by auto
  then show ?thesis using True by (simp add: get_length_prefix_def get_length_bytes_size_eq rlp_prefix_def)
next
  case False
  let ?k = "get_length_bytes_size v"
  note k = get_length_bytes_size_bounds(1,2) [of v]
  obtain b1 where b1: "set_be_sized ba_len ba_resize ba_poke 1 b ((base + 56 - 1 + ?k) mod 256) off 1 = Inr (b1, off + 1)"
    "wrote b off [of_nat (base + 55 + ?k)] b1" "ba_len b1 = max (ba_len b) (off + 1)"
    using wrote_set_be_sized [OF b, of 1 1 off "(base + 56 - 1 + ?k) mod 256"] small unfolding bak.be_bytes_1 by (auto simp: add.commute)
  obtain b2 where b2: "set_big_endian_rlp_value ba_len ba_resize ba_poke b1 v (off + 1) ?k = Inr (b2, off + 1 + ?k)"
    "wrote b1 (off + 1) (be_bytes ?k v) b2" "ba_len b2 = max (ba_len b1) (off + 1 + ?k)"
    using wrote_set_rlp_value [OF wrote_tight [OF b1(2)] k, of "off + 1" v] small k by auto
  have "wrote b off ([of_nat (base + 55 + ?k)] @ be_bytes ?k v) b2" using wrote_trans [OF b1(2)] b2(2) by simp
  then show ?thesis using False b1(1,3) b2(1,3) by (simp add: get_length_prefix_def rlp_prefix_def)
qed

lemma wrote_append_view:
  assumes b: "ba_tight b" and v: "bv_wf v" "0 < bv_size v" and small: "ba_len b + bv_size v < 2 ^ 64"
  shows "\<exists>b'. ba_append_view b v = Inr b' \<and> wrote b (ba_len b) (bv_bytes v) b' \<and> ba_len b' = ba_len b + bv_size v"
proof -
  define r where "r = ba_resize b (ba_len b + bv_size v)"
  have r: "ba_tight r" "wrote b 0 [] r" "ba_len r = ba_len b + bv_size v" using b by (simp_all add: r_def wrote_resize)
  have fits: "ba_len b + bv_size v \<le> length (ba_arr r)" using r(1,3) by (simp add: ba_tight_def ba_wf_def)
  have "ba_at r 0 = Inr (ba_bytes r ! 0)" using r v(2) by (intro ba_at_inside) auto
  moreover have "bv_at_read v 0 (bv_size v) = Inr (bv_bytes v)" using v bv_at_read_inside [of v 0 "bv_size v"] by (simp add: slice_0_all)
  ultimately have "ba_append_view b v = Inr (r\<lparr>ba_arr := patch (ba_len b) (bv_bytes v) (ba_arr r)\<rparr>)"
    using small fits by (simp add: ba_append_view_def Let_def u64_id flip: r_def)
  moreover have "wrote b (ba_len b) (bv_bytes v) (r\<lparr>ba_arr := patch (ba_len b) (bv_bytes v) (ba_arr r)\<rparr>)"
    using wrote_quiet_trans [OF r(2) wrote_patch [OF r(1)]] fits v by simp
  ultimately show ?thesis using r(3) by simp
qed

lemma wrote_poke:
  assumes b: "ba_tight b" and ys: "ys \<noteq> []" "off + length ys \<le> ba_len b"
  shows "\<exists>b'. ba_poke b off ys = Inr b' \<and> wrote b off ys b' \<and> ba_len b' = ba_len b"
proof -
  have fits: "off + length ys \<le> length (ba_arr b)" using b ys(2) by (simp add: ba_tight_def ba_wf_def)
  have "off < ba_len b" using ys by (cases ys) auto
  then have "ba_at b off = Inr (ba_bytes b ! off)" using b by (intro ba_at_inside) auto
  then have "ba_poke b off ys = Inr (b\<lparr>ba_arr := patch off ys (ba_arr b)\<rparr>)" using fits by (simp add: ba_poke_def)
  then show ?thesis using wrote_patch [OF b fits] by simp
qed

lemma ba_tight_reset: "ba_tight b \<Longrightarrow> \<exists>b'. ba_reset b = Inr b' \<and> ba_tight b' \<and> ba_len b' = 0 \<and> ba_cap b' = ba_cap b"
  by (simp add: ba_reset_def ba_clear_def)

end
