(* ===== verification/Sha256.thy ===== *)
theory Sha256
  imports BufferHelper
begin

unbundle bit_operations_syntax

text \<open>
  \<open>Sha256\<close> and \<open>Sha256Context\<close> of \<^verbatim>\<open>src/lib/libutils/utils/crypto\<close>, with the templates of
  \<^verbatim>\<open>hash_helper.h\<close>. The compression itself is OpenSSL's and is the argument \<open>H\<close> of every
  definition that computes a digest; what the code relies on is that a digest has 32 bytes.
  An object carries its 32 bytes and a cached 64-bit hash that the unordered containers use.
\<close>

record sha256 =
  sha_binary :: "byte list"
  sha_hash :: "64 word"

definition SHA256_BINARY_SIZE :: nat where
  "SHA256_BINARY_SIZE = 32"

definition get_hash :: "byte list \<Rightarrow> 64 word" where
  "get_hash bs = foldl (\<lambda>h b. (h * 31) XOR ucast b) 0 bs"

definition sha_of_binary :: "byte list \<Rightarrow> sha256" where
  "sha_of_binary bs = \<lparr>sha_binary = bs, sha_hash = get_hash bs\<rparr>"

definition calculate_sha256 :: "(byte list \<Rightarrow> byte list) \<Rightarrow> reader \<Rightarrow> nat \<Rightarrow> nat \<Rightarrow> sha256 res" where
  "calculate_sha256 H rd from len = rbind (rd from len) (\<lambda>bs. Inr (sha_of_binary (H bs)))"

fun read_sources :: "reader \<Rightarrow> (nat \<times> nat) list \<Rightarrow> byte list res" where
  "read_sources rd [] = Inr []"
| "read_sources rd ((from, len) # srcs) =
     rbind (rd from len) (\<lambda>bs. rbind (read_sources rd srcs) (\<lambda>rest. Inr (bs @ rest)))"

definition sha_zero :: sha256 where
  "sha_zero = \<lparr>sha_binary = replicate 32 0, sha_hash = 0\<rparr>"

definition sha_read :: "buffer_view \<Rightarrow> nat \<Rightarrow> sha256 res" where
  "sha_read v from = rbind (bv_at_read v from SHA256_BINARY_SIZE) (\<lambda>bs. Inr (sha_of_binary bs))"

definition sha_of_vector :: "byte list \<Rightarrow> nat \<Rightarrow> sha256 res" where
  "sha_of_vector xs from =
     (if length xs \<le> from then Inl OutOfRange
      else rbind (vec_read xs from SHA256_BINARY_SIZE) (\<lambda>bs. Inr (sha_of_binary bs)))"

definition sha_with_nonce :: "sha256 \<Rightarrow> nat \<Rightarrow> sha256" where
  \<comment> \<open>the last 20 bytes (an address), preceded by the 8 bytes of the nonce\<close>
  "sha_with_nonce other nonce =
     sha_of_binary (patch (32 - 20) (slice (32 - 20) 20 (sha_binary other))
       (patch (32 - 20 - 8) (le_bytes 8 nonce) (replicate 32 0)))"

definition sha_double_sha256 :: "(byte list \<Rightarrow> byte list) \<Rightarrow> sha256 \<Rightarrow> sha256" where
  "sha_double_sha256 H s = sha_of_binary (H (take 32 (sha_binary s)))"

definition sha_reverse :: "sha256 \<Rightarrow> sha256" where
  "sha_reverse s = sha_of_binary (rev (sha_binary s))"

definition sha_clear :: "sha256 \<Rightarrow> sha256" where
  "sha_clear s = \<lparr>sha_binary = replicate (length (sha_binary s)) 0, sha_hash = 0\<rparr>"

definition sha_of_sources :: "(byte list \<Rightarrow> byte list) \<Rightarrow> reader \<Rightarrow> (nat \<times> nat) list \<Rightarrow> sha256 res" where
  "sha_of_sources H rd srcs =
     rbind (read_sources rd srcs) (\<lambda>bs. Inr (sha_reverse (sha_of_binary (H bs))))"

definition sha_eq :: "sha256 \<Rightarrow> sha256 \<Rightarrow> bool" where
  "sha_eq a b \<longleftrightarrow> take 32 (sha_binary a) = take 32 (sha_binary b)"

definition sha_binary_view :: "sha256 \<Rightarrow> buffer_view" where
  "sha_binary_view s = bv_of_ptr (sha_binary s) SHA256_BINARY_SIZE 0"

definition sha_reversed_binary :: "sha256 \<Rightarrow> byte list" where
  "sha_reversed_binary s = rev (sha_binary s)"

text \<open>\<open>Sha256Context\<close> accumulates the bytes it is given; \<^verbatim>\<open>length = 0\<close> means the rest of the buffer.\<close>

type_synonym sha256_context = "byte list"

definition ctx_update :: "sha256_context \<Rightarrow> buffer_view \<Rightarrow> nat \<Rightarrow> nat \<Rightarrow> sha256_context res" where
  "ctx_update ctx v off len =
     (let len = (if len = 0 then u64_sub (bv_size v) off else len)
      in rbind (bv_read v off len) (\<lambda>bs. Inr (ctx @ bs)))"

definition ctx_digest :: "(byte list \<Rightarrow> byte list) \<Rightarrow> sha256_context \<Rightarrow> sha256" where
  "ctx_digest H ctx = sha_of_binary (H ctx)"

text \<open>\<^verbatim>\<open>hash_helper.h\<close>: the size of the buffer is checked, then the digest is taken.\<close>

definition sha256_of :: "(byte list \<Rightarrow> byte list) \<Rightarrow> buffer_view \<Rightarrow> nat \<Rightarrow> nat \<Rightarrow> sha256 res" where
  "sha256_of H v from len =
     (if bv_size v < u64 (from + len) then Inl RuntimeError else calculate_sha256 H (bv_read v) from len)"

definition double_sha256 :: "(byte list \<Rightarrow> byte list) \<Rightarrow> buffer_view \<Rightarrow> nat \<Rightarrow> nat \<Rightarrow> sha256 res" where
  "double_sha256 H v from len =
     rbind (sha256_of H v from len) (\<lambda>s. Inr (sha_reverse (sha_double_sha256 H s)))"

section \<open>The cached hash\<close>

definition sha_wf :: "sha256 \<Rightarrow> bool" where
  "sha_wf s \<longleftrightarrow> length (sha_binary s) = 32 \<and> sha_hash s = get_hash (sha_binary s)"

lemma get_hash_zeros [simp]: "get_hash (replicate n 0) = 0"
  by (induction n) (auto simp: get_hash_def)

lemma sha_wf_of_binary [wf_intros, simp]: "sha_wf (sha_of_binary bs) \<longleftrightarrow> length bs = 32"
  by (simp add: sha_wf_def sha_of_binary_def)

lemma sha_of_binary_binary [simp]: "sha_binary (sha_of_binary bs) = bs"
  by (simp add: sha_of_binary_def)

lemma sha_wf_ops [wf_intros]:
  "sha_wf sha_zero"
  "sha_wf s \<Longrightarrow> sha_wf (sha_reverse s)"
  "sha_wf s \<Longrightarrow> sha_wf (sha_clear s)"
  "sha_wf s \<Longrightarrow> sha_wf (sha_with_nonce s n)"
  "length (H (take 32 (sha_binary s))) = 32 \<Longrightarrow> sha_wf (sha_double_sha256 H s)"
  by (simp_all add: sha_wf_def sha_zero_def sha_reverse_def sha_clear_def sha_with_nonce_def
      sha_double_sha256_def sha_of_binary_def del: replicate.simps)

lemma sha_wf_read [wf_intros]:
  assumes "sha_read v from = Inr s"
  shows "sha_wf s"
  using assms
  by (auto simp: sha_read_def bv_at_read_def bv_read_def SHA256_BINARY_SIZE_def Let_def
      split: if_splits option.splits)

lemma sha_eq_iff: "sha_wf a \<Longrightarrow> sha_wf b \<Longrightarrow> sha_eq a b \<longleftrightarrow> a = b"
  by (auto simp: sha_eq_def sha_wf_def)

lemma sha_reverse_reverse: "sha_wf s \<Longrightarrow> sha_reverse (sha_reverse s) = s"
  by (simp add: sha_reverse_def sha_wf_def sha_of_binary_def)

lemma sha_read_inside:
  assumes "bv_wf v" and "from + 32 \<le> bv_size v"
  shows "sha_read v from = Inr (sha_of_binary (slice from 32 (bv_bytes v)))"
  using assms by (simp add: sha_read_def SHA256_BINARY_SIZE_def bv_at_read_inside)

lemma double_sha256_inside:
  assumes "bv_ok v" and "from + len \<le> bv_size v" and "\<And>bs. length (H bs) = 32"
  shows "double_sha256 H v from len =
    Inr (sha_of_binary (rev (H (H (slice from len (bv_bytes v))))))"
proof -
  have "from + len < 2 ^ 64" using assms(1,2) bv_size_less [of v] by (auto simp: bv_ok_def)
  then show ?thesis
    using assms by (simp add: double_sha256_def sha256_of_def calculate_sha256_def bv_read_inside
        bv_ok_def u64_id sha_double_sha256_def sha_reverse_def)
qed

end
