(* ===== verification/Keccak.thy ===== *)
theory Keccak
  imports Sha256
begin

text \<open>
  \<open>keccak_sha3\<close> of \<^verbatim>\<open>src/lib/libutils/utils/crypto/keccak.cpp\<close>, the hash of Ethereum. The code updates
  25 lanes of 64 bits in place and unrolls its loops by macros; here the loops are folds over the
  indices they run through. Below it is compared with the definition of the permutation by
  coordinates, and the absorbing loop with the sponge over the padded message.
\<close>

type_synonym lane = "64 word"

section \<open>The permutation\<close>

definition keccak_rho :: "nat list" where
  "keccak_rho = [1, 3, 6, 10, 15, 21, 28, 36, 45, 55, 2, 14, 27, 41, 56, 8, 25, 43, 62, 18, 39, 61, 20, 44]"

definition keccak_pi :: "nat list" where
  "keccak_pi = [10, 7, 11, 17, 18, 3, 5, 16, 8, 21, 24, 4, 15, 23, 19, 13, 12, 2, 20, 14, 22, 9, 6, 1]"

definition keccak_RC :: "lane list" where
  "keccak_RC =
     [1, 0x8082, 0x800000000000808a, 0x8000000080008000, 0x808b, 0x80000001, 0x8000000080008081, 0x8000000000008009,
      0x8a, 0x88, 0x80008009, 0x8000000a, 0x8000808b, 0x800000000000008b, 0x8000000000008089, 0x8000000000008003,
      0x8000000000008002, 0x8000000000000080, 0x800a, 0x800000008000000a, 0x8000000080008081, 0x8000000000008080,
      0x80000001, 0x8000000080008008]"

definition rol :: "lane \<Rightarrow> nat \<Rightarrow> lane" where
  "rol x s = push_bit s x OR drop_bit (64 - s) x"

definition keccak_theta :: "lane list \<Rightarrow> lane list" where
  "keccak_theta a =
     (let b = map (\<lambda>x. fold (\<lambda>y t. t XOR a ! (x + y)) [0, 5, 10, 15, 20] 0) [0, 1, 2, 3, 4]
      in fold (\<lambda>x a. fold (\<lambda>y a. a[y + x := a ! (y + x) XOR (b ! ((x + 4) mod 5) XOR rol (b ! ((x + 1) mod 5)) 1)])
           [0, 5, 10, 15, 20] a) [0, 1, 2, 3, 4] a)"

definition keccak_rho_pi :: "lane list \<Rightarrow> lane list" where
  "keccak_rho_pi a =
     fst (fold (\<lambda>(p, r) (a, t). (a[p := rol t r], a ! p)) (zip keccak_pi keccak_rho) (a, a ! 1))"

definition keccak_chi :: "lane list \<Rightarrow> lane list" where
  "keccak_chi a =
     fold (\<lambda>y a.
       let b = map (\<lambda>x. a ! (y + x)) [0, 1, 2, 3, 4]
       in fold (\<lambda>x a. a[y + x := b ! x XOR (NOT (b ! ((x + 1) mod 5)) AND b ! ((x + 2) mod 5))]) [0, 1, 2, 3, 4] a)
     [0, 5, 10, 15, 20] a"

definition keccak_iota :: "nat \<Rightarrow> lane list \<Rightarrow> lane list" where
  "keccak_iota i a = a[0 := a ! 0 XOR keccak_RC ! i]"

definition keccak_round :: "nat \<Rightarrow> lane list \<Rightarrow> lane list" where
  "keccak_round i a = keccak_iota i (keccak_chi (keccak_rho_pi (keccak_theta a)))"

definition keccakf :: "lane list \<Rightarrow> lane list" where
  "keccakf a = fold keccak_round [0..<24] a"

section \<open>The sponge\<close>

definition lanes :: "byte list \<Rightarrow> lane list" where
  \<comment> \<open>\<^verbatim>\<open>(uint64_t*) state\<close>\<close>
  "lanes a = map (\<lambda>i. of_nat (le_val (slice (8 * i) 8 a))) [0..<25]"

definition lane_bytes :: "lane list \<Rightarrow> byte list" where
  "lane_bytes a = concat (map (\<lambda>w. le_bytes 8 (unat w)) a)"

definition keccak_P :: "byte list \<Rightarrow> byte list" where
  "keccak_P a = lane_bytes (keccakf (lanes a))"

definition xorin :: "byte list \<Rightarrow> byte list \<Rightarrow> byte list" where
  \<comment> \<open>the \<^verbatim>\<open>len\<close> bytes of the source are its whole list\<close>
  "xorin dst src = map2 (XOR) (take (length src) dst) src @ drop (length src) dst"

definition keccak_rate :: nat where
  "keccak_rate = 200 - 256 div 4"

function absorb :: "byte list \<Rightarrow> byte list \<Rightarrow> byte list \<times> byte list" where
  "absorb a ins =
     (if keccak_rate \<le> length ins
      then absorb (keccak_P (xorin a (take keccak_rate ins))) (drop keccak_rate ins) else (a, ins))"
  by pat_completeness auto
termination by (relation "measure (\<lambda>(a, ins). length ins)") (auto simp: keccak_rate_def)

function squeeze :: "byte list \<Rightarrow> nat \<Rightarrow> byte list" where
  "squeeze a outlen =
     (if keccak_rate \<le> outlen then take keccak_rate a @ squeeze (keccak_P a) (outlen - keccak_rate) else take outlen a)"
  by pat_completeness auto
termination by (relation "measure snd") (auto simp: keccak_rate_def)

declare absorb.simps [simp del] squeeze.simps [simp del]

definition keccak_hash :: "nat \<Rightarrow> byte list \<Rightarrow> byte \<Rightarrow> byte list" where
  "keccak_hash outlen ins delim =
     (let (a, rest) = absorb (replicate 200 0) ins;
          a = a[length rest := a ! length rest XOR delim];
          a = a[keccak_rate - 1 := a ! (keccak_rate - 1) XOR 0x80];
          a = xorin a rest
      in squeeze (keccak_P a) outlen)"

definition sha3_256 :: "byte list \<Rightarrow> byte list" where
  "sha3_256 ins = keccak_hash 32 ins 0x01"

definition keccak_sha3 :: "reader \<Rightarrow> nat \<Rightarrow> nat \<Rightarrow> sha256 res" where
  "keccak_sha3 rd from len = rbind (rd from len) (\<lambda>bs. Inr (sha_of_binary (sha3_256 bs)))"

section \<open>The permutation by coordinates\<close>

text \<open>
  Keccak-f as the standard defines it, on lanes \<open>A x y\<close> with coordinates modulo 5. The rotation
  offsets follow the walk \<open>(x, y) \<mapsto> (y, 2x + 3y)\<close> from \<open>(1, 0)\<close>.
\<close>

definition spec_theta :: "(nat \<Rightarrow> nat \<Rightarrow> lane) \<Rightarrow> nat \<Rightarrow> nat \<Rightarrow> lane" where
  "spec_theta A x y =
     (let C = (\<lambda>x. A x 0 XOR A x 1 XOR A x 2 XOR A x 3 XOR A x 4)
      in A x y XOR C ((x + 4) mod 5) XOR rol (C ((x + 1) mod 5)) 1)"

fun rho_walk :: "nat \<Rightarrow> nat \<times> nat" where
  "rho_walk 0 = (1, 0)"
| "rho_walk (Suc t) = (let (x, y) = rho_walk t in (y, (2 * x + 3 * y) mod 5))"

definition spec_rho_offset :: "nat \<Rightarrow> nat \<Rightarrow> nat" where
  "spec_rho_offset x y =
     (case List.find (\<lambda>t. rho_walk t = (x, y)) [0..<24] of None \<Rightarrow> 0 | Some t \<Rightarrow> (t + 1) * (t + 2) div 2 mod 64)"

definition spec_rho :: "(nat \<Rightarrow> nat \<Rightarrow> lane) \<Rightarrow> nat \<Rightarrow> nat \<Rightarrow> lane" where
  "spec_rho A x y = rol (A x y) (spec_rho_offset x y)"

definition spec_pi :: "(nat \<Rightarrow> nat \<Rightarrow> lane) \<Rightarrow> nat \<Rightarrow> nat \<Rightarrow> lane" where
  "spec_pi A x y = A ((x + 3 * y) mod 5) x"

definition spec_chi :: "(nat \<Rightarrow> nat \<Rightarrow> lane) \<Rightarrow> nat \<Rightarrow> nat \<Rightarrow> lane" where
  "spec_chi A x y = A x y XOR (NOT (A ((x + 1) mod 5) y) AND A ((x + 2) mod 5) y)"

definition lane_at :: "lane list \<Rightarrow> nat \<Rightarrow> nat \<Rightarrow> lane" where
  "lane_at a x y = a ! (x + 5 * y)"

definition all_xy :: "(nat \<times> nat) list" where
  "all_xy = List.product [0, 1, 2, 3, 4] [0, 1, 2, 3, 4]"

lemma length_keccak_theta [simp]: "length (keccak_theta a) = length a"
  by (simp add: keccak_theta_def)

lemma length_keccak_chi [simp]: "length (keccak_chi a) = length a"
  by (simp add: keccak_chi_def Let_def)

lemma length_keccak_rho_pi [simp]: "length (keccak_rho_pi a) = length a"
  by (simp add: keccak_rho_pi_def keccak_pi_def keccak_rho_def)

lemma theta_matches:
  assumes "length a = 25"
  shows "list_all (\<lambda>(x, y). lane_at (keccak_theta a) x y = spec_theta (lane_at a) x y) all_xy"
  using assms
  by (simp add: all_xy_def lane_at_def keccak_theta_def spec_theta_def nth_list_update ac_simps flip: numeral_2_eq_2)

lemma rho_pi_matches:
  assumes "length a = 25"
  shows "list_all (\<lambda>(x, y). lane_at (keccak_rho_pi a) x y = spec_pi (spec_rho (lane_at a)) x y) all_xy"
proof -
  have off: "list_all (\<lambda>(x, y). spec_rho_offset x y =
      [[0, 36, 3, 41, 18], [1, 44, 10, 45, 2], [62, 6, 43, 15, 61], [28, 55, 25, 21, 56], [27, 20, 39, 8, 14]] ! x ! y) all_xy"
    by code_simp
  have rol0: "rol w 0 = w" for w by (rule bit_word_eqI) (simp add: rol_def bit_simps)
  show ?thesis
    using assms off
    by (simp add: all_xy_def lane_at_def keccak_rho_pi_def keccak_pi_def keccak_rho_def spec_pi_def spec_rho_def
        nth_list_update rol0 flip: numeral_2_eq_2)
qed

lemma chi_matches:
  assumes "length a = 25"
  shows "list_all (\<lambda>(x, y). lane_at (keccak_chi a) x y = spec_chi (lane_at a) x y) all_xy"
  using assms by (simp add: all_xy_def lane_at_def keccak_chi_def spec_chi_def nth_list_update Let_def)

text \<open>The round constants come from a linear feedback shift register of 8 bits.\<close>

definition lfsr_step :: "nat \<Rightarrow> nat" where
  "lfsr_step s = (if 2 * s < 256 then 2 * s else (2 * s - 256) XOR 0x71)"

fun rc_bits :: "nat \<Rightarrow> nat \<Rightarrow> nat \<Rightarrow> nat" where
  \<comment> \<open>the next \<open>n\<close> bits of the register, the first at position \<open>2\<^sup>j - 1\<close>\<close>
  "rc_bits 0 j s = 0"
| "rc_bits (Suc n) j s = (if odd s then 2 ^ (2 ^ j - 1) else 0) + rc_bits n (j + 1) (lfsr_step s)"

fun lfsr_run :: "nat \<Rightarrow> nat \<Rightarrow> nat" where
  "lfsr_run 0 s = s"
| "lfsr_run (Suc n) s = lfsr_run n (lfsr_step s)"

fun rc_list :: "nat \<Rightarrow> nat \<Rightarrow> nat list" where
  "rc_list 0 s = []"
| "rc_list (Suc n) s = rc_bits 7 0 s # rc_list n (lfsr_run 7 s)"

definition spec_RC :: "nat \<Rightarrow> lane" where
  "spec_RC i = of_nat (rc_list 24 1 ! i)"

lemma rc_numeral:
  "rc_bits (numeral n) j s = (if odd s then 2 ^ (2 ^ j - 1) else 0) + rc_bits (pred_numeral n) (j + 1) (lfsr_step s)"
  "lfsr_run (numeral n) s = lfsr_run (pred_numeral n) (lfsr_step s)"
  "rc_list (numeral n) s = rc_bits 7 0 s # rc_list (pred_numeral n) (lfsr_run 7 s)"
  by (simp_all only: numeral_eq_Suc [of n] rc_bits.simps lfsr_run.simps rc_list.simps)

lemma rc_list_24:
  "rc_list 24 1 =
     [1, 0x8082, 0x800000000000808a, 0x8000000080008000, 0x808b, 0x80000001, 0x8000000080008081, 0x8000000000008009,
      0x8a, 0x88, 0x80008009, 0x8000000a, 0x8000808b, 0x800000000000008b, 0x8000000000008089, 0x8000000000008003,
      0x8000000000008002, 0x8000000000000080, 0x800a, 0x800000008000000a, 0x8000000080008081, 0x8000000000008080,
      0x80000001, 0x8000000080008008]"
  by (simp add: rc_numeral lfsr_step_def)

lemma RC_matches: "keccak_RC = map of_nat (rc_list 24 1)"
  unfolding rc_list_24 by (simp add: keccak_RC_def)

definition spec_round :: "nat \<Rightarrow> (nat \<Rightarrow> nat \<Rightarrow> lane) \<Rightarrow> nat \<Rightarrow> nat \<Rightarrow> lane" where
  "spec_round i A x y = spec_chi (spec_pi (spec_rho (spec_theta A))) x y XOR (if x = 0 \<and> y = 0 then spec_RC i else 0)"

definition agree :: "(nat \<Rightarrow> nat \<Rightarrow> lane) \<Rightarrow> (nat \<Rightarrow> nat \<Rightarrow> lane) \<Rightarrow> bool" where
  "agree A B \<longleftrightarrow> (\<forall>x < 5. \<forall>y < 5. A x y = B x y)"

lemma agree_all_xy: "agree A B \<longleftrightarrow> list_all (\<lambda>(x, y). A x y = B x y) all_xy"
proof -
  have "{..<5} = set [0, 1, 2, 3, 4 :: nat]" by auto
  then have "agree A B \<longleftrightarrow> (\<forall>x \<in> set [0, 1, 2, 3, 4]. \<forall>y \<in> set [0, 1, 2, 3, 4]. A x y = B x y)"
    by (simp only: agree_def flip: lessThan_iff) blast
  then show ?thesis by (simp only: all_xy_def list_all_iff set_product) auto
qed

lemma agree_trans: "agree A B \<Longrightarrow> agree B C \<Longrightarrow> agree A C"
  by (simp add: agree_def)

lemma agree_steps:
  assumes "agree A B"
  shows "agree (spec_pi (spec_rho A)) (spec_pi (spec_rho B))" "agree (spec_chi A) (spec_chi B)" "agree (spec_theta A) (spec_theta B)"
  using assms by (simp_all add: agree_def spec_pi_def spec_rho_def spec_chi_def spec_theta_def Let_def)

lemma agree_round: "agree A B \<Longrightarrow> agree (spec_round i A) (spec_round i B)"
  using agree_steps(2) [OF agree_steps(1) [OF agree_steps(3)], of A B] by (simp add: agree_def spec_round_def)

lemma round_matches:
  assumes a: "length a = 25" and i: "i < 24"
  shows "agree (lane_at (keccak_round i a)) (spec_round i (lane_at a))"
proof -
  let ?t = "keccak_theta a" let ?r = "keccak_rho_pi ?t"
  have t: "agree (lane_at ?t) (spec_theta (lane_at a))" using theta_matches [OF a] by (simp add: agree_all_xy)
  have "agree (lane_at ?r) (spec_pi (spec_rho (lane_at ?t)))" using rho_pi_matches [of ?t] a by (simp add: agree_all_xy)
  then have "agree (lane_at ?r) (spec_pi (spec_rho (spec_theta (lane_at a))))" using agree_trans agree_steps(1) [OF t] by blast
  moreover have "agree (lane_at (keccak_chi ?r)) (spec_chi (lane_at ?r))" using chi_matches [of ?r] a by (simp add: agree_all_xy)
  ultimately have c: "agree (lane_at (keccak_chi ?r)) (spec_chi (spec_pi (spec_rho (spec_theta (lane_at a)))))"
    using agree_trans agree_steps(2) by blast
  have l: "length (rc_list 24 1) = 24" unfolding rc_list_24 by simp
  have "keccak_RC ! i = spec_RC i" using i l by (simp add: RC_matches spec_RC_def)
  moreover have "keccak_chi ?r ! 0 = spec_chi (spec_pi (spec_rho (spec_theta (lane_at a)))) 0 0"
    using c by (force simp: agree_def lane_at_def)
  ultimately show ?thesis using c a
    by (auto simp: agree_def spec_round_def keccak_round_def keccak_iota_def lane_at_def nth_list_update)
qed

lemma length_keccak_round [simp]: "length (keccak_round i a) = length a"
  by (simp add: keccak_round_def keccak_iota_def)

lemma length_fold_keccak_round [simp]: "length (fold keccak_round is a) = length a"
  by (induction "is" arbitrary: a) auto

lemma length_keccakf [simp]: "length (keccakf a) = length a"
  by (simp add: keccakf_def)

lemma rounds_match:
  assumes "length a = 25" and "\<forall>i \<in> set is. i < 24" and "agree (lane_at a) A"
  shows "agree (lane_at (fold keccak_round is a)) (fold spec_round is A)"
  using assms
proof (induction "is" arbitrary: a A)
  case (Cons i "is")
  have "agree (lane_at (keccak_round i a)) (spec_round i A)"
    using round_matches [of a i] agree_round [of "lane_at a" A i] Cons.prems agree_trans by auto
  then show ?case using Cons.IH [of "keccak_round i a" "spec_round i A"] Cons.prems by simp
qed simp

text \<open>
  C39: on 25 lanes the unrolled, in-place code computes Keccak-f[1600] as defined by coordinates:
  theta, rho, pi, chi and iota, with the rotation offsets of the walk over the lanes and the round
  constants of the shift register.
\<close>

theorem keccakf_is_keccak:
  assumes "length a = 25" and "x < 5" and "y < 5"
  shows "lane_at (keccakf a) x y = fold spec_round [0..<24] (lane_at a) x y"
proof -
  have "agree (lane_at a) (lane_at a)" by (simp add: agree_def)
  then have "agree (lane_at (fold keccak_round [0..<24] a)) (fold spec_round [0..<24] (lane_at a))"
    using rounds_match [OF assms(1)] by simp
  then show ?thesis using assms(2,3) by (simp add: agree_def keccakf_def)
qed

theorem keccakf_is_keccak_witness:
  "lane_at (keccakf (replicate 25 1)) 3 4 = fold spec_round [0..<24] (lane_at (replicate 25 1)) 3 4"
  using keccakf_is_keccak [of "replicate 25 1" 3 4] by simp

section \<open>The sponge over the padded message\<close>

definition keccak_pad :: "byte list \<Rightarrow> byte list" where
  "keccak_pad ins =
     (let q = keccak_rate - length ins mod keccak_rate
      in if q = 1 then ins @ [0x81] else ins @ 0x01 # replicate (q - 2) 0 @ [0x80])"

definition rate_blocks :: "byte list \<Rightarrow> byte list list" where
  "rate_blocks xs = map (\<lambda>i. slice (i * keccak_rate) keccak_rate xs) [0..<length xs div keccak_rate]"

definition spec_absorb :: "byte list \<Rightarrow> byte list \<Rightarrow> byte list" where
  "spec_absorb a block = keccak_P (xorin a block)"

lemma keccak_rate_eq [simp]: "keccak_rate = 136"
  by (simp add: keccak_rate_def)

lemma length_keccak_P [simp]: "length (keccak_P a) = 200"
  by (simp add: keccak_P_def lane_bytes_def lanes_def length_concat comp_def sum_list_triv)

lemma length_xorin [simp]: "length src \<le> length dst \<Longrightarrow> length (xorin dst src) = length dst"
  by (simp add: xorin_def)

lemma rate_blocks_step:
  assumes "136 \<le> length xs"
  shows "rate_blocks xs = take 136 xs # rate_blocks (drop 136 xs)"
proof -
  let ?n = "length xs div 136"
  have n: "?n = Suc ((length xs - 136) div 136)" using assms by (simp add: le_div_geq)
  have "[0..<?n] = 0 # map Suc [0..<(length xs - 136) div 136]" unfolding n by (simp add: map_Suc_upt upt_conv_Cons)
  then show ?thesis by (simp add: rate_blocks_def comp_def slice_drop slice_def add.commute)
qed

lemma rate_blocks_short: "length xs < 136 \<Longrightarrow> rate_blocks xs = []"
  by (simp add: rate_blocks_def)

lemma absorb_spec: "absorb a ins = (foldl spec_absorb a (rate_blocks ins), drop (136 * (length ins div 136)) ins)"
proof (induction a ins rule: absorb.induct)
  case (1 a ins)
  show ?case
  proof (cases "136 \<le> length ins")
    case True
    then have "length ins div 136 = Suc ((length ins - 136) div 136)" by (simp add: le_div_geq)
    then show ?thesis using 1 True by (subst absorb.simps) (simp add: rate_blocks_step spec_absorb_def [symmetric] add.commute)
  next
    case False
    then show ?thesis by (subst absorb.simps) (simp add: rate_blocks_short)
  qed
qed

lemma rate_blocks_append:
  assumes "length r < 136" and "length (r @ p) = 136"
  shows "length xs mod 136 = 0 \<Longrightarrow> rate_blocks (xs @ r @ p) = rate_blocks xs @ [r @ p]"
proof (induction "length xs" arbitrary: xs rule: less_induct)
  case less
  show ?case
  proof (cases "xs = []")
    case True
    then show ?thesis using assms by (simp add: rate_blocks_step rate_blocks_short)
  next
    case False
    then have l: "136 \<le> length xs" using less.prems by (metis length_0_conv mod_less not_le_imp_less)
    have "length (drop 136 xs) mod 136 = 0" using less.prems l by (simp add: le_mod_geq)
    then have "rate_blocks (drop 136 xs @ r @ p) = rate_blocks (drop 136 xs) @ [r @ p]" using less.hyps [of "drop 136 xs"] l by simp
    then show ?thesis using l by (simp add: rate_blocks_step)
  qed
qed

lemma nth_xorin: "length src \<le> length dst \<Longrightarrow> i < length dst \<Longrightarrow>
    xorin dst src ! i = (if i < length src then dst ! i XOR src ! i else dst ! i)"
  by (simp add: xorin_def nth_append)

lemma xorin_padded:
  assumes a: "length a = 200" and r: "length r < 136"
  defines "b \<equiv> a[length r := a ! length r XOR 1]"
  shows "xorin (b[135 := b ! 135 XOR 0x80]) r =
    xorin a (r @ (if 136 - length r = 1 then [0x81] else 0x01 # replicate (136 - length r - 2) 0 @ [0x80]))"
proof (rule nth_equalityI)
  let ?p = "if 136 - length r = 1 then [0x81] else 0x01 # replicate (136 - length r - 2) 0 @ [0x80 :: byte]"
  have lp: "length (r @ ?p) = 136" using r by auto
  show "length (xorin (b[135 := b ! 135 XOR 0x80]) r) = length (xorin a (r @ ?p))"
    using a r lp unfolding b_def by (subst (1 2) length_xorin) auto
  fix i assume "i < length (xorin (b[135 := b ! 135 XOR 0x80]) r)"
  then have i: "i < 200" using a r unfolding b_def by (subst (asm) length_xorin) auto
  have pn: "?p ! k = (if k = 0 then if length r = 135 then 0x81 else 1 else if k = 135 - length r then 0x80 else 0)"
    if "k < 136 - length r" for k
    using that r by (auto simp: nth_Cons' nth_append)
  have lhs: "xorin (b[135 := b ! 135 XOR 0x80]) r ! i =
      (if i < length r then a ! i XOR r ! i else b[135 := b ! 135 XOR 0x80] ! i)"
    using a r i by (subst nth_xorin) (auto simp: b_def)
  have rhs: "xorin a (r @ ?p) ! i = (if i < 136 then a ! i XOR (r @ ?p) ! i else a ! i)"
    using a i lp by (subst nth_xorin) auto
  show "xorin (b[135 := b ! 135 XOR 0x80]) r ! i = xorin a (r @ ?p) ! i"
  proof (cases "i < length r")
    case True
    then show ?thesis unfolding lhs rhs using r by (simp add: nth_append)
  next
    case False
    then have "(r @ ?p) ! i = ?p ! (i - length r)" by (simp add: nth_append)
    then show ?thesis unfolding lhs rhs using False r i a pn [of "i - length r"]
      by (auto simp: b_def nth_list_update xor.assoc)
  qed
qed

text \<open>
  C38: the code that absorbs whole blocks and then adds the delimiter, the end bit and the rest of the
  input computes the sponge over the message padded to a multiple of 136 bytes, of which the first
  32 bytes are the digest.
\<close>

theorem sha3_256_is_sponge:
  "sha3_256 ins = take 32 (foldl spec_absorb (replicate 200 0) (rate_blocks (keccak_pad ins)))"
proof -
  let ?n = "136 * (length ins div 136)"
  let ?xs = "take ?n ins" and ?r = "drop ?n ins"
  have le: "?n \<le> length ins" by simp
  have r: "length ?r = length ins mod 136" by (simp add: minus_mult_div_eq_mod)
  then have r_less: "length ?r < 136" by simp
  define p where "p = (if 136 - length ?r = 1 then [0x81] else 0x01 # replicate (136 - length ?r - 2) 0 @ [0x80 :: byte])"
  have "keccak_pad ins = ins @ p" unfolding p_def r by (simp add: keccak_pad_def Let_def)
  moreover have "?xs @ ?r = ins" by (rule append_take_drop_id)
  ultimately have pad: "keccak_pad ins = ?xs @ ?r @ p" by (metis append_assoc)
  have "length (xs @ (if 136 - length xs = 1 then [0x81] else 0x01 # replicate (136 - length xs - 2) 0 @ [0x80 :: byte])) = 136"
    if "length xs < 136" for xs using that by auto
  then have lp: "length (?r @ p) = 136" using r_less unfolding p_def by blast
  have lx: "length ?xs mod 136 = 0" using le by (simp add: min_absorb2)
  have lxs: "length ?xs = ?n" using le by (simp add: min_absorb2)
  have "slice (i * 136) 136 ins = slice (i * 136) 136 ?xs" if "i < length ins div 136" for i
  proof -
    have "i * 136 + 136 \<le> length ?xs" using that unfolding lxs by simp
    then show ?thesis using slice_append_left [of "i * 136" 136 ?xs ?r] by simp
  qed
  then have "rate_blocks ins = rate_blocks ?xs" unfolding rate_blocks_def lxs by simp
  then have blocks: "rate_blocks (keccak_pad ins) = rate_blocks ins @ [?r @ p]"
    unfolding pad using rate_blocks_append [OF r_less lp lx] by simp
  define a where "a = foldl spec_absorb (replicate 200 0) (rate_blocks ins)"
  have la: "length a = 200"
    unfolding a_def by (cases "rate_blocks ins" rule: rev_cases) (simp_all add: spec_absorb_def)
  have "absorb (replicate 200 0) ins = (a, ?r)" by (simp add: absorb_spec a_def)
  then have "sha3_256 ins = squeeze (spec_absorb a (?r @ p)) 32"
    using xorin_padded [OF la r_less] by (simp add: sha3_256_def keccak_hash_def Let_def spec_absorb_def p_def)
  then show ?thesis by (simp add: squeeze.simps blocks a_def)
qed

lemma length_sha3_256 [simp]: "length (sha3_256 ins) = 32"
  by (simp add: sha3_256_def keccak_hash_def split_beta Let_def squeeze.simps)

end
