(* ===== verification/CompactShortId.thy ===== *)
theory CompactShortId
  imports Sha256
begin

text \<open>
  \<open>CompactShortId\<close> of \<^verbatim>\<open>src/lib/libutils/utils/crypto/compact_short_id.cpp\<close>: the 6-byte ids of
  BIP 152, SipHash-2-4 of a transaction hash. The code unrolls the hash for a message of exactly
  32 bytes; the reference definition below is the algorithm of the SipHash paper for messages
  of any length, and the two are proved equal.
\<close>

type_synonym sip_state = "64 word \<times> 64 word \<times> 64 word \<times> 64 word"

definition ROTL :: "64 word \<Rightarrow> nat \<Rightarrow> 64 word" where
  "ROTL x b = push_bit b x OR drop_bit (64 - b) x"

definition SIPROUND :: "sip_state \<Rightarrow> sip_state" where
  "SIPROUND = (\<lambda>(v0, v1, v2, v3).
     let v0 = v0 + v1; v1 = ROTL v1 13; v1 = v1 XOR v0;
         v0 = ROTL v0 32;
         v2 = v2 + v3; v3 = ROTL v3 16; v3 = v3 XOR v2;
         v0 = v0 + v3; v3 = ROTL v3 21; v3 = v3 XOR v0;
         v2 = v2 + v1; v1 = ROTL v1 17; v1 = v1 XOR v2;
         v2 = ROTL v2 32
     in (v0, v1, v2, v3))"

definition sip_word :: "byte list \<Rightarrow> nat \<Rightarrow> 64 word" where
  "sip_word bs off = of_nat (le_val (slice off 8 bs))"

definition xor_v0 :: "64 word \<Rightarrow> sip_state \<Rightarrow> sip_state" where
  "xor_v0 d = (\<lambda>(v0, v1, v2, v3). (v0 XOR d, v1, v2, v3))"

definition xor_v2 :: "64 word \<Rightarrow> sip_state \<Rightarrow> sip_state" where
  "xor_v2 d = (\<lambda>(v0, v1, v2, v3). (v0, v1, v2 XOR d, v3))"

definition xor_v3 :: "64 word \<Rightarrow> sip_state \<Rightarrow> sip_state" where
  "xor_v3 d = (\<lambda>(v0, v1, v2, v3). (v0, v1, v2, v3 XOR d))"

definition sip_hash24 :: "64 word \<times> 64 word \<Rightarrow> sha256 \<Rightarrow> 64 word" where
  "sip_hash24 key sha =
     (let k0 = fst key; k1 = snd key;
          reversed_sha256 = sha_reversed_binary sha;
          d0 = sip_word reversed_sha256 0; d1 = sip_word reversed_sha256 8;
          d2 = sip_word reversed_sha256 16; d3 = sip_word reversed_sha256 24;
          v = (0x736f6d6570736575 XOR k0, 0x646f72616e646f6d XOR k1,
               0x6c7967656e657261 XOR k0, 0x7465646279746573 XOR k1 XOR d0);
          v = SIPROUND (SIPROUND v); v = xor_v0 d0 v; v = xor_v3 d1 v;
          v = SIPROUND (SIPROUND v); v = xor_v0 d1 v; v = xor_v3 d2 v;
          v = SIPROUND (SIPROUND v); v = xor_v0 d2 v; v = xor_v3 d3 v;
          v = SIPROUND (SIPROUND v); v = xor_v0 d3 v;
          v = xor_v3 (push_bit 59 4) v;
          v = SIPROUND (SIPROUND v); v = xor_v0 (push_bit 59 4) v;
          v = xor_v2 0xFF v;
          v = SIPROUND (SIPROUND (SIPROUND (SIPROUND v)))
      in case v of (v0, v1, v2, v3) \<Rightarrow> (v0 XOR v1) XOR (v2 XOR v3))"

definition compact_id_of_buffer :: "buffer_view \<Rightarrow> nat \<Rightarrow> nat res" where
  "compact_id_of_buffer v off = rbind (get_compact_short_id (bv_read v) off) (\<lambda>(c, _). Inr c)"

definition to_compact_id :: "sha256 \<Rightarrow> 64 word \<times> 64 word \<Rightarrow> nat" where
  "to_compact_id sha key = unat (sip_hash24 key sha AND 0x0000FFFFFFFFFFFF)"

definition BTC_COMPACT_SHORT_ID_SIZE :: nat where
  "BTC_COMPACT_SHORT_ID_SIZE = 6"

section \<open>The algorithm of the SipHash paper\<close>

text \<open>
  The reference shares no operation with the model of the code: a round is two half rounds of the add-rotate-xor
  network of the paper, with the rotation constants 13 and 16 in the first and 17 and 21 in the second and the rotation
  of the word library; a message is split into 8-byte blocks by recursion and its last block holds the remaining bytes
  and the length.
\<close>

definition sip_half_round :: "nat \<Rightarrow> nat \<Rightarrow> sip_state \<Rightarrow> sip_state" where
  \<comment> \<open>on \<open>(a, b, c, d)\<close>, which the second half round gets as \<open>(v2, v1, v0, v3)\<close>\<close>
  "sip_half_round s t = (\<lambda>(a, b, c, d).
     (word_rotl 32 (a + b), word_rotl s b XOR (a + b), c + d, word_rotl t d XOR (c + d)))"

definition sip_round :: "sip_state \<Rightarrow> sip_state" where
  "sip_round v =
     (case sip_half_round 13 16 v of (v0, v1, v2, v3) \<Rightarrow>
      case sip_half_round 17 21 (v2, v1, v0, v3) of (v2, v1, v0, v3) \<Rightarrow> (v0, v1, v2, v3))"

definition sip_compress :: "64 word \<Rightarrow> sip_state \<Rightarrow> sip_state" where
  "sip_compress m v =
     (case v of (v0, v1, v2, v3) \<Rightarrow>
      case (sip_round ^^ 2) (v0, v1, v2, v3 XOR m) of (v0, v1, v2, v3) \<Rightarrow> (v0 XOR m, v1, v2, v3))"

function sip_blocks :: "byte list \<Rightarrow> sip_state \<Rightarrow> byte list \<times> sip_state" where
  "sip_blocks bs v =
     (if length bs < 8 then (bs, v) else sip_blocks (drop 8 bs) (sip_compress (of_nat (le_val (take 8 bs))) v))"
  by pat_completeness auto
termination by (relation "measure (\<lambda>(bs, v). length bs)") auto

declare sip_blocks.simps [simp del]

definition siphash_2_4 :: "64 word \<Rightarrow> 64 word \<Rightarrow> byte list \<Rightarrow> 64 word" where
  "siphash_2_4 k0 k1 msg =
     (let v = (k0 XOR 0x736f6d6570736575, k1 XOR 0x646f72616e646f6d,
               k0 XOR 0x6c7967656e657261, k1 XOR 0x7465646279746573);
          (rest, v) = sip_blocks msg v;
          last = of_nat (le_val rest) OR push_bit 56 (of_nat (length msg mod 256));
          (v0, v1, v2, v3) = sip_compress last v;
          (v0, v1, v2, v3) = (sip_round ^^ 4) (v0, v1, v2 XOR 0xFF, v3)
      in v0 XOR v1 XOR v2 XOR v3)"

lemma ROTL_is_rotation:
  assumes "0 < b" and "b < 64"
  shows "ROTL x b = word_rotl b x"
proof (rule bit_word_eqI)
  fix n assume "n < LENGTH(64)"
  then have n: "n < 64" by simp
  have high: "\<not> bit x m" if "64 \<le> m" for m using that bit_imp_le_length [of x m] by auto
  have rot: "bit (word_rotl b x) n \<longleftrightarrow> bit x ((n + (64 - b)) mod 64)"
    using n assms by (simp add: bit_word_rotl_iff del: Suc_eq_plus1)
  have shift: "bit (ROTL x b) n \<longleftrightarrow> b \<le> n \<and> bit x (n - b) \<or> bit x (n + (64 - b))"
    using n by (auto simp: ROTL_def bit_push_bit_iff bit_drop_bit_eq bit_or_iff add.commute)
  show "bit (ROTL x b) n = bit (word_rotl b x) n"
  proof (cases "n < b")
    case True
    then have "(n + (64 - b)) mod 64 = n + (64 - b)" using assms by simp
    then show ?thesis using True rot shift by auto
  next
    case False
    then have e: "n + (64 - b) = (n - b) + 64" using assms by simp
    have "(n + (64 - b)) mod 64 = n - b" unfolding e using n by simp
    then show ?thesis using False rot shift high [of "n + (64 - b)"] e by auto
  qed
qed

lemma SIPROUND_is_round: "SIPROUND v = sip_round v"
  by (cases v) (simp add: SIPROUND_def sip_round_def sip_half_round_def Let_def ROTL_is_rotation ac_simps)

lemma funpow_4: "(f ^^ 4) x = f (f (f (f x)))"
  by (simp add: eval_nat_numeral)

lemma sip_blocks_step:
  "length bs = 8 * Suc n \<Longrightarrow>
   sip_blocks bs v = sip_blocks (drop 8 bs) (sip_compress (sip_word bs 0) v)"
  by (subst sip_blocks.simps) (simp add: sip_word_def slice_def)

lemma sip_compress_model: "sip_compress m v = xor_v0 m (SIPROUND (SIPROUND (xor_v3 m v)))"
  by (cases v) (simp add: sip_compress_def xor_v0_def xor_v3_def SIPROUND_is_round numeral_2_eq_2)

lemma sip_word_drop: "sip_word (drop k bs) off = sip_word bs (k + off)"
  by (simp add: sip_word_def slice_drop)

lemma sip_blocks_32:
  assumes "length bs = 32"
  shows "sip_blocks bs v =
    ([], sip_compress (sip_word bs 24) (sip_compress (sip_word bs 16)
          (sip_compress (sip_word bs 8) (sip_compress (sip_word bs 0) v))))"
  using assms
  by (simp add: sip_blocks_step [of _ 3] sip_blocks_step [of _ 2] sip_blocks_step [of _ 1]
      sip_blocks_step [of _ 0] sip_word_drop) (simp add: sip_blocks.simps)

lemma sip_init:
  "(i0 XOR k0, i1 XOR k1, i2 XOR k0, i3 XOR k1 XOR d) =
   xor_v3 d (k0 XOR i0, k1 XOR i1, k0 XOR i2, k1 XOR i3)"
  by (simp add: xor_v3_def ac_simps)

lemma sip_finish: "(a XOR b) XOR (c XOR d) = a XOR b XOR c XOR (d :: 64 word)"
  by (simp add: xor.assoc)

text \<open>
  C30: on the 32 bytes of a hash the unrolled code computes SipHash-2-4 of the reversed bytes, as the paper defines it.
\<close>

theorem sip_hash24_is_siphash:
  assumes "length (sha_binary sha) = 32"
  shows "sip_hash24 (k0, k1) sha = siphash_2_4 k0 k1 (rev (sha_binary sha))"
proof -
  have len: "length (rev (sha_binary sha)) = 32" using assms by simp
  have last: "(of_nat (le_val []) :: 64 word) OR push_bit 56 (of_nat (32 mod 256)) = push_bit 59 4"
    by simp
  have fin: "(case w of (v0, v1, v2, v3) \<Rightarrow> case (sip_round ^^ 4) (v0, v1, v2 XOR 0xFF, v3) of (v0, v1, v2, v3) \<Rightarrow> v0 XOR v1 XOR v2 XOR v3) =
      (case SIPROUND (SIPROUND (SIPROUND (SIPROUND (xor_v2 0xFF w)))) of (v0, v1, v2, v3) \<Rightarrow> v0 XOR v1 XOR v2 XOR v3)" for w
    by (cases w) (simp add: xor_v2_def SIPROUND_is_round funpow_4)
  show ?thesis
    by (simp only: sip_hash24_def siphash_2_4_def len sip_blocks_32 [OF len] Let_def prod.case last fin
        fst_conv snd_conv sip_init sip_finish sip_compress_model sha_reversed_binary_def)
qed

definition sip_test_sha :: sha256 where
  "sip_test_sha = sha_of_binary (map of_nat (rev [0..<32]))"

theorem sip_hash24_is_siphash_witness:
  "length (sha_binary sip_test_sha) = 32 \<and>
   sip_hash24 (0x0706050403020100, 0x0F0E0D0C0B0A0908) sip_test_sha =
     siphash_2_4 0x0706050403020100 0x0F0E0D0C0B0A0908 (rev (sha_binary sip_test_sha))"
proof -
  have len: "length (sha_binary sip_test_sha) = 32" by (simp add: sip_test_sha_def)
  with sip_hash24_is_siphash [OF len] show ?thesis by simp
qed

text \<open>Both ways to obtain a compact id give 48-bit values.\<close>

lemma to_compact_id_less: "to_compact_id sha key < 2 ^ 48"
proof -
  have "(0x0000FFFFFFFFFFFF :: 64 word) = mask 48" by (simp add: mask_eq_exp_minus_1)
  then have "to_compact_id sha key = unat (take_bit 48 (sip_hash24 key sha))"
    by (simp add: to_compact_id_def take_bit_eq_mask)
  also have "\<dots> = take_bit 48 (unat (sip_hash24 key sha))" by (simp add: unsigned_take_bit_eq)
  finally show ?thesis by (simp add: take_bit_eq_mod)
qed

end
