(* ===== verification/BtcMessage.thy ===== *)
theory BtcMessage
  imports CompactShortId
begin

text \<open>
  The bitcoin wire format of \<^verbatim>\<open>src/lib/libutils/utils/protocols/bitcoin\<close>: variable-length
  integers, the scan that finds the end of a transaction (\<open>BtcTxInBlock\<close>), the transaction id,
  \<open>BtcBlockMessage\<close>, \<open>BtcCompactBlockMessage\<close> and \<open>BxBtcBlockMessage\<close>.

  The scan is specified against a grammar of transactions: a datatype per part of the format
  with its serializer, which keeps the exact bytes a variable-length integer was written with.
\<close>

section \<open>btc_consts.h and btc_message_helper.h\<close>

definition BTC_HDR_COMMON_OFFSET :: nat where "BTC_HDR_COMMON_OFFSET = 24"
definition BTC_BLOCK_HDR_SIZE :: nat where "BTC_BLOCK_HDR_SIZE = 80"
definition BTC_BLOCK_TX_COUNT_OFFSET :: nat where
  "BTC_BLOCK_TX_COUNT_OFFSET = BTC_HDR_COMMON_OFFSET + BTC_BLOCK_HDR_SIZE"
definition BTC_SHORT_NONCE_SIZE :: nat where "BTC_SHORT_NONCE_SIZE = 8"
definition BTC_COMPACT_BLOCK_TX_COUNT_OFFSET :: nat where
  "BTC_COMPACT_BLOCK_TX_COUNT_OFFSET = BTC_HDR_COMMON_OFFSET + BTC_BLOCK_HDR_SIZE + BTC_SHORT_NONCE_SIZE"
definition BTC_TX_VERSION_SIZE :: nat where "BTC_TX_VERSION_SIZE = 4"
definition BTC_PREV_BLOCK_OFFSET :: nat where
  "BTC_PREV_BLOCK_OFFSET = BTC_HDR_COMMON_OFFSET + BTC_TX_VERSION_SIZE"
definition BTC_BLOCK_LENGTH_OFFSET :: nat where "BTC_BLOCK_LENGTH_OFFSET = 16"
definition BTC_TX_SEGWIT_FLAG_VALUE :: nat where "BTC_TX_SEGWIT_FLAG_VALUE = 1"
definition BTC_TX_PREV_OUTPUT_SIZE :: nat where "BTC_TX_PREV_OUTPUT_SIZE = 36"
definition BTC_TXIN_SEQUENCE_SIZE :: nat where "BTC_TXIN_SEQUENCE_SIZE = 4"
definition BTC_TXOUT_VALUE_SIZE :: nat where "BTC_TXOUT_VALUE_SIZE = 8"
definition BTC_TX_LOCK_TIME_SIZE :: nat where "BTC_TX_LOCK_TIME_SIZE = 4"
definition BTC_SHORT_ID_INDICATOR :: byte where "BTC_SHORT_ID_INDICATOR = 0xff"
definition BTC_VARINT_SHORT_INDICATOR :: byte where "BTC_VARINT_SHORT_INDICATOR = 0xFD"
definition BTC_VARINT_INT_INDICATOR :: byte where "BTC_VARINT_INT_INDICATOR = 0xFE"
definition BTC_VARINT_LONG_INDICATOR :: byte where "BTC_VARINT_LONG_INDICATOR = 0xFF"

lemmas btc_consts =
  BTC_HDR_COMMON_OFFSET_def BTC_BLOCK_HDR_SIZE_def BTC_BLOCK_TX_COUNT_OFFSET_def
  BTC_SHORT_NONCE_SIZE_def BTC_COMPACT_BLOCK_TX_COUNT_OFFSET_def BTC_TX_VERSION_SIZE_def
  BTC_PREV_BLOCK_OFFSET_def BTC_BLOCK_LENGTH_OFFSET_def BTC_TX_SEGWIT_FLAG_VALUE_def
  BTC_TX_PREV_OUTPUT_SIZE_def BTC_TXIN_SEQUENCE_SIZE_def BTC_TXOUT_VALUE_SIZE_def
  BTC_TX_LOCK_TIME_SIZE_def BTC_SHORT_ID_INDICATOR_def BTC_VARINT_SHORT_INDICATOR_def
  BTC_VARINT_INT_INDICATOR_def BTC_VARINT_LONG_INDICATOR_def

definition get_varint :: "reader \<Rightarrow> nat \<Rightarrow> (nat \<times> nat) res" where
  "get_varint rd off =
     rbind (rd off 1) (\<lambda>bs.
       let typ = hd bs; off = u64 (off + 1)
       in if typ = BTC_VARINT_LONG_INDICATOR then get_le rd 8 off
          else if typ = BTC_VARINT_INT_INDICATOR then get_le rd 4 off
          else if typ = BTC_VARINT_SHORT_INDICATOR then get_le rd 2 off
          else get_le rd 1 (u64_sub off 1))"

definition set_varint ::
  "('s \<Rightarrow> nat) \<Rightarrow> ('s \<Rightarrow> nat \<Rightarrow> 's) \<Rightarrow> ('s \<Rightarrow> nat \<Rightarrow> byte list \<Rightarrow> 's res) \<Rightarrow> 's \<Rightarrow> nat \<Rightarrow> nat \<Rightarrow> ('s \<times> nat) res"
where
  "set_varint sz rsz pk s v off =
     (if v < 253 then set_le sz rsz pk 1 s v off
      else if v \<le> 65535 then
        rbind (set_le sz rsz pk 1 s (unat BTC_VARINT_SHORT_INDICATOR) off) (\<lambda>(s, off). set_le sz rsz pk 2 s v off)
      else if v \<le> 4294967295 then
        rbind (set_le sz rsz pk 1 s (unat BTC_VARINT_INT_INDICATOR) off) (\<lambda>(s, off). set_le sz rsz pk 4 s v off)
      else
        rbind (set_le sz rsz pk 1 s (unat BTC_VARINT_LONG_INDICATOR) off) (\<lambda>(s, off). set_le sz rsz pk 8 s v off))"

definition generate_block_hash :: "(byte list \<Rightarrow> byte list) \<Rightarrow> buffer_view \<Rightarrow> sha256 res" where
  "generate_block_hash H v = double_sha256 H v BTC_HDR_COMMON_OFFSET BTC_BLOCK_HDR_SIZE"

definition get_prev_block_hash :: "buffer_view \<Rightarrow> sha256 res" where
  "get_prev_block_hash v = rbind (sha_read v BTC_PREV_BLOCK_OFFSET) (\<lambda>s. Inr (sha_reverse s))"

definition get_segwit :: "reader \<Rightarrow> nat \<Rightarrow> (bool \<times> nat) res" where
  "get_segwit rd off =
     rbind (get_be rd 2 off) (\<lambda>(flag, segwit_offset).
       Inr (if flag = BTC_TX_SEGWIT_FLAG_VALUE then (True, segwit_offset) else (False, off)))"

definition get_tx_id ::
  "(byte list \<Rightarrow> byte list) \<Rightarrow> buffer_view \<Rightarrow> nat \<Rightarrow> nat \<Rightarrow> nat \<Rightarrow> sha256 res" where
  "get_tx_id H v off witness_offset fin =
     rbind (ctx_update [] v off BTC_TX_VERSION_SIZE) (\<lambda>ctx.
     rbind (get_segwit (bv_read v) (u64 (off + BTC_TX_VERSION_SIZE))) (\<lambda>(_, off).
     rbind (ctx_update ctx v off (u64_sub witness_offset off)) (\<lambda>ctx.
     rbind (ctx_update ctx v (u64_sub fin BTC_TX_LOCK_TIME_SIZE) BTC_TX_LOCK_TIME_SIZE) (\<lambda>ctx.
       Inr (sha_reverse (sha_double_sha256 H (ctx_digest H ctx)))))))"

section \<open>BtcTxInBlock\<close>

fun skip_tx_inputs :: "reader \<Rightarrow> nat \<Rightarrow> nat \<Rightarrow> nat res" where
  "skip_tx_inputs rd 0 off = Inr off"
| "skip_tx_inputs rd (Suc n) off =
     rbind (get_varint rd (u64 (off + BTC_TX_PREV_OUTPUT_SIZE))) (\<lambda>(script_size, off).
       skip_tx_inputs rd n (u64 (off + BTC_TXIN_SEQUENCE_SIZE + script_size)))"

fun skip_tx_outputs :: "reader \<Rightarrow> nat \<Rightarrow> nat \<Rightarrow> nat res" where
  "skip_tx_outputs rd 0 off = Inr off"
| "skip_tx_outputs rd (Suc n) off =
     rbind (get_varint rd (u64 (off + BTC_TXOUT_VALUE_SIZE))) (\<lambda>(script_size, off).
       skip_tx_outputs rd n (u64 (off + script_size)))"

fun skip_witness_items :: "reader \<Rightarrow> nat \<Rightarrow> nat \<Rightarrow> nat res" where
  "skip_witness_items rd 0 off = Inr off"
| "skip_witness_items rd (Suc n) off =
     rbind (get_varint rd off) (\<lambda>(witness_size, off).
       skip_witness_items rd n (u64 (off + witness_size)))"

fun skip_witnesses :: "reader \<Rightarrow> nat \<Rightarrow> nat \<Rightarrow> nat res" where
  "skip_witnesses rd 0 off = Inr off"
| "skip_witnesses rd (Suc n) off =
     rbind (get_varint rd off) (\<lambda>(witness_count, off).
     rbind (skip_witness_items rd witness_count off) (\<lambda>off. skip_witnesses rd n off))"

definition get_tx_io_count_and_offset :: "reader \<Rightarrow> bool \<times> nat \<Rightarrow> (nat \<times> nat) res" where
  \<comment> \<open>the end of the inputs, outputs and witnesses, and where the witnesses start\<close>
  "get_tx_io_count_and_offset rd segwit =
     (let (is_segwit, off) = segwit
      in rbind (get_varint rd off) (\<lambda>(tx_in_count, off).
         rbind (skip_tx_inputs rd tx_in_count off) (\<lambda>off.
         rbind (get_varint rd off) (\<lambda>(tx_out_count, off).
         rbind (skip_tx_outputs rd tx_out_count off) (\<lambda>witness_offset.
         rbind (if is_segwit then skip_witnesses rd tx_in_count witness_offset else Inr witness_offset)
           (\<lambda>off. Inr (off, witness_offset)))))))"

definition get_next_tx_offset :: "reader \<Rightarrow> nat \<Rightarrow> (nat \<times> nat) res" where
  "get_next_tx_offset rd off =
     rbind (get_segwit rd (u64 (off + BTC_TX_VERSION_SIZE))) (\<lambda>segwit.
     rbind (get_tx_io_count_and_offset rd segwit) (\<lambda>(off, witness_offset).
       Inr (u64 (off + BTC_TX_LOCK_TIME_SIZE), witness_offset)))"

section \<open>The grammar of transactions\<close>

definition vi_val :: "byte list \<Rightarrow> nat" where
  "vi_val vi = (if length vi = 1 then le_val vi else le_val (tl vi))"

definition wf_vi :: "byte list \<Rightarrow> bool" where
  "wf_vi vi \<longleftrightarrow>
     vi \<noteq> [] \<and>
     (if hd vi = BTC_VARINT_LONG_INDICATOR then length vi = 9
      else if hd vi = BTC_VARINT_INT_INDICATOR then length vi = 5
      else if hd vi = BTC_VARINT_SHORT_INDICATOR then length vi = 3
      else length vi = 1)"

definition varint :: "nat \<Rightarrow> byte list" where
  \<comment> \<open>the shortest encoding, the one the code writes\<close>
  "varint v =
     (if v < 253 then le_bytes 1 v
      else if v \<le> 65535 then BTC_VARINT_SHORT_INDICATOR # le_bytes 2 v
      else if v \<le> 4294967295 then BTC_VARINT_INT_INDICATOR # le_bytes 4 v
      else BTC_VARINT_LONG_INDICATOR # le_bytes 8 v)"

lemma of_nat_byte_eq_numeral:
  "v < 256 \<Longrightarrow> (of_nat v :: byte) = numeral n \<longleftrightarrow> v = numeral n mod 256"
  by (metis mod_less unat_of_nat_byte of_nat_numeral of_nat_unat ucast_id)

lemma wf_varint: "wf_vi (varint v)"
proof (cases "v < 253")
  case True
  then have "(of_nat v :: byte) \<noteq> 0xFF" "(of_nat v :: byte) \<noteq> 0xFE" "(of_nat v :: byte) \<noteq> 0xFD"
    by (simp_all add: of_nat_byte_eq_numeral)
  then show ?thesis using True by (simp add: wf_vi_def varint_def btc_consts)
qed (auto simp: wf_vi_def varint_def btc_consts)

lemma vi_val_varint: "v < 2 ^ 64 \<Longrightarrow> vi_val (varint v) = v"
  by (simp add: vi_val_def varint_def le_val_le_bytes del: le_bytes.simps le_bytes_numeral)

lemma length_varint: "length (varint v) \<le> 9" "varint v \<noteq> []"
  by (auto simp: varint_def)

record txin =
  ti_prev :: "byte list"
  ti_len :: "byte list"
  ti_script :: "byte list"
  ti_seq :: "byte list"

record txout =
  to_value :: "byte list"
  to_len :: "byte list"
  to_script :: "byte list"

type_synonym witem = "byte list \<times> byte list"
type_synonym witness = "byte list \<times> witem list"

record btc_tx =
  tx_version :: "byte list"
  tx_segwit :: bool
  tx_ins_len :: "byte list"
  tx_ins :: "txin list"
  tx_outs_len :: "byte list"
  tx_outs :: "txout list"
  tx_wits :: "witness list"
  tx_lock :: "byte list"

definition ser_in :: "txin \<Rightarrow> byte list" where
  "ser_in i = ti_prev i @ ti_len i @ ti_script i @ ti_seq i"

definition ser_out :: "txout \<Rightarrow> byte list" where
  "ser_out q = to_value q @ to_len q @ to_script q"

definition ser_item :: "witem \<Rightarrow> byte list" where
  "ser_item w = fst w @ snd w"

definition ser_wit :: "witness \<Rightarrow> byte list" where
  "ser_wit w = fst w @ concat (map ser_item (snd w))"

definition ser_body :: "btc_tx \<Rightarrow> byte list" where
  "ser_body t = tx_ins_len t @ concat (map ser_in (tx_ins t)) @
     tx_outs_len t @ concat (map ser_out (tx_outs t))"

definition ser_tx :: "btc_tx \<Rightarrow> byte list" where
  "ser_tx t = tx_version t @ (if tx_segwit t then [0, 1] else []) @ ser_body t @
     concat (map ser_wit (tx_wits t)) @ tx_lock t"

definition ser_stripped :: "btc_tx \<Rightarrow> byte list" where
  "ser_stripped t = tx_version t @ ser_body t @ tx_lock t"

definition wf_in :: "txin \<Rightarrow> bool" where
  "wf_in i \<longleftrightarrow> length (ti_prev i) = 36 \<and> wf_vi (ti_len i) \<and> vi_val (ti_len i) = length (ti_script i) \<and>
     length (ti_seq i) = 4"

definition wf_out :: "txout \<Rightarrow> bool" where
  "wf_out q \<longleftrightarrow> length (to_value q) = 8 \<and> wf_vi (to_len q) \<and> vi_val (to_len q) = length (to_script q)"

definition wf_item :: "witem \<Rightarrow> bool" where
  "wf_item w \<longleftrightarrow> wf_vi (fst w) \<and> vi_val (fst w) = length (snd w)"

definition wf_wit :: "witness \<Rightarrow> bool" where
  "wf_wit w \<longleftrightarrow> wf_vi (fst w) \<and> vi_val (fst w) = length (snd w) \<and> list_all wf_item (snd w)"

definition wf_tx :: "btc_tx \<Rightarrow> bool" where
  \<comment> \<open>a transaction without witnesses must not look like the segwit marker and flag\<close>
  "wf_tx t \<longleftrightarrow> length (tx_version t) = 4 \<and> length (tx_lock t) = 4 \<and>
     wf_vi (tx_ins_len t) \<and> vi_val (tx_ins_len t) = length (tx_ins t) \<and> list_all wf_in (tx_ins t) \<and>
     wf_vi (tx_outs_len t) \<and> vi_val (tx_outs_len t) = length (tx_outs t) \<and> list_all wf_out (tx_outs t) \<and>
     (if tx_segwit t then length (tx_wits t) = length (tx_ins t) \<and> list_all wf_wit (tx_wits t)
      else tx_wits t = [] \<and> take 2 (ser_body t) \<noteq> [0, 1])"

subsection \<open>The scan follows the grammar\<close>

lemma be_val_two_eq_1: "length ys = 2 \<Longrightarrow> be_val ys = 1 \<longleftrightarrow> ys = [0, 1]"
proof -
  assume "length ys = 2"
  then obtain a b where ys: "ys = [a, b]" by (auto simp: length_Suc_conv numeral_2_eq_2)
  have "unat b + 256 * unat a = 1 \<longleftrightarrow> unat a = 0 \<and> unat b = 1" by presburger
  moreover have "unat a = 0 \<longleftrightarrow> a = 0" by (rule unat_eq_zero)
  moreover have "unat b = 1 \<longleftrightarrow> b = 1" by (metis unsigned_1 word_unat_eq_iff)
  ultimately show ?thesis by (simp add: ys be_val_def)
qed

lemma wf_vi_nonempty: "wf_vi vi \<Longrightarrow> 0 < length vi"
  by (auto simp: wf_vi_def)

lemma length_ser_body: "wf_tx t \<Longrightarrow> 2 \<le> length (ser_body t)"
proof -
  assume "wf_tx t"
  then have "0 < length (tx_ins_len t)" "0 < length (tx_outs_len t)"
    by (simp_all add: wf_vi_nonempty wf_tx_def del: length_greater_0_conv)
  then show ?thesis unfolding ser_body_def length_append by linarith
qed

lemma segwit_prefix:
  assumes t: "wf_tx t"
  shows "\<exists>ys zs. (if tx_segwit t then [0, 1] else []) @ ser_body t @ rest = ys @ zs \<and>
    length ys = 2 \<and> (ys = [0, 1] \<longleftrightarrow> tx_segwit t)"
proof (cases "tx_segwit t")
  case False
  let ?b = "ser_body t"
  have "(if tx_segwit t then [0, 1] else []) @ ?b @ rest = take 2 ?b @ drop 2 ?b @ rest"
    using False by simp
  moreover have "length (take 2 ?b) = 2" using length_ser_body [OF t] by simp
  moreover have "take 2 ?b = [0, 1] \<longleftrightarrow> tx_segwit t" using False t by (simp add: wf_tx_def)
  ultimately show ?thesis by blast
qed auto

context byte_source
begin

lemma get_varint_at:
  assumes wf: "wf s" and eq: "bytes s = pre @ vi @ post" and vi: "wf_vi vi"
  shows "get_varint (rd s) (length pre) = Inr (vi_val vi, length pre + length vi)"
proof -
  from vi obtain t r where c: "vi = t # r" by (cases vi) (auto simp: wf_vi_def)
  have one: "rd s (length pre) 1 = Inr [t]" using rd_middle [OF wf, of pre "[t]" "r @ post"] eq c by simp
  have off: "u64 (length pre + 1) = length (pre @ [t])"
    using offset_small [OF wf, of pre "[t]" "r @ post"] eq c by simp
  show ?thesis
  proof (cases "r = []")
    case True
    have "get_le (rd s) 1 (length pre) = Inr (le_val [t], length pre + 1)"
      using get_le_at [OF wf, of pre "[t]" post] eq c True by simp
    moreover have "u64_sub (Suc (length pre)) 1 = length pre"
      using bytes_small [OF wf] eq c by (simp add: u64_sub_id)
    ultimately show ?thesis
      using one off vi c True by (simp add: get_varint_def wf_vi_def vi_val_def btc_consts split: if_splits)
  next
    case False
    have "get_le (rd s) (length r) (length (pre @ [t])) = Inr (le_val r, length (pre @ [t]) + length r)"
      using get_le_at [OF wf, of "pre @ [t]" r post] eq c False by simp
    then show ?thesis
      using one off vi c False
      by (auto simp: get_varint_def wf_vi_def vi_val_def split: if_splits)
  qed
qed

lemma off_small:
  assumes "wf s" and "k \<le> length (bytes s)"
  shows "u64 k = k"
  using bytes_small [OF assms(1)] assms(2) by (intro u64_id) simp

lemma skip_tx_inputs_at:
  assumes "wf s" and "bytes s = pre @ concat (map ser_in ins) @ post" and "list_all wf_in ins"
  shows "skip_tx_inputs (rd s) (length ins) (length pre) =
    Inr (length pre + length (concat (map ser_in ins)))"
  using assms(2,3)
proof (induction ins arbitrary: pre)
  case (Cons i ins)
  have i: "wf_in i" using Cons.prems(2) by simp
  let ?pre = "pre @ ti_prev i"
  have "u64 (length pre + 36) = length ?pre"
    using off_small [OF assms(1)] Cons.prems(1) i by (simp add: wf_in_def ser_in_def)
  moreover have "get_varint (rd s) (length ?pre) = Inr (length (ti_script i), length ?pre + length (ti_len i))"
    using get_varint_at [OF assms(1), of ?pre "ti_len i"] Cons.prems(1) i by (simp add: wf_in_def ser_in_def)
  moreover have "u64 (length ?pre + length (ti_len i) + 4 + length (ti_script i)) = length (pre @ ser_in i)"
    using off_small [OF assms(1)] Cons.prems(1) i by (simp add: wf_in_def ser_in_def)
  moreover have "skip_tx_inputs (rd s) (length ins) (length (pre @ ser_in i)) =
      Inr (length (pre @ ser_in i) + length (concat (map ser_in ins)))"
    using Cons.prems by (intro Cons.IH) auto
  ultimately show ?case by (simp add: btc_consts)
qed simp

lemma skip_tx_outputs_at:
  assumes "wf s" and "bytes s = pre @ concat (map ser_out outs) @ post" and "list_all wf_out outs"
  shows "skip_tx_outputs (rd s) (length outs) (length pre) =
    Inr (length pre + length (concat (map ser_out outs)))"
  using assms(2,3)
proof (induction outs arbitrary: pre)
  case (Cons q outs)
  have q: "wf_out q" using Cons.prems(2) by simp
  let ?pre = "pre @ to_value q"
  have "u64 (length pre + 8) = length ?pre"
    using off_small [OF assms(1)] Cons.prems(1) q by (simp add: wf_out_def ser_out_def)
  moreover have "get_varint (rd s) (length ?pre) = Inr (length (to_script q), length ?pre + length (to_len q))"
    using get_varint_at [OF assms(1), of ?pre "to_len q"] Cons.prems(1) q by (simp add: wf_out_def ser_out_def)
  moreover have "u64 (length ?pre + length (to_len q) + length (to_script q)) = length (pre @ ser_out q)"
    using off_small [OF assms(1)] Cons.prems(1) q by (simp add: wf_out_def ser_out_def)
  moreover have "skip_tx_outputs (rd s) (length outs) (length (pre @ ser_out q)) =
      Inr (length (pre @ ser_out q) + length (concat (map ser_out outs)))"
    using Cons.prems by (intro Cons.IH) auto
  ultimately show ?case by (simp add: btc_consts)
qed simp

lemma skip_witness_items_at:
  assumes "wf s" and "bytes s = pre @ concat (map ser_item ws) @ post" and "list_all wf_item ws"
  shows "skip_witness_items (rd s) (length ws) (length pre) =
    Inr (length pre + length (concat (map ser_item ws)))"
  using assms(2,3)
proof (induction ws arbitrary: pre)
  case (Cons w ws)
  have w: "wf_item w" using Cons.prems(2) by simp
  have "get_varint (rd s) (length pre) = Inr (length (snd w), length pre + length (fst w))"
    using get_varint_at [OF assms(1), of pre "fst w"] Cons.prems(1) w by (simp add: wf_item_def ser_item_def)
  moreover have "u64 (length pre + length (fst w) + length (snd w)) = length (pre @ ser_item w)"
    using off_small [OF assms(1)] Cons.prems(1) w by (simp add: wf_item_def ser_item_def)
  moreover have "skip_witness_items (rd s) (length ws) (length (pre @ ser_item w)) =
      Inr (length (pre @ ser_item w) + length (concat (map ser_item ws)))"
    using Cons.prems by (intro Cons.IH) auto
  ultimately show ?case by simp
qed simp

lemma skip_witnesses_at:
  assumes "wf s" and "bytes s = pre @ concat (map ser_wit ws) @ post" and "list_all wf_wit ws"
  shows "skip_witnesses (rd s) (length ws) (length pre) =
    Inr (length pre + length (concat (map ser_wit ws)))"
  using assms(2,3)
proof (induction ws arbitrary: pre)
  case (Cons w ws)
  have w: "wf_wit w" using Cons.prems(2) by simp
  have "get_varint (rd s) (length pre) = Inr (length (snd w), length (pre @ fst w))"
    using get_varint_at [OF assms(1), of pre "fst w"] Cons.prems(1) w by (simp add: wf_wit_def ser_wit_def)
  moreover have "skip_witness_items (rd s) (length (snd w)) (length (pre @ fst w)) =
      Inr (length (pre @ ser_wit w))"
    using skip_witness_items_at [OF assms(1), of "pre @ fst w" "snd w"] Cons.prems(1) w
    by (simp add: wf_wit_def ser_wit_def)
  moreover have "skip_witnesses (rd s) (length ws) (length (pre @ ser_wit w)) =
      Inr (length (pre @ ser_wit w) + length (concat (map ser_wit ws)))"
    using Cons.prems by (intro Cons.IH) auto
  ultimately show ?case by simp
qed simp

lemma get_segwit_at:
  assumes "wf s" and "bytes s = pre @ ys @ post" and "length ys = 2"
  shows "get_segwit (rd s) (length pre) =
    Inr (if ys = [0, 1] then (True, length pre + 2) else (False, length pre))"
proof -
  have "get_be (rd s) 2 (length pre) = Inr (be_val ys, length pre + 2)"
    using get_be_at [OF assms(1,2)] assms(3) by force
  then show ?thesis
    by (simp only: get_segwit_def BTC_TX_SEGWIT_FLAG_VALUE_def be_val_two_eq_1 [OF assms(3)] rbind_simps prod.case)
qed

lemma get_tx_io_at:
  assumes wf: "wf s" and t: "wf_tx t"
    and eq: "bytes s = pre @ ser_body t @ concat (map ser_wit (tx_wits t)) @ post"
  shows "get_tx_io_count_and_offset (rd s) (tx_segwit t, length pre) =
    Inr (length pre + length (ser_body t) + length (concat (map ser_wit (tx_wits t))),
         length pre + length (ser_body t))"
proof -
  let ?p1 = "pre @ tx_ins_len t" and ?p2 = "pre @ tx_ins_len t @ concat (map ser_in (tx_ins t))"
  let ?p3 = "?p2 @ tx_outs_len t" and ?p4 = "pre @ ser_body t"
  have 1: "get_varint (rd s) (length pre) = Inr (length (tx_ins t), length ?p1)"
    using get_varint_at [OF wf, of pre "tx_ins_len t"] eq t by (simp add: wf_tx_def ser_body_def)
  have 2: "skip_tx_inputs (rd s) (length (tx_ins t)) (length ?p1) = Inr (length ?p2)"
    using skip_tx_inputs_at [OF wf, of ?p1 "tx_ins t"] eq t by (simp add: wf_tx_def ser_body_def)
  have 3: "get_varint (rd s) (length ?p2) = Inr (length (tx_outs t), length ?p3)"
    using get_varint_at [OF wf, of ?p2 "tx_outs_len t"] eq t by (simp add: wf_tx_def ser_body_def)
  have 4: "skip_tx_outputs (rd s) (length (tx_outs t)) (length ?p3) = Inr (length ?p4)"
    using skip_tx_outputs_at [OF wf, of ?p3 "tx_outs t"] eq t by (simp add: wf_tx_def ser_body_def)
  have 5: "(if tx_segwit t then skip_witnesses (rd s) (length (tx_ins t)) (length ?p4) else Inr (length ?p4)) =
      Inr (length ?p4 + length (concat (map ser_wit (tx_wits t))))"
    using skip_witnesses_at [OF wf, of ?p4 "tx_wits t"] eq t by (auto simp: wf_tx_def split: if_splits)
  have "get_tx_io_count_and_offset (rd s) (tx_segwit t, length pre) =
      Inr (length ?p4 + length (concat (map ser_wit (tx_wits t))), length ?p4)"
    by (simp only: get_tx_io_count_and_offset_def Let_def 1 2 3 4 5 rbind_simps prod.case)
  then show ?thesis by simp
qed

lemma get_next_tx_offset_at:
  assumes wf: "wf s" and t: "wf_tx t" and eq: "bytes s = pre @ ser_tx t @ post"
  shows "get_next_tx_offset (rd s) (length pre) =
    Inr (length pre + length (ser_tx t), length pre + length (ser_tx t) - 4 -
      length (concat (map ser_wit (tx_wits t))))"
proof -
  let ?m = "if tx_segwit t then [0, 1] else []" and ?w = "concat (map ser_wit (tx_wits t))"
  let ?p1 = "pre @ tx_version t"
  have v: "u64 (length pre + 4) = length ?p1"
    using off_small [OF wf] eq t by (simp add: wf_tx_def ser_tx_def)
  obtain ys zs where ys: "?m @ ser_body t @ ?w @ tx_lock t @ post = ys @ zs" "length ys = 2"
    "ys = [0, 1] \<longleftrightarrow> tx_segwit t"
    using segwit_prefix [OF t] by metis
  have sw: "get_segwit (rd s) (length ?p1) = Inr (tx_segwit t, length (?p1 @ ?m))"
    using get_segwit_at [OF wf, of ?p1 ys zs] eq ys by (auto simp: ser_tx_def)
  have io: "get_tx_io_count_and_offset (rd s) (tx_segwit t, length (?p1 @ ?m)) =
      Inr (length (?p1 @ ?m) + length (ser_body t) + length ?w, length (?p1 @ ?m) + length (ser_body t))"
    using eq by (intro get_tx_io_at [OF wf t, where post = "tx_lock t @ post"]) (simp add: ser_tx_def)
  have fin: "u64 (length (?p1 @ ?m) + length (ser_body t) + length ?w + 4) = length pre + length (ser_tx t)"
    using off_small [OF wf, of "length pre + length (ser_tx t)"] eq t by (simp add: ser_tx_def wf_tx_def add.assoc)
  have "length (?p1 @ ?m) + length (ser_body t) = length pre + length (ser_tx t) - 4 - length ?w"
    using t by (simp add: ser_tx_def wf_tx_def)
  with v sw io fin show ?thesis
    by (simp only: get_next_tx_offset_def btc_consts rbind_simps prod.case)
qed

end

section \<open>Transaction ids\<close>

lemma ctx_update_inside:
  assumes "bv_ok v" and "0 < len" and "off + len \<le> bv_size v"
  shows "ctx_update ctx v off len = Inr (ctx @ slice off len (bv_bytes v))"
  using assms by (simp add: ctx_update_def bv_read_inside bv_ok_def)

lemma ctx_update_middle:
  assumes "bv_ok v" and "bv_bytes v = pre @ ys @ post" and "ys \<noteq> []"
  shows "ctx_update ctx v (length pre) (length ys) = Inr (ctx @ ys)"
proof -
  have "length pre + length ys \<le> bv_size v"
    using assms by (metis append.assoc bv_ok_def length_append length_bv_bytes le_add1)
  then show ?thesis using assms by (simp add: ctx_update_inside slice_middle)
qed

lemma get_tx_id_at:
  assumes v: "bv_ok v" and t: "wf_tx t" and eq: "bv_bytes v = pre @ ser_tx t @ post"
    and H: "\<And>bs. length (H bs) = 32"
    and offs: "get_next_tx_offset (bv_read v) (length pre) = Inr (fin, wit)"
  shows "get_tx_id H v (length pre) wit fin = Inr (sha_of_binary (rev (H (H (ser_stripped t)))))"
proof -
  let ?m = "if tx_segwit t then [0, 1] else []" and ?w = "concat (map ser_wit (tx_wits t))"
  let ?p1 = "pre @ tx_version t" and ?p2 = "pre @ tx_version t @ ?m"
  let ?p3 = "?p2 @ ser_body t @ ?w"
  have small: "length pre + length (ser_tx t) < 2 ^ 64" using bvs.bytes_small [OF v] eq by simp
  have fin: "fin = length (?p3 @ tx_lock t)" and wit: "wit = length (?p2 @ ser_body t)"
    using offs bvs.get_next_tx_offset_at [OF v t eq] t by (auto simp: ser_tx_def wf_tx_def)
  have len: "length (tx_version t) = 4" "length (tx_lock t) = 4" using t by (auto simp: wf_tx_def)
  then have ne: "tx_version t \<noteq> []" "tx_lock t \<noteq> []" "ser_body t \<noteq> []"
    using length_ser_body [OF t] by auto
  have 1: "ctx_update [] v (length pre) 4 = Inr (tx_version t)"
    using ctx_update_middle [OF v, of pre "tx_version t" "?m @ ser_body t @ ?w @ tx_lock t @ post" "[]"]
    by (simp add: eq ser_tx_def len ne)
  obtain ys zs where ys: "?m @ ser_body t @ ?w @ tx_lock t @ post = ys @ zs" "length ys = 2"
    "ys = [0, 1] \<longleftrightarrow> tx_segwit t" using segwit_prefix [OF t] by metis
  have 2: "get_segwit (bv_read v) (length ?p1) = Inr (tx_segwit t, length ?p2)"
    using bvs.get_segwit_at [OF v, of ?p1 ys zs] eq ys by (auto simp: ser_tx_def)
  have 3: "u64 (length pre + 4) = length ?p1" using small t by (simp add: u64_id ser_tx_def wf_tx_def)
  have 4: "u64_sub wit (length ?p2) = length (ser_body t)" using small t
    by (simp add: wit u64_sub_id ser_tx_def wf_tx_def)
  have 5: "ctx_update (tx_version t) v (length ?p2) (length (ser_body t)) = Inr (tx_version t @ ser_body t)"
    using ctx_update_middle [OF v, of ?p2 "ser_body t" "?w @ tx_lock t @ post"]
    by (simp add: eq ser_tx_def ne)
  have 6: "u64_sub fin 4 = length ?p3" using small t by (simp add: fin u64_sub_id ser_tx_def wf_tx_def)
  have 7: "ctx_update (tx_version t @ ser_body t) v (length ?p3) 4 = Inr (ser_stripped t)"
    using ctx_update_middle [OF v, of ?p3 "tx_lock t" post]
    by (simp add: eq ser_tx_def len ne ser_stripped_def)
  show ?thesis
    by (simp only: get_tx_id_def btc_consts 1 2 3 4 5 6 7 rbind_simps prod.case)
       (simp add: ctx_digest_def sha_double_sha256_def sha_reverse_def H)
qed

section \<open>Variable-length integers\<close>

context byte_sink
begin

lemma set_varint_append:
  assumes wf: "wf s" and small: "length (bytes s) + 9 < 2 ^ 64"
  shows "\<exists>s'. set_varint sz rsz pk s v (length (bytes s)) = Inr (s', length (bytes s) + length (varint v)) \<and>
    wf s' \<and> bytes s' = bytes s @ varint v"
proof -
  have two: "\<exists>s'. rbind (set_le sz rsz pk 1 s (unat t) (length (bytes s))) (\<lambda>(s, off). set_le sz rsz pk k s v off) =
      Inr (s', length (bytes s) + Suc k) \<and> wf s' \<and> bytes s' = bytes s @ t # le_bytes k v"
    if k: "0 < k" "k \<le> 8" for t :: byte and k
  proof -
    obtain s1 where s1: "set_le sz rsz pk 1 s (unat t) (length (bytes s)) = Inr (s1, length (bytes s) + 1)"
      "wf s1" "bytes s1 = bytes s @ [t]"
      using set_le_append [OF wf, of 1 "length (bytes s)" "unat t"] small by auto
    obtain s2 where "set_le sz rsz pk k s1 v (length (bytes s) + 1) = Inr (s2, length (bytes s) + 1 + k)"
      "wf s2" "bytes s2 = bytes s1 @ le_bytes k v"
      using set_le_append [OF s1(2) k(1), of "length (bytes s) + 1" v] small s1(3) k by auto
    with s1 show ?thesis by simp
  qed
  show ?thesis
    using set_le_append [OF wf, of 1 "length (bytes s)" v] small
      two [of 2 BTC_VARINT_SHORT_INDICATOR] two [of 4 BTC_VARINT_INT_INDICATOR] two [of 8 BTC_VARINT_LONG_INDICATOR]
    by (simp add: set_varint_def varint_def del: le_bytes.simps le_bytes_numeral)
qed

end

section \<open>BtcBlockMessage and BtcCompactBlockMessage\<close>

definition get_tx_count :: "reader \<Rightarrow> (nat \<times> nat) res" where
  "get_tx_count rd = get_varint rd BTC_BLOCK_TX_COUNT_OFFSET"

definition get_block_sip_key :: "(byte list \<Rightarrow> byte list) \<Rightarrow> buffer_view \<Rightarrow> (64 word \<times> 64 word) res" where
  "get_block_sip_key H v =
     rbind (calculate_sha256 H (bv_read v) BTC_HDR_COMMON_OFFSET (BTC_BLOCK_HDR_SIZE + BTC_SHORT_NONCE_SIZE)) (\<lambda>sha.
       let bs = sha_binary sha
       in Inr (of_nat (le_val (slice 0 8 bs)), of_nat (le_val (slice 8 8 bs))))"

definition get_compact_txs_count :: "reader \<Rightarrow> (nat \<times> nat) res" where
  "get_compact_txs_count rd = get_varint rd BTC_COMPACT_BLOCK_TX_COUNT_OFFSET"

definition get_pre_filled_txs_count :: "reader \<Rightarrow> nat \<Rightarrow> (nat \<times> nat) res" where
  "get_pre_filled_txs_count rd off = get_varint rd off"

definition get_next_pre_filled_tx ::
  "(byte list \<Rightarrow> byte list) \<Rightarrow> buffer_view \<Rightarrow> nat \<Rightarrow> (buffer_view \<times> nat \<times> nat \<times> sha256 \<times> nat) res" where
  \<comment> \<open>the contents, the offset behind them, the index difference, the id and the witness offset\<close>
  "get_next_pre_filled_tx H v offset =
     rbind (get_varint (bv_read v) offset) (\<lambda>(diff, off).
     rbind (get_next_tx_offset (bv_read v) off) (\<lambda>(offset, witness_offset).
     rbind (get_tx_id H v off witness_offset offset) (\<lambda>sha.
       Inr (bv_sub v (u64_sub offset off) off, offset, diff, sha, witness_offset))))"

definition get_block_header :: "buffer_view \<Rightarrow> buffer_view" where
  "get_block_header v = bv_sub v BTC_BLOCK_HDR_SIZE BTC_HDR_COMMON_OFFSET"

definition get_next_compact_short_id :: "buffer_view \<Rightarrow> nat \<Rightarrow> (nat \<times> nat) res" where
  "get_next_compact_short_id v off =
     rbind (compact_id_of_buffer v off) (\<lambda>c. Inr (c, u64 (off + BTC_COMPACT_SHORT_ID_SIZE)))"

section \<open>BxBtcBlockMessage\<close>

record bx_btc_block =
  bxb_view :: buffer_view
  bxb_sids_offset :: nat
  bxb_block :: buffer_view

definition offset_diff :: nat where
  "offset_diff = 8"

definition bx_block_message :: "buffer_view \<Rightarrow> nat \<Rightarrow> bx_btc_block" where
  "bx_block_message v short_ids_offset =
     \<lparr>bxb_view = v, bxb_sids_offset = short_ids_offset,
      bxb_block = bv_sub v (u64_sub short_ids_offset offset_diff) offset_diff\<rparr>"

definition is_short_transaction :: "bx_btc_block \<Rightarrow> nat \<Rightarrow> bool res" where
  "is_short_transaction m off =
     rbind (bv_index (bxb_view m) off) (\<lambda>b. Inr (b = BTC_SHORT_ID_INDICATOR))"

definition bx_get_next_tx_offset :: "bx_btc_block \<Rightarrow> nat \<Rightarrow> (nat \<times> bool \<times> nat) res" where
  "bx_get_next_tx_offset m off =
     rbind (is_short_transaction m off) (\<lambda>is_short.
       if is_short then Inr (u64 (off + 1), True, 0)
       else rbind (get_next_tx_offset (bv_read (bxb_block m)) (u64_sub off offset_diff)) (\<lambda>(off, witness_offset).
              Inr (u64 (off + offset_diff), False, witness_offset)))"

definition bx_get_tx_count :: "bx_btc_block \<Rightarrow> (nat \<times> nat) res" where
  "bx_get_tx_count m =
     rbind (get_tx_count (bv_read (bxb_block m))) (\<lambda>(n, off). Inr (n, u64 (offset_diff + off)))"

fun read_short_ids :: "reader \<Rightarrow> nat \<Rightarrow> nat \<Rightarrow> nat list res" where
  "read_short_ids rd 0 off = Inr []"
| "read_short_ids rd (Suc n) off =
     rbind (get_le rd 4 off) (\<lambda>(sid, off). rbind (read_short_ids rd n off) (\<lambda>sids. Inr (sid # sids)))"

definition deserialize_short_ids :: "bx_btc_block \<Rightarrow> nat list res" where
  "deserialize_short_ids m =
     rbind (get_le (bv_read (bxb_view m)) 4 (bxb_sids_offset m)) (\<lambda>(n, off).
       if bv_size (bxb_view m) < u64 (off + 4 * n) then Inl RuntimeError
       else read_short_ids (bv_read (bxb_view m)) n off)"

definition get_original_block_size :: "buffer_view \<Rightarrow> nat res" where
  "get_original_block_size v =
     rbind (get_le (bv_read v) 4 (offset_diff + BTC_BLOCK_LENGTH_OFFSET)) (\<lambda>(sz, _).
       Inr (u32 (sz + BTC_HDR_COMMON_OFFSET)))"

lemma length_concat_le_bytes: "length (concat (map (le_bytes k) xs)) = k * length xs"
  by (induction xs) auto

context byte_source
begin

lemma read_short_ids_at:
  assumes "wf s" and "bytes s = pre @ concat (map (le_bytes 4) sids) @ post"
    and "list_all (\<lambda>i. i < 2 ^ 32) sids"
  shows "read_short_ids (rd s) (length sids) (length pre) = Inr sids"
  using assms(2,3)
proof (induction sids arbitrary: pre)
  case (Cons i sids)
  have "get_le (rd s) 4 (length pre) = Inr (i, length (pre @ le_bytes 4 i))"
    using get_le_at [OF assms(1), of pre "le_bytes 4 i"] Cons.prems
    by (simp add: le_val_le_bytes del: le_bytes.simps le_bytes_numeral)
  moreover have "read_short_ids (rd s) (length sids) (length (pre @ le_bytes 4 i)) = Inr sids"
    using Cons.prems by (intro Cons.IH) (auto simp del: le_bytes.simps le_bytes_numeral)
  ultimately show ?case by (simp del: le_bytes.simps le_bytes_numeral)
qed simp

end

lemma deserialize_short_ids_at:
  assumes v: "bv_ok (bxb_view m)"
    and eq: "bv_bytes (bxb_view m) = pre @ le_bytes 4 (length sids) @ concat (map (le_bytes 4) sids)"
    and off: "bxb_sids_offset m = length pre"
    and sids: "list_all (\<lambda>i. i < 2 ^ 32) sids" "length sids < 2 ^ 32"
  shows "deserialize_short_ids m = Inr sids"
proof -
  let ?v = "bxb_view m"
  have 1: "get_le (bv_read ?v) 4 (length pre) = Inr (length sids, length (pre @ le_bytes 4 (length sids)))"
    using bvs.get_le_at [OF v eq] sids(2) by (simp add: le_val_le_bytes del: le_bytes.simps le_bytes_numeral)
  have size: "bv_size ?v = length pre + 4 + 4 * length sids"
    using v length_bv_bytes [of ?v] eq
    by (simp add: bv_ok_def length_concat_le_bytes del: le_bytes.simps le_bytes_numeral)
  have "length pre + 4 + 4 * length sids < 2 ^ 64" using bvs.bytes_small [OF v] v size by (simp add: bv_ok_def)
  then have 2: "u64 (length (pre @ le_bytes 4 (length sids)) + 4 * length sids) = bv_size ?v"
    using size by (simp add: u64_id)
  have 3: "read_short_ids (bv_read ?v) (length sids) (length (pre @ le_bytes 4 (length sids))) = Inr sids"
    using bvs.read_short_ids_at [OF v, of "pre @ le_bytes 4 (length sids)" sids "[]"] eq sids
    by (simp del: le_bytes.simps le_bytes_numeral)
  show ?thesis by (simp only: deserialize_short_ids_def off 1 2 3 rbind_simps prod.case less_irrefl if_False)
qed

end
