(* ===== verification/EthMessage.thy ===== *)
theory EthMessage
  imports ByteRegions Keccak BtcMessage
begin

text \<open>
  \<open>EthBlockMessage\<close> and \<open>BxEthBlockMessage\<close> of \<^verbatim>\<open>src/lib/libutils/utils/protocols/ethereum\<close>. An Ethereum
  block message is an RLP list of the block header, the list of transactions and a trailer (uncles and
  total difficulty) that the tasks copy as it is. The compressed message starts with eight bytes for
  the offset of the short ids; each transaction is a list that holds either an indicator and the
  transaction as a string, or the indicator of a short id.

  \<^verbatim>\<open>parse\<close> is a function from the buffer to the record of the members it sets. The second part of
  the theory states the format and what parsing gives on it.
\<close>

definition ETH_DEFAULT_TX_COUNT :: nat where "ETH_DEFAULT_TX_COUNT = 200"
definition ETH_FULL_TX_INDICATOR :: byte where "ETH_FULL_TX_INDICATOR = 0x01"
definition ETH_SHORT_ID_INDICATOR :: byte where "ETH_SHORT_ID_INDICATOR = 0x80"
definition ETH_RLP_OF_SHORT_TX :: byte where "ETH_RLP_OF_SHORT_TX = 0xc2"

lemmas eth_consts = ETH_DEFAULT_TX_COUNT_def ETH_FULL_TX_INDICATOR_def ETH_SHORT_ID_INDICATOR_def ETH_RLP_OF_SHORT_TX_def

section \<open>EthBlockMessage\<close>

record eth_block =
  eb_header :: buffer_view
  eb_trailer :: buffer_view
  eb_hash :: sha256
  eb_prev_hash :: sha256
  eb_txn_offset :: nat
  eb_txn_end_offset :: nat

definition eth_next_offset :: "buffer_view \<Rightarrow> nat \<Rightarrow> (nat \<times> nat) res" where
  \<comment> \<open>the offset behind the item and its type\<close>
  "eth_next_offset v off = rbind (bv_consume v off) (\<lambda>(len, ty, from). Inr (u64 (from + len), ty))"

definition eth_get_next_tx_offset :: "buffer_view \<Rightarrow> nat \<Rightarrow> (nat \<times> nat) res" where
  "eth_get_next_tx_offset v off = eth_next_offset v off"

definition eth_get_next_uncle_offset :: "buffer_view \<Rightarrow> nat \<Rightarrow> nat res" where
  "eth_get_next_uncle_offset v off = rbind (eth_next_offset v off) (\<lambda>(off, _). Inr off)"

definition eth_parse :: "buffer_view \<Rightarrow> eth_block res" where
  "eth_parse v =
     rbind (bv_consume v 0) (\<lambda>(_, _, block_msg_item_offset).
     rbind (bv_consume v block_msg_item_offset) (\<lambda>(block_header_item_len, _, block_header_item_offset).
     let header = bv_sub v (u64_sub (u64 (block_header_item_len + block_header_item_offset)) block_msg_item_offset) block_msg_item_offset
     in rbind (keccak_sha3 (bv_read header) 0 (bv_size header)) (\<lambda>block_hash.
        rbind (bv_consume v block_header_item_offset) (\<lambda>(_, _, prev_block_item_offset).
        rbind (sha_read v prev_block_item_offset) (\<lambda>prev_block_hash.
        rbind (bv_consume v (u64 (block_header_item_offset + block_header_item_len))) (\<lambda>(txn_item_len, _, txn_offset).
        let txn_end_offset = u64 (txn_offset + txn_item_len)
        in Inr \<lparr>eb_header = header, eb_trailer = bv_sub v (u64_sub (bv_size v) txn_end_offset) txn_end_offset,
                eb_hash = block_hash, eb_prev_hash = prev_block_hash,
                eb_txn_offset = txn_offset, eb_txn_end_offset = txn_end_offset\<rparr>))))))"

section \<open>BxEthBlockMessage\<close>

record bx_eth_block =
  xb_header :: buffer_view
  xb_trailer :: buffer_view
  xb_sids_offset :: nat
  xb_txs_len :: nat
  xb_hash :: sha256
  xb_txn_offset :: nat
  xb_txn_end_offset :: nat

definition bx_eth_parse :: "buffer_view \<Rightarrow> bx_eth_block res" where
  "bx_eth_parse v =
     rbind (get_le (bv_read v) 8 0) (\<lambda>(short_ids_offset, off).
     rbind (bv_consume v off) (\<lambda>(_, _, block_item_offset).
     rbind (bv_consume v block_item_offset) (\<lambda>(block_header_len, _, block_header_offset).
     let header = bv_sub v (u64_sub (u64 (block_header_offset + block_header_len)) block_item_offset) block_item_offset
     in rbind (keccak_sha3 (bv_read header) 0 (bv_size header)) (\<lambda>block_hash.
        rbind (bv_consume v (u64 (block_header_offset + block_header_len))) (\<lambda>(block_txs_len, _, txn_offset).
        let txn_end_offset = u64 (txn_offset + block_txs_len)
        in Inr \<lparr>xb_header = header, xb_trailer = bv_sub v (u64_sub short_ids_offset txn_end_offset) txn_end_offset,
                xb_sids_offset = short_ids_offset, xb_txs_len = block_txs_len, xb_hash = block_hash,
                xb_txn_offset = txn_offset, xb_txn_end_offset = txn_end_offset\<rparr>)))))"

definition bx_eth_get_next_tx_offset :: "buffer_view \<Rightarrow> nat \<Rightarrow> (nat \<times> nat \<times> bool) res" where
  \<comment> \<open>the offset behind the transaction, the offset of its content and whether it is a short id\<close>
  "bx_eth_get_next_tx_offset v off =
     rbind (bv_consume v off) (\<lambda>(len, _, from).
     rbind (bv_index v from) (\<lambda>b. Inr (u64 (from + len), from, b = ETH_SHORT_ID_INDICATOR)))"

definition eth_deserialize_short_ids :: "buffer_view \<Rightarrow> nat \<Rightarrow> nat list res" where
  "eth_deserialize_short_ids v short_ids_offset =
     rbind (get_le (bv_read v) 4 short_ids_offset) (\<lambda>(short_ids_count, off).
       if bv_size v < u64 (off + 4 * short_ids_count) then Inl RuntimeError
       else read_short_ids (bv_read v) short_ids_count off)"

section \<open>The format\<close>

text \<open>
  A block: the header is a list that starts with the hash of the previous block, \<open>hdr_rest\<close> stands
  for its other items; every transaction is an encoded item, a list or, for typed transactions, a
  string.
\<close>

definition eth_header :: "byte list \<Rightarrow> byte list \<Rightarrow> byte list" where
  "eth_header prev hdr_rest = enc_list (enc_str prev @ hdr_rest)"

definition eth_txs :: "rlp_value list \<Rightarrow> byte list" where
  "eth_txs ts = concat (map enc_value ts)"

definition eth_block_bytes :: "byte list \<Rightarrow> byte list \<Rightarrow> byte list \<Rightarrow> byte list" where
  "eth_block_bytes hdr txs trailer = enc_list (hdr @ enc_list txs @ trailer)"

definition wf_eth_block :: "byte list \<Rightarrow> byte list \<Rightarrow> rlp_value list \<Rightarrow> byte list \<Rightarrow> bool" where
  \<comment> \<open>a transaction of a single byte cannot be told from its own string\<close>
  "wf_eth_block prev hdr_rest ts trailer \<longleftrightarrow>
     length prev = 32 \<and> list_all (\<lambda>t. 1 < length (enc_value t)) ts \<and>
     length (eth_block_bytes (eth_header prev hdr_rest) (eth_txs ts) trailer) < 2 ^ 29"

lemma length_enc_list: "length bs \<le> length (enc_list bs)" "0 < length (enc_list bs)"
  by (simp_all add: enc_list_def)

lemma eth_txs_simps [simp]:
  "eth_txs [] = []" "eth_txs (t # ts) = enc_value t @ eth_txs ts" "eth_txs (ts @ us) = eth_txs ts @ eth_txs us"
  by (simp_all add: eth_txs_def)

lemma consume_list_bv:
  assumes "bv_ok v" and "bv_bytes v = pre @ enc_list bs @ post" and "length bs < 2 ^ 32" and "off = length pre"
  shows "bv_consume v off = Inr (length bs, RLP_LIST, off + length (rlp_prefix RLP_LIST_ENCODING_TYPE (length bs)))"
  using consume_value_at [OF assms(1), of pre "RList bs" post] assms by (simp add: enc_list_def)

lemma list_sub_view:
  assumes v: "bv_ok v" "bv_bytes v = pre @ xs @ post" and off: "off = length pre" "fin = off + length xs"
  shows "u64 fin = fin" and "u64_sub fin off = length xs"
    and "bv_ok (bv_sub v (length xs) off)" and "bv_bytes (bv_sub v (length xs) off) = xs"
proof -
  have sz: "bv_size v = length (bv_bytes v)" "length (bv_bytes v) < 2 ^ 64" using v(1) bvs.bytes_small [OF v(1)] by (simp_all add: bv_ok_def)
  show "u64 fin = fin" "u64_sub fin off = length xs" using sz(2) v(2) off by (simp_all add: u64_id u64_sub_id)
  show "bv_ok (bv_sub v (length xs) off)" "bv_bytes (bv_sub v (length xs) off) = xs"
    using bv_wf_sub [of v off "length xs"] sz(1) v off by (simp_all add: bv_ok_def slice_middle)
qed

lemma keccak_sha3_view:
  assumes "bv_ok v" and "bv_size v \<noteq> 0"
  shows "keccak_sha3 (bv_read v) 0 (bv_size v) = Inr (sha_of_binary (sha3_256 (bv_bytes v)))"
  using assms bv_read_inside [of v 0 "bv_size v"] by (simp add: keccak_sha3_def bv_ok_def slice_0_all)

lemma keccak_sha3_at:
  assumes "bv_ok v" and "bv_bytes v = pre @ ys @ post" and "off = length pre" and "n = length ys"
  shows "keccak_sha3 (bv_read v) off n = Inr (sha_of_binary (sha3_256 ys))"
proof -
  have "bv_read v off n = Inr ys" using assms bv_read_inside [of v off n] length_bv_bytes [of v]
    by (simp add: bv_ok_def slice_middle)
  then show ?thesis by (simp add: keccak_sha3_def)
qed

text \<open>What both parsers find in a message: the header, the transactions and the trailer.\<close>

lemma envelope_at:
  assumes v: "bv_ok v" "bv_bytes v = pre0 @ enc_list (enc_list hb @ enc_list txs @ trailer) @ post" and hdr: "hdr = enc_list hb"
    and len: "length (hdr @ enc_list txs @ trailer) < 2 ^ 32"
  obtains p pq pre rest where
    "bv_consume v (length pre0) = Inr (length (hdr @ enc_list txs @ trailer), RLP_LIST, p)"
    and "bv_consume v p = Inr (length hb, RLP_LIST, length pq)" and "bv_bytes v = pq @ hb @ rest"
    and "u64 (length hb + length pq) = p + length hdr" and "u64_sub (p + length hdr) p = length hdr"
    and "bv_ok (bv_sub v (length hdr) p)" and "bv_bytes (bv_sub v (length hdr) p) = hdr"
    and "bv_consume v (p + length hdr) = Inr (length txs, RLP_LIST, length pre)"
    and "u64 (length pre + length txs) = length (pre @ txs)" and "bv_bytes v = pre @ txs @ trailer @ post"
    and "u64_sub (length (pre @ txs @ trailer)) (length (pre @ txs)) = length trailer"
    and "bv_ok (bv_sub v (length trailer) (length (pre @ txs)))"
    and "bv_bytes (bv_sub v (length trailer) (length (pre @ txs))) = trailer"
proof -
  let ?body = "hdr @ enc_list txs @ trailer"
  define q where "q = pre0 @ rlp_prefix RLP_LIST_ENCODING_TYPE (length ?body)"
  define hp where "hp = rlp_prefix RLP_LIST_ENCODING_TYPE (length hb)"
  define pre where "pre = q @ hdr @ rlp_prefix RLP_LIST_ENCODING_TYPE (length txs)"
  have h: "hdr = hp @ hb" by (simp add: hdr enc_list_def hp_def)
  have eq: "bv_bytes v = q @ hdr @ enc_list txs @ trailer @ post" "bv_bytes v = pre @ txs @ trailer @ post"
    "bv_bytes v = (pre @ txs) @ trailer @ post"
    using v(2) by (simp_all add: enc_list_def q_def pre_def hdr)
  have l: "length hb < 2 ^ 32" "length txs < 2 ^ 32" using len by (simp_all add: hdr enc_list_def)
  have "bv_consume v (length pre0) = Inr (length ?body, RLP_LIST, length q)"
    using consume_list_bv [OF v(1), of pre0 ?body post] v(2) len by (simp add: hdr q_def)
  moreover have "bv_consume v (length q) = Inr (length hb, RLP_LIST, length (q @ hp))"
    using consume_list_bv [OF v(1), of q hb] eq(1) l(1) by (simp add: hdr hp_def)
  moreover have "bv_bytes v = (q @ hp) @ hb @ enc_list txs @ trailer @ post" using eq(1) h by simp
  moreover have "u64 (length hb + length (q @ hp)) = length q + length hdr"
    using list_sub_view(1) [OF v(1) eq(1) refl refl] by (simp add: h add.commute add.left_commute)
  moreover have "bv_consume v (length q + length hdr) = Inr (length txs, RLP_LIST, length pre)"
    using consume_list_bv [OF v(1), of "q @ hdr" txs "trailer @ post"] eq(1) l(2) by (simp add: pre_def)
  moreover have "u64 (length pre + length txs) = length (pre @ txs)" using list_sub_view(1) [OF v(1) eq(2) refl refl] by simp
  moreover have "u64_sub (length (pre @ txs @ trailer)) (length (pre @ txs)) = length trailer"
    using list_sub_view(2) [OF v(1) eq(3) refl refl] by (simp add: add.assoc)
  ultimately show thesis
    using that list_sub_view(2-4) [OF v(1) eq(1) refl refl] list_sub_view(3,4) [OF v(1) eq(3) refl refl] eq(2) by blast
qed

lemma eth_parse_spec:
  assumes wf: "wf_eth_block prev hdr_rest ts trailer" and v: "bv_ok v"
    and hdr: "hdr = eth_header prev hdr_rest" and bytes: "bv_bytes v = eth_block_bytes hdr (eth_txs ts) trailer"
  shows "\<exists>pre m. eth_parse v = Inr m \<and> bv_bytes v = pre @ eth_txs ts @ trailer \<and>
    eb_txn_offset m = length pre \<and> eb_txn_end_offset m = length (pre @ eth_txs ts) \<and>
    eb_hash m = sha_of_binary (sha3_256 hdr) \<and> eb_prev_hash m = sha_of_binary prev \<and>
    bv_ok (eb_header m) \<and> bv_bytes (eb_header m) = hdr \<and> bv_ok (eb_trailer m) \<and> bv_bytes (eb_trailer m) = trailer"
proof -
  let ?txs = "eth_txs ts" and ?hb = "enc_str prev @ hdr_rest"
  have h: "hdr = enc_list ?hb" "length prev = 32" using wf by (simp_all add: hdr eth_header_def wf_eth_block_def)
  have eq: "bv_bytes v = [] @ enc_list (enc_list ?hb @ enc_list ?txs @ trailer) @ []" using bytes h by (simp add: eth_block_bytes_def)
  have len: "length (hdr @ enc_list ?txs @ trailer) < 2 ^ 32"
    using wf length_enc_list(1) [of "hdr @ enc_list ?txs @ trailer"] by (simp add: wf_eth_block_def eth_block_bytes_def hdr)
  obtain p pq pre rest where e: "bv_consume v (length ([] :: byte list)) = Inr (length (hdr @ enc_list ?txs @ trailer), RLP_LIST, p)"
    "bv_consume v p = Inr (length ?hb, RLP_LIST, length pq)" "bv_bytes v = pq @ ?hb @ rest"
    "u64 (length ?hb + length pq) = p + length hdr" "u64_sub (p + length hdr) p = length hdr"
    "bv_ok (bv_sub v (length hdr) p)" "bv_bytes (bv_sub v (length hdr) p) = hdr"
    "bv_consume v (p + length hdr) = Inr (length ?txs, RLP_LIST, length pre)"
    "u64 (length pre + length ?txs) = length (pre @ ?txs)" "bv_bytes v = pre @ ?txs @ trailer @ []"
    "u64_sub (length (pre @ ?txs @ trailer)) (length (pre @ ?txs)) = length trailer"
    "bv_ok (bv_sub v (length trailer) (length (pre @ ?txs)))" "bv_bytes (bv_sub v (length trailer) (length (pre @ ?txs))) = trailer"
    by (rule envelope_at [OF v eq h(1) len])
  have ps: "enc_str prev = rlp_prefix 128 32 @ prev" using h(2) by (simp add: enc_str_def rlp_consts)
  have eqp: "bv_bytes v = pq @ enc_value (RStr prev) @ hdr_rest @ rest" using e(3) by simp
  obtain ty where c: "bv_consume v (length pq) = Inr (32, ty, length (pq @ rlp_prefix 128 32))"
    using consume_value_at [OF v eqp] h(2) ps by simp
  have "bv_bytes v = (pq @ rlp_prefix 128 32) @ prev @ hdr_rest @ rest" using eqp ps by simp
  then have ph: "sha_read v (length (pq @ rlp_prefix 128 32)) = Inr (sha_of_binary prev)"
    using sha_read_inside [of v "length (pq @ rlp_prefix 128 32)"] v h(2) length_bv_bytes [of v]
      slice_middle [of "pq @ rlp_prefix 128 32" _ prev 32 "hdr_rest @ rest"] by (simp add: bv_ok_def)
  have kh: "keccak_sha3 (bv_read (bv_sub v (length hdr) p)) 0 (length hdr) = Inr (sha_of_binary (sha3_256 hdr))"
    using keccak_sha3_view [OF e(6)] e(7) h(1) length_enc_list(2) [of ?hb] by simp
  have "bv_size v = length (pre @ ?txs @ trailer)" using v e(10) length_bv_bytes [of v] by (simp add: bv_ok_def)
  then have sz: "u64_sub (bv_size v) (length (pre @ ?txs)) = length trailer" using e(11) by simp
  let ?m = "\<lparr>eb_header = bv_sub v (length hdr) p, eb_trailer = bv_sub v (length trailer) (length (pre @ ?txs)),
    eb_hash = sha_of_binary (sha3_256 hdr), eb_prev_hash = sha_of_binary prev,
    eb_txn_offset = length pre, eb_txn_end_offset = length (pre @ ?txs)\<rparr>"
  have "eth_parse v = Inr ?m"
    unfolding eth_parse_def
    by (simp only: e(1) [unfolded list.size] e(2,4,5,8,9) rbind_simps prod.case Let_def kh bv_sub_simps c ph sz add.commute [of "length pq"])
  then show ?thesis using e(6,7,10,12,13) by (intro exI [of _ pre] exI [of _ ?m]) simp
qed

section \<open>The compressed format\<close>

definition eth_tx_piece :: "(rlp_value \<Rightarrow> bool) \<Rightarrow> rlp_value \<Rightarrow> byte list" where
  "eth_tx_piece cmpd t =
     (if cmpd t then [ETH_RLP_OF_SHORT_TX, ETH_SHORT_ID_INDICATOR, ETH_SHORT_ID_INDICATOR]
      else enc_list (ETH_FULL_TX_INDICATOR # enc_str (enc_value t)))"

definition eth_pieces :: "(rlp_value \<Rightarrow> bool) \<Rightarrow> rlp_value list \<Rightarrow> byte list" where
  "eth_pieces cmpd ts = concat (map (eth_tx_piece cmpd) ts)"

lemma eth_pieces_simps [simp]:
  "eth_pieces cmpd [] = []" "eth_pieces cmpd (t # ts) = eth_tx_piece cmpd t @ eth_pieces cmpd ts"
  "eth_pieces cmpd (ts @ us) = eth_pieces cmpd ts @ eth_pieces cmpd us"
  by (simp_all add: eth_pieces_def)

lemma eth_tx_piece_nonempty: "eth_tx_piece cmpd t \<noteq> []"
  using length_enc_list(2) by (auto simp: eth_tx_piece_def)

lemma enc_str_long: "1 < length bs \<Longrightarrow> enc_str bs = rlp_prefix RLP_STR_ENCODING_TYPE (length bs) @ bs"
  by (simp add: enc_str_def)

lemma length_eth_tx_piece:
  assumes "1 < length (enc_value t)" and "length (enc_value t) < 2 ^ 29"
  shows "length (eth_tx_piece cmpd t) \<le> 4 * length (enc_value t)"
proof (cases "cmpd t")
  case False
  let ?n = "length (enc_value t)" and ?p = "rlp_prefix RLP_STR_ENCODING_TYPE (length (enc_value t))"
  have s: "length (enc_str (enc_value t)) = length ?p + ?n" using enc_str_long [OF assms(1)] by simp
  have p: "length ?p \<le> 5" using length_rlp_prefix [of ?n] assms(2) by simp
  have q: "length (rlp_prefix RLP_LIST_ENCODING_TYPE (1 + length ?p + ?n)) \<le> 5"
    using length_rlp_prefix [of "1 + length ?p + ?n"] assms(2) p by simp
  show ?thesis
  proof (cases "?n < 50")
    case True
    then have "length ?p = 1" by (simp add: rlp_prefix_def)
    moreover from this have "length (rlp_prefix RLP_LIST_ENCODING_TYPE (1 + length ?p + ?n)) = 1" using True by (simp add: rlp_prefix_def)
    ultimately show ?thesis using False s assms(1) by (simp add: eth_tx_piece_def enc_list_def)
  qed (use False s p q in \<open>simp add: eth_tx_piece_def enc_list_def\<close>)
qed (use assms in \<open>simp add: eth_tx_piece_def\<close>)

lemma length_eth_pieces:
  assumes "list_all (\<lambda>t. 1 < length (enc_value t)) ts" and "length (eth_txs ts) < 2 ^ 29"
  shows "length (eth_pieces cmpd ts) \<le> 4 * length (eth_txs ts)"
  using assms
proof (induction ts)
  case (Cons t ts)
  then show ?case using length_eth_tx_piece [of t cmpd] by simp
qed simp

lemma length_block_parts:
  "length hdr + length txs + length trailer \<le> length (eth_block_bytes hdr txs trailer)"
  using length_enc_list(1) [of "hdr @ enc_list txs @ trailer"] length_enc_list(1) [of txs] by (simp add: eth_block_bytes_def)

lemma bx_eth_parse_spec:
  assumes v: "bv_ok v" "bv_bytes v = le_bytes 8 (8 + length msg) @ msg @ post" "length msg < 2 ^ 63"
    and msg: "msg = eth_block_bytes hdr txs trailer" "hdr = enc_list hb" and len: "length msg < 2 ^ 32"
  shows "\<exists>pre m. bx_eth_parse v = Inr m \<and> bv_bytes v = pre @ txs @ trailer @ post \<and>
    xb_txn_offset m = length pre \<and> xb_txn_end_offset m = length (pre @ txs) \<and> xb_sids_offset m = 8 + length msg \<and>
    xb_hash m = sha_of_binary (sha3_256 hdr) \<and>
    bv_ok (xb_header m) \<and> bv_bytes (xb_header m) = hdr \<and> bv_ok (xb_trailer m) \<and> bv_bytes (xb_trailer m) = trailer"
proof -
  let ?l8 = "le_bytes 8 (8 + length msg)"
  have eq: "bv_bytes v = ?l8 @ enc_list (enc_list hb @ enc_list txs @ trailer) @ post" using v(2) msg by (simp add: eth_block_bytes_def)
  have l: "length (hdr @ enc_list txs @ trailer) < 2 ^ 32"
    using len length_enc_list(1) [of "hdr @ enc_list txs @ trailer"] msg(1) by (simp add: eth_block_bytes_def)
  obtain p pq pre rest where e: "bv_consume v (length ?l8) = Inr (length (hdr @ enc_list txs @ trailer), RLP_LIST, p)"
    "bv_consume v p = Inr (length hb, RLP_LIST, length pq)" "bv_bytes v = pq @ hb @ rest"
    "u64 (length hb + length pq) = p + length hdr" "u64_sub (p + length hdr) p = length hdr"
    "bv_ok (bv_sub v (length hdr) p)" "bv_bytes (bv_sub v (length hdr) p) = hdr"
    "bv_consume v (p + length hdr) = Inr (length txs, RLP_LIST, length pre)"
    "u64 (length pre + length txs) = length (pre @ txs)" "bv_bytes v = pre @ txs @ trailer @ post"
    "u64_sub (length (pre @ txs @ trailer)) (length (pre @ txs)) = length trailer"
    "bv_ok (bv_sub v (length trailer) (length (pre @ txs)))" "bv_bytes (bv_sub v (length trailer) (length (pre @ txs))) = trailer"
    by (rule envelope_at [OF v(1) eq msg(2) l])
  have "8 + length msg < 256 ^ 8" using len by simp
  then have g: "get_le (bv_read v) 8 0 = Inr (8 + length msg, 8)"
    using bvs.get_le_at [OF v(1), of "[]" ?l8] v(2) by (simp add: le_val_le_bytes del: le_bytes.simps le_bytes_numeral)
  have "length ?l8 + length msg = length (pre @ txs @ trailer)" using arg_cong [OF v(2), of length] e(10) by simp
  then have sz: "u64_sub (8 + length msg) (length (pre @ txs)) = length trailer" using e(11) by simp
  have kh: "keccak_sha3 (bv_read (bv_sub v (length hdr) p)) 0 (length hdr) = Inr (sha_of_binary (sha3_256 hdr))"
    using keccak_sha3_view [OF e(6)] e(7) msg(2) length_enc_list(2) [of hb] by simp
  let ?m = "\<lparr>xb_header = bv_sub v (length hdr) p, xb_trailer = bv_sub v (length trailer) (length (pre @ txs)),
    xb_sids_offset = 8 + length msg, xb_txs_len = length txs, xb_hash = sha_of_binary (sha3_256 hdr),
    xb_txn_offset = length pre, xb_txn_end_offset = length (pre @ txs)\<rparr>"
  have "bx_eth_parse v = Inr ?m"
    unfolding bx_eth_parse_def
    by (simp only: g e(1) [unfolded length_le_bytes] e(2,4,5,8,9) rbind_simps prod.case Let_def kh bv_sub_simps sz add.commute [of "length pq"])
  then show ?thesis using e(6,7,10,12,13) by (intro exI [of _ pre] exI [of _ ?m]) simp
qed

lemma bx_eth_next_tx_short:
  assumes v: "bv_ok v" "bv_bytes v = pre @ eth_tx_piece cmpd t @ post" and t: "cmpd t"
  shows "\<exists>off. bx_eth_get_next_tx_offset v (length pre) = Inr (length (pre @ eth_tx_piece cmpd t), off, True)"
proof -
  have eq: "bv_bytes v = pre @ [0xc2, 0x80, 0x80] @ post" using v(2) t by (simp add: eth_tx_piece_def eth_consts)
  have sz: "bv_size v = length (bv_bytes v)" "length (bv_bytes v) < 2 ^ 64" using v(1) bvs.bytes_small [OF v(1)] by (simp_all add: bv_ok_def)
  have "rd_byte (bv_read v) (length pre) = Inr 0xc2" using bvs.rd_byte_at [OF v(1), of pre "0xc2"] eq by simp
  then have c: "bv_consume v (length pre) = Inr (2, RLP_LIST, length pre + 1)" using sz eq by (simp add: consume_length_prefix_def u64_id)
  have "bv_read v (length (pre @ [0xc2])) (length [0x80 :: byte]) = Inr [0x80]" using bvs.rd_middle [OF v(1), of "pre @ [0xc2]" "[0x80]"] eq by simp
  then have "bv_index v (length pre + 1) = Inr 0x80" by (simp add: bv_index_def)
  then show ?thesis using c sz eq t by (simp add: bx_eth_get_next_tx_offset_def u64_id eth_tx_piece_def eth_consts)
qed

lemma bx_eth_next_tx_full:
  assumes v: "bv_ok v" "bv_bytes v = pre @ eth_tx_piece cmpd t @ post" and t: "\<not> cmpd t" "1 < length (enc_value t)" "length (enc_value t) < 2 ^ 29"
  shows "\<exists>off q ty. bx_eth_get_next_tx_offset v (length pre) = Inr (length (pre @ eth_tx_piece cmpd t), off, False) \<and>
    bv_consume v (u64 (off + 1)) = Inr (length (enc_value t), ty, length q) \<and> (\<exists>rest. bv_bytes v = q @ enc_value t @ rest)"
proof -
  let ?b = "ETH_FULL_TX_INDICATOR # enc_str (enc_value t)" and ?sp = "rlp_prefix RLP_STR_ENCODING_TYPE (length (enc_value t))"
  let ?lp = "rlp_prefix RLP_LIST_ENCODING_TYPE (length ?b)"
  have s: "enc_str (enc_value t) = ?sp @ enc_value t" by (rule enc_str_long [OF t(2)])
  have eq: "bv_bytes v = pre @ enc_list ?b @ post" using v(2) t(1) by (simp add: eth_tx_piece_def)
  have sz: "length (bv_bytes v) < 2 ^ 64" using bvs.bytes_small [OF v(1)] by simp
  have "length ?b < 2 ^ 32" using s t(3) length_rlp_prefix [of "length (enc_value t)" RLP_STR_ENCODING_TYPE] by simp
  then have c: "bv_consume v (length pre) = Inr (length ?b, RLP_LIST, length (pre @ ?lp))"
    using consume_list_bv [OF v(1) eq] by simp
  have eq2: "bv_bytes v = (pre @ ?lp) @ [ETH_FULL_TX_INDICATOR] @ enc_str (enc_value t) @ post" using eq by (simp add: enc_list_def)
  have i: "bv_index v (length (pre @ ?lp)) = Inr ETH_FULL_TX_INDICATOR"
    using bvs.rd_middle [OF v(1) eq2] by (simp add: bv_index_def)
  have u: "u64 (length (pre @ ?lp) + length ?b) = length (pre @ eth_tx_piece cmpd t)" "u64 (length (pre @ ?lp) + 1) = length (pre @ ?lp) + 1"
    using sz eq t(1) by (simp_all add: u64_id enc_list_def eth_tx_piece_def)
  have "bv_bytes v = (pre @ ?lp @ [ETH_FULL_TX_INDICATOR]) @ enc_value (RStr (enc_value t)) @ post" using eq2 by simp
  then have c2: "\<exists>ty. bv_consume v (length (pre @ ?lp) + 1) = Inr (length (enc_value t), ty, length (pre @ ?lp @ [ETH_FULL_TX_INDICATOR] @ ?sp))"
    using consume_value_at [OF v(1)] s t(3) by fastforce
  have "bv_bytes v = (pre @ ?lp @ [ETH_FULL_TX_INDICATOR] @ ?sp) @ enc_value t @ post" using eq2 s by simp
  moreover have "bx_eth_get_next_tx_offset v (length pre) = Inr (length (pre @ eth_tx_piece cmpd t), length (pre @ ?lp), False)"
    unfolding bx_eth_get_next_tx_offset_def by (simp only: c i u(1) rbind_simps prod.case) (simp add: eth_consts)
  ultimately show ?thesis using c2 u(2) by (metis (no_types, lifting))
qed

lemma eth_deserialize_short_ids_at:
  assumes v: "bv_ok v" and eq: "bv_bytes v = pre @ le_bytes 4 (length sids) @ concat (map (le_bytes 4) sids)"
    and sids: "list_all (\<lambda>i. i < 2 ^ 32) sids" "length sids < 2 ^ 32"
  shows "eth_deserialize_short_ids v (length pre) = Inr sids"
  using deserialize_short_ids_at [of "\<lparr>bxb_view = v, bxb_sids_offset = length pre, bxb_block = v\<rparr>" pre sids] assms
  by (simp add: deserialize_short_ids_def eth_deserialize_short_ids_def cong: if_cong)

end
