(* ===== verification/Containers.thy ===== *)
theory Containers
  imports Prelude
begin

text \<open>
  The containers of \<^verbatim>\<open>src/lib/libutils/utils/common\<close>: \<open>OrderedMap\<close> (a linked list of items and an
  unordered map from keys to list nodes), \<open>MapWrapper\<close> (a map that reports the bytes of its
  values to a tracker), \<open>DefaultMap\<close> and \<open>Bucket\<close>.

  An iterator is the identity of a list node, so that the two halves of an \<open>OrderedMap\<close> can
  disagree in the model as they could in memory; \<open>om_wf\<close> is the invariant that they do not, and
  the refinement to an association list in insertion order is the locale \<open>insertion_map\<close>.
  The enumeration order of an unordered set is not specified by C++: a set is a list without
  repetitions, and a new element goes where the argument \<open>ins\<close> puts it.
\<close>

section \<open>OrderedMap\<close>

record ('k, 'v) ordered_map =
  om_list :: "(nat \<times> 'k \<times> 'v) list"
  om_map :: "'k \<rightharpoonup> nat"
  om_next :: nat

definition om_new :: "('k, 'v) ordered_map" where
  "om_new = \<lparr>om_list = [], om_map = Map.empty, om_next = 0\<rparr>"

definition om_find :: "('k, 'v) ordered_map \<Rightarrow> 'k \<Rightarrow> nat option" where
  \<comment> \<open>\<open>None\<close> is \<^verbatim>\<open>end()\<close>\<close>
  "om_find m k = om_map m k"

definition om_deref :: "('k, 'v) ordered_map \<Rightarrow> nat \<Rightarrow> ('k \<times> 'v) res" where
  "om_deref m i = (case map_of (om_list m) i of None \<Rightarrow> Inl MemFault | Some kv \<Rightarrow> Inr kv)"

definition om_emplace :: "('k, 'v) ordered_map \<Rightarrow> 'k \<Rightarrow> 'v \<Rightarrow> ('k, 'v) ordered_map \<times> nat \<times> bool" where
  "om_emplace m k v =
     (case om_find m k of
        None \<Rightarrow> (m\<lparr>om_list := om_list m @ [(om_next m, k, v)],
                    om_map := (om_map m)(k \<mapsto> om_next m), om_next := Suc (om_next m)\<rparr>,
                  om_next m, True)
      | Some i \<Rightarrow> (m, i, False))"

definition om_insert :: "('k, 'v) ordered_map \<Rightarrow> 'k \<times> 'v \<Rightarrow> ('k, 'v) ordered_map \<times> nat \<times> bool" where
  "om_insert m item = om_emplace m (fst item) (snd item)"

definition om_erase :: "('k, 'v) ordered_map \<Rightarrow> 'k \<Rightarrow> ('k, 'v) ordered_map \<times> nat" where
  "om_erase m k =
     (case om_find m k of
        None \<Rightarrow> (m, 0)
      | Some i \<Rightarrow> (m\<lparr>om_map := (om_map m)(k := None), om_list := filter (\<lambda>n. fst n \<noteq> i) (om_list m)\<rparr>, 1))"

definition om_index :: "('k, 'v) ordered_map \<Rightarrow> 'k \<Rightarrow> 'v res" where
  \<comment> \<open>a missing key makes \<^verbatim>\<open>_map[key]\<close> a singular iterator, which is then dereferenced\<close>
  "om_index m k =
     (case om_map m k of None \<Rightarrow> Inl MemFault | Some i \<Rightarrow> rbind (om_deref m i) (\<lambda>kv. Inr (snd kv)))"

definition om_begin :: "('k, 'v) ordered_map \<Rightarrow> ('k \<times> 'v) option" where
  "om_begin m = (case om_list m of [] \<Rightarrow> None | n # _ \<Rightarrow> Some (snd n))"

definition om_size :: "('k, 'v) ordered_map \<Rightarrow> nat" where
  "om_size m = length (om_list m)"

definition om_clear :: "('k, 'v) ordered_map \<Rightarrow> ('k, 'v) ordered_map" where
  "om_clear m = m\<lparr>om_list := [], om_map := Map.empty\<rparr>"

definition om_items :: "('k, 'v) ordered_map \<Rightarrow> ('k \<times> 'v) list" where
  "om_items m = map snd (om_list m)"

definition om_wf :: "('k, 'v) ordered_map \<Rightarrow> bool" where
  "om_wf m \<longleftrightarrow>
     distinct (map fst (om_list m)) \<and> distinct (map (fst \<circ> snd) (om_list m)) \<and>
     (\<forall>n \<in> set (om_list m). fst n < om_next m \<and> om_map m (fst (snd n)) = Some (fst n)) \<and>
     (\<forall>k i. om_map m k = Some i \<longrightarrow> (\<exists>v. (i, k, v) \<in> set (om_list m)))"

lemma om_wf_new [wf_intros, simp]: "om_wf om_new"
  by (simp add: om_wf_def om_new_def)

lemma om_items_new [simp]: "om_items om_new = []"
  by (simp add: om_items_def om_new_def)

lemma om_map_None_iff:
  assumes "om_wf m"
  shows "om_map m k = None \<longleftrightarrow> k \<notin> fst ` set (om_items m)"
proof
  assume *: "om_map m k = None"
  show "k \<notin> fst ` set (om_items m)"
  proof
    assume "k \<in> fst ` set (om_items m)"
    then obtain n where "n \<in> set (om_list m)" "fst (snd n) = k" by (auto simp: om_items_def)
    with assms * show False by (auto simp: om_wf_def)
  qed
next
  assume *: "k \<notin> fst ` set (om_items m)"
  show "om_map m k = None"
  proof (cases "om_map m k")
    case (Some i)
    with assms obtain v where "(i, k, v) \<in> set (om_list m)" unfolding om_wf_def by blast
    with * show ?thesis by (force simp: om_items_def)
  qed
qed

lemma om_wf_emplace [wf_intros, simp]:
  assumes "om_wf m"
  shows "om_wf (fst (om_emplace m k v))"
proof (cases "om_map m k")
  case None
  then have "k \<notin> fst ` set (om_items m)" using om_map_None_iff [OF assms] by simp
  then have "k \<notin> (fst \<circ> snd) ` set (om_list m)" by (auto simp: om_items_def image_comp)
  moreover have "om_next m \<notin> fst ` set (om_list m)" using assms by (auto simp: om_wf_def)
  ultimately show ?thesis
    using assms None by (auto simp: om_wf_def om_emplace_def om_find_def image_iff)
qed (use assms in \<open>simp add: om_emplace_def om_find_def\<close>)

lemma om_items_emplace:
  assumes "om_wf m"
  shows "om_items (fst (om_emplace m k v)) =
    (if k \<in> fst ` set (om_items m) then om_items m else om_items m @ [(k, v)])"
  using om_map_None_iff [OF assms, of k]
  by (cases "om_map m k") (auto simp: om_emplace_def om_find_def om_items_def)

lemma om_key_node:
  assumes "om_wf m" and "om_map m k = Some i" and "n \<in> set (om_list m)"
  shows "fst n = i \<longleftrightarrow> fst (snd n) = k"
proof -
  obtain v where v: "(i, k, v) \<in> set (om_list m)" using assms(1,2) unfolding om_wf_def by blast
  show ?thesis
  proof
    assume "fst n = i"
    with v assms(1,3) have "n = (i, k, v)"
      unfolding om_wf_def by (metis eq_key_imp_eq_value prod.collapse)
    then show "fst (snd n) = k" by simp
  next
    assume "fst (snd n) = k"
    with assms show "fst n = i" unfolding om_wf_def by (metis option.inject)
  qed
qed

lemma om_items_erase:
  assumes "om_wf m"
  shows "om_items (fst (om_erase m k)) = filter (\<lambda>kv. fst kv \<noteq> k) (om_items m)"
proof (cases "om_map m k")
  case None
  then have "filter (\<lambda>kv. fst kv \<noteq> k) (om_items m) = om_items m"
    using om_map_None_iff [OF assms, of k] by (auto simp: filter_id_conv)
  with None show ?thesis by (simp add: om_erase_def om_find_def)
next
  case (Some i)
  have "filter (\<lambda>n. fst n \<noteq> i) (om_list m) = filter (\<lambda>n. fst (snd n) \<noteq> k) (om_list m)"
    using om_key_node [OF assms Some] by (intro filter_cong) auto
  with Some show ?thesis by (simp add: om_erase_def om_find_def om_items_def filter_map comp_def)
qed

lemma om_wf_erase [wf_intros, simp]:
  assumes "om_wf m"
  shows "om_wf (fst (om_erase m k))"
proof (cases "om_map m k")
  case (Some i)
  note key = om_key_node [OF assms Some]
  have "\<exists>v. (j, k', v) \<in> set (om_list m) \<and> j \<noteq> i" if eq: "om_map m k' = Some j" and ne: "k' \<noteq> k" for k' j
  proof -
    obtain v where v: "(j, k', v) \<in> set (om_list m)" using assms eq unfolding om_wf_def by blast
    with key [OF v] ne show ?thesis by auto
  qed
  then show ?thesis
    using assms Some key by (auto simp: om_wf_def om_erase_def om_find_def distinct_map_filter comp_def)
qed (use assms in \<open>simp add: om_erase_def om_find_def\<close>)

lemma om_wf_clear [wf_intros, simp]: "om_wf (om_clear m)" and om_items_clear [simp]: "om_items (om_clear m) = []"
  by (simp_all add: om_wf_def om_clear_def om_items_def)

lemma om_size_items: "om_size m = length (om_items m)"
  by (simp add: om_size_def om_items_def)

lemma om_begin_items: "om_begin m = (case om_items m of [] \<Rightarrow> None | kv # _ \<Rightarrow> Some kv)"
  by (simp add: om_begin_def om_items_def split: list.splits)

lemma om_index_items:
  assumes "om_wf m"
  shows "om_index m k = (case map_of (om_items m) k of None \<Rightarrow> Inl MemFault | Some v \<Rightarrow> Inr v)"
proof (cases "om_map m k")
  case None
  then have "map_of (om_items m) k = None" using om_map_None_iff [OF assms] by (simp add: map_of_eq_None_iff)
  with None show ?thesis by (simp add: om_index_def)
next
  case (Some i)
  then obtain v where v: "(i, k, v) \<in> set (om_list m)" using assms unfolding om_wf_def by blast
  then have "map_of (om_list m) i = Some (k, v)" using assms by (simp add: om_wf_def)
  moreover have "(k, v) \<in> set (om_items m)" using v by (force simp: om_items_def)
  then have "map_of (om_items m) k = Some v"
    using assms by (simp add: om_wf_def om_items_def)
  ultimately show ?thesis using Some by (simp add: om_index_def om_deref_def)
qed

subsection \<open>The contract: an association list in insertion order\<close>

locale insertion_map =
  fixes items :: "'m \<Rightarrow> ('k \<times> 'v) list"
    and emplace :: "'m \<Rightarrow> 'k \<Rightarrow> 'v \<Rightarrow> 'm"
    and erase :: "'m \<Rightarrow> 'k \<Rightarrow> 'm"
    and wf :: "'m \<Rightarrow> bool"
  assumes keys_distinct: "wf m \<Longrightarrow> distinct (map fst (items m))"
    and wf_emplace: "wf m \<Longrightarrow> wf (emplace m k v)"
    and wf_erase: "wf m \<Longrightarrow> wf (erase m k)"
    and items_emplace: "wf m \<Longrightarrow> items (emplace m k v) =
      (if k \<in> fst ` set (items m) then items m else items m @ [(k, v)])"
    and items_erase: "wf m \<Longrightarrow> items (erase m k) = filter (\<lambda>kv. fst kv \<noteq> k) (items m)"
begin

lemma lookup_emplace:
  "wf m \<Longrightarrow> map_of (items (emplace m k v)) k' =
     (if k' = k \<and> map_of (items m) k = None then Some v else map_of (items m) k')"
  using map_of_eq_None_iff [of "items m" k] by (auto simp: items_emplace map_add_def split: option.splits)

lemma map_of_filter_fst: "map_of (filter (\<lambda>kv. fst kv \<noteq> k) xs) = (map_of xs)(k := None)"
  by (induction xs) auto

lemma lookup_erase: "wf m \<Longrightarrow> map_of (items (erase m k)) = (map_of (items m))(k := None)"
  by (simp add: items_erase map_of_filter_fst)

text \<open>Emplacing keys one after the other keeps the first position and the first value of each.\<close>

lemma fold_emplace_items:
  assumes "wf m" and "distinct (map fst kvs)" and "fst ` set kvs \<inter> fst ` set (items m) = {}"
  shows "wf (fold (\<lambda>kv m. emplace m (fst kv) (snd kv)) kvs m) \<and>
    items (fold (\<lambda>kv m. emplace m (fst kv) (snd kv)) kvs m) = items m @ kvs"
  using assms
proof (induction kvs arbitrary: m)
  case (Cons kv kvs)
  have "items (emplace m (fst kv) (snd kv)) = items m @ [kv]"
    using Cons.prems by (auto simp: items_emplace)
  then show ?case
    using Cons.prems Cons.IH [of "emplace m (fst kv) (snd kv)"] by (auto simp: wf_emplace)
qed simp

lemma emplace_again: "wf m \<Longrightarrow> k \<in> fst ` set (items m) \<Longrightarrow> items (emplace m k v) = items m"
  by (simp add: items_emplace)

lemma erase_oldest:
  assumes "wf m" and "items m = (k, v) # rest"
  shows "items (erase m k) = rest"
proof -
  have "k \<notin> fst ` set rest" using keys_distinct [OF assms(1)] assms(2) by simp
  then have "filter (\<lambda>kv. fst kv \<noteq> k) rest = rest" by (auto simp: filter_id_conv)
  then show ?thesis using assms by (simp add: items_erase)
qed

end

interpretation om: insertion_map om_items "\<lambda>m k v. fst (om_emplace m k v)" "\<lambda>m k. fst (om_erase m k)" om_wf
proof unfold_locales
  show "distinct (map fst (om_items m))" if "om_wf m" for m :: "('a, 'b) ordered_map"
    using that by (simp add: om_wf_def om_items_def)
qed (simp_all add: om_items_emplace om_items_erase)

section \<open>MapWrapper\<close>

text \<open>
  The tracker is told the size \<open>sz\<close> of a value (the size of the contents for the map of
  transaction contents). \<^verbatim>\<open>operator[]\<close> default-constructs a missing value without telling it.
\<close>

record ('k, 'v) map_wrapper =
  mw_map :: "'k \<rightharpoonup> 'v"
  mw_bytes :: nat

definition mw_new :: "('k, 'v) map_wrapper" where
  "mw_new = \<lparr>mw_map = Map.empty, mw_bytes = 0\<rparr>"

definition mw_find :: "('k, 'v) map_wrapper \<Rightarrow> 'k \<Rightarrow> 'v option" where
  "mw_find m k = mw_map m k"

definition mw_at :: "('k, 'v) map_wrapper \<Rightarrow> 'k \<Rightarrow> 'v res" where
  "mw_at m k = (case mw_map m k of None \<Rightarrow> Inl OutOfRange | Some v \<Rightarrow> Inr v)"

definition mw_const_index :: "('k, 'v) map_wrapper \<Rightarrow> 'k \<Rightarrow> 'v res" where
  "mw_const_index m k = (case mw_map m k of None \<Rightarrow> Inl KeyError | Some v \<Rightarrow> Inr v)"

definition mw_index :: "'v \<Rightarrow> ('k, 'v) map_wrapper \<Rightarrow> 'k \<Rightarrow> 'v \<times> ('k, 'v) map_wrapper" where
  "mw_index dflt m k =
     (case mw_map m k of None \<Rightarrow> (dflt, m\<lparr>mw_map := (mw_map m)(k \<mapsto> dflt)\<rparr>) | Some v \<Rightarrow> (v, m))"

definition mw_emplace :: "('v \<Rightarrow> nat) \<Rightarrow> ('k, 'v) map_wrapper \<Rightarrow> 'k \<Rightarrow> 'v \<Rightarrow> ('k, 'v) map_wrapper" where
  "mw_emplace sz m k v =
     (let m = m\<lparr>mw_bytes := u64 (mw_bytes m + sz v)\<rparr>
      in if mw_map m k = None then m\<lparr>mw_map := (mw_map m)(k \<mapsto> v)\<rparr> else m)"

definition mw_erase :: "('v \<Rightarrow> nat) \<Rightarrow> ('k, 'v) map_wrapper \<Rightarrow> 'k \<Rightarrow> ('k, 'v) map_wrapper" where
  "mw_erase sz m k =
     (case mw_map m k of
        None \<Rightarrow> m
      | Some v \<Rightarrow> m\<lparr>mw_map := (mw_map m)(k := None), mw_bytes := u64_sub (mw_bytes m) (sz v)\<rparr>)"

definition mw_clear :: "('k, 'v) map_wrapper \<Rightarrow> ('k, 'v) map_wrapper" where
  "mw_clear m = \<lparr>mw_map = Map.empty, mw_bytes = 0\<rparr>"

definition mw_total :: "('v \<Rightarrow> nat) \<Rightarrow> ('k \<rightharpoonup> 'v) \<Rightarrow> nat" where
  "mw_total sz m = (\<Sum>k \<in> dom m. sz (the (m k)))"

definition mw_wf :: "('v \<Rightarrow> nat) \<Rightarrow> ('k, 'v) map_wrapper \<Rightarrow> bool" where
  "mw_wf sz m \<longleftrightarrow> finite (dom (mw_map m)) \<and> mw_bytes m = u64 (mw_total sz (mw_map m))"

lemma mw_total_upd:
  assumes "finite (dom m)" and "m k = None"
  shows "mw_total sz (m(k \<mapsto> v)) = mw_total sz m + sz v"
proof -
  have "(\<Sum>x \<in> dom m. sz (the ((m(k \<mapsto> v)) x))) = (\<Sum>x \<in> dom m. sz (the (m x)))"
    using assms(2) by (intro sum.cong) auto
  moreover have "k \<notin> dom m" using assms(2) by auto
  ultimately show ?thesis using assms(1) by (simp add: mw_total_def)
qed

lemma u64_add_left: "u64 (u64 a + b) = u64 (a + b)"
  by (simp add: u64_def mod_simps)

lemma u64_sub_u64_add: "u64_sub (u64 (a + b)) b = u64 a"
proof -
  have "(2::nat) ^ 64 - u64 b + b = 2 ^ 64 + b div 2 ^ 64 * 2 ^ 64"
  proof -
    have "b = u64 b + b div 2 ^ 64 * 2 ^ 64" by (simp add: u64_def)
    moreover have "u64 b \<le> 2 ^ 64" using u64_less [of b] by simp
    ultimately show ?thesis by linarith
  qed
  then have "a + b + ((2::nat) ^ 64 - u64 b) = a + (1 + b div 2 ^ 64) * 2 ^ 64" by simp
  then have "u64 (a + b + (2 ^ 64 - u64 b)) = u64 a" by (simp only: u64_def mod_mult_self1)
  then show ?thesis by (simp only: u64_sub_def u64_add_left)
qed

lemma mw_wf_new [wf_intros, simp]: "mw_wf sz mw_new"
  by (simp add: mw_wf_def mw_new_def mw_total_def u64_def)

lemma mw_wf_clear [wf_intros, simp]: "mw_wf sz (mw_clear m)"
  by (simp add: mw_wf_def mw_clear_def mw_total_def u64_def)

lemma mw_wf_emplace [wf_intros]:
  "mw_wf sz m \<Longrightarrow> mw_map m k = None \<Longrightarrow> mw_wf sz (mw_emplace sz m k v)"
  by (auto simp: mw_wf_def mw_emplace_def mw_total_upd u64_add_left)

lemma mw_wf_erase [wf_intros]:
  assumes "mw_wf sz m"
  shows "mw_wf sz (mw_erase sz m k)"
proof (cases "mw_map m k")
  case (Some v)
  let ?r = "(mw_map m)(k := None)"
  have "mw_total sz (?r(k \<mapsto> v)) = mw_total sz ?r + sz v"
    using assms by (intro mw_total_upd) (auto simp: mw_wf_def)
  moreover have "?r(k \<mapsto> v) = mw_map m" using Some by auto
  ultimately have "mw_bytes m = u64 (mw_total sz ?r + sz v)" using assms by (simp add: mw_wf_def)
  moreover have "finite (dom (mw_map m))" using assms by (simp add: mw_wf_def)
  ultimately show ?thesis using Some by (simp add: mw_wf_def mw_erase_def u64_sub_u64_add)
qed (use assms in \<open>simp add: mw_erase_def\<close>)

lemma mw_map_simps [simp]:
  "mw_map mw_new = Map.empty"
  "mw_map (mw_clear m) = Map.empty"
  "mw_map (mw_emplace sz m k v) = (if mw_map m k = None then (mw_map m)(k \<mapsto> v) else mw_map m)"
  "mw_map (mw_erase sz m k) = (mw_map m)(k := None)"
  by (auto simp: mw_new_def mw_clear_def mw_emplace_def mw_erase_def split: option.splits)

section \<open>DefaultMap and Bucket\<close>

definition dm_index :: "'v \<Rightarrow> ('k \<rightharpoonup> 'v) \<Rightarrow> 'k \<Rightarrow> 'v \<times> ('k \<rightharpoonup> 'v)" where
  "dm_index dflt m k = (case m k of None \<Rightarrow> (dflt, m(k \<mapsto> dflt)) | Some v \<Rightarrow> (v, m))"

definition dm_const_index :: "('k \<rightharpoonup> 'v) \<Rightarrow> 'k \<Rightarrow> 'v res" where
  "dm_const_index m k = (case m k of None \<Rightarrow> Inl KeyError | Some v \<Rightarrow> Inr v)"

definition uset_insert :: "('a \<Rightarrow> 'a list \<Rightarrow> 'a list) \<Rightarrow> 'a \<Rightarrow> 'a list \<Rightarrow> 'a list" where
  "uset_insert ins x xs = (if x \<in> set xs then xs else ins x xs)"

definition uset_erase :: "'a \<Rightarrow> 'a list \<Rightarrow> 'a list" where
  "uset_erase x xs = filter (\<lambda>y. y \<noteq> x) xs"

definition placement :: "('a \<Rightarrow> 'a list \<Rightarrow> 'a list) \<Rightarrow> bool" where
  \<comment> \<open>what C++ promises of an insertion into an unordered set\<close>
  "placement ins \<longleftrightarrow> (\<forall>x xs. x \<notin> set xs \<longrightarrow> distinct xs \<longrightarrow> set (ins x xs) = insert x (set xs) \<and> distinct (ins x xs))"

lemma set_uset_insert:
  "placement ins \<Longrightarrow> distinct xs \<Longrightarrow> set (uset_insert ins x xs) = insert x (set xs)"
  by (auto simp: placement_def uset_insert_def)

lemma distinct_uset_insert: "placement ins \<Longrightarrow> distinct xs \<Longrightarrow> distinct (uset_insert ins x xs)"
  by (auto simp: placement_def uset_insert_def)

lemma set_uset_erase [simp]: "set (uset_erase x xs) = set xs - {x}"
  by (auto simp: uset_erase_def)

lemma distinct_uset_erase [simp]: "distinct xs \<Longrightarrow> distinct (uset_erase x xs)"
  by (simp add: uset_erase_def)

lemma placement_Cons: "placement (#)"
  by (simp add: placement_def)

record 'a bucket =
  bk_set :: "'a list"
  bk_index :: nat
  bk_capacity :: nat

definition bk_new :: "nat \<Rightarrow> nat \<Rightarrow> 'a bucket" where
  "bk_new capacity idx = \<lparr>bk_set = [], bk_index = idx, bk_capacity = capacity\<rparr>"

definition bk_is_full :: "'a bucket \<Rightarrow> bool" where
  "bk_is_full b \<longleftrightarrow> bk_capacity b \<le> length (bk_set b)"

definition bk_insert :: "('a \<Rightarrow> 'a list \<Rightarrow> 'a list) \<Rightarrow> 'a \<Rightarrow> 'a bucket \<Rightarrow> 'a bucket" where
  "bk_insert ins x b = b\<lparr>bk_set := uset_insert ins x (bk_set b)\<rparr>"

definition bk_erase :: "'a \<Rightarrow> 'a bucket \<Rightarrow> bool \<times> 'a bucket" where
  "bk_erase x b = (x \<in> set (bk_set b), b\<lparr>bk_set := uset_erase x (bk_set b)\<rparr>)"

definition bk_contains :: "'a \<Rightarrow> 'a bucket \<Rightarrow> bool" where
  "bk_contains x b \<longleftrightarrow> x \<in> set (bk_set b)"

definition bk_clear :: "'a bucket \<Rightarrow> 'a bucket" where
  "bk_clear b = b\<lparr>bk_set := []\<rparr>"

end
