(* ===== verification/BucketContainer.thy ===== *)
theory BucketContainer
  imports Containers
begin

text \<open>
  \<open>SafeBucketContainer\<close> of \<^verbatim>\<open>src/lib/libutils/utils/concurrency/safe_bucket_container.h\<close>: a set
  spread over buckets, read by several tasks while one thread writes. Writers never wait: what
  they do while somebody reads is queued and replayed by the last reader that leaves; readers
  wait for queued writes. Every operation holds the mutex from its first to its last statement
  (a waiting \<^verbatim>\<open>acquire_read\<close> aside), so an execution is a sequence of atomic steps.

  \<^verbatim>\<open>acquire_read\<close> is \<open>None\<close> in a state in which it waits. A container has at least one bucket
  (\<open>sbc_wf\<close>); without buckets every insertion is undefined behaviour and the model leaves the
  container alone.
\<close>

record 'a sbc =
  sbc_buckets :: "'a bucket list"
  sbc_to_add :: "'a list"
  sbc_to_remove :: "('a \<times> nat) list"
  sbc_readers :: nat
  sbc_current :: nat
  sbc_stop :: bool

definition sbc_new :: "nat \<Rightarrow> nat \<Rightarrow> 'a sbc" where
  "sbc_new bucket_capacity bucket_count =
     \<lparr>sbc_buckets = map (bk_new bucket_capacity) [0..<bucket_count], sbc_to_add = [], sbc_to_remove = [],
      sbc_readers = 0, sbc_current = 0, sbc_stop = False\<rparr>"

definition sbc_count :: "'a sbc \<Rightarrow> nat" where
  "sbc_count c = length (sbc_buckets c)"

definition is_reading :: "'a sbc \<Rightarrow> bool" where
  "is_reading c \<longleftrightarrow> 0 < sbc_readers c"

definition is_write_pending :: "'a sbc \<Rightarrow> bool" where
  "is_write_pending c \<longleftrightarrow> sbc_to_add c \<noteq> [] \<or> sbc_to_remove c \<noteq> []"

definition insert_index :: "'a sbc \<Rightarrow> nat" where
  "insert_index c =
     (if bk_is_full (sbc_buckets c ! sbc_current c)
      then (sbc_current c + 1) mod sbc_count c else sbc_current c)"

definition insert_to_container :: "('a \<Rightarrow> 'a list \<Rightarrow> 'a list) \<Rightarrow> 'a \<Rightarrow> 'a sbc \<Rightarrow> 'a sbc" where
  "insert_to_container ins x c =
     (if sbc_current c < sbc_count c then
        let cur = insert_index c
        in c\<lparr>sbc_current := cur, sbc_buckets := (sbc_buckets c)[cur := bk_insert ins x (sbc_buckets c ! cur)]\<rparr>
      else c)"

fun remove_first :: "'a \<Rightarrow> 'a bucket list \<Rightarrow> 'a bucket list" where
  "remove_first x [] = []"
| "remove_first x (b # bs) =
     (let (erased, b') = bk_erase x b in if erased then b' # bs else b' # remove_first x bs)"

definition remove_from_container :: "'a \<Rightarrow> 'a sbc \<Rightarrow> 'a sbc" where
  "remove_from_container x c = c\<lparr>sbc_buckets := remove_first x (sbc_buckets c)\<rparr>"

definition remove_pair :: "'a \<times> nat \<Rightarrow> 'a sbc \<Rightarrow> 'a sbc" where
  "remove_pair p c =
     (if snd p < sbc_count c
      then c\<lparr>sbc_buckets := (sbc_buckets c)[snd p := snd (bk_erase (fst p) (sbc_buckets c ! snd p))]\<rparr>
      else c)"

definition find_bucket :: "'a \<Rightarrow> 'a sbc \<Rightarrow> nat option" where
  "find_bucket x c = map_option bk_index (find (bk_contains x) (sbc_buckets c))"

definition acquire_read :: "'a sbc \<Rightarrow> 'a sbc option" where
  "acquire_read c =
     (if is_write_pending c \<and> \<not> sbc_stop c then None
      else Some (c\<lparr>sbc_readers := u32 (sbc_readers c + 1)\<rparr>))"

definition release_read :: "('a \<Rightarrow> 'a list \<Rightarrow> 'a list) \<Rightarrow> 'a sbc \<Rightarrow> 'a sbc" where
  "release_read ins c =
     (let c = c\<lparr>sbc_readers := u32 (sbc_readers c + (2 ^ 32 - 1))\<rparr>
      in if is_reading c then c
         else let c = fold (insert_to_container ins) (sbc_to_add c) c;
                  c = c\<lparr>sbc_to_add := []\<rparr>;
                  c = fold remove_pair (sbc_to_remove c) c
              in c\<lparr>sbc_to_remove := []\<rparr>)"

definition sbc_insert :: "('a \<Rightarrow> 'a list \<Rightarrow> 'a list) \<Rightarrow> 'a \<Rightarrow> 'a sbc \<Rightarrow> 'a sbc" where
  "sbc_insert ins x c =
     (if is_reading c then c\<lparr>sbc_to_add := sbc_to_add c @ [x]\<rparr> else insert_to_container ins x c)"

definition sbc_erase :: "'a \<Rightarrow> 'a sbc \<Rightarrow> 'a sbc" where
  "sbc_erase x c =
     (if is_reading c then
        (case find_bucket x c of
           None \<Rightarrow> c
         | Some idx \<Rightarrow> c\<lparr>sbc_to_remove := sbc_to_remove c @ [(x, idx)]\<rparr>)
      else remove_from_container x c)"

definition sbc_clear :: "'a sbc \<Rightarrow> 'a sbc" where
  "sbc_clear c =
     (if is_reading c then
        c\<lparr>sbc_to_remove := sbc_to_remove c @
           concat (map (\<lambda>b. map (\<lambda>x. (x, bk_index b)) (bk_set b)) (sbc_buckets c))\<rparr>
      else c\<lparr>sbc_buckets := map bk_clear (sbc_buckets c)\<rparr>)"

definition sbc_erase_if :: "('a \<Rightarrow> bool) \<Rightarrow> 'a sbc \<Rightarrow> 'a sbc res" where
  \<comment> \<open>outside a reading phase the element under the iterator is erased, and the loop steps from it\<close>
  "sbc_erase_if P c =
     (if is_reading c then
        Inr (c\<lparr>sbc_to_remove := sbc_to_remove c @
               concat (map (\<lambda>b. map (\<lambda>x. (x, bk_index b)) (filter P (bk_set b))) (sbc_buckets c))\<rparr>)
      else if list_ex (\<lambda>b. list_ex P (bk_set b)) (sbc_buckets c) then Inl MemFault else Inr c)"

definition sbc_size :: "'a sbc \<Rightarrow> nat" where
  "sbc_size c = sum_list (map (length \<circ> bk_set) (sbc_buckets c))"

definition sbc_stop_requested :: "'a sbc \<Rightarrow> 'a sbc" where
  "sbc_stop_requested c = c\<lparr>sbc_stop := True\<rparr>"

section \<open>Contents and invariant\<close>

definition sbc_elems :: "'a sbc \<Rightarrow> 'a set" where
  "sbc_elems c = (\<Union>b \<in> set (sbc_buckets c). set (bk_set b))"

definition sbc_wf :: "'a sbc \<Rightarrow> bool" where
  "sbc_wf c \<longleftrightarrow>
     sbc_current c < sbc_count c \<and>
     (\<forall>i < sbc_count c. bk_index (sbc_buckets c ! i) = i \<and> distinct (bk_set (sbc_buckets c ! i))) \<and>
     (\<forall>i < sbc_count c. \<forall>j < sbc_count c. i \<noteq> j \<longrightarrow>
        set (bk_set (sbc_buckets c ! i)) \<inter> set (bk_set (sbc_buckets c ! j)) = {})"

lemma sbc_elems_UN: "sbc_elems c = (\<Union>i < sbc_count c. set (bk_set (sbc_buckets c ! i)))"
proof -
  have "set (sbc_buckets c) = (\<lambda>i. sbc_buckets c ! i) ` {..<sbc_count c}"
    by (auto simp: sbc_count_def in_set_conv_nth)
  then show ?thesis by (simp add: sbc_elems_def)
qed

lemma sbc_elems_nth: "x \<in> sbc_elems c \<longleftrightarrow> (\<exists>i < sbc_count c. x \<in> set (bk_set (sbc_buckets c ! i)))"
  by (auto simp: sbc_elems_UN)

lemma UN_insert_at:
  fixes n :: nat
  assumes "j < n"
  shows "(\<Union>i < n. if i = j then insert x (F i) else F i) = insert x (\<Union>i < n. F i)"
proof (rule set_eqI)
  show "y \<in> (\<Union>i < n. if i = j then insert x (F i) else F i) \<longleftrightarrow> y \<in> insert x (\<Union>i < n. F i)" for y
    using assms by (cases "y = x") (auto split: if_splits)
qed

lemma sbc_wf_new [wf_intros]: "0 < n \<Longrightarrow> sbc_wf (sbc_new cap n)"
  by (simp add: sbc_wf_def sbc_new_def sbc_count_def bk_new_def)

lemma sbc_elems_new [simp]: "sbc_elems (sbc_new cap n) = {}"
  by (auto simp: sbc_elems_def sbc_new_def bk_new_def)

lemma bk_simps [simp]:
  "bk_index (bk_insert ins x b) = bk_index b" "bk_index (snd (bk_erase x b)) = bk_index b"
  "bk_set (bk_insert ins x b) = uset_insert ins x (bk_set b)"
  "bk_set (snd (bk_erase x b)) = uset_erase x (bk_set b)"
  "bk_set (bk_clear b) = []" "bk_index (bk_clear b) = bk_index b"
  by (simp_all add: bk_insert_def bk_erase_def bk_clear_def)

lemma insert_to_container_frame [simp]:
  "sbc_to_add (insert_to_container ins x c) = sbc_to_add c"
  "sbc_to_remove (insert_to_container ins x c) = sbc_to_remove c"
  "sbc_readers (insert_to_container ins x c) = sbc_readers c"
  "sbc_count (insert_to_container ins x c) = sbc_count c"
  by (simp_all add: insert_to_container_def sbc_count_def Let_def)

lemma remove_pair_frame [simp]:
  "sbc_to_add (remove_pair p c) = sbc_to_add c"
  "sbc_to_remove (remove_pair p c) = sbc_to_remove c"
  "sbc_readers (remove_pair p c) = sbc_readers c"
  "sbc_count (remove_pair p c) = sbc_count c"
  by (simp_all add: remove_pair_def sbc_count_def)

lemma insert_to_container_nth:
  assumes "sbc_wf c" and "i < sbc_count c"
  shows "sbc_buckets (insert_to_container ins x c) ! i =
    (if i = insert_index c then bk_insert ins x (sbc_buckets c ! i) else sbc_buckets c ! i)"
  using assms by (simp add: insert_to_container_def sbc_wf_def Let_def sbc_count_def nth_list_update)

lemma insert_index_less: "sbc_wf c \<Longrightarrow> insert_index c < sbc_count c"
  by (auto simp: insert_index_def sbc_wf_def)

text \<open>Insertion of an element that is nowhere yet adds exactly it.\<close>

lemma insert_to_container_spec:
  assumes c: "sbc_wf c" and ins: "placement ins" and fresh: "x \<notin> sbc_elems c"
  shows "sbc_wf (insert_to_container ins x c)" "sbc_elems (insert_to_container ins x c) = insert x (sbc_elems c)"
proof -
  let ?c' = "insert_to_container ins x c" and ?cur = "insert_index c"
  note cur = insert_index_less [OF c] and nth = insert_to_container_nth [OF c]
  have fr: "x \<notin> set (bk_set (sbc_buckets c ! i))" if "i < sbc_count c" for i
    using fresh that by (auto simp: sbc_elems_nth)
  have set: "set (bk_set (sbc_buckets ?c' ! i)) =
      (if i = ?cur then insert x (set (bk_set (sbc_buckets c ! i))) else set (bk_set (sbc_buckets c ! i)))"
    if "i < sbc_count c" for i
    using that c ins by (simp add: nth set_uset_insert sbc_wf_def)
  have "sbc_current ?c' = ?cur" using c by (simp add: insert_to_container_def sbc_wf_def Let_def)
  then show "sbc_wf ?c'"
    using c cur ins fr
    by (simp add: sbc_wf_def set) (auto simp: nth distinct_uset_insert)
  show "sbc_elems ?c' = insert x (sbc_elems c)"
    using UN_insert_at [OF cur, of x "\<lambda>i. set (bk_set (sbc_buckets c ! i))"] set by (simp add: sbc_elems_UN)
qed

lemma remove_pair_spec:
  assumes c: "sbc_wf c"
  shows "sbc_wf (remove_pair p c)"
    and "\<lbrakk>i < sbc_count c; x \<in> set (bk_set (sbc_buckets c ! i))\<rbrakk> \<Longrightarrow>
      sbc_elems (remove_pair (x, i) c) = sbc_elems c - {x}"
proof -
  have nth: "sbc_buckets (remove_pair p c) ! i =
      (if i = snd p then snd (bk_erase (fst p) (sbc_buckets c ! i)) else sbc_buckets c ! i)"
    if "i < sbc_count c" for i p
    using that by (simp add: remove_pair_def sbc_count_def nth_list_update)
  have cur: "sbc_current (remove_pair p c) = sbc_current c" for p by (simp add: remove_pair_def)
  show "sbc_wf (remove_pair p c)"
    using c by (simp add: sbc_wf_def cur nth) blast
  assume i: "i < sbc_count c" "x \<in> set (bk_set (sbc_buckets c ! i))"
  have "set (bk_set (sbc_buckets (remove_pair (x, i) c) ! j)) = set (bk_set (sbc_buckets c ! j)) - {x}"
    if j: "j < sbc_count c" for j
  proof (cases "j = i")
    case False
    then have "x \<notin> set (bk_set (sbc_buckets c ! j))" using c i j unfolding sbc_wf_def by blast
    with False j show ?thesis by (simp add: nth)
  qed (use j in \<open>simp add: nth\<close>)
  then show "sbc_elems (remove_pair (x, i) c) = sbc_elems c - {x}" by (simp add: sbc_elems_UN)
qed

lemma uset_erase_absent: "x \<notin> set xs \<Longrightarrow> uset_erase x xs = xs"
  by (auto simp: uset_erase_def filter_id_conv)

lemma bk_erase_absent: "x \<notin> set (bk_set b) \<Longrightarrow> snd (bk_erase x b) = b"
  by (simp add: bk_erase_def uset_erase_absent)

lemma remove_first_eq_map:
  assumes "sorted_wrt (\<lambda>a b. set (bk_set a) \<inter> set (bk_set b) = {}) bs"
  shows "remove_first x bs = map (\<lambda>b. snd (bk_erase x b)) bs"
  using assms
proof (induction bs)
  case (Cons b bs)
  show ?case
  proof (cases "x \<in> set (bk_set b)")
    case True
    then have "map (\<lambda>b. snd (bk_erase x b)) bs = bs"
      using Cons.prems by (intro map_idI) (auto intro!: bk_erase_absent)
    with True show ?thesis by (simp add: bk_erase_def)
  next
    case False
    then show ?thesis using Cons by (simp add: bk_erase_def)
  qed
qed simp

lemma remove_from_container_spec:
  assumes c: "sbc_wf c"
  shows "sbc_wf (remove_from_container x c)" "sbc_elems (remove_from_container x c) = sbc_elems c - {x}"
proof -
  have "sorted_wrt (\<lambda>a b. set (bk_set a) \<inter> set (bk_set b) = {}) (sbc_buckets c)"
    using c by (auto simp: sorted_wrt_iff_nth_less sbc_wf_def sbc_count_def)
  then have eq: "sbc_buckets (remove_from_container x c) = map (\<lambda>b. snd (bk_erase x b)) (sbc_buckets c)"
    by (simp add: remove_from_container_def remove_first_eq_map)
  have cur: "sbc_current (remove_from_container x c) = sbc_current c" by (simp add: remove_from_container_def)
  show "sbc_wf (remove_from_container x c)"
    using c by (simp add: sbc_wf_def sbc_count_def eq cur) blast
  show "sbc_elems (remove_from_container x c) = sbc_elems c - {x}"
    by (simp add: sbc_elems_def eq)
qed

lemma find_bucket_spec:
  assumes c: "sbc_wf c"
  shows "find_bucket x c = None \<Longrightarrow> x \<notin> sbc_elems c"
    and "find_bucket x c = Some i \<Longrightarrow> i < sbc_count c \<and> x \<in> set (bk_set (sbc_buckets c ! i))"
proof -
  assume "find_bucket x c = None"
  then show "x \<notin> sbc_elems c" by (auto simp: find_bucket_def find_None_iff bk_contains_def sbc_elems_def)
next
  assume "find_bucket x c = Some i"
  then obtain b where b: "find (bk_contains x) (sbc_buckets c) = Some b" "bk_index b = i"
    by (auto simp: find_bucket_def)
  then obtain j where "j < sbc_count c" "sbc_buckets c ! j = b" "bk_contains x b"
    by (auto simp: find_Some_iff sbc_count_def)
  moreover then have "bk_index b = j" using c by (auto simp: sbc_wf_def)
  ultimately show "i < sbc_count c \<and> x \<in> set (bk_set (sbc_buckets c ! i))"
    using b by (simp add: bk_contains_def)
qed

section \<open>Steps\<close>

datatype 'a sbc_op = Acquire | Release | Insert 'a | Erase 'a | EraseIf "'a \<Rightarrow> bool" | Clear | Stop

fun sbc_apply :: "('a \<Rightarrow> 'a list \<Rightarrow> 'a list) \<Rightarrow> 'a sbc_op \<Rightarrow> 'a sbc \<Rightarrow> 'a sbc option" where
  "sbc_apply ins Acquire c = acquire_read c"
| "sbc_apply ins Release c = (if is_reading c then Some (release_read ins c) else None)"
| "sbc_apply ins (Insert x) c = Some (sbc_insert ins x c)"
| "sbc_apply ins (Erase x) c = Some (sbc_erase x c)"
| "sbc_apply ins (EraseIf P) c = (case sbc_erase_if P c of Inl _ \<Rightarrow> None | Inr c' \<Rightarrow> Some c')"
| "sbc_apply ins Clear c = Some (sbc_clear c)"
| "sbc_apply ins Stop c = Some (sbc_stop_requested c)"

text \<open>
  An execution: readers release what they acquired, and fewer than \<open>2 ^ 32\<close> read at a time.
  A removal by a predicate that erases under its own iterator is undefined behaviour and ends the execution.
\<close>

inductive sbc_step :: "('a \<Rightarrow> 'a list \<Rightarrow> 'a list) \<Rightarrow> 'a sbc \<Rightarrow> 'a sbc \<Rightarrow> bool" for ins where
  step: "sbc_apply ins op c = Some c' \<Longrightarrow> sbc_readers c < 2 ^ 32 - 1 \<Longrightarrow> sbc_step ins c c'"

inductive sbc_reachable :: "('a \<Rightarrow> 'a list \<Rightarrow> 'a list) \<Rightarrow> nat \<Rightarrow> nat \<Rightarrow> 'a sbc \<Rightarrow> bool"
  for ins cap n where
  start: "sbc_reachable ins cap n (sbc_new cap n)"
| next_step: "sbc_reachable ins cap n c \<Longrightarrow> sbc_step ins c c' \<Longrightarrow> sbc_reachable ins cap n c'"

inductive_simps sbc_step_iff: "sbc_step ins c c'"

lemma fold_insert_frame [simp]:
  "sbc_to_add (fold (insert_to_container ins) xs c) = sbc_to_add c"
  "sbc_to_remove (fold (insert_to_container ins) xs c) = sbc_to_remove c"
  "sbc_readers (fold (insert_to_container ins) xs c) = sbc_readers c"
  "sbc_count (fold (insert_to_container ins) xs c) = sbc_count c"
  by (induction xs arbitrary: c) auto

lemma fold_remove_frame [simp]:
  "sbc_to_add (fold remove_pair ps c) = sbc_to_add c"
  "sbc_to_remove (fold remove_pair ps c) = sbc_to_remove c"
  "sbc_readers (fold remove_pair ps c) = sbc_readers c"
  "sbc_count (fold remove_pair ps c) = sbc_count c"
  by (induction ps arbitrary: c) auto

lemma u32_pred: "0 < n \<Longrightarrow> n < 2 ^ 32 \<Longrightarrow> u32 (n + (2 ^ 32 - 1)) = n - 1"
proof -
  assume n: "0 < n" "n < 2 ^ 32"
  have "n + (2 ^ 32 - 1) = (n - 1) + 2 ^ 32" using n(1) by simp
  then have "u32 (n + (2 ^ 32 - 1)) = ((n - 1) + 2 ^ 32) mod 2 ^ 32" by (simp only: u32_def)
  also have "\<dots> = n - 1" using n(2) by (simp only: mod_add_self2) simp
  finally show ?thesis .
qed

lemma release_read_frame:
  assumes "0 < sbc_readers c" and "sbc_readers c < 2 ^ 32"
  shows "sbc_readers (release_read ins c) = sbc_readers c - 1"
    and "sbc_readers c = 1 \<Longrightarrow> \<not> is_write_pending (release_read ins c)"
    and "sbc_readers c \<noteq> 1 \<Longrightarrow> release_read ins c = c\<lparr>sbc_readers := sbc_readers c - 1\<rparr>"
  using assms u32_pred [OF assms]
  by (auto simp: release_read_def Let_def is_reading_def is_write_pending_def simp del: u32_def)

definition sbc_inv :: "'a sbc \<Rightarrow> bool" where
  "sbc_inv c \<longleftrightarrow> sbc_readers c < 2 ^ 32 \<and> (is_write_pending c \<longrightarrow> is_reading c)"

lemma sbc_inv_step:
  assumes "sbc_step ins c c'" and "sbc_inv c"
  shows "sbc_inv c'"
proof -
  obtain op where op: "sbc_apply ins op c = Some c'" "sbc_readers c < 2 ^ 32 - 1"
    using assms(1) by (auto simp: sbc_step_iff)
  show ?thesis
  proof (cases op)
    case Release
    then have r: "0 < sbc_readers c" "sbc_readers c < 2 ^ 32" and c': "c' = release_read ins c"
      using op by (auto simp: is_reading_def split: if_splits)
    have "is_write_pending c' \<longrightarrow> is_reading c'"
      using release_read_frame(1,2) [OF r, of ins] r(1) c'
      by (cases "sbc_readers c = 1") (auto simp: is_reading_def)
    then show ?thesis using release_read_frame(1) [OF r, of ins] r c' by (simp add: sbc_inv_def)
  qed (use op assms(2) in \<open>auto simp: sbc_inv_def acquire_read_def is_reading_def is_write_pending_def u32_id
      sbc_insert_def sbc_erase_def sbc_erase_if_def sbc_clear_def sbc_stop_requested_def remove_from_container_def
      split: if_splits option.splits sum.splits\<close>)
qed

text \<open>
  In every reachable state writes are queued only while somebody reads, so a reader that
  arrives when nobody reads is never made to wait.
\<close>

theorem sbc_no_pending_when_idle:
  assumes "sbc_reachable ins cap n c" and "\<not> is_reading c"
  shows "\<not> is_write_pending c \<and> acquire_read c \<noteq> None"
proof -
  have "sbc_inv c" using assms(1)
  proof (induction rule: sbc_reachable.induct)
    case start
    then show ?case by (simp add: sbc_inv_def sbc_new_def is_write_pending_def)
  qed (rule sbc_inv_step)
  then show ?thesis using assms(2) by (auto simp: sbc_inv_def acquire_read_def)
qed

text \<open>
  C25: as long as a reader is active, no step of any thread, the removal by a predicate included, changes
  what the readers iterate over.
\<close>

theorem sbc_snapshot:
  assumes "sbc_step ins c c'" and "is_reading c" and "is_reading c'"
  shows "sbc_buckets c' = sbc_buckets c"
proof -
  obtain op where op: "sbc_apply ins op c = Some c'" "sbc_readers c < 2 ^ 32 - 1"
    using assms(1) by (auto simp: sbc_step_iff)
  show ?thesis
  proof (cases op)
    case Release
    then have r: "0 < sbc_readers c" "sbc_readers c < 2 ^ 32" and c': "c' = release_read ins c"
      using op by (auto simp: is_reading_def split: if_splits)
    have "sbc_readers c \<noteq> 1" using assms(3) release_read_frame(1) [OF r, of ins] c' by (auto simp: is_reading_def)
    then show ?thesis using release_read_frame(3) [OF r] c' by simp
  qed (use op assms(2) in \<open>auto simp: acquire_read_def sbc_insert_def sbc_erase_def sbc_erase_if_def sbc_clear_def
      sbc_stop_requested_def split: if_splits option.splits sum.splits\<close>)
qed

section \<open>Queued writes against immediate ones\<close>

fun sbc_write :: "('a \<Rightarrow> 'a list \<Rightarrow> 'a list) \<Rightarrow> 'a \<times> bool \<Rightarrow> 'a sbc \<Rightarrow> 'a sbc" where
  "sbc_write ins (x, True) c = sbc_insert ins x c"
| "sbc_write ins (x, False) c = sbc_erase x c"

fun set_write :: "'a \<times> bool \<Rightarrow> 'a set \<Rightarrow> 'a set" where
  "set_write (x, True) S = insert x S"
| "set_write (x, False) S = S - {x}"

lemma sbc_write_idle:
  assumes "sbc_wf c" and "\<not> is_reading c" and "placement ins" and "snd w \<Longrightarrow> fst w \<notin> sbc_elems c"
  shows "sbc_wf (sbc_write ins w c) \<and> sbc_elems (sbc_write ins w c) = set_write w (sbc_elems c)"
  using assms insert_to_container_spec [of c ins "fst w"] remove_from_container_spec [of c "fst w"]
  by (cases w; cases "snd w") (auto simp: sbc_insert_def sbc_erase_def)

text \<open>What a sequence of writes queues while somebody reads.\<close>

definition queued_removals :: "'a sbc \<Rightarrow> ('a \<times> bool) list \<Rightarrow> ('a \<times> nat) list \<Rightarrow> bool" where
  "queued_removals c ws rems \<longleftrightarrow>
     map fst rems = filter (\<lambda>x. x \<in> sbc_elems c) (map fst (filter (\<lambda>w. \<not> snd w) ws)) \<and>
     (\<forall>p \<in> set rems. snd p < sbc_count c \<and> fst p \<in> set (bk_set (sbc_buckets c ! snd p)))"

lemma fold_write_reading:
  assumes c: "sbc_wf c" "is_reading c" "\<not> is_write_pending c"
  shows "\<exists>rems. fold (sbc_write ins) ws c =
      c\<lparr>sbc_to_add := map fst (filter snd ws), sbc_to_remove := rems\<rparr> \<and> queued_removals c ws rems"
proof (induction ws rule: rev_induct)
  case Nil
  have "c = c\<lparr>sbc_to_add := [], sbc_to_remove := []\<rparr>" using c(3) by (simp add: is_write_pending_def)
  then show ?case by (intro exI [of _ "[]"]) (simp add: queued_removals_def)
next
  case (snoc w ws)
  then obtain rems where rems: "queued_removals c ws rems"
    and eq: "fold (sbc_write ins) ws c = c\<lparr>sbc_to_add := map fst (filter snd ws), sbc_to_remove := rems\<rparr>"
    (is "_ = ?c1") by blast
  have r: "is_reading ?c1" using c(2) by (simp add: is_reading_def)
  have fb: "find_bucket x ?c1 = find_bucket x c" for x by (simp add: find_bucket_def)
  obtain x b where w: "w = (x, b)" by (cases w)
  show ?case
  proof (cases "b \<or> find_bucket x c = None")
    case True
    moreover have "x \<notin> sbc_elems c" if "find_bucket x c = None" using find_bucket_spec(1) [OF c(1) that] .
    ultimately show ?thesis
      using rems r by (intro exI [of _ rems], cases b) (auto simp: eq w sbc_insert_def sbc_erase_def fb queued_removals_def)
  next
    case False
    then obtain i where i: "find_bucket x c = Some i" by auto
    then have "i < sbc_count c" "x \<in> set (bk_set (sbc_buckets c ! i))"
      using find_bucket_spec(2) [OF c(1)] by auto
    moreover then have "x \<in> sbc_elems c" by (auto simp: sbc_elems_nth)
    ultimately show ?thesis
      using False rems r i
      by (intro exI [of _ "rems @ [(x, i)]"]) (auto simp: eq w sbc_erase_def fb queued_removals_def)
  qed
qed

lemma fold_insert_fresh:
  assumes "sbc_wf c" and "placement ins" and "distinct xs" and "set xs \<inter> sbc_elems c = {}"
  shows "sbc_wf (fold (insert_to_container ins) xs c) \<and>
    sbc_elems (fold (insert_to_container ins) xs c) = sbc_elems c \<union> set xs \<and>
    (\<forall>i < sbc_count c. set (bk_set (sbc_buckets c ! i)) \<subseteq> set (bk_set (sbc_buckets (fold (insert_to_container ins) xs c) ! i)))"
  using assms
proof (induction xs arbitrary: c)
  case (Cons x xs)
  let ?c = "insert_to_container ins x c"
  have fresh: "x \<notin> sbc_elems c" using Cons.prems(4) by simp
  note spec = insert_to_container_spec [OF Cons.prems(1,2) fresh]
  have mono: "set (bk_set (sbc_buckets c ! i)) \<subseteq> set (bk_set (sbc_buckets ?c ! i))" if "i < sbc_count c" for i
  proof -
    have "distinct (bk_set (sbc_buckets c ! i))" using Cons.prems(1) that by (simp add: sbc_wf_def)
    then have "set (uset_insert ins x (bk_set (sbc_buckets c ! i))) = insert x (set (bk_set (sbc_buckets c ! i)))"
      by (rule set_uset_insert [OF Cons.prems(2)])
    then show ?thesis using that by (auto simp: insert_to_container_nth [OF Cons.prems(1)])
  qed
  have "set xs \<inter> sbc_elems ?c = {}" using Cons.prems(3,4) spec(2) by auto
  then have "sbc_wf (fold (insert_to_container ins) xs ?c) \<and>
    sbc_elems (fold (insert_to_container ins) xs ?c) = sbc_elems ?c \<union> set xs \<and>
    (\<forall>i < sbc_count ?c. set (bk_set (sbc_buckets ?c ! i)) \<subseteq> set (bk_set (sbc_buckets (fold (insert_to_container ins) xs ?c) ! i)))"
    using Cons.prems(2,3) spec(1) by (intro Cons.IH) auto
  then show ?case using spec(2) mono by fastforce
qed simp

lemma fold_remove_present:
  assumes "sbc_wf c" and "distinct (map fst ps)"
    and "\<forall>p \<in> set ps. snd p < sbc_count c \<and> fst p \<in> set (bk_set (sbc_buckets c ! snd p))"
  shows "sbc_wf (fold remove_pair ps c) \<and> sbc_elems (fold remove_pair ps c) = sbc_elems c - fst ` set ps"
  using assms
proof (induction ps arbitrary: c)
  case (Cons p ps)
  let ?c = "remove_pair p c"
  have p: "snd p < sbc_count c" "fst p \<in> set (bk_set (sbc_buckets c ! snd p))" using Cons.prems(3) by auto
  have spec: "sbc_wf ?c" "sbc_elems ?c = sbc_elems c - {fst p}"
    using remove_pair_spec(1) [OF Cons.prems(1)] remove_pair_spec(2) [OF Cons.prems(1) p] by simp_all
  have "\<forall>q \<in> set ps. snd q < sbc_count ?c \<and> fst q \<in> set (bk_set (sbc_buckets ?c ! snd q))"
  proof
    fix q assume q: "q \<in> set ps"
    then have "fst q \<noteq> fst p" using Cons.prems(2) by (auto simp: image_iff)
    with q Cons.prems(3) show "snd q < sbc_count ?c \<and> fst q \<in> set (bk_set (sbc_buckets ?c ! snd q))"
      by (auto simp: remove_pair_def sbc_count_def nth_list_update)
  qed
  then have "sbc_wf (fold remove_pair ps ?c) \<and> sbc_elems (fold remove_pair ps ?c) = sbc_elems ?c - fst ` set ps"
    using Cons.prems(2) spec(1) by (intro Cons.IH) auto
  then show ?case using spec(2) by auto
qed simp

lemma fold_set_write:
  "distinct (map fst ws) \<Longrightarrow>
   fold set_write ws S = (S \<union> fst ` set (filter snd ws)) - fst ` set (filter (\<lambda>w. \<not> snd w) ws)"
proof (induction ws arbitrary: S)
  case (Cons w ws)
  have "fst w \<notin> fst ` set (filter (\<lambda>w. \<not> snd w) ws)" "fst w \<notin> fst ` set (filter snd ws)"
    using Cons.prems by auto
  then show ?case using Cons by (cases w; cases "snd w") auto
qed simp

lemma diff_present: "D \<inter> A = {} \<Longrightarrow> (S \<union> A) - {x \<in> D. x \<in> S} = (S \<union> A) - D"
  by blast

lemma release_last:
  assumes "sbc_readers c = 1"
  shows "release_read ins (c\<lparr>sbc_to_add := adds, sbc_to_remove := rems\<rparr>) =
    (fold remove_pair rems ((fold (insert_to_container ins) adds (c\<lparr>sbc_to_add := adds,
       sbc_to_remove := rems, sbc_readers := 0\<rparr>))\<lparr>sbc_to_add := []\<rparr>))\<lparr>sbc_to_remove := []\<rparr>"
  using assms u32_pred [of 1] by (simp add: release_read_def Let_def is_reading_def)

text \<open>
  C26: a write that arrives while a reader is active has, once the last reader has left, the
  effect it would have had at once, provided the writes of the phase are about different
  elements and only absent elements are inserted.
\<close>

theorem deferred_writes_match_immediate:
  assumes c: "sbc_wf c" "sbc_readers c = 1" "\<not> is_write_pending c"
    and ins: "placement ins"
    and ws: "distinct (map fst ws)" "\<forall>w \<in> set ws. snd w \<longrightarrow> fst w \<notin> sbc_elems c"
  shows "sbc_wf (release_read ins (fold (sbc_write ins) ws c)) \<and>
    \<not> is_reading (release_read ins (fold (sbc_write ins) ws c)) \<and>
    \<not> is_write_pending (release_read ins (fold (sbc_write ins) ws c)) \<and>
    sbc_elems (release_read ins (fold (sbc_write ins) ws c)) = fold set_write ws (sbc_elems c)"
proof -
  let ?adds = "map fst (filter snd ws)" and ?dels = "map fst (filter (\<lambda>w. \<not> snd w) ws)"
  have "is_reading c" using c(2) by (simp add: is_reading_def)
  then obtain rems where eq: "fold (sbc_write ins) ws c = c\<lparr>sbc_to_add := ?adds, sbc_to_remove := rems\<rparr>"
    and rems: "queued_removals c ws rems" using fold_write_reading [of c ins ws] c by blast
  define c0 where "c0 = c\<lparr>sbc_to_add := ?adds, sbc_to_remove := rems, sbc_readers := 0\<rparr>"
  define c1 where "c1 = (fold (insert_to_container ins) ?adds c0)\<lparr>sbc_to_add := []\<rparr>"
  define c2 where "c2 = fold remove_pair rems c1"
  have same: "sbc_wf c0 = sbc_wf c" "sbc_elems c0 = sbc_elems c" "sbc_count c0 = sbc_count c" "sbc_buckets c0 = sbc_buckets c"
    by (simp_all add: c0_def sbc_wf_def sbc_elems_def sbc_count_def)
  have da: "distinct ?adds" and dd: "distinct ?dels" using ws(1) by (simp_all add: distinct_map_filter)
  have "set ?adds \<inter> sbc_elems c0 = {}" using ws(2) same by auto
  then have "sbc_wf (fold (insert_to_container ins) ?adds c0) \<and>
      sbc_elems (fold (insert_to_container ins) ?adds c0) = sbc_elems c0 \<union> set ?adds \<and>
      (\<forall>i < sbc_count c0. set (bk_set (sbc_buckets c0 ! i)) \<subseteq> set (bk_set (sbc_buckets (fold (insert_to_container ins) ?adds c0) ! i)))"
    using fold_insert_fresh [of c0 ins ?adds] c(1) ins da same by blast
  then have c1: "sbc_wf c1" "sbc_elems c1 = sbc_elems c \<union> set ?adds" "sbc_count c1 = sbc_count c"
    "\<forall>i < sbc_count c. set (bk_set (sbc_buckets c ! i)) \<subseteq> set (bk_set (sbc_buckets c1 ! i))"
    using same fold_insert_frame(4) [of ins ?adds c0]
    by (simp_all add: c1_def sbc_wf_def sbc_elems_def sbc_count_def)
  have pres: "\<forall>p \<in> set rems. snd p < sbc_count c1 \<and> fst p \<in> set (bk_set (sbc_buckets c1 ! snd p))"
    using rems c1(3,4) unfolding queued_removals_def by fastforce
  have fr: "map fst rems = filter (\<lambda>x. x \<in> sbc_elems c) ?dels" using rems by (simp add: queued_removals_def)
  then have "distinct (map fst rems)" using dd by simp
  then have c2: "sbc_wf c2" "sbc_elems c2 = sbc_elems c1 - fst ` set rems"
    using fold_remove_present [OF c1(1) _ pres] by (simp_all add: c2_def)
  have frs: "fst ` set rems = {x \<in> set ?dels. x \<in> sbc_elems c}" using arg_cong [OF fr, of set] by auto
  have "set ?dels \<inter> set ?adds = {}" using ws(1) by (auto dest: eq_key_imp_eq_value)
  then have "sbc_elems c2 = (sbc_elems c \<union> set ?adds) - set ?dels"
    unfolding c2(2) c1(2) frs by (rule diff_present)
  then have "sbc_elems c2 = fold set_write ws (sbc_elems c)" using ws(1) by (simp add: fold_set_write)
  moreover have "release_read ins (fold (sbc_write ins) ws c) = c2\<lparr>sbc_to_remove := []\<rparr>"
    using release_last [OF c(2)] by (simp add: eq c2_def c1_def c0_def)
  moreover have "sbc_readers c2 = 0" "sbc_to_add c2 = []" by (simp_all add: c2_def c1_def c0_def)
  ultimately show ?thesis using c2(1)
    by (simp add: is_reading_def is_write_pending_def sbc_wf_def sbc_elems_def sbc_count_def)
qed

text \<open>
  An erasure that follows the insertion of the same element in one reading phase is lost: the
  element is in no bucket yet, nothing is queued for it, and the queued insertion then stays.
\<close>

theorem erase_of_queued_insert_is_lost:
  assumes c: "sbc_wf c" "sbc_readers c = 1" "\<not> is_write_pending c"
    and ins: "placement ins" and x: "x \<notin> sbc_elems c"
  shows "x \<in> sbc_elems (release_read ins (sbc_erase x (sbc_insert ins x c)))"
proof -
  have r: "is_reading c" using c(2) by (simp add: is_reading_def)
  have fb: "find_bucket x c = None"
    using find_bucket_spec(2) [OF c(1), of x] x by (cases "find_bucket x c") (auto simp: sbc_elems_nth)
  have p: "sbc_to_add c = []" "sbc_to_remove c = []" using c(3) by (auto simp: is_write_pending_def)
  have "sbc_erase x (sbc_insert ins x c) = c\<lparr>sbc_to_add := [x], sbc_to_remove := []\<rparr>"
    using r fb p by (simp add: sbc_insert_def sbc_erase_def is_reading_def find_bucket_def)
  moreover define c0 where "c0 = c\<lparr>sbc_to_add := [x], sbc_to_remove := [], sbc_readers := 0\<rparr>"
  moreover have "sbc_wf c0" "x \<notin> sbc_elems c0" using c(1) x by (simp_all add: c0_def sbc_wf_def sbc_elems_def sbc_count_def)
  then have "x \<in> sbc_elems (insert_to_container ins x c0)" using insert_to_container_spec(2) [of c0 ins x] ins by simp
  ultimately show ?thesis using release_last [OF c(2), where adds = "[x]" and rems = "[]"] by (simp add: sbc_elems_def)
qed

text \<open>A container of two one-element buckets, in use below as the concrete instance.\<close>

definition sbc_example :: "nat sbc" where
  "sbc_example = (insert_to_container (#) 7 (sbc_new 1 2))\<lparr>sbc_readers := 1\<rparr>"

lemma sbc_example_facts:
  "sbc_wf sbc_example" "sbc_readers sbc_example = 1" "\<not> is_write_pending sbc_example" "sbc_elems sbc_example = {7}"
proof -
  have "sbc_wf (insert_to_container (#) (7 :: nat) (sbc_new 1 2))"
    "sbc_elems (insert_to_container (#) (7 :: nat) (sbc_new 1 2)) = {7}"
    using insert_to_container_spec [of "sbc_new 1 2" "(#)" 7] sbc_wf_new [of 2 1] placement_Cons by auto
  then show "sbc_wf sbc_example" "sbc_elems sbc_example = {7}"
    by (simp_all add: sbc_example_def sbc_wf_def sbc_elems_def sbc_count_def)
  show "sbc_readers sbc_example = 1" "\<not> is_write_pending sbc_example"
    by (simp_all add: sbc_example_def is_write_pending_def sbc_new_def)
qed

theorem deferred_writes_match_immediate_witness:
  "sbc_elems (release_read (#) (fold (sbc_write (#)) [(5, True), (7, False), (9, True)] sbc_example)) = {5, 9}"
  using deferred_writes_match_immediate [of sbc_example "(#)" "[(5, True), (7, False), (9, True)]"]
    sbc_example_facts placement_Cons by auto

theorem erase_of_queued_insert_is_lost_witness:
  "5 \<in> sbc_elems (release_read (#) (sbc_erase 5 (sbc_insert (#) 5 sbc_example)))"
  using erase_of_queued_insert_is_lost [of sbc_example "(#)" 5] sbc_example_facts placement_Cons by simp

theorem sbc_no_pending_when_idle_witness:
  "sbc_reachable (#) 1 2 (sbc_new 1 2 :: nat sbc) \<and> acquire_read (sbc_new 1 2 :: nat sbc) \<noteq> None"
proof -
  have "\<not> is_reading (sbc_new 1 2 :: nat sbc)" by (simp add: is_reading_def sbc_new_def)
  with sbc_no_pending_when_idle [OF sbc_reachable.start [of "(#)" 1 2]] sbc_reachable.start [of "(#)" 1 2]
  show ?thesis by blast
qed

theorem sbc_snapshot_witness:
  "sbc_buckets (sbc_erase 7 sbc_example) = sbc_buckets sbc_example \<and> is_write_pending (sbc_erase 7 sbc_example)"
proof -
  have "sbc_step (#) sbc_example (sbc_erase 7 sbc_example)"
    using sbc_example_facts(2) by (intro sbc_step.step [of _ "Erase 7"]) simp_all
  moreover have "is_reading sbc_example" "is_reading (sbc_erase 7 sbc_example)"
    using sbc_example_facts(2) by (auto simp: is_reading_def sbc_erase_def split: option.split)
  moreover have "find_bucket 7 sbc_example \<noteq> None"
    using find_bucket_spec(1) [OF sbc_example_facts(1), of 7] sbc_example_facts(4) by auto
  ultimately show ?thesis using sbc_snapshot [of "(#)" sbc_example "sbc_erase 7 sbc_example"]
    by (auto simp: sbc_erase_def is_write_pending_def)
qed

end
