(* ===== verification/TxService.thy ===== *)
theory TxService
  imports BucketContainer BufferHelper Sha256
begin

text \<open>
  \<open>TransactionService\<close> of \<^verbatim>\<open>src/lib/libtpe/tpe/service\<close>: the store of transactions, of the short
  ids the relay network assigned to them, and of what was removed. One record holds the members
  of \<open>Containers\<close>; every method is a function on it.

  A transaction hash is its 32 bytes (theory \<open>Sha256\<close> shows that equality of hash objects is
  equality of these), a short id a natural number below \<open>2 ^ 32\<close>, a \<^verbatim>\<open>double\<close> a real number.
  Contents are shared pointers to views: \<open>None\<close> is the null pointer that \<^verbatim>\<open>operator[]\<close> of the map
  creates for a missing hash. The clock is an argument of the operations that read it, the
  enumeration order of the sets is the argument \<open>ins\<close>, and the message parser and the transaction
  validator, which the service calls through abstract classes, are the arguments \<open>parse\<close> and
  \<open>validate\<close>.
\<close>

type_synonym hash = "byte list"
type_synonym sid = nat
type_synonym contents = "buffer_view option"
type_synonym nonce_map = "(hash, real \<times> nat) ordered_map"
type_synonym validator =
  "buffer_view \<Rightarrow> nat \<Rightarrow> real \<Rightarrow> nonce_map \<Rightarrow> real \<Rightarrow> real \<Rightarrow> (nat \<times> nonce_map) res"
type_synonym place = "nat \<Rightarrow> nat list \<Rightarrow> nat list"
type_synonym hplace = "hash \<Rightarrow> hash list \<Rightarrow> hash list"

record tx_service =
  ts_final :: nat
  ts_not_seen :: "hash sbc"
  ts_sids :: "hash \<rightharpoonup> sid list"
  ts_hash :: "sid \<rightharpoonup> hash"
  ts_contents :: "(hash, contents) map_wrapper"
  ts_seen :: "(hash, sid list) ordered_map"
  ts_assign_time :: "(sid, real) ordered_map"
  ts_hash_removed :: "(hash, real) ordered_map"
  ts_sid_removed :: "(sid, real) ordered_map"
  ts_nonces :: nonce_map
  ts_allowed_time :: real
  ts_allowed_gas :: real

definition NULL_TX_SID :: sid where
  "NULL_TX_SID = 0"

definition contents_size :: "contents \<Rightarrow> nat" where
  "contents_size p = (case p of None \<Rightarrow> 0 | Some v \<Rightarrow> bv_size v)"

definition ts_new :: "nat \<Rightarrow> nat \<Rightarrow> nat \<Rightarrow> real \<Rightarrow> real \<Rightarrow> tx_service" where
  "ts_new pool_size bucket_capacity final allowed_time allowed_gas =
     \<lparr>ts_final = final, ts_not_seen = sbc_new bucket_capacity pool_size, ts_sids = Map.empty,
      ts_hash = Map.empty, ts_contents = mw_new, ts_seen = om_new, ts_assign_time = om_new,
      ts_hash_removed = om_new, ts_sid_removed = om_new, ts_nonces = om_new,
      ts_allowed_time = allowed_time, ts_allowed_gas = allowed_gas\<rparr>"

section \<open>Sha256ToShortIdsMap\<close>

definition sids_index :: "hplace \<Rightarrow> tx_service \<Rightarrow> hash \<Rightarrow> sid list \<times> tx_service" where
  "sids_index hins s h =
     (case ts_sids s h of
        Some xs \<Rightarrow> (xs, s)
      | None \<Rightarrow> ([], s\<lparr>ts_sids := (ts_sids s)(h \<mapsto> []), ts_not_seen := sbc_insert hins h (ts_not_seen s)\<rparr>))"

definition sids_erase :: "hash \<Rightarrow> tx_service \<Rightarrow> tx_service" where
  "sids_erase h s = s\<lparr>ts_sids := (ts_sids s)(h := None), ts_not_seen := sbc_erase h (ts_not_seen s)\<rparr>"

definition sids_clear :: "tx_service \<Rightarrow> tx_service" where
  "sids_clear s = s\<lparr>ts_sids := Map.empty, ts_not_seen := sbc_clear (ts_not_seen s)\<rparr>"

section \<open>Queries\<close>

definition has_short_id_hash :: "tx_service \<Rightarrow> hash \<Rightarrow> bool" where
  "has_short_id_hash s h \<longleftrightarrow> ts_sids s h \<noteq> None"

definition has_short_id :: "tx_service \<Rightarrow> sid \<Rightarrow> bool" where
  "has_short_id s i \<longleftrightarrow> ts_hash s i \<noteq> None"

definition has_transaction_contents :: "tx_service \<Rightarrow> hash \<Rightarrow> bool" where
  "has_transaction_contents s h \<longleftrightarrow> mw_find (ts_contents s) h \<noteq> None"

definition removed_transaction :: "tx_service \<Rightarrow> hash \<Rightarrow> bool" where
  "removed_transaction s h \<longleftrightarrow> om_find (ts_hash_removed s) h \<noteq> None"

definition get_short_id :: "tx_service \<Rightarrow> hash \<Rightarrow> sid res" where
  \<comment> \<open>\<^verbatim>\<open>*iter->second.begin()\<close>: neither the iterator nor the set is checked\<close>
  "get_short_id s h =
     (case ts_sids s h of
        Some (i # _) \<Rightarrow> Inr i
      | _ \<Rightarrow> Inl MemFault)"

definition get_transaction :: "tx_service \<Rightarrow> sid \<Rightarrow> (hash \<times> contents \<times> tx_service) res" where
  "get_transaction s i =
     (case ts_hash s i of
        None \<Rightarrow> Inl MemFault
      | Some h \<Rightarrow> let (p, m) = mw_index None (ts_contents s) h in Inr (h, p, s\<lparr>ts_contents := m\<rparr>))"

definition get_tx_contents_raw_ptr :: "tx_service \<Rightarrow> sid \<Rightarrow> (contents \<times> tx_service) res" where
  "get_tx_contents_raw_ptr s i = rbind (get_transaction s i) (\<lambda>(_, p, s). Inr (p, s))"

definition get_tx_size :: "tx_service \<Rightarrow> sid \<Rightarrow> nat res" where
  "get_tx_size s i =
     (case ts_hash s i of
        None \<Rightarrow> Inl OutOfRange
      | Some h \<Rightarrow> rbind (mw_at (ts_contents s) h) (\<lambda>p.
          case p of None \<Rightarrow> Inl MemFault | Some v \<Rightarrow> Inr (bv_size v)))"

definition get_short_id_assign_time :: "tx_service \<Rightarrow> sid \<Rightarrow> real res" where
  "get_short_id_assign_time s i = om_index (ts_assign_time s) i"

definition missing_step :: "tx_service \<Rightarrow> sid \<Rightarrow> bool \<times> hash list \<times> sid list \<Rightarrow> bool \<times> hash list \<times> sid list" where
  "missing_step s i = (\<lambda>(ok, hashes, sids).
     case ts_hash s i of
       Some h \<Rightarrow>
         if i \<noteq> NULL_TX_SID
         then (if mw_find (ts_contents s) h = None then (False, hashes @ [h], sids) else (ok, hashes, sids))
         else (False, hashes, sids @ [i])
     | None \<Rightarrow> (False, hashes, sids @ [i]))"

definition get_missing_transactions :: "tx_service \<Rightarrow> sid list \<Rightarrow> bool \<times> hash list \<times> sid list" where
  "get_missing_transactions s short_ids = fold (missing_step s) short_ids (True, [], [])"

section \<open>Assignment, contents, removal\<close>

definition assign_short_id :: "place \<Rightarrow> hplace \<Rightarrow> real \<Rightarrow> tx_service \<Rightarrow> hash \<Rightarrow> sid \<Rightarrow> bool \<times> tx_service" where
  "assign_short_id ins hins now s h i =
     (let result = has_transaction_contents s h
      in if i = NULL_TX_SID then (result, s)
         else
           let s = (if \<not> has_short_id s i then
                      let (xs, s) = sids_index hins s h;
                          s = s\<lparr>ts_sids := (ts_sids s)(h \<mapsto> uset_insert ins i xs)\<rparr>
                      in s\<lparr>ts_hash := (ts_hash s)(i \<mapsto> h)\<rparr>
                    else s)
           in (result, s\<lparr>ts_assign_time := fst (om_emplace (ts_assign_time s) i now)\<rparr>))"

definition set_transaction_contents ::
  "tx_service \<Rightarrow> hash \<Rightarrow> buffer_view \<Rightarrow> ((bool \<times> nat) \<times> tx_service) res" where
  "set_transaction_contents s h v =
     (let known = has_short_id_hash s h
      in case mw_find (ts_contents s) h of
           Some None \<Rightarrow> Inl MemFault
         | Some (Some old) \<Rightarrow> Inr ((known, u32 (bv_size old)), s)
         | None \<Rightarrow> Inr ((known, 0), s\<lparr>ts_contents := mw_emplace contents_size (ts_contents s) h (Some v)\<rparr>))"

definition forget_sid :: "real \<Rightarrow> sid \<Rightarrow> tx_service \<Rightarrow> tx_service" where
  "forget_sid time_removed i s =
     s\<lparr>ts_hash := (ts_hash s)(i := None),
       ts_assign_time := fst (om_erase (ts_assign_time s) i),
       ts_sid_removed := fst (om_emplace (ts_sid_removed s) i time_removed)\<rparr>"

definition erase_contents :: "tx_service \<Rightarrow> hash \<Rightarrow> (nat \<times> tx_service) res" where
  "erase_contents s h =
     (case mw_find (ts_contents s) h of
        None \<Rightarrow> Inr (0, s)
      | Some None \<Rightarrow> Inl MemFault
      | Some (Some v) \<Rightarrow> Inr (bv_size v, s\<lparr>ts_contents := mw_erase contents_size (ts_contents s) h\<rparr>))"

definition remove_transaction_by_hash :: "real \<Rightarrow> tx_service \<Rightarrow> hash \<Rightarrow> (nat \<times> tx_service) res" where
  "remove_transaction_by_hash time_removed s h =
     (let s = (case ts_sids s h of
                 None \<Rightarrow> s
               | Some xs \<Rightarrow> sids_erase h (fold (forget_sid time_removed) xs s))
      in rbind (erase_contents s h) (\<lambda>(len, s).
           Inr (len, s\<lparr>ts_hash_removed := fst (om_emplace (ts_hash_removed s) h time_removed)\<rparr>)))"

fun remove_transactions_by_hashes :: "real \<Rightarrow> tx_service \<Rightarrow> hash list \<Rightarrow> (nat \<times> tx_service) res" where
  "remove_transactions_by_hashes t s [] = Inr (0, s)"
| "remove_transactions_by_hashes t s (h # hs) =
     rbind (remove_transaction_by_hash t s h) (\<lambda>(n, s).
     rbind (remove_transactions_by_hashes t s hs) (\<lambda>(m, s). Inr (u64 (n + m), s)))"

definition remove_transaction_by_short_id ::
  "real \<Rightarrow> real \<Rightarrow> tx_service \<Rightarrow> sid \<Rightarrow> sid list \<Rightarrow> (nat \<times> sid list \<times> tx_service) res" where
  \<comment> \<open>\<open>time_removed\<close> and \<open>now\<close> are the two readings of the clock\<close>
  "remove_transaction_by_short_id time_removed now s i dup_sids =
     (case ts_hash s i of
        None \<Rightarrow> Inr (0, dup_sids, s)
      | Some h \<Rightarrow>
          let (dup_sids, s) =
                (case ts_sids s h of
                   None \<Rightarrow> (dup_sids, s)
                 | Some xs \<Rightarrow>
                     let (dups, s) =
                           (if 1 < length xs then
                              let rest = uset_erase i xs in (rest, fold (forget_sid time_removed) rest s)
                            else ([], s));
                         s = sids_erase h s
                     in (dup_sids @ dups,
                         s\<lparr>ts_sid_removed := fst (om_emplace (ts_sid_removed s) i time_removed)\<rparr>))
          in rbind (erase_contents s h) (\<lambda>(len, s).
               let s = s\<lparr>ts_hash_removed := fst (om_emplace (ts_hash_removed s) h now)\<rparr>
               in Inr (len, dup_sids,
                    s\<lparr>ts_hash := (ts_hash s)(i := None),
                      ts_assign_time := fst (om_erase (ts_assign_time s) i)\<rparr>)))"

fun remove_all_short_ids ::
  "real \<Rightarrow> real \<Rightarrow> tx_service \<Rightarrow> sid list \<Rightarrow> nat \<Rightarrow> sid list \<Rightarrow> (nat \<times> sid list \<times> tx_service) res" where
  "remove_all_short_ids t now s [] acc dups = Inr (acc, dups, s)"
| "remove_all_short_ids t now s (i # is) acc dups =
     rbind (remove_transaction_by_short_id t now s i dups) (\<lambda>(n, dups, s).
       remove_all_short_ids t now s is (u64 (acc + n)) dups)"

definition track_seen_transaction :: "tx_service \<Rightarrow> hash \<Rightarrow> tx_service" where
  "track_seen_transaction s h = s\<lparr>ts_not_seen := sbc_erase h (ts_not_seen s)\<rparr>"

definition track_one :: "sid \<Rightarrow> tx_service \<Rightarrow> tx_service" where
  "track_one i s = (case ts_hash s i of None \<Rightarrow> s | Some h \<Rightarrow> track_seen_transaction s h)"

definition track_seen_short_ids ::
  "real \<Rightarrow> real \<Rightarrow> tx_service \<Rightarrow> hash \<Rightarrow> sid list \<Rightarrow> (nat \<times> sid list \<times> tx_service) res" where
  "track_seen_short_ids t now s block short_ids =
     (let s = s\<lparr>ts_seen := fst (om_emplace (ts_seen s) block short_ids)\<rparr>
      in rbind (om_index (ts_seen s) block) (\<lambda>sids.
         let s = fold track_one sids s
         in if ts_final s \<le> om_size (ts_seen s) then
              (case om_begin (ts_seen s) of
                 None \<Rightarrow> Inl MemFault
               | Some (final_block, final_sids) \<Rightarrow>
                   rbind (remove_all_short_ids t now s final_sids 0 []) (\<lambda>(len, dups, s).
                     Inr (len, dups, s\<lparr>ts_seen := fst (om_erase (ts_seen s) final_block)\<rparr>)))
            else Inr (0, [], s)))"

definition on_block_cleaned_up :: "tx_service \<Rightarrow> hash \<Rightarrow> tx_service" where
  "on_block_cleaned_up s block = s\<lparr>ts_seen := fst (om_erase (ts_seen s) block)\<rparr>"

definition set_final_tx_confirmations_count :: "tx_service \<Rightarrow> nat \<Rightarrow> tx_service" where
  "set_final_tx_confirmations_count s n = s\<lparr>ts_final := n\<rparr>"

definition ts_acquire_tx_pool :: "tx_service \<Rightarrow> tx_service option" where
  "ts_acquire_tx_pool s = map_option (\<lambda>c. s\<lparr>ts_not_seen := c\<rparr>) (acquire_read (ts_not_seen s))"

definition on_finished_reading_tx_pool :: "hplace \<Rightarrow> tx_service \<Rightarrow> tx_service" where
  "on_finished_reading_tx_pool hins s = s\<lparr>ts_not_seen := release_read hins (ts_not_seen s)\<rparr>"

definition ts_clear :: "tx_service \<Rightarrow> tx_service" where
  "ts_clear s =
     (let s = s\<lparr>ts_seen := om_clear (ts_seen s), ts_hash := Map.empty, ts_contents := mw_clear (ts_contents s),
               ts_assign_time := om_clear (ts_assign_time s), ts_not_seen := sbc_clear (ts_not_seen s)\<rparr>
      in sids_clear s)"

partial_function (option) clear_nonces :: "nonce_map \<Rightarrow> real \<Rightarrow> nat \<Rightarrow> (nat \<times> nonce_map) option" where
  "clear_nonces m time cleared =
     (case om_begin m of
        None \<Rightarrow> Some (cleared, m)
      | Some kv \<Rightarrow>
          if fst (snd kv) \<le> time then clear_nonces (fst (om_erase m (fst kv))) time (u64 (cleared + 1))
          else Some (cleared, m))"

definition clear_sender_nonce :: "tx_service \<Rightarrow> real \<Rightarrow> (nat \<times> tx_service) option" where
  "clear_sender_nonce s time =
     map_option (\<lambda>(n, m). (n, s\<lparr>ts_nonces := m\<rparr>)) (clear_nonces (ts_nonces s) time 0)"

definition set_sender_nonce_reuse_setting :: "tx_service \<Rightarrow> real \<Rightarrow> real \<Rightarrow> tx_service" where
  "set_sender_nonce_reuse_setting s t g = s\<lparr>ts_allowed_time := t, ts_allowed_gas := g\<rparr>"

section \<open>Transaction messages\<close>

text \<open>Bits of \<^verbatim>\<open>TxStatus_t\<close> and \<^verbatim>\<open>TxValidationStatus_t\<close>.\<close>

definition TX_STATUS_IGNORE_SEEN :: nat where "TX_STATUS_IGNORE_SEEN = 0"
definition TX_STATUS_MSG_HAS_SHORT_ID :: nat where "TX_STATUS_MSG_HAS_SHORT_ID = 1"
definition TX_STATUS_MSG_HAS_CONTENT :: nat where "TX_STATUS_MSG_HAS_CONTENT = 2"
definition TX_STATUS_MSG_NO_CONTENT :: nat where "TX_STATUS_MSG_NO_CONTENT = 3"
definition TX_STATUS_MSG_NO_SHORT_ID :: nat where "TX_STATUS_MSG_NO_SHORT_ID = 4"
definition TX_STATUS_SEEN_SHORT_ID :: nat where "TX_STATUS_SEEN_SHORT_ID = 5"
definition TX_STATUS_SEEN_HASH :: nat where "TX_STATUS_SEEN_HASH = 6"
definition TX_STATUS_SEEN_CONTENT :: nat where "TX_STATUS_SEEN_CONTENT = 7"
definition TX_STATUS_SEEN_REMOVED_TRANSACTION :: nat where "TX_STATUS_SEEN_REMOVED_TRANSACTION = 8"
definition TX_STATUS_TIMED_OUT :: nat where "TX_STATUS_TIMED_OUT = 9"

definition TX_VALIDATION_STATUS_VALID_TX :: nat where "TX_VALIDATION_STATUS_VALID_TX = 0"
definition TX_VALIDATION_STATUS_INVALID_FORMAT :: nat where "TX_VALIDATION_STATUS_INVALID_FORMAT = 1"
definition TX_VALIDATION_STATUS_INVALID_SIGNATURE :: nat where "TX_VALIDATION_STATUS_INVALID_SIGNATURE = 2"
definition TX_VALIDATION_STATUS_INVALID_LOW_FEE :: nat where "TX_VALIDATION_STATUS_INVALID_LOW_FEE = 3"
definition TX_VALIDATION_STATUS_REUSE_SENDER_NONCE :: nat where "TX_VALIDATION_STATUS_REUSE_SENDER_NONCE = 4"

lemmas tx_status_consts =
  TX_STATUS_IGNORE_SEEN_def TX_STATUS_MSG_HAS_SHORT_ID_def TX_STATUS_MSG_HAS_CONTENT_def
  TX_STATUS_MSG_NO_CONTENT_def TX_STATUS_MSG_NO_SHORT_ID_def TX_STATUS_SEEN_SHORT_ID_def
  TX_STATUS_SEEN_HASH_def TX_STATUS_SEEN_CONTENT_def TX_STATUS_SEEN_REMOVED_TRANSACTION_def
  TX_STATUS_TIMED_OUT_def TX_VALIDATION_STATUS_VALID_TX_def TX_VALIDATION_STATUS_INVALID_FORMAT_def
  TX_VALIDATION_STATUS_INVALID_SIGNATURE_def TX_VALIDATION_STATUS_INVALID_LOW_FEE_def
  TX_VALIDATION_STATUS_REUSE_SENDER_NONCE_def

definition set_flag :: "bool \<Rightarrow> nat list \<Rightarrow> nat \<Rightarrow> nat" where
  \<comment> \<open>\<^verbatim>\<open>if (cond) status |= flag1 | flag2 ...\<close>, with the flags given by their bit numbers\<close>
  "set_flag cond flags status = (if cond then fold set_bit flags status else status)"

definition tx_status_flags :: "tx_service \<Rightarrow> sid \<Rightarrow> hash \<Rightarrow> buffer_view \<Rightarrow> nat" where
  \<comment> \<open>the flags of a transaction that was neither removed before nor timed out\<close>
  "tx_status_flags s i h v =
     (let st = set_flag True [if i \<noteq> NULL_TX_SID then TX_STATUS_MSG_HAS_SHORT_ID else TX_STATUS_MSG_NO_SHORT_ID] 0;
          st = set_flag True [if bv_size v = 0 then TX_STATUS_MSG_NO_CONTENT else TX_STATUS_MSG_HAS_CONTENT] st;
          st = set_flag (bit st TX_STATUS_MSG_HAS_SHORT_ID \<and> has_short_id s i)
                 [TX_STATUS_SEEN_SHORT_ID, TX_STATUS_SEEN_HASH] st;
          st = set_flag (has_transaction_contents s h)
                 (if bit st TX_STATUS_MSG_HAS_CONTENT then [TX_STATUS_SEEN_CONTENT, TX_STATUS_SEEN_HASH]
                  else [TX_STATUS_SEEN_HASH]) st;
          st = set_flag (bit st TX_STATUS_SEEN_CONTENT \<and> bit st TX_STATUS_SEEN_HASH \<and>
                         bit st TX_STATUS_MSG_NO_SHORT_ID) [TX_STATUS_IGNORE_SEEN] st;
          st = set_flag (bit st TX_STATUS_SEEN_CONTENT \<and> bit st TX_STATUS_SEEN_HASH \<and>
                         bit st TX_STATUS_SEEN_SHORT_ID) [TX_STATUS_IGNORE_SEEN] st;
          st = set_flag (bit st TX_STATUS_MSG_NO_CONTENT \<and> bit st TX_STATUS_SEEN_HASH \<and>
                         bit st TX_STATUS_MSG_NO_SHORT_ID) [TX_STATUS_IGNORE_SEEN] st;
          st = set_flag (bit st TX_STATUS_MSG_NO_CONTENT \<and> bit st TX_STATUS_SEEN_HASH \<and>
                         bit st TX_STATUS_SEEN_SHORT_ID) [TX_STATUS_IGNORE_SEEN] st;
          st = set_flag (\<not> bit st TX_STATUS_IGNORE_SEEN \<and> bit st TX_STATUS_MSG_NO_SHORT_ID \<and>
                         has_short_id_hash s h) [TX_STATUS_SEEN_HASH] st
      in st)"

definition msg_tx_build_tx_status ::
  "validator \<Rightarrow> tx_service \<Rightarrow> sid \<Rightarrow> hash \<Rightarrow> buffer_view \<Rightarrow> real \<Rightarrow> real \<Rightarrow> bool \<Rightarrow> nat \<Rightarrow> bool \<Rightarrow>
   (nat \<times> nat \<times> tx_service) res" where
  "msg_tx_build_tx_status validate s i h v timestamp current_time enable_validation min_fee from_relay =
     (let valid = set_bit TX_VALIDATION_STATUS_VALID_TX 0
      in if removed_transaction s h then
           Inr (set_flag True [TX_STATUS_SEEN_REMOVED_TRANSACTION, TX_STATUS_IGNORE_SEEN] 0, valid, s)
         else if timestamp \<noteq> 0 \<and> 10 < current_time - timestamp \<and> \<not> from_relay then
           Inr (set_flag True [TX_STATUS_TIMED_OUT] 0, valid, s)
         else
           let st = tx_status_flags s i h v
           in if enable_validation \<and> bit st TX_STATUS_MSG_HAS_CONTENT \<and> \<not> bit st TX_STATUS_SEEN_CONTENT \<and>
                 \<not> bit st TX_STATUS_MSG_HAS_SHORT_ID
              then rbind (validate v min_fee current_time (ts_nonces s) (ts_allowed_time s) (ts_allowed_gas s))
                     (\<lambda>(vst, nonces). Inr (st, vst, s\<lparr>ts_nonces := nonces\<rparr>))
              else Inr (st, valid, s))"

record tx_processing_result =
  pr_tx_status :: nat
  pr_tx_validation_status :: nat
  pr_existing_short_ids :: "sid list"
  pr_assign_short_id_result :: bool
  pr_set_contents_result :: "bool \<times> nat"
  pr_contents_set :: bool
  pr_short_id_assigned :: bool

definition pr_ignored :: "nat \<Rightarrow> nat \<Rightarrow> tx_processing_result" where
  "pr_ignored st vst =
     \<lparr>pr_tx_status = st, pr_tx_validation_status = vst, pr_existing_short_ids = [],
      pr_assign_short_id_result = False, pr_set_contents_result = (False, 0), pr_contents_set = False,
      pr_short_id_assigned = False\<rparr>"

definition store_msg_contents ::
  "nat \<Rightarrow> tx_service \<Rightarrow> hash \<Rightarrow> buffer_view \<Rightarrow> ((bool \<times> nat) \<times> bool \<times> tx_service) res" where
  "store_msg_contents st s h v =
     (if bit st TX_STATUS_MSG_HAS_CONTENT \<and> \<not> bit st TX_STATUS_SEEN_CONTENT
      then rbind (set_transaction_contents s h v) (\<lambda>(r, s). Inr (r, True, s))
      else Inr ((False, 0), False, s))"

definition finish_transaction_msg ::
  "place \<Rightarrow> hplace \<Rightarrow> real \<Rightarrow> tx_service \<Rightarrow> hash \<Rightarrow> sid \<Rightarrow> nat \<Rightarrow> nat \<Rightarrow> bool \<times> nat \<Rightarrow> bool \<Rightarrow>
   tx_processing_result \<times> tx_service" where
  "finish_transaction_msg ins hins now s h i st vst set_result contents_set =
     (if vst = set_bit TX_VALIDATION_STATUS_INVALID_LOW_FEE 0
      then ((pr_ignored st vst)\<lparr>pr_set_contents_result := set_result, pr_contents_set := contents_set\<rparr>, s)
      else
        let (existing, s) = (if bit st TX_STATUS_SEEN_HASH then sids_index hins s h else ([], s));
            (assign_result, s) =
              (if bit st TX_STATUS_MSG_HAS_SHORT_ID then assign_short_id ins hins now s h i else (False, s))
        in (\<lparr>pr_tx_status = st, pr_tx_validation_status = vst, pr_existing_short_ids = existing,
             pr_assign_short_id_result = assign_result, pr_set_contents_result = set_result,
             pr_contents_set = contents_set, pr_short_id_assigned = bit st TX_STATUS_MSG_HAS_SHORT_ID\<rparr>, s))"

definition process_transaction_msg ::
  "place \<Rightarrow> hplace \<Rightarrow> validator \<Rightarrow> real \<Rightarrow> tx_service \<Rightarrow> hash \<Rightarrow> buffer_view \<Rightarrow> sid \<Rightarrow> real \<Rightarrow> real \<Rightarrow> bool \<Rightarrow> nat \<Rightarrow> bool \<Rightarrow>
   (tx_processing_result \<times> tx_service) res" where
  "process_transaction_msg ins hins validate now s h v i timestamp current_time enable_validation min_fee from_relay =
     rbind (msg_tx_build_tx_status validate s i h v timestamp current_time enable_validation min_fee from_relay)
       (\<lambda>(st, vst, s).
       if bit st TX_STATUS_IGNORE_SEEN \<or> bit st TX_STATUS_TIMED_OUT \<or>
          bit vst TX_VALIDATION_STATUS_INVALID_FORMAT \<or> bit vst TX_VALIDATION_STATUS_INVALID_SIGNATURE
       then Inr (pr_ignored st vst, s)
       else if \<not> bit st TX_STATUS_MSG_HAS_SHORT_ID \<and> bit vst TX_VALIDATION_STATUS_REUSE_SENDER_NONCE
       then Inr (pr_ignored (set_flag True [TX_STATUS_IGNORE_SEEN] st) vst, s)
       else rbind (store_msg_contents st s h v) (\<lambda>(set_result, contents_set, s).
         Inr (finish_transaction_msg ins hins now s h i st vst set_result contents_set)))"

record bdn_result =
  br_ignore_seen :: bool
  br_existing_short_id :: bool
  br_assigned_short_id :: bool
  br_existing_contents :: bool
  br_set_contents :: bool
  br_set_contents_result :: "bool \<times> nat"

definition assign_if_new :: "place \<Rightarrow> hplace \<Rightarrow> real \<Rightarrow> tx_service \<Rightarrow> hash \<Rightarrow> sid \<Rightarrow> tx_service" where
  "assign_if_new ins hins now s h i =
     (if i \<noteq> NULL_TX_SID \<and> \<not> has_short_id s i then snd (assign_short_id ins hins now s h i) else s)"

definition process_gateway_transaction_from_bdn ::
  "place \<Rightarrow> hplace \<Rightarrow> real \<Rightarrow> tx_service \<Rightarrow> hash \<Rightarrow> buffer_view \<Rightarrow> sid \<Rightarrow> bool \<Rightarrow> (bdn_result \<times> tx_service) res" where
  "process_gateway_transaction_from_bdn ins hins now s h v i is_compact =
     (let existing_short_id = (i \<noteq> NULL_TX_SID \<and> has_short_id s i);
          existing_contents = has_transaction_contents s h;
          result = \<lparr>br_ignore_seen = False, br_existing_short_id = False, br_assigned_short_id = False,
                     br_existing_contents = existing_contents, br_set_contents = False,
                     br_set_contents_result = (False, 0)\<rparr>
      in if (i = NULL_TX_SID \<or> existing_short_id) \<and> existing_contents \<or> removed_transaction s h
         then Inr (result\<lparr>br_ignore_seen := True\<rparr>, s)
         else if (existing_contents \<or> is_compact) \<and> existing_short_id
         then Inr (result\<lparr>br_existing_short_id := True\<rparr>, s)
         else
           let assign = (i \<noteq> NULL_TX_SID \<and> \<not> has_short_id s i);
               s = assign_if_new ins hins now s h i
           in if \<not> is_compact \<and> \<not> existing_contents
              then rbind (set_transaction_contents s h v) (\<lambda>(r, s).
                     Inr (result\<lparr>br_assigned_short_id := assign, br_set_contents := True,
                                 br_set_contents_result := r\<rparr>, s))
              else Inr (result\<lparr>br_assigned_short_id := assign\<rparr>, s))"

section \<open>Invariant\<close>

text \<open>
  The two short id maps are inverse to each other, the null id is never assigned, no null contents
  are stored and the tracker knows their bytes, and the ordered maps are well-formed.
\<close>

definition ts_linked :: "tx_service \<Rightarrow> bool" where
  "ts_linked s \<longleftrightarrow> (\<forall>i h. ts_hash s i = Some h \<longleftrightarrow> (\<exists>xs. ts_sids s h = Some xs \<and> i \<in> set xs))"

definition ts_wf :: "tx_service \<Rightarrow> bool" where
  "ts_wf s \<longleftrightarrow>
     ts_linked s \<and> (\<forall>h xs. ts_sids s h = Some xs \<longrightarrow> distinct xs) \<and> ts_hash s NULL_TX_SID = None \<and>
     (\<forall>h. mw_map (ts_contents s) h \<noteq> Some None) \<and> mw_wf contents_size (ts_contents s) \<and>
     om_wf (ts_seen s) \<and> om_wf (ts_assign_time s) \<and> om_wf (ts_hash_removed s) \<and>
     om_wf (ts_sid_removed s) \<and> om_wf (ts_nonces s)"

definition ts_nonempty :: "tx_service \<Rightarrow> bool" where
  "ts_nonempty s \<longleftrightarrow> (\<forall>h. ts_sids s h \<noteq> Some [])"

lemma ts_wf_new [wf_intros]: "ts_wf (ts_new pool cap final t g)" "ts_nonempty (ts_new pool cap final t g)"
  by (simp_all add: ts_wf_def ts_linked_def ts_nonempty_def ts_new_def)

lemma ts_linkedD: "ts_linked s \<Longrightarrow> ts_sids s h = Some xs \<Longrightarrow> i \<in> set xs \<longleftrightarrow> ts_hash s i = Some h"
  by (auto simp: ts_linked_def)

lemma sids_index_frame [simp]:
  "ts_hash (snd (sids_index hins s h)) = ts_hash s"
  "ts_contents (snd (sids_index hins s h)) = ts_contents s"
  "ts_seen (snd (sids_index hins s h)) = ts_seen s"
  "ts_assign_time (snd (sids_index hins s h)) = ts_assign_time s"
  "ts_hash_removed (snd (sids_index hins s h)) = ts_hash_removed s"
  "ts_sid_removed (snd (sids_index hins s h)) = ts_sid_removed s"
  "ts_nonces (snd (sids_index hins s h)) = ts_nonces s"
  by (simp_all add: sids_index_def split: option.split)

lemma sids_index_result:
  "fst (sids_index hins s h) = (case ts_sids s h of None \<Rightarrow> [] | Some xs \<Rightarrow> xs)"
  "ts_sids (snd (sids_index hins s h)) =
     (ts_sids s)(h \<mapsto> (case ts_sids s h of None \<Rightarrow> [] | Some xs \<Rightarrow> xs))"
  by (auto simp: sids_index_def split: option.split)

lemma ts_wf_sids_index [wf_intros]: "ts_wf s \<Longrightarrow> ts_wf (snd (sids_index hins s h))"
  by (auto simp: ts_wf_def ts_linked_def sids_index_result split: option.splits)

lemma assign_short_id_fresh:
  assumes "i \<noteq> NULL_TX_SID" and "ts_hash s i = None"
  shows "ts_sids (snd (assign_short_id ins hins now s h i)) =
      (ts_sids s)(h \<mapsto> uset_insert ins i (case ts_sids s h of None \<Rightarrow> [] | Some xs \<Rightarrow> xs))"
    and "ts_hash (snd (assign_short_id ins hins now s h i)) = (ts_hash s)(i \<mapsto> h)"
  using assms
  by (auto simp: assign_short_id_def has_short_id_def Let_def sids_index_result(1) split: prod.split
      dest: arg_cong [of _ _ snd] simp flip: sids_index_result)
     (auto simp: sids_index_def split: option.splits)

lemma assign_short_id_frame [simp]:
  "ts_contents (snd (assign_short_id ins hins now s h i)) = ts_contents s"
  "ts_seen (snd (assign_short_id ins hins now s h i)) = ts_seen s"
  "ts_hash_removed (snd (assign_short_id ins hins now s h i)) = ts_hash_removed s"
  "ts_sid_removed (snd (assign_short_id ins hins now s h i)) = ts_sid_removed s"
  "ts_nonces (snd (assign_short_id ins hins now s h i)) = ts_nonces s"
  "ts_final (snd (assign_short_id ins hins now s h i)) = ts_final s"
  by (auto simp: assign_short_id_def sids_index_def Let_def split: option.split prod.split)

lemma assign_short_id_known:
  "i = NULL_TX_SID \<or> ts_hash s i \<noteq> None \<Longrightarrow> ts_sids (snd (assign_short_id ins hins now s h i)) = ts_sids s"
  "i = NULL_TX_SID \<or> ts_hash s i \<noteq> None \<Longrightarrow> ts_hash (snd (assign_short_id ins hins now s h i)) = ts_hash s"
  by (auto simp: assign_short_id_def has_short_id_def Let_def)

lemma ts_wf_assign_short_id [wf_intros]:
  assumes s: "ts_wf s" and ins: "placement ins"
  shows "ts_wf (snd (assign_short_id ins hins now s h i))"
proof -
  let ?s = "snd (assign_short_id ins hins now s h i)"
  have om: "om_wf (ts_assign_time ?s)"
    using s by (auto simp: assign_short_id_def sids_index_def ts_wf_def Let_def split: option.split prod.split)
  show ?thesis
  proof (cases "i = NULL_TX_SID \<or> ts_hash s i \<noteq> None")
    case True
    then show ?thesis using s om by (simp add: ts_wf_def ts_linked_def assign_short_id_known)
  next
    case False
    let ?old = "case ts_sids s h of None \<Rightarrow> [] | Some xs \<Rightarrow> xs"
    have d: "distinct ?old" using s by (auto simp: ts_wf_def split: option.split)
    have new: "ts_sids ?s = (ts_sids s)(h \<mapsto> uset_insert ins i ?old)" "ts_hash ?s = (ts_hash s)(i \<mapsto> h)"
      using False assign_short_id_fresh by blast+
    have set: "set (uset_insert ins i ?old) = insert i (set ?old)" by (rule set_uset_insert [OF ins d])
    have "ts_linked ?s"
      unfolding ts_linked_def
    proof (intro allI)
      fix j k
      have "j \<in> set ?old \<longleftrightarrow> ts_hash s j = Some h"
        using s by (cases "ts_sids s h") (auto simp: ts_wf_def ts_linked_def)
      then show "ts_hash ?s j = Some k \<longleftrightarrow> (\<exists>xs. ts_sids ?s k = Some xs \<and> j \<in> set xs)"
        using s False by (auto simp: new set ts_wf_def ts_linked_def)
    qed
    then show ?thesis
      using s om False d ins by (auto simp: ts_wf_def new distinct_uset_insert)
  qed
qed

lemma set_transaction_contents_cases:
  assumes "ts_wf s"
  obtains (present) old where "mw_map (ts_contents s) h = Some (Some old)"
      "set_transaction_contents s h v = Inr ((has_short_id_hash s h, u32 (bv_size old)), s)"
    | (absent) "mw_map (ts_contents s) h = None"
      "set_transaction_contents s h v =
         Inr ((has_short_id_hash s h, 0), s\<lparr>ts_contents := mw_emplace contents_size (ts_contents s) h (Some v)\<rparr>)"
proof (cases "mw_map (ts_contents s) h")
  case None
  then show thesis using absent by (simp add: set_transaction_contents_def mw_find_def)
next
  case (Some p)
  then show thesis using assms present by (cases p) (auto simp: ts_wf_def set_transaction_contents_def mw_find_def)
qed

lemma ts_wf_set_transaction_contents [wf_intros]:
  assumes "ts_wf s" and "set_transaction_contents s h v = Inr (r, s')"
  shows "ts_wf s'"
  using assms(1)
proof (cases rule: set_transaction_contents_cases [of s h v])
  case absent
  then have "mw_wf contents_size (mw_emplace contents_size (ts_contents s) h (Some v))"
    using assms(1) by (intro mw_wf_emplace) (auto simp: ts_wf_def)
  then show ?thesis using assms absent by (auto simp: ts_wf_def ts_linked_def split: if_splits)
qed (use assms in auto)

lemma fold_forget_sid_frame [simp]:
  "ts_sids (fold (forget_sid t) xs s) = ts_sids s"
  "ts_contents (fold (forget_sid t) xs s) = ts_contents s"
  "ts_seen (fold (forget_sid t) xs s) = ts_seen s"
  "ts_hash_removed (fold (forget_sid t) xs s) = ts_hash_removed s"
  "ts_nonces (fold (forget_sid t) xs s) = ts_nonces s"
  "ts_final (fold (forget_sid t) xs s) = ts_final s"
  "ts_not_seen (fold (forget_sid t) xs s) = ts_not_seen s"
  by (induction xs arbitrary: s) (auto simp: forget_sid_def)

lemma fold_forget_sid_hash: "ts_hash (fold (forget_sid t) xs s) = (\<lambda>i. if i \<in> set xs then None else ts_hash s i)"
  by (induction xs arbitrary: s) (auto simp: forget_sid_def)

lemma fold_forget_sid_om:
  "om_wf (ts_assign_time s) \<Longrightarrow> om_wf (ts_assign_time (fold (forget_sid t) xs s))"
  "om_wf (ts_sid_removed s) \<Longrightarrow> om_wf (ts_sid_removed (fold (forget_sid t) xs s))"
  by (induction xs arbitrary: s) (auto simp: forget_sid_def)

text \<open>
  Dropping all ids of a hash, then the hash and its contents: what both removals amount to.
\<close>

lemma erase_contents_spec:
  assumes "\<forall>h. mw_map (ts_contents s) h \<noteq> Some None"
  obtains n s' where "erase_contents s h = Inr (n, s')"
    and "s' = s\<lparr>ts_contents := mw_erase contents_size (ts_contents s) h\<rparr>"
    and "n = (case mw_map (ts_contents s) h of Some (Some v) \<Rightarrow> bv_size v | _ \<Rightarrow> 0)"
proof (cases "mw_map (ts_contents s) h")
  case None
  then show thesis using that by (simp add: erase_contents_def mw_find_def mw_erase_def)
next
  case (Some p)
  then show thesis using that assms by (cases p) (auto simp: erase_contents_def mw_find_def)
qed

lemma ts_linked_drop:
  assumes "ts_linked s" and "ts_sids s' = (ts_sids s)(h := None)"
    and "ts_hash s' = (\<lambda>i. if ts_hash s i = Some h then None else ts_hash s i)"
  shows "ts_linked s'"
proof -
  have "ts_hash s' i = Some k \<longleftrightarrow> ts_hash s i = Some k \<and> k \<noteq> h" for i k using assms(3) by auto
  then show ?thesis using assms(1,2) by (auto simp: ts_linked_def)
qed

lemma remove_transaction_by_hash_spec:
  assumes s: "ts_wf s"
  obtains n s' where "remove_transaction_by_hash t s h = Inr (n, s')" and "ts_wf s'"
    and "ts_sids s' = (ts_sids s)(h := None)"
    and "ts_hash s' = (\<lambda>i. if ts_hash s i = Some h then None else ts_hash s i)"
    and "mw_map (ts_contents s') = (mw_map (ts_contents s))(h := None)"
    and "removed_transaction s' h" and "ts_final s' = ts_final s" and "ts_seen s' = ts_seen s"
    and "n = (case mw_map (ts_contents s) h of Some (Some v) \<Rightarrow> bv_size v | _ \<Rightarrow> 0)"
proof -
  define xs where "xs = (case ts_sids s h of None \<Rightarrow> [] | Some xs \<Rightarrow> xs)"
  define s1 where "s1 = (case ts_sids s h of None \<Rightarrow> s | Some xs \<Rightarrow> sids_erase h (fold (forget_sid t) xs s))"
  have s1: "ts_sids s1 = (ts_sids s)(h := None)" "ts_hash s1 = (\<lambda>i. if i \<in> set xs then None else ts_hash s i)"
    "ts_contents s1 = ts_contents s" "ts_seen s1 = ts_seen s" "ts_hash_removed s1 = ts_hash_removed s"
    "ts_nonces s1 = ts_nonces s" "ts_final s1 = ts_final s" "om_wf (ts_assign_time s1)" "om_wf (ts_sid_removed s1)"
    using s by (auto simp: s1_def xs_def sids_erase_def fold_forget_sid_hash fold_forget_sid_om ts_wf_def
        split: option.split)
  have xs: "i \<in> set xs \<longleftrightarrow> ts_hash s i = Some h" for i
    using s by (cases "ts_sids s h") (auto simp: xs_def ts_wf_def ts_linked_def)
  have link: "ts_linked s1"
    using s s1(1,2) by (intro ts_linked_drop [of s s1 h]) (auto simp: ts_wf_def xs)
  have nn: "\<forall>h. mw_map (ts_contents s1) h \<noteq> Some None" using s s1 by (simp add: ts_wf_def)
  obtain n s2 where s2: "erase_contents s1 h = Inr (n, s2)"
    "s2 = s1\<lparr>ts_contents := mw_erase contents_size (ts_contents s1) h\<rparr>"
    "n = (case mw_map (ts_contents s1) h of Some (Some v) \<Rightarrow> bv_size v | _ \<Rightarrow> 0)"
    using erase_contents_spec [OF nn, of h] by metis
  let ?s = "s2\<lparr>ts_hash_removed := fst (om_emplace (ts_hash_removed s2) h t)\<rparr>"
  have "remove_transaction_by_hash t s h = Inr (n, ?s)"
    using s2(1) by (simp add: remove_transaction_by_hash_def flip: s1_def)
  moreover have "ts_wf ?s"
    using s s1 s2(2) link by (auto simp: ts_wf_def ts_linked_def mw_wf_erase)
  moreover have "removed_transaction ?s h"
    by (auto simp: removed_transaction_def om_emplace_def om_find_def split: option.split)
  ultimately show thesis
    using that s1 s2(2,3) xs by simp
qed

lemma remove_transactions_by_hashes_spec:
  assumes "ts_wf s"
  shows "\<exists>n s'. remove_transactions_by_hashes t s hs = Inr (n, s') \<and> ts_wf s' \<and>
    ts_sids s' = (\<lambda>h. if h \<in> set hs then None else ts_sids s h) \<and>
    mw_map (ts_contents s') = (\<lambda>h. if h \<in> set hs then None else mw_map (ts_contents s) h)"
  using assms
proof (induction hs arbitrary: s)
  case (Cons h hs)
  obtain n s1 where s1: "remove_transaction_by_hash t s h = Inr (n, s1)" "ts_wf s1"
    "ts_sids s1 = (ts_sids s)(h := None)" "mw_map (ts_contents s1) = (mw_map (ts_contents s))(h := None)"
    by (rule remove_transaction_by_hash_spec [OF Cons.prems])
  obtain m s2 where "remove_transactions_by_hashes t s1 hs = Inr (m, s2)" "ts_wf s2"
    "ts_sids s2 = (\<lambda>h. if h \<in> set hs then None else ts_sids s1 h)"
    "mw_map (ts_contents s2) = (\<lambda>h. if h \<in> set hs then None else mw_map (ts_contents s1) h)"
    using Cons.IH [OF s1(2)] by blast
  with s1 show ?case by auto
qed simp

lemma short_single:
  assumes "i \<in> set xs" and "\<not> 1 < length xs"
  shows "xs = [i]"
  using assms by (cases xs rule: list.exhaust; cases "tl xs") auto

lemma remove_transaction_by_short_id_spec:
  assumes s: "ts_wf s" and i: "ts_hash s i = Some h" and xs: "ts_sids s h = Some xs"
  obtains n s' where "remove_transaction_by_short_id t now s i dups = Inr (n, dups @ uset_erase i xs, s')"
    and "ts_wf s'" and "ts_sids s' = (ts_sids s)(h := None)"
    and "ts_hash s' = (\<lambda>j. if ts_hash s j = Some h then None else ts_hash s j)"
    and "mw_map (ts_contents s') = (mw_map (ts_contents s))(h := None)"
    and "removed_transaction s' h" and "ts_final s' = ts_final s" and "ts_seen s' = ts_seen s"
    and "n = (case mw_map (ts_contents s) h of Some (Some v) \<Rightarrow> bv_size v | _ \<Rightarrow> 0)"
proof -
  have mem: "j \<in> set xs \<longleftrightarrow> ts_hash s j = Some h" for j
    using s xs by (auto simp: ts_wf_def ts_linked_def)
  define r where "r = uset_erase i xs"
  have r: "(if 1 < length xs then let rest = uset_erase i xs in (rest, fold (forget_sid t) rest s) else ([], s)) =
      (r, fold (forget_sid t) r s)"
  proof (cases "1 < length xs")
    case False
    then have "xs = [i]" using mem i by (intro short_single) auto
    then show ?thesis by (simp add: r_def uset_erase_def)
  qed (simp add: r_def Let_def)
  have rset: "j \<in> set r \<longleftrightarrow> ts_hash s j = Some h \<and> j \<noteq> i" for j using mem by (auto simp: r_def)
  define s1 where "s1 = sids_erase h (fold (forget_sid t) r s)"
  define s2 where "s2 = s1\<lparr>ts_sid_removed := fst (om_emplace (ts_sid_removed s1) i t)\<rparr>"
  have s2: "ts_sids s2 = (ts_sids s)(h := None)" "ts_hash s2 = (\<lambda>j. if j \<in> set r then None else ts_hash s j)"
    "ts_contents s2 = ts_contents s" "ts_seen s2 = ts_seen s" "ts_hash_removed s2 = ts_hash_removed s"
    "ts_nonces s2 = ts_nonces s" "ts_final s2 = ts_final s" "om_wf (ts_assign_time s2)" "om_wf (ts_sid_removed s2)"
    using s by (auto simp: s1_def s2_def sids_erase_def fold_forget_sid_hash fold_forget_sid_om ts_wf_def)
  have nn: "\<forall>h. mw_map (ts_contents s2) h \<noteq> Some None" using s s2 by (simp add: ts_wf_def)
  obtain n s3 where s3: "erase_contents s2 h = Inr (n, s3)"
    "s3 = s2\<lparr>ts_contents := mw_erase contents_size (ts_contents s2) h\<rparr>"
    "n = (case mw_map (ts_contents s2) h of Some (Some v) \<Rightarrow> bv_size v | _ \<Rightarrow> 0)"
    using erase_contents_spec [OF nn, of h] by metis
  define s4 where "s4 = s3\<lparr>ts_hash_removed := fst (om_emplace (ts_hash_removed s3) h now),
    ts_hash := (ts_hash s3)(i := None), ts_assign_time := fst (om_erase (ts_assign_time s3) i)\<rparr>"
  have eq: "remove_transaction_by_short_id t now s i dups = Inr (n, dups @ r, s4)"
    using i xs r s3(1) by (simp add: remove_transaction_by_short_id_def s4_def flip: s1_def s2_def)
  have hash: "ts_hash s4 = (\<lambda>j. if ts_hash s j = Some h then None else ts_hash s j)"
    using s2(2) s3(2) i by (auto simp: s4_def rset)
  have "ts_linked s4"
    using s s2(1) s3(2) hash by (intro ts_linked_drop [of s s4 h]) (auto simp: ts_wf_def s4_def)
  then have "ts_wf s4"
    using s s2 s3(2) hash by (auto simp: ts_wf_def s4_def mw_wf_erase)
  moreover have "removed_transaction s4 h"
    by (auto simp: s4_def removed_transaction_def om_emplace_def om_find_def split: option.split)
  ultimately show thesis using that eq hash s2 s3(2,3) by (simp add: s4_def r_def)
qed

lemma remove_transaction_by_short_id_total:
  assumes s: "ts_wf s"
  shows "\<exists>n d s'. remove_transaction_by_short_id t now s i dups = Inr (n, d, s') \<and> ts_wf s' \<and>
    ts_hash s' i = None \<and> (\<forall>j. ts_hash s j = None \<longrightarrow> ts_hash s' j = None) \<and>
    ts_seen s' = ts_seen s \<and> ts_final s' = ts_final s \<and> (ts_nonempty s \<longrightarrow> ts_nonempty s')"
proof (cases "ts_hash s i")
  case None
  then show ?thesis using s by (simp add: remove_transaction_by_short_id_def)
next
  case (Some h)
  then obtain xs where xs: "ts_sids s h = Some xs" using s by (auto simp: ts_wf_def ts_linked_def)
  obtain n s' where "remove_transaction_by_short_id t now s i dups = Inr (n, dups @ uset_erase i xs, s')"
    "ts_wf s'" "ts_sids s' = (ts_sids s)(h := None)"
    "ts_hash s' = (\<lambda>j. if ts_hash s j = Some h then None else ts_hash s j)" "ts_seen s' = ts_seen s" "ts_final s' = ts_final s"
    by (rule remove_transaction_by_short_id_spec [OF s Some xs])
  then show ?thesis using Some by (auto simp: ts_nonempty_def)
qed

lemma remove_all_short_ids_total:
  assumes "ts_wf s"
  shows "\<exists>n d s'. remove_all_short_ids t now s is acc dups = Inr (n, d, s') \<and> ts_wf s' \<and>
    (\<forall>i \<in> set is. ts_hash s' i = None) \<and> (\<forall>j. ts_hash s j = None \<longrightarrow> ts_hash s' j = None) \<and>
    ts_seen s' = ts_seen s \<and> ts_final s' = ts_final s \<and> (ts_nonempty s \<longrightarrow> ts_nonempty s')"
  using assms
proof (induction "is" arbitrary: s acc dups)
  case (Cons i "is")
  obtain n d s1 where s1: "remove_transaction_by_short_id t now s i dups = Inr (n, d, s1)" "ts_wf s1"
    "ts_hash s1 i = None" "\<forall>j. ts_hash s j = None \<longrightarrow> ts_hash s1 j = None" "ts_seen s1 = ts_seen s"
    "ts_final s1 = ts_final s" "ts_nonempty s \<longrightarrow> ts_nonempty s1"
    using remove_transaction_by_short_id_total [OF Cons.prems] by metis
  obtain m e s2 where "remove_all_short_ids t now s1 is (u64 (acc + n)) d = Inr (m, e, s2)" "ts_wf s2"
    "\<forall>i \<in> set is. ts_hash s2 i = None" "\<forall>j. ts_hash s1 j = None \<longrightarrow> ts_hash s2 j = None" "ts_seen s2 = ts_seen s1"
    "ts_final s2 = ts_final s1" "ts_nonempty s1 \<longrightarrow> ts_nonempty s2"
    using Cons.IH [OF s1(2)] by metis
  with s1 show ?case by auto
qed simp

lemma track_one_frame [simp]:
  "ts_wf (track_one i s) = ts_wf s" "ts_seen (track_one i s) = ts_seen s" "ts_final (track_one i s) = ts_final s"
  "ts_hash (track_one i s) = ts_hash s" "ts_nonempty (track_one i s) = ts_nonempty s"
  by (auto simp: track_one_def track_seen_transaction_def ts_wf_def ts_linked_def ts_nonempty_def split: option.split)

lemma fold_track_one_frame [simp]:
  "ts_wf (fold track_one xs s) = ts_wf s" "ts_seen (fold track_one xs s) = ts_seen s"
  "ts_final (fold track_one xs s) = ts_final s" "ts_hash (fold track_one xs s) = ts_hash s"
  "ts_nonempty (fold track_one xs s) = ts_nonempty s"
  by (induction xs arbitrary: s) auto

definition seen_after :: "(hash, sid list) ordered_map \<Rightarrow> hash \<Rightarrow> sid list \<Rightarrow> (hash \<times> sid list) list" where
  "seen_after m block short_ids =
     (if block \<in> fst ` set (om_items m) then om_items m else om_items m @ [(block, short_ids)])"

lemma seen_after_nonempty: "seen_after m block short_ids \<noteq> []"
  by (auto simp: seen_after_def)

lemma track_seen_short_ids_spec:
  assumes s: "ts_wf s"
  shows "\<exists>n d s'. track_seen_short_ids t now s block short_ids = Inr (n, d, s') \<and> ts_wf s' \<and>
    (ts_nonempty s \<longrightarrow> ts_nonempty s') \<and> ts_final s' = ts_final s \<and>
    om_items (ts_seen s') =
      (let L = seen_after (ts_seen s) block short_ids in if ts_final s \<le> length L then tl L else L) \<and>
    (ts_final s \<le> length (seen_after (ts_seen s) block short_ids) \<longrightarrow>
      (\<forall>i \<in> set (snd (hd (seen_after (ts_seen s) block short_ids))). ts_hash s' i = None))"
proof -
  let ?L = "seen_after (ts_seen s) block short_ids"
  define m where "m = fst (om_emplace (ts_seen s) block short_ids)"
  have m: "om_wf m" "om_items m = ?L"
    using s om.items_emplace [of "ts_seen s" block short_ids] by (auto simp: m_def ts_wf_def seen_after_def)
  define s1 where "s1 = s\<lparr>ts_seen := m\<rparr>"
  have s1: "ts_wf s1" "ts_seen s1 = m" "ts_final s1 = ts_final s" "ts_nonempty s1 = ts_nonempty s"
    using s m by (auto simp: s1_def ts_wf_def ts_linked_def ts_nonempty_def)
  have "block \<in> fst ` set ?L" by (auto simp: seen_after_def)
  then obtain sids where sids: "map_of (om_items m) block = Some sids"
    using m by (metis domIff dom_map_of_conv_image_fst not_Some_eq)
  then have idx: "om_index m block = Inr sids" using om_index_items [OF m(1)] by simp
  define s2 where "s2 = fold track_one sids s1"
  have s2: "ts_wf s2" "ts_seen s2 = m" "ts_final s2 = ts_final s" "ts_nonempty s2 = ts_nonempty s"
    using s1 by (simp_all add: s2_def)
  have eq: "track_seen_short_ids t now s block short_ids =
      (if ts_final s2 \<le> om_size (ts_seen s2) then
         (case om_begin (ts_seen s2) of None \<Rightarrow> Inl MemFault
          | Some (b, final_sids) \<Rightarrow> rbind (remove_all_short_ids t now s2 final_sids 0 []) (\<lambda>(len, dups, s).
              Inr (len, dups, s\<lparr>ts_seen := fst (om_erase (ts_seen s) b)\<rparr>)))
       else Inr (0, [], s2))"
    by (simp add: track_seen_short_ids_def idx s1(2,3) s2(2,3) flip: m_def s1_def s2_def)
  show ?thesis
  proof (cases "ts_final s \<le> length ?L")
    case False
    then show ?thesis using eq s2 m by (simp add: om_size_items)
  next
    case True
    obtain b fs rest where L: "?L = (b, fs) # rest"
      using seen_after_nonempty [of "ts_seen s" block short_ids] by (metis list.exhaust prod.collapse)
    obtain n d s3 where s3: "remove_all_short_ids t now s2 fs 0 [] = Inr (n, d, s3)" "ts_wf s3"
      "\<forall>i \<in> set fs. ts_hash s3 i = None" "ts_seen s3 = ts_seen s2" "ts_final s3 = ts_final s2"
      "ts_nonempty s2 \<longrightarrow> ts_nonempty s3"
      using remove_all_short_ids_total [OF s2(1)] by metis
    let ?s = "s3\<lparr>ts_seen := fst (om_erase (ts_seen s3) b)\<rparr>"
    have beg: "om_begin (ts_seen s2) = Some (b, fs)" using m L s2(2) by (simp add: om_begin_items)
    have "track_seen_short_ids t now s block short_ids = Inr (n, d, ?s)"
      unfolding eq using True m(2) beg s2(2,3) s3(1) by (simp add: om_size_items)
    moreover have "om_items (ts_seen ?s) = rest"
      using om.erase_oldest [OF m(1)] m(2) L s2(2) s3(4) by simp
    moreover have "ts_wf ?s" using s3(2) m(1) s2(2) s3(4) by (auto simp: ts_wf_def ts_linked_def)
    ultimately show ?thesis using L True s2 s3 by (simp add: ts_nonempty_def)
  qed
qed

lemma ts_wf_simple_ops [wf_intros]:
  "ts_wf s \<Longrightarrow> ts_wf (on_block_cleaned_up s b)"
  "ts_wf s \<Longrightarrow> ts_wf (set_final_tx_confirmations_count s n)"
  "ts_wf s \<Longrightarrow> ts_wf (on_finished_reading_tx_pool hins s)"
  "ts_wf s \<Longrightarrow> ts_wf (track_seen_transaction s h)"
  "ts_wf s \<Longrightarrow> ts_wf (set_sender_nonce_reuse_setting s t g)"
  "ts_wf s \<Longrightarrow> ts_wf (ts_clear s)"
  by (auto simp: ts_wf_def ts_linked_def on_block_cleaned_up_def set_final_tx_confirmations_count_def
      on_finished_reading_tx_pool_def track_seen_transaction_def set_sender_nonce_reuse_setting_def
      ts_clear_def sids_clear_def Let_def)

text \<open>The validator keeps the map of sender nonces well-formed.\<close>

definition validator_ok :: "validator \<Rightarrow> bool" where
  "validator_ok validate \<longleftrightarrow>
     (\<forall>v fee now m a g st m'. om_wf m \<longrightarrow> validate v fee now m a g = Inr (st, m') \<longrightarrow> om_wf m')"

lemma msg_tx_build_frame:
  assumes "msg_tx_build_tx_status validate s i h v ts now en fee relay = Inr (st, vst, s')"
    and "validator_ok validate" and "ts_wf s"
  obtains m where "s' = s\<lparr>ts_nonces := m\<rparr>" and "om_wf m"
proof -
  have wf: "om_wf (ts_nonces s)" using assms(3) by (simp add: ts_wf_def)
  have "s' = s \<or> (\<exists>m. s' = s\<lparr>ts_nonces := m\<rparr> \<and> om_wf m)"
    using assms(1,2) wf
    by (auto simp: msg_tx_build_tx_status_def Let_def validator_ok_def rbind_eq_Inr_iff split: if_splits)
  moreover have "s = s\<lparr>ts_nonces := ts_nonces s\<rparr>" by simp
  moreover note wf
  ultimately show thesis using that by metis
qed

lemma ts_wf_nonces: "ts_wf s \<Longrightarrow> om_wf m \<Longrightarrow> ts_wf (s\<lparr>ts_nonces := m\<rparr>)"
  by (auto simp: ts_wf_def ts_linked_def)

lemma set_transaction_contents_total:
  assumes "ts_wf s"
  obtains r s' where "set_transaction_contents s h v = Inr (r, s')" and "ts_wf s'"
    and "ts_sids s' = ts_sids s" and "ts_hash s' = ts_hash s" and "has_transaction_contents s' h"
  using assms
proof (cases rule: set_transaction_contents_cases [of s h v])
  case present
  then show thesis using that assms by (auto simp: has_transaction_contents_def mw_find_def)
next
  case absent
  then show thesis using that ts_wf_set_transaction_contents [OF assms absent(2)]
    by (auto simp: has_transaction_contents_def mw_find_def)
qed

lemma store_msg_contents_total:
  assumes "ts_wf s"
  obtains r c s' where "store_msg_contents st s h v = Inr (r, c, s')" and "ts_wf s'"
    and "ts_sids s' = ts_sids s" and "ts_hash s' = ts_hash s"
proof (cases "bit st TX_STATUS_MSG_HAS_CONTENT \<and> \<not> bit st TX_STATUS_SEEN_CONTENT")
  case True
  obtain r s' where "set_transaction_contents s h v = Inr (r, s')" "ts_wf s'" "ts_sids s' = ts_sids s" "ts_hash s' = ts_hash s"
    by (rule set_transaction_contents_total [OF assms])
  with True show thesis using that by (simp add: store_msg_contents_def)
next
  case False
  then have "store_msg_contents st s h v = Inr ((False, 0), False, s)" by (auto simp: store_msg_contents_def)
  with assms show thesis using that by blast
qed

lemma ts_wf_finish_transaction_msg:
  assumes s: "ts_wf s" and ins: "placement ins"
  shows "ts_wf (snd (finish_transaction_msg ins hins now s h i st vst r c))"
  using assms
  by (simp add: finish_transaction_msg_def Let_def split_beta ts_wf_assign_short_id ts_wf_sids_index)

lemma process_transaction_msg_wf:
  assumes s: "ts_wf s" and ins: "placement ins" and V: "validator_ok validate"
    and eq: "process_transaction_msg ins hins validate now s h v i ts ct en fee relay = Inr (r, s')"
  shows "ts_wf s'"
proof -
  obtain st vst s1 where b: "msg_tx_build_tx_status validate s i h v ts ct en fee relay = Inr (st, vst, s1)"
    using eq by (auto simp: process_transaction_msg_def elim!: rbind_InrE)
  have s1: "ts_wf s1" using msg_tx_build_frame [OF b V s] s ts_wf_nonces by metis
  obtain q c s2 where s2: "store_msg_contents st s1 h v = Inr (q, c, s2)" "ts_wf s2"
    by (rule store_msg_contents_total [OF s1])
  have "ts_wf (snd (finish_transaction_msg ins hins now s2 h i st vst q c))"
    using s2(2) ins by (rule ts_wf_finish_transaction_msg)
  with eq b s1 s2(1) show ?thesis by (auto simp: process_transaction_msg_def split: if_splits)
qed

lemma process_gateway_transaction_from_bdn_wf:
  assumes s: "ts_wf s" and ins: "placement ins"
  shows "\<exists>r s'. process_gateway_transaction_from_bdn ins hins now s h v i cmp = Inr (r, s') \<and> ts_wf s'"
proof -
  have s1: "ts_wf (assign_if_new ins hins now s h i)"
    using s ins by (simp add: assign_if_new_def ts_wf_assign_short_id)
  obtain r s2 where "set_transaction_contents (assign_if_new ins hins now s h i) h v = Inr (r, s2)" "ts_wf s2"
    by (rule set_transaction_contents_total [OF s1])
  then show ?thesis
    using s s1 by (auto simp: process_gateway_transaction_from_bdn_def Let_def)
qed

end
