(* ===== verification/BtcCompression.thy ===== *)
theory BtcCompression
  imports BtcMessage TxService
begin

text \<open>
  \<open>BtcBlockCompressionTask\<close> and \<open>BtcBlockCompressionSubTask\<close> of \<^verbatim>\<open>src/lib/libtpe/tpe/task\<close>: a
  bitcoin block is cut into runs of consecutive transactions, one per sub-task; each sub-task
  replaces the transactions that have a short id by the indicator byte, and the main task
  concatenates the results behind the block header and appends the short ids.

  A sub-task only reads the block and the service and writes its own buffer, so the order in
  which the pool runs them does not matter: the model runs a sub-task when the main task waits for
  it, with one reading of the clock for all. An exception of a sub-task is kept by its task object and thrown again by \<^verbatim>\<open>wait\<close>. Sub-task
  objects are reused for the next block, with the fields that \<^verbatim>\<open>init\<close> does not reset.
\<close>

record cmp_sub =
  cs_out :: byte_array
  cs_sids :: "sid list"
  cs_ignored :: "sid list"
  cs_offsets :: "(nat \<times> nat \<times> nat) list"

definition cmp_sub_new :: "nat \<Rightarrow> cmp_sub" where
  "cmp_sub_new capacity =
     \<lparr>cs_out = ba_with_capacity capacity, cs_sids = [], cs_ignored = [], cs_offsets = []\<rparr>"

definition cmp_sub_init :: "cmp_sub \<Rightarrow> cmp_sub res" where
  \<comment> \<open>the list of ignored short ids is not cleared\<close>
  "cmp_sub_init cs = rbind (ba_reset (cs_out cs)) (\<lambda>out. Inr (cs\<lparr>cs_sids := [], cs_out := out\<rparr>))"

definition cmp_assign_time :: "tx_service \<Rightarrow> hash \<Rightarrow> real res" where
  "cmp_assign_time s h =
     (if has_short_id_hash s h then rbind (get_short_id s h) (get_short_id_assign_time s) else Inr 0)"

definition cmp_put ::
  "tx_service \<Rightarrow> buffer_view \<Rightarrow> bool \<Rightarrow> real \<Rightarrow> hash \<Rightarrow> nat \<Rightarrow> nat \<Rightarrow> nat \<Rightarrow> cmp_sub \<Rightarrow> (nat \<times> cmp_sub) res" where
  \<comment> \<open>what the loop does with the transaction between \<open>from\<close> and \<open>offset\<close> once its hash is known\<close>
  "cmp_put s v enable max_timestamp h from offset output_offset cs =
     rbind (cmp_assign_time s h) (\<lambda>assign_time.
       if \<not> has_short_id_hash s h \<or> \<not> enable \<or> max_timestamp < assign_time then
         rbind (if has_short_id_hash s h
                then rbind (get_short_id s h) (\<lambda>i. Inr (cs\<lparr>cs_ignored := cs_ignored cs @ [i]\<rparr>))
                else Inr cs) (\<lambda>cs.
         rbind (ba_copy_from_buffer (cs_out cs) v output_offset from (u64_sub offset from)) (\<lambda>(out, output_offset).
           Inr (output_offset, cs\<lparr>cs_out := out\<rparr>)))
       else
         rbind (ba_set_le 1 (cs_out cs) (unat BTC_SHORT_ID_INDICATOR) output_offset) (\<lambda>(out, output_offset).
         rbind (get_short_id s h) (\<lambda>i.
           Inr (output_offset, cs\<lparr>cs_out := out, cs_sids := cs_sids cs @ [i]\<rparr>))))"

definition cmp_tx ::
  "(byte list \<Rightarrow> byte list) \<Rightarrow> tx_service \<Rightarrow> buffer_view \<Rightarrow> bool \<Rightarrow> real \<Rightarrow> nat \<times> nat \<times> nat \<Rightarrow> nat \<Rightarrow> cmp_sub \<Rightarrow>
   (nat \<times> cmp_sub) res" where
  "cmp_tx H s v enable max_timestamp offsets output_offset cs =
     (let (from, witness_offset, offset) = offsets
      in rbind (get_tx_id H v from witness_offset offset) (\<lambda>sha.
           cmp_put s v enable max_timestamp (sha_binary sha) from offset output_offset cs))"

text \<open>The loop over the offsets of a sub-task; the body is a parameter, the Ontology sub-task has its own.\<close>

fun cmp_txs ::
  "(nat \<times> nat \<times> nat \<Rightarrow> nat \<Rightarrow> cmp_sub \<Rightarrow> (nat \<times> cmp_sub) res) \<Rightarrow> (nat \<times> nat \<times> nat) list \<Rightarrow> nat \<Rightarrow> cmp_sub \<Rightarrow>
   cmp_sub res" where
  "cmp_txs body [] output_offset cs = Inr cs"
| "cmp_txs body (off # offs) output_offset cs =
     rbind (body off output_offset cs) (\<lambda>(output_offset, cs). cmp_txs body offs output_offset cs)"

definition cmp_sub_execute ::
  "(byte list \<Rightarrow> byte list) \<Rightarrow> tx_service \<Rightarrow> buffer_view \<Rightarrow> bool \<Rightarrow> real \<Rightarrow> real \<Rightarrow> cmp_sub \<Rightarrow> cmp_sub res" where
  "cmp_sub_execute H s v enable now min_age cs =
     cmp_txs (cmp_tx H s v enable (now - min_age)) (cs_offsets cs) 0 cs"

section \<open>The main task\<close>

record cmp_task =
  ct_out :: byte_array
  ct_subs :: "cmp_sub list"
  ct_sids :: "sid list"
  ct_ignored :: "sid list"
  ct_txn_count :: nat
  ct_prev_hash :: "sha256 option"
  ct_hash :: "sha256 option"
  ct_compressed_hash :: "sha256 option"
  ct_min_count :: nat

definition cmp_task_new :: "nat \<Rightarrow> nat \<Rightarrow> cmp_task" where
  "cmp_task_new capacity minimal_tx_count =
     \<lparr>ct_out = ba_with_capacity capacity, ct_subs = [], ct_sids = [], ct_ignored = [], ct_txn_count = 0,
      ct_prev_hash = None, ct_hash = None, ct_compressed_hash = None, ct_min_count = minimal_tx_count\<rparr>"

definition cmp_init :: "bool \<Rightarrow> cmp_task \<Rightarrow> buffer_view \<Rightarrow> cmp_task res" where
  \<comment> \<open>\<open>shared\<close>: somebody else still holds the output buffer of the last block\<close>
  "cmp_init shared c v =
     rbind (if shared then Inr (ba_with_capacity (bv_size v))
            else ba_reset (ba_reserve (ct_out c) (bv_size v))) (\<lambda>out.
       Inr (c\<lparr>ct_out := out, ct_sids := [], ct_ignored := [], ct_txn_count := 0,
             ct_prev_hash := None, ct_hash := None, ct_compressed_hash := None\<rparr>))"

definition cmp_init_sub_tasks :: "nat \<Rightarrow> nat \<Rightarrow> cmp_sub list \<Rightarrow> cmp_sub list" where
  "cmp_init_sub_tasks pool_size tx_count subs =
     (if length subs < pool_size then
        subs @ replicate (pool_size - length subs) (cmp_sub_new (max 10000 (tx_count div pool_size) * 62))
      else map (\<lambda>cs. cs\<lparr>cs_offsets := []\<rparr>) subs)"

definition bulk_idx :: "nat \<Rightarrow> nat \<Rightarrow> nat \<Rightarrow> nat" where
  "bulk_idx pool_size bulk_size count = min (count div bulk_size) (pool_size - 1)"

text \<open>
  The loop of \<^verbatim>\<open>_dispatch\<close>: \<open>nxt\<close> gives the offset behind a transaction and what the loop pushes for it,
  \<open>queue\<close> holds the indices of the enqueued sub-tasks.
\<close>

fun cmp_dispatch_loop ::
  "(nat \<Rightarrow> (nat \<times> nat \<times> nat \<times> nat) res) \<Rightarrow> nat \<Rightarrow> nat \<Rightarrow> nat \<Rightarrow> nat \<Rightarrow> nat \<Rightarrow> nat \<Rightarrow> cmp_sub list \<Rightarrow> nat list \<Rightarrow>
   (nat \<times> cmp_sub list \<times> nat list) res" where
  "cmp_dispatch_loop nxt pool_size bulk_size 0 count offset prev_idx subs queue = Inr (prev_idx, subs, queue)"
| "cmp_dispatch_loop nxt pool_size bulk_size (Suc left) count offset prev_idx subs queue =
     (let idx = bulk_idx pool_size bulk_size count
      in rbind (nxt offset) (\<lambda>(offset', offsets).
         let cs = subs ! idx;
             subs = subs[idx := cs\<lparr>cs_offsets := cs_offsets cs @ [offsets]\<rparr>];
             queue = (if prev_idx < idx then queue @ [prev_idx] else queue)
         in cmp_dispatch_loop nxt pool_size bulk_size left (count + 1) offset' idx subs queue))"

definition cmp_next :: "reader \<Rightarrow> nat \<Rightarrow> (nat \<times> nat \<times> nat \<times> nat) res" where
  "cmp_next rd offset =
     rbind (get_next_tx_offset rd offset) (\<lambda>(offset', witness_offset). Inr (offset', offset, witness_offset, offset'))"

definition cmp_dispatch :: "cmp_task \<Rightarrow> reader \<Rightarrow> nat \<Rightarrow> nat \<Rightarrow> nat \<Rightarrow> (nat \<times> cmp_sub list \<times> nat list) res" where
  "cmp_dispatch c rd pool_size tx_count offset =
     (let subs = cmp_init_sub_tasks pool_size tx_count (ct_subs c);
          bulk_size = max (tx_count div pool_size) (max pool_size (ct_min_count c))
      in rbind (cmp_dispatch_loop (cmp_next rd) pool_size bulk_size tx_count 0 offset 0 subs []) (\<lambda>(prev_idx, subs, queue).
           Inr (prev_idx, subs, queue @ [prev_idx])))"

definition cmp_run_sub ::
  "(byte list \<Rightarrow> byte list) \<Rightarrow> tx_service \<Rightarrow> buffer_view \<Rightarrow> bool \<Rightarrow> real \<Rightarrow> real \<Rightarrow> cmp_sub \<Rightarrow> cmp_sub res" where
  "cmp_run_sub H s v enable now min_age cs =
     rbind (cmp_sub_init cs) (cmp_sub_execute H s v enable now min_age)"

definition cmp_on_sub_task_completed :: "cmp_task \<Rightarrow> cmp_sub \<Rightarrow> (nat \<times> cmp_task) res" where
  "cmp_on_sub_task_completed c cs =
     rbind (ba_append (ct_out c) (cs_out cs)) (\<lambda>out.
       Inr (ba_len out, c\<lparr>ct_out := out, ct_sids := ct_sids c @ cs_sids cs, ct_ignored := ct_ignored c @ cs_ignored cs\<rparr>))"

fun cmp_collect ::
  "(cmp_sub \<Rightarrow> cmp_sub res) \<Rightarrow> nat list \<Rightarrow> nat \<Rightarrow> cmp_task \<Rightarrow> (nat \<times> cmp_task) res" where
  "cmp_collect run [] output_offset c = Inr (output_offset, c)"
| "cmp_collect run (i # is) output_offset c =
     rbind (run (ct_subs c ! i)) (\<lambda>cs.
     rbind (cmp_on_sub_task_completed (c\<lparr>ct_subs := (ct_subs c)[i := cs]\<rparr>) cs) (\<lambda>(output_offset, c).
       cmp_collect run is output_offset c))"

definition cmp_set_output_buffer :: "byte_array \<Rightarrow> sid list \<Rightarrow> nat \<Rightarrow> byte_array res" where
  "cmp_set_output_buffer out sids output_offset =
     rbind (ba_set_le 8 out output_offset 0) (\<lambda>(out, _).
     rbind (ba_set_le 4 out (u32 (length sids)) output_offset) (\<lambda>(out, output_offset).
     rbind (if 0 < u32 (length sids) then
              let n = u32 (length sids); out = ba_resize out (u64 (output_offset + n * 4))
              in ba_poke out output_offset (take (n * 4) (concat (map (le_bytes 4) sids)))
            else Inr out) (\<lambda>out. Inr (ba_set_output out))))"

definition cmp_execute ::
  "(byte list \<Rightarrow> byte list) \<Rightarrow> tx_service \<Rightarrow> nat \<Rightarrow> bool \<Rightarrow> real \<Rightarrow> real \<Rightarrow> cmp_task \<Rightarrow> buffer_view \<Rightarrow> cmp_task res" where
  "cmp_execute H s pool_size enable now min_age c v =
     rbind (get_prev_block_hash v) (\<lambda>prev.
     rbind (generate_block_hash H v) (\<lambda>hash.
     rbind (get_tx_count (bv_read v)) (\<lambda>(tx_count, offset).
     let c = c\<lparr>ct_prev_hash := Some prev, ct_hash := Some hash, ct_txn_count := tx_count\<rparr>
     in rbind (cmp_dispatch c (bv_read v) pool_size tx_count offset) (\<lambda>(last_idx, subs, queue).
        rbind (ba_copy_from_buffer (ct_out c) v 8 0 offset) (\<lambda>(out, output_offset).
        rbind (cmp_collect (cmp_run_sub H s v enable now min_age) [0..<last_idx + 1] output_offset
                 (c\<lparr>ct_subs := subs, ct_out := out\<rparr>)) (\<lambda>(output_offset, c).
        rbind (cmp_set_output_buffer (ct_out c) (ct_sids c) output_offset) (\<lambda>out.
        rbind (double_sha256 H (bv_msg (ba_arr out)) 0 (ba_len out)) (\<lambda>digest.
          Inr (c\<lparr>ct_out := out, ct_compressed_hash := Some digest\<rparr>)))))))))"

definition cmp_block ::
  "(byte list \<Rightarrow> byte list) \<Rightarrow> tx_service \<Rightarrow> nat \<Rightarrow> bool \<Rightarrow> real \<Rightarrow> real \<Rightarrow> bool \<Rightarrow> cmp_task \<Rightarrow> buffer_view \<Rightarrow> cmp_task res" where
  "cmp_block H s pool_size enable now min_age shared c v =
     rbind (cmp_init shared c v) (\<lambda>c. cmp_execute H s pool_size enable now min_age c v)"

end
