(* ===== verification/EthCompression.thy ===== *)
theory EthCompression
  imports EthMessage BtcCompression
begin

text \<open>
  \<open>EthBlockCompressionTask\<close> of \<^verbatim>\<open>src/lib/libtpe/tpe/task\<close>. The task runs on one thread and uses no
  sub-tasks. It leaves room for the longest prefixes, writes the transactions behind it, and then puts
  the prefix of the transactions, the block header, the prefix of the message and the offset of the
  short ids in front of them, going backwards. The result starts at \<^verbatim>\<open>starting_offset\<close> of the
  output buffer.

  The loop over the transactions ends when the offset of the next transaction reaches the end of the
  list; with the wrap-around of that offset it need not end, so it is a partial function with the value
  \<open>None\<close> for a run that never ends. The clock is read once, before the loop.
\<close>

record eth_cmp =
  ec_out :: byte_array
  ec_prev_hash :: "sha256 option"
  ec_hash :: "sha256 option"
  ec_compressed_hash :: "sha256 option"
  ec_txn_count :: nat
  ec_sids :: "sid list"
  ec_ignored :: "sid list"
  ec_content_size :: nat
  ec_starting_offset :: nat

definition eth_cmp_new :: "nat \<Rightarrow> eth_cmp" where
  "eth_cmp_new capacity =
     \<lparr>ec_out = ba_with_capacity capacity, ec_prev_hash = None, ec_hash = None, ec_compressed_hash = None,
      ec_txn_count = 0, ec_sids = [], ec_ignored = [], ec_content_size = 0, ec_starting_offset = 0\<rparr>"

definition eth_cmp_init :: "bool \<Rightarrow> eth_cmp \<Rightarrow> buffer_view \<Rightarrow> eth_cmp res" where
  \<comment> \<open>\<open>shared\<close>: somebody else still holds the output buffer of the last block\<close>
  "eth_cmp_init shared c v =
     rbind (if shared then Inr (ba_with_capacity (bv_size v))
            else ba_reset (ba_reserve (ec_out c) (bv_size v))) (\<lambda>out.
       Inr (c\<lparr>ec_out := out, ec_sids := [], ec_ignored := [], ec_hash := None, ec_prev_hash := None,
             ec_compressed_hash := None, ec_content_size := 0, ec_txn_count := 0, ec_starting_offset := 0\<rparr>))"

section \<open>One transaction\<close>

definition eth_tx_hash_at :: "buffer_view \<Rightarrow> nat \<Rightarrow> sha256 res" where
  \<comment> \<open>a list is hashed with its prefix, the string of a typed transaction without\<close>
  "eth_tx_hash_at v tx_from =
     rbind (bv_consume v tx_from) (\<lambda>(tx_item_len, rlp_type, tx_item_offset).
       if rlp_type = RLP_LIST
       then keccak_sha3 (bv_read v) tx_from (u64_sub (u64 (tx_item_offset + tx_item_len)) tx_from)
       else keccak_sha3 (bv_read v) tx_item_offset tx_item_len)"

definition eth_put_full ::
  "buffer_view \<Rightarrow> nat \<Rightarrow> nat \<Rightarrow> byte_array \<Rightarrow> byte_array \<Rightarrow> nat \<Rightarrow> (byte_array \<times> byte_array \<times> nat) res" where
  \<comment> \<open>\<open>pfx\<close> is the buffer for the prefix of the content, which is reused for every transaction\<close>
  "eth_put_full v tx_from tx_offset pfx out output_offset =
     (let tx_content_bytes_len = u64_sub tx_offset tx_from
      in rbind (get_length_prefix_str ba_len ba_resize ba_poke pfx tx_content_bytes_len 0) (\<lambda>(pfx, tx_content_prefix_offset).
         let short_tx_content_size = u64 (1 + tx_content_prefix_offset + tx_content_bytes_len)
         in rbind (get_length_prefix_list ba_len ba_resize ba_poke out short_tx_content_size output_offset) (\<lambda>(out, output_offset).
            rbind (ba_copy_from_array out [ETH_FULL_TX_INDICATOR] output_offset 0 1) (\<lambda>(out, output_offset).
            rbind (ba_copy_from_array out (ba_arr pfx) output_offset 0 tx_content_prefix_offset) (\<lambda>(out, output_offset).
            rbind (if 0 < tx_content_bytes_len then ba_copy_from_buffer out v output_offset tx_from (u64_sub tx_offset tx_from)
                   else Inr (out, output_offset)) (\<lambda>(out, output_offset).
              Inr (pfx, out, output_offset)))))))"

definition eth_cmp_tx ::
  "tx_service \<Rightarrow> buffer_view \<Rightarrow> bool \<Rightarrow> real \<Rightarrow> nat \<Rightarrow> byte_array \<Rightarrow> nat \<Rightarrow> eth_cmp \<Rightarrow> (nat \<times> byte_array \<times> nat \<times> eth_cmp) res" where
  "eth_cmp_tx s v enable max_timestamp tx_from pfx output_offset c =
     rbind (eth_get_next_tx_offset v tx_from) (\<lambda>(tx_offset, _).
     rbind (eth_tx_hash_at v tx_from) (\<lambda>sha.
     let h = sha_binary sha
     in rbind (cmp_assign_time s h) (\<lambda>assign_time.
        rbind (if \<not> has_short_id_hash s h \<or> \<not> enable \<or> max_timestamp < assign_time then
                 rbind (if has_short_id_hash s h
                        then rbind (get_short_id s h) (\<lambda>i. Inr (c\<lparr>ec_ignored := ec_ignored c @ [i]\<rparr>))
                        else Inr c) (\<lambda>c.
                 rbind (eth_put_full v tx_from tx_offset pfx (ec_out c) output_offset) (\<lambda>(pfx, out, output_offset).
                   Inr (pfx, output_offset, c\<lparr>ec_out := out\<rparr>)))
               else
                 rbind (get_short_id s h) (\<lambda>i.
                 rbind (ba_copy_from_array (ec_out c) [ETH_RLP_OF_SHORT_TX, ETH_SHORT_ID_INDICATOR, ETH_SHORT_ID_INDICATOR]
                          output_offset 0 3) (\<lambda>(out, output_offset).
                   Inr (pfx, output_offset, c\<lparr>ec_sids := ec_sids c @ [i], ec_out := out\<rparr>)))) (\<lambda>(pfx, output_offset, c).
          Inr (tx_offset, pfx, output_offset, c\<lparr>ec_txn_count := u64 (ec_txn_count c + 1)\<rparr>)))))"

partial_function (option) eth_cmp_txs ::
  "tx_service \<Rightarrow> buffer_view \<Rightarrow> bool \<Rightarrow> real \<Rightarrow> nat \<Rightarrow> nat \<Rightarrow> byte_array \<Rightarrow> nat \<Rightarrow> eth_cmp \<Rightarrow> ((nat \<times> eth_cmp) res) option" where
  "eth_cmp_txs s v enable max_timestamp txn_end_offset tx_from pfx output_offset c =
     (if tx_from < txn_end_offset then
        (case eth_cmp_tx s v enable max_timestamp tx_from pfx output_offset c of
           Inl e \<Rightarrow> Some (Inl e)
         | Inr r \<Rightarrow> (case r of (tx_offset, pfx, output_offset, c) \<Rightarrow>
             eth_cmp_txs s v enable max_timestamp txn_end_offset tx_offset pfx output_offset c))
      else Some (Inr (output_offset, c)))"

section \<open>The whole block\<close>

definition eth_put_list_prefix :: "byte_array \<Rightarrow> nat \<Rightarrow> nat \<Rightarrow> (byte_array \<times> nat) res" where
  \<comment> \<open>writes the prefix of a list of \<open>content_size\<close> bytes in front of \<open>origin\<close> and gives its position\<close>
  "eth_put_list_prefix out content_size origin =
     rbind (get_length_prefix_list ba_len ba_resize ba_poke ba_new content_size 0) (\<lambda>(pb, _).
     let origin = u64_sub origin (ba_len pb)
     in rbind (ba_copy_from_array out (ba_arr pb) origin 0 (ba_len pb)) (\<lambda>(out, _). Inr (out, origin)))"

definition eth_put_trailer :: "byte_array \<Rightarrow> buffer_view \<Rightarrow> nat \<Rightarrow> (byte_array \<times> nat) res" where
  "eth_put_trailer out trailer output_offset =
     (if 0 < bv_size trailer then
        rbind (ba_append_view (ba_resize out output_offset) trailer) (\<lambda>out. Inr (out, u64 (output_offset + bv_size trailer)))
      else Inr (out, output_offset))"

definition eth_put_envelope ::
  "byte_array \<Rightarrow> buffer_view \<Rightarrow> buffer_view \<Rightarrow> nat \<Rightarrow> nat \<Rightarrow> (byte_array \<times> nat \<times> nat) res" where
  \<comment> \<open>prefix of the transactions, trailer, header, prefix of the message; the result is the buffer,
      the position of the message and the end of the trailer\<close>
  "eth_put_envelope out header trailer tx_origin_offset output_offset =
     rbind (eth_put_list_prefix out (u64_sub output_offset tx_origin_offset) tx_origin_offset) (\<lambda>(out, tx_origin_offset).
     rbind (eth_put_trailer out trailer output_offset) (\<lambda>(out, output_offset).
     let content_size = u64_sub output_offset tx_origin_offset;
         tx_origin_offset = u64_sub tx_origin_offset (bv_size header);
         content_size = u64 (content_size + bv_size header)
     in rbind (ba_copy_from_buffer out header tx_origin_offset 0 (bv_size header)) (\<lambda>(out, _).
        rbind (eth_put_list_prefix out content_size tx_origin_offset) (\<lambda>(out, tx_origin_offset).
          Inr (out, tx_origin_offset, output_offset)))))"

definition eth_put_short_ids :: "byte_array \<Rightarrow> sid list \<Rightarrow> nat \<Rightarrow> nat \<Rightarrow> (byte_array \<times> nat \<times> nat) res" where
  \<comment> \<open>the result is the buffer, the offset behind the number of short ids and the content size\<close>
  "eth_put_short_ids out sids starting_offset output_offset =
     (let content_size = u64_sub output_offset starting_offset
      in rbind (ba_set_le 8 out content_size starting_offset) (\<lambda>(out, _).
         let short_ids_size = u32 (length sids); content_size = u64 (content_size + starting_offset)
         in rbind (ba_set_le 4 out short_ids_size content_size) (\<lambda>(out, output_offset).
            let out = ba_resize out (u64 (output_offset + short_ids_size * 4))
            in rbind (if 0 < short_ids_size
                      then ba_poke out output_offset (take (short_ids_size * 4) (concat (map (le_bytes 4) sids)))
                      else Inr out) (\<lambda>out. Inr (ba_set_output out, output_offset, content_size)))))"

definition eth_cmp_finish ::
  "(byte list \<Rightarrow> byte list) \<Rightarrow> buffer_view \<Rightarrow> buffer_view \<Rightarrow> nat \<Rightarrow> nat \<Rightarrow> eth_cmp \<Rightarrow> eth_cmp res" where
  "eth_cmp_finish H header trailer tx_origin_offset output_offset c =
     rbind (eth_put_envelope (ec_out c) header trailer tx_origin_offset output_offset) (\<lambda>(out, tx_origin_offset, output_offset).
     let starting_offset = u64_sub tx_origin_offset 8
     in rbind (eth_put_short_ids out (ec_sids c) starting_offset output_offset) (\<lambda>(out, output_offset, content_size).
        rbind (double_sha256 H (bv_msg (ba_arr out)) starting_offset (u64_sub output_offset starting_offset)) (\<lambda>digest.
          Inr (c\<lparr>ec_out := out, ec_starting_offset := starting_offset, ec_content_size := content_size,
                ec_compressed_hash := Some digest\<rparr>))))"

definition eth_cmp_execute ::
  "(byte list \<Rightarrow> byte list) \<Rightarrow> tx_service \<Rightarrow> bool \<Rightarrow> real \<Rightarrow> real \<Rightarrow> eth_cmp \<Rightarrow> buffer_view \<Rightarrow> (eth_cmp res) option" where
  \<comment> \<open>the output buffer is reserved for a tenth more than the block\<close>
  "eth_cmp_execute H s enable now min_age c v =
     (case eth_parse v of
        Inl e \<Rightarrow> Some (Inl e)
      | Inr msg \<Rightarrow>
          let c = c\<lparr>ec_prev_hash := Some (eb_prev_hash msg), ec_hash := Some (eb_hash msg),
                   ec_out := ba_reserve (ec_out c) (bv_size v * 11 div 10)\<rparr>;
              output_offset = u64 (8 + 8 + bv_size (eb_header msg) + 8)
          in (case eth_cmp_txs s v enable (now - min_age) (eb_txn_end_offset msg) (eb_txn_offset msg) ba_new output_offset c of
                None \<Rightarrow> None
              | Some (Inl e) \<Rightarrow> Some (Inl e)
              | Some (Inr (fin_offset, c)) \<Rightarrow>
                  Some (eth_cmp_finish H (eb_header msg) (eb_trailer msg) output_offset fin_offset c)))"

definition eth_cmp_block ::
  "(byte list \<Rightarrow> byte list) \<Rightarrow> tx_service \<Rightarrow> bool \<Rightarrow> real \<Rightarrow> real \<Rightarrow> bool \<Rightarrow> eth_cmp \<Rightarrow> buffer_view \<Rightarrow> (eth_cmp res) option" where
  "eth_cmp_block H s enable now min_age shared c v =
     (case eth_cmp_init shared c v of
        Inl e \<Rightarrow> Some (Inl e)
      | Inr c \<Rightarrow> eth_cmp_execute H s enable now min_age c v)"

end
