(* ===== verification/SharedFill.thy ===== *)
theory SharedFill
  imports Buffers
begin

text \<open>
  Sub-tasks that fill one shared output buffer. A sub-task is a job: a position in the buffer and a
  number of copies it still has to do. A schedule, a list of job numbers, says whose copy comes next.
  The contract of a copy is the locale \<open>fill_job\<close>; whatever the schedule, jobs that keep it leave
  the intended bytes in the buffer. The decompression tasks of the different blockchains interpret
  the locale with the iteration of their sub-tasks.

  Every copy writes intended bytes to their final place. So the invariant of the concurrent phase
  needs no disjointness of the jobs: each byte of the buffer is right or belongs to the part some job
  has not written yet.
\<close>

fun run_jobs ::
  "('s \<Rightarrow> 'o \<Rightarrow> 'j \<Rightarrow> ('s \<times> 'o \<times> 'j) res) \<Rightarrow> nat list \<Rightarrow> 's \<times> 'o \<times> 'j list \<Rightarrow> ('s \<times> 'o \<times> 'j list) res" where
  \<comment> \<open>what the jobs share is of any type; the buffer is one example\<close>
  "run_jobs step [] st = Inr st"
| "run_jobs step (i # is) (s, out, jobs) =
     (if i < length jobs then
        rbind (step s out (jobs ! i)) (\<lambda>(s, out, j). run_jobs step is (s, out, jobs[i := j]))
      else run_jobs step is (s, out, jobs))"

definition rest_of :: "('j \<Rightarrow> nat) \<Rightarrow> 'j list \<Rightarrow> nat list" where
  \<comment> \<open>the schedule that runs every job to its end, one after the other\<close>
  "rest_of todo jobs = concat (map (\<lambda>i. replicate (todo (jobs ! i)) i) [0..<length jobs])"

lemma count_list_concat: "count_list (concat xss) x = sum_list (map (\<lambda>xs. count_list xs x) xss)"
  by (induction xss) auto

lemma count_rest_of:
  assumes "i < length jobs"
  shows "count_list (rest_of todo jobs) i = todo (jobs ! i)"
proof -
  have c: "count_list (replicate n i') i = (if i' = i then n else 0)" for n i' by (induction n) auto
  have "sum_list (map (\<lambda>i'. if i' = i then f i' else 0) [0..<n]) = (if i < n then f i else (0::nat))" for f n
    by (induction n) auto
  with assms show ?thesis by (simp add: rest_of_def count_list_concat comp_def c)
qed

lemma nth_patch:
  assumes "p + length ys \<le> length xs" and "k < length xs"
  shows "patch p ys xs ! k = (if k < p then xs ! k else if k < p + length ys then ys ! (k - p) else xs ! k)"
  using assms by (auto simp: patch_def nth_append)

locale fill_job =
  fixes step :: "'c \<Rightarrow> 's \<Rightarrow> byte_array \<Rightarrow> 'j \<Rightarrow> ('s \<times> byte_array \<times> 'j) res"
    and pos :: "'j \<Rightarrow> nat"
    and todo :: "'j \<Rightarrow> nat"
    and ok :: "'c \<Rightarrow> byte list \<Rightarrow> 's \<Rightarrow> nat \<Rightarrow> 'j \<Rightarrow> bool"
    and good :: "byte list \<Rightarrow> byte_array \<Rightarrow> bool"
    and img :: "byte_array \<Rightarrow> byte list"
  assumes step_ok: "\<lbrakk>ok c D s fin j; good D out\<rbrakk> \<Longrightarrow>
      \<exists>out' j'. step c s out j = Inr (s, out', j') \<and> ok c D s fin j' \<and> good D out' \<and> todo j' = todo j - 1 \<and>
        (\<forall>k < length D. img out' ! k = (if pos j \<le> k \<and> k < pos j' then D ! k else img out ! k))"
    and done_ok: "\<lbrakk>ok c D s fin j; todo j = 0\<rbrakk> \<Longrightarrow> pos j = fin"
begin

definition fill_inv :: "'c \<Rightarrow> byte list \<Rightarrow> 's \<Rightarrow> (nat \<Rightarrow> nat) \<Rightarrow> nat \<Rightarrow> byte_array \<Rightarrow> 'j list \<Rightarrow> bool" where
  \<comment> \<open>the first \<open>hp\<close> bytes are not the business of the jobs\<close>
  "fill_inv c D s fins hp out jobs \<longleftrightarrow>
     good D out \<and> (\<forall>i < length jobs. ok c D s (fins i) (jobs ! i)) \<and>
     (\<forall>k < length D. img out ! k = D ! k \<or> k < hp \<or> (\<exists>i < length jobs. pos (jobs ! i) \<le> k \<and> k < fins i))"

lemma step_inv:
  assumes inv: "fill_inv c D s fins hp out jobs" and i: "i < length jobs"
  obtains out' j where "step c s out (jobs ! i) = Inr (s, out', j)"
    and "fill_inv c D s fins hp out' (jobs[i := j])" and "todo j = todo (jobs ! i) - 1"
proof -
  have "ok c D s (fins i) (jobs ! i)" "good D out" using inv i by (simp_all add: fill_inv_def)
  then obtain out' j where s: "step c s out (jobs ! i) = Inr (s, out', j)" "ok c D s (fins i) j" "good D out'"
    "todo j = todo (jobs ! i) - 1"
    "\<And>k. k < length D \<Longrightarrow> img out' ! k = (if pos (jobs ! i) \<le> k \<and> k < pos j then D ! k else img out ! k)"
    using step_ok by blast
  have "fill_inv c D s fins hp out' (jobs[i := j])"
    unfolding fill_inv_def
  proof (intro conjI allI impI)
    fix i' assume "i' < length (jobs[i := j])"
    then show "ok c D s (fins i') (jobs[i := j] ! i')" using inv s(2) by (cases "i' = i") (auto simp: fill_inv_def)
  next
    fix k assume k: "k < length D"
    show "img out' ! k = D ! k \<or> k < hp \<or> (\<exists>i' < length (jobs[i := j]). pos (jobs[i := j] ! i') \<le> k \<and> k < fins i')"
    proof (cases "pos (jobs ! i) \<le> k \<and> k < pos j")
      case out: False
      from inv k consider "img out ! k = D ! k \<or> k < hp" | i' where "i' < length jobs" "pos (jobs ! i') \<le> k" "k < fins i'"
        unfolding fill_inv_def by blast
      then show ?thesis
      proof cases
        case 2
        then have "pos (jobs[i := j] ! i') \<le> k" using i out by (cases "i' = i") auto
        then show ?thesis using 2(1,3) by auto
      qed (use s(5) [OF k] out in auto)
    qed (use s(5) [OF k] in simp)
  qed (rule s(3))
  then show thesis using that s by blast
qed

lemma run_inv:
  assumes "fill_inv c D s fins hp out jobs"
  shows "\<exists>out' jobs'. run_jobs (step c) sched (s, out, jobs) = Inr (s, out', jobs') \<and>
    fill_inv c D s fins hp out' jobs' \<and> length jobs' = length jobs \<and>
    (\<forall>i < length jobs. todo (jobs' ! i) = todo (jobs ! i) - count_list sched i)"
  using assms
proof (induction sched arbitrary: out jobs)
  case (Cons i sched)
  show ?case
  proof (cases "i < length jobs")
    case True
    obtain out1 j where s1: "step c s out (jobs ! i) = Inr (s, out1, j)"
      "fill_inv c D s fins hp out1 (jobs[i := j])" "todo j = todo (jobs ! i) - 1"
      by (rule step_inv [OF Cons.prems True])
    obtain out' jobs' where r: "run_jobs (step c) sched (s, out1, jobs[i := j]) = Inr (s, out', jobs')"
      "fill_inv c D s fins hp out' jobs'" "length jobs' = length jobs"
      "\<forall>i' < length jobs. todo (jobs' ! i') = todo (jobs[i := j] ! i') - count_list sched i'"
      using Cons.IH [OF s1(2)] by auto
    have "todo (jobs' ! i') = todo (jobs ! i') - count_list (i # sched) i'" if "i' < length jobs" for i'
      using r(4) that s1(3) by (cases "i' = i") auto
    then show ?thesis using True s1(1) r(1-3) by simp
  qed (use Cons.IH [OF Cons.prems] in auto)
qed simp

lemma run_all:
  assumes inv: "fill_inv c D s fins hp out jobs"
  shows "\<exists>out' jobs'. run_jobs (step c) (rest_of todo jobs) (s, out, jobs) = Inr (s, out', jobs') \<and> good D out' \<and>
    (\<forall>k < length D. hp \<le> k \<longrightarrow> img out' ! k = D ! k)"
proof -
  obtain out' jobs' where r: "run_jobs (step c) (rest_of todo jobs) (s, out, jobs) = Inr (s, out', jobs')"
    "fill_inv c D s fins hp out' jobs'" "length jobs' = length jobs"
    "\<forall>i < length jobs. todo (jobs' ! i) = todo (jobs ! i) - count_list (rest_of todo jobs) i"
    using run_inv [OF inv, of "rest_of todo jobs"] by auto
  have "pos (jobs' ! i) = fins i" if i: "i < length jobs" for i
  proof (rule done_ok)
    show "ok c D s (fins i) (jobs' ! i)" using r(2,3) i by (simp add: fill_inv_def)
    show "todo (jobs' ! i) = 0" using r(4) i by (simp add: count_rest_of)
  qed
  then have "img out' ! k = D ! k" if "k < length D" "hp \<le> k" for k
    using r(2,3) that unfolding fill_inv_def by (metis leD)
  then show ?thesis using r(1,2) by (auto simp: fill_inv_def)
qed

end

end
