(* ===== verification/EthDecompression.thy ===== *)
theory EthDecompression
  imports EthCompression SharedFill
begin

text \<open>
  \<open>EthBlockDecompressionTask\<close> and \<open>EthBlockDecompressionSubTask\<close> of \<^verbatim>\<open>src/lib/libtpe/tpe/task\<close>. The main
  task walks over the compressed transactions, gives runs of them to the sub-tasks, waits, and puts
  the prefixes, the header and the trailer around the transactions.

  The sub-tasks are the jobs of theory \<open>SharedFill\<close>. The part of the schedule that may overlap with
  \<^verbatim>\<open>_dispatch\<close> is put behind it: until it returns \<^verbatim>\<open>_dispatch\<close> changes only the length of the output
  buffer, not the bytes the sub-tasks write. One copy of a sub-task is one step.

  The task waits for all its sub-task objects, also for those the block did not need. A sub-task
  that has never run is not completed, and nobody will notify the one who waits: such a run does not
  end, which is the value \<open>None\<close>, as is a loop over the transactions that does not end.
\<close>

section \<open>EthBlockDecompressionSubTask\<close>

record eth_sub =
  es_offsets :: "(nat \<times> bool \<times> nat) list"
  es_sids_offset :: nat
  es_sids_len :: nat
  es_output_offset :: nat
  es_completed :: bool

definition eth_sub_new :: eth_sub where
  "eth_sub_new = \<lparr>es_offsets = [], es_sids_offset = 0, es_sids_len = 0, es_output_offset = 0, es_completed = False\<rparr>"

definition eth_sub_clear :: "eth_sub \<Rightarrow> eth_sub" where
  "eth_sub_clear td = td\<lparr>es_sids_offset := 0, es_sids_len := 0, es_output_offset := 0, es_offsets := []\<rparr>"

record eth_job =
  ej_sid_idx :: nat
  ej_output_offset :: nat
  ej_offsets :: "(nat \<times> bool \<times> nat) list"

definition eth_start :: "eth_sub \<Rightarrow> eth_job" where
  "eth_start td =
     \<lparr>ej_sid_idx = es_sids_offset td, ej_output_offset = es_output_offset td, ej_offsets = es_offsets td\<rparr>"

definition eth_job_step ::
  "buffer_view \<Rightarrow> sid list \<Rightarrow> tx_service \<Rightarrow> byte_array \<Rightarrow> eth_job \<Rightarrow> (tx_service \<times> byte_array \<times> eth_job) res" where
  "eth_job_step block_buffer short_ids s out j =
     (case ej_offsets j of
        [] \<Rightarrow> Inr (s, out, j)
      | (tx_content_offset, is_short, tx_content_len) # offsets \<Rightarrow>
          if \<not> is_short then
            rbind (if 0 < tx_content_len
                   then ba_copy_from_buffer out block_buffer (ej_output_offset j) tx_content_offset tx_content_len
                   else Inr (out, ej_output_offset j)) (\<lambda>(out, output_offset).
              Inr (s, out, j\<lparr>ej_output_offset := output_offset, ej_offsets := offsets\<rparr>))
          else if ej_sid_idx j < length short_ids then
            rbind (get_tx_contents_raw_ptr s (short_ids ! ej_sid_idx j)) (\<lambda>(p, s).
              case p of
                None \<Rightarrow> Inl MemFault
              | Some c \<Rightarrow>
                  rbind (if 0 < bv_size c then ba_copy_from_buffer out c (ej_output_offset j) 0 (bv_size c)
                         else Inr (out, ej_output_offset j)) (\<lambda>(out, output_offset).
                    Inr (s, out, \<lparr>ej_sid_idx = u64 (ej_sid_idx j + 1), ej_output_offset = output_offset, ej_offsets = offsets\<rparr>)))
          else Inl OutOfRange)"

definition eth_todo :: "eth_job \<Rightarrow> nat" where
  "eth_todo j = length (ej_offsets j)"

section \<open>EthBlockDecompressionTask\<close>

record eth_dcm =
  ed_out :: byte_array
  ed_subs :: "eth_sub list"
  ed_unknown_hashes :: "hash list"
  ed_unknown_sids :: "sid list"
  ed_sids :: "sid list"
  ed_hash :: "sha256 option"
  ed_success :: bool
  ed_txn_count :: nat
  ed_starting_offset :: nat
  ed_min_count :: nat

definition eth_dcm_new :: "nat \<Rightarrow> nat \<Rightarrow> eth_dcm" where
  "eth_dcm_new capacity minimal_tx_count =
     \<lparr>ed_out = ba_with_capacity capacity, ed_subs = [], ed_unknown_hashes = [], ed_unknown_sids = [], ed_sids = [],
      ed_hash = None, ed_success = False, ed_txn_count = 0, ed_starting_offset = 0, ed_min_count = minimal_tx_count\<rparr>"

definition eth_dcm_init :: "bool \<Rightarrow> eth_dcm \<Rightarrow> eth_dcm res" where
  \<comment> \<open>\<open>shared\<close>: somebody else still holds the output buffer of the last block\<close>
  "eth_dcm_init shared d =
     rbind (if shared then Inr (ba_with_capacity (ba_cap (ed_out d)))
            else ba_reset (ba_reserve (ed_out d) (ba_cap (ed_out d)))) (\<lambda>out.
       Inr (d\<lparr>ed_out := out, ed_unknown_hashes := [], ed_unknown_sids := [], ed_hash := None, ed_sids := [],
             ed_txn_count := 0, ed_starting_offset := 0\<rparr>))"

definition eth_init_sub_tasks :: "nat \<Rightarrow> eth_sub list \<Rightarrow> eth_sub list" where
  "eth_init_sub_tasks pool_size subs = map eth_sub_clear (subs @ replicate (pool_size - length subs) eth_sub_new)"

definition eth_extend_output_buffer :: "byte_array \<Rightarrow> nat \<Rightarrow> byte_array res" where
  "eth_extend_output_buffer out output_offset =
     (if ba_cap out < output_offset then Inl RuntimeError else Inr (ba_resize out output_offset))"

text \<open>The variables of \<^verbatim>\<open>_dispatch\<close>; its \<^verbatim>\<open>idx\<close> and \<^verbatim>\<open>prev_idx\<close> agree whenever an iteration starts.\<close>

record eth_disp =
  ep_subs :: "eth_sub list"
  ep_out :: byte_array
  ep_idx :: nat
  ep_offset :: nat
  ep_sids_offset :: nat
  ep_output_offset :: nat
  ep_prev_output_offset :: nat
  ep_count :: nat

definition eth_measure_tx ::
  "tx_service \<Rightarrow> buffer_view \<Rightarrow> sid list \<Rightarrow> eth_disp \<Rightarrow> eth_sub \<Rightarrow> bool \<Rightarrow> nat \<Rightarrow> (eth_sub \<times> nat \<times> nat \<times> nat) res" where
  \<comment> \<open>the task data, the offset and the length of the content and the output offset behind it\<close>
  "eth_measure_tx s v short_ids d tdata is_short tx_content_offset =
     (if is_short then
        let short_id_idx = u64 (ep_sids_offset d + es_sids_len tdata)
        in if short_id_idx < length short_ids then
             rbind (get_tx_size s (short_ids ! short_id_idx)) (\<lambda>n.
               Inr (tdata\<lparr>es_sids_len := es_sids_len tdata + 1\<rparr>, tx_content_offset, 0, u64 (ep_output_offset d + n)))
           else Inl RuntimeError
      else rbind (bv_consume v (u64 (tx_content_offset + 1))) (\<lambda>(tx_content_len, _, tx_content_offset).
             Inr (tdata, tx_content_offset, tx_content_len, u64 (ep_output_offset d + tx_content_len))))"

definition eth_dispatch_tx :: "tx_service \<Rightarrow> buffer_view \<Rightarrow> sid list \<Rightarrow> nat \<Rightarrow> eth_disp \<Rightarrow> eth_disp res" where
  "eth_dispatch_tx s v short_ids idx d =
     (let prev_idx = ep_idx d
      in rbind (bx_eth_get_next_tx_offset v (ep_offset d)) (\<lambda>(offset, tx_content_offset, is_short).
         rbind (eth_measure_tx s v short_ids d (ep_subs d ! prev_idx) is_short tx_content_offset)
           (\<lambda>(tdata, tx_content_offset, tx_content_len, output_offset).
         let tdata = tdata\<lparr>es_offsets := es_offsets tdata @ [(tx_content_offset, is_short, tx_content_len)]\<rparr>;
             d = d\<lparr>ep_idx := idx, ep_offset := offset, ep_output_offset := output_offset, ep_count := u64 (ep_count d + 1)\<rparr>
         in if prev_idx < idx then
              let tdata = tdata\<lparr>es_output_offset := ep_prev_output_offset d, es_sids_offset := ep_sids_offset d\<rparr>
              in rbind (eth_extend_output_buffer (ep_out d) output_offset) (\<lambda>out.
                   Inr (d\<lparr>ep_subs := (ep_subs d)[prev_idx := tdata], ep_out := out,
                          ep_sids_offset := u64 (ep_sids_offset d + es_sids_len tdata),
                          ep_prev_output_offset := output_offset\<rparr>))
            else Inr (d\<lparr>ep_subs := (ep_subs d)[prev_idx := tdata]\<rparr>))))"

partial_function (option) eth_dispatch_loop ::
  "tx_service \<Rightarrow> buffer_view \<Rightarrow> sid list \<Rightarrow> nat \<Rightarrow> nat \<Rightarrow> nat \<Rightarrow> eth_disp \<Rightarrow> (eth_disp res) option" where
  "eth_dispatch_loop s v short_ids pool_size bulk_size txn_end_offset d =
     (if ep_offset d < txn_end_offset then
        (case eth_dispatch_tx s v short_ids (bulk_idx pool_size bulk_size (ep_count d)) d of
           Inl e \<Rightarrow> Some (Inl e)
         | Inr d \<Rightarrow> eth_dispatch_loop s v short_ids pool_size bulk_size txn_end_offset d)
      else Some (Inr d))"

definition eth_bulk_size :: "nat \<Rightarrow> nat \<Rightarrow> nat" where
  "eth_bulk_size pool_size min_count = max (ETH_DEFAULT_TX_COUNT div pool_size) (max pool_size min_count)"

definition eth_dispatch ::
  "tx_service \<Rightarrow> eth_dcm \<Rightarrow> buffer_view \<Rightarrow> nat \<Rightarrow> nat \<Rightarrow> nat \<Rightarrow> nat \<Rightarrow> ((nat \<times> nat \<times> eth_dcm) res) option" where
  \<comment> \<open>the result is the output offset, the last sub-task that was enqueued and the task\<close>
  "eth_dispatch s d v header_size txn_end_offset offset pool_size =
     (let subs = eth_init_sub_tasks pool_size (ed_subs d);
          output_offset = u64 (8 + 8 + header_size)
      in case eth_extend_output_buffer (ed_out d) output_offset of
           Inl e \<Rightarrow> Some (Inl e)
         | Inr out \<Rightarrow>
             (case eth_dispatch_loop s v (ed_sids d) pool_size (eth_bulk_size pool_size (ed_min_count d)) txn_end_offset
                     \<lparr>ep_subs = subs, ep_out = out, ep_idx = 0, ep_offset = offset, ep_sids_offset = 0,
                      ep_output_offset = output_offset, ep_prev_output_offset = output_offset, ep_count = ed_txn_count d\<rparr> of
                None \<Rightarrow> None
              | Some (Inl e) \<Rightarrow> Some (Inl e)
              | Some (Inr p) \<Rightarrow>
                  let prev_idx = ep_idx p;
                      tdata = (ep_subs p ! prev_idx)\<lparr>es_output_offset := ep_prev_output_offset p, es_sids_offset := ep_sids_offset p\<rparr>
                  in Some (Inr (ep_output_offset p, prev_idx,
                       d\<lparr>ed_subs := (ep_subs p)[prev_idx := tdata], ed_out := ep_out p, ed_txn_count := ep_count p\<rparr>))))"

definition eth_wait_all :: "nat \<Rightarrow> eth_sub list \<Rightarrow> (eth_sub list) option" where
  \<comment> \<open>the sub-tasks up to \<open>last_idx\<close> have run; a sub-task that was not enqueued has to be completed already\<close>
  "eth_wait_all last_idx subs =
     (if list_all es_completed (drop (last_idx + 1) subs)
      then Some (map (\<lambda>td. td\<lparr>es_completed := True\<rparr>) subs) else None)"

definition eth_set_output_buffer :: "eth_dcm \<Rightarrow> buffer_view \<Rightarrow> buffer_view \<Rightarrow> nat \<Rightarrow> eth_dcm res" where
  "eth_set_output_buffer d header trailer output_offset =
     (if ed_unknown_sids d = [] \<and> ed_unknown_hashes d = [] then
        rbind (eth_put_envelope (ed_out d) header trailer (u64 (8 + 8 + bv_size header)) output_offset)
          (\<lambda>(out, tx_origin_offset, output_offset).
            Inr (d\<lparr>ed_out := ba_set_output (ba_resize out output_offset), ed_starting_offset := tx_origin_offset\<rparr>))
      else Inr d)"

definition eth_fill ::
  "tx_service \<Rightarrow> nat list \<Rightarrow> eth_dcm \<Rightarrow> buffer_view \<Rightarrow> nat \<Rightarrow> (tx_service \<times> eth_dcm) res" where
  \<comment> \<open>the enqueued sub-tasks run, first as the schedule says, then to their end\<close>
  "eth_fill s sched d v last_idx =
     (let step = eth_job_step v (ed_sids d)
      in rbind (run_jobs step sched (s, ed_out d, map eth_start (take (last_idx + 1) (ed_subs d)))) (\<lambda>(s, out, jobs).
         rbind (run_jobs step (rest_of eth_todo jobs) (s, out, jobs)) (\<lambda>(s, out, _). Inr (s, d\<lparr>ed_out := out\<rparr>))))"

definition eth_dcm_execute ::
  "tx_service \<Rightarrow> nat \<Rightarrow> nat list \<Rightarrow> eth_dcm \<Rightarrow> buffer_view \<Rightarrow> ((tx_service \<times> eth_dcm) res) option" where
  "eth_dcm_execute s pool_size sched d v =
     (case rbind (bx_eth_parse v) (\<lambda>msg. rbind (eth_deserialize_short_ids v (xb_sids_offset msg)) (\<lambda>short_ids. Inr (msg, short_ids))) of
        Inl e \<Rightarrow> Some (Inl e)
      | Inr (msg, short_ids) \<Rightarrow>
          let (success, hashes, sids) = get_missing_transactions s short_ids;
              d = d\<lparr>ed_sids := short_ids, ed_hash := Some (xb_hash msg), ed_success := success,
                   ed_unknown_hashes := hashes, ed_unknown_sids := sids\<rparr>
          in if \<not> success then Some (Inr (s, d))
             else (case eth_dispatch s d v (bv_size (xb_header msg)) (xb_txn_end_offset msg) (xb_txn_offset msg) pool_size of
                     None \<Rightarrow> None
                   | Some (Inl e) \<Rightarrow> Some (Inl e)
                   | Some (Inr (output_offset, last_idx, d)) \<Rightarrow>
                       (case eth_fill s sched d v last_idx of
                          Inl e \<Rightarrow> Some (Inl e)
                        | Inr (s, d) \<Rightarrow>
                            (case eth_wait_all last_idx (ed_subs d) of
                               None \<Rightarrow> None
                             | Some subs \<Rightarrow>
                                 Some (rbind (eth_set_output_buffer (d\<lparr>ed_subs := subs\<rparr>) (xb_header msg) (xb_trailer msg) output_offset)
                                   (\<lambda>d. Inr (s, d)))))))"

definition eth_dcm_block ::
  "tx_service \<Rightarrow> nat \<Rightarrow> nat list \<Rightarrow> bool \<Rightarrow> eth_dcm \<Rightarrow> buffer_view \<Rightarrow> ((tx_service \<times> eth_dcm) res) option" where
  "eth_dcm_block s pool_size sched shared d v =
     (case eth_dcm_init shared d of
        Inl e \<Rightarrow> Some (Inl e)
      | Inr d \<Rightarrow> eth_dcm_execute s pool_size sched d v)"

end
