(* ===== verification/BlockCodec.thy ===== *)
theory BlockCodec
  imports BtcCompression
begin

text \<open>
  What the compression tasks have in common. A block is a header followed by transactions of some
  format; the reference encoding replaces the transactions whose short id may be used by the
  indicator byte. The locale \<open>tx_format\<close> states what the tasks need of a format: that scanning
  at the start of a transaction finds its end, and that the loop body of a sub-task sees the hash
  of the transaction. The lemmas about sub-tasks, dispatching and collecting are proved in it, for
  the Bitcoin and for the Ontology task.
\<close>

section \<open>Reference encoding\<close>

definition tx_sid :: "tx_service \<Rightarrow> hash \<Rightarrow> sid" where
  "tx_sid s h = (case get_short_id s h of Inr i \<Rightarrow> i | Inl _ \<Rightarrow> 0)"

definition sid_usable :: "tx_service \<Rightarrow> bool \<Rightarrow> real \<Rightarrow> hash \<Rightarrow> bool" where
  "sid_usable s enable max_timestamp h \<longleftrightarrow>
     has_short_id_hash s h \<and> enable \<and>
     (case cmp_assign_time s h of Inr tm \<Rightarrow> tm \<le> max_timestamp | Inl _ \<Rightarrow> False)"

definition sid_resolved :: "tx_service \<Rightarrow> hash \<Rightarrow> bool" where
  "sid_resolved s h \<longleftrightarrow>
     (has_short_id_hash s h \<longrightarrow> (\<exists>i tm. get_short_id s h = Inr i \<and> get_short_id_assign_time s i = Inr tm))"

definition piece :: "('t \<Rightarrow> byte list) \<Rightarrow> ('t \<Rightarrow> bool) \<Rightarrow> 't \<Rightarrow> byte list" where
  "piece ser cmpd t = (if cmpd t then [BTC_SHORT_ID_INDICATOR] else ser t)"

definition pieces :: "('t \<Rightarrow> byte list) \<Rightarrow> ('t \<Rightarrow> bool) \<Rightarrow> 't list \<Rightarrow> byte list" where
  "pieces ser cmpd ts = concat (map (piece ser cmpd) ts)"

definition sers :: "('t \<Rightarrow> byte list) \<Rightarrow> 't list \<Rightarrow> byte list" where
  "sers ser ts = concat (map ser ts)"

definition piece_sids :: "('t \<Rightarrow> hash) \<Rightarrow> tx_service \<Rightarrow> ('t \<Rightarrow> bool) \<Rightarrow> 't list \<Rightarrow> sid list" where
  "piece_sids hash s cmpd ts = map (\<lambda>t. tx_sid s (hash t)) (filter cmpd ts)"

definition ignored_sids :: "('t \<Rightarrow> hash) \<Rightarrow> tx_service \<Rightarrow> ('t \<Rightarrow> bool) \<Rightarrow> 't list \<Rightarrow> sid list" where
  "ignored_sids hash s cmpd ts =
     map (\<lambda>t. tx_sid s (hash t)) (filter (\<lambda>t. has_short_id_hash s (hash t) \<and> \<not> cmpd t) ts)"

fun offsets_at :: "(nat \<Rightarrow> 't \<Rightarrow> nat \<times> nat \<times> nat) \<Rightarrow> ('t \<Rightarrow> byte list) \<Rightarrow> nat \<Rightarrow> 't list \<Rightarrow> (nat \<times> nat \<times> nat) list" where
  "offsets_at tup ser pos [] = []"
| "offsets_at tup ser pos (t # ts) = tup pos t # offsets_at tup ser (pos + length (ser t)) ts"

definition txs_ready :: "('t \<Rightarrow> bool) \<Rightarrow> ('t \<Rightarrow> hash) \<Rightarrow> tx_service \<Rightarrow> 't list \<Rightarrow> bool" where
  "txs_ready wft hash s ts \<longleftrightarrow> list_all wft ts \<and> list_all (\<lambda>t. sid_resolved s (hash t)) ts"

lemma codec_simps [simp]:
  "sers ser [] = []" "sers ser (t # ts) = ser t @ sers ser ts" "sers ser (ts @ us) = sers ser ts @ sers ser us"
  "pieces ser c [] = []" "pieces ser c (t # ts) = piece ser c t @ pieces ser c ts"
  "pieces ser c (ts @ us) = pieces ser c ts @ pieces ser c us"
  "piece_sids hash s c [] = []" "piece_sids hash s c (ts @ us) = piece_sids hash s c ts @ piece_sids hash s c us"
  "ignored_sids hash s c [] = []" "ignored_sids hash s c (ts @ us) = ignored_sids hash s c ts @ ignored_sids hash s c us"
  by (simp_all add: sers_def pieces_def piece_sids_def ignored_sids_def)

lemma txs_ready_simps [simp]:
  "txs_ready wft hash s []"
  "txs_ready wft hash s (t # ts) \<longleftrightarrow> wft t \<and> sid_resolved s (hash t) \<and> txs_ready wft hash s ts"
  "txs_ready wft hash s (ts @ us) \<longleftrightarrow> txs_ready wft hash s ts \<and> txs_ready wft hash s us"
  by (auto simp: txs_ready_def)

lemma length_piece_sids: "length (piece_sids hash s c ts) \<le> length ts"
  by (simp add: piece_sids_def)

lemma length_offsets_at [simp]: "length (offsets_at tup ser pos ts) = length ts"
  by (induction ts arbitrary: pos) auto

lemma offsets_at_append:
  "offsets_at tup ser pos (ts @ us) = offsets_at tup ser pos ts @ offsets_at tup ser (pos + length (sers ser ts)) us"
  by (induction ts arbitrary: pos) (auto simp: add.assoc)

lemma offsets_at_split:
  assumes "xs @ ys = offsets_at tup ser pos ts"
  obtains ts1 ts2 where "ts = ts1 @ ts2" and "xs = offsets_at tup ser pos ts1"
    and "ys = offsets_at tup ser (pos + length (sers ser ts1)) ts2"
proof
  let ?n = "length xs"
  show ts: "ts = take ?n ts @ drop ?n ts" by simp
  have "length (offsets_at tup ser pos ts) = length xs + length ys" using assms by (metis length_append)
  then have n: "?n \<le> length ts" by simp
  have "xs @ ys = offsets_at tup ser pos (take ?n ts) @ offsets_at tup ser (pos + length (sers ser (take ?n ts))) (drop ?n ts)"
    using assms ts offsets_at_append by metis
  moreover have "length (offsets_at tup ser pos (take ?n ts)) = length xs" using n by simp
  ultimately show "xs = offsets_at tup ser pos (take ?n ts)" "ys = offsets_at tup ser (pos + length (sers ser (take ?n ts))) (drop ?n ts)"
    by (metis append_eq_append_conv)+
qed

lemma ba_reset_eq: "ba_reset b = Inr (ba_resize b 0)"
  by (simp add: ba_reset_def ba_clear_def)

lemma le_bytes_one: "le_bytes 1 (unat (b :: byte)) = [b]"
  by simp

lemma cmp_put_spec:
  assumes v: "bv_ok v" and eq: "bv_bytes v = pre @ x @ post" and pos: "0 < length x"
    and s: "sid_resolved s h"
    and out: "ba_wf (cs_out cs)" and small: "ba_len (cs_out cs) + length x < 2 ^ 64"
    and fin_def: "fin = length pre + length x"
  shows "\<exists>cs'. cmp_put s v enable mx h (length pre) fin (ba_len (cs_out cs)) cs =
      Inr (ba_len (cs_out cs'), cs') \<and>
    ba_wf (cs_out cs') \<and> ba_bytes (cs_out cs') = ba_bytes (cs_out cs) @ (if sid_usable s enable mx h then [BTC_SHORT_ID_INDICATOR] else x) \<and>
    cs_sids cs' = cs_sids cs @ (if sid_usable s enable mx h then [tx_sid s h] else []) \<and>
    cs_ignored cs' = cs_ignored cs @
      (if has_short_id_hash s h \<and> \<not> sid_usable s enable mx h then [tx_sid s h] else []) \<and>
    cs_offsets cs' = cs_offsets cs"
proof -
  let ?off = "ba_len (cs_out cs)"
  have vb: "length pre + length x \<le> bv_size v" and vs: "bv_size v < 2 ^ 64"
    using v eq length_bv_bytes [of v] bv_size_less [of v] by (auto simp: bv_ok_def)
  have len: "u64_sub fin (length pre) = length x" using vb vs by (simp add: fin_def u64_sub_id)
  have sl: "slice (length pre) (length x) (bv_bytes v) = x" by (simp add: eq slice_middle)
  have vw: "bv_wf v" using v by (simp add: bv_ok_def)
  obtain out1 where o1: "ba_copy_from_buffer (cs_out cs) v ?off (length pre) (length x) = Inr (out1, ?off + length x)"
    "ba_wf out1" "ba_bytes out1 = ba_bytes (cs_out cs) @ x"
    by (rule ba_copy_from_buffer_append [OF out vw pos vb refl small, unfolded sl])
  have l1: "ba_len out1 = ?off + length x" using o1 out by (metis length_append length_ba_bytes)
  have l0: "length (ba_bytes (cs_out cs)) + 1 < 2 ^ 64" using small pos length_ba_bytes [OF out] by linarith
  obtain out2 where o2: "ba_set_le 1 (cs_out cs) (unat BTC_SHORT_ID_INDICATOR) ?off = Inr (out2, ?off + 1)"
    "ba_wf out2" "ba_bytes out2 = ba_bytes (cs_out cs) @ [BTC_SHORT_ID_INDICATOR]"
    using bak.set_le_append [OF out zero_less_one l0 refl, of "unat BTC_SHORT_ID_INDICATOR"]
    unfolding length_ba_bytes [OF out] by (auto simp: le_bytes_one)
  have l2: "ba_len out2 = ?off + 1" using o2 out by (metis length_append length_ba_bytes One_nat_def list.size(3,4) add_0)
  show ?thesis
  proof (cases "has_short_id_hash s h")
    case False
    then show ?thesis using o1 l1
      by (simp add: cmp_put_def len cmp_assign_time_def sid_usable_def)
  next
    case True
    then obtain i tm where i: "get_short_id s h = Inr i" "get_short_id_assign_time s i = Inr tm"
      using s by (auto simp: sid_resolved_def)
    then have c: "sid_usable s enable mx h \<longleftrightarrow> enable \<and> tm \<le> mx" and tm: "cmp_assign_time s h = Inr tm"
      using True by (auto simp: sid_usable_def cmp_assign_time_def)
    show ?thesis
    proof (cases "enable \<and> tm \<le> mx")
      case True
      then show ?thesis using i tm c o2 l2 \<open>has_short_id_hash s h\<close>
        by (simp add: cmp_put_def tx_sid_def)
    next
      case False
      then show ?thesis using i tm c o1 l1 \<open>has_short_id_hash s h\<close>
        by (auto simp: cmp_put_def len tx_sid_def)
    qed
  qed
qed

section \<open>Cutting the block\<close>

lemma bulk_idx_step: "bulk_idx pool bulk c \<le> bulk_idx pool bulk (c + 1)" "bulk_idx pool bulk (c + 1) \<le> bulk_idx pool bulk c + 1"
proof -
  have "c div bulk \<le> (c + 1) div bulk" by (simp add: div_le_mono)
  moreover have "(c + 1) div bulk \<le> c div bulk + 1" by (simp add: div_Suc)
  ultimately show "bulk_idx pool bulk c \<le> bulk_idx pool bulk (c + 1)" "bulk_idx pool bulk (c + 1) \<le> bulk_idx pool bulk c + 1"
    unfolding bulk_idx_def by linarith+
qed

lemma bulk_idx_0 [simp]: "bulk_idx pool bulk 0 = 0"
  by (simp add: bulk_idx_def)

lemma bulk_idx_less: "0 < pool \<Longrightarrow> bulk_idx pool bulk c < pool"
  by (auto simp: bulk_idx_def)

definition offsets_upto :: "nat \<Rightarrow> cmp_sub list \<Rightarrow> (nat \<times> nat \<times> nat) list" where
  "offsets_upto n subs = concat (map cs_offsets (take n subs))"

lemma offsets_upto_add:
  assumes "p \<le> idx" "idx < length subs" and "\<And>j. p < j \<Longrightarrow> j < length subs \<Longrightarrow> cs_offsets (subs ! j) = []"
  shows "offsets_upto (Suc idx) (subs[idx := (subs ! idx)\<lparr>cs_offsets := cs_offsets (subs ! idx) @ [x]\<rparr>]) =
    offsets_upto (Suc p) subs @ [x]"
proof -
  have "concat (map cs_offsets (take idx subs)) @ cs_offsets (subs ! idx) = offsets_upto (Suc p) subs"
  proof (cases "idx = p")
    case True
    then show ?thesis using assms(2) by (simp add: offsets_upto_def take_Suc_conv_app_nth)
  next
    case False
    then have "take idx subs = take (Suc p) subs @ take (idx - Suc p) (drop (Suc p) subs)"
      using assms(1,2) by (metis Suc_leI le_add_diff_inverse le_neq_implies_less take_add)
    moreover have "concat (map cs_offsets (take (idx - Suc p) (drop (Suc p) subs))) = []"
      using assms(2,3) by (auto simp: in_set_conv_nth concat_eq_Nil_conv)
    moreover have "cs_offsets (subs ! idx) = []" using assms False by simp
    ultimately show ?thesis by (simp add: offsets_upto_def)
  qed
  then show ?thesis using assms(2) by (simp add: offsets_upto_def take_Suc_conv_app_nth)
qed

lemma double_sha256_prefix:
  assumes "k \<le> length xs" and "k < 2 ^ 64"
  shows "\<exists>sha. double_sha256 H (bv_msg xs) 0 k = Inr sha"
  using assms by (simp add: double_sha256_def sha256_of_def calculate_sha256_def bv_read_def u64_id Let_def)

lemma offsets_upto_eq:
  assumes "n \<le> length subs"
  shows "offsets_upto n subs = concat (map (\<lambda>i. cs_offsets (subs ! i)) [0..<n])"
proof -
  have "take n subs = map (\<lambda>i. subs ! i) [0..<n]"
    using assms by (auto intro!: nth_equalityI)
  then show ?thesis by (simp add: offsets_upto_def comp_def)
qed

lemma ba_append_spec:
  assumes "ba_wf b" and "ba_wf c" and "ba_len b + ba_len c < 2 ^ 64"
  obtains b' where "ba_append b c = Inr b'" and "ba_wf b'" and "ba_bytes b' = ba_bytes b @ ba_bytes c"
proof -
  have le: "0 + ba_len c \<le> length (ba_arr c)" using assms(2) by (simp add: ba_wf_def)
  obtain b' where "ba_copy_from_array b (ba_arr c) (ba_len b) 0 (ba_len c) = Inr (b', ba_len b + ba_len c)"
    "ba_wf b'" "ba_bytes b' = ba_bytes b @ slice 0 (ba_len c) (ba_arr c)"
    by (rule ba_copy_from_array_append [OF assms(1) le assms(3)])
  then show thesis using that by (simp add: ba_append_def ba_bytes_def slice_def)
qed

definition cmp_task_ok :: "nat \<Rightarrow> cmp_task \<Rightarrow> bool" where
  "cmp_task_ok pool c \<longleftrightarrow>
     ba_wf (ct_out c) \<and> (\<forall>cs \<in> set (ct_subs c). ba_wf (cs_out cs)) \<and> (ct_subs c = [] \<or> pool \<le> length (ct_subs c))"

lemma cmp_task_ok_new: "cmp_task_ok pool (cmp_task_new cap mn)"
  by (simp add: cmp_task_ok_def cmp_task_new_def)

lemma cmp_init_sub_tasks_ok:
  assumes "cmp_task_ok pool c" and "0 < pool" and "subs = cmp_init_sub_tasks pool n (ct_subs c)"
  shows "pool \<le> length subs" and "\<forall>cs \<in> set subs. ba_wf (cs_out cs) \<and> cs_offsets cs = []"
    and "\<And>j. j < length (ct_subs c) \<Longrightarrow> cs_ignored (subs ! j) = cs_ignored (ct_subs c ! j)"
    and "\<And>j. length (ct_subs c) \<le> j \<Longrightarrow> j < length subs \<Longrightarrow> cs_ignored (subs ! j) = []"
  using assms by (auto simp: cmp_task_ok_def cmp_init_sub_tasks_def cmp_sub_new_def split: if_splits)

section \<open>The output buffer\<close>

definition bx_encode :: "byte list \<Rightarrow> sid list \<Rightarrow> byte list" where
  "bx_encode body sids =
     le_bytes 8 (8 + length body) @ body @ le_bytes 4 (length sids) @ concat (map (le_bytes 4) sids)"

lemma cmp_set_output_buffer_spec:
  assumes out: "ba_wf out" and eq: "ba_bytes out = junk @ body" and junk: "length junk = 8"
    and off: "off = ba_len out" and n: "length sids < 2 ^ 32" and small: "off + 4 + 4 * length sids < 2 ^ 64"
  obtains out' where "cmp_set_output_buffer out sids off = Inr out'" and "ba_wf out'"
    and "ba_bytes out' = bx_encode body sids"
proof -
  have lo: "off = 8 + length body" using out eq junk off by (metis length_append length_ba_bytes)
  have nu: "u32 (length sids) = length sids" using n by (simp add: u32_id)
  have f1: "0 + 8 \<le> length (ba_bytes out)" "length (ba_bytes out) < 2 ^ 64" using eq junk small lo by simp_all
  obtain o1 where o1: "ba_set_le 8 out off 0 = Inr (o1, 0 + 8)" "ba_wf o1" "ba_bytes o1 = patch 0 (le_bytes 8 off) (ba_bytes out)"
    using bak.set_le_inside [OF out _ f1, of off] by auto
  have b1: "ba_bytes o1 = le_bytes 8 off @ body" using o1(3) eq junk by (simp add: patch_0)
  have l1: "ba_len o1 = off" using o1(2) b1 lo by (metis length_append length_ba_bytes length_le_bytes)
  have f2: "length (ba_bytes o1) + 4 < 2 ^ 64" using small b1 lo by simp
  obtain o2 where o2: "ba_set_le 4 o1 (length sids) off = Inr (o2, off + 4)" "ba_wf o2"
    "ba_bytes o2 = ba_bytes o1 @ le_bytes 4 (length sids)"
    using bak.set_le_append [OF o1(2) _ f2, of off "length sids"] o1(2) l1 by auto
  have l2: "ba_len o2 = off + 4" using o2(2,3) o1(2) l1 by (metis length_append length_ba_bytes length_le_bytes)
  let ?ys = "concat (map (le_bytes 4) sids)"
  have ly: "length ?ys = length sids * 4" by (simp add: length_concat_le_bytes)
  show thesis
  proof (cases "sids = []")
    case True
    then show thesis using that [of "ba_set_output o2"] o1(1) o2 b1 lo nu
      by (simp add: cmp_set_output_buffer_def bx_encode_def)
  next
    case False
    let ?n = "off + 4 + length sids * 4"
    define o3 where "o3 = ba_resize o2 ?n"
    have o3: "ba_wf o3" "ba_len o3 = ?n" using o2(2) by (simp_all add: o3_def)
    have fits: "off + 4 + length ?ys \<le> ba_len o3" "off + 4 < ba_len o3" using o3 ly False by simp_all
    obtain o4 where o4: "ba_poke o3 (off + 4) ?ys = Inr o4" "ba_wf o4" "ba_bytes o4 = patch (off + 4) ?ys (ba_bytes o3)"
      by (rule ba_poke_inside [OF o3(1) fits])
    have "ba_bytes o4 = ba_bytes o2 @ ?ys"
      using o4(3) patch_resize_end [OF o2(2), of ?n ?ys] ly l2 by (simp add: o3_def)
    moreover have "u64 ?n = ?n" using small by (simp add: u64_id)
    moreover have "take (length sids * 4) ?ys = ?ys" using ly by simp
    ultimately show thesis using that [of "ba_set_output o4"] o1(1) o2 o4(1,2) b1 lo nu False
      by (simp add: cmp_set_output_buffer_def bx_encode_def o3_def)
  qed
qed

lemma copy_header:
  assumes "ba_wf out" and "ba_len out = 0" and v: "bv_wf v" and "0 < length pre" and "length pre \<le> bv_size v"
    and eq: "bv_bytes v = pre @ post" and small: "8 + length pre < 2 ^ 64"
  obtains out' where "ba_copy_from_buffer out v 8 0 (length pre) = Inr (out', 8 + length pre)" and "ba_wf out'"
    and "ba_len out' = 8 + length pre" and "\<exists>junk. length junk = 8 \<and> ba_bytes out' = junk @ pre"
proof -
  have sl: "slice 0 (length pre) (bv_bytes v) = pre" using eq by (simp add: slice_def)
  obtain out' where o: "ba_copy_from_buffer out v 8 0 (length pre) = Inr (out', 8 + length pre)" "ba_wf out'"
    "ba_len out' = max (ba_len out) (8 + length pre)"
    "ba_bytes out' = patch 8 (slice 0 (length pre) (bv_bytes v))
       (ba_bytes (if ba_len out < 8 + length pre then ba_resize out (8 + length pre) else out))"
    by (rule ba_copy_from_buffer_spec [OF assms(1) v assms(4), of 0 8]) (use assms in auto)
  let ?r = "ba_bytes (ba_resize out (8 + length pre))"
  have len: "length ?r = 8 + length pre" using assms(1) by simp
  have "ba_bytes out' = take 8 ?r @ pre"
    using o(4) sl assms(2) len by (simp add: patch_def)
  moreover have "length (take 8 ?r) = 8" using len by simp
  ultimately show thesis using that o(1-3) assms(2) by auto
qed

lemma cmp_init_out:
  assumes "ba_wf (ct_out c)"
  obtains out0 where "(if shared then Inr (ba_with_capacity (bv_size v)) else ba_reset (ba_reserve (ct_out c) (bv_size v))) = Inr out0"
    and "ba_wf out0" and "ba_len out0 = 0"
proof (cases shared)
  case True
  then show ?thesis using that [of "ba_with_capacity (bv_size v)"] by (simp add: ba_with_capacity_def ba_wf_def)
next
  case False
  then show ?thesis using that [of "ba_resize (ba_reserve (ct_out c) (bv_size v)) 0"] assms by (simp add: ba_reset_eq)
qed

section \<open>Transaction formats\<close>

locale tx_sizes =
  fixes ser :: "'t \<Rightarrow> byte list"
    and wft :: "'t \<Rightarrow> bool"
  assumes length_ser: "wft t \<Longrightarrow> 1 < length (ser t)"
begin

lemma length_piece: "wft t \<Longrightarrow> length (piece ser c t) \<le> length (ser t)"
  using length_ser [of t] by (simp add: piece_def)

lemma length_pieces: "list_all wft ts \<Longrightarrow> length (pieces ser c ts) \<le> length (sers ser ts)"
proof (induction ts)
  case (Cons t ts)
  then show ?case using length_piece [of t c] by (simp add: add_mono)
qed simp

end

locale tx_format = tx_sizes ser wft
  for ser :: "'t \<Rightarrow> byte list" and wft :: "'t \<Rightarrow> bool" +
  fixes hash :: "'t \<Rightarrow> hash"
    and tup :: "nat \<Rightarrow> 't \<Rightarrow> nat \<times> nat \<times> nat"
    and nxt :: "reader \<Rightarrow> nat \<Rightarrow> (nat \<times> nat \<times> nat \<times> nat) res"
    and body :: "tx_service \<Rightarrow> buffer_view \<Rightarrow> bool \<Rightarrow> real \<Rightarrow> nat \<times> nat \<times> nat \<Rightarrow> nat \<Rightarrow> cmp_sub \<Rightarrow> (nat \<times> cmp_sub) res"
    and kept :: "cmp_sub \<Rightarrow> sid list"
    and run :: "tx_service \<Rightarrow> buffer_view \<Rightarrow> bool \<Rightarrow> real \<Rightarrow> real \<Rightarrow> cmp_sub \<Rightarrow> cmp_sub res"
  assumes nxt_at: "bv_ok v \<Longrightarrow> wft t \<Longrightarrow> bv_bytes v = pre @ ser t @ post \<Longrightarrow>
      nxt (bv_read v) (length pre) = Inr (length pre + length (ser t), tup (length pre) t)"
    and body_at: "bv_ok v \<Longrightarrow> wft t \<Longrightarrow> bv_bytes v = pre @ ser t @ post \<Longrightarrow>
      body s v enable mx (tup (length pre) t) off cs =
      cmp_put s v enable mx (hash t) (length pre) (length pre + length (ser t)) off cs"
    and run_eq: "run s v enable now age cs =
      cmp_txs (body s v enable (now - age)) (cs_offsets cs) 0
        (cs\<lparr>cs_sids := [], cs_ignored := kept cs, cs_out := ba_resize (cs_out cs) 0\<rparr>)"
begin

lemma cmp_txs_spec:
  assumes v: "bv_ok v"
    and eq: "bv_bytes v = pre @ sers ser ts @ post" and ts: "txs_ready wft hash s ts"
    and out: "ba_wf (cs_out cs)" and small: "ba_len (cs_out cs) + length (sers ser ts) < 2 ^ 64"
    and cmpd: "cmpd = (\<lambda>t. sid_usable s enable mx (hash t))"
  shows "\<exists>cs'. cmp_txs (body s v enable mx) (offsets_at tup ser (length pre) ts) (ba_len (cs_out cs)) cs = Inr cs' \<and>
    ba_wf (cs_out cs') \<and> ba_bytes (cs_out cs') = ba_bytes (cs_out cs) @ pieces ser cmpd ts \<and>
    cs_sids cs' = cs_sids cs @ piece_sids hash s cmpd ts \<and> cs_ignored cs' = cs_ignored cs @ ignored_sids hash s cmpd ts \<and>
    cs_offsets cs' = cs_offsets cs"
  using eq ts out small
proof (induction ts arbitrary: pre cs)
  case (Cons t ts)
  have e: "bv_bytes v = pre @ ser t @ (sers ser ts @ post)" using Cons.prems(1) by simp
  have t: "wft t" "sid_resolved s (hash t)" "txs_ready wft hash s ts" using Cons.prems(2) by auto
  have sm: "ba_len (cs_out cs) + length (ser t) < 2 ^ 64" using Cons.prems(4) by simp
  have pos: "0 < length (ser t)" using length_ser [OF t(1)] by linarith
  obtain cs1 where c1: "body s v enable mx (tup (length pre) t) (ba_len (cs_out cs)) cs = Inr (ba_len (cs_out cs1), cs1)"
    "ba_wf (cs_out cs1)" "ba_bytes (cs_out cs1) = ba_bytes (cs_out cs) @ piece ser cmpd t"
    "cs_sids cs1 = cs_sids cs @ (if cmpd t then [tx_sid s (hash t)] else [])"
    "cs_ignored cs1 = cs_ignored cs @ (if has_short_id_hash s (hash t) \<and> \<not> cmpd t then [tx_sid s (hash t)] else [])"
    "cs_offsets cs1 = cs_offsets cs"
    using cmp_put_spec [OF v e pos t(2) Cons.prems(3) sm refl, of enable mx] unfolding cmpd body_at [OF v t(1) e] piece_def by blast
  have l1: "ba_len (cs_out cs1) = ba_len (cs_out cs) + length (piece ser cmpd t)"
    using c1(2,3) Cons.prems(3) by (metis length_append length_ba_bytes)
  have "ba_len (cs_out cs1) + length (sers ser ts) < 2 ^ 64"
    using Cons.prems(4) l1 length_piece [OF t(1), of cmpd] by simp
  moreover have "bv_bytes v = (pre @ ser t) @ sers ser ts @ post" using e by simp
  ultimately obtain cs2 where c2: "cmp_txs (body s v enable mx) (offsets_at tup ser (length (pre @ ser t)) ts) (ba_len (cs_out cs1)) cs1 = Inr cs2"
    "ba_wf (cs_out cs2)" "ba_bytes (cs_out cs2) = ba_bytes (cs_out cs1) @ pieces ser cmpd ts"
    "cs_sids cs2 = cs_sids cs1 @ piece_sids hash s cmpd ts" "cs_ignored cs2 = cs_ignored cs1 @ ignored_sids hash s cmpd ts"
    "cs_offsets cs2 = cs_offsets cs1"
    using Cons.IH [of "pre @ ser t" cs1] t(3) c1(2) by blast
  have "cmp_txs (body s v enable mx) (offsets_at tup ser (length pre) (t # ts)) (ba_len (cs_out cs)) cs = Inr cs2"
    using c1(1) c2(1) by simp
  then show ?case using c1 c2 by (auto simp: piece_sids_def ignored_sids_def)
qed simp

lemma run_spec:
  assumes v: "bv_ok v"
    and eq: "bv_bytes v = pre @ sers ser ts @ post" and ts: "txs_ready wft hash s ts"
    and out: "ba_wf (cs_out cs)" and offs: "cs_offsets cs = offsets_at tup ser (length pre) ts"
    and cmpd: "cmpd = (\<lambda>t. sid_usable s enable (now - age) (hash t))"
  shows "\<exists>cs'. run s v enable now age cs = Inr cs' \<and> ba_wf (cs_out cs') \<and>
    ba_bytes (cs_out cs') = pieces ser cmpd ts \<and> cs_sids cs' = piece_sids hash s cmpd ts \<and>
    cs_ignored cs' = kept cs @ ignored_sids hash s cmpd ts"
proof -
  define cs1 where "cs1 = cs\<lparr>cs_sids := [], cs_ignored := kept cs, cs_out := ba_resize (cs_out cs) 0\<rparr>"
  have cs1: "ba_wf (cs_out cs1)" "ba_len (cs_out cs1) = 0" "ba_bytes (cs_out cs1) = []" "cs_sids cs1 = []"
    "cs_ignored cs1 = kept cs" "cs_offsets cs1 = cs_offsets cs"
    using out by (simp_all add: cs1_def ba_bytes_def)
  have "length (sers ser ts) < 2 ^ 64" using bvs.bytes_small [OF v] eq by simp
  then obtain cs' where "cmp_txs (body s v enable (now - age)) (offsets_at tup ser (length pre) ts) (ba_len (cs_out cs1)) cs1 = Inr cs'"
    "ba_wf (cs_out cs')" "ba_bytes (cs_out cs') = ba_bytes (cs_out cs1) @ pieces ser cmpd ts"
    "cs_sids cs' = cs_sids cs1 @ piece_sids hash s cmpd ts" "cs_ignored cs' = cs_ignored cs1 @ ignored_sids hash s cmpd ts"
    using cmp_txs_spec [OF v eq ts cs1(1) _ cmpd] cs1(2) by auto
  then show ?thesis
    using cs1 offs by (simp add: run_eq flip: cs1_def)
qed

lemma dispatch_loop_spec:
  assumes v: "bv_ok v" and pool: "0 < pool" "pool \<le> length subs"
    and eq: "bv_bytes v = pre @ sers ser done @ sers ser rest @ post" and rest: "list_all wft rest"
    and p: "p \<le> bulk_idx pool bulk (length done)" "bulk_idx pool bulk (length done) \<le> p + 1" "p < pool"
    and offs: "offsets_upto (Suc p) subs = offsets_at tup ser (length pre) done"
    and fresh: "\<And>j. p < j \<Longrightarrow> j < length subs \<Longrightarrow> cs_offsets (subs ! j) = []"
  shows "\<exists>last subs'. cmp_dispatch_loop (nxt (bv_read v)) pool bulk (length rest) (length done) (length (pre @ sers ser done)) p subs [0..<p] =
      Inr (last, subs', [0..<last]) \<and> last < pool \<and> length subs' = length subs \<and>
    offsets_upto (Suc last) subs' = offsets_at tup ser (length pre) (done @ rest) \<and>
    (\<forall>j < length subs. \<exists>x. subs' ! j = (subs ! j)\<lparr>cs_offsets := x\<rparr>)"
  using assms(3-)
proof (induction rest arbitrary: "done" p subs)
  case Nil
  have "\<exists>x. subs ! j = (subs ! j)\<lparr>cs_offsets := x\<rparr>" for j by (rule exI [of _ "cs_offsets (subs ! j)"]) simp
  then show ?case using Nil by (intro exI [of _ p] exI [of _ subs]) auto
next
  case (Cons t rest)
  let ?idx = "bulk_idx pool bulk (length done)" and ?q = "pre @ sers ser done"
  let ?x = "tup (length ?q) t"
  let ?subs = "subs[?idx := (subs ! ?idx)\<lparr>cs_offsets := cs_offsets (subs ! ?idx) @ [?x]\<rparr>]"
  have t: "wft t" using Cons.prems(3) by simp
  have idx: "?idx < length subs" using bulk_idx_less [OF pool(1)] Cons.prems(1) by (meson le_trans less_le_trans)
  have nx: "nxt (bv_read v) (length ?q) = Inr (length (pre @ sers ser (done @ [t])), ?x)"
    using nxt_at [OF v t, of ?q] Cons.prems(2) by simp
  have cnt: "length done + 1 = length (done @ [t])"
    and ends: "length (pre @ sers ser (done @ [t])) = length ?q + length (ser t)" by simp_all
  have q: "(if p < ?idx then [0..<p] @ [p] else [0..<p]) = [0..<?idx]"
  proof (cases "p < ?idx")
    case True
    then have "?idx = Suc p" using Cons.prems(5) by linarith
    then show ?thesis by simp
  qed (use Cons.prems(4) in simp)
  have prem: "pool \<le> length ?subs" "bv_bytes v = pre @ sers ser (done @ [t]) @ sers ser rest @ post" "list_all wft rest"
    "?idx \<le> bulk_idx pool bulk (length (done @ [t]))" "bulk_idx pool bulk (length (done @ [t])) \<le> ?idx + 1" "?idx < pool"
    using Cons.prems bulk_idx_step [of pool bulk "length done"] bulk_idx_less [OF pool(1)] by auto
  have o: "offsets_upto (Suc ?idx) ?subs = offsets_at tup ser (length pre) (done @ [t])"
    using offsets_upto_add [OF Cons.prems(4) idx Cons.prems(8)] Cons.prems(7) by (simp add: offsets_at_append)
  have f: "cs_offsets (?subs ! j) = []" if "?idx < j" "j < length ?subs" for j
    using that Cons.prems(4,8) by simp
  obtain last subs' where r: "cmp_dispatch_loop (nxt (bv_read v)) pool bulk (length rest) (length (done @ [t]))
      (length (pre @ sers ser (done @ [t]))) ?idx ?subs [0..<?idx] = Inr (last, subs', [0..<last])"
    "last < pool" "length subs' = length ?subs" "offsets_upto (Suc last) subs' = offsets_at tup ser (length pre) ((done @ [t]) @ rest)"
    "\<forall>j < length ?subs. \<exists>x. subs' ! j = (?subs ! j)\<lparr>cs_offsets := x\<rparr>"
    using Cons.IH [OF prem o f] by blast
  have "cmp_dispatch_loop (nxt (bv_read v)) pool bulk (length (t # rest)) (length done) (length ?q) p subs [0..<p] =
      Inr (last, subs', [0..<last])"
    unfolding r(1) [symmetric]
    by (simp only: length_Cons cmp_dispatch_loop.simps Let_def nx rbind_simps prod.case q fst_conv snd_conv cnt ends)
  moreover have "\<forall>j < length subs. \<exists>x. subs' ! j = (subs ! j)\<lparr>cs_offsets := x\<rparr>"
  proof (intro allI impI)
    fix j assume j: "j < length subs"
    then obtain x where "subs' ! j = (?subs ! j)\<lparr>cs_offsets := x\<rparr>" using r(5) by auto
    then show "\<exists>x. subs' ! j = (subs ! j)\<lparr>cs_offsets := x\<rparr>" using j by (cases "j = ?idx") auto
  qed
  ultimately show ?case using r by auto
qed

lemma collect_spec:
  assumes v: "bv_ok v"
    and eq: "bv_bytes v = pre @ sers ser ts @ post" and ts: "txs_ready wft hash s ts"
    and out: "ba_wf (ct_out c)" and small: "ba_len (ct_out c) + length (sers ser ts) < 2 ^ 64"
    and offs: "concat (map (\<lambda>i. cs_offsets (ct_subs c ! i)) is) = offsets_at tup ser (length pre) ts"
    and "is": "distinct is" "\<forall>i \<in> set is. i < length (ct_subs c) \<and> ba_wf (cs_out (ct_subs c ! i))"
    and off: "off = ba_len (ct_out c)"
    and cmpd: "cmpd = (\<lambda>t. sid_usable s enable (now - age) (hash t))"
  shows "\<exists>c'. cmp_collect (run s v enable now age) is off c = Inr (ba_len (ct_out c'), c') \<and>
    ba_wf (ct_out c') \<and> ba_bytes (ct_out c') = ba_bytes (ct_out c) @ pieces ser cmpd ts \<and>
    ct_sids c' = ct_sids c @ piece_sids hash s cmpd ts \<and>
    (\<exists>segs. length segs = length is \<and> concat segs = ts \<and>
      ct_ignored c' = ct_ignored c @ concat (map (\<lambda>(i, seg). kept (ct_subs c ! i) @ ignored_sids hash s cmpd seg) (zip is segs))) \<and>
    ct_hash c' = ct_hash c \<and> ct_prev_hash c' = ct_prev_hash c \<and> ct_txn_count c' = ct_txn_count c"
  using eq ts out small offs "is" off
proof (induction "is" arbitrary: pre ts c off)
  case Nil
  then have "offsets_at tup ser (length pre) ts = []" by simp
  then have "ts = []" by (metis length_0_conv length_offsets_at)
  with Nil show ?case by simp
next
  case (Cons i "is")
  let ?sub = "ct_subs c ! i" and ?run = "run s v enable now age"
  have "cs_offsets ?sub @ concat (map (\<lambda>i. cs_offsets (ct_subs c ! i)) is) = offsets_at tup ser (length pre) ts"
    using Cons.prems(5) by simp
  then obtain ts1 ts2 where sp: "ts = ts1 @ ts2" "cs_offsets ?sub = offsets_at tup ser (length pre) ts1"
    "concat (map (\<lambda>i. cs_offsets (ct_subs c ! i)) is) = offsets_at tup ser (length pre + length (sers ser ts1)) ts2"
    by (rule offsets_at_split)
  have e: "bv_bytes v = pre @ sers ser ts1 @ (sers ser ts2 @ post)" "bv_bytes v = (pre @ sers ser ts1) @ sers ser ts2 @ post"
    using Cons.prems(1) sp(1) by simp_all
  have ok: "txs_ready wft hash s ts1" "txs_ready wft hash s ts2" using Cons.prems(2) sp(1) by simp_all
  have wo: "ba_wf (cs_out ?sub)" using Cons.prems(7) by simp
  obtain cs where cs: "?run ?sub = Inr cs" "ba_wf (cs_out cs)" "ba_bytes (cs_out cs) = pieces ser cmpd ts1"
    "cs_sids cs = piece_sids hash s cmpd ts1" "cs_ignored cs = kept ?sub @ ignored_sids hash s cmpd ts1"
    using run_spec [OF v e(1) ok(1) wo sp(2) cmpd] by blast
  have lp: "ba_len (cs_out cs) \<le> length (sers ser ts1)"
    using cs(2,3) length_pieces [of ts1 cmpd] ok(1) by (metis txs_ready_def length_ba_bytes)
  have sm: "ba_len (ct_out c) + ba_len (cs_out cs) < 2 ^ 64" using Cons.prems(4) sp(1) lp by simp
  obtain out where o: "ba_append (ct_out c) (cs_out cs) = Inr out" "ba_wf out"
    "ba_bytes out = ba_bytes (ct_out c) @ pieces ser cmpd ts1"
    using ba_append_spec [OF Cons.prems(3) cs(2) sm] cs(3) by metis
  have lo: "ba_len out = ba_len (ct_out c) + ba_len (cs_out cs)"
    using o(2,3) Cons.prems(3) cs(2,3) by (metis length_append length_ba_bytes)
  define c1 where "c1 = c\<lparr>ct_subs := (ct_subs c)[i := cs], ct_out := out, ct_sids := ct_sids c @ cs_sids cs,
    ct_ignored := ct_ignored c @ cs_ignored cs\<rparr>"
  have other: "ct_subs c1 ! j = ct_subs c ! j" if "j \<in> set is" for j
    using that Cons.prems(6) by (cases "j = i") (auto simp: c1_def)
  have p1: "ba_len (ct_out c1) + length (sers ser ts2) < 2 ^ 64" "ba_wf (ct_out c1)"
    using Cons.prems(4) sp(1) lp lo o(2) by (simp_all add: c1_def)
  have p2: "concat (map (\<lambda>i. cs_offsets (ct_subs c1 ! i)) is) = offsets_at tup ser (length (pre @ sers ser ts1)) ts2"
    using sp(3) other by (simp cong: map_cong)
  have p3: "distinct is" "\<forall>j \<in> set is. j < length (ct_subs c1) \<and> ba_wf (cs_out (ct_subs c1 ! j))"
    using Cons.prems(6,7) other by (auto simp: c1_def)
  obtain c' segs where c': "cmp_collect ?run is (ba_len (ct_out c1)) c1 = Inr (ba_len (ct_out c'), c')"
    "ba_wf (ct_out c')" "ba_bytes (ct_out c') = ba_bytes (ct_out c1) @ pieces ser cmpd ts2"
    "ct_sids c' = ct_sids c1 @ piece_sids hash s cmpd ts2" "length segs = length is" "concat segs = ts2"
    "ct_ignored c' = ct_ignored c1 @ concat (map (\<lambda>(i, seg). kept (ct_subs c1 ! i) @ ignored_sids hash s cmpd seg) (zip is segs))"
    "ct_hash c' = ct_hash c1" "ct_prev_hash c' = ct_prev_hash c1" "ct_txn_count c' = ct_txn_count c1"
    using Cons.IH [OF e(2) ok(2) p1(2,1) p2 p3 refl] by blast
  have "map (\<lambda>(i, seg). kept (ct_subs c1 ! i) @ ignored_sids hash s cmpd seg) (zip is segs) =
      map (\<lambda>(i, seg). kept (ct_subs c ! i) @ ignored_sids hash s cmpd seg) (zip is segs)"
    by (auto simp: other dest: set_zip_leftD)
  then have ign: "ct_ignored c' = ct_ignored c1 @
      concat (map (\<lambda>(i, seg). kept (ct_subs c ! i) @ ignored_sids hash s cmpd seg) (zip is segs))"
    using c'(7) by (simp only:)
  have "cmp_collect ?run (i # is) off c = Inr (ba_len (ct_out c'), c')"
    using cs(1) o(1) c'(1) by (simp add: cmp_on_sub_task_completed_def c1_def)
  then show ?case
    using c'(2-6,8-10) ign o(3) cs(4,5) sp(1)
    by (intro exI [of _ c'] conjI exI [of _ "ts1 # segs"]) (simp_all add: c1_def)
qed

lemma dispatch_spec:
  assumes v: "bv_ok v" and c: "cmp_task_ok pool c" and pool: "0 < pool"
    and eq: "bv_bytes v = pre @ sers ser ts @ post" and ts: "list_all wft ts"
  shows "\<exists>last subs. cmp_dispatch_loop (nxt (bv_read v)) pool bulk (length ts) 0 (length pre) 0
      (cmp_init_sub_tasks pool (length ts) (ct_subs c)) [] = Inr (last, subs, [0..<last]) \<and>
    last < length subs \<and> offsets_upto (Suc last) subs = offsets_at tup ser (length pre) ts \<and>
    (\<forall>cs \<in> set subs. ba_wf (cs_out cs)) \<and>
    (\<forall>j < length subs. cs_ignored (subs ! j) = (if j < length (ct_subs c) then cs_ignored (ct_subs c ! j) else []))"
proof -
  define subs where "subs = cmp_init_sub_tasks pool (length ts) (ct_subs c)"
  note ok = cmp_init_sub_tasks_ok [OF c pool subs_def]
  have nth: "cs_offsets (subs ! j) = []" if "j < length subs" for j using ok(2) that by simp
  have base: "offsets_upto (Suc 0) subs = offsets_at tup ser (length pre) []"
    using ok(1,2) pool by (cases subs) (auto simp: offsets_upto_def)
  have "\<exists>last subs'.
    cmp_dispatch_loop (nxt (bv_read v)) pool bulk (length ts) (length ([] :: 't list)) (length (pre @ sers ser [])) 0 subs [0..<0] =
      Inr (last, subs', [0..<last]) \<and> last < pool \<and> length subs' = length subs \<and>
    offsets_upto (Suc last) subs' = offsets_at tup ser (length pre) ([] @ ts) \<and>
    (\<forall>j < length subs. \<exists>x. subs' ! j = (subs ! j)\<lparr>cs_offsets := x\<rparr>)"
    by (rule dispatch_loop_spec [OF v pool ok(1), where post = post]) (use eq ts pool base nth in simp_all)
  then obtain last subs' where r:
    "cmp_dispatch_loop (nxt (bv_read v)) pool bulk (length ts) (length ([] :: 't list)) (length (pre @ sers ser [])) 0 subs [0..<0] =
      Inr (last, subs', [0..<last])" "last < pool" "length subs' = length subs"
    "offsets_upto (Suc last) subs' = offsets_at tup ser (length pre) ([] @ ts)"
    "\<forall>j < length subs. \<exists>x. subs' ! j = (subs ! j)\<lparr>cs_offsets := x\<rparr>"
    by blast
  have same: "cs_out (subs' ! j) = cs_out (subs ! j) \<and> cs_ignored (subs' ! j) = cs_ignored (subs ! j)" if "j < length subs" for j
    using r(5) that by (metis (no_types, lifting) cmp_sub.select_convs(1,3) cmp_sub.surjective cmp_sub.update_convs(4))
  have "cmp_dispatch_loop (nxt (bv_read v)) pool bulk (length ts) 0 (length pre) 0
      (cmp_init_sub_tasks pool (length ts) (ct_subs c)) [] = Inr (last, subs', [0..<last])"
    using r(1) by (simp add: subs_def)
  moreover have "\<forall>cs \<in> set subs'. ba_wf (cs_out cs)"
    using same ok(2) r(3) by (metis in_set_conv_nth nth_mem)
  moreover have "\<forall>j < length subs'. cs_ignored (subs' ! j) = (if j < length (ct_subs c) then cs_ignored (ct_subs c ! j) else [])"
    using same ok(3,4) r(3) by auto
  ultimately show ?thesis using r(2,3,4) ok(1) by (intro exI [of _ last] exI [of _ subs']) auto
qed

text \<open>The part of \<^verbatim>\<open>_execute\<close> behind the front of the output: dispatching, collecting and the short ids.\<close>

lemma encode_spec:
  assumes v: "bv_ok v" and c: "cmp_task_ok pool c" "ct_sids c = []" "ct_ignored c = []" and pool: "0 < pool"
    and eq: "bv_bytes v = pre @ sers ser ts @ post" and ts: "txs_ready wft hash s ts" "length ts < 2 ^ 32"
    and out1: "ba_wf out1" "ba_bytes out1 = junk @ front" "length junk = 8"
    and small: "8 + (length front + length (sers ser ts)) + 4 + 4 * length ts < 2 ^ 64"
    and cmpd: "cmpd = (\<lambda>t. sid_usable s enable (now - age) (hash t))"
  obtains last subs c' out digest segs where
    "cmp_dispatch_loop (nxt (bv_read v)) pool bulk (length ts) 0 (length pre) 0 (cmp_init_sub_tasks pool (length ts) (ct_subs c)) [] =
       Inr (last, subs, [0..<last])"
    and "cmp_collect (run s v enable now age) [0..<Suc last] (ba_len out1) (c\<lparr>ct_subs := subs, ct_out := out1\<rparr>) = Inr (ba_len (ct_out c'), c')"
    and "cmp_set_output_buffer (ct_out c') (ct_sids c') (ba_len (ct_out c')) = Inr out"
    and "double_sha256 H (bv_msg (ba_arr out)) 0 (ba_len out) = Inr digest"
    and "ba_bytes out = bx_encode (front @ pieces ser cmpd ts) (piece_sids hash s cmpd ts)"
    and "ct_sids c' = piece_sids hash s cmpd ts"
    and "segs \<noteq> []" and "concat segs = ts"
    and "ct_ignored c' = concat (map (\<lambda>(i, seg). kept (subs ! i) @ ignored_sids hash s cmpd seg) (zip [0..<length segs] segs))"
    and "length segs \<le> length subs"
    and "\<forall>j < length subs. cs_ignored (subs ! j) = (if j < length (ct_subs c) then cs_ignored (ct_subs c ! j) else [])"
    and "ct_hash c' = ct_hash c" and "ct_prev_hash c' = ct_prev_hash c" and "ct_txn_count c' = ct_txn_count c"
proof -
  have wts: "list_all wft ts" using ts(1) by (simp add: txs_ready_def)
  obtain last subs where d: "cmp_dispatch_loop (nxt (bv_read v)) pool bulk (length ts) 0 (length pre) 0
      (cmp_init_sub_tasks pool (length ts) (ct_subs c)) [] = Inr (last, subs, [0..<last])"
    "last < length subs" "offsets_upto (Suc last) subs = offsets_at tup ser (length pre) ts" "\<forall>cs \<in> set subs. ba_wf (cs_out cs)"
    "\<forall>j < length subs. cs_ignored (subs ! j) = (if j < length (ct_subs c) then cs_ignored (ct_subs c ! j) else [])"
    using dispatch_spec [OF v c(1) pool eq wts] by blast
  define c3 where "c3 = c\<lparr>ct_subs := subs, ct_out := out1\<rparr>"
  have l1: "ba_len out1 = 8 + length front" using length_ba_bytes [OF out1(1)] out1(2,3) by simp
  have p1: "ba_wf (ct_out c3)" "ba_len (ct_out c3) + length (sers ser ts) < 2 ^ 64" "ba_len out1 = ba_len (ct_out c3)"
    using out1(1) l1 small by (simp_all add: c3_def)
  have p2: "concat (map (\<lambda>i. cs_offsets (ct_subs c3 ! i)) [0..<Suc last]) = offsets_at tup ser (length pre) ts"
    using d(2,3) by (simp add: c3_def offsets_upto_eq)
  have p3: "distinct [0..<Suc last]" "\<forall>i \<in> set [0..<Suc last]. i < length (ct_subs c3) \<and> ba_wf (cs_out (ct_subs c3 ! i))"
    using d(2,4) by (auto simp: c3_def)
  obtain c4 segs where c4: "cmp_collect (run s v enable now age) [0..<Suc last] (ba_len out1) c3 = Inr (ba_len (ct_out c4), c4)"
    "ba_wf (ct_out c4)" "ba_bytes (ct_out c4) = ba_bytes (ct_out c3) @ pieces ser cmpd ts"
    "ct_sids c4 = ct_sids c3 @ piece_sids hash s cmpd ts" "length segs = length [0..<Suc last]" "concat segs = ts"
    "ct_ignored c4 = ct_ignored c3 @ concat (map (\<lambda>(i, seg). kept (ct_subs c3 ! i) @ ignored_sids hash s cmpd seg) (zip [0..<Suc last] segs))"
    "ct_hash c4 = ct_hash c3" "ct_prev_hash c4 = ct_prev_hash c3" "ct_txn_count c4 = ct_txn_count c3"
    using collect_spec [OF v eq ts(1) p1(1,2) p2 p3 p1(3) cmpd] by blast
  have sids: "ct_sids c4 = piece_sids hash s cmpd ts" using c4(4) c(2) by (simp add: c3_def)
  have b4: "ba_bytes (ct_out c4) = junk @ (front @ pieces ser cmpd ts)" using c4(3) out1(2) by (simp add: c3_def)
  have len4: "ba_len (ct_out c4) \<le> 8 + (length front + length (sers ser ts))"
    using b4 out1(3) length_pieces [OF wts, of cmpd] length_ba_bytes [OF c4(2)] by simp
  have n4: "length (ct_sids c4) < 2 ^ 32" "ba_len (ct_out c4) + 4 + 4 * length (ct_sids c4) < 2 ^ 64"
    using sids length_piece_sids [of hash s cmpd ts] ts(2) len4 small by simp_all
  obtain out where out: "cmp_set_output_buffer (ct_out c4) (ct_sids c4) (ba_len (ct_out c4)) = Inr out" "ba_wf out"
    "ba_bytes out = bx_encode (front @ pieces ser cmpd ts) (ct_sids c4)"
    by (rule cmp_set_output_buffer_spec [OF c4(2) b4 out1(3) refl n4])
  have "ba_len out < 2 ^ 64"
    using length_ba_bytes [OF out(2)] out(3) b4 out1(3) length_ba_bytes [OF c4(2)] n4(2)
    by (simp add: bx_encode_def length_concat_le_bytes)
  then obtain dg where dg: "double_sha256 H (bv_msg (ba_arr out)) 0 (ba_len out) = Inr dg"
    using double_sha256_prefix [of "ba_len out" "ba_arr out" H] out(2) by (auto simp: ba_wf_def)
  have segs: "length segs = Suc last" using c4(5) by simp
  show thesis
  proof (rule that [OF d(1) c4(1) [unfolded c3_def] out(1) dg])
    show "segs \<noteq> []" "length segs \<le> length subs" using segs d(2) by auto
    show "ct_ignored c4 = concat (map (\<lambda>(i, seg). kept (subs ! i) @ ignored_sids hash s cmpd seg) (zip [0..<length segs] segs))"
      unfolding segs using c4(7) c(3) by (simp add: c3_def del: upt_Suc)
  qed (use out(3) sids c4(6,8-10) d(5) in \<open>simp_all add: c3_def\<close>)
qed

end

end
