(* ===== verification/BtcCompressionProps.thy ===== *)
theory BtcCompressionProps
  imports BlockCodec
begin

text \<open>
  What the compression task produces for a well-formed block: the specification of its output as a
  function of the transactions, independent of how the block was cut into sub-tasks, and the proof
  that the task computes it.
\<close>

section \<open>Specification\<close>

definition tx_hash :: "(byte list \<Rightarrow> byte list) \<Rightarrow> btc_tx \<Rightarrow> hash" where
  "tx_hash H t = rev (H (H (ser_stripped t)))"

abbreviation tx_compressed :: "(byte list \<Rightarrow> byte list) \<Rightarrow> tx_service \<Rightarrow> bool \<Rightarrow> real \<Rightarrow> btc_tx \<Rightarrow> bool" where
  "tx_compressed H s enable max_timestamp \<equiv> \<lambda>t. sid_usable s enable max_timestamp (tx_hash H t)"

abbreviation sender_ok :: "(byte list \<Rightarrow> byte list) \<Rightarrow> tx_service \<Rightarrow> btc_tx \<Rightarrow> bool" where
  "sender_ok H s \<equiv> \<lambda>t. sid_resolved s (tx_hash H t)"

abbreviation tx_piece :: "(btc_tx \<Rightarrow> bool) \<Rightarrow> btc_tx \<Rightarrow> byte list" where
  "tx_piece \<equiv> piece ser_tx"

abbreviation txs_pieces :: "(btc_tx \<Rightarrow> bool) \<Rightarrow> btc_tx list \<Rightarrow> byte list" where
  "txs_pieces \<equiv> pieces ser_tx"

abbreviation ser_txs :: "btc_tx list \<Rightarrow> byte list" where
  "ser_txs \<equiv> sers ser_tx"

abbreviation txs_sids :: "(byte list \<Rightarrow> byte list) \<Rightarrow> tx_service \<Rightarrow> (btc_tx \<Rightarrow> bool) \<Rightarrow> btc_tx list \<Rightarrow> sid list" where
  "txs_sids H \<equiv> piece_sids (tx_hash H)"

abbreviation txs_ignored :: "(byte list \<Rightarrow> byte list) \<Rightarrow> tx_service \<Rightarrow> (btc_tx \<Rightarrow> bool) \<Rightarrow> btc_tx list \<Rightarrow> sid list" where
  "txs_ignored H \<equiv> ignored_sids (tx_hash H)"

definition btc_tup :: "nat \<Rightarrow> btc_tx \<Rightarrow> nat \<times> nat \<times> nat" where
  "btc_tup pos t =
     (pos, pos + length (ser_tx t) - 4 - length (concat (map ser_wit (tx_wits t))), pos + length (ser_tx t))"

definition btc_tx_ok :: "(byte list \<Rightarrow> byte list) \<Rightarrow> btc_tx \<Rightarrow> bool" where
  \<comment> \<open>a well-formed transaction, with a hash function of 32 byte digests\<close>
  "btc_tx_ok H t \<longleftrightarrow> wf_tx t \<and> (\<forall>bs. length (H bs) = 32)"

lemma length_ser_tx: "wf_tx t \<Longrightarrow> 10 \<le> length (ser_tx t)"
  using length_ser_body [of t] by (auto simp: ser_tx_def wf_tx_def)

interpretation btc: tx_format ser_tx "btc_tx_ok H" "tx_hash H" btc_tup cmp_next "cmp_tx H" cs_ignored "cmp_run_sub H"
  for H
proof (unfold_locales, goal_cases)
  case (1 t)
  then show ?case using length_ser_tx [of t] by (simp add: btc_tx_ok_def)
next
  case (2 v t pre post)
  then show ?case using bvs.get_next_tx_offset_at [of v t pre post] by (simp add: btc_tx_ok_def cmp_next_def btc_tup_def)
next
  case (3 v t pre post s enable mx off cs)
  then have "get_tx_id H v (length pre) (fst (snd (btc_tup (length pre) t))) (snd (snd (btc_tup (length pre) t))) =
      Inr (sha_of_binary (tx_hash H t))"
    unfolding tx_hash_def
    by (intro get_tx_id_at) (auto simp: btc_tx_ok_def btc_tup_def bvs.get_next_tx_offset_at [of v t pre post])
  then show ?case by (simp add: cmp_tx_def btc_tup_def)
next
  case (4 s v enable now age cs)
  then show ?case by (simp add: cmp_run_sub_def cmp_sub_init_def ba_reset_eq cmp_sub_execute_def)
qed

section \<open>The compressed block\<close>

definition btc_block :: "byte list \<Rightarrow> byte list \<Rightarrow> btc_tx list \<Rightarrow> byte list" where
  "btc_block hdr vi ts = hdr @ vi @ ser_txs ts"

definition wf_block :: "byte list \<Rightarrow> byte list \<Rightarrow> btc_tx list \<Rightarrow> bool" where
  "wf_block hdr vi ts \<longleftrightarrow>
     length hdr = 104 \<and> wf_vi vi \<and> vi_val vi = length ts \<and> list_all wf_tx ts \<and> length ts < 2 ^ 32 \<and>
     8 + length (btc_block hdr vi ts) + 4 + 4 * length ts < 2 ^ 64"

lemma block_header_reads:
  assumes H: "\<And>bs. length (H bs) = 32" and b: "wf_block hdr vi ts"
    and v: "bv_ok v" "bv_bytes v = btc_block hdr vi ts"
  shows "get_prev_block_hash v = Inr (sha_of_binary (rev (slice 28 32 hdr)))"
    and "generate_block_hash H v = Inr (sha_of_binary (rev (H (H (slice 24 80 hdr)))))"
    and "get_tx_count (bv_read v) = Inr (length ts, length (hdr @ vi))"
proof -
  have hdr: "length hdr = 104" using b by (simp add: wf_block_def)
  have sz: "104 \<le> bv_size v" using v hdr length_bv_bytes [of v] by (simp add: bv_ok_def btc_block_def)
  have "slice 28 32 (bv_bytes v) = slice 28 32 hdr" "slice 24 80 (bv_bytes v) = slice 24 80 hdr"
    using hdr by (simp_all add: v(2) btc_block_def slice_append_left)
  then show "get_prev_block_hash v = Inr (sha_of_binary (rev (slice 28 32 hdr)))"
    "generate_block_hash H v = Inr (sha_of_binary (rev (H (H (slice 24 80 hdr)))))"
    using v sz sha_read_inside [of v 28] double_sha256_inside [OF v(1) _ H, of 24 80]
    by (simp_all add: get_prev_block_hash_def generate_block_hash_def btc_consts bv_ok_def sha_reverse_def)
  show "get_tx_count (bv_read v) = Inr (length ts, length (hdr @ vi))"
    using bvs.get_varint_at [OF v(1), of hdr vi "ser_txs ts"] b v(2)
    by (simp add: get_tx_count_def btc_consts wf_block_def btc_block_def)
qed

lemma cmp_block_spec:
  assumes H: "\<And>bs. length (H bs) = 32" and c: "cmp_task_ok pool c" and pool: "0 < pool"
    and b: "wf_block hdr vi ts" and s: "list_all (sender_ok H s) ts"
    and v: "bv_ok v" "bv_bytes v = btc_block hdr vi ts"
    and cmpd: "cmpd = tx_compressed H s enable (now - age)"
  shows "\<exists>c'. cmp_block H s pool enable now age shared c v = Inr c' \<and>
    ba_bytes (ct_out c') = bx_encode (hdr @ vi @ txs_pieces cmpd ts) (txs_sids H s cmpd ts) \<and>
    ct_sids c' = txs_sids H s cmpd ts \<and> ct_txn_count c' = length ts \<and>
    ct_hash c' = Some (sha_of_binary (rev (H (H (slice 24 80 hdr))))) \<and>
    ct_prev_hash c' = Some (sha_of_binary (rev (slice 28 32 hdr))) \<and>
    (\<exists>segs. segs \<noteq> [] \<and> concat segs = ts \<and>
      ct_ignored c' = concat (map (\<lambda>(i, seg). (if i < length (ct_subs c) then cs_ignored (ct_subs c ! i) else []) @
        txs_ignored H s cmpd seg) (zip [0..<length segs] segs)))"
proof -
  let ?run = "cmp_run_sub H s v enable now age" and ?pre = "hdr @ vi"
  note hd = block_header_reads [OF H b v]
  have out_c: "ba_wf (ct_out c)" using c by (simp add: cmp_task_ok_def)
  obtain out0 where out0: "(if shared then Inr (ba_with_capacity (bv_size v)) else ba_reset (ba_reserve (ct_out c) (bv_size v))) = Inr out0"
    "ba_wf out0" "ba_len out0 = 0"
    by (rule cmp_init_out [OF out_c])
  define c1 where "c1 = c\<lparr>ct_out := out0, ct_sids := [], ct_ignored := [], ct_txn_count := 0,
             ct_prev_hash := None, ct_hash := None, ct_compressed_hash := None\<rparr>"
  define c2 where "c2 = c1\<lparr>ct_prev_hash := Some (sha_of_binary (rev (slice 28 32 hdr))),
    ct_hash := Some (sha_of_binary (rev (H (H (slice 24 80 hdr))))), ct_txn_count := length ts\<rparr>"
  have c2: "cmp_task_ok pool c2" "ct_subs c2 = ct_subs c" "ct_out c2 = out0"
    using c out0 by (auto simp: cmp_task_ok_def c2_def c1_def)
  have bytes: "bv_bytes v = ?pre @ ser_txs ts @ []" and wts: "list_all (btc_tx_ok H) ts"
    using v(2) b H by (simp_all add: btc_block_def wf_block_def list_all_iff btc_tx_ok_def)
  have bsz: "length ?pre + length (ser_txs ts) = bv_size v"
    using v length_bv_bytes [of v] by (simp add: bv_ok_def btc_block_def)
  have big: "8 + (length ?pre + length (ser_txs ts)) + 4 + 4 * length ts < 2 ^ 64" and nts: "length ts < 2 ^ 32"
    and pre: "104 \<le> length ?pre"
    using b by (simp_all add: wf_block_def btc_block_def)
  obtain out1 where o1: "ba_copy_from_buffer out0 v 8 0 (length ?pre) = Inr (out1, 8 + length ?pre)" "ba_wf out1"
    "ba_len out1 = 8 + length ?pre" "\<exists>junk. length junk = 8 \<and> ba_bytes out1 = junk @ ?pre"
  proof (rule copy_header [OF out0(2,3), of v ?pre "ser_txs ts"])
    show "bv_wf v" using v(1) by (simp add: bv_ok_def)
    show "0 < length ?pre" using pre by linarith
    show "length ?pre \<le> bv_size v" "8 + length ?pre < 2 ^ 64" using pre bsz big by simp_all
    show "bv_bytes v = ?pre @ ser_txs ts" using bytes by simp
  qed (rule that)
  then obtain junk where junk: "length junk = 8" "ba_bytes out1 = junk @ ?pre" by blast
  have ok: "txs_ready (btc_tx_ok H) (tx_hash H) s ts" using s wts by (simp add: txs_ready_def)
  have c2e: "ct_sids c2 = []" "ct_ignored c2 = []" by (simp_all add: c2_def c1_def)
  let ?bulk = "max (length ts div pool) (max pool (ct_min_count c2))"
  obtain last subs c4 out dg segs where e:
    "cmp_dispatch_loop (cmp_next (bv_read v)) pool ?bulk (length ts) 0 (length ?pre) 0 (cmp_init_sub_tasks pool (length ts) (ct_subs c2)) [] =
       Inr (last, subs, [0..<last])"
    "cmp_collect ?run [0..<Suc last] (ba_len out1) (c2\<lparr>ct_subs := subs, ct_out := out1\<rparr>) = Inr (ba_len (ct_out c4), c4)"
    "cmp_set_output_buffer (ct_out c4) (ct_sids c4) (ba_len (ct_out c4)) = Inr out"
    "double_sha256 H (bv_msg (ba_arr out)) 0 (ba_len out) = Inr dg"
    "ba_bytes out = bx_encode (?pre @ txs_pieces cmpd ts) (txs_sids H s cmpd ts)"
    "ct_sids c4 = txs_sids H s cmpd ts" "segs \<noteq> []" "concat segs = ts"
    "ct_ignored c4 = concat (map (\<lambda>(i, seg). cs_ignored (subs ! i) @ txs_ignored H s cmpd seg) (zip [0..<length segs] segs))"
    "length segs \<le> length subs"
    "\<forall>j < length subs. cs_ignored (subs ! j) = (if j < length (ct_subs c2) then cs_ignored (ct_subs c2 ! j) else [])"
    "ct_hash c4 = ct_hash c2" "ct_prev_hash c4 = ct_prev_hash c2" "ct_txn_count c4 = ct_txn_count c2"
    by (rule btc.encode_spec [OF v(1) c2(1) c2e pool bytes ok nts o1(2) junk(2,1) big cmpd])
  have "cmp_block H s pool enable now age shared c v = Inr (c4\<lparr>ct_out := out, ct_compressed_hash := Some dg\<rparr>)"
    using out0(1) hd e(1-4) o1(1,3) c2(2,3)
    by (simp add: cmp_block_def cmp_init_def cmp_execute_def cmp_dispatch_def c1_def c2_def Let_def del: upt_Suc)
  moreover have "concat (map (\<lambda>(i, seg). cs_ignored (subs ! i) @ txs_ignored H s cmpd seg) (zip [0..<length segs] segs)) =
      concat (map (\<lambda>(i, seg). (if i < length (ct_subs c) then cs_ignored (ct_subs c ! i) else []) @
        txs_ignored H s cmpd seg) (zip [0..<length segs] segs))"
  proof -
    have "cs_ignored (subs ! i) = (if i < length (ct_subs c) then cs_ignored (ct_subs c ! i) else [])" if "i < length segs" for i
      using that e(10,11) c2(2) by simp
    then show ?thesis by (intro arg_cong [of _ _ concat] map_cong) (auto dest!: set_zip_leftD)
  qed
  ultimately show ?thesis
    using e(5-9,12-14) by (auto simp: c2_def c1_def)
qed

section \<open>Properties\<close>

text \<open>
  C7: for every well-formed bitcoin block, every pool size and every state a task is left in by
  earlier blocks, the compression task succeeds, and its output is the header and the transaction
  count as they were, each transaction with a short id of sufficient age replaced by the indicator
  byte and every other one in full, and the short ids in block order behind them; the block hash,
  the hash of the previous block and the number of transactions are those of the block. In
  particular the output does not depend on how the transactions were spread over the sub-tasks.
\<close>

theorem btc_compression_output:
  assumes "\<And>bs. length (H bs) = 32" and "cmp_task_ok pool c" and "0 < pool"
    and "wf_block hdr vi ts" and "list_all (sender_ok H s) ts" and "bv_ok v" and "bv_bytes v = btc_block hdr vi ts"
  shows "\<exists>c'. cmp_block H s pool enable now age shared c v = Inr c' \<and>
    ba_bytes (ct_out c') =
      bx_encode (hdr @ vi @ txs_pieces (tx_compressed H s enable (now - age)) ts)
        (txs_sids H s (tx_compressed H s enable (now - age)) ts) \<and>
    ct_sids c' = txs_sids H s (tx_compressed H s enable (now - age)) ts \<and> ct_txn_count c' = length ts \<and>
    ct_hash c' = Some (sha_of_binary (rev (H (H (slice 24 80 hdr))))) \<and>
    ct_prev_hash c' = Some (sha_of_binary (rev (slice 28 32 hdr)))"
  using cmp_block_spec [OF assms refl, of enable now age shared] by blast

text \<open>An example: a block of two transactions, the first of which has a short id.\<close>

definition demo_H :: "byte list \<Rightarrow> byte list" where
  "demo_H bs = take 32 (bs @ replicate 32 0)"

definition demo_tx :: "byte \<Rightarrow> btc_tx" where
  "demo_tx ver = \<lparr>tx_version = [ver, 0, 0, 0], tx_segwit = False, tx_ins_len = [1],
     tx_ins = [\<lparr>ti_prev = replicate 36 0, ti_len = [0], ti_script = [], ti_seq = replicate 4 0\<rparr>],
     tx_outs_len = [0], tx_outs = [], tx_wits = [], tx_lock = replicate 4 0\<rparr>"

definition demo_hdr :: "byte list" where
  "demo_hdr = replicate 16 0 @ [183, 0, 0, 0] @ replicate 84 0"

definition sid_service :: "hash \<Rightarrow> tx_service" where
  "sid_service h = snd (assign_short_id (#) (#) 0 (ts_new 1 10 6 2 1) h 7)"

definition demo_sender :: tx_service where
  "demo_sender = sid_service (tx_hash demo_H (demo_tx 1))"

definition demo_block :: buffer_view where
  "demo_block = bv_msg (btc_block demo_hdr [2] [demo_tx 1, demo_tx 2])"

lemma length_demo_H: "length (demo_H bs) = 32"
  by (simp add: demo_H_def)

lemma demo_tx_ser:
  "ser_tx (demo_tx b) = [b, 0, 0, 0, 1] @ replicate 41 0 @ [0] @ replicate 4 0"
  "ser_stripped (demo_tx b) = [b, 0, 0, 0, 1] @ replicate 41 0 @ [0] @ replicate 4 0"
  by (simp_all add: demo_tx_def ser_tx_def ser_stripped_def ser_body_def ser_in_def numeral_eq_Suc)

lemma wf_demo_tx: "wf_tx (demo_tx b)"
  by (simp add: demo_tx_def wf_tx_def wf_vi_def vi_val_def btc_consts wf_in_def ser_body_def)

lemma demo_hash: "tx_hash demo_H (demo_tx b) = rev ([b, 0, 0, 0, 1] @ replicate 27 0)"
  by (simp add: tx_hash_def demo_tx_ser demo_H_def take_append)

lemma sid_service_facts:
  "ts_sids (sid_service h) = [h \<mapsto> [7]]" "ts_hash (sid_service h) 7 = Some h"
  "get_short_id_assign_time (sid_service h) 7 = Inr 0" "ts_contents (sid_service h) = ts_contents (ts_new 1 10 6 2 1)"
proof -
  have n: "(7 :: nat) \<noteq> NULL_TX_SID" "ts_hash (ts_new 1 10 6 2 1) 7 = None" by (simp_all add: NULL_TX_SID_def ts_new_def)
  show "ts_sids (sid_service h) = [h \<mapsto> [7]]" "ts_hash (sid_service h) 7 = Some h" "ts_contents (sid_service h) = ts_contents (ts_new 1 10 6 2 1)"
    using assign_short_id_fresh [OF n] by (simp_all add: sid_service_def ts_new_def uset_insert_def)
  have "ts_assign_time (sid_service h) = fst (om_emplace om_new 7 0)"
    using n by (auto simp: sid_service_def assign_short_id_def has_short_id_def sids_index_def ts_new_def Let_def
        split: option.split prod.split)
  then show "get_short_id_assign_time (sid_service h) 7 = Inr 0"
    by (simp add: get_short_id_assign_time_def om_index_items om_items_emplace om_wf_emplace)
qed

lemmas demo_sender_facts = sid_service_facts [of "tx_hash demo_H (demo_tx 1)", folded demo_sender_def]

lemma demo_compressed:
  "tx_compressed demo_H demo_sender True 0 (demo_tx 1)" "\<not> tx_compressed demo_H demo_sender True 0 (demo_tx 2)"
  "tx_sid demo_sender (tx_hash demo_H (demo_tx 1)) = 7" "list_all (sender_ok demo_H demo_sender) [demo_tx 1, demo_tx 2]"
  by (simp_all add: sid_usable_def has_short_id_hash_def demo_sender_facts cmp_assign_time_def get_short_id_def
      demo_hash tx_sid_def sid_resolved_def)

lemma demo_block_facts:
  "wf_block demo_hdr [2] [demo_tx 1, demo_tx 2]" "bv_ok demo_block" "bv_bytes demo_block = btc_block demo_hdr [2] [demo_tx 1, demo_tx 2]"
  by (simp_all add: wf_block_def demo_block_def btc_block_def demo_hdr_def demo_tx_ser wf_demo_tx wf_vi_def vi_val_def btc_consts)

theorem btc_compression_output_witness:
  "\<exists>c'. cmp_block demo_H demo_sender 2 True 10 10 False (cmp_task_new 1000 1) demo_block = Inr c' \<and>
    ba_bytes (ct_out c') = bx_encode (demo_hdr @ [2] @ [0xff] @ ser_tx (demo_tx 2)) [7] \<and> ct_txn_count c' = 2"
  using btc_compression_output [OF length_demo_H cmp_task_ok_new _ demo_block_facts(1) demo_compressed(4) demo_block_facts(2,3),
      of 2 True 10 10 False 1000 1] demo_compressed(1-3)
  by (auto simp: pieces_def piece_def piece_sids_def BTC_SHORT_ID_INDICATOR_def)

text \<open>
  The list of short ids a sub-task ignored is never cleared between blocks: the result for a new
  block reports again the ids that the first sub-task ignored in earlier blocks.
\<close>

theorem stale_ignored_short_ids:
  assumes H: "\<And>bs. length (H bs) = 32" and c: "cmp_task_ok pool c" "0 < pool" "ct_subs c \<noteq> []"
    and b: "wf_block hdr vi ts" "list_all (sender_ok H s) ts" "bv_ok v" "bv_bytes v = btc_block hdr vi ts"
  shows "\<exists>c'. cmp_block H s pool enable now age shared c v = Inr c' \<and>
    set (cs_ignored (hd (ct_subs c))) \<subseteq> set (ct_ignored c')"
proof -
  obtain c' segs where c': "cmp_block H s pool enable now age shared c v = Inr c'" "segs \<noteq> []"
    "ct_ignored c' = concat (map (\<lambda>(i, seg). (if i < length (ct_subs c) then cs_ignored (ct_subs c ! i) else []) @
        txs_ignored H s (tx_compressed H s enable (now - age)) seg) (zip [0..<length segs] segs))"
    using cmp_block_spec [OF H c(1,2) b refl, of enable now age shared] by blast
  have "(0, hd segs) \<in> set (zip [0..<length segs] segs)"
    using c'(2) by (cases segs) (auto simp: upt_conv_Cons simp del: upt_Suc)
  then have "set (cs_ignored (hd (ct_subs c))) \<subseteq> set (ct_ignored c')"
    using c(3) unfolding c'(3) by (force simp: hd_conv_nth)
  with c'(1) show ?thesis by blast
qed

definition used_task :: cmp_task where
  "used_task = (cmp_task_new 1000 1)\<lparr>ct_subs := [(cmp_sub_new 100)\<lparr>cs_ignored := [42]\<rparr>]\<rparr>"

theorem stale_ignored_short_ids_witness:
  "\<exists>c'. cmp_block demo_H demo_sender 1 True 10 10 False used_task demo_block = Inr c' \<and> 42 \<in> set (ct_ignored c')"
proof -
  have "cmp_task_ok 1 used_task" "ct_subs used_task \<noteq> []" "cs_ignored (hd (ct_subs used_task)) = [42]"
    by (simp_all add: used_task_def cmp_task_ok_def cmp_task_new_def cmp_sub_new_def)
  with stale_ignored_short_ids [OF length_demo_H this(1) _ this(2) demo_block_facts(1) demo_compressed(4) demo_block_facts(2,3)]
  show ?thesis by fastforce
qed

end
