(* ===== verification/EthCompressionProps.thy ===== *)
theory EthCompressionProps
  imports EthCompression BtcCompressionProps
begin

text \<open>
  The Ethereum compression task refines the reference encoding of the block: on a well-formed block
  it ends, and the output buffer holds, from the starting offset on, the compressed message.
\<close>

section \<open>Transactions\<close>

definition eth_tx_hash :: "rlp_value \<Rightarrow> hash" where
  "eth_tx_hash t = sha3_256 (case t of RList bs \<Rightarrow> enc_value t | RStr bs \<Rightarrow> bs)"

definition eth_compressed :: "tx_service \<Rightarrow> bool \<Rightarrow> real \<Rightarrow> rlp_value \<Rightarrow> bool" where
  "eth_compressed s enable max_timestamp t \<longleftrightarrow>
     has_short_id_hash s (eth_tx_hash t) \<and> enable \<and>
     (case cmp_assign_time s (eth_tx_hash t) of Inr tm \<Rightarrow> tm \<le> max_timestamp | Inl _ \<Rightarrow> False)"

definition eth_sender_ok :: "tx_service \<Rightarrow> rlp_value \<Rightarrow> bool" where
  "eth_sender_ok s t \<longleftrightarrow>
     (has_short_id_hash s (eth_tx_hash t) \<longrightarrow>
       (\<exists>i tm. get_short_id s (eth_tx_hash t) = Inr i \<and> get_short_id_assign_time s i = Inr tm))"

definition eth_sids :: "tx_service \<Rightarrow> (rlp_value \<Rightarrow> bool) \<Rightarrow> rlp_value list \<Rightarrow> sid list" where
  "eth_sids s cmpd ts = map (\<lambda>t. tx_sid s (eth_tx_hash t)) (filter cmpd ts)"

definition eth_ignored :: "tx_service \<Rightarrow> (rlp_value \<Rightarrow> bool) \<Rightarrow> rlp_value list \<Rightarrow> sid list" where
  "eth_ignored s cmpd ts =
     map (\<lambda>t. tx_sid s (eth_tx_hash t)) (filter (\<lambda>t. has_short_id_hash s (eth_tx_hash t) \<and> \<not> cmpd t) ts)"

lemma eth_tx_hash_at_spec:
  assumes v: "bv_ok v" "bv_bytes v = pre @ enc_value t @ post" and t: "length (enc_value t) < 2 ^ 29"
  shows "eth_tx_hash_at v (length pre) = Inr (sha_of_binary (eth_tx_hash t))"
    and "\<exists>ty. eth_get_next_tx_offset v (length pre) = Inr (length (pre @ enc_value t), ty)"
proof -
  obtain p where p: "enc_value t = p @ payload t" using enc_value_split by blast
  have sz: "length (bv_bytes v) < 2 ^ 64" using bvs.bytes_small [OF v(1)] .
  have n: "length (payload t) < 2 ^ 32" using t p by simp
  have c: "bv_consume v (length pre) = Inr (length (payload t), value_type t, length (pre @ p))"
    using consume_value_at [OF v n] p by simp
  have u: "u64 (length (pre @ p) + length (payload t)) = length (pre @ enc_value t)"
    "u64_sub (length (pre @ enc_value t)) (length pre) = length (enc_value t)"
    using sz v(2) p by (simp_all add: u64_id u64_sub_id)
  show "\<exists>ty. eth_get_next_tx_offset v (length pre) = Inr (length (pre @ enc_value t), ty)"
    unfolding eth_get_next_tx_offset_def eth_next_offset_def by (simp only: c u(1) rbind_simps prod.case) simp
  have eqp: "bv_bytes v = (pre @ p) @ payload t @ post" using v(2) p by simp
  show "eth_tx_hash_at v (length pre) = Inr (sha_of_binary (eth_tx_hash t))"
  proof (cases t)
    case (RList bs)
    then have "value_type t = RLP_LIST" by simp
    then have "eth_tx_hash_at v (length pre) = keccak_sha3 (bv_read v) (length pre) (length (enc_value t))"
      unfolding eth_tx_hash_at_def by (simp only: c rbind_simps prod.case u simp_thms if_True)
    then show ?thesis using keccak_sha3_at [OF v refl refl] RList by (simp add: eth_tx_hash_def)
  next
    case (RStr bs)
    then have "value_type t \<noteq> RLP_LIST" by (simp add: rlp_consts)
    then have "eth_tx_hash_at v (length pre) = keccak_sha3 (bv_read v) (length (pre @ p)) (length (payload t))"
      unfolding eth_tx_hash_at_def by (simp only: c rbind_simps prod.case if_False)
    then show ?thesis using keccak_sha3_at [OF v(1) eqp refl refl] RStr by (simp add: eth_tx_hash_def)
  qed
qed

lemma eth_put_full_spec:
  assumes v: "bv_ok v" "bv_bytes v = pre @ enc_value t @ post" and t: "1 < length (enc_value t)" "length (enc_value t) < 2 ^ 29"
    and b: "ba_tight pfx" "ba_tight out" and small: "off + 4 * length (enc_value t) + 9 < 2 ^ 64" and cmpd: "\<not> cmpd t"
  shows "\<exists>pfx' out'. eth_put_full v (length pre) (length (pre @ enc_value t)) pfx out off =
      Inr (pfx', out', off + length (eth_tx_piece cmpd t)) \<and> ba_tight pfx' \<and> wrote out off (eth_tx_piece cmpd t) out'"
proof -
  let ?x = "enc_value t" let ?n = "length (enc_value t)"
  define sp where "sp = rlp_prefix RLP_STR_ENCODING_TYPE ?n"
  define lp where "lp = rlp_prefix RLP_LIST_ENCODING_TYPE (1 + length sp + ?n)"
  have piece: "eth_tx_piece cmpd t = lp @ [ETH_FULL_TX_INDICATOR] @ sp @ ?x"
    using cmpd enc_str_long [OF t(1)] by (simp add: eth_tx_piece_def enc_list_def lp_def sp_def)
  have lens: "length (eth_tx_piece cmpd t) \<le> 4 * ?n" by (rule length_eth_tx_piece [OF t])
  have sz: "bv_size v = length (bv_bytes v)" "length (bv_bytes v) < 2 ^ 64" "bv_wf v"
    using v(1) bvs.bytes_small [OF v(1)] by (simp_all add: bv_ok_def)
  have sub: "u64_sub (length (pre @ ?x)) (length pre) = ?n" using sz v(2) by (simp add: u64_sub_id)
  obtain pfx' where p: "get_length_prefix_str ba_len ba_resize ba_poke pfx ?n 0 = Inr (pfx', length sp)" "wrote pfx 0 sp pfx'"
    using wrote_length_prefix [OF b(1), of 0 ?n RLP_STR_ENCODING_TYPE] by (auto simp: get_length_prefix_str_def sp_def)
  have sl: "slice 0 (length sp) (ba_arr pfx') = sp" "length sp \<le> length (ba_arr pfx')" using wrote_holds [OF p(2)] holds_bound [OF wrote_holds [OF p(2)]]
    by (simp_all add: holds_def sp_def)
  have u: "u64 (1 + length sp + ?n) = 1 + length sp + ?n" using piece lens small by (simp add: u64_id)
  have o9: "off + 9 < 2 ^ 64" using small by simp
  obtain o1 where o1: "get_length_prefix_list ba_len ba_resize ba_poke out (1 + length sp + ?n) off = Inr (o1, off + length lp)"
    "wrote out off lp o1"
    using wrote_length_prefix [OF b(2) o9, of "1 + length sp + ?n" RLP_LIST_ENCODING_TYPE] by (auto simp: get_length_prefix_list_def lp_def)
  have l: "off + length lp + 1 + length sp + ?n < 2 ^ 64" using piece lens small by simp
  obtain o2 where o2: "ba_copy_from_array o1 [ETH_FULL_TX_INDICATOR] (off + length lp) 0 1 = Inr (o2, off + length lp + 1)"
    "wrote o1 (off + length lp) [ETH_FULL_TX_INDICATOR] o2"
    using wrote_copy_from_array [OF wrote_tight [OF o1(2)], of 0 1 "[ETH_FULL_TX_INDICATOR]" "off + length lp"] l by (auto simp: slice_def)
  obtain o3 where o3: "ba_copy_from_array o2 (ba_arr pfx') (off + length lp + 1) 0 (length sp) = Inr (o3, off + length lp + 1 + length sp)"
    "wrote o2 (off + length lp + 1) sp o3"
    using wrote_copy_from_array [OF wrote_tight [OF o2(2)], of 0 "length sp" "ba_arr pfx'" "off + length lp + 1"] l sl by auto
  obtain o4 where o4: "ba_copy_from_buffer o3 v (off + length lp + 1 + length sp) (length pre) ?n = Inr (o4, off + length lp + 1 + length sp + ?n)"
    "wrote o3 (off + length lp + 1 + length sp) ?x o4"
    using wrote_copy_from_buffer [OF wrote_tight [OF o3(2)] sz(3), of ?n "length pre" "off + length lp + 1 + length sp"] l enc_value_nonempty [of t] v(2) sz(1)
    by (auto simp: slice_middle)
  have "wrote out off (((lp @ [ETH_FULL_TX_INDICATOR]) @ sp) @ ?x) o4"
    by (intro wrote_trans) (use o1(2) o2(2) o3(2) o4(2) in \<open>simp_all add: add.assoc\<close>)
  moreover have "eth_put_full v (length pre) (length (pre @ ?x)) pfx out off = Inr (pfx', o4, off + length lp + 1 + length sp + ?n)"
    unfolding eth_put_full_def Let_def sub using enc_value_nonempty [of t]
    by (simp only: p(1) u o1(1) o2(1) o3(1) o4(1) rbind_simps prod.case length_greater_0_conv simp_thms if_True)
  ultimately show ?thesis using wrote_tight [OF p(2)] by (simp add: piece add.assoc)
qed

definition eth_cmp_after :: "tx_service \<Rightarrow> (rlp_value \<Rightarrow> bool) \<Rightarrow> rlp_value list \<Rightarrow> byte_array \<Rightarrow> eth_cmp \<Rightarrow> eth_cmp" where
  \<comment> \<open>the members of the task after the transactions \<open>ts\<close>\<close>
  "eth_cmp_after s cmpd ts out c =
     c\<lparr>ec_out := out, ec_sids := ec_sids c @ eth_sids s cmpd ts, ec_ignored := ec_ignored c @ eth_ignored s cmpd ts,
       ec_txn_count := ec_txn_count c + length ts\<rparr>"

lemma eth_cmp_tx_spec:
  assumes v: "bv_ok v" "bv_bytes v = pre @ enc_value t @ post" and t: "1 < length (enc_value t)" "length (enc_value t) < 2 ^ 29"
    and s: "eth_sender_ok s t" and b: "ba_tight pfx" "ba_tight (ec_out c)"
    and small: "off + 4 * length (enc_value t) + 9 < 2 ^ 64" and cnt: "ec_txn_count c + 1 < 2 ^ 64" and cmpd: "cmpd = eth_compressed s enable mx"
  shows "\<exists>pfx' out'. eth_cmp_tx s v enable mx (length pre) pfx off c =
      Inr (length (pre @ enc_value t), pfx', off + length (eth_tx_piece cmpd t), eth_cmp_after s cmpd [t] out' c) \<and>
    ba_tight pfx' \<and> wrote (ec_out c) off (eth_tx_piece cmpd t) out'"
proof -
  let ?h = "eth_tx_hash t"
  obtain ty where nxt: "eth_get_next_tx_offset v (length pre) = Inr (length (pre @ enc_value t), ty)"
    using eth_tx_hash_at_spec(2) [OF v t(2)] by blast
  note hash = eth_tx_hash_at_spec(1) [OF v t(2)]
  have u: "u64 (ec_txn_count c + 1) = ec_txn_count c + 1" using cnt by (rule u64_id)
  have sid: "get_short_id s ?h = Inr (tx_sid s ?h)" if "has_short_id_hash s ?h" using s that by (auto simp: eth_sender_ok_def tx_sid_def)
  have "\<exists>tm. cmp_assign_time s ?h = Inr tm" using s by (auto simp: eth_sender_ok_def cmp_assign_time_def)
  then obtain tm where at: "cmp_assign_time s ?h = Inr tm" by blast
  have "cmpd t \<longleftrightarrow> has_short_id_hash s ?h \<and> enable \<and> tm \<le> mx" by (simp add: cmpd eth_compressed_def at)
  note tm = at this sid
  show ?thesis
  proof (cases "cmpd t")
    case True
    let ?sh = "[ETH_RLP_OF_SHORT_TX, ETH_SHORT_ID_INDICATOR, ETH_SHORT_ID_INDICATOR]"
    have "off + 3 < 2 ^ 64" using small t(1) by simp
    then obtain o1 where o1: "ba_copy_from_array (ec_out c) ?sh off 0 3 = Inr (o1, off + 3)" "wrote (ec_out c) off ?sh o1"
      using wrote_copy_from_array [OF b(2), of 0 3 ?sh off] by (auto simp: slice_def)
    have "eth_cmp_tx s v enable mx (length pre) pfx off c =
        Inr (length (pre @ enc_value t), pfx, off + 3, c\<lparr>ec_sids := ec_sids c @ [tx_sid s ?h], ec_out := o1, ec_txn_count := ec_txn_count c + 1\<rparr>)"
      using True tm o1(1) u unfolding eth_cmp_tx_def nxt hash by simp
    then show ?thesis using True o1(2) b(1)
      by (intro exI [of _ pfx] exI [of _ o1]) (simp add: eth_tx_piece_def eth_cmp_after_def eth_sids_def eth_ignored_def)
  next
    case False
    obtain pfx' o1 where o1: "eth_put_full v (length pre) (length (pre @ enc_value t)) pfx (ec_out c) off =
        Inr (pfx', o1, off + length (eth_tx_piece cmpd t))" "ba_tight pfx'" "wrote (ec_out c) off (eth_tx_piece cmpd t) o1"
      using eth_put_full_spec [OF v t b small] False by blast
    let ?ign = "if has_short_id_hash s ?h then [tx_sid s ?h] else []"
    have "eth_cmp_tx s v enable mx (length pre) pfx off c =
        Inr (length (pre @ enc_value t), pfx', off + length (eth_tx_piece cmpd t),
          c\<lparr>ec_ignored := ec_ignored c @ ?ign, ec_out := o1, ec_txn_count := ec_txn_count c + 1\<rparr>)"
      using False tm o1(1) u unfolding eth_cmp_tx_def nxt hash by (cases "has_short_id_hash s ?h") auto
    then show ?thesis using False o1(2,3)
      by (intro exI [of _ pfx'] exI [of _ o1]) (simp add: eth_cmp_after_def eth_sids_def eth_ignored_def)
  qed
qed

lemma eth_cmp_after_append:
  "eth_cmp_after s cmpd us out2 (eth_cmp_after s cmpd ts out1 c) = eth_cmp_after s cmpd (ts @ us) out2 c"
  by (simp add: eth_cmp_after_def eth_sids_def eth_ignored_def)

lemma eth_cmp_txs_spec:
  assumes v: "bv_ok v" and cmpd: "cmpd = eth_compressed s enable mx"
    and ts: "list_all (\<lambda>t. 1 < length (enc_value t)) ts" "list_all (eth_sender_ok s) ts" "length (eth_txs ts) < 2 ^ 29"
    and eq: "bv_bytes v = pre @ eth_txs ts @ post" and fin: "fin = length (pre @ eth_txs ts)"
    and b: "ba_tight pfx" "ba_tight (ec_out c)"
    and small: "off + 4 * length (eth_txs ts) + 9 < 2 ^ 64" "ec_txn_count c + length ts < 2 ^ 64"
  shows "\<exists>out'. eth_cmp_txs s v enable mx fin (length pre) pfx off c =
      Some (Inr (off + length (eth_pieces cmpd ts), eth_cmp_after s cmpd ts out' c)) \<and> wrote (ec_out c) off (eth_pieces cmpd ts) out'"
  using ts eq fin b small
proof (induction ts arbitrary: pre pfx off c)
  case Nil
  then show ?case
    by (intro exI [of _ "ec_out c"], subst eth_cmp_txs.simps)
      (simp add: eth_cmp_after_def eth_sids_def eth_ignored_def wrote_refl)
next
  case (Cons t ts)
  have e: "bv_bytes v = pre @ enc_value t @ (eth_txs ts @ post)" "bv_bytes v = (pre @ enc_value t) @ eth_txs ts @ post"
    using Cons.prems(4) by simp_all
  have t: "1 < length (enc_value t)" "length (enc_value t) < 2 ^ 29" "eth_sender_ok s t" using Cons.prems(1-3) by simp_all
  have sm: "off + 4 * length (enc_value t) + 9 < 2 ^ 64" "ec_txn_count c + 1 < 2 ^ 64" using Cons.prems(8,9) by simp_all
  obtain pfx1 o1 where s1: "eth_cmp_tx s v enable mx (length pre) pfx off c =
      Inr (length (pre @ enc_value t), pfx1, off + length (eth_tx_piece cmpd t), eth_cmp_after s cmpd [t] o1 c)"
    "ba_tight pfx1" "wrote (ec_out c) off (eth_tx_piece cmpd t) o1"
    using eth_cmp_tx_spec [OF v e(1) t Cons.prems(6,7) sm cmpd] by blast
  have c1: "ec_out (eth_cmp_after s cmpd [t] o1 c) = o1" "ec_txn_count (eth_cmp_after s cmpd [t] o1 c) = ec_txn_count c + 1"
    by (simp_all add: eth_cmp_after_def)
  have "off + length (eth_tx_piece cmpd t) + 4 * length (eth_txs ts) + 9 < 2 ^ 64"
    using Cons.prems(8) length_eth_tx_piece [OF t(1,2), of cmpd] by simp
  then obtain o2 where s2: "eth_cmp_txs s v enable mx fin (length (pre @ enc_value t)) pfx1 (off + length (eth_tx_piece cmpd t)) (eth_cmp_after s cmpd [t] o1 c) =
      Some (Inr (off + length (eth_tx_piece cmpd t) + length (eth_pieces cmpd ts), eth_cmp_after s cmpd ts o2 (eth_cmp_after s cmpd [t] o1 c)))"
    "wrote o1 (off + length (eth_tx_piece cmpd t)) (eth_pieces cmpd ts) o2"
    using Cons.IH [OF _ _ _ e(2), of pfx1 "eth_cmp_after s cmpd [t] o1 c" "off + length (eth_tx_piece cmpd t)"] Cons.prems s1(2) wrote_tight [OF s1(3)]
    unfolding c1 by auto
  have lt: "length pre < fin" using Cons.prems(5) enc_value_nonempty [of t] by simp
  have "eth_cmp_txs s v enable mx fin (length pre) pfx off c =
      eth_cmp_txs s v enable mx fin (length (pre @ enc_value t)) pfx1 (off + length (eth_tx_piece cmpd t)) (eth_cmp_after s cmpd [t] o1 c)"
    by (subst eth_cmp_txs.simps) (simp only: lt s1(1) if_True sum.case prod.case)
  then show ?case
    using s2(1) wrote_trans [OF s1(3) s2(2)] by (intro exI [of _ o2]) (simp add: eth_cmp_after_append add.assoc)
qed

section \<open>The envelope\<close>

lemma eth_put_list_prefix_spec:
  assumes b: "ba_tight out" and p: "p = rlp_prefix RLP_LIST_ENCODING_TYPE n" and o: "length p \<le> origin" "origin < 2 ^ 64"
  shows "\<exists>out'. eth_put_list_prefix out n origin = Inr (out', origin - length p) \<and> wrote out (origin - length p) p out'"
proof -
  obtain pb where pb: "get_length_prefix_list ba_len ba_resize ba_poke ba_new n 0 = Inr (pb, length p)" "wrote ba_new 0 p pb" "ba_len pb = length p"
    using wrote_length_prefix [OF ba_tight_base(1), of 0 n RLP_LIST_ENCODING_TYPE] by (auto simp: get_length_prefix_list_def p ba_new_def)
  have sl: "slice 0 (length p) (ba_arr pb) = p" "length p \<le> length (ba_arr pb)"
    using wrote_holds [OF pb(2)] holds_bound [OF wrote_holds [OF pb(2)]] by (simp_all add: holds_def p)
  have u: "u64_sub origin (length p) = origin - length p" using o by (simp add: u64_sub_id)
  have "origin - length p + length p < 2 ^ 64" using o by simp
  then obtain o1 where "ba_copy_from_array out (ba_arr pb) (origin - length p) 0 (length p) = Inr (o1, origin - length p + length p)"
    "wrote out (origin - length p) p o1"
    using wrote_copy_from_array [OF b, of 0 "length p" "ba_arr pb" "origin - length p"] sl by auto
  then show ?thesis using pb u by (simp add: eth_put_list_prefix_def)
qed

lemma eth_put_trailer_spec:
  assumes b: "ba_tight out" and t: "bv_ok trailer" and small: "off + bv_size trailer < 2 ^ 64"
  shows "\<exists>out'. eth_put_trailer out trailer off = Inr (out', off + bv_size trailer) \<and> wrote out off (bv_bytes trailer) out'"
proof (cases "bv_size trailer = 0")
  case True
  then have "bv_bytes trailer = []" using t by (auto simp: bv_ok_def bv_bytes_def)
  then show ?thesis using True wrote_refl [OF b] by (simp add: eth_put_trailer_def)
next
  case False
  have "bv_wf trailer" using t by (simp add: bv_ok_def)
  then obtain o1 where "ba_append_view (ba_resize out off) trailer = Inr o1" "wrote (ba_resize out off) off (bv_bytes trailer) o1"
    using wrote_append_view [of "ba_resize out off" trailer] b small False by auto
  then show ?thesis using False small wrote_quiet_trans [OF wrote_resize [OF b]] by (auto simp: eth_put_trailer_def u64_id)
qed

lemma eth_put_envelope_spec:
  assumes b: "ba_tight out" "holds out base body" and h: "bv_ok header" "bv_bytes header = hdr" "hdr \<noteq> []"
    and t: "bv_ok trailer" "bv_bytes trailer = tr" and msg: "msg = eth_block_bytes hdr body tr" "length msg < 2 ^ 32"
    and base: "length hdr + 10 \<le> base" "base < 2 ^ 32"
  shows "\<exists>out' start. eth_put_envelope out header trailer base (base + length body) = Inr (out', start, start + length msg) \<and>
    ba_tight out' \<and> holds out' start msg \<and> base \<le> start + length hdr + 10 \<and> start + length msg = base + length body + length tr"
proof -
  define lp where "lp = rlp_prefix RLP_LIST_ENCODING_TYPE (length body)"
  define mp where "mp = rlp_prefix RLP_LIST_ENCODING_TYPE (length (hdr @ lp @ body @ tr))"
  have m: "msg = mp @ hdr @ lp @ body @ tr" by (simp add: msg(1) eth_block_bytes_def enc_list_def lp_def mp_def)
  have l: "length lp \<le> 5" "length mp \<le> 5" using msg(2) m by (simp_all add: lp_def mp_def length_rlp_prefix)
  have sz: "bv_size header = length hdr" "bv_size trailer = length tr" "bv_wf header" using h t by (auto simp: bv_ok_def)
  have bd: "length body + length tr + length hdr + 10 < 2 ^ 33" using msg(2) m l by simp
  define b1 where "b1 = base - length lp"
  define b2 where "b2 = b1 - length hdr"
  define b3 where "b3 = b2 - length mp"
  have bs: "b1 + length lp = base" "b2 + length hdr = b1" "b3 + length mp = b2" using base l by (simp_all add: b1_def b2_def b3_def)
  let ?off = "base + length body"
  have u1: "u64_sub ?off base = length body" using bd base by (simp add: u64_sub_id)
  obtain o1 where o1: "eth_put_list_prefix out (length body) base = Inr (o1, b1)" "wrote out b1 lp o1"
    using eth_put_list_prefix_spec [OF b(1) lp_def, of base] base l by (auto simp: b1_def)
  have h1: "holds o1 b1 (lp @ body)" using wrote_prepends [OF o1(2)] b(2) bs(1) by simp
  have "?off + bv_size trailer < 2 ^ 64" using base bd sz by simp
  then obtain o2 where o2: "eth_put_trailer o1 trailer ?off = Inr (o2, ?off + length tr)" "wrote o1 ?off tr o2"
    using eth_put_trailer_spec [OF wrote_tight [OF o1(2)] t(1), of ?off] t(2) sz by auto
  have h2: "holds o2 b1 (lp @ body @ tr)" using wrote_extends [OF o2(2) h1] bs(1) by simp
  have u2: "u64_sub (?off + length tr) b1 = length lp + length body + length tr" using bd base bs(1) by (simp add: u64_sub_id)
  have u3: "u64_sub b1 (bv_size header) = b2" "u64 (length lp + length body + length tr + bv_size header) = length (hdr @ lp @ body @ tr)"
    using bd bs base l sz by (simp_all add: u64_sub_id u64_id b2_def)
  obtain o3 where o3: "ba_copy_from_buffer o2 header b2 0 (length hdr) = Inr (o3, b2 + length hdr)" "wrote o2 b2 hdr o3"
    using wrote_copy_from_buffer [OF wrote_tight [OF o2(2)] sz(3), of "length hdr" 0 b2] h sz(1) bs base by (auto simp: slice_0_all)
  have h3: "holds o3 b2 (hdr @ lp @ body @ tr)" using wrote_prepends [OF o3(2)] h2 bs(2) by simp
  obtain o4 where o4: "eth_put_list_prefix o3 (length (hdr @ lp @ body @ tr)) b2 = Inr (o4, b3)" "wrote o3 b3 mp o4"
    using eth_put_list_prefix_spec [OF wrote_tight [OF o3(2)] mp_def, of b2] base bs l by (auto simp: b3_def)
  have h4: "holds o4 b3 msg" using wrote_prepends [OF o4(2)] h3 bs(3) by (simp add: m)
  have run: "eth_put_envelope out header trailer base ?off = Inr (o4, b3, ?off + length tr)"
    unfolding eth_put_envelope_def
    by (simp only: u1 o1(1) o2(1) u2 u3 sz(1) o3(1) o4(1) rbind_simps prod.case Let_def) (simp only: u3 [unfolded sz(1)] o3(1) o4(1) rbind_simps prod.case)
  have e: "b3 + length msg = ?off + length tr" using bs by (simp add: m)
  show ?thesis using run h4 wrote_tight [OF o4(2)] bs l e by (intro exI [of _ o4] exI [of _ b3]) simp
qed

lemma eth_put_short_ids_spec:
  assumes b: "ba_tight out" "holds out (start + 8) msg" and off: "off = start + 8 + length msg" "off + 4 + 4 * length sids < 2 ^ 64"
    and n: "length sids < 2 ^ 32"
  shows "\<exists>out'. eth_put_short_ids out sids start off = Inr (out', off + 4, off) \<and> ba_tight out' \<and>
    holds out' start (bx_encode msg sids) \<and> ba_len out' = start + length (bx_encode msg sids)"
proof -
  let ?l8 = "le_bytes 8 (8 + length msg)" and ?n4 = "le_bytes 4 (length sids)" and ?ids = "concat (map (le_bytes 4) sids)"
  have u: "u64_sub off start = 8 + length msg" "u64 (8 + length msg + start) = off" "u32 (length sids) = length sids"
    "u64 (off + 4 + length sids * 4) = off + 4 + 4 * length sids"
    using off n by (simp_all add: u64_sub_id u64_id u32_id mult.commute)
  obtain o1 where o1: "ba_set_le 8 out (8 + length msg) start = Inr (o1, start + 8)" "wrote out start ?l8 o1"
    using wrote_set_le [OF b(1), of 8 start "8 + length msg"] off by auto
  have h1: "holds o1 start (?l8 @ msg)" using wrote_prepends [OF o1(2)] b(2) by simp
  obtain o2 where o2: "ba_set_le 4 o1 (length sids) off = Inr (o2, off + 4)" "wrote o1 off ?n4 o2"
    using wrote_set_le [OF wrote_tight [OF o1(2)], of 4 off "length sids"] off by auto
  have h2: "holds o2 start ((?l8 @ msg) @ ?n4)" using wrote_extends [OF o2(2) h1] off(1) by simp
  define o3 where "o3 = ba_resize o2 (off + 4 + 4 * length sids)"
  have w3: "wrote o2 0 [] o3" unfolding o3_def by (rule wrote_resize [OF wrote_tight [OF o2(2)]])
  have h3: "holds o3 start ((?l8 @ msg) @ ?n4)" using wrote_keeps [OF w3 h2] by simp
  have li: "length ?ids = 4 * length sids" by (rule length_concat_le_bytes)
  have l3: "ba_len o3 = off + 4 + length ?ids" using li by (simp add: o3_def)
  have "\<exists>o4. (if 0 < length sids then ba_poke o3 (off + 4) ?ids else Inr o3) = Inr o4 \<and> wrote o3 (off + 4) ?ids o4 \<and> ba_len o4 = ba_len o3"
  proof (cases "sids = []")
    case False
    then have ne: "?ids \<noteq> []" using li by (metis length_0_conv mult_eq_0_iff zero_neq_numeral)
    have fits: "off + 4 + length ?ids \<le> ba_len o3" using l3 by simp
    show ?thesis using False wrote_poke [OF wrote_tight [OF w3] ne fits] by auto
  qed (simp add: wrote_refl [OF wrote_tight [OF w3]])
  then obtain o4 where o4: "(if 0 < length sids then ba_poke o3 (off + 4) ?ids else Inr o3) = Inr o4" "wrote o3 (off + 4) ?ids o4" "ba_len o4 = ba_len o3"
    by blast
  have "start + length ((?l8 @ msg) @ ?n4) = off + 4" using off(1) by simp
  then have "holds o4 start (((?l8 @ msg) @ ?n4) @ ?ids)" using wrote_extends [OF o4(2) h3] by simp
  then have h4: "holds (ba_set_output o4) start (bx_encode msg sids)" by (simp add: holds_def ba_set_output_def bx_encode_def)
  have "take (length sids * 4) ?ids = ?ids" using li by simp
  then have "eth_put_short_ids out sids start off = Inr (ba_set_output o4, off + 4, off)"
    unfolding eth_put_short_ids_def Let_def using o4(1) by (simp only: u o1(1) o2(1) rbind_simps prod.case flip: o3_def)
  moreover have "ba_tight (ba_set_output o4)" using wrote_tight [OF wrote_set_output [OF wrote_tight [OF o4(2)]]] .
  moreover have "ba_len (ba_set_output o4) = start + length (bx_encode msg sids)"
    using o4(3) l3 li off(1) by (simp add: ba_set_output_def bx_encode_def)
  ultimately show ?thesis using h4 by blast
qed

lemma holds_bytes:
  assumes "ba_wf b" and "holds b off xs" and "ba_len b = off + length xs"
  shows "drop off (ba_bytes b) = xs"
  using assms by (simp add: ba_bytes_def holds_def slice_def drop_take)

section \<open>The compressed block\<close>

definition eth_bx_hash :: "(byte list \<Rightarrow> byte list) \<Rightarrow> byte list \<Rightarrow> sid list \<Rightarrow> sha256" where
  \<comment> \<open>the hash covers the message and the number of short ids, not the short ids themselves\<close>
  "eth_bx_hash H msg sids =
     sha_of_binary (rev (H (H (le_bytes 8 (8 + length msg) @ msg @ le_bytes 4 (length sids)))))"

lemma double_sha256_vector:
  assumes "from + len \<le> length xs" and "from + len < 2 ^ 64" and "\<And>bs. length (H bs) = 32"
  shows "double_sha256 H (bv_msg xs) from len = Inr (sha_of_binary (rev (H (H (slice from len xs)))))"
  using assms by (simp add: double_sha256_def sha256_of_def calculate_sha256_def bv_read_def u64_id sha_double_sha256_def sha_reverse_def)

lemma eth_cmp_finish_spec:
  assumes H: "\<And>bs. length (H bs) = 32" and b: "ba_tight (ec_out c)" "holds (ec_out c) base body"
    and h: "bv_ok header" "bv_bytes header = hdr" "hdr \<noteq> []" and t: "bv_ok trailer" "bv_bytes trailer = tr"
    and msg: "msg = eth_block_bytes hdr body tr" "length msg < 2 ^ 32"
    and base: "base = 24 + length hdr" "base < 2 ^ 32" and n: "length (ec_sids c) < 2 ^ 32"
  shows "\<exists>c' out. eth_cmp_finish H header trailer base (base + length body) c = Inr c' \<and>
    ba_tight out \<and> drop (ec_starting_offset c') (ba_bytes out) = bx_encode msg (ec_sids c) \<and>
    c' = c\<lparr>ec_out := out, ec_starting_offset := ec_starting_offset c', ec_content_size := ec_content_size c',
          ec_compressed_hash := Some (eth_bx_hash H msg (ec_sids c))\<rparr>"
proof -
  have "length hdr + 10 \<le> base" using base(1) by simp
  then obtain o1 pos where o1: "eth_put_envelope (ec_out c) header trailer base (base + length body) = Inr (o1, pos, pos + length msg)"
    "ba_tight o1" "holds o1 pos msg" "base \<le> pos + length hdr + 10" "pos + length msg = base + length body + length tr"
    using eth_put_envelope_spec [OF b h t msg _ base(2)] by blast
  define start where "start = pos - 8"
  have st: "start + 8 = pos" "u64_sub pos 8 = start"
    using o1(4,5) base msg(2) length_block_parts [of hdr body tr] by (simp_all add: start_def u64_sub_id msg(1))
  have small: "pos + length msg + 4 + 4 * length (ec_sids c) < 2 ^ 64"
    using o1(5) base(2) msg n length_block_parts [of hdr body tr] by simp
  obtain o2 where o2: "eth_put_short_ids o1 (ec_sids c) start (pos + length msg) = Inr (o2, pos + length msg + 4, pos + length msg)"
    "ba_tight o2" "holds o2 start (bx_encode msg (ec_sids c))" "ba_len o2 = start + length (bx_encode msg (ec_sids c))"
    using eth_put_short_ids_spec [OF o1(2), of start msg "pos + length msg" "ec_sids c"] o1(3) st(1) small n by auto
  define n where "n = 12 + length msg"
  have enc: "bx_encode msg (ec_sids c) = (le_bytes 8 (8 + length msg) @ msg @ le_bytes 4 (length (ec_sids c))) @ concat (map (le_bytes 4) (ec_sids c))"
    by (simp add: bx_encode_def)
  have pre: "holds o2 start (le_bytes 8 (8 + length msg) @ msg @ le_bytes 4 (length (ec_sids c)))"
    using o2(3) unfolding enc holds_append by simp
  then have sl: "slice start n (ba_arr o2) = le_bytes 8 (8 + length msg) @ msg @ le_bytes 4 (length (ec_sids c))"
    by (simp add: holds_def n_def add.commute)
  have fits: "start + n \<le> length (ba_arr o2)" using holds_bound [OF pre] by (simp add: n_def)
  have "start + n < 2 ^ 64" using small st(1) by (simp add: n_def)
  then have dig: "double_sha256 H (bv_msg (ba_arr o2)) start n = Inr (eth_bx_hash H msg (ec_sids c))"
    using double_sha256_vector [OF fits _ H] sl by (simp add: eth_bx_hash_def)
  have u: "u64_sub (pos + length msg + 4) start = n" using st(1) small by (simp add: n_def u64_sub_id)
  have "eth_cmp_finish H header trailer base (base + length body) c =
      Inr (c\<lparr>ec_out := o2, ec_starting_offset := start, ec_content_size := pos + length msg, ec_compressed_hash := Some (eth_bx_hash H msg (ec_sids c))\<rparr>)"
    unfolding eth_cmp_finish_def by (simp only: o1(1) st(2) o2(1) u dig rbind_simps prod.case Let_def)
  moreover have "drop start (ba_bytes o2) = bx_encode msg (ec_sids c)" using holds_bytes [OF _ o2(3,4)] o2(2) by simp
  ultimately show ?thesis using o2(2) by (intro exI conjI) auto
qed

lemma eth_message_bounds:
  assumes "wf_eth_block prev hdr_rest ts trailer" and "hdr = eth_header prev hdr_rest"
  shows "length (eth_txs ts) < 2 ^ 29" "length hdr < 2 ^ 29" "length ts < 2 ^ 29" "hdr \<noteq> []"
    "length (eth_block_bytes hdr (eth_pieces cmpd ts) trailer) < 2 ^ 32"
proof -
  have len: "length hdr + length (eth_txs ts) + length trailer < 2 ^ 29"
    using length_block_parts [of hdr "eth_txs ts" trailer] assms by (simp add: wf_eth_block_def)
  then show l: "length (eth_txs ts) < 2 ^ 29" "length hdr < 2 ^ 29" by simp_all
  have "length ts \<le> length (eth_txs ts)"
  proof (induction ts)
    case (Cons t ts)
    then show ?case using enc_value_nonempty [of t] by (cases "enc_value t") simp_all
  qed simp
  with l show "length ts < 2 ^ 29" by simp
  show "hdr \<noteq> []" using length_enc_list(2) by (auto simp: assms(2) eth_header_def)
  let ?p = "eth_pieces cmpd ts"
  have p: "length ?p \<le> 4 * length (eth_txs ts)" using length_eth_pieces assms(1) l(1) by (auto simp: wf_eth_block_def)
  then have "length (rlp_prefix RLP_LIST_ENCODING_TYPE (length ?p)) \<le> 5" using l(1) by (intro length_rlp_prefix) simp
  then have b: "length (hdr @ enc_list ?p @ trailer) \<le> 2 ^ 31 + 10" using p len by (simp add: enc_list_def)
  then have "length (rlp_prefix RLP_LIST_ENCODING_TYPE (length (hdr @ enc_list ?p @ trailer))) \<le> 5" by (intro length_rlp_prefix) simp
  with b show "length (eth_block_bytes hdr ?p trailer) < 2 ^ 32" unfolding eth_block_bytes_def enc_list_def [of "hdr @ enc_list ?p @ trailer"] by simp
qed

lemma eth_cmp_init_spec:
  assumes "ba_tight (ec_out c)"
  shows "\<exists>out. eth_cmp_init shared c v = Inr (c\<lparr>ec_out := out, ec_sids := [], ec_ignored := [], ec_hash := None, ec_prev_hash := None,
      ec_compressed_hash := None, ec_content_size := 0, ec_txn_count := 0, ec_starting_offset := 0\<rparr>) \<and> ba_tight out"
  using ba_tight_reset [of "ba_reserve (ec_out c) (bv_size v)"] assms by (auto simp: eth_cmp_init_def)

lemma eth_compression_spec:
  assumes H: "\<And>bs. length (H bs) = 32" and c: "ba_tight (ec_out c)"
    and b: "wf_eth_block prev hdr_rest ts trailer" "list_all (eth_sender_ok s) ts" "bv_ok v"
      "bv_bytes v = eth_block_bytes (eth_header prev hdr_rest) (eth_txs ts) trailer"
    and cmpd: "cmpd = eth_compressed s enable (now - age)"
    and msg: "msg = eth_block_bytes (eth_header prev hdr_rest) (eth_pieces cmpd ts) trailer"
  shows "\<exists>c'. eth_cmp_block H s enable now age shared c v = Some (Inr c') \<and>
    drop (ec_starting_offset c') (ba_bytes (ec_out c')) = bx_encode msg (eth_sids s cmpd ts) \<and>
    ec_sids c' = eth_sids s cmpd ts \<and> ec_ignored c' = eth_ignored s cmpd ts \<and> ec_txn_count c' = length ts \<and>
    ec_hash c' = Some (sha_of_binary (sha3_256 (eth_header prev hdr_rest))) \<and> ec_prev_hash c' = Some (sha_of_binary prev) \<and>
    ec_compressed_hash c' = Some (eth_bx_hash H msg (eth_sids s cmpd ts)) \<and> ba_tight (ec_out c')"
proof -
  define hdr where "hdr = eth_header prev hdr_rest"
  note bd = eth_message_bounds [OF b(1) hdr_def]
  obtain pre m where m: "eth_parse v = Inr m" "bv_bytes v = pre @ eth_txs ts @ trailer"
    "eb_txn_offset m = length pre" "eb_txn_end_offset m = length (pre @ eth_txs ts)"
    "eb_hash m = sha_of_binary (sha3_256 hdr)" "eb_prev_hash m = sha_of_binary prev"
    "bv_ok (eb_header m)" "bv_bytes (eb_header m) = hdr" "bv_ok (eb_trailer m)" "bv_bytes (eb_trailer m) = trailer"
    using eth_parse_spec [OF b(1,3) hdr_def] b(4) by (auto simp: hdr_def)
  obtain out0 where i: "eth_cmp_init shared c v = Inr (c\<lparr>ec_out := out0, ec_sids := [], ec_ignored := [], ec_hash := None, ec_prev_hash := None,
      ec_compressed_hash := None, ec_content_size := 0, ec_txn_count := 0, ec_starting_offset := 0\<rparr>)" "ba_tight out0"
    using eth_cmp_init_spec [OF c] by blast
  define c0 where "c0 = c\<lparr>ec_out := out0, ec_sids := [], ec_ignored := [], ec_hash := None, ec_prev_hash := None,
      ec_compressed_hash := None, ec_content_size := 0, ec_txn_count := 0, ec_starting_offset := 0\<rparr>"
  define c1 where "c1 = c0\<lparr>ec_prev_hash := Some (eb_prev_hash m), ec_hash := Some (eb_hash m),
      ec_out := ba_reserve (ec_out c0) (bv_size v * 11 div 10)\<rparr>"
  define base where "base = 24 + length hdr"
  have sz: "bv_size (eb_header m) = length hdr" using m(7,8) length_bv_bytes [of "eb_header m"] by (simp add: bv_ok_def)
  have u: "u64 (8 + 8 + bv_size (eb_header m) + 8) = base" using bd(2) by (simp add: sz base_def u64_id)
  have ts: "list_all (\<lambda>t. 1 < length (enc_value t)) ts" using b(1) by (simp add: wf_eth_block_def)
  have c1: "ba_tight (ec_out c1)" "ec_txn_count c1 = 0" "ec_sids c1 = []" using i(2) by (simp_all add: c1_def c0_def)
  have sm: "base + 4 * length (eth_txs ts) + 9 < 2 ^ 64" "ec_txn_count c1 + length ts < 2 ^ 64" using bd c1(2) by (simp_all add: base_def)
  obtain o1 where o1: "eth_cmp_txs s v enable (now - age) (length (pre @ eth_txs ts)) (length pre) ba_new base c1 =
      Some (Inr (base + length (eth_pieces cmpd ts), eth_cmp_after s cmpd ts o1 c1))" "wrote (ec_out c1) base (eth_pieces cmpd ts) o1"
    using eth_cmp_txs_spec [OF b(3) cmpd ts b(2) bd(1) m(2) refl ba_tight_base(1) c1(1) sm] by blast
  define c2 where "c2 = eth_cmp_after s cmpd ts o1 c1"
  have c2: "ba_tight (ec_out c2)" "holds (ec_out c2) base (eth_pieces cmpd ts)" "ec_sids c2 = eth_sids s cmpd ts"
    using wrote_tight [OF o1(2)] wrote_holds [OF o1(2)] c1(3) by (simp_all add: c2_def eth_cmp_after_def)
  have "length (filter cmpd ts) < 2 ^ 32" using le_less_trans [OF length_filter_le bd(3)] by (rule less_trans) simp
  then have n: "length (ec_sids c2) < 2 ^ 32" by (simp add: c2(3) eth_sids_def)
  obtain c' out where f: "eth_cmp_finish H (eb_header m) (eb_trailer m) base (base + length (eth_pieces cmpd ts)) c2 = Inr c'"
    "ba_tight out" "drop (ec_starting_offset c') (ba_bytes out) = bx_encode msg (ec_sids c2)"
    "c' = c2\<lparr>ec_out := out, ec_starting_offset := ec_starting_offset c', ec_content_size := ec_content_size c',
      ec_compressed_hash := Some (eth_bx_hash H msg (ec_sids c2))\<rparr>"
    using eth_cmp_finish_spec [where H = H, OF H c2(1,2) m(7,8) bd(4) m(9,10) msg [folded hdr_def] _ base_def _ n] bd(2,5)
    by (auto simp: msg hdr_def base_def)
  have "eth_cmp_block H s enable now age shared c v = Some (Inr c')"
    unfolding eth_cmp_block_def i(1) [folded c0_def] eth_cmp_execute_def
    by (simp only: sum.case m(1,3,4) Let_def u o1(1) option.case prod.case f(1) flip: c1_def c2_def)
  moreover have "ec_out c' = out" "ec_sids c' = eth_sids s cmpd ts" "ec_ignored c' = eth_ignored s cmpd ts" "ec_txn_count c' = length ts"
    "ec_hash c' = Some (sha_of_binary (sha3_256 hdr))" "ec_prev_hash c' = Some (sha_of_binary prev)"
    "ec_compressed_hash c' = Some (eth_bx_hash H msg (eth_sids s cmpd ts))"
    by (subst f(4), simp add: c2_def c1_def c0_def eth_cmp_after_def m(5,6))+
  ultimately show ?thesis using f(2,3) c2(3) by (intro exI [of _ c']) (simp add: hdr_def)
qed

text \<open>
  C9: on a well-formed block the task ends, and what the output buffer holds from the starting offset
  on is the reference encoding: the offset of the short ids, the message with each transaction that
  has a usable short id replaced by the indicator, and the short ids in the order of the block. The
  hash of the compressed block does not depend on the short ids themselves.
\<close>

theorem eth_compression_output:
  assumes H: "\<And>bs. length (H bs) = 32" and c: "ba_tight (ec_out c)"
    and b: "wf_eth_block prev hdr_rest ts trailer" "list_all (eth_sender_ok s) ts" "bv_ok v"
      "bv_bytes v = eth_block_bytes (eth_header prev hdr_rest) (eth_txs ts) trailer"
    and cmpd: "cmpd = eth_compressed s enable (now - age)"
    and msg: "msg = eth_block_bytes (eth_header prev hdr_rest) (eth_pieces cmpd ts) trailer"
  shows "\<exists>c'. eth_cmp_block H s enable now age shared c v = Some (Inr c') \<and>
    drop (ec_starting_offset c') (ba_bytes (ec_out c')) = bx_encode msg (eth_sids s cmpd ts) \<and>
    ec_sids c' = eth_sids s cmpd ts \<and> ec_ignored c' = eth_ignored s cmpd ts \<and> ec_txn_count c' = length ts \<and>
    ec_hash c' = Some (sha_of_binary (sha3_256 (eth_header prev hdr_rest))) \<and> ec_prev_hash c' = Some (sha_of_binary prev) \<and>
    ec_compressed_hash c' = Some (eth_bx_hash H msg (eth_sids s cmpd ts)) \<and> ba_tight (ec_out c')"
  by (rule eth_compression_spec [OF assms])

text \<open>An example: a block of one transaction, which has a short id.\<close>

definition eth_demo_tx :: rlp_value where
  "eth_demo_tx = RList [1, 2, 3]"

definition eth_demo_prev :: "byte list" where
  "eth_demo_prev = replicate 32 5"

definition eth_demo_block :: "byte list" where
  "eth_demo_block = eth_block_bytes (eth_header eth_demo_prev [6]) (eth_txs [eth_demo_tx]) [0xc0]"

definition eth_demo_sender :: tx_service where
  "eth_demo_sender = sid_service (eth_tx_hash eth_demo_tx)"

lemma eth_demo_bytes:
  "enc_value eth_demo_tx = [0xc3, 1, 2, 3]"
  "eth_header eth_demo_prev [6] = [0xe2, 0xa0] @ replicate 32 5 @ [6]"
  "eth_demo_block = [0xe9] @ eth_header eth_demo_prev [6] @ [0xc4, 0xc3, 1, 2, 3, 0xc0]"
  by (simp_all add: eth_demo_tx_def enc_list_def rlp_prefix_def rlp_consts eth_header_def eth_demo_prev_def enc_str_def
      eth_demo_block_def eth_block_bytes_def eth_txs_def)

lemma eth_demo_wf: "wf_eth_block eth_demo_prev [6] [eth_demo_tx] [0xc0]"
proof -
  have "length (eth_block_bytes (eth_header eth_demo_prev [6]) (eth_txs [eth_demo_tx]) [0xc0]) < 2 ^ 29"
    unfolding eth_demo_block_def [symmetric] by (simp add: eth_demo_bytes)
  then show ?thesis by (simp add: wf_eth_block_def eth_demo_bytes(1) eth_demo_prev_def)
qed

lemma eth_demo_facts:
  "list_all (eth_sender_ok eth_demo_sender) [eth_demo_tx]"
  "eth_compressed eth_demo_sender True 0 eth_demo_tx" "tx_sid eth_demo_sender (eth_tx_hash eth_demo_tx) = 7"
  "bv_ok (bv_msg eth_demo_block)"
  by (simp_all add: eth_demo_bytes eth_sender_ok_def eth_compressed_def has_short_id_hash_def get_short_id_def
      eth_demo_sender_def sid_service_facts cmp_assign_time_def tx_sid_def)

theorem eth_compression_output_witness:
  "\<exists>c'. eth_cmp_block demo_H eth_demo_sender True 10 10 False (eth_cmp_new 1000) (bv_msg eth_demo_block) = Some (Inr c') \<and>
    drop (ec_starting_offset c') (ba_bytes (ec_out c')) =
      bx_encode (eth_block_bytes (eth_header eth_demo_prev [6]) [0xc2, 0x80, 0x80] [0xc0]) [7]"
  using eth_compression_output [where H = demo_H, OF length_demo_H _ eth_demo_wf eth_demo_facts(1,4) _ refl refl, of "eth_cmp_new 1000" True 10 10 False]
    eth_demo_facts(2,3) by (auto simp: eth_cmp_new_def eth_demo_block_def eth_tx_piece_def eth_sids_def eth_consts)

end
