(* ===== verification/BtcDecompression.thy ===== *)
theory BtcDecompression
  imports BtcCompression SharedFill
begin

text \<open>
  \<open>BtcBlockDecompressionTask\<close> and \<open>BtcBlockDecompressionSubTask\<close> of
  \<^verbatim>\<open>src/lib/libtpe/tpe/task\<close>: the inverse of the compression. The main task reads the header and
  the short ids, asks the transaction service which transactions are missing, and cuts the rest of
  the message into runs of transactions for the sub-tasks. Each sub-task knows the place of its
  first transaction in the output buffer, which all of them share.

  The sub-tasks write the shared buffer concurrently. The model makes one iteration of the loop of
  a sub-task one step, and a schedule, a list of sub-task numbers, says which sub-task steps next.
  The copy of the block header by the main task happens at any point of the schedule, and
  waiting for the sub-tasks runs what the schedule left over. The part of the schedule that may
  overlap with \<^verbatim>\<open>_dispatch\<close> is put behind it: until it returns \<^verbatim>\<open>_dispatch\<close> changes only the length
  of the output buffer, never the bytes the sub-tasks write, and the buffer is never reallocated.
  The first exception of a sub-task ends the run.
\<close>

section \<open>BtcBlockDecompressionSubTask\<close>

record dcm_data =
  dd_offsets :: "(nat \<times> nat \<times> nat) list"
  dd_sids_offset :: nat
  dd_sids_len :: nat
  dd_output_offset :: nat

definition dcm_data_new :: dcm_data where
  "dcm_data_new = \<lparr>dd_offsets = [], dd_sids_offset = 0, dd_sids_len = 0, dd_output_offset = 0\<rparr>"

definition dcm_data_clear :: "dcm_data \<Rightarrow> dcm_data" where
  "dcm_data_clear td = td\<lparr>dd_sids_offset := 0, dd_sids_len := 0, dd_output_offset := 0, dd_offsets := []\<rparr>"

text \<open>A running sub-task: its two local variables and the offsets it has not handled.\<close>

record dcm_job =
  dj_sid_idx :: nat
  dj_output_offset :: nat
  dj_offsets :: "(nat \<times> nat \<times> nat) list"

definition dcm_start :: "dcm_data \<Rightarrow> dcm_job" where
  "dcm_start td =
     \<lparr>dj_sid_idx = dd_sids_offset td, dj_output_offset = dd_output_offset td, dj_offsets = dd_offsets td\<rparr>"

definition dcm_contents ::
  "buffer_view \<Rightarrow> sid list \<Rightarrow> tx_service \<Rightarrow> nat \<Rightarrow> nat \<Rightarrow> nat \<Rightarrow> (buffer_view \<times> tx_service \<times> nat) res" where
  "dcm_contents block_buffer short_ids s short_id_idx from to =
     (let sz = u64_sub to from
      in if sz = 1 then
           (if short_id_idx < length short_ids then
              rbind (get_tx_contents_raw_ptr s (short_ids ! short_id_idx)) (\<lambda>(p, s).
                case p of None \<Rightarrow> Inl MemFault | Some c \<Rightarrow> Inr (c, s, u64 (short_id_idx + 1)))
            else Inl OutOfRange)
         else Inr (bv_sub block_buffer sz from, s, short_id_idx))"

text \<open>
  One iteration; \<open>ends\<close> picks the two ends of the transaction out of the triple, which the Bitcoin and
  the Ontology task order differently.
\<close>

fun dcm_span :: "nat \<times> nat \<times> nat \<Rightarrow> nat \<times> nat" where
  "dcm_span (from, _, to) = (from, to)"

definition dcm_job_step ::
  "(nat \<times> nat \<times> nat \<Rightarrow> nat \<times> nat) \<Rightarrow> buffer_view \<Rightarrow> sid list \<Rightarrow> tx_service \<Rightarrow> byte_array \<Rightarrow> dcm_job \<Rightarrow>
   (tx_service \<times> byte_array \<times> dcm_job) res" where
  "dcm_job_step ends block_buffer short_ids s out j =
     (case dj_offsets j of
        [] \<Rightarrow> Inr (s, out, j)
      | off # offsets \<Rightarrow>
          let (from, to) = ends off
          in rbind (dcm_contents block_buffer short_ids s (dj_sid_idx j) from to) (\<lambda>(c, s, short_id_idx).
             rbind (ba_copy_from_buffer out c (dj_output_offset j) 0 (bv_size c)) (\<lambda>(out, output_offset).
               Inr (s, out, \<lparr>dj_sid_idx = short_id_idx, dj_output_offset = output_offset, dj_offsets = offsets\<rparr>))))"

definition dcm_run ::
  "(nat \<times> nat \<times> nat \<Rightarrow> nat \<times> nat) \<Rightarrow> buffer_view \<Rightarrow> sid list \<Rightarrow> nat list \<Rightarrow> tx_service \<times> byte_array \<times> dcm_job list \<Rightarrow>
   (tx_service \<times> byte_array \<times> dcm_job list) res" where
  "dcm_run ends block_buffer short_ids = run_jobs (dcm_job_step ends block_buffer short_ids)"

definition dcm_todo :: "dcm_job \<Rightarrow> nat" where
  "dcm_todo j = length (dj_offsets j)"

definition dcm_rest :: "dcm_job list \<Rightarrow> nat list" where
  "dcm_rest = rest_of dcm_todo"

section \<open>BtcBlockDecompressionTask\<close>

record dcm_task =
  dt_out :: byte_array
  dt_subs :: "dcm_data list"
  dt_unknown_hashes :: "hash list"
  dt_unknown_sids :: "sid list"
  dt_sids :: "sid list"
  dt_hash :: "sha256 option"
  dt_success :: bool
  dt_tx_count :: nat
  dt_min_count :: nat

definition dcm_task_new :: "nat \<Rightarrow> nat \<Rightarrow> dcm_task" where
  "dcm_task_new capacity minimal_tx_count =
     \<lparr>dt_out = ba_with_capacity capacity, dt_subs = [], dt_unknown_hashes = [], dt_unknown_sids = [], dt_sids = [],
      dt_hash = None, dt_success = False, dt_tx_count = 0, dt_min_count = minimal_tx_count\<rparr>"

definition dcm_init :: "bool \<Rightarrow> dcm_task \<Rightarrow> buffer_view \<Rightarrow> dcm_task res" where
  \<comment> \<open>\<open>shared\<close>: somebody else still holds the output buffer of the last block\<close>
  "dcm_init shared c v =
     rbind (get_original_block_size v) (\<lambda>n.
     let output_size = u32 (max n (ba_cap (dt_out c)))
     in rbind (if shared then Inr (ba_with_capacity output_size)
               else ba_reset (ba_reserve (dt_out c) output_size)) (\<lambda>out.
          Inr (c\<lparr>dt_out := out, dt_unknown_hashes := [], dt_unknown_sids := [], dt_hash := None,
                dt_sids := [], dt_tx_count := 0\<rparr>)))"

definition dcm_init_sub_tasks :: "nat \<Rightarrow> dcm_data list \<Rightarrow> dcm_data list" where
  "dcm_init_sub_tasks pool_size subs =
     map dcm_data_clear subs @ replicate (pool_size - length subs) dcm_data_new"

definition dcm_extend_output_buffer :: "byte_array \<Rightarrow> nat \<Rightarrow> byte_array res" where
  "dcm_extend_output_buffer out output_offset =
     (if ba_cap out < output_offset then Inl RuntimeError else Inr (ba_resize out output_offset))"

text \<open>The variables of \<^verbatim>\<open>_dispatch\<close>; its \<^verbatim>\<open>idx\<close> and \<^verbatim>\<open>prev_idx\<close> agree whenever an iteration starts.\<close>

record dcm_disp =
  ds_subs :: "dcm_data list"
  ds_out :: byte_array
  ds_idx :: nat
  ds_offset :: nat
  ds_sids_offset :: nat
  ds_output_offset :: nat
  ds_prev_output_offset :: nat

definition dcm_measure_tx ::
  "tx_service \<Rightarrow> sid list \<Rightarrow> dcm_disp \<Rightarrow> dcm_data \<Rightarrow> bool \<Rightarrow> nat \<Rightarrow> (dcm_data \<times> nat) res" where
  \<comment> \<open>the task data and the output offset behind the transaction between \<open>ds_offset d\<close> and \<open>offset\<close>\<close>
  "dcm_measure_tx s short_ids d tdata is_short offset =
     (if is_short then
        let short_id_idx = u64 (ds_sids_offset d + dd_sids_len tdata)
        in if short_id_idx < length short_ids then
             rbind (get_tx_size s (short_ids ! short_id_idx)) (\<lambda>n.
               Inr (tdata\<lparr>dd_sids_len := dd_sids_len tdata + 1\<rparr>, u64 (ds_output_offset d + n)))
           else Inl RuntimeError
      else Inr (tdata, u64 (ds_output_offset d + u64_sub offset (ds_offset d))))"

text \<open>
  The body of the loop of \<^verbatim>\<open>_dispatch\<close>; \<open>nxt\<close> gives the offset behind the next transaction, whether it is a
  short id, and the triple the loop pushes for it.
\<close>

definition dcm_dispatch_tx ::
  "(nat \<Rightarrow> (nat \<times> bool \<times> nat \<times> nat \<times> nat) res) \<Rightarrow> tx_service \<Rightarrow> sid list \<Rightarrow> nat \<Rightarrow> dcm_disp \<Rightarrow> dcm_disp res" where
  "dcm_dispatch_tx nxt s short_ids idx d =
     (let prev_idx = ds_idx d
      in rbind (nxt (ds_offset d)) (\<lambda>(offset, is_short, offsets).
         rbind (dcm_measure_tx s short_ids d (ds_subs d ! prev_idx) is_short offset) (\<lambda>(tdata, output_offset).
         let tdata = tdata\<lparr>dd_offsets := dd_offsets tdata @ [offsets]\<rparr>;
             d = d\<lparr>ds_idx := idx, ds_offset := offset, ds_output_offset := output_offset\<rparr>
         in if prev_idx < idx then
              let tdata = tdata\<lparr>dd_output_offset := ds_prev_output_offset d, dd_sids_offset := ds_sids_offset d\<rparr>
              in rbind (dcm_extend_output_buffer (ds_out d) output_offset) (\<lambda>out.
                   Inr (d\<lparr>ds_subs := (ds_subs d)[prev_idx := tdata], ds_out := out,
                          ds_sids_offset := u64 (ds_sids_offset d + dd_sids_len tdata),
                          ds_prev_output_offset := output_offset\<rparr>))
            else Inr (d\<lparr>ds_subs := (ds_subs d)[prev_idx := tdata]\<rparr>))))"

fun dcm_dispatch_loop ::
  "(nat \<Rightarrow> (nat \<times> bool \<times> nat \<times> nat \<times> nat) res) \<Rightarrow> tx_service \<Rightarrow> sid list \<Rightarrow> nat \<Rightarrow> nat \<Rightarrow> nat \<Rightarrow> nat \<Rightarrow> dcm_disp \<Rightarrow>
   dcm_disp res" where
  "dcm_dispatch_loop nxt s short_ids pool_size bulk_size 0 count d = Inr d"
| "dcm_dispatch_loop nxt s short_ids pool_size bulk_size (Suc left) count d =
     rbind (dcm_dispatch_tx nxt s short_ids (bulk_idx pool_size bulk_size count) d) (\<lambda>d.
       dcm_dispatch_loop nxt s short_ids pool_size bulk_size left (count + 1) d)"

definition dcm_next :: "bx_btc_block \<Rightarrow> nat \<Rightarrow> (nat \<times> bool \<times> nat \<times> nat \<times> nat) res" where
  "dcm_next msg from =
     rbind (bx_get_next_tx_offset msg from) (\<lambda>(offset, is_short, witness_offset).
       Inr (offset, is_short, from, witness_offset, offset))"

definition dcm_dispatch ::
  "(nat \<Rightarrow> (nat \<times> bool \<times> nat \<times> nat \<times> nat) res) \<Rightarrow> nat \<Rightarrow> tx_service \<Rightarrow> dcm_task \<Rightarrow> nat \<Rightarrow> nat \<Rightarrow> (nat \<times> dcm_task) res" where
  \<comment> \<open>\<open>diff\<close>: what the compressed message has in front of the block\<close>
  "dcm_dispatch nxt diff s c offset pool_size =
     (let subs = dcm_init_sub_tasks pool_size (dt_subs c);
          bulk_size = max (dt_tx_count c div pool_size) (max pool_size (dt_min_count c));
          output_offset = u64_sub offset diff;
          d = \<lparr>ds_subs = subs, ds_out = dt_out c, ds_idx = 0, ds_offset = offset, ds_sids_offset = 0,
               ds_output_offset = output_offset, ds_prev_output_offset = output_offset\<rparr>
      in rbind (dcm_dispatch_loop nxt s (dt_sids c) pool_size bulk_size (dt_tx_count c) 0 d) (\<lambda>d.
         let prev_idx = ds_idx d;
             tdata = (ds_subs d ! prev_idx)\<lparr>dd_output_offset := ds_prev_output_offset d, dd_sids_offset := ds_sids_offset d\<rparr>
         in rbind (dcm_extend_output_buffer (ds_out d) (ds_output_offset d)) (\<lambda>out.
              Inr (prev_idx, c\<lparr>dt_subs := (ds_subs d)[prev_idx := tdata], dt_out := out\<rparr>))))"

definition dcm_parse_block_header :: "dcm_task \<Rightarrow> buffer_view \<Rightarrow> (bx_btc_block \<times> nat \<times> dcm_task) res" where
  "dcm_parse_block_header c v =
     rbind (get_le (bv_read v) 8 0) (\<lambda>(short_ids_offset, _).
     let msg = bx_block_message v short_ids_offset
     in rbind (bx_get_tx_count msg) (\<lambda>(tx_count, offset).
        rbind (deserialize_short_ids msg) (\<lambda>short_ids.
          Inr (msg, offset, c\<lparr>dt_tx_count := tx_count, dt_sids := short_ids\<rparr>))))"

definition dcm_fill ::
  "(nat \<times> nat \<times> nat \<Rightarrow> nat \<times> nat) \<Rightarrow> nat \<Rightarrow> tx_service \<Rightarrow> nat list \<Rightarrow> nat list \<Rightarrow> dcm_task \<Rightarrow> buffer_view \<Rightarrow> nat \<Rightarrow> nat \<Rightarrow>
   (tx_service \<times> byte_array) res" where
  \<comment> \<open>the sub-tasks up to \<open>last_idx\<close> run, the block header is copied between the two parts of the schedule\<close>
  "dcm_fill ends diff s sched1 sched2 c v offset last_idx =
     (let jobs = map dcm_start (take (last_idx + 1) (dt_subs c))
      in rbind (dcm_run ends v (dt_sids c) sched1 (s, dt_out c, jobs)) (\<lambda>(s, out, jobs).
         rbind (ba_copy_from_buffer out v 0 diff (u64_sub offset diff)) (\<lambda>(out, _).
         rbind (dcm_run ends v (dt_sids c) sched2 (s, out, jobs)) (\<lambda>(s, out, jobs).
         rbind (dcm_run ends v (dt_sids c) (dcm_rest jobs) (s, out, jobs)) (\<lambda>(s, out, _). Inr (s, out))))))"

definition dcm_execute ::
  "(byte list \<Rightarrow> byte list) \<Rightarrow> tx_service \<Rightarrow> nat \<Rightarrow> nat list \<Rightarrow> nat list \<Rightarrow> dcm_task \<Rightarrow> buffer_view \<Rightarrow>
   (tx_service \<times> dcm_task) res" where
  "dcm_execute H s pool_size sched1 sched2 c v =
     rbind (dcm_parse_block_header c v) (\<lambda>(msg, offset, c).
     let (success, hashes, sids) = get_missing_transactions s (dt_sids c)
     in rbind (generate_block_hash H (bxb_block msg)) (\<lambda>hash.
        let c = c\<lparr>dt_success := success, dt_unknown_hashes := hashes, dt_unknown_sids := sids, dt_hash := Some hash\<rparr>
        in if \<not> success then Inr (s, c)
           else rbind (dcm_dispatch (dcm_next msg) offset_diff s c offset pool_size) (\<lambda>(last_idx, c).
                rbind (dcm_fill dcm_span offset_diff s sched1 sched2 c v offset last_idx) (\<lambda>(s, out).
                  Inr (s, c\<lparr>dt_out := ba_set_output out\<rparr>)))))"

definition dcm_block ::
  "(byte list \<Rightarrow> byte list) \<Rightarrow> tx_service \<Rightarrow> nat \<Rightarrow> nat list \<Rightarrow> nat list \<Rightarrow> bool \<Rightarrow> dcm_task \<Rightarrow> buffer_view \<Rightarrow>
   (tx_service \<times> dcm_task) res" where
  "dcm_block H s pool_size sched1 sched2 shared c v =
     rbind (dcm_init shared c v) (\<lambda>c. dcm_execute H s pool_size sched1 sched2 c v)"

end
