(* ===== verification/TxServiceProps.thy ===== *)
theory TxServiceProps
  imports TxService
begin

text \<open>
  The functional behaviour of the operations of \<open>TransactionService\<close> on well-formed states: messages,
  queries, removal, the window of blocks whose transactions were seen, and sender nonces. Theory \<open>TxRuns\<close>
  has the invariant of the states that runs of the operations reach.
\<close>

definition valid_all :: validator where
  \<comment> \<open>a validator that accepts everything, as the bitcoin validator does\<close>
  "valid_all v fee now m a g = Inr (1, m)"

lemma validator_ok_valid_all: "validator_ok valid_all"
  by (simp add: validator_ok_def valid_all_def)

definition demo_view :: "nat \<Rightarrow> buffer_view" where
  "demo_view n = bv_msg (replicate n 1)"

section \<open>Transaction messages\<close>

lemma bit_set_flag: "bit (set_flag c fs st) k \<longleftrightarrow> c \<and> k \<in> set fs \<or> bit st k"
proof -
  have "bit (fold set_bit fs st) k \<longleftrightarrow> k \<in> set fs \<or> bit st k" for st :: nat
    by (induction fs arbitrary: st) (auto simp: bit_set_bit_iff)
  then show ?thesis by (simp add: set_flag_def)
qed

definition msg_known :: "tx_service \<Rightarrow> sid \<Rightarrow> hash \<Rightarrow> buffer_view \<Rightarrow> bool" where
  \<comment> \<open>everything the message carries is in the service already\<close>
  "msg_known s i h v \<longleftrightarrow>
     (if bv_size v = 0 then (if i = NULL_TX_SID then has_transaction_contents s h else has_short_id s i)
      else has_transaction_contents s h \<and> (i = NULL_TX_SID \<or> has_short_id s i))"

lemma tx_status_flags_bits:
  "bit (tx_status_flags s i h v) TX_STATUS_IGNORE_SEEN \<longleftrightarrow> msg_known s i h v"
  "bit (tx_status_flags s i h v) TX_STATUS_MSG_HAS_SHORT_ID \<longleftrightarrow> i \<noteq> NULL_TX_SID"
  "bit (tx_status_flags s i h v) TX_STATUS_MSG_HAS_CONTENT \<longleftrightarrow> bv_size v \<noteq> 0"
  "bit (tx_status_flags s i h v) TX_STATUS_SEEN_CONTENT \<longleftrightarrow> has_transaction_contents s h \<and> bv_size v \<noteq> 0"
  "bit (tx_status_flags s i h v) TX_STATUS_TIMED_OUT \<longleftrightarrow> False"
  "i \<noteq> NULL_TX_SID \<Longrightarrow> bit (tx_status_flags s i h v) TX_STATUS_SEEN_HASH \<longleftrightarrow>
     has_short_id s i \<or> has_transaction_contents s h"
  by (simp_all add: tx_status_flags_def Let_def bit_set_flag tx_status_consts msg_known_def) auto

lemma process_known_msg:
  assumes "\<not> removed_transaction s h" and "msg_known s i h v"
  shows "process_transaction_msg ins hins V now s h v i 0 ct en fee relay =
    Inr (pr_ignored (tx_status_flags s i h v) 1, s)"
proof -
  have "\<not> (en \<and> bit (tx_status_flags s i h v) TX_STATUS_MSG_HAS_CONTENT \<and>
      \<not> bit (tx_status_flags s i h v) TX_STATUS_SEEN_CONTENT \<and> \<not> bit (tx_status_flags s i h v) TX_STATUS_MSG_HAS_SHORT_ID)"
    using assms(2) by (auto simp: tx_status_flags_bits msg_known_def split: if_splits)
  then have "msg_tx_build_tx_status V s i h v 0 ct en fee relay = Inr (tx_status_flags s i h v, 1, s)"
    using assms(1) by (auto simp: msg_tx_build_tx_status_def Let_def TX_VALIDATION_STATUS_VALID_TX_def)
  then show ?thesis using assms(2) by (simp add: process_transaction_msg_def tx_status_flags_bits)
qed

lemma process_new_msg:
  assumes s: "ts_wf s" and "\<not> removed_transaction s h" and i: "i \<noteq> NULL_TX_SID" and "\<not> msg_known s i h v"
  obtains r c s1 where "store_msg_contents (tx_status_flags s i h v) s h v = Inr (r, c, s1)" and "ts_wf s1"
    and "ts_sids s1 = ts_sids s" and "ts_hash s1 = ts_hash s"
    and "process_transaction_msg ins hins V now s h v i 0 ct en fee relay =
      Inr (finish_transaction_msg ins hins now s1 h i (tx_status_flags s i h v) 1 r c)"
proof -
  have "msg_tx_build_tx_status V s i h v 0 ct en fee relay = Inr (tx_status_flags s i h v, 1, s)"
    using assms by (simp add: msg_tx_build_tx_status_def Let_def TX_VALIDATION_STATUS_VALID_TX_def tx_status_flags_bits)
  moreover have "\<not> bit (1 :: nat) TX_VALIDATION_STATUS_INVALID_FORMAT" "\<not> bit (1 :: nat) TX_VALIDATION_STATUS_INVALID_SIGNATURE"
    by (simp_all add: tx_status_consts bit_1_iff)
  moreover obtain r c s1 where "store_msg_contents (tx_status_flags s i h v) s h v = Inr (r, c, s1)" "ts_wf s1"
    "ts_sids s1 = ts_sids s" "ts_hash s1 = ts_hash s"
    by (rule store_msg_contents_total [OF s])
  ultimately show thesis
    using that i assms(4) by (simp add: process_transaction_msg_def tx_status_flags_bits)
qed

lemma finish_contents [simp]: "ts_contents (snd (finish_transaction_msg ins hins now s h i st vst r c)) = ts_contents s"
  and finish_hash_removed [simp]:
    "ts_hash_removed (snd (finish_transaction_msg ins hins now s h i st vst r c)) = ts_hash_removed s"
  by (simp_all add: finish_transaction_msg_def Let_def split_beta)

lemma finish_has_short_id:
  assumes "bit st TX_STATUS_MSG_HAS_SHORT_ID" and "i \<noteq> NULL_TX_SID"
  shows "has_short_id (snd (finish_transaction_msg ins hins now s h i st 1 r c)) i"
proof -
  have one: "(1 :: nat) \<noteq> set_bit TX_VALIDATION_STATUS_INVALID_LOW_FEE 0"
    by (simp add: tx_status_consts)
  have "has_short_id (snd (assign_short_id ins hins now s' h i)) i" for s'
    using assms(2) assign_short_id_known(2) [of i s'] assign_short_id_fresh(2) [of i s']
    by (cases "ts_hash s' i") (auto simp: has_short_id_def)
  then show ?thesis using assms(1) one
    by (simp add: finish_transaction_msg_def Let_def split_beta)
qed

text \<open>
  C28: relaying is idempotent: once a message with a non-null short id, non-empty contents and timestamp 0 (which
  switches the age limit off) was processed whose hash is not among the removed ones, the same message is
  recognised as seen and leaves the service exactly as it is.
\<close>

theorem process_transaction_msg_twice:
  assumes s: "ts_wf s" and nr: "\<not> removed_transaction s h" and i: "i \<noteq> NULL_TX_SID" and v: "bv_size v \<noteq> 0"
  shows "\<exists>r s'. process_transaction_msg ins hins V now s h v i 0 ct en fee relay = Inr (r, s') \<and>
    (\<exists>r'. process_transaction_msg ins hins V now' s' h v i 0 ct' en' fee' relay' = Inr (r', s') \<and>
      bit (pr_tx_status r') TX_STATUS_IGNORE_SEEN \<and> \<not> pr_contents_set r' \<and> \<not> pr_short_id_assigned r')"
proof -
  have again: "\<exists>r'. process_transaction_msg ins hins V now' s' h v i 0 ct' en' fee' relay' = Inr (r', s') \<and>
      bit (pr_tx_status r') TX_STATUS_IGNORE_SEEN \<and> \<not> pr_contents_set r' \<and> \<not> pr_short_id_assigned r'"
    if "\<not> removed_transaction s' h" "msg_known s' i h v" for s'
    using process_known_msg [OF that] that(2) by (simp add: pr_ignored_def tx_status_flags_bits)
  show ?thesis
  proof (cases "msg_known s i h v")
    case True
    then show ?thesis using process_known_msg [OF nr True] again [OF nr True] by blast
  next
    case False
    let ?st = "tx_status_flags s i h v"
    obtain r c s1 where s1: "store_msg_contents ?st s h v = Inr (r, c, s1)" "ts_wf s1"
      and eq: "process_transaction_msg ins hins V now s h v i 0 ct en fee relay =
        Inr (finish_transaction_msg ins hins now s1 h i ?st 1 r c)"
      by (rule process_new_msg [OF s nr i False])
    let ?s = "snd (finish_transaction_msg ins hins now s1 h i ?st 1 r c)"
    have hc: "has_transaction_contents s1 h" and nr1: "\<not> removed_transaction s1 h"
    proof (atomize(full), cases "has_transaction_contents s h")
      case True
      then show "has_transaction_contents s1 h \<and> \<not> removed_transaction s1 h"
        using s1(1) v nr by (simp add: store_msg_contents_def tx_status_flags_bits)
    next
      case False
      then show "has_transaction_contents s1 h \<and> \<not> removed_transaction s1 h"
        using s1(1) v nr by (auto simp: store_msg_contents_def tx_status_flags_bits set_transaction_contents_def
            has_transaction_contents_def mw_find_def removed_transaction_def)
    qed
    have "msg_known ?s i h v"
      using v i hc finish_has_short_id [of ?st i] by (simp add: msg_known_def has_transaction_contents_def tx_status_flags_bits)
    moreover have "\<not> removed_transaction ?s h" using nr1 by (simp add: removed_transaction_def)
    ultimately show ?thesis using eq again by (metis prod.collapse)
  qed
qed

definition demo_service :: tx_service where
  "demo_service = snd (assign_short_id (#) (#) 10 (ts_new 1 10 6 2 1) [1] 5)"

lemma demo_service_facts:
  "ts_wf demo_service" "ts_hash demo_service 5 = Some [1]" "ts_sids demo_service [2] = None"
  "\<not> removed_transaction demo_service h" "\<not> has_transaction_contents demo_service h"
proof -
  show "ts_wf demo_service"
    using ts_wf_assign_short_id [OF ts_wf_new(1) placement_Cons] by (simp add: demo_service_def)
  have n: "(5 :: nat) \<noteq> NULL_TX_SID" "ts_hash (ts_new 1 10 6 2 1) 5 = None" by (simp_all add: NULL_TX_SID_def ts_new_def)
  show "ts_hash demo_service 5 = Some [1]" "ts_sids demo_service [2] = None"
    using assign_short_id_fresh [OF n] by (simp_all add: demo_service_def ts_new_def)
  show "\<not> removed_transaction demo_service h" "\<not> has_transaction_contents demo_service h"
    by (simp_all add: demo_service_def ts_new_def removed_transaction_def om_find_def om_new_def
        has_transaction_contents_def mw_find_def)
qed

theorem process_transaction_msg_twice_witness:
  "\<exists>r s'. process_transaction_msg (#) (#) valid_all 1 demo_service [7] (demo_view 3) 9 0 1 True 0 False = Inr (r, s') \<and>
    (\<exists>r'. process_transaction_msg (#) (#) valid_all 2 s' [7] (demo_view 3) 9 0 2 True 0 False = Inr (r', s'))"
  using process_transaction_msg_twice [of demo_service "[7]" 9 "demo_view 3" "(#)" "(#)" valid_all 1 1 True 0 False 2 2 True 0 False]
    demo_service_facts(1,4) by (auto simp: NULL_TX_SID_def demo_view_def)

text \<open>
  A message that pairs a known short id with a hash that has no short id leaves an empty set of
  short ids behind: the service then claims to have a short id for the hash, and fetching it
  dereferences the end of an empty set.
\<close>

theorem process_transaction_msg_leaves_empty_set:
  assumes s: "ts_wf s" and nr: "\<not> removed_transaction s h" and v: "bv_size v \<noteq> 0"
    and i: "ts_hash s i = Some h'" and h: "ts_sids s h = None" "\<not> has_transaction_contents s h"
  shows "\<exists>r s'. process_transaction_msg ins hins V now s h v i 0 ct en fee relay = Inr (r, s') \<and>
    has_short_id_hash s' h \<and> get_short_id s' h = Inl MemFault"
proof -
  have i0: "i \<noteq> NULL_TX_SID" using s i by (auto simp: ts_wf_def)
  have nk: "\<not> msg_known s i h v" using v h(2) by (simp add: msg_known_def)
  let ?st = "tx_status_flags s i h v"
  obtain r c s1 where s1: "ts_sids s1 = ts_sids s" "ts_hash s1 = ts_hash s"
    and eq: "process_transaction_msg ins hins V now s h v i 0 ct en fee relay =
      Inr (finish_transaction_msg ins hins now s1 h i ?st 1 r c)"
    by (rule process_new_msg [OF s nr i0 nk])
  have bits: "bit ?st TX_STATUS_SEEN_HASH" "bit ?st TX_STATUS_MSG_HAS_SHORT_ID"
    using i0 i by (simp_all add: tx_status_flags_bits has_short_id_def)
  have one: "(1 :: nat) \<noteq> set_bit TX_VALIDATION_STATUS_INVALID_LOW_FEE 0" by (simp add: tx_status_consts)
  let ?s = "snd (finish_transaction_msg ins hins now s1 h i ?st 1 r c)"
  have "ts_sids (snd (assign_short_id ins hins now (snd (sids_index hins s1 h)) h i)) = ts_sids (snd (sids_index hins s1 h))"
    using i s1 by (intro assign_short_id_known(1)) simp
  then have "ts_sids ?s h = Some []"
    using bits one s1 h(1) by (simp add: finish_transaction_msg_def Let_def split_beta sids_index_result)
  then show ?thesis using eq by (metis has_short_id_hash_def get_short_id_def option.distinct(1) option.simps(5) list.simps(4) prod.collapse)
qed

theorem process_transaction_msg_leaves_empty_set_witness:
  "\<exists>r s'. process_transaction_msg (#) (#) valid_all 1 demo_service [2] (demo_view 3) 5 0 1 True 0 False = Inr (r, s') \<and>
    has_short_id_hash s' [2] \<and> get_short_id s' [2] = Inl MemFault"
  using process_transaction_msg_leaves_empty_set [of demo_service "[2]" "demo_view 3" 5 "[1]" "(#)" "(#)" valid_all 1 1 True 0 False]
    demo_service_facts by (simp add: demo_view_def)

section \<open>Queries and removal\<close>

lemma fold_missing_step:
  "fold (missing_step s) is (ok, hs, ms) =
    (ok \<and> (\<forall>i \<in> set is. i \<noteq> NULL_TX_SID \<and> (\<exists>h. ts_hash s i = Some h \<and> has_transaction_contents s h)),
     hs @ map (\<lambda>i. the (ts_hash s i)) (filter (\<lambda>i. i \<noteq> NULL_TX_SID \<and>
        (\<exists>h. ts_hash s i = Some h \<and> \<not> has_transaction_contents s h)) is),
     ms @ filter (\<lambda>i. i = NULL_TX_SID \<or> ts_hash s i = None) is)"
  by (induction "is" arbitrary: ok hs ms)
     (auto simp: missing_step_def has_transaction_contents_def mw_find_def split: option.splits)

text \<open>
  The missing-transaction query succeeds exactly when every short id is a real one, assigned to
  a hash whose contents are stored; otherwise it returns, in the order of the request, the hashes
  without contents and the short ids without a hash.
\<close>

theorem get_missing_transactions_spec:
  "get_missing_transactions s is =
    ((\<forall>i \<in> set is. i \<noteq> NULL_TX_SID \<and> (\<exists>h. ts_hash s i = Some h \<and> has_transaction_contents s h)),
     map (\<lambda>i. the (ts_hash s i)) (filter (\<lambda>i. i \<noteq> NULL_TX_SID \<and>
        (\<exists>h. ts_hash s i = Some h \<and> \<not> has_transaction_contents s h)) is),
     filter (\<lambda>i. i = NULL_TX_SID \<or> ts_hash s i = None) is)"
  by (simp add: get_missing_transactions_def fold_missing_step)

theorem get_missing_transactions_spec_witness:
  "fst (get_missing_transactions demo_service [5]) = False \<and>
   snd (get_missing_transactions demo_service [0, 5, 6]) = ([[1]], [0, 6])"
proof -
  have "ts_hash demo_service 6 = None" "ts_hash demo_service 0 = None"
  proof -
    have n: "(5 :: nat) \<noteq> NULL_TX_SID" "ts_hash (ts_new 1 10 6 2 1) 5 = None" by (simp_all add: NULL_TX_SID_def ts_new_def)
    show "ts_hash demo_service 6 = None" "ts_hash demo_service 0 = None"
      using assign_short_id_fresh(2) [OF n] by (simp_all add: demo_service_def ts_new_def)
  qed
  then show ?thesis
    using demo_service_facts get_missing_transactions_spec [of demo_service "[5]"]
      get_missing_transactions_spec [of demo_service "[0, 5, 6]"]
    by (simp add: NULL_TX_SID_def)
qed

text \<open>
  Removing a transaction by one of its short ids forgets the hash with all its short ids and its
  contents, reports exactly the other ids as duplicates and the size of the contents, records the
  hash as removed, and touches no other transaction.
\<close>

theorem remove_by_short_id_forgets_transaction:
  assumes s: "ts_wf s" and i: "ts_hash s i = Some h"
  shows "\<exists>n dups s'. remove_transaction_by_short_id t now s i [] = Inr (n, dups, s') \<and> ts_wf s' \<and>
    (\<forall>j. j \<in> set dups \<longleftrightarrow> ts_hash s j = Some h \<and> j \<noteq> i) \<and> distinct dups \<and>
    n = (case mw_map (ts_contents s) h of Some (Some v) \<Rightarrow> bv_size v | _ \<Rightarrow> 0) \<and>
    (\<forall>j. ts_hash s' j = (if ts_hash s j = Some h then None else ts_hash s j)) \<and>
    (\<forall>k. has_short_id_hash s' k \<longleftrightarrow> has_short_id_hash s k \<and> k \<noteq> h) \<and>
    (\<forall>k. mw_map (ts_contents s') k = (if k = h then None else mw_map (ts_contents s) k)) \<and>
    removed_transaction s' h"
proof -
  obtain xs where xs: "ts_sids s h = Some xs" using s i by (auto simp: ts_wf_def ts_linked_def)
  have mem: "j \<in> set xs \<longleftrightarrow> ts_hash s j = Some h" for j using s xs by (auto simp: ts_wf_def ts_linked_def)
  have d: "distinct (uset_erase i xs)" using s xs by (auto simp: ts_wf_def)
  obtain n s' where "remove_transaction_by_short_id t now s i [] = Inr (n, [] @ uset_erase i xs, s')"
    "ts_wf s'" "ts_sids s' = (ts_sids s)(h := None)"
    "ts_hash s' = (\<lambda>j. if ts_hash s j = Some h then None else ts_hash s j)"
    "mw_map (ts_contents s') = (mw_map (ts_contents s))(h := None)" "removed_transaction s' h"
    "n = (case mw_map (ts_contents s) h of Some (Some v) \<Rightarrow> bv_size v | _ \<Rightarrow> 0)"
    by (rule remove_transaction_by_short_id_spec [OF s i xs])
  then show ?thesis using mem d by (auto simp: has_short_id_hash_def)
qed

theorem remove_by_short_id_forgets_transaction_witness:
  "\<exists>n dups s'. remove_transaction_by_short_id 1 1 demo_service 5 [] = Inr (n, dups, s') \<and>
     ts_hash s' 5 = None \<and> removed_transaction s' [1]"
  using remove_by_short_id_forgets_transaction [OF demo_service_facts(1,2), of 1 1] demo_service_facts(2) by fastforce

section \<open>Forgetting a set of transactions\<close>

definition forgets :: "hash set \<Rightarrow> tx_service \<Rightarrow> tx_service \<Rightarrow> bool" where
  "forgets F s s' \<longleftrightarrow>
     ts_wf s' \<and> ts_sids s' = (\<lambda>h. if h \<in> F then None else ts_sids s h) \<and>
     ts_hash s' = (\<lambda>i. case ts_hash s i of None \<Rightarrow> None | Some h \<Rightarrow> if h \<in> F then None else Some h) \<and>
     mw_map (ts_contents s') = (\<lambda>h. if h \<in> F then None else mw_map (ts_contents s) h) \<and>
     ts_seen s' = ts_seen s"

definition contents_len :: "tx_service \<Rightarrow> hash \<Rightarrow> nat" where
  "contents_len s h = (case mw_map (ts_contents s) h of Some (Some v) \<Rightarrow> bv_size v | _ \<Rightarrow> 0)"

definition contents_total :: "tx_service \<Rightarrow> hash set \<Rightarrow> nat" where
  "contents_total s F = (\<Sum>h\<in>F. contents_len s h)"

definition sid_tx :: "tx_service \<Rightarrow> sid \<Rightarrow> hash set" where
  "sid_tx s i = set_option (ts_hash s i)"

lemma forgets_refl: "ts_wf s \<Longrightarrow> forgets {} s s"
  by (simp add: forgets_def fun_eq_iff split: option.split)

lemma forgets_wf: "forgets F s s' \<Longrightarrow> ts_wf s'"
  by (simp add: forgets_def)

lemma forgets_trans:
  assumes "forgets F s s1" and "forgets G s1 s2"
  shows "forgets (F \<union> G) s s2"
  using assms by (auto simp: forgets_def fun_eq_iff split: option.splits)

lemma forgets_sid_tx: "forgets F s s' \<Longrightarrow> sid_tx s' i = sid_tx s i - F"
  by (auto simp: forgets_def sid_tx_def split: option.splits if_splits)

lemma contents_total_trans:
  assumes "forgets F s s1" and "finite F" and "finite G"
  shows "contents_total s F + contents_total s1 G = contents_total s (F \<union> G)"
proof -
  have len: "contents_len s1 h = (if h \<in> F then 0 else contents_len s h)" for h
    using assms(1) by (simp add: forgets_def contents_len_def)
  have "contents_total s1 G = (\<Sum>h\<in>G - F. contents_len s h)"
    unfolding contents_total_def using assms(3) by (intro sum.mono_neutral_cong_right) (auto simp: len)
  then show ?thesis
    using sum.union_disjoint [of F "G - F" "contents_len s"] assms(2,3) by (simp add: contents_total_def)
qed

lemma remove_by_hash_forgets:
  assumes "ts_wf s"
  obtains s' where "remove_transaction_by_hash t s h = Inr (contents_total s {h}, s')" and "forgets {h} s s'"
proof -
  obtain n s' where r: "remove_transaction_by_hash t s h = Inr (n, s')" "ts_wf s'" "ts_sids s' = (ts_sids s)(h := None)"
    "ts_hash s' = (\<lambda>i. if ts_hash s i = Some h then None else ts_hash s i)"
    "mw_map (ts_contents s') = (mw_map (ts_contents s))(h := None)" "ts_seen s' = ts_seen s"
    "n = (case mw_map (ts_contents s) h of Some (Some v) \<Rightarrow> bv_size v | _ \<Rightarrow> 0)"
    by (rule remove_transaction_by_hash_spec [OF assms])
  show thesis
  proof (rule that)
    show "remove_transaction_by_hash t s h = Inr (contents_total s {h}, s')"
      using r(1,7) by (simp add: contents_total_def contents_len_def)
    show "forgets {h} s s'" using r(2-6) by (auto simp: forgets_def fun_eq_iff split: option.splits)
  qed
qed

lemma remove_by_sid_forgets:
  assumes "ts_wf s"
  obtains s' dups where "remove_transaction_by_short_id t now s i xs = Inr (contents_total s (sid_tx s i), xs @ dups, s')"
    and "forgets (sid_tx s i) s s'" and "set dups \<union> {i} = {j. sid_tx s j \<inter> sid_tx s i \<noteq> {}} \<union> {i}"
proof (cases "ts_hash s i")
  case None
  show thesis
    by (rule that [of "[]" s]) (use None assms in \<open>simp_all add: remove_transaction_by_short_id_def contents_total_def sid_tx_def forgets_refl\<close>)
next
  case (Some h)
  then obtain ys where ys: "ts_sids s h = Some ys" using assms by (auto simp: ts_wf_def ts_linked_def)
  obtain n s' where r: "remove_transaction_by_short_id t now s i xs = Inr (n, xs @ uset_erase i ys, s')"
    "ts_wf s'" "ts_sids s' = (ts_sids s)(h := None)"
    "ts_hash s' = (\<lambda>j. if ts_hash s j = Some h then None else ts_hash s j)"
    "mw_map (ts_contents s') = (mw_map (ts_contents s))(h := None)" "ts_seen s' = ts_seen s"
    "n = (case mw_map (ts_contents s) h of Some (Some v) \<Rightarrow> bv_size v | _ \<Rightarrow> 0)"
    by (rule remove_transaction_by_short_id_spec [OF assms Some ys])
  have mem: "j \<in> set ys \<longleftrightarrow> ts_hash s j = Some h" for j using assms ys by (auto simp: ts_wf_def ts_linked_def)
  show thesis
  proof (rule that)
    show "remove_transaction_by_short_id t now s i xs = Inr (contents_total s (sid_tx s i), xs @ uset_erase i ys, s')"
      using r(1,7) Some by (simp add: contents_total_def contents_len_def sid_tx_def)
    show "forgets (sid_tx s i) s s'" using r(2-6) Some by (auto simp: forgets_def sid_tx_def fun_eq_iff split: option.splits)
    show "set (uset_erase i ys) \<union> {i} = {j. sid_tx s j \<inter> sid_tx s i \<noteq> {}} \<union> {i}"
      using mem Some by (auto simp: sid_tx_def)
  qed
qed

lemma remove_by_hashes_forgets:
  assumes "ts_wf s"
  shows "\<exists>s'. remove_transactions_by_hashes t s hs = Inr (u64 (contents_total s (set hs)), s') \<and> forgets (set hs) s s'"
  using assms
proof (induction hs arbitrary: s)
  case Nil
  then show ?case by (simp add: contents_total_def forgets_refl u64_def)
next
  case (Cons h hs)
  obtain s1 where s1: "remove_transaction_by_hash t s h = Inr (contents_total s {h}, s1)" "forgets {h} s s1"
    by (rule remove_by_hash_forgets [OF Cons.prems])
  obtain s2 where s2: "remove_transactions_by_hashes t s1 hs = Inr (u64 (contents_total s1 (set hs)), s2)" "forgets (set hs) s1 s2"
    using Cons.IH [OF forgets_wf [OF s1(2)]] by blast
  have "u64 (contents_total s {h} + u64 (contents_total s1 (set hs))) = u64 (contents_total s (insert h (set hs)))"
    using contents_total_trans [OF s1(2), of "set hs"] by (simp add: u64_def mod_add_right_eq)
  with s1 s2 forgets_trans [OF s1(2) s2(2)] show ?case by auto
qed

lemma removed_mono:
  assumes "remove_transaction_by_short_id t now s i dups = Inr (n, d, s')" and "removed_transaction s k"
  shows "removed_transaction s' k"
proof -
  have em: "om_find (fst (om_emplace m a b)) k \<noteq> None" if "om_find m k \<noteq> None" for m :: "(hash, real) ordered_map" and a b
    using that by (auto simp: om_emplace_def om_find_def split: option.splits)
  have er: "ts_hash_removed r' = ts_hash_removed r" if "erase_contents r h = Inr (c, r')" for r r' h c
    using that by (auto simp: erase_contents_def split: option.splits)
  show ?thesis
    using assms em [of "ts_hash_removed s"]
    by (auto simp: remove_transaction_by_short_id_def removed_transaction_def Let_def sids_erase_def
        split: option.splits if_splits prod.splits elim!: rbind_InrE dest!: er)
qed

lemma remove_all_forgets:
  assumes "ts_wf s" and "acc < 2 ^ 64"
  shows "\<exists>d s'. remove_all_short_ids t now s is acc dups =
      Inr (u64 (acc + contents_total s (\<Union>i \<in> set is. sid_tx s i)), d, s') \<and>
    forgets (\<Union>i \<in> set is. sid_tx s i) s s' \<and> ts_final s' = ts_final s \<and>
    (\<forall>h. removed_transaction s h \<or> h \<in> (\<Union>i \<in> set is. sid_tx s i) \<longrightarrow> removed_transaction s' h)"
  using assms
proof (induction "is" arbitrary: s acc dups)
  case Nil
  then show ?case by (simp add: contents_total_def forgets_refl u64_id)
next
  case (Cons i "is")
  let ?F = "sid_tx s i" let ?n = "contents_total s ?F"
  obtain s1 d1 where s1: "remove_transaction_by_short_id t now s i dups = Inr (?n, dups @ d1, s1)" "forgets ?F s s1"
    by (rule remove_by_sid_forgets [OF Cons.prems(1)])
  have t1: "ts_final s1 = ts_final s \<and> (h \<in> ?F \<longrightarrow> removed_transaction s1 h)" for h
  proof (cases "ts_hash s i")
    case None
    then show ?thesis using s1(1) by (simp add: remove_transaction_by_short_id_def sid_tx_def)
  next
    case (Some k)
    then obtain xs where xs: "ts_sids s k = Some xs" using Cons.prems(1) by (auto simp: ts_wf_def ts_linked_def)
    show ?thesis by (rule remove_transaction_by_short_id_spec [OF Cons.prems(1) Some xs, of t now dups]) (use s1(1) Some in \<open>auto simp: sid_tx_def\<close>)
  qed
  let ?G = "\<Union>j \<in> set is. sid_tx s1 j"
  have G: "?F \<union> ?G = (\<Union>j \<in> set (i # is). sid_tx s j)" using forgets_sid_tx [OF s1(2)] by auto
  have fin: "finite ?F" "finite ?G" by (simp_all add: sid_tx_def)
  obtain d s' where s': "remove_all_short_ids t now s1 is (u64 (acc + ?n)) (dups @ d1) =
      Inr (u64 (u64 (acc + ?n) + contents_total s1 ?G), d, s')" "forgets ?G s1 s'" "ts_final s' = ts_final s1"
      "\<forall>h. removed_transaction s1 h \<or> h \<in> ?G \<longrightarrow> removed_transaction s' h"
    using Cons.IH [OF forgets_wf [OF s1(2)], of "u64 (acc + ?n)" "dups @ d1"] by (auto simp: u64_def)
  have "u64 (u64 (acc + ?n) + contents_total s1 ?G) = u64 (acc + contents_total s (?F \<union> ?G))"
    using contents_total_trans [OF s1(2) fin] by (simp add: u64_def mod_add_left_eq add.assoc)
  moreover have "forgets (?F \<union> ?G) s s'" by (rule forgets_trans [OF s1(2) s'(2)])
  moreover have "\<forall>h. removed_transaction s h \<or> h \<in> ?F \<union> ?G \<longrightarrow> removed_transaction s' h"
    using t1 s'(4) removed_mono [OF s1(1)] by blast
  ultimately show ?case using s1(1) s'(1,3) t1 by (simp add: G)
qed

lemma fold_track_one_keeps:
  "ts_sids (fold track_one xs s) = ts_sids s" "ts_contents (fold track_one xs s) = ts_contents s"
  "ts_hash_removed (fold track_one xs s) = ts_hash_removed s"
  by (induction xs arbitrary: s) (auto simp: track_one_def track_seen_transaction_def split: option.split)

text \<open>
  C29: the service tracks the short ids of at most \<^verbatim>\<open>final_tx_confirmations_count - 1\<close> blocks: a new
  block is queued behind the others, a known one keeps its place and its ids, and when the count is
  reached the oldest block leaves the queue, and exactly the transactions it named are removed: their hashes, all
  their short ids and their contents are erased, their hashes are recorded as removed, and the size of
  the contents is reported. Nothing else changes in these maps. The count is positive and not reached before the call.
\<close>

theorem track_seen_short_ids_window:
  assumes s: "ts_wf s" and final: "0 < ts_final s" and few: "om_size (ts_seen s) < ts_final s"
    and L: "L = seen_after (ts_seen s) block short_ids"
    and gone: "gone = (if ts_final s \<le> length L then {h. \<exists>i \<in> set (snd (hd L)). ts_hash s i = Some h} else {})"
  shows "\<exists>d s'. track_seen_short_ids t now s block short_ids = Inr (u64 (contents_total s gone), d, s') \<and> ts_wf s' \<and>
    om_size (ts_seen s') < ts_final s' \<and> om_items (ts_seen s') = (if ts_final s \<le> length L then tl L else L) \<and>
    ts_sids s' = (\<lambda>h. if h \<in> gone then None else ts_sids s h) \<and>
    ts_hash s' = (\<lambda>i. case ts_hash s i of None \<Rightarrow> None | Some h \<Rightarrow> if h \<in> gone then None else Some h) \<and>
    mw_map (ts_contents s') = (\<lambda>h. if h \<in> gone then None else mw_map (ts_contents s) h) \<and>
    (\<forall>h \<in> gone. removed_transaction s' h)"
proof -
  obtain n d s' where s': "track_seen_short_ids t now s block short_ids = Inr (n, d, s')" "ts_wf s'"
    "ts_final s' = ts_final s" "om_items (ts_seen s') = (if ts_final s \<le> length L then tl L else L)"
    using track_seen_short_ids_spec [OF s, of t now block short_ids] unfolding L Let_def by metis
  have "length L \<le> Suc (om_size (ts_seen s))" by (simp add: L seen_after_def om_size_items)
  then have sz: "om_size (ts_seen s') < ts_final s'" using s'(3,4) few final by (auto simp: om_size_items)
  define m where "m = fst (om_emplace (ts_seen s) block short_ids)"
  have m: "om_wf m" "om_items m = L"
    using s om.items_emplace [of "ts_seen s" block short_ids] by (auto simp: m_def ts_wf_def seen_after_def L)
  obtain sids where sids: "om_index m block = Inr sids"
    using s'(1) by (auto simp: track_seen_short_ids_def Let_def simp flip: m_def elim!: rbind_InrE)
  have w: "ts_wf (s\<lparr>ts_seen := m\<rparr>)" using s m(1) by (auto simp: ts_wf_def ts_linked_def)
  define s2 where "s2 = fold track_one sids (s\<lparr>ts_seen := m\<rparr>)"
  have s2: "ts_wf s2" "ts_seen s2 = m" "ts_final s2 = ts_final s" "ts_sids s2 = ts_sids s" "ts_hash s2 = ts_hash s"
    "ts_contents s2 = ts_contents s"
    using w by (simp_all add: s2_def fold_track_one_keeps)
  have eq: "track_seen_short_ids t now s block short_ids =
      (if ts_final s \<le> length L then
         (case om_begin m of None \<Rightarrow> Inl MemFault
          | Some (b, final_sids) \<Rightarrow> rbind (remove_all_short_ids t now s2 final_sids 0 []) (\<lambda>(len, dups, s).
              Inr (len, dups, s\<lparr>ts_seen := fst (om_erase (ts_seen s) b)\<rparr>)))
       else Inr (0, [], s2))"
    unfolding s2_def using sids m(2) by (simp add: track_seen_short_ids_def Let_def om_size_items flip: m_def)
  show ?thesis
  proof (cases "ts_final s \<le> length L")
    case False
    then have "n = 0" "s' = s2" using s'(1) eq by auto
    then show ?thesis using s' sz s2 False by (auto simp: gone contents_total_def u64_def fun_eq_iff split: option.split)
  next
    case True
    obtain b fs rest where Lc: "L = (b, fs) # rest"
      using seen_after_nonempty [of "ts_seen s" block short_ids] unfolding L by (metis list.exhaust prod.collapse)
    let ?G = "\<Union>i \<in> set fs. sid_tx s2 i"
    obtain d3 s3 where s3: "remove_all_short_ids t now s2 fs 0 [] = Inr (u64 (contents_total s2 ?G), d3, s3)" "forgets ?G s2 s3"
      "\<forall>h \<in> ?G. removed_transaction s3 h"
      using remove_all_forgets [OF s2(1), of 0 t now fs "[]"] by auto
    have G: "?G = gone" using True by (auto simp: gone Lc sid_tx_def s2(5))
    have "om_begin m = Some (b, fs)" using m Lc by (simp add: om_begin_items)
    then have e: "n = u64 (contents_total s2 ?G)" "d = d3" "s' = s3\<lparr>ts_seen := fst (om_erase (ts_seen s3) b)\<rparr>"
      using s'(1) eq True s3(1) by auto
    have "contents_total s2 gone = contents_total s gone" by (simp add: contents_total_def contents_len_def s2(6))
    moreover have "ts_sids s' = ts_sids s3" "ts_hash s' = ts_hash s3" "ts_contents s' = ts_contents s3"
      "removed_transaction s' h = removed_transaction s3 h" for h
      by (simp_all add: e(3) removed_transaction_def)
    ultimately show ?thesis using s' sz s3(2,3) e(1) unfolding forgets_def G s2(4,5,6) by auto
  qed
qed

theorem track_seen_short_ids_window_witness:
  "\<exists>n d s'. track_seen_short_ids 1 1 (set_final_tx_confirmations_count demo_service 1) [9] [5] = Inr (n, d, s') \<and>
    ts_hash s' 5 = None \<and> ts_sids s' [1] = None \<and> removed_transaction s' [1]"
proof -
  let ?s = "set_final_tx_confirmations_count demo_service 1"
  have wf: "ts_wf ?s" using demo_service_facts(1) by (rule ts_wf_simple_ops)
  have "ts_seen ?s = om_new" by (simp add: set_final_tx_confirmations_count_def demo_service_def ts_new_def)
  then have f: "om_size (ts_seen ?s) < ts_final ?s" "[([9], [5])] = seen_after (ts_seen ?s) [9] [5]"
    by (simp_all add: set_final_tx_confirmations_count_def om_size_items seen_after_def)
  have h: "ts_hash ?s 5 = Some [1]" "0 < ts_final ?s" "ts_final ?s \<le> length [([9], [5])]"
    using demo_service_facts(2) by (simp_all add: set_final_tx_confirmations_count_def)
  from track_seen_short_ids_window [where t = 1 and now = 1, OF wf h(2) f refl] show ?thesis using h by auto
qed

section \<open>Sender nonces\<close>

lemma clear_nonces_spec:
  assumes "om_wf m" and "cleared + length (om_items m) < 2 ^ 64"
  shows "\<exists>m'. clear_nonces m time cleared =
      Some (cleared + length (takeWhile (\<lambda>kv. fst (snd kv) \<le> time) (om_items m)), m') \<and>
    om_wf m' \<and> om_items m' = dropWhile (\<lambda>kv. fst (snd kv) \<le> time) (om_items m)"
  using assms
proof (induction "om_items m" arbitrary: m cleared)
  case Nil
  then show ?case by (subst clear_nonces.simps) (auto simp: om_begin_items)
next
  case (Cons kv rest)
  have b: "om_begin m = Some kv" using Cons.hyps(2) by (simp add: om_begin_items flip: Cons.hyps(2))
  show ?case
  proof (cases "fst (snd kv) \<le> time")
    case False
    then show ?thesis using b Cons.prems by (subst clear_nonces.simps) (simp flip: Cons.hyps(2))
  next
    case True
    let ?m = "fst (om_erase m (fst kv))"
    have items: "om_items ?m = rest"
      using om.erase_oldest [OF Cons.prems(1), of "fst kv" "snd kv" rest] Cons.hyps(2) by simp
    have small: "Suc cleared + length rest < 2 ^ 64" using Cons.prems(2) by (simp flip: Cons.hyps(2))
    then obtain m' where "clear_nonces ?m time (Suc cleared) =
        Some (Suc cleared + length (takeWhile (\<lambda>kv. fst (snd kv) \<le> time) rest), m') \<and>
      om_wf m' \<and> om_items m' = dropWhile (\<lambda>kv. fst (snd kv) \<le> time) rest"
      using Cons.hyps(1) [of ?m "Suc cleared"] items Cons.prems(1) by auto
    moreover have "u64 (cleared + 1) = Suc cleared" using small by (simp add: u64_id)
    ultimately show ?thesis using True b
      by (subst clear_nonces.simps) (simp flip: Cons.hyps(2))
  qed
qed

text \<open>
  Clearing sender nonces returns, and removes and counts exactly the entries at the front of the
  queue that are not younger than the given time, up to the first younger one.
\<close>

theorem clear_sender_nonce_returns:
  assumes "ts_wf s" and "om_size (ts_nonces s) < 2 ^ 64"
  shows "\<exists>n s'. clear_sender_nonce s time = Some (n, s') \<and>
    om_items (ts_nonces s) = takeWhile (\<lambda>kv. fst (snd kv) \<le> time) (om_items (ts_nonces s)) @ om_items (ts_nonces s') \<and>
    n = length (takeWhile (\<lambda>kv. fst (snd kv) \<le> time) (om_items (ts_nonces s)))"
proof -
  have wf: "om_wf (ts_nonces s)" using assms(1) by (simp add: ts_wf_def)
  have "0 + length (om_items (ts_nonces s)) < 2 ^ 64" using assms(2) by (simp add: om_size_items)
  then obtain m' where "clear_nonces (ts_nonces s) time 0 =
      Some (0 + length (takeWhile (\<lambda>kv. fst (snd kv) \<le> time) (om_items (ts_nonces s))), m')"
    "om_items m' = dropWhile (\<lambda>kv. fst (snd kv) \<le> time) (om_items (ts_nonces s))"
    using clear_nonces_spec [OF wf] by metis
  then show ?thesis by (simp add: clear_sender_nonce_def)
qed

definition nonce_service :: tx_service where
  "nonce_service = demo_service\<lparr>ts_nonces :=
     fst (om_emplace (fst (om_emplace om_new [1] (1, 10))) [2] (5, 11))\<rparr>"

theorem clear_sender_nonce_returns_witness:
  "\<exists>s'. clear_sender_nonce nonce_service 3 = Some (1, s') \<and> om_items (ts_nonces s') = [([2], (5, 11))]"
proof -
  have wf: "ts_wf nonce_service" using demo_service_facts(1) by (auto simp: nonce_service_def intro: ts_wf_nonces)
  have items: "om_items (ts_nonces nonce_service) = [([1], (1, 10)), ([2], (5, 11))]"
    by (simp add: nonce_service_def om_items_emplace)
  have "\<exists>n s'. clear_sender_nonce nonce_service 3 = Some (n, s') \<and>
    om_items (ts_nonces nonce_service) =
      takeWhile (\<lambda>kv. fst (snd kv) \<le> 3) (om_items (ts_nonces nonce_service)) @ om_items (ts_nonces s') \<and>
    n = length (takeWhile (\<lambda>kv. fst (snd kv) \<le> 3) (om_items (ts_nonces nonce_service)))"
    using wf items by (intro clear_sender_nonce_returns) (auto simp: om_size_items)
  then show ?thesis by (auto simp: items)
qed

end
