(* ===== verification/BlockRestore.thy ===== *)
theory BlockRestore
  imports BlockCodec BtcDecompression TxServiceProps
begin

text \<open>
  What the decompression tasks have in common: the sub-tasks are jobs in the sense of theory
  \<open>SharedFill\<close>, and dispatching hands every sub-task a run of consecutive transactions together with
  the place of its first one in the output buffer. The locale \<open>bx_format\<close> states what the tasks need
  of a format of compressed messages: that scanning finds the end of a transaction and tells a short
  id from a transaction in full.
\<close>

section \<open>Reading the compressed message\<close>

definition receiver_has :: "('t \<Rightarrow> byte list) \<Rightarrow> tx_service \<Rightarrow> ('t \<Rightarrow> bool) \<Rightarrow> ('t \<Rightarrow> sid) \<Rightarrow> 't \<Rightarrow> bool" where
  \<comment> \<open>the receiver has the contents behind the short id; a transaction in full is not taken for a short id\<close>
  "receiver_has ser s cmpd sidf t \<longleftrightarrow>
     (if cmpd t then
        sidf t \<noteq> NULL_TX_SID \<and>
        (\<exists>h c. ts_hash s (sidf t) = Some h \<and> mw_find (ts_contents s) h = Some (Some c) \<and> bv_ok c \<and> bv_bytes c = ser t)
      else hd (ser t) \<noteq> BTC_SHORT_ID_INDICATOR)"

definition msg_is :: "nat \<Rightarrow> buffer_view \<Rightarrow> byte list \<Rightarrow> bool" where
  \<comment> \<open>the message carries this compressed block behind its first \<open>od\<close> bytes\<close>
  "msg_is od v body \<longleftrightarrow> bv_ok v \<and> (\<exists>p8 tail. length p8 = od \<and> bv_bytes v = p8 @ body @ tail)"

lemma get_tx_contents_found:
  assumes "ts_hash s i = Some h" and "mw_find (ts_contents s) h = Some (Some c)"
  shows "get_tx_contents_raw_ptr s i = Inr (Some c, s)" and "get_tx_size s i = Inr (bv_size c)"
  using assms
  by (simp_all add: get_tx_contents_raw_ptr_def get_transaction_def get_tx_size_def mw_index_def mw_find_def mw_at_def)

section \<open>The concurrent phase\<close>

fun job_ok ::
  "(nat \<times> nat \<times> nat \<Rightarrow> nat \<times> nat) \<Rightarrow> byte list \<Rightarrow> buffer_view \<Rightarrow> sid list \<Rightarrow> tx_service \<Rightarrow> (nat \<times> nat \<times> nat) list \<Rightarrow> nat \<Rightarrow> nat \<Rightarrow> nat \<Rightarrow> bool" where
  \<comment> \<open>from \<open>pos\<close> on, the offsets stand for the bytes of \<open>D\<close> up to \<open>fin\<close>\<close>
  "job_ok ends D v sids s [] pos k fin \<longleftrightarrow> pos = fin"
| "job_ok ends D v sids s (off # offs) pos k fin \<longleftrightarrow>
     (\<exists>c k'. dcm_contents v sids s k (fst (ends off)) (snd (ends off)) = Inr (c, s, k') \<and> bv_ok c \<and> 0 < bv_size c \<and>
        pos + bv_size c \<le> length D \<and> slice pos (bv_size c) D = bv_bytes c \<and>
        job_ok ends D v sids s offs (pos + bv_size c) k' fin)"

definition dj_ok :: "(nat \<times> nat \<times> nat \<Rightarrow> nat \<times> nat) \<Rightarrow> byte list \<Rightarrow> buffer_view \<Rightarrow> sid list \<Rightarrow> tx_service \<Rightarrow> nat \<Rightarrow> dcm_job \<Rightarrow> bool" where
  "dj_ok ends D v sids s fin j \<longleftrightarrow> job_ok ends D v sids s (dj_offsets j) (dj_output_offset j) (dj_sid_idx j) fin"

lemma ba_copy_right:
  assumes "ba_wf out" and "ba_len out = length D" and "length D < 2 ^ 64" and "bv_wf c"
    and "0 < n" and "from + n \<le> bv_size c" and "pos + n \<le> length D" and "slice from n (bv_bytes c) = slice pos n D"
  obtains out' where "ba_copy_from_buffer out c pos from n = Inr (out', pos + n)" and "ba_wf out'"
    and "ba_len out' = length D"
    and "\<And>k. k < length D \<Longrightarrow> ba_bytes out' ! k = (if pos \<le> k \<and> k < pos + n then D ! k else ba_bytes out ! k)"
proof -
  have small: "pos + n < 2 ^ 64" using assms(3,7) by linarith
  obtain out' where o: "ba_copy_from_buffer out c pos from n = Inr (out', pos + n)" "ba_wf out'"
    "ba_len out' = max (ba_len out) (pos + n)"
    "ba_bytes out' = patch pos (slice from n (bv_bytes c)) (ba_bytes (if ba_len out < pos + n then ba_resize out (pos + n) else out))"
    by (rule ba_copy_from_buffer_spec [OF assms(1,4,5,6) small])
  have b: "ba_bytes out' = patch pos (slice pos n D) (ba_bytes out)" using o(4) assms(2,7,8) by simp
  have "ba_bytes out' ! k = (if pos \<le> k \<and> k < pos + n then D ! k else ba_bytes out ! k)" if "k < length D" for k
    using that assms(1,2,7) by (simp add: b nth_patch nth_slice min_absorb1)
  then show thesis using that o assms(2,7) by simp
qed

definition out_good :: "byte list \<Rightarrow> byte_array \<Rightarrow> bool" where
  "out_good D out \<longleftrightarrow> ba_wf out \<and> ba_len out = length D \<and> length D < 2 ^ 64"

lemma dcm_job_step_ok:
  assumes ok: "dj_ok ends D v sids s fin j" and good: "out_good D out"
  shows "\<exists>out' j'. dcm_job_step ends v sids s out j = Inr (s, out', j') \<and> dj_ok ends D v sids s fin j' \<and> out_good D out' \<and>
    dcm_todo j' = dcm_todo j - 1 \<and>
    (\<forall>k < length D. ba_bytes out' ! k = (if dj_output_offset j \<le> k \<and> k < dj_output_offset j' then D ! k else ba_bytes out ! k))"
proof (cases "dj_offsets j")
  case Nil
  then show ?thesis using assms by (intro exI [of _ out] exI [of _ j]) (auto simp: dcm_job_step_def dcm_todo_def)
next
  case (Cons off offs)
  obtain "from" to where off: "ends off = (from, to)" by (cases "ends off") auto
  let ?pos = "dj_output_offset j"
  have out: "ba_wf out" "ba_len out = length D" "length D < 2 ^ 64" using good by (simp_all add: out_good_def)
  obtain c k' where c: "dcm_contents v sids s (dj_sid_idx j) from to = Inr (c, s, k')" "bv_ok c" "0 < bv_size c"
    "?pos + bv_size c \<le> length D" "slice ?pos (bv_size c) D = bv_bytes c"
    "job_ok ends D v sids s offs (?pos + bv_size c) k' fin"
    using ok by (auto simp: dj_ok_def Cons off)
  have wf: "bv_wf c" using c(2) by (simp add: bv_ok_def)
  have "slice 0 (bv_size c) (bv_bytes c) = slice ?pos (bv_size c) D" using c(5) wf by (simp add: slice_0_all)
  then obtain out' where o: "ba_copy_from_buffer out c ?pos 0 (bv_size c) = Inr (out', ?pos + bv_size c)" "ba_wf out'"
    "ba_len out' = length D"
    "\<And>k. k < length D \<Longrightarrow> ba_bytes out' ! k = (if ?pos \<le> k \<and> k < ?pos + bv_size c then D ! k else ba_bytes out ! k)"
    using ba_copy_right [OF out wf c(3), of 0 ?pos] c(4) by auto
  let ?j' = "\<lparr>dj_sid_idx = k', dj_output_offset = ?pos + bv_size c, dj_offsets = offs\<rparr>"
  have "dcm_job_step ends v sids s out j = Inr (s, out', ?j')" using Cons off c(1) o(1) by (simp add: dcm_job_step_def)
  then show ?thesis using o c(6) out(3)
    by (intro exI [of _ out'] exI [of _ ?j']) (simp add: dj_ok_def out_good_def dcm_todo_def Cons)
qed

interpretation dcm: fill_job "\<lambda>(ends, v, sids). dcm_job_step ends v sids" dj_output_offset dcm_todo
  "\<lambda>(ends, v, sids) D s fin j. dj_ok ends D v sids s fin j" out_good ba_bytes
proof (unfold_locales, goal_cases)
  case (1 c D s fin j out)
  then show ?case using dcm_job_step_ok [of "fst c" D "fst (snd c)" "snd (snd c)" s fin j out] by (simp add: split_beta)
next
  case (2 c D s fin j)
  then show ?case by (simp add: dj_ok_def dcm_todo_def split_beta)
qed

abbreviation fill_inv ::
  "(nat \<times> nat \<times> nat \<Rightarrow> nat \<times> nat) \<Rightarrow> byte list \<Rightarrow> buffer_view \<Rightarrow> sid list \<Rightarrow> tx_service \<Rightarrow> (nat \<Rightarrow> nat) \<Rightarrow> nat \<Rightarrow> byte_array \<Rightarrow> dcm_job list \<Rightarrow> bool" where
  "fill_inv ends D v sids s fins hp out jobs \<equiv> dcm.fill_inv (ends, v, sids) D s fins hp out jobs"

lemmas fill_inv_def = dcm.fill_inv_def prod.case out_good_def

lemma dcm_run_inv:
  assumes "fill_inv ends D v sids s fins hp out jobs"
  shows "\<exists>out' jobs'. dcm_run ends v sids sched (s, out, jobs) = Inr (s, out', jobs') \<and> fill_inv ends D v sids s fins hp out' jobs'"
  using dcm.run_inv [OF assms, of sched] by (auto simp: dcm_run_def)

lemma dcm_run_all:
  assumes inv: "fill_inv ends D v sids s fins 0 out jobs"
  shows "\<exists>out' jobs'. dcm_run ends v sids (dcm_rest jobs) (s, out, jobs) = Inr (s, out', jobs') \<and> ba_wf out' \<and> ba_bytes out' = D"
  using dcm.run_all [OF inv] by (auto simp: dcm_run_def dcm_rest_def out_good_def intro!: nth_equalityI)

section \<open>Dispatching\<close>

fun bx_spans :: "('t \<Rightarrow> byte list) \<Rightarrow> ('t \<Rightarrow> bool) \<Rightarrow> nat \<Rightarrow> 't list \<Rightarrow> (nat \<times> nat) list" where
  "bx_spans ser cmpd pos [] = []"
| "bx_spans ser cmpd pos (t # ts) =
     (pos, pos + length (piece ser cmpd t)) # bx_spans ser cmpd (pos + length (piece ser cmpd t)) ts"

lemma bx_spans_snoc:
  "bx_spans ser cmpd pos (ts @ [t]) = bx_spans ser cmpd pos ts @
    [(pos + length (pieces ser cmpd ts), pos + length (pieces ser cmpd ts) + length (piece ser cmpd t))]"
  by (induction ts arbitrary: pos) (auto simp: add.assoc)

definition dcm_ok ::
  "('t \<Rightarrow> bool) \<Rightarrow> ('t \<Rightarrow> byte list) \<Rightarrow> nat \<Rightarrow> buffer_view \<Rightarrow> tx_service \<Rightarrow> ('t \<Rightarrow> bool) \<Rightarrow> ('t \<Rightarrow> sid) \<Rightarrow> byte list \<Rightarrow> 't list \<Rightarrow> bool" where
  "dcm_ok wft ser od v s cmpd sidf pre ts \<longleftrightarrow>
     msg_is od v (pre @ pieces ser cmpd ts) \<and> list_all wft ts \<and> list_all (receiver_has ser s cmpd sidf) ts \<and>
     length ts < 2 ^ 64 \<and> length (pre @ sers ser ts) < 2 ^ 64"

lemma dcm_ok_sids: "dcm_ok wft ser od v s cmpd sidf pre ts \<Longrightarrow> length (filter cmpd ts) < 2 ^ 64"
  unfolding dcm_ok_def by (meson le_less_trans length_filter_le)

definition disp_inv ::
  "(nat \<times> nat \<times> nat \<Rightarrow> nat \<times> nat) \<Rightarrow> ('t \<Rightarrow> byte list) \<Rightarrow> nat \<Rightarrow> byte list \<Rightarrow> buffer_view \<Rightarrow> sid list \<Rightarrow> tx_service \<Rightarrow> ('t \<Rightarrow> bool) \<Rightarrow> byte list \<Rightarrow> nat \<Rightarrow>
   't list \<Rightarrow> 't list \<Rightarrow> (nat \<Rightarrow> nat) \<Rightarrow> dcm_disp \<Rightarrow> bool" where
  \<comment> \<open>the transactions \<open>dn\<close> are enqueued, those of \<open>cur\<close> belong to the current sub-task\<close>
  "disp_inv ends ser od D v sids s cmpd pre pool dn cur fins d \<longleftrightarrow>
     ds_idx d < pool \<and> pool \<le> length (ds_subs d) \<and>
     ds_offset d = od + length (pre @ pieces ser cmpd (dn @ cur)) \<and>
     ds_sids_offset d = length (filter cmpd dn) \<and>
     ds_output_offset d = length (pre @ sers ser (dn @ cur)) \<and>
     ds_prev_output_offset d = length (pre @ sers ser dn) \<and>
     ba_wf (ds_out d) \<and> length D \<le> ba_cap (ds_out d) \<and>
     dd_sids_len (ds_subs d ! ds_idx d) = length (filter cmpd cur) \<and>
     map ends (dd_offsets (ds_subs d ! ds_idx d)) = bx_spans ser cmpd (od + length (pre @ pieces ser cmpd dn)) cur \<and>
     (\<forall>j < length (ds_subs d). ds_idx d < j \<longrightarrow> dd_sids_len (ds_subs d ! j) = 0 \<and> dd_offsets (ds_subs d ! j) = []) \<and>
     (\<forall>j < ds_idx d. dj_ok ends D v sids s (fins j) (dcm_start (ds_subs d ! j))) \<and>
     (\<forall>k. length pre \<le> k \<and> k < length (pre @ sers ser dn) \<longrightarrow>
        (\<exists>j < ds_idx d. dd_output_offset (ds_subs d ! j) \<le> k \<and> k < fins j))"

lemma get_missing_none:
  assumes "list_all (receiver_has ser s cmpd sidf) ts"
  shows "get_missing_transactions s (map sidf (filter cmpd ts)) = (True, [], [])"
proof -
  have "\<forall>t \<in> set ts. cmpd t \<longrightarrow> sidf t \<noteq> NULL_TX_SID \<and> (\<exists>h. ts_hash s (sidf t) = Some h \<and> has_transaction_contents s h)"
    using assms by (fastforce simp: list_all_iff receiver_has_def has_transaction_contents_def)
  then show ?thesis
    unfolding get_missing_transactions_def fold_missing_step by (fastforce simp: filter_empty_conv)
qed

section \<open>The message and the output buffer\<close>

lemma msg_is_encode:
  assumes "bv_ok v" and "bv_bytes v = bx_encode body sids"
  shows "msg_is 8 v body" and "get_le (bv_read v) 8 0 = Inr (8 + length body, 8)"
proof -
  let ?tail = "le_bytes 4 (length sids) @ concat (map (le_bytes 4) sids)"
  have eq: "bv_bytes v = le_bytes 8 (8 + length body) @ body @ ?tail" using assms(2) by (simp add: bx_encode_def)
  then show "msg_is 8 v body"
    unfolding msg_is_def using assms(1) by (intro conjI exI [of _ "le_bytes 8 (8 + length body)"] exI [of _ ?tail]) simp_all
  have "8 + length body < 2 ^ 64" using bvs.bytes_small [OF assms(1)] eq by simp
  then have "le_val (le_bytes 8 (8 + length body)) = 8 + length body" by (intro le_val_le_bytes) simp
  then show "get_le (bv_read v) 8 0 = Inr (8 + length body, 8)"
    using bvs.get_le_at [OF assms(1), of "[]" "le_bytes 8 (8 + length body)" "body @ ?tail"] eq by simp
qed

lemma dcm_init_out:
  assumes c: "ba_wf (dt_out c)" "ba_cap (dt_out c) < 2 ^ 32" and n: "n < 2 ^ 32"
  obtains out where "(if shared then Inr (ba_with_capacity (u32 (max n (ba_cap (dt_out c)))))
      else ba_reset (ba_reserve (dt_out c) (u32 (max n (ba_cap (dt_out c)))))) = Inr out"
    and "ba_wf out" and "n \<le> ba_cap out" and "ba_len out = 0"
proof -
  let ?n = "max n (ba_cap (dt_out c))"
  have u: "u32 ?n = ?n" using c n by (simp add: u32_id)
  show thesis
  proof (cases shared)
    case True
    have "ba_cap (ba_with_capacity ?n) = ?n" "ba_len (ba_with_capacity ?n) = 0" by (simp_all add: ba_with_capacity_def)
    then show thesis using that [of "ba_with_capacity ?n"] u True by simp
  next
    case False
    then show thesis using that [of "ba_resize (ba_reserve (dt_out c) ?n) 0"] u c by (simp add: ba_reset_eq)
  qed
qed

text \<open>No operation of the tasks gives back capacity of the output buffer.\<close>

lemma ba_cap_resize: "ba_cap b \<le> ba_cap (ba_resize b n)"
  by (simp add: ba_resize_def ba_reserve_def)

lemma ba_cap_copy: "ba_copy_from_buffer b c off from len = Inr (b', off') \<Longrightarrow> ba_cap b \<le> ba_cap b'"
  by (auto simp: ba_copy_from_buffer_def Let_def intro: order_trans [OF ba_cap_resize] split: if_splits elim!: rbind_InrE)

lemma run_jobs_cap:
  assumes "\<forall>s out j s' out' j'. step s out j = Inr (s', out', j') \<longrightarrow> ba_cap out \<le> ba_cap out'"
    and "run_jobs step sched (s, out, jobs) = Inr (s', out', jobs')"
  shows "ba_cap out \<le> ba_cap out'"
  using assms(2)
proof (induction sched arbitrary: s out jobs)
  case (Cons i sched)
  then show ?case using assms(1) by (fastforce split: if_splits intro: le_trans elim!: rbind_InrE)
qed simp

lemma dcm_run_cap:
  assumes "dcm_run ends v sids sched (s, out, jobs) = Inr (s', out', jobs')"
  shows "ba_cap out \<le> ba_cap out'"
proof (rule run_jobs_cap)
  show "run_jobs (dcm_job_step ends v sids) sched (s, out, jobs) = Inr (s', out', jobs')"
    using assms by (simp add: dcm_run_def)
  show "\<forall>s out j s' out' j'. dcm_job_step ends v sids s out j = Inr (s', out', j') \<longrightarrow> ba_cap out \<le> ba_cap out'"
    by (auto simp: dcm_job_step_def Let_def split: list.splits prod.splits dest: ba_cap_copy elim!: rbind_InrE)
qed

lemma dcm_fill_cap:
  assumes "dcm_fill ends od s sched1 sched2 c v offset k = Inr (s', out)"
  shows "ba_cap (dt_out c) \<le> ba_cap out"
  using assms
  by (auto simp: dcm_fill_def Let_def dest!: dcm_run_cap ba_cap_copy elim!: rbind_InrE)

lemma dcm_dispatch_tx_cap: "dcm_dispatch_tx nxt s sids idx d = Inr d' \<Longrightarrow> ba_cap (ds_out d) \<le> ba_cap (ds_out d')"
  by (auto simp: dcm_dispatch_tx_def dcm_extend_output_buffer_def Let_def ba_cap_resize split: if_splits elim!: rbind_InrE)

lemma dcm_dispatch_loop_cap:
  "dcm_dispatch_loop nxt s sids pool bulk n count d = Inr d' \<Longrightarrow> ba_cap (ds_out d) \<le> ba_cap (ds_out d')"
  by (induction nxt s sids pool bulk n count d rule: dcm_dispatch_loop.induct)
    (auto dest: dcm_dispatch_tx_cap intro: le_trans elim!: rbind_InrE)

lemma dcm_dispatch_cap: "dcm_dispatch nxt od s c offset pool = Inr (k, c') \<Longrightarrow> ba_cap (dt_out c) \<le> ba_cap (dt_out c')"
  by (auto simp: dcm_dispatch_def dcm_extend_output_buffer_def Let_def split: if_splits
      dest!: dcm_dispatch_loop_cap intro: order_trans [OF _ ba_cap_resize] elim!: rbind_InrE)

section \<open>Compressed formats\<close>

locale bx_format = tx_sizes ser wft
  for ser :: "'t \<Rightarrow> byte list" and wft :: "'t \<Rightarrow> bool" +
  fixes od :: nat
    and ends :: "nat \<times> nat \<times> nat \<Rightarrow> nat \<times> nat"
    and isb :: "'m \<Rightarrow> buffer_view \<Rightarrow> byte list \<Rightarrow> bool"
    and nxt :: "'m \<Rightarrow> nat \<Rightarrow> (nat \<times> bool \<times> nat \<times> nat \<times> nat) res"
  assumes nxt_at: "isb m v blk \<Longrightarrow> blk = pre @ piece ser cmpd t @ post \<Longrightarrow> wft t \<Longrightarrow>
      (\<not> cmpd t \<longrightarrow> hd (ser t) \<noteq> BTC_SHORT_ID_INDICATOR) \<Longrightarrow>
      \<exists>w. nxt m (od + length pre) = Inr (od + length pre + length (piece ser cmpd t), cmpd t, w) \<and>
        ends w = (od + length pre, od + length pre + length (piece ser cmpd t))"
begin

lemma dcm_contents_at:
  assumes v: "msg_is od v body" and body: "body = pre @ piece ser cmpd t @ post"
    and t: "wft t" "receiver_has ser s cmpd sidf t"
    and k: "cmpd t \<Longrightarrow> k < length sids \<and> sids ! k = sidf t" and small: "length sids < 2 ^ 64"
    and to: "from = od + length pre" "to = from + length (piece ser cmpd t)"
  shows "\<exists>c. dcm_contents v sids s k from to = Inr (c, s, if cmpd t then k + 1 else k) \<and> bv_ok c \<and> bv_bytes c = ser t"
proof -
  from v obtain p8 tail where bytes: "bv_ok v" "length p8 = od" "bv_bytes v = p8 @ body @ tail"
    by (auto simp: msg_is_def)
  have sm: "od + length body < 2 ^ 64" using bvs.bytes_small [OF bytes(1)] bytes by simp
  have sz: "u64_sub to from = length (piece ser cmpd t)" using sm body to by (simp add: u64_sub_id)
  show ?thesis
  proof (cases "cmpd t")
    case True
    obtain h c where c: "ts_hash s (sidf t) = Some h" "mw_find (ts_contents s) h = Some (Some c)" "bv_ok c" "bv_bytes c = ser t"
      using t(2) True by (auto simp: receiver_has_def)
    have "u64 (k + 1) = k + 1" using k [OF True] small by (intro u64_id) simp
    then show ?thesis using True sz k [OF True] get_tx_contents_found [OF c(1,2)] c(3,4)
      by (simp add: dcm_contents_def piece_def)
  next
    case False
    have fits: "from + length (ser t) \<le> bv_size v"
      using bytes length_bv_bytes [of v] body to False by (simp add: bv_ok_def piece_def)
    have "slice from (length (ser t)) (bv_bytes v) = ser t"
      using bytes(2,3) body False to slice_middle [of "p8 @ pre" "from" "ser t" _ "post @ tail"] by (simp add: piece_def)
    moreover have "length (ser t) \<noteq> 1" using length_ser [OF t(1)] by simp
    ultimately show ?thesis
      using False sz bv_wf_sub [of v "from" "length (ser t)"] bytes(1) fits
      by (simp add: dcm_contents_def piece_def bv_ok_def)
  qed
qed

lemma job_ok_segment:
  assumes ok: "dcm_ok wft ser od v s cmpd sidf pre ts" and D: "D = pre @ sers ser ts" and sids: "sids = map sidf (filter cmpd ts)"
    and ts: "ts = dn @ seg @ rest" and offs: "map ends offs = bx_spans ser cmpd (od + length (pre @ pieces ser cmpd dn)) seg"
  shows "job_ok ends D v sids s offs (length (pre @ sers ser dn)) (length (filter cmpd dn)) (length (pre @ sers ser (dn @ seg)))"
  using ts offs
proof (induction seg arbitrary: dn offs)
  case (Cons t seg)
  obtain off offs' where offs: "offs = off # offs'"
    "ends off = (od + length (pre @ pieces ser cmpd dn), od + length (pre @ pieces ser cmpd dn) + length (piece ser cmpd t))"
    "map ends offs' = bx_spans ser cmpd (od + length (pre @ pieces ser cmpd dn) + length (piece ser cmpd t)) seg"
    using Cons.prems(2) by (cases offs) auto
  have t: "wft t" "receiver_has ser s cmpd sidf t" using ok Cons.prems(1) by (simp_all add: dcm_ok_def)
  have msg: "msg_is od v (pre @ pieces ser cmpd ts)" using ok by (simp add: dcm_ok_def)
  have body: "pre @ pieces ser cmpd ts = (pre @ pieces ser cmpd dn) @ piece ser cmpd t @ pieces ser cmpd (seg @ rest)"
    by (simp add: Cons.prems(1))
  have k: "length (filter cmpd dn) < length sids \<and> sids ! length (filter cmpd dn) = sidf t" if "cmpd t"
    using that by (simp add: sids Cons.prems(1) nth_append)
  have "length sids < 2 ^ 64" using dcm_ok_sids [OF ok] sids by simp
  then obtain c where c: "dcm_contents v sids s (length (filter cmpd dn)) (od + length (pre @ pieces ser cmpd dn))
      (od + length (pre @ pieces ser cmpd dn) + length (piece ser cmpd t)) =
      Inr (c, s, if cmpd t then length (filter cmpd dn) + 1 else length (filter cmpd dn))" "bv_ok c" "bv_bytes c = ser t"
    using dcm_contents_at [OF msg body t k _ refl refl] by blast
  have sz: "bv_size c = length (ser t)" using c(2,3) length_bv_bytes [of c] by (simp add: bv_ok_def)
  have pos: "length (pre @ sers ser dn) + bv_size c = length (pre @ sers ser (dn @ [t]))" using sz by simp
  have kk: "(if cmpd t then length (filter cmpd dn) + 1 else length (filter cmpd dn)) = length (filter cmpd (dn @ [t]))" by simp
  have "job_ok ends D v sids s offs' (length (pre @ sers ser (dn @ [t]))) (length (filter cmpd (dn @ [t])))
      (length (pre @ sers ser ((dn @ [t]) @ seg)))"
    using Cons.prems(1) offs(3) by (intro Cons.IH) (simp_all add: add.assoc)
  moreover have "slice (length (pre @ sers ser dn)) (bv_size c) D = bv_bytes c"
    using slice_middle [of "pre @ sers ser dn" _ "ser t" _ "sers ser (seg @ rest)"] c(3) sz by (simp add: D Cons.prems(1))
  moreover have "0 < bv_size c" "length (pre @ sers ser dn) + bv_size c \<le> length D"
    using length_ser [OF t(1)] sz by (linarith, simp add: D Cons.prems(1))
  ultimately show ?case
    unfolding offs(1) job_ok.simps offs(2) fst_conv snd_conv using c(1,2) by (intro exI [of _ c] exI conjI) (simp_all only: pos kk append_assoc append_Cons append_Nil)
qed simp

lemma dcm_measure_tx_at:
  assumes ok: "dcm_ok wft ser od v s cmpd sidf pre ts" and sids: "sids = map sidf (filter cmpd ts)" and ts: "ts = dn @ cur @ t # rest"
    and inv: "disp_inv ends ser od D v sids s cmpd pre pool dn cur fins d"
    and offset: "offset = ds_offset d + length (piece ser cmpd t)"
  shows "dcm_measure_tx s sids d (ds_subs d ! ds_idx d) (cmpd t) offset =
    Inr ((ds_subs d ! ds_idx d)\<lparr>dd_sids_len := length (filter cmpd (cur @ [t]))\<rparr>, length (pre @ sers ser (dn @ cur @ [t])))"
proof -
  have i: "ds_sids_offset d = length (filter cmpd dn)" "dd_sids_len (ds_subs d ! ds_idx d) = length (filter cmpd cur)"
    "ds_output_offset d = length (pre @ sers ser (dn @ cur))" "ds_offset d = od + length (pre @ pieces ser cmpd (dn @ cur))"
    using inv by (simp_all add: disp_inv_def)
  have t: "wft t" "receiver_has ser s cmpd sidf t" using ok ts by (simp_all add: dcm_ok_def)
  have fits: "length (pre @ sers ser (dn @ cur @ [t])) < 2 ^ 64" using ok ts by (simp add: dcm_ok_def)
  show ?thesis
  proof (cases "cmpd t")
    case True
    obtain h c where c: "ts_hash s (sidf t) = Some h" "mw_find (ts_contents s) h = Some (Some c)" "bv_ok c" "bv_bytes c = ser t"
      using t(2) True by (auto simp: receiver_has_def)
    have sz: "bv_size c = length (ser t)" using c(3,4) length_bv_bytes [of c] by (simp add: bv_ok_def)
    let ?k = "length (filter cmpd dn) + length (filter cmpd cur)"
    have k: "?k < length sids" "sids ! ?k = sidf t" using True by (simp_all add: sids ts nth_append)
    have "length sids < 2 ^ 64" using dcm_ok_sids [OF ok] sids by simp
    then have "u64 ?k = ?k" using k(1) by (intro u64_id) linarith
    then show ?thesis using True i k fits sz get_tx_contents_found(2) [OF c(1,2)]
      by (simp add: dcm_measure_tx_def u64_id add.assoc)
  next
    case False
    have small: "od + length (pre @ pieces ser cmpd ts) < 2 ^ 64"
    proof -
      obtain p8 tail where "bv_ok v" "length p8 = od" "bv_bytes v = p8 @ (pre @ pieces ser cmpd ts) @ tail"
        using ok by (auto simp: dcm_ok_def msg_is_def)
      then show ?thesis using bvs.bytes_small [of v] by simp
    qed
    then have "u64_sub offset (ds_offset d) = length (piece ser cmpd t)"
      using offset i(4) ts by (simp add: u64_sub_id)
    then show ?thesis using False i fits by (simp add: dcm_measure_tx_def u64_id piece_def add.assoc)
  qed
qed

lemma dcm_dispatch_tx_spec:
  assumes ok: "dcm_ok wft ser od v s cmpd sidf pre ts" and D: "D = pre @ sers ser ts" and sids: "sids = map sidf (filter cmpd ts)"
    and ts: "ts = dn @ cur @ t # rest" and m: "isb m v (pre @ pieces ser cmpd ts)"
    and inv: "disp_inv ends ser od D v sids s cmpd pre pool dn cur fins d"
    and idx: "ds_idx d \<le> idx" "idx \<le> ds_idx d + 1" "idx < pool"
  shows "\<exists>d' dn' cur' fins'. dcm_dispatch_tx (nxt m) s sids idx d = Inr d' \<and> ds_idx d' = idx \<and> dn' @ cur' = dn @ cur @ [t] \<and>
    disp_inv ends ser od D v sids s cmpd pre pool dn' cur' fins' d'"
proof -
  note i = inv [unfolded disp_inv_def]
  let ?p = "ds_idx d" let ?td = "ds_subs d ! ?p"
  have p: "?p < length (ds_subs d)" using i by linarith
  have t: "wft t" "receiver_has ser s cmpd sidf t" and msg: "msg_is od v (pre @ pieces ser cmpd ts)"
    using ok ts by (simp_all add: dcm_ok_def)
  have body: "pre @ pieces ser cmpd ts = (pre @ pieces ser cmpd (dn @ cur)) @ piece ser cmpd t @ pieces ser cmpd rest"
    by (simp add: ts)
  define off where "off = ds_offset d + length (piece ser cmpd t)"
  have first: "\<not> cmpd t \<longrightarrow> hd (ser t) \<noteq> BTC_SHORT_ID_INDICATOR" using t(2) by (simp add: receiver_has_def)
  obtain w where nx: "nxt m (ds_offset d) = Inr (off, cmpd t, w)" "ends w = (ds_offset d, off)"
    using nxt_at [OF m body t(1) first] i by (auto simp: off_def)
  note ms = dcm_measure_tx_at [OF ok sids ts inv off_def]
  define out_off where "out_off = length (pre @ sers ser (dn @ cur @ [t]))"
  define td where "td = ?td\<lparr>dd_sids_len := length (filter cmpd (cur @ [t])), dd_offsets := dd_offsets ?td @ [w]\<rparr>"
  have sp: "map ends (dd_offsets td) = bx_spans ser cmpd (od + length (pre @ pieces ser cmpd dn)) (cur @ [t])"
    using i by (simp add: td_def bx_spans_snoc nx(2) off_def add.assoc)
  have fits: "out_off \<le> length D" by (simp add: out_off_def D ts)
  show ?thesis
  proof (cases "?p < idx")
    case False
    then have idx': "idx = ?p" using idx(1) by simp
    define d' where "d' = d\<lparr>ds_idx := idx, ds_offset := off, ds_output_offset := out_off, ds_subs := (ds_subs d)[?p := td]\<rparr>"
    have run: "dcm_dispatch_tx (nxt m) s sids idx d = Inr d'"
      using nx(1) ms False by (simp add: dcm_dispatch_tx_def Let_def d'_def td_def out_off_def)
    have "\<exists>j < idx. dd_output_offset (ds_subs d' ! j) \<le> k \<and> k < fins j"
      if "length pre \<le> k" "k < length (pre @ sers ser dn)" for k
    proof -
      from that i obtain j where "j < ?p" "dd_output_offset (ds_subs d ! j) \<le> k" "k < fins j" by blast
      then show ?thesis by (intro exI [of _ j]) (simp add: idx' d'_def)
    qed
    then have "disp_inv ends ser od D v sids s cmpd pre pool dn (cur @ [t]) fins d'"
      using i p sp unfolding disp_inv_def
      by (simp add: d'_def idx' td_def out_off_def off_def)
    then show ?thesis using run by (intro exI [of _ d'] exI [of _ dn] exI [of _ "cur @ [t]"] exI [of _ fins]) (simp add: d'_def)
  next
    case True
    then have idx': "idx = Suc ?p" using idx(2) by simp
    define td' where "td' = td\<lparr>dd_output_offset := length (pre @ sers ser dn), dd_sids_offset := length (filter cmpd dn)\<rparr>"
    define dn' where "dn' = dn @ cur @ [t]"
    define fins' where "fins' = fins(?p := length (pre @ sers ser dn'))"
    define d' where "d' = d\<lparr>ds_idx := idx, ds_offset := off, ds_output_offset := out_off, ds_subs := (ds_subs d)[?p := td'],
      ds_out := ba_resize (ds_out d) out_off, ds_sids_offset := length (filter cmpd dn'), ds_prev_output_offset := out_off\<rparr>"
    have "dd_sids_len td' = length (filter cmpd (cur @ [t]))" by (simp add: td'_def td_def)
    moreover have "u64 (length (filter cmpd dn) + length (filter cmpd (cur @ [t]))) = length (filter cmpd dn')"
      using dcm_ok_sids [OF ok] by (subst u64_id) (auto simp: dn'_def ts)
    moreover have "\<not> ba_cap (ds_out d) < out_off" using fits i by linarith
    ultimately have "dcm_dispatch_tx (nxt m) s sids idx d = Inr d'"
      using nx(1) ms True i
      by (simp add: dcm_dispatch_tx_def Let_def dcm_extend_output_buffer_def d'_def td'_def td_def out_off_def)
    moreover have "dj_ok ends D v sids s (length (pre @ sers ser dn')) (dcm_start td')"
    proof -
      have "job_ok ends D v sids s (dd_offsets td) (length (pre @ sers ser dn)) (length (filter cmpd dn)) (length (pre @ sers ser (dn @ cur @ [t])))"
        by (rule job_ok_segment [OF ok D sids _ sp, of rest]) (simp add: ts)
      then show ?thesis by (simp add: dj_ok_def dcm_start_def td'_def dn'_def)
    qed
    ultimately have dj: "dcm_dispatch_tx (nxt m) s sids idx d = Inr d'" "dj_ok ends D v sids s (length (pre @ sers ser dn')) (dcm_start td')"
      by simp_all
    have jobs: "dj_ok ends D v sids s (fins' j) (dcm_start (ds_subs d' ! j))" if "j < idx" for j
      using that i dj(2) p idx' by (cases "j = ?p") (simp_all add: fins'_def d'_def)
    have cover: "\<exists>j < idx. dd_output_offset (ds_subs d' ! j) \<le> k \<and> k < fins' j"
      if k: "length pre \<le> k" "k < length (pre @ sers ser dn')" for k
    proof (cases "k < length (pre @ sers ser dn)")
      case True
      then obtain j where "j < ?p" "dd_output_offset (ds_subs d ! j) \<le> k" "k < fins j" using i k(1) by blast
      then show ?thesis by (intro exI [of _ j]) (simp add: idx' fins'_def d'_def)
    next
      case False
      then show ?thesis using k p by (intro exI [of _ ?p]) (simp add: idx' fins'_def d'_def td'_def)
    qed
    have "disp_inv ends ser od D v sids s cmpd pre pool dn' [] fins' d'"
      unfolding disp_inv_def using i idx(3) idx' p jobs cover fits
      by (simp add: d'_def dn'_def off_def out_off_def)
    then show ?thesis using dj(1)
      by (intro exI [of _ d'] exI [of _ dn'] exI [of _ "[]"] exI [of _ fins']) (simp add: d'_def dn'_def)
  qed
qed

lemma dcm_dispatch_loop_spec:
  assumes ok: "dcm_ok wft ser od v s cmpd sidf pre ts" and D: "D = pre @ sers ser ts" and sids: "sids = map sidf (filter cmpd ts)"
    and m: "isb m v (pre @ pieces ser cmpd ts)" and pool: "0 < pool"
    and ts: "ts = dn @ cur @ rest" and inv: "disp_inv ends ser od D v sids s cmpd pre pool dn cur fins d"
    and idx: "ds_idx d \<le> bulk_idx pool bulk (length (dn @ cur))" "bulk_idx pool bulk (length (dn @ cur)) \<le> ds_idx d + 1"
  shows "\<exists>d' dn' cur' fins'. dcm_dispatch_loop (nxt m) s sids pool bulk (length rest) (length (dn @ cur)) d = Inr d' \<and>
    dn' @ cur' = ts \<and> disp_inv ends ser od D v sids s cmpd pre pool dn' cur' fins' d'"
  using ts inv idx
proof (induction rest arbitrary: dn cur fins d)
  case (Cons t rest)
  obtain d1 dn1 cur1 fins1 where s1: "dcm_dispatch_tx (nxt m) s sids (bulk_idx pool bulk (length (dn @ cur))) d = Inr d1"
    "ds_idx d1 = bulk_idx pool bulk (length (dn @ cur))" "dn1 @ cur1 = dn @ cur @ [t]"
    "disp_inv ends ser od D v sids s cmpd pre pool dn1 cur1 fins1 d1"
    using dcm_dispatch_tx_spec [OF ok D sids Cons.prems(1) m Cons.prems(2-4) bulk_idx_less [OF pool]] by blast
  have len: "length (dn1 @ cur1) = length (dn @ cur) + 1" unfolding s1(3) by simp
  have ts1: "ts = dn1 @ cur1 @ rest"
  proof -
    have "ts = (dn @ cur @ [t]) @ rest" using Cons.prems(1) by simp
    then show ?thesis by (simp only: flip: s1(3)) simp
  qed
  obtain d' dn' cur' fins' where r: "dcm_dispatch_loop (nxt m) s sids pool bulk (length rest) (length (dn1 @ cur1)) d1 = Inr d'"
    "dn' @ cur' = ts" "disp_inv ends ser od D v sids s cmpd pre pool dn' cur' fins' d'"
    using Cons.IH [OF ts1 s1(4)] bulk_idx_step [of pool bulk "length (dn @ cur)"] unfolding len s1(2) by blast
  have "dcm_dispatch_loop (nxt m) s sids pool bulk (length (t # rest)) (length (dn @ cur)) d = Inr d'"
    using r(1) unfolding len by (simp only: length_Cons dcm_dispatch_loop.simps s1(1) rbind_simps)
  then show ?case using r(2,3) by blast
qed auto

lemma dcm_dispatch_spec:
  assumes ok: "dcm_ok wft ser od v s cmpd sidf pre ts" and D: "D = pre @ sers ser ts" and c: "dt_sids c = map sidf (filter cmpd ts)"
    "dt_tx_count c = length ts" "ba_wf (dt_out c)" "length D \<le> ba_cap (dt_out c)"
    and m: "isb m v (pre @ pieces ser cmpd ts)" and pool: "0 < pool"
  shows "\<exists>last c' fins. dcm_dispatch (nxt m) od s c (od + length pre) pool = Inr (last, c') \<and>
    fill_inv ends D v (dt_sids c) s fins (length pre) (dt_out c') (map dcm_start (take (last + 1) (dt_subs c'))) \<and>
    (\<exists>out subs. c' = c\<lparr>dt_out := out, dt_subs := subs\<rparr>)"
proof -
  let ?sids = "dt_sids c"
  define bulk where "bulk = max (length ts div pool) (max pool (dt_min_count c))"
  have lD: "length D < 2 ^ 64" using ok D by (simp add: dcm_ok_def)
  have small: "od + length pre < 2 ^ 64"
  proof -
    obtain p8 tail where "bv_ok v" "length p8 = od" "bv_bytes v = p8 @ (pre @ pieces ser cmpd ts) @ tail"
      using ok by (auto simp: dcm_ok_def msg_is_def)
    then show ?thesis using bvs.bytes_small [of v] by simp
  qed
  define d where "d = \<lparr>ds_subs = dcm_init_sub_tasks pool (dt_subs c), ds_out = dt_out c, ds_idx = 0, ds_offset = od + length pre,
    ds_sids_offset = 0, ds_output_offset = length pre, ds_prev_output_offset = length pre\<rparr>"
  have clean: "dd_sids_len (dcm_init_sub_tasks pool (dt_subs c) ! j) = 0 \<and> dd_offsets (dcm_init_sub_tasks pool (dt_subs c) ! j) = []"
    if "j < length (dcm_init_sub_tasks pool (dt_subs c))" for j
    using that by (auto simp: dcm_init_sub_tasks_def nth_append dcm_data_new_def dcm_data_clear_def)
  have lsubs: "pool \<le> length (dcm_init_sub_tasks pool (dt_subs c))" by (simp add: dcm_init_sub_tasks_def)
  have inv: "disp_inv ends ser od D v ?sids s cmpd pre pool [] [] (\<lambda>_. 0) d"
    using clean clean [OF less_le_trans [OF pool lsubs]] lsubs pool c(3,4) by (simp add: disp_inv_def d_def)
  obtain d' dn cur fins where r: "dcm_dispatch_loop (nxt m) s ?sids pool bulk (length ts) 0 d = Inr d'"
    "dn @ cur = ts" "disp_inv ends ser od D v ?sids s cmpd pre pool dn cur fins d'"
    using dcm_dispatch_loop_spec [OF ok D c(1) m pool _ inv, of ts bulk] by (auto simp: d_def)
  note i = r(3) [unfolded disp_inv_def]
  let ?p = "ds_idx d'"
  define td where "td = (ds_subs d' ! ?p)\<lparr>dd_output_offset := ds_prev_output_offset d', dd_sids_offset := ds_sids_offset d'\<rparr>"
  define c' where "c' = c\<lparr>dt_out := ba_resize (ds_out d') (length D), dt_subs := (ds_subs d')[?p := td]\<rparr>"
  have p: "?p < length (ds_subs d')" using i by linarith
  have oo: "ds_output_offset d' = length D" "\<not> ba_cap (ds_out d') < length D"
  proof -
    have "ds_output_offset d' = length (pre @ sers ser (dn @ cur))" "length D \<le> ba_cap (ds_out d')" using i by blast+
    then show "ds_output_offset d' = length D" "\<not> ba_cap (ds_out d') < length D" unfolding r(2) D by simp_all
  qed
  have "u64_sub (od + length pre) od = length pre" using small by (simp add: u64_sub_id)
  then have run: "dcm_dispatch (nxt m) od s c (od + length pre) pool = Inr (?p, c')"
    using r(1) oo c(2)
    by (simp add: dcm_dispatch_def Let_def dcm_extend_output_buffer_def c'_def td_def flip: bulk_def d_def)
  define fins' where "fins' = fins(?p := length D)"
  let ?jobs = "map dcm_start (take (?p + 1) (dt_subs c'))"
  have nth: "?jobs ! j = dcm_start (if j = ?p then td else ds_subs d' ! j)" if "j < ?p + 1" for j
    using that p by (simp add: c'_def nth_append)
  have last: "dj_ok ends D v ?sids s (length D) (dcm_start td)"
  proof -
    have "job_ok ends D v ?sids s (dd_offsets (ds_subs d' ! ?p)) (length (pre @ sers ser dn)) (length (filter cmpd dn)) (length (pre @ sers ser (dn @ cur)))"
      using i r(2) by (intro job_ok_segment [OF ok D c(1), of dn cur "[]"]) auto
    moreover have "length (pre @ sers ser (dn @ cur)) = length D" unfolding r(2) D by simp
    ultimately show ?thesis using i by (simp add: dj_ok_def dcm_start_def td_def)
  qed
  have "fill_inv ends D v ?sids s fins' (length pre) (dt_out c') ?jobs"
    unfolding fill_inv_def
  proof (intro conjI allI impI)
    show "ba_wf (dt_out c')" "ba_len (dt_out c') = length D" "length D < 2 ^ 64" using i lD by (simp_all add: c'_def)
  next
    fix j assume "j < length ?jobs"
    then have j: "j < ?p + 1" by simp
    show "dj_ok ends D v ?sids s (fins' j) (?jobs ! j)" unfolding nth [OF j]
      using j i last by (cases "j = ?p") (simp_all add: fins'_def)
  next
    fix k assume k: "k < length D"
    consider "k < length pre" | j where "j < ?p" "dd_output_offset (ds_subs d' ! j) \<le> k" "k < fins j" | "length (pre @ sers ser dn) \<le> k"
      using i by (meson not_less)
    then show "ba_bytes (dt_out c') ! k = D ! k \<or> k < length pre \<or> (\<exists>i < length ?jobs. dj_output_offset (?jobs ! i) \<le> k \<and> k < fins' i)"
    proof cases
      case 2
      have "?jobs ! j = dcm_start (ds_subs d' ! j)" using nth [of j] 2(1) by simp
      then show ?thesis using 2 p by (intro disjI2 exI [of _ j]) (simp add: dcm_start_def fins'_def c'_def)
    next
      case 3
      then show ?thesis using i k p nth [of ?p]
        by (intro disjI2 exI [of _ ?p]) (simp add: dcm_start_def td_def fins'_def c'_def)
    qed simp
  qed
  then show ?thesis using run by (intro exI [of _ ?p] exI [of _ c'] exI [of _ fins']) (auto simp: c'_def)
qed

lemma dcm_fill_spec:
  assumes v: "msg_is od v (pre @ post)" and D: "D = pre @ rest" and pre: "0 < length pre"
    and inv: "fill_inv ends D v (dt_sids c) s fins (length pre) (dt_out c) (map dcm_start (take (fin + 1) (dt_subs c)))"
  shows "\<exists>out. dcm_fill ends od s sched1 sched2 c v (od + length pre) fin = Inr (s, out) \<and> ba_wf out \<and> ba_bytes out = D"
proof -
  from v obtain p8 tail where bytes: "bv_ok v" "length p8 = od" "bv_bytes v = p8 @ (pre @ post) @ tail"
    by (auto simp: msg_is_def)
  have sz: "od + length pre \<le> bv_size v" "bv_wf v" using bytes length_bv_bytes [of v] by (simp_all add: bv_ok_def)
  have small: "od + length pre < 2 ^ 64" using bvs.bytes_small [OF bytes(1)] bytes by simp
  have sub: "u64_sub (od + length pre) od = length pre" using small by (simp add: u64_sub_id)
  obtain out1 jobs1 where r1: "dcm_run ends v (dt_sids c) sched1 (s, dt_out c, map dcm_start (take (fin + 1) (dt_subs c))) = Inr (s, out1, jobs1)"
    "fill_inv ends D v (dt_sids c) s fins (length pre) out1 jobs1"
    using dcm_run_inv [OF inv] by blast
  have o1: "ba_wf out1" "ba_len out1 = length D" "length D < 2 ^ 64" using r1(2) by (simp_all add: fill_inv_def)
  have sl: "slice od (length pre) (bv_bytes v) = slice 0 (length pre) D"
    using bytes(2,3) by (simp add: D slice_def)
  obtain out2 where o2: "ba_copy_from_buffer out1 v 0 od (length pre) = Inr (out2, 0 + length pre)" "ba_wf out2"
    "ba_len out2 = length D"
    "\<And>k. k < length D \<Longrightarrow> ba_bytes out2 ! k = (if 0 \<le> k \<and> k < 0 + length pre then D ! k else ba_bytes out1 ! k)"
    by (rule ba_copy_right [OF o1 sz(2) pre sz(1) _ sl]) (simp_all add: D)
  have inv2: "fill_inv ends D v (dt_sids c) s fins 0 out2 jobs1"
    using r1(2) o2(2-4) unfolding fill_inv_def by auto
  obtain out3 jobs3 where r3: "dcm_run ends v (dt_sids c) sched2 (s, out2, jobs1) = Inr (s, out3, jobs3)"
    "fill_inv ends D v (dt_sids c) s fins 0 out3 jobs3"
    using dcm_run_inv [OF inv2] by blast
  obtain out4 jobs4 where r4: "dcm_run ends v (dt_sids c) (dcm_rest jobs3) (s, out3, jobs3) = Inr (s, out4, jobs4)" "ba_wf out4" "ba_bytes out4 = D"
    using dcm_run_all [OF r3(2)] by blast
  have "dcm_fill ends od s sched1 sched2 c v (od + length pre) fin = Inr (s, out4)"
    using r1(1) o2(1) r3(1) r4(1) sub by (simp add: dcm_fill_def Let_def)
  then show ?thesis using r4(2,3) by auto
qed

end

end
