(* ===== verification/BtcDecompressionProps.thy ===== *)
theory BtcDecompressionProps
  imports BlockRestore BtcCompressionProps
begin

text \<open>
  The decompression task rebuilds the block: whatever the schedule of the sub-tasks, the output
  buffer holds the header followed by the transactions, and decompressing the output of the
  compression task gives back the block.

  The message of the Bitcoin tasks is a compressed format in the sense of theory \<open>BlockRestore\<close>.
\<close>

section \<open>Reading the compressed message\<close>

abbreviation receiver_ok :: "tx_service \<Rightarrow> (btc_tx \<Rightarrow> bool) \<Rightarrow> (btc_tx \<Rightarrow> sid) \<Rightarrow> btc_tx \<Rightarrow> bool" where
  "receiver_ok \<equiv> receiver_has ser_tx"

lemma msg_block_view:
  assumes "msg_is 8 v body" and "m = bx_block_message v (8 + length body)"
  shows "bv_ok (bxb_block m)" and "bv_bytes (bxb_block m) = body" and "bxb_view m = v"
proof -
  from assms(1) obtain p8 tail where v: "bv_ok v" "length p8 = 8" "bv_bytes v = p8 @ body @ tail"
    by (auto simp: msg_is_def)
  have sz: "8 + length body \<le> bv_size v" using v length_bv_bytes [of v] by (simp add: bv_ok_def)
  have "bv_size v < 2 ^ 64" using v(1) bv_size_less [of v] by (simp add: bv_ok_def)
  then have "u64_sub (8 + length body) 8 = length body" using sz by (simp add: u64_sub_id)
  then have m: "bxb_block m = bv_sub v (length body) 8" "bxb_view m = v"
    by (simp_all add: assms(2) bx_block_message_def offset_diff_def)
  show "bv_ok (bxb_block m)" "bv_bytes (bxb_block m) = body" "bxb_view m = v"
    using bv_wf_sub [of v 8 "length body"] v sz m by (simp_all add: bv_ok_def slice_middle)
qed

lemma bx_get_next_tx_offset_at:
  assumes v: "msg_is 8 v body" and m: "m = bx_block_message v (8 + length body)"
    and body: "body = pre @ tx_piece cmpd t @ post" and t: "wf_tx t" "\<not> cmpd t \<longrightarrow> hd (ser_tx t) \<noteq> BTC_SHORT_ID_INDICATOR"
  shows "\<exists>w. bx_get_next_tx_offset m (8 + length pre) =
    Inr (8 + length pre + length (tx_piece cmpd t), cmpd t, w)"
proof -
  from v obtain p8 tail where bytes: "bv_ok v" "length p8 = 8" "bv_bytes v = p8 @ body @ tail"
    by (auto simp: msg_is_def)
  note bv = msg_block_view [OF v m]
  have ne: "tx_piece cmpd t \<noteq> []" using length_ser_tx [OF t(1)] by (auto simp: piece_def)
  have eq: "bv_bytes v = (p8 @ pre) @ [hd (tx_piece cmpd t)] @ (tl (tx_piece cmpd t) @ post @ tail)"
    using bytes(3) body ne by simp
  have "bv_read v (length (p8 @ pre)) 1 = Inr [hd (tx_piece cmpd t)]"
    using bvs.rd_middle [OF bytes(1) eq] by simp
  then have sh: "is_short_transaction m (8 + length pre) = Inr (cmpd t)"
    using bytes(2) bv(3) t(2) by (simp add: is_short_transaction_def bv_index_def piece_def)
  have small: "8 + length body < 2 ^ 64" using bvs.bytes_small [OF bytes(1)] bytes by simp
  show ?thesis
  proof (cases "cmpd t")
    case True
    then show ?thesis using sh small body by (simp add: bx_get_next_tx_offset_def piece_def u64_id)
  next
    case False
    then have eq: "bv_bytes (bxb_block m) = pre @ ser_tx t @ post" using bv(2) body by (simp add: piece_def)
    have "u64_sub (8 + length pre) 8 = length pre" using small body by (simp add: u64_sub_id)
    moreover have "u64 (length pre + length (ser_tx t) + 8) = 8 + length pre + length (ser_tx t)"
      using small body False by (simp add: u64_id piece_def)
    ultimately show ?thesis
      using sh bvs.get_next_tx_offset_at [OF bv(1) t(1) eq] False
      by (simp add: bx_get_next_tx_offset_def offset_diff_def piece_def)
  qed
qed

definition is_bx_block :: "bx_btc_block \<Rightarrow> buffer_view \<Rightarrow> byte list \<Rightarrow> bool" where
  "is_bx_block m v body \<longleftrightarrow> msg_is 8 v body \<and> m = bx_block_message v (8 + length body)"

interpretation btc_bx: bx_format ser_tx wf_tx 8 dcm_span is_bx_block dcm_next
proof (unfold_locales, goal_cases)
  case (1 t)
  then show ?case using length_ser_tx [of t] by simp
next
  case (2 m v blk pre cmpd t post)
  then obtain w where "bx_get_next_tx_offset m (8 + length pre) = Inr (8 + length pre + length (tx_piece cmpd t), cmpd t, w)"
    using bx_get_next_tx_offset_at [of v blk m pre cmpd t post] by (auto simp: is_bx_block_def)
  then show ?case by (simp add: dcm_next_def)
qed

section \<open>The decompressed block\<close>

lemma get_original_block_size_at:
  assumes "msg_is 8 v (hdr @ rest)" and "length hdr = 104"
  shows "get_original_block_size v = Inr (u32 (le_val (slice 16 4 hdr) + 24))"
proof -
  from assms(1) obtain p8 tail where v: "bv_ok v" "length p8 = 8" "bv_bytes v = p8 @ (hdr @ rest) @ tail"
    by (auto simp: msg_is_def)
  have "slice 24 4 (bv_bytes v) = slice 16 4 hdr"
    using v(2,3) assms(2) by (simp add: slice_append_right slice_append_left)
  then show ?thesis
    using bvs.get_le_inside [OF v(1), of 4 24] v(2,3) assms(2)
    by (simp add: get_original_block_size_def offset_diff_def btc_consts)
qed

lemma dcm_parse_block_header_at:
  assumes v: "bv_ok v" "bv_bytes v = bx_encode (hdr @ vi @ rest) sids" and hdr: "length hdr = 104" and vi: "wf_vi vi"
    and sids: "list_all (\<lambda>i. i < 2 ^ 32) sids" "length sids < 2 ^ 32"
  shows "dcm_parse_block_header c v =
    Inr (bx_block_message v (8 + length (hdr @ vi @ rest)), 8 + length (hdr @ vi), c\<lparr>dt_tx_count := vi_val vi, dt_sids := sids\<rparr>)"
proof -
  let ?body = "hdr @ vi @ rest" let ?m = "bx_block_message v (8 + length ?body)"
  note ms = msg_is_encode [OF v]
  note bl = msg_block_view [OF ms(1) refl]
  have "get_varint (bv_read (bxb_block ?m)) 104 = Inr (vi_val vi, length (hdr @ vi))"
    using bvs.get_varint_at [OF bl(1), of hdr vi rest] bl(2) hdr vi by simp
  moreover have "u64 (8 + length (hdr @ vi)) = 8 + length (hdr @ vi)"
    using bvs.bytes_small [OF v(1)] v(2) by (simp add: u64_id bx_encode_def)
  ultimately have "bx_get_tx_count ?m = Inr (vi_val vi, 8 + length (hdr @ vi))"
    by (simp add: bx_get_tx_count_def get_tx_count_def btc_consts offset_diff_def)
  moreover have "deserialize_short_ids ?m = Inr sids"
  proof (rule deserialize_short_ids_at)
    show "bv_ok (bxb_view ?m)" using v(1) bl(3) by simp
    show "bv_bytes (bxb_view ?m) = (le_bytes 8 (8 + length ?body) @ ?body) @ le_bytes 4 (length sids) @ concat (map (le_bytes 4) sids)"
      using v(2) bl(3) by (simp add: bx_encode_def)
    show "bxb_sids_offset ?m = length (le_bytes 8 (8 + length ?body) @ ?body)" by (simp add: bx_block_message_def)
  qed (use sids in auto)
  ultimately show ?thesis using ms(2) by (simp add: dcm_parse_block_header_def Let_def)
qed

definition length_field_ok :: "byte list \<Rightarrow> byte list \<Rightarrow> btc_tx list \<Rightarrow> bool" where
  \<comment> \<open>the length in the message header is that of the payload\<close>
  "length_field_ok hdr vi ts \<longleftrightarrow>
     le_val (slice 16 4 hdr) + 24 = length (btc_block hdr vi ts) \<and> length (btc_block hdr vi ts) < 2 ^ 32"

lemma dcm_init_spec:
  assumes v: "msg_is 8 v (hdr @ rest)" and hdr: "length hdr = 104"
    and len: "le_val (slice 16 4 hdr) + 24 = n" "n < 2 ^ 32" and c: "ba_wf (dt_out c)" "ba_cap (dt_out c) < 2 ^ 32"
  obtains out where "dcm_init shared c v = Inr (c\<lparr>dt_out := out, dt_unknown_hashes := [], dt_unknown_sids := [],
      dt_hash := None, dt_sids := [], dt_tx_count := 0\<rparr>)" and "ba_wf out" and "n \<le> ba_cap out" and "ba_len out = 0"
proof -
  have n: "get_original_block_size v = Inr n" using get_original_block_size_at [OF v hdr] len by (simp add: u32_id)
  obtain out where "(if shared then Inr (ba_with_capacity (u32 (max n (ba_cap (dt_out c)))))
      else ba_reset (ba_reserve (dt_out c) (u32 (max n (ba_cap (dt_out c)))))) = Inr out"
    "ba_wf out" "n \<le> ba_cap out" "ba_len out = 0"
    by (rule dcm_init_out [OF c len(2)])
  then show thesis using that [of out] n by (simp add: dcm_init_def Let_def)
qed

lemma dcm_block_spec:
  assumes H: "\<And>bs. length (H bs) = 32" and pool: "0 < pool" and c: "ba_wf (dt_out c)" "ba_cap (dt_out c) < 2 ^ 32"
    and b: "wf_block hdr vi ts" "length_field_ok hdr vi ts" and r: "list_all (receiver_ok s cmpd sidf) ts"
    and sids: "list_all (\<lambda>t. cmpd t \<longrightarrow> sidf t < 2 ^ 32) ts"
    and v: "bv_ok v" "bv_bytes v = bx_encode (hdr @ vi @ txs_pieces cmpd ts) (map sidf (filter cmpd ts))"
  shows "\<exists>c'. dcm_block H s pool sched1 sched2 shared c v = Inr (s, c') \<and> dt_success c' \<and>
    ba_bytes (dt_out c') = btc_block hdr vi ts \<and> dt_tx_count c' = length ts \<and>
    dt_hash c' = Some (sha_of_binary (rev (H (H (slice 24 80 hdr))))) \<and>
    dt_sids c' = map sidf (filter cmpd ts) \<and> dt_unknown_hashes c' = [] \<and> dt_unknown_sids c' = []"
proof -
  let ?pre = "hdr @ vi" and ?sids = "map sidf (filter cmpd ts)" and ?D = "btc_block hdr vi ts"
  let ?body = "hdr @ vi @ txs_pieces cmpd ts"
  have hdr: "length hdr = 104" "wf_vi vi" "vi_val vi = length ts" "list_all wf_tx ts" "length ts < 2 ^ 32"
    using b(1) by (simp_all add: wf_block_def)
  note ms = msg_is_encode [OF v]
  obtain out0 where i0: "dcm_init shared c v = Inr (c\<lparr>dt_out := out0, dt_unknown_hashes := [], dt_unknown_sids := [],
      dt_hash := None, dt_sids := [], dt_tx_count := 0\<rparr>)" "ba_wf out0" "length ?D \<le> ba_cap out0"
    using dcm_init_spec [OF ms(1) hdr(1) _ _ c] b(2) unfolding length_field_ok_def by blast
  have ls: "list_all (\<lambda>i. i < 2 ^ 32) ?sids" "length ?sids < 2 ^ 32"
    using sids le_less_trans [OF length_filter_le hdr(5), of cmpd] by (auto simp: list_all_iff)
  define m where "m = bx_block_message v (8 + length ?body)"
  define c1 where "c1 = c\<lparr>dt_out := out0, dt_tx_count := length ts, dt_sids := ?sids, dt_success := True,
      dt_unknown_hashes := [], dt_unknown_sids := [], dt_hash := Some (sha_of_binary (rev (H (H (slice 24 80 hdr)))))\<rparr>"
  note bl = msg_block_view [OF ms(1) m_def]
  have "slice 24 80 ?body = slice 24 80 hdr" using hdr(1) by (simp add: slice_append_left)
  then have hash: "generate_block_hash H (bxb_block m) = Inr (sha_of_binary (rev (H (H (slice 24 80 hdr)))))"
    using double_sha256_inside [OF bl(1) _ H, of 24 80] bl hdr(1) length_bv_bytes [of "bxb_block m"]
    by (simp add: generate_block_hash_def btc_consts bv_ok_def sha_reverse_def)
  have ok: "dcm_ok wf_tx ser_tx 8 v s cmpd sidf ?pre ts"
    using ms(1) hdr(4,5) r b(2) by (simp add: dcm_ok_def length_field_ok_def btc_block_def)
  have D: "?D = ?pre @ ser_txs ts" by (simp add: btc_block_def)
  have c1: "dt_sids c1 = ?sids" "dt_tx_count c1 = length ts" "ba_wf (dt_out c1)" "length ?D \<le> ba_cap (dt_out c1)"
    using i0(2,3) by (simp_all add: c1_def)
  have m: "is_bx_block m v (?pre @ txs_pieces cmpd ts)" using ms(1) by (simp add: m_def is_bx_block_def)
  obtain fin c2 fins where d: "dcm_dispatch (dcm_next m) 8 s c1 (8 + length ?pre) pool = Inr (fin, c2)"
    "fill_inv dcm_span ?D v (dt_sids c1) s fins (length ?pre) (dt_out c2) (map dcm_start (take (fin + 1) (dt_subs c2)))"
    "\<exists>out subs. c2 = c1\<lparr>dt_out := out, dt_subs := subs\<rparr>"
    using btc_bx.dcm_dispatch_spec [OF ok D c1 m pool] by blast
  have "dt_sids c2 = dt_sids c1" using d(3) by auto
  then obtain out where f: "dcm_fill dcm_span 8 s sched1 sched2 c2 v (8 + length ?pre) fin = Inr (s, out)" "ba_bytes out = ?D"
    using btc_bx.dcm_fill_spec [of v ?pre "txs_pieces cmpd ts" ?D "ser_txs ts" c2 s fins fin] ms(1) d(2) hdr(1) D by auto
  have "dcm_block H s pool sched1 sched2 shared c v = Inr (s, c2\<lparr>dt_out := ba_set_output out\<rparr>)"
    using i0(1) dcm_parse_block_header_at [OF v hdr(1,2) ls, folded m_def] get_missing_none [OF r] hash d(1) f(1) hdr(3)
    by (simp add: dcm_block_def dcm_execute_def c1_def offset_diff_def)
  then show ?thesis using d(3) f(2) by (auto simp: c1_def)
qed

section \<open>Properties\<close>

text \<open>
  C6: decompression of a well-formed compressed block whose short ids the receiver can resolve
  rebuilds the block exactly, for every pool size, whatever the task was used for before, and for
  every interleaving of the steps of the sub-tasks and of the copy of the block header.
\<close>

theorem btc_decompression_restores_block:
  assumes "\<And>bs. length (H bs) = 32" and "0 < pool" and "ba_wf (dt_out c)" and "ba_cap (dt_out c) < 2 ^ 32"
    and "wf_block hdr vi ts" and "length_field_ok hdr vi ts" and "list_all (receiver_ok s cmpd sidf) ts"
    and "list_all (\<lambda>t. cmpd t \<longrightarrow> sidf t < 2 ^ 32) ts" and "bv_ok v"
    and "bv_bytes v = bx_encode (hdr @ vi @ txs_pieces cmpd ts) (map sidf (filter cmpd ts))"
  shows "\<exists>c'. dcm_block H s pool sched1 sched2 shared c v = Inr (s, c') \<and> dt_success c' \<and>
    ba_bytes (dt_out c') = btc_block hdr vi ts \<and> dt_tx_count c' = length ts \<and>
    dt_hash c' = Some (sha_of_binary (rev (H (H (slice 24 80 hdr))))) \<and>
    dt_sids c' = map sidf (filter cmpd ts) \<and> dt_unknown_hashes c' = [] \<and> dt_unknown_sids c' = []"
  using assms by (rule dcm_block_spec)

definition demo_receiver :: tx_service where
  "demo_receiver = demo_sender\<lparr>ts_contents := mw_emplace contents_size (ts_contents demo_sender)
     (tx_hash demo_H (demo_tx 1)) (Some (bv_msg (ser_tx (demo_tx 1))))\<rparr>"

lemma demo_receiver_ok:
  "list_all (receiver_ok demo_receiver (\<lambda>t. t = demo_tx 1) (\<lambda>_. 7)) [demo_tx 1, demo_tx 2]"
proof -
  have n: "(7 :: nat) \<noteq> NULL_TX_SID" "ts_hash (ts_new 1 10 6 2 1) 7 = None" by (simp_all add: NULL_TX_SID_def ts_new_def)
  have "ts_hash demo_receiver 7 = Some (tx_hash demo_H (demo_tx 1))"
    by (simp add: demo_receiver_def demo_sender_facts)
  moreover have "mw_find (ts_contents demo_receiver) (tx_hash demo_H (demo_tx 1)) = Some (Some (bv_msg (ser_tx (demo_tx 1))))"
    by (simp add: demo_receiver_def demo_sender_facts ts_new_def mw_find_def mw_emplace_def mw_new_def)
  moreover have "demo_tx 1 \<noteq> demo_tx 2" by (simp add: demo_tx_def)
  ultimately show ?thesis using n(1)
    by (simp add: receiver_has_def demo_tx_ser BTC_SHORT_ID_INDICATOR_def)
qed

theorem btc_decompression_restores_block_witness:
  "\<exists>c'. dcm_block demo_H demo_receiver 2 [1, 0] [1] False (dcm_task_new 1000 1)
      (bv_msg (bx_encode (demo_hdr @ [2] @ [0xff] @ ser_tx (demo_tx 2)) [7])) = Inr (demo_receiver, c') \<and>
    ba_bytes (dt_out c') = btc_block demo_hdr [2] [demo_tx 1, demo_tx 2]"
proof -
  let ?v = "bv_msg (bx_encode (demo_hdr @ [2] @ [0xff] @ ser_tx (demo_tx 2)) [7])"
  let ?cmpd = "\<lambda>t. t = demo_tx 1"
  have "demo_tx 1 \<noteq> demo_tx 2" by (simp add: demo_tx_def)
  then have bytes: "bv_bytes ?v = bx_encode (demo_hdr @ [2] @ txs_pieces ?cmpd [demo_tx 1, demo_tx 2])
      (map (\<lambda>_. 7) (filter ?cmpd [demo_tx 1, demo_tx 2]))"
    by (auto simp: pieces_def piece_def BTC_SHORT_ID_INDICATOR_def)
  have v: "bv_ok ?v" by (simp add: bx_encode_def demo_hdr_def demo_tx_ser)
  have len: "length_field_ok demo_hdr [2] [demo_tx 1, demo_tx 2]"
    by (simp add: length_field_ok_def demo_hdr_def slice_def btc_block_def demo_tx_ser)
  have c: "ba_wf (dt_out (dcm_task_new 1000 1))" "ba_cap (dt_out (dcm_task_new 1000 1)) < 2 ^ 32"
    by (simp add: dcm_task_new_def, simp add: dcm_task_new_def ba_with_capacity_def)
  have "list_all (\<lambda>t. ?cmpd t \<longrightarrow> (7 :: nat) < 2 ^ 32) [demo_tx 1, demo_tx 2]" by simp
  from btc_decompression_restores_block [where H = demo_H and pool = 2 and ?sched1.0 = "[1, 0]" and ?sched2.0 = "[1]" and shared = False,
      OF length_demo_H _ c demo_block_facts(1) len demo_receiver_ok this v bytes]
  show ?thesis by auto
qed

text \<open>
  C17: when the receiver lacks a transaction of the block, decompression does not fail but reports it:
  the task does not succeed, names exactly the short ids it does not know and the hashes whose
  contents it does not have, gives the block hash, and writes no output.
\<close>

theorem btc_decompression_reports_missing:
  assumes H: "\<And>bs. length (H bs) = 32" and c: "ba_wf (dt_out c)" "ba_cap (dt_out c) < 2 ^ 32"
    and hdr: "length hdr = 104" "wf_vi vi" "le_val (slice 16 4 hdr) + 24 < 2 ^ 32"
    and sids: "list_all (\<lambda>i. i < 2 ^ 32) sids" "length sids < 2 ^ 32"
    and v: "bv_ok v" "bv_bytes v = bx_encode (hdr @ vi @ rest) sids"
    and missing: "i \<in> set sids" "ts_hash s i = None \<or> ts_hash s i = Some h \<and> \<not> has_transaction_contents s h"
  shows "\<exists>c'. dcm_block H s pool sched1 sched2 shared c v = Inr (s, c') \<and> \<not> dt_success c' \<and>
    dt_unknown_sids c' = filter (\<lambda>i. i = NULL_TX_SID \<or> ts_hash s i = None) sids \<and>
    dt_unknown_hashes c' = map (\<lambda>i. the (ts_hash s i))
      (filter (\<lambda>i. i \<noteq> NULL_TX_SID \<and> (\<exists>h. ts_hash s i = Some h \<and> \<not> has_transaction_contents s h)) sids) \<and>
    dt_hash c' = Some (sha_of_binary (rev (H (H (slice 24 80 hdr))))) \<and> ba_bytes (dt_out c') = []"
proof -
  note ms = msg_is_encode [OF v]
  obtain out0 where i0: "dcm_init shared c v = Inr (c\<lparr>dt_out := out0, dt_unknown_hashes := [], dt_unknown_sids := [],
      dt_hash := None, dt_sids := [], dt_tx_count := 0\<rparr>)" "ba_len out0 = 0"
    using dcm_init_spec [OF ms(1) hdr(1) refl hdr(3) c] by blast
  define m where "m = bx_block_message v (8 + length (hdr @ vi @ rest))"
  note bl = msg_block_view [OF ms(1) m_def]
  have "slice 24 80 (hdr @ vi @ rest) = slice 24 80 hdr" using hdr(1) by (simp add: slice_append_left)
  then have hash: "generate_block_hash H (bxb_block m) = Inr (sha_of_binary (rev (H (H (slice 24 80 hdr)))))"
    using double_sha256_inside [OF bl(1) _ H, of 24 80] bl hdr(1) length_bv_bytes [of "bxb_block m"]
    by (simp add: generate_block_hash_def btc_consts bv_ok_def sha_reverse_def)
  have gm: "get_missing_transactions s sids = (False,
      map (\<lambda>i. the (ts_hash s i)) (filter (\<lambda>i. i \<noteq> NULL_TX_SID \<and> (\<exists>h. ts_hash s i = Some h \<and> \<not> has_transaction_contents s h)) sids),
      filter (\<lambda>i. i = NULL_TX_SID \<or> ts_hash s i = None) sids)"
    unfolding get_missing_transactions_def fold_missing_step using missing by (auto intro!: bexI [of _ i])
  show ?thesis
    using i0 dcm_parse_block_header_at [OF v hdr(1,2) sids, folded m_def] hash
    by (simp add: dcm_block_def dcm_execute_def gm ba_bytes_def)
qed

theorem btc_decompression_reports_missing_witness:
  "\<exists>c'. dcm_block demo_H demo_sender 2 [] [] False (dcm_task_new 1000 1)
      (bv_msg (bx_encode (demo_hdr @ [2] @ [0xff] @ ser_tx (demo_tx 2)) [7])) = Inr (demo_sender, c') \<and>
    \<not> dt_success c' \<and> dt_unknown_hashes c' = [tx_hash demo_H (demo_tx 1)] \<and> ba_bytes (dt_out c') = []"
proof -
  let ?v = "bv_msg (bx_encode (demo_hdr @ [2] @ [0xff] @ ser_tx (demo_tx 2)) [7])"
  have n: "(7 :: nat) \<noteq> NULL_TX_SID" "ts_hash (ts_new 1 10 6 2 1) 7 = None" by (simp_all add: NULL_TX_SID_def ts_new_def)
  have h: "ts_hash demo_sender 7 = Some (tx_hash demo_H (demo_tx 1))" by (simp add: demo_sender_facts)
  have nc: "\<not> has_transaction_contents demo_sender (tx_hash demo_H (demo_tx 1))"
    by (simp add: demo_sender_facts ts_new_def has_transaction_contents_def mw_find_def)
  have v: "bv_ok ?v" by (simp add: bx_encode_def demo_hdr_def demo_tx_ser)
  have hdr: "length demo_hdr = 104" "wf_vi [2]" "le_val (slice 16 4 demo_hdr) + 24 < 2 ^ 32"
    by (simp_all add: demo_hdr_def wf_vi_def btc_consts slice_def)
  have c: "ba_wf (dt_out (dcm_task_new 1000 1))" "ba_cap (dt_out (dcm_task_new 1000 1)) < 2 ^ 32"
    by (simp add: dcm_task_new_def, simp add: dcm_task_new_def ba_with_capacity_def)
  from btc_decompression_reports_missing [where H = demo_H and pool = 2 and ?sched1.0 = "[]" and ?sched2.0 = "[]" and shared = False
      and s = demo_sender and h = "tx_hash demo_H (demo_tx 1)" and i = 7, OF length_demo_H c hdr _ _ v bv_msg_simps(4)]
  show ?thesis using h nc n(1) by auto
qed

lemma dcm_block_indicator_byte:
  assumes H: "\<And>bs. length (H bs) = 32" and pool: "0 < pool" and c: "ba_wf (dt_out c)" "ba_cap (dt_out c) < 2 ^ 32"
    and b: "wf_block hdr vi (t # ts)" "length_field_ok hdr vi (t # ts)" and t: "hd (ser_tx t) = BTC_SHORT_ID_INDICATOR"
    and v: "bv_ok v" "bv_bytes v = bx_encode (btc_block hdr vi (t # ts)) []"
  shows "dcm_block H s pool sched1 sched2 shared c v = Inl RuntimeError"
proof -
  let ?body = "hdr @ vi @ ser_txs (t # ts)"
  have hdr: "length hdr = 104" "wf_vi vi" "vi_val vi = length (t # ts)" "wf_tx t" using b(1) by (simp_all add: wf_block_def)
  have v2: "bv_bytes v = bx_encode ?body []" using v(2) by (simp add: btc_block_def)
  note ms = msg_is_encode [OF v(1) v2]
  obtain out0 where i0: "dcm_init shared c v = Inr (c\<lparr>dt_out := out0, dt_unknown_hashes := [], dt_unknown_sids := [],
      dt_hash := None, dt_sids := [], dt_tx_count := 0\<rparr>)"
    using dcm_init_spec [OF ms(1) hdr(1) _ _ c] b(2) unfolding length_field_ok_def by blast
  define m where "m = bx_block_message v (8 + length ?body)"
  note bl = msg_block_view [OF ms(1) m_def]
  have hash: "\<exists>h. generate_block_hash H (bxb_block m) = Inr h"
    using double_sha256_inside [OF bl(1) _ H, of 24 80] bl hdr(1) length_bv_bytes [of "bxb_block m"]
    by (simp add: generate_block_hash_def btc_consts bv_ok_def)
  have ne: "ser_tx t \<noteq> []" using length_ser_tx [OF hdr(4)] by auto
  have eq: "bv_bytes v = (le_bytes 8 (8 + length ?body) @ hdr @ vi) @ [hd (ser_tx t)] @
      (tl (ser_tx t) @ ser_txs ts @ le_bytes 4 0)"
    using v2 ne by (simp add: bx_encode_def)
  have "bv_read v (8 + length (hdr @ vi)) 1 = Inr [BTC_SHORT_ID_INDICATOR]"
    using bvs.rd_middle [OF v(1) eq] t by (simp add: add.assoc)
  then have short: "is_short_transaction m (8 + length (hdr @ vi)) = Inr True"
    using bl(3) by (simp add: is_short_transaction_def bv_index_def)
  have disp: "dcm_dispatch (dcm_next m) offset_diff s c' (8 + length (hdr @ vi)) pool = Inl RuntimeError"
    if "dt_sids c' = []" "dt_tx_count c' = Suc (length ts)" for c'
    using that short by (simp add: dcm_dispatch_def Let_def dcm_dispatch_tx_def dcm_next_def bx_get_next_tx_offset_def dcm_measure_tx_def)
  show ?thesis
    using i0 hash dcm_parse_block_header_at [OF v(1) v2 hdr(1,2), folded m_def] hdr(3) disp
    by (auto simp: dcm_block_def dcm_execute_def get_missing_transactions_def)
qed

end
