(* ===== verification/EthDecompressionProps.thy ===== *)
theory EthDecompressionProps
  imports EthDecompression EthCompressionProps BtcDecompressionProps
begin

text \<open>
  The Ethereum decompression task rebuilds the block under every schedule of its sub-tasks, provided
  that every sub-task object the block does not need has completed some earlier run; otherwise the
  task never ends.
\<close>

definition eth_receiver_ok :: "tx_service \<Rightarrow> (rlp_value \<Rightarrow> bool) \<Rightarrow> (rlp_value \<Rightarrow> sid) \<Rightarrow> rlp_value \<Rightarrow> bool" where
  \<comment> \<open>the receiver has the transaction behind the short id, as it stands in the block\<close>
  "eth_receiver_ok s cmpd sidf t \<longleftrightarrow>
     (cmpd t \<longrightarrow> sidf t \<noteq> NULL_TX_SID \<and> sidf t < 2 ^ 32 \<and>
        (\<exists>h c. ts_hash s (sidf t) = Some h \<and> mw_find (ts_contents s) h = Some (Some c) \<and> bv_ok c \<and> bv_bytes c = enc_value t))"

section \<open>The concurrent phase\<close>

fun ejob_ok ::
  "byte list \<Rightarrow> buffer_view \<Rightarrow> sid list \<Rightarrow> tx_service \<Rightarrow> (nat \<times> bool \<times> nat) list \<Rightarrow> nat \<Rightarrow> nat \<Rightarrow> nat \<Rightarrow> bool" where
  \<comment> \<open>from \<open>pos\<close> on, the offsets stand for the bytes of \<open>D\<close> up to \<open>fin\<close>\<close>
  "ejob_ok D v sids s [] pos k fin \<longleftrightarrow> pos = fin"
| "ejob_ok D v sids s ((co, is_short, len) # offs) pos k fin \<longleftrightarrow>
     (if is_short then
        k < length sids \<and> length sids < 2 ^ 64 \<and>
        (\<exists>h c. ts_hash s (sids ! k) = Some h \<and> mw_find (ts_contents s) h = Some (Some c) \<and> bv_ok c \<and> 0 < bv_size c \<and>
           pos + bv_size c \<le> length D \<and> slice pos (bv_size c) D = bv_bytes c \<and> ejob_ok D v sids s offs (pos + bv_size c) (k + 1) fin)
      else
        0 < len \<and> bv_ok v \<and> co + len \<le> bv_size v \<and> pos + len \<le> length D \<and>
        slice pos len D = slice co len (bv_bytes v) \<and> ejob_ok D v sids s offs (pos + len) k fin)"

definition ej_ok :: "byte list \<Rightarrow> buffer_view \<Rightarrow> sid list \<Rightarrow> tx_service \<Rightarrow> nat \<Rightarrow> eth_job \<Rightarrow> bool" where
  "ej_ok D v sids s fin j \<longleftrightarrow> ejob_ok D v sids s (ej_offsets j) (ej_output_offset j) (ej_sid_idx j) fin"

definition cap_good :: "byte list \<Rightarrow> byte_array \<Rightarrow> bool" where
  "cap_good D out \<longleftrightarrow> ba_tight out \<and> length D \<le> ba_cap out \<and> length D < 2 ^ 64"

lemma wrote_nth:
  assumes w: "wrote b off ys b'" and k: "k < length (ba_arr b)"
  shows "ba_arr b' ! k = (if off \<le> k \<and> k < off + length ys then ys ! (k - off) else ba_arr b ! k)"
proof (cases "off \<le> k \<and> k < off + length ys")
  case True
  then have "ys = slice off (length ys) (ba_arr b')" using wrote_holds [OF w] by (simp add: holds_def)
  moreover have "slice off (length ys) (ba_arr b') ! (k - off) = ba_arr b' ! k"
    using True k w by (subst nth_slice) (auto simp: wrote_def)
  ultimately show ?thesis using True by simp
next
  case False
  have "length (ba_arr b) \<le> length (ba_arr b')" using w by (simp add: wrote_def)
  moreover have "slice k 1 (ba_arr b') = slice k 1 (ba_arr b)" using w k False unfolding wrote_def by auto
  ultimately have "slice k 1 (ba_arr b') ! 0 = slice k 1 (ba_arr b) ! 0" by simp
  then show ?thesis using False k \<open>length (ba_arr b) \<le> length (ba_arr b')\<close> by (auto simp: nth_slice)
qed

lemma eth_copy_right:
  assumes g: "cap_good D out" and c: "bv_wf c" "0 < n" "from + n \<le> bv_size c"
    and D: "pos + n \<le> length D" "slice pos n D = slice from n (bv_bytes c)"
  shows "\<exists>out'. ba_copy_from_buffer out c pos from n = Inr (out', pos + n) \<and> cap_good D out' \<and>
    (\<forall>k < length D. ba_arr out' ! k = (if pos \<le> k \<and> k < pos + n then D ! k else ba_arr out ! k))"
proof -
  have o: "ba_tight out" "length D \<le> ba_cap out" "length D < 2 ^ 64" using g by (simp_all add: cap_good_def)
  have "pos + n < 2 ^ 64" using D o(3) by simp
  then obtain o1 where o1: "ba_copy_from_buffer out c pos from n = Inr (o1, pos + n)" "wrote out pos (slice pos n D) o1"
    using wrote_copy_from_buffer [OF o(1) c, of pos] D by auto
  have arr: "length D \<le> length (ba_arr out)" using o by (simp add: ba_tight_def ba_wf_def)
  have "ba_arr o1 ! k = (if pos \<le> k \<and> k < pos + n then D ! k else ba_arr out ! k)" if "k < length D" for k
    using wrote_nth [OF o1(2), of k] that arr D(1) by (auto simp: nth_slice min_absorb1)
  then show ?thesis using o1 o by (auto simp: cap_good_def wrote_def)
qed

lemma eth_job_step_ok:
  assumes ok: "ej_ok D v sids s fin j" and g: "cap_good D out"
  shows "\<exists>out' j'. eth_job_step v sids s out j = Inr (s, out', j') \<and> ej_ok D v sids s fin j' \<and> cap_good D out' \<and>
    eth_todo j' = eth_todo j - 1 \<and>
    (\<forall>k < length D. ba_arr out' ! k = (if ej_output_offset j \<le> k \<and> k < ej_output_offset j' then D ! k else ba_arr out ! k))"
proof (cases "ej_offsets j")
  case Nil
  then show ?thesis using assms by (intro exI [of _ out] exI [of _ j]) (auto simp: eth_job_step_def eth_todo_def)
next
  case (Cons off offs)
  obtain co sh len where off: "off = (co, sh, len)" by (cases off) auto
  let ?pos = "ej_output_offset j"
  show ?thesis
  proof (cases sh)
    case False
    then have j: "0 < len" "bv_ok v" "co + len \<le> bv_size v" "?pos + len \<le> length D" "slice ?pos len D = slice co len (bv_bytes v)"
      "ejob_ok D v sids s offs (?pos + len) (ej_sid_idx j) fin"
      using ok by (auto simp: ej_ok_def Cons off)
    obtain out' where o: "ba_copy_from_buffer out v ?pos co len = Inr (out', ?pos + len)" "cap_good D out'"
      "\<forall>k < length D. ba_arr out' ! k = (if ?pos \<le> k \<and> k < ?pos + len then D ! k else ba_arr out ! k)"
      using eth_copy_right [OF g _ j(1,3,4,5)] j(2) by (auto simp: bv_ok_def)
    then show ?thesis using False j(1,6) Cons off
      by (intro exI [of _ out'] exI [of _ "j\<lparr>ej_output_offset := ?pos + len, ej_offsets := offs\<rparr>"])
        (simp add: eth_job_step_def ej_ok_def eth_todo_def)
  next
    case True
    obtain h c where c: "ej_sid_idx j < length sids" "length sids < 2 ^ 64" "ts_hash s (sids ! ej_sid_idx j) = Some h"
      "mw_find (ts_contents s) h = Some (Some c)" "bv_ok c" "0 < bv_size c" "?pos + bv_size c \<le> length D"
      "slice ?pos (bv_size c) D = bv_bytes c" "ejob_ok D v sids s offs (?pos + bv_size c) (ej_sid_idx j + 1) fin"
      using ok True by (auto simp: ej_ok_def Cons off)
    have "bv_wf c" "slice ?pos (bv_size c) D = slice 0 (bv_size c) (bv_bytes c)" using c(5,8) by (simp_all add: bv_ok_def slice_0_all)
    then obtain out' where o: "ba_copy_from_buffer out c ?pos 0 (bv_size c) = Inr (out', ?pos + bv_size c)" "cap_good D out'"
      "\<forall>k < length D. ba_arr out' ! k = (if ?pos \<le> k \<and> k < ?pos + bv_size c then D ! k else ba_arr out ! k)"
      using eth_copy_right [OF g _ c(6) _ c(7), of c 0] by auto
    have "u64 (ej_sid_idx j + 1) = ej_sid_idx j + 1" using c(1,2) by (intro u64_id) simp
    then show ?thesis using True c(1,6,9) o Cons off get_tx_contents_found(1) [OF c(3,4)]
      by (intro exI [of _ out'] exI [of _ "\<lparr>ej_sid_idx = ej_sid_idx j + 1, ej_output_offset = ?pos + bv_size c, ej_offsets = offs\<rparr>"])
        (simp add: eth_job_step_def ej_ok_def eth_todo_def)
  qed
qed

interpretation eth_fill: fill_job "\<lambda>(v, sids). eth_job_step v sids" ej_output_offset eth_todo
  "\<lambda>(v, sids) D s fin j. ej_ok D v sids s fin j" cap_good ba_arr
proof (unfold_locales, goal_cases)
  case (1 c D s fin j out)
  then show ?case using eth_job_step_ok [of D "fst c" "snd c" s fin j out] by (simp add: split_beta)
next
  case (2 c D s fin j)
  then show ?case by (simp add: ej_ok_def eth_todo_def split_beta)
qed

section \<open>Dispatching\<close>

definition piece_off :: "buffer_view \<Rightarrow> (rlp_value \<Rightarrow> bool) \<Rightarrow> nat \<times> bool \<times> nat \<Rightarrow> rlp_value \<Rightarrow> bool" where
  \<comment> \<open>what the dispatcher records for a transaction\<close>
  "piece_off v cmpd off t \<longleftrightarrow>
     (case off of (co, is_short, len) \<Rightarrow> is_short = cmpd t \<and>
        (\<not> cmpd t \<longrightarrow> len = length (enc_value t) \<and> (\<exists>q rest. co = length q \<and> bv_bytes v = q @ enc_value t @ rest)))"

definition eth_msg_ok ::
  "buffer_view \<Rightarrow> tx_service \<Rightarrow> (rlp_value \<Rightarrow> bool) \<Rightarrow> (rlp_value \<Rightarrow> sid) \<Rightarrow> byte list \<Rightarrow> rlp_value list \<Rightarrow> bool" where
  "eth_msg_ok v s cmpd sidf pre ts \<longleftrightarrow>
     bv_ok v \<and> (\<exists>post. bv_bytes v = pre @ eth_pieces cmpd ts @ post) \<and> list_all (eth_receiver_ok s cmpd sidf) ts \<and>
     list_all (\<lambda>t. 1 < length (enc_value t)) ts \<and> length (eth_txs ts) < 2 ^ 29 \<and> length ts < 2 ^ 29"

lemma eth_msg_sids: "eth_msg_ok v s cmpd sidf pre ts \<Longrightarrow> length (filter cmpd ts) < 2 ^ 29"
  unfolding eth_msg_ok_def by (meson le_less_trans length_filter_le)

lemma ejob_ok_segment:
  assumes ok: "eth_msg_ok v s cmpd sidf pre ts" and D: "D = pad @ eth_txs ts" and sids: "sids = map sidf (filter cmpd ts)"
    and ts: "ts = dn @ seg @ rest" and offs: "list_all2 (piece_off v cmpd) offs seg"
  shows "ejob_ok D v sids s offs (length (pad @ eth_txs dn)) (length (filter cmpd dn)) (length (pad @ eth_txs (dn @ seg)))"
  using ts offs
proof (induction seg arbitrary: dn offs)
  case (Cons t seg)
  obtain co sh len offs' where offs: "offs = (co, sh, len) # offs'" "piece_off v cmpd (co, sh, len) t" "list_all2 (piece_off v cmpd) offs' seg"
    using Cons.prems(2) by (auto simp: list_all2_Cons2)
  have v: "bv_ok v" "eth_receiver_ok s cmpd sidf t" "0 < length (enc_value t)"
    using ok Cons.prems(1) enc_value_nonempty [of t] by (simp_all add: eth_msg_ok_def)
  have IH: "ejob_ok D v sids s offs' (length (pad @ eth_txs dn) + length (enc_value t)) (length (filter cmpd (dn @ [t])))
      (length (pad @ eth_txs (dn @ t # seg)))"
    using Cons.IH [of "dn @ [t]" offs'] Cons.prems(1) offs(3) by (simp add: add.assoc)
  have fits: "length (pad @ eth_txs dn) + length (enc_value t) \<le> length D" by (simp add: D Cons.prems(1))
  have sl: "slice (length (pad @ eth_txs dn)) (length (enc_value t)) D = enc_value t"
    using slice_middle [of "pad @ eth_txs dn" _ "enc_value t" _ "eth_txs (seg @ rest)"] by (simp add: D Cons.prems(1))
  show ?case
  proof (cases "cmpd t")
    case True
    obtain h c where c: "ts_hash s (sidf t) = Some h" "mw_find (ts_contents s) h = Some (Some c)" "bv_ok c" "bv_bytes c = enc_value t"
      using v(2) True by (auto simp: eth_receiver_ok_def)
    have sz: "bv_size c = length (enc_value t)" using c(3,4) length_bv_bytes [of c] by (simp add: bv_ok_def)
    have k: "length (filter cmpd dn) < length sids" "sids ! length (filter cmpd dn) = sidf t" "length sids < 2 ^ 64"
      using True eth_msg_sids [OF ok] by (simp_all add: sids Cons.prems(1) nth_append)
    have "sh" using offs(2) True by (simp add: piece_off_def)
    then show ?thesis unfolding offs(1) ejob_ok.simps
      using k c sz v(3) fits sl IH True by (simp only: if_True) (intro conjI exI [of _ h] exI [of _ c]; simp)
  next
    case False
    obtain q r where q: "\<not> sh" "len = length (enc_value t)" "co = length q" "bv_bytes v = q @ enc_value t @ r"
      using offs(2) False by (auto simp: piece_off_def)
    have "co + len \<le> bv_size v" "slice co len (bv_bytes v) = enc_value t"
      using q v(1) length_bv_bytes [of v] by (simp_all add: bv_ok_def slice_middle)
    then show ?thesis unfolding offs(1) ejob_ok.simps using q(1,2) v(1,3) fits sl IH False by simp
  qed
qed simp

definition eth_last_idx :: "nat \<Rightarrow> nat \<Rightarrow> nat \<Rightarrow> nat" where
  \<comment> \<open>the last sub-task that gets transactions\<close>
  "eth_last_idx pool bulk n = bulk_idx pool bulk (n - 1)"

definition edisp_inv ::
  "byte list \<Rightarrow> buffer_view \<Rightarrow> sid list \<Rightarrow> tx_service \<Rightarrow> (rlp_value \<Rightarrow> bool) \<Rightarrow> byte list \<Rightarrow> byte list \<Rightarrow> bool list \<Rightarrow> nat \<Rightarrow> nat \<Rightarrow>
   rlp_value list \<Rightarrow> rlp_value list \<Rightarrow> (nat \<Rightarrow> nat) \<Rightarrow> eth_disp \<Rightarrow> bool" where
  \<comment> \<open>the transactions \<open>dn\<close> are enqueued, those of \<open>cur\<close> belong to the current sub-task\<close>
  "edisp_inv D v sids s cmpd pre pad flags pool bulk dn cur fins d \<longleftrightarrow>
     ep_idx d < pool \<and> pool \<le> length (ep_subs d) \<and> eth_last_idx pool bulk (length (dn @ cur)) = ep_idx d \<and>
     ep_offset d = length (pre @ eth_pieces cmpd (dn @ cur)) \<and> ep_count d = length (dn @ cur) \<and>
     ep_sids_offset d = length (filter cmpd dn) \<and>
     ep_output_offset d = length (pad @ eth_txs (dn @ cur)) \<and> ep_prev_output_offset d = length (pad @ eth_txs dn) \<and>
     cap_good D (ep_out d) \<and> map es_completed (ep_subs d) = flags \<and>
     es_sids_len (ep_subs d ! ep_idx d) = length (filter cmpd cur) \<and>
     list_all2 (piece_off v cmpd) (es_offsets (ep_subs d ! ep_idx d)) cur \<and>
     (\<forall>j < length (ep_subs d). ep_idx d < j \<longrightarrow> es_sids_len (ep_subs d ! j) = 0 \<and> es_offsets (ep_subs d ! j) = []) \<and>
     (\<forall>j < ep_idx d. ej_ok D v sids s (fins j) (eth_start (ep_subs d ! j))) \<and>
     (\<forall>k. length pad \<le> k \<and> k < length (pad @ eth_txs dn) \<longrightarrow>
        (\<exists>j < ep_idx d. es_output_offset (ep_subs d ! j) \<le> k \<and> k < fins j))"

lemma eth_measure_tx_at:
  assumes ok: "eth_msg_ok v s cmpd sidf pre ts" and sids: "sids = map sidf (filter cmpd ts)" and ts: "ts = dn @ cur @ t # rest"
    and p: "ep_sids_offset d = length (filter cmpd dn)" "es_sids_len td = length (filter cmpd cur)"
      "ep_output_offset d = length (pad @ eth_txs (dn @ cur))"
    and pad: "length (pad @ eth_txs ts) < 2 ^ 64" and off: "ep_offset d = length (pre @ eth_pieces cmpd (dn @ cur))"
  shows "\<exists>co len off. bx_eth_get_next_tx_offset v (ep_offset d) = Inr (length (pre @ eth_pieces cmpd (dn @ cur @ [t])), off, cmpd t) \<and>
    eth_measure_tx s v sids d td (cmpd t) off =
      Inr (td\<lparr>es_sids_len := length (filter cmpd (cur @ [t]))\<rparr>, co, len, length (pad @ eth_txs (dn @ cur @ [t]))) \<and>
    piece_off v cmpd (co, cmpd t, len) t"
proof -
  obtain post where v: "bv_ok v" "bv_bytes v = pre @ eth_pieces cmpd ts @ post" using ok by (auto simp: eth_msg_ok_def)
  have t: "eth_receiver_ok s cmpd sidf t" "1 < length (enc_value t)" "length (enc_value t) < 2 ^ 29"
    using ok ts by (simp_all add: eth_msg_ok_def)
  have eq: "bv_bytes v = (pre @ eth_pieces cmpd (dn @ cur)) @ eth_tx_piece cmpd t @ (eth_pieces cmpd rest @ post)" using v(2) ts by simp
  have out: "length (pad @ eth_txs (dn @ cur)) + length (enc_value t) = length (pad @ eth_txs (dn @ cur @ [t]))"
    "length (pad @ eth_txs (dn @ cur @ [t])) < 2 ^ 64" using pad ts by simp_all
  show ?thesis
  proof (cases "cmpd t")
    case True
    obtain co where nxt: "bx_eth_get_next_tx_offset v (ep_offset d) = Inr (length (pre @ eth_pieces cmpd (dn @ cur @ [t])), co, True)"
      using bx_eth_next_tx_short [OF v(1) eq True] by (auto simp: off)
    obtain h c where c: "ts_hash s (sidf t) = Some h" "mw_find (ts_contents s) h = Some (Some c)" "bv_ok c" "bv_bytes c = enc_value t"
      using t(1) True by (auto simp: eth_receiver_ok_def)
    have sz: "get_tx_size s (sidf t) = Inr (length (enc_value t))"
      using get_tx_contents_found(2) [OF c(1,2)] c(3,4) length_bv_bytes [of c] by (simp add: bv_ok_def)
    let ?k = "length (filter cmpd dn) + length (filter cmpd cur)"
    have k: "?k < length sids" "sids ! ?k = sidf t" using True by (simp_all add: sids ts nth_append)
    have "length sids < 2 ^ 64" using eth_msg_sids [OF ok] sids by simp
    then have u: "u64 ?k = ?k" using k(1) by (intro u64_id) linarith
    have "eth_measure_tx s v sids d td True co =
        Inr (td\<lparr>es_sids_len := length (filter cmpd (cur @ [t]))\<rparr>, co, 0, length (pad @ eth_txs (dn @ cur @ [t])))"
      unfolding eth_measure_tx_def Let_def p u using k sz out True by (simp add: u64_id)
    then show ?thesis using True nxt by (intro exI [of _ co] exI [of _ 0]) (simp add: piece_off_def)
  next
    case False
    obtain co q ty r where nxt: "bx_eth_get_next_tx_offset v (ep_offset d) = Inr (length (pre @ eth_pieces cmpd (dn @ cur @ [t])), co, False)"
      "bv_consume v (u64 (co + 1)) = Inr (length (enc_value t), ty, length q)" "bv_bytes v = q @ enc_value t @ r"
      using bx_eth_next_tx_full [OF v(1) eq False t(2,3)] by (auto simp: off)
    have "eth_measure_tx s v sids d td False co =
        Inr (td\<lparr>es_sids_len := length (filter cmpd (cur @ [t]))\<rparr>, length q, length (enc_value t), length (pad @ eth_txs (dn @ cur @ [t])))"
      unfolding eth_measure_tx_def p nxt(2) using out False p(2) by (simp add: u64_id)
    then show ?thesis using False nxt(1,3)
      by (intro exI [of _ "length q"] exI [of _ "length (enc_value t)"] exI [of _ co]) (auto simp: piece_off_def)
  qed
qed

lemma eth_last_idx_Suc: "eth_last_idx pool bulk (length xs + 1) = bulk_idx pool bulk (length xs)"
  by (simp add: eth_last_idx_def)

lemma eth_dispatch_tx_spec:
  assumes ok: "eth_msg_ok v s cmpd sidf pre ts" and D: "D = pad @ eth_txs ts" and sids: "sids = map sidf (filter cmpd ts)"
    and ts: "ts = dn @ cur @ t # rest" and inv: "edisp_inv D v sids s cmpd pre pad flags pool bulk dn cur fins d"
    and idx: "idx = bulk_idx pool bulk (ep_count d)" "ep_idx d \<le> idx" "idx \<le> ep_idx d + 1" "idx < pool"
  shows "\<exists>d' dn' cur' fins'. eth_dispatch_tx s v sids idx d = Inr d' \<and> ep_idx d' = idx \<and> dn' @ cur' = dn @ cur @ [t] \<and>
    edisp_inv D v sids s cmpd pre pad flags pool bulk dn' cur' fins' d'"
proof -
  note i = inv [unfolded edisp_inv_def cap_good_def]
  let ?p = "ep_idx d" let ?td = "ep_subs d ! ?p"
  have p: "?p < length (ep_subs d)" using i by linarith
  have lD: "length D < 2 ^ 64" using i by blast
  have e: "ep_sids_offset d = length (filter cmpd dn)" "es_sids_len ?td = length (filter cmpd cur)"
    "ep_output_offset d = length (pad @ eth_txs (dn @ cur))" "ep_offset d = length (pre @ eth_pieces cmpd (dn @ cur))"
    using i by blast+
  define off where "off = length (pre @ eth_pieces cmpd (dn @ cur @ [t]))"
  define out_off where "out_off = length (pad @ eth_txs (dn @ cur @ [t]))"
  obtain co len q where nxt: "bx_eth_get_next_tx_offset v (ep_offset d) = Inr (off, q, cmpd t)"
    and ms: "eth_measure_tx s v sids d ?td (cmpd t) q = Inr (?td\<lparr>es_sids_len := length (filter cmpd (cur @ [t]))\<rparr>, co, len, out_off)"
    and po: "piece_off v cmpd (co, cmpd t, len) t"
    using eth_measure_tx_at [OF ok sids ts e(1-3) lD [unfolded D] e(4)] unfolding off_def out_off_def by blast
  define td where "td = ?td\<lparr>es_sids_len := length (filter cmpd (cur @ [t])), es_offsets := es_offsets ?td @ [(co, cmpd t, len)]\<rparr>"
  have sp: "list_all2 (piece_off v cmpd) (es_offsets td) (cur @ [t])" using i po by (simp add: td_def list_all2_appendI)
  have fits: "out_off \<le> length D" by (simp add: out_off_def D ts)
  have cnt: "u64 (ep_count d + 1) = length (dn @ cur @ [t])" using ok ts i by (simp add: u64_id eth_msg_ok_def)
  have li: "eth_last_idx pool bulk (length (dn @ cur @ [t])) = idx" using idx(1) i by (simp add: eth_last_idx_def)
  have fl: "map es_completed ((ep_subs d)[?p := td']) = flags" if "es_completed td' = es_completed ?td" for td'
  proof -
    have "map es_completed (ep_subs d) = flags" using i by blast
    then show ?thesis using p that by (auto simp: map_update list_update_same_conv)
  qed
  show ?thesis
  proof (cases "?p < idx")
    case False
    then have idx': "idx = ?p" using idx(2) by simp
    define d' where "d' = d\<lparr>ep_idx := idx, ep_offset := off, ep_output_offset := out_off, ep_count := length (dn @ cur @ [t]),
      ep_subs := (ep_subs d)[?p := td]\<rparr>"
    have run: "eth_dispatch_tx s v sids idx d = Inr d'"
      using nxt ms False cnt by (simp add: eth_dispatch_tx_def Let_def d'_def td_def)
    have "\<exists>j < idx. es_output_offset (ep_subs d' ! j) \<le> k \<and> k < fins j"
      if "length pad \<le> k" "k < length (pad @ eth_txs dn)" for k
    proof -
      from that i obtain j where "j < ?p" "es_output_offset (ep_subs d ! j) \<le> k" "k < fins j" by blast
      then show ?thesis by (intro exI [of _ j]) (simp add: idx' d'_def)
    qed
    then have "edisp_inv D v sids s cmpd pre pad flags pool bulk dn (cur @ [t]) fins d'"
      using i p sp li fl [of td] unfolding edisp_inv_def cap_good_def
      by (simp add: d'_def idx' td_def out_off_def off_def)
    then show ?thesis using run by (intro exI [of _ d'] exI [of _ dn] exI [of _ "cur @ [t]"] exI [of _ fins]) (simp add: d'_def)
  next
    case True
    then have idx': "idx = Suc ?p" using idx(3) by simp
    define td' where "td' = td\<lparr>es_output_offset := length (pad @ eth_txs dn), es_sids_offset := length (filter cmpd dn)\<rparr>"
    define dn' where "dn' = dn @ cur @ [t]"
    define fins' where "fins' = fins(?p := length (pad @ eth_txs dn'))"
    define d' where "d' = d\<lparr>ep_idx := idx, ep_offset := off, ep_output_offset := out_off, ep_count := length (dn @ cur @ [t]),
      ep_subs := (ep_subs d)[?p := td'], ep_out := ba_resize (ep_out d) out_off, ep_sids_offset := length (filter cmpd dn'),
      ep_prev_output_offset := out_off\<rparr>"
    have "u64 (length (filter cmpd dn) + length (filter cmpd (cur @ [t]))) = length (filter cmpd dn')"
      using eth_msg_sids [OF ok] by (subst u64_id) (auto simp: dn'_def ts)
    moreover have "\<not> ba_cap (ep_out d) < out_off" using fits i by linarith
    ultimately have run: "eth_dispatch_tx s v sids idx d = Inr d'"
      using nxt ms True i cnt
      by (simp add: eth_dispatch_tx_def Let_def eth_extend_output_buffer_def d'_def td'_def td_def)
    have dj: "ej_ok D v sids s (length (pad @ eth_txs dn')) (eth_start td')"
      using ejob_ok_segment [OF ok D sids _ sp, of dn rest] by (simp add: ts ej_ok_def eth_start_def td'_def dn'_def)
    have jobs: "ej_ok D v sids s (fins' j) (eth_start (ep_subs d' ! j))" if "j < idx" for j
      using that i dj p idx' by (cases "j = ?p") (simp_all add: fins'_def d'_def)
    have cover: "\<exists>j < idx. es_output_offset (ep_subs d' ! j) \<le> k \<and> k < fins' j"
      if k: "length pad \<le> k" "k < length (pad @ eth_txs dn')" for k
    proof (cases "k < length (pad @ eth_txs dn)")
      case True
      then obtain j where "j < ?p" "es_output_offset (ep_subs d ! j) \<le> k" "k < fins j" using i k(1) by blast
      then show ?thesis by (intro exI [of _ j]) (simp add: idx' fins'_def d'_def)
    next
      case False
      then show ?thesis using k p by (intro exI [of _ ?p]) (simp add: idx' fins'_def d'_def td'_def)
    qed
    have "edisp_inv D v sids s cmpd pre pad flags pool bulk dn' [] fins' d'"
      unfolding edisp_inv_def cap_good_def using i idx(4) idx' p jobs cover fits li fl [of td'] lD
      by (simp add: d'_def dn'_def off_def out_off_def td'_def td_def)
    then show ?thesis using run
      by (intro exI [of _ d'] exI [of _ dn'] exI [of _ "[]"] exI [of _ fins']) (simp add: d'_def dn'_def)
  qed
qed

lemma eth_dispatch_loop_spec:
  assumes ok: "eth_msg_ok v s cmpd sidf pre ts" and D: "D = pad @ eth_txs ts" and sids: "sids = map sidf (filter cmpd ts)"
    and fin: "fin = length (pre @ eth_pieces cmpd ts)" and pool: "0 < pool"
    and ts: "ts = dn @ cur @ rest" and inv: "edisp_inv D v sids s cmpd pre pad flags pool bulk dn cur fins d"
  shows "\<exists>d' dn' cur' fins'. eth_dispatch_loop s v sids pool bulk fin d = Some (Inr d') \<and>
    dn' @ cur' = ts \<and> edisp_inv D v sids s cmpd pre pad flags pool bulk dn' cur' fins' d'"
  using ts inv
proof (induction rest arbitrary: dn cur fins d)
  case Nil
  have off: "ep_offset d = length (pre @ eth_pieces cmpd (dn @ cur))" using Nil.prems(2) unfolding edisp_inv_def by blast
  have "\<not> ep_offset d < fin" using off fin Nil.prems(1) by simp
  then have "eth_dispatch_loop s v sids pool bulk fin d = Some (Inr d)" by (subst eth_dispatch_loop.simps) simp
  then show ?case using Nil.prems by auto
next
  case (Cons t rest)
  have e: "ep_offset d = length (pre @ eth_pieces cmpd (dn @ cur))" "ep_count d = length (dn @ cur)"
    "eth_last_idx pool bulk (length (dn @ cur)) = ep_idx d"
    using Cons.prems(2) unfolding edisp_inv_def by blast+
  have lt: "ep_offset d < fin" using e(1) fin Cons.prems(1) eth_tx_piece_nonempty [of cmpd t] by simp
  let ?idx = "bulk_idx pool bulk (ep_count d)"
  have idx: "ep_idx d \<le> ?idx" "?idx \<le> ep_idx d + 1"
  proof -
    have "bulk_idx pool bulk (n - 1) \<le> bulk_idx pool bulk n \<and> bulk_idx pool bulk n \<le> bulk_idx pool bulk (n - 1) + 1" for n
      using bulk_idx_step [of pool bulk "n - 1"] by (cases n) auto
    then show "ep_idx d \<le> ?idx" "?idx \<le> ep_idx d + 1" using e(2,3) by (metis eth_last_idx_def)+
  qed
  obtain d1 dn1 cur1 fins1 where s1: "eth_dispatch_tx s v sids ?idx d = Inr d1"
    "dn1 @ cur1 = dn @ cur @ [t]" "edisp_inv D v sids s cmpd pre pad flags pool bulk dn1 cur1 fins1 d1"
    using eth_dispatch_tx_spec [OF ok D sids Cons.prems(1,2) refl idx bulk_idx_less [OF pool]] by blast
  have "ts = (dn @ cur @ [t]) @ rest" using Cons.prems(1) by simp
  then have ts1: "ts = dn1 @ cur1 @ rest" by (simp only: flip: s1(2)) simp
  have "eth_dispatch_loop s v sids pool bulk fin d = eth_dispatch_loop s v sids pool bulk fin d1"
    by (subst eth_dispatch_loop.simps) (simp only: lt s1(1) if_True sum.case)
  then show ?case using Cons.IH [OF ts1 s1(3)] by simp
qed

lemma eth_dispatch_spec:
  assumes ok: "eth_msg_ok v s cmpd sidf pre ts" and D: "D = pad @ eth_txs ts" "length pad = 16 + hsz" "hsz < 2 ^ 29"
    and c: "ed_sids d = map sidf (filter cmpd ts)" "ed_txn_count d = 0" "cap_good D (ed_out d)"
    and fin: "fin = length (pre @ eth_pieces cmpd ts)" and pool: "0 < pool"
    and li: "li = eth_last_idx pool (eth_bulk_size pool (ed_min_count d)) (length ts)"
  shows "\<exists>subs out fins. eth_dispatch s d v hsz fin (length pre) pool =
      Some (Inr (length D, li, d\<lparr>ed_subs := subs, ed_out := out, ed_txn_count := length ts\<rparr>)) \<and>
    eth_fill.fill_inv (v, ed_sids d) D s fins (length pad) out (map eth_start (take (li + 1) subs)) \<and>
    map es_completed subs = map es_completed (eth_init_sub_tasks pool (ed_subs d))"
proof -
  define bulk where "bulk = eth_bulk_size pool (ed_min_count d)"
  define subs0 where "subs0 = eth_init_sub_tasks pool (ed_subs d)"
  have out: "ba_tight (ed_out d)" "length D \<le> ba_cap (ed_out d)" "length D < 2 ^ 64" using c(3) by (simp_all add: cap_good_def)
  have u: "u64 (8 + 8 + hsz) = length pad" using D(2,3) by (simp add: u64_id)
  have ext: "eth_extend_output_buffer (ed_out d) (length pad) = Inr (ba_resize (ed_out d) (length pad))"
    using out(2) D(1) by (simp add: eth_extend_output_buffer_def)
  define p0 where "p0 = \<lparr>ep_subs = subs0, ep_out = ba_resize (ed_out d) (length pad), ep_idx = 0, ep_offset = length pre, ep_sids_offset = 0,
    ep_output_offset = length pad, ep_prev_output_offset = length pad, ep_count = ed_txn_count d\<rparr>"
  have clean: "es_sids_len (subs0 ! j) = 0 \<and> es_offsets (subs0 ! j) = []" if "j < length subs0" for j
    using that by (simp add: subs0_def eth_init_sub_tasks_def eth_sub_clear_def del: map_append)
  have lsubs: "pool \<le> length subs0" by (simp add: subs0_def eth_init_sub_tasks_def)
  have inv: "edisp_inv D v (ed_sids d) s cmpd pre pad (map es_completed subs0) pool bulk [] [] (\<lambda>_. 0) p0"
    using clean clean [OF less_le_trans [OF pool lsubs]] lsubs pool out c(2)
    by (simp add: edisp_inv_def p0_def cap_good_def eth_last_idx_def bulk_idx_def)
  obtain p dn cur fins where r: "eth_dispatch_loop s v (ed_sids d) pool bulk fin p0 = Some (Inr p)"
    "dn @ cur = ts" "edisp_inv D v (ed_sids d) s cmpd pre pad (map es_completed subs0) pool bulk dn cur fins p"
    using eth_dispatch_loop_spec [OF ok D(1) c(1) fin pool _ inv, of ts] by auto
  note i = r(3) [unfolded edisp_inv_def r(2)]
  have idx: "ep_idx p = li" using i li by (simp add: bulk_def)
  have e: "ep_output_offset p = length D" "ep_count p = length ts" "ep_prev_output_offset p = length (pad @ eth_txs dn)"
    "ep_sids_offset p = length (filter cmpd dn)" "map es_completed (ep_subs p) = map es_completed subs0"
    "list_all2 (piece_off v cmpd) (es_offsets (ep_subs p ! li)) cur" "cap_good D (ep_out p)" "li < length (ep_subs p)"
    using i idx unfolding D(1) by auto
  define td where "td = (ep_subs p ! li)\<lparr>es_output_offset := ep_prev_output_offset p, es_sids_offset := ep_sids_offset p\<rparr>"
  define subs where "subs = (ep_subs p)[li := td]"
  have "eth_dispatch s d v hsz fin (length pre) pool =
      Some (Inr (length D, li, d\<lparr>ed_subs := subs, ed_out := ep_out p, ed_txn_count := length ts\<rparr>))"
    unfolding eth_dispatch_def Let_def u ext
    by (simp only: sum.case flip: bulk_def subs0_def p0_def) (simp only: r(1) option.case sum.case idx e(1,2) flip: td_def subs_def)
  moreover have "eth_fill.fill_inv (v, ed_sids d) D s (fins(li := length D)) (length pad) (ep_out p) (map eth_start (take (li + 1) subs))"
    (is "eth_fill.fill_inv _ _ _ ?fins _ _ ?jobs")
  proof -
    have nth: "?jobs ! j = eth_start (if j = li then td else ep_subs p ! j)" if "j < li + 1" for j
      using that e(8) by (simp add: subs_def)
    have lj: "length ?jobs = li + 1" using e(8) by (simp add: subs_def)
    have "ejob_ok D v (ed_sids d) s (es_offsets (ep_subs p ! li)) (length (pad @ eth_txs dn)) (length (filter cmpd dn)) (length (pad @ eth_txs (dn @ cur)))"
      by (rule ejob_ok_segment [OF ok D(1) c(1) _ e(6), of dn "[]"]) (simp add: r(2))
    then have last: "ej_ok D v (ed_sids d) s (length D) (eth_start td)"
      using e(3,4) D(1) r(2) by (simp add: ej_ok_def eth_start_def td_def)
    show ?thesis unfolding eth_fill.fill_inv_def prod.case lj
    proof (intro conjI allI impI)
      fix j assume j: "j < li + 1"
      then show "ej_ok D v (ed_sids d) s (?fins j) (?jobs ! j)" unfolding nth [OF j] using i idx last by (cases "j = li") auto
    next
      fix k assume k: "k < length D"
      show "ba_arr (ep_out p) ! k = D ! k \<or> k < length pad \<or> (\<exists>j < li + 1. ej_output_offset (?jobs ! j) \<le> k \<and> k < ?fins j)"
      proof (cases "k < length (pad @ eth_txs dn)")
        case False
        then have "ej_output_offset (?jobs ! li) \<le> k" using e(3) nth [of li] by (simp add: eth_start_def td_def)
        then show ?thesis using k by (intro disjI2 exI [of _ li]) simp
      next
        case True
        show ?thesis
        proof (cases "k < length pad")
          case False
          with True i idx obtain j where "j < li" "es_output_offset (ep_subs p ! j) \<le> k" "k < fins j"
            by (meson not_le)
          then show ?thesis using nth [of j] by (intro disjI2 exI [of _ j]) (simp add: eth_start_def)
        qed simp
      qed
    qed (rule e(7))
  qed
  moreover have "map es_completed subs = map es_completed subs0" using e(5,8) by (auto simp: subs_def map_update td_def list_update_same_conv simp flip: e(5))
  ultimately show ?thesis unfolding subs0_def by blast
qed

section \<open>The decompressed block\<close>

lemma eth_get_missing_none:
  assumes "list_all (eth_receiver_ok s cmpd sidf) ts"
  shows "get_missing_transactions s (map sidf (filter cmpd ts)) = (True, [], [])"
proof -
  have "\<forall>t \<in> set ts. cmpd t \<longrightarrow> sidf t \<noteq> NULL_TX_SID \<and> (\<exists>h. ts_hash s (sidf t) = Some h \<and> has_transaction_contents s h)"
    using assms by (fastforce simp: list_all_iff eth_receiver_ok_def has_transaction_contents_def)
  then show ?thesis
    unfolding get_missing_transactions_def fold_missing_step by (fastforce simp: filter_empty_conv)
qed

lemma eth_fill_spec:
  assumes inv: "eth_fill.fill_inv (v, ed_sids d) (pad @ body) s fins (length pad) (ed_out d) (map eth_start (take (li + 1) (ed_subs d)))"
  shows "\<exists>out. eth_fill s sched d v li = Inr (s, d\<lparr>ed_out := out\<rparr>) \<and> ba_tight out \<and> holds out (length pad) body"
proof -
  let ?D = "pad @ body"
  obtain o1 jobs1 where r1: "run_jobs (eth_job_step v (ed_sids d)) sched (s, ed_out d, map eth_start (take (li + 1) (ed_subs d))) = Inr (s, o1, jobs1)"
    "eth_fill.fill_inv (v, ed_sids d) ?D s fins (length pad) o1 jobs1"
    using eth_fill.run_inv [OF inv, of sched] by auto
  obtain o2 jobs2 where r2: "run_jobs (eth_job_step v (ed_sids d)) (rest_of eth_todo jobs1) (s, o1, jobs1) = Inr (s, o2, jobs2)"
    "cap_good ?D o2" "\<forall>k < length ?D. length pad \<le> k \<longrightarrow> ba_arr o2 ! k = ?D ! k"
    using eth_fill.run_all [OF r1(2)] by auto
  have fits: "length pad + length body \<le> length (ba_arr o2)" using r2(2) by (simp add: cap_good_def ba_tight_def ba_wf_def)
  have "slice (length pad) (length body) (ba_arr o2) = body"
  proof (rule nth_equalityI)
    fix k assume "k < length (slice (length pad) (length body) (ba_arr o2))"
    then have k: "k < length body" by simp
    then show "slice (length pad) (length body) (ba_arr o2) ! k = body ! k"
      using r2(3) fits by (simp add: nth_slice)
  qed (use fits in simp)
  then have "holds o2 (length pad) body" by (simp add: holds_def)
  then show ?thesis using r1(1) r2(1,2) by (intro exI [of _ o2]) (simp add: eth_fill_def cap_good_def)
qed

lemma eth_dcm_init_spec:
  assumes "ba_tight (ed_out d)"
  shows "\<exists>out. eth_dcm_init shared d = Inr (d\<lparr>ed_out := out, ed_unknown_hashes := [], ed_unknown_sids := [], ed_hash := None, ed_sids := [],
      ed_txn_count := 0, ed_starting_offset := 0\<rparr>) \<and> ba_tight out \<and> ba_cap out = ba_cap (ed_out d)"
proof (cases shared)
  case True
  then show ?thesis by (intro exI [of _ "ba_with_capacity (ba_cap (ed_out d))"]) (simp add: eth_dcm_init_def, simp add: ba_with_capacity_def)
next
  case False
  then show ?thesis using ba_tight_reset [of "ba_reserve (ed_out d) (ba_cap (ed_out d))"] assms by (auto simp: eth_dcm_init_def)
qed

definition eth_ready :: "nat \<Rightarrow> nat \<Rightarrow> eth_dcm \<Rightarrow> bool" where
  \<comment> \<open>the sub-tasks a block of \<open>n\<close> transactions does not need have completed some earlier run\<close>
  "eth_ready pool n d \<longleftrightarrow>
     list_all es_completed (drop (eth_last_idx pool (eth_bulk_size pool (ed_min_count d)) n + 1) (eth_init_sub_tasks pool (ed_subs d)))"

lemma eth_dcm_block_spec:
  assumes pool: "0 < pool" and d: "ba_tight (ed_out d)" "16 + length hdr + length (eth_txs ts) \<le> ba_cap (ed_out d)"
    and b: "wf_eth_block prev hdr_rest ts trailer" "hdr = eth_header prev hdr_rest" and r: "list_all (eth_receiver_ok s cmpd sidf) ts"
    and v: "bv_ok v" "bv_bytes v = bx_encode (eth_block_bytes hdr (eth_pieces cmpd ts) trailer) (map sidf (filter cmpd ts))"
  shows "(if eth_ready pool (length ts) d
     then \<exists>d'. eth_dcm_block s pool sched shared d v = Some (Inr (s, d')) \<and> ed_success d' \<and> ed_txn_count d' = length ts \<and>
       drop (ed_starting_offset d') (ba_bytes (ed_out d')) = eth_block_bytes hdr (eth_txs ts) trailer \<and>
       ed_hash d' = Some (sha_of_binary (sha3_256 hdr)) \<and> list_all es_completed (ed_subs d') \<and> ba_tight (ed_out d')
     else eth_dcm_block s pool sched shared d v = None)"
proof -
  define txs where "txs = eth_txs ts"
  define sids where "sids = map sidf (filter cmpd ts)"
  define msg where "msg = eth_block_bytes hdr (eth_pieces cmpd ts) trailer"
  define pad where "pad = replicate (16 + length hdr) (0 :: byte)"
  define li where "li = eth_last_idx pool (eth_bulk_size pool (ed_min_count d)) (length ts)"
  note bd = eth_message_bounds [OF b]
  have ml: "length msg < 2 ^ 32" "length msg < 2 ^ 63" using bd(5) [of cmpd] by (simp_all add: msg_def)
  obtain out0 where i: "eth_dcm_init shared d = Inr (d\<lparr>ed_out := out0, ed_unknown_hashes := [], ed_unknown_sids := [], ed_hash := None, ed_sids := [],
      ed_txn_count := 0, ed_starting_offset := 0\<rparr>)" "ba_tight out0" "ba_cap out0 = ba_cap (ed_out d)"
    using eth_dcm_init_spec [OF d(1)] by blast
  have eq: "bv_bytes v = le_bytes 8 (8 + length msg) @ msg @ le_bytes 4 (length sids) @ concat (map (le_bytes 4) sids)"
    using v(2) by (simp add: bx_encode_def msg_def sids_def)
  obtain pre m where m: "bx_eth_parse v = Inr m" "\<exists>post. bv_bytes v = pre @ eth_pieces cmpd ts @ post"
    "xb_txn_offset m = length pre" "xb_txn_end_offset m = length (pre @ eth_pieces cmpd ts)" "xb_sids_offset m = 8 + length msg"
    "xb_hash m = sha_of_binary (sha3_256 hdr)" "bv_ok (xb_header m)" "bv_bytes (xb_header m) = hdr" "bv_ok (xb_trailer m)" "bv_bytes (xb_trailer m) = trailer"
    using bx_eth_parse_spec [OF v(1) eq ml(2) msg_def b(2) [unfolded eth_header_def] ml(1)] by blast
  have sm: "length (filter cmpd ts) < 2 ^ 32" "list_all (\<lambda>i. i < 2 ^ 32) sids"
    using le_less_trans [OF length_filter_le bd(3), of cmpd] r by (simp, auto simp: sids_def list_all_iff eth_receiver_ok_def)
  have ds: "eth_deserialize_short_ids v (8 + length msg) = Inr sids"
    using eth_deserialize_short_ids_at [OF v(1), of "le_bytes 8 (8 + length msg) @ msg" sids] eq sm
    by (simp add: sids_def del: le_bytes.simps le_bytes_numeral)
  define d1 where "d1 = (d\<lparr>ed_out := out0, ed_unknown_hashes := [], ed_unknown_sids := [], ed_hash := None, ed_sids := [],
      ed_txn_count := 0, ed_starting_offset := 0\<rparr>)\<lparr>ed_sids := sids, ed_hash := Some (xb_hash m), ed_success := True,
      ed_unknown_hashes := [], ed_unknown_sids := []\<rparr>"
  have ok: "eth_msg_ok v s cmpd sidf pre ts" using v(1) m(2) r b(1) bd by (simp add: eth_msg_ok_def wf_eth_block_def)
  have pl: "length pad = 16 + length hdr" by (simp add: pad_def)
  have good: "cap_good (pad @ txs) (ed_out d1)" using i d(2) bd by (simp add: cap_good_def d1_def pad_def txs_def)
  have d1: "ed_sids d1 = sids" "ed_txn_count d1 = 0" "ed_min_count d1 = ed_min_count d" "ed_subs d1 = ed_subs d" by (simp_all add: d1_def)
  have hs: "bv_size (xb_header m) = length hdr" using m(7,8) length_bv_bytes [of "xb_header m"] by (simp add: bv_ok_def)
  obtain subs out fins where dis: "eth_dispatch s d1 v (length hdr) (length (pre @ eth_pieces cmpd ts)) (length pre) pool =
      Some (Inr (length (pad @ txs), li, d1\<lparr>ed_subs := subs, ed_out := out, ed_txn_count := length ts\<rparr>))"
    "eth_fill.fill_inv (v, sids) (pad @ txs) s fins (length pad) out (map eth_start (take (li + 1) subs))"
    "map es_completed subs = map es_completed (eth_init_sub_tasks pool (ed_subs d))"
    using eth_dispatch_spec [OF ok txs_def [THEN arg_cong, of "(@) pad"] pl bd(2) d1(1) [unfolded sids_def] d1(2) good refl pool li_def [folded d1(3)]]
    unfolding d1(1,4) by blast
  define d2 where "d2 = d1\<lparr>ed_subs := subs, ed_out := out, ed_txn_count := length ts\<rparr>"
  obtain out2 where f: "eth_fill s sched d2 v li = Inr (s, d2\<lparr>ed_out := out2\<rparr>)" "ba_tight out2" "holds out2 (length pad) txs"
    using eth_fill_spec [of v d2 pad txs s fins li sched] dis(2) d1(1) by (auto simp: d2_def)
  have ready: "list_all es_completed (drop (li + 1) subs) \<longleftrightarrow> eth_ready pool (length ts) d"
    using dis(3) unfolding eth_ready_def li_def by (simp add: drop_map list_all_length list_eq_iff_nth_eq)
  have run: "eth_dcm_block s pool sched shared d v = (case eth_wait_all li subs of None \<Rightarrow> None
      | Some subs' \<Rightarrow> Some (rbind (eth_set_output_buffer (d2\<lparr>ed_out := out2, ed_subs := subs'\<rparr>) (xb_header m) (xb_trailer m) (length (pad @ txs)))
          (\<lambda>d. Inr (s, d))))"
    unfolding eth_dcm_block_def i(1) eth_dcm_execute_def
    by (simp only: sum.case m(1,3-5) ds rbind_simps eth_get_missing_none [OF r, folded sids_def] prod.case Let_def simp_thms if_False hs
        dis(1) option.case f(1) flip: d1_def d2_def) (simp add: d2_def)
  show ?thesis
  proof (cases "eth_ready pool (length ts) d")
    case False
    then show ?thesis using ready run by (simp add: eth_wait_all_def)
  next
    case True
    define subs' where "subs' = map (\<lambda>td. td\<lparr>es_completed := True\<rparr>) subs"
    have w: "eth_wait_all li subs = Some subs'" using True ready by (simp add: eth_wait_all_def subs'_def)
    define d3 where "d3 = d2\<lparr>ed_out := out2, ed_subs := subs'\<rparr>"
    define blk where "blk = eth_block_bytes hdr txs trailer"
    have bl: "length blk < 2 ^ 32" using b by (simp add: wf_eth_block_def blk_def txs_def)
    obtain o3 start where e: "eth_put_envelope out2 (xb_header m) (xb_trailer m) (length pad) (length pad + length txs) = Inr (o3, start, start + length blk)"
      "ba_tight o3" "holds o3 start blk"
      using eth_put_envelope_spec [OF f(2,3) m(7,8) bd(4) m(9,10) blk_def bl] bd(2) pl by auto
    define o4 where "o4 = ba_set_output (ba_resize o3 (start + length blk))"
    have "u64 (8 + 8 + bv_size (xb_header m)) = length pad" using bd(2) by (simp add: hs pl u64_id)
    then have "eth_set_output_buffer d3 (xb_header m) (xb_trailer m) (length (pad @ txs)) = Inr (d3\<lparr>ed_out := o4, ed_starting_offset := start\<rparr>)"
      using e(1) by (simp add: eth_set_output_buffer_def d3_def d2_def d1_def o4_def)
    then have "eth_dcm_block s pool sched shared d v = Some (Inr (s, d3\<lparr>ed_out := o4, ed_starting_offset := start\<rparr>))"
      using run w by (simp add: d3_def)
    moreover have w4: "wrote o3 0 [] o4"
      unfolding o4_def using wrote_quiet_trans [OF wrote_resize [OF e(2)] wrote_set_output [OF ba_tight_resize [OF e(2)]]] .
    then have "drop start (ba_bytes o4) = blk"
      using wrote_keeps [OF w4 e(3)] wrote_tight [OF w4] by (intro holds_bytes) (simp_all add: o4_def ba_set_output_def)
    moreover have "list_all es_completed subs'" by (simp add: subs'_def list_all_iff)
    ultimately show ?thesis using True wrote_tight [OF w4]
      by (auto simp: d3_def d2_def d1_def blk_def txs_def m(6))
  qed
qed

text \<open>
  C8: under every schedule of the sub-tasks, the task restores the block from a well-formed compressed
  message whose short ids it can resolve: from the starting offset on, the output buffer holds the
  block byte for byte. The transactions have to fit into the capacity of the output buffer, and every
  sub-task that the block does not need must have completed some earlier run: in a pool of one thread there is
  no such sub-task, and a new task in a larger pool has them on small blocks, on which it then never ends (see below).
\<close>

theorem eth_decompression_restores_block:
  assumes pool: "0 < pool" and d: "ba_tight (ed_out d)" "16 + length (eth_header prev hdr_rest) + length (eth_txs ts) \<le> ba_cap (ed_out d)"
    and b: "wf_eth_block prev hdr_rest ts trailer" and r: "list_all (eth_receiver_ok s cmpd sidf) ts"
    and v: "bv_ok v" "bv_bytes v = bx_encode (eth_block_bytes (eth_header prev hdr_rest) (eth_pieces cmpd ts) trailer) (map sidf (filter cmpd ts))"
    and ready: "eth_ready pool (length ts) d"
  shows "\<exists>d'. eth_dcm_block s pool sched shared d v = Some (Inr (s, d')) \<and> ed_success d' \<and> ed_txn_count d' = length ts \<and>
    drop (ed_starting_offset d') (ba_bytes (ed_out d')) = eth_block_bytes (eth_header prev hdr_rest) (eth_txs ts) trailer \<and>
    ed_hash d' = Some (sha_of_binary (sha3_256 (eth_header prev hdr_rest)))"
  using eth_dcm_block_spec [OF pool d b refl r v, of sched shared] ready by auto

lemma eth_not_ready:
  assumes "ed_subs d = []" and "length ts \<le> (pool - 1) * eth_bulk_size pool (ed_min_count d)" and "1 < pool"
  shows "\<not> eth_ready pool (length ts) d"
proof -
  let ?bulk = "eth_bulk_size pool (ed_min_count d)" and ?li = "eth_last_idx pool (eth_bulk_size pool (ed_min_count d)) (length ts)"
  have b: "0 < ?bulk" using assms(3) by (simp add: eth_bulk_size_def)
  have "?li < pool - 1"
  proof (cases "length ts = 0")
    case True
    then show ?thesis using assms(3) by (simp add: eth_last_idx_def bulk_idx_def)
  next
    case False
    then have "length ts - 1 < (pool - 1) * ?bulk" using assms(2) by linarith
    then have "(length ts - 1) div ?bulk < pool - 1" using b by (simp add: div_less_iff_less_mult)
    then show ?thesis by (simp add: eth_last_idx_def bulk_idx_def)
  qed
  then have "?li + 1 < length (eth_init_sub_tasks pool (ed_subs d))" using assms(1) by (simp add: eth_init_sub_tasks_def)
  then have "drop (?li + 1) (eth_init_sub_tasks pool (ed_subs d)) \<noteq> []" by simp
  moreover have "\<forall>td \<in> set (eth_init_sub_tasks pool (ed_subs d)). \<not> es_completed td"
    using assms(1) by (auto simp: eth_init_sub_tasks_def eth_sub_clear_def eth_sub_new_def)
  ultimately show ?thesis unfolding eth_ready_def list_all_iff
    by (metis (no_types, lifting) hd_in_set in_set_dropD)
qed

text \<open>
  C12: the main task waits for all its sub-task objects. A new task in a pool of several threads never
  ends on a block that is too small to give every sub-task a run of transactions: the sub-tasks
  without transactions are never executed, so they are never completed and nobody wakes the task.
\<close>

theorem eth_decompression_waits_forever:
  assumes pool: "1 < pool" and d: "ba_tight (ed_out d)" "16 + length (eth_header prev hdr_rest) + length (eth_txs ts) \<le> ba_cap (ed_out d)"
    and b: "wf_eth_block prev hdr_rest ts trailer" and r: "list_all (eth_receiver_ok s cmpd sidf) ts"
    and v: "bv_ok v" "bv_bytes v = bx_encode (eth_block_bytes (eth_header prev hdr_rest) (eth_pieces cmpd ts) trailer) (map sidf (filter cmpd ts))"
    and new: "ed_subs d = []" "length ts \<le> (pool - 1) * eth_bulk_size pool (ed_min_count d)"
  shows "eth_dcm_block s pool sched shared d v = None"
proof -
  have "0 < pool" using pool by simp
  from eth_dcm_block_spec [OF this d b refl r v, of sched shared] eth_not_ready [OF new pool] show ?thesis by simp
qed

text \<open>The example block on a receiver that has its transaction.\<close>

definition eth_demo_receiver :: tx_service where
  "eth_demo_receiver = eth_demo_sender\<lparr>ts_contents := mw_emplace contents_size (ts_contents eth_demo_sender)
     (eth_tx_hash eth_demo_tx) (Some (bv_msg (enc_value eth_demo_tx)))\<rparr>"

definition eth_demo_msg :: "byte list" where
  "eth_demo_msg = bx_encode (eth_block_bytes (eth_header eth_demo_prev [6]) [0xc2, 0x80, 0x80] [0xc0]) [7]"

lemma eth_demo_receiver_ok: "list_all (eth_receiver_ok eth_demo_receiver (\<lambda>_. True) (\<lambda>_. 7)) [eth_demo_tx]"
proof -
  have "ts_hash eth_demo_receiver 7 = Some (eth_tx_hash eth_demo_tx)"
    by (simp add: eth_demo_receiver_def eth_demo_sender_def sid_service_facts)
  moreover have "mw_find (ts_contents eth_demo_receiver) (eth_tx_hash eth_demo_tx) = Some (Some (bv_msg (enc_value eth_demo_tx)))"
    by (simp add: eth_demo_receiver_def eth_demo_sender_def sid_service_facts ts_new_def mw_find_def mw_emplace_def mw_new_def)
  ultimately show ?thesis by (simp add: eth_receiver_ok_def eth_demo_bytes(1) NULL_TX_SID_def)
qed

lemma eth_demo_msg_facts:
  "bv_ok (bv_msg eth_demo_msg)"
  "bv_bytes (bv_msg eth_demo_msg) = bx_encode (eth_block_bytes (eth_header eth_demo_prev [6]) (eth_pieces (\<lambda>_. True) [eth_demo_tx]) [0xc0])
     (map (\<lambda>_. 7) (filter (\<lambda>_. True) [eth_demo_tx]))"
  "16 + length (eth_header eth_demo_prev [6]) + length (eth_txs [eth_demo_tx]) \<le> 1000"
  by (simp_all add: eth_demo_msg_def bx_encode_def eth_block_bytes_def enc_list_def rlp_prefix_def eth_demo_bytes(1,2) eth_tx_piece_def eth_consts)

lemma eth_demo_task:
  "ba_tight (ed_out (eth_dcm_new 1000 100))" "ba_cap (ed_out (eth_dcm_new 1000 100)) = 1000" "ed_subs (eth_dcm_new 1000 100) = []"
  "ed_min_count (eth_dcm_new 1000 100) = 100"
  by (simp add: eth_dcm_new_def) (simp_all add: eth_dcm_new_def ba_with_capacity_def)

text \<open>A task in a pool of two threads whose sub-tasks have run before; the block needs the first of them only.\<close>

definition eth_demo_used :: eth_dcm where
  "eth_demo_used = (eth_dcm_new 1000 100)\<lparr>ed_subs := replicate 2 (eth_sub_new\<lparr>es_completed := True\<rparr>)\<rparr>"

theorem eth_decompression_restores_block_witness:
  "\<exists>d'. eth_dcm_block eth_demo_receiver 2 [0] False eth_demo_used (bv_msg eth_demo_msg) = Some (Inr (eth_demo_receiver, d')) \<and>
    drop (ed_starting_offset d') (ba_bytes (ed_out d')) = eth_demo_block"
proof -
  have d: "ba_tight (ed_out eth_demo_used)" "ba_cap (ed_out eth_demo_used) = 1000"
    using eth_demo_task by (simp_all add: eth_demo_used_def)
  have "eth_ready 2 (length [eth_demo_tx]) eth_demo_used"
    by (simp add: eth_ready_def eth_init_sub_tasks_def eth_demo_used_def eth_sub_clear_def eth_last_idx_def bulk_idx_def numeral_2_eq_2)
  from eth_decompression_restores_block [OF _ d(1) _ eth_demo_wf eth_demo_receiver_ok eth_demo_msg_facts(1,2) this, of "[0]" False]
  show ?thesis using eth_demo_msg_facts(3) by (auto simp: d(2) eth_demo_block_def)
qed

theorem eth_decompression_waits_forever_witness:
  "eth_dcm_block eth_demo_receiver 2 [0] False (eth_dcm_new 1000 100) (bv_msg eth_demo_msg) = None"
  using eth_decompression_waits_forever [OF _ eth_demo_task(1) _ eth_demo_wf eth_demo_receiver_ok eth_demo_msg_facts(1,2) eth_demo_task(3), of 2 "[0]" False]
    eth_demo_msg_facts(3) by (simp add: eth_demo_task eth_bulk_size_def eth_consts)

end
