(* ===== verification/TxMessages.thy ===== *)
theory TxMessages
  imports TxService
begin

text \<open>
  The operations of \<open>TransactionService\<close> that read and write whole messages: synchronising the
  transactions of two services, looking up transactions by short ids, and processing the
  transactions of a relay or of a blockchain node.

  Where the code iterates over an unordered map, the order is the argument \<open>order\<close>, the size of the
  map of short ids (which only sizes the buffer) is the argument \<open>sid_count\<close>, and the parser of the
  node's message, which depends on the blockchain, is the argument \<open>parse\<close>.
\<close>

definition HEADER_LENGTH :: nat where "HEADER_LENGTH = 20"
definition NETWORK_NUM_LEN :: nat where "NETWORK_NUM_LEN = 4"
definition TX_COUNT_LEN :: nat where "TX_COUNT_LEN = 4"
definition SHA256_LEN :: nat where "SHA256_LEN = 32"
definition EXPIRATION_DATE_LEN :: nat where "EXPIRATION_DATE_LEN = 4"
definition CONTENT_LEN :: nat where "CONTENT_LEN = 4"
definition SHORT_IDS_COUNT_LEN :: nat where "SHORT_IDS_COUNT_LEN = 2"
definition SHORT_ID_LEN :: nat where "SHORT_ID_LEN = 4"
definition TRANSACTION_FLAG_LEN :: nat where "TRANSACTION_FLAG_LEN = 2"
definition SEEN_FLAG_LEN :: nat where "SEEN_FLAG_LEN = 1"
definition HAS_TX_HASH_LEN :: nat where "HAS_TX_HASH_LEN = 1"

lemmas msg_consts =
  HEADER_LENGTH_def NETWORK_NUM_LEN_def TX_COUNT_LEN_def SHA256_LEN_def EXPIRATION_DATE_LEN_def CONTENT_LEN_def
  SHORT_IDS_COUNT_LEN_def SHORT_ID_LEN_def TRANSACTION_FLAG_LEN_def SEEN_FLAG_LEN_def HAS_TX_HASH_LEN_def

definition u16 :: "nat \<Rightarrow> nat" where
  "u16 n = n mod 2 ^ 16"

lemma u16_id: "n < 2 ^ 16 \<Longrightarrow> u16 n = n"
  by (simp add: u16_def)

definition ba_copy_hash :: "byte_array \<Rightarrow> hash \<Rightarrow> nat \<Rightarrow> (byte_array \<times> nat) res" where
  \<comment> \<open>\<^verbatim>\<open>copy_from_buffer(hash.binary(), pos, 0, SHA256_LEN)\<close>\<close>
  "ba_copy_hash b h pos = ba_copy_from_buffer b (bv_msg h) pos 0 SHA256_LEN"

section \<open>get_tx_sync_buffer\<close>

fun put_sids :: "byte_array \<Rightarrow> sid list \<Rightarrow> nat \<Rightarrow> (byte_array \<times> nat) res" where
  "put_sids b [] pos = Inr (b, pos)"
| "put_sids b (i # is) pos = rbind (ba_set_le 4 b i pos) (\<lambda>(b, pos). put_sids b is pos)"

definition put_sync_contents :: "bool \<Rightarrow> tx_service \<Rightarrow> byte_array \<Rightarrow> hash \<Rightarrow> nat \<Rightarrow> (byte_array \<times> nat) res" where
  "put_sync_contents sync_tx_content s b h pos =
     (if sync_tx_content then
        (case mw_find (ts_contents s) h of
           Some (Some c) \<Rightarrow>
             let content_len = u32 (bv_size c)
             in rbind (ba_set_le 4 b content_len pos) (\<lambda>(b, pos). ba_copy_from_buffer b c pos 0 content_len)
         | _ \<Rightarrow> Inl MemFault)
      else ba_set_le 4 b 0 pos)"

definition put_sync_tx :: "bool \<Rightarrow> tx_service \<Rightarrow> byte_array \<Rightarrow> hash \<Rightarrow> nat \<Rightarrow> (byte_array \<times> nat) res" where
  "put_sync_tx sync_tx_content s b h pos =
     rbind (ba_copy_hash b h pos) (\<lambda>(b, pos).
     rbind (put_sync_contents sync_tx_content s b h pos) (\<lambda>(b, pos).
     let pos = u64 (pos + EXPIRATION_DATE_LEN)
     in case ts_sids s h of
          Some is \<Rightarrow>
            let short_ids_count = u16 (length is)
            in rbind (ba_set_le 2 b short_ids_count pos) (\<lambda>(b, pos).
               rbind (put_sids b is pos) (\<lambda>(b, pos).
                 Inr (b, u64 (pos + short_ids_count * TRANSACTION_FLAG_LEN))))
        | None \<Rightarrow> Inr (b, u64 (pos + SHORT_IDS_COUNT_LEN))))"

fun put_sync_txs :: "bool \<Rightarrow> tx_service \<Rightarrow> byte_array \<Rightarrow> hash list \<Rightarrow> nat \<Rightarrow> (byte_array \<times> nat) res" where
  "put_sync_txs sync_tx_content s b [] pos = Inr (b, pos)"
| "put_sync_txs sync_tx_content s b (h # hs) pos =
     rbind (put_sync_tx sync_tx_content s b h pos) (\<lambda>(b, pos). put_sync_txs sync_tx_content s b hs pos)"

definition get_tx_sync_buffer :: "hash list \<Rightarrow> nat \<Rightarrow> nat \<Rightarrow> bool \<Rightarrow> tx_service \<Rightarrow> byte_array res" where
  "get_tx_sync_buffer order sid_count all_txs_content_size sync_tx_content s =
     (let total_size = TX_COUNT_LEN +
            (SHA256_LEN + EXPIRATION_DATE_LEN + CONTENT_LEN + SHORT_IDS_COUNT_LEN) * length order +
            (SHORT_ID_LEN + TRANSACTION_FLAG_LEN) * sid_count;
          total_size = (if sync_tx_content then total_size + all_txs_content_size else total_size)
      in rbind (ba_set_le 4 (ba_with_capacity (u64 total_size)) (u32 (length order)) 0) (\<lambda>(b, pos).
         rbind (put_sync_txs sync_tx_content s b order pos) (\<lambda>(b, pos).
           Inr (ba_set_output (ba_resize b pos)))))"

section \<open>process_tx_sync_message\<close>

definition store_copy :: "tx_service \<Rightarrow> hash \<Rightarrow> buffer_view \<Rightarrow> nat \<Rightarrow> nat \<Rightarrow> tx_service res" where
  \<comment> \<open>a copy of \<open>len\<close> bytes of the message at \<open>off\<close> becomes the contents of the transaction\<close>
  "store_copy s h msg len off =
     rbind (buffer_copy (bv_sub msg len off)) (\<lambda>c. rbind (set_transaction_contents s h c) (\<lambda>(_, s). Inr s))"

definition assign_unknown :: "place \<Rightarrow> hplace \<Rightarrow> real \<Rightarrow> hash \<Rightarrow> sid \<Rightarrow> tx_service \<Rightarrow> tx_service" where
  "assign_unknown ins hins now h i s = (if has_short_id s i then s else snd (assign_short_id ins hins now s h i))"

fun sync_sids ::
  "place \<Rightarrow> hplace \<Rightarrow> real \<Rightarrow> buffer_view \<Rightarrow> hash \<Rightarrow> nat \<Rightarrow> tx_service \<Rightarrow> byte_array \<Rightarrow> nat \<Rightarrow> nat \<Rightarrow>
   (tx_service \<times> byte_array \<times> nat \<times> nat) res" where
  "sync_sids ins hins now msg h 0 s b offset out_offset = Inr (s, b, offset, out_offset)"
| "sync_sids ins hins now msg h (Suc n) s b offset out_offset =
     rbind (get_le (bv_read msg) 4 offset) (\<lambda>(i, offset).
     rbind (ba_set_le 4 b i out_offset) (\<lambda>(b, out_offset).
       sync_sids ins hins now msg h n (assign_unknown ins hins now h i s) b (u32 offset) out_offset))"

definition sync_tx ::
  "place \<Rightarrow> hplace \<Rightarrow> real \<Rightarrow> buffer_view \<Rightarrow> tx_service \<times> byte_array \<times> nat \<times> nat \<times> nat \<Rightarrow>
   (tx_service \<times> byte_array \<times> nat \<times> nat \<times> nat) res" where
  \<comment> \<open>the state: the service, the result, its planned length, and the offsets, the input's a \<^verbatim>\<open>uint32_t\<close>\<close>
  "sync_tx ins hins now msg st =
     (let (s, b, result_len, offset, out_offset) = st
      in rbind (sha_read msg offset) (\<lambda>sha.
         let h = sha_binary sha; offset = u32 (offset + SHA256_LEN)
         in rbind (ba_copy_hash b h out_offset) (\<lambda>(b, out_offset).
            rbind (get_le (bv_read msg) 4 offset) (\<lambda>(content_length, offset).
            let offset = u32 offset
            in rbind (if 0 < content_length then store_copy s h msg content_length offset else Inr s) (\<lambda>s.
               let offset = u32 (u32 (offset + content_length) + EXPIRATION_DATE_LEN)
               in rbind (ba_set_le 4 b content_length out_offset) (\<lambda>(b, out_offset).
                  rbind (get_le (bv_read msg) 2 offset) (\<lambda>(short_ids_count, offset).
                  let offset = u32 offset
                  in rbind (ba_set_le 4 b short_ids_count out_offset) (\<lambda>(b, out_offset).
                     let result_len = (if 1 < short_ids_count
                           then u64 (result_len + (short_ids_count - 1) * (SHORT_ID_LEN + TRANSACTION_FLAG_LEN))
                           else result_len);
                         b = (if 1 < short_ids_count then ba_resize b result_len else b)
                     in rbind (sync_sids ins hins now msg h short_ids_count s b offset out_offset)
                          (\<lambda>(s, b, offset, out_offset).
                        rbind (ba_copy_from_buffer b msg out_offset offset (short_ids_count * TRANSACTION_FLAG_LEN)) (\<lambda>(b, _).
                          Inr (s, b, result_len, u32 (offset + short_ids_count * TRANSACTION_FLAG_LEN),
                               u64 (out_offset + short_ids_count * TRANSACTION_FLAG_LEN))))))))))))"

fun sync_txs ::
  "place \<Rightarrow> hplace \<Rightarrow> real \<Rightarrow> buffer_view \<Rightarrow> nat \<Rightarrow> tx_service \<times> byte_array \<times> nat \<times> nat \<times> nat \<Rightarrow>
   (tx_service \<times> byte_array \<times> nat \<times> nat \<times> nat) res" where
  "sync_txs ins hins now msg 0 st = Inr st"
| "sync_txs ins hins now msg (Suc n) st = rbind (sync_tx ins hins now msg st) (sync_txs ins hins now msg n)"

definition process_tx_sync_message ::
  "place \<Rightarrow> hplace \<Rightarrow> real \<Rightarrow> tx_service \<Rightarrow> buffer_view \<Rightarrow> (byte_array \<times> tx_service) res" where
  "process_tx_sync_message ins hins now s msg =
     rbind (get_le (bv_read msg) 4 (HEADER_LENGTH + NETWORK_NUM_LEN)) (\<lambda>(tx_count, offset).
     let result_len = u32 (TX_COUNT_LEN + tx_count * (SHA256_LEN + CONTENT_LEN + EXPIRATION_DATE_LEN +
           SHORT_IDS_COUNT_LEN + SHORT_ID_LEN + TRANSACTION_FLAG_LEN))
     in rbind (ba_set_le 4 (ba_with_capacity result_len) tx_count 0) (\<lambda>(b, out_offset).
        rbind (sync_txs ins hins now msg tx_count (s, b, result_len, u32 offset, out_offset))
          (\<lambda>(s, b, result_len, offset, out_offset). Inr (ba_set_output (ba_resize b out_offset), s))))"

section \<open>get_transactions_by_short_ids\<close>

record lookup_state =
  lk_found :: byte_array
  lk_missing :: byte_array
  lk_found_size :: nat
  lk_missing_size :: nat
  lk_found_offset :: nat
  lk_missing_offset :: nat
  lk_found_count :: nat
  lk_missing_count :: nat

definition lookup_found :: "sid \<Rightarrow> hash \<Rightarrow> buffer_view \<Rightarrow> lookup_state \<Rightarrow> lookup_state res" where
  "lookup_found i h c st =
     (let sz = u64 (lk_found_size st + (SHORT_ID_LEN + SHA256_LEN + CONTENT_LEN + bv_size c))
      in rbind (ba_set_le 4 (ba_resize (lk_found st) sz) i (lk_found_offset st)) (\<lambda>(b, pos).
         rbind (ba_copy_hash b h pos) (\<lambda>(b, pos).
         rbind (ba_set_le 4 b (u32 (bv_size c)) pos) (\<lambda>(b, pos).
         rbind (ba_copy_from_buffer b c pos 0 (bv_size c)) (\<lambda>(b, pos).
           Inr (st\<lparr>lk_found := b, lk_found_size := sz, lk_found_offset := pos, lk_found_count := lk_found_count st + 1\<rparr>))))))"

definition lookup_missing :: "sid \<Rightarrow> hash option \<Rightarrow> lookup_state \<Rightarrow> lookup_state res" where
  "lookup_missing i known st =
     rbind (ba_set_le 4 (lk_missing st) i (lk_missing_offset st)) (\<lambda>(b, pos).
     rbind (ba_set_le 1 b (if known = None then 0 else 1) pos) (\<lambda>(b, pos).
     rbind (case known of None \<Rightarrow> Inr (b, pos) | Some h \<Rightarrow> ba_copy_hash b h pos) (\<lambda>(b, pos).
       Inr (st\<lparr>lk_missing := b, lk_missing_offset := pos, lk_missing_count := lk_missing_count st + 1,
               lk_missing_size := u64 (lk_missing_size st + SHORT_ID_LEN + HAS_TX_HASH_LEN +
                 (if known = None then 0 else SHA256_LEN))\<rparr>))))"

definition lookup_sid :: "tx_service \<Rightarrow> sid \<Rightarrow> lookup_state \<Rightarrow> lookup_state res" where
  "lookup_sid s i st =
     (case ts_hash s i of
        None \<Rightarrow> lookup_missing i None st
      | Some h \<Rightarrow>
          (case mw_find (ts_contents s) h of
             None \<Rightarrow> lookup_missing i (Some h) st
           | Some None \<Rightarrow> Inl MemFault
           | Some (Some c) \<Rightarrow> lookup_found i h c st))"

fun lookup_sids :: "tx_service \<Rightarrow> sid list \<Rightarrow> lookup_state \<Rightarrow> lookup_state res" where
  "lookup_sids s [] st = Inr st"
| "lookup_sids s (i # is) st = rbind (lookup_sid s i st) (lookup_sids s is)"

fun read_sids :: "buffer_view \<Rightarrow> nat \<Rightarrow> nat \<Rightarrow> sid list res" where
  "read_sids msg 0 offset = Inr []"
| "read_sids msg (Suc n) offset =
     rbind (get_le (bv_read msg) 4 offset) (\<lambda>(i, offset). rbind (read_sids msg n offset) (\<lambda>is. Inr (i # is)))"

definition get_transactions_by_short_ids :: "tx_service \<Rightarrow> buffer_view \<Rightarrow> byte_array res" where
  "get_transactions_by_short_ids s msg =
     rbind (get_le (bv_read msg) 4 0) (\<lambda>(short_ids_count, offset).
     rbind (read_sids msg short_ids_count offset) (\<lambda>short_ids.
     rbind (lookup_sids s short_ids
         \<lparr>lk_found = ba_with_capacity (CONTENT_LEN + TX_COUNT_LEN), lk_missing = ba_with_capacity TX_COUNT_LEN,
          lk_found_size = CONTENT_LEN + TX_COUNT_LEN, lk_missing_size = TX_COUNT_LEN,
          lk_found_offset = CONTENT_LEN + TX_COUNT_LEN, lk_missing_offset = TX_COUNT_LEN,
          lk_found_count = 0, lk_missing_count = 0\<rparr>) (\<lambda>st.
     rbind (ba_set_le 4 (lk_found st) (u32 (u64_sub (lk_found_size st) CONTENT_LEN)) 0) (\<lambda>(b, _).
     rbind (ba_set_le 4 b (u32 (lk_found_count st)) TX_COUNT_LEN) (\<lambda>(b, _).
     rbind (ba_set_le 4 (lk_missing st) (u32 (lk_missing_count st)) 0) (\<lambda>(m, _).
     rbind (ba_copy_from_array (ba_resize b (u64 (lk_found_size st + lk_missing_size st))) (ba_arr m)
              (lk_found_offset st) 0 (ba_len m)) (\<lambda>(b, _).
       Inr (ba_set_output b))))))))"

section \<open>process_txs_msg\<close>

definition txs_tx ::
  "place \<Rightarrow> hplace \<Rightarrow> real \<Rightarrow> buffer_view \<Rightarrow> tx_service \<times> byte_array \<times> nat \<times> nat \<times> nat \<Rightarrow>
   (tx_service \<times> byte_array \<times> nat \<times> nat \<times> nat) res" where
  \<comment> \<open>the state: the service, the result, the two offsets and the number of missing transactions\<close>
  "txs_tx ins hins now msg st =
     (let (s, b, offset, out_offset, missing_short_ids) = st
      in rbind (get_le (bv_read msg) 4 offset) (\<lambda>(i, offset).
         rbind (sha_read msg offset) (\<lambda>sha.
         let h = sha_binary sha; offset = u64 (offset + SHA256_LEN)
         in rbind (get_le (bv_read msg) 4 offset) (\<lambda>(content_length, offset).
            let new_sid = \<not> has_short_id s i;
                s = assign_unknown ins hins now h i s;
                store = (\<not> has_transaction_contents s h \<and> 0 < content_length)
            in rbind (if store then store_copy s h msg content_length offset else Inr s) (\<lambda>s.
               let offset = u64 (offset + content_length);
                   content_length = (if store then content_length else 0)
               in if new_sid \<or> store then
                    rbind (ba_set_le 4 b i out_offset) (\<lambda>(b, out_offset).
                    rbind (ba_copy_hash b h out_offset) (\<lambda>(b, out_offset).
                    rbind (ba_set_le 4 b content_length out_offset) (\<lambda>(b, out_offset).
                      Inr (s, b, offset, out_offset, u16 (missing_short_ids + 1)))))
                  else Inr (s, b, offset, out_offset, missing_short_ids))))))"

fun txs_loop ::
  "place \<Rightarrow> hplace \<Rightarrow> real \<Rightarrow> buffer_view \<Rightarrow> nat \<Rightarrow> tx_service \<times> byte_array \<times> nat \<times> nat \<times> nat \<Rightarrow>
   (tx_service \<times> byte_array \<times> nat \<times> nat \<times> nat) res" where
  "txs_loop ins hins now msg 0 st = Inr st"
| "txs_loop ins hins now msg (Suc n) st = rbind (txs_tx ins hins now msg st) (txs_loop ins hins now msg n)"

definition process_txs_msg :: "place \<Rightarrow> hplace \<Rightarrow> real \<Rightarrow> tx_service \<Rightarrow> buffer_view \<Rightarrow> (byte_array \<times> tx_service) res" where
  "process_txs_msg ins hins now s msg =
     rbind (get_le (bv_read msg) 4 HEADER_LENGTH) (\<lambda>(txn_count, offset).
     let b = ba_with_capacity (u32 (SHORT_IDS_COUNT_LEN + txn_count * (SHA256_LEN + SHORT_ID_LEN + CONTENT_LEN)))
     in rbind (txs_loop ins hins now msg txn_count (s, b, offset, SHORT_IDS_COUNT_LEN, 0))
          (\<lambda>(s, b, offset, out_offset, missing_short_ids).
        rbind (ba_set_le 2 b missing_short_ids 0) (\<lambda>(b, _).
          Inr (ba_set_output (ba_resize b out_offset), s))))"

section \<open>process_gateway_transaction_from_node\<close>

record parsed_tx =
  ptx_hash :: hash
  ptx_offset :: nat
  ptx_length :: nat

definition node_tx_store ::
  "validator \<Rightarrow> nat \<Rightarrow> bool \<Rightarrow> buffer_view \<Rightarrow> tx_service \<Rightarrow> parsed_tx \<Rightarrow> (nat \<times> tx_service) res" where
  \<comment> \<open>an unseen transaction is validated, if asked, and stored whatever the outcome\<close>
  "node_tx_store validate min_fee enable_validation msg s t =
     rbind (buffer_copy (bv_sub msg (ptx_length t) (ptx_offset t))) (\<lambda>c.
     rbind (if enable_validation
            then rbind (validate c min_fee 0 (ts_nonces s) (ts_allowed_time s) (ts_allowed_gas s))
                   (\<lambda>(vst, nonces). Inr (vst, s\<lparr>ts_nonces := nonces\<rparr>))
            else Inr (set_bit TX_VALIDATION_STATUS_VALID_TX 0, s)) (\<lambda>(vst, s).
     rbind (set_transaction_contents s (ptx_hash t) c) (\<lambda>(_, s). Inr (vst, s))))"

definition node_tx ::
  "validator \<Rightarrow> nat \<Rightarrow> bool \<Rightarrow> buffer_view \<Rightarrow> tx_service \<times> byte_array \<times> nat \<Rightarrow> parsed_tx \<Rightarrow>
   (tx_service \<times> byte_array \<times> nat) res" where
  "node_tx validate min_fee enable_validation msg st t =
     (let (s, b, offset) = st;
          seen = (has_transaction_contents s (ptx_hash t) \<or> removed_transaction s (ptx_hash t))
      in rbind (if seen then Inr (set_bit TX_VALIDATION_STATUS_VALID_TX 0, s)
                else node_tx_store validate min_fee enable_validation msg s t) (\<lambda>(vst, s).
         rbind (ba_set_le 1 b (if seen then 1 else 0) offset) (\<lambda>(b, offset).
         rbind (ba_copy_hash b (ptx_hash t) offset) (\<lambda>(b, offset).
         rbind (ba_set_le 4 b (u32 (ptx_offset t)) offset) (\<lambda>(b, offset).
         rbind (ba_set_le 4 b (u32 (ptx_length t)) offset) (\<lambda>(b, offset).
         rbind (ba_set_le 4 b (u32 vst) offset) (\<lambda>(b, offset). Inr (s, b, offset))))))))"

fun node_txs ::
  "validator \<Rightarrow> nat \<Rightarrow> bool \<Rightarrow> buffer_view \<Rightarrow> parsed_tx list \<Rightarrow> tx_service \<times> byte_array \<times> nat \<Rightarrow>
   (tx_service \<times> byte_array \<times> nat) res" where
  "node_txs validate min_fee enable_validation msg [] st = Inr st"
| "node_txs validate min_fee enable_validation msg (t # ts) st =
     rbind (node_tx validate min_fee enable_validation msg st t) (node_txs validate min_fee enable_validation msg ts)"

definition process_gateway_transaction_from_node ::
  "(buffer_view \<Rightarrow> parsed_tx list res) \<Rightarrow> validator \<Rightarrow> tx_service \<Rightarrow> buffer_view \<Rightarrow> nat \<Rightarrow> bool \<Rightarrow> (byte_array \<times> tx_service) res" where
  "process_gateway_transaction_from_node parse validate s msg min_fee enable_validation =
     rbind (parse msg) (\<lambda>txs.
     let total = TX_COUNT_LEN + length txs * (SHA256_LEN + SEEN_FLAG_LEN + 4 + 4 + 4)
     in rbind (ba_set_le 4 (ba_with_capacity total) (u32 (length txs)) 0) (\<lambda>(b, offset).
        rbind (node_txs validate min_fee enable_validation msg txs (s, b, offset)) (\<lambda>(s, b, _).
          Inr (ba_set_output b, s))))"

end
