(* ===== verification/EthTx.thy ===== *)
theory EthTx
  imports EthMessage TxMessages
begin

text \<open>
  Ethereum transactions: \<open>EthTxMessage\<close>, \<open>EthTxsMessage\<close>, \<open>EthMessageParser\<close> and
  \<open>EthTransactionValidator\<close> of \<^verbatim>\<open>src/lib/libutils/utils/protocols/ethereum\<close>, and \<open>Signature\<close> of
  \<^verbatim>\<open>src/lib/libutils/utils/crypto/signature.cpp\<close>.

  A message is decoded into a record that keeps the members the code leaves untouched. The items of
  a transaction are read from a \<^verbatim>\<open>std::vector\<close> without a check of the index; reading behind its end
  is \<open>MemFault\<close>. Splitting the list may never end, hence the option. The functions of secp256k1
  are parameters: \<open>parse_compact\<close>, \<open>ecdsa_recover\<close> and \<open>serialize\<close>.
\<close>

section \<open>Constants\<close>

definition EIP155_CHAIN_ID_OFFSET :: nat where "EIP155_CHAIN_ID_OFFSET = 35"
definition V_RANGE_START :: nat where "V_RANGE_START = 0"
definition V_RANGE_END :: nat where "V_RANGE_END = 1"
definition SIGNATURE_LEN :: nat where "SIGNATURE_LEN = 65"
definition MAX_R_SIZE :: nat where "MAX_R_SIZE = 32"
definition MAX_T_SIZE :: nat where "MAX_T_SIZE = 32"
definition ETH_TX_TYPE_0 :: nat where "ETH_TX_TYPE_0 = 0"
definition ETH_TX_TYPE_1 :: nat where "ETH_TX_TYPE_1 = 1"
definition ETH_TX_TYPE_2 :: nat where "ETH_TX_TYPE_2 = 2"
definition ETH_ADDRESS_LEN :: nat where "ETH_ADDRESS_LEN = 20"

lemmas eth_tx_consts =
  EIP155_CHAIN_ID_OFFSET_def V_RANGE_START_def V_RANGE_END_def SIGNATURE_LEN_def MAX_R_SIZE_def MAX_T_SIZE_def ETH_TX_TYPE_0_def ETH_TX_TYPE_1_def ETH_TX_TYPE_2_def ETH_ADDRESS_LEN_def

definition ETH_TYPE_0_NONCE_IDX :: nat where "ETH_TYPE_0_NONCE_IDX = 0"
definition ETH_TYPE_0_GAS_PRICE_IDX :: nat where "ETH_TYPE_0_GAS_PRICE_IDX = 1"
definition ETH_TYPE_0_GAS_LIMIT_IDX :: nat where "ETH_TYPE_0_GAS_LIMIT_IDX = 2"
definition ETH_TYPE_0_TO_IDX :: nat where "ETH_TYPE_0_TO_IDX = 3"
definition ETH_TYPE_0_VALUE_IDX :: nat where "ETH_TYPE_0_VALUE_IDX = 4"
definition ETH_TYPE_0_DATA_IDX :: nat where "ETH_TYPE_0_DATA_IDX = 5"
definition ETH_TYPE_0_V_IDX :: nat where "ETH_TYPE_0_V_IDX = 6"
definition ETH_TYPE_0_R_IDX :: nat where "ETH_TYPE_0_R_IDX = 7"
definition ETH_TYPE_0_S_IDX :: nat where "ETH_TYPE_0_S_IDX = 8"
definition ETH_TYPE_1_CHAIN_ID_IDX :: nat where "ETH_TYPE_1_CHAIN_ID_IDX = 0"
definition ETH_TYPE_1_NONCE_IDX :: nat where "ETH_TYPE_1_NONCE_IDX = 1"
definition ETH_TYPE_1_GAS_PRICE_IDX :: nat where "ETH_TYPE_1_GAS_PRICE_IDX = 2"
definition ETH_TYPE_1_GAS_LIMIT_IDX :: nat where "ETH_TYPE_1_GAS_LIMIT_IDX = 3"
definition ETH_TYPE_1_TO_IDX :: nat where "ETH_TYPE_1_TO_IDX = 4"
definition ETH_TYPE_1_VALUE_IDX :: nat where "ETH_TYPE_1_VALUE_IDX = 5"
definition ETH_TYPE_1_DATA_IDX :: nat where "ETH_TYPE_1_DATA_IDX = 6"
definition ETH_TYPE_1_ACCESS_LIST_IDX :: nat where "ETH_TYPE_1_ACCESS_LIST_IDX = 7"
definition ETH_TYPE_1_Y_PARITY_IDX :: nat where "ETH_TYPE_1_Y_PARITY_IDX = 8"
definition ETH_TYPE_1_SENDER_R_IDX :: nat where "ETH_TYPE_1_SENDER_R_IDX = 9"
definition ETH_TYPE_1_SENDER_S_IDX :: nat where "ETH_TYPE_1_SENDER_S_IDX = 10"
definition ETH_TYPE_2_CHAIN_ID_IDX :: nat where "ETH_TYPE_2_CHAIN_ID_IDX = 0"
definition ETH_TYPE_2_NONCE_IDX :: nat where "ETH_TYPE_2_NONCE_IDX = 1"
definition ETH_TYPE_2_MAX_PRIORITY_FEE_PER_GAS_IDX :: nat where "ETH_TYPE_2_MAX_PRIORITY_FEE_PER_GAS_IDX = 2"
definition ETH_TYPE_2_MAX_FEE_PER_GAS_IDX :: nat where "ETH_TYPE_2_MAX_FEE_PER_GAS_IDX = 3"
definition ETH_TYPE_2_START_GAS_IDX :: nat where "ETH_TYPE_2_START_GAS_IDX = 4"
definition ETH_TYPE_2_TO_IDX :: nat where "ETH_TYPE_2_TO_IDX = 5"
definition ETH_TYPE_2_VALUE_IDX :: nat where "ETH_TYPE_2_VALUE_IDX = 6"
definition ETH_TYPE_2_DATA_IDX :: nat where "ETH_TYPE_2_DATA_IDX = 7"
definition ETH_TYPE_2_ACCESS_LIST_IDX :: nat where "ETH_TYPE_2_ACCESS_LIST_IDX = 8"
definition ETH_TYPE_2_Y_PARITY_IDX :: nat where "ETH_TYPE_2_Y_PARITY_IDX = 9"
definition ETH_TYPE_2_SENDER_R_IDX :: nat where "ETH_TYPE_2_SENDER_R_IDX = 10"
definition ETH_TYPE_2_SENDER_S_IDX :: nat where "ETH_TYPE_2_SENDER_S_IDX = 11"

lemmas eth_idx_consts =
  ETH_TYPE_0_NONCE_IDX_def ETH_TYPE_0_GAS_PRICE_IDX_def ETH_TYPE_0_GAS_LIMIT_IDX_def ETH_TYPE_0_TO_IDX_def
  ETH_TYPE_0_VALUE_IDX_def ETH_TYPE_0_DATA_IDX_def ETH_TYPE_0_V_IDX_def ETH_TYPE_0_R_IDX_def
  ETH_TYPE_0_S_IDX_def ETH_TYPE_1_CHAIN_ID_IDX_def ETH_TYPE_1_NONCE_IDX_def ETH_TYPE_1_GAS_PRICE_IDX_def
  ETH_TYPE_1_GAS_LIMIT_IDX_def ETH_TYPE_1_TO_IDX_def ETH_TYPE_1_VALUE_IDX_def ETH_TYPE_1_DATA_IDX_def
  ETH_TYPE_1_ACCESS_LIST_IDX_def ETH_TYPE_1_Y_PARITY_IDX_def ETH_TYPE_1_SENDER_R_IDX_def ETH_TYPE_1_SENDER_S_IDX_def
  ETH_TYPE_2_CHAIN_ID_IDX_def ETH_TYPE_2_NONCE_IDX_def ETH_TYPE_2_MAX_PRIORITY_FEE_PER_GAS_IDX_def ETH_TYPE_2_MAX_FEE_PER_GAS_IDX_def
  ETH_TYPE_2_START_GAS_IDX_def ETH_TYPE_2_TO_IDX_def ETH_TYPE_2_VALUE_IDX_def ETH_TYPE_2_DATA_IDX_def
  ETH_TYPE_2_ACCESS_LIST_IDX_def ETH_TYPE_2_Y_PARITY_IDX_def ETH_TYPE_2_SENDER_R_IDX_def ETH_TYPE_2_SENDER_S_IDX_def

section \<open>EthTxMessage::decode\<close>

record eth_tx =
  et_nonce :: nat
  et_gas_price :: nat
  et_gas_limit :: nat
  et_v :: nat
  et_max_priority_fee_per_gas :: nat
  et_max_fee_per_gas :: nat
  et_start_gas :: nat
  et_y_parity :: nat
  et_chain_id :: nat
  et_r :: "byte list"
  et_s :: "byte list"
  et_value :: "nat list"
  et_access_list :: "byte list"
  et_address :: "byte list"
  et_data :: buffer_view
  et_sha :: sha256
  et_rlp_list :: "rlp list"
  et_payload_type :: nat

definition item_of :: "rlp list \<Rightarrow> nat \<Rightarrow> rlp res" where
  \<comment> \<open>\<^verbatim>\<open>_rlp_list[idx]\<close>\<close>
  "item_of items idx = (if idx < length items then Inr (items ! idx) else Inl MemFault)"

abbreviation item_int :: "rlp list \<Rightarrow> nat \<Rightarrow> nat res" where
  "item_int items idx \<equiv> rbind (item_of items idx) rlp_as_int"

abbreviation item_vector :: "rlp list \<Rightarrow> nat \<Rightarrow> byte list res" where
  "item_vector items idx \<equiv> rbind (item_of items idx) rlp_as_vector"

definition eth_tx_envelope :: "buffer_view \<Rightarrow> nat \<Rightarrow> (nat \<times> rlp \<times> nat \<times> nat) res" where
  \<comment> \<open>the payload type, the list of the items, and where the bytes that are hashed start and how many they are\<close>
  "eth_tx_envelope v off =
     rbind (rlp_new v off) (\<lambda>rlp.
       if rlp_type rlp = RLP_LIST then
         Inr (ETH_TX_TYPE_0, rlp, off, u64_sub (u64 (rlp_length rlp + rlp_val_offset rlp)) (rlp_starting_offset rlp))
       else
         rbind (if rlp_type rlp = RLP_STRING
                then (if rlp_length rlp < 1 then Inl RuntimeError else Inr (rlp_val_offset rlp))
                else Inr off) (\<lambda>starting_offset_for_hash.
         rbind (bv_at (rlp_buf rlp) starting_offset_for_hash) (\<lambda>tx_type.
         rbind (if unat tx_type = ETH_TX_TYPE_0 then Inr (ETH_TX_TYPE_0, u64 (starting_offset_for_hash + 1))
                else if unat tx_type \<le> ETH_TX_TYPE_2 then Inr (unat tx_type, starting_offset_for_hash)
                else Inl RuntimeError) (\<lambda>(payload_type, starting_offset_for_hash).
         rbind (rlp_new v (u64 (rlp_val_offset rlp + 1))) (\<lambda>rlp.
           Inr (payload_type, rlp, starting_offset_for_hash,
             u64 (u64_sub (u64 (rlp_length rlp + rlp_val_offset rlp)) (rlp_starting_offset rlp) + 1)))))))"

definition chain_id_of_v :: "nat \<Rightarrow> nat" where
  \<comment> \<open>\<^verbatim>\<open>_v\<close> is cut to 8 bits; it is odd when the offset is taken from it, and the division is exact\<close>
  "chain_id_of_v v0 =
     (let v = v0 mod 256; v = (if v mod 2 = 0 then (v + 255) mod 256 else v)
      in nat ((int v - int EIP155_CHAIN_ID_OFFSET) div 2 mod 256))"

definition eth_fields_type_0 :: "rlp list \<Rightarrow> eth_tx \<Rightarrow> eth_tx res" where
  "eth_fields_type_0 items m =
     rbind (item_int items ETH_TYPE_0_NONCE_IDX) (\<lambda>nonce.
     rbind (item_int items ETH_TYPE_0_GAS_PRICE_IDX) (\<lambda>gas_price.
     rbind (item_int items ETH_TYPE_0_GAS_LIMIT_IDX) (\<lambda>gas_limit.
     rbind (item_vector items ETH_TYPE_0_TO_IDX) (\<lambda>address.
     rbind (rbind (item_of items ETH_TYPE_0_VALUE_IDX) rlp_as_large_int) (\<lambda>val.
     rbind (rbind (item_of items ETH_TYPE_0_DATA_IDX) as_rlp_string) (\<lambda>data.
     rbind (item_int items ETH_TYPE_0_V_IDX) (\<lambda>v.
     rbind (item_vector items ETH_TYPE_0_R_IDX) (\<lambda>r.
     rbind (item_vector items ETH_TYPE_0_S_IDX) (\<lambda>s.
       Inr (m\<lparr>et_nonce := nonce, et_gas_price := gas_price, et_gas_limit := gas_limit, et_address := address,
             et_value := val, et_data := data, et_v := v, et_r := r, et_s := s,
             et_chain_id := chain_id_of_v v, et_access_list := [], et_y_parity := 0\<rparr>))))))))))"

definition eth_fields_type_1 :: "rlp list \<Rightarrow> eth_tx \<Rightarrow> eth_tx res" where
  "eth_fields_type_1 items m =
     rbind (item_int items ETH_TYPE_1_CHAIN_ID_IDX) (\<lambda>chain_id.
     rbind (item_int items ETH_TYPE_1_NONCE_IDX) (\<lambda>nonce.
     rbind (item_int items ETH_TYPE_1_GAS_PRICE_IDX) (\<lambda>gas_price.
     rbind (item_int items ETH_TYPE_1_GAS_LIMIT_IDX) (\<lambda>gas_limit.
     rbind (item_vector items ETH_TYPE_1_TO_IDX) (\<lambda>address.
     rbind (rbind (item_of items ETH_TYPE_1_VALUE_IDX) rlp_as_large_int) (\<lambda>val.
     rbind (rbind (item_of items ETH_TYPE_1_DATA_IDX) as_rlp_string) (\<lambda>data.
     rbind (item_vector items ETH_TYPE_1_ACCESS_LIST_IDX) (\<lambda>access_list.
     rbind (item_int items ETH_TYPE_1_Y_PARITY_IDX) (\<lambda>y_parity.
     rbind (item_vector items ETH_TYPE_1_SENDER_R_IDX) (\<lambda>r.
     rbind (item_vector items ETH_TYPE_1_SENDER_S_IDX) (\<lambda>s.
       Inr (m\<lparr>et_chain_id := chain_id mod 256, et_nonce := nonce, et_gas_price := gas_price, et_gas_limit := gas_limit,
             et_address := address, et_value := val, et_data := data, et_access_list := access_list,
             et_y_parity := y_parity mod 256, et_r := r, et_s := s, et_v := 0\<rparr>))))))))))))"

definition eth_fields_type_2 :: "rlp list \<Rightarrow> eth_tx \<Rightarrow> eth_tx res" where
  "eth_fields_type_2 items m =
     rbind (item_int items ETH_TYPE_2_CHAIN_ID_IDX) (\<lambda>chain_id.
     rbind (item_int items ETH_TYPE_2_NONCE_IDX) (\<lambda>nonce.
     rbind (item_int items ETH_TYPE_2_MAX_PRIORITY_FEE_PER_GAS_IDX) (\<lambda>max_priority_fee_per_gas.
     rbind (item_int items ETH_TYPE_2_MAX_FEE_PER_GAS_IDX) (\<lambda>max_fee_per_gas.
     rbind (item_int items ETH_TYPE_2_START_GAS_IDX) (\<lambda>start_gas.
     rbind (item_vector items ETH_TYPE_2_TO_IDX) (\<lambda>address.
     rbind (rbind (item_of items ETH_TYPE_2_VALUE_IDX) rlp_as_large_int) (\<lambda>val.
     rbind (rbind (item_of items ETH_TYPE_2_DATA_IDX) as_rlp_string) (\<lambda>data.
     rbind (item_vector items ETH_TYPE_2_ACCESS_LIST_IDX) (\<lambda>access_list.
     rbind (item_int items ETH_TYPE_2_Y_PARITY_IDX) (\<lambda>y_parity.
     rbind (item_vector items ETH_TYPE_2_SENDER_R_IDX) (\<lambda>r.
     rbind (item_vector items ETH_TYPE_2_SENDER_S_IDX) (\<lambda>s.
       Inr (m\<lparr>et_chain_id := chain_id mod 256, et_nonce := nonce, et_max_priority_fee_per_gas := max_priority_fee_per_gas,
             et_max_fee_per_gas := max_fee_per_gas, et_gas_price := max_fee_per_gas, et_gas_limit := 0, et_start_gas := start_gas,
             et_address := address, et_value := val, et_data := data, et_access_list := access_list,
             et_y_parity := y_parity mod 256, et_r := r, et_s := s, et_v := 0\<rparr>)))))))))))))"

definition eth_tx_fields :: "nat \<Rightarrow> rlp list \<Rightarrow> eth_tx \<Rightarrow> eth_tx res" where
  "eth_tx_fields payload_type items m =
     (if payload_type = ETH_TX_TYPE_0 then eth_fields_type_0 items m
      else if payload_type = ETH_TX_TYPE_1 then eth_fields_type_1 items m
      else if payload_type = ETH_TX_TYPE_2 then eth_fields_type_2 items m
      else Inr m)"

definition eth_tx_decode :: "buffer_view \<Rightarrow> nat \<Rightarrow> eth_tx \<Rightarrow> ((nat \<times> eth_tx) res) option" where
  \<comment> \<open>the offset behind the transaction; a list of fewer than eight items is taken for a receipt and not consumed\<close>
  "eth_tx_decode v off m =
     (case eth_tx_envelope v off of
        Inl e \<Rightarrow> Some (Inl e)
      | Inr (payload_type, rlp, starting_offset_for_hash, payload_len_for_hash) \<Rightarrow>
          (case get_rlp_list rlp of
             None \<Rightarrow> None
           | Some (Inl e) \<Rightarrow> Some (Inl e)
           | Some (Inr items) \<Rightarrow>
               Some (let m = m\<lparr>et_payload_type := payload_type, et_rlp_list := items\<rparr>
                 in if payload_type = ETH_TX_TYPE_0 \<and> length items < ETH_TYPE_0_S_IDX then Inr (off, m)
                    else rbind (eth_tx_fields payload_type items m) (\<lambda>m.
                         rbind (keccak_sha3 (bv_read v) starting_offset_for_hash payload_len_for_hash) (\<lambda>sha.
                           Inr (u64 (rlp_val_offset rlp + rlp_length rlp), m\<lparr>et_sha := sha\<rparr>))))))"

section \<open>EthTxMessage::deserialize and get_unsigned_msg\<close>

definition catching :: "'a \<Rightarrow> 'a res \<Rightarrow> 'a res" where
  \<comment> \<open>\<^verbatim>\<open>catch (...)\<close>: undefined behaviour and termination are not exceptions\<close>
  "catching d m =
     (case m of
        Inr x \<Rightarrow> Inr x
      | Inl e \<Rightarrow> if e = MemFault \<or> e = Terminate then Inl e else Inr d)"

definition deserialize_int :: "rlp \<Rightarrow> bool res" where
  "deserialize_int r =
     catching False
       (let rd = bv_read (rlp_buf r); pos = u64 (rlp_starting_offset r + rlp_val_offset r)
        in if 8 < rlp_length r
           then rbind (get_big_endian_rlp_large_value rd pos (rlp_length r) []) (\<lambda>_. Inr True)
           else rbind (get_big_endian_rlp_value rd pos (rlp_length r)) (\<lambda>_. Inr True))"

definition deserialize_string :: "nat \<Rightarrow> nat \<Rightarrow> bool" where
  "deserialize_string string_len max_length \<longleftrightarrow> string_len \<le> max_length"

fun deserialize_ints :: "rlp list \<Rightarrow> nat list \<Rightarrow> bool res" where
  "deserialize_ints items [] = Inr True"
| "deserialize_ints items (idx # idxs) =
     rbind (rbind (item_of items idx) deserialize_int) (\<lambda>ok.
       if ok then deserialize_ints items idxs else Inr False)"

definition int_indexes :: "nat \<Rightarrow> nat list" where
  "int_indexes payload_type =
     (if payload_type = ETH_TX_TYPE_0 then
        [ETH_TYPE_0_NONCE_IDX, ETH_TYPE_0_GAS_PRICE_IDX, ETH_TYPE_0_GAS_LIMIT_IDX,
         ETH_TYPE_0_VALUE_IDX, ETH_TYPE_0_V_IDX, ETH_TYPE_0_R_IDX, ETH_TYPE_0_S_IDX]
      else if payload_type = ETH_TX_TYPE_1 then
        [ETH_TYPE_1_CHAIN_ID_IDX, ETH_TYPE_1_NONCE_IDX, ETH_TYPE_1_GAS_PRICE_IDX, ETH_TYPE_1_GAS_LIMIT_IDX,
         ETH_TYPE_1_VALUE_IDX, ETH_TYPE_1_Y_PARITY_IDX, ETH_TYPE_1_SENDER_R_IDX, ETH_TYPE_1_SENDER_S_IDX]
      else if payload_type = ETH_TX_TYPE_2 then
        [ETH_TYPE_2_CHAIN_ID_IDX, ETH_TYPE_2_NONCE_IDX, ETH_TYPE_2_MAX_PRIORITY_FEE_PER_GAS_IDX,
         ETH_TYPE_2_MAX_FEE_PER_GAS_IDX, ETH_TYPE_2_START_GAS_IDX,
         ETH_TYPE_2_VALUE_IDX, ETH_TYPE_2_Y_PARITY_IDX, ETH_TYPE_2_SENDER_R_IDX, ETH_TYPE_2_SENDER_S_IDX]
      else [])"

definition deserialize_strings :: "eth_tx \<Rightarrow> nat \<Rightarrow> bool res" where
  \<comment> \<open>the two checks of each payload type; \<open>2 ^ 64 - 1\<close> is \<^verbatim>\<open>ULLONG_MAX\<close>\<close>
  "deserialize_strings m data_idx =
     rbind (item_of (et_rlp_list m) data_idx) (\<lambda>data.
       Inr (deserialize_string (rlp_length data) (2 ^ 64 - 1) \<and> deserialize_string (length (et_address m)) ETH_ADDRESS_LEN))"

definition eth_tx_deserialize :: "eth_tx \<Rightarrow> bool res" where
  "eth_tx_deserialize m =
     catching False
       (rbind (if et_payload_type m = ETH_TX_TYPE_0 then deserialize_strings m ETH_TYPE_0_DATA_IDX
               else if et_payload_type m = ETH_TX_TYPE_1 then deserialize_strings m ETH_TYPE_1_DATA_IDX
               else if et_payload_type m = ETH_TX_TYPE_2 then deserialize_strings m ETH_TYPE_2_DATA_IDX
               else Inr True) (\<lambda>ok.
          if ok then deserialize_ints (et_rlp_list m) (int_indexes (et_payload_type m)) else Inr False))"

abbreviation vec_prefix_list :: "byte list \<Rightarrow> nat \<Rightarrow> nat \<Rightarrow> (byte list \<times> nat) res" where
  "vec_prefix_list \<equiv> get_length_prefix_list length (\<lambda>xs n. vec_resize n xs) vec_poke"

definition unsigned_frame :: "eth_tx \<Rightarrow> nat \<Rightarrow> (byte list \<times> nat) res" where
  \<comment> \<open>the vector with everything but the items of the transaction, and where these go\<close>
  "unsigned_frame m unsigned_msg_len =
     (if et_payload_type m = ETH_TX_TYPE_0 then
        (if EIP155_CHAIN_ID_OFFSET \<le> et_v m then
           rbind (vec_prefix_list [] (u64 (unsigned_msg_len + 3)) 0) (\<lambda>(unsigned_msg, rlp_len).
           let unsigned_msg = vec_resize (u64 (rlp_len + unsigned_msg_len + 3)) unsigned_msg
           in rbind (vec_poke unsigned_msg (u64 (rlp_len + unsigned_msg_len)) [of_nat (et_chain_id m)]) (\<lambda>unsigned_msg.
              rbind (vec_poke unsigned_msg (u64 (rlp_len + unsigned_msg_len + 1)) [0x80]) (\<lambda>unsigned_msg.
              rbind (vec_poke unsigned_msg (u64 (rlp_len + unsigned_msg_len + 2)) [0x80]) (\<lambda>unsigned_msg.
                Inr (unsigned_msg, rlp_len)))))
         else
           rbind (vec_prefix_list [] unsigned_msg_len 0) (\<lambda>(unsigned_msg, rlp_len).
             Inr (vec_resize (u64 (rlp_len + unsigned_msg_len)) unsigned_msg, rlp_len)))
      else if et_payload_type m \<le> ETH_TX_TYPE_2 then
        rbind (vec_prefix_list [] unsigned_msg_len 1) (\<lambda>(unsigned_msg, rlp_len).
        rbind (vec_poke (vec_resize (u64 (rlp_len + unsigned_msg_len)) unsigned_msg) 0 [of_nat (et_payload_type m)]) (\<lambda>unsigned_msg.
          Inr (unsigned_msg, rlp_len)))
      else Inr ([], 0))"

definition unsigned_range :: "nat \<Rightarrow> nat \<times> nat" where
  \<comment> \<open>the first and the last item that are signed\<close>
  "unsigned_range payload_type =
     (if payload_type = ETH_TX_TYPE_1 then (ETH_TYPE_1_CHAIN_ID_IDX, ETH_TYPE_1_ACCESS_LIST_IDX)
      else if payload_type = ETH_TX_TYPE_2 then (ETH_TYPE_2_CHAIN_ID_IDX, ETH_TYPE_2_ACCESS_LIST_IDX)
      else (ETH_TYPE_0_NONCE_IDX, ETH_TYPE_0_DATA_IDX))"

definition get_unsigned_msg :: "eth_tx \<Rightarrow> byte list res" where
  "get_unsigned_msg m =
     (let (first_item_idx, last_item_idx) = unsigned_range (et_payload_type m)
      in rbind (item_of (et_rlp_list m) first_item_idx) (\<lambda>first_item.
         rbind (item_of (et_rlp_list m) last_item_idx) (\<lambda>last_item.
         let starting_offset = rlp_starting_offset first_item;
             ending_offset = u64 (u64 (rlp_starting_offset last_item + rlp_val_offset last_item) + rlp_length last_item);
             unsigned_msg_len = u64_sub ending_offset starting_offset
         in rbind (unsigned_frame m unsigned_msg_len) (\<lambda>(unsigned_msg, rlp_len).
            rbind (bv_at_read (rlp_buf first_item) starting_offset unsigned_msg_len) (\<lambda>bs.
              vec_poke unsigned_msg rlp_len bs)))))"

section \<open>EthTxsMessage and EthMessageParser\<close>

partial_function (option) eth_txs_loop :: "eth_tx \<Rightarrow> buffer_view \<Rightarrow> nat \<Rightarrow> nat \<Rightarrow> eth_tx list \<Rightarrow> (eth_tx list res) option" where
  \<comment> \<open>\<open>fresh\<close> is the object each turn starts from, with members that nobody has set\<close>
  "eth_txs_loop fresh v end_offset off acc =
     (if off < end_offset then
        (case eth_tx_decode v off fresh of
           None \<Rightarrow> None
         | Some r \<Rightarrow> (case r of
             Inl e \<Rightarrow> Some (Inl e)
           | Inr t \<Rightarrow> (case t of (next_offset, tx) \<Rightarrow>
               if next_offset = off then Some (Inl RuntimeError)
               else eth_txs_loop fresh v end_offset next_offset (acc @ [tx]))))
      else Some (Inr acc))"

definition eth_txs_decode :: "eth_tx \<Rightarrow> buffer_view \<Rightarrow> nat \<Rightarrow> eth_tx list \<Rightarrow> ((nat \<times> eth_tx list) res) option" where
  "eth_txs_decode fresh v off transactions =
     (case bv_consume v off of
        Inl e \<Rightarrow> Some (Inl e)
      | Inr (len, _, off) \<Rightarrow>
          (case eth_txs_loop fresh v (u64 (off + len)) off transactions of
             None \<Rightarrow> None
           | Some r \<Rightarrow> Some (rbind r (\<lambda>txs. Inr (u64 (off + len), txs)))))"

definition parse_tx :: "buffer_view \<Rightarrow> nat \<Rightarrow> (nat \<times> parsed_tx) res" where
  "parse_tx v off =
     rbind (bv_consume v off) (\<lambda>(tx_length, rlp_type, tx_offset).
     let tx_end = u64 (tx_offset + tx_length)
     in rbind (if rlp_type = RLP_LIST then keccak_sha3 (bv_read v) off (u64_sub tx_end off)
               else keccak_sha3 (bv_read v) tx_offset (u64_sub tx_end tx_offset)) (\<lambda>sha.
          Inr (tx_end, \<lparr>ptx_hash = sha_binary sha, ptx_offset = off, ptx_length = u64_sub tx_end off\<rparr>)))"

partial_function (option) parse_txs :: "buffer_view \<Rightarrow> nat \<Rightarrow> nat \<Rightarrow> parsed_tx list \<Rightarrow> (parsed_tx list res) option" where
  "parse_txs v end_offset off acc =
     (if off < end_offset then
        (case parse_tx v off of
           Inl e \<Rightarrow> Some (Inl e)
         | Inr t \<Rightarrow> (case t of (tx_end, tx) \<Rightarrow> parse_txs v end_offset tx_end (acc @ [tx])))
      else Some (Inr acc))"

definition parse_transactions_message :: "buffer_view \<Rightarrow> (parsed_tx list res) option" where
  "parse_transactions_message v =
     (case bv_consume v 0 of
        Inl e \<Rightarrow> Some (Inl e)
      | Inr (tx_bytes_length, _, off) \<Rightarrow> parse_txs v (u64 (off + tx_bytes_length)) off [])"

section \<open>Signature\<close>

definition vec_insert :: "byte list \<Rightarrow> int \<Rightarrow> byte list \<Rightarrow> byte list res" where
  \<comment> \<open>\<^verbatim>\<open>v.insert(v.begin() + pos, ...)\<close>\<close>
  "vec_insert xs pos ys =
     (if 0 \<le> pos \<and> nat pos \<le> length xs then Inr (take (nat pos) xs @ ys @ drop (nat pos) xs) else Inl MemFault)"

definition signature_parity :: "nat \<Rightarrow> nat \<Rightarrow> nat \<Rightarrow> nat res" where
  \<comment> \<open>for a payload type above 2, which no decoded transaction has, the variable is read uninitialised\<close>
  "signature_parity v payload_type y_parity =
     (if payload_type = ETH_TX_TYPE_0 then
        (let parity = (if EIP155_CHAIN_ID_OFFSET < v then (if v mod 2 = 0 then V_RANGE_END else V_RANGE_START)
                       else u64_sub v 27 mod 256)
         in if parity \<noteq> V_RANGE_START \<and> parity \<noteq> V_RANGE_END then Inl RuntimeError else Inr parity)
      else if payload_type \<le> ETH_TX_TYPE_2 then Inr y_parity
      else Inl MemFault)"

definition encode_signature :: "nat \<Rightarrow> byte list \<Rightarrow> byte list \<Rightarrow> nat \<Rightarrow> nat \<Rightarrow> byte list res" where
  \<comment> \<open>the vector has its length when it is filled with zeros, whatever it held before\<close>
  "encode_signature v r s payload_type y_parity =
     rbind (signature_parity v payload_type y_parity) (\<lambda>parity.
     rbind (vec_insert (replicate SIGNATURE_LEN 0) (int MAX_R_SIZE - int (length r)) r) (\<lambda>sig.
     rbind (vec_insert sig (int (MAX_R_SIZE + MAX_T_SIZE) - int (length s)) s) (\<lambda>sig.
       Inr (vec_resize SIGNATURE_LEN (sig[64 := of_nat parity])))))"

definition recover ::
  "(byte list \<Rightarrow> nat \<Rightarrow> 'sig option) \<Rightarrow> ('sig \<Rightarrow> byte list \<Rightarrow> 'key option) \<Rightarrow> ('key \<Rightarrow> byte list) \<Rightarrow>
   byte list \<Rightarrow> sha256 \<Rightarrow> byte list res" where
  "recover parse_compact ecdsa_recover serialize sig unsigned_msg_hash =
     rbind (vec_read sig (SIGNATURE_LEN - 1) 1) (\<lambda>bs.
     let v = unat (hd bs)
     in if 3 < v then Inr []
        else (case parse_compact (take 64 sig) v of
                None \<Rightarrow> Inr []
              | Some raw_signature \<Rightarrow>
                  (case ecdsa_recover raw_signature (sha_binary unsigned_msg_hash) of
                     None \<Rightarrow> Inr []
                   | Some raw_public_key \<Rightarrow>
                       (let key = serialize raw_public_key
                        in if length key = SIGNATURE_LEN \<and> hd key = 0x04 then Inr (drop 1 key) else Inl Terminate))))"

definition verify ::
  "(byte list \<Rightarrow> nat \<Rightarrow> 'sig option) \<Rightarrow> ('sig \<Rightarrow> byte list \<Rightarrow> 'key option) \<Rightarrow> ('key \<Rightarrow> byte list) \<Rightarrow>
   byte list \<Rightarrow> byte list \<Rightarrow> byte list \<Rightarrow> bool res" where
  "verify parse_compact ecdsa_recover serialize sig public_key unsigned_msg =
     (if public_key = [] then Inr False
      else rbind (keccak_sha3 (vec_read unsigned_msg) 0 (length unsigned_msg)) (\<lambda>h.
           rbind (recover parse_compact ecdsa_recover serialize sig h) (\<lambda>key. Inr (public_key = key))))"

section \<open>EthTransactionValidator\<close>

definition verify_transaction_signature ::
  "(byte list \<Rightarrow> nat \<Rightarrow> 'sig option) \<Rightarrow> ('sig \<Rightarrow> byte list \<Rightarrow> 'key option) \<Rightarrow> ('key \<Rightarrow> byte list) \<Rightarrow>
   eth_tx \<Rightarrow> sha256 \<Rightarrow> (bool \<times> sha256) res" where
  \<comment> \<open>everything that may throw comes before the assignment to \<^verbatim>\<open>sender_nonce_key\<close>\<close>
  "verify_transaction_signature parse_compact ecdsa_recover serialize m sender_nonce_key =
     catching (False, sender_nonce_key)
       (rbind (encode_signature (et_v m) (et_r m) (et_s m) (et_payload_type m) (et_y_parity m)) (\<lambda>sig.
        rbind (get_unsigned_msg m) (\<lambda>unsigned_msg.
        rbind (keccak_sha3 (vec_read unsigned_msg) 0 (length unsigned_msg)) (\<lambda>msg_hash.
        rbind (recover parse_compact ecdsa_recover serialize sig msg_hash) (\<lambda>public_key.
        rbind (keccak_sha3 (vec_read public_key) 0 (length public_key)) (\<lambda>address.
        rbind (verify parse_compact ecdsa_recover serialize sig public_key unsigned_msg) (\<lambda>ok.
          Inr (ok, sha_with_nonce address (et_nonce m)))))))))"

definition parse_transaction :: "buffer_view \<Rightarrow> eth_tx \<Rightarrow> ((bool \<times> eth_tx) res) option" where
  \<comment> \<open>the message is only used after success; an offset of 0 means that nothing was consumed\<close>
  "parse_transaction v m =
     (case eth_tx_decode v 0 m of
        None \<Rightarrow> None
      | Some r \<Rightarrow>
          Some (catching (False, m)
            (rbind r (\<lambda>(off, m). if off \<noteq> 0 then rbind (eth_tx_deserialize m) (\<lambda>ok. Inr (ok, m)) else Inr (False, m)))))"

definition u64_of_double :: "real \<Rightarrow> nat res" where
  \<comment> \<open>outside this range the conversion is undefined\<close>
  "u64_of_double x = (if - 1 < x \<and> x < 2 ^ 64 then Inr (nat \<lfloor>x\<rfloor>) else Inl MemFault)"

definition check_sender_nonce ::
  "real \<Rightarrow> hash \<Rightarrow> nat \<Rightarrow> nonce_map \<Rightarrow> real \<Rightarrow> real \<Rightarrow> (nat \<times> nonce_map) res" where
  "check_sender_nonce current_time sender_nonce curr_gas_price nonces age factor =
     rbind (case om_find nonces sender_nonce of
              None \<Rightarrow> Inr False
            | Some it \<Rightarrow> rbind (om_deref nonces it) (\<lambda>(_, elem_time, elem_gas_price).
                Inr (current_time < elem_time \<and> curr_gas_price < elem_gas_price))) (\<lambda>reuse.
       if reuse then Inr (set_bit TX_VALIDATION_STATUS_REUSE_SENDER_NONCE 0, nonces)
       else rbind (u64_of_double (real curr_gas_price * factor)) (\<lambda>gas.
              Inr (set_bit TX_VALIDATION_STATUS_VALID_TX 0, fst (om_emplace nonces sender_nonce (current_time + age, gas)))))"

definition eth_transaction_validation ::
  "(byte list \<Rightarrow> nat \<Rightarrow> 'sig option) \<Rightarrow> ('sig \<Rightarrow> byte list \<Rightarrow> 'key option) \<Rightarrow> ('key \<Rightarrow> byte list) \<Rightarrow> eth_tx \<Rightarrow>
   buffer_view \<Rightarrow> nat \<Rightarrow> real \<Rightarrow> nonce_map \<Rightarrow> real \<Rightarrow> real \<Rightarrow> ((nat \<times> nonce_map) res) option" where
  "eth_transaction_validation parse_compact ecdsa_recover serialize fresh v min_tx_network_fee current_time nonces age factor =
     (case parse_transaction v fresh of
        None \<Rightarrow> None
      | Some r \<Rightarrow>
          Some (rbind r (\<lambda>(parsed, m).
            if \<not> parsed then Inr (set_bit TX_VALIDATION_STATUS_INVALID_FORMAT 0, nonces)
            else rbind (verify_transaction_signature parse_compact ecdsa_recover serialize m sha_zero) (\<lambda>(verified, sender_nonce).
              if \<not> verified then Inr (set_bit TX_VALIDATION_STATUS_INVALID_SIGNATURE 0, nonces)
              else if min_tx_network_fee \<le> et_gas_price m then
                (if 0 < current_time
                 then check_sender_nonce current_time (sha_binary sender_nonce) (et_gas_price m) nonces age factor
                 else Inr (set_bit TX_VALIDATION_STATUS_VALID_TX 0, nonces))
              else Inr (set_bit TX_VALIDATION_STATUS_INVALID_LOW_FEE 0, nonces)))))"

end
