(* ===== verification/EthTxProps.thy ===== *)
theory EthTxProps
  imports EthTx EthCompressionProps
begin

text \<open>
  What the code of theory \<open>EthTx\<close> does on well-formed messages. A transaction is given by the values
  of its items; \<open>eth_tx_value\<close> encodes it as a list or, for types 1 and 2, as the string of its type and
  the list. The signing payload follows EIP-155, EIP-2930 and EIP-1559.
\<close>

section \<open>Items of a list\<close>

lemma length_items_at [simp]: "length (items_at v off xs) = length xs"
  by (induction xs arbitrary: off) simp_all

lemma items_at_nth:
  "i < length xs \<Longrightarrow> items_at v off xs ! i =
     rlp_item v (length (payload (xs ! i))) (length (enc_value (xs ! i)) - length (payload (xs ! i)))
       (off + length (concat (map enc_value (take i xs)))) (value_type (xs ! i))"
proof (induction xs arbitrary: i off)
  case (Cons x xs)
  then show ?case by (cases i) (simp_all add: add.assoc)
qed simp

fun be_words :: "byte list \<Rightarrow> nat list" where
  "be_words bs = (if 8 < length bs then be_val (take 8 bs) # be_words (drop 8 bs) else [be_val bs])"

declare be_words.simps [simp del]

lemma get_rlp_value_any:
  assumes "bv_ok v" and "bv_bytes v = pre @ ys @ post" and "length ys \<le> 8"
  shows "get_big_endian_rlp_value (bv_read v) (length pre) (length ys) = Inr (be_val ys, length pre + length ys)"
proof (cases "ys = []")
  case True
  then show ?thesis by (simp add: get_big_endian_rlp_value_def be_val_def)
qed (use bvs.get_rlp_value_at [OF assms(1,2)] assms(3) in simp)

lemma get_rlp_large_value_at:
  assumes v: "bv_ok v" and eq: "bv_bytes v = pre @ ys @ post"
  shows "\<exists>l. get_big_endian_rlp_large_value (bv_read v) (length pre) (length ys) acc =
    Inr (acc @ be_words ys, l, length pre + length ys)"
  using eq
proof (induction ys arbitrary: pre acc rule: be_words.induct)
  case (1 ys)
  show ?case
  proof (cases "8 < length ys")
    case True
    have "bv_bytes v = (pre @ take 8 ys) @ drop 8 ys @ post" using 1(2) by (metis append_assoc append_take_drop_id)
    from 1(1) [OF True this, of "acc @ [be_val (take 8 ys)]"]
    have IH: "\<exists>l. get_big_endian_rlp_large_value (bv_read v) (length pre + 8) (length ys - 8) (acc @ [be_val (take 8 ys)]) =
        Inr ((acc @ [be_val (take 8 ys)]) @ be_words (drop 8 ys), l, length pre + length ys)"
      using True by (simp add: min_absorb2)
    have "get_be_sized (bv_read v) 8 (length pre) (length (take 8 ys)) = Inr (be_val (take 8 ys), length pre + length (take 8 ys))"
      using True 1(2) by (intro bvs.get_be_sized_at [OF v, where post = "drop 8 ys @ post"]) auto
    then show ?thesis using IH True
      by (subst get_big_endian_rlp_large_value.simps, subst be_words.simps) (simp add: min_absorb2)
  next
    case False
    then show ?thesis using get_rlp_value_any [OF v 1(2)]
      by (subst get_big_endian_rlp_large_value.simps, subst be_words.simps) simp
  qed
qed

lemma item_reads:
  assumes v: "bv_ok v" "bv_buf v = Some mem" "bv_bytes v = pre @ enc_value x @ post" and n: "length (payload x) < 2 ^ 32"
    and r: "r = rlp_item v (length (payload x)) (length (enc_value x) - length (payload x)) (length pre) (value_type x)"
  shows "rlp_as_vector r = Inr (slice (length pre + (length (enc_value x) - length (payload x))) (length (payload x)) mem)"
    and "length (payload x) \<le> 8 \<Longrightarrow> rlp_as_int r = Inr (be_val (payload x))"
    and "rlp_as_large_int r = Inr (be_words (payload x))"
    and "\<exists>w. as_rlp_string r = Inr w \<and> bv_wf w \<and> bv_bytes w = payload x"
    and "deserialize_int r = Inr True"
    and "rlp_end r = length (pre @ enc_value x)"
proof -
  obtain p where p: "enc_value x = p @ payload x" using enc_value_split by blast
  let ?q = "pre @ p" and ?y = "payload x"
  have eq: "bv_bytes v = ?q @ ?y @ post" using v(3) p by simp
  have sz: "bv_size v = length (bv_bytes v)" "length (bv_bytes v) < 2 ^ 64"
    using v(1) bvs.bytes_small [OF v(1)] by (simp_all add: bv_ok_def)
  have r': "r = rlp_item v (length ?y) (length p) (length pre) (value_type x)" using r p by simp
  have u: "u64 (length pre + length p) = length ?q" "u64 (length ?q + length ?y) = length ?q + length ?y"
    using eq sz by (simp_all add: u64_id)
  have fin: "rlp_end r = length ?q + length ?y" using u by (simp add: rlp_end_def r' rlp_item_def)
  then show "rlp_end r = length (pre @ enc_value x)" using p by simp
  have chk: "rlp_check r = Inr ()" using fin sz eq by (simp add: rlp_check_def r' rlp_item_def)
  have sel: "rlp_buf r = v" "rlp_starting_offset r = length pre" "rlp_val_offset r = length p" "rlp_length r = length ?y"
    by (simp_all add: r' rlp_item_def)
  have "length (bv_bytes v) \<le> length mem" using v(1,2) by (simp add: bv_ok_def bv_wf_def)
  then show "rlp_as_vector r = Inr (slice (length pre + (length (enc_value x) - length ?y)) (length ?y) mem)"
    using chk u(1) v(2) eq p by (simp add: rlp_as_vector_def sel bv_vector_def)
  have val: "length ?y \<le> 8 \<Longrightarrow> get_big_endian_rlp_value (bv_read v) (length ?q) (length ?y) = Inr (be_val ?y, length ?q + length ?y)"
    using get_rlp_value_any [OF v(1) eq] .
  obtain l where large: "get_big_endian_rlp_large_value (bv_read v) (length ?q) (length ?y) [] = Inr (be_words ?y, l, length ?q + length ?y)"
    using get_rlp_large_value_at [OF v(1) eq, of "[]"] by auto
  have c: "bv_consume v (length pre) = Inr (length ?y, value_type x, length ?q)" using consume_value_at [OF v(1,3) n] p by simp
  show "rlp_as_int r = Inr (be_val ?y)" if l8: "length ?y \<le> 8"
  proof (cases "p = []")
    case True
    then show ?thesis using chk val [OF l8] c u(1) fin by (simp add: rlp_as_int_def sel decode_int_def)
  next
    case False
    then show ?thesis using chk val [OF l8] u(1) fin l8 by (simp add: rlp_as_int_def sel)
  qed
  have "length ?q + length ?y \<noteq> 0" using p enc_value_nonempty [of x] by auto
  then show "rlp_as_large_int r = Inr (be_words ?y)" using chk large u(1) fin by (simp add: rlp_as_large_int_def sel)
  show "deserialize_int r = Inr True" using val large u(1) by (cases "8 < length ?y") (simp_all add: deserialize_int_def sel catching_def Let_def)
  show "\<exists>w. as_rlp_string r = Inr w \<and> bv_wf w \<and> bv_bytes w = ?y"
    using items_at_strings [OF v(1), of pre "[x]" post] v(3) r by auto
qed

section \<open>Decoding\<close>

definition enc_items :: "rlp_value list \<Rightarrow> byte list" where
  "enc_items xs = concat (map enc_value xs)"

definition eth_tx_value :: "nat \<Rightarrow> rlp_value list \<Rightarrow> rlp_value" where
  "eth_tx_value ty xs = (if ty = 0 then RList (enc_items xs) else RStr (of_nat ty # enc_list (enc_items xs)))"

lemma enc_items_simps [simp]:
  "enc_items [] = []" "enc_items (x # xs) = enc_value x @ enc_items xs" "enc_items (xs @ ys) = enc_items xs @ enc_items ys"
  by (simp_all add: enc_items_def)

lemma eth_tx_envelope_legacy:
  assumes v: "bv_ok v" "bv_bytes v = pre @ enc_list (enc_items xs) @ post" and len: "length (enc_items xs) < 2 ^ 32"
  shows "\<exists>q rlp start n. eth_tx_envelope v (length pre) = Inr (0, rlp, start, n) \<and>
    get_rlp_list rlp = Some (Inr (items_at v (length q) xs)) \<and> bv_bytes v = q @ enc_items xs @ post \<and>
    u64 (rlp_val_offset rlp + rlp_length rlp) = length (pre @ enc_list (enc_items xs)) \<and>
    keccak_sha3 (bv_read v) start n = Inr (sha_of_binary (sha3_256 (enc_list (enc_items xs))))"
proof -
  let ?c = "enc_items xs"
  define q where "q = pre @ rlp_prefix RLP_LIST_ENCODING_TYPE (length ?c)"
  define r where "r = \<lparr>rlp_buf = v, rlp_val_offset = length q, rlp_starting_offset = length pre, rlp_length = length ?c, rlp_type = RLP_LIST\<rparr>"
  note at = rlp_list_at [OF v(1) v(2) [unfolded enc_items_def] len [unfolded enc_items_def] q_def [unfolded enc_items_def] r_def [unfolded enc_items_def]]
  have q: "length q + length ?c = length (pre @ enc_list ?c)" by (simp add: q_def enc_list_def)
  have "length (pre @ enc_list ?c) < 2 ^ 64" using bvs.bytes_small [OF v(1)] v(2) by simp
  then have u: "u64 (length q + length ?c) = length (pre @ enc_list ?c)" "u64 (length ?c + length q) = length (pre @ enc_list ?c)"
    "u64_sub (length (pre @ enc_list ?c)) (length pre) = length (enc_list ?c)"
    unfolding add.commute [of "length ?c"] q by (simp_all add: u64_id u64_sub_id)
  have "eth_tx_envelope v (length pre) = Inr (0, r, length pre, length (enc_list ?c))"
    unfolding eth_tx_envelope_def at(1) rbind_simps by (simp only: r_def rlp.select_convs u(2,3) if_True simp_thms eth_tx_consts)
  moreover have "u64 (rlp_val_offset r + rlp_length r) = length (pre @ enc_list ?c)" using u(1) by (simp add: r_def)
  moreover have "keccak_sha3 (bv_read v) (length pre) (length (enc_list ?c)) = Inr (sha_of_binary (sha3_256 (enc_list ?c)))"
    by (rule keccak_sha3_at [OF v refl refl])
  ultimately show ?thesis using at(2,3) by (auto simp: enc_items_def)
qed

lemma eth_tx_envelope_typed:
  assumes v: "bv_ok v" "bv_bytes v = pre @ enc_str (of_nat ty # enc_list (enc_items xs)) @ post" and ty: "ty = 1 \<or> ty = 2"
    and len: "length (enc_list (enc_items xs)) < 2 ^ 31"
  shows "\<exists>q rlp start n. eth_tx_envelope v (length pre) = Inr (ty, rlp, start, n) \<and>
    get_rlp_list rlp = Some (Inr (items_at v (length q) xs)) \<and> bv_bytes v = q @ enc_items xs @ post \<and>
    u64 (rlp_val_offset rlp + rlp_length rlp) = length (pre @ enc_str (of_nat ty # enc_list (enc_items xs))) \<and>
    keccak_sha3 (bv_read v) start n = Inr (sha_of_binary (sha3_256 (of_nat ty # enc_list (enc_items xs))))"
proof -
  let ?c = "enc_items xs" and ?b = "of_nat ty # enc_list (enc_items xs)"
  define p where "p = pre @ rlp_prefix RLP_STR_ENCODING_TYPE (length ?b)"
  define q where "q = (p @ [of_nat ty]) @ rlp_prefix RLP_LIST_ENCODING_TYPE (length ?c)"
  define r where "r = \<lparr>rlp_buf = v, rlp_val_offset = length q, rlp_starting_offset = length (p @ [of_nat ty]), rlp_length = length ?c, rlp_type = RLP_LIST\<rparr>"
  have s: "enc_str ?b = rlp_prefix RLP_STR_ENCODING_TYPE (length ?b) @ ?b" using length_enc_list(2) [of ?c] by (intro enc_str_long) simp
  have eq: "bv_bytes v = (p @ [of_nat ty]) @ enc_list ?c @ post" "bv_bytes v = p @ ?b @ post" using v(2) s by (simp_all add: p_def)
  have l: "length ?c < 2 ^ 32" "length (payload (RStr ?b)) < 2 ^ 32" using len length_enc_list(1) [of ?c] by simp_all
  note at = rlp_list_at [OF v(1) eq(1) [unfolded enc_items_def] l(1) [unfolded enc_items_def] q_def [unfolded enc_items_def] r_def [unfolded enc_items_def]]
  have "value_type (RStr ?b) = RLP_STRING" using length_enc_list(2) [of ?c] by simp
  then have c: "bv_consume v (length pre) = Inr (length ?b, RLP_STRING, length p)"
    using consume_value_at [OF v(1), of pre "RStr ?b" post] v(2) l(2) s by (simp add: p_def)
  have sz: "bv_size v = length (bv_bytes v)" "length (bv_bytes v) < 2 ^ 64" using v(1) bvs.bytes_small [OF v(1)] by (simp_all add: bv_ok_def)
  have "bv_read v (length p) (length [of_nat ty :: byte]) = Inr [of_nat ty]" using bvs.rd_middle [OF v(1), of p "[of_nat ty]"] eq(1) by simp
  then have b: "bv_at v (length p) = Inr (of_nat ty)" using sz(1) eq(1) by (simp add: bv_at_def bv_index_def)
  have q: "length q + length ?c = length (pre @ enc_str ?b)" "length (pre @ enc_str ?b) = length p + length ?b"
    using s by (simp_all add: q_def p_def enc_list_def)
  have bound: "length p + length ?b < 2 ^ 64" using sz(2) eq(2) by simp
  have "u64 (length ?c + length q) = length p + length ?b" unfolding add.commute [of "length ?c"] q using bound by (rule u64_id)
  moreover have "u64_sub (length p + length ?b) (length (p @ [of_nat ty])) = length (enc_list ?c)" using bound by (simp add: u64_sub_id)
  moreover have "u64 (length (enc_list ?c) + 1) = length ?b" "u64 (length p + 1) = length (p @ [of_nat ty :: byte])" using bound by (simp_all add: u64_id)
  moreover have "unat (of_nat ty :: byte) = ty" using ty by auto
  ultimately have "eth_tx_envelope v (length pre) = Inr (ty, r, length p, length ?b)"
    using c b at(1) ty
    by (simp add: eth_tx_envelope_def rlp_new_def [of v "length pre"] eth_tx_consts rlp_consts del: One_nat_def) (auto simp: r_def)
  moreover have "u64 (rlp_val_offset r + rlp_length r) = length (pre @ enc_str ?b)" using bound q by (simp add: r_def u64_id)
  moreover have "keccak_sha3 (bv_read v) (length p) (length ?b) = Inr (sha_of_binary (sha3_256 ?b))" by (rule keccak_sha3_at [OF v(1) eq(2) refl refl])
  ultimately show ?thesis using at(2,3) unfolding enc_items_def by blast
qed

lemma length_enc_items_value: "length (enc_items xs) \<le> length (enc_value (eth_tx_value ty xs))"
proof -
  have "length (enc_list c) \<le> length (enc_str (b # enc_list c))" for b c using length_enc_list(2) [of c] by (subst enc_str_long) simp_all
  from order_trans [OF length_enc_list(1) this] show ?thesis using length_enc_list(1) [of "enc_items xs"] by (simp add: eth_tx_value_def)
qed

lemma eth_tx_envelope_at:
  assumes v: "bv_ok v" "bv_bytes v = pre @ enc_value (eth_tx_value ty xs) @ post" and ty: "ty \<le> 2"
    and len: "length (enc_value (eth_tx_value ty xs)) < 2 ^ 31"
  shows "\<exists>q rlp start n. eth_tx_envelope v (length pre) = Inr (ty, rlp, start, n) \<and>
    get_rlp_list rlp = Some (Inr (items_at v (length q) xs)) \<and> bv_bytes v = q @ enc_items xs @ post \<and>
    u64 (rlp_val_offset rlp + rlp_length rlp) = length (pre @ enc_value (eth_tx_value ty xs)) \<and>
    keccak_sha3 (bv_read v) start n = Inr (sha_of_binary (eth_tx_hash (eth_tx_value ty xs)))"
proof (cases "ty = 0")
  case True
  then have e: "enc_value (eth_tx_value ty xs) = enc_list (enc_items xs)" "eth_tx_hash (eth_tx_value ty xs) = sha3_256 (enc_list (enc_items xs))"
    by (simp_all add: eth_tx_value_def eth_tx_hash_def)
  have "length (enc_items xs) < 2 ^ 32" using len length_enc_list(1) [of "enc_items xs"] e(1) by simp
  from eth_tx_envelope_legacy [OF v(1) v(2) [unfolded e(1)] this] show ?thesis unfolding e unfolding True .
next
  case False
  then have t: "ty = 1 \<or> ty = 2" using ty by auto
  let ?b = "of_nat ty # enc_list (enc_items xs)"
  have e: "enc_value (eth_tx_value ty xs) = enc_str ?b" "eth_tx_hash (eth_tx_value ty xs) = sha3_256 ?b"
    using False by (simp_all add: eth_tx_value_def eth_tx_hash_def)
  have "length (enc_list (enc_items xs)) \<le> length (enc_str ?b)" using length_enc_list(2) [of "enc_items xs"] by (subst enc_str_long) simp_all
  then have "length (enc_list (enc_items xs)) < 2 ^ 31" using len e(1) by simp
  from eth_tx_envelope_typed [OF v(1) v(2) [unfolded e(1)] t this] show ?thesis unfolding e .
qed

definition tx_int :: "rlp_value list \<Rightarrow> nat \<Rightarrow> nat" where
  "tx_int xs i = be_val (payload (xs ! i))"

definition signed_items :: "nat \<Rightarrow> nat" where
  \<comment> \<open>how many items are signed; \<^verbatim>\<open>v\<close> or the parity, \<^verbatim>\<open>r\<close> and \<^verbatim>\<open>s\<close> follow them\<close>
  "signed_items ty = (if ty = 0 then 6 else if ty = 1 then 8 else 9)"

definition eth_tx_ok :: "nat \<Rightarrow> rlp_value list \<Rightarrow> bool" where
  \<comment> \<open>the integers that are not read as large ones have at most eight bytes\<close>
  "eth_tx_ok ty xs \<longleftrightarrow>
     ty \<le> 2 \<and> length xs = signed_items ty + 3 \<and> length (enc_value (eth_tx_value ty xs)) < 2 ^ 31 \<and>
     list_all (\<lambda>i. length (payload (xs ! i)) \<le> 8) (signed_items ty # [0..<ty + 3])"

lemma enc_items_nth: "i < length xs \<Longrightarrow> enc_items xs = enc_items (take i xs) @ enc_value (xs ! i) @ enc_items (drop (Suc i) xs)"
  by (metis append_take_drop_id Cons_nth_drop_Suc enc_items_simps(2,3))

definition item_pos :: "rlp_value list \<Rightarrow> nat \<Rightarrow> nat" where
  \<comment> \<open>where the payload of an item starts, from the start of the first item\<close>
  "item_pos xs i = length (enc_items (take i xs)) + (length (enc_value (xs ! i)) - length (payload (xs ! i)))"

lemma item_pos_payload:
  assumes "i < length xs"
  shows "slice (length q + item_pos xs i) (length (payload (xs ! i))) (q @ enc_items xs @ post) = payload (xs ! i)"
    and "item_pos xs i + length (payload (xs ! i)) \<le> length (enc_items xs)"
proof -
  obtain p where p: "enc_value (xs ! i) = p @ payload (xs ! i)" using enc_value_split by blast
  have eq: "enc_items xs = (enc_items (take i xs) @ p) @ payload (xs ! i) @ enc_items (drop (Suc i) xs)"
    using enc_items_nth [OF assms] p by simp
  have pos: "item_pos xs i = length (enc_items (take i xs) @ p)" using p by (simp add: item_pos_def)
  show "item_pos xs i + length (payload (xs ! i)) \<le> length (enc_items xs)" unfolding pos eq by simp
  show "slice (length q + item_pos xs i) (length (payload (xs ! i))) (q @ enc_items xs @ post) = payload (xs ! i)"
    unfolding pos eq
    using slice_middle [of "q @ enc_items (take i xs) @ p" _ "payload (xs ! i)" _ "enc_items (drop (Suc i) xs) @ post"] by simp
qed

lemma item_at_any:
  assumes v: "bv_ok v" "bv_buf v = Some mem" "bv_bytes v = q @ enc_items xs @ post" and len: "length (enc_items xs) < 2 ^ 32"
    and i: "i < length xs" and its: "its = items_at v (length q) xs"
  shows "item_vector its i = Inr (slice (length q + item_pos xs i) (length (payload (xs ! i))) mem)"
    and "length (payload (xs ! i)) \<le> 8 \<Longrightarrow> item_int its i = Inr (tx_int xs i)"
    and "rbind (item_of its i) rlp_as_large_int = Inr (be_words (payload (xs ! i)))"
    and "\<exists>w. rbind (item_of its i) as_rlp_string = Inr w \<and> bv_wf w \<and> bv_bytes w = payload (xs ! i)"
    and "rbind (item_of its i) deserialize_int = Inr True"
    and "\<exists>r. item_of its i = Inr r \<and> rlp_buf r = v \<and> rlp_starting_offset r = length (q @ enc_items (take i xs)) \<and>
      rlp_end r = length (q @ enc_items (take (Suc i) xs)) \<and> rlp_length r < 2 ^ 32"
proof -
  let ?x = "xs ! i" and ?p = "q @ enc_items (take i xs)"
  let ?r = "rlp_item v (length (payload ?x)) (length (enc_value ?x) - length (payload ?x)) (length ?p) (value_type ?x)"
  have eq: "bv_bytes v = ?p @ enc_value ?x @ enc_items (drop (Suc i) xs) @ post" using v(3) enc_items_nth [OF i] by simp
  obtain p where p: "enc_value ?x = p @ payload ?x" using enc_value_split by blast
  have n: "length (payload ?x) < 2 ^ 32" using enc_items_nth [OF i] len p by simp
  have r: "item_of its i = Inr ?r" using i by (simp add: item_of_def its items_at_nth enc_items_def)
  note reads = item_reads [OF v(1,2) eq n refl]
  show "item_vector its i = Inr (slice (length q + item_pos xs i) (length (payload ?x)) mem)"
    unfolding r rbind_simps using reads(1) by (simp add: item_pos_def add.assoc)
  show "rbind (item_of its i) rlp_as_large_int = Inr (be_words (payload ?x))"
    "rbind (item_of its i) deserialize_int = Inr True" "\<exists>w. rbind (item_of its i) as_rlp_string = Inr w \<and> bv_wf w \<and> bv_bytes w = payload ?x"
    unfolding r rbind_simps using reads(3,4,5) by blast+
  show "item_int its i = Inr (tx_int xs i)" if "length (payload ?x) \<le> 8"
    unfolding r rbind_simps using reads(2) [OF that] by (simp add: tx_int_def)
  have "?p @ enc_value ?x = q @ enc_items (take (Suc i) xs)" using i by (simp add: take_Suc_conv_app_nth)
  then show "\<exists>r. item_of its i = Inr r \<and> rlp_buf r = v \<and> rlp_starting_offset r = length ?p \<and>
      rlp_end r = length (q @ enc_items (take (Suc i) xs)) \<and> rlp_length r < 2 ^ 32"
    unfolding r using reads(6) n by (intro exI [of _ ?r]) (simp add: rlp_item_def)
qed

text \<open>The vector is right where the view starts at its allocation.\<close>

lemma item_at:
  assumes v: "bv_ok v" "bv_from v = 0" "bv_bytes v = q @ enc_items xs @ post" and len: "length (enc_items xs) < 2 ^ 32"
    and i: "i < length xs" and its: "its = items_at v (length q) xs"
  shows "item_vector its i = Inr (payload (xs ! i))"
    and "length (payload (xs ! i)) \<le> 8 \<Longrightarrow> item_int its i = Inr (tx_int xs i)"
    and "rbind (item_of its i) rlp_as_large_int = Inr (be_words (payload (xs ! i)))"
    and "\<exists>w. rbind (item_of its i) as_rlp_string = Inr w \<and> bv_wf w \<and> bv_bytes w = payload (xs ! i)"
    and "rbind (item_of its i) deserialize_int = Inr True"
    and "\<exists>r. item_of its i = Inr r \<and> rlp_buf r = v \<and> rlp_starting_offset r = length (q @ enc_items (take i xs)) \<and>
      rlp_end r = length (q @ enc_items (take (Suc i) xs)) \<and> rlp_length r < 2 ^ 32"
proof -
  obtain mem where mem: "bv_buf v = Some mem" using v(1) by (auto simp: bv_ok_def)
  then have "bv_bytes v = take (bv_size v) mem" using v(2) by (simp add: bv_bytes_def slice_def)
  then have "mem = q @ enc_items xs @ (post @ drop (bv_size v) mem)" using v(3) by (metis append_assoc append_take_drop_id)
  then have "slice (length q + item_pos xs i) (length (payload (xs ! i))) mem = payload (xs ! i)"
    using item_pos_payload(1) [OF i] by metis
  then show "item_vector its i = Inr (payload (xs ! i))" using item_at_any(1) [OF v(1) mem v(3) len i its] by simp
qed (use item_at_any(2-6) [OF v(1) _ v(3) len i its] v(1) in \<open>auto simp: bv_ok_def\<close>)

definition decoded :: "nat \<Rightarrow> rlp_value list \<Rightarrow> eth_tx \<Rightarrow> bool" where
  \<comment> \<open>the members of a decoded message, read off the items\<close>
  "decoded ty xs m \<longleftrightarrow>
     et_payload_type m = ty \<and> et_nonce m = tx_int xs (if ty = 0 then 0 else 1) \<and> et_gas_price m = tx_int xs (ty + 1) \<and>
     et_address m = payload (xs ! (ty + 3)) \<and> et_value m = be_words (payload (xs ! (ty + 4))) \<and>
     bv_wf (et_data m) \<and> bv_bytes (et_data m) = payload (xs ! (ty + 5)) \<and>
     et_gas_limit m = (if ty = 2 then 0 else tx_int xs (2 + ty)) \<and>
     (ty = 2 \<longrightarrow> et_max_priority_fee_per_gas m = tx_int xs 2 \<and> et_max_fee_per_gas m = tx_int xs 3) \<and>
     et_access_list m = (if ty = 0 then [] else payload (xs ! (signed_items ty - 1))) \<and>
     et_v m = (if ty = 0 then tx_int xs 6 else 0) \<and>
     et_y_parity m = (if ty = 0 then 0 else tx_int xs (signed_items ty) mod 256) \<and>
     et_chain_id m = (if ty = 0 then chain_id_of_v (tx_int xs 6) else tx_int xs 0 mod 256) \<and>
     et_r m = payload (xs ! (signed_items ty + 1)) \<and> et_s m = payload (xs ! (signed_items ty + 2))"

lemma eth_tx_fields_at:
  assumes v: "bv_ok v" "bv_from v = 0" "bv_bytes v = q @ enc_items xs @ post" and len: "length (enc_items xs) < 2 ^ 32"
    and ok: "eth_tx_ok ty xs" and its: "its = items_at v (length q) xs" and m: "et_payload_type m = ty"
  shows "\<exists>m'. eth_tx_fields ty its m = Inr m' \<and> decoded ty xs m' \<and> et_rlp_list m' = et_rlp_list m"
proof -
  have l: "length xs = signed_items ty + 3" using ok by (simp add: eth_tx_ok_def)
  have small: "length (payload (xs ! i)) \<le> 8" if "i < ty + 3 \<or> i = signed_items ty" for i
    using ok that by (auto simp: eth_tx_ok_def list_all_iff)
  note at = item_at(1,3-6) [OF v len _ its] item_at(2) [OF v len _ its small]
  have "ty + 5 < length xs" using ok by (auto simp: eth_tx_ok_def signed_items_def split: if_splits)
  from item_at(4) [OF v len this its] obtain w where w: "rbind (item_of its (ty + 5)) as_rlp_string = Inr w" "bv_wf w" "bv_bytes w = payload (xs ! (ty + 5))" by blast
  consider "ty = 0" | "ty = 1" | "ty = 2" using ok by (fastforce simp: eth_tx_ok_def)
  then show ?thesis
  proof cases
    case 1
    then show ?thesis using l w m
      by (simp add: eth_tx_fields_def eth_fields_type_0_def eth_tx_consts eth_idx_consts at decoded_def signed_items_def)
  next
    case 2
    then show ?thesis using l w m
      by (simp add: eth_tx_fields_def eth_fields_type_1_def eth_tx_consts eth_idx_consts at decoded_def signed_items_def del: One_nat_def)
  next
    case 3
    then show ?thesis using l w m
      by (simp add: eth_tx_fields_def eth_fields_type_2_def eth_tx_consts eth_idx_consts at decoded_def signed_items_def)
  qed
qed

lemma eth_tx_decode_at:
  assumes v: "bv_ok v" "bv_from v = 0" "bv_bytes v = pre @ enc_value (eth_tx_value ty xs) @ post" and ok: "eth_tx_ok ty xs"
  shows "\<exists>q m'. eth_tx_decode v (length pre) m = Some (Inr (length (pre @ enc_value (eth_tx_value ty xs)), m')) \<and>
    decoded ty xs m' \<and> sha_binary (et_sha m') = eth_tx_hash (eth_tx_value ty xs) \<and>
    et_rlp_list m' = items_at v (length q) xs \<and> bv_bytes v = q @ enc_items xs @ post"
proof -
  let ?t = "eth_tx_value ty xs"
  have t: "ty \<le> 2" "length (enc_value ?t) < 2 ^ 31" "length xs = signed_items ty + 3" using ok by (simp_all add: eth_tx_ok_def)
  obtain q rlp start n where e: "eth_tx_envelope v (length pre) = Inr (ty, rlp, start, n)"
    "get_rlp_list rlp = Some (Inr (items_at v (length q) xs))" "bv_bytes v = q @ enc_items xs @ post"
    "u64 (rlp_val_offset rlp + rlp_length rlp) = length (pre @ enc_value ?t)"
    "keccak_sha3 (bv_read v) start n = Inr (sha_of_binary (eth_tx_hash ?t))"
    using eth_tx_envelope_at [OF v(1,3) t(1,2)] by blast
  have len: "length (enc_items xs) < 2 ^ 32" using length_enc_items_value [of xs ty] t(2) by simp
  define its where "its = items_at v (length q) xs"
  define m1 where "m1 = m\<lparr>et_payload_type := ty, et_rlp_list := its\<rparr>"
  obtain m' where m': "eth_tx_fields ty its m1 = Inr m'" "decoded ty xs m'" "et_rlp_list m' = et_rlp_list m1"
    using eth_tx_fields_at [OF v(1,2) e(3) len ok its_def, of m1] by (auto simp: m1_def)
  have "\<not> (ty = ETH_TX_TYPE_0 \<and> length its < ETH_TYPE_0_S_IDX)" using t(3) by (simp add: its_def eth_tx_consts eth_idx_consts signed_items_def)
  then have "eth_tx_decode v (length pre) m = Some (Inr (length (pre @ enc_value ?t), m'\<lparr>et_sha := sha_of_binary (eth_tx_hash ?t)\<rparr>))"
    unfolding eth_tx_decode_def e(1) sum.case prod.case e(2) option.case its_def [symmetric] Let_def m1_def [symmetric] m'(1)
    by (simp only: if_False rbind_simps e(4,5))
  moreover have "decoded ty xs (m'\<lparr>et_sha := sha_of_binary (eth_tx_hash ?t)\<rparr>)" using m'(2) by (simp add: decoded_def)
  moreover have "et_rlp_list m' = its" using m'(3) by (simp add: m1_def)
  ultimately show ?thesis using e(3) by (intro exI [of _ q] exI) (auto simp: its_def sha_of_binary_def)
qed

section \<open>The signing payload\<close>

definition eth_chain_id :: "nat \<Rightarrow> nat" where
  "eth_chain_id v = (v - 35) div 2"

definition eth_signed :: "nat \<Rightarrow> nat \<Rightarrow> byte list \<Rightarrow> byte list" where
  \<comment> \<open>around the signed items: the type, or the chain id and two empty strings from \<^verbatim>\<open>v\<close> = 35 on\<close>
  "eth_signed ty v c =
     (if ty \<noteq> 0 then of_nat ty # enc_list c
      else if 35 \<le> v
      then enc_list (c @ enc_str (be_bytes (get_length_bytes_size (eth_chain_id v)) (eth_chain_id v)) @ enc_str [] @ enc_str [])
      else enc_list c)"

definition eth_signing_payload :: "nat \<Rightarrow> rlp_value list \<Rightarrow> byte list" where
  "eth_signing_payload ty xs = eth_signed ty (tx_int xs 6) (enc_items (take (signed_items ty) xs))"

definition legacy_v_ok :: "nat \<Rightarrow> bool" where
  \<comment> \<open>before EIP-155, or a chain id from 1 to 110\<close>
  "legacy_v_ok v \<longleftrightarrow> v < 35 \<or> 37 \<le> v \<and> v < 256"

lemma chain_id_of_v:
  assumes "37 \<le> v" and "v < 256"
  shows "chain_id_of_v v = eth_chain_id v" and "1 \<le> eth_chain_id v" and "eth_chain_id v \<le> 110"
proof -
  show "1 \<le> eth_chain_id v" "eth_chain_id v \<le> 110" using assms by (simp_all add: eth_chain_id_def)
  define w where "w = (if v mod 2 = 0 then (v + 255) mod 256 else v)"
  have w: "w = (if v mod 2 = 0 then v - 1 else v)"
  proof (cases "v mod 2 = 0")
    case True
    have "v + 255 = v - 1 + 256" using assms by simp
    then have "(v + 255) mod 256 = v - 1" using assms by (simp only: mod_add_self2) simp
    then show ?thesis using True by (simp add: w_def)
  qed (simp add: w_def)
  have "(int w - 35) div 2 = int ((w - 35) div 2)" using w assms by (auto simp: of_nat_diff zdiv_int)
  moreover have "(w - 35) div 2 = (v - 35) div 2" using w assms by presburger
  ultimately have "(int w - 35) div 2 mod 256 = int (eth_chain_id v)" using assms by (simp add: eth_chain_id_def)
  moreover have "v mod 256 = v" using assms by simp
  ultimately show "chain_id_of_v v = eth_chain_id v"
    unfolding chain_id_of_v_def Let_def by (simp only: w_def [symmetric] eth_tx_consts) simp
qed

lemma enc_chain_id:
  assumes "1 \<le> n" and "n \<le> 110"
  shows "enc_str (be_bytes (get_length_bytes_size n) n) = [of_nat n]"
proof -
  have "get_length_bytes_size n = 1" using assms by (simp add: get_length_bytes_size_eq)
  moreover have "be_bytes 1 n = [of_nat n]" by (simp add: be_bytes_def)
  ultimately show ?thesis using assms by (simp add: enc_str_def unat_of_nat_byte)
qed

lemma vec_poke_middle: "k = length a \<Longrightarrow> length b = length b' \<Longrightarrow> vec_poke (a @ b @ c) k b' = Inr (a @ b' @ c)"
  by (simp add: vec_poke_def patch_def)

lemma vec_resize_grow: "length xs \<le> n \<Longrightarrow> vec_resize n xs = xs @ replicate (n - length xs) 0"
  by (simp add: vec_resize_def)

lemma vec_prefix_at_0: "vec_prefix_list [] n 0 = Inr (rlp_prefix RLP_LIST_ENCODING_TYPE n, length (rlp_prefix RLP_LIST_ENCODING_TYPE n))"
  using veck.get_length_prefix_append [of "[]" 0 n RLP_LIST_ENCODING_TYPE] by (simp add: get_length_prefix_list_def)

lemma vec_prefix_at_1:
  "vec_prefix_list [] n 1 = Inr (0 # rlp_prefix RLP_LIST_ENCODING_TYPE n, 1 + length (rlp_prefix RLP_LIST_ENCODING_TYPE n))"
proof -
  let ?st = "buf_store length (\<lambda>xs n. vec_resize n xs) vec_poke"
  have "?st [] 1 [b] = ?st [0] 1 [b]" for b by (simp add: buf_store_def u64_def vec_resize_def)
  moreover have "take 1 (rev (replicate (1 - 1) 0 @ take 1 (le_bytes 1 w))) = [of_nat w]" for w by simp
  ultimately have e: "set_be_sized length (\<lambda>xs n. vec_resize n xs) vec_poke 1 [] w 1 1 = set_be_sized length (\<lambda>xs n. vec_resize n xs) vec_poke 1 [0] w 1 1" for w
    by (simp add: set_be_sized_def)
  have "vec_prefix_list [] n 1 = vec_prefix_list [0] n 1"
  proof (cases "n < 56")
    case True
    then have "get_length_bytes_size n = 1" by (simp add: get_length_bytes_size_eq)
    then show ?thesis unfolding get_length_prefix_list_def get_length_prefix_def Let_def by (simp only: True if_True e)
  qed (simp only: get_length_prefix_list_def get_length_prefix_def Let_def if_False e)
  then show ?thesis using veck.get_length_prefix_append [of "[0]" 1 n RLP_LIST_ENCODING_TYPE] by (simp add: get_length_prefix_list_def)
qed

lemma unsigned_frame_spec:
  assumes m: "et_payload_type m = ty" "ty \<le> 2" and n: "n < 2 ^ 32"
    and v: "ty = 0 \<Longrightarrow> legacy_v_ok (et_v m) \<and> et_chain_id m = chain_id_of_v (et_v m)"
  shows "\<exists>a b z. unsigned_frame m n = Inr (a @ z @ b, length a) \<and> length z = n \<and>
    (\<forall>c. length c = n \<longrightarrow> a @ c @ b = eth_signed ty (et_v m) c)"
proof -
  let ?p = "rlp_prefix RLP_LIST_ENCODING_TYPE" and ?z = "replicate n (0 :: byte)"
  have lp: "length (?p k) \<le> 9" for k using get_length_bytes_size_bounds(2) [of k] by (simp add: rlp_prefix_def)
  have u: "u64 (k + n) = k + n" if "k \<le> 20" for k using that n by (simp add: u64_id)
  consider "ty = 0" "35 \<le> et_v m" | "ty = 0" "et_v m < 35" | "ty \<noteq> 0" by linarith
  then show ?thesis
  proof cases
    case 1
    let ?id = "eth_chain_id (et_v m)"
    have w: "37 \<le> et_v m" "et_v m < 256" using 1 v by (auto simp: legacy_v_ok_def)
    note c = chain_id_of_v [OF w]
    have e: "enc_str (be_bytes (get_length_bytes_size ?id) ?id) = [of_nat ?id]" "enc_str [] = [0x80]"
      using enc_chain_id [OF c(2,3)] by (simp_all add: enc_str_def rlp_prefix_def rlp_consts)
    have un: "u64 (n + 3) = n + 3" using u [of 3] by (simp add: add.commute)
    let ?q = "?p (n + 3)"
    have us: "u64 (length ?q + n) = length (?q @ ?z)" "u64 (length ?q + n + 1) = length (?q @ ?z @ [of_nat ?id :: byte])"
      "u64 (length ?q + n + 2) = length (?q @ ?z @ [of_nat ?id :: byte, 0x80])" "u64 (length ?q + n + 3) = length ?q + n + 3"
      using u [of "length ?q"] u [of "length ?q + 1"] u [of "length ?q + 2"] u [of "length ?q + 3"] lp [of "n + 3"]
      by (simp_all add: add.commute add.left_commute)
    have "replicate (n + 3) (0 :: byte) = ?z @ [0, 0, 0]" unfolding replicate_add by (simp add: numeral_3_eq_3)
    then have r: "vec_resize (length ?q + n + 3) ?q = (?q @ ?z) @ [0] @ [0, 0]" by (subst vec_resize_grow) simp_all
    have fr: "unsigned_frame m n = Inr (?q @ ?z @ [of_nat ?id, 0x80, 0x80], length ?q)"
    proof -
      have p1: "vec_poke ((?q @ ?z) @ [0] @ [0, 0]) (length (?q @ ?z)) [of_nat ?id] = Inr ((?q @ ?z @ [of_nat ?id]) @ [0] @ [0])"
        by (subst vec_poke_middle) simp_all
      have p2: "vec_poke ((?q @ ?z @ [of_nat ?id]) @ [0] @ [0]) (length (?q @ ?z @ [of_nat ?id :: byte])) [0x80] =
          Inr ((?q @ ?z @ [of_nat ?id, 0x80]) @ [0] @ [])" by (subst vec_poke_middle) simp_all
      have p3: "vec_poke ((?q @ ?z @ [of_nat ?id, 0x80]) @ [0] @ []) (length (?q @ ?z @ [of_nat ?id :: byte, 0x80])) [0x80] =
          Inr (?q @ ?z @ [of_nat ?id, 0x80, 0x80])" by (subst vec_poke_middle) simp_all
      have cid: "et_chain_id m = ?id" using v 1(1) c(1) by simp
      have cond: "(et_payload_type m = ETH_TX_TYPE_0) = True" "(EIP155_CHAIN_ID_OFFSET \<le> et_v m) = True"
        using m(1) 1 by (simp_all add: eth_tx_consts)
      show ?thesis
        unfolding unsigned_frame_def cond if_True un vec_prefix_at_0 rbind_simps prod.case Let_def us r cid p1 p2 p3 ..
    qed
    show ?thesis by (intro exI conjI, rule fr) (use 1 in \<open>simp_all add: eth_signed_def e enc_list_def numeral_3_eq_3\<close>)
  next
    case 2
    have fr: "unsigned_frame m n = Inr (?p n @ ?z @ [], length (?p n))"
      using 2 m u [of "length (?p n)"] lp [of n]
      by (simp add: unsigned_frame_def vec_prefix_at_0 eth_tx_consts vec_resize_grow)
    show ?thesis by (intro exI conjI, rule fr) (use 2 in \<open>simp_all add: eth_signed_def enc_list_def\<close>)
  next
    case 3
    have "vec_poke (0 # ?p n @ ?z) 0 [of_nat ty] = Inr (of_nat ty # ?p n @ ?z)" using vec_poke_middle [of 0 "[]" "[0]" "[of_nat ty]"] by simp
    moreover have "vec_resize (length (?p n) + 1 + n) (0 # ?p n) = 0 # ?p n @ ?z" by (subst vec_resize_grow) simp_all
    moreover have "u64 (1 + length (?p n) + n) = length (?p n) + 1 + n" using u [of "length (?p n) + 1"] lp [of n] by (simp add: add.commute)
    ultimately have fr: "unsigned_frame m n = Inr ((of_nat ty # ?p n) @ ?z @ [], length (of_nat ty # ?p n))"
      using 3 m by (simp only: unsigned_frame_def vec_prefix_at_1 rbind_simps prod.case) (simp add: eth_tx_consts)
    show ?thesis by (intro exI conjI, rule fr) (use 3 in \<open>simp_all add: eth_signed_def enc_list_def\<close>)
  qed
qed

lemma get_unsigned_msg_spec:
  assumes v: "bv_ok v" "bv_from v = 0" "bv_bytes v = q @ enc_items xs @ post" and ok: "eth_tx_ok ty xs"
    and m: "decoded ty xs m" "et_rlp_list m = items_at v (length q) xs" and lv: "ty = 0 \<Longrightarrow> legacy_v_ok (tx_int xs 6)"
  shows "get_unsigned_msg m = Inr (eth_signing_payload ty xs)"
proof -
  let ?n = "signed_items ty" let ?c = "enc_items (take ?n xs)"
  have t: "ty \<le> 2" "length (enc_value (eth_tx_value ty xs)) < 2 ^ 31" "length xs = ?n + 3" using ok by (simp_all add: eth_tx_ok_def)
  have n: "0 < ?n" by (simp add: signed_items_def)
  have len: "length (enc_items xs) < 2 ^ 32" using length_enc_items_value [of xs ty] t(2) by simp
  have cx: "enc_items xs = ?c @ enc_items (drop ?n xs)" by (simp flip: enc_items_simps(3))
  have lc: "length ?c < 2 ^ 32" using cx len by simp
  have ty: "et_payload_type m = ty" using m(1) by (simp add: decoded_def)
  have r: "unsigned_range ty = (0, ?n - 1)" using t(1) by (auto simp: unsigned_range_def signed_items_def eth_tx_consts eth_idx_consts)
  obtain f where f: "item_of (et_rlp_list m) 0 = Inr f" "rlp_buf f = v" "rlp_starting_offset f = length q"
    using item_at(6) [OF v len _ m(2), of 0] t(3) by auto
  have "?n - 1 < length xs" "Suc (?n - 1) = ?n" using t(3) n by simp_all
  from item_at(6) [OF v len this(1) m(2)] this(2)
  obtain l where l: "item_of (et_rlp_list m) (?n - 1) = Inr l" "rlp_end l = length (q @ ?c)" by auto
  have sz: "bv_size v = length (bv_bytes v)" "length (bv_bytes v) < 2 ^ 64" using v(1) bvs.bytes_small [OF v(1)] by (simp_all add: bv_ok_def)
  have "?c \<noteq> []" using n t(3) enc_value_nonempty by (cases xs) (auto simp: signed_items_def)
  moreover have eq: "bv_bytes v = q @ ?c @ enc_items (drop ?n xs) @ post" using v(3) cx by simp
  ultimately have rd: "bv_at_read v (length q) (length ?c) = Inr ?c" using bvs.rd_middle [OF v(1) eq] sz(1) by (simp add: bv_at_read_def)
  have sub: "u64_sub (length (q @ ?c)) (length q) = length ?c" using sz(2) eq by (simp add: u64_sub_id)
  have mv: "ty = 0 \<Longrightarrow> et_v m = tx_int xs 6" "ty = 0 \<Longrightarrow> legacy_v_ok (et_v m) \<and> et_chain_id m = chain_id_of_v (et_v m)"
    using m(1) lv by (simp_all add: decoded_def)
  obtain a b z where fr: "unsigned_frame m (length ?c) = Inr (a @ z @ b, length a)" "length z = length ?c"
    and all: "\<forall>c. length c = length ?c \<longrightarrow> a @ c @ b = eth_signed ty (et_v m) c"
    using unsigned_frame_spec [OF ty t(1) lc mv(2)] by blast
  have pl: "a @ ?c @ b = eth_signing_payload ty xs"
    using all [rule_format, OF refl] mv(1) by (auto simp: eth_signing_payload_def eth_signed_def)
  have "vec_poke (a @ z @ b) (length a) ?c = Inr (eth_signing_payload ty xs)" using vec_poke_middle [OF refl fr(2)] pl by simp
  then show ?thesis
    unfolding get_unsigned_msg_def Let_def ty r prod.case f l(1) rbind_simps l(2) [unfolded rlp_end_def] sub fr(1) rd by simp
qed

section \<open>Signatures\<close>

definition pad32 :: "byte list \<Rightarrow> byte list" where
  "pad32 bs = replicate (32 - length bs) 0 @ bs"

definition eth_parity :: "nat \<Rightarrow> rlp_value list \<Rightarrow> nat option" where
  "eth_parity ty xs =
     (if ty \<noteq> 0 then Some (tx_int xs (signed_items ty) mod 256)
      else if 35 \<le> tx_int xs 6 then Some (1 - tx_int xs 6 mod 2)
      else if tx_int xs 6 = 27 then Some 0 else if tx_int xs 6 = 28 then Some 1 else None)"

definition eth_sender ::
  "(byte list \<Rightarrow> nat \<Rightarrow> 'sig option) \<Rightarrow> ('sig \<Rightarrow> byte list \<Rightarrow> 'key option) \<Rightarrow> ('key \<Rightarrow> byte list) \<Rightarrow>
   nat \<Rightarrow> rlp_value list \<Rightarrow> byte list option" where
  \<comment> \<open>the public key the signature of a transaction recovers to\<close>
  "eth_sender parse_compact ecdsa_recover serialize ty xs =
     (case eth_parity ty xs of
        None \<Rightarrow> None
      | Some p \<Rightarrow>
          if 3 < p then None
          else (case parse_compact (pad32 (payload (xs ! (signed_items ty + 1))) @ pad32 (payload (xs ! (signed_items ty + 2)))) p of
                  None \<Rightarrow> None
                | Some sig \<Rightarrow> map_option (\<lambda>k. drop 1 (serialize k)) (ecdsa_recover sig (sha3_256 (eth_signing_payload ty xs)))))"

lemma length_pad32 [simp]: "length bs \<le> 32 \<Longrightarrow> length (pad32 bs) = 32"
  by (simp add: pad32_def)

lemma encode_signature_spec:
  assumes "length r \<le> 32" and "length s \<le> 32"
  shows "encode_signature v r s ty y = rbind (signature_parity v ty y) (\<lambda>p. Inr (pad32 r @ pad32 s @ [of_nat p]))"
proof -
  let ?zr = "replicate (32 - length r) (0 :: byte)" and ?zs = "replicate (32 - length s) (0 :: byte)"
  have "replicate 65 (0 :: byte) = ?zr @ replicate (33 + length r) 0" using assms(1) by (simp flip: replicate_add)
  then have i1: "vec_insert (replicate SIGNATURE_LEN 0) (int MAX_R_SIZE - int (length r)) r = Inr (?zr @ r @ replicate (33 + length r) 0)"
    using assms(1) by (simp add: vec_insert_def eth_tx_consts nat_diff_distrib)
  have "33 + length r = (32 - length s) + (Suc (length s) + length r)" using assms(2) by simp
  then have "replicate (33 + length r) (0 :: byte) = ?zs @ replicate (Suc (length s) + length r) 0" by (simp only: replicate_add)
  then have "?zr @ r @ replicate (33 + length r) 0 = (?zr @ r @ ?zs) @ replicate (Suc (length s) + length r) 0" by simp
  moreover have "length (?zr @ r @ ?zs) = 64 - length s" using assms by simp
  moreover have "nat (int (MAX_R_SIZE + MAX_T_SIZE) - int (length s)) = 64 - length s" using assms by (simp add: eth_tx_consts nat_diff_distrib)
  ultimately have i2: "vec_insert (?zr @ r @ replicate (33 + length r) 0) (int (MAX_R_SIZE + MAX_T_SIZE) - int (length s)) s =
      Inr (((?zr @ r @ ?zs) @ s) @ 0 # replicate (length s + length r) 0)"
    using assms by (simp add: vec_insert_def eth_tx_consts)
  have l: "length ((?zr @ r @ ?zs) @ s) = 64" using assms by simp
  have "vec_resize SIGNATURE_LEN ((((?zr @ r @ ?zs) @ s) @ 0 # replicate (length s + length r) 0)[64 := of_nat p]) = pad32 r @ pad32 s @ [of_nat p]" for p
    unfolding list_update_append using l by (simp add: vec_resize_def eth_tx_consts pad32_def)
  then show ?thesis unfolding encode_signature_def i1 rbind_simps i2 by simp
qed

lemma signature_parity_spec:
  assumes ty: "ty \<le> 2" and v: "ty = 0 \<Longrightarrow> v = tx_int xs 6 \<and> legacy_v_ok v" and y: "ty \<noteq> 0 \<Longrightarrow> y = tx_int xs (signed_items ty) mod 256"
  shows "signature_parity v ty y = (case eth_parity ty xs of None \<Rightarrow> Inl RuntimeError | Some p \<Rightarrow> Inr p)"
proof (cases "ty = 0")
  case True
  then have v: "v = tx_int xs 6" "legacy_v_ok v" using v by blast+
  show ?thesis
  proof (cases "35 \<le> v")
    case True
    then show ?thesis using \<open>ty = 0\<close> v
      by (cases "v mod 2 = 0") (auto simp: signature_parity_def eth_parity_def eth_tx_consts legacy_v_ok_def)
  next
    case False
    have "u64_sub v 27 mod 256 = (if v < 27 then v + 229 else v - 27)"
    proof (cases "v < 27")
      case True
      then have "u64_sub v 27 = v + 229 + 256 * 72057594037927935" by (simp add: u64_sub_def u64_def)
      then show ?thesis using True by (simp only: mod_mult_self2) simp
    qed (use False in \<open>simp add: u64_sub_id\<close>)
    then show ?thesis using False \<open>ty = 0\<close> v by (auto simp: signature_parity_def eth_parity_def eth_tx_consts Let_def)
  qed
qed (use ty y in \<open>simp add: signature_parity_def eth_parity_def eth_tx_consts\<close>)

definition uncompressed_format :: "('key \<Rightarrow> byte list) \<Rightarrow> bool" where
  \<comment> \<open>what the code expects of a serialized key: 65 bytes, the first of them 4\<close>
  "uncompressed_format serialize \<longleftrightarrow> (\<forall>k. length (serialize k) = 65 \<and> hd (serialize k) = 0x04)"

lemma recover_spec:
  assumes ser: "uncompressed_format serialize" and a: "length a = 64" and p: "p < 256"
  shows "recover parse_compact ecdsa_recover serialize (a @ [of_nat p]) h =
    Inr (if 3 < p then [] else
      (case parse_compact a p of None \<Rightarrow> [] | Some sig \<Rightarrow> (case ecdsa_recover sig (sha_binary h) of None \<Rightarrow> [] | Some k \<Rightarrow> drop 1 (serialize k))))"
proof -
  have "vec_read (a @ [of_nat p]) (SIGNATURE_LEN - 1) 1 = Inr [of_nat p]" using a by (simp add: vec_read_def eth_tx_consts slice_def)
  then show ?thesis using a p ser by (auto simp: uncompressed_format_def recover_def unat_of_nat_byte eth_tx_consts split: option.splits)
qed

lemma keccak_vec: "keccak_sha3 (vec_read xs) 0 (length xs) = Inr (sha_of_binary (sha3_256 xs))"
  by (simp add: keccak_sha3_def vec_read_def slice_0_all)

lemma eth_parity_less: "eth_parity ty xs = Some p \<Longrightarrow> p < 256"
  by (auto simp: eth_parity_def split: if_splits)

lemma verify_transaction_signature_spec:
  assumes ser: "uncompressed_format serialize"
    and r: "length (payload (xs ! (signed_items ty + 1))) \<le> 32" and s: "length (payload (xs ! (signed_items ty + 2))) \<le> 32"
    and ty: "ty \<le> 2" and m: "decoded ty xs m" "get_unsigned_msg m = Inr (eth_signing_payload ty xs)" and v: "ty = 0 \<Longrightarrow> legacy_v_ok (tx_int xs 6)"
  shows "\<exists>k. verify_transaction_signature parse_compact ecdsa_recover serialize m k0 =
    Inr (case eth_sender parse_compact ecdsa_recover serialize ty xs of
           None \<Rightarrow> (False, k)
         | Some key \<Rightarrow> (True, sha_with_nonce (sha_of_binary (sha3_256 key)) (tx_int xs (if ty = 0 then 0 else 1))))"
proof -
  let ?r = "payload (xs ! (signed_items ty + 1))" and ?s = "payload (xs ! (signed_items ty + 2))" and ?u = "eth_signing_payload ty xs"
  have f: "et_r m = ?r" "et_s m = ?s" "et_payload_type m = ty" "et_nonce m = tx_int xs (if ty = 0 then 0 else 1)"
    and par: "ty = 0 \<Longrightarrow> et_v m = tx_int xs 6 \<and> legacy_v_ok (et_v m)" "ty \<noteq> 0 \<Longrightarrow> et_y_parity m = tx_int xs (signed_items ty) mod 256"
    using m(1) v by (simp_all add: decoded_def)
  have sp: "signature_parity (et_v m) ty (et_y_parity m) = (case eth_parity ty xs of None \<Rightarrow> Inl RuntimeError | Some p \<Rightarrow> Inr p)"
    by (rule signature_parity_spec [OF ty]) (use par in blast)+
  have sig: "encode_signature (et_v m) (et_r m) (et_s m) (et_payload_type m) (et_y_parity m) =
      (case eth_parity ty xs of None \<Rightarrow> Inl RuntimeError | Some p \<Rightarrow> Inr (pad32 ?r @ pad32 ?s @ [of_nat p]))"
    unfolding f encode_signature_spec [OF r s] sp by (simp split: option.split)
  show ?thesis
  proof (cases "eth_parity ty xs")
    case None
    then show ?thesis by (simp add: verify_transaction_signature_def sig catching_def eth_sender_def)
  next
    case (Some p)
    let ?key = "if 3 < p then [] else (case parse_compact (pad32 ?r @ pad32 ?s) p of None \<Rightarrow> []
      | Some sig \<Rightarrow> (case ecdsa_recover sig (sha3_256 ?u) of None \<Rightarrow> [] | Some k \<Rightarrow> drop 1 (serialize k)))"
    have a: "length (pad32 ?r @ pad32 ?s) = 64" and sb: "sha_binary (sha_of_binary bs) = bs" for bs using r s by (simp_all add: sha_of_binary_def)
    have rec: "recover parse_compact ecdsa_recover serialize (pad32 ?r @ pad32 ?s @ [of_nat p]) (sha_of_binary (sha3_256 ?u)) = Inr ?key"
      using recover_spec [where parse_compact = parse_compact and ecdsa_recover = ecdsa_recover and h = "sha_of_binary (sha3_256 ?u)",
        OF ser a eth_parity_less [OF Some]] unfolding append_assoc sb .
    have "verify parse_compact ecdsa_recover serialize (pad32 ?r @ pad32 ?s @ [of_nat p]) ?key ?u = Inr (?key \<noteq> [])"
      unfolding verify_def keccak_vec rbind_simps rec by simp
    then have ver: "verify_transaction_signature parse_compact ecdsa_recover serialize m k0 =
        Inr (?key \<noteq> [], sha_with_nonce (sha_of_binary (sha3_256 ?key)) (tx_int xs (if ty = 0 then 0 else 1)))"
      unfolding verify_transaction_signature_def sig Some option.case rbind_simps m(2) keccak_vec rec f(4) catching_def by simp
    have "drop 1 (serialize k) \<noteq> []" for k using ser by (simp add: uncompressed_format_def)
    then show ?thesis unfolding ver eth_sender_def Some by (auto split: option.splits)
  qed
qed

section \<open>Validation\<close>

lemma deserialize_ints_ok: "(\<And>i. i \<in> set is \<Longrightarrow> rbind (item_of its i) deserialize_int = Inr True) \<Longrightarrow> deserialize_ints its is = Inr True"
  by (induction "is") simp_all

lemma eth_tx_deserialize_spec:
  assumes v: "bv_ok v" "bv_from v = 0" "bv_bytes v = q @ enc_items xs @ post" and ok: "eth_tx_ok ty xs"
    and m: "decoded ty xs m" "et_rlp_list m = items_at v (length q) xs"
  shows "eth_tx_deserialize m = Inr (length (payload (xs ! (ty + 3))) \<le> 20)"
proof -
  have t: "ty \<le> 2" "length xs = signed_items ty + 3" using ok by (simp_all add: eth_tx_ok_def)
  have len: "length (enc_items xs) < 2 ^ 32" using length_enc_items_value [of xs ty] ok by (simp add: eth_tx_ok_def)
  have ty: "et_payload_type m = ty" "et_address m = payload (xs ! (ty + 3))" using m(1) by (simp_all add: decoded_def)
  have "ty + 5 < length xs" using t by (auto simp: signed_items_def)
  from item_at(6) [OF v len this m(2)] obtain d where d: "item_of (et_rlp_list m) (ty + 5) = Inr d" "rlp_length d < 2 ^ 32" by blast
  have "i < length xs" if "i \<in> set (int_indexes ty)" for i
    using that t by (auto simp: int_indexes_def signed_items_def eth_tx_consts eth_idx_consts split: if_splits)
  then have ints: "deserialize_ints (et_rlp_list m) (int_indexes ty) = Inr True"
    using item_at(5) [OF v len _ m(2)] by (intro deserialize_ints_ok) blast
  have "ty = 0 \<or> ty = 1 \<or> ty = 2" using t(1) by auto
  then have "(if ty = ETH_TX_TYPE_0 then deserialize_strings m ETH_TYPE_0_DATA_IDX
      else if ty = ETH_TX_TYPE_1 then deserialize_strings m ETH_TYPE_1_DATA_IDX
      else if ty = ETH_TX_TYPE_2 then deserialize_strings m ETH_TYPE_2_DATA_IDX else Inr True) = deserialize_strings m (ty + 5)"
    by (elim disjE) (simp_all add: eth_tx_consts eth_idx_consts)
  moreover have "deserialize_strings m (ty + 5) = Inr (length (payload (xs ! (ty + 3))) \<le> 20)"
    using d ty(2) by (simp add: deserialize_strings_def deserialize_string_def eth_tx_consts)
  ultimately show ?thesis unfolding eth_tx_deserialize_def ty(1) using ints by (simp add: catching_def)
qed

lemma parse_transaction_spec:
  assumes v: "bv_ok v" "bv_from v = 0" "bv_bytes v = enc_value (eth_tx_value ty xs) @ post" and ok: "eth_tx_ok ty xs"
    and to: "length (payload (xs ! (ty + 3))) \<le> 20"
  shows "\<exists>m. parse_transaction v fresh = Some (Inr (True, m)) \<and> decoded ty xs m \<and>
    ((ty = 0 \<longrightarrow> legacy_v_ok (tx_int xs 6)) \<longrightarrow> get_unsigned_msg m = Inr (eth_signing_payload ty xs))"
proof -
  obtain q m where m: "eth_tx_decode v (length ([] :: byte list)) fresh = Some (Inr (length ([] @ enc_value (eth_tx_value ty xs)), m))"
    "decoded ty xs m" "et_rlp_list m = items_at v (length q) xs" "bv_bytes v = q @ enc_items xs @ post"
    using eth_tx_decode_at [OF v(1,2), of "[]" ty xs post fresh] v(3) ok by auto
  have "eth_tx_deserialize m = Inr True" using eth_tx_deserialize_spec [OF v(1,2) m(4) ok m(2,3)] to by simp
  then have "parse_transaction v fresh = Some (Inr (True, m))"
    using m(1) enc_value_nonempty [of "eth_tx_value ty xs"] by (simp add: parse_transaction_def catching_def)
  then show ?thesis using m(2) get_unsigned_msg_spec [OF v(1,2) m(4) ok m(2,3)] by blast
qed

section \<open>A transaction\<close>

definition eth_demo_items :: "byte list \<Rightarrow> rlp_value list" where
  \<comment> \<open>a legacy transaction on chain 1 with the given \<^verbatim>\<open>r\<close>\<close>
  "eth_demo_items r = [RStr [5], RStr [9], RStr [0x52, 8], RStr (replicate 20 7), RStr [100], RStr [], RStr [37], RStr r, RStr (replicate 32 3)]"

definition eth_demo_fresh :: eth_tx where
  "eth_demo_fresh = \<lparr>et_nonce = 0, et_gas_price = 0, et_gas_limit = 0, et_v = 0, et_max_priority_fee_per_gas = 0,
     et_max_fee_per_gas = 0, et_start_gas = 0, et_y_parity = 0, et_chain_id = 0, et_r = [], et_s = [], et_value = [],
     et_access_list = [], et_address = [], et_data = bv_empty, et_sha = sha_zero, et_rlp_list = [], et_payload_type = 0\<rparr>"

definition eth_demo_key :: "unit \<Rightarrow> byte list" where
  "eth_demo_key _ = 4 # replicate 64 1"

lemma eth_demo_len:
  assumes "length r = 32 \<or> length r = 33"
  shows "length (enc_value (eth_tx_value 0 (eth_demo_items r))) \<le> 200" "length (enc_items (eth_demo_items r)) \<le> 200"
proof -
  have l: "length (rlp_prefix b n) \<le> 9" for b n using get_length_bytes_size_bounds(2) [of n] by (simp add: rlp_prefix_def)
  have e: "length (enc_str bs) \<le> 9 + length bs" for bs using l [of RLP_STR_ENCODING_TYPE "length bs"] by (auto simp: enc_str_def)
  have "length (enc_items (eth_demo_items r)) \<le> 180"
    using assms e [of "replicate 20 7"] e [of r] e [of "replicate 32 3"] by (auto simp: eth_demo_items_def enc_str_def rlp_prefix_def)
  then show "length (enc_value (eth_tx_value 0 (eth_demo_items r))) \<le> 200" "length (enc_items (eth_demo_items r)) \<le> 200"
    using l [of RLP_LIST_ENCODING_TYPE "length (enc_items (eth_demo_items r))"] by (simp_all add: eth_tx_value_def enc_list_def)
qed

lemma eth_demo_ok: "length r = 32 \<or> length r = 33 \<Longrightarrow> eth_tx_ok 0 (eth_demo_items r)"
  using eth_demo_len(1) [of r] by (simp add: eth_tx_ok_def signed_items_def eth_demo_items_def upt_rec)

lemma eth_demo_fields:
  "tx_int (eth_demo_items r) 6 = 37" "tx_int (eth_demo_items r) (Suc 0) = 9" "payload (eth_demo_items r ! 3) = replicate 20 7"
  "payload (eth_demo_items r ! 7) = r" "payload (eth_demo_items r ! 8) = replicate 32 3"
  by (simp_all add: tx_int_def eth_demo_items_def be_val_def)

lemma eth_demo_view:
  "length r = 32 \<or> length r = 33 \<Longrightarrow> bv_ok (bv_msg (enc_value (eth_tx_value 0 (eth_demo_items r))))"
  using eth_demo_len(1) [of r] by simp

lemma eth_validation_verdict:
  assumes v: "bv_ok v" "bv_from v = 0" "bv_bytes v = enc_value (eth_tx_value ty xs) @ post" and ok: "eth_tx_ok ty xs"
    and to: "length (payload (xs ! (ty + 3))) \<le> 20"
    and r: "length (payload (xs ! (signed_items ty + 1))) \<le> 32" and s: "length (payload (xs ! (signed_items ty + 2))) \<le> 32"
    and lv: "ty = 0 \<longrightarrow> legacy_v_ok (tx_int xs 6)" and ser: "uncompressed_format serialize"
  shows "eth_transaction_validation parse_compact ecdsa_recover serialize fresh v min_fee now nonces age factor =
    Some (case eth_sender parse_compact ecdsa_recover serialize ty xs of
            None \<Rightarrow> Inr (set_bit TX_VALIDATION_STATUS_INVALID_SIGNATURE 0, nonces)
          | Some key \<Rightarrow>
              if tx_int xs (ty + 1) < min_fee then Inr (set_bit TX_VALIDATION_STATUS_INVALID_LOW_FEE 0, nonces)
              else if now \<le> 0 then Inr (set_bit TX_VALIDATION_STATUS_VALID_TX 0, nonces)
              else check_sender_nonce now
                     (sha_binary (sha_with_nonce (sha_of_binary (sha3_256 key)) (tx_int xs (if ty = 0 then 0 else 1))))
                     (tx_int xs (ty + 1)) nonces age factor)"
proof -
  obtain m where m: "parse_transaction v fresh = Some (Inr (True, m))" "decoded ty xs m" "get_unsigned_msg m = Inr (eth_signing_payload ty xs)"
    using parse_transaction_spec [OF v ok to] lv by blast
  have ty: "ty \<le> 2" and g: "et_gas_price m = tx_int xs (ty + 1)" using ok m(2) by (simp_all add: eth_tx_ok_def decoded_def)
  obtain k where k: "verify_transaction_signature parse_compact ecdsa_recover serialize m sha_zero =
    Inr (case eth_sender parse_compact ecdsa_recover serialize ty xs of
           None \<Rightarrow> (False, k)
         | Some key \<Rightarrow> (True, sha_with_nonce (sha_of_binary (sha3_256 key)) (tx_int xs (if ty = 0 then 0 else 1))))"
    using verify_transaction_signature_spec [OF ser r s ty m(2,3)] lv by blast
  show ?thesis
  proof (cases "eth_sender parse_compact ecdsa_recover serialize ty xs")
    case None
    then show ?thesis by (simp add: eth_transaction_validation_def m(1) k)
  next
    case (Some key)
    then show ?thesis unfolding eth_transaction_validation_def m(1) option.case rbind_simps prod.case k g by (simp add: not_less not_le)
  qed
qed

text \<open>
  C14: the validator on a well-formed transaction of any of the three types: the sender is the key
  that the signature recovers to for the Keccak hash of the signing payload; without one the
  signature is invalid, below the minimal fee the fee is too low, and otherwise, when a time is given,
  the check of the sender's nonce decides, under the key made of the sender's address and the nonce.
  For a legacy transaction this holds before EIP-155 and for chain ids from 1 to 110.
\<close>

theorem eth_transaction_validation_spec:
  assumes v: "bv_ok v" "bv_from v = 0" "bv_bytes v = enc_value (eth_tx_value ty xs) @ post" and ok: "eth_tx_ok ty xs"
    and to: "length (payload (xs ! (ty + 3))) \<le> 20"
    and r: "length (payload (xs ! (signed_items ty + 1))) \<le> 32" and s: "length (payload (xs ! (signed_items ty + 2))) \<le> 32"
    and lv: "ty = 0 \<longrightarrow> legacy_v_ok (tx_int xs 6)" and ser: "uncompressed_format serialize"
  shows "eth_transaction_validation parse_compact ecdsa_recover serialize fresh v min_fee now nonces age factor =
    Some (case eth_sender parse_compact ecdsa_recover serialize ty xs of
            None \<Rightarrow> Inr (set_bit TX_VALIDATION_STATUS_INVALID_SIGNATURE 0, nonces)
          | Some key \<Rightarrow>
              if tx_int xs (ty + 1) < min_fee then Inr (set_bit TX_VALIDATION_STATUS_INVALID_LOW_FEE 0, nonces)
              else if now \<le> 0 then Inr (set_bit TX_VALIDATION_STATUS_VALID_TX 0, nonces)
              else check_sender_nonce now
                     (sha_binary (sha_with_nonce (sha_of_binary (sha3_256 key)) (tx_int xs (if ty = 0 then 0 else 1))))
                     (tx_int xs (ty + 1)) nonces age factor)"
  by (rule eth_validation_verdict [OF assms])

theorem eth_transaction_validation_spec_witness:
  "eth_transaction_validation (\<lambda>_ _. Some ()) (\<lambda>_ _. Some ()) eth_demo_key eth_demo_fresh
     (bv_msg (enc_value (eth_tx_value 0 (eth_demo_items (replicate 32 2))))) 9 0 om_new 10 2 =
   Some (Inr (1, om_new))"
proof -
  let ?xs = "eth_demo_items (replicate 32 2)"
  have r: "length (replicate 32 (2 :: byte)) = 32 \<or> length (replicate 32 (2 :: byte)) = 33" by simp
  have "eth_sender (\<lambda>_ _. Some ()) (\<lambda>_ _. Some ()) eth_demo_key 0 ?xs = Some (replicate 64 1)"
    by (simp add: eth_sender_def eth_parity_def eth_demo_fields eth_demo_key_def)
  moreover have "uncompressed_format eth_demo_key" by (simp add: uncompressed_format_def eth_demo_key_def)
  ultimately show ?thesis
    using eth_transaction_validation_spec [where serialize = eth_demo_key and ty = 0 and xs = ?xs and fresh = eth_demo_fresh
        and post = "[]" and parse_compact = "\<lambda>_ _. Some ()" and ecdsa_recover = "\<lambda>_ _. Some ()" and min_fee = 9 and now = 0 and nonces = om_new
        and age = 10 and factor = 2, OF eth_demo_view [OF r] bv_msg_simps(2) _ eth_demo_ok [OF r]]
    by (simp add: signed_items_def eth_demo_fields legacy_v_ok_def tx_status_consts)
qed

text \<open>
  C33: \<^verbatim>\<open>r\<close> is copied in front of position 32 of the signature without a check of its length: a transaction
  whose \<^verbatim>\<open>r\<close> has more than 32 bytes is decoded, and the validator writes in front of the vector.
\<close>

theorem eth_validation_faults_on_long_r:
  assumes v: "bv_ok v" "bv_from v = 0" "bv_bytes v = enc_value (eth_tx_value ty xs) @ post" and ok: "eth_tx_ok ty xs"
    and to: "length (payload (xs ! (ty + 3))) \<le> 20" and p: "ty = 0 \<longrightarrow> 35 < tx_int xs 6 \<or> tx_int xs 6 = 27 \<or> tx_int xs 6 = 28"
    and r: "32 < length (payload (xs ! (signed_items ty + 1)))"
  shows "eth_transaction_validation parse_compact ecdsa_recover serialize fresh v min_fee now nonces age factor = Some (Inl MemFault)"
proof -
  obtain m where m: "parse_transaction v fresh = Some (Inr (True, m))" "decoded ty xs m" using parse_transaction_spec [OF v ok to] by blast
  have "\<exists>parity. signature_parity (et_v m) (et_payload_type m) (et_y_parity m) = Inr parity"
    using m(2) p ok by (auto simp: decoded_def eth_tx_ok_def signature_parity_def eth_tx_consts u64_sub_id Let_def)
  moreover have "vec_insert xs (int MAX_R_SIZE - int (length (et_r m))) ys = Inl MemFault" for xs ys :: "byte list"
    using m(2) r by (simp add: decoded_def vec_insert_def eth_tx_consts)
  ultimately have "encode_signature (et_v m) (et_r m) (et_s m) (et_payload_type m) (et_y_parity m) = Inl MemFault"
    by (auto simp: encode_signature_def)
  then show ?thesis by (simp add: eth_transaction_validation_def m(1) verify_transaction_signature_def catching_def)
qed

theorem eth_validation_faults_on_long_r_witness:
  "eth_transaction_validation (\<lambda>_ _. Some ()) (\<lambda>_ _. Some ()) eth_demo_key eth_demo_fresh
     (bv_msg (enc_value (eth_tx_value 0 (eth_demo_items (replicate 33 2))))) 9 0 om_new 10 2 = Some (Inl MemFault)"
proof -
  let ?xs = "eth_demo_items (replicate 33 2)"
  have r: "length (replicate 33 (2 :: byte)) = 32 \<or> length (replicate 33 (2 :: byte)) = 33" by simp
  show ?thesis
    using eth_validation_faults_on_long_r [where ty = 0 and xs = ?xs and post = "[]", OF eth_demo_view [OF r] bv_msg_simps(2) _ eth_demo_ok [OF r]]
    by (simp add: signed_items_def eth_demo_fields)
qed

section \<open>Messages of transactions\<close>

lemma parse_tx_at:
  assumes v: "bv_ok v" "bv_bytes v = pre @ enc_value t @ post" and t: "length (enc_value t) < 2 ^ 29"
  shows "parse_tx v (length pre) =
    Inr (length (pre @ enc_value t), \<lparr>ptx_hash = eth_tx_hash t, ptx_offset = length pre, ptx_length = length (enc_value t)\<rparr>)"
proof -
  obtain p where p: "enc_value t = p @ payload t" using enc_value_split by blast
  have n: "length (payload t) < 2 ^ 32" using t p by simp
  have c: "bv_consume v (length pre) = Inr (length (payload t), value_type t, length (pre @ p))" using consume_value_at [OF v n] p by simp
  have "length (pre @ enc_value t) < 2 ^ 64" using bvs.bytes_small [OF v(1)] v(2) by simp
  then have u: "u64 (length (pre @ p) + length (payload t)) = length (pre @ enc_value t)"
    "u64_sub (length (pre @ enc_value t)) (length pre) = length (enc_value t)"
    "u64_sub (length (pre @ enc_value t)) (length (pre @ p)) = length (payload t)"
    using p by (simp_all add: u64_id u64_sub_id)
  have "(if value_type t = RLP_LIST then keccak_sha3 (bv_read v) (length pre) (length (enc_value t))
      else keccak_sha3 (bv_read v) (length (pre @ p)) (length (payload t))) = Inr (sha_of_binary (eth_tx_hash t))"
    using eth_tx_hash_at_spec(1) [OF v t] unfolding eth_tx_hash_at_def by (simp only: c rbind_simps prod.case u(1,2))
  then show ?thesis unfolding parse_tx_def by (simp only: c rbind_simps prod.case u Let_def) (simp add: sha_of_binary_def)
qed

fun parsed_at :: "nat \<Rightarrow> rlp_value list \<Rightarrow> parsed_tx list" where
  "parsed_at off [] = []"
| "parsed_at off (t # ts) =
     \<lparr>ptx_hash = eth_tx_hash t, ptx_offset = off, ptx_length = length (enc_value t)\<rparr> # parsed_at (off + length (enc_value t)) ts"

lemma parse_txs_at:
  assumes v: "bv_ok v" and eq: "bv_bytes v = pre @ eth_txs ts @ post" and len: "length (eth_txs ts) < 2 ^ 29"
    and e: "e = length (pre @ eth_txs ts)"
  shows "parse_txs v e (length pre) acc = Some (Inr (acc @ parsed_at (length pre) ts))"
  using eq len e
proof (induction ts arbitrary: pre acc)
  case Nil
  then show ?case by (subst parse_txs.simps) simp
next
  case (Cons t ts)
  let ?p = "\<lparr>ptx_hash = eth_tx_hash t, ptx_offset = length pre, ptx_length = length (enc_value t)\<rparr>"
  have t: "parse_tx v (length pre) = Inr (length (pre @ enc_value t), ?p)"
    using Cons.prems by (intro parse_tx_at [OF v, of _ _ "eth_txs ts @ post"]) simp_all
  have "length pre < e" using Cons.prems(3) enc_value_nonempty [of t] by simp
  then have "parse_txs v e (length pre) acc = parse_txs v e (length (pre @ enc_value t)) (acc @ [?p])"
    by (subst parse_txs.simps) (simp only: t if_True sum.case prod.case)
  then show ?case using Cons.IH [of "pre @ enc_value t"] Cons.prems by simp
qed

lemma parsed_at_list_all2:
  assumes "bs = pre @ eth_txs ts @ post"
  shows "list_all2 (\<lambda>p t. ptx_hash p = eth_tx_hash t \<and> slice (ptx_offset p) (ptx_length p) bs = enc_value t) (parsed_at (length pre) ts) ts"
  using assms
proof (induction ts arbitrary: pre)
  case (Cons t ts)
  then show ?case using Cons.IH [of "pre @ enc_value t"] slice_middle [of pre _ "enc_value t" _ "eth_txs ts @ post"] by simp
qed simp

lemma eth_txs_loop_at:
  assumes v: "bv_ok v" "bv_from v = 0" and eq: "bv_bytes v = pre @ eth_txs (map (case_prod eth_tx_value) txs) @ post"
    and ok: "list_all (case_prod eth_tx_ok) txs" and e: "e = length (pre @ eth_txs (map (case_prod eth_tx_value) txs))"
  shows "\<exists>ms. eth_txs_loop fresh v e (length pre) acc = Some (Inr (acc @ ms)) \<and>
    list_all2 (\<lambda>m (ty, xs). decoded ty xs m \<and> sha_binary (et_sha m) = eth_tx_hash (eth_tx_value ty xs)) ms txs"
  using eq ok e
proof (induction txs arbitrary: pre acc)
  case Nil
  then show ?case by (subst eth_txs_loop.simps) simp
next
  case (Cons tx txs)
  obtain ty xs where tx: "tx = (ty, xs)" by fastforce
  let ?t = "eth_tx_value ty xs"
  have "bv_bytes v = pre @ enc_value ?t @ eth_txs (map (case_prod eth_tx_value) txs) @ post" "eth_tx_ok ty xs" using Cons.prems(1,2) tx by simp_all
  from eth_tx_decode_at [OF v this, of fresh]
  obtain m where m: "eth_tx_decode v (length pre) fresh = Some (Inr (length (pre @ enc_value ?t), m))" "decoded ty xs m"
    "sha_binary (et_sha m) = eth_tx_hash ?t" by blast
  have lt: "length pre < e" and ne: "(length (pre @ enc_value ?t) = length pre) = False" using Cons.prems(3) tx enc_value_nonempty [of ?t] by simp_all
  have step: "eth_txs_loop fresh v e (length pre) acc = eth_txs_loop fresh v e (length (pre @ enc_value ?t)) (acc @ [m])"
    by (subst eth_txs_loop.simps) (simp only: lt m(1) ne if_True if_False option.case sum.case prod.case)
  obtain ms where ms: "eth_txs_loop fresh v e (length (pre @ enc_value ?t)) (acc @ [m]) = Some (Inr ((acc @ [m]) @ ms))"
    "list_all2 (\<lambda>m (ty, xs). decoded ty xs m \<and> sha_binary (et_sha m) = eth_tx_hash (eth_tx_value ty xs)) ms txs"
    using Cons.IH [of "pre @ enc_value ?t" "acc @ [m]"] Cons.prems tx by auto
  then show ?case using step m(2,3) tx by (intro exI [of _ "m # ms"]) simp
qed

lemma parse_message_at:
  assumes v: "bv_ok v" "bv_bytes v = enc_list (eth_txs ts) @ post" and len: "length (eth_txs ts) < 2 ^ 29"
  shows "parse_transactions_message v =
    Some (Inr (parsed_at (length (rlp_prefix RLP_LIST_ENCODING_TYPE (length (eth_txs ts)))) ts))"
proof -
  define q where "q = rlp_prefix RLP_LIST_ENCODING_TYPE (length (eth_txs ts))"
  have c: "bv_consume v 0 = Inr (length (eth_txs ts), RLP_LIST, length q)"
    using consume_list_bv [OF v(1), of "[]" "eth_txs ts" post 0] v(2) len by (simp add: q_def)
  have eq: "bv_bytes v = q @ eth_txs ts @ post" using v(2) by (simp add: enc_list_def q_def)
  then have u: "u64 (length q + length (eth_txs ts)) = length (q @ eth_txs ts)"
    using bvs.bytes_small [OF v(1)] by (simp add: u64_id)
  show ?thesis
    unfolding parse_transactions_message_def q_def [symmetric]
    by (simp only: c sum.case prod.case u parse_txs_at [OF v(1) eq len refl]) simp
qed

text \<open>
  C15: both readers of a message of transactions end and see the same ones, in order: the parser gives
  the hash and the bytes of each, the decoder reads the fields of each and computes the same hash,
  which is the one that compression uses.
\<close>

theorem eth_transactions_message:
  assumes v: "bv_ok v" "bv_from v = 0" "bv_bytes v = enc_list (eth_txs (map (case_prod eth_tx_value) txs)) @ post"
    and ok: "list_all (case_prod eth_tx_ok) txs" and len: "length (eth_txs (map (case_prod eth_tx_value) txs)) < 2 ^ 29"
  shows "\<exists>ps ms. parse_transactions_message v = Some (Inr ps) \<and>
    eth_txs_decode fresh v 0 [] = Some (Inr (length (enc_list (eth_txs (map (case_prod eth_tx_value) txs))), ms)) \<and>
    list_all2 (\<lambda>p (ty, xs). ptx_hash p = eth_tx_hash (eth_tx_value ty xs) \<and>
      slice (ptx_offset p) (ptx_length p) (bv_bytes v) = enc_value (eth_tx_value ty xs)) ps txs \<and>
    list_all2 (\<lambda>m (ty, xs). decoded ty xs m \<and> sha_binary (et_sha m) = eth_tx_hash (eth_tx_value ty xs)) ms txs"
proof -
  let ?ts = "map (case_prod eth_tx_value) txs" let ?b = "eth_txs ?ts"
  define q where "q = rlp_prefix RLP_LIST_ENCODING_TYPE (length ?b)"
  have c: "bv_consume v 0 = Inr (length ?b, RLP_LIST, length q)"
    using consume_list_bv [OF v(1), of "[]" ?b post 0] v(3) len by (simp add: q_def)
  have eq: "bv_bytes v = q @ ?b @ post" "enc_list ?b = q @ ?b" using v(3) by (simp_all add: enc_list_def q_def)
  then have u: "u64 (length q + length ?b) = length (q @ ?b)" using bvs.bytes_small [OF v(1)] by (simp add: u64_id)
  have p: "parse_transactions_message v = Some (Inr (parsed_at (length q) ?ts))"
    using parse_message_at [OF v(1,3) len] by (simp add: q_def)
  obtain ms where ms: "eth_txs_loop fresh v (length (q @ ?b)) (length q) [] = Some (Inr ([] @ ms))"
    "list_all2 (\<lambda>m (ty, xs). decoded ty xs m \<and> sha_binary (et_sha m) = eth_tx_hash (eth_tx_value ty xs)) ms txs"
    using eth_txs_loop_at [OF v(1,2) eq(1) ok refl, of fresh "[]"] by blast
  have d: "eth_txs_decode fresh v 0 [] = Some (Inr (length (enc_list ?b), ms))"
    unfolding eth_txs_decode_def by (simp only: c sum.case prod.case u ms(1) option.case rbind_simps eq(2)) simp
  have "list_all2 (\<lambda>p (ty, xs). ptx_hash p = eth_tx_hash (eth_tx_value ty xs) \<and>
      slice (ptx_offset p) (ptx_length p) (bv_bytes v) = enc_value (eth_tx_value ty xs)) (parsed_at (length q) ?ts) txs"
    using parsed_at_list_all2 [OF eq(1)] unfolding list_all2_map2 by (auto elim!: list_all2_mono split: prod.splits)
  then show ?thesis using p d ms(2) by blast
qed

theorem eth_transactions_message_witness:
  "\<exists>ps ms. parse_transactions_message (bv_msg (enc_list (eth_txs [eth_tx_value 0 (eth_demo_items (replicate 32 2))]))) = Some (Inr ps) \<and>
    eth_txs_decode eth_demo_fresh (bv_msg (enc_list (eth_txs [eth_tx_value 0 (eth_demo_items (replicate 32 2))]))) 0 [] =
      Some (Inr (length (enc_list (eth_txs [eth_tx_value 0 (eth_demo_items (replicate 32 2))])), ms)) \<and> length ps = 1 \<and> length ms = 1"
proof -
  let ?txs = "[(0 :: nat, eth_demo_items (replicate 32 2))]"
  define b where "b = eth_txs (map (case_prod eth_tx_value) ?txs)"
  have r: "length (replicate 32 (2 :: byte)) = 32 \<or> length (replicate 32 (2 :: byte)) = 33" by simp
  have len: "length b < 2 ^ 29" using eth_demo_len(1) [OF r] by (simp add: b_def)
  have "length (enc_list b) \<le> 9 + length b" using length_rlp_prefix [of "length b" RLP_LIST_ENCODING_TYPE] len by (simp add: enc_list_def)
  then have ok: "bv_ok (bv_msg (enc_list b))" using len by simp
  have bytes: "bv_bytes (bv_msg (enc_list b)) = enc_list b @ []" by simp
  have txs: "list_all (case_prod eth_tx_ok) ?txs" using eth_demo_ok [OF r] by simp
  from eth_transactions_message [OF ok [unfolded b_def] bv_msg_simps(2) bytes [unfolded b_def] txs len [unfolded b_def], of eth_demo_fresh, folded b_def]
  obtain ps ms where "parse_transactions_message (bv_msg (enc_list b)) = Some (Inr ps)"
    "eth_txs_decode eth_demo_fresh (bv_msg (enc_list b)) 0 [] = Some (Inr (length (enc_list b), ms))"
    "length ps = length ?txs" "length ms = length ?txs"
    by (blast dest: list_all2_lengthD)
  then show ?thesis unfolding b_def by auto
qed

section \<open>Where the decoder and the validator go wrong\<close>

lemma eth_tx_decode_eight_items:
  \<comment> \<open>a list of eight items passes the test for receipts, and the ninth item is read all the same\<close>
  assumes v: "bv_ok v" "bv_from v = 0" "bv_bytes v = pre @ enc_list (enc_items xs) @ post" and len: "length (enc_items xs) < 2 ^ 32"
    and xs: "length xs = 8" "\<And>i. i \<in> {0, 1, 2, 6} \<Longrightarrow> length (payload (xs ! i)) \<le> 8"
  shows "eth_tx_decode v (length pre) m = Some (Inl MemFault)"
proof -
  obtain q rlp start n where e: "eth_tx_envelope v (length pre) = Inr (0, rlp, start, n)"
    "get_rlp_list rlp = Some (Inr (items_at v (length q) xs))" "bv_bytes v = q @ enc_items xs @ post"
    using eth_tx_envelope_legacy [OF v(1,3) len] by blast
  define its where "its = items_at v (length q) xs"
  note at = item_at(1,3) [OF v(1,2) e(3) len _ its_def] item_at(2) [OF v(1,2) e(3) len _ its_def xs(2)]
  obtain w where w: "rbind (item_of its 5) as_rlp_string = Inr w" using item_at(4) [OF v(1,2) e(3) len _ its_def, of 5] xs(1) by auto
  have "item_of its 8 = Inl MemFault" by (simp add: item_of_def its_def xs(1))
  then have "eth_fields_type_0 its m' = Inl MemFault" for m'
    using w xs(1) by (simp add: eth_fields_type_0_def eth_idx_consts at)
  then show ?thesis unfolding eth_tx_decode_def e(1) sum.case prod.case e(2) option.case its_def [symmetric] Let_def eth_tx_fields_def
    by (simp add: eth_tx_consts eth_idx_consts its_def xs(1))
qed

lemma chain_id_truncated:
  \<comment> \<open>the chain id of a signature for chain 137 comes out as 9\<close>
  "chain_id_of_v (35 + 2 * 137) = 9" "eth_chain_id (35 + 2 * 137) = 137"
  by (simp_all add: chain_id_of_v_def eth_chain_id_def eth_tx_consts)

lemma check_sender_nonce_keeps_entry:
  \<comment> \<open>an entry for the sender and nonce is never replaced, not even when it has expired\<close>
  assumes "om_find nonces k = Some it" and "check_sender_nonce now k gas nonces age factor = Inr (st, nonces')"
  shows "nonces' = nonces"
  using assms by (auto simp: check_sender_nonce_def om_emplace_def elim!: rbind_InrE split: if_splits)

end
