(* ===== verification/TxMessagesProps.thy ===== *)
theory TxMessagesProps
  imports TxMessages
begin

text \<open>
  What the message operations of the service write and do: the format of the synchronisation
  message, that a service which processes the message of another one learns its transactions and
  short ids, and the answer to a lookup by short ids.

  The writers skip bytes and come back to them later, or never. What such a gap reads as follows
  from the vector behind the buffer: it starts as zeros and grows by zeros. The predicate \<open>zbuf\<close>
  describes a buffer by its contents up to the zeros that follow.
\<close>

section \<open>Buffers that end in zeros\<close>

definition zread :: "byte list \<Rightarrow> nat \<Rightarrow> byte" where
  "zread xs i = (if i < length xs then xs ! i else 0)"

definition zbuf :: "byte_array \<Rightarrow> byte list \<Rightarrow> bool" where
  "zbuf b xs \<longleftrightarrow> ba_wf b \<and> length (ba_arr b) = ba_cap b + 1 \<and> zread (ba_arr b) = zread xs"

lemma zread_append_zeros: "zread (xs @ replicate n 0) = zread xs"
  by (auto simp: zread_def nth_append fun_eq_iff)

lemma zread_vec_resize: "length xs \<le> n \<Longrightarrow> zread (vec_resize n xs) = zread xs"
  by (simp add: vec_resize_def zread_append_zeros)

lemma zread_patch:
  assumes "p + length ys \<le> length xs"
  shows "zread (patch p ys xs) i = (if p \<le> i \<and> i < p + length ys then ys ! (i - p) else zread xs i)"
  using assms by (auto simp: zread_def patch_def nth_append)

lemma zread_append: "zread (xs @ ys) i = (if i < length xs then xs ! i else zread ys (i - length xs))"
  by (auto simp: zread_def nth_append)

lemma zread_eq_take:
  assumes "zread xs = zread ys" and "length ys \<le> length xs"
  shows "take (length ys) xs = ys"
proof (rule nth_equalityI)
  show "take (length ys) xs ! i = ys ! i" if "i < length (take (length ys) xs)" for i
    using that assms(2) fun_cong [OF assms(1), of i] by (simp add: zread_def)
qed (use assms(2) in simp)

lemma zbuf_new: "zbuf (ba_with_capacity c) []"
  using zread_append_zeros [of "[]" "c + 1"] by (simp add: zbuf_def ba_with_capacity_def ba_wf_def vec_resize_def)

lemma zbuf_gap: "zbuf b xs \<Longrightarrow> zbuf b (xs @ replicate n 0)"
  by (simp add: zbuf_def zread_append_zeros)

lemma zbuf_reserve: "zbuf b xs \<Longrightarrow> zbuf (ba_reserve b n) xs"
  by (auto simp: zbuf_def ba_reserve_def ba_wf_def zread_vec_resize)

lemma zbuf_resize: "zbuf b xs \<Longrightarrow> zbuf (ba_resize b n) xs"
  using zbuf_reserve [of b xs n] by (auto simp: ba_resize_def zbuf_def ba_wf_def ba_reserve_def)

lemma zbuf_set_output [simp]: "zbuf (ba_set_output b) xs \<longleftrightarrow> zbuf b xs"
  by (simp add: zbuf_def ba_set_output_def ba_wf_def)

lemma zbuf_bytes:
  assumes "zbuf b xs" and "n = length xs"
  shows "ba_bytes (ba_resize b n) = xs"
proof -
  have z: "zbuf (ba_resize b n) xs" using zbuf_resize [OF assms(1)] .
  then have "length xs \<le> length (ba_arr (ba_resize b n))" using assms(2) by (simp add: zbuf_def ba_wf_def)
  then show ?thesis using zread_eq_take z assms(2) by (simp add: ba_bytes_def zbuf_def)
qed

lemma zbuf_patch:
  assumes b: "zbuf b xs" and p: "p \<le> length xs" "p + length ys \<le> length (ba_arr b)"
  shows "zbuf (b\<lparr>ba_arr := patch p ys (ba_arr b)\<rparr>) (take p xs @ ys @ drop (p + length ys) xs)"
proof -
  have "zread (patch p ys (ba_arr b)) i = zread (take p xs @ ys @ drop (p + length ys) xs) i" for i
  proof -
    have "zread (take p xs @ ys @ drop (p + length ys) xs) i =
        (if p \<le> i \<and> i < p + length ys then ys ! (i - p) else zread xs i)"
      using p(1) by (auto simp: zread_def nth_append min_def add.commute)
    then show ?thesis using b p(2) by (simp add: zread_patch zbuf_def)
  qed
  then show ?thesis using b p(2) by (auto simp: zbuf_def ba_wf_def)
qed

lemma zbuf_store:
  assumes b: "zbuf b xs" and bs: "bs \<noteq> []" "p \<le> length xs" "p + length bs < 2 ^ 64"
  shows "\<exists>b'. buf_store ba_len ba_resize ba_poke b p bs = Inr (b', p + length bs) \<and>
    zbuf b' (take p xs @ bs @ drop (p + length bs) xs)"
proof -
  let ?n = "p + length bs" let ?b = "if ba_len b < ?n then ba_resize b ?n else b"
  have z: "zbuf ?b xs" using b zbuf_resize by simp
  then have wf: "ba_wf ?b" by (simp add: zbuf_def)
  have len: "?n \<le> ba_len ?b" by simp
  moreover have "0 < length bs" using bs(1) by simp
  ultimately have fits: "?n \<le> length (ba_arr ?b)" "p < ba_len ?b" using wf unfolding ba_wf_def by linarith+
  have "ba_poke ?b p bs = Inr (?b\<lparr>ba_arr := patch p bs (ba_arr ?b)\<rparr>)"
    unfolding ba_poke_def ba_at_inside [OF wf fits(2)] using fits(1) by simp
  then show ?thesis using zbuf_patch [OF z bs(2) fits(1)] bs(3) by (simp add: buf_store_def u64_id Let_def)
qed

lemma zbuf_set_le:
  assumes b: "zbuf b xs" and k: "0 < k" and pos: "pos = length xs" "pos + k < 2 ^ 64"
  shows "\<exists>b'. ba_set_le k b v pos = Inr (b', pos + k) \<and> zbuf b' (xs @ le_bytes k v)"
  using zbuf_store [OF b, of "le_bytes k v" pos] k pos by (simp add: set_le_def)

lemma zbuf_set_le_front:
  assumes b: "zbuf b (xs @ ys @ zs)" and k: "0 < k" "length ys = k" and pos: "pos = length xs" "pos + k < 2 ^ 64"
  shows "\<exists>b'. ba_set_le k b v pos = Inr (b', pos + k) \<and> zbuf b' (xs @ le_bytes k v @ zs)"
  using zbuf_store [OF b, of "le_bytes k v" pos] k pos by (simp add: set_le_def)

lemma zbuf_copy:
  assumes b: "zbuf b xs" and c: "bv_wf c" "0 < n" "from + n \<le> bv_size c" and pos: "pos = length xs" "pos + n < 2 ^ 64"
  shows "\<exists>b'. ba_copy_from_buffer b c pos from n = Inr (b', pos + n) \<and> zbuf b' (xs @ slice from n (bv_bytes c))"
proof -
  let ?n = "pos + n" and ?bs = "slice from n (bv_bytes c)"
  let ?b = "if ba_len b < ?n then ba_resize b ?n else b"
  have z: "zbuf ?b xs" using b zbuf_resize by simp
  then have wf: "ba_wf ?b" by (simp add: zbuf_def)
  have len: "?n \<le> ba_len ?b" by simp
  then have fits: "?n \<le> length (ba_arr ?b)" "0 < ba_len ?b" using wf c(2) by (auto simp: ba_wf_def)
  have rd: "bv_at_read c from n = Inr ?bs" using c by (intro bv_at_read_inside) auto
  have lb: "length ?bs = n" using c by simp
  have "ba_copy_from_buffer b c pos from n = Inr (?b\<lparr>ba_arr := patch pos ?bs (ba_arr ?b)\<rparr>, ?n)"
    using pos(2) rd fits(1) ba_at_inside [OF wf fits(2)] by (simp add: ba_copy_from_buffer_def Let_def u64_id)
  moreover have "zbuf (?b\<lparr>ba_arr := patch pos ?bs (ba_arr ?b)\<rparr>) (xs @ ?bs)"
    using zbuf_patch [OF z, of pos ?bs] fits(1) pos(1) unfolding lb by simp
  ultimately show ?thesis by blast
qed

lemma zbuf_copy_hash:
  assumes "zbuf b xs" and "length h = 32" and "pos = length xs" and "pos + 32 < 2 ^ 64"
  shows "\<exists>b'. ba_copy_hash b h pos = Inr (b', pos + 32) \<and> zbuf b' (xs @ h)"
  using zbuf_copy [OF assms(1), of "bv_msg h" 32 0 pos] assms(2-4)
  by (simp add: ba_copy_hash_def SHA256_LEN_def slice_0_all)

section \<open>The synchronisation message\<close>

definition sync_sid_list :: "tx_service \<Rightarrow> hash \<Rightarrow> sid list" where
  "sync_sid_list s h = (case ts_sids s h of None \<Rightarrow> [] | Some is \<Rightarrow> is)"

definition sync_contents :: "tx_service \<Rightarrow> hash \<Rightarrow> byte list" where
  "sync_contents s h = (case mw_find (ts_contents s) h of Some (Some c) \<Rightarrow> bv_bytes c | _ \<Rightarrow> [])"

definition enc_sync_tx :: "hash \<times> byte list \<times> sid list \<Rightarrow> byte list" where
  \<comment> \<open>hash, length and bytes of the contents, expiration date, number of short ids, short ids, flags\<close>
  "enc_sync_tx t = (case t of (h, c, is) \<Rightarrow>
     h @ le_bytes 4 (length c) @ c @ replicate 4 0 @ le_bytes 2 (length is) @ concat (map (le_bytes 4) is) @
     replicate (2 * length is) 0)"

definition sync_item :: "tx_service \<Rightarrow> hash \<Rightarrow> hash \<times> byte list \<times> sid list" where
  "sync_item s h = (h, sync_contents s h, sync_sid_list s h)"

definition item_ok :: "hash \<times> byte list \<times> sid list \<Rightarrow> bool" where
  "item_ok t = (case t of (h, c, is) \<Rightarrow>
     length h = 32 \<and> 0 < length c \<and> length c < 2 ^ 32 \<and> length is < 2 ^ 16 \<and> (\<forall>i \<in> set is. i < 2 ^ 32))"

lemma put_sids_spec:
  assumes "zbuf b xs" and "pos = length xs" and "pos + 4 * length is < 2 ^ 64"
  shows "\<exists>b'. put_sids b is pos = Inr (b', pos + 4 * length is) \<and> zbuf b' (xs @ concat (map (le_bytes 4) is))"
  using assms
proof (induction "is" arbitrary: b xs pos)
  case (Cons i "is")
  obtain b1 where b1: "ba_set_le 4 b i pos = Inr (b1, pos + 4)" "zbuf b1 (xs @ le_bytes 4 i)"
    using zbuf_set_le [OF Cons.prems(1), of 4 pos i] Cons.prems(2,3) by auto
  obtain b' where "put_sids b1 is (pos + 4) = Inr (b', pos + 4 + 4 * length is)"
    "zbuf b' ((xs @ le_bytes 4 i) @ concat (map (le_bytes 4) is))"
    using Cons.IH [OF b1(2), of "pos + 4"] Cons.prems(2,3) by auto
  then show ?case using b1(1) by (simp add: add.assoc)
qed simp

lemma replicate_zero_le: "replicate k 0 = le_bytes k 0"
  by (induction k) auto

lemma put_sync_tx_spec:
  assumes b: "zbuf b xs" and pos: "pos = length xs"
    and item: "item_ok (sync_item s h)" "mw_find (ts_contents s) h = Some (Some c)" "bv_wf c"
    and small: "pos + length (enc_sync_tx (sync_item s h)) < 2 ^ 64"
  shows "\<exists>b'. put_sync_tx True s b h pos = Inr (b', pos + length (enc_sync_tx (sync_item s h))) \<and>
    zbuf b' (xs @ enc_sync_tx (sync_item s h))"
proof -
  let ?is = "sync_sid_list s h" and ?c = "sync_contents s h"
  have c: "?c = bv_bytes c" "bv_size c = length ?c" using item(2,3) by (simp_all add: sync_contents_def)
  have ok: "length h = 32" "0 < length ?c" "length ?c < 2 ^ 32" "length ?is < 2 ^ 16"
    using item(1) by (simp_all add: item_ok_def sync_item_def)
  have len: "length (enc_sync_tx (sync_item s h)) = 42 + length ?c + 6 * length ?is"
    using ok(1) by (simp add: enc_sync_tx_def sync_item_def length_concat comp_def sum_list_triv)
  have sm: "pos + (42 + length ?c + 6 * length ?is) < 2 ^ 64" using small len by simp
  obtain b1 where b1: "ba_copy_hash b h pos = Inr (b1, pos + 32)" "zbuf b1 (xs @ h)"
    using zbuf_copy_hash [OF b ok(1) pos] sm by auto
  obtain b2 where b2: "ba_set_le 4 b1 (length ?c) (pos + 32) = Inr (b2, pos + 36)" "zbuf b2 (xs @ h @ le_bytes 4 (length ?c))"
    using zbuf_set_le [OF b1(2), of 4 "pos + 32" "length ?c"] sm pos ok(1) by (auto simp: add.assoc)
  obtain b3 where b3: "ba_copy_from_buffer b2 c (pos + 36) 0 (length ?c) = Inr (b3, pos + 36 + length ?c)"
    "zbuf b3 (xs @ h @ le_bytes 4 (length ?c) @ ?c)"
    using zbuf_copy [OF b2(2) item(3), of "length ?c" 0 "pos + 36"] sm pos ok c by (auto simp: slice_0_all)
  let ?p = "pos + 40 + length ?c"
  let ?pre = "xs @ h @ le_bytes 4 (length ?c) @ ?c @ replicate 4 0"
  have g: "zbuf b3 ?pre" using zbuf_gap [OF b3(2), of 4] by simp
  have lp: "?p = length ?pre" using pos ok(1) by simp
  have u: "u64 (pos + 36 + length ?c + 4) = ?p" using sm by (simp add: u64_id)
  show ?thesis
  proof (cases "ts_sids s h")
    case None
    then have none: "?is = []" by (simp add: sync_sid_list_def)
    have "zbuf b3 (?pre @ le_bytes 2 0)" using zbuf_gap [OF g, of 2] by (simp add: replicate_zero_le)
    moreover have "u64 (?p + 2) = pos + length (enc_sync_tx (sync_item s h))" using sm none len by (simp add: u64_id)
    ultimately show ?thesis
      using b1(1) b2(1) b3(1) item(2) c ok u None none
      by (simp add: put_sync_tx_def put_sync_contents_def Let_def msg_consts u32_id enc_sync_tx_def sync_item_def)
  next
    case (Some "is")
    then have is_eq: "?is = is" by (simp add: sync_sid_list_def)
    obtain b4 where b4: "ba_set_le 2 b3 (length is) ?p = Inr (b4, ?p + 2)" "zbuf b4 (?pre @ le_bytes 2 (length is))"
      using zbuf_set_le [OF g _ lp, of 2 "length is"] sm by auto
    obtain b5 where b5: "put_sids b4 is (?p + 2) = Inr (b5, ?p + 2 + 4 * length is)"
      "zbuf b5 ((?pre @ le_bytes 2 (length is)) @ concat (map (le_bytes 4) is))"
      using put_sids_spec [OF b4(2), of "?p + 2" "is"] sm lp is_eq by auto
    have "zbuf b5 (xs @ enc_sync_tx (sync_item s h))"
      using zbuf_gap [OF b5(2), of "2 * length is"] is_eq by (simp add: enc_sync_tx_def sync_item_def)
    moreover have "u64 (?p + 2 + 4 * length is + length is * 2) = pos + length (enc_sync_tx (sync_item s h))"
      using sm is_eq len by (simp add: u64_id)
    ultimately show ?thesis
      using b1(1) b2(1) b3(1) b4(1) b5(1) item(2) c ok u Some is_eq
      by (simp add: put_sync_tx_def put_sync_contents_def Let_def msg_consts u32_id u16_id)
  qed
qed

lemma put_sync_txs_spec:
  assumes "zbuf b xs" and "pos = length xs"
    and "\<forall>h \<in> set hs. item_ok (sync_item s h) \<and> (\<exists>c. mw_find (ts_contents s) h = Some (Some c) \<and> bv_wf c)"
    and "pos + length (concat (map (\<lambda>h. enc_sync_tx (sync_item s h)) hs)) < 2 ^ 64"
  shows "\<exists>b'. put_sync_txs True s b hs pos = Inr (b', pos + length (concat (map (\<lambda>h. enc_sync_tx (sync_item s h)) hs))) \<and>
    zbuf b' (xs @ concat (map (\<lambda>h. enc_sync_tx (sync_item s h)) hs))"
  using assms
proof (induction hs arbitrary: b xs pos)
  case (Cons h hs)
  let ?e = "enc_sync_tx (sync_item s h)"
  obtain c where c: "mw_find (ts_contents s) h = Some (Some c)" "bv_wf c" using Cons.prems(3) by auto
  obtain b1 where b1: "put_sync_tx True s b h pos = Inr (b1, pos + length ?e)" "zbuf b1 (xs @ ?e)"
    using put_sync_tx_spec [OF Cons.prems(1,2) _ c] Cons.prems(3,4) by auto
  obtain b' where "put_sync_txs True s b1 hs (pos + length ?e) =
      Inr (b', pos + length ?e + length (concat (map (\<lambda>h. enc_sync_tx (sync_item s h)) hs)))"
    "zbuf b' ((xs @ ?e) @ concat (map (\<lambda>h. enc_sync_tx (sync_item s h)) hs))"
    using Cons.IH [OF b1(2), of "pos + length ?e"] Cons.prems(2-4) by auto
  then show ?case using b1(1) by (simp add: add.assoc)
qed simp

definition enc_sync :: "(hash \<times> byte list \<times> sid list) list \<Rightarrow> byte list" where
  "enc_sync ts = le_bytes 4 (length ts) @ concat (map enc_sync_tx ts)"

lemma get_tx_sync_buffer_spec:
  assumes ok: "\<forall>h \<in> set order. item_ok (sync_item s h) \<and> (\<exists>c. mw_find (ts_contents s) h = Some (Some c) \<and> bv_wf c)"
    and small: "length (enc_sync (map (sync_item s) order)) < 2 ^ 64" "length order < 2 ^ 32"
  shows "\<exists>b. get_tx_sync_buffer order n sz True s = Inr b \<and> ba_bytes b = enc_sync (map (sync_item s) order)"
proof -
  let ?cap = "u64 (4 + 42 * length order + 6 * n + sz)"
  obtain b0 where b0: "ba_set_le 4 (ba_with_capacity ?cap) (length order) 0 = Inr (b0, 4)" "zbuf b0 (le_bytes 4 (length order))"
    using zbuf_set_le [OF zbuf_new, of 4 0 ?cap "length order"] by auto
  obtain b1 where b1: "put_sync_txs True s b0 order 4 = Inr (b1, 4 + length (concat (map (\<lambda>h. enc_sync_tx (sync_item s h)) order)))"
    "zbuf b1 (enc_sync (map (sync_item s) order))"
    using put_sync_txs_spec [OF b0(2), of 4 order s] ok small(1) by (auto simp: enc_sync_def comp_def)
  have "ba_bytes (ba_resize b1 (4 + length (concat (map (\<lambda>h. enc_sync_tx (sync_item s h)) order)))) = enc_sync (map (sync_item s) order)"
    by (rule zbuf_bytes [OF b1(2)]) (simp add: enc_sync_def comp_def)
  then show ?thesis using b0(1) b1(1) small(2)
    by (simp add: get_tx_sync_buffer_def Let_def msg_consts u32_id)
qed

section \<open>Processing the synchronisation message\<close>

definition store_new :: "tx_service \<Rightarrow> hash \<Rightarrow> byte list \<Rightarrow> tx_service" where
  "store_new s h c =
     (if mw_find (ts_contents s) h = None
      then s\<lparr>ts_contents := mw_emplace contents_size (ts_contents s) h (Some (bv_msg c))\<rparr> else s)"

definition apply_item :: "place \<Rightarrow> hplace \<Rightarrow> real \<Rightarrow> hash \<times> byte list \<times> sid list \<Rightarrow> tx_service \<Rightarrow> tx_service" where
  "apply_item ins hins now t s = (case t of (h, c, is) \<Rightarrow> fold (assign_unknown ins hins now h) is (store_new s h c))"

definition enc_sync_result :: "hash \<times> byte list \<times> sid list \<Rightarrow> byte list" where
  "enc_sync_result t = (case t of (h, c, is) \<Rightarrow>
     h @ le_bytes 4 (length c) @ le_bytes 4 (length is) @ concat (map (le_bytes 4) is) @ replicate (2 * length is) 0)"

lemma store_copy_spec:
  assumes s: "ts_wf s" and v: "bv_ok v" "bv_bytes v = pre @ c @ post" "0 < length c"
  shows "store_copy s h v (length c) (length pre) = Inr (store_new s h c)" and "ts_wf (store_new s h c)"
proof -
  have sz: "length pre + length c \<le> bv_size v" using v length_bv_bytes [of v] by (simp add: bv_ok_def)
  have "slice (length pre) (length c) (bv_bytes v) = c" using v(2) by (simp add: slice_middle)
  then have sub: "bv_wf (bv_sub v (length c) (length pre))" "bv_bytes (bv_sub v (length c) (length pre)) = c"
    using bv_wf_sub [of v "length pre" "length c"] v(1) sz by (simp_all add: bv_ok_def)
  then have cp: "buffer_copy (bv_sub v (length c) (length pre)) = Inr (bv_msg c)"
    using v(3) by (simp add: buffer_copy_bytes)
  obtain r where r: "set_transaction_contents s h (bv_msg c) = Inr (r, store_new s h c)"
    using s by (cases rule: set_transaction_contents_cases [of s h "bv_msg c"]) (auto simp: store_new_def mw_find_def)
  show "store_copy s h v (length c) (length pre) = Inr (store_new s h c)" using cp r by (simp add: store_copy_def)
  show "ts_wf (store_new s h c)" using ts_wf_set_transaction_contents [OF s r] .
qed

lemma ts_wf_assign_unknown: "placement ins \<Longrightarrow> ts_wf s \<Longrightarrow> ts_wf (assign_unknown ins hins now h i s)"
  by (simp add: assign_unknown_def ts_wf_assign_short_id)

lemma ts_wf_fold_assign: "placement ins \<Longrightarrow> ts_wf s \<Longrightarrow> ts_wf (fold (assign_unknown ins hins now h) is s)"
  by (induction "is" arbitrary: s) (auto simp: ts_wf_assign_unknown)

lemma u32_off: "bv_ok v \<Longrightarrow> bv_bytes v = xs @ ys \<Longrightarrow> bv_size v < 2 ^ 32 \<Longrightarrow> u32 (length xs) = length xs"
  using length_bv_bytes [of v] by (intro u32_id) (simp add: bv_ok_def)

lemma sync_sids_spec:
  assumes v: "bv_ok v" "bv_bytes v = pre @ concat (map (le_bytes 4) is) @ post" "bv_size v < 2 ^ 32"
    and "is": "\<forall>i \<in> set is. i < 2 ^ 32" and b: "zbuf b out" "length out + 4 * length is < 2 ^ 64"
  shows "\<exists>b'. sync_sids ins hins now v h (length is) s b (length pre) (length out) =
      Inr (fold (assign_unknown ins hins now h) is s, b', length pre + 4 * length is, length out + 4 * length is) \<and>
    zbuf b' (out @ concat (map (le_bytes 4) is))"
  using v(2) "is" b
proof (induction "is" arbitrary: pre s b out)
  case (Cons i "is")
  have g: "get_le (bv_read v) 4 (length pre) = Inr (i, length pre + 4)"
    using bvs.get_le_at [OF v(1), of pre "le_bytes 4 i"] Cons.prems(1,2) by (simp add: le_val_le_bytes)
  obtain b1 where b1: "ba_set_le 4 b i (length out) = Inr (b1, length out + 4)" "zbuf b1 (out @ le_bytes 4 i)"
    using zbuf_set_le [OF Cons.prems(3), of 4 "length out" i] Cons.prems(4) by auto
  have u: "u32 (length pre + 4) = length pre + 4"
    using u32_off [OF v(1), of "pre @ le_bytes 4 i"] Cons.prems(1) v(3) by simp
  obtain b' where "sync_sids ins hins now v h (length is) (assign_unknown ins hins now h i s) b1
      (length (pre @ le_bytes 4 i)) (length (out @ le_bytes 4 i)) =
      Inr (fold (assign_unknown ins hins now h) is (assign_unknown ins hins now h i s), b',
        length (pre @ le_bytes 4 i) + 4 * length is, length (out @ le_bytes 4 i) + 4 * length is)"
    "zbuf b' ((out @ le_bytes 4 i) @ concat (map (le_bytes 4) is))"
    using Cons.IH [OF _ _ b1(2), of "pre @ le_bytes 4 i" "assign_unknown ins hins now h i s"] Cons.prems(1,2,4) by auto
  then show ?case using g b1(1) u by (simp add: add.assoc)
qed simp

lemma zbuf_copy_flags:
  assumes b: "zbuf b out" "0 < length out" "length out + n < 2 ^ 64"
    and v: "bv_wf v" "off + n \<le> bv_size v" "off < bv_size v" "slice off n (bv_bytes v) = ys"
  shows "\<exists>b' p. ba_copy_from_buffer b v (length out) off n = Inr (b', p) \<and> zbuf b' (out @ ys)"
proof (cases "n = 0")
  case True
  let ?b = "if ba_len b < length out then ba_resize b (length out) else b"
  have z: "zbuf ?b out" using b(1) zbuf_resize by simp
  then have wf: "ba_wf ?b" by (simp add: zbuf_def)
  have "length out \<le> ba_len ?b" by simp
  then have fits: "length out \<le> length (ba_arr ?b)" "0 < ba_len ?b" using wf b(2) unfolding ba_wf_def by linarith+
  have "bv_at_read v off 0 = Inr []" using v(1,3) by (simp add: bv_at_read_inside)
  moreover have "patch (length out) [] (ba_arr ?b) = ba_arr ?b" by (simp add: patch_def)
  ultimately have "ba_copy_from_buffer b v (length out) off 0 = Inr (?b, length out)"
    using b(3) fits(1) ba_at_inside [OF wf fits(2)] by (simp add: ba_copy_from_buffer_def Let_def u64_id)
  then show ?thesis using z v(4) True by simp
next
  case False
  then show ?thesis using zbuf_copy [OF b(1) v(1) _ v(2) refl b(3)] v(4) by auto
qed

lemma sync_tx_spec:
  assumes v: "bv_ok v" "bv_bytes v = pre @ enc_sync_tx t @ post" "bv_size v < 2 ^ 32" "post \<noteq> []"
    and t: "item_ok t" and s: "ts_wf s" and ins: "placement ins"
    and b: "zbuf b out" "length out + length (enc_sync_result t) < 2 ^ 64"
  shows "\<exists>b' n'. sync_tx ins hins now v (s, b, n, length pre, length out) =
      Inr (apply_item ins hins now t s, b', n', length pre + length (enc_sync_tx t), length out + length (enc_sync_result t)) \<and>
    zbuf b' (out @ enc_sync_result t) \<and> ts_wf (apply_item ins hins now t s)"
proof -
  obtain h c "is" where t_eq: "t = (h, c, is)" by (cases t) auto
  have ok: "length h = 32" "0 < length c" "length c < 2 ^ 32" "length is < 2 ^ 16" "\<forall>i \<in> set is. i < 2 ^ 32"
    using t by (simp_all add: item_ok_def t_eq)
  have lsz: "length (bv_bytes v) = bv_size v" using v(1) by (simp add: bv_ok_def)
  have ls: "length (concat (map (le_bytes 4) is)) = 4 * length is" by (simp add: length_concat comp_def sum_list_triv)
  let ?p1 = "pre @ h" let ?p2 = "?p1 @ le_bytes 4 (length c)" let ?p3 = "?p2 @ c @ replicate 4 0"
  let ?p4 = "?p3 @ le_bytes 2 (length is)" let ?p5 = "?p4 @ concat (map (le_bytes 4) is)"
  let ?z = "replicate (2 * length is) (0 :: byte)"
  have bytes: "bv_bytes v = pre @ h @ le_bytes 4 (length c) @ c @ replicate 4 0 @ le_bytes 2 (length is) @
      concat (map (le_bytes 4) is) @ ?z @ post"
    using v(2) by (simp add: enc_sync_tx_def t_eq)
  have sum: "bv_size v = length pre + 32 + 4 + length c + 4 + 2 + 4 * length is + 2 * length is + length post"
    using lsz bytes ok(1) ls by simp
  have r: "length (enc_sync_result t) = 40 + 6 * length is"
    using ok(1) ls by (simp add: enc_sync_result_def t_eq)
  have rd1: "sha_read v (length pre) = Inr (sha_of_binary h)"
    using sha_read_inside [of v "length pre"] v(1) sum slice_middle [of pre "length pre" h 32] bytes ok(1) by (simp add: bv_ok_def)
  have rd2: "get_le (bv_read v) 4 (length ?p1) = Inr (length c, length ?p2)"
    using bvs.get_le_at [OF v(1), of ?p1 "le_bytes 4 (length c)"] bytes ok(3) by (simp add: le_val_le_bytes)
  have rd3: "get_le (bv_read v) 2 (length ?p3) = Inr (length is, length ?p4)"
    using bvs.get_le_at [OF v(1), of ?p3 "le_bytes 2 (length is)"] bytes ok(4) by (simp add: le_val_le_bytes)
  have u: "u32 k = k" if "k \<le> bv_size v" for k using that v(3) by (simp add: u32_id)
  have us: "u32 (length pre + 32) = length ?p1" "u32 (length ?p2) = length ?p2" "u32 (length ?p4) = length ?p4"
    "u32 (u32 (length ?p2 + length c) + 4) = length ?p3"
    "u32 (length ?p4 + 4 * length is + length is * 2) = length pre + length (enc_sync_tx t)"
    using u sum ok(1) ls by (simp_all add: enc_sync_tx_def t_eq)
  obtain b1 where b1: "ba_copy_hash b h (length out) = Inr (b1, length (out @ h))" "zbuf b1 (out @ h)"
    using zbuf_copy_hash [OF b(1) ok(1) refl] b(2) r ok(1) by auto
  obtain b2 where b2: "ba_set_le 4 b1 (length c) (length (out @ h)) = Inr (b2, length (out @ h @ le_bytes 4 (length c)))"
    "zbuf b2 (out @ h @ le_bytes 4 (length c))"
    using zbuf_set_le [OF b1(2), of 4 _ "length c"] b(2) r ok(1) by auto
  let ?o3 = "out @ h @ le_bytes 4 (length c) @ le_bytes 4 (length is)"
  obtain b3 where b3: "ba_set_le 4 b2 (length is) (length (out @ h @ le_bytes 4 (length c))) = Inr (b3, length ?o3)" "zbuf b3 ?o3"
    using zbuf_set_le [OF b2(2), of 4 _ "length is"] b(2) r ok(1) by auto
  define n' where "n' = (if 1 < length is then u64 (n + (length is - 1) * (4 + 2)) else n)"
  define b4 where "b4 = (if 1 < length is then ba_resize b3 n' else b3)"
  have b4: "zbuf b4 ?o3" using b3(2) zbuf_resize by (simp add: b4_def)
  let ?s1 = "store_new s h c"
  have st: "store_copy s h v (length c) (length ?p2) = Inr ?s1" "ts_wf ?s1"
    using store_copy_spec [OF s v(1), of ?p2 c] bytes ok(2) by auto
  obtain b5 where b5: "sync_sids ins hins now v h (length is) ?s1 b4 (length ?p4) (length ?o3) =
      Inr (fold (assign_unknown ins hins now h) is ?s1, b5, length ?p4 + 4 * length is, length ?o3 + 4 * length is)"
    "zbuf b5 (?o3 @ concat (map (le_bytes 4) is))"
    using sync_sids_spec [OF v(1) _ v(3) ok(5) b4, of ?p4 "?z @ post" ins hins now h ?s1] bytes b(2) r ok(1) by auto
  let ?o5 = "?o3 @ concat (map (le_bytes 4) is)"
  have fl: "slice (length ?p4 + 4 * length is) (length is * 2) (bv_bytes v) = ?z"
    using slice_middle [of ?p5 _ ?z _ post] bytes ls by (simp add: mult.commute)
  have room: "length ?p4 + 4 * length is + length is * 2 \<le> bv_size v" "length ?p4 + 4 * length is < bv_size v"
    using sum ok(1) v(4) by simp_all
  obtain b6 p6 where b6: "ba_copy_from_buffer b5 v (length ?o5) (length ?p4 + 4 * length is) (length is * 2) = Inr (b6, p6)"
    "zbuf b6 (?o5 @ ?z)"
    using zbuf_copy_flags [OF b5(2) _ _ _ room fl] v(1) b(2) r ok(1) ls by (auto simp: bv_ok_def)
  have lo: "length ?o5 = length ?o3 + 4 * length is" using ls by simp
  have u6: "u64 (length ?o3 + 4 * length is + length is * 2) = length out + length (enc_sync_result t)"
    using b(2) r ok(1) by (simp add: u64_id)
  have sb: "sha_binary (sha_of_binary h) = h" by (simp add: sha_of_binary_def)
  have pos: "(0 < length c) = True" using ok(2) by simp
  have ap: "apply_item ins hins now t s = fold (assign_unknown ins hins now h) is ?s1" by (simp add: apply_item_def t_eq)
  have "sync_tx ins hins now v (s, b, n, length pre, length out) =
      Inr (apply_item ins hins now t s, b6, n', length pre + length (enc_sync_tx t), length out + length (enc_sync_result t))"
    by (simp only: sync_tx_def Let_def prod.case rd1 rbind_simps sb msg_consts us b1(1) rd2 pos if_True st(1) b2(1) rd3 b3(1)
        n'_def [symmetric] b4_def [symmetric] b5(1) b6(1) [unfolded lo] u6 ap)
  moreover have "ts_wf (apply_item ins hins now t s)" using ts_wf_fold_assign [OF ins st(2)] by (simp add: apply_item_def t_eq)
  ultimately show ?thesis using b6(2) by (auto simp: enc_sync_result_def t_eq)
qed

lemma sync_txs_spec:
  assumes v: "bv_ok v" "bv_bytes v = pre @ concat (map enc_sync_tx ts) @ post" "bv_size v < 2 ^ 32" "post \<noteq> []"
    and ts: "\<forall>t \<in> set ts. item_ok t" and s: "ts_wf s" and ins: "placement ins"
    and b: "zbuf b out" "length out + length (concat (map enc_sync_result ts)) < 2 ^ 64"
  shows "\<exists>b' n'. sync_txs ins hins now v (length ts) (s, b, n, length pre, length out) =
      Inr (fold (apply_item ins hins now) ts s, b', n', length pre + length (concat (map enc_sync_tx ts)),
        length out + length (concat (map enc_sync_result ts))) \<and>
    zbuf b' (out @ concat (map enc_sync_result ts)) \<and> ts_wf (fold (apply_item ins hins now) ts s)"
  using v(2) ts s b
proof (induction ts arbitrary: pre s b n out)
  case (Cons t ts)
  let ?s = "apply_item ins hins now t s"
  have ok: "item_ok t" "\<forall>t \<in> set ts. item_ok t" using Cons.prems(2) by auto
  have post: "concat (map enc_sync_tx ts) @ post \<noteq> []" using v(4) by simp
  have bytes: "bv_bytes v = pre @ enc_sync_tx t @ concat (map enc_sync_tx ts) @ post" using Cons.prems(1) by simp
  have room: "length out + length (enc_sync_result t) < 2 ^ 64" using Cons.prems(5) by simp
  obtain b1 n1 where b1: "sync_tx ins hins now v (s, b, n, length pre, length out) =
      Inr (?s, b1, n1, length pre + length (enc_sync_tx t), length out + length (enc_sync_result t))"
    "zbuf b1 (out @ enc_sync_result t)" "ts_wf ?s"
    using sync_tx_spec [OF v(1) bytes v(3) post ok(1) Cons.prems(3) ins Cons.prems(4) room] by blast
  have bytes': "bv_bytes v = (pre @ enc_sync_tx t) @ concat (map enc_sync_tx ts) @ post" using bytes by simp
  have room': "length (out @ enc_sync_result t) + length (concat (map enc_sync_result ts)) < 2 ^ 64"
    using Cons.prems(5) by simp
  obtain b' n' where "sync_txs ins hins now v (length ts) (?s, b1, n1, length (pre @ enc_sync_tx t), length (out @ enc_sync_result t)) =
      Inr (fold (apply_item ins hins now) ts ?s, b', n', length (pre @ enc_sync_tx t) + length (concat (map enc_sync_tx ts)),
        length (out @ enc_sync_result t) + length (concat (map enc_sync_result ts)))"
    "zbuf b' ((out @ enc_sync_result t) @ concat (map enc_sync_result ts))" "ts_wf (fold (apply_item ins hins now) ts ?s)"
    using Cons.IH [OF bytes' ok(2) b1(3,2) room'] by blast
  then show ?case using b1(1) by (simp add: add.assoc)
qed simp

lemma length_enc_sync_result_le: "item_ok t \<Longrightarrow> length (enc_sync_result t) \<le> length (enc_sync_tx t)"
  by (auto simp: enc_sync_result_def enc_sync_tx_def split: prod.splits)

lemma length_enc_sync_results_le:
  "\<forall>t \<in> set ts. item_ok t \<Longrightarrow> length (concat (map enc_sync_result ts)) \<le> length (concat (map enc_sync_tx ts))"
  by (induction ts) (use length_enc_sync_result_le in \<open>auto intro: add_mono\<close>)

lemma process_tx_sync_message_spec:
  assumes v: "bv_ok v" "bv_bytes v = hdr @ enc_sync ts @ post" "bv_size v < 2 ^ 32" "post \<noteq> []" "length hdr = 24"
    and ts: "\<forall>t \<in> set ts. item_ok t" and s: "ts_wf s" and ins: "placement ins"
  shows "\<exists>b. process_tx_sync_message ins hins now s v = Inr (b, fold (apply_item ins hins now) ts s) \<and>
    ba_bytes b = le_bytes 4 (length ts) @ concat (map enc_sync_result ts) \<and>
    ts_wf (fold (apply_item ins hins now) ts s)"
proof -
  let ?n = "length ts" and ?hdr = "hdr @ le_bytes 4 (length ts)"
  have bytes: "bv_bytes v = ?hdr @ concat (map enc_sync_tx ts) @ post" using v(2) by (simp add: enc_sync_def)
  have sz: "28 + length (concat (map enc_sync_tx ts)) < bv_size v"
    using length_bv_bytes [of v] v(1,4,5) bytes by (cases post) (auto simp: bv_ok_def)
  have "?n \<le> length (concat (map enc_sync_tx ts))"
    using ts by (induction ts) (auto simp: enc_sync_tx_def split: prod.splits)
  then have n: "?n < 2 ^ 32" using sz v(3) by linarith
  have rd: "get_le (bv_read v) 4 24 = Inr (?n, 28)"
    using bvs.get_le_at [OF v(1), of hdr "le_bytes 4 ?n"] bytes v(5) n by (simp add: le_val_le_bytes)
  define len where "len = u32 (4 + ?n * (32 + 4 + 4 + 2 + 4 + 2))"
  obtain b0 where b0: "ba_set_le 4 (ba_with_capacity len) ?n 0 = Inr (b0, 4)" "zbuf b0 (le_bytes 4 ?n)"
    using zbuf_set_le [OF zbuf_new, of 4 0 len ?n] by auto
  have room: "length (le_bytes 4 ?n) + length (concat (map enc_sync_result ts)) < 2 ^ 64"
    using length_enc_sync_results_le [OF ts] sz v(3) by simp
  obtain b1 n1 where b1: "sync_txs ins hins now v ?n (s, b0, len, length ?hdr, length (le_bytes 4 ?n)) =
      Inr (fold (apply_item ins hins now) ts s, b1, n1, length ?hdr + length (concat (map enc_sync_tx ts)),
        length (le_bytes 4 ?n) + length (concat (map enc_sync_result ts)))"
    "zbuf b1 (le_bytes 4 ?n @ concat (map enc_sync_result ts))" "ts_wf (fold (apply_item ins hins now) ts s)"
    using sync_txs_spec [OF v(1) bytes v(3,4) ts s ins b0(2) room] by blast
  have "ba_bytes (ba_resize b1 (length (le_bytes 4 ?n) + length (concat (map enc_sync_result ts)))) =
      le_bytes 4 ?n @ concat (map enc_sync_result ts)"
    by (rule zbuf_bytes [OF b1(2)]) simp
  then show ?thesis using b0(1) b1(1,3) rd v(5)
    by (simp add: process_tx_sync_message_def Let_def msg_consts u32_id len_def)
qed

section \<open>What the receiver of a synchronisation message learns\<close>

definition tx_bytes :: "tx_service \<Rightarrow> hash \<Rightarrow> byte list option" where
  "tx_bytes s h = (case mw_find (ts_contents s) h of Some (Some c) \<Rightarrow> Some (bv_bytes c) | _ \<Rightarrow> None)"

lemma assign_unknown_frame [simp]: "ts_contents (assign_unknown ins hins now h i s) = ts_contents s"
  by (simp add: assign_unknown_def)

lemma fold_assign_unknown_contents [simp]: "ts_contents (fold (assign_unknown ins hins now h) is s) = ts_contents s"
  by (induction "is" arbitrary: s) auto

lemma assign_unknown_hash:
  "ts_hash (assign_unknown ins hins now h i s) j =
     (case ts_hash s j of Some k \<Rightarrow> Some k | None \<Rightarrow> if j = i \<and> i \<noteq> NULL_TX_SID then Some h else None)"
  by (cases "ts_hash s i") (auto simp: assign_unknown_def has_short_id_def assign_short_id_def sids_index_def Let_def split: option.splits)

lemma fold_assign_unknown_hash:
  "ts_hash (fold (assign_unknown ins hins now h) is s) j =
     (case ts_hash s j of Some k \<Rightarrow> Some k | None \<Rightarrow> if j \<in> set is \<and> j \<noteq> NULL_TX_SID then Some h else None)"
  by (induction "is" arbitrary: s) (auto simp: assign_unknown_hash split: option.splits)

lemma store_new_hash [simp]: "ts_hash (store_new s h c) = ts_hash s"
  by (simp add: store_new_def)

lemma store_new_bytes:
  "ts_wf s \<Longrightarrow> tx_bytes (store_new s h c) k =
     (case tx_bytes s k of Some d \<Rightarrow> Some d | None \<Rightarrow> if k = h then Some c else None)"
  by (auto simp: store_new_def tx_bytes_def mw_find_def mw_emplace_def ts_wf_def split: option.splits)

lemma apply_item_hash:
  "ts_hash (apply_item ins hins now (h, c, is) s) j =
     (case ts_hash s j of Some k \<Rightarrow> Some k | None \<Rightarrow> if j \<in> set is \<and> j \<noteq> NULL_TX_SID then Some h else None)"
  by (simp add: apply_item_def fold_assign_unknown_hash)

lemma apply_item_bytes:
  "ts_wf s \<Longrightarrow> tx_bytes (apply_item ins hins now (h, c, is) s) k =
     (case tx_bytes s k of Some d \<Rightarrow> Some d | None \<Rightarrow> if k = h then Some c else None)"
  using store_new_bytes by (simp add: apply_item_def tx_bytes_def)

lemma sync_item_hash:
  assumes "ts_wf s1"
  shows "ts_hash (apply_item ins hins now (sync_item s1 h) s) j =
     (case ts_hash s j of Some k \<Rightarrow> Some k | None \<Rightarrow> if ts_hash s1 j = Some h then Some h else None)"
proof -
  have "j \<in> set (sync_sid_list s1 h) \<longleftrightarrow> ts_hash s1 j = Some h"
    using assms by (cases "ts_sids s1 h") (auto simp: sync_sid_list_def ts_wf_def ts_linked_def)
  moreover have "j \<noteq> NULL_TX_SID" if "ts_hash s1 j = Some h" using assms that by (auto simp: ts_wf_def)
  ultimately show ?thesis by (auto simp: sync_item_def apply_item_hash split: option.split)
qed

lemma fold_sync_hash:
  assumes "ts_wf s1"
  shows "ts_hash (fold (apply_item ins hins now) (map (sync_item s1) order) s) j =
     (case ts_hash s j of Some k \<Rightarrow> Some k
      | None \<Rightarrow> if \<exists>h \<in> set order. ts_hash s1 j = Some h then ts_hash s1 j else None)"
  by (induction order arbitrary: s) (auto simp: sync_item_hash [OF assms] split: option.splits)

lemma ts_wf_apply_item:
  assumes "ts_wf s" and "placement ins" and "0 < length c" "length c < 2 ^ 32"
  shows "ts_wf (apply_item ins hins now (h, c, is) s)"
proof -
  have "ts_wf (store_new s h c)" using store_copy_spec(2) [OF assms(1), of "bv_msg c" "[]" c "[]"] assms(3,4) by (auto simp: bv_ok_def)
  then show ?thesis using assms(2) by (simp add: apply_item_def ts_wf_fold_assign)
qed

lemma fold_sync_bytes:
  assumes "\<forall>h \<in> set order. item_ok (sync_item s1 h) \<and> tx_bytes s1 h \<noteq> None" and "placement ins" and "ts_wf s"
  shows "tx_bytes (fold (apply_item ins hins now) (map (sync_item s1) order) s) k =
     (case tx_bytes s k of Some d \<Rightarrow> Some d | None \<Rightarrow> if k \<in> set order then tx_bytes s1 k else None)"
  using assms
proof (induction order arbitrary: s)
  case (Cons h order)
  let ?s = "apply_item ins hins now (sync_item s1 h) s"
  have len: "0 < length (sync_contents s1 h)" "length (sync_contents s1 h) < 2 ^ 32"
    using Cons.prems(1) by (auto simp: item_ok_def sync_item_def)
  then have wf: "ts_wf ?s" using Cons.prems(2,3) ts_wf_apply_item by (simp add: sync_item_def)
  have "Some (sync_contents s1 h) = tx_bytes s1 h"
    using Cons.prems(1) by (auto simp: sync_contents_def tx_bytes_def split: option.splits)
  then have "tx_bytes ?s k = (case tx_bytes s k of Some d \<Rightarrow> Some d | None \<Rightarrow> if k = h then tx_bytes s1 h else None)"
    using apply_item_bytes [OF Cons.prems(3)] by (auto simp: sync_item_def split: option.split)
  then show ?case using Cons.IH [OF _ Cons.prems(2) wf] Cons.prems(1) by (auto split: option.splits)
qed (auto split: option.split)

definition sync_ready :: "tx_service \<Rightarrow> hash list \<Rightarrow> bool" where
  \<comment> \<open>every listed transaction has contents, and hash, contents and short ids fit their fields\<close>
  "sync_ready s order \<longleftrightarrow> (\<forall>h \<in> set order. length h = 32 \<and>
     (case mw_find (ts_contents s) h of Some (Some c) \<Rightarrow> bv_wf c \<and> 0 < bv_size c \<and> bv_size c < 2 ^ 32 | _ \<Rightarrow> False) \<and>
     length (sync_sid_list s h) < 2 ^ 16 \<and> (\<forall>i \<in> set (sync_sid_list s h). i < 2 ^ 32))"

lemma sync_ready_items:
  assumes "sync_ready s order" and "h \<in> set order"
  shows "item_ok (sync_item s h)" and "\<exists>c. mw_find (ts_contents s) h = Some (Some c) \<and> bv_wf c" and "tx_bytes s h \<noteq> None"
proof -
  have q: "length h = 32 \<and>
     (case mw_find (ts_contents s) h of Some (Some c) \<Rightarrow> bv_wf c \<and> 0 < bv_size c \<and> bv_size c < 2 ^ 32 | _ \<Rightarrow> False) \<and>
     length (sync_sid_list s h) < 2 ^ 16 \<and> (\<forall>i \<in> set (sync_sid_list s h). i < 2 ^ 32)"
    using assms unfolding sync_ready_def by blast
  then obtain c where c: "mw_find (ts_contents s) h = Some (Some c)" "bv_wf c" "0 < bv_size c" "bv_size c < 2 ^ 32"
    by (auto split: option.splits)
  then have "0 < length (bv_bytes c)" "length (bv_bytes c) < 2 ^ 32" by simp_all
  then show "item_ok (sync_item s h)"
    using q c(1) by (auto simp: item_ok_def sync_item_def sync_contents_def)
  show "\<exists>c. mw_find (ts_contents s) h = Some (Some c) \<and> bv_wf c" "tx_bytes s h \<noteq> None"
    using c by (auto simp: tx_bytes_def)
qed

text \<open>C19: A service that processes the synchronisation message of another one, for any order in which the
  sender's transactions are listed, ends in a consistent state in which every short id and every
  transaction it already knew is unchanged, every short id the sender has for a listed
  transaction is assigned to that transaction, the contents of every listed transaction are
  the sender's, and nothing else was added. The message holds the sender's buffer after the
  24 bytes of header and network number, and something (the control byte) after it.\<close>

theorem tx_sync_round_trip:
  assumes s1: "ts_wf s1" and s2: "ts_wf s2" and ins: "placement ins" and ready: "sync_ready s1 order"
    and msg: "length hdr = 24" "post \<noteq> []" "24 + length (enc_sync (map (sync_item s1) order)) + length post < 2 ^ 32"
  shows "\<exists>b r s'. get_tx_sync_buffer order sid_count content_size True s1 = Inr b \<and>
    process_tx_sync_message ins hins now s2 (bv_msg (hdr @ ba_bytes b @ post)) = Inr (r, s') \<and> ts_wf s' \<and>
    (\<forall>i. ts_hash s' i = (case ts_hash s2 i of Some h \<Rightarrow> Some h
       | None \<Rightarrow> if \<exists>h \<in> set order. ts_hash s1 i = Some h then ts_hash s1 i else None)) \<and>
    (\<forall>h. tx_bytes s' h = (case tx_bytes s2 h of Some c \<Rightarrow> Some c
       | None \<Rightarrow> if h \<in> set order then tx_bytes s1 h else None))"
proof -
  let ?ts = "map (sync_item s1) order" let ?s' = "fold (apply_item ins hins now) ?ts s2"
  have items: "\<forall>t \<in> set ?ts. item_ok t" using sync_ready_items(1) [OF ready] by auto
  have "length order \<le> length (concat (map enc_sync_tx ?ts))"
    using items by (induction order) (auto simp: enc_sync_tx_def split: prod.splits)
  then have small: "length (enc_sync ?ts) < 2 ^ 64" "length order < 2 ^ 32" using msg(3) by (simp_all add: enc_sync_def)
  obtain b where b: "get_tx_sync_buffer order sid_count content_size True s1 = Inr b" "ba_bytes b = enc_sync ?ts"
    using get_tx_sync_buffer_spec [OF _ small] sync_ready_items(1,2) [OF ready] by blast
  obtain r where r: "process_tx_sync_message ins hins now s2 (bv_msg (hdr @ enc_sync ?ts @ post)) = Inr (r, ?s')" "ts_wf ?s'"
    using process_tx_sync_message_spec [of "bv_msg (hdr @ enc_sync ?ts @ post)" hdr ?ts post s2 ins hins now] msg items s2 ins
    by (auto simp: bv_ok_def)
  show ?thesis
    using b r fold_sync_hash [OF s1] fold_sync_bytes [OF _ ins s2, of order s1] sync_ready_items(1,3) [OF ready] by auto
qed

definition sync_hash :: hash where "sync_hash = replicate 32 1"

definition sync_sender :: tx_service where
  "sync_sender = apply_item (#) (#) 10 (sync_hash, [5, 6], [7]) (ts_new 1 10 6 2 1)"

lemma sync_sender_facts:
  "ts_wf sync_sender" "mw_find (ts_contents sync_sender) sync_hash = Some (Some (bv_msg [5, 6]))"
  "sync_sid_list sync_sender sync_hash = [7]" "ts_hash sync_sender 7 = Some sync_hash"
proof -
  show "ts_wf sync_sender" using ts_wf_apply_item [OF ts_wf_new(1) placement_Cons] by (simp add: sync_sender_def)
  show "mw_find (ts_contents sync_sender) sync_hash = Some (Some (bv_msg [5, 6]))"
    by (simp add: sync_sender_def apply_item_def store_new_def ts_new_def mw_find_def mw_emplace_def)
  have n: "(7 :: nat) \<noteq> NULL_TX_SID" "ts_hash (store_new (ts_new 1 10 6 2 1) sync_hash [5, 6]) 7 = None"
    by (simp_all add: NULL_TX_SID_def ts_new_def)
  show "sync_sid_list sync_sender sync_hash = [7]"
    using assign_short_id_fresh(1) [OF n, of "(#)" "(#)" 10 sync_hash] n(2)
    by (simp add: sync_sender_def apply_item_def assign_unknown_def has_short_id_def sync_sid_list_def
        store_new_def ts_new_def uset_insert_def split: if_splits)
  show "ts_hash sync_sender 7 = Some sync_hash" using n by (simp add: sync_sender_def apply_item_hash)
qed

theorem tx_sync_round_trip_witness:
  "\<exists>b r s'. get_tx_sync_buffer [sync_hash] 1 2 True sync_sender = Inr b \<and>
    process_tx_sync_message (#) (#) 20 (ts_new 1 10 6 2 1) (bv_msg (replicate 24 0 @ ba_bytes b @ [1])) = Inr (r, s') \<and>
    ts_hash s' 7 = Some sync_hash \<and> tx_bytes s' sync_hash = Some [5, 6]"
proof -
  have ready: "sync_ready sync_sender [sync_hash]"
    using sync_sender_facts by (simp add: sync_ready_def) (simp add: sync_hash_def)
  have len: "length (enc_sync [sync_item sync_sender sync_hash]) = 54"
    using sync_sender_facts by (simp add: enc_sync_def enc_sync_tx_def sync_item_def sync_contents_def) (simp add: sync_hash_def)
  have new: "ts_hash (ts_new p 10 6 2 1) i = None" "tx_bytes (ts_new p 10 6 2 1) h = None" for p i h
    by (simp_all add: ts_new_def tx_bytes_def mw_find_def)
  have sent: "tx_bytes sync_sender sync_hash = Some [5, 6]" using sync_sender_facts by (simp add: tx_bytes_def)
  show ?thesis
    using tx_sync_round_trip [OF sync_sender_facts(1) ts_wf_new(1) placement_Cons ready, of "replicate 24 0" "[1]" 1 2 "(#)" 20 1 10 6 2 1]
      sync_sender_facts(4) sent len by (auto simp: new)
qed

section \<open>Lookup by short ids\<close>

lemma ba_poke_len: "ba_poke b p bs = Inr b' \<Longrightarrow> ba_len b' = ba_len b"
  by (auto simp: ba_poke_def elim!: rbind_InrE split: if_splits)

lemma ba_set_le_len: "ba_set_le k b v pos = Inr (b', q) \<Longrightarrow> ba_len b' = max (ba_len b) (u64 (pos + k))"
  by (auto simp: set_le_def buf_store_def Let_def ba_resize_def elim!: rbind_InrE dest!: ba_poke_len split: if_splits)

lemma ba_copy_hash_len: "ba_copy_hash b h pos = Inr (b', q) \<Longrightarrow> ba_len b' = max (ba_len b) (u64 (pos + 32))"
  by (auto simp: ba_copy_hash_def ba_copy_from_buffer_def SHA256_LEN_def Let_def ba_resize_def elim!: rbind_InrE split: if_splits)

definition found_enc :: "tx_service \<Rightarrow> sid \<Rightarrow> byte list" where
  "found_enc s i = (case ts_hash s i of None \<Rightarrow> []
     | Some h \<Rightarrow> (case tx_bytes s h of None \<Rightarrow> [] | Some c \<Rightarrow> le_bytes 4 i @ h @ le_bytes 4 (length c) @ c))"

definition missing_enc :: "tx_service \<Rightarrow> sid \<Rightarrow> byte list" where
  "missing_enc s i = (case ts_hash s i of None \<Rightarrow> le_bytes 4 i @ [0]
     | Some h \<Rightarrow> (case tx_bytes s h of None \<Rightarrow> le_bytes 4 i @ [1] @ h | Some c \<Rightarrow> []))"

definition sid_found :: "tx_service \<Rightarrow> sid \<Rightarrow> bool" where
  "sid_found s i = (case ts_hash s i of None \<Rightarrow> False | Some h \<Rightarrow> tx_bytes s h \<noteq> None)"

definition sid_ready :: "tx_service \<Rightarrow> sid \<Rightarrow> bool" where
  "sid_ready s i = (case ts_hash s i of None \<Rightarrow> True | Some h \<Rightarrow> length h = 32 \<and>
     (case mw_find (ts_contents s) h of None \<Rightarrow> True | Some None \<Rightarrow> False
      | Some (Some c) \<Rightarrow> bv_wf c \<and> 0 < bv_size c \<and> bv_size c < 2 ^ 32))"

definition lk_inv :: "lookup_state \<Rightarrow> byte list \<Rightarrow> byte list \<Rightarrow> nat \<Rightarrow> nat \<Rightarrow> bool" where
  "lk_inv st F M nf nm \<longleftrightarrow>
     zbuf (lk_found st) (replicate 8 0 @ F) \<and> lk_found_offset st = 8 + length F \<and> lk_found_size st = 8 + length F \<and>
     lk_found_count st = nf \<and> zbuf (lk_missing st) (replicate 4 0 @ M) \<and> lk_missing_offset st = 4 + length M \<and>
     lk_missing_size st = 4 + length M \<and> lk_missing_count st = nm \<and> max (ba_len (lk_missing st)) 4 = 4 + length M"

lemma lookup_found_spec:
  assumes st: "lk_inv st F M nf nm" and h: "length h = 32" and c: "bv_wf c" "0 < bv_size c" "bv_size c < 2 ^ 32"
    and room: "8 + length F + (40 + bv_size c) < 2 ^ 64"
  shows "\<exists>st'. lookup_found i h c st = Inr st' \<and>
    lk_inv st' (F @ le_bytes 4 i @ h @ le_bytes 4 (bv_size c) @ bv_bytes c) M (nf + 1) nm"
proof -
  let ?p = "8 + length F" let ?z = "replicate 8 0 @ F" let ?n = "?p + (40 + bv_size c)"
  have u: "u64 (?p + (4 + 32 + 4 + bv_size c)) = ?n" using room by (simp add: u64_id)
  have z0: "zbuf (ba_resize (lk_found st) ?n) ?z" using st zbuf_resize by (simp add: lk_inv_def)
  obtain b1 where b1: "ba_set_le 4 (ba_resize (lk_found st) ?n) i ?p = Inr (b1, ?p + 4)" "zbuf b1 (?z @ le_bytes 4 i)"
    using zbuf_set_le [OF z0, of 4 ?p i] room by auto
  obtain b2 where b2: "ba_copy_hash b1 h (?p + 4) = Inr (b2, ?p + 36)" "zbuf b2 (?z @ le_bytes 4 i @ h)"
    using zbuf_copy_hash [OF b1(2) h, of "?p + 4"] room by (auto simp: add.assoc)
  obtain b3 where b3: "ba_set_le 4 b2 (bv_size c) (?p + 36) = Inr (b3, ?p + 40)"
    "zbuf b3 (?z @ le_bytes 4 i @ h @ le_bytes 4 (bv_size c))"
    using zbuf_set_le [OF b2(2), of 4 "?p + 36" "bv_size c"] room h by (auto simp: add.assoc)
  have sl: "slice 0 (bv_size c) (bv_bytes c) = bv_bytes c" using c(1) by (simp add: slice_0_all)
  obtain b4 where b4: "ba_copy_from_buffer b3 c (?p + 40) 0 (bv_size c) = Inr (b4, ?n)"
    "zbuf b4 (?z @ le_bytes 4 i @ h @ le_bytes 4 (bv_size c) @ bv_bytes c)"
    using zbuf_copy [OF b3(2) c(1,2), of 0 "?p + 40"] room h sl by (auto simp: add.assoc)
  have "lookup_found i h c st = Inr (st\<lparr>lk_found := b4, lk_found_size := ?n, lk_found_offset := ?n, lk_found_count := nf + 1\<rparr>)"
    using st b1(1) b2(1) b3(1) b4(1) u c(3) by (simp add: lookup_found_def lk_inv_def Let_def msg_consts u32_id)
  then show ?thesis using b4(2) st h c(1) by (auto simp: lk_inv_def)
qed

lemma lookup_missing_spec:
  assumes st: "lk_inv st F M nf nm" and h: "\<forall>h. known = Some h \<longrightarrow> length h = 32" and room: "4 + length M + 37 < 2 ^ 64"
  shows "\<exists>st'. lookup_missing i known st = Inr st' \<and>
    lk_inv st' F (M @ le_bytes 4 i @ (case known of None \<Rightarrow> [0] | Some h \<Rightarrow> [1] @ h)) nf (nm + 1)"
proof -
  let ?p = "4 + length M" let ?z = "replicate 4 0 @ M" let ?k = "if known = None then 0 else 1 :: nat"
  have z0: "zbuf (lk_missing st) ?z" "max (ba_len (lk_missing st)) 4 = ?p" using st by (simp_all add: lk_inv_def)
  obtain b1 where b1: "ba_set_le 4 (lk_missing st) i ?p = Inr (b1, ?p + 4)" "zbuf b1 (?z @ le_bytes 4 i)"
    using zbuf_set_le [OF z0(1), of 4 ?p i] room by auto
  have l1: "ba_len b1 = ?p + 4" using ba_set_le_len [OF b1(1)] z0(2) room by (simp add: u64_id max_def split: if_splits)
  obtain b2 where b2: "ba_set_le 1 b1 ?k (?p + 4) = Inr (b2, ?p + 5)" "zbuf b2 (?z @ le_bytes 4 i @ le_bytes 1 ?k)"
    using zbuf_set_le [OF b1(2), of 1 "?p + 4" ?k] room by (auto simp: add.assoc)
  have l2: "ba_len b2 = ?p + 5" using ba_set_le_len [OF b2(1)] l1 room by (simp add: u64_id)
  show ?thesis
  proof (cases known)
    case None
    then show ?thesis using st b1(1) b2 l2 room by (simp add: lookup_missing_def lk_inv_def msg_consts u64_id)
  next
    case (Some h)
    then have lh: "length h = 32" using assms(2) by simp
    obtain b3 where b3: "ba_copy_hash b2 h (?p + 5) = Inr (b3, ?p + 37)" "zbuf b3 (?z @ le_bytes 4 i @ le_bytes 1 ?k @ h)"
      using zbuf_copy_hash [OF b2(2) lh, of "?p + 5"] room by (auto simp: add.assoc)
    have "ba_len b3 = ?p + 37" using ba_copy_hash_len [OF b3(1)] l2 room by (simp add: u64_id)
    then show ?thesis using st b1(1) b2(1) b3 Some lh room by (simp add: lookup_missing_def lk_inv_def msg_consts u64_id)
  qed
qed

lemma lookup_sid_spec:
  assumes st: "lk_inv st F M nf nm" and i: "sid_ready s i"
    and room: "8 + length F + length (found_enc s i) < 2 ^ 64" "4 + length M + 37 < 2 ^ 64"
  shows "\<exists>st'. lookup_sid s i st = Inr st' \<and>
    lk_inv st' (F @ found_enc s i) (M @ missing_enc s i) (nf + of_bool (sid_found s i)) (nm + of_bool (\<not> sid_found s i))"
proof -
  note enc = found_enc_def missing_enc_def sid_found_def lookup_sid_def sid_ready_def tx_bytes_def
  show ?thesis
  proof (cases "ts_hash s i")
    case None
    then show ?thesis using lookup_missing_spec [OF st _ room(2), of None i] by (simp add: enc)
  next
    case h: (Some h)
    show ?thesis
    proof (cases "mw_find (ts_contents s) h")
      case None
      then show ?thesis using lookup_missing_spec [OF st _ room(2), of "Some h" i] h i by (simp add: enc)
    next
      case (Some p)
      then obtain c where p: "mw_find (ts_contents s) h = Some (Some c)" "length h = 32" "bv_wf c" "0 < bv_size c" "bv_size c < 2 ^ 32"
        using i h by (cases p) (auto simp: enc)
      then show ?thesis using lookup_found_spec [OF st p(2-5)] room(1) h by (simp add: enc)
    qed
  qed
qed

lemma lookup_sids_spec:
  assumes "lk_inv st F M nf nm" and "\<forall>i \<in> set is. sid_ready s i"
    and "8 + length F + length (concat (map (found_enc s) is)) < 2 ^ 64" "4 + length M + 37 * length is < 2 ^ 64"
  shows "\<exists>st'. lookup_sids s is st = Inr st' \<and>
    lk_inv st' (F @ concat (map (found_enc s) is)) (M @ concat (map (missing_enc s) is))
      (nf + length (filter (sid_found s) is)) (nm + length (filter (\<lambda>i. \<not> sid_found s i) is))"
  using assms
proof (induction "is" arbitrary: st F M nf nm)
  case (Cons i "is")
  have i: "sid_ready s i" "\<forall>i \<in> set is. sid_ready s i" using Cons.prems(2) by simp_all
  have m: "length (missing_enc s i) \<le> 37"
    using i(1) by (auto simp: missing_enc_def sid_ready_def split: option.splits)
  have room: "8 + length F + length (found_enc s i) < 2 ^ 64" "4 + length M + 37 < 2 ^ 64"
    "8 + length (F @ found_enc s i) + length (concat (map (found_enc s) is)) < 2 ^ 64"
    "4 + length (M @ missing_enc s i) + 37 * length is < 2 ^ 64"
    using Cons.prems(3,4) m by simp_all
  obtain st1 where st1: "lookup_sid s i st = Inr st1"
    "lk_inv st1 (F @ found_enc s i) (M @ missing_enc s i) (nf + of_bool (sid_found s i)) (nm + of_bool (\<not> sid_found s i))"
    using lookup_sid_spec [OF Cons.prems(1) i(1) room(1,2)] by blast
  show ?case using Cons.IH [OF st1(2) i(2) room(3,4)] st1(1) by (cases "sid_found s i") auto
qed auto

lemma read_sids_spec:
  assumes "bv_ok v" and "bv_bytes v = pre @ concat (map (le_bytes 4) is) @ post" and "\<forall>i \<in> set is. i < 2 ^ 32"
  shows "read_sids v (length is) (length pre) = Inr is"
  using assms(2,3)
proof (induction "is" arbitrary: pre)
  case (Cons i "is")
  have "get_le (bv_read v) 4 (length pre) = Inr (i, length (pre @ le_bytes 4 i))"
    using bvs.get_le_at [OF assms(1), of pre "le_bytes 4 i"] Cons.prems by (simp add: le_val_le_bytes)
  then show ?case using Cons.IH [of "pre @ le_bytes 4 i"] Cons.prems by simp
qed simp

lemma lk_inv_start:
  "lk_inv \<lparr>lk_found = ba_with_capacity (4 + 4), lk_missing = ba_with_capacity 4, lk_found_size = 4 + 4, lk_missing_size = 4,
     lk_found_offset = 4 + 4, lk_missing_offset = 4, lk_found_count = 0, lk_missing_count = 0\<rparr> [] [] 0 0"
  using zbuf_gap [OF zbuf_new, of 8 8] zbuf_gap [OF zbuf_new, of 4 4] by (simp add: lk_inv_def ba_with_capacity_def)

lemma zbuf_copy_array:
  assumes b: "zbuf b xs" and m: "zbuf m ys" "ba_len m = length ys" and room: "length xs + length ys < 2 ^ 64"
  shows "\<exists>b'. ba_copy_from_array (ba_resize b n) (ba_arr m) (length xs) 0 (ba_len m) = Inr (b', length xs + length ys) \<and>
    ba_bytes b' = xs @ ys"
proof -
  let ?n = "length xs + length ys" let ?b = "ba_resize (ba_resize b n) ?n"
  have z: "zbuf ?b xs" using zbuf_resize b by blast
  then have fits: "?n \<le> length (ba_arr ?b)" by (simp add: zbuf_def ba_wf_def)
  have sl: "slice 0 (length ys) (ba_arr m) = ys" "length ys \<le> length (ba_arr m)"
    using m zread_eq_take [of "ba_arr m" ys] by (auto simp: zbuf_def ba_wf_def slice_def)
  let ?r = "?b\<lparr>ba_arr := patch (length xs) ys (ba_arr ?b)\<rparr>"
  have "zbuf ?r (xs @ ys)" using zbuf_patch [OF z, of "length xs" ys] fits by simp
  then have "ba_bytes (ba_resize ?r ?n) = xs @ ys" by (rule zbuf_bytes) simp
  moreover have "ba_resize ?r ?n = ?r" by (simp add: ba_resize_def ba_reserve_def)
  ultimately show ?thesis using sl fits room m(2) by (simp add: ba_copy_from_array_def Let_def u64_id)
qed

text \<open>C27: The answer to a lookup by short ids lists, in the order of the question, the transactions the service
  has contents for (short id, hash, length and contents), preceded by the length of that part
  and their number, and then the others: their number and, for each, its short id, whether its
  hash is known, and the hash if it is. Every short id of the question is in exactly one of the two
  lists.\<close>

theorem get_transactions_by_short_ids_answer:
  assumes v: "bv_ok v" "bv_bytes v = le_bytes 4 (length is) @ concat (map (le_bytes 4) is) @ post" "\<forall>i \<in> set is. i < 2 ^ 32"
    and s: "\<forall>i \<in> set is. sid_ready s i"
    and small: "12 + length (concat (map (found_enc s) is)) + 37 * length is < 2 ^ 32"
  shows "\<exists>b. get_transactions_by_short_ids s v = Inr b \<and> ba_bytes b =
    le_bytes 4 (4 + length (concat (map (found_enc s) is))) @ le_bytes 4 (length (filter (sid_found s) is)) @
    concat (map (found_enc s) is) @
    le_bytes 4 (length is - length (filter (sid_found s) is)) @ concat (map (missing_enc s) is)"
proof -
  let ?F = "concat (map (found_enc s) is)" and ?M = "concat (map (missing_enc s) is)"
  let ?nf = "length (filter (sid_found s) is)" and ?nm = "length (filter (\<lambda>i. \<not> sid_found s i) is)"
  have n: "?nf + ?nm = length is" by (rule sum_length_filter_compl)
  have rd: "get_le (bv_read v) 4 0 = Inr (length is, 4)"
    using bvs.get_le_at [OF v(1), of "[]" "le_bytes 4 (length is)"] v(2) small by (simp add: le_val_le_bytes)
  have rs: "read_sids v (length is) 4 = Inr is"
    using read_sids_spec [OF v(1) v(2) v(3)] by simp
  obtain st where st: "lookup_sids s is \<lparr>lk_found = ba_with_capacity (4 + 4), lk_missing = ba_with_capacity 4,
      lk_found_size = 4 + 4, lk_missing_size = 4, lk_found_offset = 4 + 4, lk_missing_offset = 4,
      lk_found_count = 0, lk_missing_count = 0\<rparr> = Inr st" "lk_inv st ?F ?M ?nf ?nm"
    using lookup_sids_spec [OF lk_inv_start s] small by auto
  have m: "length ?M \<le> 37 * length is"
    using s by (induction "is") (force simp: missing_enc_def sid_ready_def split: option.splits)+
  have f: "lk_found_offset st = 8 + length ?F" "lk_found_size st = 8 + length ?F" "lk_found_count st = ?nf"
    "lk_missing_count st = ?nm" "lk_missing_size st = 4 + length ?M" using st(2) by (simp_all add: lk_inv_def)
  have z: "zbuf (lk_found st) ([] @ replicate 4 0 @ (replicate 4 0 @ ?F))" "zbuf (lk_missing st) ([] @ replicate 4 0 @ ?M)"
    "max (ba_len (lk_missing st)) 4 = 4 + length ?M"
    using st(2) by (simp_all add: lk_inv_def flip: replicate_add append_assoc)
  have sub: "u32 (u64_sub (8 + length ?F) 4) = 4 + length ?F" using small by (simp add: u64_sub_id u32_id)
  obtain b1 where b1: "ba_set_le 4 (lk_found st) (4 + length ?F) 0 = Inr (b1, 4)"
    "zbuf b1 (le_bytes 4 (4 + length ?F) @ replicate 4 0 @ ?F)"
    using zbuf_set_le_front [OF z(1), of 4 0 "4 + length ?F"] by auto
  obtain b2 where b2: "ba_set_le 4 b1 ?nf 4 = Inr (b2, 8)" "zbuf b2 (le_bytes 4 (4 + length ?F) @ le_bytes 4 ?nf @ ?F)"
    using zbuf_set_le_front [OF b1(2), of 4 4 ?nf] by auto
  obtain b3 where b3: "ba_set_le 4 (lk_missing st) ?nm 0 = Inr (b3, 4)" "zbuf b3 (le_bytes 4 ?nm @ ?M)"
    using zbuf_set_le_front [OF z(2), of 4 0 ?nm] by auto
  have l3: "ba_len b3 = length (le_bytes 4 ?nm @ ?M)" using ba_set_le_len [OF b3(1)] z(3) by (simp add: u64_id)
  obtain b4 where b4: "ba_copy_from_array (ba_resize b2 (u64 (8 + length ?F + (4 + length ?M)))) (ba_arr b3) (8 + length ?F) 0 (ba_len b3) =
      Inr (b4, 8 + length ?F + (4 + length ?M))"
    "ba_bytes b4 = (le_bytes 4 (4 + length ?F) @ le_bytes 4 ?nf @ ?F) @ le_bytes 4 ?nm @ ?M"
    using zbuf_copy_array [OF b2(2) b3(2) l3] small m by (auto simp: add.assoc)
  have "u32 ?nf = ?nf" "u32 ?nm = ?nm" using n small by (simp_all add: u32_id)
  then have "get_transactions_by_short_ids s v = Inr (ba_set_output b4)"
    using rd rs st(1) f sub b1(1) b2(1) b3(1) b4(1) by (simp add: get_transactions_by_short_ids_def msg_consts)
  moreover have "?nm = length is - ?nf" using n by simp
  ultimately show ?thesis using b4(2) by simp
qed

theorem get_transactions_by_short_ids_answer_witness:
  "\<exists>b. get_transactions_by_short_ids sync_sender (bv_msg [2, 0, 0, 0, 7, 0, 0, 0, 8, 0, 0, 0]) = Inr b \<and>
    ba_bytes b = [46, 0, 0, 0, 1, 0, 0, 0, 7, 0, 0, 0] @ sync_hash @ [2, 0, 0, 0, 5, 6] @ [1, 0, 0, 0, 8, 0, 0, 0, 0]"
proof -
  have len: "length sync_hash = 32" by (simp add: sync_hash_def)
  have b7: "tx_bytes sync_sender sync_hash = Some [5, 6]" using sync_sender_facts by (simp add: tx_bytes_def)
  have n8: "ts_hash sync_sender 8 = None" by (simp add: sync_sender_def apply_item_hash ts_new_def)
  note f = found_enc_def missing_enc_def sid_found_def sid_ready_def sync_sender_facts(2,4) b7 n8 len
  have le: "le_bytes 4 (Suc (Suc 0)) = [2, 0, 0, 0]" "le_bytes 4 7 = [7, 0, 0, 0]" "le_bytes 4 8 = [8, 0, 0, 0]"
    "le_bytes 4 46 = [46, 0, 0, 0]" "le_bytes 4 (Suc 0) = [1, 0, 0, 0]"
    by (simp_all add: le_bytes_numeral)
  show ?thesis
    using get_transactions_by_short_ids_answer [of "bv_msg [2, 0, 0, 0, 7, 0, 0, 0, 8, 0, 0, 0]" "[7, 8]" "[]" sync_sender]
    by (simp add: f le bv_ok_def)
qed

end
