(* ===== verification/TxRuns.thy ===== *)
theory TxRuns
  imports TxServiceProps TxMessages
begin

text \<open>
  Runs of \<open>TransactionService\<close>: every public operation of the class that changes its state, as a value of
  one datatype, sequences of them, and the invariant of the states they reach.

  A call that throws, waits for ever or does not end has no next state: the runs are those whose
  operations return. \<open>get_transaction\<close> and \<open>get_tx_contents_raw_ptr\<close> are operations too, since they look
  contents up with \<^verbatim>\<open>operator[]\<close> and leave a null pointer behind for a hash without contents. Only
  writes through the references to its members that the class hands out are left aside.
\<close>

section \<open>Operations\<close>

datatype ts_op =
    Assign real hash sid
  | SetContents hash buffer_view
  | GetTransaction sid
  | GetContentsRawPtr sid
  | RemoveHash real hash
  | RemoveHashes real "hash list"
  | RemoveSid real real sid
  | TrackSids real real hash "sid list"
  | TrackTx hash
  | CleanedUp hash
  | SetFinal nat
  | ReuseSetting real real
  | ClearNonces real
  | AcquirePool
  | FinishedReading
  | ClearAll
  | FromBdn real hash buffer_view sid bool
  | ProcessMsg real hash buffer_view sid real real bool nat bool
  | FromNode buffer_view nat bool
  | TxsMsg real buffer_view
  | SyncMsg real buffer_view

definition returned :: "'a res \<Rightarrow> 'a option" where
  "returned r = (case r of Inl _ \<Rightarrow> None | Inr x \<Rightarrow> Some x)"

type_synonym ts_env = "place \<times> hplace \<times> validator \<times> (buffer_view \<Rightarrow> parsed_tx list res)"

fun ts_apply :: "ts_env \<Rightarrow> ts_op \<Rightarrow> tx_service \<Rightarrow> tx_service option" where
  "ts_apply (ins, hins, V, parse) (Assign now h i) s = Some (snd (assign_short_id ins hins now s h i))"
| "ts_apply (ins, hins, V, parse) (SetContents h v) s = map_option snd (returned (set_transaction_contents s h v))"
| "ts_apply (ins, hins, V, parse) (GetTransaction i) s = map_option (\<lambda>(h, p, s). s) (returned (get_transaction s i))"
| "ts_apply (ins, hins, V, parse) (GetContentsRawPtr i) s = map_option snd (returned (get_tx_contents_raw_ptr s i))"
| "ts_apply (ins, hins, V, parse) (RemoveHash t h) s = map_option snd (returned (remove_transaction_by_hash t s h))"
| "ts_apply (ins, hins, V, parse) (RemoveHashes t hs) s = map_option snd (returned (remove_transactions_by_hashes t s hs))"
| "ts_apply (ins, hins, V, parse) (RemoveSid t now i) s =
     map_option (\<lambda>(n, d, s). s) (returned (remove_transaction_by_short_id t now s i []))"
| "ts_apply (ins, hins, V, parse) (TrackSids t now b is) s =
     map_option (\<lambda>(n, d, s). s) (returned (track_seen_short_ids t now s b is))"
| "ts_apply (ins, hins, V, parse) (TrackTx h) s = Some (track_seen_transaction s h)"
| "ts_apply (ins, hins, V, parse) (CleanedUp b) s = Some (on_block_cleaned_up s b)"
| "ts_apply (ins, hins, V, parse) (SetFinal n) s = Some (set_final_tx_confirmations_count s n)"
| "ts_apply (ins, hins, V, parse) (ReuseSetting t g) s = Some (set_sender_nonce_reuse_setting s t g)"
| "ts_apply (ins, hins, V, parse) (ClearNonces t) s = map_option snd (clear_sender_nonce s t)"
| "ts_apply (ins, hins, V, parse) AcquirePool s = ts_acquire_tx_pool s"
| "ts_apply (ins, hins, V, parse) FinishedReading s = Some (on_finished_reading_tx_pool hins s)"
| "ts_apply (ins, hins, V, parse) ClearAll s = Some (ts_clear s)"
| "ts_apply (ins, hins, V, parse) (FromBdn now h v i c) s =
     map_option snd (returned (process_gateway_transaction_from_bdn ins hins now s h v i c))"
| "ts_apply (ins, hins, V, parse) (ProcessMsg now h v i ts ct en fee relay) s =
     map_option snd (returned (process_transaction_msg ins hins V now s h v i ts ct en fee relay))"
| "ts_apply (ins, hins, V, parse) (FromNode msg fee en) s =
     map_option snd (returned (process_gateway_transaction_from_node parse V s msg fee en))"
| "ts_apply (ins, hins, V, parse) (TxsMsg now msg) s = map_option snd (returned (process_txs_msg ins hins now s msg))"
| "ts_apply (ins, hins, V, parse) (SyncMsg now msg) s = map_option snd (returned (process_tx_sync_message ins hins now s msg))"

fun ts_run :: "ts_env \<Rightarrow> ts_op list \<Rightarrow> tx_service \<Rightarrow> tx_service option" where
  "ts_run e [] s = Some s"
| "ts_run e (op # ops) s = Option.bind (ts_apply e op s) (ts_run e ops)"

fun is_get :: "ts_op \<Rightarrow> bool" where
  "is_get (GetTransaction i) = True"
| "is_get (GetContentsRawPtr i) = True"
| "is_get _ = False"

section \<open>The invariant with and without null contents\<close>

definition bare :: "tx_service \<Rightarrow> tx_service" where
  \<comment> \<open>the service without any contents\<close>
  "bare s = s\<lparr>ts_contents := mw_new\<rparr>"

definition no_null :: "tx_service \<Rightarrow> bool" where
  "no_null s \<longleftrightarrow> (\<forall>h. mw_map (ts_contents s) h \<noteq> Some None)"

definition ts_inv :: "bool \<Rightarrow> tx_service \<Rightarrow> bool" where
  "ts_inv b s \<longleftrightarrow> ts_wf (bare s) \<and> mw_wf contents_size (ts_contents s) \<and> (b \<longrightarrow> no_null s)"

definition contents_kept :: "tx_service \<Rightarrow> tx_service \<Rightarrow> bool" where
  "contents_kept s s' \<longleftrightarrow>
     (mw_wf contents_size (ts_contents s) \<longrightarrow> mw_wf contents_size (ts_contents s')) \<and> (no_null s \<longrightarrow> no_null s')"

lemma ts_invI: "ts_inv b s \<Longrightarrow> ts_wf (bare s') \<Longrightarrow> contents_kept s s' \<Longrightarrow> ts_inv b s'"
  by (auto simp: ts_inv_def contents_kept_def)

lemma ts_inv_step: "ts_inv b s \<Longrightarrow> (ts_wf (bare s) \<Longrightarrow> ts_wf (bare s')) \<Longrightarrow> contents_kept s s' \<Longrightarrow> ts_inv b s'"
  by (auto simp: ts_inv_def contents_kept_def)

lemma contents_kept_refl [simp]: "ts_contents s' = ts_contents s \<Longrightarrow> contents_kept s s'"
  by (simp add: contents_kept_def no_null_def)

lemma contents_kept_trans: "contents_kept s1 s2 \<Longrightarrow> contents_kept s2 s3 \<Longrightarrow> contents_kept s1 s3"
  by (auto simp: contents_kept_def)

lemma ts_inv_new: "ts_inv b (ts_new pool cap final t g)"
proof -
  have "ts_new pool cap final t g = bare (ts_new pool cap final t g)" by (simp add: bare_def ts_new_def)
  then show ?thesis using ts_wf_new(1) [of pool cap final t g]
    by (auto simp: ts_inv_def no_null_def ts_new_def)
qed

lemma bare_frame [simp]:
  "ts_sids (bare s) = ts_sids s" "ts_hash (bare s) = ts_hash s" "ts_not_seen (bare s) = ts_not_seen s"
  "ts_seen (bare s) = ts_seen s" "ts_final (bare s) = ts_final s" "ts_nonces (bare s) = ts_nonces s"
  "ts_hash_removed (bare s) = ts_hash_removed s" "mw_find (ts_contents (bare s)) h = None"
  by (simp_all add: bare_def mw_find_def)

lemma bare_sids_index: "bare (snd (sids_index hins s h)) = snd (sids_index hins (bare s) h)"
  by (simp add: sids_index_def bare_def split: option.split)

lemma bare_assign: "bare (snd (assign_short_id ins hins now s h i)) = snd (assign_short_id ins hins now (bare s) h i)"
  by (simp add: assign_short_id_def sids_index_def bare_def has_short_id_def Let_def split: option.split prod.split)

lemma bare_forget_sid: "bare (forget_sid t i s) = forget_sid t i (bare s)"
  by (simp add: forget_sid_def bare_def)

lemma bare_forget: "bare (fold (forget_sid t) xs s) = fold (forget_sid t) xs (bare s)"
  by (induction xs arbitrary: s) (auto simp: bare_forget_sid)

lemma bare_track_one: "bare (track_one i s) = track_one i (bare s)"
  by (simp add: track_one_def track_seen_transaction_def bare_def split: option.split)

lemma bare_track: "bare (fold track_one xs s) = fold track_one xs (bare s)"
  by (induction xs arbitrary: s) (auto simp: bare_track_one)

text \<open>The operations that change contents.\<close>

lemma erase_contents_bare:
  assumes "erase_contents s h = Inr (n, s')"
  shows "erase_contents (bare s) h = Inr (0, bare s')" and "contents_kept s s'"
proof -
  have e: "s' = s \<or> s' = s\<lparr>ts_contents := mw_erase contents_size (ts_contents s) h\<rparr>"
    using assms by (auto simp: erase_contents_def split: option.splits)
  then show "erase_contents (bare s) h = Inr (0, bare s')" by (auto simp: erase_contents_def) (auto simp: bare_def)
  show "contents_kept s s'"
    using e mw_wf_erase [of contents_size "ts_contents s" h]
    by (auto simp: contents_kept_def no_null_def mw_erase_def split: option.splits if_splits)
qed

lemma set_transaction_contents_bare:
  assumes "set_transaction_contents s h v = Inr (r, s')"
  shows "bare s' = bare s" and "contents_kept s s'"
proof -
  have e: "s' = s \<or> mw_map (ts_contents s) h = None \<and> s' = s\<lparr>ts_contents := mw_emplace contents_size (ts_contents s) h (Some v)\<rparr>"
    using assms by (auto simp: set_transaction_contents_def mw_find_def Let_def split: option.splits)
  then show "bare s' = bare s" by (auto simp: bare_def)
  show "contents_kept s s'"
    using e mw_wf_emplace [of contents_size "ts_contents s" h "Some v"]
    by (auto simp: contents_kept_def no_null_def mw_emplace_def split: if_splits)
qed

lemma mw_wf_null: "mw_wf contents_size m \<Longrightarrow> mw_map m h = None \<Longrightarrow> mw_wf contents_size (m\<lparr>mw_map := (mw_map m)(h \<mapsto> None)\<rparr>)"
  by (auto simp: mw_wf_def mw_total_upd contents_size_def)

lemma get_transaction_bare:
  assumes "get_transaction s i = Inr (h, p, s')"
  shows "bare s' = bare s" and "mw_wf contents_size (ts_contents s) \<Longrightarrow> mw_wf contents_size (ts_contents s')"
  using assms mw_wf_null [of "ts_contents s"]
  by (auto simp: get_transaction_def mw_index_def bare_def split: option.splits)

lemma remove_hash_bare:
  assumes "remove_transaction_by_hash t s h = Inr (n, s')"
  shows "remove_transaction_by_hash t (bare s) h = Inr (0, bare s')" and "contents_kept s s'"
proof -
  define s1 where "s1 = (case ts_sids s h of None \<Rightarrow> s | Some xs \<Rightarrow> sids_erase h (fold (forget_sid t) xs s))"
  have b: "bare s1 = (case ts_sids s h of None \<Rightarrow> bare s | Some xs \<Rightarrow> sids_erase h (fold (forget_sid t) xs (bare s)))"
    by (auto simp: s1_def sids_erase_def simp flip: bare_forget split: option.split) (simp add: bare_def)
  have c: "ts_contents s1 = ts_contents s" by (simp add: s1_def sids_erase_def split: option.split)
  obtain s2 where s2: "erase_contents s1 h = Inr (n, s2)" "s' = s2\<lparr>ts_hash_removed := fst (om_emplace (ts_hash_removed s2) h t)\<rparr>"
    using assms by (auto simp: remove_transaction_by_hash_def simp flip: s1_def elim!: rbind_InrE)
  note e = erase_contents_bare [OF s2(1)]
  show "remove_transaction_by_hash t (bare s) h = Inr (0, bare s')"
    using e(1) by (simp add: remove_transaction_by_hash_def s2(2) flip: b) (simp add: bare_def)
  show "contents_kept s s'" using e(2) c by (simp add: s2(2) contents_kept_def no_null_def)
qed

lemma remove_sid_bare:
  assumes "remove_transaction_by_short_id t now s i dups = Inr (n, d, s')"
  shows "remove_transaction_by_short_id t now (bare s) i dups = Inr (0, d, bare s') \<and> contents_kept s s'"
proof (cases "ts_hash s i")
  case None
  then show ?thesis using assms by (simp add: remove_transaction_by_short_id_def)
next
  case (Some h)
  define step where "step = (\<lambda>s. case ts_sids s h of
      None \<Rightarrow> (dups, s)
    | Some xs \<Rightarrow> let (dups', s) = (if 1 < length xs then let rest = uset_erase i xs in (rest, fold (forget_sid t) rest s) else ([], s));
                     s = sids_erase h s
                 in (dups @ dups', s\<lparr>ts_sid_removed := fst (om_emplace (ts_sid_removed s) i t)\<rparr>))"
  have eq: "remove_transaction_by_short_id t now s i dups = (let (dups, s) = step s in
      rbind (erase_contents s h) (\<lambda>(len, s).
        let s = s\<lparr>ts_hash_removed := fst (om_emplace (ts_hash_removed s) h now)\<rparr>
        in Inr (len, dups, s\<lparr>ts_hash := (ts_hash s)(i := None), ts_assign_time := fst (om_erase (ts_assign_time s) i)\<rparr>)))"
    if "ts_hash s i = Some h" for s
    using that by (simp add: remove_transaction_by_short_id_def step_def)
  have b: "step (bare s) = (fst (step s), bare (snd (step s)))"
    by (auto simp: step_def sids_erase_def Let_def simp flip: bare_forget split: option.split) (auto simp: bare_def)
  have c: "ts_contents (snd (step s)) = ts_contents s"
    by (auto simp: step_def sids_erase_def Let_def split: option.split)
  obtain s2 where s2: "erase_contents (snd (step s)) h = Inr (n, s2)" and d: "d = fst (step s)"
    and s': "s' = s2\<lparr>ts_hash_removed := fst (om_emplace (ts_hash_removed s2) h now), ts_hash := (ts_hash s2)(i := None),
      ts_assign_time := fst (om_erase (ts_assign_time s2) i)\<rparr>"
    using assms unfolding eq [OF Some] by (auto simp: Let_def case_prod_unfold elim!: rbind_InrE)
  note e = erase_contents_bare [OF s2]
  have "remove_transaction_by_short_id t now (bare s) i dups = Inr (0, d, bare s')"
    using eq [of "bare s"] Some e(1) b d by (simp add: s') (simp add: bare_def)
  moreover have "contents_kept s s'" using e(2) c by (simp add: s' contents_kept_def no_null_def)
  ultimately show ?thesis ..
qed

lemma remove_all_bare:
  "remove_all_short_ids t now s is acc d = Inr (n, d', s') \<Longrightarrow>
   (\<exists>m. remove_all_short_ids t now (bare s) is acc' d = Inr (m, d', bare s')) \<and> contents_kept s s'"
proof (induction "is" arbitrary: s acc acc' d)
  case (Cons i "is")
  then obtain k d1 s1 where s1: "remove_transaction_by_short_id t now s i d = Inr (k, d1, s1)"
    "remove_all_short_ids t now s1 is (u64 (acc + k)) d1 = Inr (n, d', s')"
    by (auto elim!: rbind_InrE)
  show ?case using remove_sid_bare [OF s1(1)] Cons.IH [OF s1(2), of "u64 (acc' + 0)"] contents_kept_trans by fastforce
qed auto

lemma track_bare:
  assumes "track_seen_short_ids t now s block is = Inr (n, d, s')"
  shows "(\<exists>m. track_seen_short_ids t now (bare s) block is = Inr (m, d, bare s')) \<and> contents_kept s s'"
proof -
  define s1 where "s1 = s\<lparr>ts_seen := fst (om_emplace (ts_seen s) block is)\<rparr>"
  have b1: "(bare s)\<lparr>ts_seen := fst (om_emplace (ts_seen s) block is)\<rparr> = bare s1" by (simp add: s1_def bare_def)
  obtain sids where sids: "om_index (ts_seen s1) block = Inr sids"
    using assms by (auto simp: track_seen_short_ids_def Let_def simp flip: s1_def elim!: rbind_InrE)
  define s2 where "s2 = fold track_one sids s1"
  have f2: "ts_final s2 = ts_final s1" "ts_seen s2 = ts_seen s1" by (simp_all add: s2_def)
  have b2: "fold track_one sids (bare s1) = bare s2" by (simp add: s2_def bare_track)
  have fr: "ts_contents (fold track_one xs r) = ts_contents r" for xs r
    by (induction xs arbitrary: r) (auto simp: track_one_def track_seen_transaction_def split: option.split)
  have c: "ts_contents s2 = ts_contents s" by (simp add: s2_def fr s1_def)
  define rest where "rest = (\<lambda>s. if ts_final s \<le> om_size (ts_seen s) then
      (case om_begin (ts_seen s) of
         None \<Rightarrow> Inl MemFault
       | Some (final_block, final_sids) \<Rightarrow>
           rbind (remove_all_short_ids t now s final_sids 0 []) (\<lambda>(len, dups, s).
             Inr (len, dups, s\<lparr>ts_seen := fst (om_erase (ts_seen s) final_block)\<rparr>)))
    else Inr (0, [], s))"
  have eq: "track_seen_short_ids t now s block is = rest s2" "track_seen_short_ids t now (bare s) block is = rest (bare s2)"
    using sids f2 by (simp_all add: track_seen_short_ids_def b1 b2 rest_def flip: s1_def s2_def)
  show ?thesis
  proof (cases "ts_final s2 \<le> om_size (ts_seen s2)")
    case False
    then show ?thesis using assms c unfolding eq by (simp add: rest_def)
  next
    case True
    then obtain b fs s3 where s3: "om_begin (ts_seen s2) = Some (b, fs)" "remove_all_short_ids t now s2 fs 0 [] = Inr (n, d, s3)"
      "s' = s3\<lparr>ts_seen := fst (om_erase (ts_seen s3) b)\<rparr>"
      using assms unfolding eq(1) rest_def by (auto split: option.splits elim!: rbind_InrE)
    obtain m where m: "remove_all_short_ids t now (bare s2) fs 0 [] = Inr (m, d, bare s3)" and k: "contents_kept s2 s3"
      using remove_all_bare [OF s3(2)] by blast
    have "rest (bare s2) = Inr (m, d, bare s')"
      using True s3(1) m by (simp add: rest_def s3(3)) (simp add: bare_def)
    moreover have "contents_kept s s'" using k c by (simp add: s3(3) contents_kept_def no_null_def)
    ultimately show ?thesis unfolding eq by blast
  qed
qed

section \<open>Every operation keeps the invariant\<close>

lemma ts_inv_assign: "ts_inv b s \<Longrightarrow> placement ins \<Longrightarrow> ts_inv b (snd (assign_short_id ins hins now s h i))"
  by (rule ts_invI) (auto simp: ts_inv_def bare_assign intro: ts_wf_assign_short_id)

lemma ts_inv_sids_index: "ts_inv b s \<Longrightarrow> ts_inv b (snd (sids_index hins s h))"
  by (rule ts_invI) (auto simp: ts_inv_def bare_sids_index intro: ts_wf_sids_index)

lemma ts_inv_set_contents: "ts_inv b s \<Longrightarrow> set_transaction_contents s h v = Inr (r, s') \<Longrightarrow> ts_inv b s'"
  by (rule ts_inv_step, assumption, simp_all add: set_transaction_contents_bare)

lemma ts_inv_nonces: "ts_inv b s \<Longrightarrow> om_wf m \<Longrightarrow> ts_inv b (s\<lparr>ts_nonces := m\<rparr>)"
  by (simp add: ts_inv_def bare_def ts_wf_def ts_linked_def no_null_def)

lemma ts_inv_om: "ts_inv b s \<Longrightarrow> om_wf (ts_nonces s)"
  by (simp add: ts_inv_def ts_wf_def)

lemma ts_inv_remove_hash:
  assumes s: "ts_inv b s" and eq: "remove_transaction_by_hash t s h = Inr (n, s')"
  shows "ts_inv b s'"
proof (rule ts_inv_step [OF s _ remove_hash_bare(2) [OF eq]])
  assume "ts_wf (bare s)"
  then show "ts_wf (bare s')"
    by (rule remove_transaction_by_hash_spec [of _ t h]) (use remove_hash_bare(1) [OF eq] in auto)
qed

lemma ts_inv_remove_hashes: "ts_inv b s \<Longrightarrow> remove_transactions_by_hashes t s hs = Inr (n, s') \<Longrightarrow> ts_inv b s'"
  by (induction hs arbitrary: s n) (auto elim!: rbind_InrE intro: ts_inv_remove_hash)

lemma ts_inv_remove_sid:
  assumes s: "ts_inv b s" and eq: "remove_transaction_by_short_id t now s i d = Inr (n, d', s')"
  shows "ts_inv b s'"
  using remove_sid_bare [OF eq] remove_transaction_by_short_id_total [of "bare s" t now i d]
  by (auto intro: ts_inv_step [OF s])

lemma ts_inv_track:
  assumes s: "ts_inv b s" and eq: "track_seen_short_ids t now s blk is = Inr (n, d, s')"
  shows "ts_inv b s'"
  using track_bare [OF eq] track_seen_short_ids_spec [of "bare s" t now blk "is"]
  by (auto intro: ts_inv_step [OF s])

lemma mw_clear_map: "mw_map (mw_clear m) = Map.empty"
  by (simp add: mw_clear_def)

lemma ts_inv_frame:
  assumes "ts_inv b s"
  shows "ts_inv b (on_block_cleaned_up s blk)" "ts_inv b (set_final_tx_confirmations_count s k)"
    "ts_inv b (on_finished_reading_tx_pool hins s)" "ts_inv b (track_seen_transaction s h)"
    "ts_inv b (set_sender_nonce_reuse_setting s t g)" "ts_acquire_tx_pool s = Some s' \<Longrightarrow> ts_inv b s'" "ts_inv b (ts_clear s)"
proof -
  have w: "ts_wf (bare s)" using assms by (simp add: ts_inv_def)
  note defs = on_block_cleaned_up_def set_final_tx_confirmations_count_def on_finished_reading_tx_pool_def
    track_seen_transaction_def set_sender_nonce_reuse_setting_def
  show "ts_inv b (on_block_cleaned_up s blk)" "ts_inv b (set_final_tx_confirmations_count s k)"
    "ts_inv b (on_finished_reading_tx_pool hins s)" "ts_inv b (track_seen_transaction s h)"
    "ts_inv b (set_sender_nonce_reuse_setting s t g)"
    using assms by (auto simp: ts_inv_def bare_def ts_wf_def ts_linked_def no_null_def defs)
  show "ts_inv b s'" if "ts_acquire_tx_pool s = Some s'"
    using that w by (auto intro!: ts_invI [OF assms] simp: ts_acquire_tx_pool_def)
      (auto simp: bare_def ts_wf_def ts_linked_def)
  have "bare (ts_clear s) = ts_clear (bare s)"
    by (simp add: bare_def ts_clear_def sids_clear_def Let_def mw_clear_def mw_new_def)
  moreover have "ts_contents (ts_clear s) = mw_clear (ts_contents s)" by (simp add: ts_clear_def sids_clear_def)
  ultimately show "ts_inv b (ts_clear s)"
    using ts_wf_simple_ops(6) [OF w] by (simp add: ts_inv_def no_null_def mw_clear_map)
qed

lemma ts_inv_get:
  "ts_inv False s \<Longrightarrow> get_transaction s i = Inr (h, p, s') \<Longrightarrow> ts_inv False s'"
  "ts_inv False s \<Longrightarrow> get_tx_contents_raw_ptr s i = Inr (p, s') \<Longrightarrow> ts_inv False s'"
  by (auto simp: ts_inv_def get_tx_contents_raw_ptr_def get_transaction_bare elim!: rbind_InrE)

lemma clear_nonces_wf: "clear_nonces m time n = Some r \<Longrightarrow> om_wf m \<longrightarrow> om_wf (snd r)"
  by (erule clear_nonces.raw_induct [rotated]) (auto split: option.splits if_splits)

lemma ts_inv_clear_nonces: "ts_inv b s \<Longrightarrow> clear_sender_nonce s time = Some (n, s') \<Longrightarrow> ts_inv b s'"
  using clear_nonces_wf [of "ts_nonces s" time 0] ts_inv_om [of b s]
  by (auto simp: clear_sender_nonce_def intro: ts_inv_nonces)

lemma ts_inv_from_bdn:
  assumes s: "ts_inv b s" and ins: "placement ins"
    and eq: "process_gateway_transaction_from_bdn ins hins now s h v i c = Inr (r, s')"
  shows "ts_inv b s'"
proof -
  have "ts_inv b (assign_if_new ins hins now s h i)" using s ins by (simp add: assign_if_new_def ts_inv_assign)
  then show ?thesis using s eq
    by (auto simp: process_gateway_transaction_from_bdn_def Let_def intro: ts_inv_set_contents split: if_splits elim!: rbind_InrE)
qed

lemma ts_inv_build:
  assumes "ts_inv b s" and "validator_ok V"
    and "msg_tx_build_tx_status V s i h v ts now en fee relay = Inr (st, vst, s')"
  shows "ts_inv b s'"
proof -
  have "s' = s \<or> (\<exists>m. s' = s\<lparr>ts_nonces := m\<rparr> \<and> om_wf m)"
    using assms(2,3) ts_inv_om [OF assms(1)]
    by (auto simp: msg_tx_build_tx_status_def Let_def validator_ok_def rbind_eq_Inr_iff split: if_splits)
  then show ?thesis using assms(1) ts_inv_nonces by auto
qed

lemma ts_inv_process_msg:
  assumes s: "ts_inv b s" and ins: "placement ins" and V: "validator_ok V"
    and eq: "process_transaction_msg ins hins V now s h v i ts ct en fee relay = Inr (r, s')"
  shows "ts_inv b s'"
proof -
  obtain st vst s1 where b: "msg_tx_build_tx_status V s i h v ts ct en fee relay = Inr (st, vst, s1)"
    using eq by (auto simp: process_transaction_msg_def elim!: rbind_InrE)
  note s1 = ts_inv_build [OF s V b]
  have "ts_inv b (snd (finish_transaction_msg ins hins now s2 h i st vst q c))" if "ts_inv b s2" for s2 q c
    using that ins by (simp add: finish_transaction_msg_def Let_def split_beta ts_inv_assign ts_inv_sids_index)
  then have fin: "ts_inv b s'" if "finish_transaction_msg ins hins now s2 h i st vst q c = (r, s')" "ts_inv b s2" for s2 q c
    using that by (metis snd_conv)
  have "ts_inv b s2" if "store_msg_contents st s1 h v = Inr (q, c, s2)" for q c s2
    using that s1 by (auto simp: store_msg_contents_def intro: ts_inv_set_contents split: if_splits elim!: rbind_InrE)
  then show ?thesis using eq b s1 fin
    by (auto simp: process_transaction_msg_def split: if_splits elim!: rbind_InrE)
qed

lemma ts_inv_store_copy: "ts_inv b s \<Longrightarrow> store_copy s h msg len off = Inr s' \<Longrightarrow> ts_inv b s'"
  by (auto simp: store_copy_def intro: ts_inv_set_contents elim!: rbind_InrE)

lemma ts_inv_assign_unknown: "ts_inv b s \<Longrightarrow> placement ins \<Longrightarrow> ts_inv b (assign_unknown ins hins now h i s)"
  by (simp add: assign_unknown_def ts_inv_assign)

lemma ts_inv_sync_sids:
  "sync_sids ins hins now msg h n s a off out = Inr (s', a', off', out') \<Longrightarrow> placement ins \<Longrightarrow> ts_inv b s \<Longrightarrow> ts_inv b s'"
proof (induction n arbitrary: s a off out)
  case (Suc n)
  then show ?case by (auto elim!: rbind_InrE) (blast intro: ts_inv_assign_unknown)
qed simp

lemma ts_inv_store_if: "(if c then store_copy s h msg len off else Inr s) = Inr s' \<Longrightarrow> ts_inv b s \<Longrightarrow> ts_inv b s'"
  by (auto intro: ts_inv_store_copy split: if_splits)

lemma ts_inv_sync_tx:
  assumes "sync_tx ins hins now msg (s, a, x) = Inr (s', a', x')" and "placement ins" and "ts_inv b s"
  shows "ts_inv b s'"
proof -
  obtain rl off out where x: "x = (rl, off, out)" by (metis prod.collapse)
  obtain h len off s1 n k1 k2 k3 k4 k5 k6 where
    1: "(if 0 < len then store_copy s h msg len off else Inr s) = Inr s1" and
    2: "sync_sids ins hins now msg h n s1 k1 k2 k3 = Inr (s', k4, k5, k6)"
    using assms(1) unfolding x sync_tx_def Let_def prod.case by (auto elim!: rbind_InrE simp del: One_nat_def)
  show ?thesis by (rule ts_inv_sync_sids [OF 2 assms(2) ts_inv_store_if [OF 1 assms(3)]])
qed

lemma ts_inv_sync_txs:
  "sync_txs ins hins now msg n (s, x) = Inr (s', x') \<Longrightarrow> placement ins \<Longrightarrow> ts_inv b s \<Longrightarrow> ts_inv b s'"
proof (induction n arbitrary: s x)
  case (Suc n)
  then show ?case by (cases x) (auto elim!: rbind_InrE dest: ts_inv_sync_tx)
qed simp

lemma ts_inv_sync:
  "process_tx_sync_message ins hins now s msg = Inr (r, s') \<Longrightarrow> placement ins \<Longrightarrow> ts_inv b s \<Longrightarrow> ts_inv b s'"
  by (auto simp: process_tx_sync_message_def Let_def elim!: rbind_InrE dest: ts_inv_sync_txs)

lemma ts_inv_txs_tx:
  assumes "txs_tx ins hins now msg (s, a, x) = Inr (s', a', x')" and "placement ins" and "ts_inv b s"
  shows "ts_inv b s'"
proof -
  obtain off out m where x: "x = (off, out, m)" by (metis prod.collapse)
  have u: "ts_inv b (assign_unknown ins hins now h i s)" for h i using assms(2,3) ts_inv_assign_unknown by blast
  have st: "ts_inv b s''" if "store_copy (assign_unknown ins hins now h i s) h msg len off = Inr s''" for h i len off s''
    using ts_inv_store_copy [OF u that] .
  show ?thesis using assms(1) u unfolding x txs_tx_def Let_def prod.case
    by (auto elim!: rbind_InrE split: if_splits dest: st)
qed

lemma ts_inv_txs_loop:
  "txs_loop ins hins now msg n (s, x) = Inr (s', x') \<Longrightarrow> placement ins \<Longrightarrow> ts_inv b s \<Longrightarrow> ts_inv b s'"
proof (induction n arbitrary: s x)
  case (Suc n)
  then show ?case by (cases x) (auto elim!: rbind_InrE dest: ts_inv_txs_tx)
qed simp

lemma ts_inv_txs:
  "process_txs_msg ins hins now s msg = Inr (r, s') \<Longrightarrow> placement ins \<Longrightarrow> ts_inv b s \<Longrightarrow> ts_inv b s'"
  by (auto simp: process_txs_msg_def Let_def elim!: rbind_InrE dest: ts_inv_txs_loop)

lemma ts_inv_node_store:
  assumes "node_tx_store V fee en msg s t = Inr (vst, s')" and "validator_ok V" and "ts_inv b s"
  shows "ts_inv b s'"
proof -
  have "ts_inv b (s\<lparr>ts_nonces := m\<rparr>)" if "V c fee 0 (ts_nonces s) (ts_allowed_time s) (ts_allowed_gas s) = Inr (st, m)" for c st m
    using assms(2) that ts_inv_om [OF assms(3)] unfolding validator_ok_def by (blast intro: ts_inv_nonces [OF assms(3)])
  note st = ts_inv_set_contents [OF this]
  show ?thesis using assms(1)
    by (auto simp: node_tx_store_def split: if_splits elim!: rbind_InrE dest: st ts_inv_set_contents [OF assms(3)])
qed

lemma ts_inv_node_txs:
  "node_txs V fee en msg ts (s, x) = Inr (s', x') \<Longrightarrow> validator_ok V \<Longrightarrow> ts_inv b s \<Longrightarrow> ts_inv b s'"
proof (induction ts arbitrary: s x)
  case (Cons t ts)
  then show ?case
    by (cases x) (auto simp: node_tx_def Let_def elim!: rbind_InrE split: if_splits dest: ts_inv_node_store)
qed simp

lemma ts_inv_node:
  "process_gateway_transaction_from_node parse V s msg fee en = Inr (r, s') \<Longrightarrow> validator_ok V \<Longrightarrow> ts_inv b s \<Longrightarrow> ts_inv b s'"
  by (auto simp: process_gateway_transaction_from_node_def Let_def elim!: rbind_InrE dest: ts_inv_node_txs)

lemma returned_Some [simp]: "returned r = Some x \<longleftrightarrow> r = Inr x"
  by (auto simp: returned_def split: sum.splits)

lemma ts_apply_inv:
  assumes s: "ts_inv b s" and ins: "placement ins" and V: "validator_ok V" and get: "b \<longrightarrow> \<not> is_get op"
    and eq: "ts_apply (ins, hins, V, parse) op s = Some s'"
  shows "ts_inv b s'"
proof (cases op)
  case (GetTransaction i)
  then show ?thesis using s get eq by (cases b) (auto intro: ts_inv_get)
next
  case (GetContentsRawPtr i)
  then show ?thesis using s get eq by (cases b) (auto intro: ts_inv_get)
next
  case (ClearNonces t)
  then show ?thesis using s eq by (auto intro: ts_inv_clear_nonces)
qed (use s ins V eq in \<open>auto intro: ts_inv_assign ts_inv_set_contents ts_inv_remove_hash ts_inv_remove_hashes ts_inv_remove_sid
    ts_inv_track ts_inv_frame ts_inv_from_bdn ts_inv_process_msg ts_inv_node ts_inv_txs ts_inv_sync\<close>)

lemma ts_run_inv:
  assumes "ts_inv b s" and "placement ins" and "validator_ok V" and "b \<longrightarrow> list_all (\<lambda>op. \<not> is_get op) ops"
    and "ts_run (ins, hins, V, parse) ops s = Some s'"
  shows "ts_inv b s'"
  using assms(1,4,5)
proof (induction ops arbitrary: s)
  case (Cons op ops)
  then obtain s1 where s1: "ts_apply (ins, hins, V, parse) op s = Some s1" "ts_run (ins, hins, V, parse) ops s1 = Some s'"
    by (auto simp: bind_eq_Some_conv)
  have "ts_inv b s1" by (rule ts_apply_inv [OF Cons.prems(1) assms(2,3) _ s1(1)]) (use Cons.prems(2) in auto)
  then show ?case by (rule Cons.IH [OF _ _ s1(2)]) (use Cons.prems(2) in auto)
qed simp

text \<open>
  C18: after every sequence of public operations of an empty service that return, the map from short
  ids to hashes and the map from hashes to sets of short ids are inverse to each other, the null short
  id is assigned to nothing, the five ordered containers are well-formed, and the tracker's byte count is
  the sum of the sizes of the stored contents (modulo the width of \<^verbatim>\<open>size_t\<close>). If neither \<open>get_transaction\<close> nor
  \<open>get_tx_contents_raw_ptr\<close> is among the operations, no null contents are stored.
\<close>

theorem tx_service_invariant:
  assumes "placement ins" and "validator_ok V"
    and "ts_run (ins, hins, V, parse) ops (ts_new pool cap final t g) = Some s"
  shows "(\<forall>i h. ts_hash s i = Some h \<longleftrightarrow> (\<exists>xs. ts_sids s h = Some xs \<and> i \<in> set xs)) \<and>
    \<not> has_short_id s NULL_TX_SID \<and>
    om_wf (ts_seen s) \<and> om_wf (ts_assign_time s) \<and> om_wf (ts_hash_removed s) \<and> om_wf (ts_sid_removed s) \<and> om_wf (ts_nonces s) \<and>
    finite (dom (mw_map (ts_contents s))) \<and>
    mw_bytes (ts_contents s) =
      (\<Sum>h \<in> dom (mw_map (ts_contents s)). contents_size (the (mw_map (ts_contents s) h))) mod 2 ^ 64 \<and>
    (list_all (\<lambda>op. \<not> is_get op) ops \<longrightarrow> (\<forall>h. mw_map (ts_contents s) h \<noteq> Some None))"
proof -
  have inv: "ts_inv (list_all (\<lambda>op. \<not> is_get op) ops) s"
    by (rule ts_run_inv [OF ts_inv_new assms(1,2) _ assms(3)]) simp
  then have "ts_wf (bare s)" "mw_wf contents_size (ts_contents s)" by (simp_all add: ts_inv_def)
  then have "ts_linked s" "\<not> has_short_id s NULL_TX_SID"
    "om_wf (ts_seen s)" "om_wf (ts_assign_time s)" "om_wf (ts_hash_removed s)" "om_wf (ts_sid_removed s)" "om_wf (ts_nonces s)"
    "finite (dom (mw_map (ts_contents s)))" "mw_bytes (ts_contents s) = u64 (mw_total contents_size (mw_map (ts_contents s)))"
    by (simp_all add: ts_wf_def ts_linked_def has_short_id_def mw_wf_def) (simp_all add: bare_def)
  then show ?thesis using inv unfolding ts_linked_def u64_def mw_total_def ts_inv_def no_null_def by blast
qed

definition demo_ops :: "ts_op list" where
  "demo_ops = [SetContents [1] (demo_view 3), Assign 10 [1] 5, Assign 12 [2] 7, GetTransaction 7, AcquirePool]"

theorem tx_service_invariant_witness:
  "\<exists>s. ts_run ((#), (#), valid_all, \<lambda>_. Inl ParserError) demo_ops (ts_new 1 10 6 2 1) = Some s \<and>
     (\<forall>i h. ts_hash s i = Some h \<longleftrightarrow> (\<exists>xs. ts_sids s h = Some xs \<and> i \<in> set xs))"
proof -
  have "\<exists>s. ts_run ((#), (#), valid_all, \<lambda>_. Inl ParserError) demo_ops (ts_new 1 10 6 2 1) = Some s"
    by (simp add: demo_ops_def returned_def ts_new_def set_transaction_contents_def mw_find_def mw_new_def assign_short_id_def
        has_transaction_contents_def has_short_id_def sids_index_def NULL_TX_SID_def get_transaction_def Let_def
        mw_index_def mw_emplace_def ts_acquire_tx_pool_def acquire_read_def is_write_pending_def sbc_insert_def is_reading_def
        insert_to_container_def sbc_new_def case_prod_unfold)
  then obtain s where s: "ts_run ((#), (#), valid_all, \<lambda>_. Inl ParserError) demo_ops (ts_new 1 10 6 2 1) = Some s" by blast
  with tx_service_invariant [OF placement_Cons validator_ok_valid_all s] show ?thesis by blast
qed

end
