(* ===== verification/TaskPool.thy ===== *)
theory TaskPool
  imports Prelude "HOL-Library.Multiset"
begin

text \<open>
  Tasks and thread pools: \<open>TaskBase\<close>, \<open>MainTaskBase\<close>, \<open>SubTaskBase\<close>, \<open>TaskThreadPool\<close> and
  \<open>TaskPoolExecutor\<close> of \<^verbatim>\<open>src/lib/libtpe/tpe\<close>, \<open>SafeQueue\<close>, \<open>QueueThread\<close> and \<open>ThreadPool\<close> of
  \<^verbatim>\<open>src/lib/libutils/utils/concurrency\<close>.

  A task object counts executions by ids from a global counter (a 64-bit counter, which the model
  does not wrap) and keeps the exception of its last execution until somebody asks for the result.
  A function that may throw but changes the task first returns the new task and the exception.
  The body of a task, the virtual \<^verbatim>\<open>_execute\<close>, is a parameter: its outcome is the argument of the
  step that finishes the task. The \<open>AggregatedException\<close> an exception is wrapped in is identified
  with the exception.

  The pool is a transition system of its threads and its clients. No lock covers \<open>TaskThreadPool::enqueue_task\<close>:
  only the push into the queue is guarded by the mutex of that queue. A call of it is therefore four
  steps, between which every thread and every other client may move: the choice of a queue from sizes
  that are read one after the other without a lock, so that any index can result; the check that the
  last execution of the task has ended; the marking of the task as queued, with an id from the
  static counter, which is incremented without a lock, so that any number can result; and the push.
  A thread tests its stop flag, takes an item from its queue, runs it and ends it in separate steps,
  and \<open>stop_requested\<close> sets the flag of a thread and the flag of its queue in two steps. The writes of
  \<open>after_execution\<close> are one step, and so are those of the marking: \<open>after_execution\<close> sets the completion flag, without
  which \<open>assert_execution\<close> fails, as the last of its writes, so a check in between fails as one before it does. Memory is
  sequentially consistent.
\<close>

section \<open>TaskBase\<close>

record task =
  tk_id :: nat
  tk_completed :: bool
  tk_error :: "exn option"
  tk_queue_idx :: int
  tk_last :: nat
  tk_init :: bool

definition task_new :: "nat \<Rightarrow> task \<times> nat" where
  "task_new ctr =
     (\<lparr>tk_id = ctr + 1, tk_completed = False, tk_error = None, tk_queue_idx = - 1, tk_last = 0, tk_init = False\<rparr>, ctr + 1)"

definition check_error :: "task \<Rightarrow> task \<times> exn option" where
  "check_error t = (t\<lparr>tk_error := None\<rparr>, tk_error t)"

definition assert_execution :: "task \<Rightarrow> task \<times> exn option" where
  "assert_execution t =
     (if tk_id t \<noteq> tk_last t then (t, Some (TaskNotExecuted (tk_id t)))
      else if \<not> tk_completed t then (t, Some (TaskNotCompleted (tk_id t)))
      else check_error t)"

definition before_execution :: "nat \<Rightarrow> int \<Rightarrow> task \<Rightarrow> (nat \<times> task) \<times> exn option" where
  "before_execution ctr queue_idx t =
     (if tk_init t then
        (case assert_execution t of
           (t, Some e) \<Rightarrow> ((ctr, t), Some e)
         | (t, None) \<Rightarrow> ((ctr + 1, t\<lparr>tk_id := ctr + 1, tk_completed := False, tk_queue_idx := queue_idx\<rparr>), None))
      else ((ctr, t\<lparr>tk_init := True, tk_queue_idx := queue_idx\<rparr>), None))"

definition check_execution :: "task \<Rightarrow> task \<times> exn option" where
  \<comment> \<open>\<^verbatim>\<open>before_execution\<close> up to \<^verbatim>\<open>assert_execution\<close>\<close>
  "check_execution t = (if tk_init t then assert_execution t else (t, None))"

definition mark_execution :: "nat \<Rightarrow> int \<Rightarrow> bool \<Rightarrow> task \<Rightarrow> task" where
  \<comment> \<open>the rest of \<^verbatim>\<open>before_execution\<close>, with the id the counter gave and the branch that was taken\<close>
  "mark_execution new_id queue_idx is_initialized t =
     (if is_initialized then t\<lparr>tk_id := new_id, tk_completed := False, tk_queue_idx := queue_idx\<rparr>
      else t\<lparr>tk_init := True, tk_queue_idx := queue_idx\<rparr>)"

definition after_execution :: "exn option \<Rightarrow> task \<Rightarrow> task" where
  "after_execution err t = t\<lparr>tk_error := err, tk_last := tk_id t, tk_queue_idx := - 1, tk_completed := True\<rparr>"

definition execute :: "exn option \<Rightarrow> task \<Rightarrow> task" where
  \<comment> \<open>\<^verbatim>\<open>execute\<close> of main tasks and of sub-tasks, with the exception that escaped from the body\<close>
  "execute outcome t = (case outcome of None \<Rightarrow> after_execution None t | Some e \<Rightarrow> after_execution (Some e) t)"

definition wait_woken :: "task \<Rightarrow> task \<times> exn option" where
  \<comment> \<open>\<^verbatim>\<open>SubTaskBase::wait\<close> behind the \<^verbatim>\<open>if\<close>: the task is complete, was notified or was woken for no reason\<close>
  "wait_woken t = assert_execution t"

section \<open>SafeQueue and QueueThread\<close>

record 'a safe_queue =
  sq_items :: "'a list"
  sq_stop :: bool

definition sq_new :: "'a safe_queue" where
  "sq_new = \<lparr>sq_items = [], sq_stop = False\<rparr>"

definition sq_enqueue :: "'a \<Rightarrow> 'a safe_queue \<Rightarrow> 'a safe_queue" where
  "sq_enqueue x q = q\<lparr>sq_items := sq_items q @ [x]\<rparr>"

definition sq_dequeue :: "'a safe_queue \<Rightarrow> ('a option \<times> 'a safe_queue) option" where
  \<comment> \<open>\<open>None\<close>: the caller waits for the condition variable\<close>
  "sq_dequeue q =
     (case sq_items q of
        [] \<Rightarrow> if sq_stop q then Some (None, q) else None
      | x # xs \<Rightarrow> Some (Some x, q\<lparr>sq_items := xs\<rparr>))"

definition sq_stop_requested :: "'a safe_queue \<Rightarrow> 'a safe_queue" where
  "sq_stop_requested q = q\<lparr>sq_stop := True\<rparr>"

definition sq_queue_size :: "'a safe_queue \<Rightarrow> nat" where
  "sq_queue_size q = length (sq_items q)"

datatype 'a thread_state = Testing | Dequeuing | Running 'a | Stopped

record 'a queue_thread =
  qt_queue :: "'a safe_queue"
  qt_stop :: bool
  qt_state :: "'a thread_state"

definition qt_new :: "'a queue_thread" where
  "qt_new = \<lparr>qt_queue = sq_new, qt_stop = False, qt_state = Testing\<rparr>"

definition qt_enqueue :: "'a \<Rightarrow> 'a queue_thread \<Rightarrow> 'a queue_thread" where
  "qt_enqueue x t = t\<lparr>qt_queue := sq_enqueue x (qt_queue t)\<rparr>"

definition qt_stop_requested :: "'a queue_thread \<Rightarrow> 'a queue_thread" where
  "qt_stop_requested t = t\<lparr>qt_stop := True, qt_queue := sq_stop_requested (qt_queue t)\<rparr>"

definition qt_loop :: "'a queue_thread \<Rightarrow> 'a queue_thread option" where
  \<comment> \<open>\<^verbatim>\<open>_thread_loop\<close> up to the call of the item function: the test of the flag, then the call of \<^verbatim>\<open>dequeue\<close>\<close>
  "qt_loop t =
     (case qt_state t of
        Testing \<Rightarrow> Some (t\<lparr>qt_state := if qt_stop t then Stopped else Dequeuing\<rparr>)
      | Dequeuing \<Rightarrow>
          (case sq_dequeue (qt_queue t) of
             None \<Rightarrow> None
           | Some (None, q) \<Rightarrow> Some (t\<lparr>qt_queue := q, qt_state := Stopped\<rparr>)
           | Some (Some x, q) \<Rightarrow> Some (t\<lparr>qt_queue := q, qt_state := Running x\<rparr>))
      | _ \<Rightarrow> None)"

section \<open>ThreadPool, TaskThreadPool and TaskPoolExecutor\<close>

fun available_queue_from :: "nat \<Rightarrow> nat \<Rightarrow> nat \<Rightarrow> nat list \<Rightarrow> nat" where
  "available_queue_from idx best_queue_idx best_queue_size [] = best_queue_idx"
| "available_queue_from idx best_queue_idx best_queue_size (queue_size # sizes) =
     (if queue_size = 0 then idx
      else if queue_size < best_queue_size then available_queue_from (idx + 1) idx queue_size sizes
      else available_queue_from (idx + 1) best_queue_idx best_queue_size sizes)"

definition get_available_queue :: "'a queue_thread list \<Rightarrow> nat" where
  "get_available_queue threads = available_queue_from 0 0 0 (map (\<lambda>t. sq_queue_size (qt_queue t)) threads)"

datatype client = Chosen nat nat | Checked nat nat bool | Marked nat nat
  \<comment> \<open>a call of \<^verbatim>\<open>enqueue_task\<close> on its way: the task, the queue, and whether the task had been used\<close>

record pool =
  pl_threads :: "nat queue_thread list"
  pl_tasks :: "task list"
  pl_clients :: "client list"

definition pool_init :: "nat \<Rightarrow> pool" where
  "pool_init pool_size = \<lparr>pl_threads = replicate pool_size qt_new, pl_tasks = [], pl_clients = []\<rparr>"

definition executor_init :: "nat \<Rightarrow> bool \<Rightarrow> nat \<Rightarrow> bool \<times> (pool \<times> pool) res" where
  \<comment> \<open>the flag is set even when the size is then refused\<close>
  "executor_init hardware_concurrency is_initialized pool_size =
     (True, if is_initialized \<or> hardware_concurrency < pool_size then Inl RuntimeError
            else Inr (pool_init pool_size, pool_init pool_size))"

definition pool_stop_requested :: "pool \<Rightarrow> pool" where
  "pool_stop_requested p = p\<lparr>pl_threads := map qt_stop_requested (pl_threads p)\<rparr>"

definition pool_add_task :: "nat \<Rightarrow> pool \<Rightarrow> pool" where
  \<comment> \<open>a task object is constructed; the counter is what the constructing thread read\<close>
  "pool_add_task ctr p = p\<lparr>pl_tasks := pl_tasks p @ [fst (task_new ctr)]\<rparr>"

definition enqueue_task :: "nat \<Rightarrow> nat \<Rightarrow> pool \<Rightarrow> pool \<times> exn option" where
  \<comment> \<open>a call that nothing interrupts\<close>
  "enqueue_task ctr i p =
     (let pool_idx = get_available_queue (pl_threads p);
          ((ctr, t), err) = before_execution ctr (int pool_idx) (pl_tasks p ! i);
          p = p\<lparr>pl_tasks := (pl_tasks p)[i := t]\<rparr>
      in if err \<noteq> None then (p, err)
         else if pool_idx < length (pl_threads p)
         then (p\<lparr>pl_threads := (pl_threads p)[pool_idx := qt_enqueue i (pl_threads p ! pool_idx)]\<rparr>, None)
         else (p, Some Terminate))"

fun client_task :: "client \<Rightarrow> nat" where
  "client_task (Chosen i q) = i"
| "client_task (Checked i q b) = i"
| "client_task (Marked i q) = i"

inductive client_step :: "bool \<Rightarrow> pool \<Rightarrow> pool \<Rightarrow> bool" for d where
  \<comment> \<open>the steps of \<^verbatim>\<open>enqueue_task\<close>; with \<open>d\<close> no two clients enqueue the same task object at once\<close>
  choose: "\<lbrakk>i < length (pl_tasks p); q < length (pl_threads p); d \<longrightarrow> i \<notin> client_task ` set (pl_clients p)\<rbrakk> \<Longrightarrow>
     client_step d p (p\<lparr>pl_clients := Chosen i q # pl_clients p\<rparr>)"
| check: "\<lbrakk>pl_clients p = cs @ Chosen i q # cs'; check_execution (pl_tasks p ! i) = (t, None)\<rbrakk> \<Longrightarrow>
     client_step d p (p\<lparr>pl_tasks := (pl_tasks p)[i := t], pl_clients := cs @ Checked i q (tk_init t) # cs'\<rparr>)"
| check_throws: "\<lbrakk>pl_clients p = cs @ Chosen i q # cs'; check_execution (pl_tasks p ! i) = (t, Some e)\<rbrakk> \<Longrightarrow>
     client_step d p (p\<lparr>pl_tasks := (pl_tasks p)[i := t], pl_clients := cs @ cs'\<rparr>)"
| mark: "pl_clients p = cs @ Checked i q b # cs' \<Longrightarrow>
     client_step d p (p\<lparr>pl_tasks := (pl_tasks p)[i := mark_execution new_id (int q) b (pl_tasks p ! i)],
                        pl_clients := cs @ Marked i q # cs'\<rparr>)"
| push: "pl_clients p = cs @ Marked i q # cs' \<Longrightarrow>
     client_step d p (p\<lparr>pl_threads := (pl_threads p)[q := qt_enqueue i (pl_threads p ! q)], pl_clients := cs @ cs'\<rparr>)"

inductive loop_step :: "pool \<Rightarrow> pool \<Rightarrow> bool" where
  \<comment> \<open>the steps of a thread outside the bodies of the tasks\<close>
  loop: "\<lbrakk>q < length (pl_threads p); qt_loop (pl_threads p ! q) = Some t\<rbrakk> \<Longrightarrow>
     loop_step p (p\<lparr>pl_threads := (pl_threads p)[q := t]\<rparr>)"

inductive worker_step :: "pool \<Rightarrow> pool \<Rightarrow> bool" where
  loop: "loop_step p p' \<Longrightarrow> worker_step p p'"
| finish_task: "\<lbrakk>q < length (pl_threads p); qt_state (pl_threads p ! q) = Running i\<rbrakk> \<Longrightarrow>
     worker_step p (p\<lparr>pl_threads := (pl_threads p)[q := (pl_threads p ! q)\<lparr>qt_state := Testing\<rparr>],
                      pl_tasks := (pl_tasks p)[i := execute outcome (pl_tasks p ! i)]\<rparr>)"

inductive stop_step :: "pool \<Rightarrow> pool \<Rightarrow> bool" where
  \<comment> \<open>\<^verbatim>\<open>stop_requested\<close> of a thread, then of its queue\<close>
  stop_thread: "q < length (pl_threads p) \<Longrightarrow>
     stop_step p (p\<lparr>pl_threads := (pl_threads p)[q := (pl_threads p ! q)\<lparr>qt_stop := True\<rparr>]\<rparr>)"
| stop_queue: "\<lbrakk>q < length (pl_threads p); qt_stop (pl_threads p ! q)\<rbrakk> \<Longrightarrow>
     stop_step p (p\<lparr>pl_threads := (pl_threads p)[q := qt_stop_requested (pl_threads p ! q)]\<rparr>)"

inductive pool_step :: "bool \<Rightarrow> pool \<Rightarrow> pool \<Rightarrow> bool" for d where
  worker: "worker_step p p' \<Longrightarrow> pool_step d p p'"
| client: "client_step d p p' \<Longrightarrow> pool_step d p p'"
| stop: "stop_step p p' \<Longrightarrow> pool_step d p p'"
| new_task: "pool_step d p (pool_add_task ctr p)"
| collect: "i < length (pl_tasks p) \<Longrightarrow>
     pool_step d p (p\<lparr>pl_tasks := (pl_tasks p)[i := fst (assert_execution (pl_tasks p ! i))]\<rparr>)"

inductive pool_reachable :: "bool \<Rightarrow> nat \<Rightarrow> pool \<Rightarrow> bool" for d n where
  start: "pool_reachable d n (pool_init n)"
| step: "pool_reachable d n p \<Longrightarrow> pool_step d p p' \<Longrightarrow> pool_reachable d n p'"

inductive_cases client_stepE: "client_step d p p'"
inductive_cases loop_stepE: "loop_step p p'"
inductive_cases worker_stepE: "worker_step p p'"
inductive_cases stop_stepE: "stop_step p p'"
inductive_cases pool_stepE: "pool_step d p p'"

section \<open>The life of a task\<close>

definition tk_pending :: "task \<Rightarrow> bool" where
  "tk_pending t \<longleftrightarrow> tk_init t \<and> tk_id t \<noteq> tk_last t"

definition tk_wf :: "nat \<Rightarrow> task \<Rightarrow> bool" where
  "tk_wf ctr t \<longleftrightarrow> 0 < tk_id t \<and> tk_id t \<le> ctr \<and> tk_last t \<le> tk_id t \<and>
     (tk_completed t \<longleftrightarrow> tk_id t = tk_last t) \<and> (\<not> tk_init t \<longrightarrow> tk_last t = 0)"

lemmas task_defs = assert_execution_def check_error_def before_execution_def after_execution_def execute_def

lemma tk_wf_new: "task_new ctr = (t, ctr') \<Longrightarrow> tk_wf ctr' t \<and> \<not> tk_init t \<and> ctr \<le> ctr'"
  by (auto simp: task_new_def tk_wf_def)

lemma tk_wf_mono: "tk_wf ctr t \<Longrightarrow> ctr \<le> ctr' \<Longrightarrow> tk_wf ctr' t"
  by (auto simp: tk_wf_def)

lemma before_execution_cases:
  assumes "tk_wf ctr t" and "before_execution ctr q t = ((ctr', t'), err)"
  shows "ctr \<le> ctr' \<and> tk_wf ctr' t'"
    and "err = None \<Longrightarrow> \<not> tk_pending t \<and> tk_pending t'"
    and "err \<noteq> None \<Longrightarrow> tk_pending t' = tk_pending t"
    and "tk_pending t \<Longrightarrow> err = Some (TaskNotExecuted (tk_id t)) \<and> t' = t"
  using assms by (auto simp: task_defs tk_wf_def tk_pending_def split: if_splits option.splits)

lemma tk_wf_execute: "tk_wf ctr t \<Longrightarrow> tk_init t \<Longrightarrow> tk_wf ctr (execute r t) \<and> \<not> tk_pending (execute r t)"
  by (auto simp: execute_def after_execution_def tk_wf_def tk_pending_def split: option.splits)

lemma assert_execution_keeps:
  "tk_wf ctr (fst (assert_execution t)) = tk_wf ctr t" "tk_pending (fst (assert_execution t)) = tk_pending t"
  by (auto simp: assert_execution_def check_error_def tk_wf_def tk_pending_def)

text \<open>
  C31: the result of a task can be read exactly when its last execution has ended: between
  \<^verbatim>\<open>before_execution\<close> and \<^verbatim>\<open>after_execution\<close> reading it throws \<open>TaskNotExecuted\<close>, afterwards it throws what
  the body threw, once, and then nothing.
\<close>

theorem task_life_cycle:
  assumes "tk_wf ctr t" and "before_execution ctr q t = ((ctr', t1), None)"
  shows "snd (assert_execution t1) = Some (TaskNotExecuted (tk_id t1)) \<and>
    snd (assert_execution (execute r t1)) = r \<and>
    snd (assert_execution (fst (assert_execution (execute r t1)))) = None"
  using before_execution_cases(2) [OF assms]
  by (auto simp: tk_pending_def assert_execution_def check_error_def execute_def after_execution_def split: option.splits)

theorem task_life_cycle_witness:
  "snd (assert_execution (snd (fst (before_execution 1 0 (fst (task_new 0)))))) = Some (TaskNotExecuted 1) \<and>
   snd (assert_execution (execute (Some KeyError) (snd (fst (before_execution 1 0 (fst (task_new 0))))))) = Some KeyError"
proof -
  let ?t = "fst (task_new 0)"
  have "tk_wf 1 ?t" "before_execution 1 0 ?t = ((1, ?t\<lparr>tk_init := True, tk_queue_idx := 0\<rparr>), None)"
    by (simp_all add: task_new_def tk_wf_def before_execution_def)
  from task_life_cycle [OF this] this(2) show ?thesis by (simp add: task_new_def)
qed

text \<open>
  An exception nobody read stays in the task object: the next use of the object fails with the
  exception of the earlier run before the new work is queued, and only the use after that one works.
\<close>

theorem stale_error_surfaces_on_reuse:
  assumes t: "tk_wf ctr t" "tk_init t" and e: "t' = execute (Some e) t"
  shows "snd (before_execution ctr q t') = Some e \<and>
    snd (before_execution ctr' q' (snd (fst (before_execution ctr q t')))) = None"
  using assms by (auto simp: task_defs)

theorem stale_error_surfaces_on_reuse_witness:
  "snd (before_execution 1 0 (execute (Some RuntimeError) ((fst (task_new 0))\<lparr>tk_init := True\<rparr>))) = Some RuntimeError"
proof -
  have "tk_wf 1 ((fst (task_new 0))\<lparr>tk_init := True\<rparr>)" "tk_init ((fst (task_new 0))\<lparr>tk_init := True\<rparr>)"
    by (simp_all add: task_new_def tk_wf_def)
  from stale_error_surfaces_on_reuse [OF this refl] show ?thesis by blast
qed

text \<open>
  \<^verbatim>\<open>SubTaskBase::wait\<close> tests the completion once instead of in a loop: when the condition variable
  wakes the waiting thread without a notification, waiting for a task that is queued or running
  throws \<open>TaskNotExecuted\<close>.
\<close>

theorem spurious_wakeup_fails:
  assumes "tk_pending t"
  shows "wait_woken t = (t, Some (TaskNotExecuted (tk_id t)))"
  using assms by (simp add: wait_woken_def assert_execution_def tk_pending_def)

theorem spurious_wakeup_fails_witness:
  "snd (wait_woken ((fst (task_new 0))\<lparr>tk_init := True\<rparr>)) = Some (TaskNotExecuted 1)"
  using spurious_wakeup_fails [of "(fst (task_new 0))\<lparr>tk_init := True\<rparr>"] by (simp add: tk_pending_def task_new_def)

section \<open>Choosing a queue\<close>

lemma available_queue_from_zero:
  "available_queue_from idx b 0 sizes = (if 0 \<in> set sizes then idx + length (takeWhile (\<lambda>n. n \<noteq> 0) sizes) else b)"
  by (induction sizes arbitrary: idx) auto

text \<open>
  A task goes to the first empty queue; when no queue is empty it always goes to queue 0, however
  long that queue is and however short the others are, since the size the search compares with
  starts at zero.
\<close>

theorem get_available_queue_ignores_load:
  "get_available_queue threads =
     (if \<exists>t \<in> set threads. sq_items (qt_queue t) = []
      then length (takeWhile (\<lambda>t. sq_items (qt_queue t) \<noteq> []) threads) else 0)"
proof -
  have "takeWhile (\<lambda>n. n \<noteq> 0) (map (\<lambda>t. sq_queue_size (qt_queue t)) threads) =
      map (\<lambda>t. sq_queue_size (qt_queue t)) (takeWhile (\<lambda>t. sq_items (qt_queue t) \<noteq> []) threads)"
    by (simp add: takeWhile_map comp_def sq_queue_size_def)
  then show ?thesis
    by (auto simp: get_available_queue_def available_queue_from_zero sq_queue_size_def)
qed

theorem get_available_queue_ignores_load_witness:
  "get_available_queue [qt_enqueue 5 (qt_enqueue 4 (qt_enqueue (3 :: nat) qt_new)), qt_enqueue 1 qt_new] = 0"
  unfolding get_available_queue_ignores_load by (simp add: qt_enqueue_def sq_enqueue_def qt_new_def sq_new_def)

section \<open>The pool\<close>

lemma available_queue_in_range:
  assumes "sizes \<noteq> []"
  shows "available_queue_from 0 0 0 sizes < length sizes"
proof (cases "0 \<in> set sizes")
  case True
  then have "takeWhile (\<lambda>n. n \<noteq> 0) sizes \<noteq> sizes" by (auto simp: takeWhile_eq_all_conv)
  then have "length (takeWhile (\<lambda>n. n \<noteq> 0) sizes) < length sizes"
    by (metis length_takeWhile_le le_neq_implies_less takeWhile_eq_take take_all_iff order_refl)
  then show ?thesis using True by (simp add: available_queue_from_zero)
qed (use assms in \<open>simp add: available_queue_from_zero\<close>)

lemma before_execution_steps:
  "before_execution ctr q t =
     (case check_execution t of
        (t, Some e) \<Rightarrow> ((ctr, t), Some e)
      | (t, None) \<Rightarrow> ((if tk_init t then ctr + 1 else ctr, mark_execution (ctr + 1) q (tk_init t) t), None))"
  by (auto simp: task_defs check_execution_def mark_execution_def split: option.splits)

lemma uninterrupted_enqueue:
  assumes i: "i < length (pl_tasks p)" and n: "pl_threads p \<noteq> []" and c: "pl_clients p = []"
  shows "(client_step d)\<^sup>*\<^sup>* p (fst (enqueue_task ctr i p))"
proof -
  have step2: "(client_step d)\<^sup>*\<^sup>* a c" if "client_step d a b" "client_step d b c" for a b c
    using that by (meson converse_rtranclp_into_rtranclp r_into_rtranclp)
  let ?q = "get_available_queue (pl_threads p)"
  have q: "?q < length (pl_threads p)"
    using available_queue_in_range [of "map (\<lambda>t. sq_queue_size (qt_queue t)) (pl_threads p)"] n
    by (simp add: get_available_queue_def)
  let ?p1 = "p\<lparr>pl_clients := [Chosen i ?q]\<rparr>"
  have s1: "client_step d p ?p1" using client_step.choose [of i p ?q d] i q c by simp
  obtain t e where e: "check_execution (pl_tasks p ! i) = (t, e)" by (cases "check_execution (pl_tasks p ! i)")
  show ?thesis
  proof (cases e)
    case (Some x)
    have "client_step d ?p1 (p\<lparr>pl_tasks := (pl_tasks p)[i := t], pl_clients := []\<rparr>)"
      using client_step.check_throws [of ?p1 "[]" i ?q "[]" t x d] e Some by simp
    moreover have "fst (enqueue_task ctr i p) = p\<lparr>pl_tasks := (pl_tasks p)[i := t], pl_clients := []\<rparr>"
      using e Some c by (simp add: enqueue_task_def before_execution_steps Let_def)
    ultimately show ?thesis using step2 [OF s1] by simp
  next
    case None
    let ?p2 = "p\<lparr>pl_tasks := (pl_tasks p)[i := t], pl_clients := [Checked i ?q (tk_init t)]\<rparr>"
    let ?t = "mark_execution (ctr + 1) (int ?q) (tk_init t) t"
    let ?p3 = "p\<lparr>pl_tasks := (pl_tasks p)[i := ?t], pl_clients := [Marked i ?q]\<rparr>"
    let ?p4 = "?p3\<lparr>pl_threads := (pl_threads p)[?q := qt_enqueue i (pl_threads p ! ?q)], pl_clients := []\<rparr>"
    have s2: "client_step d ?p1 ?p2"
      using client_step.check [of ?p1 "[]" i ?q "[]" t d] e None by simp
    have s3: "client_step d ?p2 ?p3"
      using client_step.mark [of ?p2 "[]" i ?q "tk_init t" "[]" d "ctr + 1"] i by simp
    have s4: "client_step d ?p3 ?p4"
      using client_step.push [of ?p3 "[]" i ?q "[]" d] by simp
    have "fst (enqueue_task ctr i p) = ?p4"
      using e None c q by (simp add: enqueue_task_def before_execution_steps Let_def)
    then show ?thesis using rtranclp_trans [OF step2 [OF s1 s2] step2 [OF s3 s4]] by simp
  qed
qed

definition th_items :: "nat queue_thread \<Rightarrow> nat list" where
  "th_items t = sq_items (qt_queue t) @ (case qt_state t of Running i \<Rightarrow> [i] | _ \<Rightarrow> [])"

definition pool_active :: "pool \<Rightarrow> nat list" where
  \<comment> \<open>the tasks that are queued or running\<close>
  "pool_active p = concat (map th_items (pl_threads p))"

fun client_held :: "client \<Rightarrow> nat list" where
  "client_held (Marked i q) = [i]"
| "client_held c = []"

definition pool_held :: "pool \<Rightarrow> nat list" where
  \<comment> \<open>also the tasks a client is about to push\<close>
  "pool_held p = pool_active p @ concat (map client_held (pl_clients p))"

definition tk_waiting :: "task \<Rightarrow> bool" where
  "tk_waiting t \<longleftrightarrow> tk_init t \<and> \<not> tk_completed t"

definition tk_ok :: "task \<Rightarrow> bool" where
  "tk_ok t \<longleftrightarrow> (tk_completed t \<longrightarrow> tk_init t \<and> tk_id t = tk_last t)"

definition th_wf :: "nat queue_thread \<Rightarrow> bool" where
  "th_wf t \<longleftrightarrow> (sq_stop (qt_queue t) \<or> qt_state t = Stopped \<longrightarrow> qt_stop t)"

fun client_wf :: "pool \<Rightarrow> client \<Rightarrow> bool" where
  "client_wf p (Chosen i q) \<longleftrightarrow> i < length (pl_tasks p) \<and> q < length (pl_threads p)"
| "client_wf p (Checked i q b) \<longleftrightarrow> i < length (pl_tasks p) \<and> q < length (pl_threads p) \<and>
     \<not> tk_waiting (pl_tasks p ! i) \<and> b = tk_init (pl_tasks p ! i)"
| "client_wf p (Marked i q) \<longleftrightarrow> i < length (pl_tasks p) \<and> q < length (pl_threads p)"

definition waiting_tasks :: "pool \<Rightarrow> nat set" where
  "waiting_tasks p = {i. i < length (pl_tasks p) \<and> tk_waiting (pl_tasks p ! i)}"

definition pool_wf :: "pool \<Rightarrow> bool" where
  "pool_wf p \<longleftrightarrow> distinct (pool_held p) \<and> set (pool_held p) = waiting_tasks p \<and>
     distinct (map client_task (pl_clients p)) \<and> (\<forall>c \<in> set (pl_clients p). client_wf p c) \<and>
     (\<forall>t \<in> set (pl_tasks p). tk_ok t) \<and> (\<forall>t \<in> set (pl_threads p). th_wf t)"

lemma mset_concat_update:
  "q < length xs \<Longrightarrow> mset (concat (map f (xs[q := t]))) + mset (f (xs ! q)) = mset (concat (map f xs)) + mset (f t)"
  by (induction xs arbitrary: q) (auto split: nat.splits simp: ac_simps)

lemma pool_held_update:
  assumes "q < length (pl_threads p)" and "pl_threads p' = (pl_threads p)[q := t]" and "pl_clients p' = pl_clients p"
  shows "mset (pool_held p') + mset (th_items (pl_threads p ! q)) = mset (pool_held p) + mset (th_items t)"
  using mset_concat_update [OF assms(1), of th_items t] assms(2,3)
  by (simp add: pool_held_def pool_active_def ac_simps)

lemma same_elements:
  assumes "mset xs = mset ys"
  shows "distinct xs = distinct ys" and "set xs = set ys"
  using assms mset_eq_imp_distinct_iff mset_eq_setD by blast+

lemma waiting_tasks_update:
  "i < length (pl_tasks p) \<Longrightarrow> pl_tasks p' = (pl_tasks p)[i := t] \<Longrightarrow>
   waiting_tasks p' = (if tk_waiting t then insert i (waiting_tasks p) else waiting_tasks p - {i})"
  by (auto simp: waiting_tasks_def nth_list_update)

lemma client_wf_task_update:
  assumes "client_wf p c" and "pl_tasks p' = (pl_tasks p)[i := t]" and "length (pl_threads p') = length (pl_threads p)"
    and "client_task c \<noteq> i \<or> tk_waiting t = tk_waiting (pl_tasks p ! i) \<and> tk_init t = tk_init (pl_tasks p ! i)"
  shows "client_wf p' c"
  using assms by (cases c; cases "i < length (pl_tasks p)") (auto simp: nth_list_update list_update_beyond)

lemma all_update: "\<forall>x \<in> set xs. P x \<Longrightarrow> P y \<Longrightarrow> \<forall>x \<in> set (xs[i := y]). P x"
  by (auto dest!: set_update_subset_insert [THEN subsetD])

lemma check_execution_keeps:
  assumes "check_execution t = (t', e)" and "tk_ok t"
  shows "tk_ok t'" and "tk_waiting t' = tk_waiting t" and "tk_init t' = tk_init t" and "e = None \<Longrightarrow> \<not> tk_waiting t"
  using assms by (auto simp: check_execution_def task_defs tk_ok_def tk_waiting_def split: if_splits)

lemma task_step_keeps:
  "tk_ok t \<Longrightarrow> tk_init t \<Longrightarrow> tk_ok (execute r t) \<and> \<not> tk_waiting (execute r t) \<and> tk_init (execute r t)"
  "tk_ok t \<Longrightarrow> tk_ok (fst (assert_execution t)) \<and> tk_waiting (fst (assert_execution t)) = tk_waiting t \<and>
     tk_init (fst (assert_execution t)) = tk_init t"
  "tk_ok t \<Longrightarrow> b = tk_init t \<Longrightarrow> tk_ok (mark_execution k q b t) \<and> tk_waiting (mark_execution k q b t)"
  by (auto simp: task_defs mark_execution_def tk_ok_def tk_waiting_def split: option.splits)

text \<open>Every step of a disciplined pool keeps the invariant.\<close>

lemma pool_wf_thread:
  assumes wf: "pool_wf p" and q: "q < length (pl_threads p)"
    and t: "mset (th_items t) = mset (th_items (pl_threads p ! q))" "th_wf t"
  shows "pool_wf (p\<lparr>pl_threads := (pl_threads p)[q := t]\<rparr>)" (is "pool_wf ?p")
proof -
  have "mset (pool_held ?p) = mset (pool_held p)" using pool_held_update [OF q, of ?p t] t(1) by simp
  note same = same_elements [OF this]
  have "client_wf ?p c" if "client_wf p c" for c using that by (cases c) auto
  then show ?thesis using wf same all_update [of "pl_threads p" th_wf t q] t(2) by (simp add: pool_wf_def waiting_tasks_def)
qed

lemma pool_wf_loop: "pool_wf p \<Longrightarrow> loop_step p p' \<Longrightarrow> pool_wf p'"
proof (erule loop_stepE)
  fix q t assume wf: "pool_wf p" and p': "p' = p\<lparr>pl_threads := (pl_threads p)[q := t]\<rparr>"
    and q: "q < length (pl_threads p)" "qt_loop (pl_threads p ! q) = Some t"
  have "th_wf (pl_threads p ! q)" using wf q(1) by (simp add: pool_wf_def)
  then have "mset (th_items t) = mset (th_items (pl_threads p ! q)) \<and> th_wf t"
    using q(2) by (auto simp: qt_loop_def th_items_def th_wf_def sq_dequeue_def
        split: thread_state.splits list.splits if_splits)
  then show "pool_wf p'" using pool_wf_thread [OF wf q(1)] p' by simp
qed

lemma pool_wf_stop:
  assumes wf: "pool_wf p" and step: "stop_step p p'"
  shows "pool_wf p'"
proof -
  obtain q t where q: "q < length (pl_threads p)" "p' = p\<lparr>pl_threads := (pl_threads p)[q := t]\<rparr>" "th_wf t"
      "th_items t = th_items (pl_threads p ! q)"
    using step by cases (auto simp: th_wf_def th_items_def qt_stop_requested_def sq_stop_requested_def)
  then show ?thesis using pool_wf_thread [OF wf q(1), of t] by simp
qed

lemma pool_wf_finish:
  assumes wf: "pool_wf p" and q: "q < length (pl_threads p)" "qt_state (pl_threads p ! q) = Running i"
  shows "pool_wf (p\<lparr>pl_threads := (pl_threads p)[q := (pl_threads p ! q)\<lparr>qt_state := Testing\<rparr>],
    pl_tasks := (pl_tasks p)[i := execute r (pl_tasks p ! i)]\<rparr>)" (is "pool_wf ?p")
proof -
  let ?t = "pl_threads p ! q" let ?t' = "?t\<lparr>qt_state := Testing\<rparr>" let ?k = "pl_tasks p ! i"
  have "mset (th_items ?t) = mset (i # th_items ?t')" using q(2) by (simp add: th_items_def)
  then have m: "mset (pool_held p) = mset (i # pool_held ?p)"
    using pool_held_update [OF q(1), of ?p ?t'] by simp
  note same = same_elements [OF m]
  have d: "i \<notin> set (pool_held ?p)" "distinct (pool_held ?p)" using wf same(1) by (simp_all add: pool_wf_def)
  have i: "i < length (pl_tasks p)" "tk_waiting ?k" using wf same(2) by (auto simp: pool_wf_def waiting_tasks_def)
  then have x: "tk_ok (execute r ?k)" "\<not> tk_waiting (execute r ?k)" "tk_init (execute r ?k) = tk_init ?k"
    using task_step_keeps(1) [of ?k r] wf by (auto simp: pool_wf_def tk_waiting_def)
  have held: "set (pool_held ?p) = waiting_tasks ?p"
    using wf x(2) d(1) same(2) waiting_tasks_update [OF i(1), of ?p "execute r ?k"] by (auto simp: pool_wf_def)
  have "client_wf ?p c" if "client_wf p c" for c
    using that i x by (cases c) (auto simp: nth_list_update)
  moreover have "th_wf ?t'" using wf q(1) by (auto simp: pool_wf_def th_wf_def)
  ultimately show ?thesis
    using wf d(2) held x(1) all_update [of "pl_tasks p" tk_ok "execute r ?k"] all_update [of "pl_threads p" th_wf ?t'] by (simp add: pool_wf_def)
qed

lemma pool_wf_task:
  \<comment> \<open>a step that changes a task but not whether it is waiting\<close>
  assumes wf: "pool_wf p" and i: "i < length (pl_tasks p)"
    and t: "tk_ok t" "tk_waiting t = tk_waiting (pl_tasks p ! i)" "tk_init t = tk_init (pl_tasks p ! i)"
    and p': "p' = p\<lparr>pl_tasks := (pl_tasks p)[i := t], pl_clients := cs\<rparr>"
    and cs: "concat (map client_held cs) = concat (map client_held (pl_clients p))"
      "distinct (map client_task cs)" "\<forall>c \<in> set cs. client_wf p c"
  shows "pool_wf p'"
proof -
  have "pool_held p' = pool_held p" using cs(1) p' by (simp add: pool_held_def pool_active_def)
  moreover have "waiting_tasks p' = waiting_tasks p"
    using i t(2) p' by (auto simp: waiting_tasks_def nth_list_update)
  moreover have "client_wf p' c" if "client_wf p c" for c
    using that client_wf_task_update [of p c p' i t] t p' by simp
  ultimately show ?thesis using wf cs p' t(1) all_update [of "pl_tasks p" tk_ok t] by (simp add: pool_wf_def)
qed

lemma pool_wf_mark:
  assumes wf: "pool_wf p" and c: "pl_clients p = cs @ Checked i q b # cs'"
  shows "pool_wf (p\<lparr>pl_tasks := (pl_tasks p)[i := mark_execution k (int q) b (pl_tasks p ! i)],
    pl_clients := cs @ Marked i q # cs'\<rparr>)" (is "pool_wf ?p")
proof -
  let ?t = "mark_execution k (int q) b (pl_tasks p ! i)"
  have cw: "client_wf p (Checked i q b)" using wf c by (simp add: pool_wf_def)
  then have i: "i < length (pl_tasks p)" "q < length (pl_threads p)" "\<not> tk_waiting (pl_tasks p ! i)" by auto
  have t: "tk_ok ?t" "tk_waiting ?t"
    using task_step_keeps(3) [of "pl_tasks p ! i" b k "int q"] cw wf by (auto simp: pool_wf_def)
  have "mset (pool_held ?p) = mset (i # pool_held p)" using c by (simp add: pool_held_def pool_active_def)
  note same = same_elements [OF this]
  have w: "i \<notin> waiting_tasks p" "waiting_tasks ?p = insert i (waiting_tasks p)"
    using i(3) waiting_tasks_update [OF i(1), of ?p ?t] t(2) by (auto simp: waiting_tasks_def)
  have "client_wf ?p c'" if "c' \<in> set cs \<union> set cs'" for c'
    using that wf c client_wf_task_update [of p c' ?p i ?t] by (auto simp: pool_wf_def)
  then have "\<forall>c' \<in> set (pl_clients ?p). client_wf ?p c'" using i by auto
  then show ?thesis using wf c same w t(1) all_update [of "pl_tasks p" tk_ok ?t] by (auto simp: pool_wf_def)
qed

lemma pool_wf_push:
  assumes wf: "pool_wf p" and c: "pl_clients p = cs @ Marked i q # cs'"
  shows "pool_wf (p\<lparr>pl_threads := (pl_threads p)[q := qt_enqueue i (pl_threads p ! q)], pl_clients := cs @ cs'\<rparr>)"
    (is "pool_wf ?p")
proof -
  let ?th = "qt_enqueue i (pl_threads p ! q)"
  have q: "q < length (pl_threads p)" using wf c by (simp add: pool_wf_def)
  have "mset (th_items ?th) = mset (i # th_items (pl_threads p ! q))"
    by (simp add: th_items_def qt_enqueue_def sq_enqueue_def)
  then have "mset (pool_held ?p) = mset (pool_held p)"
    using mset_concat_update [OF q, of th_items ?th] c by (simp add: pool_held_def pool_active_def)
  note same = same_elements [OF this]
  have "th_wf ?th" using wf q by (auto simp: pool_wf_def th_wf_def qt_enqueue_def sq_enqueue_def)
  moreover have "client_wf ?p c'" if "client_wf p c'" for c' using that by (cases c') auto
  ultimately show ?thesis
    using wf c same all_update [of "pl_threads p" th_wf ?th] by (simp add: pool_wf_def waiting_tasks_def)
qed

lemma pool_wf_client:
  assumes wf: "pool_wf p" and step: "client_step True p p'"
  shows "pool_wf p'"
  using step
proof cases
  case (choose i q)
  then show ?thesis using wf pool_wf_task [OF wf choose(2), of "pl_tasks p ! i" p' "Chosen i q # pl_clients p"]
    by (auto simp: pool_wf_def)
next
  case (check cs i q cs' t)
  have i: "i < length (pl_tasks p)" "tk_ok (pl_tasks p ! i)" using wf check(2) by (auto simp: pool_wf_def)
  note k = check_execution_keeps [OF check(3) i(2)]
  show ?thesis using wf check(2) k i(1)
    by (intro pool_wf_task [OF wf i(1) k(1-3) check(1)]) (auto simp: pool_wf_def)
next
  case (check_throws cs i q cs' t e)
  have i: "i < length (pl_tasks p)" "tk_ok (pl_tasks p ! i)" using wf check_throws(2) by (auto simp: pool_wf_def)
  note k = check_execution_keeps [OF check_throws(3) i(2)]
  show ?thesis using wf check_throws(2) k i(1)
    by (intro pool_wf_task [OF wf i(1) k(1-3) check_throws(1)]) (auto simp: pool_wf_def)
qed (use wf pool_wf_mark pool_wf_push in blast)+

lemma pool_wf_collect:
  assumes wf: "pool_wf p" and i: "i < length (pl_tasks p)"
  shows "pool_wf (p\<lparr>pl_tasks := (pl_tasks p)[i := fst (assert_execution (pl_tasks p ! i))]\<rparr>)"
proof -
  have "tk_ok (pl_tasks p ! i)" using wf i by (simp add: pool_wf_def)
  note k = task_step_keeps(2) [OF this]
  from k show ?thesis
    using wf by (intro pool_wf_task [OF wf i, where cs = "pl_clients p"]) (auto simp: pool_wf_def)
qed

lemma pool_wf_new_task:
  assumes wf: "pool_wf p"
  shows "pool_wf (pool_add_task ctr p)" (is "pool_wf ?p")
proof -
  have "pool_held ?p = pool_held p" by (simp add: pool_add_task_def pool_held_def pool_active_def)
  moreover have "waiting_tasks ?p = waiting_tasks p"
    by (auto simp: pool_add_task_def waiting_tasks_def task_new_def tk_waiting_def nth_append less_Suc_eq split: if_splits)
  moreover have "client_wf ?p c" if "client_wf p c" for c
    using that by (cases c) (auto simp: pool_add_task_def nth_append)
  moreover have "tk_ok (fst (task_new ctr))" by (simp add: task_new_def tk_ok_def)
  ultimately show ?thesis using wf by (auto simp: pool_wf_def) (auto simp: pool_add_task_def)
qed

lemma pool_wf_init: "pool_wf (pool_init n)"
  by (auto simp: pool_wf_def pool_init_def pool_held_def pool_active_def th_items_def qt_new_def sq_new_def th_wf_def waiting_tasks_def)

lemma pool_wf_worker: "pool_wf p \<Longrightarrow> worker_step p p' \<Longrightarrow> pool_wf p'"
  by (auto elim!: worker_stepE intro: pool_wf_loop pool_wf_finish)

lemma pool_wf_step: "pool_wf p \<Longrightarrow> pool_step True p p' \<Longrightarrow> pool_wf p'"
  by (auto elim!: pool_stepE intro: pool_wf_worker pool_wf_client pool_wf_stop pool_wf_collect pool_wf_new_task)

lemma pool_wf_reachable: "pool_reachable True n p \<Longrightarrow> pool_wf p"
  by (induction rule: pool_reachable.induct) (auto intro: pool_wf_init pool_wf_step)

lemma worker_steps_wf: "worker_step\<^sup>*\<^sup>* p p' \<Longrightarrow> pool_wf p \<Longrightarrow> pool_wf p'"
  by (induction rule: rtranclp_induct) (auto intro: pool_wf_worker)

text \<open>
  C23: as long as no two clients enqueue the same task object at the same time, then in every state a
  pool can reach, whatever the interleaving of the steps of its threads and clients and whether or not it is
  being stopped, a task is in exactly one place from the moment a client marked it until its execution
  ends, with that client, in one queue or in one thread, and nowhere otherwise: no task is lost, and none
  is queued or run twice at the same time.
\<close>

theorem pool_tasks_unique:
  assumes "pool_reachable True n p"
  shows "distinct (pool_held p) \<and>
    (\<forall>i < length (pl_tasks p). i \<in> set (pool_held p) \<longleftrightarrow>
      tk_init (pl_tasks p ! i) \<and> \<not> tk_completed (pl_tasks p ! i))"
  using pool_wf_reachable [OF assms] by (auto simp: pool_wf_def waiting_tasks_def tk_waiting_def)

definition th_load :: "nat queue_thread \<Rightarrow> nat" where
  "th_load t = 3 * length (sq_items (qt_queue t)) +
     (case qt_state t of Running _ \<Rightarrow> 3 | Testing \<Rightarrow> 2 | Dequeuing \<Rightarrow> 1 | Stopped \<Rightarrow> 0)"

definition pool_load :: "pool \<Rightarrow> nat" where
  "pool_load p = sum_list (map th_load (pl_threads p))"

lemma sum_list_map_update:
  fixes f :: "'a \<Rightarrow> nat"
  shows "q < length xs \<Longrightarrow> sum_list (map f (xs[q := x])) + f (xs ! q) = sum_list (map f xs) + f x"
  by (induction xs arbitrary: q) (auto split: nat.splits)

lemma pool_load_less:
  assumes "q < length (pl_threads p)" and "th_load t < th_load (pl_threads p ! q)" and "pl_threads p' = (pl_threads p)[q := t]"
  shows "pool_load p' < pool_load p"
  using sum_list_map_update [OF assms(1), of th_load t] assms(2,3) by (simp add: pool_load_def)

lemma worker_step_load: "worker_step p p' \<Longrightarrow> pool_load p' < pool_load p"
  by (auto elim!: worker_stepE loop_stepE intro!: pool_load_less
      simp: th_load_def qt_loop_def sq_dequeue_def split: thread_state.splits list.splits if_splits)

definition pool_running :: "pool \<Rightarrow> bool" where
  \<comment> \<open>no call of \<^verbatim>\<open>enqueue_task\<close> is under way and no stop was requested\<close>
  "pool_running p \<longleftrightarrow> pl_clients p = [] \<and> (\<forall>t \<in> set (pl_threads p). \<not> qt_stop t)"

lemma worker_step_running: "worker_step p p' \<Longrightarrow> pool_running p \<Longrightarrow> pool_running p'"
proof (erule worker_stepE, erule loop_stepE)
  fix q t assume "pool_running p" "p' = p\<lparr>pl_threads := (pl_threads p)[q := t]\<rparr>"
    "q < length (pl_threads p)" "qt_loop (pl_threads p ! q) = Some t"
  moreover from this have "qt_stop t = qt_stop (pl_threads p ! q)"
    by (auto simp: qt_loop_def split: thread_state.splits option.splits)
  ultimately show "pool_running p'" using all_update [of "pl_threads p" "\<lambda>t. \<not> qt_stop t" t]
    by (simp add: pool_running_def)
qed (auto simp: pool_running_def dest!: set_update_subset_insert [THEN subsetD])

lemma worker_steps_running: "worker_step\<^sup>*\<^sup>* p p' \<Longrightarrow> pool_running p \<Longrightarrow> pool_running p'"
  by (induction rule: rtranclp_induct) (auto intro: worker_step_running)

lemma waiting_behind_body:
  assumes wf: "pool_wf p" and run: "pool_running p" and stuck: "\<nexists>p'. loop_step p p'" and i: "i \<in> set (pool_held p)"
  shows "\<exists>t \<in> set (pl_threads p). \<exists>j. qt_state t = Running j \<and> i \<in> set (th_items t)"
proof -
  obtain t where t: "t \<in> set (pl_threads p)" "i \<in> set (th_items t)"
    using i run by (auto simp: pool_held_def pool_active_def pool_running_def)
  then obtain q where q: "q < length (pl_threads p)" "t = pl_threads p ! q" by (metis in_set_conv_nth)
  have th: "th_wf t" "\<not> qt_stop t" using wf run t(1) by (auto simp: pool_wf_def pool_running_def)
  have "qt_loop t = None" using stuck loop_step.loop [OF q(1)] q(2) by (cases "qt_loop t") auto
  then have "\<exists>j. qt_state t = Running j" using t(2) th
    by (auto simp: qt_loop_def th_items_def th_wf_def sq_dequeue_def split: thread_state.splits list.splits)
  then show ?thesis using t by blast
qed

text \<open>
  C22: take a pool whose clients kept to the discipline of the last property, with no call of
  \<^verbatim>\<open>enqueue_task\<close> under way and no stop requested. Whatever it was used for, its threads cannot run forever,
  since every step of a thread brings the pool closer to rest, and they cannot get stuck outside the
  bodies of tasks: when no thread can step except by ending the body it runs, every task that was enqueued
  has been executed, so that every wait for it returns, or it is the one some thread is running or queued
  behind that one. In particular all tasks are executed if the bodies end.
\<close>

theorem pool_completes_all_tasks:
  assumes "pool_reachable True n p" and "pool_running p" and "worker_step\<^sup>*\<^sup>* p p'"
  shows "(\<forall>p''. worker_step p' p'' \<longrightarrow> pool_load p'' < pool_load p') \<and>
    ((\<nexists>p''. loop_step p' p'') \<longrightarrow>
      (\<forall>i < length (pl_tasks p'). tk_init (pl_tasks p' ! i) \<longrightarrow>
        tk_completed (pl_tasks p' ! i) \<and> snd (assert_execution (pl_tasks p' ! i)) = tk_error (pl_tasks p' ! i) \<or>
        (\<exists>t \<in> set (pl_threads p'). \<exists>j. qt_state t = Running j \<and> (i = j \<or> i \<in> set (sq_items (qt_queue t)))))) \<and>
    ((\<nexists>p''. worker_step p' p'') \<longrightarrow>
      (\<forall>i < length (pl_tasks p'). tk_init (pl_tasks p' ! i) \<longrightarrow>
        tk_completed (pl_tasks p' ! i) \<and> snd (assert_execution (pl_tasks p' ! i)) = tk_error (pl_tasks p' ! i)))"
proof -
  have wf: "pool_wf p'" using worker_steps_wf [OF assms(3) pool_wf_reachable [OF assms(1)]] .
  have run: "pool_running p'" using worker_steps_running [OF assms(3,2)] .
  have ended: "tk_completed (pl_tasks p' ! i) \<and> snd (assert_execution (pl_tasks p' ! i)) = tk_error (pl_tasks p' ! i) \<or>
      i \<in> set (pool_held p')" if "i < length (pl_tasks p')" "tk_init (pl_tasks p' ! i)" for i
    using that wf by (auto simp: pool_wf_def waiting_tasks_def tk_waiting_def tk_ok_def assert_execution_def check_error_def)
  have behind: "\<exists>t \<in> set (pl_threads p'). \<exists>j. qt_state t = Running j \<and> (i = j \<or> i \<in> set (sq_items (qt_queue t)))"
    if "\<nexists>p''. loop_step p' p''" "i \<in> set (pool_held p')" for i
    using waiting_behind_body [OF wf run that] by (fastforce simp: th_items_def)
  have rest: "i \<notin> set (pool_held p')" if stuck: "\<nexists>p''. worker_step p' p''" for i
  proof
    assume "i \<in> set (pool_held p')"
    moreover have "\<nexists>p''. loop_step p' p''" using stuck worker_step.loop by blast
    ultimately obtain t j where "t \<in> set (pl_threads p')" "qt_state t = Running j" using behind by blast
    then show False using stuck worker_step.finish_task by (metis in_set_conv_nth)
  qed
  show ?thesis using worker_step_load ended behind rest by blast
qed

text \<open>
  The discipline is needed: nothing in the code keeps two clients from passing the check with the same
  task before either of them has marked it, and then both push it.
\<close>

lemma pool_clients: "client_step d p p' \<Longrightarrow> pool_reachable d n p \<Longrightarrow> pool_reachable d n p'"
  by (blast intro: pool_reachable.step pool_step.client)

lemma pool_clientsI: "pool_reachable d n p \<Longrightarrow> client_step d p p1 \<Longrightarrow> p1 = p' \<Longrightarrow> pool_reachable d n p'"
  by (blast intro: pool_clients)

theorem enqueue_race_queues_twice:
  "\<exists>p. pool_reachable False 1 p \<and> pool_active p = [0, 0]"
proof -
  let ?t = "fst (task_new 0)" let ?m = "mark_execution 0 0 False ?t"
  let ?p = "\<lambda>ts cs. pool_init 1\<lparr>pl_tasks := [ts], pl_clients := cs\<rparr>"
  have "pool_reachable False 1 (pool_add_task 0 (pool_init 1))"
    by (blast intro: pool_reachable.intros pool_step.new_task)
  then have "pool_reachable False 1 (?p ?t [])" by (simp add: pool_add_task_def pool_init_def)
  then have "pool_reachable False 1 (?p ?t [Chosen 0 0])"
    by (rule pool_clientsI [OF _ client_step.choose [of 0 "?p ?t []" 0 False]])
      (simp_all add: pool_init_def)
  then have "pool_reachable False 1 (?p ?t [Chosen 0 0, Chosen 0 0])"
    by (rule pool_clientsI [OF _ client_step.choose [of 0 "?p ?t [Chosen 0 0]" 0 False]])
      (simp_all add: pool_init_def)
  then have "pool_reachable False 1 (?p ?t [Checked 0 0 False, Chosen 0 0])"
    by (rule pool_clientsI [OF _ client_step.check [of "?p ?t [Chosen 0 0, Chosen 0 0]" "[]" 0 0 "[Chosen 0 0]" ?t False]])
      (simp_all add: check_execution_def task_new_def)
  then have "pool_reachable False 1 (?p ?t [Checked 0 0 False, Checked 0 0 False])"
    by (rule pool_clientsI [OF _ client_step.check [of "?p ?t [Checked 0 0 False, Chosen 0 0]" "[Checked 0 0 False]" 0 0 "[]" ?t False]])
      (simp_all add: check_execution_def task_new_def)
  then have "pool_reachable False 1 (?p ?m [Marked 0 0, Checked 0 0 False])"
    by (rule pool_clientsI [OF _ client_step.mark [of "?p ?t [Checked 0 0 False, Checked 0 0 False]" "[]" 0 0 False "[Checked 0 0 False]" False 0]])
      (simp_all)
  then have "pool_reachable False 1 (?p ?m [Marked 0 0, Marked 0 0])"
    by (rule pool_clientsI [OF _ client_step.mark [of "?p ?m [Marked 0 0, Checked 0 0 False]" "[Marked 0 0]" 0 0 False "[]" False 0]])
      (simp_all add: mark_execution_def)
  then have "pool_reachable False 1 (?p ?m [Marked 0 0]\<lparr>pl_threads := [qt_enqueue 0 qt_new]\<rparr>)"
    by (rule pool_clientsI [OF _ client_step.push [of "?p ?m [Marked 0 0, Marked 0 0]" "[]" 0 0 "[Marked 0 0]" False]])
      (simp_all add: pool_init_def)
  then have "pool_reachable False 1 (?p ?m []\<lparr>pl_threads := [qt_enqueue 0 (qt_enqueue 0 qt_new)]\<rparr>)"
    by (rule pool_clientsI [OF _ client_step.push [of "?p ?m [Marked 0 0]\<lparr>pl_threads := [qt_enqueue 0 qt_new]\<rparr>" "[]" 0 0 "[]" False]])
      (simp_all)
  moreover have "pool_active (?p ?m []\<lparr>pl_threads := [qt_enqueue 0 (qt_enqueue 0 qt_new)]\<rparr>) = [0, 0]"
    by (simp add: pool_active_def th_items_def qt_enqueue_def sq_enqueue_def qt_new_def sq_new_def)
  ultimately show ?thesis by blast
qed

text \<open>An example: one task in a pool of two threads, enqueued, taken and finished.\<close>

definition demo_task :: task where
  "demo_task = \<lparr>tk_id = 1, tk_completed = False, tk_error = None, tk_queue_idx = 0, tk_last = 0, tk_init = True\<rparr>"

definition demo_pool :: pool where
  "demo_pool = \<lparr>pl_threads = [qt_enqueue 0 qt_new, qt_new], pl_tasks = [demo_task], pl_clients = []\<rparr>"

definition demo_done :: pool where
  "demo_done = demo_pool\<lparr>pl_threads := [qt_new\<lparr>qt_state := Dequeuing\<rparr>, qt_new\<lparr>qt_state := Dequeuing\<rparr>],
     pl_tasks := [execute None demo_task]\<rparr>"

lemmas demo_pool_defs = demo_pool_def demo_done_def demo_task_def qt_enqueue_def sq_enqueue_def qt_new_def sq_new_def

lemma client_steps_reachable: "(client_step d)\<^sup>*\<^sup>* p p' \<Longrightarrow> pool_reachable d n p \<Longrightarrow> pool_reachable d n p'"
  by (induction rule: rtranclp_induct) (auto intro: pool_clients)

lemma demo_pool_reachable: "pool_reachable d 2 demo_pool"
proof -
  let ?p = "pool_add_task 0 (pool_init 2)"
  have "get_available_queue (pl_threads ?p) = 0"
    by (simp add: get_available_queue_def pool_add_task_def pool_init_def task_new_def sq_queue_size_def qt_new_def sq_new_def numeral_2_eq_2)
  then have "demo_pool = fst (enqueue_task 1 0 ?p)"
    by (simp add: enqueue_task_def before_execution_def pool_add_task_def pool_init_def task_new_def demo_pool_defs numeral_2_eq_2)
  moreover have "(client_step d)\<^sup>*\<^sup>* ?p (fst (enqueue_task 1 0 ?p))"
    by (rule uninterrupted_enqueue) (auto simp: pool_add_task_def pool_init_def)
  ultimately show ?thesis using client_steps_reachable pool_reachable.intros pool_step.new_task by metis
qed

lemma demo_loop:
  "q < length (pl_threads p) \<Longrightarrow> qt_loop (pl_threads p ! q) = Some t \<Longrightarrow> p' = p\<lparr>pl_threads := (pl_threads p)[q := t]\<rparr> \<Longrightarrow>
   worker_step p p'"
  by (simp add: worker_step.loop loop_step.loop)

lemma demo_pool_runs: "worker_step\<^sup>*\<^sup>* demo_pool demo_done"
proof -
  let ?d = "qt_new\<lparr>qt_state := Dequeuing\<rparr>"
  let ?p1 = "demo_pool\<lparr>pl_threads := [qt_enqueue 0 ?d, qt_new]\<rparr>"
  let ?p2 = "demo_pool\<lparr>pl_threads := [qt_enqueue 0 ?d, ?d]\<rparr>"
  let ?p3 = "demo_pool\<lparr>pl_threads := [qt_new\<lparr>qt_state := Running 0\<rparr>, ?d]\<rparr>"
  let ?p4 = "demo_pool\<lparr>pl_threads := [qt_new, ?d], pl_tasks := [execute None demo_task]\<rparr>"
  have 1: "worker_step demo_pool ?p1"
    by (rule demo_loop [of 0 _ "qt_enqueue 0 ?d"]) (simp_all add: demo_pool_defs qt_loop_def)
  have 2: "worker_step ?p1 ?p2"
    by (rule demo_loop [of 1 _ ?d]) (simp_all add: demo_pool_defs qt_loop_def)
  have 3: "worker_step ?p2 ?p3"
    by (rule demo_loop [of 0 _ "qt_new\<lparr>qt_state := Running 0\<rparr>"])
      (simp_all add: demo_pool_defs qt_loop_def sq_dequeue_def)
  have 4: "worker_step ?p3 ?p4"
    using worker_step.finish_task [of 0 ?p3 0 None] by (simp add: demo_pool_defs)
  have 5: "worker_step ?p4 demo_done"
    by (rule demo_loop [of 0 _ ?d]) (simp_all add: demo_pool_defs qt_loop_def)
  show ?thesis
    by (rule rtranclp.rtrancl_into_rtrancl, rule rtranclp.rtrancl_into_rtrancl, rule rtranclp.rtrancl_into_rtrancl,
        rule rtranclp.rtrancl_into_rtrancl, rule rtranclp.rtrancl_into_rtrancl, rule rtranclp.rtrancl_refl)
      (rule 1 2 3 4 5)+
qed

theorem pool_tasks_unique_witness:
  "0 \<in> set (pool_held demo_pool) \<and> distinct (pool_held demo_pool)"
  using pool_tasks_unique [OF demo_pool_reachable] by (simp add: demo_pool_defs)

theorem pool_completes_all_tasks_witness:
  "pool_running demo_pool \<and> (\<nexists>p. worker_step demo_done p) \<and> tk_completed (pl_tasks demo_done ! 0)"
proof -
  have "qt_loop (pl_threads demo_done ! q) = None" "qt_state (pl_threads demo_done ! q) = Dequeuing"
    if "q < length (pl_threads demo_done)" for q
    using that by (auto simp: demo_pool_defs qt_loop_def sq_dequeue_def less_Suc_eq)
  then have "\<nexists>p. worker_step demo_done p" by (auto elim!: worker_stepE loop_stepE)
  moreover have "0 < length (pl_tasks demo_done)" "tk_init (pl_tasks demo_done ! 0)"
    by (simp_all add: demo_pool_defs execute_def after_execution_def)
  moreover have "pool_running demo_pool" by (simp add: pool_running_def demo_pool_defs)
  ultimately show ?thesis
    using pool_completes_all_tasks [OF demo_pool_reachable _ demo_pool_runs] by auto
qed

end
