(* ===== verification/OntMessage.thy ===== *)
theory OntMessage
  imports BtcMessage TxMessages
begin

text \<open>
  The Ontology wire format of \<^verbatim>\<open>src/lib/libutils/utils/protocols/ontology\<close>: the scan that finds the
  end of a transaction and its id, the block header with its lists of bookkeepers and signatures
  (\<open>OntBlockMessage\<close>) and the compressed block (\<open>BxOntBlockMessage\<close>).

  As for Bitcoin the scan is specified against a grammar: a datatype per part of the format with
  its serializer.
\<close>

section \<open>ont_consts.h and ont_message_helper.h\<close>

definition ONT_TX_DEPLOY_TYPE_INDICATOR :: byte where "ONT_TX_DEPLOY_TYPE_INDICATOR = 0xD0"
definition ONT_TX_INVOKE_TYPE_INDICATOR :: byte where "ONT_TX_INVOKE_TYPE_INDICATOR = 0xD1"
definition ONT_HDR_COMMON_OFF :: nat where "ONT_HDR_COMMON_OFF = 24"
definition ONT_TX_VERSION_SIZE :: nat where "ONT_TX_VERSION_SIZE = 4"
definition ONT_PREV_BLOCK_OFF :: nat where "ONT_PREV_BLOCK_OFF = ONT_HDR_COMMON_OFF + ONT_TX_VERSION_SIZE"
definition ONT_BLOCK_TIME_HEIGHT_CONS_DATA_LEN :: nat where "ONT_BLOCK_TIME_HEIGHT_CONS_DATA_LEN = 16"
definition ONT_BLOCK_NEXT_BOOKKEEPER_LEN :: nat where "ONT_BLOCK_NEXT_BOOKKEEPER_LEN = 20"
definition ONT_BOOKKEEPER_LEN :: nat where "ONT_BOOKKEEPER_LEN = 33"
definition ONT_DEFAULT_TX_COUNT :: nat where "ONT_DEFAULT_TX_COUNT = 10000"
definition ONT_DEFAULT_TX_SIZE :: nat where "ONT_DEFAULT_TX_SIZE = 62"
definition ONT_BLOCK_LENGTH_OFFSET :: nat where "ONT_BLOCK_LENGTH_OFFSET = 16"
definition ONT_BX_MERKLE_ROOT_OFFSET :: nat where "ONT_BX_MERKLE_ROOT_OFFSET = 9"

lemmas ont_consts =
  ONT_TX_DEPLOY_TYPE_INDICATOR_def ONT_TX_INVOKE_TYPE_INDICATOR_def ONT_HDR_COMMON_OFF_def ONT_TX_VERSION_SIZE_def
  ONT_PREV_BLOCK_OFF_def ONT_BLOCK_TIME_HEIGHT_CONS_DATA_LEN_def ONT_BLOCK_NEXT_BOOKKEEPER_LEN_def
  ONT_BOOKKEEPER_LEN_def ONT_DEFAULT_TX_COUNT_def ONT_DEFAULT_TX_SIZE_def ONT_BLOCK_LENGTH_OFFSET_def
  ONT_BX_MERKLE_ROOT_OFFSET_def SHA256_BINARY_SIZE_def

definition ont_skip_var :: "reader \<Rightarrow> nat \<Rightarrow> nat res" where
  \<comment> \<open>\<^verbatim>\<open>get_varint\<close> followed by \<^verbatim>\<open>offset += var_size\<close>\<close>
  "ont_skip_var rd offset = rbind (get_varint rd offset) (\<lambda>(var_size, offset). Inr (u64 (offset + var_size)))"

definition ont_get_tx_type :: "reader \<Rightarrow> nat \<Rightarrow> (byte \<times> nat) res" where
  \<comment> \<open>the type of the transaction and the offset behind its attributes\<close>
  "ont_get_tx_type rd offset =
     (let offset = u64 (offset + 1)
      in rbind (rd offset 1) (\<lambda>bs.
         let tx_type = hd bs; offset = u64 (offset + 41)
         in rbind
             (if tx_type = ONT_TX_DEPLOY_TYPE_INDICATOR then
                rbind (get_varint rd offset) (\<lambda>(var_size, offset).
                rbind (ont_skip_var rd (u64 (offset + (var_size + 1)))) (\<lambda>offset.
                rbind (ont_skip_var rd offset) (\<lambda>offset.
                rbind (ont_skip_var rd offset) (\<lambda>offset.
                rbind (ont_skip_var rd offset) (\<lambda>offset.
                  ont_skip_var rd offset)))))
              else if tx_type = ONT_TX_INVOKE_TYPE_INDICATOR then ont_skip_var rd offset
              else Inr offset) (\<lambda>offset.
            rbind (get_varint rd offset) (\<lambda>(_, offset). Inr (tx_type, offset)))))"

definition ont_get_prev_block_hash :: "buffer_view \<Rightarrow> sha256 res" where
  "ont_get_prev_block_hash v = rbind (sha_read v ONT_PREV_BLOCK_OFF) (\<lambda>sha. Inr (sha_reverse sha))"

definition ont_get_block_size :: "buffer_view \<Rightarrow> nat \<Rightarrow> nat res" where
  "ont_get_block_size v offset =
     rbind (get_le (bv_read v) 4 (u64 (offset + ONT_BLOCK_LENGTH_OFFSET))) (\<lambda>(block_size, _).
       Inr (u32 (block_size + ONT_HDR_COMMON_OFF)))"

definition ont_get_merkle_root :: "buffer_view \<Rightarrow> buffer_view res" where
  \<comment> \<open>the subtraction is one of \<^verbatim>\<open>uint32_t\<close>\<close>
  "ont_get_merkle_root v =
     rbind (ont_get_block_size v 0) (\<lambda>block_size.
       Inr (bv_sub v SHA256_BINARY_SIZE (u32 (block_size + (2 ^ 32 - SHA256_BINARY_SIZE)))))"

definition ont_generate_block_hash :: "(byte list \<Rightarrow> byte list) \<Rightarrow> buffer_view \<Rightarrow> nat \<Rightarrow> sha256 res" where
  "ont_generate_block_hash H v header_offset =
     double_sha256 H v ONT_HDR_COMMON_OFF (u64_sub header_offset ONT_HDR_COMMON_OFF)"

definition ont_get_tx_id :: "(byte list \<Rightarrow> byte list) \<Rightarrow> buffer_view \<Rightarrow> nat \<Rightarrow> sha256 res" where
  \<comment> \<open>the argument \<^verbatim>\<open>end\<close> is overwritten: the signatures do not count\<close>
  "ont_get_tx_id H v offset =
     rbind (ont_get_tx_type (bv_read v) offset) (\<lambda>(_, fin). double_sha256 H v offset (u64_sub fin offset))"

section \<open>OntBlockMessage\<close>

record ont_block_msg =
  ob_buffer :: buffer_view
  ob_header_offset :: nat
  ob_tx_count_offset :: nat

fun ont_skip_bookkeepers :: "reader \<Rightarrow> nat \<Rightarrow> nat \<Rightarrow> nat res" where
  "ont_skip_bookkeepers rd 0 offset = Inr offset"
| "ont_skip_bookkeepers rd (Suc n) offset =
     rbind (get_varint rd offset) (\<lambda>(_, offset). ont_skip_bookkeepers rd n (u64 (offset + ONT_BOOKKEEPER_LEN)))"

fun ont_skip_vars :: "reader \<Rightarrow> nat \<Rightarrow> nat \<Rightarrow> nat res" where
  "ont_skip_vars rd 0 offset = Inr offset"
| "ont_skip_vars rd (Suc n) offset = rbind (ont_skip_var rd offset) (ont_skip_vars rd n)"

definition ont_block_message :: "buffer_view \<Rightarrow> ont_block_msg res" where
  "ont_block_message v =
     (let rd = bv_read v;
          header_offset = ONT_HDR_COMMON_OFF + 4 + SHA256_BINARY_SIZE * 3 + ONT_BLOCK_TIME_HEIGHT_CONS_DATA_LEN
      in rbind (get_varint rd header_offset) (\<lambda>(consensus_payload_length, header_offset).
         let header_offset = u64 (header_offset + (consensus_payload_length + ONT_BLOCK_NEXT_BOOKKEEPER_LEN))
         in rbind (get_varint rd header_offset) (\<lambda>(bookkeepers_length, tx_count_offset).
            rbind (ont_skip_bookkeepers rd bookkeepers_length tx_count_offset) (\<lambda>tx_count_offset.
            rbind (get_varint rd tx_count_offset) (\<lambda>(sig_data_length, tx_count_offset).
            rbind (ont_skip_vars rd sig_data_length tx_count_offset) (\<lambda>tx_count_offset.
              Inr \<lparr>ob_buffer = v, ob_header_offset = header_offset, ob_tx_count_offset = tx_count_offset\<rparr>))))))"

fun ont_skip_sigs :: "reader \<Rightarrow> nat \<Rightarrow> nat \<Rightarrow> nat res" where
  "ont_skip_sigs rd 0 offset = Inr offset"
| "ont_skip_sigs rd (Suc n) offset =
     rbind (get_varint rd offset) (\<lambda>(invoke_length, offset).
     rbind (get_varint rd (u64 (offset + invoke_length))) (\<lambda>(verify_length, offset).
       ont_skip_sigs rd n (u64 (offset + verify_length))))"

definition ont_get_next_tx_offset :: "reader \<Rightarrow> nat \<Rightarrow> nat res" where
  "ont_get_next_tx_offset rd offset =
     rbind (ont_get_tx_type rd offset) (\<lambda>(_, offset).
     rbind (get_varint rd offset) (\<lambda>(sig_length, offset). ont_skip_sigs rd sig_length offset))"

definition ont_get_txn_count :: "ont_block_msg \<Rightarrow> (nat \<times> nat) res" where
  "ont_get_txn_count m = get_le (bv_read (ob_buffer m)) 4 (ob_tx_count_offset m)"

definition ont_block_hash :: "(byte list \<Rightarrow> byte list) \<Rightarrow> ont_block_msg \<Rightarrow> sha256 res" where
  "ont_block_hash H m = ont_generate_block_hash H (ob_buffer m) (ob_header_offset m)"

definition ont_prev_block_hash :: "ont_block_msg \<Rightarrow> sha256 res" where
  "ont_prev_block_hash m = ont_get_prev_block_hash (ob_buffer m)"

definition ont_merkle_root :: "ont_block_msg \<Rightarrow> buffer_view res" where
  "ont_merkle_root m = ont_get_merkle_root (ob_buffer m)"

section \<open>BxOntBlockMessage\<close>

record bx_ont_block =
  bxo_view :: buffer_view
  bxo_sids_offset :: nat
  bxo_block :: ont_block_msg

definition ont_offset_diff :: nat where
  "ont_offset_diff = 8 + 1 + SHA256_BINARY_SIZE"

definition bx_ont_block_message :: "buffer_view \<Rightarrow> nat \<Rightarrow> bx_ont_block res" where
  "bx_ont_block_message v short_ids_offset =
     rbind (ont_block_message (bv_sub v (u64_sub short_ids_offset ont_offset_diff) ont_offset_diff)) (\<lambda>m.
       Inr \<lparr>bxo_view = v, bxo_sids_offset = short_ids_offset, bxo_block = m\<rparr>)"

definition bx_ont_is_short_transaction :: "bx_ont_block \<Rightarrow> nat \<Rightarrow> bool res" where
  "bx_ont_is_short_transaction m offset =
     rbind (bv_index (bxo_view m) offset) (\<lambda>b. Inr (b = BTC_SHORT_ID_INDICATOR))"

definition bx_ont_get_next_tx_offset :: "bx_ont_block \<Rightarrow> nat \<Rightarrow> (nat \<times> bool) res" where
  "bx_ont_get_next_tx_offset m offset =
     rbind (bx_ont_is_short_transaction m offset) (\<lambda>is_short.
       if is_short then Inr (u64 (offset + 1), True)
       else rbind (ont_get_next_tx_offset (bv_read (ob_buffer (bxo_block m))) (u64_sub offset ont_offset_diff)) (\<lambda>offset.
              Inr (u64 (offset + ont_offset_diff), False)))"

definition bx_ont_get_tx_count :: "bx_ont_block \<Rightarrow> (nat \<times> nat) res" where
  "bx_ont_get_tx_count m =
     rbind (ont_get_txn_count (bxo_block m)) (\<lambda>(tx_count, offset). Inr (tx_count, u64 (ont_offset_diff + offset)))"

definition bx_ont_deserialize_short_ids :: "bx_ont_block \<Rightarrow> nat list res" where
  "bx_ont_deserialize_short_ids m =
     rbind (get_le (bv_read (bxo_view m)) 4 (bxo_sids_offset m)) (\<lambda>(short_ids_count, offset).
       if bv_size (bxo_view m) < u64 (offset + 4 * short_ids_count) then Inl RuntimeError
       else read_short_ids (bv_read (bxo_view m)) short_ids_count offset)"

definition bx_ont_get_original_block_size :: "buffer_view \<Rightarrow> nat res" where
  "bx_ont_get_original_block_size v = ont_get_block_size v ont_offset_diff"

definition bx_ont_merkle_root :: "bx_ont_block \<Rightarrow> buffer_view" where
  "bx_ont_merkle_root m = bv_sub (bxo_view m) SHA256_BINARY_SIZE ONT_BX_MERKLE_ROOT_OFFSET"

section \<open>OntMessageParser and the validators that accept everything\<close>

definition ont_parse_transactions_message ::
  "(byte list \<Rightarrow> byte list) \<Rightarrow> buffer_view \<Rightarrow> parsed_tx list res" where
  "ont_parse_transactions_message H v =
     (let tx_contents_len = u64_sub (bv_size v) ONT_HDR_COMMON_OFF
      in rbind (ont_get_tx_id H v ONT_HDR_COMMON_OFF) (\<lambda>tx_hash.
           Inr [\<lparr>ptx_hash = sha_binary tx_hash, ptx_offset = ONT_HDR_COMMON_OFF, ptx_length = tx_contents_len\<rparr>]))"

definition btc_transaction_validation :: validator where
  "btc_transaction_validation contents min_fee current_time nonces age factor =
     Inr (set_bit TX_VALIDATION_STATUS_VALID_TX 0, nonces)"

definition ont_transaction_validation :: validator where
  "ont_transaction_validation contents min_fee current_time nonces age factor =
     Inr (set_bit TX_VALIDATION_STATUS_VALID_TX 0, nonces)"

section \<open>The grammar of transactions and block headers\<close>

datatype ont_payload =
    Ont_Deploy witem byte "witem list"
  | Ont_Invoke witem
  | Ont_No_Payload

record ont_tx =
  ot_version :: byte
  ot_type :: byte
  ot_head :: "byte list"
  ot_payload :: ont_payload
  ot_attrs :: "byte list"
  ot_sigs_len :: "byte list"
  ot_sigs :: "(witem \<times> witem) list"

fun ser_payload :: "ont_payload \<Rightarrow> byte list" where
  "ser_payload (Ont_Deploy code storage texts) = ser_item code @ [storage] @ concat (map ser_item texts)"
| "ser_payload (Ont_Invoke code) = ser_item code"
| "ser_payload Ont_No_Payload = []"

fun wf_payload :: "byte \<Rightarrow> ont_payload \<Rightarrow> bool" where
  "wf_payload typ (Ont_Deploy code storage texts) \<longleftrightarrow>
     typ = ONT_TX_DEPLOY_TYPE_INDICATOR \<and> wf_item code \<and> length texts = 5 \<and> list_all wf_item texts"
| "wf_payload typ (Ont_Invoke code) \<longleftrightarrow> typ = ONT_TX_INVOKE_TYPE_INDICATOR \<and> wf_item code"
| "wf_payload typ Ont_No_Payload \<longleftrightarrow> typ \<noteq> ONT_TX_DEPLOY_TYPE_INDICATOR \<and> typ \<noteq> ONT_TX_INVOKE_TYPE_INDICATOR"

definition ser_unsigned :: "ont_tx \<Rightarrow> byte list" where
  "ser_unsigned t = [ot_version t, ot_type t] @ ot_head t @ ser_payload (ot_payload t) @ ot_attrs t"

definition sig_items :: "(witem \<times> witem) list \<Rightarrow> witem list" where
  "sig_items sigs = concat (map (\<lambda>(invoke, verify). [invoke, verify]) sigs)"

definition ser_ont_tx :: "ont_tx \<Rightarrow> byte list" where
  "ser_ont_tx t = ser_unsigned t @ ot_sigs_len t @ concat (map ser_item (sig_items (ot_sigs t)))"

definition wf_ont_tx :: "ont_tx \<Rightarrow> bool" where
  "wf_ont_tx t \<longleftrightarrow> length (ot_head t) = 40 \<and> wf_payload (ot_type t) (ot_payload t) \<and> wf_vi (ot_attrs t) \<and>
     wf_vi (ot_sigs_len t) \<and> vi_val (ot_sigs_len t) = length (ot_sigs t) \<and> list_all wf_item (sig_items (ot_sigs t))"

record ont_hdr =
  oh_front :: "byte list"
  oh_consensus :: witem
  oh_next :: "byte list"
  oh_keepers_len :: "byte list"
  oh_keepers :: "witem list"
  oh_sigs_len :: "byte list"
  oh_sigs :: "witem list"

definition ser_hashed :: "ont_hdr \<Rightarrow> byte list" where
  "ser_hashed h = oh_front h @ ser_item (oh_consensus h) @ oh_next h"

definition ser_ont_hdr :: "ont_hdr \<Rightarrow> byte list" where
  "ser_ont_hdr h = ser_hashed h @ oh_keepers_len h @ concat (map ser_item (oh_keepers h)) @
     oh_sigs_len h @ concat (map ser_item (oh_sigs h))"

definition wf_ont_hdr :: "ont_hdr \<Rightarrow> bool" where
  "wf_ont_hdr h \<longleftrightarrow> length (oh_front h) = 140 \<and> wf_item (oh_consensus h) \<and> length (oh_next h) = 20 \<and>
     wf_vi (oh_keepers_len h) \<and> vi_val (oh_keepers_len h) = length (oh_keepers h) \<and>
     list_all (\<lambda>k. wf_vi (fst k) \<and> length (snd k) = 33) (oh_keepers h) \<and>
     wf_vi (oh_sigs_len h) \<and> vi_val (oh_sigs_len h) = length (oh_sigs h) \<and> list_all wf_item (oh_sigs h)"

lemma ont_skip_vars_eq: "ont_skip_vars rd n off = skip_witness_items rd n off"
  by (induction n arbitrary: off) (auto simp: ont_skip_var_def rbind_assoc split_beta intro!: arg_cong [of _ _ "rbind _"])

lemma ont_skip_sigs_eq: "ont_skip_sigs rd n off = skip_witness_items rd (2 * n) off"
  by (induction n arbitrary: off) (auto simp: split_beta intro!: arg_cong [of _ _ "rbind _"])

lemma ont_skip_five:
  "rbind (ont_skip_var rd a) (\<lambda>a. rbind (ont_skip_var rd a) (\<lambda>a. rbind (ont_skip_var rd a) (\<lambda>a.
     rbind (ont_skip_var rd a) (\<lambda>a. ont_skip_var rd a)))) = skip_witness_items rd 5 a"
proof -
  have "rbind (ont_skip_var rd x) (ont_skip_vars rd 0) = ont_skip_var rd x" for x
    by (cases "ont_skip_var rd x") auto
  then have one: "ont_skip_vars rd (Suc 0) = ont_skip_var rd" by (simp add: fun_eq_iff)
  have more: "ont_skip_vars rd (Suc (Suc n)) = (\<lambda>a. rbind (ont_skip_var rd a) (ont_skip_vars rd (Suc n)))" for n
    by (simp add: fun_eq_iff)
  have five: "5 = Suc (Suc (Suc (Suc (Suc 0))))" by simp
  show ?thesis unfolding ont_skip_vars_eq [symmetric] five by (simp only: more one)
qed

context byte_source
begin

lemma ont_skip_var_at:
  assumes "wf s" and "bytes s = pre @ ser_item w @ post" and "wf_item w"
  shows "ont_skip_var (rd s) (length pre) = Inr (length (pre @ ser_item w))"
  using skip_witness_items_at [OF assms(1), of pre "[w]" post] assms(2,3) ont_skip_vars_eq [of "rd s" 1 "length pre"]
  by (cases "ont_skip_var (rd s) (length pre)") auto

lemma ont_skip_payload_at:
  assumes wf: "wf s" and eq: "bytes s = pre @ ser_payload p @ post" and p: "wf_payload typ p"
  shows "(if typ = ONT_TX_DEPLOY_TYPE_INDICATOR then
       rbind (get_varint (rd s) (length pre)) (\<lambda>(var_size, offset).
         skip_witness_items (rd s) 5 (u64 (offset + (var_size + 1))))
     else if typ = ONT_TX_INVOKE_TYPE_INDICATOR then ont_skip_var (rd s) (length pre)
     else Inr (length pre)) = Inr (length (pre @ ser_payload p))"
proof (cases p)
  case (Ont_Deploy code storage texts)
  let ?q = "pre @ ser_item code @ [storage]"
  have w: "typ = ONT_TX_DEPLOY_TYPE_INDICATOR" "wf_item code" "length texts = 5" "list_all wf_item texts"
    using p Ont_Deploy by simp_all
  have 1: "get_varint (rd s) (length pre) = Inr (length (snd code), length pre + length (fst code))"
    using get_varint_at [OF wf, of pre "fst code"] eq w(2) Ont_Deploy by (simp add: wf_item_def ser_item_def)
  have 2: "u64 (length pre + length (fst code) + (length (snd code) + 1)) = length ?q"
    using off_small [OF wf, of "length ?q"] eq Ont_Deploy by (simp add: ser_item_def add.assoc)
  have "skip_witness_items (rd s) 5 (length ?q) = Inr (length (pre @ ser_payload p))"
    using skip_witness_items_at [OF wf, of ?q texts post] w(3,4) eq Ont_Deploy by simp
  with 1 2 w(1) show ?thesis by (simp only: rbind_simps prod.case simp_thms if_True)
next
  case (Ont_Invoke code)
  then show ?thesis using ont_skip_var_at [OF wf, of pre code post] eq p by (simp add: ont_consts)
next
  case Ont_No_Payload
  then show ?thesis using p by simp
qed

lemma ont_get_tx_type_at:
  assumes wf: "wf s" and t: "wf_ont_tx t" and eq: "bytes s = pre @ ser_unsigned t @ post"
  shows "ont_get_tx_type (rd s) (length pre) = Inr (ot_type t, length (pre @ ser_unsigned t))"
proof -
  let ?p1 = "pre @ [ot_version t]" and ?p2 = "pre @ [ot_version t, ot_type t] @ ot_head t"
  let ?p3 = "?p2 @ ser_payload (ot_payload t)"
  have u: "u64 (length pre + 1) = length ?p1" "u64 (length ?p1 + 41) = length ?p2"
    using off_small [OF wf, of "length ?p1"] off_small [OF wf, of "length ?p2"] eq t
    by (simp_all add: ser_unsigned_def wf_ont_tx_def)
  have 1: "rd s (length ?p1) 1 = Inr [ot_type t]"
    using rd_middle [OF wf, of ?p1 "[ot_type t]" "ot_head t @ ser_payload (ot_payload t) @ ot_attrs t @ post"] eq
    by (simp add: ser_unsigned_def)
  have 2: "wf_payload (ot_type t) (ot_payload t)" "bytes s = ?p2 @ ser_payload (ot_payload t) @ (ot_attrs t @ post)"
    using eq t by (simp_all add: ser_unsigned_def wf_ont_tx_def)
  have 3: "get_varint (rd s) (length ?p3) = Inr (vi_val (ot_attrs t), length (pre @ ser_unsigned t))"
  proof -
    have a: "wf_vi (ot_attrs t)" using t by (simp add: wf_ont_tx_def)
    show ?thesis using get_varint_at [OF wf _ a, of ?p3 post] eq by (simp add: ser_unsigned_def)
  qed
  show ?thesis
    by (simp only: ont_get_tx_type_def Let_def u 1 ont_skip_five rbind_simps list.sel
        ont_skip_payload_at [OF wf 2(2,1)] 3 prod.case)
qed

lemma length_sig_items: "length (sig_items sigs) = 2 * length sigs"
  by (induction sigs) (auto simp: sig_items_def)

lemma ont_get_next_tx_offset_at:
  assumes wf: "wf s" and t: "wf_ont_tx t" and eq: "bytes s = pre @ ser_ont_tx t @ post"
  shows "ont_get_next_tx_offset (rd s) (length pre) = Inr (length pre + length (ser_ont_tx t))"
proof -
  let ?p1 = "pre @ ser_unsigned t" and ?items = "sig_items (ot_sigs t)"
  let ?p2 = "?p1 @ ot_sigs_len t"
  have 1: "ont_get_tx_type (rd s) (length pre) = Inr (ot_type t, length ?p1)"
    using eq by (intro ont_get_tx_type_at [OF wf t, of _ "ot_sigs_len t @ concat (map ser_item ?items) @ post"])
      (simp add: ser_ont_tx_def)
  have 2: "get_varint (rd s) (length ?p1) = Inr (length (ot_sigs t), length ?p2)"
    using get_varint_at [OF wf, of ?p1 "ot_sigs_len t" "concat (map ser_item ?items) @ post"] eq t
    by (simp add: ser_ont_tx_def wf_ont_tx_def)
  have 3: "skip_witness_items (rd s) (2 * length (ot_sigs t)) (length ?p2) = Inr (length ?p2 + length (concat (map ser_item ?items)))"
    using skip_witness_items_at [OF wf, of ?p2 ?items post] eq t
    by (simp add: ser_ont_tx_def wf_ont_tx_def length_sig_items)
  show ?thesis
    by (simp only: ont_get_next_tx_offset_def 1 2 ont_skip_sigs_eq 3 rbind_simps prod.case) (simp add: ser_ont_tx_def)
qed

lemma ont_skip_bookkeepers_at:
  assumes "wf s" and "bytes s = pre @ concat (map ser_item ks) @ post"
    and "list_all (\<lambda>k. wf_vi (fst k) \<and> length (snd k) = 33) ks"
  shows "ont_skip_bookkeepers (rd s) (length ks) (length pre) = Inr (length (pre @ concat (map ser_item ks)))"
  using assms(2,3)
proof (induction ks arbitrary: pre)
  case (Cons k ks)
  have k: "wf_vi (fst k)" "length (snd k) = 33" using Cons.prems(2) by simp_all
  have 1: "get_varint (rd s) (length pre) = Inr (vi_val (fst k), length pre + length (fst k))"
    using get_varint_at [OF assms(1), of pre "fst k"] Cons.prems(1) k by (simp add: ser_item_def)
  have 2: "u64 (length pre + length (fst k) + 33) = length (pre @ ser_item k)"
    using off_small [OF assms(1), of "length (pre @ ser_item k)"] Cons.prems(1) k by (simp add: ser_item_def add.assoc)
  have "ont_skip_bookkeepers (rd s) (length ks) (length (pre @ ser_item k)) =
      Inr (length ((pre @ ser_item k) @ concat (map ser_item ks)))"
    using Cons.prems by (intro Cons.IH) auto
  then show ?case using 1 2 by (simp add: ont_consts)
qed simp

end

lemma ont_block_message_at:
  assumes v: "bv_ok v" and h: "wf_ont_hdr h" and eq: "bv_bytes v = ser_ont_hdr h @ post"
  shows "ont_block_message v =
    Inr \<lparr>ob_buffer = v, ob_header_offset = length (ser_hashed h), ob_tx_count_offset = length (ser_ont_hdr h)\<rparr>"
proof -
  let ?f = "oh_front h" and ?c = "oh_consensus h" and ?k = "concat (map ser_item (oh_keepers h))"
  let ?p1 = "?f @ fst ?c" let ?p2 = "ser_hashed h @ oh_keepers_len h" let ?p3 = "?p2 @ ?k"
  let ?p4 = "?p3 @ oh_sigs_len h"
  have w: "length ?f = 140" "wf_vi (fst ?c)" "vi_val (fst ?c) = length (snd ?c)" "length (oh_next h) = 20"
    using h by (simp_all add: wf_ont_hdr_def wf_item_def)
  have 1: "get_varint (bv_read v) (24 + 4 + 32 * 3 + 16) = Inr (length (snd ?c), length ?p1)"
    using bvs.get_varint_at [OF v, of ?f "fst ?c"] eq w by (simp add: ser_ont_hdr_def ser_hashed_def ser_item_def)
  have 2: "u64 (length ?p1 + (length (snd ?c) + 20)) = length (ser_hashed h)"
    using bvs.off_small [OF v, of "length (ser_hashed h)"] eq w by (simp add: ser_ont_hdr_def ser_hashed_def ser_item_def add.assoc)
  have 3: "get_varint (bv_read v) (length (ser_hashed h)) = Inr (length (oh_keepers h), length ?p2)"
    using bvs.get_varint_at [OF v, of "ser_hashed h" "oh_keepers_len h"] eq h by (simp add: ser_ont_hdr_def wf_ont_hdr_def)
  have 4: "ont_skip_bookkeepers (bv_read v) (length (oh_keepers h)) (length ?p2) = Inr (length ?p3)"
    using h eq by (intro bvs.ont_skip_bookkeepers_at [OF v, where post = "oh_sigs_len h @ concat (map ser_item (oh_sigs h)) @ post"])
      (simp_all add: ser_ont_hdr_def wf_ont_hdr_def)
  have 5: "get_varint (bv_read v) (length ?p3) = Inr (length (oh_sigs h), length ?p4)"
    using bvs.get_varint_at [OF v, of ?p3 "oh_sigs_len h"] eq h by (simp add: ser_ont_hdr_def wf_ont_hdr_def)
  have 6: "skip_witness_items (bv_read v) (length (oh_sigs h)) (length ?p4) = Inr (length (ser_ont_hdr h))"
    using bvs.skip_witness_items_at [OF v, of ?p4 "oh_sigs h" post] eq h by (simp add: ser_ont_hdr_def wf_ont_hdr_def)
  show ?thesis
    by (simp only: ont_block_message_def Let_def ont_consts 1 2 3 4 5 6 ont_skip_vars_eq rbind_simps prod.case)
qed

lemma ont_get_tx_id_at:
  assumes v: "bv_ok v" and t: "wf_ont_tx t" and eq: "bv_bytes v = pre @ ser_ont_tx t @ post"
    and H: "\<And>bs. length (H bs) = 32"
  shows "ont_get_tx_id H v (length pre) = Inr (sha_of_binary (rev (H (H (ser_unsigned t)))))"
proof -
  let ?r = "ot_sigs_len t @ concat (map ser_item (sig_items (ot_sigs t))) @ post"
  have eq2: "bv_bytes v = pre @ ser_unsigned t @ ?r" using eq by (simp add: ser_ont_tx_def)
  have 1: "ont_get_tx_type (bv_read v) (length pre) = Inr (ot_type t, length (pre @ ser_unsigned t))"
    by (rule bvs.ont_get_tx_type_at [OF v t eq2])
  have sm: "length (pre @ ser_unsigned t) < 2 ^ 64" using bvs.bytes_small [OF v] eq2 by simp
  have fit: "length pre + length (ser_unsigned t) \<le> bv_size v"
    using v eq2 length_bv_bytes [of v] by (simp add: bv_ok_def)
  have "u64_sub (length (pre @ ser_unsigned t)) (length pre) = length (ser_unsigned t)"
    using sm by (simp add: u64_sub_id)
  then show ?thesis
    using double_sha256_inside [OF v fit H] by (simp add: ont_get_tx_id_def 1 eq2 slice_middle)
qed

lemma length_ser_ont_tx: "wf_ont_tx t \<Longrightarrow> 43 < length (ser_ont_tx t)"
  using wf_vi_nonempty [of "ot_attrs t"] wf_vi_nonempty [of "ot_sigs_len t"]
  by (simp add: ser_ont_tx_def ser_unsigned_def wf_ont_tx_def del: length_greater_0_conv)

end
