(* ===== verification/CleanupTasks.thy ===== *)
theory CleanupTasks
  imports OntMessage BtcCompression
begin

text \<open>
  The tasks that make the transaction service forget the transactions of a block:
  \<open>BtcBlockCleanupTask\<close>, \<open>OntBlockCleanupTask\<close> and their sub-tasks, which parse the block, and
  \<open>BlockConfirmationCleanupTask\<close>, which parses a confirmation message, of \<^verbatim>\<open>src/lib/libtpe/tpe/task\<close>.

  The sub-tasks append to three vectors of the main task from several threads, and the code has no
  lock around them. The model takes every \<^verbatim>\<open>push_back\<close> as atomic and lets a schedule interleave
  the appends of the sub-tasks in any order; what an unsynchronised \<^verbatim>\<open>push_back\<close> does beyond that is
  undefined behaviour of the language and has no model.
\<close>

section \<open>BtcBlockCleanupSubTask and OntBlockCleanupSubTask\<close>

datatype push = Push_Sid sid | Push_Unknown hash | Push_Hash hash

definition clean_tx :: "tx_service \<Rightarrow> hash \<Rightarrow> push list" where
  \<comment> \<open>the appends of one iteration; the lookup by index does not insert, the hash is known there\<close>
  "clean_tx s sha =
     (if has_short_id_hash s sha
      then map Push_Sid (case ts_sids s sha of None \<Rightarrow> [] | Some xs \<Rightarrow> xs)
      else [Push_Unknown sha]) @ [Push_Hash sha]"

fun clean_txs :: "(nat \<times> nat \<times> nat \<Rightarrow> hash res) \<Rightarrow> tx_service \<Rightarrow> (nat \<times> nat \<times> nat) list \<Rightarrow> push list res" where
  "clean_txs txid s [] = Inr []"
| "clean_txs txid s (off # offs) =
     rbind (txid off) (\<lambda>sha. rbind (clean_txs txid s offs) (\<lambda>ps. Inr (clean_tx s sha @ ps)))"

definition btc_clean_tx_id :: "(byte list \<Rightarrow> byte list) \<Rightarrow> buffer_view \<Rightarrow> nat \<times> nat \<times> nat \<Rightarrow> hash res" where
  "btc_clean_tx_id H v offsets =
     (let (from, witness_offset, to) = offsets
      in rbind (get_tx_id H v from witness_offset to) (\<lambda>sha. Inr (sha_binary sha)))"

definition ont_clean_tx_id :: "(byte list \<Rightarrow> byte list) \<Rightarrow> buffer_view \<Rightarrow> nat \<times> nat \<times> nat \<Rightarrow> hash res" where
  "ont_clean_tx_id H v offsets =
     (let (from, _, to) = offsets in rbind (ont_get_tx_id H v from) (\<lambda>sha. Inr (sha_binary sha)))"

definition btc_clean_sub_execute ::
  "(byte list \<Rightarrow> byte list) \<Rightarrow> tx_service \<Rightarrow> buffer_view \<Rightarrow> (nat \<times> nat \<times> nat) list \<Rightarrow> push list res" where
  "btc_clean_sub_execute H s v = clean_txs (btc_clean_tx_id H v) s"

definition ont_clean_sub_execute ::
  "(byte list \<Rightarrow> byte list) \<Rightarrow> tx_service \<Rightarrow> buffer_view \<Rightarrow> (nat \<times> nat \<times> nat) list \<Rightarrow> push list res" where
  "ont_clean_sub_execute H s v = clean_txs (ont_clean_tx_id H v) s"

section \<open>The shared vectors\<close>

record clean_task =
  bt_sids :: "sid list"
  bt_hashes :: "hash list"
  bt_unknown :: "hash list"
  bt_tx_count :: nat
  bt_removed :: nat
  bt_min_count :: nat

fun do_push :: "push \<Rightarrow> clean_task \<Rightarrow> clean_task" where
  "do_push (Push_Sid i) c = c\<lparr>bt_sids := bt_sids c @ [i]\<rparr>"
| "do_push (Push_Unknown h) c = c\<lparr>bt_unknown := bt_unknown c @ [h]\<rparr>"
| "do_push (Push_Hash h) c = c\<lparr>bt_hashes := bt_hashes c @ [h]\<rparr>"

fun run_pushes :: "nat list \<Rightarrow> push list list \<Rightarrow> clean_task \<Rightarrow> clean_task" where
  \<comment> \<open>the sub-tasks take turns as the schedule says, then each finishes what it has left\<close>
  "run_pushes [] qs c = fold do_push (concat qs) c"
| "run_pushes (i # is) qs c =
     (if i < length qs then
        (case qs ! i of
           [] \<Rightarrow> run_pushes is qs c
         | p # ps \<Rightarrow> run_pushes is (qs[i := ps]) (do_push p c))
      else run_pushes is qs c)"

section \<open>BtcBlockCleanupTask\<close>

definition btc_clean_task_new :: "nat \<Rightarrow> nat \<Rightarrow> clean_task" where
  \<comment> \<open>the constructor leaves \<^verbatim>\<open>_total_content_removed\<close> as the memory was\<close>
  "btc_clean_task_new uninit minimal_tx_count =
     \<lparr>bt_sids = [], bt_hashes = [], bt_unknown = [], bt_tx_count = 0, bt_removed = uninit, bt_min_count = minimal_tx_count\<rparr>"

definition btc_clean_init :: "clean_task \<Rightarrow> clean_task" where
  "btc_clean_init c = c\<lparr>bt_sids := [], bt_hashes := [], bt_unknown := [], bt_tx_count := 0\<rparr>"

fun clean_cut ::
  "(nat \<Rightarrow> (nat \<times> nat \<times> nat \<times> nat) res) \<Rightarrow> nat \<Rightarrow> nat \<Rightarrow> nat \<Rightarrow> nat \<Rightarrow> nat \<Rightarrow> nat \<Rightarrow> (nat \<times> nat \<times> nat) list \<Rightarrow>
   (nat \<times> nat \<times> nat) list list \<Rightarrow> (nat \<times> nat \<times> nat) list list res" where
  \<comment> \<open>the offsets each sub-task is created with; \<open>offsets\<close> are those not yet given to one\<close>
  "clean_cut nxt pool_size bulk_size 0 count offset prev_idx offsets tasks = Inr (tasks @ [offsets])"
| "clean_cut nxt pool_size bulk_size (Suc left) count offset prev_idx offsets tasks =
     (let idx = bulk_idx pool_size bulk_size count
      in rbind (nxt offset) (\<lambda>(offset, off).
         let offsets = offsets @ [off]
         in if prev_idx < idx
            then clean_cut nxt pool_size bulk_size left (count + 1) offset idx [] (tasks @ [offsets])
            else clean_cut nxt pool_size bulk_size left (count + 1) offset idx offsets tasks))"

fun clean_sub_tasks :: "((nat \<times> nat \<times> nat) list \<Rightarrow> push list res) \<Rightarrow> (nat \<times> nat \<times> nat) list list \<Rightarrow> push list list res" where
  \<comment> \<open>the main task waits for the sub-tasks in order: the first exception in that order is thrown\<close>
  "clean_sub_tasks execute [] = Inr []"
| "clean_sub_tasks execute (offs # tasks) =
     rbind (execute offs) (\<lambda>ps. rbind (clean_sub_tasks execute tasks) (\<lambda>qs. Inr (ps # qs)))"

definition btc_clean_next :: "reader \<Rightarrow> nat \<Rightarrow> (nat \<times> nat \<times> nat \<times> nat) res" where
  "btc_clean_next rd from =
     rbind (get_next_tx_offset rd from) (\<lambda>(offset, witness_offset). Inr (offset, from, witness_offset, offset))"

definition btc_clean_execute ::
  "(byte list \<Rightarrow> byte list) \<Rightarrow> tx_service \<Rightarrow> nat \<Rightarrow> nat list \<Rightarrow> clean_task \<Rightarrow> buffer_view \<Rightarrow> clean_task res" where
  "btc_clean_execute H s pool_size sched c v =
     rbind (get_tx_count (bv_read v)) (\<lambda>(tx_count, offset).
     let c = c\<lparr>bt_tx_count := tx_count\<rparr>;
         bulk_size = max (tx_count div pool_size) (max pool_size (bt_min_count c))
     in rbind (clean_cut (btc_clean_next (bv_read v)) pool_size bulk_size tx_count 0 offset 0 [] []) (\<lambda>tasks.
        rbind (clean_sub_tasks (btc_clean_sub_execute H s v) tasks) (\<lambda>qs. Inr (run_pushes sched qs c))))"

definition btc_clean_transactions :: "real \<Rightarrow> tx_service \<Rightarrow> clean_task \<Rightarrow> (tx_service \<times> clean_task) res" where
  "btc_clean_transactions t s c =
     rbind (remove_transactions_by_hashes t s (bt_hashes c)) (\<lambda>(n, s). Inr (s, c\<lparr>bt_removed := n\<rparr>))"

definition btc_clean_block ::
  "(byte list \<Rightarrow> byte list) \<Rightarrow> real \<Rightarrow> tx_service \<Rightarrow> nat \<Rightarrow> nat list \<Rightarrow> clean_task \<Rightarrow> buffer_view \<Rightarrow> (tx_service \<times> clean_task) res" where
  "btc_clean_block H t s pool_size sched c v =
     rbind (btc_clean_execute H s pool_size sched (btc_clean_init c) v) (btc_clean_transactions t s)"

section \<open>OntBlockCleanupTask\<close>

definition ont_clean_task_new :: "nat \<Rightarrow> clean_task" where
  "ont_clean_task_new minimal_tx_count =
     \<lparr>bt_sids = [], bt_hashes = [], bt_unknown = [], bt_tx_count = 0, bt_removed = 0, bt_min_count = minimal_tx_count\<rparr>"

definition ont_clean_init :: "clean_task \<Rightarrow> clean_task" where
  "ont_clean_init c = c\<lparr>bt_sids := [], bt_hashes := [], bt_unknown := [], bt_tx_count := 0, bt_removed := 0\<rparr>"

definition ont_clean_next :: "reader \<Rightarrow> nat \<Rightarrow> (nat \<times> nat \<times> nat \<times> nat) res" where
  "ont_clean_next rd from = rbind (ont_get_next_tx_offset rd from) (\<lambda>offset. Inr (offset, from, 0, offset))"

definition ont_clean_execute ::
  "(byte list \<Rightarrow> byte list) \<Rightarrow> tx_service \<Rightarrow> nat \<Rightarrow> nat list \<Rightarrow> clean_task \<Rightarrow> buffer_view \<Rightarrow> clean_task res" where
  "ont_clean_execute H s pool_size sched c v =
     rbind (ont_block_message v) (\<lambda>msg.
     rbind (ont_get_txn_count msg) (\<lambda>(txn_count, offset).
     let c = c\<lparr>bt_tx_count := txn_count\<rparr>;
         bulk_size = max (txn_count div pool_size) (max pool_size (bt_min_count c))
     in rbind (clean_cut (ont_clean_next (bv_read v)) pool_size bulk_size txn_count 0 offset 0 [] []) (\<lambda>tasks.
        rbind (clean_sub_tasks (ont_clean_sub_execute H s v) tasks) (\<lambda>qs. Inr (run_pushes sched qs c)))))"

definition ont_clean_transactions :: "real \<Rightarrow> tx_service \<Rightarrow> clean_task \<Rightarrow> (tx_service \<times> clean_task) res" where
  "ont_clean_transactions t s c =
     rbind (remove_transactions_by_hashes t s (bt_hashes c)) (\<lambda>(n, s). Inr (s, c\<lparr>bt_removed := n\<rparr>))"

definition ont_clean_block ::
  "(byte list \<Rightarrow> byte list) \<Rightarrow> real \<Rightarrow> tx_service \<Rightarrow> nat \<Rightarrow> nat list \<Rightarrow> clean_task \<Rightarrow> buffer_view \<Rightarrow> (tx_service \<times> clean_task) res" where
  "ont_clean_block H t s pool_size sched c v =
     rbind (ont_clean_execute H s pool_size sched (ont_clean_init c) v) (ont_clean_transactions t s)"

section \<open>BlockConfirmationMessage and BlockConfirmationCleanupTask\<close>

definition parse_block_hash :: "buffer_view \<Rightarrow> (sha256 \<times> nat) res" where
  \<comment> \<open>\<^verbatim>\<open>HEADER_LENGTH\<close>, \<^verbatim>\<open>NETWORK_NUM_LEN\<close> and \<^verbatim>\<open>NODE_ID_LENGTH\<close> are 20, 4 and 16\<close>
  "parse_block_hash v = rbind (sha_read v 20) (\<lambda>sha. Inr (sha, 20 + 4 + SHA256_BINARY_SIZE + 16))"

definition parse_next_tx_hash :: "buffer_view \<Rightarrow> nat \<Rightarrow> (sha256 \<times> nat) res" where
  "parse_next_tx_hash v offset = rbind (sha_read v offset) (\<lambda>sha. Inr (sha, u64 (offset + SHA256_BINARY_SIZE)))"

definition parse_confirmation_u32 :: "buffer_view \<Rightarrow> nat \<Rightarrow> (nat \<times> nat) res" where
  \<comment> \<open>\<^verbatim>\<open>parse_short_ids_count\<close>, \<^verbatim>\<open>parse_next_short_id\<close> and \<^verbatim>\<open>parse_tx_hash_count\<close>\<close>
  "parse_confirmation_u32 v offset = get_le (bv_read v) 4 offset"

record confirm_task =
  cf_hash :: sha256
  cf_removed :: nat
  cf_tx_count :: nat
  cf_sids :: "sid list"

definition confirm_task_new :: confirm_task where
  "confirm_task_new = \<lparr>cf_hash = sha_zero, cf_removed = 0, cf_tx_count = 0, cf_sids = []\<rparr>"

definition confirm_init :: "confirm_task \<Rightarrow> confirm_task" where
  "confirm_init c = c\<lparr>cf_hash := sha_clear (cf_hash c), cf_removed := 0, cf_tx_count := 0, cf_sids := []\<rparr>"

fun confirm_short_ids ::
  "real \<Rightarrow> real \<Rightarrow> buffer_view \<Rightarrow> nat \<Rightarrow> nat \<Rightarrow> tx_service \<Rightarrow> confirm_task \<Rightarrow> (nat \<times> tx_service \<times> confirm_task) res" where
  "confirm_short_ids t now v 0 offset s c = Inr (offset, s, c)"
| "confirm_short_ids t now v (Suc n) offset s c =
     rbind (parse_confirmation_u32 v offset) (\<lambda>(short_id, offset).
     rbind (remove_transaction_by_short_id t now s short_id (cf_sids c @ [short_id])) (\<lambda>(removed, sids, s).
       confirm_short_ids t now v n offset s (c\<lparr>cf_sids := sids, cf_removed := u64 (cf_removed c + removed)\<rparr>)))"

fun confirm_hashes ::
  "real \<Rightarrow> buffer_view \<Rightarrow> nat \<Rightarrow> nat \<Rightarrow> tx_service \<Rightarrow> confirm_task \<Rightarrow> (nat \<times> tx_service \<times> confirm_task) res" where
  "confirm_hashes t v 0 offset s c = Inr (offset, s, c)"
| "confirm_hashes t v (Suc n) offset s c =
     rbind (parse_next_tx_hash v offset) (\<lambda>(sha, offset).
     let h = sha_binary sha;
         c = c\<lparr>cf_sids := cf_sids c @ (case ts_sids s h of None \<Rightarrow> [] | Some xs \<Rightarrow> xs)\<rparr>
     in rbind (remove_transaction_by_hash t s h) (\<lambda>(removed, s).
          confirm_hashes t v n offset s (c\<lparr>cf_removed := u64 (cf_removed c + removed)\<rparr>)))"

definition confirm_cleanup ::
  "real \<Rightarrow> real \<Rightarrow> tx_service \<Rightarrow> confirm_task \<Rightarrow> buffer_view \<Rightarrow> (tx_service \<times> confirm_task) res" where
  "confirm_cleanup t now s c v =
     rbind (parse_block_hash v) (\<lambda>(block_hash, offset).
     rbind (parse_confirmation_u32 v offset) (\<lambda>(short_ids_count, offset).
     rbind (confirm_short_ids t now v short_ids_count offset s (c\<lparr>cf_hash := block_hash\<rparr>)) (\<lambda>(offset, s, c).
     rbind (parse_confirmation_u32 v offset) (\<lambda>(tx_hash_count, offset).
     rbind (confirm_hashes t v tx_hash_count offset s c) (\<lambda>(offset, s, c).
       Inr (on_block_cleaned_up s (sha_binary block_hash), c\<lparr>cf_tx_count := u32 (tx_hash_count + short_ids_count)\<rparr>))))))"

definition confirm_block ::
  "real \<Rightarrow> real \<Rightarrow> tx_service \<Rightarrow> confirm_task \<Rightarrow> buffer_view \<Rightarrow> (tx_service \<times> confirm_task) res" where
  \<comment> \<open>\<^verbatim>\<open>_execute\<close> does nothing\<close>
  "confirm_block t now s c v = confirm_cleanup t now s (confirm_init c) v"

end
