(* ===== verification/OntCompression.thy ===== *)
theory OntCompression
  imports OntMessage BlockCodec
begin

text \<open>
  \<open>OntBlockCompressionTask\<close> and \<open>OntBlockCompressionSubTask\<close> of \<^verbatim>\<open>src/lib/libtpe/tpe/task\<close>. The code is
  a copy of the Bitcoin task; the definitions follow it, and the lemmas at the end of the theory
  say which of them are the Bitcoin ones. What differs: a triple of offsets is \<open>(from, end, 0)\<close>, a
  sub-task clears its list of ignored short ids, and the compressed block carries a flag and the
  Merkle root, the last bytes of the block, in front of the block.
\<close>

section \<open>OntBlockCompressionSubTask\<close>

definition ont_cmp_sub_init :: "cmp_sub \<Rightarrow> cmp_sub res" where
  "ont_cmp_sub_init cs =
     rbind (ba_reset (cs_out cs)) (\<lambda>out. Inr (cs\<lparr>cs_sids := [], cs_ignored := [], cs_out := out\<rparr>))"

definition ont_cmp_tx ::
  "(byte list \<Rightarrow> byte list) \<Rightarrow> tx_service \<Rightarrow> buffer_view \<Rightarrow> bool \<Rightarrow> real \<Rightarrow> nat \<times> nat \<times> nat \<Rightarrow> nat \<Rightarrow> cmp_sub \<Rightarrow>
   (nat \<times> cmp_sub) res" where
  "ont_cmp_tx H s v enable max_timestamp offsets output_offset cs =
     (let (from, offset, _) = offsets
      in rbind (ont_get_tx_id H v from) (\<lambda>sha.
         let h = sha_binary sha
         in rbind (if has_short_id_hash s h then rbind (get_short_id s h) (get_short_id_assign_time s) else Inr 0)
           (\<lambda>short_id_assign_time.
            if \<not> has_short_id_hash s h \<or> \<not> enable \<or> max_timestamp < short_id_assign_time then
              rbind (if has_short_id_hash s h
                     then rbind (get_short_id s h) (\<lambda>i. Inr (cs\<lparr>cs_ignored := cs_ignored cs @ [i]\<rparr>))
                     else Inr cs) (\<lambda>cs.
              rbind (ba_copy_from_buffer (cs_out cs) v output_offset from (u64_sub offset from)) (\<lambda>(out, output_offset).
                Inr (output_offset, cs\<lparr>cs_out := out\<rparr>)))
            else
              rbind (ba_set_le 1 (cs_out cs) (unat BTC_SHORT_ID_INDICATOR) output_offset) (\<lambda>(out, output_offset).
              rbind (get_short_id s h) (\<lambda>i.
                Inr (output_offset, cs\<lparr>cs_out := out, cs_sids := cs_sids cs @ [i]\<rparr>))))))"

definition ont_cmp_sub_execute ::
  "(byte list \<Rightarrow> byte list) \<Rightarrow> tx_service \<Rightarrow> buffer_view \<Rightarrow> bool \<Rightarrow> real \<Rightarrow> real \<Rightarrow> cmp_sub \<Rightarrow> cmp_sub res" where
  "ont_cmp_sub_execute H s v enable now min_age cs =
     cmp_txs (ont_cmp_tx H s v enable (now - min_age)) (cs_offsets cs) 0 cs"

section \<open>OntBlockCompressionTask\<close>

definition ont_cmp_task_new :: "nat \<Rightarrow> nat \<Rightarrow> cmp_task" where
  "ont_cmp_task_new capacity minimal_tx_count =
     \<lparr>ct_out = ba_with_capacity capacity, ct_subs = [], ct_sids = [], ct_ignored = [], ct_txn_count = 0,
      ct_prev_hash = None, ct_hash = None, ct_compressed_hash = None, ct_min_count = minimal_tx_count\<rparr>"

definition ont_cmp_init :: "bool \<Rightarrow> cmp_task \<Rightarrow> buffer_view \<Rightarrow> cmp_task res" where
  \<comment> \<open>\<open>shared\<close>: somebody else still holds the output buffer of the last block\<close>
  "ont_cmp_init shared c v =
     rbind (if shared then Inr (ba_with_capacity (bv_size v))
            else ba_reset (ba_reserve (ct_out c) (bv_size v))) (\<lambda>out.
       Inr (c\<lparr>ct_out := out, ct_sids := [], ct_ignored := [], ct_txn_count := 0,
             ct_prev_hash := None, ct_hash := None, ct_compressed_hash := None\<rparr>))"

definition ont_cmp_init_sub_tasks :: "nat \<Rightarrow> nat \<Rightarrow> cmp_sub list \<Rightarrow> cmp_sub list" where
  "ont_cmp_init_sub_tasks pool_size tx_count subs =
     (if length subs < pool_size then
        let capacity = max ONT_DEFAULT_TX_COUNT (tx_count div pool_size) * ONT_DEFAULT_TX_SIZE
        in subs @ replicate (pool_size - length subs) (cmp_sub_new capacity)
      else map (\<lambda>cs. cs\<lparr>cs_offsets := []\<rparr>) subs)"

definition ont_cmp_next :: "reader \<Rightarrow> nat \<Rightarrow> (nat \<times> nat \<times> nat \<times> nat) res" where
  "ont_cmp_next rd from = rbind (ont_get_next_tx_offset rd from) (\<lambda>offset. Inr (offset, from, offset, 0))"

definition ont_cmp_dispatch :: "cmp_task \<Rightarrow> reader \<Rightarrow> nat \<Rightarrow> nat \<Rightarrow> nat \<Rightarrow> (nat \<times> cmp_sub list \<times> nat list) res" where
  "ont_cmp_dispatch c rd pool_size tx_count offset =
     (let subs = ont_cmp_init_sub_tasks pool_size tx_count (ct_subs c);
          bulk_size = max (tx_count div pool_size) (max pool_size (ct_min_count c))
      in rbind (cmp_dispatch_loop (ont_cmp_next rd) pool_size bulk_size tx_count 0 offset 0 subs []) (\<lambda>(prev_idx, subs, queue).
           Inr (prev_idx, subs, queue @ [prev_idx])))"

definition ont_cmp_run_sub ::
  "(byte list \<Rightarrow> byte list) \<Rightarrow> tx_service \<Rightarrow> buffer_view \<Rightarrow> bool \<Rightarrow> real \<Rightarrow> real \<Rightarrow> cmp_sub \<Rightarrow> cmp_sub res" where
  "ont_cmp_run_sub H s v enable now min_age cs =
     rbind (ont_cmp_sub_init cs) (ont_cmp_sub_execute H s v enable now min_age)"

definition ont_cmp_on_sub_task_completed :: "cmp_task \<Rightarrow> cmp_sub \<Rightarrow> (nat \<times> cmp_task) res" where
  "ont_cmp_on_sub_task_completed c cs =
     rbind (ba_append (ct_out c) (cs_out cs)) (\<lambda>out.
       Inr (ba_len out, c\<lparr>ct_out := out, ct_sids := ct_sids c @ cs_sids cs, ct_ignored := ct_ignored c @ cs_ignored cs\<rparr>))"

fun ont_cmp_collect ::
  "(cmp_sub \<Rightarrow> cmp_sub res) \<Rightarrow> nat list \<Rightarrow> nat \<Rightarrow> cmp_task \<Rightarrow> (nat \<times> cmp_task) res" where
  "ont_cmp_collect run [] output_offset c = Inr (output_offset, c)"
| "ont_cmp_collect run (i # is) output_offset c =
     rbind (run (ct_subs c ! i)) (\<lambda>cs.
     rbind (ont_cmp_on_sub_task_completed (c\<lparr>ct_subs := (ct_subs c)[i := cs]\<rparr>) cs) (\<lambda>(output_offset, c).
       ont_cmp_collect run is output_offset c))"

definition ont_cmp_set_output_buffer :: "byte_array \<Rightarrow> sid list \<Rightarrow> nat \<Rightarrow> byte_array res" where
  "ont_cmp_set_output_buffer out sids output_offset =
     rbind (ba_set_le 8 out output_offset 0) (\<lambda>(out, _).
     rbind (ba_set_le 4 out (u32 (length sids)) output_offset) (\<lambda>(out, output_offset).
     rbind (if 0 < u32 (length sids) then
              let n = u32 (length sids); out = ba_resize out (u64 (output_offset + n * 4))
              in ba_poke out output_offset (take (n * 4) (concat (map (le_bytes 4) sids)))
            else Inr out) (\<lambda>out. Inr (ba_set_output out))))"

definition ont_cmp_front :: "ont_block_msg \<Rightarrow> buffer_view \<Rightarrow> nat \<Rightarrow> byte_array \<Rightarrow> (byte_array \<times> nat) res" where
  \<comment> \<open>the flag, the Merkle root and the block up to its first transaction\<close>
  "ont_cmp_front msg v offset out =
     rbind (ba_set_le 1 out 0 8) (\<lambda>(out, output_offset).
     rbind (ont_merkle_root msg) (\<lambda>merkle_root.
     rbind (ba_copy_from_buffer out merkle_root output_offset 0 (bv_size merkle_root)) (\<lambda>(out, output_offset).
       ba_copy_from_buffer out v output_offset 0 offset)))"

definition ont_cmp_execute ::
  "(byte list \<Rightarrow> byte list) \<Rightarrow> tx_service \<Rightarrow> nat \<Rightarrow> bool \<Rightarrow> real \<Rightarrow> real \<Rightarrow> cmp_task \<Rightarrow> buffer_view \<Rightarrow> cmp_task res" where
  "ont_cmp_execute H s pool_size enable now min_age c v =
     rbind (ont_block_message v) (\<lambda>msg.
     rbind (ont_prev_block_hash msg) (\<lambda>prev.
     rbind (ont_block_hash H msg) (\<lambda>hash.
     rbind (ont_get_txn_count msg) (\<lambda>(tx_count, offset).
     let c = c\<lparr>ct_prev_hash := Some prev, ct_hash := Some hash, ct_txn_count := tx_count\<rparr>
     in rbind (ont_cmp_dispatch c (bv_read v) pool_size tx_count offset) (\<lambda>(last_idx, subs, queue).
        rbind (ont_cmp_front msg v offset (ct_out c)) (\<lambda>(out, output_offset).
        rbind (ont_cmp_collect (ont_cmp_run_sub H s v enable now min_age) [0..<last_idx + 1] output_offset
                 (c\<lparr>ct_subs := subs, ct_out := out\<rparr>)) (\<lambda>(output_offset, c).
        rbind (ont_cmp_set_output_buffer (ct_out c) (ct_sids c) output_offset) (\<lambda>out.
        rbind (double_sha256 H (bv_msg (ba_arr out)) 0 (ba_len out)) (\<lambda>digest.
          Inr (c\<lparr>ct_out := out, ct_compressed_hash := Some digest\<rparr>))))))))))"

definition ont_cmp_block ::
  "(byte list \<Rightarrow> byte list) \<Rightarrow> tx_service \<Rightarrow> nat \<Rightarrow> bool \<Rightarrow> real \<Rightarrow> real \<Rightarrow> bool \<Rightarrow> cmp_task \<Rightarrow> buffer_view \<Rightarrow> cmp_task res" where
  "ont_cmp_block H s pool_size enable now min_age shared c v =
     rbind (ont_cmp_init shared c v) (\<lambda>c. ont_cmp_execute H s pool_size enable now min_age c v)"

section \<open>What the two tasks share\<close>

lemma ont_cmp_tx_eq:
  "ont_cmp_tx H s v enable mx (from, fin, x) off cs =
     rbind (ont_get_tx_id H v from) (\<lambda>sha. cmp_put s v enable mx (sha_binary sha) from fin off cs)"
  by (simp add: ont_cmp_tx_def cmp_put_def cmp_assign_time_def Let_def)

lemma ont_cmp_init_eq: "ont_cmp_init = cmp_init"
  by (simp add: fun_eq_iff ont_cmp_init_def cmp_init_def)

lemma ont_cmp_init_sub_tasks_eq: "ont_cmp_init_sub_tasks = cmp_init_sub_tasks"
  by (simp add: fun_eq_iff ont_cmp_init_sub_tasks_def cmp_init_sub_tasks_def ont_consts Let_def)

lemma ont_cmp_collect_eq: "ont_cmp_collect run is = cmp_collect run is"
proof (induction "is")
  case (Cons i "is")
  then show ?case
    by (simp add: fun_eq_iff [of "_ (i # is)"] ont_cmp_on_sub_task_completed_def cmp_on_sub_task_completed_def)
qed (simp add: fun_eq_iff)

lemma ont_cmp_set_output_buffer_eq: "ont_cmp_set_output_buffer = cmp_set_output_buffer"
  by (simp add: fun_eq_iff ont_cmp_set_output_buffer_def cmp_set_output_buffer_def)

lemmas ont_cmp_shared = ont_cmp_init_eq ont_cmp_init_sub_tasks_eq ont_cmp_collect_eq ont_cmp_set_output_buffer_eq

end
