(* ===== verification/OntDecompression.thy ===== *)
theory OntDecompression
  imports OntCompression BtcDecompression
begin

text \<open>
  \<open>OntBlockDecompressionTask\<close> and \<open>OntBlockDecompressionSubTask\<close> of \<^verbatim>\<open>src/lib/libtpe/tpe/task\<close>. As for
  the compression the code is a copy of the Bitcoin task, with the Ontology messages and the Merkle
  root: after all sub-tasks have finished the main task appends the root to the output buffer. The
  sub-tasks are scheduled as in theory \<open>BtcDecompression\<close>.
\<close>

section \<open>OntBlockDecompressionSubTask\<close>

fun ont_dcm_span :: "nat \<times> nat \<times> nat \<Rightarrow> nat \<times> nat" where
  "ont_dcm_span (from, to, _) = (from, to)"

definition ont_dcm_job_step ::
  "buffer_view \<Rightarrow> sid list \<Rightarrow> tx_service \<Rightarrow> byte_array \<Rightarrow> dcm_job \<Rightarrow> (tx_service \<times> byte_array \<times> dcm_job) res" where
  "ont_dcm_job_step block_buffer short_ids s out j =
     (case dj_offsets j of
        [] \<Rightarrow> Inr (s, out, j)
      | (from, to, _) # offsets \<Rightarrow>
          let sz = u64_sub to from
          in rbind
              (if sz = 1 then
                 (if dj_sid_idx j < length short_ids then
                    rbind (get_tx_contents_raw_ptr s (short_ids ! dj_sid_idx j)) (\<lambda>(p, s).
                      case p of None \<Rightarrow> Inl MemFault | Some c \<Rightarrow> Inr (c, s, u64 (dj_sid_idx j + 1)))
                  else Inl OutOfRange)
               else Inr (bv_sub block_buffer sz from, s, dj_sid_idx j)) (\<lambda>(contents, s, short_id_idx).
             rbind (ba_copy_from_buffer out contents (dj_output_offset j) 0 (bv_size contents)) (\<lambda>(out, output_offset).
               Inr (s, out, \<lparr>dj_sid_idx = short_id_idx, dj_output_offset = output_offset, dj_offsets = offsets\<rparr>))))"

definition ont_dcm_run ::
  "buffer_view \<Rightarrow> sid list \<Rightarrow> nat list \<Rightarrow> tx_service \<times> byte_array \<times> dcm_job list \<Rightarrow>
   (tx_service \<times> byte_array \<times> dcm_job list) res" where
  "ont_dcm_run block_buffer short_ids = run_jobs (ont_dcm_job_step block_buffer short_ids)"

section \<open>OntBlockDecompressionTask\<close>

definition ont_dcm_task_new :: "nat \<Rightarrow> nat \<Rightarrow> dcm_task" where
  "ont_dcm_task_new capacity minimal_tx_count =
     \<lparr>dt_out = ba_with_capacity capacity, dt_subs = [], dt_unknown_hashes = [], dt_unknown_sids = [], dt_sids = [],
      dt_hash = None, dt_success = False, dt_tx_count = 0, dt_min_count = minimal_tx_count\<rparr>"

definition ont_dcm_init :: "bool \<Rightarrow> dcm_task \<Rightarrow> buffer_view \<Rightarrow> dcm_task res" where
  \<comment> \<open>\<open>shared\<close>: somebody else still holds the output buffer of the last block\<close>
  "ont_dcm_init shared c v =
     rbind (bx_ont_get_original_block_size v) (\<lambda>n.
     let output_size = u32 (max n (ba_cap (dt_out c)))
     in rbind (if shared then Inr (ba_with_capacity output_size)
               else ba_reset (ba_reserve (dt_out c) output_size)) (\<lambda>out.
          Inr (c\<lparr>dt_out := out, dt_unknown_hashes := [], dt_unknown_sids := [], dt_hash := None,
                dt_sids := [], dt_tx_count := 0\<rparr>)))"

definition ont_dcm_init_sub_tasks :: "nat \<Rightarrow> dcm_data list \<Rightarrow> dcm_data list" where
  "ont_dcm_init_sub_tasks pool_size subs =
     map dcm_data_clear subs @ replicate (pool_size - length subs) dcm_data_new"

definition ont_dcm_extend_output_buffer :: "byte_array \<Rightarrow> nat \<Rightarrow> byte_array res" where
  "ont_dcm_extend_output_buffer out output_offset =
     (if ba_cap out < output_offset then Inl RuntimeError else Inr (ba_resize out output_offset))"

definition ont_dcm_next :: "bx_ont_block \<Rightarrow> nat \<Rightarrow> (nat \<times> bool \<times> nat \<times> nat \<times> nat) res" where
  "ont_dcm_next msg from =
     rbind (bx_ont_get_next_tx_offset msg from) (\<lambda>(offset, is_short). Inr (offset, is_short, from, offset, 0))"

definition ont_dcm_dispatch ::
  "tx_service \<Rightarrow> dcm_task \<Rightarrow> bx_ont_block \<Rightarrow> nat \<Rightarrow> nat \<Rightarrow> (nat \<times> dcm_task) res" where
  "ont_dcm_dispatch s c msg offset pool_size =
     (let subs = ont_dcm_init_sub_tasks pool_size (dt_subs c);
          bulk_size = max (dt_tx_count c div pool_size) (max pool_size (dt_min_count c));
          output_offset = u64_sub offset ont_offset_diff;
          d = \<lparr>ds_subs = subs, ds_out = dt_out c, ds_idx = 0, ds_offset = offset, ds_sids_offset = 0,
               ds_output_offset = output_offset, ds_prev_output_offset = output_offset\<rparr>
      in rbind (dcm_dispatch_loop (ont_dcm_next msg) s (dt_sids c) pool_size bulk_size (dt_tx_count c) 0 d) (\<lambda>d.
         let prev_idx = ds_idx d;
             tdata = (ds_subs d ! prev_idx)\<lparr>dd_output_offset := ds_prev_output_offset d, dd_sids_offset := ds_sids_offset d\<rparr>
         in rbind (ont_dcm_extend_output_buffer (ds_out d) (ds_output_offset d)) (\<lambda>out.
              Inr (prev_idx, c\<lparr>dt_subs := (ds_subs d)[prev_idx := tdata], dt_out := out\<rparr>))))"

definition ont_dcm_parse_block_header :: "dcm_task \<Rightarrow> buffer_view \<Rightarrow> (bx_ont_block \<times> nat \<times> dcm_task) res" where
  "ont_dcm_parse_block_header c v =
     rbind (get_le (bv_read v) 8 0) (\<lambda>(short_ids_offset, _).
     rbind (bx_ont_block_message v short_ids_offset) (\<lambda>msg.
     rbind (bx_ont_get_tx_count msg) (\<lambda>(tx_count, offset).
     rbind (bx_ont_deserialize_short_ids msg) (\<lambda>short_ids.
       Inr (msg, offset, c\<lparr>dt_tx_count := tx_count, dt_sids := short_ids\<rparr>)))))"

definition ont_dcm_fill ::
  "tx_service \<Rightarrow> nat list \<Rightarrow> nat list \<Rightarrow> dcm_task \<Rightarrow> bx_ont_block \<Rightarrow> buffer_view \<Rightarrow> nat \<Rightarrow> nat \<Rightarrow> (tx_service \<times> dcm_task) res" where
  \<comment> \<open>the sub-tasks up to \<open>last_idx\<close> run, the block header is copied between the two parts of the schedule\<close>
  "ont_dcm_fill s sched1 sched2 c msg v offset last_idx =
     (let jobs = map dcm_start (take (last_idx + 1) (dt_subs c))
      in rbind (ont_dcm_run v (dt_sids c) sched1 (s, dt_out c, jobs)) (\<lambda>(s, out, jobs).
         rbind (ba_copy_from_buffer out v 0 ont_offset_diff (u64_sub offset ont_offset_diff)) (\<lambda>(out, _).
         rbind (ont_dcm_run v (dt_sids c) sched2 (s, out, jobs)) (\<lambda>(s, out, jobs).
         rbind (ont_dcm_run v (dt_sids c) (dcm_rest jobs) (s, out, jobs)) (\<lambda>(s, out, _).
         let merkle_root = bx_ont_merkle_root msg; output_offset = ba_len out
         in rbind (ont_dcm_extend_output_buffer out (u64 (output_offset + bv_size merkle_root))) (\<lambda>out.
            rbind (ba_copy_from_buffer out merkle_root output_offset 0 (bv_size merkle_root)) (\<lambda>(out, _).
              Inr (s, c\<lparr>dt_out := ba_set_output out\<rparr>))))))))"

definition ont_dcm_execute ::
  "(byte list \<Rightarrow> byte list) \<Rightarrow> tx_service \<Rightarrow> nat \<Rightarrow> nat list \<Rightarrow> nat list \<Rightarrow> dcm_task \<Rightarrow> buffer_view \<Rightarrow>
   (tx_service \<times> dcm_task) res" where
  "ont_dcm_execute H s pool_size sched1 sched2 c v =
     rbind (ont_dcm_parse_block_header c v) (\<lambda>(msg, offset, c).
     let (success, hashes, sids) = get_missing_transactions s (dt_sids c)
     in rbind (ont_block_hash H (bxo_block msg)) (\<lambda>hash.
        let c = c\<lparr>dt_success := success, dt_unknown_hashes := hashes, dt_unknown_sids := sids, dt_hash := Some hash\<rparr>
        in if \<not> success then Inr (s, c)
           else rbind (ont_dcm_dispatch s c msg offset pool_size) (\<lambda>(last_idx, c).
                  ont_dcm_fill s sched1 sched2 c msg v offset last_idx)))"

definition ont_dcm_block ::
  "(byte list \<Rightarrow> byte list) \<Rightarrow> tx_service \<Rightarrow> nat \<Rightarrow> nat list \<Rightarrow> nat list \<Rightarrow> bool \<Rightarrow> dcm_task \<Rightarrow> buffer_view \<Rightarrow>
   (tx_service \<times> dcm_task) res" where
  "ont_dcm_block H s pool_size sched1 sched2 shared c v =
     rbind (ont_dcm_init shared c v) (\<lambda>c. ont_dcm_execute H s pool_size sched1 sched2 c v)"

section \<open>What the two tasks share\<close>

lemma ont_dcm_job_step_eq: "ont_dcm_job_step = dcm_job_step ont_dcm_span"
  by (auto simp: fun_eq_iff ont_dcm_job_step_def dcm_job_step_def dcm_contents_def Let_def split: list.split)

lemma ont_dcm_run_eq: "ont_dcm_run = dcm_run ont_dcm_span"
  by (simp add: fun_eq_iff ont_dcm_run_def dcm_run_def ont_dcm_job_step_eq)

lemma ont_dcm_extend_output_buffer_eq: "ont_dcm_extend_output_buffer = dcm_extend_output_buffer"
  by (simp add: fun_eq_iff ont_dcm_extend_output_buffer_def dcm_extend_output_buffer_def)

lemma ont_dcm_dispatch_eq: "ont_dcm_dispatch s c msg = dcm_dispatch (ont_dcm_next msg) ont_offset_diff s c"
  by (simp add: fun_eq_iff ont_dcm_dispatch_def dcm_dispatch_def ont_dcm_init_sub_tasks_def dcm_init_sub_tasks_def
      ont_dcm_extend_output_buffer_eq)

lemma ont_dcm_fill_eq:
  "ont_dcm_fill s sched1 sched2 c msg v offset last_idx =
     rbind (dcm_fill ont_dcm_span ont_offset_diff s sched1 sched2 c v offset last_idx) (\<lambda>(s, out).
       rbind (dcm_extend_output_buffer out (u64 (ba_len out + bv_size (bx_ont_merkle_root msg)))) (\<lambda>out'.
       rbind (ba_copy_from_buffer out' (bx_ont_merkle_root msg) (ba_len out) 0 (bv_size (bx_ont_merkle_root msg))) (\<lambda>(out, _).
         Inr (s, c\<lparr>dt_out := ba_set_output out\<rparr>))))"
  unfolding ont_dcm_fill_def dcm_fill_def ont_dcm_run_eq ont_dcm_extend_output_buffer_eq Let_def
  by (simp add: rbind_assoc case_prod_unfold)

end
