(* ===== verification/OntCompressionProps.thy ===== *)
theory OntCompressionProps
  imports OntCompression
begin

text \<open>
  What the Ontology compression task produces for a well-formed block. The format of Ontology
  transactions interprets the locale of theory \<open>BlockCodec\<close>, so the lemmas about sub-tasks,
  dispatching and collecting are those of the Bitcoin task.
\<close>

section \<open>Transactions\<close>

definition ont_tx_hash :: "(byte list \<Rightarrow> byte list) \<Rightarrow> ont_tx \<Rightarrow> hash" where
  "ont_tx_hash H t = rev (H (H (ser_unsigned t)))"

definition ont_tup :: "nat \<Rightarrow> ont_tx \<Rightarrow> nat \<times> nat \<times> nat" where
  "ont_tup pos t = (pos, pos + length (ser_ont_tx t), 0)"

definition ont_tx_ok :: "(byte list \<Rightarrow> byte list) \<Rightarrow> ont_tx \<Rightarrow> bool" where
  \<comment> \<open>a well-formed transaction, with a hash function of 32 byte digests\<close>
  "ont_tx_ok H t \<longleftrightarrow> wf_ont_tx t \<and> (\<forall>bs. length (H bs) = 32)"

abbreviation ont_compressed :: "(byte list \<Rightarrow> byte list) \<Rightarrow> tx_service \<Rightarrow> bool \<Rightarrow> real \<Rightarrow> ont_tx \<Rightarrow> bool" where
  "ont_compressed H s enable max_timestamp \<equiv> \<lambda>t. sid_usable s enable max_timestamp (ont_tx_hash H t)"

abbreviation ont_sender_ok :: "(byte list \<Rightarrow> byte list) \<Rightarrow> tx_service \<Rightarrow> ont_tx \<Rightarrow> bool" where
  "ont_sender_ok H s \<equiv> \<lambda>t. sid_resolved s (ont_tx_hash H t)"

interpretation ont: tx_format ser_ont_tx "ont_tx_ok H" "ont_tx_hash H" ont_tup ont_cmp_next "ont_cmp_tx H" "\<lambda>_. []"
    "ont_cmp_run_sub H"
  for H
proof (unfold_locales, goal_cases)
  case (1 t)
  then show ?case using length_ser_ont_tx [of t] by (simp add: ont_tx_ok_def)
next
  case (2 v t pre post)
  then show ?case using bvs.ont_get_next_tx_offset_at [of v t pre post]
    by (simp add: ont_tx_ok_def ont_cmp_next_def ont_tup_def)
next
  case (3 v t pre post s enable mx off cs)
  then show ?case using ont_get_tx_id_at [of v t pre post H]
    by (simp add: ont_cmp_tx_eq ont_tup_def ont_tx_hash_def ont_tx_ok_def)
next
  case (4 s v enable now age cs)
  then show ?case by (simp add: ont_cmp_run_sub_def ont_cmp_sub_init_def ba_reset_eq ont_cmp_sub_execute_def)
qed

section \<open>The front of the compressed block\<close>

definition ont_block :: "ont_hdr \<Rightarrow> ont_tx list \<Rightarrow> byte list \<Rightarrow> byte list" where
  "ont_block h ts mroot = ser_ont_hdr h @ le_bytes 4 (length ts) @ sers ser_ont_tx ts @ mroot"

definition wf_ont_block :: "ont_hdr \<Rightarrow> ont_tx list \<Rightarrow> byte list \<Rightarrow> bool" where
  \<comment> \<open>the length in the message header is that of the payload, and the Merkle root ends the message\<close>
  "wf_ont_block h ts mroot \<longleftrightarrow>
     wf_ont_hdr h \<and> list_all wf_ont_tx ts \<and> length mroot = 32 \<and>
     le_val (slice 16 4 (oh_front h)) + 24 = length (ont_block h ts mroot) \<and> length (ont_block h ts mroot) < 2 ^ 32"

lemma length_ont_txs: "list_all wf_ont_tx ts \<Longrightarrow> 43 * length ts \<le> length (sers ser_ont_tx ts)"
proof (induction ts)
  case (Cons t ts)
  then show ?case using length_ser_ont_tx [of t] by simp
qed simp

lemma length_ser_hashed: "wf_ont_hdr h \<Longrightarrow> 160 \<le> length (ser_hashed h)"
  by (simp add: ser_hashed_def wf_ont_hdr_def)

lemma wf_ont_block_sizes:
  assumes "wf_ont_block h ts mroot"
  shows "length ts < 2 ^ 32" and "160 \<le> length (ser_ont_hdr h)"
    and "41 + (length (ser_ont_hdr h) + 4 + length (sers ser_ont_tx ts)) + 4 + 4 * length ts < 2 ^ 64"
proof -
  have ts: "43 * length ts \<le> length (sers ser_ont_tx ts)" using assms by (simp add: wf_ont_block_def length_ont_txs)
  have len: "length (ser_ont_hdr h) + (4 + (length (sers ser_ont_tx ts) + 32)) < 2 ^ 32"
    using assms by (simp add: wf_ont_block_def ont_block_def del: le_bytes.simps le_bytes_numeral)
  show "160 \<le> length (ser_ont_hdr h)" using assms length_ser_hashed [of h] by (simp add: wf_ont_block_def ser_ont_hdr_def)
  from ts len show "length ts < 2 ^ 32"
    "41 + (length (ser_ont_hdr h) + 4 + length (sers ser_ont_tx ts)) + 4 + 4 * length ts < 2 ^ 64"
    by simp_all
qed

lemma ont_hash_at:
  assumes H: "\<And>bs. length (H bs) = 32" and v: "bv_ok (ob_buffer m)" "bv_bytes (ob_buffer m) = ser_ont_hdr h @ rest"
    and h: "wf_ont_hdr h" "ob_header_offset m = length (ser_hashed h)"
  shows "ont_block_hash H m = Inr (sha_of_binary (rev (H (H (drop 24 (ser_hashed h))))))"
proof -
  let ?v = "ob_buffer m" and ?k = "length (ser_hashed h)"
  have k: "160 \<le> ?k" by (rule length_ser_hashed [OF h(1)])
  have le: "?k \<le> bv_size ?v" using v length_bv_bytes [of ?v] by (simp add: bv_ok_def ser_ont_hdr_def)
  then have "?k < 2 ^ 64" using bv_size_less [of ?v] v(1) by (simp add: bv_ok_def)
  then have sub: "u64_sub ?k 24 = ?k - 24" using k by (simp add: u64_sub_id)
  have "slice 24 (?k - 24) (bv_bytes ?v) = drop 24 (ser_hashed h)" using k by (simp add: v(2) ser_ont_hdr_def slice_def)
  then show ?thesis
    using double_sha256_inside [OF v(1) _ H, of 24 "?k - 24"] k le sub h(2)
    by (simp add: ont_block_hash_def ont_generate_block_hash_def ont_consts)
qed

lemma ont_header_reads:
  assumes H: "\<And>bs. length (H bs) = 32" and b: "wf_ont_block h ts mroot"
    and v: "bv_ok v" "bv_bytes v = ont_block h ts mroot"
    and m: "m = \<lparr>ob_buffer = v, ob_header_offset = length (ser_hashed h), ob_tx_count_offset = length (ser_ont_hdr h)\<rparr>"
  shows "ont_block_message v = Inr m"
    and "ont_prev_block_hash m = Inr (sha_of_binary (rev (slice 28 32 (oh_front h))))"
    and "ont_block_hash H m = Inr (sha_of_binary (rev (H (H (drop 24 (ser_hashed h))))))"
    and "ont_get_txn_count m = Inr (length ts, length (ser_ont_hdr h) + 4)"
    and "\<exists>r. ont_merkle_root m = Inr r \<and> bv_ok r \<and> bv_bytes r = mroot"
proof -
  have h: "wf_ont_hdr h" "length (oh_front h) = 140" "length mroot = 32" using b by (simp_all add: wf_ont_block_def wf_ont_hdr_def)
  note sizes = wf_ont_block_sizes [OF b]
  have sz: "length (ont_block h ts mroot) = bv_size v" using v length_bv_bytes [of v] by (simp add: bv_ok_def)
  have big: "160 \<le> bv_size v" using sizes(2) sz by (simp add: ont_block_def)
  show "ont_block_message v = Inr m" using ont_block_message_at [OF v(1) h(1)] v(2) m by (simp add: ont_block_def)
  have front: "slice a k (bv_bytes v) = slice a k (oh_front h)" if "a + k \<le> 140" for a k
    using that h(2) by (simp add: v(2) ont_block_def ser_ont_hdr_def ser_hashed_def slice_append_left)
  show "ont_prev_block_hash m = Inr (sha_of_binary (rev (slice 28 32 (oh_front h))))"
    using v sha_read_inside [of v 28] big front [of 28 32]
    by (simp add: m ont_prev_block_hash_def ont_get_prev_block_hash_def ont_consts bv_ok_def sha_reverse_def)
  show "ont_block_hash H m = Inr (sha_of_binary (rev (H (H (drop 24 (ser_hashed h))))))"
    by (rule ont_hash_at [OF H _ _ h(1)]) (use v in \<open>simp_all add: m ont_block_def\<close>)
  show "ont_get_txn_count m = Inr (length ts, length (ser_ont_hdr h) + 4)"
    using bvs.get_le_at [OF v(1), of "ser_ont_hdr h" "le_bytes 4 (length ts)" "sers ser_ont_tx ts @ mroot"] sizes(1)
    by (simp add: m ont_get_txn_count_def v(2) ont_block_def le_val_le_bytes del: le_bytes.simps le_bytes_numeral)
  let ?n = "length (ont_block h ts mroot)"
  have n: "?n < 2 ^ 32" "le_val (slice 16 4 (oh_front h)) + 24 = ?n" "32 \<le> ?n"
    using b by (simp_all add: wf_ont_block_def ont_block_def)
  have "get_le (bv_read v) 4 16 = Inr (le_val (slice 16 4 (oh_front h)), 20)"
    using bvs.get_le_inside [OF v(1), of 4 16] v(2) sz big front [of 16 4] by simp
  then have "ont_get_block_size v 0 = Inr ?n"
    using n(1,2) by (simp add: ont_get_block_size_def ont_consts u64_id u32_id)
  moreover have "u32 (?n + (2 ^ 32 - 32)) = ?n - 32"
  proof -
    have "?n + (2 ^ 32 - 32) = (?n - 32) + 2 ^ 32" using n(3) by simp
    then have "u32 (?n + (2 ^ 32 - 32)) = u32 (?n - 32)" unfolding u32_def by (simp only: mod_add_self2)
    then show ?thesis using n(1) by (simp only: u32_id [of "?n - 32"] diff_less_mono2 less_imp_diff_less)
  qed
  ultimately have mroot: "ont_merkle_root m = Inr (bv_sub v 32 (?n - 32))"
    by (simp add: m ont_merkle_root_def ont_get_merkle_root_def ont_consts)
  have "slice (?n - 32) 32 (bv_bytes v) = mroot"
    using h(3) n(3) by (simp add: v(2) ont_block_def slice_def)
  then show "\<exists>r. ont_merkle_root m = Inr r \<and> bv_ok r \<and> bv_bytes r = mroot"
    using mroot bv_wf_sub [of v "?n - 32" 32] v(1) n(3) sz by (simp add: bv_ok_def)
qed

lemma ba_set_le_grow:
  assumes "ba_wf out" and "ba_len out < off + k" and "0 < k" and "off + k < 2 ^ 64"
  obtains out' where "ba_set_le k out x off = Inr (out', off + k)" and "ba_wf out'" and "ba_len out' = off + k"
    and "ba_bytes out' = take off (ba_bytes (ba_resize out (off + k))) @ le_bytes k x"
proof -
  let ?r = "ba_resize out (off + k)"
  have r: "ba_wf ?r" "length (ba_bytes ?r) = off + k" using assms(1) by simp_all
  have "u64 (off + k) = off + k" using assms(4) by (simp add: u64_id)
  then have "ba_set_le k out x off = ba_set_le k ?r x off"
    using assms(2) by (simp add: set_le_def buf_store_def)
  moreover obtain out' where o: "ba_set_le k ?r x off = Inr (out', off + k)" "ba_wf out'"
    "ba_bytes out' = patch off (le_bytes k x) (ba_bytes ?r)"
    using bak.set_le_inside [OF r(1) assms(3), of off x] r(2) assms(4) by auto
  moreover have b: "ba_bytes out' = take off (ba_bytes ?r) @ le_bytes k x"
    using o(3) r(2) by (simp add: patch_def)
  moreover have "length (ba_bytes out') = off + k" unfolding b using r(2) by simp
  then have "ba_len out' = off + k" using o(2) by simp
  ultimately show thesis using that by simp
qed

lemma ont_cmp_front_spec:
  assumes out: "ba_wf out" "ba_len out = 0" and m: "ont_merkle_root m = Inr r" "bv_ok r" "bv_bytes r = mroot" "length mroot = 32"
    and v: "bv_ok v" "bv_bytes v = pre @ post" and pre: "0 < length pre" and small: "41 + length pre < 2 ^ 64"
  obtains out' junk where "ont_cmp_front m v (length pre) out = Inr (out', 41 + length pre)" and "ba_wf out'"
    and "ba_len out' = 41 + length pre" and "length junk = 8" and "ba_bytes out' = junk @ [0] @ mroot @ pre"
proof -
  obtain o1 where o1: "ba_set_le 1 out 0 8 = Inr (o1, 8 + 1)" "ba_wf o1" "ba_len o1 = 8 + 1"
    "ba_bytes o1 = take 8 (ba_bytes (ba_resize out (8 + 1))) @ le_bytes 1 0"
    by (rule ba_set_le_grow [OF out(1), of 8 1 0]) (use out(2) in auto)
  define junk where "junk = take 8 (ba_bytes (ba_resize out (8 + 1)))"
  have junk: "length junk = 8" "ba_bytes o1 = junk @ [0]" using o1(4) out by (simp_all add: junk_def)
  have r: "bv_wf r" "bv_size r = 32" using m length_bv_bytes [of r] by (auto simp: bv_ok_def)
  have "slice 0 32 (bv_bytes r) = mroot" using m(3,4) by (simp add: slice_def)
  then obtain o2 where o2: "ba_copy_from_buffer o1 r 9 0 32 = Inr (o2, 9 + 32)" "ba_wf o2" "ba_bytes o2 = ba_bytes o1 @ mroot"
    using ba_copy_from_buffer_append [OF o1(2) r(1), of 32 0 9] r(2) o1(3) by auto
  have "length (ba_bytes o2) = 41" using o2(3) junk m(4) by simp
  then have l2: "ba_len o2 = 41" using o2(2) by simp
  have vf: "bv_wf v" "length pre \<le> bv_size v" using v length_bv_bytes [of v] by (auto simp: bv_ok_def)
  have "slice 0 (length pre) (bv_bytes v) = pre" using v(2) by (simp add: slice_def)
  then obtain o3 where o3: "ba_copy_from_buffer o2 v 41 0 (length pre) = Inr (o3, 41 + length pre)" "ba_wf o3"
    "ba_bytes o3 = ba_bytes o2 @ pre"
    using ba_copy_from_buffer_append [OF o2(2) vf(1) pre, of 0 41] vf(2) l2 small by auto
  have "ba_len o3 = 41 + length pre" using o3(2,3) o2(2) l2 by (metis length_ba_bytes length_append)
  moreover have "ont_cmp_front m v (length pre) out = Inr (o3, 41 + length pre)"
    using o1(1) m(1) r(2) o2(1) o3(1) by (simp add: ont_cmp_front_def)
  ultimately show thesis using that [of o3 junk] o3 o2(3) junk by simp
qed

section \<open>The compressed block\<close>

lemma concat_ignored:
  assumes "length is = length segs"
  shows "concat (map (\<lambda>(i, seg). ignored_sids hash s cmpd seg) (zip is segs)) = ignored_sids hash s cmpd (concat segs)"
  using assms by (induction "is" segs rule: list_induct2) simp_all

lemma ont_cmp_block_spec:
  assumes H: "\<And>bs. length (H bs) = 32" and c: "cmp_task_ok pool c" and pool: "0 < pool"
    and b: "wf_ont_block h ts mroot" and s: "list_all (ont_sender_ok H s) ts"
    and v: "bv_ok v" "bv_bytes v = ont_block h ts mroot"
    and cmpd: "cmpd = ont_compressed H s enable (now - age)"
  shows "\<exists>c'. ont_cmp_block H s pool enable now age shared c v = Inr c' \<and>
    ba_bytes (ct_out c') =
      bx_encode ([0] @ mroot @ ser_ont_hdr h @ le_bytes 4 (length ts) @ pieces ser_ont_tx cmpd ts)
        (piece_sids (ont_tx_hash H) s cmpd ts) \<and>
    ct_sids c' = piece_sids (ont_tx_hash H) s cmpd ts \<and> ct_ignored c' = ignored_sids (ont_tx_hash H) s cmpd ts \<and>
    ct_txn_count c' = length ts \<and>
    ct_hash c' = Some (sha_of_binary (rev (H (H (drop 24 (ser_hashed h)))))) \<and>
    ct_prev_hash c' = Some (sha_of_binary (rev (slice 28 32 (oh_front h))))"
proof -
  let ?run = "ont_cmp_run_sub H s v enable now age" and ?pre = "ser_ont_hdr h @ le_bytes 4 (length ts)"
  define m where "m = \<lparr>ob_buffer = v, ob_header_offset = length (ser_hashed h), ob_tx_count_offset = length (ser_ont_hdr h)\<rparr>"
  note hd = ont_header_reads [OF H b v m_def]
  note sizes = wf_ont_block_sizes [OF b]
  obtain r where r: "ont_merkle_root m = Inr r" "bv_ok r" "bv_bytes r = mroot" using hd(5) by blast
  have out_c: "ba_wf (ct_out c)" using c by (simp add: cmp_task_ok_def)
  obtain out0 where out0: "(if shared then Inr (ba_with_capacity (bv_size v)) else ba_reset (ba_reserve (ct_out c) (bv_size v))) = Inr out0"
    "ba_wf out0" "ba_len out0 = 0"
    by (rule cmp_init_out [OF out_c])
  define c1 where "c1 = c\<lparr>ct_out := out0, ct_sids := [], ct_ignored := [], ct_txn_count := 0,
             ct_prev_hash := None, ct_hash := None, ct_compressed_hash := None\<rparr>"
  define c2 where "c2 = c1\<lparr>ct_prev_hash := Some (sha_of_binary (rev (slice 28 32 (oh_front h)))),
    ct_hash := Some (sha_of_binary (rev (H (H (drop 24 (ser_hashed h)))))), ct_txn_count := length ts\<rparr>"
  have c2: "cmp_task_ok pool c2" "ct_subs c2 = ct_subs c" "ct_out c2 = out0"
    using c out0 by (auto simp: cmp_task_ok_def c2_def c1_def)
  have lpre: "length ?pre = length (ser_ont_hdr h) + 4" by simp
  have bytes: "bv_bytes v = ?pre @ sers ser_ont_tx ts @ mroot" and wts: "list_all (ont_tx_ok H) ts" and lroot: "length mroot = 32"
    using v(2) b H by (simp_all add: ont_block_def wf_ont_block_def list_all_iff ont_tx_ok_def)
  have big: "41 + (length ?pre + length (sers ser_ont_tx ts)) + 4 + 4 * length ts < 2 ^ 64"
    using sizes(3) unfolding lpre by simp
  obtain out1 junk where o1: "ont_cmp_front m v (length ?pre) out0 = Inr (out1, 41 + length ?pre)" "ba_wf out1"
    "ba_len out1 = 41 + length ?pre" "length junk = 8" "ba_bytes out1 = junk @ [0] @ mroot @ ?pre"
    by (rule ont_cmp_front_spec [OF out0(2,3) r lroot v(1) bytes]) (use big in simp_all)
  let ?front = "[0] @ mroot @ ?pre" and ?bulk = "max (length ts div pool) (max pool (ct_min_count c2))"
  have ok: "txs_ready (ont_tx_ok H) (ont_tx_hash H) s ts" using s wts by (simp add: txs_ready_def)
  have small: "8 + (length ?front + length (sers ser_ont_tx ts)) + 4 + 4 * length ts < 2 ^ 64" using big lroot by simp
  have c2e: "ct_sids c2 = []" "ct_ignored c2 = []" by (simp_all add: c2_def c1_def)
  obtain last subs c4 out dg segs where e:
    "cmp_dispatch_loop (ont_cmp_next (bv_read v)) pool ?bulk (length ts) 0 (length ?pre) 0 (cmp_init_sub_tasks pool (length ts) (ct_subs c2)) [] =
       Inr (last, subs, [0..<last])"
    "cmp_collect ?run [0..<Suc last] (ba_len out1) (c2\<lparr>ct_subs := subs, ct_out := out1\<rparr>) = Inr (ba_len (ct_out c4), c4)"
    "cmp_set_output_buffer (ct_out c4) (ct_sids c4) (ba_len (ct_out c4)) = Inr out"
    "double_sha256 H (bv_msg (ba_arr out)) 0 (ba_len out) = Inr dg"
    "ba_bytes out = bx_encode (?front @ pieces ser_ont_tx cmpd ts) (piece_sids (ont_tx_hash H) s cmpd ts)"
    "ct_sids c4 = piece_sids (ont_tx_hash H) s cmpd ts" "concat segs = ts"
    "ct_ignored c4 = concat (map (\<lambda>(i, seg). [] @ ignored_sids (ont_tx_hash H) s cmpd seg) (zip [0..<length segs] segs))"
    "ct_hash c4 = ct_hash c2" "ct_prev_hash c4 = ct_prev_hash c2" "ct_txn_count c4 = ct_txn_count c2"
    by (rule ont.encode_spec [OF v(1) c2(1) c2e pool bytes ok sizes(1) o1(2,5,4) small cmpd])
  have "ont_cmp_block H s pool enable now age shared c v = Inr (c4\<lparr>ct_out := out, ct_compressed_hash := Some dg\<rparr>)"
    using out0(1) hd(1-4) e(1-4) o1(1,3) c2(2,3) lpre
    by (simp add: ont_cmp_block_def ont_cmp_shared cmp_init_def ont_cmp_execute_def ont_cmp_dispatch_def c1_def c2_def Let_def
        del: upt_Suc length_append)
  moreover have "ct_ignored c4 = ignored_sids (ont_tx_hash H) s cmpd ts"
    using e(7,8) concat_ignored [of "[0..<length segs]" segs "ont_tx_hash H" s cmpd] by simp
  ultimately show ?thesis using e(5,6,9-11) by (auto simp: c2_def c1_def)
qed

end
