(* ===== verification/OntDecompressionProps.thy ===== *)
theory OntDecompressionProps
  imports OntDecompression OntCompressionProps BtcDecompressionProps
begin

text \<open>
  The Ontology decompression task rebuilds the block whatever the schedule of its sub-tasks, and
  decompressing the output of the compression task gives back the block. The compressed Ontology
  message interprets the locale of theory \<open>BlockRestore\<close>.
\<close>

section \<open>Reading the compressed message\<close>

definition is_bx_ont :: "bx_ont_block \<Rightarrow> buffer_view \<Rightarrow> byte list \<Rightarrow> bool" where
  "is_bx_ont m v body \<longleftrightarrow> msg_is 41 v body \<and> bxo_view m = v \<and> bxo_sids_offset m = 41 + length body \<and>
     bv_ok (ob_buffer (bxo_block m)) \<and> bv_bytes (ob_buffer (bxo_block m)) = body"

lemma bx_ont_block_message_at:
  assumes v: "msg_is 41 v body" and h: "wf_ont_hdr h" "body = ser_ont_hdr h @ rest"
  obtains m where "bx_ont_block_message v (41 + length body) = Inr m" and "is_bx_ont m v body"
    and "ob_header_offset (bxo_block m) = length (ser_hashed h)" and "ob_tx_count_offset (bxo_block m) = length (ser_ont_hdr h)"
proof -
  from v obtain p tail where bytes: "bv_ok v" "length p = 41" "bv_bytes v = p @ body @ tail" by (auto simp: msg_is_def)
  have sz: "41 + length body \<le> bv_size v" using bytes length_bv_bytes [of v] by (simp add: bv_ok_def)
  have "bv_size v < 2 ^ 64" using bytes(1) bv_size_less [of v] by (simp add: bv_ok_def)
  then have sub: "u64_sub (41 + length body) 41 = length body" using sz by (simp add: u64_sub_id)
  let ?w = "bv_sub v (length body) 41"
  have w: "bv_ok ?w" "bv_bytes ?w = body" using bv_wf_sub [of v 41 "length body"] bytes sz by (simp_all add: bv_ok_def slice_middle)
  let ?m = "\<lparr>bxo_view = v, bxo_sids_offset = 41 + length body, bxo_block =
    \<lparr>ob_buffer = ?w, ob_header_offset = length (ser_hashed h), ob_tx_count_offset = length (ser_ont_hdr h)\<rparr>\<rparr>"
  have "bx_ont_block_message v (41 + length body) = Inr ?m"
    using ont_block_message_at [OF w(1) h(1), of rest] w(2) h(2) sub
    by (simp add: bx_ont_block_message_def ont_offset_diff_def ont_consts)
  then show thesis using that [of ?m] v w by (simp add: is_bx_ont_def)
qed

lemma bx_ont_get_next_tx_offset_at:
  assumes m: "is_bx_ont m v body" and body: "body = pre @ piece ser_ont_tx cmpd t @ post"
    and t: "wf_ont_tx t" "\<not> cmpd t \<longrightarrow> hd (ser_ont_tx t) \<noteq> BTC_SHORT_ID_INDICATOR"
  shows "bx_ont_get_next_tx_offset m (41 + length pre) = Inr (41 + length pre + length (piece ser_ont_tx cmpd t), cmpd t)"
proof -
  let ?p = "piece ser_ont_tx cmpd t"
  from m obtain p tail where bytes: "bv_ok v" "length p = 41" "bv_bytes v = p @ body @ tail" by (auto simp: is_bx_ont_def msg_is_def)
  have ne: "?p \<noteq> []" using length_ser_ont_tx [OF t(1)] by (auto simp: piece_def)
  have eq: "bv_bytes v = (p @ pre) @ [hd ?p] @ (tl ?p @ post @ tail)" using bytes(3) body ne by simp
  have "bv_read v (length (p @ pre)) 1 = Inr [hd ?p]" using bvs.rd_middle [OF bytes(1) eq] by simp
  then have sh: "bx_ont_is_short_transaction m (41 + length pre) = Inr (cmpd t)"
    using bytes(2) m t(2) by (simp add: bx_ont_is_short_transaction_def is_bx_ont_def bv_index_def piece_def)
  have small: "41 + length body < 2 ^ 64" using bvs.bytes_small [OF bytes(1)] bytes by simp
  show ?thesis
  proof (cases "cmpd t")
    case True
    then show ?thesis using sh small body by (simp add: bx_ont_get_next_tx_offset_def piece_def u64_id)
  next
    case False
    let ?b = "ob_buffer (bxo_block m)"
    have b: "bv_ok ?b" "bv_bytes ?b = pre @ ser_ont_tx t @ post" using m body False by (simp_all add: is_bx_ont_def piece_def)
    have "u64_sub (41 + length pre) 41 = length pre" using small body by (simp add: u64_sub_id)
    moreover have "u64 (length pre + length (ser_ont_tx t) + 41) = 41 + length pre + length (ser_ont_tx t)"
      using small body False by (simp add: u64_id piece_def)
    ultimately show ?thesis
      using sh bvs.ont_get_next_tx_offset_at [OF b(1) t(1) b(2)] False
      by (simp add: bx_ont_get_next_tx_offset_def ont_offset_diff_def ont_consts piece_def)
  qed
qed

interpretation ont_bx: bx_format ser_ont_tx wf_ont_tx 41 ont_dcm_span is_bx_ont ont_dcm_next
proof (unfold_locales, goal_cases)
  case (1 t)
  then show ?case using length_ser_ont_tx [of t] by simp
next
  case (2 m v blk pre cmpd t post)
  then show ?case using bx_ont_get_next_tx_offset_at [of m v blk pre cmpd t post] by (simp add: ont_dcm_next_def)
qed

lemma ont_msg_is:
  assumes "bv_ok v" and "bv_bytes v = bx_encode ([0] @ mroot @ body) sids" and "length mroot = 32"
  shows "msg_is 41 v body" and "get_le (bv_read v) 8 0 = Inr (41 + length body, 8)"
    and "bv_bytes v = (le_bytes 8 (41 + length body) @ [0] @ mroot) @ body @ le_bytes 4 (length sids) @ concat (map (le_bytes 4) sids)"
proof -
  show eq: "bv_bytes v = (le_bytes 8 (41 + length body) @ [0] @ mroot) @ body @ le_bytes 4 (length sids) @ concat (map (le_bytes 4) sids)"
    using assms(2,3) by (simp add: bx_encode_def del: le_bytes.simps le_bytes_numeral)
  then show "msg_is 41 v body"
    unfolding msg_is_def using assms(1,3)
    by (intro conjI exI [of _ "le_bytes 8 (41 + length body) @ [0] @ mroot"]
        exI [of _ "le_bytes 4 (length sids) @ concat (map (le_bytes 4) sids)"]) (simp_all del: le_bytes.simps le_bytes_numeral)
  show "get_le (bv_read v) 8 0 = Inr (41 + length body, 8)"
    using msg_is_encode(2) [OF assms(1,2)] assms(3) by simp
qed

lemma bx_ont_deserialize_at:
  assumes v: "bv_ok v" "bv_bytes v = bx_encode ([0] @ mroot @ body) sids" "length mroot = 32" and m: "is_bx_ont m v body"
    and sids: "list_all (\<lambda>i. i < 2 ^ 32) sids" "length sids < 2 ^ 32"
  shows "bx_ont_deserialize_short_ids m = Inr sids"
proof -
  let ?m = "\<lparr>bxb_view = v, bxb_sids_offset = 41 + length body, bxb_block = v\<rparr>"
  have f: "bxo_view m = v" "bxo_sids_offset m = 41 + length body" using m by (simp_all add: is_bx_ont_def)
  have "bx_ont_deserialize_short_ids m = deserialize_short_ids ?m"
    by (simp only: bx_ont_deserialize_short_ids_def deserialize_short_ids_def f bx_btc_block.select_convs)
  moreover have "deserialize_short_ids ?m = Inr sids"
    by (rule deserialize_short_ids_at [where pre = "(le_bytes 8 (41 + length body) @ [0] @ mroot) @ body"])
      (use v ont_msg_is(3) [OF v] sids in \<open>simp_all del: le_bytes.simps le_bytes_numeral\<close>)
  ultimately show ?thesis by simp
qed

lemma ont_original_size_at:
  assumes "msg_is 41 v (ser_ont_hdr h @ rest)" and "wf_ont_hdr h"
  shows "bx_ont_get_original_block_size v = Inr (u32 (le_val (slice 16 4 (oh_front h)) + 24))"
proof -
  from assms(1) obtain p tail where v: "bv_ok v" "length p = 41" "bv_bytes v = p @ (ser_ont_hdr h @ rest) @ tail"
    by (auto simp: msg_is_def)
  have h: "length (oh_front h) = 140" using assms(2) by (simp add: wf_ont_hdr_def)
  have "slice 57 4 (bv_bytes v) = slice 16 4 (oh_front h)"
    using v(2,3) h by (simp add: slice_append_right slice_append_left ser_ont_hdr_def ser_hashed_def)
  moreover have "57 + 4 \<le> length (bv_bytes v)" using v(2,3) h by (simp add: ser_ont_hdr_def ser_hashed_def)
  ultimately show ?thesis
    using bvs.get_le_inside [OF v(1), of 4 57]
    by (simp add: bx_ont_get_original_block_size_def ont_get_block_size_def ont_offset_diff_def ont_consts u64_id)
qed

lemma ont_dcm_parse_block_header_at:
  assumes v: "bv_ok v" "bv_bytes v = bx_encode ([0] @ mroot @ body) sids" "length mroot = 32"
    and h: "wf_ont_hdr h" "body = ser_ont_hdr h @ le_bytes 4 n @ rest" "n < 2 ^ 32"
    and sids: "list_all (\<lambda>i. i < 2 ^ 32) sids" "length sids < 2 ^ 32"
  obtains m where "ont_dcm_parse_block_header c v =
      Inr (m, 41 + length (ser_ont_hdr h @ le_bytes 4 n), c\<lparr>dt_tx_count := n, dt_sids := sids\<rparr>)"
    and "is_bx_ont m v body" and "ob_header_offset (bxo_block m) = length (ser_hashed h)"
proof -
  note ms = ont_msg_is [OF v]
  obtain m where m: "bx_ont_block_message v (41 + length body) = Inr m" "is_bx_ont m v body"
    "ob_header_offset (bxo_block m) = length (ser_hashed h)" "ob_tx_count_offset (bxo_block m) = length (ser_ont_hdr h)"
    by (rule bx_ont_block_message_at [OF ms(1) h(1,2)])
  let ?pre = "ser_ont_hdr h @ le_bytes 4 n"
  have b: "bv_ok (ob_buffer (bxo_block m))" "bv_bytes (ob_buffer (bxo_block m)) = ser_ont_hdr h @ le_bytes 4 n @ rest"
    using m(2) h(2) by (simp_all add: is_bx_ont_def)
  have "get_le (bv_read (ob_buffer (bxo_block m))) 4 (length (ser_ont_hdr h)) = Inr (n, length ?pre)"
    using bvs.get_le_at [OF b] h(3) by (simp add: le_val_le_bytes del: le_bytes.simps le_bytes_numeral)
  moreover have "u64 (41 + length ?pre) = 41 + length ?pre"
    using bvs.bytes_small [OF v(1)] ms(3) v(3) h(2) by (simp add: u64_id)
  ultimately have "bx_ont_get_tx_count m = Inr (n, 41 + length ?pre)"
    by (simp only: bx_ont_get_tx_count_def ont_get_txn_count_def m(4) ont_offset_diff_def ont_consts rbind_simps prod.case) simp
  then have "ont_dcm_parse_block_header c v = Inr (m, 41 + length ?pre, c\<lparr>dt_tx_count := n, dt_sids := sids\<rparr>)"
    using ms(2) m(1) bx_ont_deserialize_at [OF v m(2) sids] by (simp add: ont_dcm_parse_block_header_def)
  then show thesis using that m(2,3) by blast
qed

lemma ont_dcm_init_spec:
  assumes v: "msg_is 41 v (ser_ont_hdr h @ rest)" and h: "wf_ont_hdr h"
    and len: "le_val (slice 16 4 (oh_front h)) + 24 = n" "n < 2 ^ 32" and c: "ba_wf (dt_out c)" "ba_cap (dt_out c) < 2 ^ 32"
  obtains out where "ont_dcm_init shared c v = Inr (c\<lparr>dt_out := out, dt_unknown_hashes := [], dt_unknown_sids := [],
      dt_hash := None, dt_sids := [], dt_tx_count := 0\<rparr>)" and "ba_wf out" and "n \<le> ba_cap out" and "ba_len out = 0"
proof -
  have n: "bx_ont_get_original_block_size v = Inr n" using ont_original_size_at [OF v h] len by (simp add: u32_id)
  obtain out where "(if shared then Inr (ba_with_capacity (u32 (max n (ba_cap (dt_out c)))))
      else ba_reset (ba_reserve (dt_out c) (u32 (max n (ba_cap (dt_out c)))))) = Inr out"
    "ba_wf out" "n \<le> ba_cap out" "ba_len out = 0"
    by (rule dcm_init_out [OF c len(2)])
  then show thesis using that [of out] n by (simp add: ont_dcm_init_def Let_def)
qed

section \<open>The decompressed block\<close>

lemma ont_append_root:
  assumes out: "ba_wf out" "length (ba_bytes out) + 32 \<le> ba_cap out" "length (ba_bytes out) + 32 < 2 ^ 64"
    and v: "bv_ok v" "bv_bytes v = p @ mroot @ rest" "length p = 9" "length mroot = 32" and m: "bxo_view m = v"
  obtains out' out2 where "dcm_extend_output_buffer out (u64 (ba_len out + bv_size (bx_ont_merkle_root m))) = Inr out2"
    and "ba_copy_from_buffer out2 (bx_ont_merkle_root m) (ba_len out) 0 (bv_size (bx_ont_merkle_root m)) = Inr (out', ba_len out + 32)"
    and "ba_bytes out' = ba_bytes out @ mroot"
proof -
  let ?r = "bx_ont_merkle_root m"
  have r: "?r = bv_sub v 32 9" "bv_size ?r = 32" using m by (simp_all add: bx_ont_merkle_root_def ont_consts)
  have "9 + 32 \<le> bv_size v" using v length_bv_bytes [of v] by (simp add: bv_ok_def)
  then have rw: "bv_wf ?r" "bv_bytes ?r = mroot"
    using bv_wf_sub [of v 9 32] v by (simp_all add: r(1) bv_ok_def slice_middle)
  have n: "ba_len out + 32 \<le> ba_cap out" "ba_len out + 32 < 2 ^ 64" using out by simp_all
  let ?o2 = "ba_resize out (ba_len out + 32)"
  have ext: "dcm_extend_output_buffer out (u64 (ba_len out + bv_size ?r)) = Inr ?o2"
    using n r(2) by (simp add: dcm_extend_output_buffer_def u64_id)
  obtain out' where o: "ba_copy_from_buffer ?o2 ?r (ba_len out) 0 32 = Inr (out', ba_len out + 32)" "ba_wf out'"
    "ba_bytes out' = patch (ba_len out) (slice 0 32 (bv_bytes ?r))
       (ba_bytes (if ba_len ?o2 < ba_len out + 32 then ba_resize ?o2 (ba_len out + 32) else ?o2))"
    using ba_copy_from_buffer_spec [of ?o2 ?r 32 0 "ba_len out"] out(1) rw(1) r(2) n(2) by auto
  have "slice 0 32 (bv_bytes ?r) = mroot" using rw(2) v(4) by (simp add: slice_def)
  then have "ba_bytes out' = ba_bytes out @ mroot"
    using o(3) patch_resize_end [OF out(1), of "ba_len out + 32" mroot] v(4) by simp
  then show thesis using that [OF ext] o(1) r(2) by simp
qed

lemma ont_dcm_block_spec:
  assumes H: "\<And>bs. length (H bs) = 32" and pool: "0 < pool" and c: "ba_wf (dt_out c)" "ba_cap (dt_out c) < 2 ^ 32"
    and b: "wf_ont_block h ts mroot" and r: "list_all (receiver_has ser_ont_tx s cmpd sidf) ts"
    and sids: "list_all (\<lambda>t. cmpd t \<longrightarrow> sidf t < 2 ^ 32) ts"
    and v: "bv_ok v" "bv_bytes v = bx_encode ([0] @ mroot @ ser_ont_hdr h @ le_bytes 4 (length ts) @ pieces ser_ont_tx cmpd ts)
      (map sidf (filter cmpd ts))"
  shows "\<exists>c'. ont_dcm_block H s pool sched1 sched2 shared c v = Inr (s, c') \<and> dt_success c' \<and>
    ba_bytes (dt_out c') = ont_block h ts mroot \<and> dt_tx_count c' = length ts \<and>
    dt_hash c' = Some (sha_of_binary (rev (H (H (drop 24 (ser_hashed h)))))) \<and>
    dt_sids c' = map sidf (filter cmpd ts) \<and> dt_unknown_hashes c' = [] \<and> dt_unknown_sids c' = []"
proof -
  let ?pre = "ser_ont_hdr h @ le_bytes 4 (length ts)" and ?sids = "map sidf (filter cmpd ts)"
  let ?body = "ser_ont_hdr h @ le_bytes 4 (length ts) @ pieces ser_ont_tx cmpd ts" and ?n = "length (ont_block h ts mroot)"
  let ?D = "?pre @ sers ser_ont_tx ts"
  have w: "wf_ont_hdr h" "list_all wf_ont_tx ts" "length mroot = 32" "le_val (slice 16 4 (oh_front h)) + 24 = ?n" "?n < 2 ^ 32"
    using b by (simp_all add: wf_ont_block_def)
  note sizes = wf_ont_block_sizes [OF b]
  have blk: "ont_block h ts mroot = ?D @ mroot" "?n = length ?D + 32" using w(3) by (simp_all add: ont_block_def)
  note ms = ont_msg_is [OF v w(3)]
  obtain out0 where i0: "ont_dcm_init shared c v = Inr (c\<lparr>dt_out := out0, dt_unknown_hashes := [], dt_unknown_sids := [],
      dt_hash := None, dt_sids := [], dt_tx_count := 0\<rparr>)" "ba_wf out0" "?n \<le> ba_cap out0"
    by (rule ont_dcm_init_spec [OF ms(1) w(1,4,5) c])
  have ls: "list_all (\<lambda>i. i < 2 ^ 32) ?sids" "length ?sids < 2 ^ 32"
    using sids le_less_trans [OF length_filter_le sizes(1), of cmpd] by (auto simp: list_all_iff)
  define c0 where "c0 = c\<lparr>dt_out := out0, dt_unknown_hashes := [], dt_unknown_sids := [], dt_hash := None, dt_sids := [], dt_tx_count := 0\<rparr>"
  obtain m where m: "ont_dcm_parse_block_header c0 v = Inr (m, 41 + length ?pre, c0\<lparr>dt_tx_count := length ts, dt_sids := ?sids\<rparr>)"
    "is_bx_ont m v ?body" "ob_header_offset (bxo_block m) = length (ser_hashed h)"
    by (rule ont_dcm_parse_block_header_at [OF v w(3,1) refl sizes(1) ls])
  define c1 where "c1 = c0\<lparr>dt_tx_count := length ts, dt_sids := ?sids, dt_success := True,
      dt_unknown_hashes := [], dt_unknown_sids := [], dt_hash := Some (sha_of_binary (rev (H (H (drop 24 (ser_hashed h))))))\<rparr>"
  have hash: "ont_block_hash H (bxo_block m) = Inr (sha_of_binary (rev (H (H (drop 24 (ser_hashed h))))))"
    by (rule ont_hash_at [OF H _ _ w(1) m(3)]) (use m(2) in \<open>simp_all add: is_bx_ont_def\<close>)
  have ok: "dcm_ok wf_ont_tx ser_ont_tx 41 v s cmpd sidf ?pre ts"
    using ms(1) w(2,5) r sizes(1) blk(2) by (simp add: dcm_ok_def)
  have c1: "dt_sids c1 = ?sids" "dt_tx_count c1 = length ts" "ba_wf (dt_out c1)" "length ?D \<le> ba_cap (dt_out c1)"
    using i0(2,3) blk(2) by (simp_all add: c1_def c0_def)
  have m': "is_bx_ont m v (?pre @ pieces ser_ont_tx cmpd ts)" using m(2) by simp
  obtain fin c2 fins where d: "dcm_dispatch (ont_dcm_next m) 41 s c1 (41 + length ?pre) pool = Inr (fin, c2)"
    "fill_inv ont_dcm_span ?D v (dt_sids c1) s fins (length ?pre) (dt_out c2) (map dcm_start (take (fin + 1) (dt_subs c2)))"
    "\<exists>out subs. c2 = c1\<lparr>dt_out := out, dt_subs := subs\<rparr>"
    using ont_bx.dcm_dispatch_spec [OF ok refl c1 m' pool] by blast
  have "dt_sids c2 = dt_sids c1" using d(3) by auto
  moreover have "0 < length ?pre" by simp
  ultimately obtain out where f: "dcm_fill ont_dcm_span 41 s sched1 sched2 c2 v (41 + length ?pre) fin = Inr (s, out)" "ba_wf out" "ba_bytes out = ?D"
    using ont_bx.dcm_fill_spec [of v ?pre "pieces ser_ont_tx cmpd ts" ?D "sers ser_ont_tx ts" c2 s fins fin] ms(1) d(2) by auto
  have "?n \<le> ba_cap out" using dcm_fill_cap [OF f(1)] dcm_dispatch_cap [OF d(1)] i0(3) by (simp add: c1_def c0_def)
  then have cap: "length (ba_bytes out) + 32 \<le> ba_cap out" "length (ba_bytes out) + 32 < 2 ^ 64" using blk(2) f(3) w(5) by simp_all
  have vb: "bv_bytes v = (le_bytes 8 (41 + length ?body) @ [0]) @ mroot @ (?body @ le_bytes 4 (length ?sids) @ concat (map (le_bytes 4) ?sids))"
    "bxo_view m = v" using ms(3) m(2) by (simp_all add: is_bx_ont_def del: le_bytes.simps le_bytes_numeral)
  obtain out' out2 where rt: "dcm_extend_output_buffer out (u64 (ba_len out + bv_size (bx_ont_merkle_root m))) = Inr out2"
    "ba_copy_from_buffer out2 (bx_ont_merkle_root m) (ba_len out) 0 (bv_size (bx_ont_merkle_root m)) = Inr (out', ba_len out + 32)"
    "ba_bytes out' = ba_bytes out @ mroot"
    by (rule ont_append_root [OF f(2) cap v(1) vb(1) _ w(3) vb(2)]) simp_all
  have od: "ont_offset_diff = 41" by (simp add: ont_offset_diff_def ont_consts)
  have "ont_dcm_fill s sched1 sched2 c2 m v (41 + length ?pre) fin = Inr (s, c2\<lparr>dt_out := ba_set_output out'\<rparr>)"
    using f(1) rt(1,2) by (simp only: ont_dcm_fill_eq od rbind_simps prod.case)
  then have "ont_dcm_block H s pool sched1 sched2 shared c v = Inr (s, c2\<lparr>dt_out := ba_set_output out'\<rparr>)"
    using i0(1) m(1) get_missing_none [OF r] hash d(1)
    by (simp add: ont_dcm_block_def ont_dcm_execute_def ont_dcm_dispatch_eq od c1_def c0_def del: length_append)
  then show ?thesis using d(3) rt(3) f(3) blk(1) by (auto simp: c1_def c0_def)
qed

section \<open>Properties\<close>

lemma ont_encode_small:
  assumes "wf_ont_block h ts mroot"
  shows "length (bx_encode ([0] @ mroot @ ser_ont_hdr h @ le_bytes 4 (length ts) @ pieces ser_ont_tx cmpd ts)
    (piece_sids (ont_tx_hash H) s cmpd ts)) < 2 ^ 64"
proof -
  have "length (pieces ser_ont_tx cmpd ts) \<le> length (sers ser_ont_tx ts)" "length mroot = 32"
    using assms by (auto simp: wf_ont_block_def intro: ont_bx.length_pieces)
  then show ?thesis
    using wf_ont_block_sizes(3) [OF assms] length_piece_sids [of "ont_tx_hash H" s cmpd ts]
    by (simp add: bx_encode_def length_concat_le_bytes)
qed

text \<open>
  C3: a receiver that can resolve the short ids of the sender gets back, byte for byte, the Ontology
  block the sender compressed, the Merkle root at its end included, and the same block hash. This
  holds for all pool sizes on both sides, for all states the two tasks are left in by earlier
  blocks, and for every interleaving of the sub-tasks of the receiver. The sender reports exactly the
  short ids it used and those it knew but did not use, also when its sub-tasks worked on other
  blocks before.
\<close>

theorem ont_round_trip:
  assumes H: "\<And>bs. length (H bs) = 32" and c: "cmp_task_ok pool c" "0 < pool"
    and b: "wf_ont_block h ts mroot" "list_all (ont_sender_ok H s) ts" "bv_ok v" "bv_bytes v = ont_block h ts mroot"
    and r: "list_all (receiver_has ser_ont_tx s' (ont_compressed H s enable (now - age)) (\<lambda>t. tx_sid s (ont_tx_hash H t))) ts"
    and sids: "list_all (\<lambda>t. ont_compressed H s enable (now - age) t \<longrightarrow> tx_sid s (ont_tx_hash H t) < 2 ^ 32) ts"
    and d: "0 < pool'" "ba_wf (dt_out d)" "ba_cap (dt_out d) < 2 ^ 32"
  shows "\<exists>c' d'. ont_cmp_block H s pool enable now age shared c v = Inr c' \<and>
    ct_sids c' = piece_sids (ont_tx_hash H) s (ont_compressed H s enable (now - age)) ts \<and>
    ct_ignored c' = ignored_sids (ont_tx_hash H) s (ont_compressed H s enable (now - age)) ts \<and>
    ont_dcm_block H s' pool' sched1 sched2 shared' d (bv_msg (ba_bytes (ct_out c'))) = Inr (s', d') \<and>
    dt_success d' \<and> ba_bytes (dt_out d') = bv_bytes v \<and> dt_hash d' = ct_hash c'"
proof -
  let ?cmpd = "ont_compressed H s enable (now - age)"
  let ?body = "[0] @ mroot @ ser_ont_hdr h @ le_bytes 4 (length ts) @ pieces ser_ont_tx ?cmpd ts"
  obtain c' where c': "ont_cmp_block H s pool enable now age shared c v = Inr c'"
    "ba_bytes (ct_out c') = bx_encode ?body (piece_sids (ont_tx_hash H) s ?cmpd ts)"
    "ct_sids c' = piece_sids (ont_tx_hash H) s ?cmpd ts" "ct_ignored c' = ignored_sids (ont_tx_hash H) s ?cmpd ts"
    "ct_hash c' = Some (sha_of_binary (rev (H (H (drop 24 (ser_hashed h))))))"
    using ont_cmp_block_spec [OF H c b refl, of enable now age shared] by blast
  have ok: "bv_ok (bv_msg (ba_bytes (ct_out c')))" using ont_encode_small [OF b(1), of ?cmpd H s] unfolding bv_ok_msg c'(2) .
  have bytes: "bv_bytes (bv_msg (ba_bytes (ct_out c'))) = bx_encode ?body (map (\<lambda>t. tx_sid s (ont_tx_hash H t)) (filter ?cmpd ts))"
    unfolding bv_msg_simps c'(2) piece_sids_def ..
  obtain d' where "ont_dcm_block H s' pool' sched1 sched2 shared' d (bv_msg (ba_bytes (ct_out c'))) = Inr (s', d')"
    "dt_success d'" "ba_bytes (dt_out d') = ont_block h ts mroot" "dt_hash d' = Some (sha_of_binary (rev (H (H (drop 24 (ser_hashed h))))))"
    using ont_dcm_block_spec [where H = H and ?sched1.0 = sched1 and ?sched2.0 = sched2 and shared = shared', OF H d b(1) r sids ok bytes]
    by blast
  with c' b(4) show ?thesis by auto
qed

text \<open>An example: a block of an invocation that has a short id and a deployment that has none.\<close>

definition ont_demo_invoke :: ont_tx where
  "ont_demo_invoke = \<lparr>ot_version = 0, ot_type = 0xd1, ot_head = replicate 40 5, ot_payload = Ont_Invoke ([2], [7, 8]),
     ot_attrs = [0], ot_sigs_len = [1], ot_sigs = [(([1], [9]), ([0], []))]\<rparr>"

definition ont_demo_deploy :: ont_tx where
  "ont_demo_deploy = \<lparr>ot_version = 0, ot_type = 0xd0, ot_head = replicate 40 6,
     ot_payload = Ont_Deploy ([1], [3]) 1 (replicate 5 ([0], [])), ot_attrs = [0], ot_sigs_len = [0], ot_sigs = []\<rparr>"

definition ont_demo_hdr :: ont_hdr where
  "ont_demo_hdr = \<lparr>oh_front = replicate 16 0 @ [55, 1, 0, 0] @ replicate 120 0, oh_consensus = ([0], []), oh_next = replicate 20 0,
     oh_keepers_len = [1], oh_keepers = [([33], replicate 33 2)], oh_sigs_len = [0], oh_sigs = []\<rparr>"

definition ont_demo_block :: buffer_view where
  "ont_demo_block = bv_msg (ont_block ont_demo_hdr [ont_demo_invoke, ont_demo_deploy] (replicate 32 4))"

definition ont_demo_hash :: hash where
  "ont_demo_hash = rev ([0, 0xd1] @ replicate 30 5)"

definition ont_demo_receiver :: tx_service where
  "ont_demo_receiver = (sid_service ont_demo_hash)\<lparr>ts_contents := mw_emplace contents_size (ts_contents (sid_service ont_demo_hash))
     ont_demo_hash (Some (bv_msg (ser_ont_tx ont_demo_invoke)))\<rparr>"

lemma ont_demo_ser:
  "ser_ont_tx ont_demo_invoke = [0, 0xd1] @ replicate 40 5 @ [2, 7, 8, 0, 1, 1, 9, 0]"
  "ser_ont_tx ont_demo_deploy = [0, 0xd0] @ replicate 40 6 @ [1, 3, 1] @ replicate 5 0 @ [0, 0]"
  "ser_unsigned ont_demo_invoke = [0, 0xd1] @ replicate 40 5 @ [2, 7, 8, 0]"
  "ser_unsigned ont_demo_deploy = [0, 0xd0] @ replicate 40 6 @ [1, 3, 1] @ replicate 5 0 @ [0]"
  by (simp_all add: ont_demo_invoke_def ont_demo_deploy_def ser_ont_tx_def ser_unsigned_def ser_item_def sig_items_def
      numeral_eq_Suc)

lemma ont_demo_hashes:
  "ont_tx_hash demo_H ont_demo_invoke = ont_demo_hash" "ont_tx_hash demo_H ont_demo_deploy \<noteq> ont_demo_hash"
  by (simp_all add: ont_tx_hash_def ont_demo_ser ont_demo_hash_def demo_H_def take_append)

lemma ont_demo_block_facts:
  "wf_ont_block ont_demo_hdr [ont_demo_invoke, ont_demo_deploy] (replicate 32 4)" "bv_ok ont_demo_block"
  "bv_bytes ont_demo_block = ont_block ont_demo_hdr [ont_demo_invoke, ont_demo_deploy] (replicate 32 4)"
proof -
  have tx: "wf_ont_tx ont_demo_invoke" "wf_ont_tx ont_demo_deploy"
    by (simp_all add: wf_ont_tx_def ont_demo_invoke_def ont_demo_deploy_def ont_consts wf_item_def wf_vi_def vi_val_def btc_consts
        sig_items_def list_all_iff)
  have h: "wf_ont_hdr ont_demo_hdr"
    by (simp add: wf_ont_hdr_def ont_demo_hdr_def wf_item_def wf_vi_def vi_val_def btc_consts)
  have "length (ser_ont_hdr ont_demo_hdr) = 197" by (simp add: ser_ont_hdr_def ser_hashed_def ont_demo_hdr_def ser_item_def)
  then have len: "length (ont_block ont_demo_hdr [ont_demo_invoke, ont_demo_deploy] (replicate 32 4)) = 335"
    by (simp add: ont_block_def ont_demo_ser)
  have "le_val (slice 16 4 (oh_front ont_demo_hdr)) = 311" by (simp add: ont_demo_hdr_def slice_def)
  then show "wf_ont_block ont_demo_hdr [ont_demo_invoke, ont_demo_deploy] (replicate 32 4)"
    using tx h len by (simp add: wf_ont_block_def)
  show "bv_ok ont_demo_block" "bv_bytes ont_demo_block = ont_block ont_demo_hdr [ont_demo_invoke, ont_demo_deploy] (replicate 32 4)"
    using len by (simp_all add: ont_demo_block_def)
qed

lemma ont_demo_senders:
  assumes "s = sid_service ont_demo_hash"
  shows "ont_compressed demo_H s True 0 ont_demo_invoke" "\<not> ont_compressed demo_H s True 0 ont_demo_deploy"
    "tx_sid s ont_demo_hash = 7" "list_all (ont_sender_ok demo_H s) [ont_demo_invoke, ont_demo_deploy]"
  using ont_demo_hashes
  by (simp_all add: assms sid_usable_def has_short_id_hash_def sid_service_facts cmp_assign_time_def get_short_id_def
      tx_sid_def sid_resolved_def)

lemma ont_demo_receiver_ok:
  "receiver_has ser_ont_tx ont_demo_receiver (ont_compressed demo_H (sid_service ont_demo_hash) True 0)
     (\<lambda>t. tx_sid (sid_service ont_demo_hash) (ont_tx_hash demo_H t)) ont_demo_invoke"
proof -
  have "ts_hash ont_demo_receiver 7 = Some ont_demo_hash" by (simp add: ont_demo_receiver_def sid_service_facts)
  moreover have "mw_find (ts_contents ont_demo_receiver) ont_demo_hash = Some (Some (bv_msg (ser_ont_tx ont_demo_invoke)))"
    by (simp add: ont_demo_receiver_def sid_service_facts ts_new_def mw_find_def mw_emplace_def mw_new_def)
  ultimately show ?thesis
    using ont_demo_senders [OF refl] ont_demo_hashes(1) by (simp add: receiver_has_def ont_demo_ser NULL_TX_SID_def)
qed

theorem ont_round_trip_witness:
  "\<exists>c' d'. ont_cmp_block demo_H (sid_service ont_demo_hash) 2 True 10 10 False (ont_cmp_task_new 1000 1) ont_demo_block = Inr c' \<and>
    ct_sids c' = [7] \<and>
    ont_dcm_block demo_H ont_demo_receiver 2 [1, 0, 1] [0] False (ont_dcm_task_new 1000 1) (bv_msg (ba_bytes (ct_out c'))) =
      Inr (ont_demo_receiver, d') \<and>
    ba_bytes (dt_out d') = bv_bytes ont_demo_block"
proof -
  let ?s = "sid_service ont_demo_hash" and ?ts = "[ont_demo_invoke, ont_demo_deploy]"
  note f = ont_demo_senders [OF refl] ont_demo_hashes
  have r: "list_all (receiver_has ser_ont_tx ont_demo_receiver (ont_compressed demo_H ?s True (10 - 10))
      (\<lambda>t. tx_sid ?s (ont_tx_hash demo_H t))) ?ts"
    using ont_demo_receiver_ok f(2) by (simp add: receiver_has_def [of _ _ _ _ ont_demo_deploy] ont_demo_ser BTC_SHORT_ID_INDICATOR_def)
  have i: "list_all (\<lambda>t. ont_compressed demo_H ?s True (10 - 10) t \<longrightarrow> tx_sid ?s (ont_tx_hash demo_H t) < 2 ^ 32) ?ts"
    using f by simp
  have c: "cmp_task_ok 2 (ont_cmp_task_new 1000 1)" by (simp add: cmp_task_ok_def ont_cmp_task_new_def)
  have d: "ba_wf (dt_out (ont_dcm_task_new 1000 1))" "ba_cap (dt_out (ont_dcm_task_new 1000 1)) < 2 ^ 32"
    by (simp add: ont_dcm_task_new_def, simp add: ont_dcm_task_new_def ba_with_capacity_def)
  have "piece_sids (ont_tx_hash demo_H) ?s (ont_compressed demo_H ?s True (10 - 10)) ?ts = [7]"
    using f by (simp add: piece_sids_def)
  with ont_round_trip [where H = demo_H and pool' = 2 and ?sched1.0 = "[1, 0, 1]" and ?sched2.0 = "[0]" and shared = False and shared' = False,
      OF length_demo_H c _ ont_demo_block_facts(1) f(4) ont_demo_block_facts(2,3) r i _ d]
  show ?thesis by fastforce
qed

end
