(* ===== verification/CleanupProps.thy ===== *)
theory CleanupProps
  imports CleanupTasks TxServiceProps OntDecompressionProps "HOL-Library.Multiset"
begin

text \<open>
  What the cleanup tasks do to the transaction service: exactly the transactions of the block (or of
  the confirmation message) are forgotten, however the sub-tasks were interleaved. The locale
  \<open>clean_format\<close> states what a cleanup task needs of a transaction format; it is interpreted for the
  Bitcoin and for the Ontology task.
\<close>

section \<open>The shared vectors\<close>

fun push_sid :: "push \<Rightarrow> sid list" where
  "push_sid (Push_Sid i) = [i]"
| "push_sid _ = []"

fun push_unknown :: "push \<Rightarrow> hash list" where
  "push_unknown (Push_Unknown h) = [h]"
| "push_unknown _ = []"

fun push_hash :: "push \<Rightarrow> hash list" where
  "push_hash (Push_Hash h) = [h]"
| "push_hash _ = []"

definition pushed :: "push list \<Rightarrow> clean_task \<Rightarrow> clean_task \<Rightarrow> bool" where
  "pushed ps c c' \<longleftrightarrow>
     mset (bt_sids c') = mset (bt_sids c) + mset (concat (map push_sid ps)) \<and>
     mset (bt_unknown c') = mset (bt_unknown c) + mset (concat (map push_unknown ps)) \<and>
     mset (bt_hashes c') = mset (bt_hashes c) + mset (concat (map push_hash ps)) \<and>
     bt_tx_count c' = bt_tx_count c \<and> bt_min_count c' = bt_min_count c"

lemma pushed_Nil: "pushed [] c c"
  by (simp add: pushed_def)

lemma pushed_Cons: "pushed ps (do_push p c) c' \<Longrightarrow> mset qs = add_mset p (mset ps) \<Longrightarrow> pushed qs c c'"
proof -
  assume a: "pushed ps (do_push p c) c'" and m: "mset qs = add_mset p (mset ps)"
  have e: "mset (concat (map f qs)) = mset (f p) + mset (concat (map f ps))" for f :: "push \<Rightarrow> 'a list"
  proof -
    have "mset (concat (map f qs)) = (\<Sum>x\<in>#mset qs. mset (f x))"
      by (simp add: mset_concat flip: mset_map sum_mset_sum_list)
        (simp add: comp_def flip: sum_mset_sum_list mset_map)
    also have "\<dots> = mset (f p) + (\<Sum>x\<in>#mset ps. mset (f x))" by (simp add: m)
    also have "(\<Sum>x\<in>#mset ps. mset (f x)) = mset (concat (map f ps))"
      by (simp add: mset_concat comp_def flip: sum_mset_sum_list mset_map)
    finally show ?thesis .
  qed
  show ?thesis using a by (cases p) (simp_all add: pushed_def e)
qed

lemma pushed_fold: "pushed ps c (fold do_push ps c)"
proof (induction ps arbitrary: c)
  case (Cons p ps)
  then show ?case using pushed_Cons [of ps p c _ "p # ps"] by simp
qed (simp add: pushed_Nil)

lemma pushed_run: "pushed (concat qs) c (run_pushes sched qs c)"
proof (induction sched qs c rule: run_pushes.induct)
  case (2 i "is" qs c)
  show ?case
  proof (cases "i < length qs")
    case True
    show ?thesis
    proof (cases "qs ! i")
      case (Cons p ps)
      have "pushed (concat (qs[i := ps])) (do_push p c) (run_pushes is (qs[i := ps]) (do_push p c))"
        by (rule "2.IH"(2) [OF True Cons])
      moreover have "mset (concat qs) = add_mset p (mset (concat (qs[i := ps])))"
      proof -
        have q: "qs = take i qs @ (p # ps) # drop (Suc i) qs" using id_take_nth_drop [OF True] Cons by simp
        have "concat (qs[i := ps]) = concat (take i qs) @ ps @ concat (drop (Suc i) qs)"
          using True by (simp add: upd_conv_take_nth_drop)
        moreover have "concat qs = concat (take i qs) @ (p # ps) @ concat (drop (Suc i) qs)"
          by (subst q) simp
        ultimately show ?thesis by simp
      qed
      ultimately show ?thesis using True Cons by (simp add: pushed_Cons)
    qed (use True "2.IH"(1) in simp)
  qed (use "2.IH"(3) in simp)
qed (simp add: pushed_fold)

definition tx_sids :: "tx_service \<Rightarrow> hash \<Rightarrow> sid list" where
  "tx_sids s h = (case ts_sids s h of None \<Rightarrow> [] | Some xs \<Rightarrow> xs)"

lemma pushes_of_txs:
  "concat (map push_hash (concat (map (clean_tx s) hs))) = hs"
  "concat (map push_unknown (concat (map (clean_tx s) hs))) = filter (\<lambda>h. \<not> has_short_id_hash s h) hs"
  "concat (map push_sid (concat (map (clean_tx s) hs))) = concat (map (tx_sids s) (filter (has_short_id_hash s) hs))"
proof -
  have m: "concat (map push_sid (map Push_Sid xs)) = xs" "concat (map push_hash (map Push_Sid xs)) = []"
    "concat (map push_unknown (map Push_Sid xs)) = []" for xs
    by (induction xs) auto
  show "concat (map push_hash (concat (map (clean_tx s) hs))) = hs"
    "concat (map push_unknown (concat (map (clean_tx s) hs))) = filter (\<lambda>h. \<not> has_short_id_hash s h) hs"
    "concat (map push_sid (concat (map (clean_tx s) hs))) = concat (map (tx_sids s) (filter (has_short_id_hash s) hs))"
    by (induction hs) (simp_all add: clean_tx_def m tx_sids_def del: map_map)
qed

section \<open>Cleanup of a block\<close>

locale clean_format =
  fixes ser :: "'t \<Rightarrow> byte list"
    and wft :: "'t \<Rightarrow> bool"
    and hash :: "'t \<Rightarrow> hash"
    and tup :: "nat \<Rightarrow> 't \<Rightarrow> nat \<times> nat \<times> nat"
    and nxt :: "reader \<Rightarrow> nat \<Rightarrow> (nat \<times> nat \<times> nat \<times> nat) res"
    and txid :: "buffer_view \<Rightarrow> nat \<times> nat \<times> nat \<Rightarrow> hash res"
  assumes nxt_at: "bv_ok v \<Longrightarrow> wft t \<Longrightarrow> bv_bytes v = pre @ ser t @ post \<Longrightarrow>
      nxt (bv_read v) (length pre) = Inr (length pre + length (ser t), tup (length pre) t)"
    and txid_at: "bv_ok v \<Longrightarrow> wft t \<Longrightarrow> bv_bytes v = pre @ ser t @ post \<Longrightarrow> txid v (tup (length pre) t) = Inr (hash t)"
begin

lemma cut_spec:
  assumes "bv_ok v" and "list_all wft ts" and "bv_bytes v = pre @ sers ser ts @ post"
  shows "\<exists>tasks'. clean_cut (nxt (bv_read v)) pool bulk (length ts) cnt (length pre) p offs tasks = Inr tasks' \<and>
    concat tasks' = concat tasks @ offs @ offsets_at tup ser (length pre) ts"
  using assms(2,3)
proof (induction ts arbitrary: pre cnt p offs tasks)
  case (Cons t ts)
  let ?pre = "pre @ ser t"
  have nx: "nxt (bv_read v) (length pre) = Inr (length ?pre, tup (length pre) t)"
    using nxt_at [OF assms(1), of t pre "sers ser ts @ post"] Cons.prems by simp
  have ih: "\<exists>tasks'. clean_cut (nxt (bv_read v)) pool bulk (length ts) cnt (length ?pre) p offs tasks = Inr tasks' \<and>
      concat tasks' = concat tasks @ offs @ offsets_at tup ser (length ?pre) ts" for cnt p offs tasks
    by (rule Cons.IH) (use Cons.prems in simp_all)
  show ?case
  proof (cases "p < bulk_idx pool bulk cnt")
    case True
    obtain tasks' where "clean_cut (nxt (bv_read v)) pool bulk (length ts) (cnt + 1) (length ?pre) (bulk_idx pool bulk cnt) []
        (tasks @ [offs @ [tup (length pre) t]]) = Inr tasks'"
      "concat tasks' = concat (tasks @ [offs @ [tup (length pre) t]]) @ [] @ offsets_at tup ser (length ?pre) ts"
      using ih by blast
    then show ?thesis using nx True by simp
  next
    case False
    obtain tasks' where "clean_cut (nxt (bv_read v)) pool bulk (length ts) (cnt + 1) (length ?pre) (bulk_idx pool bulk cnt)
        (offs @ [tup (length pre) t]) tasks = Inr tasks'"
      "concat tasks' = concat tasks @ (offs @ [tup (length pre) t]) @ offsets_at tup ser (length ?pre) ts"
      using ih by blast
    then show ?thesis using nx False by simp
  qed
qed simp

lemma clean_txs_spec:
  assumes "bv_ok v" and "list_all wft ts" and "bv_bytes v = pre @ sers ser ts @ post"
  shows "clean_txs (txid v) s (offsets_at tup ser (length pre) ts) = Inr (concat (map (clean_tx s) (map hash ts)))"
  using assms(2,3)
proof (induction ts arbitrary: pre)
  case (Cons t ts)
  have "txid v (tup (length pre) t) = Inr (hash t)"
    using txid_at [OF assms(1), of t pre "sers ser ts @ post"] Cons.prems by simp
  moreover have "clean_txs (txid v) s (offsets_at tup ser (length (pre @ ser t)) ts) = Inr (concat (map (clean_tx s) (map hash ts)))"
    by (rule Cons.IH) (use Cons.prems in simp_all)
  ultimately show ?case by simp
qed simp

lemma sub_tasks_spec:
  assumes "bv_ok v" and "list_all wft ts" and "bv_bytes v = pre @ sers ser ts @ post"
    and "concat tasks = offsets_at tup ser (length pre) ts"
  shows "\<exists>qs. clean_sub_tasks (clean_txs (txid v) s) tasks = Inr qs \<and> concat qs = concat (map (clean_tx s) (map hash ts))"
  using assms(2-4)
proof (induction tasks arbitrary: pre ts)
  case Nil
  then have "ts = []" by (metis concat.simps(1) length_0_conv length_offsets_at)
  then show ?case by simp
next
  case (Cons offs tasks)
  have "offs @ concat tasks = offsets_at tup ser (length pre) ts" using Cons.prems(3) by simp
  then obtain ts1 ts2 where sp: "ts = ts1 @ ts2" "offs = offsets_at tup ser (length pre) ts1"
    "concat tasks = offsets_at tup ser (length pre + length (sers ser ts1)) ts2"
    by (rule offsets_at_split)
  have "clean_txs (txid v) s offs = Inr (concat (map (clean_tx s) (map hash ts1)))"
    unfolding sp(2) by (rule clean_txs_spec [OF assms(1), where post = "sers ser ts2 @ post"]) (use Cons.prems sp(1) in simp_all)
  moreover obtain qs where "clean_sub_tasks (clean_txs (txid v) s) tasks = Inr qs" "concat qs = concat (map (clean_tx s) (map hash ts2))"
    using Cons.IH [of ts2 "pre @ sers ser ts1"] Cons.prems sp by auto
  ultimately show ?case using sp(1) by auto
qed

text \<open>From the first transaction to the end of \<^verbatim>\<open>_clean_transactions\<close>.\<close>

lemma clean_spec:
  assumes s: "ts_wf s" and v: "bv_ok v" "bv_bytes v = pre @ sers ser ts @ post" and ts: "list_all wft ts"
    and c: "bt_sids c = []" "bt_hashes c = []" "bt_unknown c = []"
  obtains tasks qs c' s' where
    "clean_cut (nxt (bv_read v)) pool bulk (length ts) 0 (length pre) 0 [] [] = Inr tasks"
    and "clean_sub_tasks (clean_txs (txid v) s) tasks = Inr qs"
    and "run_pushes sched qs c = c'"
    and "remove_transactions_by_hashes t s (bt_hashes c') = Inr (u64 (contents_total s (hash ` set ts)), s')"
    and "forgets (hash ` set ts) s s'" and "mset (bt_hashes c') = mset (map hash ts)"
    and "mset (bt_unknown c') = mset (filter (\<lambda>h. \<not> has_short_id_hash s h) (map hash ts))"
    and "mset (bt_sids c') = mset (concat (map (tx_sids s) (filter (has_short_id_hash s) (map hash ts))))"
    and "bt_tx_count c' = bt_tx_count c"
proof -
  obtain tasks where t: "clean_cut (nxt (bv_read v)) pool bulk (length ts) 0 (length pre) 0 [] [] = Inr tasks"
    "concat tasks = offsets_at tup ser (length pre) ts"
    using cut_spec [OF v(1) ts v(2), of pool bulk 0 0 "[]" "[]"] by auto
  obtain qs where q: "clean_sub_tasks (clean_txs (txid v) s) tasks = Inr qs" "concat qs = concat (map (clean_tx s) (map hash ts))"
    using sub_tasks_spec [OF v(1) ts v(2) t(2)] by blast
  define c' where "c' = run_pushes sched qs c"
  have p: "pushed (concat (map (clean_tx s) (map hash ts))) c c'"
    unfolding c'_def q(2) [symmetric] by (rule pushed_run)
  have h: "mset (bt_hashes c') = mset (map hash ts)"
    "mset (bt_unknown c') = mset (filter (\<lambda>h. \<not> has_short_id_hash s h) (map hash ts))"
    "mset (bt_sids c') = mset (concat (map (tx_sids s) (filter (has_short_id_hash s) (map hash ts))))"
    using p c unfolding pushed_def pushes_of_txs by simp_all
  have "set (bt_hashes c') = hash ` set ts" using mset_eq_setD [OF h(1)] by simp
  then obtain s' where "remove_transactions_by_hashes t s (bt_hashes c') = Inr (u64 (contents_total s (hash ` set ts)), s')"
    "forgets (hash ` set ts) s s'"
    using remove_by_hashes_forgets [OF s, of t "bt_hashes c'"] by auto
  with t(1) q(1) h p show thesis using that [of tasks qs c' s'] by (simp add: c'_def pushed_def)
qed

end

interpretation btc_clean: clean_format ser_tx "btc_tx_ok H" "tx_hash H" btc_tup btc_clean_next "btc_clean_tx_id H"
  for H
proof (unfold_locales, goal_cases)
  case (1 v t pre post)
  then show ?case using bvs.get_next_tx_offset_at [of v t pre post] by (simp add: btc_tx_ok_def btc_clean_next_def btc_tup_def)
next
  case (2 v t pre post)
  then have "get_tx_id H v (length pre) (fst (snd (btc_tup (length pre) t))) (snd (snd (btc_tup (length pre) t))) =
      Inr (sha_of_binary (tx_hash H t))"
    unfolding tx_hash_def
    by (intro get_tx_id_at) (auto simp: btc_tx_ok_def btc_tup_def bvs.get_next_tx_offset_at [of v t pre post])
  then show ?case by (simp add: btc_clean_tx_id_def btc_tup_def)
qed

definition ont_clean_tup :: "nat \<Rightarrow> ont_tx \<Rightarrow> nat \<times> nat \<times> nat" where
  "ont_clean_tup pos t = (pos, 0, pos + length (ser_ont_tx t))"

interpretation ont_clean: clean_format ser_ont_tx "ont_tx_ok H" "ont_tx_hash H" ont_clean_tup ont_clean_next "ont_clean_tx_id H"
  for H
proof (unfold_locales, goal_cases)
  case (1 v t pre post)
  then show ?case using bvs.ont_get_next_tx_offset_at [of v t pre post]
    by (simp add: ont_tx_ok_def ont_clean_next_def ont_clean_tup_def)
next
  case (2 v t pre post)
  then show ?case using ont_get_tx_id_at [of v t pre post H]
    by (simp add: ont_clean_tx_id_def ont_clean_tup_def ont_tx_hash_def ont_tx_ok_def)
qed

lemma btc_clean_block_spec:
  assumes s: "ts_wf s" and H: "\<And>bs. length (H bs) = 32" and b: "wf_block hdr vi ts"
    and v: "bv_ok v" "bv_bytes v = btc_block hdr vi ts"
  shows "\<exists>s' c'. btc_clean_block H t s pool sched c v = Inr (s', c') \<and> forgets (tx_hash H ` set ts) s s' \<and>
    bt_tx_count c' = length ts \<and> bt_removed c' = u64 (contents_total s (tx_hash H ` set ts)) \<and>
    mset (bt_hashes c') = mset (map (tx_hash H) ts) \<and>
    mset (bt_unknown c') = mset (filter (\<lambda>h. \<not> has_short_id_hash s h) (map (tx_hash H) ts)) \<and>
    mset (bt_sids c') = mset (concat (map (tx_sids s) (filter (has_short_id_hash s) (map (tx_hash H) ts))))"
proof -
  define c1 where "c1 = (btc_clean_init c)\<lparr>bt_tx_count := length ts\<rparr>"
  have c1: "bt_sids c1 = []" "bt_hashes c1 = []" "bt_unknown c1 = []" by (simp_all add: c1_def btc_clean_init_def)
  have bytes: "bv_bytes v = (hdr @ vi) @ ser_txs ts @ []" and ts: "list_all (btc_tx_ok H) ts"
    using v(2) b H by (simp_all add: btc_block_def wf_block_def list_all_iff btc_tx_ok_def)
  obtain tasks qs c' s' where e: "clean_cut (btc_clean_next (bv_read v)) pool (max (length ts div pool) (max pool (bt_min_count c1)))
      (length ts) 0 (length (hdr @ vi)) 0 [] [] = Inr tasks"
    "clean_sub_tasks (clean_txs (btc_clean_tx_id H v) s) tasks = Inr qs" "run_pushes sched qs c1 = c'"
    "remove_transactions_by_hashes t s (bt_hashes c') = Inr (u64 (contents_total s (tx_hash H ` set ts)), s')"
    "forgets (tx_hash H ` set ts) s s'" "mset (bt_hashes c') = mset (map (tx_hash H) ts)"
    "mset (bt_unknown c') = mset (filter (\<lambda>h. \<not> has_short_id_hash s h) (map (tx_hash H) ts))"
    "mset (bt_sids c') = mset (concat (map (tx_sids s) (filter (has_short_id_hash s) (map (tx_hash H) ts))))"
    "bt_tx_count c' = bt_tx_count c1"
    by (rule btc_clean.clean_spec [OF s v(1) bytes ts c1])
  have "btc_clean_execute H s pool sched (btc_clean_init c) v = Inr c'"
    using e(1-3) by (simp only: btc_clean_execute_def block_header_reads(3) [OF H b v] btc_clean_sub_execute_def rbind_simps
        prod.case Let_def c1_def [symmetric])
  then show ?thesis using e(4-9) by (simp add: btc_clean_block_def btc_clean_transactions_def c1_def)
qed

lemma ont_clean_block_spec:
  assumes s: "ts_wf s" and H: "\<And>bs. length (H bs) = 32" and b: "wf_ont_block h ts mroot"
    and v: "bv_ok v" "bv_bytes v = ont_block h ts mroot"
  shows "\<exists>s' c'. ont_clean_block H t s pool sched c v = Inr (s', c') \<and> forgets (ont_tx_hash H ` set ts) s s' \<and>
    bt_tx_count c' = length ts \<and> bt_removed c' = u64 (contents_total s (ont_tx_hash H ` set ts)) \<and>
    mset (bt_hashes c') = mset (map (ont_tx_hash H) ts) \<and>
    mset (bt_unknown c') = mset (filter (\<lambda>h. \<not> has_short_id_hash s h) (map (ont_tx_hash H) ts)) \<and>
    mset (bt_sids c') = mset (concat (map (tx_sids s) (filter (has_short_id_hash s) (map (ont_tx_hash H) ts))))"
proof -
  define c1 where "c1 = (ont_clean_init c)\<lparr>bt_tx_count := length ts\<rparr>"
  have c1: "bt_sids c1 = []" "bt_hashes c1 = []" "bt_unknown c1 = []" by (simp_all add: c1_def ont_clean_init_def)
  let ?pre = "ser_ont_hdr h @ le_bytes 4 (length ts)"
  have bytes: "bv_bytes v = ?pre @ sers ser_ont_tx ts @ mroot" and ts: "list_all (ont_tx_ok H) ts"
    using v(2) b H by (simp_all add: ont_block_def wf_ont_block_def list_all_iff ont_tx_ok_def del: le_bytes.simps le_bytes_numeral)
  have pre: "length ?pre = length (ser_ont_hdr h) + 4" by (simp del: le_bytes.simps le_bytes_numeral)
  note hd = ont_header_reads [OF H b v refl]
  obtain tasks qs c' s' where e: "clean_cut (ont_clean_next (bv_read v)) pool (max (length ts div pool) (max pool (bt_min_count c1)))
      (length ts) 0 (length ?pre) 0 [] [] = Inr tasks"
    "clean_sub_tasks (clean_txs (ont_clean_tx_id H v) s) tasks = Inr qs" "run_pushes sched qs c1 = c'"
    "remove_transactions_by_hashes t s (bt_hashes c') = Inr (u64 (contents_total s (ont_tx_hash H ` set ts)), s')"
    "forgets (ont_tx_hash H ` set ts) s s'" "mset (bt_hashes c') = mset (map (ont_tx_hash H) ts)"
    "mset (bt_unknown c') = mset (filter (\<lambda>h. \<not> has_short_id_hash s h) (map (ont_tx_hash H) ts))"
    "mset (bt_sids c') = mset (concat (map (tx_sids s) (filter (has_short_id_hash s) (map (ont_tx_hash H) ts))))"
    "bt_tx_count c' = bt_tx_count c1"
    by (rule ont_clean.clean_spec [OF s v(1) bytes ts c1])
  have "ont_clean_execute H s pool sched (ont_clean_init c) v = Inr c'"
    using e(1-3) by (simp only: ont_clean_execute_def hd(1,4) ont_clean_sub_execute_def rbind_simps prod.case Let_def pre
        c1_def [symmetric])
  then show ?thesis using e(4-9) by (simp add: ont_clean_block_def ont_clean_transactions_def c1_def)
qed

text \<open>
  C20: cleaning up after a Bitcoin block makes the service forget the transactions of the block and no
  other: their short ids, the short id table entries and the contents are gone, everything else is
  unchanged. For every interleaving of the sub-tasks the task reports the short ids of the block's
  transactions, the hashes that had none, the number of transactions and the bytes removed.
\<close>

theorem btc_cleanup_forgets_block:
  assumes "ts_wf s" and "\<And>bs. length (H bs) = 32" and "wf_block hdr vi ts" and "0 < pool"
    and "bv_ok v" and "bv_bytes v = btc_block hdr vi ts"
  shows "\<exists>s' c'. btc_clean_block H t s pool sched c v = Inr (s', c') \<and> forgets (tx_hash H ` set ts) s s' \<and>
    bt_tx_count c' = length ts \<and> bt_removed c' = u64 (contents_total s (tx_hash H ` set ts)) \<and>
    mset (bt_unknown c') = mset (filter (\<lambda>h. \<not> has_short_id_hash s h) (map (tx_hash H) ts)) \<and>
    mset (bt_sids c') = mset (concat (map (tx_sids s) (filter (has_short_id_hash s) (map (tx_hash H) ts))))"
  using btc_clean_block_spec [where H = H and t = t and pool = pool and sched = sched and c = c, OF assms(1,2,3,5,6)] by blast

text \<open>
  The same for an Ontology block: its transactions are forgotten, and no other.
\<close>

theorem ont_cleanup_forgets_block:
  assumes "ts_wf s" and "\<And>bs. length (H bs) = 32" and "wf_ont_block h ts mroot" and "0 < pool"
    and "bv_ok v" and "bv_bytes v = ont_block h ts mroot"
  shows "\<exists>s' c'. ont_clean_block H t s pool sched c v = Inr (s', c') \<and> forgets (ont_tx_hash H ` set ts) s s' \<and>
    bt_tx_count c' = length ts \<and> bt_removed c' = u64 (contents_total s (ont_tx_hash H ` set ts)) \<and>
    mset (bt_unknown c') = mset (filter (\<lambda>h. \<not> has_short_id_hash s h) (map (ont_tx_hash H) ts)) \<and>
    mset (bt_sids c') = mset (concat (map (tx_sids s) (filter (has_short_id_hash s) (map (ont_tx_hash H) ts))))"
  using ont_clean_block_spec [where H = H and t = t and pool = pool and sched = sched and c = c, OF assms(1,2,3,5,6)] by blast

lemma ts_wf_sid_service: "ts_wf (sid_service h)"
  using ts_wf_assign_short_id [OF ts_wf_new(1) placement_Cons] by (simp add: sid_service_def)

theorem btc_cleanup_forgets_block_witness:
  "\<exists>s' c'. btc_clean_block demo_H 1 demo_sender 2 [1, 0, 0, 1] (btc_clean_task_new 99 1) demo_block = Inr (s', c') \<and>
    ts_sids s' (tx_hash demo_H (demo_tx 1)) = None \<and> bt_tx_count c' = 2 \<and> bt_removed c' = 0 \<and> bt_sids c' = [7]"
proof -
  have s: "ts_wf demo_sender" by (simp add: demo_sender_def ts_wf_sid_service)
  have m: "contents_total demo_sender F = 0" for F
    by (simp add: contents_total_def contents_len_def demo_sender_facts ts_new_def mw_new_def)
  show ?thesis
    using btc_cleanup_forgets_block [where H = demo_H and pool = 2 and t = 1 and sched = "[1, 0, 0, 1]" and c = "btc_clean_task_new 99 1",
        OF s length_demo_H demo_block_facts(1) _ demo_block_facts(2,3)]
    by (auto simp: m u64_def forgets_def has_short_id_hash_def demo_sender_facts demo_hash tx_sids_def)
qed

theorem ont_cleanup_forgets_block_witness:
  "\<exists>s' c'. ont_clean_block demo_H 1 (sid_service ont_demo_hash) 2 [0, 1] (ont_clean_task_new 1) ont_demo_block = Inr (s', c') \<and>
    ts_sids s' ont_demo_hash = None \<and> bt_tx_count c' = 2 \<and> bt_sids c' = [7]"
  using ont_cleanup_forgets_block [where H = demo_H and pool = 2 and t = 1 and sched = "[0, 1]" and c = "ont_clean_task_new 1",
      OF ts_wf_sid_service [of ont_demo_hash] length_demo_H ont_demo_block_facts(1) _ ont_demo_block_facts(2,3)]
  by (auto simp: forgets_def has_short_id_hash_def sid_service_facts ont_demo_hashes tx_sids_def split: if_splits)

section \<open>Block confirmations\<close>

definition conf_msg :: "byte list \<Rightarrow> hash \<Rightarrow> byte list \<Rightarrow> sid list \<Rightarrow> hash list \<Rightarrow> byte list \<Rightarrow> byte list" where
  \<comment> \<open>message header, block hash, network number and node id, short ids, hashes, and what follows\<close>
  "conf_msg hdr block mid sids hs post =
     hdr @ block @ mid @ le_bytes 4 (length sids) @ concat (map (le_bytes 4) sids) @ le_bytes 4 (length hs) @ concat hs @ post"

definition wf_conf_msg :: "byte list \<Rightarrow> hash \<Rightarrow> byte list \<Rightarrow> sid list \<Rightarrow> hash list \<Rightarrow> bool" where
  "wf_conf_msg hdr block mid sids hs \<longleftrightarrow>
     length hdr = 20 \<and> length block = 32 \<and> length mid = 20 \<and> length sids < 2 ^ 32 \<and> length hs < 2 ^ 32 \<and>
     list_all (\<lambda>i. i < 2 ^ 32) sids \<and> list_all (\<lambda>h. length h = 32) hs"

lemma parse_confirmation_u32_at:
  assumes "bv_ok v" and "bv_bytes v = pre @ le_bytes 4 n @ post" and "n < 2 ^ 32"
  shows "parse_confirmation_u32 v (length pre) = Inr (n, length (pre @ le_bytes 4 n))"
  using bvs.get_le_at [OF assms(1), of pre "le_bytes 4 n" post] assms(2,3)
  by (simp add: parse_confirmation_u32_def le_val_le_bytes del: le_bytes.simps le_bytes_numeral)

lemma parse_next_tx_hash_at:
  assumes "bv_ok v" and "bv_bytes v = pre @ h @ post" and "length h = 32"
  shows "parse_next_tx_hash v (length pre) = Inr (sha_of_binary h, length (pre @ h))"
proof -
  have le: "length pre + 32 \<le> bv_size v" using assms length_bv_bytes [of v] by (simp add: bv_ok_def)
  have sm: "length pre + 32 < 2 ^ 64" using le bv_size_less [of v] assms(1) by (simp add: bv_ok_def)
  have "slice (length pre) (length h) (bv_bytes v) = h" by (simp add: assms(2) slice_middle)
  then have "sha_read v (length pre) = Inr (sha_of_binary h)"
    using sha_read_inside [of v "length pre"] le assms(1,3) by (simp add: bv_ok_def)
  then show ?thesis using assms(3) u64_id [OF sm] by (simp add: parse_next_tx_hash_def SHA256_BINARY_SIZE_def)
qed

text \<open>One removal leaves a state that is the initial one with a set of transactions forgotten.\<close>

definition conf_inv :: "hash set \<Rightarrow> sid set \<Rightarrow> tx_service \<Rightarrow> tx_service \<Rightarrow> confirm_task \<Rightarrow> bool" where
  "conf_inv F I s s' c \<longleftrightarrow>
     finite F \<and> forgets F s s' \<and> cf_removed c = u64 (contents_total s F) \<and> set (cf_sids c) = I \<union> {j. sid_tx s j \<inter> F \<noteq> {}}"

lemma conf_removed_add:
  assumes "forgets F s s1" and "finite F" and "finite G"
  shows "u64 (u64 (contents_total s F) + contents_total s1 G) = u64 (contents_total s (F \<union> G))"
  using contents_total_trans [OF assms] by (simp add: u64_def mod_add_left_eq)

lemma finite_sid_tx [simp]: "finite (sid_tx s i)"
  by (simp add: sid_tx_def)

lemma confirm_short_ids_spec:
  assumes v: "bv_ok v"
    and "bv_bytes v = pre @ concat (map (le_bytes 4) sids) @ post" and "list_all (\<lambda>i. i < 2 ^ 32) sids" and "conf_inv F I s0 s c"
  shows "\<exists>s' c'. confirm_short_ids t now v (length sids) (length pre) s c =
      Inr (length (pre @ concat (map (le_bytes 4) sids)), s', c') \<and>
    conf_inv (F \<union> (\<Union>i\<in>set sids. sid_tx s0 i)) (I \<union> set sids) s0 s' c' \<and> cf_hash c' = cf_hash c"
  using assms(2-4)
proof (induction sids arbitrary: pre F I s c)
  case (Cons i sids)
  let ?pre = "pre @ le_bytes 4 i"
  have p: "parse_confirmation_u32 v (length pre) = Inr (i, length ?pre)"
    by (rule parse_confirmation_u32_at [OF v]) (use Cons.prems in \<open>simp_all del: le_bytes.simps le_bytes_numeral\<close>)
  have f: "finite F" "forgets F s0 s" "cf_removed c = u64 (contents_total s0 F)"
    "set (cf_sids c) = I \<union> {j. sid_tx s0 j \<inter> F \<noteq> {}}"
    using Cons.prems(3) by (simp_all add: conf_inv_def)
  obtain s1 dups where r: "remove_transaction_by_short_id t now s i (cf_sids c @ [i]) =
      Inr (contents_total s (sid_tx s i), (cf_sids c @ [i]) @ dups, s1)"
    "forgets (sid_tx s i) s s1" "set dups \<union> {i} = {j. sid_tx s j \<inter> sid_tx s i \<noteq> {}} \<union> {i}"
    by (rule remove_by_sid_forgets [OF forgets_wf [OF f(2)]])
  define c1 where "c1 = c\<lparr>cf_sids := (cf_sids c @ [i]) @ dups, cf_removed := u64 (cf_removed c + contents_total s (sid_tx s i))\<rparr>"
  have un: "F \<union> sid_tx s i = F \<union> sid_tx s0 i" using forgets_sid_tx [OF f(2)] by auto
  have "conf_inv (F \<union> sid_tx s0 i) (insert i I) s0 s1 c1"
    unfolding conf_inv_def
  proof (intro conjI)
    show "forgets (F \<union> sid_tx s0 i) s0 s1" using forgets_trans [OF f(2) r(2)] un by simp
    show "cf_removed c1 = u64 (contents_total s0 (F \<union> sid_tx s0 i))"
      using conf_removed_add [OF f(2,1), of "sid_tx s i"] f(3) un by (simp add: c1_def)
    have "set (cf_sids c1) = (I \<union> {j. sid_tx s0 j \<inter> F \<noteq> {}}) \<union> (set dups \<union> {i})" using f(4) by (auto simp: c1_def)
    also have "\<dots> = insert i I \<union> {j. sid_tx s0 j \<inter> (F \<union> sid_tx s0 i) \<noteq> {}}"
      unfolding r(3) forgets_sid_tx [OF f(2)] by auto
    finally show "set (cf_sids c1) = insert i I \<union> {j. sid_tx s0 j \<inter> (F \<union> sid_tx s0 i) \<noteq> {}}" .
  qed (use f(1) in simp)
  then obtain s' c' where "confirm_short_ids t now v (length sids) (length ?pre) s1 c1 =
      Inr (length (?pre @ concat (map (le_bytes 4) sids)), s', c')"
    "conf_inv ((F \<union> sid_tx s0 i) \<union> (\<Union>i\<in>set sids. sid_tx s0 i)) (insert i I \<union> set sids) s0 s' c'" "cf_hash c' = cf_hash c1"
    using Cons.IH [of ?pre "F \<union> sid_tx s0 i" "insert i I" s1 c1] Cons.prems
    by (auto simp del: le_bytes.simps le_bytes_numeral)
  then show ?case using p r(1)
    by (simp add: c1_def Un_assoc del: le_bytes.simps le_bytes_numeral)
qed simp

lemma confirm_hashes_spec:
  assumes v: "bv_ok v"
    and "bv_bytes v = pre @ concat hs @ post" and "list_all (\<lambda>h. length h = 32) hs" and "conf_inv F I s0 s c"
  shows "\<exists>s' c'. confirm_hashes t v (length hs) (length pre) s c = Inr (length (pre @ concat hs), s', c') \<and>
    conf_inv (F \<union> set hs) I s0 s' c' \<and> cf_hash c' = cf_hash c"
  using assms(2-4)
proof (induction hs arbitrary: pre F s c)
  case (Cons h hs)
  let ?pre = "pre @ h"
  have p: "parse_next_tx_hash v (length pre) = Inr (sha_of_binary h, length ?pre)"
    by (rule parse_next_tx_hash_at [OF v]) (use Cons.prems in simp_all)
  have f: "finite F" "forgets F s0 s" "cf_removed c = u64 (contents_total s0 F)"
    "set (cf_sids c) = I \<union> {j. sid_tx s0 j \<inter> F \<noteq> {}}"
    using Cons.prems(3) by (simp_all add: conf_inv_def)
  note wf = forgets_wf [OF f(2)]
  obtain s1 where r: "remove_transaction_by_hash t s h = Inr (contents_total s {h}, s1)" "forgets {h} s s1"
    by (rule remove_by_hash_forgets [OF wf])
  define c1 where "c1 = c\<lparr>cf_sids := cf_sids c @ tx_sids s h, cf_removed := u64 (cf_removed c + contents_total s {h})\<rparr>"
  have sids: "set (tx_sids s h) = {j. sid_tx s j \<inter> {h} \<noteq> {}}"
    using wf by (cases "ts_sids s h") (auto simp: tx_sids_def sid_tx_def ts_wf_def ts_linked_def)
  have "conf_inv (F \<union> {h}) I s0 s1 c1"
    unfolding conf_inv_def
  proof (intro conjI)
    show "forgets (F \<union> {h}) s0 s1" by (rule forgets_trans [OF f(2) r(2)])
    show "cf_removed c1 = u64 (contents_total s0 (F \<union> {h}))"
      using conf_removed_add [OF f(2,1), of "{h}"] f(3) by (simp add: c1_def)
    have "set (cf_sids c1) = (I \<union> {j. sid_tx s0 j \<inter> F \<noteq> {}}) \<union> {j. sid_tx s j \<inter> {h} \<noteq> {}}" using f(4) sids by (simp add: c1_def)
    also have "\<dots> = I \<union> {j. sid_tx s0 j \<inter> (F \<union> {h}) \<noteq> {}}" unfolding forgets_sid_tx [OF f(2)] by auto
    finally show "set (cf_sids c1) = I \<union> {j. sid_tx s0 j \<inter> (F \<union> {h}) \<noteq> {}}" .
  qed (use f(1) in simp)
  then obtain s' c' where "confirm_hashes t v (length hs) (length ?pre) s1 c1 = Inr (length (?pre @ concat hs), s', c')"
    "conf_inv ((F \<union> {h}) \<union> set hs) I s0 s' c'" "cf_hash c' = cf_hash c1"
    using Cons.IH [of ?pre "F \<union> {h}" s1 c1] Cons.prems by auto
  then show ?case using p r(1) by (simp add: c1_def tx_sids_def)
qed simp

text \<open>
  C21: a block confirmation makes the service forget the transactions that it names by short id or by
  hash, and no other, and stops tracking the confirmed block. The task reports the short ids of the
  message and every further short id of the transactions forgotten, the number of entries of the
  message (wrapped to 32 bits), and the bytes of contents removed, each transaction counted once even
  when the message names it twice.
\<close>

theorem confirmation_forgets_transactions:
  assumes s: "ts_wf s" and m: "wf_conf_msg hdr block mid sids hs" and v: "bv_ok v" "bv_bytes v = conf_msg hdr block mid sids hs post"
    and F: "F = (\<Union>i\<in>set sids. sid_tx s i) \<union> set hs"
  shows "\<exists>s' c'. confirm_block t now s c v = Inr (on_block_cleaned_up s' block, c') \<and> forgets F s s' \<and>
    sha_binary (cf_hash c') = block \<and> cf_tx_count c' = (length hs + length sids) mod 2 ^ 32 \<and>
    cf_removed c' = contents_total s F mod 2 ^ 64 \<and> set (cf_sids c') = set sids \<union> {i. sid_tx s i \<inter> F \<noteq> {}}"
proof -
  note [simp del] = le_bytes.simps le_bytes_numeral
  define c0 where "c0 = (confirm_init c)\<lparr>cf_hash := sha_of_binary block\<rparr>"
  let ?p1 = "hdr @ block @ mid" let ?p2 = "?p1 @ le_bytes 4 (length sids)" let ?p3 = "?p2 @ concat (map (le_bytes 4) sids)"
  let ?p4 = "?p3 @ le_bytes 4 (length hs)"
  have l: "length hdr = 20" "length block = 32" "length mid = 20" "length sids < 2 ^ 32" "length hs < 2 ^ 32"
    "list_all (\<lambda>i. i < 2 ^ 32) sids" "list_all (\<lambda>h. length h = 32) hs"
    using m by (simp_all add: wf_conf_msg_def)
  have "parse_next_tx_hash v (length hdr) = Inr (sha_of_binary block, length (hdr @ block))"
    by (rule parse_next_tx_hash_at [OF v(1)]) (use v(2) l in \<open>simp_all add: conf_msg_def\<close>)
  then have "sha_read v 20 = Inr (sha_of_binary block)"
    using l(1) by (cases "sha_read v 20") (simp_all add: parse_next_tx_hash_def)
  then have e1: "parse_block_hash v = Inr (sha_of_binary block, length ?p1)"
    using l by (simp add: parse_block_hash_def SHA256_BINARY_SIZE_def)
  have e2: "parse_confirmation_u32 v (length ?p1) = Inr (length sids, length ?p2)"
    by (rule parse_confirmation_u32_at [OF v(1) _ l(4)]) (use v(2) in \<open>simp add: conf_msg_def\<close>)
  have i0: "conf_inv {} {} s s c0"
    using s by (simp add: conf_inv_def forgets_refl c0_def confirm_init_def contents_total_def u64_def)
  obtain s1 c1 where e3: "confirm_short_ids t now v (length sids) (length ?p2) s c0 = Inr (length ?p3, s1, c1)"
    "conf_inv ({} \<union> (\<Union>i\<in>set sids. sid_tx s i)) ({} \<union> set sids) s s1 c1" "cf_hash c1 = cf_hash c0"
    using confirm_short_ids_spec [OF v(1) _ l(6) i0, of ?p2 "le_bytes 4 (length hs) @ concat hs @ post" t now] v(2)
    by (auto simp: conf_msg_def)
  have e4: "parse_confirmation_u32 v (length ?p3) = Inr (length hs, length ?p4)"
    by (rule parse_confirmation_u32_at [OF v(1) _ l(5)]) (use v(2) in \<open>simp add: conf_msg_def\<close>)
  obtain s2 c2 where e5: "confirm_hashes t v (length hs) (length ?p4) s1 c1 = Inr (length (?p4 @ concat hs), s2, c2)"
    "conf_inv (({} \<union> (\<Union>i\<in>set sids. sid_tx s i)) \<union> set hs) ({} \<union> set sids) s s2 c2" "cf_hash c2 = cf_hash c1"
    using confirm_hashes_spec [OF v(1) _ l(7) e3(2), of ?p4 post t] v(2) by (auto simp: conf_msg_def)
  have "confirm_block t now s c v =
      Inr (on_block_cleaned_up s2 block, c2\<lparr>cf_tx_count := u32 (length hs + length sids)\<rparr>)"
    using e3(1) e5(1) by (simp only: confirm_block_def confirm_cleanup_def e1 e2 e4 rbind_simps prod.case
        c0_def [symmetric] sha_of_binary_binary)
  then show ?thesis using e3(3) e5(2,3) F
    by (intro exI [of _ s2] exI [of _ "c2\<lparr>cf_tx_count := u32 (length hs + length sids)\<rparr>"]) (simp add: conf_inv_def u32_def u64_def c0_def)
qed

theorem confirmation_forgets_transactions_witness:
  "\<exists>s' c'. confirm_block 1 2 demo_sender confirm_task_new
      (bv_msg (conf_msg (replicate 20 0) (replicate 32 9) (replicate 20 0) [7] [replicate 32 5] [])) =
        Inr (on_block_cleaned_up s' (replicate 32 9), c') \<and>
    ts_hash s' 7 = None \<and> cf_tx_count c' = 2 \<and> 7 \<in> set (cf_sids c')"
proof -
  let ?m = "conf_msg (replicate 20 0) (replicate 32 9) (replicate 20 0) [7] [replicate 32 5] []"
  have s: "ts_wf demo_sender" by (simp add: demo_sender_def ts_wf_sid_service)
  have m: "wf_conf_msg (replicate 20 0) (replicate 32 9) (replicate 20 0) [7] [replicate 32 5]" by (simp add: wf_conf_msg_def)
  have "length ?m = 116" by (simp add: conf_msg_def)
  then have v: "bv_ok (bv_msg ?m)" "bv_bytes (bv_msg ?m) = ?m" by simp_all
  obtain s' c' where "confirm_block 1 2 demo_sender confirm_task_new (bv_msg ?m) = Inr (on_block_cleaned_up s' (replicate 32 9), c')"
    "forgets ((\<Union>i\<in>set [7]. sid_tx demo_sender i) \<union> set [replicate 32 5]) demo_sender s'" "cf_tx_count c' = 2" "7 \<in> set (cf_sids c')"
    using confirmation_forgets_transactions [OF s m v refl, of 1 2 confirm_task_new] by auto
  then show ?thesis by (intro exI [of _ s'] exI [of _ c']) (simp add: forgets_def demo_sender_facts sid_tx_def)
qed

end
