(* ===== verification/CompactBlock.thy ===== *)
theory CompactBlock
  imports BtcMessage TxService SharedFill
begin

text \<open>
  Compact blocks (BIP 152): \<open>CompactBlockDataService\<close> of \<^verbatim>\<open>src/lib/libtpe/tpe/service\<close>, which takes a compact
  block message apart, \<open>BtcCompactBlockMappingTask\<close>, which looks for the transactions of the message in
  the pool of the transaction service, and \<open>BtcCompactBlockCompressionTask\<close>, which writes the
  compressed block, of \<^verbatim>\<open>src/lib/libtpe/tpe/task\<close>.

  The sub-tasks of the mapping share the map from compact ids to short ids, the placeholders, a counter
  and the vector of missing indices. A sub-task is a job with a phase; each phase ends with one
  access to the shared state, and a schedule interleaves these accesses in any order. Two threads that
  write one placeholder or append to the vector at the same moment are a data race of the code, which
  has no model; here these accesses are atomic.
\<close>

section \<open>TransactionPlaceholder\<close>

datatype placeholder_type = PT_short_id | PT_missing_compact_id | PT_content

record placeholder =
  ph_type :: placeholder_type
  ph_cmpt :: "nat option"
  ph_contents :: contents
  ph_sid :: sid

definition placeholder_new :: placeholder where
  "placeholder_new = \<lparr>ph_type = PT_missing_compact_id, ph_cmpt = None, ph_contents = None, ph_sid = 0\<rparr>"

section \<open>CompactBlockDataService\<close>

text \<open>
  The map from compact ids is an association list: nothing depends on the order in which the code
  iterates over it. \<open>cd_msg\<close> stands for the two pointers to the message, which are set and reset
  together; the pointer to the short ids of the transaction service is an argument of \<open>cds_parse\<close>.
\<close>

type_synonym compact_map = "(nat \<times> sid \<times> nat) list"

record compact_service =
  cd_placeholders :: "placeholder list"
  cd_msg :: "buffer_view option"
  cd_sip_key :: "64 word \<times> 64 word"
  cd_map :: compact_map
  cd_total :: nat
  cd_compact :: nat

definition cds_empty :: compact_service where
  "cds_empty = \<lparr>cd_placeholders = [], cd_msg = None, cd_sip_key = (0, 0), cd_map = [], cd_total = 0, cd_compact = 0\<rparr>"

definition cds_new :: "buffer_view \<Rightarrow> compact_service" where
  "cds_new v = cds_empty\<lparr>cd_msg := Some v\<rparr>"

definition cds_moved :: "compact_service \<Rightarrow> compact_service" where
  \<comment> \<open>the move constructor\<close>
  "cds_moved rhs =
     cds_empty\<lparr>cd_msg := cd_msg rhs, cd_total := cd_total rhs, cd_compact := cd_compact rhs, cd_placeholders := cd_placeholders rhs\<rparr>"

definition cds_assign :: "compact_service \<Rightarrow> compact_service \<Rightarrow> compact_service" where
  \<comment> \<open>the move assignment: the key, the map and the number of compact ids stay\<close>
  "cds_assign c rhs = c\<lparr>cd_placeholders := cd_placeholders rhs, cd_msg := cd_msg rhs, cd_total := cd_total rhs\<rparr>"

definition cds_get_msg :: "compact_service \<Rightarrow> buffer_view res" where
  "cds_get_msg c = (case cd_msg c of None \<Rightarrow> Inl MemFault | Some v \<Rightarrow> Inr v)"

definition cmap_insert :: "nat \<Rightarrow> sid \<times> nat \<Rightarrow> compact_map \<Rightarrow> compact_map" where
  "cmap_insert k x m = (if map_of m k = None then m @ [(k, x)] else m)"

fun fill_compact_ids :: "buffer_view \<Rightarrow> nat \<Rightarrow> nat \<Rightarrow> nat \<Rightarrow> compact_service \<Rightarrow> (nat \<times> compact_service) res" where
  "fill_compact_ids v 0 offset idx c = Inr (offset, c)"
| "fill_compact_ids v (Suc n) offset idx c =
     rbind (get_next_compact_short_id v offset) (\<lambda>(cmpt, offset).
       fill_compact_ids v n offset (u64 (idx + 1))
         (c\<lparr>cd_placeholders := cd_placeholders c @ [placeholder_new\<lparr>ph_cmpt := Some cmpt\<rparr>],
            cd_map := cmap_insert cmpt (NULL_TX_SID, idx) (cd_map c)\<rparr>))"

definition pre_filled_placeholder :: "(hash \<rightharpoonup> sid list) \<Rightarrow> buffer_view \<Rightarrow> hash \<Rightarrow> placeholder res" where
  "pre_filled_placeholder sids contents sha =
     (let p = placeholder_new\<lparr>ph_contents := Some contents\<rparr>
      in case sids sha of
           None \<Rightarrow> Inr (p\<lparr>ph_type := PT_content\<rparr>)
         | Some [] \<Rightarrow> Inl MemFault
         | Some (i # _) \<Rightarrow> Inr (p\<lparr>ph_type := PT_short_id, ph_sid := i\<rparr>))"

fun parse_pre_filled ::
  "(byte list \<Rightarrow> byte list) \<Rightarrow> (hash \<rightharpoonup> sid list) \<Rightarrow> buffer_view \<Rightarrow> nat \<Rightarrow> nat \<Rightarrow> nat \<Rightarrow> nat \<Rightarrow> nat \<Rightarrow> compact_service \<Rightarrow>
   (nat \<times> nat \<times> nat \<times> compact_service) res" where
  \<comment> \<open>returns the offset of the next compact id, \<open>idx\<close> and \<open>compact_count\<close>\<close>
  "parse_pre_filled H sids v 0 offset compact_offset idx compact_count c = Inr (compact_offset, idx, compact_count, c)"
| "parse_pre_filled H sids v (Suc n) offset compact_offset idx compact_count c =
     rbind (get_next_pre_filled_tx H v offset) (\<lambda>(contents, offset, diff, prefilled_sha, _).
     rbind (pre_filled_placeholder sids contents (sha_binary prefilled_sha)) (\<lambda>p.
     let compact_diff = diff div BTC_COMPACT_SHORT_ID_SIZE
     in rbind (fill_compact_ids v compact_diff compact_offset (u64 (idx + compact_count)) c) (\<lambda>(compact_offset, c).
        parse_pre_filled H sids v n offset compact_offset (u64 (idx + 1)) (u64 (compact_count + compact_diff))
          (c\<lparr>cd_placeholders := cd_placeholders c @ [p]\<rparr>))))"

definition cds_parse :: "(byte list \<Rightarrow> byte list) \<Rightarrow> (hash \<rightharpoonup> sid list) \<Rightarrow> compact_service \<Rightarrow> compact_service res" where
  "cds_parse H sids c =
     rbind (cds_get_msg c) (\<lambda>v.
     rbind (get_block_sip_key H v) (\<lambda>sip_key.
     rbind (get_compact_txs_count (bv_read v)) (\<lambda>(compact_tx_count, compact_offset).
     let offset = u64 (compact_offset + u64 (compact_tx_count * BTC_COMPACT_SHORT_ID_SIZE))
     in rbind (get_pre_filled_txs_count (bv_read v) offset) (\<lambda>(pre_filled_tx_count, offset).
        let c = c\<lparr>cd_sip_key := sip_key, cd_compact := compact_tx_count, cd_total := u64 (compact_tx_count + pre_filled_tx_count)\<rparr>
        in rbind (parse_pre_filled H sids v pre_filled_tx_count offset compact_offset 0 0 c)
             (\<lambda>(compact_offset, idx, compact_count, c).
           rbind (fill_compact_ids v (u64_sub (cd_compact c) compact_count) compact_offset (u64 (idx + compact_count)) c)
             (\<lambda>(_, c). Inr c))))))"

definition cds_size :: "compact_service \<Rightarrow> nat res" where
  "cds_size c = rbind (cds_get_msg c) (\<lambda>v. Inr (bv_size v))"

definition cds_on_compression_completed :: "compact_service \<Rightarrow> compact_service" where
  "cds_on_compression_completed c = c\<lparr>cd_msg := None\<rparr>"

section \<open>BtcCompactTxMappingSubTask\<close>

record map_shared =
  ms_map :: compact_map
  ms_placeholders :: "placeholder list"
  ms_counter :: nat
  ms_missing :: "nat list"

datatype map_phase =
    Ph_Next
  | Ph_Write hash sid nat bool   \<comment> \<open>after the compare-and-swap: its index and whether it found a duplicate\<close>
  | Ph_Count int
  | Ph_Check

record map_job =
  mj_bucket :: "hash list"
  mj_phase :: map_phase

definition cmap_set_sid :: "nat \<Rightarrow> sid \<Rightarrow> compact_map \<Rightarrow> compact_map" where
  "cmap_set_sid k i m = map (\<lambda>(k', j, idx). if k' = k then (k', i, idx) else (k', j, idx)) m"

definition map_next ::
  "64 word \<times> 64 word \<Rightarrow> tx_service \<Rightarrow> map_shared \<Rightarrow> hash \<Rightarrow> hash list \<Rightarrow> (map_shared \<times> map_job) res" where
  "map_next key s m sha rest =
     (case ts_sids s sha of
        None \<Rightarrow> Inr (m, \<lparr>mj_bucket = rest, mj_phase = Ph_Next\<rparr>)
      | Some [] \<Rightarrow> Inl MemFault
      | Some (short_id # _) \<Rightarrow>
          let compact_short_id = to_compact_id (sha_of_binary sha) key
          in case map_of (ms_map m) compact_short_id of
               None \<Rightarrow> Inr (m, \<lparr>mj_bucket = rest, mj_phase = Ph_Check\<rparr>)
             | Some (src_short_id, idx) \<Rightarrow>
                 if length (ms_placeholders m) \<le> idx then Inl OutOfRange
                 else let duplicate_found = (src_short_id \<noteq> NULL_TX_SID);
                          m = (if duplicate_found then m else m\<lparr>ms_map := cmap_set_sid compact_short_id short_id (ms_map m)\<rparr>)
                      in Inr (m, \<lparr>mj_bucket = rest, mj_phase = Ph_Write sha short_id idx duplicate_found\<rparr>))"

definition map_write ::
  "tx_service \<Rightarrow> map_shared \<Rightarrow> hash \<Rightarrow> sid \<Rightarrow> nat \<Rightarrow> bool \<Rightarrow> (map_shared \<times> map_phase) res" where
  "map_write s m sha short_id idx duplicate_found =
     (let p = ms_placeholders m ! idx
      in if duplicate_found \<or> mw_find (ts_contents s) sha = None then
           let p = p\<lparr>ph_type := PT_missing_compact_id, ph_sid := NULL_TX_SID\<rparr>;
               m = m\<lparr>ms_missing := ms_missing m @ [idx], ms_placeholders := (ms_placeholders m)[idx := p]\<rparr>
           in Inr (m, if duplicate_found then Ph_Count (-1) else Ph_Check)
         else case mw_find (ts_contents s) sha of
                Some (Some v) \<Rightarrow>
                  rbind (buffer_copy v) (\<lambda>copy.
                    let p = p\<lparr>ph_type := PT_short_id, ph_sid := short_id, ph_contents := Some copy\<rparr>
                    in Inr (m\<lparr>ms_placeholders := (ms_placeholders m)[idx := p]\<rparr>, Ph_Count 1))
              | _ \<Rightarrow> Inl MemFault)"

definition map_job_step ::
  "64 word \<times> 64 word \<Rightarrow> tx_service \<Rightarrow> map_shared \<Rightarrow> map_job \<Rightarrow> (tx_service \<times> map_shared \<times> map_job) res" where
  "map_job_step key s m j =
     (case mj_phase j of
        Ph_Next \<Rightarrow>
          (case mj_bucket j of
             [] \<Rightarrow> Inr (s, m, j)
           | sha # rest \<Rightarrow> rbind (map_next key s m sha rest) (\<lambda>(m, j). Inr (s, m, j)))
      | Ph_Write sha short_id idx dup \<Rightarrow>
          rbind (map_write s m sha short_id idx dup) (\<lambda>(m, ph). Inr (s, m, j\<lparr>mj_phase := ph\<rparr>))
      | Ph_Count d \<Rightarrow>
          Inr (s, m\<lparr>ms_counter := nat ((int (ms_counter m) + d) mod 2 ^ 64)\<rparr>, j\<lparr>mj_phase := Ph_Check\<rparr>)
      | Ph_Check \<Rightarrow>
          Inr (s, m, if length (ms_map m) \<le> ms_counter m then \<lparr>mj_bucket = [], mj_phase = Ph_Next\<rparr>
                     else j\<lparr>mj_phase := Ph_Next\<rparr>))"

fun phase_todo :: "map_phase \<Rightarrow> nat" where
  "phase_todo Ph_Next = 0"
| "phase_todo Ph_Check = 1"
| "phase_todo (Ph_Count d) = 2"
| "phase_todo (Ph_Write sha short_id idx dup) = 3"

definition map_todo :: "map_job \<Rightarrow> nat" where
  \<comment> \<open>an upper bound for the steps left\<close>
  "map_todo j = 4 * length (mj_bucket j) + phase_todo (mj_phase j)"

section \<open>BtcCompactBlockCompressionSubTask\<close>

fun cc_checksum_loop ::
  "placeholder list \<Rightarrow> buffer_view list \<Rightarrow> sha256_context \<Rightarrow> nat \<Rightarrow> (sha256_context \<times> nat) res" where
  "cc_checksum_loop [] recovered ctx payload_length = Inr (ctx, payload_length)"
| "cc_checksum_loop (p # ps) recovered ctx payload_length =
     rbind (if ph_type p = PT_missing_compact_id
            then (case recovered of [] \<Rightarrow> Inl MemFault | r # rs \<Rightarrow> Inr (r, rs))
            else (case ph_contents p of None \<Rightarrow> Inl MemFault | Some v \<Rightarrow> Inr (v, recovered))) (\<lambda>(contents, recovered).
     rbind (ctx_update ctx contents 0 0) (\<lambda>ctx.
       cc_checksum_loop ps recovered ctx (u32 (payload_length + bv_size contents))))"

definition cc_sub_execute ::
  "(byte list \<Rightarrow> byte list) \<Rightarrow> placeholder list \<Rightarrow> buffer_view list \<Rightarrow> byte list \<Rightarrow> (nat \<times> nat) res" where
  \<comment> \<open>the payload length and the checksum\<close>
  "cc_sub_execute H ps recovered block_header =
     rbind (ctx_update [] (bv_msg block_header) 0 0) (\<lambda>ctx.
     rbind (cc_checksum_loop ps recovered ctx (u32 (length block_header))) (\<lambda>(ctx, payload_length).
     rbind (get_le (vec_read (sha_binary (sha_double_sha256 H (ctx_digest H ctx)))) 4 0) (\<lambda>(checksum, _).
       Inr (payload_length, checksum))))"

section \<open>BtcCompactBlockCompressionTask\<close>

record cc_task =
  cc_service :: compact_service
  cc_out :: byte_array
  cc_recovered :: "buffer_view list option"
  cc_magic :: nat
  cc_prev_hash :: "sha256 option"
  cc_hash :: "sha256 option"
  cc_compressed_hash :: "sha256 option"
  cc_txn_count :: nat
  cc_sids :: "sid list"
  cc_header :: "byte list"

definition cc_task_new :: "nat \<Rightarrow> cc_task" where
  "cc_task_new capacity =
     \<lparr>cc_service = cds_empty, cc_out = ba_with_capacity capacity, cc_recovered = Some [], cc_magic = 0, cc_prev_hash = None,
      cc_hash = None, cc_compressed_hash = None, cc_txn_count = 0, cc_sids = [], cc_header = []\<rparr>"

definition cc_init ::
  "(byte list \<Rightarrow> byte list) \<Rightarrow> bool \<Rightarrow> cc_task \<Rightarrow> compact_service \<Rightarrow> nat \<Rightarrow> cc_task res" where
  \<comment> \<open>\<open>shared\<close>: somebody else still holds the output buffer of the last block; otherwise it is only filled with zeros\<close>
  "cc_init H shared c data_service magic =
     rbind (cds_size data_service) (\<lambda>n.
     rbind (if shared then Inr (ba_with_capacity (max (ba_cap (cc_out c)) n)) else ba_clear (cc_out c)) (\<lambda>out.
     let c = c\<lparr>cc_magic := magic, cc_out := out, cc_service := cds_assign (cc_service c) data_service\<rparr>
     in rbind (cds_get_msg (cc_service c)) (\<lambda>v.
        rbind (generate_block_hash H v) (\<lambda>block_hash.
        rbind (get_prev_block_hash v) (\<lambda>prev_block_hash.
          Inr (c\<lparr>cc_hash := Some block_hash, cc_prev_hash := Some prev_block_hash, cc_header := [], cc_sids := [],
                 cc_compressed_hash := None, cc_recovered := None, cc_txn_count := 0\<rparr>))))))"

definition cc_add_recovered_transactions :: "cc_task \<Rightarrow> buffer_view list \<Rightarrow> cc_task" where
  "cc_add_recovered_transactions c txs = c\<lparr>cc_recovered := Some txs\<rparr>"

definition BLOCK_MSG_TYPE :: "byte list" where
  "BLOCK_MSG_TYPE = [98, 108, 111, 99, 107, 0, 0, 0, 0, 0, 0, 0]"

definition cc_set_header :: "cc_task \<Rightarrow> (nat \<times> cc_task) res" where
  "cc_set_header c =
     rbind (cds_get_msg (cc_service c)) (\<lambda>v.
     let cmpt_header = get_block_header v; txn_count = cd_total (cc_service c)
     in rbind (ba_set_le 4 (cc_out c) (cc_magic c) 8) (\<lambda>(out, offset).
        rbind (ba_copy_from_buffer out (bv_msg BLOCK_MSG_TYPE) offset 0 (length BLOCK_MSG_TYPE)) (\<lambda>(out, offset).
        let offset = u64 (offset + 8)
        in rbind (ba_copy_from_buffer out cmpt_header offset 0 (bv_size cmpt_header)) (\<lambda>(out, txn_count_offset).
           rbind (set_varint ba_len ba_resize ba_poke out txn_count txn_count_offset) (\<lambda>(out, offset).
           let txn_count_size = u64_sub offset txn_count_offset; n = u64 (BTC_BLOCK_HDR_SIZE + txn_count_size)
           in rbind (ba_at out (8 + BTC_HDR_COMMON_OFFSET)) (\<lambda>_.
              rbind (vec_read (ba_arr out) (8 + BTC_HDR_COMMON_OFFSET) n) (\<lambda>block_header.
                Inr (offset, c\<lparr>cc_out := out, cc_txn_count := txn_count, cc_header := block_header\<rparr>))))))))"

fun cc_fill_loop ::
  "placeholder list \<Rightarrow> buffer_view list \<Rightarrow> nat \<Rightarrow> byte_array \<Rightarrow> sid list \<Rightarrow> (nat \<times> byte_array \<times> sid list) res" where
  "cc_fill_loop [] recovered offset out sids = Inr (offset, out, sids)"
| "cc_fill_loop (p # ps) recovered offset out sids =
     (case ph_type p of
        PT_missing_compact_id \<Rightarrow>
          (case recovered of
             [] \<Rightarrow> Inl MemFault
           | tx # recovered \<Rightarrow>
               rbind (ba_copy_from_buffer out tx offset 0 (bv_size tx)) (\<lambda>(out, offset).
                 cc_fill_loop ps recovered offset out sids))
      | PT_content \<Rightarrow>
          (case ph_contents p of
             None \<Rightarrow> Inl MemFault
           | Some tx \<Rightarrow>
               rbind (ba_copy_from_buffer out tx offset 0 (bv_size tx)) (\<lambda>(out, offset).
                 cc_fill_loop ps recovered offset out sids))
      | PT_short_id \<Rightarrow>
          rbind (ba_set_le 1 out (unat BTC_SHORT_ID_INDICATOR) offset) (\<lambda>(out, offset).
            cc_fill_loop ps recovered offset out (sids @ [ph_sid p])))"

definition cc_set_output_buffer :: "byte_array \<Rightarrow> sid list \<Rightarrow> nat \<Rightarrow> nat \<Rightarrow> nat \<Rightarrow> byte_array res" where
  "cc_set_output_buffer out sids output_offset payload_length checksum =
     rbind (ba_set_le 8 out output_offset 0) (\<lambda>(out, offset).
     rbind (ba_set_le 4 out payload_length (u64 (offset + BTC_BLOCK_LENGTH_OFFSET))) (\<lambda>(out, offset).
     rbind (ba_set_le 4 out checksum offset) (\<lambda>(out, _).
     let short_ids_size = u32 (length sids)
     in rbind (ba_set_le 4 out short_ids_size output_offset) (\<lambda>(out, output_offset).
        if 0 < short_ids_size then
          let short_ids_byte_size = short_ids_size * 4;
              out = ba_resize out (u64 (output_offset + short_ids_byte_size))
          in rbind (ba_poke out output_offset (take short_ids_byte_size (concat (map (le_bytes 4) sids)))) (\<lambda>out.
               Inr (ba_set_output out))
        else Inr (ba_set_output out)))))"

definition cc_execute :: "(byte list \<Rightarrow> byte list) \<Rightarrow> cc_task \<Rightarrow> cc_task res" where
  \<comment> \<open>the sub-task only reads; its exception is thrown where the task waits for it\<close>
  "cc_execute H c =
     rbind (cc_set_header (c\<lparr>cc_txn_count := cd_total (cc_service c)\<rparr>)) (\<lambda>(offset, c).
     case cc_recovered c of
       None \<Rightarrow> Inl MemFault
     | Some recovered \<Rightarrow>
         rbind (cc_fill_loop (cd_placeholders (cc_service c)) recovered offset (cc_out c) (cc_sids c)) (\<lambda>(offset, out, sids).
         rbind (double_sha256 H (bv_msg (ba_arr out)) 0 (ba_len out)) (\<lambda>digest.
         rbind (cc_sub_execute H (cd_placeholders (cc_service c)) recovered (cc_header c)) (\<lambda>(payload_length, checksum).
         rbind (cc_set_output_buffer out sids offset payload_length checksum) (\<lambda>out.
           Inr (c\<lparr>cc_out := out, cc_sids := sids, cc_compressed_hash := Some digest\<rparr>))))))"

definition cc_cleanup :: "cc_task \<Rightarrow> cc_task" where
  "cc_cleanup c = c\<lparr>cc_service := cds_on_compression_completed (cc_service c)\<rparr>"

section \<open>BtcCompactBlockMappingTask\<close>

record map_task =
  mt_missing :: "nat list"
  mt_magic :: nat
  mt_capacity :: nat
  mt_compression :: cc_task

definition map_task_new :: "nat \<Rightarrow> map_task" where
  "map_task_new capacity = \<lparr>mt_missing = [], mt_magic = 0, mt_capacity = capacity, mt_compression = cc_task_new capacity\<rparr>"

definition map_init :: "bool \<Rightarrow> map_task \<Rightarrow> buffer_view \<Rightarrow> nat \<Rightarrow> map_task" where
  \<comment> \<open>\<open>in_use\<close>: somebody else still holds the compression task of the last block\<close>
  "map_init in_use c v magic =
     c\<lparr>mt_missing := [], mt_magic := magic,
       mt_compression := (if in_use then cc_task_new (max (bv_size v) (mt_capacity c)) else mt_compression c)\<rparr>"

fun map_dispatch :: "nat \<Rightarrow> nat \<Rightarrow> hash bucket list \<Rightarrow> map_job list \<Rightarrow> map_job list" where
  \<comment> \<open>a job for every bucket with elements, and one for the last bucket if there is no other\<close>
  "map_dispatch bucket_count idx [] jobs = jobs"
| "map_dispatch bucket_count idx (b # bs) jobs =
     (if bk_set b = [] \<and> (idx < bucket_count - 1 \<or> jobs \<noteq> [])
      then map_dispatch bucket_count (idx + 1) bs jobs
      else map_dispatch bucket_count (idx + 1) bs (jobs @ [\<lparr>mj_bucket = bk_set b, mj_phase = Ph_Next\<rparr>]))"

definition map_run ::
  "64 word \<times> 64 word \<Rightarrow> nat list \<Rightarrow> tx_service \<Rightarrow> map_shared \<Rightarrow> map_job list \<Rightarrow> map_shared res" where
  "map_run key sched s m jobs =
     rbind (run_jobs (map_job_step key) sched (s, m, jobs)) (\<lambda>(s, m, jobs).
     rbind (run_jobs (map_job_step key) (rest_of map_todo jobs) (s, m, jobs)) (\<lambda>(s, m, _). Inr m))"

definition map_missing_indices :: "compact_map \<Rightarrow> placeholder list \<Rightarrow> nat list res" where
  "map_missing_indices m ps =
     (if list_all (\<lambda>(k, i, idx). idx < length ps) m
      then Inr (filter (\<lambda>idx. ph_type (ps ! idx) = PT_missing_compact_id) (map (\<lambda>(k, i, idx). idx) m))
      else Inl OutOfRange)"

definition map_finish ::
  "(byte list \<Rightarrow> byte list) \<Rightarrow> bool \<Rightarrow> map_task \<Rightarrow> compact_service \<Rightarrow> map_shared \<Rightarrow> map_task res" where
  \<comment> \<open>what follows the wait for the sub-tasks, up to the initialisation of the compression task\<close>
  "map_finish H shared c service m =
     (let compact_found_count = ms_counter m
      in rbind (if compact_found_count < cd_compact service
                then rbind (map_missing_indices (ms_map m) (ms_placeholders m)) (\<lambda>xs. Inr (sort (ms_missing m @ xs)))
                else Inr (ms_missing m)) (\<lambda>missing.
         if u64 (length missing + compact_found_count) \<noteq> cd_compact service then Inl RuntimeError
         else rbind (cc_init H shared (mt_compression c)
                  (cds_moved (service\<lparr>cd_placeholders := ms_placeholders m, cd_map := ms_map m\<rparr>)) (mt_magic c)) (\<lambda>cc.
                Inr (c\<lparr>mt_missing := missing, mt_compression := cc\<rparr>))))"

definition map_execute ::
  "(byte list \<Rightarrow> byte list) \<Rightarrow> hplace \<Rightarrow> nat list \<Rightarrow> bool \<Rightarrow> tx_service \<Rightarrow> map_task \<Rightarrow> buffer_view \<Rightarrow>
   (tx_service \<times> map_task res) option" where
  \<comment> \<open>\<open>None\<close>: the task waits for the pool. An exception leaves the service as it is at that point\<close>
  "map_execute H hins sched shared s c v =
     (case cds_parse H (ts_sids s) (cds_new v) of
        Inl e \<Rightarrow> Some (s, Inl e)
      | Inr service \<Rightarrow>
          (case ts_acquire_tx_pool s of
             None \<Rightarrow> None
           | Some s \<Rightarrow>
               let buckets = sbc_buckets (ts_not_seen s);
                   jobs = map_dispatch (length buckets) 0 buckets [];
                   m = \<lparr>ms_map = cd_map service, ms_placeholders = cd_placeholders service, ms_counter = 0, ms_missing = mt_missing c\<rparr>
               in Some (case rbind (map_run (cd_sip_key service) sched s m jobs) (map_finish H shared c service) of
                          Inl e \<Rightarrow> (s, Inl e)
                        | Inr c \<Rightarrow> (on_finished_reading_tx_pool hins s, Inr c))))"

definition map_success :: "map_task \<Rightarrow> bool" where
  "map_success c \<longleftrightarrow> mt_missing c = []"

end
