(* ===== verification/CompactParseProps.thy ===== *)
theory CompactParseProps
  imports CompactBlock BtcCompressionProps
begin

text \<open>
  What parsing a compact block message gives: one placeholder for each transaction of the block, in
  the order in which the code interprets the message, and the map from compact ids to their
  positions.
\<close>

section \<open>Compact block messages\<close>

datatype slot = S_Compact nat | S_Pre btc_tx

definition ser_cids :: "nat list \<Rightarrow> byte list" where
  "ser_cids cids = concat (map (le_bytes 6) cids)"

definition ser_pres :: "(byte list \<times> btc_tx) list \<Rightarrow> byte list" where
  "ser_pres pres = concat (map (\<lambda>(d, t). d @ ser_tx t) pres)"

definition compact_msg ::
  "byte list \<Rightarrow> byte list \<Rightarrow> byte list \<Rightarrow> nat list \<Rightarrow> byte list \<Rightarrow> (byte list \<times> btc_tx) list \<Rightarrow> byte list \<Rightarrow> byte list" where
  "compact_msg hdr nonce vic cids vip pres post = hdr @ nonce @ vic @ ser_cids cids @ vip @ ser_pres pres @ post"

definition wf_compact_msg :: "byte list \<Rightarrow> byte list \<Rightarrow> byte list \<Rightarrow> nat list \<Rightarrow> byte list \<Rightarrow> (byte list \<times> btc_tx) list \<Rightarrow> bool" where
  "wf_compact_msg hdr nonce vic cids vip pres \<longleftrightarrow>
     length hdr = 104 \<and> length nonce = 8 \<and> wf_vi vic \<and> vi_val vic = length cids \<and> wf_vi vip \<and> vi_val vip = length pres \<and>
     list_all (\<lambda>c. c < 2 ^ 48) cids \<and> distinct cids \<and> list_all (\<lambda>(d, t). wf_vi d \<and> wf_tx t) pres"

text \<open>
  BIP 152 writes before each prefilled transaction how many compact ids stand between it and the
  prefilled transaction in front of it. \<open>place\<close> is the resulting order of the block.
\<close>

fun place_pre :: "(nat \<times> btc_tx) list \<Rightarrow> nat list \<Rightarrow> slot list \<times> nat list" where
  "place_pre [] cids = ([], cids)"
| "place_pre ((d, t) # ps) cids =
     (let (slots, rest) = place_pre ps (drop d cids) in (map S_Compact (take d cids) @ S_Pre t # slots, rest))"

definition place :: "(nat \<times> btc_tx) list \<Rightarrow> nat list \<Rightarrow> slot list" where
  "place ps cids = (let (slots, rest) = place_pre ps cids in slots @ map S_Compact rest)"

definition bip152_slots :: "(byte list \<times> btc_tx) list \<Rightarrow> nat list \<Rightarrow> slot list" where
  "bip152_slots pres = place (map (\<lambda>(d, t). (vi_val d, t)) pres)"

definition parsed_diffs :: "(byte list \<times> btc_tx) list \<Rightarrow> (nat \<times> btc_tx) list" where
  \<comment> \<open>the code divides the difference by the size of a compact id\<close>
  "parsed_diffs pres = map (\<lambda>(d, t). (vi_val d div 6, t)) pres"

text \<open>
  Where the parser puts the transactions. This is not a specification: it agrees with \<open>bip152_slots\<close> when the prefilled
  transactions come first (theory \<open>CompactRoundTrip\<close>).
\<close>

definition parsed_slots :: "(byte list \<times> btc_tx) list \<Rightarrow> nat list \<Rightarrow> slot list" where
  "parsed_slots pres = place (parsed_diffs pres)"

fun slot_map :: "nat \<Rightarrow> slot list \<Rightarrow> compact_map" where
  "slot_map i [] = []"
| "slot_map i (S_Compact c # slots) = (c, NULL_TX_SID, i) # slot_map (Suc i) slots"
| "slot_map i (S_Pre t # slots) = slot_map (Suc i) slots"

fun slot_ph :: "(byte list \<Rightarrow> byte list) \<Rightarrow> (hash \<rightharpoonup> sid list) \<Rightarrow> slot \<Rightarrow> placeholder \<Rightarrow> bool" where
  "slot_ph H sids (S_Compact c) p \<longleftrightarrow> p = placeholder_new\<lparr>ph_cmpt := Some c\<rparr>"
| "slot_ph H sids (S_Pre t) p \<longleftrightarrow>
     (\<exists>w. bv_ok w \<and> bv_bytes w = ser_tx t \<and> pre_filled_placeholder sids w (tx_hash H t) = Inr p)"

lemma slot_map_append: "slot_map i (xs @ ys) = slot_map i xs @ slot_map (i + length xs) ys"
  by (induction i xs rule: slot_map.induct) auto

lemma slot_map_compact: "slot_map i (map S_Compact cids) = map (\<lambda>(j, c). (c, NULL_TX_SID, i + j)) (zip [0..<length cids] cids)"
proof (induction cids rule: rev_induct)
  case (snoc c cids)
  then show ?case by (simp add: slot_map_append)
qed simp

lemma keys_slot_map_compact: "map fst (slot_map i (map S_Compact cids)) = cids"
  by (induction cids arbitrary: i) auto

lemma length_ser_cids [simp]: "length (ser_cids cids) = 6 * length cids"
  by (induction cids) (auto simp: ser_cids_def simp del: le_bytes.simps le_bytes_numeral)

lemma ser_cids_simps [simp]:
  "ser_cids [] = []" "ser_cids (c # cids) = le_bytes 6 c @ ser_cids cids" "ser_cids (xs @ ys) = ser_cids xs @ ser_cids ys"
  by (simp_all add: ser_cids_def del: le_bytes.simps le_bytes_numeral)

lemma ser_pres_simps [simp]: "ser_pres [] = []" "ser_pres ((d, t) # pres) = d @ ser_tx t @ ser_pres pres"
  by (simp_all add: ser_pres_def)

section \<open>The loops\<close>

lemma next_compact_id_at:
  assumes "bv_ok v" and "bv_bytes v = A @ le_bytes 6 c @ Q" and "c < 2 ^ 48"
  shows "get_next_compact_short_id v (length A) = Inr (c, length (A @ le_bytes 6 c))"
proof -
  have "u64 (length A + 6) = length A + 6"
    using bvs.offset_small [OF assms(1,2)] by (simp del: le_bytes.simps le_bytes_numeral)
  moreover have "le_val (le_bytes 6 c) = c" using assms(3) by (simp add: le_val_le_bytes del: le_bytes.simps le_bytes_numeral)
  moreover have "get_compact_short_id (bv_read v) (length A) = Inr (le_val (le_bytes 6 c), length A + 6)"
    by (rule bvs.get_compact_short_id_at [OF assms(1,2)]) (simp del: le_bytes.simps le_bytes_numeral)
  ultimately show ?thesis
    by (simp add: get_next_compact_short_id_def compact_id_of_buffer_def BTC_COMPACT_SHORT_ID_SIZE_def
        del: le_bytes.simps le_bytes_numeral)
qed

lemma fill_compact_ids_spec:
  assumes v: "bv_ok v" and "bv_bytes v = A @ ser_cids cids @ Q" and "list_all (\<lambda>c. c < 2 ^ 48) cids"
    and "distinct (map fst (cd_map c) @ cids)" and "idx = length (cd_placeholders c)" and "idx + length cids < 2 ^ 64"
  shows "fill_compact_ids v (length cids) (length A) idx c =
    Inr (length (A @ ser_cids cids),
      c\<lparr>cd_placeholders := cd_placeholders c @ map (\<lambda>k. placeholder_new\<lparr>ph_cmpt := Some k\<rparr>) cids,
        cd_map := cd_map c @ slot_map idx (map S_Compact cids)\<rparr>)"
  using assms(2-6)
proof (induction cids arbitrary: A c idx)
  case (Cons k cids)
  let ?A = "A @ le_bytes 6 k"
  define c1 where "c1 = c\<lparr>cd_placeholders := cd_placeholders c @ [placeholder_new\<lparr>ph_cmpt := Some k\<rparr>],
    cd_map := cmap_insert k (NULL_TX_SID, idx) (cd_map c)\<rparr>"
  have nx: "get_next_compact_short_id v (length A) = Inr (k, length ?A)"
    by (rule next_compact_id_at [OF v, of A k "ser_cids cids @ Q"]) (use Cons.prems in \<open>simp_all del: le_bytes.simps le_bytes_numeral\<close>)
  have "map_of (cd_map c) k = None" using Cons.prems(3) by (simp add: map_of_eq_None_iff)
  then have m1: "cd_map c1 = cd_map c @ [(k, NULL_TX_SID, idx)]" by (simp add: c1_def cmap_insert_def)
  have p1: "cd_placeholders c1 = cd_placeholders c @ [placeholder_new\<lparr>ph_cmpt := Some k\<rparr>]" by (simp add: c1_def)
  have ih: "fill_compact_ids v (length cids) (length ?A) (Suc idx) c1 =
    Inr (length (?A @ ser_cids cids),
      c1\<lparr>cd_placeholders := cd_placeholders c1 @ map (\<lambda>k. placeholder_new\<lparr>ph_cmpt := Some k\<rparr>) cids,
        cd_map := cd_map c1 @ slot_map (Suc idx) (map S_Compact cids)\<rparr>)"
    by (rule Cons.IH) (use Cons.prems in \<open>auto simp: m1 p1 simp del: le_bytes.simps le_bytes_numeral\<close>)
  have "u64 (idx + 1) = Suc idx" using Cons.prems(5) by (simp add: u64_id)
  then have "fill_compact_ids v (length (k # cids)) (length A) idx c = fill_compact_ids v (length cids) (length ?A) (Suc idx) c1"
    using nx by (simp add: c1_def del: le_bytes.simps le_bytes_numeral)
  also note ih
  finally show ?case unfolding m1 p1 by (simp add: c1_def del: le_bytes.simps le_bytes_numeral)
qed simp

lemma next_pre_filled_at:
  assumes v: "bv_ok v" and eq: "bv_bytes v = P @ d @ ser_tx t @ Q" and d: "wf_vi d" and t: "wf_tx t"
    and H: "\<And>bs. length (H bs) = 32"
  obtains w x where "get_next_pre_filled_tx H v (length P) = Inr (w, length (P @ d @ ser_tx t), vi_val d, sha_of_binary (tx_hash H t), x)"
    and "bv_ok w" and "bv_bytes w = ser_tx t"
proof -
  let ?n = "length (P @ d)" and ?e = "length (P @ d @ ser_tx t)"
  have eq1: "bv_bytes v = (P @ d) @ ser_tx t @ Q" using eq by simp
  have dv: "get_varint (bv_read v) (length P) = Inr (vi_val d, ?n)"
    using bvs.get_varint_at [OF v, of P d "ser_tx t @ Q"] eq d by simp
  obtain x where nx: "get_next_tx_offset (bv_read v) ?n = Inr (?e, x)"
    using bvs.get_next_tx_offset_at [OF v t eq1] by (simp add: add.assoc)
  have id: "get_tx_id H v ?n x ?e = Inr (sha_of_binary (tx_hash H t))"
    using get_tx_id_at [OF v t eq1 H nx] by (simp add: tx_hash_def)
  have sz: "?e \<le> bv_size v" using length_bv_bytes [of v] v eq by (simp add: bv_ok_def)
  then have sub: "u64_sub ?e ?n = length (ser_tx t)" using bv_size_less [of v] v by (simp add: bv_ok_def u64_sub_id)
  have in_range: "?n + length (ser_tx t) \<le> bv_size v" using sz by simp
  have vw: "bv_wf v" "bv_buf v \<noteq> None" using v by (simp_all add: bv_ok_def)
  have "slice ?n (length (ser_tx t)) (bv_bytes v) = ser_tx t" by (simp only: eq1 slice_middle)
  then have "bv_ok (bv_sub v (length (ser_tx t)) ?n) \<and> bv_bytes (bv_sub v (length (ser_tx t)) ?n) = ser_tx t"
    using bv_wf_sub [OF vw(1) in_range] vw by (simp add: bv_ok_def)
  then show thesis
    using that [of "bv_sub v (length (ser_tx t)) ?n" x] dv nx id sub by (simp add: get_next_pre_filled_tx_def)
qed

lemma pre_filled_placeholder_total:
  assumes "sids h \<noteq> Some []"
  shows "\<exists>p. pre_filled_placeholder sids w h = Inr p"
  using assms by (cases "sids h") (auto simp: pre_filled_placeholder_def Let_def split: list.split)

definition diffs_fit :: "(nat \<times> btc_tx) list \<Rightarrow> nat list \<Rightarrow> bool" where
  "diffs_fit ps cids \<longleftrightarrow> sum_list (map fst ps) \<le> length cids"

lemma snd_place_pre: "snd (place_pre ps cids) = drop (sum_list (map fst ps)) cids"
  by (induction ps cids rule: place_pre.induct) (auto simp: case_prod_unfold Let_def add.commute)

lemma length_place_pre: "diffs_fit ps cids \<Longrightarrow> length (fst (place_pre ps cids)) = sum_list (map fst ps) + length ps"
proof (induction ps cids rule: place_pre.induct)
  case (2 d t ps cids)
  then show ?case by (simp add: diffs_fit_def case_prod_unfold Let_def)
qed simp

lemma place_pre_keys: "diffs_fit ps cids \<Longrightarrow> map fst (slot_map i (fst (place_pre ps cids))) = take (sum_list (map fst ps)) cids"
proof (induction ps cids arbitrary: i rule: place_pre.induct)
  case (2 d t ps cids)
  then show ?case by (simp add: diffs_fit_def case_prod_unfold Let_def slot_map_append keys_slot_map_compact take_add)
qed simp

lemma parse_pre_filled_spec:
  assumes v: "bv_ok v" and H: "\<And>bs. length (H bs) = 32"
    and "bv_bytes v = A @ ser_cids cids @ Q" and "bv_bytes v = P @ ser_pres pres @ post"
    and "list_all (\<lambda>c. c < 2 ^ 48) cids" and "distinct (map fst (cd_map c) @ cids)"
    and "list_all (\<lambda>(d, t). wf_vi d \<and> wf_tx t) pres" and "list_all (\<lambda>(d, t). sids (tx_hash H t) \<noteq> Some []) pres"
    and "diffs_fit (parsed_diffs pres) cids"
    and "length (cd_placeholders c) = idx + cnt" and "idx + cnt + length cids + length pres < 2 ^ 64"
  shows "\<exists>c' ps. parse_pre_filled H sids v (length pres) (length P) (length A) idx cnt c =
      Inr (length A + 6 * sum_list (map fst (parsed_diffs pres)), idx + length pres, cnt + sum_list (map fst (parsed_diffs pres)), c') \<and>
    c' = c\<lparr>cd_placeholders := cd_placeholders c @ ps,
      cd_map := cd_map c @ slot_map (idx + cnt) (fst (place_pre (parsed_diffs pres) cids))\<rparr> \<and>
    list_all2 (slot_ph H sids) (fst (place_pre (parsed_diffs pres) cids)) ps"
  using assms(3-)
proof (induction pres arbitrary: A cids P c idx cnt)
  case Nil
  then show ?case by (simp add: parsed_diffs_def)
next
  case (Cons pt pres)
  obtain d t where pt: "pt = (d, t)" by fastforce
  let ?k = "vi_val d div 6" and ?rest = "parsed_diffs pres"
  have pd: "parsed_diffs (pt # pres) = (?k, t) # ?rest" by (simp add: parsed_diffs_def pt)
  have k: "?k + sum_list (map fst ?rest) \<le> length cids" using Cons.prems(7) by (simp add: pd diffs_fit_def)
  have P: "bv_bytes v = P @ d @ ser_tx t @ (ser_pres pres @ post)" "wf_vi d" "wf_tx t" "sids (tx_hash H t) \<noteq> Some []"
    using Cons.prems(2,5,6) by (simp_all add: pt)
  obtain w x where w: "get_next_pre_filled_tx H v (length P) =
      Inr (w, length (P @ d @ ser_tx t), vi_val d, sha_of_binary (tx_hash H t), x)" "bv_ok w" "bv_bytes w = ser_tx t"
    by (rule next_pre_filled_at [OF v P(1-3) H])
  obtain p where p: "pre_filled_placeholder sids w (tx_hash H t) = Inr p" using pre_filled_placeholder_total [of sids "tx_hash H t" w] P(4) by blast
  let ?xs = "take ?k cids" and ?ys = "drop ?k cids"
  have lx: "length ?xs = ?k" using k by simp
  have A: "bv_bytes v = A @ ser_cids ?xs @ (ser_cids ?ys @ Q)" "bv_bytes v = (A @ ser_cids ?xs) @ ser_cids ?ys @ Q"
    using Cons.prems(1) by (simp_all flip: ser_cids_simps(3) append_assoc) (simp_all add: append_assoc flip: ser_cids_simps(3))
  define c1 where "c1 = c\<lparr>cd_placeholders := cd_placeholders c @ map (\<lambda>k. placeholder_new\<lparr>ph_cmpt := Some k\<rparr>) ?xs,
        cd_map := cd_map c @ slot_map (idx + cnt) (map S_Compact ?xs)\<rparr>"
  have dis: "distinct (map fst (cd_map c) @ ?xs @ ?ys)" using Cons.prems(4) by simp
  have "fill_compact_ids v (length ?xs) (length A) (idx + cnt) c = Inr (length (A @ ser_cids ?xs), c1)"
    unfolding c1_def
    by (rule fill_compact_ids_spec [OF v A(1)]) (use Cons.prems(3,8,9) dis lx k in \<open>auto simp: list_all_iff dest: in_set_takeD\<close>)
  then have f: "fill_compact_ids v ?k (length A) (u64 (idx + cnt)) c = Inr (length (A @ ser_cids ?xs), c1)"
    using Cons.prems(9) k by (simp add: min_absorb2 u64_id)
  define c2 where "c2 = c1\<lparr>cd_placeholders := cd_placeholders c1 @ [p]\<rparr>"
  have u: "u64 (idx + 1) = Suc idx" "u64 (cnt + ?k) = cnt + ?k" using Cons.prems(9) k by (simp_all add: u64_id)
  have dis2: "distinct (map fst (cd_map c2) @ ?ys)" using dis by (simp add: c2_def c1_def keys_slot_map_compact)
  have "\<exists>c' ps. parse_pre_filled H sids v (length pres) (length (P @ d @ ser_tx t)) (length (A @ ser_cids ?xs)) (Suc idx) (cnt + ?k) c2 =
      Inr (length (A @ ser_cids ?xs) + 6 * sum_list (map fst ?rest), Suc idx + length pres, cnt + ?k + sum_list (map fst ?rest), c') \<and>
    c' = c2\<lparr>cd_placeholders := cd_placeholders c2 @ ps,
      cd_map := cd_map c2 @ slot_map (Suc idx + (cnt + ?k)) (fst (place_pre ?rest ?ys))\<rparr> \<and>
    list_all2 (slot_ph H sids) (fst (place_pre ?rest ?ys)) ps"
    by (rule Cons.IH [OF A(2) _ _ dis2])
      (use P(1) Cons.prems(3,5,6,8,9) k lx in \<open>auto simp: list_all_iff diffs_fit_def c2_def c1_def dest: in_set_dropD\<close>)
  then obtain c' ps where r: "parse_pre_filled H sids v (length pres) (length (P @ d @ ser_tx t)) (length (A @ ser_cids ?xs)) (Suc idx) (cnt + ?k) c2 =
      Inr (length (A @ ser_cids ?xs) + 6 * sum_list (map fst ?rest), Suc idx + length pres, cnt + ?k + sum_list (map fst ?rest), c')"
    "c' = c2\<lparr>cd_placeholders := cd_placeholders c2 @ ps,
      cd_map := cd_map c2 @ slot_map (Suc idx + (cnt + ?k)) (fst (place_pre ?rest ?ys))\<rparr>"
    "list_all2 (slot_ph H sids) (fst (place_pre ?rest ?ys)) ps"
    by blast
  let ?q = "map (\<lambda>k. placeholder_new\<lparr>ph_cmpt := Some k\<rparr>) ?xs @ p # ps"
  have "parse_pre_filled H sids v (length (pt # pres)) (length P) (length A) idx cnt c =
      parse_pre_filled H sids v (length pres) (length (P @ d @ ser_tx t)) (length (A @ ser_cids ?xs)) (Suc idx) (cnt + ?k) c2"
    using w(1) p f u by (simp add: BTC_COMPACT_SHORT_ID_SIZE_def c2_def Let_def)
  moreover have "list_all2 (slot_ph H sids) (fst (place_pre (parsed_diffs (pt # pres)) cids)) ?q"
    using w(2,3) p r(3) by (auto simp: pd case_prod_unfold Let_def list_all2_map1 list_all2_map2 list.rel_refl
        intro!: list_all2_appendI)
  moreover have "c' = c\<lparr>cd_placeholders := cd_placeholders c @ ?q,
      cd_map := cd_map c @ slot_map (idx + cnt) (fst (place_pre (parsed_diffs (pt # pres)) cids))\<rparr>"
    unfolding r(2) using lx by (simp add: c2_def c1_def pd case_prod_unfold Let_def slot_map_append add.assoc add.left_commute)
  ultimately show ?case using r(1) lx by (intro exI [of _ c'] exI [of _ ?q]) (simp add: pd)
qed

lemma get_block_sip_key_at:
  assumes v: "bv_ok v" and eq: "bv_bytes v = hdr @ nonce @ Q" and len: "length hdr = 104" "length nonce = 8"
  shows "get_block_sip_key H v =
    Inr (of_nat (le_val (slice 0 8 (H (drop 24 hdr @ nonce)))), of_nat (le_val (slice 8 8 (H (drop 24 hdr @ nonce)))))"
proof -
  have "bv_bytes v = take 24 hdr @ (drop 24 hdr @ nonce) @ Q" using eq by simp
  then have "bv_read v (length (take 24 hdr)) (length (drop 24 hdr @ nonce)) = Inr (drop 24 hdr @ nonce)"
    using len by (intro bvs.rd_middle [OF v]) auto
  then show ?thesis using len by (simp add: get_block_sip_key_def calculate_sha256_def btc_consts Let_def)
qed

definition compact_key :: "(byte list \<Rightarrow> byte list) \<Rightarrow> byte list \<Rightarrow> byte list \<Rightarrow> 64 word \<times> 64 word" where
  \<comment> \<open>BIP 152: the first two words of the SHA-256 of the block header and the nonce\<close>
  "compact_key H hdr nonce =
     (let d = H (drop 24 hdr @ nonce) in (of_nat (le_val (slice 0 8 d)), of_nat (le_val (slice 8 8 d))))"

lemma cds_parse_spec:
  assumes v: "bv_ok v" "bv_bytes v = compact_msg hdr nonce vic cids vip pres post"
    and m: "wf_compact_msg hdr nonce vic cids vip pres" and H: "\<And>bs. length (H bs) = 32"
    and sids: "list_all (\<lambda>(d, t). sids (tx_hash H t) \<noteq> Some []) pres" and fit: "diffs_fit (parsed_diffs pres) cids"
  obtains c where "cds_parse H sids (cds_new v) = Inr c" and "cd_msg c = Some v" and "cd_sip_key c = compact_key H hdr nonce"
    and "cd_compact c = length cids" and "cd_total c = length cids + length pres"
    and "list_all2 (slot_ph H sids) (parsed_slots pres cids) (cd_placeholders c)"
    and "cd_map c = slot_map 0 (parsed_slots pres cids)"
proof -
  let ?A = "hdr @ nonce @ vic" let ?P = "?A @ ser_cids cids @ vip"
  let ?slots = "fst (place_pre (parsed_diffs pres) cids)" and ?n = "sum_list (map fst (parsed_diffs pres))"
  let ?rest = "drop ?n cids"
  have w: "length hdr = 104" "length nonce = 8" "wf_vi vic" "vi_val vic = length cids" "wf_vi vip" "vi_val vip = length pres"
    "list_all (\<lambda>c. c < 2 ^ 48) cids" "distinct cids" "list_all (\<lambda>(d, t). wf_vi d \<and> wf_tx t) pres"
    using m by (simp_all add: wf_compact_msg_def)
  have eqA: "bv_bytes v = ?A @ ser_cids cids @ (vip @ ser_pres pres @ post)" "bv_bytes v = ?P @ ser_pres pres @ post"
    using v(2) by (simp_all add: compact_msg_def)
  have lp: "length pres \<le> length (ser_pres pres)"
  proof -
    have "length (d @ ser_tx t) \<ge> 1" if "(d, t) \<in> set pres" for d t
      using w(9) that length_ser_tx [of t] by (auto simp: list_all_iff)
    then show ?thesis by (induction pres) (auto simp: ser_pres_def, fastforce)
  qed
  have big: "length ?A + 6 * length cids + length vip + length pres < 2 ^ 64"
    using bvs.bytes_small [OF v(1)] eqA(2) lp by simp
  have n: "?n \<le> length cids" using fit by (simp add: diffs_fit_def)
  have key: "get_block_sip_key H v = Inr (compact_key H hdr nonce)"
    using get_block_sip_key_at [OF v(1) _ w(1,2), of "vic @ ser_cids cids @ vip @ ser_pres pres @ post" H] v(2)
    by (simp add: compact_msg_def compact_key_def Let_def)
  have e1: "get_compact_txs_count (bv_read v) = Inr (length cids, length ?A)"
    using bvs.get_varint_at [OF v(1), of "hdr @ nonce" vic "ser_cids cids @ vip @ ser_pres pres @ post"] v(2) w(1-4)
    by (simp add: get_compact_txs_count_def btc_consts compact_msg_def)
  have off: "u64 (length ?A + u64 (length cids * BTC_COMPACT_SHORT_ID_SIZE)) = length (?A @ ser_cids cids)"
    using big by (simp add: BTC_COMPACT_SHORT_ID_SIZE_def u64_id)
  have e2: "get_pre_filled_txs_count (bv_read v) (length (?A @ ser_cids cids)) = Inr (length pres, length ?P)"
    using bvs.get_varint_at [OF v(1), of "?A @ ser_cids cids" vip "ser_pres pres @ post"] v(2) w(5,6)
    by (simp add: get_pre_filled_txs_count_def compact_msg_def)
  define c0 where "c0 = (cds_new v)\<lparr>cd_sip_key := compact_key H hdr nonce, cd_compact := length cids,
    cd_total := u64 (length cids + length pres)\<rparr>"
  have c0: "cd_map c0 = []" "cd_placeholders c0 = []" by (simp_all add: c0_def cds_new_def cds_empty_def)
  have "\<exists>c' ps. parse_pre_filled H sids v (length pres) (length ?P) (length ?A) 0 0 c0 =
      Inr (length ?A + 6 * ?n, 0 + length pres, 0 + ?n, c') \<and>
    c' = c0\<lparr>cd_placeholders := cd_placeholders c0 @ ps, cd_map := cd_map c0 @ slot_map (0 + 0) ?slots\<rparr> \<and>
    list_all2 (slot_ph H sids) ?slots ps"
    by (rule parse_pre_filled_spec [OF v(1) H eqA]) (use w big sids fit c0 in auto)
  then obtain ps c1 where e3: "parse_pre_filled H sids v (length pres) (length ?P) (length ?A) 0 0 c0 = Inr (length ?A + 6 * ?n, length pres, ?n, c1)"
    "c1 = c0\<lparr>cd_placeholders := ps, cd_map := slot_map 0 ?slots\<rparr>" "list_all2 (slot_ph H sids) ?slots ps"
    using c0 by auto
  have lps: "length ps = ?n + length pres"
    using list_all2_lengthD [OF e3(3)] length_place_pre [OF fit] by (simp add: parsed_diffs_def)
  have sub: "u64_sub (length cids) ?n = length ?rest" "u64 (length pres + ?n) = length ps"
    using n big by (simp_all add: u64_sub_id u64_id lps)
  have eqB: "bv_bytes v = (?A @ ser_cids (take ?n cids)) @ ser_cids ?rest @ (vip @ ser_pres pres @ post)"
    using eqA(1) by (simp flip: append_assoc ser_cids_simps(3)) (simp add: append_assoc flip: ser_cids_simps(3))
  have keys: "map fst (slot_map 0 ?slots) = take ?n cids"
    unfolding place_pre_keys [OF fit] ..
  define c2 where "c2 = c1\<lparr>cd_placeholders := cd_placeholders c1 @ map (\<lambda>k. placeholder_new\<lparr>ph_cmpt := Some k\<rparr>) ?rest,
    cd_map := cd_map c1 @ slot_map (length ps) (map S_Compact ?rest)\<rparr>"
  have e4: "fill_compact_ids v (length ?rest) (length (?A @ ser_cids (take ?n cids))) (length ps) c1 =
      Inr (length ((?A @ ser_cids (take ?n cids)) @ ser_cids ?rest), c2)"
    unfolding c2_def
  proof (rule fill_compact_ids_spec [OF v(1) eqB])
    show "list_all (\<lambda>c. c < 2 ^ 48) ?rest" using w(7) by (auto simp: list_all_iff dest: in_set_dropD)
    show "distinct (map fst (cd_map c1) @ ?rest)" using w(8) keys by (simp add: e3(2))
    show "length ps = length (cd_placeholders c1)" by (simp add: e3(2))
    show "length ps + length ?rest < 2 ^ 64" using big lps n by simp
  qed
  have la: "length (?A @ ser_cids (take ?n cids)) = length ?A + 6 * ?n" using n by (simp add: min_absorb2)
  have ok: "cds_parse H sids (cds_new v) = Inr c2"
    using key e1 off e2 e3(1) e4 sub la
    by (simp add: cds_parse_def cds_get_msg_def cds_new_def c0_def e3(2) add.assoc)
  have slots: "parsed_slots pres cids = ?slots @ map S_Compact ?rest"
    by (simp add: parsed_slots_def place_def case_prod_unfold snd_place_pre)
  show thesis
  proof (rule that [OF ok])
    show "list_all2 (slot_ph H sids) (parsed_slots pres cids) (cd_placeholders c2)"
      unfolding slots c2_def using e3(3) by (auto simp: e3(2) list_all2_map1 list_all2_map2 list.rel_refl intro!: list_all2_appendI)
    show "cd_map c2 = slot_map 0 (parsed_slots pres cids)"
      unfolding slots c2_def using length_place_pre [OF fit] lps by (simp add: e3(2) slot_map_append parsed_diffs_def)
  qed (use big in \<open>simp_all add: c2_def e3(2) c0_def cds_new_def u64_id\<close>)
qed

end
