(* ===== verification/CompactMapProps.thy ===== *)
theory CompactMapProps
  imports CompactParseProps ByteRegions TxServiceProps "HOL-Library.Multiset"
begin

text \<open>
  What the sub-tasks of the mapping compute. Unless two transactions of the pool have the same compact
  id, the result does not depend on how the sub-tasks are interleaved: every compact id of the message
  that belongs to a transaction of the pool with a short id and contents gets that transaction.
\<close>

section \<open>Transactions that the message refers to\<close>

definition cid :: "64 word \<times> 64 word \<Rightarrow> hash \<Rightarrow> nat" where
  "cid key h = to_compact_id (sha_of_binary h) key"

definition target :: "64 word \<times> 64 word \<Rightarrow> tx_service \<Rightarrow> compact_map \<Rightarrow> hash \<Rightarrow> nat option" where
  \<comment> \<open>the position in the block that the message gives to a transaction with a short id\<close>
  "target key s M h =
     (case ts_sids s h of Some (i # _) \<Rightarrow> map_option snd (map_of M (cid key h)) | _ \<Rightarrow> None)"

definition targets :: "64 word \<times> 64 word \<Rightarrow> tx_service \<Rightarrow> compact_map \<Rightarrow> hash list \<Rightarrow> hash set" where
  "targets key s M pool = {h \<in> set pool. target key s M h \<noteq> None}"

definition known :: "tx_service \<Rightarrow> hash \<Rightarrow> bool" where
  "known s h \<longleftrightarrow> mw_find (ts_contents s) h \<noteq> None"

definition known_copy :: "tx_service \<Rightarrow> hash \<Rightarrow> buffer_view" where
  "known_copy s h =
     (case mw_find (ts_contents s) h of
        Some (Some w) \<Rightarrow> (case buffer_copy w of Inr c \<Rightarrow> c | Inl _ \<Rightarrow> w)
      | _ \<Rightarrow> bv_empty)"

definition ph_filled :: "tx_service \<Rightarrow> hash \<Rightarrow> placeholder \<Rightarrow> placeholder" where
  "ph_filled s h p = p\<lparr>ph_type := PT_short_id, ph_sid := tx_sid s h, ph_contents := Some (known_copy s h)\<rparr>"

definition fresh_map :: "compact_map \<Rightarrow> placeholder list \<Rightarrow> bool" where
  "fresh_map M ps \<longleftrightarrow>
     distinct (map fst M) \<and> distinct (map (\<lambda>(k, i, idx). idx) M) \<and> length M < 2 ^ 64 \<and>
     (\<forall>(k, i, idx) \<in> set M. i = NULL_TX_SID \<and> idx < length ps \<and>
        ph_type (ps ! idx) = PT_missing_compact_id \<and> ph_sid (ps ! idx) = NULL_TX_SID)"

definition pool_ok :: "64 word \<times> 64 word \<Rightarrow> tx_service \<Rightarrow> compact_map \<Rightarrow> hash list \<Rightarrow> bool" where
  \<comment> \<open>short ids are not null, contents are readable, and no two transactions have the same compact id\<close>
  "pool_ok key s M pool \<longleftrightarrow>
     distinct pool \<and> (\<forall>h \<in> set pool. ts_sids s h \<noteq> Some [] \<and> (ts_sids s h \<noteq> None \<longrightarrow> tx_sid s h \<noteq> NULL_TX_SID)) \<and>
     inj_on (cid key) (targets key s M pool) \<and>
     (\<forall>h \<in> targets key s M pool. known s h \<longrightarrow>
        (\<exists>w. mw_find (ts_contents s) h = Some (Some w) \<and> bv_ok w \<and> 0 < bv_size w))"

lemma tx_sid_first: "ts_sids s h = Some (i # xs) \<Longrightarrow> tx_sid s h = i"
  by (simp add: tx_sid_def get_short_id_def)

lemma target_Some_iff:
  assumes "ts_sids s h \<noteq> Some []"
  shows "target key s M h = Some idx \<longleftrightarrow> ts_sids s h \<noteq> None \<and> (\<exists>i. map_of M (cid key h) = Some (i, idx))"
  using assms by (auto simp: target_def split: option.splits list.splits)

lemma finite_targets [simp]: "finite (targets key s M pool)"
  by (simp add: targets_def)

lemma targets_key:
  assumes "h \<in> targets key s M pool"
  shows "cid key h \<in> fst ` set M" and "map_of M (cid key h) \<noteq> None"
proof -
  show "map_of M (cid key h) \<noteq> None" using assms by (auto simp: targets_def target_def split: option.splits list.splits)
  then show "cid key h \<in> fst ` set M" by (simp add: map_of_eq_None_iff)
qed

lemma card_targets:
  assumes "pool_ok key s M pool"
  shows "card (targets key s M pool) \<le> length M"
proof -
  have "card (targets key s M pool) = card (cid key ` targets key s M pool)"
    using assms by (simp add: pool_ok_def card_image)
  also have "\<dots> \<le> card (fst ` set M)" by (intro card_mono image_subsetI targets_key(1)) simp_all
  also have "\<dots> \<le> length M" by (metis card_image_le card_length finite_set le_trans)
  finally show ?thesis .
qed

lemma inj_target:
  assumes p: "pool_ok key s M pool" and M: "fresh_map M ps" and h: "h \<in> targets key s M pool" "h' \<in> targets key s M pool"
    and eq: "target key s M h = target key s M h'"
  shows "h = h'"
proof -
  have ne: "ts_sids s h \<noteq> Some []" "ts_sids s h' \<noteq> Some []" using p h by (auto simp: pool_ok_def targets_def)
  obtain idx where t: "target key s M h = Some idx" "target key s M h' = Some idx" using h(1) eq by (auto simp: targets_def)
  obtain i i' where m: "map_of M (cid key h) = Some (i, idx)" "map_of M (cid key h') = Some (i', idx)"
    using t ne by (auto simp: target_Some_iff)
  then have "(cid key h, i, idx) \<in> set M" "(cid key h', i', idx) \<in> set M" by (simp_all add: map_of_SomeD)
  moreover have "inj_on (\<lambda>(k, i, idx). idx) (set M)" using M by (simp add: fresh_map_def distinct_map)
  ultimately have "(cid key h, i, idx) = (cid key h', i', idx)" by (metis (no_types, lifting) case_prod_conv inj_on_def)
  then show ?thesis using p h by (auto simp: pool_ok_def inj_on_def)
qed

section \<open>The invariant\<close>

definition jobs_todo :: "map_job list \<Rightarrow> hash list" where
  "jobs_todo jobs = concat (map mj_bucket jobs)"

fun phase_hash :: "map_phase \<Rightarrow> hash list" where
  "phase_hash (Ph_Write h i idx dup) = [h]"
| "phase_hash _ = []"

definition jobs_writing :: "map_job list \<Rightarrow> hash list" where
  "jobs_writing jobs = concat (map (\<lambda>j. phase_hash (mj_phase j)) jobs)"

fun phase_count :: "map_phase \<Rightarrow> nat" where
  "phase_count (Ph_Count d) = 1"
| "phase_count _ = 0"

definition jobs_counting :: "map_job list \<Rightarrow> nat" where
  "jobs_counting jobs = sum_list (map (\<lambda>j. phase_count (mj_phase j)) jobs)"

fun phase_ok :: "64 word \<times> 64 word \<Rightarrow> tx_service \<Rightarrow> compact_map \<Rightarrow> map_phase \<Rightarrow> bool" where
  "phase_ok key s M (Ph_Write h i idx dup) \<longleftrightarrow> target key s M h = Some idx \<and> i = tx_sid s h \<and> \<not> dup"
| "phase_ok key s M (Ph_Count d) \<longleftrightarrow> d = 1"
| "phase_ok key s M _ \<longleftrightarrow> True"

definition claimed :: "64 word \<times> 64 word \<Rightarrow> compact_map \<Rightarrow> hash set \<Rightarrow> compact_map \<Rightarrow> bool" where
  \<comment> \<open>exactly the entries of the transactions in \<open>C\<close> have a short id\<close>
  "claimed key M C M' \<longleftrightarrow>
     map fst M' = map fst M \<and> (\<forall>k. map_option snd (map_of M' k) = map_option snd (map_of M k)) \<and>
     (\<forall>k i idx. map_of M' k = Some (i, idx) \<longrightarrow> (i = NULL_TX_SID \<longleftrightarrow> k \<notin> cid key ` C))"

definition written ::
  "64 word \<times> 64 word \<Rightarrow> tx_service \<Rightarrow> compact_map \<Rightarrow> placeholder list \<Rightarrow> hash set \<Rightarrow> placeholder list \<Rightarrow> bool" where
  \<comment> \<open>exactly the placeholders of the known transactions in \<open>W\<close> are filled\<close>
  "written key s M ps W ps' \<longleftrightarrow>
     length ps' = length ps \<and>
     (\<forall>h \<in> W. known s h \<longrightarrow> (\<forall>idx. target key s M h = Some idx \<longrightarrow> ps' ! idx = ph_filled s h (ps ! idx))) \<and>
     (\<forall>idx < length ps. (\<forall>h \<in> W. known s h \<longrightarrow> target key s M h \<noteq> Some idx) \<longrightarrow> ps' ! idx = ps ! idx)"

definition jobs_ok :: "64 word \<times> 64 word \<Rightarrow> tx_service \<Rightarrow> compact_map \<Rightarrow> hash list \<Rightarrow> map_job list \<Rightarrow> bool" where
  "jobs_ok key s M pool jobs \<longleftrightarrow>
     distinct (jobs_todo jobs @ jobs_writing jobs) \<and> set (jobs_todo jobs) \<subseteq> set pool \<and>
     set (jobs_writing jobs) \<subseteq> targets key s M pool \<and> list_all (\<lambda>j. phase_ok key s M (mj_phase j)) jobs"

definition claimed_set :: "64 word \<times> 64 word \<Rightarrow> tx_service \<Rightarrow> compact_map \<Rightarrow> hash list \<Rightarrow> map_job list \<Rightarrow> hash set" where
  "claimed_set key s M pool jobs = targets key s M pool - set (jobs_todo jobs)"

definition written_set :: "64 word \<times> 64 word \<Rightarrow> tx_service \<Rightarrow> compact_map \<Rightarrow> hash list \<Rightarrow> map_job list \<Rightarrow> hash set" where
  "written_set key s M pool jobs = claimed_set key s M pool jobs - set (jobs_writing jobs)"

definition shared_ok ::
  "64 word \<times> 64 word \<Rightarrow> tx_service \<Rightarrow> compact_map \<Rightarrow> placeholder list \<Rightarrow> hash set \<Rightarrow> hash set \<Rightarrow> nat \<Rightarrow> map_shared \<Rightarrow> bool" where
  \<comment> \<open>\<open>n\<close>: the increments of the counter that are still to come\<close>
  "shared_ok key s M ps C W n m \<longleftrightarrow>
     claimed key M C (ms_map m) \<and> written key s M ps W (ms_placeholders m) \<and>
     ms_counter m + n = card {h \<in> W. known s h} \<and>
     mset (ms_missing m) = image_mset (\<lambda>h. the (target key s M h)) (mset_set {h \<in> W. \<not> known s h})"

definition map_inv ::
  "64 word \<times> 64 word \<Rightarrow> tx_service \<Rightarrow> compact_map \<Rightarrow> placeholder list \<Rightarrow> hash list \<Rightarrow> map_shared \<Rightarrow> map_job list \<Rightarrow> bool" where
  "map_inv key s M ps pool m jobs \<longleftrightarrow>
     jobs_ok key s M pool jobs \<and>
     shared_ok key s M ps (claimed_set key s M pool jobs) (written_set key s M pool jobs) (jobs_counting jobs) m"

lemma jobs_split [simp]:
  "jobs_todo (xs @ j # ys) = jobs_todo xs @ mj_bucket j @ jobs_todo ys"
  "jobs_writing (xs @ j # ys) = jobs_writing xs @ phase_hash (mj_phase j) @ jobs_writing ys"
  "jobs_counting (xs @ j # ys) = jobs_counting xs + phase_count (mj_phase j) + jobs_counting ys"
  by (simp_all add: jobs_todo_def jobs_writing_def jobs_counting_def)

lemma map_of_cmap_set_sid:
  "map_of (cmap_set_sid k i M) k' = (if k' = k then map_option (\<lambda>(_, idx). (i, idx)) (map_of M k) else map_of M k')"
  by (induction M) (auto simp: cmap_set_sid_def)

lemma keys_cmap_set_sid: "map fst (cmap_set_sid k i M) = map fst M"
  by (induction M) (auto simp: cmap_set_sid_def)

lemma claimed_insert:
  assumes "claimed key M C M'" and "i \<noteq> NULL_TX_SID"
  shows "claimed key M (insert h C) (cmap_set_sid (cid key h) i M')"
  using assms unfolding claimed_def by (auto simp: map_of_cmap_set_sid keys_cmap_set_sid option.map_comp comp_def case_prod_unfold split: if_splits)

lemma buffer_copy_known:
  assumes "mw_find (ts_contents s) h = Some (Some w)" and "bv_ok w" and "0 < bv_size w"
  shows "buffer_copy w = Inr (known_copy s h)" and "bv_ok (known_copy s h)" and "bv_bytes (known_copy s h) = bv_bytes w"
proof -
  have "bv_at_read w 0 (bv_size w) = Inr (bv_bytes w)"
    using assms bv_at_read_inside [of w 0 "bv_size w"] by (simp add: slice_0_all bv_ok_def)
  then have c: "buffer_copy w = Inr (bv_set_buffer bv_empty (bv_bytes w) (length (bv_bytes w)))"
    using assms(3) by (simp add: buffer_copy_def)
  then have k: "known_copy s h = bv_set_buffer bv_empty (bv_bytes w) (length (bv_bytes w))" using assms(1) by (simp add: known_copy_def)
  show "buffer_copy w = Inr (known_copy s h)" using c k by simp
  have "length (bv_bytes w) < 2 ^ 64" using bvs.bytes_small [OF assms(2)] .
  then show "bv_ok (known_copy s h)" "bv_bytes (known_copy s h) = bv_bytes w"
    by (simp_all add: k bv_set_buffer_def bv_empty_def bv_ok_def bv_wf_def bv_bytes_def [of "\<lparr>bv_buf = _, bv_from = _, bv_size = _\<rparr>"] slice_0_all)
qed

section \<open>One step\<close>

lemma map_step_next:
  assumes inv: "map_inv key s M ps pool m (xs @ j # ys)" and p: "pool_ok key s M pool" and M: "fresh_map M ps"
    and j: "mj_phase j = Ph_Next" "mj_bucket j = h # rest"
  shows "\<exists>m' j'. map_next key s m h rest = Inr (m', j') \<and> map_inv key s M ps pool m' (xs @ j' # ys) \<and> map_todo j' < map_todo j"
proof -
  let ?T = "targets key s M pool" and ?C = "claimed_set key s M pool (xs @ j # ys)" and ?W = "written_set key s M pool (xs @ j # ys)"
  let ?job = "\<lambda>ph. \<lparr>mj_bucket = rest, mj_phase = ph\<rparr>"
  have jo: "jobs_ok key s M pool (xs @ j # ys)" and sh: "shared_ok key s M ps ?C ?W (jobs_counting (xs @ j # ys)) m"
    using inv by (simp_all add: map_inv_def)
  have h: "h \<in> set pool" "h \<notin> set (jobs_todo xs)" "h \<notin> set rest" "h \<notin> set (jobs_todo ys)" "h \<notin> set (jobs_writing xs)" "h \<notin> set (jobs_writing ys)"
    using jo j by (auto simp: jobs_ok_def)
  have ne: "ts_sids s h \<noteq> Some []" using p h(1) by (simp add: pool_ok_def)
  have cl: "claimed key M ?C (ms_map m)" and len: "length (ms_placeholders m) = length ps"
    using sh by (auto simp: shared_ok_def written_def)
  have skip: "map_inv key s M ps pool m (xs @ ?job ph # ys)"
    if "target key s M h = None" "phase_hash ph = []" "phase_ok key s M ph" "phase_count ph = 0" for ph
  proof -
    have C: "claimed_set key s M pool (xs @ ?job ph # ys) = ?C"
      using that(1) j by (auto simp: claimed_set_def targets_def)
    then have "written_set key s M pool (xs @ ?job ph # ys) = ?W" using that(2) j by (simp add: written_set_def)
    then show ?thesis using jo sh j that C by (simp add: map_inv_def jobs_ok_def)
  qed
  show ?thesis
  proof (cases "target key s M h")
    case None
    show ?thesis
    proof (cases "ts_sids s h")
      case None
      then show ?thesis using skip [of Ph_Next] \<open>target key s M h = None\<close> j by (simp add: map_next_def map_todo_def)
    next
      case (Some zs)
      then obtain i zs' where "ts_sids s h = Some (i # zs')" using ne by (cases zs) auto
      moreover from this have "map_of (ms_map m) (cid key h) = None"
        using \<open>target key s M h = None\<close> cl by (simp add: target_def claimed_def) (metis map_option_is_None)
      ultimately show ?thesis using skip [of Ph_Check] \<open>target key s M h = None\<close> j
        by (simp add: map_next_def map_todo_def cid_def)
    qed
  next
    case (Some idx)
    then obtain i zs' k where i: "ts_sids s h = Some (i # zs')" "map_of M (cid key h) = Some (k, idx)"
      using ne by (auto simp: target_def split: option.splits list.splits)
    have hT: "h \<in> ?T" using h(1) Some by (simp add: targets_def)
    have "map_option snd (map_of (ms_map m) (cid key h)) = Some idx" using cl i(2) by (simp add: claimed_def)
    then obtain k' where k': "map_of (ms_map m) (cid key h) = Some (k', idx)" by auto
    have "cid key h \<notin> cid key ` ?C"
      using p hT j by (auto simp: pool_ok_def inj_on_def claimed_set_def)
    then have null: "k' = NULL_TX_SID" using cl k' unfolding claimed_def by metis
    have idx: "idx < length ps" using M map_of_SomeD [OF i(2)] by (auto simp: fresh_map_def)
    have sid: "i = tx_sid s h" "i \<noteq> NULL_TX_SID" using p h(1) i(1) tx_sid_first [OF i(1)] by (auto simp: pool_ok_def)
    define m' where "m' = m\<lparr>ms_map := cmap_set_sid (cid key h) i (ms_map m)\<rparr>"
    let ?j = "?job (Ph_Write h i idx False)"
    have step: "map_next key s m h rest = Inr (m', ?j)"
      using i(1) k' null idx len by (simp add: map_next_def m'_def cid_def Let_def)
    have C: "claimed_set key s M pool (xs @ ?j # ys) = insert h ?C" using hT h j by (auto simp: claimed_set_def)
    have W: "written_set key s M pool (xs @ ?j # ys) = ?W" using h j by (auto simp: written_set_def claimed_set_def)
    have "claimed key M (insert h ?C) (ms_map m')" unfolding m'_def using claimed_insert [OF cl sid(2)] by simp
    then have "shared_ok key s M ps (insert h ?C) ?W (jobs_counting (xs @ ?j # ys)) m'"
      using sh j by (simp add: shared_ok_def m'_def)
    moreover have "jobs_ok key s M pool (xs @ ?j # ys)" using jo j Some sid hT h by (auto simp: jobs_ok_def)
    ultimately show ?thesis using step j C W by (auto simp: map_todo_def map_inv_def)
  qed
qed

lemma written_unknown: "\<not> known s h \<Longrightarrow> written key s M ps (insert h W) ps' = written key s M ps W ps'"
  by (auto simp: written_def)

lemma written_known:
  assumes "written key s M ps W ps'" and t: "target key s M h = Some idx" and "known s h" and idx: "idx < length ps"
    and inj: "\<And>h'. h' \<in> W \<Longrightarrow> target key s M h' \<noteq> Some idx"
  shows "written key s M ps (insert h W) (ps'[idx := ph_filled s h (ps ! idx)])"
  using assms unfolding written_def by (auto simp: nth_list_update)

lemma map_step_write:
  assumes inv: "map_inv key s M ps pool m (xs @ j # ys)" and p: "pool_ok key s M pool" and M: "fresh_map M ps"
    and j: "mj_phase j = Ph_Write h i idx dup"
  shows "\<exists>m' ph. map_write s m h i idx dup = Inr (m', ph) \<and> map_inv key s M ps pool m' (xs @ j\<lparr>mj_phase := ph\<rparr> # ys) \<and> phase_todo ph < 3"
proof -
  let ?T = "targets key s M pool" and ?C = "claimed_set key s M pool (xs @ j # ys)" and ?W = "written_set key s M pool (xs @ j # ys)"
  have jo: "jobs_ok key s M pool (xs @ j # ys)" and sh: "shared_ok key s M ps ?C ?W (jobs_counting (xs @ j # ys)) m"
    using inv by (simp_all add: map_inv_def)
  have h: "h \<in> ?T" "target key s M h = Some idx" "i = tx_sid s h" "\<not> dup" "h \<notin> ?W" "h \<in> ?C"
    "h \<notin> set (jobs_writing xs)" "h \<notin> set (jobs_writing ys)"
    using jo j by (auto simp: jobs_ok_def written_set_def claimed_set_def)
  have WT: "?W \<subseteq> ?T" by (auto simp: written_set_def claimed_set_def)
  have fin: "finite ?W" by (rule finite_subset [OF WT finite_targets])
  have ne: "ts_sids s h \<noteq> Some []" using p h(1) by (auto simp: pool_ok_def targets_def)
  obtain k where "map_of M (cid key h) = Some (k, idx)" using h(2) ne by (auto simp: target_Some_iff)
  from bspec [OF _ map_of_SomeD [OF this], of "\<lambda>(k, i, idx). i = NULL_TX_SID \<and> idx < length ps \<and>
      ph_type (ps ! idx) = PT_missing_compact_id \<and> ph_sid (ps ! idx) = NULL_TX_SID"]
  have idx: "idx < length ps" "ph_type (ps ! idx) = PT_missing_compact_id" "ph_sid (ps ! idx) = NULL_TX_SID"
    using M by (simp_all add: fresh_map_def)
  have inj: "target key s M h' \<noteq> Some idx" if "h' \<in> ?W" for h'
    using inj_target [OF p M, of h' h] that WT h by auto
  have same: "ms_placeholders m ! idx = ps ! idx" "length (ms_placeholders m) = length ps"
    using sh idx inj unfolding shared_ok_def written_def by blast+
  have sets: "claimed_set key s M pool (xs @ j\<lparr>mj_phase := ph\<rparr> # ys) = ?C"
    "written_set key s M pool (xs @ j\<lparr>mj_phase := ph\<rparr> # ys) = insert h ?W" if "phase_hash ph = []" for ph
    using that j h by (auto simp: written_set_def claimed_set_def)
  have jo': "jobs_ok key s M pool (xs @ j\<lparr>mj_phase := ph\<rparr> # ys)" if "phase_hash ph = []" "phase_ok key s M ph" for ph
    using jo j that by (simp add: jobs_ok_def)
  show ?thesis
  proof (cases "known s h")
    case True
    then obtain w where w: "mw_find (ts_contents s) h = Some (Some w)" "bv_ok w" "0 < bv_size w"
      using p h(1) by (auto simp: pool_ok_def)
    define m' where "m' = m\<lparr>ms_placeholders := (ms_placeholders m)[idx := ph_filled s h (ps ! idx)]\<rparr>"
    have "map_write s m h i idx dup = Inr (m', Ph_Count 1)"
      using w buffer_copy_known(1) [OF w] h(3,4) same(1) by (simp add: map_write_def m'_def ph_filled_def Let_def)
    moreover have "shared_ok key s M ps ?C (insert h ?W) (jobs_counting (xs @ j\<lparr>mj_phase := Ph_Count 1\<rparr> # ys)) m'"
    proof -
      have wr: "written key s M ps (insert h ?W) (ms_placeholders m')"
        using sh written_known [OF _ h(2) True idx(1) inj] by (simp add: shared_ok_def m'_def)
      have s1: "{h' \<in> insert h ?W. known s h'} = insert h {h' \<in> ?W. known s h'}"
        "{h' \<in> insert h ?W. \<not> known s h'} = {h' \<in> ?W. \<not> known s h'}" using True by auto
      have "card (insert h {h' \<in> ?W. known s h'}) = Suc (card {h' \<in> ?W. known s h'})" using fin h(5) by (intro card_insert_disjoint) auto
      then show ?thesis using sh wr j unfolding shared_ok_def s1 by (simp add: m'_def)
    qed
    ultimately show ?thesis using sets [of "Ph_Count 1"] jo' [of "Ph_Count 1"] by (simp add: map_inv_def)
  next
    case False
    let ?p = "(ps ! idx)\<lparr>ph_type := PT_missing_compact_id, ph_sid := NULL_TX_SID\<rparr>"
    have p0: "?p = ps ! idx" using idx(2,3) by (cases "ps ! idx") simp
    define m' where "m' = m\<lparr>ms_missing := ms_missing m @ [idx]\<rparr>"
    have "(ms_placeholders m)[idx := ps ! idx] = ms_placeholders m" using same by (metis list_update_id)
    then have "map_write s m h i idx dup = Inr (m', Ph_Check)"
      using False h(4) same(1) p0 by (simp add: map_write_def known_def m'_def Let_def)
    moreover have "shared_ok key s M ps ?C (insert h ?W) (jobs_counting (xs @ j\<lparr>mj_phase := Ph_Check\<rparr> # ys)) m'"
    proof -
      have s1: "{h' \<in> insert h ?W. known s h'} = {h' \<in> ?W. known s h'}"
        "{h' \<in> insert h ?W. \<not> known s h'} = insert h {h' \<in> ?W. \<not> known s h'}" using False by auto
      have "mset_set (insert h {h' \<in> ?W. \<not> known s h'}) = add_mset h (mset_set {h' \<in> ?W. \<not> known s h'})"
        using fin h(5) by (intro mset_set.insert) auto
      then show ?thesis using sh j False h(2) unfolding shared_ok_def s1 by (simp add: m'_def written_unknown)
    qed
    ultimately show ?thesis using sets [of Ph_Check] jo' [of Ph_Check] by (simp add: map_inv_def)
  qed
qed

lemma map_step_count:
  assumes inv: "map_inv key s M ps pool m (xs @ j # ys)" and p: "pool_ok key s M pool" and M: "fresh_map M ps"
    and j: "mj_phase j = Ph_Count d"
  shows "map_inv key s M ps pool (m\<lparr>ms_counter := nat ((int (ms_counter m) + d) mod 2 ^ 64)\<rparr>) (xs @ j\<lparr>mj_phase := Ph_Check\<rparr> # ys)"
proof -
  let ?T = "targets key s M pool" and ?C = "claimed_set key s M pool (xs @ j # ys)" and ?W = "written_set key s M pool (xs @ j # ys)"
  have jo: "jobs_ok key s M pool (xs @ j # ys)" and sh: "shared_ok key s M ps ?C ?W (jobs_counting (xs @ j # ys)) m"
    using inv by (simp_all add: map_inv_def)
  have d: "d = 1" using jo j by (simp add: jobs_ok_def)
  have WT: "{h \<in> ?W. known s h} \<subseteq> ?T" by (auto simp: written_set_def claimed_set_def)
  have "ms_counter m + 1 \<le> card {h \<in> ?W. known s h}" using sh j by (simp add: shared_ok_def)
  also have "\<dots> \<le> length M" using card_mono [OF finite_targets WT] card_targets [OF p] by simp
  also have "\<dots> < 2 ^ 64" using M by (simp add: fresh_map_def)
  finally have cnt: "nat ((int (ms_counter m) + d) mod 2 ^ 64) = Suc (ms_counter m)" by (simp add: d nat_eq_iff)
  have "claimed_set key s M pool (xs @ j\<lparr>mj_phase := Ph_Check\<rparr> # ys) = ?C"
    "written_set key s M pool (xs @ j\<lparr>mj_phase := Ph_Check\<rparr> # ys) = ?W"
    using j by (simp_all add: written_set_def claimed_set_def)
  then show ?thesis unfolding cnt using jo sh j by (simp add: map_inv_def jobs_ok_def shared_ok_def)
qed

lemma map_step_check:
  assumes inv: "map_inv key s M ps pool m (xs @ j # ys)" and p: "pool_ok key s M pool" and j: "mj_phase j = Ph_Check"
    and j': "j' = (if length (ms_map m) \<le> ms_counter m then \<lparr>mj_bucket = [], mj_phase = Ph_Next\<rparr> else j\<lparr>mj_phase := Ph_Next\<rparr>)"
  shows "map_inv key s M ps pool m (xs @ j' # ys)"
proof -
  let ?T = "targets key s M pool" and ?C = "claimed_set key s M pool (xs @ j # ys)" and ?W = "written_set key s M pool (xs @ j # ys)"
  have jo: "jobs_ok key s M pool (xs @ j # ys)" and sh: "shared_ok key s M ps ?C ?W (jobs_counting (xs @ j # ys)) m"
    using inv by (simp_all add: map_inv_def)
  have len: "length (ms_map m) = length M" using sh unfolding shared_ok_def claimed_def by (metis length_map)
  have "claimed_set key s M pool (xs @ j' # ys) = ?C \<and> written_set key s M pool (xs @ j' # ys) = ?W"
  proof (cases "length (ms_map m) \<le> ms_counter m")
    case True
    have WT: "{h \<in> ?W. known s h} \<subseteq> ?T" by (auto simp: written_set_def claimed_set_def)
    have "card ?T \<le> card {h \<in> ?W. known s h}" using True len card_targets [OF p] sh by (simp add: shared_ok_def)
    then have "{h \<in> ?W. known s h} = ?T" using WT by (metis card_seteq finite_targets)
    then have "?T \<inter> set (mj_bucket j) = {}" by (auto simp: written_set_def claimed_set_def)
    then have "claimed_set key s M pool (xs @ j' # ys) = ?C" using True by (auto simp: claimed_set_def j')
    then show ?thesis using j True by (simp add: written_set_def j')
  qed (use j in \<open>simp add: written_set_def claimed_set_def j'\<close>)
  moreover have "jobs_ok key s M pool (xs @ j' # ys)" using jo j by (auto simp: jobs_ok_def j')
  ultimately show ?thesis using sh j by (simp add: map_inv_def j')
qed

lemma map_job_step_spec:
  assumes inv: "map_inv key s M ps pool m (xs @ j # ys)" and p: "pool_ok key s M pool" and M: "fresh_map M ps"
  shows "\<exists>m' j'. map_job_step key s m j = Inr (s, m', j') \<and> map_inv key s M ps pool m' (xs @ j' # ys) \<and> map_todo j' \<le> map_todo j - 1"
proof (cases "mj_phase j")
  case Ph_Next
  show ?thesis
  proof (cases "mj_bucket j")
    case Nil
    then show ?thesis using Ph_Next inv by (simp add: map_job_step_def map_todo_def)
  next
    case (Cons h rest)
    then show ?thesis using map_step_next [OF inv p M Ph_Next Cons] Ph_Next by (auto simp: map_job_step_def)
  qed
next
  case (Ph_Write h i idx dup)
  then show ?thesis using map_step_write [OF inv p M Ph_Write] by (fastforce simp: map_job_step_def map_todo_def)
next
  case (Ph_Count d)
  then show ?thesis using map_step_count [OF inv p M Ph_Count] by (simp add: map_job_step_def map_todo_def)
next
  case Ph_Check
  then show ?thesis using map_step_check [OF inv p Ph_Check refl] by (simp add: map_job_step_def map_todo_def)
qed

section \<open>All steps\<close>

lemma map_run_jobs:
  assumes p: "pool_ok key s M pool" and M: "fresh_map M ps" and "map_inv key s M ps pool m jobs"
  shows "\<exists>m' jobs'. run_jobs (map_job_step key) sched (s, m, jobs) = Inr (s, m', jobs') \<and> map_inv key s M ps pool m' jobs' \<and>
    length jobs' = length jobs \<and> (\<forall>i < length jobs. map_todo (jobs' ! i) \<le> map_todo (jobs ! i) - count_list sched i)"
  using assms(3)
proof (induction sched arbitrary: m jobs)
  case (Cons i sched)
  show ?case
  proof (cases "i < length jobs")
    case True
    have sp: "jobs = take i jobs @ jobs ! i # drop (Suc i) jobs" by (rule id_take_nth_drop [OF True])
    have "map_inv key s M ps pool m (take i jobs @ jobs ! i # drop (Suc i) jobs)" using Cons.prems sp by simp
    from map_job_step_spec [OF this p M]
    obtain m1 j1 where st: "map_job_step key s m (jobs ! i) = Inr (s, m1, j1)"
      "map_inv key s M ps pool m1 (take i jobs @ j1 # drop (Suc i) jobs)" "map_todo j1 \<le> map_todo (jobs ! i) - 1"
      by blast
    have "map_inv key s M ps pool m1 (jobs[i := j1])" using st(2) True by (simp add: upd_conv_take_nth_drop)
    from Cons.IH [OF this]
    obtain m' jobs' where r: "run_jobs (map_job_step key) sched (s, m1, jobs[i := j1]) = Inr (s, m', jobs')"
      "map_inv key s M ps pool m' jobs'" "length jobs' = length (jobs[i := j1])"
      "\<forall>k < length (jobs[i := j1]). map_todo (jobs' ! k) \<le> map_todo (jobs[i := j1] ! k) - count_list sched k"
      by blast
    have "map_todo (jobs' ! k) \<le> map_todo (jobs ! k) - count_list (i # sched) k" if "k < length jobs" for k
      using r(4) [rule_format, of k] that st(3) by (cases "k = i") auto
    then show ?thesis using st(1) r True by auto
  next
    case False
    then show ?thesis using Cons.IH [OF Cons.prems] by auto
  qed
qed auto

lemma map_run_spec:
  assumes p: "pool_ok key s M pool" and M: "fresh_map M ps" and inv: "map_inv key s M ps pool m jobs"
  obtains m' where "map_run key sched s m jobs = Inr m'"
    and "shared_ok key s M ps (targets key s M pool) (targets key s M pool) 0 m'"
proof -
  obtain m1 jobs1 where r1: "run_jobs (map_job_step key) sched (s, m, jobs) = Inr (s, m1, jobs1)" "map_inv key s M ps pool m1 jobs1"
    using map_run_jobs [OF p M inv] by blast
  obtain m2 jobs2 where r2: "run_jobs (map_job_step key) (rest_of map_todo jobs1) (s, m1, jobs1) = Inr (s, m2, jobs2)"
    "map_inv key s M ps pool m2 jobs2" "length jobs2 = length jobs1"
    "\<forall>i < length jobs1. map_todo (jobs2 ! i) \<le> map_todo (jobs1 ! i) - count_list (rest_of map_todo jobs1) i"
    using map_run_jobs [OF p M r1(2)] by blast
  have "map_todo j = 0" if "j \<in> set jobs2" for j
    using that r2(3,4) by (auto simp: in_set_conv_nth count_rest_of)
  then have idle: "mj_bucket j = [] \<and> mj_phase j = Ph_Next" if "j \<in> set jobs2" for j
    using that by (cases "mj_phase j") (fastforce simp: map_todo_def)+
  then have "jobs_todo jobs2 = []" "jobs_writing jobs2 = []" "jobs_counting jobs2 = 0"
    by (simp_all add: jobs_todo_def jobs_writing_def jobs_counting_def)
  then have "shared_ok key s M ps (targets key s M pool) (targets key s M pool) 0 m2"
    using r2(2) by (simp add: map_inv_def claimed_set_def written_set_def)
  then show thesis using that r1(1) r2(1) by (simp add: map_run_def)
qed

section \<open>The task\<close>

lemma jobs_todo_dispatch: "jobs_todo (map_dispatch n i bs jobs) = jobs_todo jobs @ concat (map bk_set bs)"
  by (induction n i bs jobs rule: map_dispatch.induct) (auto simp: jobs_todo_def)

lemma phases_dispatch:
  "\<forall>j \<in> set jobs. mj_phase j = Ph_Next \<Longrightarrow> j \<in> set (map_dispatch n i bs jobs) \<Longrightarrow> mj_phase j = Ph_Next"
  by (induction n i bs jobs rule: map_dispatch.induct) (auto split: if_splits)

lemma fresh_map_null: "fresh_map M ps \<Longrightarrow> map_of M k = Some (i, idx) \<Longrightarrow> i = NULL_TX_SID \<and> idx < length ps"
  by (drule map_of_SomeD) (auto simp: fresh_map_def)

lemma map_inv_initial:
  assumes p: "pool_ok key s M pool" and M: "fresh_map M ps" and pool: "pool = concat (map bk_set bs)"
  shows "map_inv key s M ps pool \<lparr>ms_map = M, ms_placeholders = ps, ms_counter = 0, ms_missing = []\<rparr> (map_dispatch n 0 bs [])"
proof -
  let ?jobs = "map_dispatch n 0 bs []"
  have ph: "mj_phase j = Ph_Next" if "j \<in> set ?jobs" for j using phases_dispatch [OF _ that] by simp
  then have w: "jobs_writing ?jobs = []" "jobs_counting ?jobs = 0"
    by (auto simp: jobs_writing_def jobs_counting_def concat_eq_Nil_conv)
  have t: "jobs_todo ?jobs = pool" unfolding jobs_todo_dispatch pool by (simp add: jobs_todo_def)
  then have "claimed_set key s M pool ?jobs = {}" "written_set key s M pool ?jobs = {}"
    by (auto simp: claimed_set_def written_set_def targets_def)
  moreover have "claimed key M {} M" using fresh_map_null [OF M] by (auto simp: claimed_def)
  ultimately show ?thesis using t w ph p
    by (simp add: map_inv_def jobs_ok_def shared_ok_def written_def pool_ok_def list_all_iff)
qed

text \<open>The positions without a transaction, and their number.\<close>

definition open_positions :: "64 word \<times> 64 word \<Rightarrow> tx_service \<Rightarrow> compact_map \<Rightarrow> hash list \<Rightarrow> nat list" where
  "open_positions key s M pool =
     filter (\<lambda>idx. \<forall>h \<in> targets key s M pool. known s h \<longrightarrow> target key s M h \<noteq> Some idx) (map (\<lambda>(k, i, idx). idx) M)"

lemma length_open_positions:
  assumes p: "pool_ok key s M pool" and M: "fresh_map M ps"
  shows "length (open_positions key s M pool) + card {h \<in> targets key s M pool. known s h} = length M"
proof -
  let ?K = "{h \<in> targets key s M pool. known s h}" and ?f = "\<lambda>h. the (target key s M h)" and ?xs = "map (\<lambda>(k, i, idx). idx) M"
  have inj: "inj_on ?f ?K"
    by (rule inj_onI) (auto intro!: inj_target [OF p M] simp: targets_def)
  have img: "idx \<in> set ?xs" if hT: "h \<in> targets key s M pool" and hidx: "target key s M h = Some idx" for h idx
  proof -
    have "ts_sids s h \<noteq> Some []" using p hT by (auto simp: pool_ok_def targets_def)
    then obtain i where "map_of M (cid key h) = Some (i, idx)" using hidx by (auto simp: target_Some_iff)
    then show ?thesis using map_of_SomeD by force
  qed
  have some: "target key s M h = Some (?f h)" if "h \<in> ?K" for h using that by (auto simp: targets_def)
  have sub: "?f ` ?K \<subseteq> set ?xs" using img some by blast
  have "(\<forall>h \<in> targets key s M pool. known s h \<longrightarrow> target key s M h \<noteq> Some x) \<longleftrightarrow> (\<forall>h \<in> ?K. ?f h \<noteq> x)" for x
    using some by (metis (mono_tags, lifting) mem_Collect_eq option.inject)
  then have "set (open_positions key s M pool) = {x \<in> set ?xs. \<forall>h \<in> ?K. ?f h \<noteq> x}" by (simp add: open_positions_def)
  then have "set ?xs = set (open_positions key s M pool) \<union> ?f ` ?K" and "set (open_positions key s M pool) \<inter> ?f ` ?K = {}"
    using sub by blast+
  then have "card (set ?xs) = card (set (open_positions key s M pool)) + card (?f ` ?K)"
    by (simp add: card_Un_disjoint)
  moreover have "distinct ?xs" using M by (simp add: fresh_map_def)
  then have "card (set ?xs) = length M" "card (set (open_positions key s M pool)) = length (open_positions key s M pool)"
    using distinct_card [of ?xs] distinct_card [of "open_positions key s M pool"] by (simp_all only: open_positions_def distinct_filter length_map)
  ultimately show ?thesis using card_image [OF inj] by simp
qed

lemma map_missing_indices_spec:
  assumes p: "pool_ok key s M pool" and M: "fresh_map M ps" and T: "T = targets key s M pool" and sh: "shared_ok key s M ps T T 0 m"
  shows "map_missing_indices (ms_map m) (ms_placeholders m) = Inr (open_positions key s M pool)"
proof -
  have cl: "claimed key M T (ms_map m)" and wr: "written key s M ps T (ms_placeholders m)" using sh by (simp_all add: shared_ok_def)
  have dk: "distinct (map fst M)" "map fst (ms_map m) = map fst M" using M cl by (simp_all add: fresh_map_def claimed_def)
  have len: "length (ms_map m) = length M" using arg_cong [OF dk(2), of length] by simp
  have idx: "snd (snd (ms_map m ! n)) = snd (snd (M ! n))" if "n < length M" for n
  proof -
    have k: "fst (ms_map m ! n) = fst (M ! n)" using arg_cong [OF dk(2), of "\<lambda>xs. xs ! n"] that len by simp
    have "map_of M (fst (M ! n)) = Some (snd (M ! n))"
      using dk that by (intro map_of_is_SomeI) (simp_all add: nth_mem)
    moreover have "map_of (ms_map m) (fst (ms_map m ! n)) = Some (snd (ms_map m ! n))"
      using dk that len by (intro map_of_is_SomeI) (simp_all add: nth_mem)
    moreover have "map_option snd (map_of (ms_map m) (fst (M ! n))) = map_option snd (map_of M (fst (M ! n)))"
      using cl by (simp add: claimed_def)
    ultimately show ?thesis by (simp add: k)
  qed
  have eq: "map (\<lambda>(k, i, idx). idx) (ms_map m) = map (\<lambda>(k, i, idx). idx) M"
    using idx len by (intro nth_equalityI) (simp_all add: case_prod_unfold)
  have lt: "i < length (ms_placeholders m)" if "i \<in> set (map (\<lambda>(k, i, idx). idx) M)" for i
    using M wr that by (auto simp: fresh_map_def written_def)
  have "list_all (\<lambda>(k, i, idx). idx < length (ms_placeholders m)) (ms_map m)"
    unfolding list_all_iff
  proof
    fix x assume "x \<in> set (ms_map m)"
    then have "(\<lambda>(k, i, idx). idx) x \<in> set (map (\<lambda>(k, i, idx). idx) (ms_map m))" by simp
    then show "(\<lambda>(k, i, idx). idx < length (ms_placeholders m)) x" using lt unfolding eq by (simp add: case_prod_unfold)
  qed
  moreover have ty: "ph_type (ms_placeholders m ! i) = PT_missing_compact_id \<longleftrightarrow>
      (\<forall>h \<in> T. known s h \<longrightarrow> target key s M h \<noteq> Some i)" if "i \<in> set (map (\<lambda>(k, i, idx). idx) M)" for i
  proof -
    have ps: "ph_type (ps ! i) = PT_missing_compact_id" "i < length ps" using M that by (auto simp: fresh_map_def)
    show ?thesis using wr ps unfolding written_def by (force simp: ph_filled_def)
  qed
  moreover have "filter (\<lambda>i. ph_type (ms_placeholders m ! i) = PT_missing_compact_id) (map (\<lambda>(k, i, idx). idx) M) =
      open_positions key s M pool"
    unfolding open_positions_def T [symmetric] by (rule filter_cong [OF refl ty])
  ultimately show ?thesis unfolding map_missing_indices_def eq by simp
qed

definition compact_out_ok :: "byte_array \<Rightarrow> bool" where
  "compact_out_ok b \<longleftrightarrow> ba_tight b \<and> ba_has_spare b"

lemma compact_out_ok_clear:
  assumes "compact_out_ok b"
  obtains b' where "ba_clear b = Inr b'" and "compact_out_ok b'" and "ba_len b' = ba_len b"
proof -
  obtain b' where b': "ba_clear b = Inr b'" "ba_has_spare b'" "ba_len b' = ba_len b" "ba_cap b' = ba_cap b"
    using ba_clear_in_bounds [of b] assms by (auto simp: compact_out_ok_def)
  have "length (ba_arr b') = length (ba_arr b)"
    using b'(1) by (auto simp: ba_clear_def ba_poke_def split: if_splits elim!: rbind_InrE)
  then show thesis using that b' assms by (simp add: compact_out_ok_def ba_tight_def ba_has_spare_def)
qed

definition cc_ready :: "compact_service \<Rightarrow> buffer_view \<Rightarrow> nat \<Rightarrow> bool \<Rightarrow> cc_task \<Rightarrow> cc_task \<Rightarrow> bool" where
  \<comment> \<open>the state in which the mapping task leaves its compression task\<close>
  "cc_ready srv v magic shared c c' \<longleftrightarrow>
     cd_placeholders (cc_service c') = cd_placeholders srv \<and> cd_msg (cc_service c') = Some v \<and> cd_total (cc_service c') = cd_total srv \<and>
     compact_out_ok (cc_out c') \<and> ba_len (cc_out c') = (if shared then 0 else ba_len (cc_out c)) \<and>
     cc_magic c' = magic \<and> cc_recovered c' = None \<and> cc_sids c' = []"

lemma cc_init_spec:
  assumes out: "compact_out_ok (cc_out c)" and msg: "cd_msg srv = Some v" and v: "bv_ok v" "104 \<le> bv_size v" and H: "\<And>bs. length (H bs) = 32"
  obtains c' where "cc_init H shared c srv magic = Inr c'" and "cc_ready srv v magic shared c c'"
    and "cc_hash c' = Some (sha_of_binary (rev (H (H (slice 24 80 (bv_bytes v))))))"
    and "cc_prev_hash c' = Some (sha_of_binary (rev (slice 28 32 (bv_bytes v))))"
proof -
  have h: "get_prev_block_hash v = Inr (sha_of_binary (rev (slice 28 32 (bv_bytes v))))"
    "generate_block_hash H v = Inr (sha_of_binary (rev (H (H (slice 24 80 (bv_bytes v))))))"
    using v sha_read_inside [of v 28] double_sha256_inside [OF v(1) _ H, of 24 80]
    by (simp_all add: get_prev_block_hash_def generate_block_hash_def btc_consts bv_ok_def sha_reverse_def)
  obtain out' where o: "(if shared then Inr (ba_with_capacity (max (ba_cap (cc_out c)) (bv_size v))) else ba_clear (cc_out c)) = Inr out'"
    "compact_out_ok out'" "ba_len out' = (if shared then 0 else ba_len (cc_out c))"
  proof (cases shared)
    case True
    then show ?thesis using that [of "ba_with_capacity (max (ba_cap (cc_out c)) (bv_size v))"]
      by (simp add: compact_out_ok_def ba_has_spare_base) (simp add: ba_with_capacity_def)
  next
    case False
    then show ?thesis using compact_out_ok_clear [OF out] that by auto
  qed
  then show thesis using that h msg
    by (simp add: cc_init_def cds_size_def cds_get_msg_def cds_assign_def cc_ready_def)
qed

lemma u64_add_neq: "x < 2 ^ 64 \<Longrightarrow> 0 < u \<Longrightarrow> u < 2 ^ 64 \<Longrightarrow> u64 (u + x) \<noteq> x"
proof
  assume a: "x < 2 ^ 64" "0 < u" "u < 2 ^ 64" and e: "u64 (u + x) = x"
  show False
  proof (cases "u + x < 2 ^ 64")
    case True
    then show False using e a(2) by (simp add: u64_id)
  next
    case False
    then have "u + x = (u + x - 2 ^ 64) + 2 ^ 64" by simp
    then have "u64 (u + x) = u64 (u + x - 2 ^ 64)" unfolding u64_def by (metis mod_add_self2)
    moreover have "u + x - 2 ^ 64 < x" using a(1,3) False by linarith
    moreover from this have "u64 (u + x - 2 ^ 64) = u + x - 2 ^ 64" using a(1) by (intro u64_id) linarith
    ultimately show False using e by linarith
  qed
qed

lemma map_finish_spec:
  assumes p: "pool_ok key s M pool" and M: "fresh_map M ps" and T: "T = targets key s M pool" and sh: "shared_ok key s M ps T T 0 m"
    and srv: "cd_compact srv = length M" "cd_msg srv = Some v" and v: "bv_ok v" "104 \<le> bv_size v" and H: "\<And>bs. length (H bs) = 32"
    and out: "compact_out_ok (cc_out (mt_compression c))"
  shows "if \<forall>h \<in> T. known s h
    then \<exists>c' cc. map_finish H shared c srv m = Inr c' \<and> mt_missing c' = sort (open_positions key s M pool) \<and> mt_compression c' = cc \<and>
      cc_ready (srv\<lparr>cd_placeholders := ms_placeholders m\<rparr>) v (mt_magic c) shared (mt_compression c) cc \<and>
      cc_hash cc = Some (sha_of_binary (rev (H (H (slice 24 80 (bv_bytes v))))))
    else map_finish H shared c srv m = Inl RuntimeError"
proof -
  let ?K = "{h \<in> T. known s h}" and ?U = "{h \<in> T. \<not> known s h}" and ?open = "open_positions key s M pool"
  note mi = map_missing_indices_spec [OF p M T sh]
  have fin: "finite T" by (simp add: T)
  have cnt: "ms_counter m = card ?K" and miss: "length (ms_missing m) = card ?U"
  proof -
    show "ms_counter m = card ?K" using sh by (simp add: shared_ok_def)
    have "mset (ms_missing m) = image_mset (\<lambda>h. the (target key s M h)) (mset_set ?U)" using sh by (simp add: shared_ok_def)
    from arg_cong [OF this, of size] show "length (ms_missing m) = card ?U" by simp
  qed
  have lo: "length ?open + card ?K = length M" using length_open_positions [OF p M] by (simp add: T)
  have part: "card ?K + card ?U = card T"
  proof -
    have "?K \<union> ?U = T" "?K \<inter> ?U = {}" by auto
    then show ?thesis using card_Un_disjoint [of ?K ?U] fin by simp
  qed
  have cT: "card T \<le> length M" using card_targets [OF p] by (simp add: T)
  have big: "length M < 2 ^ 64" using M by (simp add: fresh_map_def)
  show ?thesis
  proof (cases "\<forall>h \<in> T. known s h")
    case True
    then have U: "?U = {}" by blast
    have mm: "ms_missing m = []" using miss U by simp
    have missing: "(if ms_counter m < cd_compact srv
        then rbind (map_missing_indices (ms_map m) (ms_placeholders m)) (\<lambda>xs. Inr (sort (ms_missing m @ xs))) else Inr (ms_missing m)) =
        Inr (sort ?open)"
    proof (cases "ms_counter m < cd_compact srv")
      case True
      then show ?thesis using mi mm by simp
    next
      case False
      then have "length ?open = 0" using lo cnt srv(1) by linarith
      then have "?open = []" by simp
      then show ?thesis using False mm by simp
    qed
    have ok: "u64 (length (sort ?open) + ms_counter m) = cd_compact srv" using lo cnt srv(1) big by (simp add: u64_id)
    let ?srv = "cds_moved (srv\<lparr>cd_placeholders := ms_placeholders m, cd_map := ms_map m\<rparr>)"
    have sv: "cd_msg ?srv = Some v" using srv(2) by (simp add: cds_moved_def)
    obtain cc where cc: "cc_init H shared (mt_compression c) ?srv (mt_magic c) = Inr cc" "cc_ready ?srv v (mt_magic c) shared (mt_compression c) cc"
      "cc_hash cc = Some (sha_of_binary (rev (H (H (slice 24 80 (bv_bytes v))))))"
      by (rule cc_init_spec [OF out sv v H])
    have "map_finish H shared c srv m = Inr (c\<lparr>mt_missing := sort ?open, mt_compression := cc\<rparr>)"
      unfolding map_finish_def Let_def missing using ok cc(1) by simp
    then show ?thesis using True cc(2,3) by (simp add: cc_ready_def cds_moved_def)
  next
    case False
    then have U: "0 < card ?U" using fin by (auto simp: card_gt_0_iff)
    have lt: "ms_counter m < cd_compact srv" using U part cT cnt srv(1) by linarith
    have "length (sort (ms_missing m @ ?open)) + ms_counter m = card ?U + length M" using lo cnt miss by simp
    moreover have "u64 (card ?U + length M) \<noteq> length M" using U part cT big by (intro u64_add_neq) linarith+
    ultimately have "u64 (length (sort (ms_missing m @ ?open)) + ms_counter m) \<noteq> cd_compact srv" using srv(1) by simp
    then show ?thesis using False lt mi by (simp add: map_finish_def Let_def)
  qed
qed

section \<open>Positions in the block\<close>

fun is_compact :: "slot \<Rightarrow> bool" where
  "is_compact (S_Compact c) \<longleftrightarrow> True"
| "is_compact (S_Pre t) \<longleftrightarrow> False"

lemma slot_map_idxs: "map (\<lambda>(k, i, idx). idx) (slot_map i slots) = map fst (filter (\<lambda>x. is_compact (snd x)) (enumerate i slots))"
  by (induction i slots rule: slot_map.induct) auto

lemma slot_map_mem: "(k, j, idx) \<in> set (slot_map i slots) \<Longrightarrow> j = NULL_TX_SID \<and> i \<le> idx \<and> idx < i + length slots \<and> slots ! (idx - i) = S_Compact k"
proof (induction i slots rule: slot_map.induct)
  case (2 i c slots)
  then show ?case by (cases "idx = i") (auto simp: nth_Cons' Suc_diff_le)
next
  case (3 i t slots)
  then show ?case by (cases "idx = i") (auto simp: nth_Cons' Suc_diff_le)
qed simp

lemma slot_map_idx_mem: "idx \<in> set (map (\<lambda>(k, i, idx). idx) (slot_map 0 slots)) \<longleftrightarrow> idx < length slots \<and> is_compact (slots ! idx)"
  unfolding slot_map_idxs by (auto simp: in_set_enumerate_eq image_iff intro!: exI [of _ idx] exI [of _ "slots ! idx"])

lemma slot_map_sorted: "sorted (map (\<lambda>(k, i, idx). idx) (slot_map i slots))" "distinct (map (\<lambda>(k, i, idx). idx) (slot_map i slots))"
  unfolding slot_map_idxs by (simp_all add: sorted_filter distinct_map_filter)

lemma place_keys:
  assumes "diffs_fit ps cids"
  shows "map fst (slot_map i (place ps cids)) = cids"
proof -
  have "place ps cids = fst (place_pre ps cids) @ map S_Compact (drop (sum_list (map fst ps)) cids)"
    by (simp add: place_def case_prod_unfold snd_place_pre)
  then show ?thesis using place_pre_keys [OF assms] by (simp add: slot_map_append keys_slot_map_compact)
qed

lemma fresh_slot_map:
  assumes "diffs_fit (parsed_diffs pres) cids" and "distinct cids" and "length cids < 2 ^ 64"
    and "list_all2 (slot_ph H sids) (parsed_slots pres cids) ps"
  shows "fresh_map (slot_map 0 (parsed_slots pres cids)) ps"
proof -
  let ?M = "slot_map 0 (parsed_slots pres cids)"
  have k: "map fst ?M = cids" using place_keys [OF assms(1)] by (simp add: parsed_slots_def)
  have "length ?M = length cids" using arg_cong [OF k, of length] by simp
  moreover have "i = NULL_TX_SID \<and> idx < length ps \<and> ph_type (ps ! idx) = PT_missing_compact_id \<and> ph_sid (ps ! idx) = NULL_TX_SID"
    if "(c, i, idx) \<in> set ?M" for c i idx
    using slot_map_mem [OF that] assms(4) by (auto simp: list_all2_conv_all_nth placeholder_new_def NULL_TX_SID_def)
  ultimately show ?thesis using assms(2,3) k slot_map_sorted(2) by (auto simp: fresh_map_def)
qed

fun slot_result ::
  "(byte list \<Rightarrow> byte list) \<Rightarrow> 64 word \<times> 64 word \<Rightarrow> tx_service \<Rightarrow> hash list \<Rightarrow> slot \<Rightarrow> placeholder \<Rightarrow> bool" where
  "slot_result H key s pool (S_Pre t) p \<longleftrightarrow> slot_ph H (ts_sids s) (S_Pre t) p"
| "slot_result H key s pool (S_Compact c) p \<longleftrightarrow>
     (if \<exists>h \<in> set pool. ts_sids s h \<noteq> None \<and> cid key h = c
      then \<exists>h \<in> set pool. ts_sids s h \<noteq> None \<and> cid key h = c \<and> known s h \<and> p = ph_filled s h (placeholder_new\<lparr>ph_cmpt := Some c\<rparr>)
      else p = placeholder_new\<lparr>ph_cmpt := Some c\<rparr>)"

lemma written_slots:
  assumes p: "pool_ok key s M pool" and M: "M = slot_map 0 slots" and d: "distinct (map fst M)" and T: "T = targets key s M pool"
    and ps: "list_all2 (slot_ph H (ts_sids s)) slots ps" and wr: "written key s M ps T ps'" and all: "\<forall>h \<in> T. known s h"
  shows "list_all2 (slot_result H key s pool) slots ps'"
  unfolding list_all2_conv_all_nth
proof (intro conjI allI impI)
  show len: "length slots = length ps'" using ps wr by (simp add: list_all2_conv_all_nth written_def)
  fix idx assume idx: "idx < length slots"
  have ph: "slot_ph H (ts_sids s) (slots ! idx) (ps ! idx)" and lp: "idx < length ps" using ps idx by (simp_all add: list_all2_conv_all_nth)
  have tgt: "target key s M h = Some idx \<longleftrightarrow> ts_sids s h \<noteq> None \<and> slots ! idx = S_Compact (cid key h)" if h: "h \<in> set pool" for h
  proof
    have ne: "ts_sids s h \<noteq> Some []" using p h by (simp add: pool_ok_def)
    show "ts_sids s h \<noteq> None \<and> slots ! idx = S_Compact (cid key h)" if "target key s M h = Some idx"
    proof -
      obtain i where "ts_sids s h \<noteq> None" "map_of M (cid key h) = Some (i, idx)" using \<open>target key s M h = Some idx\<close> ne by (auto simp: target_Some_iff)
      then show ?thesis using slot_map_mem [of "cid key h" i idx 0 slots] map_of_SomeD [of M] by (auto simp: M)
    qed
    assume a: "ts_sids s h \<noteq> None \<and> slots ! idx = S_Compact (cid key h)"
    then have "idx \<in> set (map (\<lambda>(k, i, idx). idx) M)" using idx by (simp only: M slot_map_idx_mem) simp
    then obtain c i where mem: "(c, i, idx) \<in> set M" by auto
    then have "c = cid key h" using slot_map_mem [of c i idx 0 slots] a by (simp add: M)
    then have "map_of M (cid key h) = Some (i, idx)" using map_of_is_SomeI [OF d mem] by simp
    then show "target key s M h = Some idx" using a ne by (auto simp: target_Some_iff)
  qed
  have val: "ps' ! idx = (ps ! idx)" if "\<forall>h \<in> T. target key s M h \<noteq> Some idx" using wr lp that by (simp add: written_def)
  show "slot_result H key s pool (slots ! idx) (ps' ! idx)"
  proof (cases "slots ! idx")
    case (S_Pre t)
    then have "\<forall>h \<in> T. target key s M h \<noteq> Some idx" using tgt by (auto simp: T targets_def)
    then show ?thesis using val ph S_Pre by simp
  next
    case (S_Compact c)
    show ?thesis
    proof (cases "\<exists>h \<in> set pool. ts_sids s h \<noteq> None \<and> cid key h = c")
      case True
      then obtain h where h: "h \<in> set pool" "ts_sids s h \<noteq> None" "cid key h = c" by blast
      then have t: "target key s M h = Some idx" using tgt S_Compact by simp
      then have hT: "h \<in> T" using h by (simp add: T targets_def)
      then have "ps' ! idx = ph_filled s h (ps ! idx)" using wr all t by (simp add: written_def)
      then show ?thesis using h all hT ph S_Compact by auto
    next
      case False
      then have "\<forall>h \<in> T. target key s M h \<noteq> Some idx" using tgt S_Compact by (auto simp: T targets_def)
      then show ?thesis using val ph S_Compact False by auto
    qed
  qed
qed

lemma pre_filled_not_missing: "pre_filled_placeholder sids w h = Inr p \<Longrightarrow> ph_type p \<noteq> PT_missing_compact_id"
  by (cases "sids h") (auto simp: pre_filled_placeholder_def Let_def split: list.splits)

lemma open_positions_slots:
  assumes p: "pool_ok key s M pool" and M: "M = slot_map 0 slots" "fresh_map M ps" and T: "T = targets key s M pool"
    and sh: "shared_ok key s M ps T T 0 m" and r: "list_all2 (slot_result H key s pool) slots (ms_placeholders m)"
  shows "sort (open_positions key s M pool) =
    filter (\<lambda>i. ph_type (ms_placeholders m ! i) = PT_missing_compact_id) [0..<length slots]"
proof -
  let ?xs = "map (\<lambda>(k, i, idx). idx) M" and ?P = "\<lambda>i. ph_type (ms_placeholders m ! i) = PT_missing_compact_id"
  have "open_positions key s M pool = filter ?P (map (\<lambda>(k, i, idx). idx) (ms_map m))"
    using map_missing_indices_spec [OF p M(2) T sh] by (auto simp: map_missing_indices_def split: if_splits)
  moreover have "sorted (open_positions key s M pool)" "distinct (open_positions key s M pool)"
    using slot_map_sorted [of 0 slots] by (simp_all add: open_positions_def M(1) sorted_wrt_filter)
  moreover have "set (open_positions key s M pool) = set (filter ?P [0..<length slots])"
  proof -
    have wr: "written key s M ps T (ms_placeholders m)" using sh by (simp add: shared_ok_def)
    have ty: "?P i \<longleftrightarrow> (\<forall>h \<in> T. known s h \<longrightarrow> target key s M h \<noteq> Some i)" if "i \<in> set ?xs" for i
    proof -
      have "ph_type (ps ! i) = PT_missing_compact_id" "i < length ps" using M(2) that by (auto simp: fresh_map_def)
      then show ?thesis using wr unfolding written_def by (force simp: ph_filled_def)
    qed
    have pre: "is_compact (slots ! i)" if "i < length slots" "?P i" for i
    proof (cases "slots ! i")
      case (S_Pre t)
      then have "slot_result H key s pool (S_Pre t) (ms_placeholders m ! i)" using r that(1) by (metis list_all2_nthD)
      then show ?thesis using that(2) pre_filled_not_missing by auto
    qed simp
    have "set (open_positions key s M pool) = {i \<in> set ?xs. ?P i}"
      using ty by (auto simp: open_positions_def T [symmetric] simp del: set_map)
    also have "\<dots> = set (filter ?P [0..<length slots])"
      using pre unfolding M(1) slot_map_idx_mem by auto
    finally show ?thesis .
  qed
  ultimately show ?thesis
    by (intro sorted_distinct_set_unique) (simp_all add: sorted_wrt_filter)
qed

lemma tx_pool_acquire_release:
  assumes "\<not> is_write_pending (ts_not_seen s)" and "sbc_readers (ts_not_seen s) + 1 < 2 ^ 32"
  obtains s1 where "ts_acquire_tx_pool s = Some s1" and "on_finished_reading_tx_pool hins s1 = s"
    and "s1 = s\<lparr>ts_not_seen := (ts_not_seen s)\<lparr>sbc_readers := sbc_readers (ts_not_seen s) + 1\<rparr>\<rparr>"
proof -
  let ?c = "ts_not_seen s" let ?s1 = "s\<lparr>ts_not_seen := ?c\<lparr>sbc_readers := sbc_readers ?c + 1\<rparr>\<rparr>"
  have a: "ts_acquire_tx_pool s = Some ?s1" using assms by (simp add: ts_acquire_tx_pool_def acquire_read_def u32_id)
  have "u32 (sbc_readers ?c + 1 + (2 ^ 32 - 1)) = sbc_readers ?c"
  proof -
    have "sbc_readers ?c + 1 + (2 ^ 32 - 1) = sbc_readers ?c + 2 ^ 32" by simp
    then show ?thesis using assms(2) unfolding u32_def by (simp only: mod_add_self2) simp
  qed
  then have "release_read hins (?c\<lparr>sbc_readers := sbc_readers ?c + 1\<rparr>) = ?c"
    using assms(1) by (cases ?c) (simp add: release_read_def is_write_pending_def is_reading_def Let_def)
  then have "on_finished_reading_tx_pool hins ?s1 = s" by (simp add: on_finished_reading_tx_pool_def)
  then show thesis using that a by blast
qed

definition tx_pool :: "tx_service \<Rightarrow> hash list" where
  "tx_pool s = concat (map bk_set (sbc_buckets (ts_not_seen s)))"

lemma pool_ok_cong:
  assumes "ts_sids s' = ts_sids s" and "ts_contents s' = ts_contents s"
  shows "pool_ok key s' = pool_ok key s" and "targets key s' = targets key s" and "known s' = known s"
    and "slot_result H key s' = slot_result H key s"
proof -
  show "targets key s' = targets key s" and k: "known s' = known s"
    using assms by (auto simp: fun_eq_iff targets_def target_def known_def)
  then show "pool_ok key s' = pool_ok key s" using assms by (simp add: fun_eq_iff pool_ok_def tx_sid_def get_short_id_def)
  have f: "ph_filled s' = ph_filled s"
    using assms by (simp add: fun_eq_iff ph_filled_def tx_sid_def get_short_id_def known_copy_def)
  show "slot_result H key s' = slot_result H key s"
  proof (intro ext)
    fix pool x p
    show "slot_result H key s' pool x p = slot_result H key s pool x p"
      by (cases x) (simp_all only: slot_result.simps assms k f)
  qed
qed

lemma map_execute_spec:
  assumes H: "\<And>bs. length (H bs) = 32" and v: "bv_ok v" "bv_bytes v = compact_msg hdr nonce vic cids vip pres post"
    and m: "wf_compact_msg hdr nonce vic cids vip pres" and fit: "diffs_fit (parsed_diffs pres) cids"
    and sids: "list_all (\<lambda>(d, t). ts_sids s (tx_hash H t) \<noteq> Some []) pres"
    and key: "key = compact_key H hdr nonce" and M: "M = slot_map 0 (parsed_slots pres cids)"
    and pool: "pool_ok key s M (tx_pool s)"
    and idle: "\<not> is_write_pending (ts_not_seen s)" "sbc_readers (ts_not_seen s) + 1 < 2 ^ 32"
    and c: "mt_missing c = []" "compact_out_ok (cc_out (mt_compression c))"
  shows "if \<forall>h \<in> targets key s M (tx_pool s). known s h
    then \<exists>c' srv. map_execute H hins sched shared s c v = Some (s, Inr c') \<and>
      cc_ready srv v (mt_magic c) shared (mt_compression c) (mt_compression c') \<and>
      cc_hash (mt_compression c') = Some (sha_of_binary (rev (H (H (drop 24 hdr))))) \<and>
      cd_total srv = length cids + length pres \<and>
      list_all2 (slot_result H key s (tx_pool s)) (parsed_slots pres cids) (cd_placeholders srv) \<and>
      mt_missing c' = filter (\<lambda>i. ph_type (cd_placeholders srv ! i) = PT_missing_compact_id) [0..<length (parsed_slots pres cids)]
    else map_execute H hins sched shared s c v =
      Some (s\<lparr>ts_not_seen := (ts_not_seen s)\<lparr>sbc_readers := sbc_readers (ts_not_seen s) + 1\<rparr>\<rparr>, Inl RuntimeError)"
proof -
  let ?slots = "parsed_slots pres cids"
  obtain srv where srv: "cds_parse H (ts_sids s) (cds_new v) = Inr srv" "cd_msg srv = Some v" "cd_sip_key srv = key"
    "cd_compact srv = length cids" "cd_total srv = length cids + length pres"
    "list_all2 (slot_ph H (ts_sids s)) ?slots (cd_placeholders srv)" "cd_map srv = M"
    using cds_parse_spec [OF v m H sids fit] key M by metis
  obtain s1 where s1: "ts_acquire_tx_pool s = Some s1" "on_finished_reading_tx_pool hins s1 = s"
    "s1 = s\<lparr>ts_not_seen := (ts_not_seen s)\<lparr>sbc_readers := sbc_readers (ts_not_seen s) + 1\<rparr>\<rparr>"
    by (rule tx_pool_acquire_release [OF idle])
  have same: "ts_sids s1 = ts_sids s" "ts_contents s1 = ts_contents s" "sbc_buckets (ts_not_seen s1) = sbc_buckets (ts_not_seen s)"
    by (simp_all add: s1(3))
  note cong = pool_ok_cong [OF same(1,2)]
  let ?T = "targets key s M (tx_pool s)"
  have small: "length cids < 2 ^ 64"
  proof -
    have "length (bv_bytes v) < 2 ^ 64" by (rule bvs.bytes_small [OF v(1)])
    then show ?thesis using v(2) by (simp add: compact_msg_def)
  qed
  have dist: "distinct cids" and hdr: "length hdr = 104" using m by (simp_all add: wf_compact_msg_def)
  have fresh: "fresh_map M (cd_placeholders srv)" unfolding M by (rule fresh_slot_map [OF fit dist small srv(6)])
  have keys: "map fst M = cids" using place_keys [OF fit] by (simp add: M parsed_slots_def)
  then have lM: "length M = length cids" by (metis length_map)
  have p1: "pool_ok key s1 M (tx_pool s)" using pool cong by simp
  let ?jobs = "map_dispatch (length (sbc_buckets (ts_not_seen s1))) 0 (sbc_buckets (ts_not_seen s1)) []"
  let ?m = "\<lparr>ms_map = M, ms_placeholders = cd_placeholders srv, ms_counter = 0, ms_missing = []\<rparr>"
  have inv: "map_inv key s1 M (cd_placeholders srv) (tx_pool s) ?m ?jobs"
    by (rule map_inv_initial [OF p1 fresh]) (simp add: tx_pool_def same(3))
  obtain m' where m': "map_run key sched s1 ?m ?jobs = Inr m'" "shared_ok key s1 M (cd_placeholders srv) ?T ?T 0 m'"
    using map_run_spec [OF p1 fresh inv] cong by metis
  have sz: "104 \<le> bv_size v" using v hdr length_bv_bytes [of v] by (simp add: bv_ok_def compact_msg_def)
  have hh: "slice 24 80 (bv_bytes v) = drop 24 hdr" using hdr by (simp add: v(2) compact_msg_def slice_def)
  have T1: "?T = targets key s1 M (tx_pool s)" using cong by simp
  have cmp: "cd_compact srv = length M" using srv(4) lM by simp
  note fin = map_finish_spec [where H = H and shared = shared, OF p1 fresh T1 m'(2) cmp srv(2) v(1) sz H c(2)]
  have ex: "map_execute H hins sched shared s c v = Some (case map_finish H shared c srv m' of Inl e \<Rightarrow> (s1, Inl e) | Inr c \<Rightarrow> (s, Inr c))"
    using srv(1,3,7) s1(1,2) m'(1) c(1) by (simp add: map_execute_def Let_def split: sum.split)
  show ?thesis
  proof (cases "\<forall>h \<in> ?T. known s h")
    case True
    let ?srv = "srv\<lparr>cd_placeholders := ms_placeholders m'\<rparr>"
    have "\<forall>h \<in> ?T. known s1 h" using True cong by simp
    with fin obtain c' where c': "map_finish H shared c srv m' = Inr c'" "mt_missing c' = sort (open_positions key s1 M (tx_pool s))"
      "cc_ready ?srv v (mt_magic c) shared (mt_compression c) (mt_compression c')"
      "cc_hash (mt_compression c') = Some (sha_of_binary (rev (H (H (drop 24 hdr)))))"
      by (auto simp: hh)
    have wr: "written key s1 M (cd_placeholders srv) ?T (ms_placeholders m')" using m'(2) by (simp add: shared_ok_def)
    have sp: "list_all2 (slot_ph H (ts_sids s1)) ?slots (cd_placeholders srv)" using srv(6) same by simp
    have res: "list_all2 (slot_result H key s1 (tx_pool s)) ?slots (ms_placeholders m')"
      by (rule written_slots [OF p1 M _ T1 sp wr]) (use True cong keys dist in simp_all)
    have "mt_missing c' = filter (\<lambda>i. ph_type (ms_placeholders m' ! i) = PT_missing_compact_id) [0..<length ?slots]"
      unfolding c'(2) by (rule open_positions_slots [OF p1 M fresh T1 m'(2) res])
    then show ?thesis using True ex c' res cong srv(5) by (auto intro!: exI [of _ ?srv])
  next
    case False
    then have "\<not> (\<forall>h \<in> ?T. known s1 h)" using cong by simp
    then show ?thesis using fin ex False s1(3) by simp
  qed
qed

end
