(* ===== verification/CompactCompressionProps.thy ===== *)
theory CompactCompressionProps
  imports CompactMapProps
begin

text \<open>
  What the compression task for compact blocks writes: the same encoding of a block as the ordinary
  compression task, with a message header that it makes up itself, length and checksum included.
\<close>

section \<open>Placeholders and the transactions they stand for\<close>

definition is_view_of :: "byte list \<Rightarrow> buffer_view \<Rightarrow> bool" where
  "is_view_of bs w \<longleftrightarrow> bv_ok w \<and> bv_bytes w = bs \<and> bs \<noteq> []"

fun fills :: "placeholder list \<Rightarrow> buffer_view list \<Rightarrow> btc_tx list \<Rightarrow> bool" where
  \<comment> \<open>the placeholders, with the recovered transactions for the missing ones, are the transactions\<close>
  "fills [] rs ts \<longleftrightarrow> ts = []"
| "fills (p # ps) rs [] \<longleftrightarrow> False"
| "fills (p # ps) rs (t # ts) \<longleftrightarrow>
     (if ph_type p = PT_missing_compact_id
      then (case rs of [] \<Rightarrow> False | r # rs \<Rightarrow> is_view_of (ser_tx t) r \<and> fills ps rs ts)
      else (case ph_contents p of None \<Rightarrow> False | Some w \<Rightarrow> is_view_of (ser_tx t) w) \<and> fills ps rs ts)"

definition ph_piece :: "placeholder \<Rightarrow> btc_tx \<Rightarrow> byte list" where
  "ph_piece p t = (if ph_type p = PT_short_id then [BTC_SHORT_ID_INDICATOR] else ser_tx t)"

definition ph_pieces :: "placeholder list \<Rightarrow> btc_tx list \<Rightarrow> byte list" where
  "ph_pieces ps ts = concat (map2 ph_piece ps ts)"

definition ph_sids :: "placeholder list \<Rightarrow> sid list" where
  "ph_sids ps = map ph_sid (filter (\<lambda>p. ph_type p = PT_short_id) ps)"

lemma ph_simps [simp]:
  "ph_pieces [] ts = []" "ph_pieces (p # ps) (t # ts) = ph_piece p t @ ph_pieces ps ts"
  "ph_sids [] = []" "ph_sids (p # ps) = (if ph_type p = PT_short_id then [ph_sid p] else []) @ ph_sids ps"
  by (simp_all add: ph_pieces_def ph_sids_def)

lemma length_ph_sids: "length (ph_sids ps) \<le> length ps"
  by (simp add: ph_sids_def)

lemma fills_length: "fills ps rs ts \<Longrightarrow> length ps = length ts"
  by (induction ps rs ts rule: fills.induct) (auto split: if_splits option.splits list.splits)

lemma length_ph_pieces: "fills ps rs ts \<Longrightarrow> length (ph_pieces ps ts) \<le> length (ser_txs ts)"
proof (induction ps rs ts rule: fills.induct)
  case (3 p ps rs t ts)
  have "length (ph_piece p t) \<le> length (ser_tx t)"
    using "3.prems" by (cases "ser_tx t") (auto simp: ph_piece_def is_view_of_def split: if_splits option.splits list.splits)
  moreover have "length (ph_pieces ps ts) \<le> length (ser_txs ts)"
    using "3.prems" "3.IH" by (auto split: if_splits list.splits)
  ultimately show ?case by simp
qed simp_all

lemma view_size: "is_view_of bs w \<Longrightarrow> bv_wf w \<and> bv_size w = length bs \<and> 0 < length bs"
  using length_bv_bytes [of w] by (auto simp: is_view_of_def bv_ok_def simp flip: length_greater_0_conv)

lemma wrote_view:
  assumes "ba_tight b" and "is_view_of bs w" and "off + length bs < 2 ^ 64"
  shows "\<exists>b'. ba_copy_from_buffer b w off 0 (bv_size w) = Inr (b', off + length bs) \<and> wrote b off bs b' \<and>
    ba_len b' = max (ba_len b) (off + length bs)"
proof -
  note w = view_size [OF assms(2)]
  have "slice 0 (length bs) (bv_bytes w) = bs" using assms(2) by (simp add: is_view_of_def slice_0_all)
  then show ?thesis using wrote_copy_from_buffer [of b w "length bs" 0 off] assms(1,3) w by auto
qed

lemma wrote_set_varint:
  assumes b: "ba_tight b" and small: "off + 9 < 2 ^ 64"
  shows "\<exists>b'. set_varint ba_len ba_resize ba_poke b v off = Inr (b', off + length (varint v)) \<and> wrote b off (varint v) b' \<and>
    ba_len b' = max (ba_len b) (off + length (varint v))"
proof -
  have two: "\<exists>b'. rbind (ba_set_le 1 b (unat t) off) (\<lambda>(b, off). ba_set_le k b v off) = Inr (b', off + Suc k) \<and>
      wrote b off (t # le_bytes k v) b' \<and> ba_len b' = max (ba_len b) (off + Suc k)"
    if k: "0 < k" "k \<le> 8" for t :: byte and k
  proof -
    obtain b1 where b1: "ba_set_le 1 b (unat t) off = Inr (b1, off + 1)" "wrote b off [t] b1" "ba_len b1 = max (ba_len b) (off + 1)"
      using wrote_set_le [OF b, of 1 off "unat t"] small by (auto simp: le_bytes_one)
    obtain b2 where b2: "ba_set_le k b1 v (off + 1) = Inr (b2, off + 1 + k)" "wrote b1 (off + 1) (le_bytes k v) b2"
      "ba_len b2 = max (ba_len b1) (off + 1 + k)"
      using wrote_set_le [OF wrote_tight [OF b1(2)] k(1), of "off + 1" v] small k by auto
    have "wrote b off ([t] @ le_bytes k v) b2" using wrote_trans [OF b1(2)] b2(2) by simp
    then show ?thesis using b1(1,3) b2(1,3) by simp
  qed
  show ?thesis
    using wrote_set_le [OF b, of 1 off v] small
      two [of 2 BTC_VARINT_SHORT_INDICATOR] two [of 4 BTC_VARINT_INT_INDICATOR] two [of 8 BTC_VARINT_LONG_INDICATOR]
    by (simp add: set_varint_def varint_def del: le_bytes.simps le_bytes_numeral)
qed

section \<open>The transactions\<close>

lemma cc_fill_loop_spec:
  assumes "fills ps rs ts" and "ba_tight out" and "off \<le> ba_len out" and "off + length (ser_txs ts) < 2 ^ 64"
  shows "\<exists>out'. cc_fill_loop ps rs off out sids = Inr (off + length (ph_pieces ps ts), out', sids @ ph_sids ps) \<and>
    wrote out off (ph_pieces ps ts) out' \<and> ba_len out' = max (ba_len out) (off + length (ph_pieces ps ts))"
  using assms
proof (induction ps rs ts arbitrary: out off sids rule: fills.induct)
  case (1 rs ts)
  then show ?case by (simp add: wrote_refl)
next
  case (3 p ps rs t ts)
  have go: "\<exists>out'. rbind act (\<lambda>(out, off). cc_fill_loop ps rs' off out (sids @ is)) =
      Inr (off + length (ph_pieces (p # ps) (t # ts)), out', sids @ is @ ph_sids ps) \<and>
    wrote out off (ph_pieces (p # ps) (t # ts)) out' \<and> ba_len out' = max (ba_len out) (off + length (ph_pieces (p # ps) (t # ts)))"
    if act: "act = Inr (out1, off + length (ph_piece p t))" "wrote out off (ph_piece p t) out1" "ba_len out1 = max (ba_len out) (off + length (ph_piece p t))"
      and ih: "\<exists>out'. cc_fill_loop ps rs' (off + length (ph_piece p t)) out1 (sids @ is) =
         Inr (off + length (ph_piece p t) + length (ph_pieces ps ts), out', (sids @ is) @ ph_sids ps) \<and>
       wrote out1 (off + length (ph_piece p t)) (ph_pieces ps ts) out' \<and>
       ba_len out' = max (ba_len out1) (off + length (ph_piece p t) + length (ph_pieces ps ts))" for act out1 rs' and "is" :: "sid list"
  proof -
    obtain out' where r: "cc_fill_loop ps rs' (off + length (ph_piece p t)) out1 (sids @ is) =
        Inr (off + length (ph_piece p t) + length (ph_pieces ps ts), out', (sids @ is) @ ph_sids ps)"
      "wrote out1 (off + length (ph_piece p t)) (ph_pieces ps ts) out'"
      "ba_len out' = max (ba_len out1) (off + length (ph_piece p t) + length (ph_pieces ps ts))"
      using ih by blast
    have "wrote out off (ph_piece p t @ ph_pieces ps ts) out'" by (rule wrote_trans [OF act(2) r(2)])
    then show ?thesis using act(1,3) r(1,3) by (simp add: add.assoc)
  qed
  note small = "3.prems"(4) and tight = "3.prems"(2)
  show ?case
  proof (cases "ph_type p")
    case PT_missing_compact_id
    then obtain r rs' where r: "rs = r # rs'" "is_view_of (ser_tx t) r" "fills ps rs' ts" using "3.prems"(1) by (auto split: list.splits)
    have pc: "ph_piece p t = ser_tx t" using PT_missing_compact_id by (simp add: ph_piece_def)
    obtain out1 where o: "ba_copy_from_buffer out r off 0 (bv_size r) = Inr (out1, off + length (ser_tx t))" "wrote out off (ser_tx t) out1"
      "ba_len out1 = max (ba_len out) (off + length (ser_tx t))"
      using wrote_view [OF tight r(2), of off] small by auto
    from go [of _ out1 rs' "[]"] "3.IH"(1) [OF PT_missing_compact_id r(1) r(3) wrote_tight [OF o(2)], of "off + length (ser_tx t)" sids] o pc small
    show ?thesis using PT_missing_compact_id r(1) by simp
  next
    case PT_content
    then obtain w where w: "ph_contents p = Some w" "is_view_of (ser_tx t) w" "fills ps rs ts" using "3.prems"(1) by (auto split: option.splits)
    have pc: "ph_piece p t = ser_tx t" using PT_content by (simp add: ph_piece_def)
    obtain out1 where o: "ba_copy_from_buffer out w off 0 (bv_size w) = Inr (out1, off + length (ser_tx t))" "wrote out off (ser_tx t) out1"
      "ba_len out1 = max (ba_len out) (off + length (ser_tx t))"
      using wrote_view [OF tight w(2), of off] small by auto
    have nm: "ph_type p \<noteq> PT_missing_compact_id" using PT_content by simp
    from go [of _ out1 rs "[]"] "3.IH"(2) [OF nm w(3) wrote_tight [OF o(2)], of "off + length (ser_tx t)" sids] o pc small
    show ?thesis using PT_content w(1) by simp
  next
    case PT_short_id
    then have f: "fills ps rs ts" "0 < length (ser_tx t)" using "3.prems"(1) by (auto simp: is_view_of_def split: option.splits)
    have pc: "ph_piece p t = [BTC_SHORT_ID_INDICATOR]" using PT_short_id by (simp add: ph_piece_def)
    have o1: "off + 1 < 2 ^ 64" "off + 1 + length (ser_txs ts) < 2 ^ 64" using small f(2) by (cases "ser_tx t"; simp)+
    obtain out1 where o: "ba_set_le 1 out (unat BTC_SHORT_ID_INDICATOR) off = Inr (out1, off + 1)" "wrote out off [BTC_SHORT_ID_INDICATOR] out1"
      "ba_len out1 = max (ba_len out) (off + 1)"
      using wrote_set_le [OF tight _ o1(1), of "unat BTC_SHORT_ID_INDICATOR"] by (auto simp: le_bytes_one)
    have nm: "ph_type p \<noteq> PT_missing_compact_id" using PT_short_id by simp
    from go [of _ out1 rs "[ph_sid p]"] "3.IH"(2) [OF nm f(1) wrote_tight [OF o(2)], of "off + 1" "sids @ [ph_sid p]"] o pc o1(2)
    show ?thesis using PT_short_id by simp
  qed
qed simp

lemma ctx_update_view: "is_view_of bs w \<Longrightarrow> ctx_update ctx w 0 0 = Inr (ctx @ bs)"
  using view_size [of bs w] bv_read_inside [of w 0 "length bs"] bv_size_less [of w]
  by (auto simp: ctx_update_def Let_def u64_sub_id is_view_of_def bv_ok_def slice_0_all)

lemma cc_checksum_loop_spec:
  assumes "fills ps rs ts"
  shows "cc_checksum_loop ps rs ctx (u32 n) = Inr (ctx @ ser_txs ts, u32 (n + length (ser_txs ts)))"
  using assms
proof (induction ps rs ts arbitrary: ctx n rule: fills.induct)
  case (3 p ps rs t ts)
  have add: "u32 (u32 n + length (ser_tx t)) = u32 (n + length (ser_tx t))" by (simp add: u32_def mod_add_left_eq)
  show ?case
  proof (cases "ph_type p = PT_missing_compact_id")
    case True
    then obtain r rs' where r: "rs = r # rs'" "is_view_of (ser_tx t) r" "fills ps rs' ts" using "3.prems" by (auto split: list.splits)
    then show ?thesis using "3.IH"(1) [OF True r(1) r(3)] True ctx_update_view [OF r(2)] view_size [OF r(2)]
      by (simp add: add add.assoc)
  next
    case False
    then obtain w where w: "ph_contents p = Some w" "is_view_of (ser_tx t) w" "fills ps rs ts" using "3.prems" by (auto split: option.splits)
    then show ?thesis using "3.IH"(2) [OF False w(3)] False ctx_update_view [OF w(2)] view_size [OF w(2)]
      by (simp add: add add.assoc)
  qed
qed simp_all

definition payload_checksum :: "(byte list \<Rightarrow> byte list) \<Rightarrow> byte list \<Rightarrow> byte list" where
  "payload_checksum H bs = take 4 (H (H bs))"

lemma cc_sub_execute_spec:
  assumes "fills ps rs ts" and "hdr \<noteq> []" and "length hdr < 2 ^ 64" and H: "\<And>bs. length (H bs) = 32"
  shows "cc_sub_execute H ps rs hdr =
    Inr (u32 (length hdr + length (ser_txs ts)), le_val (payload_checksum H (hdr @ ser_txs ts)))"
proof -
  have "is_view_of hdr (bv_msg hdr)" using assms(2,3) by (simp add: is_view_of_def)
  then have 1: "ctx_update [] (bv_msg hdr) 0 0 = Inr hdr" using ctx_update_view [of hdr "bv_msg hdr" "[]"] by simp
  have "get_le (vec_read (H (H (hdr @ ser_txs ts)))) 4 0 = Inr (le_val (slice 0 4 (H (H (hdr @ ser_txs ts)))), 0 + 4)"
    using vecs.get_le_inside [of "H (H (hdr @ ser_txs ts))" 4 0] H by simp
  then show ?thesis
    using 1 cc_checksum_loop_spec [OF assms(1), of hdr "length hdr"] H
    by (simp add: cc_sub_execute_def ctx_digest_def sha_double_sha256_def payload_checksum_def slice_def)
qed

section \<open>Header and end\<close>

lemma length_BLOCK_MSG_TYPE [simp]: "length BLOCK_MSG_TYPE = 12"
  by (simp add: BLOCK_MSG_TYPE_def)

lemma cc_set_header_spec:
  assumes out: "ba_tight (cc_out c)" and msg: "cd_msg (cc_service c) = Some v" and v: "bv_ok v" "104 \<le> bv_size v"
    and n: "cd_total (cc_service c) = n" and h: "h = slice 24 80 (bv_bytes v) @ varint n"
  obtains out' where "cc_set_header c = Inr (32 + length h, c\<lparr>cc_out := out', cc_txn_count := n, cc_header := h\<rparr>)" and "ba_tight out'"
    and "holds out' 8 (le_bytes 4 (cc_magic c) @ BLOCK_MSG_TYPE)" and "holds out' 32 h"
    and "ba_len out' = max (ba_len (cc_out c)) (32 + length h)"
proof -
  let ?hd = "slice 24 80 (bv_bytes v)" and ?w = "get_block_header v"
  have w: "bv_wf ?w" "bv_size ?w = 80" "bv_bytes ?w = ?hd" "length ?hd = 80"
    using v bv_wf_sub [of v 24 80] by (simp_all add: get_block_header_def btc_consts bv_ok_def)
  have lv: "length (varint n) \<le> 9" by (rule length_varint(1))
  obtain o1 where o1: "ba_set_le 4 (cc_out c) (cc_magic c) 8 = Inr (o1, 12)" "wrote (cc_out c) 8 (le_bytes 4 (cc_magic c)) o1"
    "ba_len o1 = max (ba_len (cc_out c)) 12"
    using wrote_set_le [OF out, of 4 8 "cc_magic c"] by auto
  have mt: "is_view_of BLOCK_MSG_TYPE (bv_msg BLOCK_MSG_TYPE)" by (simp add: is_view_of_def) (simp add: BLOCK_MSG_TYPE_def)
  obtain o2 where o2: "ba_copy_from_buffer o1 (bv_msg BLOCK_MSG_TYPE) 12 0 12 = Inr (o2, 24)" "wrote o1 12 BLOCK_MSG_TYPE o2"
    "ba_len o2 = max (ba_len o1) 24"
    using wrote_view [OF wrote_tight [OF o1(2)] mt, of 12] by auto
  obtain o3 where o3: "ba_copy_from_buffer o2 ?w 32 0 80 = Inr (o3, 112)" "wrote o2 32 ?hd o3" "ba_len o3 = max (ba_len o2) 112"
    using wrote_copy_from_buffer [OF wrote_tight [OF o2(2)] w(1), of 80 0 32] w by (auto simp: slice_0_all)
  obtain o4 where o4: "set_varint ba_len ba_resize ba_poke o3 n 112 = Inr (o4, 112 + length (varint n))" "wrote o3 112 (varint n) o4"
    "ba_len o4 = max (ba_len o3) (112 + length (varint n))"
    using wrote_set_varint [OF wrote_tight [OF o3(2)], of 112 n] by auto
  have w12: "wrote (cc_out c) 8 (le_bytes 4 (cc_magic c) @ BLOCK_MSG_TYPE) o2" using wrote_trans [OF o1(2)] o2(2) by simp
  have lA: "length (le_bytes 4 (cc_magic c) @ BLOCK_MSG_TYPE) = 16" by (simp del: le_bytes.simps le_bytes_numeral)
  have hA: "holds o4 8 (le_bytes 4 (cc_magic c) @ BLOCK_MSG_TYPE)"
    by (rule wrote_keeps [OF o4(2) wrote_keeps [OF o3(2) wrote_holds [OF w12]]]) (simp_all add: lA del: length_append)
  have "wrote o2 32 (?hd @ varint n) o4" using wrote_trans [OF o3(2)] o4(2) w(4) by simp
  then have hB: "holds o4 32 h" unfolding h by (rule wrote_holds)
  have lh: "length h = 80 + length (varint n)" using w(4) by (simp add: h)
  have t4: "ba_tight o4" by (rule wrote_tight [OF o4(2)])
  have len: "ba_len o4 = max (ba_len (cc_out c)) (32 + length h)" using o1(3) o2(3) o3(3) o4(3) lh by (simp add: max_def)
  have at: "ba_at o4 32 = Inr (ba_bytes o4 ! 32)" using t4 len lh by (intro ba_at_inside) auto
  have "h \<noteq> []" using lh by auto
  then have rd: "vec_read (ba_arr o4) 32 (length h) = Inr h" using hB holds_bound [OF hB] by (simp add: vec_read_def holds_def)
  have sub: "u64_sub (112 + length (varint n)) 112 = length (varint n)" "u64 (80 + length (varint n)) = length h"
    using lv by (simp_all add: u64_sub_id u64_id lh)
  have "cc_set_header c = Inr (32 + length h, c\<lparr>cc_out := o4, cc_txn_count := n, cc_header := h\<rparr>)"
    using o1(1) o2(1) o3(1) o4(1) w(2) msg n at rd sub lh
    by (simp add: cc_set_header_def cds_get_msg_def Let_def btc_consts u64_id)
  then show thesis using that t4 hA hB len by blast
qed

definition compact_hdr :: "(byte list \<Rightarrow> byte list) \<Rightarrow> nat \<Rightarrow> byte list \<Rightarrow> byte list \<Rightarrow> byte list \<Rightarrow> byte list" where
  \<comment> \<open>the header of a block message: magic, command, length and checksum of the payload, then the block header\<close>
  "compact_hdr H magic bh vi body =
     le_bytes 4 magic @ BLOCK_MSG_TYPE @ le_bytes 4 (length (bh @ vi @ body)) @ payload_checksum H (bh @ vi @ body) @ bh"

lemma length_compact_hdr: "length bh = 80 \<Longrightarrow> (\<And>bs. length (H bs) = 32) \<Longrightarrow> length (compact_hdr H magic bh vi body) = 104"
  by (simp add: compact_hdr_def payload_checksum_def del: le_bytes.simps le_bytes_numeral)

lemma take_bytes_of_holds:
  assumes "ba_wf b" and "holds b 0 xs" and "length xs \<le> ba_len b"
  shows "take (length xs) (ba_bytes b) = xs"
  using assms by (simp add: holds_def ba_bytes_def slice_def min_absorb1)

lemma cc_set_output_buffer_spec:
  assumes out: "ba_tight out" and A: "holds out 8 A" "length A = 16" and B: "holds out 32 B" and off: "off = 32 + length B"
    and le: "off \<le> ba_len out" and cs: "length cs = 4" and n: "length sids < 2 ^ 32" and small: "off + 4 + 4 * length sids < 2 ^ 64"
    and enc_def: "enc = le_bytes 8 off @ A @ le_bytes 4 pl @ cs @ B @ le_bytes 4 (length sids) @ concat (map (le_bytes 4) sids)"
  obtains out' where "cc_set_output_buffer out sids off pl (le_val cs) = Inr out'" and "ba_tight out'"
    and "take (length enc) (ba_bytes out') = enc"
    and "ba_len out' = (if sids = [] then max (ba_len out) (length enc) else length enc)"
proof -
  note [simp del] = le_bytes.simps le_bytes_numeral
  have csb: "le_bytes 4 (le_val cs) = cs" using le_bytes_le_val [of cs] cs by simp
  obtain o1 where o1: "ba_set_le 8 out off 0 = Inr (o1, 8)" "wrote out 0 (le_bytes 8 off) o1" "ba_len o1 = max (ba_len out) 8"
    using wrote_set_le [OF out, of 8 0 off] by auto
  obtain o2 where o2: "ba_set_le 4 o1 pl 24 = Inr (o2, 28)" "wrote o1 24 (le_bytes 4 pl) o2" "ba_len o2 = max (ba_len o1) 28"
    using wrote_set_le [OF wrote_tight [OF o1(2)], of 4 24 pl] by auto
  obtain o3 where o3: "ba_set_le 4 o2 (le_val cs) 28 = Inr (o3, 32)" "wrote o2 28 cs o3" "ba_len o3 = max (ba_len o2) 32"
    using wrote_set_le [OF wrote_tight [OF o2(2)], of 4 28 "le_val cs"] csb by auto
  have n32: "u32 (length sids) = length sids" using n by (simp add: u32_id)
  have off4: "off + 4 < 2 ^ 64" using small by simp
  obtain o4 where o4: "ba_set_le 4 o3 (length sids) off = Inr (o4, off + 4)" "wrote o3 off (le_bytes 4 (length sids)) o4"
    "ba_len o4 = max (ba_len o3) (off + 4)"
    using wrote_set_le [OF wrote_tight [OF o3(2)] _ off4, of "length sids"] by auto
  have lA: "8 + length A = 24" using A(2) by simp
  have h1: "holds o1 8 A" "holds o1 0 (le_bytes 8 off)" "holds o1 32 B"
    using wrote_keeps [OF o1(2) A(1)] wrote_holds [OF o1(2)] wrote_keeps [OF o1(2) B] by simp_all
  have h2: "holds o2 0 (le_bytes 8 off @ A @ le_bytes 4 pl)" "holds o2 32 B"
    using wrote_keeps [OF o2(2) h1(1)] wrote_keeps [OF o2(2) h1(2)] wrote_holds [OF o2(2)] wrote_keeps [OF o2(2) h1(3)] lA
    by (simp_all add: holds_append)
  have h3: "holds o3 0 ((le_bytes 8 off @ A @ le_bytes 4 pl @ cs) @ B)"
    using wrote_extends [OF o3(2) h2(1)] wrote_keeps [OF o3(2) h2(2)] A(2) cs by (simp add: holds_append)
  let ?front = "le_bytes 8 off @ A @ le_bytes 4 pl @ cs @ B"
  have lf: "length ?front = off" using A(2) cs off by simp
  have h4: "holds o4 0 (?front @ le_bytes 4 (length sids))" using wrote_extends [OF o4(2) h3] lf by simp
  have l4: "ba_len o4 = max (ba_len out) (off + 4)" using o1(3) o2(3) o3(3) o4(3) off by (simp add: max_def)
  have t4: "ba_tight o4" by (rule wrote_tight [OF o4(2)])
  have run: "cc_set_output_buffer out sids off pl (le_val cs) =
      (if sids \<noteq> [] then rbind (ba_poke (ba_resize o4 (off + 4 + length sids * 4)) (off + 4)
         (take (length sids * 4) (concat (map (le_bytes 4) sids)))) (\<lambda>out. Inr (ba_set_output out)) else Inr (ba_set_output o4))"
    using o1(1) o2(1) o3(1) o4(1) n32 small
    by (simp add: cc_set_output_buffer_def Let_def btc_consts u64_id)
  let ?ys = "concat (map (le_bytes 4) sids)"
  have ly: "length ?ys = length sids * 4" by (simp add: length_concat_le_bytes)
  have enc: "enc = (?front @ le_bytes 4 (length sids)) @ ?ys" by (simp add: enc_def)
  have le_enc: "length enc = off + 4 + length sids * 4" using lf ly unfolding enc by simp
  show thesis
  proof (cases "sids = []")
    case True
    have "holds (ba_set_output o4) 0 enc" using wrote_keeps [OF wrote_set_output [OF t4] h4] True by (simp add: enc)
    then show thesis using that [of "ba_set_output o4"] run True l4 t4 le_enc wrote_tight [OF wrote_set_output [OF t4]]
      take_bytes_of_holds [of "ba_set_output o4" enc] by (simp add: ba_set_output_def)
  next
    case False
    define o5 where "o5 = ba_resize o4 (off + 4 + length sids * 4)"
    have o5: "ba_tight o5" "ba_len o5 = off + 4 + length sids * 4" "holds o5 0 (?front @ le_bytes 4 (length sids))"
      using t4 wrote_keeps [OF wrote_resize [OF t4] h4] by (simp_all add: o5_def)
    have ne: "?ys \<noteq> []" using ly False by (metis length_0_conv mult_is_0 zero_neq_numeral)
    have fits: "off + 4 + length ?ys \<le> ba_len o5" using o5(2) ly by simp
    obtain o6 where o6: "ba_poke o5 (off + 4) ?ys = Inr o6" "wrote o5 (off + 4) ?ys o6" "ba_len o6 = ba_len o5"
      using wrote_poke [OF o5(1) ne fits] by blast
    have h6: "holds o6 0 enc" unfolding enc using wrote_extends [OF o6(2) o5(3)] lf by simp
    note t6 = wrote_tight [OF o6(2)]
    have h7: "holds (ba_set_output o6) 0 enc" using wrote_keeps [OF wrote_set_output [OF t6] h6] by simp
    have l7: "ba_len (ba_set_output o6) = length enc" using o6(3) o5(2) le_enc by (simp add: ba_set_output_def)
    have "cc_set_output_buffer out sids off pl (le_val cs) = Inr (ba_set_output o6)" using run False o6(1) ly by (simp add: o5_def)
    then show thesis using that [of "ba_set_output o6"] False h7 l7 t6 wrote_tight [OF wrote_set_output [OF t6]]
      take_bytes_of_holds [of "ba_set_output o6" enc] by simp
  qed
qed

lemma cc_execute_spec:
  assumes H: "\<And>bs. length (H bs) = 32" and out: "ba_tight (cc_out c)" "ba_len (cc_out c) < 2 ^ 64"
    and c: "cd_msg (cc_service c) = Some v" "cc_sids c = []"
    and v: "bv_ok v" "104 \<le> bv_size v" and n: "cd_total (cc_service c) = length ts" and bh: "bh = slice 24 80 (bv_bytes v)"
    and rec: "cc_recovered c = Some rs" and fl: "fills ps rs ts" and ps: "ps = cd_placeholders (cc_service c)"
    and small: "200 + length (ser_txs ts) < 2 ^ 32" and vi: "vi = varint (length ts)"
    and enc: "enc = bx_encode (compact_hdr H (cc_magic c) bh vi (ser_txs ts) @ vi @ ph_pieces ps ts) (ph_sids ps)"
  shows "\<exists>c'. cc_execute H c = Inr c' \<and> cc_sids c' = ph_sids ps \<and> cc_txn_count c' = length ts \<and> cc_hash c' = cc_hash c \<and>
    take (length enc) (ba_bytes (cc_out c')) = enc \<and> ba_tight (cc_out c') \<and>
    ba_len (cc_out c') = (if ph_sids ps = [] then max (ba_len (cc_out c)) (length enc) else length enc)"
proof -
  note [simp del] = le_bytes.simps le_bytes_numeral
  let ?c = "c\<lparr>cc_txn_count := length ts\<rparr>" and ?h = "bh @ vi" and ?A = "le_bytes 4 (cc_magic c) @ BLOCK_MSG_TYPE"
  have lbh: "length bh = 80" using v by (simp add: bh bv_ok_def)
  have lvi: "length vi \<le> 9" "length vi \<noteq> 0" unfolding vi using length_varint by simp_all
  have lts: "length ts \<le> length (ser_txs ts)"
  proof -
    have "fills ps rs ts \<Longrightarrow> length ts \<le> length (ser_txs ts)"
    proof (induction ps rs ts rule: fills.induct)
      case (3 p ps rs t ts)
      then have "ser_tx t \<noteq> []" "length ts \<le> length (ser_txs ts)" by (auto simp: is_view_of_def split: if_splits option.splits list.splits)
      then show ?case by (cases "ser_tx t") auto
    qed auto
    then show ?thesis using fl .
  qed
  obtain o1 where o1: "cc_set_header ?c = Inr (32 + length ?h, ?c\<lparr>cc_out := o1, cc_txn_count := length ts, cc_header := ?h\<rparr>)" "ba_tight o1"
    "holds o1 8 ?A" "holds o1 32 ?h" "ba_len o1 = max (ba_len (cc_out c)) (32 + length ?h)"
    using cc_set_header_spec [of ?c v "length ts" ?h] out(1) c(1) v n bh vi by auto
  have sz: "32 + length ?h + length (ser_txs ts) < 2 ^ 64" using lbh lvi(1) small by simp
  obtain o2 where o2: "cc_fill_loop ps rs (32 + length ?h) o1 [] = Inr (32 + length ?h + length (ph_pieces ps ts), o2, [] @ ph_sids ps)"
    "wrote o1 (32 + length ?h) (ph_pieces ps ts) o2" "ba_len o2 = max (ba_len o1) (32 + length ?h + length (ph_pieces ps ts))"
    using cc_fill_loop_spec [OF fl o1(2) _ sz, of "[]"] o1(5) by auto
  note t2 = wrote_tight [OF o2(2)]
  let ?B = "?h @ ph_pieces ps ts" and ?off = "32 + length ?h + length (ph_pieces ps ts)"
  have hA: "holds o2 8 ?A" by (rule wrote_keeps [OF o2(2) o1(3)]) simp
  have hB: "holds o2 32 ?B" using wrote_extends [OF o2(2) o1(4)] by simp
  have lp: "length (ph_pieces ps ts) \<le> length (ser_txs ts)" by (rule length_ph_pieces [OF fl])
  have l2: "ba_len o2 < 2 ^ 64" "?off \<le> ba_len o2" "length (ba_arr o2) \<ge> ba_len o2"
    using o1(5) o2(3) out(2) sz lp t2 by (auto simp: ba_tight_def ba_wf_def)
  obtain digest where dg: "double_sha256 H (bv_msg (ba_arr o2)) 0 (ba_len o2) = Inr digest"
    using double_sha256_prefix [of "ba_len o2" "ba_arr o2" H] l2 by auto
  have hne: "?h \<noteq> []" "length ?h < 2 ^ 64" using lbh lvi(1) by auto
  let ?pl = "length ?h + length (ser_txs ts)" and ?cs = "payload_checksum H (?h @ ser_txs ts)"
  have sub: "cc_sub_execute H ps rs ?h = Inr (?pl, le_val ?cs)"
    using cc_sub_execute_spec [OF fl hne H] lbh lvi(1) small by (simp add: u32_id)
  have ns: "length (ph_sids ps) \<le> length ts" using length_ph_sids [of ps] fills_length [OF fl] by simp
  have encA: "enc = le_bytes 8 ?off @ ?A @ le_bytes 4 ?pl @ ?cs @ ?B @ le_bytes 4 (length (ph_sids ps)) @ concat (map (le_bytes 4) (ph_sids ps))"
    using lbh H by (simp add: enc bx_encode_def compact_hdr_def payload_checksum_def add.assoc)
  obtain o3 where o3: "cc_set_output_buffer o2 (ph_sids ps) ?off ?pl (le_val ?cs) = Inr o3" "ba_tight o3"
    "take (length enc) (ba_bytes o3) = enc" "ba_len o3 = (if ph_sids ps = [] then max (ba_len o2) (length enc) else length enc)"
    by (rule cc_set_output_buffer_spec [OF t2 hA _ hB _ l2(2) _ _ _ encA])
      (use H ns lts small lp lbh lvi(1) in \<open>simp_all add: payload_checksum_def\<close>)
  have "?off \<le> length enc" using encA lbh H by (simp add: payload_checksum_def)
  then have "max (ba_len o2) (length enc) = max (ba_len (cc_out c)) (length enc)" using o2(3) o1(5) by (simp add: max_def)
  moreover have "cc_execute H c = Inr (?c\<lparr>cc_header := ?h, cc_out := o3, cc_sids := ph_sids ps, cc_compressed_hash := Some digest\<rparr>)"
    using o1(1) o2(1) dg sub o3(1) n rec c(2) by (simp add: cc_execute_def flip: ps)
  ultimately show ?thesis using o3(2-4) by auto
qed

end
