(* ===== verification/CompactRoundTrip.thy ===== *)
theory CompactRoundTrip
  imports CompactCompressionProps BtcDecompressionProps
begin

text \<open>
  From a compact block to the block: mapping, recovery of the missing transactions, compression, and
  decompression on the other side. The properties of the compact block tasks are stated here.
\<close>

section \<open>Blocks that a compact message describes\<close>

fun slot_tx :: "(byte list \<Rightarrow> byte list) \<Rightarrow> 64 word \<times> 64 word \<Rightarrow> slot \<Rightarrow> btc_tx \<Rightarrow> bool" where
  "slot_tx H key (S_Pre t') t \<longleftrightarrow> t' = t"
| "slot_tx H key (S_Compact c) t \<longleftrightarrow> cid key (tx_hash H t) = c"

definition honest_tx :: "(byte list \<Rightarrow> byte list) \<Rightarrow> 64 word \<times> 64 word \<Rightarrow> tx_service \<Rightarrow> btc_tx \<Rightarrow> bool" where
  \<comment> \<open>no other transaction of the pool has the compact id, and contents under the hash are the transaction\<close>
  "honest_tx H key s t \<longleftrightarrow>
     (\<forall>h \<in> set (tx_pool s). ts_sids s h \<noteq> None \<and> cid key h = cid key (tx_hash H t) \<longrightarrow> h = tx_hash H t) \<and>
     (case mw_find (ts_contents s) (tx_hash H t) of
        None \<Rightarrow> True | Some None \<Rightarrow> False | Some (Some w) \<Rightarrow> is_view_of (ser_tx t) w)"

definition goes_short :: "(byte list \<Rightarrow> byte list) \<Rightarrow> tx_service \<Rightarrow> slot list \<Rightarrow> btc_tx \<Rightarrow> bool" where
  "goes_short H s slots t \<longleftrightarrow>
     ts_sids s (tx_hash H t) \<noteq> None \<and> (S_Pre t \<in> set slots \<or> tx_hash H t \<in> set (tx_pool s))"

definition must_fetch :: "(byte list \<Rightarrow> byte list) \<Rightarrow> tx_service \<Rightarrow> slot list \<Rightarrow> btc_tx \<Rightarrow> bool" where
  "must_fetch H s slots t \<longleftrightarrow> S_Pre t \<notin> set slots \<and> \<not> goes_short H s slots t"

definition ph_tx :: "(byte list \<Rightarrow> byte list) \<Rightarrow> tx_service \<Rightarrow> slot list \<Rightarrow> btc_tx \<Rightarrow> placeholder \<Rightarrow> bool" where
  "ph_tx H s slots t p \<longleftrightarrow>
     (ph_type p = PT_short_id \<longleftrightarrow> goes_short H s slots t) \<and> (ph_type p = PT_missing_compact_id \<longleftrightarrow> must_fetch H s slots t) \<and>
     (ph_type p = PT_short_id \<longrightarrow> ph_sid p = tx_sid s (tx_hash H t)) \<and>
     (ph_type p \<noteq> PT_missing_compact_id \<longrightarrow> (\<exists>w. ph_contents p = Some w \<and> is_view_of (ser_tx t) w))"

lemma ser_tx_ne: "wf_tx t \<Longrightarrow> ser_tx t \<noteq> []"
  using length_ser_tx [of t] by auto

lemma slot_result_tx:
  assumes r: "slot_result H key s (tx_pool s) x p" and x: "slot_tx H key x t" "wf_tx t" "S_Pre t \<in> set slots \<or> honest_tx H key s t"
    and mem: "x \<in> set slots" and sep: "S_Pre t \<in> set slots \<longleftrightarrow> x = S_Pre t"
  shows "ph_tx H s slots t p"
proof (cases x)
  case (S_Pre t')
  then obtain w where w: "bv_ok w" "bv_bytes w = ser_tx t" "pre_filled_placeholder (ts_sids s) w (tx_hash H t) = Inr p"
    using r x(1) by auto
  have v: "is_view_of (ser_tx t) w" using w ser_tx_ne [OF x(2)] by (simp add: is_view_of_def)
  have S: "S_Pre t \<in> set slots" using sep S_Pre x(1) by simp
  show ?thesis
  proof (cases "ts_sids s (tx_hash H t)")
    case None
    then show ?thesis using w(3) v using S
      by (auto simp: ph_tx_def pre_filled_placeholder_def goes_short_def must_fetch_def Let_def placeholder_new_def)
  next
    case (Some xs)
    then show ?thesis using w(3) v S
      by (cases xs) (auto simp: ph_tx_def pre_filled_placeholder_def goes_short_def must_fetch_def Let_def placeholder_new_def tx_sid_def get_short_id_def)
  qed
next
  case (S_Compact c)
  then have c: "c = cid key (tx_hash H t)" and np: "S_Pre t \<notin> set slots" using x(1) sep by auto
  have hon: "h = tx_hash H t" if "h \<in> set (tx_pool s)" "ts_sids s h \<noteq> None" "cid key h = c" for h
    using x(3) np that c by (simp add: honest_tx_def)
  show ?thesis
  proof (cases "\<exists>h \<in> set (tx_pool s). ts_sids s h \<noteq> None \<and> cid key h = c")
    case True
    then obtain h where h: "h \<in> set (tx_pool s)" "ts_sids s h \<noteq> None" "cid key h = c" "known s h"
      "p = ph_filled s h (placeholder_new\<lparr>ph_cmpt := Some c\<rparr>)"
      using r S_Compact by (auto split: if_splits)
    have ht: "h = tx_hash H t" using hon h(1-3) by blast
    obtain w where w: "mw_find (ts_contents s) h = Some (Some w)" "is_view_of (ser_tx t) w"
      using x(3) np h(4) ht by (auto simp: honest_tx_def known_def split: option.splits)
    have "is_view_of (ser_tx t) (known_copy s h)"
      using buffer_copy_known(2,3) [OF w(1)] w(2) view_size [OF w(2)] by (simp add: is_view_of_def)
    then show ?thesis using h ht by (auto simp: ph_tx_def ph_filled_def goes_short_def must_fetch_def)
  next
    case False
    then have "p = placeholder_new\<lparr>ph_cmpt := Some c\<rparr>" using r S_Compact by auto
    moreover have "\<not> goes_short H s slots t" using False c np by (auto simp: goes_short_def)
    ultimately show ?thesis using np by (simp add: ph_tx_def placeholder_new_def must_fetch_def)
  qed
qed

lemma length_parsed_slots:
  assumes "diffs_fit (parsed_diffs pres) cids"
  shows "length (parsed_slots pres cids) = length cids + length pres"
  using length_place_pre [OF assms] assms
  by (simp add: parsed_slots_def place_def case_prod_unfold snd_place_pre diffs_fit_def) (simp add: parsed_diffs_def)

lemma parsed_slots_bip152: "list_all (\<lambda>(d, t). vi_val d = 0) pres \<Longrightarrow> parsed_slots pres cids = bip152_slots pres cids"
  unfolding parsed_slots_def bip152_slots_def parsed_diffs_def
  by (rule arg_cong [where f = "\<lambda>ps. place ps cids"]) (auto simp: list_all_iff)

lemma front_diffs_fit:
  assumes "list_all (\<lambda>(d, t). vi_val d = 0) pres"
  shows "diffs_fit (parsed_diffs pres) cids"
proof -
  have "sum_list (map fst (parsed_diffs pres)) = 0" using assms by (induction pres) (auto simp: parsed_diffs_def)
  then show ?thesis unfolding diffs_fit_def by (simp only: le0)
qed

lemma fills_ph_tx:
  assumes "list_all2 (ph_tx H s slots) ts ps" and "list_all2 (\<lambda>t. is_view_of (ser_tx t)) (filter (must_fetch H s slots) ts) rs"
  shows "fills ps rs ts"
  using assms by (induction ts ps arbitrary: rs rule: list_all2_induct) (auto simp: list_all2_Cons1 ph_tx_def)

lemma ph_tx_pieces:
  assumes "list_all2 (ph_tx H s slots) ts ps"
  shows "ph_pieces ps ts = txs_pieces (goes_short H s slots) ts"
    and "ph_sids ps = map (\<lambda>t. tx_sid s (tx_hash H t)) (filter (goes_short H s slots) ts)"
  using assms by (induction ts ps rule: list_all2_induct) (auto simp: ph_piece_def piece_def ph_tx_def)

text \<open>
  The mapping task places the transactions where the parser puts them, also when that is not where
  the message wants them.
\<close>

lemma compact_mapping_general:
  assumes H: "\<And>bs. length (H bs) = 32" and v: "bv_ok v" "bv_bytes v = compact_msg hdr nonce vic cids vip pres post"
    and m: "wf_compact_msg hdr nonce vic cids vip pres" and fit: "diffs_fit (parsed_diffs pres) cids"
    and sids: "list_all (\<lambda>(d, t). ts_sids s (tx_hash H t) \<noteq> Some []) pres"
    and key: "key = compact_key H hdr nonce" and M: "M = slot_map 0 (parsed_slots pres cids)"
    and pool: "pool_ok key s M (tx_pool s)" and all: "\<forall>h \<in> targets key s M (tx_pool s). known s h"
    and idle: "\<not> is_write_pending (ts_not_seen s)" "sbc_readers (ts_not_seen s) + 1 < 2 ^ 32"
    and c: "mt_missing c = []" "compact_out_ok (cc_out (mt_compression c))"
  shows "\<exists>c' ps. map_execute H hins sched shared s c v = Some (s, Inr c') \<and>
    cd_placeholders (cc_service (mt_compression c')) = ps \<and>
    list_all2 (slot_result H key s (tx_pool s)) (parsed_slots pres cids) ps \<and>
    mt_missing c' = filter (\<lambda>i. ph_type (ps ! i) = PT_missing_compact_id) [0..<length (parsed_slots pres cids)]"
proof -
  obtain c' srv where "map_execute H hins sched shared s c v = Some (s, Inr c')"
    "cc_ready srv v (mt_magic c) shared (mt_compression c) (mt_compression c')"
    "list_all2 (slot_result H key s (tx_pool s)) (parsed_slots pres cids) (cd_placeholders srv)"
    "mt_missing c' = filter (\<lambda>i. ph_type (cd_placeholders srv ! i) = PT_missing_compact_id) [0..<length (parsed_slots pres cids)]"
    using map_execute_spec [where H = H and hins = hins and sched = sched and shared = shared, OF H v m fit sids key M pool idle c] all
    by auto
  then show ?thesis by (auto simp: cc_ready_def)
qed

text \<open>
  C10: the mapping task finds the transactions of a compact block in the pool. Let the prefilled
  transactions be the first ones of the block (the others are misplaced, see \<open>compact_prefilled_misplaced\<close>
  below), let every transaction of the pool that the message refers to have contents (otherwise the task
  throws, see \<open>compact_mapping_fails_without_contents\<close>), let no two of them share a compact id, and let no write to
  the pool be pending. Then under
  every interleaving of its sub-tasks the task succeeds, each compact id whose transaction is in the
  pool with a short id is resolved to that transaction at its BIP 152 position, exactly the positions of the
  others are reported as missing, in ascending order, and the transaction service is left as it was.
\<close>

theorem compact_mapping_resolves:
  assumes H: "\<And>bs. length (H bs) = 32" and v: "bv_ok v" "bv_bytes v = compact_msg hdr nonce vic cids vip pres post"
    and m: "wf_compact_msg hdr nonce vic cids vip pres" and front: "list_all (\<lambda>(d, t). vi_val d = 0) pres"
    and sids: "list_all (\<lambda>(d, t). ts_sids s (tx_hash H t) \<noteq> Some []) pres"
    and key: "key = compact_key H hdr nonce" and M: "M = slot_map 0 (bip152_slots pres cids)"
    and pool: "pool_ok key s M (tx_pool s)" and all: "\<forall>h \<in> targets key s M (tx_pool s). known s h"
    and idle: "\<not> is_write_pending (ts_not_seen s)" "sbc_readers (ts_not_seen s) + 1 < 2 ^ 32"
    and c: "mt_missing c = []" "compact_out_ok (cc_out (mt_compression c))"
  shows "\<exists>c' ps. map_execute H hins sched shared s c v = Some (s, Inr c') \<and>
    cd_placeholders (cc_service (mt_compression c')) = ps \<and>
    list_all2 (slot_result H key s (tx_pool s)) (bip152_slots pres cids) ps \<and>
    mt_missing c' = filter (\<lambda>i. ph_type (ps ! i) = PT_missing_compact_id) [0..<length (bip152_slots pres cids)]"
  using compact_mapping_general [where hins = hins and sched = sched and shared = shared, OF H v m front_diffs_fit [OF front] sids key _ pool all idle c] M
  by (simp add: parsed_slots_bip152 [OF front])

text \<open>
  A transaction that the message refers to and that has a short id but no contents makes the whole
  mapping fail: its position is reported twice, the count does not add up and the task throws. The
  reader of the transaction pool is not released: a write to the pool is queued from then on, and the
  next task that wants to read the pool waits for ever.
\<close>

theorem compact_mapping_fails_without_contents:
  assumes H: "\<And>bs. length (H bs) = 32" and v: "bv_ok v" "bv_bytes v = compact_msg hdr nonce vic cids vip pres post"
    and m: "wf_compact_msg hdr nonce vic cids vip pres" and fit: "diffs_fit (parsed_diffs pres) cids"
    and sids: "list_all (\<lambda>(d, t). ts_sids s (tx_hash H t) \<noteq> Some []) pres"
    and key: "key = compact_key H hdr nonce" and M: "M = slot_map 0 (parsed_slots pres cids)"
    and pool: "pool_ok key s M (tx_pool s)" and h: "h \<in> targets key s M (tx_pool s)" "\<not> known s h"
    and idle: "\<not> is_write_pending (ts_not_seen s)" "sbc_readers (ts_not_seen s) + 1 < 2 ^ 32" "\<not> sbc_stop (ts_not_seen s)"
    and c: "mt_missing c = []" "compact_out_ok (cc_out (mt_compression c))"
  shows "\<exists>s'. map_execute H hins sched shared s c v = Some (s', Inl RuntimeError) \<and> is_reading (ts_not_seen s') \<and>
    ts_acquire_tx_pool (s'\<lparr>ts_not_seen := sbc_insert hins x (ts_not_seen s')\<rparr>) = None"
proof -
  let ?s = "s\<lparr>ts_not_seen := (ts_not_seen s)\<lparr>sbc_readers := sbc_readers (ts_not_seen s) + 1\<rparr>\<rparr>"
  have "\<not> (\<forall>h \<in> targets key s M (tx_pool s). known s h)" using h by blast
  then have "map_execute H hins sched shared s c v = Some (?s, Inl RuntimeError)"
    using map_execute_spec [where H = H and hins = hins and sched = sched and shared = shared, OF H v m fit sids key M pool idle(1,2) c]
    by simp
  then show ?thesis using idle(3)
    by (simp add: is_reading_def sbc_insert_def ts_acquire_tx_pool_def acquire_read_def is_write_pending_def)
qed

text \<open>
  C11: given the recovered transactions for the missing positions, the compression task writes the
  encoding of a block message whose header it builds itself: magic, command, length and checksum of the
  payload and the block header of the compact message. Transactions with a short id are replaced by
  the indicator byte and their short ids follow the block. The output has exactly this length if it
  has short ids or the buffer was not longer before; otherwise the old length of the buffer stays.
\<close>

theorem compact_compression_output:
  assumes H: "\<And>bs. length (H bs) = 32" and out: "ba_tight (cc_out c)" "ba_len (cc_out c) < 2 ^ 64"
    and c: "cd_msg (cc_service c) = Some v" "cc_sids c = []"
    and v: "bv_ok v" "104 \<le> bv_size v" and n: "cd_total (cc_service c) = length ts" and bh: "bh = slice 24 80 (bv_bytes v)"
    and fl: "fills ps rs ts" and ps: "ps = cd_placeholders (cc_service c)"
    and small: "200 + length (ser_txs ts) < 2 ^ 32" and vi: "vi = varint (length ts)"
    and enc: "enc = bx_encode (compact_hdr H (cc_magic c) bh vi (ser_txs ts) @ vi @ ph_pieces ps ts) (ph_sids ps)"
  shows "\<exists>c'. cc_execute H (cc_add_recovered_transactions c rs) = Inr c' \<and> cc_sids c' = ph_sids ps \<and> cc_txn_count c' = length ts \<and>
    take (length enc) (ba_bytes (cc_out c')) = enc \<and>
    ba_len (cc_out c') = (if ph_sids ps = [] then max (ba_len (cc_out c)) (length enc) else length enc)"
  using cc_execute_spec [where H = H and c = "cc_add_recovered_transactions c rs" and v = v and ts = ts and rs = rs and ps = ps and bh = bh
      and vi = vi and enc = enc] assms
  by (auto simp: cc_add_recovered_transactions_def)

section \<open>Round trip\<close>

lemma compact_hdr_block:
  assumes H: "\<And>bs. length (H bs) = 32" and bh: "length bh = 80" and ts: "list_all wf_tx ts"
    and small: "400 + 5 * length (ser_txs ts) < 2 ^ 32" and vi: "vi = varint (length ts)" and h: "h = compact_hdr H magic bh vi (ser_txs ts)"
  shows "wf_block h vi ts" and "length_field_ok h vi ts" and "slice 24 80 h = bh"
proof -
  note [simp del] = le_bytes.simps le_bytes_numeral
  have lh: "length h = 104" unfolding h by (rule length_compact_hdr [OF bh H])
  have lvi: "length vi \<le> 9" unfolding vi by (rule length_varint(1))
  have lts: "length ts \<le> length (ser_txs ts)" using ts
  proof (induction ts)
    case (Cons t ts)
    then show ?case using length_ser_tx [of t] by simp
  qed simp
  then have n: "length ts < 2 ^ 32" using small by simp
  then have n64: "length ts < 2 ^ 64" by simp
  show "wf_block h vi ts"
    using lh lvi ts n lts small wf_varint [of "length ts"] vi_val_varint [OF n64] by (simp add: wf_block_def btc_block_def vi)
  let ?pl = "length (bh @ vi @ ser_txs ts)"
  have pl: "?pl < 256 ^ 4" using bh lvi small by simp
  have sl: "slice 16 4 h = le_bytes 4 ?pl"
    by (simp add: h compact_hdr_def slice_def)
  have "le_val (slice 16 4 h) = ?pl" unfolding sl by (rule le_val_le_bytes [OF pl])
  then show "length_field_ok h vi ts" using lh lvi bh small by (simp add: length_field_ok_def btc_block_def)
  have "h = (le_bytes 4 magic @ BLOCK_MSG_TYPE @ le_bytes 4 ?pl @ payload_checksum H (bh @ vi @ ser_txs ts)) @ bh @ []"
    by (simp add: h compact_hdr_def)
  moreover have "length (le_bytes 4 magic @ BLOCK_MSG_TYPE @ le_bytes 4 ?pl @ payload_checksum H (bh @ vi @ ser_txs ts)) = 24"
    using H by (simp add: payload_checksum_def)
  ultimately show "slice 24 80 h = bh" using bh slice_middle by metis
qed

lemma pre_slot_unique:
  assumes "list_all2 (slot_tx H key) slots ts" and "distinct ts" and "i < length slots"
  shows "S_Pre (ts ! i) \<in> set slots \<longleftrightarrow> slots ! i = S_Pre (ts ! i)"
proof
  assume "S_Pre (ts ! i) \<in> set slots"
  then obtain k where k: "k < length slots" "slots ! k = S_Pre (ts ! i)" by (auto simp: in_set_conv_nth)
  then have "slot_tx H key (S_Pre (ts ! i)) (ts ! k)" using assms(1) by (metis list_all2_nthD)
  then have "i = k" using assms k(1) by (simp add: nth_eq_iff_index_eq list_all2_lengthD [OF assms(1)])
  then show "slots ! i = S_Pre (ts ! i)" using k by simp
qed (use assms(3) nth_mem in metis)

text \<open>The round trip, of the block that has the transactions where the parser puts them.\<close>

lemma compact_block_general:
  assumes H: "\<And>bs. length (H bs) = 32" and v: "bv_ok v" "bv_bytes v = compact_msg hdr nonce vic cids vip pres post"
    and m: "wf_compact_msg hdr nonce vic cids vip pres" and fit: "diffs_fit (parsed_diffs pres) cids"
    and sids: "list_all (\<lambda>(d, t). ts_sids s (tx_hash H t) \<noteq> Some []) pres"
    and key: "key = compact_key H hdr nonce" and slots: "slots = parsed_slots pres cids" and M: "M = slot_map 0 slots"
    and pool: "pool_ok key s M (tx_pool s)" "\<forall>h \<in> targets key s M (tx_pool s). known s h"
    and idle: "\<not> is_write_pending (ts_not_seen s)" "sbc_readers (ts_not_seen s) + 1 < 2 ^ 32"
    and c: "mt_missing c = []" "compact_out_ok (cc_out (mt_compression c))" "shared \<or> ba_len (cc_out (mt_compression c)) = 0"
    and ts: "list_all2 (slot_tx H key) slots ts" "distinct ts" "list_all wf_tx ts" "list_all (\<lambda>t. S_Pre t \<in> set slots \<or> honest_tx H key s t) ts"
      "400 + 5 * length (ser_txs ts) < 2 ^ 32"
    and r: "list_all (receiver_ok s' (goes_short H s slots) (\<lambda>t. tx_sid s (tx_hash H t))) ts"
      "list_all (\<lambda>t. goes_short H s slots t \<longrightarrow> tx_sid s (tx_hash H t) < 2 ^ 32) ts"
    and rs: "list_all2 (\<lambda>t. is_view_of (ser_tx t)) (filter (must_fetch H s slots) ts) rs"
    and d: "0 < pool'" "ba_wf (dt_out d)" "ba_cap (dt_out d) < 2 ^ 32"
    and h': "hdr' = compact_hdr H (mt_magic c) (drop 24 hdr) (varint (length ts)) (ser_txs ts)"
  shows "\<exists>c' cc d'. map_execute H hins sched shared s c v = Some (s, Inr c') \<and>
    mt_missing c' = filter (\<lambda>i. must_fetch H s slots (ts ! i)) [0..<length ts] \<and>
    cc_execute H (cc_add_recovered_transactions (mt_compression c') rs) = Inr cc \<and>
    dcm_block H s' pool' sched1 sched2 shared' d (bv_msg (ba_bytes (cc_out cc))) = Inr (s', d') \<and> dt_success d' \<and>
    ba_bytes (dt_out d') = btc_block hdr' (varint (length ts)) ts \<and> dt_hash d' = cc_hash cc"
proof -
  let ?bh = "drop 24 hdr" and ?vi = "varint (length ts)"
  have M': "M = slot_map 0 (parsed_slots pres cids)" using M slots by simp
  obtain c' srv where c': "map_execute H hins sched shared s c v = Some (s, Inr c')"
    "cc_ready srv v (mt_magic c) shared (mt_compression c) (mt_compression c')"
    "cc_hash (mt_compression c') = Some (sha_of_binary (rev (H (H ?bh))))" "cd_total srv = length cids + length pres"
    "list_all2 (slot_result H key s (tx_pool s)) slots (cd_placeholders srv)"
    "mt_missing c' = filter (\<lambda>i. ph_type (cd_placeholders srv ! i) = PT_missing_compact_id) [0..<length slots]"
    using map_execute_spec [where H = H and hins = hins and sched = sched and shared = shared, OF H v m fit sids key M' pool(1) idle c(1,2)] pool(2)
    by (auto simp: slots)
  let ?cc = "mt_compression c'" and ?ps = "cd_placeholders srv"
  have hdr: "length hdr = 104" using m by (simp add: wf_compact_msg_def)
  have sl: "length slots = length ts" by (rule list_all2_lengthD [OF ts(1)])
  have ph: "list_all2 (ph_tx H s slots) ts ?ps"
    unfolding list_all2_conv_all_nth
  proof (intro conjI allI impI)
    show "length ts = length ?ps" using sl list_all2_lengthD [OF c'(5)] by simp
    fix i assume i: "i < length ts"
    show "ph_tx H s slots (ts ! i) (?ps ! i)"
      by (rule slot_result_tx [where key = key and x = "slots ! i"])
        (use i sl c'(5) ts pre_slot_unique [OF ts(1,2)] in \<open>auto simp: list_all2_conv_all_nth list_all_length\<close>)
  qed
  have tot: "cd_total srv = length ts"
    using c'(4) length_parsed_slots [OF fit] sl by (simp add: slots)
  have bh: "?bh = slice 24 80 (bv_bytes v)" "length ?bh = 80" using hdr by (simp_all add: v(2) compact_msg_def slice_def)
  have vsz: "104 \<le> bv_size v" using v hdr length_bv_bytes [of v] by (simp add: bv_ok_def compact_msg_def)
  note blk = compact_hdr_block [OF H bh(2) ts(3,5) refl h']
  let ?body = "hdr' @ ?vi @ txs_pieces (goes_short H s slots) ts"
  let ?sids = "map (\<lambda>t. tx_sid s (tx_hash H t)) (filter (goes_short H s slots) ts)"
  have fl: "fills ?ps rs ts" by (rule fills_ph_tx [OF ph rs])
  let ?c = "cc_add_recovered_transactions ?cc rs"
  have rdy: "ba_tight (cc_out ?c)" "ba_len (cc_out ?c) = 0" "cd_msg (cc_service ?c) = Some v" "cc_sids ?c = []"
    "cd_total (cc_service ?c) = length ts" "cc_recovered ?c = Some rs" "?ps = cd_placeholders (cc_service ?c)" "cc_magic ?c = mt_magic c"
    using c'(2) c(3) tot by (auto simp: cc_ready_def cc_add_recovered_transactions_def compact_out_ok_def)
  have len0: "ba_len (cc_out ?c) < 2 ^ 64" using rdy(2) by simp
  have sm: "200 + length (ser_txs ts) < 2 ^ 32" using ts(5) by simp
  have "hdr' = compact_hdr H (cc_magic ?c) ?bh ?vi (ser_txs ts)" by (simp add: h' rdy(8))
  then have enc: "bx_encode ?body ?sids =
      bx_encode (compact_hdr H (cc_magic ?c) ?bh ?vi (ser_txs ts) @ ?vi @ ph_pieces ?ps ts) (ph_sids ?ps)"
    by (simp only: ph_tx_pieces [OF ph])
  obtain cc where cc: "cc_execute H ?c = Inr cc" "cc_hash cc = cc_hash ?c"
    "take (length (bx_encode ?body ?sids)) (ba_bytes (cc_out cc)) = bx_encode ?body ?sids" "ba_tight (cc_out cc)"
    "ba_len (cc_out cc) = length (bx_encode ?body ?sids)"
    using cc_execute_spec [OF H rdy(1) len0 rdy(3,4) v(1) vsz rdy(5) bh(1) rdy(6) fl rdy(7) sm refl enc] rdy(2) by auto
  have bytes: "ba_bytes (cc_out cc) = bx_encode ?body ?sids" using cc(3-5) by simp
  have "length (bx_encode ?body ?sids) < 2 ^ 64"
  proof -
    have "length (txs_pieces (goes_short H s slots) ts) \<le> length (ser_txs ts)"
      using ts(3) by (intro btc_bx.length_pieces) simp
    then have "length (bx_encode ?body ?sids) \<le> 12 + length (btc_block hdr' ?vi ts) + 4 * length ts"
      using length_filter_le [of "goes_short H s slots" ts]
      by (simp add: bx_encode_def btc_block_def length_concat_le_bytes del: map_map length_filter_le)
    then show ?thesis using blk(1) by (simp add: wf_block_def)
  qed
  then have ok: "bv_ok (bv_msg (ba_bytes (cc_out cc)))" using bytes by simp
  have vb: "bv_bytes (bv_msg (ba_bytes (cc_out cc))) = bx_encode ?body ?sids" using bytes by simp
  obtain d' where "dcm_block H s' pool' sched1 sched2 shared' d (bv_msg (ba_bytes (cc_out cc))) = Inr (s', d')" "dt_success d'"
    "ba_bytes (dt_out d') = btc_block hdr' ?vi ts" "dt_hash d' = Some (sha_of_binary (rev (H (H (slice 24 80 hdr')))))"
    using dcm_block_spec [where H = H and ?sched1.0 = sched1 and ?sched2.0 = sched2 and shared = shared', OF H d blk(1,2) r ok vb] by blast
  moreover have "mt_missing c' = filter (\<lambda>i. must_fetch H s slots (ts ! i)) [0..<length ts]"
    unfolding c'(6) sl by (rule filter_cong) (use ph in \<open>auto simp: list_all2_conv_all_nth ph_tx_def\<close>)
  ultimately show ?thesis using cc(1,2) c'(1,3) blk(3) by (auto simp: cc_add_recovered_transactions_def)
qed

text \<open>
  C4: a node that receives a compact block, looks its transactions up, gets the missing ones in full
  and compresses the block produces a message from which a receiver that resolves the short ids
  restores the complete block: the block message of all transactions in their BIP 152 order, with a correct
  length and checksum, and the hash of the compact block. The node asks for exactly the transactions that are
  neither prefilled nor in its pool with a short id. This holds for every interleaving of the mapping and of the
  decompression, when the prefilled transactions are the first ones of the block, every transaction
  of the pool that the message refers to has contents, which are those of the transaction with that
  hash, no two transactions of the pool share a compact id of the block, no write to the pool is pending, and
  the output buffer of the compression task is empty or was handed out.
\<close>

theorem compact_block_round_trip:
  assumes H: "\<And>bs. length (H bs) = 32" and v: "bv_ok v" "bv_bytes v = compact_msg hdr nonce vic cids vip pres post"
    and m: "wf_compact_msg hdr nonce vic cids vip pres" and front: "list_all (\<lambda>(d, t). vi_val d = 0) pres"
    and sids: "list_all (\<lambda>(d, t). ts_sids s (tx_hash H t) \<noteq> Some []) pres"
    and key: "key = compact_key H hdr nonce" and slots: "slots = bip152_slots pres cids" and M: "M = slot_map 0 slots"
    and pool: "pool_ok key s M (tx_pool s)" "\<forall>h \<in> targets key s M (tx_pool s). known s h"
    and idle: "\<not> is_write_pending (ts_not_seen s)" "sbc_readers (ts_not_seen s) + 1 < 2 ^ 32"
    and c: "mt_missing c = []" "compact_out_ok (cc_out (mt_compression c))" "shared \<or> ba_len (cc_out (mt_compression c)) = 0"
    and ts: "list_all2 (slot_tx H key) slots ts" "distinct ts" "list_all wf_tx ts" "list_all (\<lambda>t. S_Pre t \<in> set slots \<or> honest_tx H key s t) ts"
      "400 + 5 * length (ser_txs ts) < 2 ^ 32"
    and r: "list_all (receiver_ok s' (goes_short H s slots) (\<lambda>t. tx_sid s (tx_hash H t))) ts"
      "list_all (\<lambda>t. goes_short H s slots t \<longrightarrow> tx_sid s (tx_hash H t) < 2 ^ 32) ts"
    and rs: "list_all2 (\<lambda>t. is_view_of (ser_tx t)) (filter (must_fetch H s slots) ts) rs"
    and d: "0 < pool'" "ba_wf (dt_out d)" "ba_cap (dt_out d) < 2 ^ 32"
    and h': "hdr' = compact_hdr H (mt_magic c) (drop 24 hdr) (varint (length ts)) (ser_txs ts)"
  shows "\<exists>c' cc d'. map_execute H hins sched shared s c v = Some (s, Inr c') \<and>
    mt_missing c' = filter (\<lambda>i. must_fetch H s slots (ts ! i)) [0..<length ts] \<and>
    cc_execute H (cc_add_recovered_transactions (mt_compression c') rs) = Inr cc \<and>
    dcm_block H s' pool' sched1 sched2 shared' d (bv_msg (ba_bytes (cc_out cc))) = Inr (s', d') \<and> dt_success d' \<and>
    ba_bytes (dt_out d') = btc_block hdr' (varint (length ts)) ts \<and> dt_hash d' = cc_hash cc"
  by (rule compact_block_general [OF H v m front_diffs_fit [OF front] sids key _ M pool idle c ts r rs d h'])
    (simp add: slots parsed_slots_bip152 [OF front])

section \<open>Positions of prefilled transactions\<close>

text \<open>
  BIP 152 puts in front of a prefilled transaction how many compact ids precede it. The code takes the
  number for a number of bytes and divides it by six. A transaction that should stand behind one to
  five compact ids gets the first place of the block.
\<close>

theorem compact_prefilled_misplaced:
  assumes H: "\<And>bs. length (H bs) = 32" and v: "bv_ok v" "bv_bytes v = compact_msg hdr nonce vic cids vip [(d, t)] post"
    and m: "wf_compact_msg hdr nonce vic cids vip [(d, t)]" and sids: "sids (tx_hash H t) \<noteq> Some []"
    and d: "0 < vi_val d" "vi_val d < 6" "vi_val d \<le> length cids"
  shows "\<exists>c p w. cds_parse H sids (cds_new v) = Inr c \<and>
    cd_placeholders c = p # map (\<lambda>k. placeholder_new\<lparr>ph_cmpt := Some k\<rparr>) cids \<and> ph_contents p = Some w \<and> bv_bytes w = ser_tx t \<and>
    bip152_slots [(d, t)] cids = map S_Compact (take (vi_val d) cids) @ S_Pre t # map S_Compact (drop (vi_val d) cids)"
proof -
  have fit: "diffs_fit (parsed_diffs [(d, t)]) cids" using d by (simp add: diffs_fit_def parsed_diffs_def)
  have ps: "parsed_slots [(d, t)] cids = S_Pre t # map S_Compact cids"
    using d by (simp add: parsed_slots_def parsed_diffs_def place_def)
  obtain c where c: "cds_parse H sids (cds_new v) = Inr c"
    "list_all2 (slot_ph H sids) (parsed_slots [(d, t)] cids) (cd_placeholders c)"
    using cds_parse_spec [where H = H and sids = sids, OF v m H _ fit] sids by auto
  obtain p rest where p: "cd_placeholders c = p # rest" "slot_ph H sids (S_Pre t) p" "list_all2 (slot_ph H sids) (map S_Compact cids) rest"
    using c(2) by (auto simp: ps list_all2_Cons1)
  then obtain w where w: "bv_bytes w = ser_tx t" "pre_filled_placeholder sids w (tx_hash H t) = Inr p" by auto
  have "ph_contents p = Some w"
    using w(2) by (auto simp: pre_filled_placeholder_def placeholder_new_def Let_def split: option.splits list.splits)
  moreover have "rest = map (\<lambda>k. placeholder_new\<lparr>ph_cmpt := Some k\<rparr>) cids"
    using p(3) by (auto simp: list_all2_conv_all_nth intro: nth_equalityI)
  ultimately show ?thesis using c(1) p(1) w(1) by (auto simp: bip152_slots_def place_def)
qed

section \<open>An example\<close>

text \<open>
  A compact block of two transactions: the first is prefilled, the second is in the pool. The sender
  has its short id only, the receiver its contents too.
\<close>

definition demo_key :: "64 word \<times> 64 word" where
  "demo_key = compact_key demo_H demo_hdr (replicate 8 0)"

definition demo_cid :: nat where
  "demo_cid = cid demo_key (tx_hash demo_H (demo_tx 1))"

definition demo_compact :: "byte list \<Rightarrow> buffer_view" where
  "demo_compact d = bv_msg (compact_msg demo_hdr (replicate 8 0) [1] [demo_cid] [1] [(d, demo_tx 2)] [])"

lemma cid_less: "cid key h < 2 ^ 48"
proof -
  have "sip_hash24 key (sha_of_binary h) AND 0x0000FFFFFFFFFFFF = take_bit 48 (sip_hash24 key (sha_of_binary h))"
    by (simp add: take_bit_eq_mask mask_eq_exp_minus_1)
  then show ?thesis by (simp add: cid_def to_compact_id_def unsigned_take_bit_eq take_bit_nat_less_exp [of 48, simplified])
qed

lemma demo_compact_facts:
  assumes "length d = 1"
  shows "bv_ok (demo_compact d)"
    and "bv_bytes (demo_compact d) = compact_msg demo_hdr (replicate 8 0) [1] [demo_cid] [1] [(d, demo_tx 2)] []"
  using assms by (simp_all add: demo_compact_def compact_msg_def demo_hdr_def demo_tx_ser)

lemma demo_compact_wf:
  assumes "b < 0xfd"
  shows "wf_compact_msg demo_hdr (replicate 8 0) [1] [demo_cid] [1] [([b], demo_tx 2)]"
  using assms cid_less [of demo_key "tx_hash demo_H (demo_tx 1)"]
  by (auto simp: wf_compact_msg_def demo_hdr_def demo_cid_def wf_demo_tx wf_vi_def vi_val_def btc_consts)

lemma demo_slots:
  "parsed_slots [([0], demo_tx 2)] [demo_cid] = [S_Pre (demo_tx 2), S_Compact demo_cid]"
  "slot_map 0 (parsed_slots [([0], demo_tx 2)] [demo_cid]) = [(demo_cid, NULL_TX_SID, 1)]"
  "diffs_fit (parsed_diffs [([0], demo_tx 2)]) [demo_cid]"
  by (simp_all add: parsed_slots_def parsed_diffs_def place_def vi_val_def diffs_fit_def btc_consts)

lemma demo_front:
  "list_all (\<lambda>(d, t). vi_val d = 0) [([0], demo_tx 2)]"
  "bip152_slots [([0], demo_tx 2)] [demo_cid] = [S_Pre (demo_tx 2), S_Compact demo_cid]"
  "slot_map 0 (bip152_slots [([0], demo_tx 2)] [demo_cid]) = [(demo_cid, NULL_TX_SID, 1)]"
  by (simp_all add: bip152_slots_def place_def vi_val_def btc_consts)

lemma demo_pool:
  assumes "s = demo_sender \<or> s = demo_receiver"
  shows "tx_pool s = [tx_hash demo_H (demo_tx 1)]" and "ts_sids s = [tx_hash demo_H (demo_tx 1) \<mapsto> [7]]"
    and "\<not> is_write_pending (ts_not_seen s)" and "sbc_readers (ts_not_seen s) = 0" and "\<not> sbc_stop (ts_not_seen s)"
    and "targets demo_key s [(demo_cid, NULL_TX_SID, 1)] (tx_pool s) = {tx_hash demo_H (demo_tx 1)}"
    and "tx_sid s (tx_hash demo_H (demo_tx 1)) = 7"
proof -
  have ns: "ts_not_seen s = sbc_insert (#) (tx_hash demo_H (demo_tx 1)) (sbc_new 10 1)"
    using assms by (auto simp: demo_receiver_def demo_sender_def sid_service_def assign_short_id_def ts_new_def
        sids_index_def has_short_id_def NULL_TX_SID_def Let_def)
  note sbc = sbc_insert_def insert_to_container_def insert_index_def sbc_new_def sbc_count_def bk_is_full_def bk_new_def
    bk_insert_def uset_insert_def is_reading_def is_write_pending_def
  show t: "tx_pool s = [tx_hash demo_H (demo_tx 1)]" by (simp add: tx_pool_def ns sbc)
  show i: "ts_sids s = [tx_hash demo_H (demo_tx 1) \<mapsto> [7]]" using assms demo_sender_facts(1) by (auto simp: demo_receiver_def)
  show "\<not> is_write_pending (ts_not_seen s)" "sbc_readers (ts_not_seen s) = 0" "\<not> sbc_stop (ts_not_seen s)" by (simp_all add: ns sbc)
  show "targets demo_key s [(demo_cid, NULL_TX_SID, 1)] (tx_pool s) = {tx_hash demo_H (demo_tx 1)}"
    by (auto simp: targets_def target_def t i demo_cid_def)
  show "tx_sid s (tx_hash demo_H (demo_tx 1)) = 7" using i by (simp add: tx_sid_first)
qed


lemma demo_contents:
  "mw_find (ts_contents demo_sender) (tx_hash demo_H (demo_tx 1)) = None"
  "mw_find (ts_contents demo_receiver) (tx_hash demo_H (demo_tx b)) =
     (if b = 1 then Some (Some (bv_msg (ser_tx (demo_tx 1)))) else None)"
  by (auto simp: demo_receiver_def demo_sender_facts demo_hash ts_new_def mw_find_def mw_emplace_def mw_new_def)

lemma demo_pool_ok:
  "pool_ok demo_key demo_sender [(demo_cid, NULL_TX_SID, 1)] (tx_pool demo_sender)"
  "pool_ok demo_key demo_receiver [(demo_cid, NULL_TX_SID, 1)] (tx_pool demo_receiver)"
  unfolding pool_ok_def demo_pool(6) [OF disjI1 [OF refl]] demo_pool(6) [OF disjI2 [OF refl]]
  by (simp_all add: demo_pool known_def demo_contents demo_tx_ser NULL_TX_SID_def)

lemma demo_map_task: "mt_missing (map_task_new 1000) = []" "compact_out_ok (cc_out (mt_compression (map_task_new 1000)))"
  "ba_len (cc_out (mt_compression (map_task_new 1000))) = 0"
  by (simp_all add: map_task_new_def cc_task_new_def compact_out_ok_def ba_tight_def wf_intros) (simp_all add: ba_with_capacity_def)

lemma demo_pre_sids: "s = demo_sender \<or> s = demo_receiver \<Longrightarrow> list_all (\<lambda>(d, t). ts_sids s (tx_hash demo_H t) \<noteq> Some []) [(d, demo_tx 2)]"
  by (simp add: demo_pool(2) demo_hash)


theorem compact_mapping_resolves_witness:
  "\<exists>c' ps. map_execute demo_H (#) [0] False demo_receiver (map_task_new 1000) (demo_compact [0]) = Some (demo_receiver, Inr c') \<and>
    cd_placeholders (cc_service (mt_compression c')) = ps \<and> mt_missing c' = [] \<and> ph_type (ps ! 1) = PT_short_id \<and> ph_sid (ps ! 1) = 7"
proof -
  have 1: "\<forall>h \<in> targets demo_key demo_receiver (slot_map 0 (bip152_slots [([0], demo_tx 2)] [demo_cid])) (tx_pool demo_receiver). known demo_receiver h"
    unfolding demo_front(3) demo_pool(6) [OF disjI2 [OF refl]] by (simp add: known_def demo_contents)
  obtain c' ps where c': "map_execute demo_H (#) [0] False demo_receiver (map_task_new 1000) (demo_compact [0]) = Some (demo_receiver, Inr c')"
    "cd_placeholders (cc_service (mt_compression c')) = ps"
    "list_all2 (slot_result demo_H demo_key demo_receiver (tx_pool demo_receiver)) (bip152_slots [([0], demo_tx 2)] [demo_cid]) ps"
    "mt_missing c' = filter (\<lambda>i. ph_type (ps ! i) = PT_missing_compact_id) [0..<length (bip152_slots [([0], demo_tx 2)] [demo_cid])]"
    using compact_mapping_resolves [where H = demo_H and s = demo_receiver and hins = "(#)" and sched = "[0]" and shared = False,
        OF length_demo_H demo_compact_facts [of "[0]"] demo_compact_wf demo_front(1) demo_pre_sids demo_key_def refl _ 1
        demo_pool(3) _ demo_map_task(1,2)] demo_pool_ok(2) demo_pool(4)
    by (auto simp: demo_front(3))
  then obtain p q where ps: "ps = [p, q]" "slot_result demo_H demo_key demo_receiver (tx_pool demo_receiver) (S_Pre (demo_tx 2)) p"
    "slot_result demo_H demo_key demo_receiver (tx_pool demo_receiver) (S_Compact demo_cid) q"
    by (auto simp: demo_front list_all2_Cons1)
  have "ph_type p = PT_content"
    using ps(2) by (auto simp: demo_pool demo_hash pre_filled_placeholder_def Let_def)
  moreover have "ph_type q = PT_short_id" "ph_sid q = 7"
    using ps(3) demo_pool [of demo_receiver] by (auto simp: demo_cid_def ph_filled_def)
  ultimately show ?thesis using c' ps(1) by (auto simp: demo_front upt_conv_Cons)
qed

theorem compact_mapping_fails_without_contents_witness:
  "\<exists>s'. map_execute demo_H (#) [0] False demo_sender (map_task_new 1000) (demo_compact [0]) = Some (s', Inl RuntimeError) \<and>
    is_reading (ts_not_seen s')"
  using compact_mapping_fails_without_contents [where H = demo_H and s = demo_sender and hins = "(#)" and sched = "[0]" and shared = False
      and h = "tx_hash demo_H (demo_tx 1)",
      OF length_demo_H demo_compact_facts [of "[0]"] demo_compact_wf demo_slots(3) demo_pre_sids demo_key_def refl _ _ _
      demo_pool(3) _ demo_pool(5) demo_map_task(1,2)] demo_pool_ok(1) demo_pool(4,6) [of demo_sender]
  by (auto simp: demo_slots(2) known_def demo_contents)

theorem compact_prefilled_misplaced_witness:
  "\<exists>c p. cds_parse demo_H Map.empty (cds_new (demo_compact [1])) = Inr c \<and>
    cd_placeholders c = [p, placeholder_new\<lparr>ph_cmpt := Some demo_cid\<rparr>] \<and>
    bip152_slots [([1], demo_tx 2)] [demo_cid] = [S_Compact demo_cid, S_Pre (demo_tx 2)]"
  using compact_prefilled_misplaced [where H = demo_H and sids = Map.empty,
      OF length_demo_H demo_compact_facts [of "[1]"] demo_compact_wf [of 1]]
  by (auto simp: vi_val_def btc_consts)

definition demo_cc_task :: cc_task where
  "demo_cc_task = (cc_task_new 1000)\<lparr>cc_service := cds_empty\<lparr>cd_msg := Some (demo_compact [0]), cd_total := 1,
     cd_placeholders := [placeholder_new]\<rparr>\<rparr>"

theorem compact_compression_output_witness:
  "\<exists>c'. cc_execute demo_H (cc_add_recovered_transactions demo_cc_task [bv_msg (ser_tx (demo_tx 1))]) = Inr c' \<and>
    cc_sids c' = [] \<and> cc_txn_count c' = 1"
proof -
  let ?v = "demo_compact [0]"
  have vsz: "104 \<le> bv_size ?v"
    using demo_compact_facts [of "[0]"] length_bv_bytes [of ?v] by (simp add: bv_ok_def compact_msg_def demo_hdr_def)
  have f: "fills [placeholder_new] [bv_msg (ser_tx (demo_tx 1))] [demo_tx 1]"
    by (simp add: placeholder_new_def is_view_of_def demo_tx_ser)
  have c: "ba_tight (cc_out demo_cc_task)" "ba_len (cc_out demo_cc_task) < 2 ^ 64" "cc_sids demo_cc_task = []"
    "cd_msg (cc_service demo_cc_task) = Some ?v" "cd_total (cc_service demo_cc_task) = length [demo_tx 1]"
    "[placeholder_new] = cd_placeholders (cc_service demo_cc_task)" "200 + length (ser_txs [demo_tx 1]) < 2 ^ 32"
    by (simp_all add: demo_cc_task_def cc_task_new_def ba_tight_def wf_intros demo_tx_ser) (simp_all add: ba_with_capacity_def)
  have "ph_sids [placeholder_new] = []" by (simp add: placeholder_new_def)
  then show ?thesis
    using compact_compression_output [where H = demo_H, OF length_demo_H c(1,2,4,3) demo_compact_facts(1) vsz c(5) refl f c(6,7) refl refl] by auto
qed


lemma goes_short_demo:
  "goes_short demo_H demo_receiver [S_Pre (demo_tx 2), S_Compact demo_cid] (demo_tx 1)"
  "\<not> goes_short demo_H demo_receiver [S_Pre (demo_tx 2), S_Compact demo_cid] (demo_tx 2)"
  by (simp_all add: goes_short_def demo_pool demo_hash)

theorem compact_block_round_trip_witness:
  "\<exists>c' cc d'. map_execute demo_H (#) [0] False demo_receiver (map_task_new 1000) (demo_compact [0]) = Some (demo_receiver, Inr c') \<and>
    mt_missing c' = [] \<and> cc_execute demo_H (cc_add_recovered_transactions (mt_compression c') []) = Inr cc \<and>
    dcm_block demo_H demo_receiver 2 [1, 0] [1] False (dcm_task_new 1000 1) (bv_msg (ba_bytes (cc_out cc))) = Inr (demo_receiver, d') \<and>
    ba_bytes (dt_out d') = btc_block (compact_hdr demo_H 0 (drop 24 demo_hdr) (varint 2) (ser_txs [demo_tx 2, demo_tx 1])) (varint 2)
      [demo_tx 2, demo_tx 1]"
proof -
  let ?ts = "[demo_tx 2, demo_tx 1]" and ?slots = "[S_Pre (demo_tx 2), S_Compact demo_cid]"
  have ne: "demo_tx 2 \<noteq> demo_tx 1" by (simp add: demo_tx_def)
  have 1: "\<forall>h \<in> targets demo_key demo_receiver (slot_map 0 ?slots) (tx_pool demo_receiver). known demo_receiver h"
    unfolding demo_front(3) [unfolded demo_front(2)] demo_pool(6) [OF disjI2 [OF refl]] by (simp add: known_def demo_contents)
  have po: "pool_ok demo_key demo_receiver (slot_map 0 ?slots) (tx_pool demo_receiver)"
    using demo_pool_ok(2) demo_slots(1,2) by simp
  have ts: "list_all2 (slot_tx demo_H demo_key) ?slots ?ts" "distinct ?ts" "list_all wf_tx ?ts"
    "list_all (\<lambda>t. S_Pre t \<in> set ?slots \<or> honest_tx demo_H demo_key demo_receiver t) ?ts" "400 + 5 * length (ser_txs ?ts) < 2 ^ 32"
    using ne by (auto simp: demo_cid_def wf_demo_tx honest_tx_def demo_pool demo_contents demo_tx_ser is_view_of_def)
  have r: "list_all (receiver_ok demo_receiver (goes_short demo_H demo_receiver ?slots) (\<lambda>t. tx_sid demo_receiver (tx_hash demo_H t))) ?ts"
    "list_all (\<lambda>t. goes_short demo_H demo_receiver ?slots t \<longrightarrow> tx_sid demo_receiver (tx_hash demo_H t) < 2 ^ 32) ?ts"
    using demo_receiver_ok ne by (auto simp: goes_short_demo demo_pool receiver_has_def)
  have f: "filter (must_fetch demo_H demo_receiver ?slots) ?ts = []" by (simp add: must_fetch_def goes_short_demo)
  have f': "filter (\<lambda>i. must_fetch demo_H demo_receiver ?slots (?ts ! i)) [0..<2] = []"
    by (simp add: upt_conv_Cons must_fetch_def goes_short_demo)
  have d: "ba_wf (dt_out (dcm_task_new 1000 1))" "ba_cap (dt_out (dcm_task_new 1000 1)) < 2 ^ 32"
    by (simp add: dcm_task_new_def, simp add: dcm_task_new_def ba_with_capacity_def)
  have *: "list_all2 (\<lambda>t. is_view_of (ser_tx t)) (filter (must_fetch demo_H demo_receiver ?slots) ?ts) []" by (simp only: f list_all2_Nil)
  have rd: "sbc_readers (ts_not_seen demo_receiver) + 1 < 2 ^ 32" by (simp add: demo_pool)
  have mg: "mt_magic (map_task_new 1000) = 0" "length ?ts = 2" by (simp_all add: map_task_new_def)
  show ?thesis
    using compact_block_round_trip [where H = demo_H and s = demo_receiver and hins = "(#)" and sched = "[0]" and shared = False
      and pool' = 2 and ?sched1.0 = "[1, 0]" and ?sched2.0 = "[1]" and shared' = False,
        OF length_demo_H demo_compact_facts [of "[0]"] demo_compact_wf demo_front(1) demo_pre_sids demo_key_def demo_front(2) [symmetric] refl
        po 1 demo_pool(3) rd demo_map_task(1,2) _ ts r * _ d refl]
    unfolding mg f' by (auto simp: demo_map_task(3))
qed

end
