(* ===== verification/Base64.thy ===== *)
theory Base64
  imports Buffers
begin

text \<open>
  Base64 of \<^verbatim>\<open>src/lib/libutils/utils/encoding/base64_encoder.h\<close>. Strings are byte lists. \<^verbatim>\<open>char\<close> is signed on
  the platforms of the library; the encoder masks what it shifts, so the sign bits do not show, while the
  decoder indexes its table with the sign-extended character.
\<close>

section \<open>Tables\<close>

definition k_decoding_table :: "nat list" where
  "k_decoding_table =
     replicate 43 64 @ [62] @ replicate 3 64 @ [63] @ [52..<62] @ replicate 7 64 @ [0..<26] @ replicate 6 64 @ [26..<52] @
     replicate 133 64"

definition s_encoding_table :: "byte list" where
  "s_encoding_table = map of_nat ([65..<91] @ [97..<123] @ [48..<58] @ [43, 47])"

definition b64_pad :: byte where
  "b64_pad = 61"

section \<open>Encoding\<close>

definition str_at :: "byte list \<Rightarrow> nat \<Rightarrow> byte res" where
  \<comment> \<open>\<^verbatim>\<open>operator[]\<close> of a \<^verbatim>\<open>std::string\<close>: the position behind the last character holds a zero\<close>
  "str_at s i = (if i < length s then Inr (s ! i) else if i = length s then Inr 0 else Inl MemFault)"

unbundle bit_operations_syntax

definition b64_first :: "byte \<Rightarrow> byte" where
  "b64_first a = s_encoding_table ! unat (drop_bit 2 a AND 0x3F)"

definition b64_second :: "byte \<Rightarrow> byte \<Rightarrow> byte" where
  "b64_second a b = s_encoding_table ! unat (push_bit 4 (a AND 0x3) OR drop_bit 4 (b AND 0xF0))"

definition b64_third :: "byte \<Rightarrow> byte \<Rightarrow> byte" where
  "b64_third b c = s_encoding_table ! unat (push_bit 2 (b AND 0xF) OR drop_bit 6 (c AND 0xC0))"

definition b64_fourth :: "byte \<Rightarrow> byte" where
  "b64_fourth c = s_encoding_table ! unat (c AND 0x3F)"

text \<open>
  The loop runs while \<^verbatim>\<open>i < in_len - 2\<close>, a subtraction of \<^verbatim>\<open>size_t\<close>. \<open>p\<close> is the position of the write pointer in the
  result. A position beyond the string is a fault, so \<open>i\<close> does not wrap around.
\<close>

function b64_loop :: "byte list \<Rightarrow> nat \<Rightarrow> nat \<Rightarrow> byte list \<Rightarrow> (nat \<times> nat \<times> byte list) res" where
  "b64_loop data i p ret =
     (if i < u64_sub (length data) 2 then
        rbind (str_at data i) (\<lambda>a. rbind (str_at data (i + 1)) (\<lambda>b. rbind (str_at data (i + 2)) (\<lambda>c.
        rbind (vec_poke ret p [b64_first a, b64_second a b, b64_third b c, b64_fourth c]) (\<lambda>ret.
          b64_loop data (i + 3) (p + 4) ret))))
      else Inr (i, p, ret))"
  by pat_completeness auto
termination
  by (relation "measure (\<lambda>(data, i, p, ret). u64_sub (length data) 2 - i)") auto

declare b64_loop.simps [simp del]

definition base64_encode :: "byte list \<Rightarrow> byte list res" where
  "base64_encode data =
     (let in_len = length data; out_len = 4 * ((in_len + 2) div 3)
      in rbind (b64_loop data 0 0 (replicate out_len 0)) (\<lambda>(i, p, ret).
           if i < in_len then
             rbind (str_at data i) (\<lambda>a.
               if i = u64_sub in_len 1 then vec_poke ret p [b64_first a, b64_second a 0, b64_pad, b64_pad]
               else rbind (str_at data (i + 1)) (\<lambda>b. vec_poke ret p [b64_first a, b64_second a b, b64_third b 0, b64_pad]))
           else Inr ret))"

section \<open>Decoding\<close>

definition b64_digit :: "byte \<Rightarrow> nat res" where
  \<comment> \<open>a character with the high bit set is a negative index\<close>
  "b64_digit c = (if c = b64_pad then Inr 0 else if 128 \<le> unat c then Inl MemFault else Inr (k_decoding_table ! unat c))"

definition b64_put :: "('s \<Rightarrow> nat \<Rightarrow> byte list \<Rightarrow> 's res) \<Rightarrow> nat \<Rightarrow> byte \<Rightarrow> nat \<times> 's \<Rightarrow> (nat \<times> 's) res" where
  "b64_put pk out_len b = (\<lambda>(j, buf). if j < out_len then rbind (pk buf j [b]) (\<lambda>buf. Inr (j + 1, buf)) else Inr (j, buf))"

definition b64_triple :: "nat \<Rightarrow> nat \<Rightarrow> nat \<Rightarrow> nat \<Rightarrow> 32 word" where
  "b64_triple a b c d = push_bit 18 (of_nat a) + push_bit 12 (of_nat b) + push_bit 6 (of_nat c) + of_nat d"

fun b64_decode_loop :: "('s \<Rightarrow> nat \<Rightarrow> byte list \<Rightarrow> 's res) \<Rightarrow> nat \<Rightarrow> byte list \<Rightarrow> nat \<times> 's \<Rightarrow> (nat \<times> 's) res" where
  "b64_decode_loop pk out_len (c1 # c2 # c3 # c4 # cs) st =
     rbind (b64_digit c1) (\<lambda>a. rbind (b64_digit c2) (\<lambda>b. rbind (b64_digit c3) (\<lambda>c. rbind (b64_digit c4) (\<lambda>d.
     let triple = b64_triple a b c d
     in rbind (b64_put pk out_len (ucast (drop_bit 16 triple AND 0xFF)) st) (\<lambda>st.
        rbind (b64_put pk out_len (ucast (drop_bit 8 triple AND 0xFF)) st) (\<lambda>st.
        rbind (b64_put pk out_len (ucast (triple AND 0xFF)) st) (\<lambda>st.
          b64_decode_loop pk out_len cs st)))))))"
| "b64_decode_loop pk out_len _ st = Inr st"

definition base64_decode ::
  "('s \<Rightarrow> nat \<Rightarrow> 's) \<Rightarrow> ('s \<Rightarrow> nat \<Rightarrow> byte list \<Rightarrow> 's res) \<Rightarrow> byte list \<Rightarrow> 's \<Rightarrow> nat \<Rightarrow> (nat \<times> 's) res" where
  \<comment> \<open>the characters in front of the end are read without a check that the input has any\<close>
  "base64_decode rsz pk input buf offset =
     (let in_len = length input
      in if in_len mod 4 \<noteq> 0 then Inl InvalidArgument
         else if in_len = 0 then Inl MemFault
         else let out_len = in_len div 4 * 3; output_offset = u64 (offset + out_len);
                  out_len = out_len - (if input ! (in_len - 1) = b64_pad then 1 else 0);
                  out_len = out_len - (if input ! (in_len - 2) = b64_pad then 1 else 0)
              in rbind (b64_decode_loop pk out_len input (offset, rsz buf output_offset)) (\<lambda>(_, buf).
                   Inr (output_offset, buf)))"

section \<open>Reference encoding\<close>

fun b64 :: "byte list \<Rightarrow> byte list" where
  "b64 (a # b # c # xs) = [b64_first a, b64_second a b, b64_third b c, b64_fourth c] @ b64 xs"
| "b64 [a, b] = [b64_first a, b64_second a b, b64_third b 0, b64_pad]"
| "b64 [a] = [b64_first a, b64_second a 0, b64_pad, b64_pad]"
| "b64 [] = []"

lemma length_b64: "length (b64 xs) = 4 * ((length xs + 2) div 3)"
proof (induction xs rule: b64.induct)
  case (1 a b c xs)
  have "(length (a # b # c # xs) + 2) div 3 = (length xs + 2) div 3 + 1" by simp
  with 1 show ?case by simp
qed auto

lemma str_at_append: "str_at (pre @ x # xs) (length pre) = Inr x"
  by (simp add: str_at_def nth_append)

lemma patch_adjacent: "p + length ys \<le> length xs \<Longrightarrow> patch (p + length ys) zs (patch p ys xs) = patch p (ys @ zs) xs"
  by (simp add: patch_def ac_simps)

lemma b64_loop_spec:
  assumes "data = pre @ xs" and "2 \<le> length data" and "length data < 2 ^ 64" and "p + length (b64 xs) \<le> length ret"
  shows "b64_loop data (length pre) p ret =
    Inr (length pre + 3 * (length xs div 3), p + 4 * (length xs div 3), patch p (b64 (take (3 * (length xs div 3)) xs)) ret)"
  using assms
proof (induction xs arbitrary: pre p ret rule: b64.induct)
  case (1 a b c xs)
  let ?w = "[b64_first a, b64_second a b, b64_third b c, b64_fourth c]" and ?k = "length xs div 3"
  have lt: "length pre < u64_sub (length data) 2" using 1(2-4) by (simp add: u64_sub_id)
  have at: "str_at data (length pre) = Inr a" "str_at data (length pre + 1) = Inr b" "str_at data (length pre + 2) = Inr c"
    using str_at_append [of pre a "b # c # xs"] str_at_append [of "pre @ [a]" b "c # xs"] str_at_append [of "pre @ [a, b]" c xs] 1(2)
    by simp_all
  have put: "vec_poke ret p ?w = Inr (patch p ?w ret)" using 1(5) by (simp add: vec_poke_def)
  have "b64_loop data (length pre) p ret = b64_loop data (length (pre @ [a, b, c])) (p + 4) (patch p ?w ret)"
    by (subst b64_loop.simps) (simp only: lt at put if_True rbind_simps, simp add: numeral_3_eq_3)
  also have "\<dots> = Inr (length (pre @ [a, b, c]) + 3 * ?k, p + 4 + 4 * ?k, patch (p + 4) (b64 (take (3 * ?k) xs)) (patch p ?w ret))"
    using 1(2-5) by (intro 1(1)) (auto simp: patch_def)
  also have "patch (p + 4) (b64 (take (3 * ?k) xs)) (patch p ?w ret) = patch p (?w @ b64 (take (3 * ?k) xs)) ret"
  proof -
    have "p + length ?w = p + 4" by simp
    then show ?thesis using patch_adjacent [of p ?w ret "b64 (take (3 * ?k) xs)"] 1(5) by (simp only: b64.simps length_append)
  qed
  also have "?w @ b64 (take (3 * ?k) xs) = b64 (take (3 * (?k + 1)) (a # b # c # xs))"
  proof -
    have "3 * (?k + 1) = Suc (Suc (Suc (3 * ?k)))" by simp
    then show ?thesis by (simp only: take_Suc_Cons b64.simps)
  qed
  also have "length (pre @ [a, b, c]) + 3 * ?k = length pre + 3 * (?k + 1)" by simp
  also have "p + 4 + 4 * ?k = p + 4 * (?k + 1)" by simp
  also have "?k + 1 = length (a # b # c # xs) div 3" by simp
  finally show ?case .
qed (auto simp: b64_loop.simps u64_sub_id patch_def)

lemma b64_append: "length xs mod 3 = 0 \<Longrightarrow> b64 (xs @ ys) = b64 xs @ b64 ys"
  by (induction xs rule: b64.induct) auto

lemma base64_encode_spec:
  assumes "2 \<le> length data" and "length data < 2 ^ 64"
  shows "base64_encode data = Inr (b64 data)"
proof -
  define k where "k = length data div 3"
  define r where "r = replicate (4 * ((length data + 2) div 3)) (0 :: byte)"
  obtain d x where dx: "data = d @ x" "d = take (3 * k) data" "length d = 3 * k" "length x < 3"
  proof
    show "data = take (3 * k) data @ drop (3 * k) data" by simp
    show "length (take (3 * k) data) = 3 * k" "length (drop (3 * k) data) < 3" by (simp_all add: k_def minus_mult_div_eq_mod)
  qed auto
  have loop: "b64_loop data 0 0 r = Inr (3 * k, 4 * k, patch 0 (b64 d) r)"
    using b64_loop_spec [of data "[]" data 0 r] assms dx(2) by (simp add: length_b64 r_def k_def)
  have b: "b64 data = b64 d @ b64 x" using b64_append [of d x] dx(1,3) by simp
  have lb: "length (b64 d) = 4 * k" by (simp add: length_b64 dx(3))
  have lr: "length r = 4 * k + length (b64 x)" using b lb length_b64 [of data] by (simp add: r_def)
  have put: "vec_poke (patch 0 (b64 d) r) (4 * k) (b64 x) = Inr (b64 d @ b64 x)"
  proof -
    have "patch 0 (b64 d) r = b64 d @ drop (4 * k) r" using lb by (simp add: patch_def)
    then show ?thesis using lb lr by (simp add: vec_poke_def patch_def)
  qed
  have at: "str_at data (3 * k + j) = Inr (x ! j)" if "j < length x" for j
    using that dx(1,3) by (simp add: str_at_def nth_append)
  have n: "length data = 3 * k + length x" using dx(1,3) by simp
  note enc = base64_encode_def [of data, unfolded Let_def, folded r_def, unfolded loop rbind_simps prod.case]
  consider "x = []" | a where "x = [a]" | a c where "x = [a, c]"
    using dx(4) by (cases x; cases "tl x"; cases "tl (tl x)") auto
  then show ?thesis
  proof cases
    case 1
    then have "patch 0 (b64 d) r = b64 d" using lr lb by (simp add: patch_def)
    then show ?thesis using b 1 n unfolding enc by simp
  next
    case (2 a)
    then show ?thesis using b put at [of 0] n assms
      unfolding enc by (simp add: u64_sub_id)
  next
    case (3 a c)
    then show ?thesis using b put at [of 0] at [of 1] n assms
      unfolding enc by (simp add: u64_sub_id)
  qed
qed

text \<open>The subtraction wraps around for less than two bytes: the loop then runs and leaves the string.\<close>

lemma base64_encode_short:
  assumes "length data < 2"
  shows "base64_encode data = Inl MemFault"
proof -
  consider "data = []" | a where "data = [a]" using assms by (cases data) auto
  then have "b64_loop data 0 0 (replicate (4 * ((length data + 2) div 3)) 0) = Inl MemFault"
  proof cases
    case 1
    then show ?thesis by (subst b64_loop.simps) (simp add: u64_sub_def u64_def str_at_def)
  next
    case (2 a)
    then show ?thesis by (subst b64_loop.simps) (simp add: u64_sub_def u64_def str_at_def)
  qed
  then show ?thesis by (simp add: base64_encode_def)
qed

section \<open>Decoding inverts encoding\<close>

lemma take_bit_and:
  "(a :: byte) AND 0x3F = take_bit 6 a" "(a :: byte) AND 0xF = take_bit 4 a" "(a :: byte) AND 0x3 = take_bit 2 a"
  "(w :: 32 word) AND 0xFF = take_bit 8 w"
  by (simp_all add: take_bit_eq_mask mask_eq_exp_minus_1)

lemma unat_shifts:
  "unat (drop_bit n w) = unat w div 2 ^ n" "unat (take_bit n w) = unat w mod 2 ^ n" for w :: "'a::len word"
  by (rule trans [OF unat_drop_bit_eq drop_bit_eq_div], rule trans [OF unsigned_take_bit_eq take_bit_eq_mod])

lemma byte_less: "unat (b :: byte) < 256"
  using unsigned_less [of b] by simp

lemma high_and:
  "drop_bit 4 ((b :: byte) AND 0xF0) = drop_bit 4 b" "drop_bit 6 ((b :: byte) AND 0xC0) = drop_bit 6 b"
proof -
  have "drop_bit 4 (b AND 0xF0) = take_bit 4 (drop_bit 4 b)" "drop_bit 6 (b AND 0xC0) = take_bit 2 (drop_bit 6 b)"
    by (simp_all add: drop_bit_and take_bit_and(2,3) [symmetric])
  moreover have "take_bit 4 (drop_bit 4 b) = drop_bit 4 b" "take_bit 2 (drop_bit 6 b) = drop_bit 6 b"
    using byte_less [of b] by (simp_all only: word_unat_eq_iff unat_shifts) simp_all
  ultimately show "drop_bit 4 (b AND 0xF0) = drop_bit 4 b" "drop_bit 6 (b AND 0xC0) = drop_bit 6 b" by simp_all
qed

lemma unat_join:
  assumes "unat (u :: byte) < 2 ^ n" and "unat v * 2 ^ n < 256"
  shows "unat (push_bit n v OR u) = unat v * 2 ^ n + unat u"
proof -
  have "unat (push_bit n v OR u) = push_bit n (unat v) OR unat u"
    unfolding unsigned_or_eq unsigned_push_bit_eq using assms(2) by (simp add: push_bit_eq_mult take_bit_eq_mod)
  also have "\<dots> = push_bit n (unat v) + unat u"
  proof (rule disjunctive_add [symmetric])
    fix i
    have "\<not> bit (unat u) i" if "n \<le> i"
      using assms(1) that by (metis bit_take_bit_iff linorder_not_le take_bit_nat_eq_self)
    then show "\<not> bit (push_bit n (unat v)) i \<or> \<not> bit (unat u) i" by (auto simp: bit_simps)
  qed
  finally show ?thesis by (simp add: push_bit_eq_mult)
qed

lemma b64_indices:
  fixes a b c :: byte
  shows "unat (drop_bit 2 a AND 0x3F) = unat a div 4"
    and "unat (push_bit 4 (a AND 0x3) OR drop_bit 4 (b AND 0xF0)) = unat a mod 4 * 16 + unat b div 16"
    and "unat (push_bit 2 (b AND 0xF) OR drop_bit 6 (c AND 0xC0)) = unat b mod 16 * 4 + unat c div 64"
    and "unat (c AND 0x3F) = unat c mod 64"
proof -
  note less = byte_less [of a] byte_less [of b] byte_less [of c]
  show "unat (drop_bit 2 a AND 0x3F) = unat a div 4"
    using less(1) by (simp only: take_bit_and unat_shifts) simp
  show "unat (push_bit 4 (a AND 0x3) OR drop_bit 4 (b AND 0xF0)) = unat a mod 4 * 16 + unat b div 16"
    using unat_join [of "drop_bit 4 b" 4 "take_bit 2 a"] less unfolding high_and take_bit_and unat_shifts by simp
  show "unat (push_bit 2 (b AND 0xF) OR drop_bit 6 (c AND 0xC0)) = unat b mod 16 * 4 + unat c div 64"
    using unat_join [of "drop_bit 6 c" 2 "take_bit 4 b"] less unfolding high_and take_bit_and unat_shifts by simp
  show "unat (c AND 0x3F) = unat c mod 64" by (simp only: take_bit_and unat_shifts) simp
qed

lemma decode_digit:
  assumes "i < 64"
  shows "b64_digit (s_encoding_table ! i) = Inr i" and "s_encoding_table ! i \<noteq> b64_pad"
proof -
  have "list_all (\<lambda>i. s_encoding_table ! i \<noteq> b64_pad \<and> unat (s_encoding_table ! i) < 128 \<and> k_decoding_table ! unat (s_encoding_table ! i) = i) [0..<64]"
    by code_simp
  moreover have "i \<in> set [0..<64]" using assms by simp
  ultimately have "s_encoding_table ! i \<noteq> b64_pad \<and> unat (s_encoding_table ! i) < 128 \<and> k_decoding_table ! unat (s_encoding_table ! i) = i"
    unfolding list_all_iff by (rule bspec)
  then show "b64_digit (s_encoding_table ! i) = Inr i" "s_encoding_table ! i \<noteq> b64_pad" by (simp_all add: b64_digit_def)
qed

lemma index_bounds:
  "unat (a :: byte) div 4 < 64" "unat a mod 4 * 16 + unat (b :: byte) div 16 < 64" "unat b mod 16 * 4 + unat (c :: byte) div 64 < 64"
  "unat c mod 64 < 64"
proof -
  have "unat b div 16 < 16" "unat c div 64 < 4" using byte_less [of b] byte_less [of c] by simp_all
  then show "unat a mod 4 * 16 + unat b div 16 < 64" "unat b mod 16 * 4 + unat c div 64 < 64"
    using mod_less_divisor [of 4 "unat a"] mod_less_divisor [of 16 "unat b"] by linarith+
qed (use byte_less [of a] in simp_all)

lemma decode_digits:
  shows "b64_digit (b64_first a) = Inr (unat a div 4)" and "b64_digit (b64_second a b) = Inr (unat a mod 4 * 16 + unat b div 16)"
    and "b64_digit (b64_third b c) = Inr (unat b mod 16 * 4 + unat c div 64)" and "b64_digit (b64_fourth c) = Inr (unat c mod 64)"
    and "b64_digit b64_pad = Inr 0"
    and "b64_first a \<noteq> b64_pad" and "b64_second a b \<noteq> b64_pad" and "b64_third b c \<noteq> b64_pad" and "b64_fourth c \<noteq> b64_pad"
  unfolding b64_first_def b64_indices(1) b64_second_def b64_indices(2) b64_third_def b64_indices(3) b64_fourth_def
  subgoal by (rule decode_digit(1) [OF index_bounds(1)])
  subgoal by (rule decode_digit(1) [OF index_bounds(2)])
  subgoal by (rule decode_digit(1) [OF index_bounds(3)])
  subgoal unfolding b64_indices(4) by (rule decode_digit(1) [OF index_bounds(4)])
  subgoal by (simp add: b64_digit_def)
  subgoal by (rule decode_digit(2) [OF index_bounds(1)])
  subgoal by (rule decode_digit(2) [OF index_bounds(2)])
  subgoal by (rule decode_digit(2) [OF index_bounds(3)])
  subgoal unfolding b64_indices(4) by (rule decode_digit(2) [OF index_bounds(4)])
  done

lemma decode_triple:
  assumes t: "t = b64_triple (unat a div 4) (unat a mod 4 * 16 + unat b div 16) (unat b mod 16 * 4 + unat c div 64) (unat c mod 64)"
  shows "(ucast (drop_bit 16 t AND 0xFF) :: byte) = a" and "(ucast (drop_bit 8 t AND 0xFF) :: byte) = b" and "(ucast (t AND 0xFF) :: byte) = c"
proof -
  have "t = of_nat (unat a * 65536 + unat b * 256 + unat c)"
  proof -
    have "x div 4 * 2 ^ 18 + (x mod 4 * 16 + y div 16) * 2 ^ 12 + (y mod 16 * 4 + z div 64) * 2 ^ 6 + z mod 64 = x * 65536 + y * 256 + z"
      for x y z :: nat by simp (use div_mult_mod_eq [of x 4] div_mult_mod_eq [of y 16] in linarith)
    moreover have "b64_triple i j k l = of_nat (i * 2 ^ 18 + j * 2 ^ 12 + k * 2 ^ 6 + l)" for i j k l
      by (simp add: b64_triple_def push_bit_eq_mult)
    ultimately show ?thesis unfolding t by (simp only:)
  qed
  then have "unat t = take_bit 32 (unat a * 65536 + unat b * 256 + unat c)" by (simp only: unsigned_of_nat) simp
  then have u: "unat t = unat a * 65536 + unat b * 256 + unat c"
    using byte_less [of a] byte_less [of b] byte_less [of c] by (simp add: take_bit_eq_mod)
  have c: "unat (ucast (w AND 0xFF) :: byte) = unat w mod 256" for w :: "32 word"
    unfolding take_bit_and unsigned_ucast_eq unat_shifts by (simp add: take_bit_eq_mod)
  have d: "(x * 65536 + y * 256 + z) div 65536 mod 256 = x" "(x * 65536 + y * 256 + z) div 256 mod 256 = y"
    "(x * 65536 + y * 256 + z) mod 256 = z" if "x < 256" "y < 256" "z < 256" for x y z :: nat
  proof -
    have e: "x * 65536 + y * 256 + z = (x * 256 + y) * 256 + z" by simp
    have d: "((x * 256 + y) * 256 + z) div 256 = x * 256 + y" using that by simp
    show "(x * 65536 + y * 256 + z) div 65536 mod 256 = x" using that by simp
    show "(x * 65536 + y * 256 + z) div 256 mod 256 = y" unfolding e d using that by simp
    show "(x * 65536 + y * 256 + z) mod 256 = z" unfolding e using that by (simp only: mod_mult_self3 mod_less)
  qed
  show "(ucast (drop_bit 16 t AND 0xFF) :: byte) = a" "(ucast (drop_bit 8 t AND 0xFF) :: byte) = b" "(ucast (t AND 0xFF) :: byte) = c"
    using d [OF byte_less [of a] byte_less [of b] byte_less [of c]] unfolding word_unat_eq_iff c unat_shifts u by simp_all
qed

definition b64_pads :: "byte list \<Rightarrow> nat" where
  "b64_pads cs = (if cs ! (length cs - 1) = b64_pad then 1 else 0) + (if cs ! (length cs - 2) = b64_pad then 1 else 0)"

lemma b64_pads_append:
  assumes "2 \<le> length cs"
  shows "b64_pads (w @ cs) = b64_pads cs"
proof -
  have "(w @ cs) ! (length (w @ cs) - k) = cs ! (length cs - k)" if "0 < k" "k \<le> length cs" for k
  proof -
    have "length (w @ cs) - k = length w + (length cs - k)" using that by simp
    then show ?thesis by (simp only: nth_append_length_plus)
  qed
  then show ?thesis using assms unfolding b64_pads_def by simp
qed

lemma b64_out_len: "xs \<noteq> [] \<Longrightarrow> length (b64 xs) div 4 * 3 = length xs + b64_pads (b64 xs)"
proof (induction xs rule: b64.induct)
  case (1 a b c xs)
  show ?case
  proof (cases "xs = []")
    case True
    then show ?thesis by (simp add: b64_pads_def decode_digits(8,9))
  next
    case False
    then have "2 \<le> length (b64 xs)" by (cases xs rule: b64.cases) auto
    then have "b64_pads (b64 (a # b # c # xs)) = b64_pads (b64 xs)" using b64_pads_append by (simp only: b64.simps)
    moreover have "length (b64 (a # b # c # xs)) = 4 + length (b64 xs)" by simp
    ultimately show ?thesis using 1 False by simp
  qed
qed (simp_all add: b64_pads_def decode_digits)

definition sink_keeps :: "('s \<Rightarrow> bool) \<Rightarrow> ('s \<Rightarrow> byte list) \<Rightarrow> nat \<Rightarrow> byte list \<Rightarrow> 's \<Rightarrow> bool" where
  \<comment> \<open>a buffer of \<open>k\<close> bytes that start with \<open>pre\<close>\<close>
  "sink_keeps ok conts k pre s \<longleftrightarrow> ok s \<and> length (conts s) = k \<and> take (length pre) (conts s) = pre"

context byte_sink
begin

lemma b64_put_spec:
  assumes "sink_keeps wf bytes k pre s" and "length pre < n" and "n \<le> k"
  obtains s' where "b64_put pk n b (length pre, s) = Inr (length (pre @ [b]), s')" and "sink_keeps wf bytes k (pre @ [b]) s'"
proof -
  obtain s' where s': "pk s (length pre) [b] = Inr s'" "wf s'" "bytes s' = patch (length pre) [b] (bytes s)"
    using pk_inside [of s "[b]" "length pre"] assms by (auto simp: sink_keeps_def)
  moreover have "sink_keeps wf bytes k (pre @ [b]) s'" using s' assms by (auto simp: sink_keeps_def patch_def)
  ultimately show thesis using that assms(2) by (simp add: b64_put_def)
qed

lemma b64_put_full: "n \<le> j \<Longrightarrow> b64_put pk n b (j, s) = Inr (j, s)"
  by (simp add: b64_put_def)

lemma b64_decode_loop_spec:
  assumes "sink_keeps wf bytes k pre s" and "n = length pre + length xs" and "n \<le> k"
  shows "\<exists>s'. b64_decode_loop pk n (b64 xs) (length pre, s) = Inr (n, s') \<and> sink_keeps wf bytes k (pre @ xs) s'"
  using assms
proof (induction xs arbitrary: pre s rule: b64.induct)
  case (1 a b c xs)
  have l: "length pre < n" "length (pre @ [a]) < n" "length (pre @ [a, b]) < n" using 1(3) by simp_all
  obtain s1 where 2: "b64_put pk n a (length pre, s) = Inr (length (pre @ [a]), s1)" "sink_keeps wf bytes k (pre @ [a]) s1"
    by (rule b64_put_spec [OF 1(2) l(1) 1(4)])
  obtain s2 where 3: "b64_put pk n b (length (pre @ [a]), s1) = Inr (length (pre @ [a, b]), s2)" "sink_keeps wf bytes k (pre @ [a, b]) s2"
    using b64_put_spec [OF 2(2) l(2) 1(4)] by auto
  obtain s3 where 4: "b64_put pk n c (length (pre @ [a, b]), s2) = Inr (length (pre @ [a, b, c]), s3)" "sink_keeps wf bytes k (pre @ [a, b, c]) s3"
    using b64_put_spec [OF 3(2) l(3) 1(4)] by auto
  have "\<exists>s'. b64_decode_loop pk n (b64 xs) (length (pre @ [a, b, c]), s3) = Inr (n, s') \<and> sink_keeps wf bytes k ((pre @ [a, b, c]) @ xs) s'"
    by (rule 1(1) [OF 4(2)]) (use 1(3,4) in simp_all)
  then show ?case
    using 2(1) 3(1) 4(1) by (simp add: decode_digits decode_triple [OF refl] del: length_append)
next
  case (2 a b)
  have l: "length pre < n" "length (pre @ [a]) < n" "n = length (pre @ [a, b])" using 2(2) by simp_all
  obtain s1 where 3: "b64_put pk n a (length pre, s) = Inr (length (pre @ [a]), s1)" "sink_keeps wf bytes k (pre @ [a]) s1"
    by (rule b64_put_spec [OF 2(1) l(1) 2(3)])
  obtain s2 where 4: "b64_put pk n b (length (pre @ [a]), s1) = Inr (length (pre @ [a, b]), s2)" "sink_keeps wf bytes k (pre @ [a, b]) s2"
    using b64_put_spec [OF 3(2) l(2) 2(3)] by auto
  show ?case
    using 3(1) 4 l(3) b64_put_full [of n n] decode_triple [of _ a b 0] by (simp add: decode_digits del: length_append)
next
  case (3 a)
  have l: "length pre < n" "n = length (pre @ [a])" using 3(2) by simp_all
  obtain s1 where 4: "b64_put pk n a (length pre, s) = Inr (length (pre @ [a]), s1)" "sink_keeps wf bytes k (pre @ [a]) s1"
    by (rule b64_put_spec [OF 3(1) l(1) 3(3)])
  show ?case
    using 4 l(2) b64_put_full [of n n] decode_triple [of _ a 0 0] by (simp add: decode_digits del: length_append)
qed simp

lemma base64_decode_b64:
  assumes "wf s" and "xs \<noteq> []" and "length (b64 xs) < 2 ^ 64"
  shows "\<exists>s'. base64_decode rsz pk (b64 xs) s 0 = Inr (length (b64 xs) div 4 * 3, s') \<and>
    sink_keeps wf bytes (length (b64 xs) div 4 * 3) xs s'"
proof -
  let ?n = "length (b64 xs) div 4 * 3"
  have n: "?n = length xs + b64_pads (b64 xs)" by (rule b64_out_len [OF assms(2)])
  have "?n < 2 ^ 64" using assms(3) by simp
  then have u: "u64 (0 + ?n) = ?n" by (simp add: u64_id)
  have "sink_keeps wf bytes ?n [] (rsz s ?n)" using rsz_wf [OF assms(1)] rsz_length [OF assms(1)] by (simp add: sink_keeps_def)
  then obtain s' where s': "b64_decode_loop pk (length xs) (b64 xs) (0, rsz s ?n) = Inr (length xs, s')" "sink_keeps wf bytes ?n xs s'"
    using b64_decode_loop_spec [of ?n "[]" "rsz s ?n" "length xs" xs] n by auto
  have "?n - (if b64 xs ! (length (b64 xs) - 1) = b64_pad then 1 else 0) -
      (if b64 xs ! (length (b64 xs) - 2) = b64_pad then 1 else 0) = length xs"
    unfolding n b64_pads_def by simp
  moreover have "length (b64 xs) mod 4 = 0" "length (b64 xs) \<noteq> 0"
    using assms(2) by (simp add: length_b64, cases xs rule: b64.cases, simp_all)
  ultimately show ?thesis using s' u by (simp only: base64_decode_def Let_def if_False simp_thms rbind_simps prod.case not_not) simp
qed

end

section \<open>Strings of the protocol\<close>

text \<open>
  C35: decoding inverts encoding for every string of at least two bytes: the buffer starts with the string and
  is filled up to a multiple of three bytes.
\<close>

theorem base64_round_trip:
  assumes "2 \<le> length data" and "length data < 2 ^ 62" and "ba_wf b"
  shows "\<exists>cs b'. base64_encode data = Inr cs \<and> length cs = 4 * ((length data + 2) div 3) \<and>
    base64_decode ba_resize ba_poke cs b 0 = Inr (3 * ((length data + 2) div 3), b') \<and>
    ba_len b' = 3 * ((length data + 2) div 3) \<and> take (length data) (ba_bytes b') = data"
proof -
  have l: "length (b64 data) < 2 ^ 64" "data \<noteq> []" using assms(1,2) by (auto simp: length_b64)
  obtain b' where b': "base64_decode ba_resize ba_poke (b64 data) b 0 = Inr (length (b64 data) div 4 * 3, b')"
    "sink_keeps ba_wf ba_bytes (length (b64 data) div 4 * 3) data b'"
    using bak.base64_decode_b64 [OF assms(3) l(2,1)] by auto
  moreover have "base64_encode data = Inr (b64 data)" using assms by (intro base64_encode_spec) simp_all
  moreover have "length (b64 data) div 4 * 3 = 3 * ((length data + 2) div 3)" by (simp add: length_b64)
  ultimately show ?thesis by (auto simp: sink_keeps_def length_b64)
qed

theorem base64_round_trip_witness:
  "\<exists>b'. base64_encode [77, 97] = Inr [84, 87, 69, 61] \<and> base64_decode ba_resize ba_poke [84, 87, 69, 61] ba_new 0 = Inr (3, b') \<and>
    take 2 (ba_bytes b') = [77, 97]"
proof -
  have "b64 [77, 97] = [84, 87, 69, 61]" by code_simp
  then have e: "base64_encode [77, 97] = Inr [84, 87, 69, 61]" by (simp add: base64_encode_spec)
  moreover have "length [77, 97 :: byte] = 2" by simp
  ultimately show ?thesis using base64_round_trip [of "[77, 97]" ba_new] by (simp only:) auto
qed

text \<open>
  The encoder needs two bytes: for a shorter string the bound of its loop wraps around, and the first
  iteration reads or writes outside the strings.
\<close>

theorem base64_encode_faults_on_short:
  assumes "length data < 2"
  shows "base64_encode data = Inl MemFault"
  using assms by (rule base64_encode_short)

theorem base64_encode_faults_on_short_witness: "base64_encode [77] = Inl MemFault"
  using base64_encode_faults_on_short [of "[77]"] by simp

end
