(* ===== verification/OntConsensus.thy ===== *)
theory OntConsensus
  imports OntDecompression Base64
begin

text \<open>
  Ontology consensus messages, which carry a block as Base64 inside JSON:
  \<^verbatim>\<open>src/lib/libutils/utils/protocols/ontology/consensus\<close> and the tasks
  \<^verbatim>\<open>ont_consensus_block_*_task.cpp\<close> of \<^verbatim>\<open>src/lib/libtpe/tpe/task\<close>.

  The JSON library is a parameter: \<open>jdec\<close> parses a string and reads the members \<^verbatim>\<open>type\<close>, \<^verbatim>\<open>len\<close> and \<^verbatim>\<open>payload\<close>
  (\<^verbatim>\<open>OntConsensusJsonPayload\<close>), \<open>jenc\<close> prints an object with these members.
\<close>

type_synonym json_dec = "byte list \<Rightarrow> (nat \<times> nat \<times> byte list) res"
type_synonym json_enc = "nat \<Rightarrow> nat \<Rightarrow> byte list \<Rightarrow> byte list"

section \<open>OntConsensusMessage\<close>

record ont_cons_msg =
  oc_type :: nat
  oc_len :: nat
  oc_block :: byte_array
  oc_header_offset :: nat
  oc_prev :: sha256
  oc_hash :: sha256
  oc_txn_count :: nat
  oc_tx_offset :: nat
  oc_owner :: buffer_view
  oc_tail :: buffer_view

definition oc_block_view :: "byte_array \<Rightarrow> buffer_view" where
  \<comment> \<open>a view of the bytes below the length of the array\<close>
  "oc_block_view b = bv_of_ptr (ba_arr b) (ba_len b) 0"

definition ont_cons_block_front ::
  "(byte list \<Rightarrow> byte list) \<Rightarrow> byte_array \<Rightarrow> nat \<Rightarrow> (sha256 \<times> sha256 \<times> nat \<times> nat) res" where
  \<comment> \<open>from the start of the block: the hash of the previous block, the block hash, the number of transactions and where they start\<close>
  "ont_cons_block_front H block start =
     (let rd = ba_read block; offset = u64 (start + ONT_TX_VERSION_SIZE)
      in rbind (sha_read (oc_block_view block) offset) (\<lambda>prev.
         let offset = u64 (offset + (SHA256_BINARY_SIZE * 3 + ONT_BLOCK_TIME_HEIGHT_CONS_DATA_LEN))
         in rbind (get_varint rd offset) (\<lambda>(consensus_payload_len, offset).
            let offset = u64 (offset + (consensus_payload_len + ONT_BLOCK_NEXT_BOOKKEEPER_LEN))
            in rbind (double_sha256 H (oc_block_view block) start (u64_sub offset start)) (\<lambda>block_hash.
               rbind (get_varint rd offset) (\<lambda>(bookkeepers_len, offset).
               rbind (ont_skip_bookkeepers rd bookkeepers_len offset) (\<lambda>offset.
               rbind (get_varint rd offset) (\<lambda>(sig_data_len, offset).
               rbind (ont_skip_vars rd sig_data_len offset) (\<lambda>offset.
               rbind (get_le rd 4 offset) (\<lambda>(txn_count, offset).
                 Inr (sha_reverse prev, block_hash, txn_count, offset))))))))))"

definition ont_cons_parse :: "(byte list \<Rightarrow> byte list) \<Rightarrow> json_dec \<Rightarrow> buffer_view \<Rightarrow> ont_cons_msg res" where
  "ont_cons_parse H jdec v =
     (let header_offset = ONT_HDR_COMMON_OFF + 3 * 4 + SHA256_BINARY_SIZE + 2
      in if bv_size v < header_offset then Inl OverflowError
         else rbind (get_varint (bv_read v) header_offset) (\<lambda>(ont_payload_len, header_offset).
           let owner_and_signature_offset = u64 (header_offset + ont_payload_len)
           in if bv_size v < owner_and_signature_offset then Inl OverflowError
              else rbind (bv_at_read v header_offset ont_payload_len) (\<lambda>consensus_data_str.
                   rbind (jdec consensus_data_str) (\<lambda>(typ, len, payload).
                   rbind (base64_decode ba_resize ba_poke payload ba_new 0) (\<lambda>(_, block).
                   rbind (get_varint (ba_read block) 0) (\<lambda>(block_msg_len, block_start_offset).
                   rbind (ont_cons_block_front H block block_start_offset) (\<lambda>(prev, block_hash, txn_count, tx_offset).
                   let payload_tail_offset = u64 (block_start_offset + block_msg_len); data_len = u32 len
                   in Inr \<lparr>oc_type = typ, oc_len = data_len, oc_block = block, oc_header_offset = header_offset, oc_prev = prev,
                           oc_hash = block_hash, oc_txn_count = txn_count, oc_tx_offset = tx_offset,
                           oc_owner = bv_sub v (u64_sub (bv_size v) owner_and_signature_offset) owner_and_signature_offset,
                           oc_tail = bv_of_ptr (ba_arr block) (u64_sub data_len payload_tail_offset) payload_tail_offset\<rparr>)))))))"

definition ont_cons_get_next_tx_offset :: "ont_cons_msg \<Rightarrow> nat \<Rightarrow> nat res" where
  "ont_cons_get_next_tx_offset m offset =
     rbind (ont_get_tx_type (ba_read (oc_block m)) offset) (\<lambda>(_, offset).
     rbind (get_varint (ba_read (oc_block m)) offset) (\<lambda>(sig_length, offset). ont_skip_sigs (ba_read (oc_block m)) sig_length offset))"

section \<open>BxOntConsensusMessage\<close>

record bx_ont_cons =
  bxc_view :: buffer_view
  bxc_sids_offset :: nat
  bxc_hash :: sha256
  bxc_tx_count :: nat
  bxc_tail :: buffer_view
  bxc_owner :: buffer_view
  bxc_payload_header :: buffer_view
  bxc_type :: nat
  bxc_len :: nat
  bxc_header :: buffer_view
  bxc_tx_offset :: nat

definition bx_cons_part :: "buffer_view \<Rightarrow> nat \<Rightarrow> (buffer_view \<times> nat) res" where
  \<comment> \<open>a 32-bit length and a view of that many bytes; the view is not checked\<close>
  "bx_cons_part v offset = rbind (get_le (bv_read v) 4 offset) (\<lambda>(len, offset). Inr (bv_sub v len offset, u64 (offset + len)))"

definition bx_cons_parse :: "buffer_view \<Rightarrow> bx_ont_cons res" where
  "bx_cons_parse v =
     rbind (get_le (bv_read v) 8 0) (\<lambda>(short_ids_offset, offset).
     let offset = u64 (offset + 1)
     in rbind (sha_read v offset) (\<lambda>block_hash.
        rbind (get_le (bv_read v) 4 (u64 (offset + SHA256_BINARY_SIZE))) (\<lambda>(tx_count, offset).
        rbind (bx_cons_part v offset) (\<lambda>(tail, offset).
        rbind (bx_cons_part v offset) (\<lambda>(owner, offset).
        rbind (bx_cons_part v offset) (\<lambda>(payload_header, offset).
        rbind (get_le (bv_read v) 1 offset) (\<lambda>(typ, offset).
        rbind (get_le (bv_read v) 4 offset) (\<lambda>(len, offset).
        rbind (bx_cons_part v offset) (\<lambda>(header, offset).
          Inr \<lparr>bxc_view = v, bxc_sids_offset = short_ids_offset, bxc_hash = block_hash, bxc_tx_count = tx_count, bxc_tail = tail,
               bxc_owner = owner, bxc_payload_header = payload_header, bxc_type = typ, bxc_len = len, bxc_header = header,
               bxc_tx_offset = offset\<rparr>)))))))))"

definition bx_cons_get_next_tx_offset :: "bx_ont_cons \<Rightarrow> nat \<Rightarrow> (nat \<times> bool) res" where
  "bx_cons_get_next_tx_offset m offset =
     rbind (bv_index (bxc_view m) offset) (\<lambda>b.
       if b = BTC_SHORT_ID_INDICATOR then Inr (u64 (offset + 1), True)
       else rbind (ont_get_tx_type (bv_read (bxc_view m)) offset) (\<lambda>(_, offset).
            rbind (get_varint (bv_read (bxc_view m)) offset) (\<lambda>(sig_length, offset).
            rbind (ont_skip_sigs (bv_read (bxc_view m)) sig_length offset) (\<lambda>offset. Inr (offset, False)))))"

definition bx_cons_get_original_block_size :: "bx_ont_cons \<Rightarrow> nat" where
  "bx_cons_get_original_block_size m = u32 (bv_size (bxc_header m) + bxc_len m + bv_size (bxc_owner m))"

definition bx_cons_deserialize_short_ids :: "bx_ont_cons \<Rightarrow> nat list res" where
  "bx_cons_deserialize_short_ids m =
     rbind (get_le (bv_read (bxc_view m)) 4 (bxc_sids_offset m)) (\<lambda>(short_ids_count, offset).
       if bv_size (bxc_view m) < u64 (offset + 4 * short_ids_count) then Inl RuntimeError
       else read_short_ids (bv_read (bxc_view m)) short_ids_count offset)"

section \<open>OntConsensusBlockCompressionTask\<close>

record ont_cons_cmp =
  ok_out :: byte_array
  ok_sids :: "sid list"
  ok_ignored :: "sid list"
  ok_hash :: "sha256 option"
  ok_prev_hash :: "sha256 option"
  ok_compressed_hash :: "sha256 option"
  ok_txn_count :: nat

definition ont_cons_cmp_new :: "nat \<Rightarrow> ont_cons_cmp" where
  "ont_cons_cmp_new capacity =
     \<lparr>ok_out = ba_with_capacity capacity, ok_sids = [], ok_ignored = [], ok_hash = None, ok_prev_hash = None,
      ok_compressed_hash = None, ok_txn_count = 0\<rparr>"

definition ont_cons_cmp_init :: "bool \<Rightarrow> ont_cons_cmp \<Rightarrow> buffer_view \<Rightarrow> ont_cons_cmp res" where
  \<comment> \<open>the ignored short ids stay. \<open>shared\<close>: somebody else still holds the output buffer of the last block\<close>
  "ont_cons_cmp_init shared c v =
     rbind (if shared then Inr (ba_with_capacity (bv_size v)) else ba_reset (ba_reserve (ok_out c) (bv_size v))) (\<lambda>out.
       Inr (c\<lparr>ok_out := out, ok_sids := [], ok_hash := None, ok_prev_hash := None, ok_compressed_hash := None, ok_txn_count := 0\<rparr>))"

definition ont_cons_front :: "ont_cons_msg \<Rightarrow> buffer_view \<Rightarrow> byte_array \<Rightarrow> (nat \<times> byte_array) res" where
  \<comment> \<open>all parts of the message in front of the transactions\<close>
  "ont_cons_front m v out =
     (let out = ba_resize out 8
      in rbind (ba_set_le 1 out 1 8) (\<lambda>(out, offset).
         rbind (ba_copy_from_buffer out (bv_msg (sha_binary (oc_hash m))) offset 0 SHA256_BINARY_SIZE) (\<lambda>(out, offset).
         rbind (ba_set_le 4 out (oc_txn_count m) offset) (\<lambda>(out, offset).
         rbind (ba_set_le 4 out (bv_size (oc_tail m)) offset) (\<lambda>(out, offset).
         rbind (ba_copy_from_buffer out (oc_tail m) offset 0 (bv_size (oc_tail m))) (\<lambda>(out, offset).
         rbind (ba_set_le 4 out (bv_size (oc_owner m)) offset) (\<lambda>(out, offset).
         rbind (ba_copy_from_buffer out (oc_owner m) offset 0 (bv_size (oc_owner m))) (\<lambda>(out, offset).
         rbind (ba_set_le 4 out (oc_header_offset m) offset) (\<lambda>(out, offset).
         rbind (ba_copy_from_buffer out v offset 0 (oc_header_offset m)) (\<lambda>(out, offset).
         rbind (ba_set_le 1 out (oc_type m) offset) (\<lambda>(out, offset).
         rbind (ba_set_le 4 out (oc_len m) offset) (\<lambda>(out, offset).
         rbind (ba_set_le 4 out (oc_tx_offset m) offset) (\<lambda>(out, offset).
         rbind (ba_copy_from_buffer out (oc_block_view (oc_block m)) offset 0 (oc_tx_offset m)) (\<lambda>(out, offset).
           Inr (offset, out)))))))))))))))"

definition ont_cons_put ::
  "tx_service \<Rightarrow> buffer_view \<Rightarrow> bool \<Rightarrow> real \<Rightarrow> hash \<Rightarrow> nat \<Rightarrow> nat \<Rightarrow> nat \<Rightarrow> ont_cons_cmp \<Rightarrow> (nat \<times> ont_cons_cmp) res" where
  \<comment> \<open>what the loop does with the transaction between \<open>from\<close> and \<open>tx_offset\<close> once its hash is known\<close>
  "ont_cons_put s v enable max_timestamp h from tx_offset output_offset c =
     rbind (if has_short_id_hash s h then rbind (get_short_id s h) (get_short_id_assign_time s) else Inr 0) (\<lambda>assign_time.
       if \<not> has_short_id_hash s h \<or> \<not> enable \<or> max_timestamp < assign_time then
         rbind (if has_short_id_hash s h
                then rbind (get_short_id s h) (\<lambda>i. Inr (c\<lparr>ok_ignored := ok_ignored c @ [i]\<rparr>))
                else Inr c) (\<lambda>c.
         rbind (ba_copy_from_buffer (ok_out c) v output_offset from (u64_sub tx_offset from)) (\<lambda>(out, output_offset).
           Inr (output_offset, c\<lparr>ok_out := out\<rparr>)))
       else
         rbind (get_short_id s h) (\<lambda>i.
         rbind (ba_set_le 1 (ok_out c) (unat BTC_SHORT_ID_INDICATOR) output_offset) (\<lambda>(out, output_offset).
           Inr (output_offset, c\<lparr>ok_sids := ok_sids c @ [i], ok_out := out\<rparr>))))"

fun ont_cons_cmp_txs ::
  "(byte list \<Rightarrow> byte list) \<Rightarrow> tx_service \<Rightarrow> ont_cons_msg \<Rightarrow> bool \<Rightarrow> real \<Rightarrow> nat \<Rightarrow> nat \<Rightarrow> nat \<Rightarrow> ont_cons_cmp \<Rightarrow>
   (nat \<times> ont_cons_cmp) res" where
  "ont_cons_cmp_txs H s m enable max_timestamp 0 from output_offset c = Inr (output_offset, c)"
| "ont_cons_cmp_txs H s m enable max_timestamp (Suc n) from output_offset c =
     rbind (ont_cons_get_next_tx_offset m from) (\<lambda>tx_offset.
     rbind (ont_get_tx_id H (oc_block_view (oc_block m)) from) (\<lambda>tx_hash.
     rbind (ont_cons_put s (oc_block_view (oc_block m)) enable max_timestamp (sha_binary tx_hash) from tx_offset output_offset c)
       (\<lambda>(output_offset, c). ont_cons_cmp_txs H s m enable max_timestamp n tx_offset output_offset c)))"

definition ont_cons_set_output_buffer :: "byte_array \<Rightarrow> sid list \<Rightarrow> nat \<Rightarrow> byte_array res" where
  "ont_cons_set_output_buffer out sids output_offset =
     (let short_ids_size = u32 (length sids)
      in rbind (ba_set_le 8 out output_offset 0) (\<lambda>(out, _).
         rbind (ba_set_le 4 out short_ids_size output_offset) (\<lambda>(out, output_offset).
         if 0 < short_ids_size then
           let n = short_ids_size * 4; out = ba_resize out (u64 (output_offset + n))
           in ba_poke out output_offset (take n (concat (map (le_bytes 4) sids)))
         else Inr out)))"

definition ont_cons_cmp_execute ::
  "(byte list \<Rightarrow> byte list) \<Rightarrow> json_dec \<Rightarrow> tx_service \<Rightarrow> bool \<Rightarrow> real \<Rightarrow> real \<Rightarrow> ont_cons_cmp \<Rightarrow> buffer_view \<Rightarrow> ont_cons_cmp res" where
  "ont_cons_cmp_execute H jdec s enable now min_age c v =
     rbind (ont_cons_parse H jdec v) (\<lambda>m.
     rbind (ont_cons_front m v (ok_out c)) (\<lambda>(output_offset, out).
     let c = c\<lparr>ok_out := out, ok_hash := Some (oc_hash m), ok_prev_hash := Some (oc_prev m), ok_txn_count := oc_txn_count m\<rparr>
     in rbind (ont_cons_cmp_txs H s m enable (now - min_age) (oc_txn_count m) (oc_tx_offset m) output_offset c) (\<lambda>(output_offset, c).
        rbind (ont_cons_set_output_buffer (ok_out c) (ok_sids c) output_offset) (\<lambda>out.
        rbind (double_sha256 H (bv_msg (ba_arr out)) 0 (ba_len out)) (\<lambda>digest.
          Inr (c\<lparr>ok_compressed_hash := Some (sha_reverse digest), ok_out := ba_set_output out\<rparr>))))))"

definition ont_cons_cmp_block ::
  "(byte list \<Rightarrow> byte list) \<Rightarrow> json_dec \<Rightarrow> tx_service \<Rightarrow> bool \<Rightarrow> real \<Rightarrow> real \<Rightarrow> bool \<Rightarrow> ont_cons_cmp \<Rightarrow> buffer_view \<Rightarrow>
   ont_cons_cmp res" where
  "ont_cons_cmp_block H jdec s enable now min_age shared c v =
     rbind (ont_cons_cmp_init shared c v) (\<lambda>c. ont_cons_cmp_execute H jdec s enable now min_age c v)"

section \<open>OntConsensusBlockDecompressionTask\<close>

record ont_cons_dcm =
  od_out :: byte_array
  od_hash :: "sha256 option"
  od_sids :: "sid list"
  od_unknown_hashes :: "hash list"
  od_unknown_sids :: "sid list"
  od_txn_count :: nat
  od_success :: bool

definition ont_cons_dcm_new :: "nat \<Rightarrow> ont_cons_dcm" where
  "ont_cons_dcm_new capacity =
     \<lparr>od_out = ba_with_capacity capacity, od_hash = None, od_sids = [], od_unknown_hashes = [], od_unknown_sids = [],
      od_txn_count = 0, od_success = False\<rparr>"

definition ont_cons_dcm_init :: "bool \<Rightarrow> ont_cons_dcm \<Rightarrow> ont_cons_dcm" where
  \<comment> \<open>reserving the capacity it already has does nothing\<close>
  "ont_cons_dcm_init shared c =
     c\<lparr>od_out := (if shared then ba_with_capacity (ba_cap (od_out c)) else ba_reserve (od_out c) (ba_cap (od_out c))),
       od_unknown_hashes := [], od_unknown_sids := [], od_hash := None, od_sids := [], od_txn_count := 0\<rparr>"

definition bv_append :: "byte list \<Rightarrow> buffer_view \<Rightarrow> nat \<Rightarrow> nat \<Rightarrow> byte list res" where
  \<comment> \<open>\<^verbatim>\<open>str.append(&view.char_array()[from], len)\<close>\<close>
  "bv_append str v from len = rbind (bv_read v from len) (\<lambda>bs. Inr (str @ bs))"

fun ont_cons_dcm_txs ::
  "bx_ont_cons \<Rightarrow> nat \<Rightarrow> nat \<Rightarrow> sid list \<Rightarrow> tx_service \<Rightarrow> byte list \<Rightarrow> (tx_service \<times> byte list) res" where
  "ont_cons_dcm_txs m 0 from sids s payload = Inr (s, payload)"
| "ont_cons_dcm_txs m (Suc n) from sids s payload =
     rbind (bx_cons_get_next_tx_offset m from) (\<lambda>(tx_offset, is_short).
       if is_short then
         (case sids of
            [] \<Rightarrow> Inl MemFault
          | i # sids \<Rightarrow>
              rbind (get_transaction s i) (\<lambda>(_, tx, s).
                case tx of
                  None \<Rightarrow> Inl MemFault
                | Some w \<Rightarrow> rbind (bv_append payload w 0 (bv_size w)) (ont_cons_dcm_txs m n tx_offset sids s)))
       else rbind (bv_append payload (bxc_view m) from (u64_sub tx_offset from)) (ont_cons_dcm_txs m n tx_offset sids s))"

definition ont_cons_dcm_execute ::
  "json_enc \<Rightarrow> tx_service \<Rightarrow> ont_cons_dcm \<Rightarrow> buffer_view \<Rightarrow> (tx_service \<times> ont_cons_dcm) res" where
  "ont_cons_dcm_execute jenc s c v =
     rbind (bx_cons_parse v) (\<lambda>m.
     rbind (ba_reset (ba_reserve (od_out c) (bx_cons_get_original_block_size m))) (\<lambda>out.
     rbind (bx_cons_deserialize_short_ids m) (\<lambda>short_ids.
     let (success, hashes, sids) = get_missing_transactions s short_ids;
         c = c\<lparr>od_out := out, od_hash := Some (bxc_hash m), od_sids := od_sids c @ short_ids, od_success := success,
               od_unknown_hashes := od_unknown_hashes c @ hashes, od_unknown_sids := od_unknown_sids c @ sids\<rparr>
     in if \<not> success then Inr (s, c)
        else
          rbind (ba_copy_from_buffer out (bxc_payload_header m) 0 0 (bv_size (bxc_payload_header m))) (\<lambda>(out, output_offset).
          rbind (bv_append [] (bxc_header m) 0 (bv_size (bxc_header m))) (\<lambda>decoded_payload.
          rbind (ont_cons_dcm_txs m (bxc_tx_count m) (bxc_tx_offset m) (od_sids c) s decoded_payload) (\<lambda>(s, decoded_payload).
          rbind (bv_append decoded_payload (bxc_tail m) 0 (bv_size (bxc_tail m))) (\<lambda>decoded_payload.
          rbind (base64_encode decoded_payload) (\<lambda>encoded.
          let json_payload = jenc (bxc_type m) (bxc_len m) encoded;
              out = ba_resize out (u64 (output_offset + length json_payload))
          in rbind (ba_poke out output_offset json_payload) (\<lambda>out.
             rbind (ba_copy_from_buffer out (bxc_owner m) (u64 (output_offset + length json_payload)) 0 (bv_size (bxc_owner m)))
               (\<lambda>(out, _).
               Inr (s, c\<lparr>od_txn_count := bxc_tx_count m, od_out := ba_set_output out\<rparr>)))))))))))"

definition ont_cons_dcm_block ::
  "json_enc \<Rightarrow> tx_service \<Rightarrow> bool \<Rightarrow> ont_cons_dcm \<Rightarrow> buffer_view \<Rightarrow> (tx_service \<times> ont_cons_dcm) res" where
  "ont_cons_dcm_block jenc s shared c v = ont_cons_dcm_execute jenc s (ont_cons_dcm_init shared c) v"

end
