(* ===== verification/OntConsensusProps.thy ===== *)
theory OntConsensusProps
  imports OntConsensus OntDecompressionProps
begin

text \<open>
  Compression and decompression of a consensus message, down to the bytes of the Base64 payload and of the
  JSON string around it.
\<close>

section \<open>Consensus messages\<close>

definition wf_cons_hdr :: "ont_hdr \<Rightarrow> bool" where
  \<comment> \<open>the header of a block without the 24 bytes in front of a block message\<close>
  "wf_cons_hdr h \<longleftrightarrow> wf_ont_hdr (h\<lparr>oh_front := replicate 24 0 @ oh_front h\<rparr>)"

definition cons_payload :: "byte list \<Rightarrow> ont_hdr \<Rightarrow> ont_tx list \<Rightarrow> byte list \<Rightarrow> byte list" where
  "cons_payload bvi h ts tail = bvi @ ser_ont_hdr h @ le_bytes 4 (length ts) @ sers ser_ont_tx ts @ tail"

definition wf_cons_payload :: "byte list \<Rightarrow> ont_hdr \<Rightarrow> ont_tx list \<Rightarrow> byte list \<Rightarrow> bool" where
  \<comment> \<open>the block ends behind its transactions and something follows it\<close>
  "wf_cons_payload bvi h ts tail \<longleftrightarrow>
     wf_vi bvi \<and> vi_val bvi = length (ser_ont_hdr h @ le_bytes 4 (length ts) @ sers ser_ont_tx ts) \<and> wf_cons_hdr h \<and>
     list_all wf_ont_tx ts \<and> tail \<noteq> [] \<and> length (cons_payload bvi h ts tail) < 2 ^ 32"

definition cons_message :: "json_enc \<Rightarrow> byte list \<Rightarrow> byte list \<Rightarrow> nat \<Rightarrow> byte list \<Rightarrow> byte list \<Rightarrow> byte list" where
  "cons_message jenc front vi typ pl owner = front @ vi @ jenc typ (length pl) (b64 pl) @ owner"

definition wf_cons_message :: "json_dec \<Rightarrow> json_enc \<Rightarrow> byte list \<Rightarrow> byte list \<Rightarrow> nat \<Rightarrow> byte list \<Rightarrow> byte list \<Rightarrow> bool" where
  "wf_cons_message jdec jenc front vi typ pl owner \<longleftrightarrow>
     length front = 70 \<and> wf_vi vi \<and> vi_val vi = length (jenc typ (length pl) (b64 pl)) \<and> typ < 256 \<and> owner \<noteq> [] \<and>
     jdec (jenc typ (length pl) (b64 pl)) = Inr (typ, length pl, b64 pl) \<and> jenc typ (length pl) (b64 pl) \<noteq> [] \<and>
     length (cons_message jenc front vi typ pl owner) < 2 ^ 32"

section \<open>The decoded payload\<close>

lemma b64_decode_loop_arr:
  assumes "b64_decode_loop ba_poke n cs st = Inr st'"
  shows "length (ba_arr (snd st')) = length (ba_arr (snd st))"
proof -
  have put: "length (ba_arr (snd st')) = length (ba_arr (snd st))" if "b64_put ba_poke n b st = Inr st'" for n b and st st' :: "nat \<times> byte_array"
    using that by (auto simp: b64_put_def ba_poke_def split: prod.splits if_splits elim!: rbind_InrE)
  show ?thesis using assms
  proof (induction ba_poke n cs st rule: b64_decode_loop.induct)
    case (1 n c1 c2 c3 c4 cs st)
    then show ?case by (auto simp: Let_def elim!: rbind_InrE) (metis put snd_conv)
  qed auto
qed

lemma base64_decoded:
  assumes "2 \<le> length pl" and "length pl < 2 ^ 60"
  obtains b junk spare k where "base64_decode ba_resize ba_poke (b64 pl) ba_new 0 = Inr (k, b)" and "ba_ok b"
    and "ba_arr b = (pl @ junk) @ spare" and "ba_len b = length (pl @ junk)" and "ba_bytes b = pl @ junk"
    and "bv_ok (oc_block_view b)" and "bv_bytes (oc_block_view b) = pl @ junk" and "length (ba_arr b) < 2 ^ 64"
proof -
  let ?k = "length (b64 pl) div 4 * 3"
  have k: "?k < 2 ^ 62" "length (b64 pl) < 2 ^ 64" "pl \<noteq> []" using assms by (auto simp: length_b64)
  obtain b where b: "base64_decode ba_resize ba_poke (b64 pl) ba_new 0 = Inr (?k, b)" "sink_keeps ba_wf ba_bytes ?k pl b"
    using bak.base64_decode_b64 [OF ba_wf_new k(3,2)] by auto
  have u: "u64 ?k = ?k" using k(1) by (simp add: u64_id)
  have "length (ba_arr b) = length (ba_arr (ba_resize ba_new ?k))"
    using b(1) u by (auto simp: base64_decode_def Let_def split: if_splits dest!: b64_decode_loop_arr elim!: rbind_InrE)
  also have "\<dots> \<le> ?k + 1" by (simp add: ba_resize_def ba_reserve_def ba_new_def vec_resize_def)
  finally have arr: "length (ba_arr b) < 2 ^ 64" using k(1) by simp
  have w: "ba_wf b" "length (ba_bytes b) = ?k" "take (length pl) (ba_bytes b) = pl" using b(2) by (simp_all add: sink_keeps_def)
  define junk where "junk = drop (length pl) (ba_bytes b)"
  have bytes: "ba_bytes b = pl @ junk" using w(3) append_take_drop_id [of "length pl" "ba_bytes b"] by (simp add: junk_def)
  have len: "ba_len b = length (pl @ junk)" using w(1) bytes length_ba_bytes [of b] by simp
  have arr2: "ba_arr b = (pl @ junk) @ drop (ba_len b) (ba_arr b)"
    using bytes by (metis append_take_drop_id ba_bytes_def)
  have "ba_len b \<le> length (ba_arr b)" using w(1) by (simp add: ba_wf_def)
  then have ok: "bv_ok (oc_block_view b)" using arr by (simp add: oc_block_view_def bv_ok_def bv_of_ptr_def bv_wf_def)
  have vb: "bv_bytes (oc_block_view b) = pl @ junk"
    using bytes by (simp add: oc_block_view_def bv_of_ptr_def bv_bytes_def slice_def ba_bytes_def)
  have "ba_ok b" using w(1) len bytes w(2) k(1) by (simp add: ba_ok_def)
  then show thesis using that b(1) arr2 len bytes ok vb arr by blast
qed

lemma ont_cons_block_front_at:
  assumes b: "ba_ok b" "ba_bytes b = pre @ ser_ont_hdr h @ le_bytes 4 n @ rest" "n < 2 ^ 32" and h: "wf_cons_hdr h"
    and v: "bv_ok (oc_block_view b)" "bv_bytes (oc_block_view b) = ba_bytes b" and H: "\<And>bs. length (H bs) = 32"
  shows "ont_cons_block_front H b (length pre) =
    Inr (sha_of_binary (rev (slice 4 32 (oh_front h))), sha_of_binary (rev (H (H (ser_hashed h)))), n,
      length (pre @ ser_ont_hdr h @ le_bytes 4 n))"
proof -
  note [simp del] = le_bytes.simps le_bytes_numeral
  let ?f = "oh_front h" and ?c = "oh_consensus h" and ?k = "concat (map ser_item (oh_keepers h))" and ?s = "concat (map ser_item (oh_sigs h))"
  let ?p0 = "pre @ ?f" let ?p1 = "?p0 @ fst ?c" let ?p2 = "pre @ ser_hashed h" let ?p3 = "?p2 @ oh_keepers_len h"
  let ?p4 = "?p3 @ ?k" let ?p5 = "?p4 @ oh_sigs_len h" let ?p6 = "?p5 @ ?s" let ?v = "oc_block_view b"
  have w: "length ?f = 116" "wf_item ?c" "wf_vi (fst ?c)" "vi_val (fst ?c) = length (snd ?c)" "length (oh_next h) = 20"
    "wf_vi (oh_keepers_len h)" "vi_val (oh_keepers_len h) = length (oh_keepers h)"
    "list_all (\<lambda>k. wf_vi (fst k) \<and> length (snd k) = 33) (oh_keepers h)"
    "wf_vi (oh_sigs_len h)" "vi_val (oh_sigs_len h) = length (oh_sigs h)" "list_all wf_item (oh_sigs h)"
    using h by (simp_all add: wf_cons_hdr_def wf_ont_hdr_def wf_item_def)
  have eq: "ba_bytes b = ?p6 @ le_bytes 4 n @ rest" using b(2) by (simp add: ser_ont_hdr_def)
  have sm: "u64 k = k" if "k \<le> length ?p6" for k
    using bas.off_small [OF b(1), of k] that eq by simp
  have lv: "length (bv_bytes ?v) = bv_size ?v" using v(1) by (simp add: bv_ok_def)
  have sz: "length pre + 36 \<le> bv_size ?v" using lv v(2) eq w(1) by (simp add: ser_hashed_def)
  have "slice (length pre + 4) 32 (bv_bytes ?v) = slice 4 32 ?f"
    using w(1) by (simp add: v(2) eq ser_hashed_def slice_append_right slice_append_left)
  then have r: "sha_read ?v (length pre + 4) = Inr (sha_of_binary (slice 4 32 ?f))"
    using sha_read_inside [of ?v "length pre + 4"] v(1) sz by (simp add: bv_ok_def add.assoc)
  have "length pre + 4 + (32 * 3 + 16) = length ?p0" using w(1) by simp
  then have u: "u64 (length pre + 4) = length pre + 4" "u64 (length pre + 4 + (32 * 3 + 16)) = length ?p0"
    using sm [of "length pre + 4"] sm [of "length ?p0"] w(1) by (simp_all only:) (simp_all add: ser_hashed_def)
  have 1: "get_varint (ba_read b) (length ?p0) = Inr (length (snd ?c), length ?p1)"
    using bas.get_varint_at [OF b(1), of ?p0 "fst ?c"] eq w by (simp add: ser_hashed_def ser_item_def)
  have 2: "u64 (length ?p1 + (length (snd ?c) + 20)) = length ?p2"
    using sm [of "length ?p2"] w(5) by (simp add: ser_hashed_def ser_item_def add.assoc)
  have 3: "get_varint (ba_read b) (length ?p2) = Inr (length (oh_keepers h), length ?p3)"
    using bas.get_varint_at [OF b(1), of ?p2 "oh_keepers_len h"] eq w by simp
  have 4: "ont_skip_bookkeepers (ba_read b) (length (oh_keepers h)) (length ?p3) = Inr (length ?p4)"
    using eq w(8) by (intro bas.ont_skip_bookkeepers_at [OF b(1), where post = "oh_sigs_len h @ ?s @ le_bytes 4 n @ rest"]) simp_all
  have 5: "get_varint (ba_read b) (length ?p4) = Inr (length (oh_sigs h), length ?p5)"
    using bas.get_varint_at [OF b(1), of ?p4 "oh_sigs_len h"] eq w by simp
  have 6: "skip_witness_items (ba_read b) (length (oh_sigs h)) (length ?p5) = Inr (length ?p6)"
    using bas.skip_witness_items_at [OF b(1), of ?p5 "oh_sigs h" "le_bytes 4 n @ rest"] eq w(11) by simp
  have 7: "get_le (ba_read b) 4 (length ?p6) = Inr (n, length ?p6 + 4)"
    using bas.get_le_at [OF b(1), of ?p6 "le_bytes 4 n" rest] eq b(3) by (simp add: le_val_le_bytes)
  have le: "length pre + length (ser_hashed h) \<le> bv_size ?v" using lv v(2) eq by simp
  have sub: "u64_sub (length ?p2) (length pre) = length (ser_hashed h)"
    using le bv_size_less [of ?v] v(1) by (simp add: bv_ok_def u64_sub_id)
  have "slice (length pre) (length (ser_hashed h)) (bv_bytes ?v) = ser_hashed h" by (simp add: v(2) eq slice_middle)
  then have 8: "double_sha256 H ?v (length pre) (length (ser_hashed h)) = Inr (sha_of_binary (rev (H (H (ser_hashed h)))))"
    using double_sha256_inside [OF v(1) le H] by simp
  have 9: "length ?p6 + 4 = length (pre @ ser_ont_hdr h @ le_bytes 4 n)" by (simp add: ser_ont_hdr_def)
  show ?thesis
    by (simp only: ont_cons_block_front_def Let_def ont_consts u r 1 2 3 4 5 6 7 8 9 sub ont_skip_vars_eq rbind_simps prod.case)
      (simp add: sha_reverse_def)
qed


definition cons_head :: "byte list \<Rightarrow> ont_hdr \<Rightarrow> ont_tx list \<Rightarrow> byte list" where
  \<comment> \<open>the payload up to the first transaction\<close>
  "cons_head bvi h ts = bvi @ ser_ont_hdr h @ le_bytes 4 (length ts)"

lemma cons_sizes:
  assumes "wf_cons_payload bvi h ts tail"
  shows "100 < length (cons_payload bvi h ts tail)" and "length (cons_payload bvi h ts tail) < 2 ^ 32" and "length ts < 2 ^ 32"
    and "cons_payload bvi h ts tail = cons_head bvi h ts @ sers ser_ont_tx ts @ tail"
proof -
  show lt: "length (cons_payload bvi h ts tail) < 2 ^ 32" using assms by (simp add: wf_cons_payload_def)
  show "100 < length (cons_payload bvi h ts tail)"
    using assms by (simp add: wf_cons_payload_def wf_cons_hdr_def wf_ont_hdr_def cons_payload_def ser_ont_hdr_def ser_hashed_def)
  show "length ts < 2 ^ 32" using assms lt length_ont_txs [of ts] by (simp add: wf_cons_payload_def cons_payload_def)
  show "cons_payload bvi h ts tail = cons_head bvi h ts @ sers ser_ont_tx ts @ tail" by (simp add: cons_payload_def cons_head_def)
qed

lemma ont_cons_parse_at:
  assumes v: "bv_ok v" "bv_bytes v = cons_message jenc front vi typ pl owner" and pl: "pl = cons_payload bvi h ts tail"
    and w: "wf_cons_message jdec jenc front vi typ pl owner" "wf_cons_payload bvi h ts tail" and H: "\<And>bs. length (H bs) = 32"
  obtains m junk where "ont_cons_parse H jdec v = Inr m" and "oc_type m = typ" and "oc_len m = length pl"
    and "ba_ok (oc_block m)" and "ba_bytes (oc_block m) = pl @ junk"
    and "bv_ok (oc_block_view (oc_block m))" and "bv_bytes (oc_block_view (oc_block m)) = pl @ junk"
    and "oc_header_offset m = length (front @ vi)" and "oc_prev m = sha_of_binary (rev (slice 4 32 (oh_front h)))"
    and "oc_hash m = sha_of_binary (rev (H (H (ser_hashed h))))" and "oc_txn_count m = length ts"
    and "oc_tx_offset m = length (cons_head bvi h ts)"
    and "bv_ok (oc_owner m)" and "bv_bytes (oc_owner m) = owner" and "bv_ok (oc_tail m)" and "bv_bytes (oc_tail m) = tail"
proof -
  note [simp del] = le_bytes.simps le_bytes_numeral
  let ?json = "jenc typ (length pl) (b64 pl)" let ?o = "length (front @ vi)" let ?e = "length (front @ vi @ ?json)"
  note sizes = cons_sizes [OF w(2), folded pl]
  have f: "length front = 70" "wf_vi vi" "vi_val vi = length ?json" "owner \<noteq> []" "?json \<noteq> []"
    "jdec ?json = Inr (typ, length pl, b64 pl)" using w(1) by (simp_all add: wf_cons_message_def)
  have eq: "bv_bytes v = front @ vi @ ?json @ owner" using v(2) by (simp add: cons_message_def)
  have vs: "bv_size v = length (front @ vi @ ?json @ owner)" using v(1) eq length_bv_bytes [of v] by (simp add: bv_ok_def)
  have vb: "bv_size v < 2 ^ 64" "bv_wf v" "bv_buf v \<noteq> None" using v(1) bv_size_less [of v] by (simp_all add: bv_ok_def)
  have 1: "get_varint (bv_read v) 70 = Inr (length ?json, ?o)"
    using bvs.get_varint_at [OF v(1), of front vi "?json @ owner"] eq f by simp
  have 2: "u64 (?o + length ?json) = ?e" using vb(1) vs by (simp add: u64_id)
  have 3: "bv_at_read v ?o (length ?json) = Inr ?json"
  proof -
    have "slice ?o (length ?json) (bv_bytes v) = ?json" using slice_middle [of "front @ vi" ?o ?json "length ?json" owner] eq by simp
    then show ?thesis using bv_at_read_inside [OF vb(2), of ?o "length ?json"] vs f(5) by simp
  qed
  obtain b junk spare k where b: "base64_decode ba_resize ba_poke (b64 pl) ba_new 0 = Inr (k, b)" "ba_ok b"
    "ba_arr b = (pl @ junk) @ spare" "ba_len b = length (pl @ junk)" "ba_bytes b = pl @ junk"
    "bv_ok (oc_block_view b)" "bv_bytes (oc_block_view b) = pl @ junk" "length (ba_arr b) < 2 ^ 64"
    by (rule base64_decoded [of pl]) (use sizes in simp_all)
  let ?block = "ser_ont_hdr h @ le_bytes 4 (length ts) @ sers ser_ont_tx ts"
  have p: "pl = bvi @ ?block @ tail" "wf_vi bvi" "vi_val bvi = length ?block" "wf_cons_hdr h" "tail \<noteq> []"
    using w(2) by (simp_all add: wf_cons_payload_def cons_payload_def pl)
  have 4: "get_varint (ba_read b) 0 = Inr (length ?block, length bvi)"
    using bas.get_varint_at [OF b(2), of "[]" bvi] b(5) p(1-3) by simp
  have 5: "ont_cons_block_front H b (length bvi) =
    Inr (sha_of_binary (rev (slice 4 32 (oh_front h))), sha_of_binary (rev (H (H (ser_hashed h)))), length ts, length (cons_head bvi h ts))"
    unfolding cons_head_def
    by (rule ont_cons_block_front_at [OF b(2) _ sizes(3) p(4) b(6) _ H, where rest = "sers ser_ont_tx ts @ tail @ junk"])
      (use b(5,7) p(1) in simp_all)
  have lp: "length pl = length bvi + length ?block + length tail" using p(1) by simp
  have 6: "u64 (length bvi + length ?block) = length bvi + length ?block" "u32 (length pl) = length pl"
    "u64_sub (length pl) (length bvi + length ?block) = length tail"
    using sizes(2) lp by (simp_all add: u64_id u32_id u64_sub_id)
  have 7: "u64_sub (bv_size v) ?e = length owner" using vb(1) vs by (simp add: u64_sub_id)
  let ?own = "bv_sub v (length owner) ?e" and ?tl = "bv_of_ptr (ba_arr b) (length tail) (length bvi + length ?block)"
  have own: "bv_ok ?own" "bv_bytes ?own = owner"
    using bv_wf_sub [OF vb(2), of ?e "length owner"] vb(3) vs eq by (simp_all add: bv_ok_def slice_def)
  have tl: "bv_ok ?tl" "bv_bytes ?tl = tail"
    using b(3,8) lp p(1) by (simp_all add: bv_ok_def bv_of_ptr_def bv_wf_def bv_bytes_def slice_def)
  have c: "\<not> bv_size v < 70" "\<not> bv_size v < ?e" using vs f(1) by simp_all
  have hdr: "(24 :: nat) + 3 * 4 + 32 + 2 = 70" by simp
  show thesis
    by (rule that [of "\<lparr>oc_type = typ, oc_len = length pl, oc_block = b, oc_header_offset = ?o, oc_prev = sha_of_binary (rev (slice 4 32 (oh_front h))),
        oc_hash = sha_of_binary (rev (H (H (ser_hashed h)))), oc_txn_count = length ts, oc_tx_offset = length (cons_head bvi h ts),
        oc_owner = ?own, oc_tail = ?tl\<rparr>" junk])
      (simp only: ont_cons_parse_def Let_def ont_consts hdr c if_False 1 2 3 f(6) b(1) 4 5 6 7 rbind_simps prod.case,
       use b own tl in simp_all)
qed

section \<open>Writing the parts of a message\<close>

definition written :: "byte_array \<Rightarrow> nat \<Rightarrow> byte list \<Rightarrow> bool" where
  "written out off bs \<longleftrightarrow> ba_wf out \<and> ba_bytes out = bs \<and> off = length bs"

lemma write_le:
  assumes "written out off bs" and "0 < k" and "length bs + k < 2 ^ 64"
    and "\<And>out off. written out off (bs @ le_bytes k x) \<Longrightarrow> \<exists>r. f out off = Inr r \<and> Q r"
  shows "\<exists>r. rbind (ba_set_le k out x off) (\<lambda>(out, off). f out off) = Inr r \<and> Q r"
proof -
  obtain out' where "ba_set_le k out x off = Inr (out', off + k)" "ba_wf out'" "ba_bytes out' = bs @ le_bytes k x"
    using bak.set_le_append [of out k off x] assms(1-3) by (auto simp: written_def)
  then show ?thesis using assms(1) assms(4) [of out' "off + k"] by (simp add: written_def)
qed

lemma write_copy:
  assumes "written out off bs" and "bv_ok w" and "bv_bytes w = pre @ xs @ post" and "from = length pre" and "n = length xs" and "0 < n"
    and "length bs + n < 2 ^ 64"
    and "\<And>out off. written out off (bs @ xs) \<Longrightarrow> \<exists>r. f out off = Inr r \<and> Q r"
  shows "\<exists>r. rbind (ba_copy_from_buffer out w off from n) (\<lambda>(out, off). f out off) = Inr r \<and> Q r"
proof -
  have fit: "from + n \<le> bv_size w" using assms(2-5) length_bv_bytes [of w] by (simp add: bv_ok_def)
  have sl: "slice from n (bv_bytes w) = xs" using assms(3-5) by (simp add: slice_middle)
  have w: "ba_wf out" "bv_wf w" "off = ba_len out" using assms(1,2) length_ba_bytes [of out] by (auto simp: written_def bv_ok_def)
  have "off + n < 2 ^ 64" using assms(1,7) by (simp add: written_def)
  then obtain out' where "ba_copy_from_buffer out w off from n = Inr (out', off + n)" "ba_wf out'" "ba_bytes out' = ba_bytes out @ xs"
    using ba_copy_from_buffer_append [OF w(1,2) assms(6) fit w(3)] sl by auto
  then show ?thesis using assms(1,5) assms(8) [of out' "off + n"] by (simp add: written_def)
qed

end
