(* ===== verification/OntConsensusRoundTrip.thy ===== *)
theory OntConsensusRoundTrip
  imports OntConsensusProps
begin

text \<open>
  The compressed form of a consensus message, and the way back to the message.
\<close>

section \<open>Compression\<close>

definition cons_parts ::
  "(byte list \<Rightarrow> byte list) \<Rightarrow> byte list \<Rightarrow> nat \<Rightarrow> byte list \<Rightarrow> byte list \<Rightarrow> ont_hdr \<Rightarrow> ont_tx list \<Rightarrow> byte list \<Rightarrow> byte list" where
  \<comment> \<open>what stands in front of the transactions in the compressed message\<close>
  "cons_parts H fv typ owner bvi h ts tail =
     le_bytes 1 1 @ rev (H (H (ser_hashed h))) @ le_bytes 4 (length ts) @ le_bytes 4 (length tail) @ tail @
     le_bytes 4 (length owner) @ owner @ le_bytes 4 (length fv) @ fv @ le_bytes 1 typ @
     le_bytes 4 (length (cons_payload bvi h ts tail)) @ le_bytes 4 (length (cons_head bvi h ts)) @ cons_head bvi h ts"

lemma ont_cons_front_spec:
  assumes out: "ba_wf out" "ba_len out = 0" and H: "\<And>bs. length (H bs) = 32"
    and m: "oc_type m = typ" "oc_len m = length (cons_payload bvi h ts tail)" "oc_header_offset m = length fv"
      "oc_hash m = sha_of_binary (rev (H (H (ser_hashed h))))" "oc_txn_count m = length ts" "oc_tx_offset m = length (cons_head bvi h ts)"
    and views: "bv_ok (oc_owner m)" "bv_bytes (oc_owner m) = owner" "bv_ok (oc_tail m)" "bv_bytes (oc_tail m) = tail"
      "bv_ok (oc_block_view (oc_block m))" "bv_bytes (oc_block_view (oc_block m)) = cons_head bvi h ts @ rest"
      "bv_ok v" "bv_bytes v = fv @ rest'"
    and ne: "owner \<noteq> []" "tail \<noteq> []" "fv \<noteq> []" "cons_head bvi h ts \<noteq> []"
    and small: "length owner + length tail + length fv + length (cons_head bvi h ts) + 100 < 2 ^ 64"
  obtains out' junk where "ont_cons_front m v out = Inr (length (junk @ cons_parts H fv typ owner bvi h ts tail), out')"
    and "ba_wf out'" and "length junk = 8" and "ba_bytes out' = junk @ cons_parts H fv typ owner bvi h ts tail"
proof -
  note [simp del] = le_bytes.simps le_bytes_numeral
  define junk where "junk = ba_bytes (ba_resize out 8)"
  have j: "written (ba_resize out 8) 8 junk" "length junk = 8" using out(1) by (simp_all add: written_def junk_def)
  let ?h = "rev (H (H (ser_hashed h)))"
  have sz: "bv_size (oc_owner m) = length owner" "bv_size (oc_tail m) = length tail"
    using views(1-4) length_bv_bytes [of "oc_owner m"] length_bv_bytes [of "oc_tail m"] by (simp_all add: bv_ok_def)
  have hb: "sha_binary (oc_hash m) = ?h" by (simp add: m(4) sha_of_binary_def)
  have lh: "length ?h = 32" using H by simp
  have vh: "bv_ok (bv_msg ?h)" "bv_bytes (bv_msg ?h) = [] @ ?h @ []" using lh by simp_all
  have vo: "bv_bytes (oc_owner m) = [] @ owner @ []" "bv_bytes (oc_tail m) = [] @ tail @ []" "bv_bytes v = [] @ fv @ rest'"
    "bv_bytes (oc_block_view (oc_block m)) = [] @ cons_head bvi h ts @ rest" using views by simp_all
  have "\<exists>r. ont_cons_front m v out = Inr r \<and> (case r of (off, out') \<Rightarrow> written out' off (junk @ cons_parts H fv typ owner bvi h ts tail))"
    unfolding ont_cons_front_def Let_def hb sz m(1,2,3,5,6) SHA256_BINARY_SIZE_def
    apply (rule write_le [OF j(1)], simp, simp add: j(2))
    apply (rule write_copy [OF _ vh], assumption, simp, simp add: H, simp, simp add: j(2))
    apply (rule write_le, assumption, simp, simp add: j(2) H)
    apply (rule write_le, assumption, simp, simp add: j(2) H)
    apply (rule write_copy [OF _ views(3) vo(2)], assumption, simp, simp, simp add: ne, use small in \<open>simp add: j(2) H\<close>)
    apply (rule write_le, assumption, simp, use small in \<open>simp add: j(2) H\<close>)
    apply (rule write_copy [OF _ views(1) vo(1)], assumption, simp, simp, simp add: ne, use small in \<open>simp add: j(2) H\<close>)
    apply (rule write_le, assumption, simp, use small in \<open>simp add: j(2) H\<close>)
    apply (rule write_copy [OF _ views(7) vo(3)], assumption, simp, simp, simp add: ne, use small in \<open>simp add: j(2) H\<close>)
    apply (rule write_le, assumption, simp, use small in \<open>simp add: j(2) H\<close>)
    apply (rule write_le, assumption, simp, use small in \<open>simp add: j(2) H\<close>)
    apply (rule write_le, assumption, simp, use small in \<open>simp add: j(2) H\<close>)
    apply (rule write_copy [OF _ views(5) vo(4)], assumption, simp, simp, simp add: ne, use small in \<open>simp add: j(2) H\<close>)
    by (simp add: cons_parts_def)
  then show thesis using that j(2) by (auto simp: written_def)
qed


text \<open>The loop body does to its buffer and lists what the sub-task of the block compression does.\<close>

definition cons_sub :: "ont_cons_cmp \<Rightarrow> cmp_sub" where
  "cons_sub c = \<lparr>cs_out = ok_out c, cs_sids = ok_sids c, cs_ignored = ok_ignored c, cs_offsets = []\<rparr>"

lemma ont_cons_put_sub:
  assumes "cmp_put s v enable mx h from fin off (cons_sub c) = Inr (off', cs)"
  shows "ont_cons_put s v enable mx h from fin off c = Inr (off', c\<lparr>ok_out := cs_out cs, ok_sids := cs_sids cs, ok_ignored := cs_ignored cs\<rparr>)"
  using assms
  by (auto simp: cmp_put_def cmp_assign_time_def ont_cons_put_def cons_sub_def split: if_splits elim!: rbind_InrE)

lemma ont_cons_cmp_txs_spec:
  assumes m: "ba_ok (oc_block m)" "ba_bytes (oc_block m) = pre @ sers ser_ont_tx ts @ post"
    and v: "v = oc_block_view (oc_block m)" "bv_ok v" "bv_bytes v = ba_bytes (oc_block m)" and H: "\<And>bs. length (H bs) = 32"
    and ts: "list_all wf_ont_tx ts" "list_all (ont_sender_ok H s) ts" and cmpd: "cmpd = ont_compressed H s enable mx"
    and out: "ba_wf (ok_out c)" "ba_len (ok_out c) + length (sers ser_ont_tx ts) < 2 ^ 64"
  shows "\<exists>c'. ont_cons_cmp_txs H s m enable mx (length ts) (length pre) (ba_len (ok_out c)) c = Inr (ba_len (ok_out c'), c') \<and>
    ba_wf (ok_out c') \<and> ba_bytes (ok_out c') = ba_bytes (ok_out c) @ pieces ser_ont_tx cmpd ts \<and>
    ok_sids c' = ok_sids c @ piece_sids (ont_tx_hash H) s cmpd ts \<and>
    ok_ignored c' = ok_ignored c @ ignored_sids (ont_tx_hash H) s cmpd ts \<and>
    ok_hash c' = ok_hash c \<and> ok_prev_hash c' = ok_prev_hash c \<and> ok_txn_count c' = ok_txn_count c"
  using m(2) ts out
proof (induction ts arbitrary: pre c)
  case Nil
  then show ?case by simp
next
  case (Cons t ts)
  let ?h = "ont_tx_hash H t" and ?fin = "length pre + length (ser_ont_tx t)"
  have t: "wf_ont_tx t" "sid_resolved s ?h" using Cons.prems(2,3) by simp_all
  have eq: "ba_bytes (oc_block m) = pre @ ser_ont_tx t @ (sers ser_ont_tx ts @ post)" using Cons.prems(1) by simp
  have 1: "ont_cons_get_next_tx_offset m (length pre) = Inr ?fin"
    using bas.ont_get_next_tx_offset_at [OF m(1) t(1) eq] by (simp add: ont_cons_get_next_tx_offset_def ont_get_next_tx_offset_def)
  have 2: "ont_get_tx_id H v (length pre) = Inr (sha_of_binary ?h)"
    unfolding ont_tx_hash_def by (rule ont_get_tx_id_at [OF v(2) t(1) _ H]) (use v(3) eq in simp)
  have pos: "0 < length (ser_ont_tx t)" using length_ser_ont_tx [OF t(1)] by linarith
  obtain cs where cs: "cmp_put s v enable mx ?h (length pre) ?fin (ba_len (ok_out c)) (cons_sub c) = Inr (ba_len (cs_out cs), cs)"
    "ba_wf (cs_out cs)" "ba_bytes (cs_out cs) = ba_bytes (ok_out c) @ piece ser_ont_tx cmpd t"
    "cs_sids cs = ok_sids c @ piece_sids (ont_tx_hash H) s cmpd [t]" "cs_ignored cs = ok_ignored c @ ignored_sids (ont_tx_hash H) s cmpd [t]"
    using cmp_put_spec [of v pre "ser_ont_tx t" "sers ser_ont_tx ts @ post" s ?h "cons_sub c" ?fin enable mx] v(2,3) eq pos t(2) Cons.prems(4,5)
    by (auto simp: cons_sub_def piece_def piece_sids_def ignored_sids_def cmpd)
  define c1 where "c1 = c\<lparr>ok_out := cs_out cs, ok_sids := cs_sids cs, ok_ignored := cs_ignored cs\<rparr>"
  have put: "ont_cons_put s v enable mx ?h (length pre) ?fin (ba_len (ok_out c)) c = Inr (ba_len (ok_out c1), c1)"
    using ont_cons_put_sub [OF cs(1)] by (simp add: c1_def)
  have "length (piece ser_ont_tx cmpd t) \<le> length (ser_ont_tx t)" using pos by (simp add: piece_def Suc_le_eq)
  moreover have "ba_len (cs_out cs) = ba_len (ok_out c) + length (piece ser_ont_tx cmpd t)"
    using cs(2,3) Cons.prems(4) by (metis length_append length_ba_bytes)
  ultimately have sm: "ba_len (ok_out c1) + length (sers ser_ont_tx ts) < 2 ^ 64" using Cons.prems(5) by (simp add: c1_def)
  have w: "ba_wf (ok_out c1)" using cs(2) by (simp add: c1_def)
  obtain c' where c': "ont_cons_cmp_txs H s m enable mx (length ts) (length (pre @ ser_ont_tx t)) (ba_len (ok_out c1)) c1 = Inr (ba_len (ok_out c'), c')"
    "ba_wf (ok_out c')" "ba_bytes (ok_out c') = ba_bytes (ok_out c1) @ pieces ser_ont_tx cmpd ts"
    "ok_sids c' = ok_sids c1 @ piece_sids (ont_tx_hash H) s cmpd ts" "ok_ignored c' = ok_ignored c1 @ ignored_sids (ont_tx_hash H) s cmpd ts"
    "ok_hash c' = ok_hash c1" "ok_prev_hash c' = ok_prev_hash c1" "ok_txn_count c' = ok_txn_count c1"
    using Cons.IH [of "pre @ ser_ont_tx t" c1] Cons.prems(1-3) w sm by auto
  have sp: "piece_sids (ont_tx_hash H) s cmpd (t # ts) = piece_sids (ont_tx_hash H) s cmpd [t] @ piece_sids (ont_tx_hash H) s cmpd ts"
    "ignored_sids (ont_tx_hash H) s cmpd (t # ts) = ignored_sids (ont_tx_hash H) s cmpd [t] @ ignored_sids (ont_tx_hash H) s cmpd ts"
    using codec_simps(8) [of "ont_tx_hash H" s cmpd "[t]" ts] codec_simps(10) [of "ont_tx_hash H" s cmpd "[t]" ts] by simp_all
  show ?case
    using 1 2 put c' cs(3-5) unfolding sp by (simp add: v(1) [symmetric] c1_def)
qed

lemma ont_cons_set_output_buffer_eq:
  "cmp_set_output_buffer out sids off = rbind (ont_cons_set_output_buffer out sids off) (\<lambda>out. Inr (ba_set_output out))"
  by (simp add: cmp_set_output_buffer_def ont_cons_set_output_buffer_def Let_def rbind_assoc case_prod_unfold cong: if_cong)


lemma ont_cons_set_output_spec:
  assumes "ba_wf out" and "ba_bytes out = junk @ body" and "length junk = 8" and "length sids < 2 ^ 32"
    and "ba_len out + 4 + 4 * length sids < 2 ^ 64"
  obtains out' where "ont_cons_set_output_buffer out sids (ba_len out) = Inr out'" and "ba_wf out'" and "ba_bytes out' = bx_encode body sids"
proof -
  obtain o1 where o1: "cmp_set_output_buffer out sids (ba_len out) = Inr o1" "ba_wf o1" "ba_bytes o1 = bx_encode body sids"
    by (rule cmp_set_output_buffer_spec [OF assms(1,2,3) refl assms(4,5)])
  then obtain o2 where "ont_cons_set_output_buffer out sids (ba_len out) = Inr o2" "o1 = ba_set_output o2"
    unfolding ont_cons_set_output_buffer_eq by (auto elim!: rbind_InrE)
  then show thesis using that [of o2] o1(2,3) by simp
qed

lemma length_cons_parts:
  assumes "\<And>bs. length (H bs) = 32"
  shows "length (cons_parts H fv typ owner bvi h ts tail) = 58 + length tail + length owner + length fv + length (cons_head bvi h ts)"
  using assms by (simp add: cons_parts_def)

lemma ont_cons_cmp_block_spec:
  assumes H: "\<And>bs. length (H bs) = 32" and out: "ba_wf (ok_out c)"
    and v: "bv_ok v" "bv_bytes v = cons_message jenc front vi typ pl owner" and pl: "pl = cons_payload bvi h ts tail"
    and w: "wf_cons_message jdec jenc front vi typ pl owner" "wf_cons_payload bvi h ts tail"
    and s: "list_all (ont_sender_ok H s) ts" and cmpd: "cmpd = ont_compressed H s enable (now - age)"
  shows "\<exists>c'. ont_cons_cmp_block H jdec s enable now age shared c v = Inr c' \<and> ba_wf (ok_out c') \<and>
    ba_bytes (ok_out c') = bx_encode (cons_parts H (front @ vi) typ owner bvi h ts tail @ pieces ser_ont_tx cmpd ts)
      (piece_sids (ont_tx_hash H) s cmpd ts) \<and>
    ok_sids c' = piece_sids (ont_tx_hash H) s cmpd ts \<and>
    ok_ignored c' = ok_ignored c @ ignored_sids (ont_tx_hash H) s cmpd ts \<and> ok_txn_count c' = length ts \<and>
    ok_hash c' = Some (sha_of_binary (rev (H (H (ser_hashed h))))) \<and>
    ok_prev_hash c' = Some (sha_of_binary (rev (slice 4 32 (oh_front h))))"
proof -
  obtain m junk where m: "ont_cons_parse H jdec v = Inr m" "oc_type m = typ" "oc_len m = length pl" "ba_ok (oc_block m)"
    "ba_bytes (oc_block m) = pl @ junk" "bv_ok (oc_block_view (oc_block m))" "bv_bytes (oc_block_view (oc_block m)) = pl @ junk"
    "oc_header_offset m = length (front @ vi)" "oc_prev m = sha_of_binary (rev (slice 4 32 (oh_front h)))"
    "oc_hash m = sha_of_binary (rev (H (H (ser_hashed h))))" "oc_txn_count m = length ts" "oc_tx_offset m = length (cons_head bvi h ts)"
    "bv_ok (oc_owner m)" "bv_bytes (oc_owner m) = owner" "bv_ok (oc_tail m)" "bv_bytes (oc_tail m) = tail"
    by (rule ont_cons_parse_at [where H = H, OF v pl w H])
  note sizes = cons_sizes [OF w(2)]
  have ne: "owner \<noteq> []" "tail \<noteq> []" "front @ vi \<noteq> []" "cons_head bvi h ts \<noteq> []" and ts: "list_all wf_ont_tx ts"
    using w by (auto simp: wf_cons_message_def wf_cons_payload_def cons_head_def)
  have msg: "length owner + length (front @ vi) < 2 ^ 32" using w(1) by (simp add: wf_cons_message_def cons_message_def)
  have lp: "length (cons_head bvi h ts) + length (sers ser_ont_tx ts) + length tail < 2 ^ 32"
    using sizes(2) unfolding sizes(4) by simp
  have small: "length owner + length tail + length (front @ vi) + length (cons_head bvi h ts) + 100 < 2 ^ 64" using msg lp by simp
  obtain out0 where out0: "(if shared then Inr (ba_with_capacity (bv_size v)) else ba_reset (ba_reserve (ok_out c) (bv_size v))) = Inr out0"
    "ba_wf out0" "ba_len out0 = 0"
    by (rule cmp_init_out [where c = "\<lparr>ct_out = ok_out c, ct_subs = [], ct_sids = [], ct_ignored = [], ct_txn_count = 0,
      ct_prev_hash = None, ct_hash = None, ct_compressed_hash = None, ct_min_count = 0\<rparr>" and shared = shared and v = v,
      unfolded cmp_task.select_convs, OF out])
  let ?parts = "cons_parts H (front @ vi) typ owner bvi h ts tail"
  obtain out1 j where o1: "ont_cons_front m v out0 = Inr (length (j @ ?parts), out1)" "ba_wf out1" "length j = 8" "ba_bytes out1 = j @ ?parts"
    by (rule ont_cons_front_spec [where H = H, OF out0(2,3) H m(2) m(3) [unfolded pl] m(8,10,11,12) m(13-16) m(6) _ v(1) _ ne small])
      (use m(7) v(2) sizes(4) in \<open>simp_all add: pl cons_message_def\<close>)
  have l1: "ba_len out1 = length (j @ ?parts)" using o1(2,4) by (metis length_ba_bytes)
  have lj: "length (j @ ?parts) + length (sers ser_ont_tx ts) + 4 + 4 * length ts < 2 ^ 64"
    using o1(3) length_cons_parts [where H = H, OF H, of "front @ vi" "typ" owner bvi h ts tail] msg lp sizes(3) by simp
  define c1 where "c1 = c\<lparr>ok_sids := [], ok_compressed_hash := None, ok_out := out1, ok_hash := Some (oc_hash m),
    ok_prev_hash := Some (oc_prev m), ok_txn_count := length ts\<rparr>"
  have c1: "ba_wf (ok_out c1)" "ba_len (ok_out c1) + length (sers ser_ont_tx ts) < 2 ^ 64" using o1(2) l1 lj by (simp_all add: c1_def)
  have eq: "ba_bytes (oc_block m) = cons_head bvi h ts @ sers ser_ont_tx ts @ (tail @ junk)" using m(5) sizes(4) by (simp add: pl)
  obtain c2 where c2: "ont_cons_cmp_txs H s m enable (now - age) (length ts) (length (cons_head bvi h ts)) (ba_len (ok_out c1)) c1 = Inr (ba_len (ok_out c2), c2)"
    "ba_wf (ok_out c2)" "ba_bytes (ok_out c2) = ba_bytes (ok_out c1) @ pieces ser_ont_tx cmpd ts"
    "ok_sids c2 = ok_sids c1 @ piece_sids (ont_tx_hash H) s cmpd ts" "ok_ignored c2 = ok_ignored c1 @ ignored_sids (ont_tx_hash H) s cmpd ts"
    "ok_hash c2 = ok_hash c1" "ok_prev_hash c2 = ok_prev_hash c1" "ok_txn_count c2 = ok_txn_count c1"
    using ont_cons_cmp_txs_spec [where H = H, OF m(4) eq refl m(6) _ H ts s cmpd c1] m(5,7) by auto
  have b2: "ba_bytes (ok_out c2) = j @ (?parts @ pieces ser_ont_tx cmpd ts)" using c2(3) o1(4) by (simp add: c1_def)
  have sids: "ok_sids c2 = piece_sids (ont_tx_hash H) s cmpd ts" using c2(4) by (simp add: c1_def)
  have "list_all (ont_tx_ok H) ts" using ts H by (simp add: list_all_iff ont_tx_ok_def)
  then have "length (pieces ser_ont_tx cmpd ts) \<le> length (sers ser_ont_tx ts)" by (rule ont.length_pieces)
  then have n2: "length (ok_sids c2) < 2 ^ 32" "ba_len (ok_out c2) + 4 + 4 * length (ok_sids c2) < 2 ^ 64"
    using sids length_piece_sids [of "ont_tx_hash H" s cmpd ts] sizes(3) b2 lj length_ba_bytes [OF c2(2)] by simp_all
  obtain o3 where o3: "ont_cons_set_output_buffer (ok_out c2) (ok_sids c2) (ba_len (ok_out c2)) = Inr o3" "ba_wf o3"
    "ba_bytes o3 = bx_encode (?parts @ pieces ser_ont_tx cmpd ts) (ok_sids c2)"
    by (rule ont_cons_set_output_spec [OF c2(2) b2 o1(3) n2])
  have "ba_len o3 < 2 ^ 64"
    using length_ba_bytes [OF o3(2)] o3(3) b2 o1(3) length_ba_bytes [OF c2(2)] n2(2)
    by (simp add: bx_encode_def length_concat_le_bytes)
  then obtain dg where dg: "double_sha256 H (bv_msg (ba_arr o3)) 0 (ba_len o3) = Inr dg"
    using double_sha256_prefix [of "ba_len o3" "ba_arr o3" H] o3(2) by (auto simp: ba_wf_def)
  have "ont_cons_cmp_block H jdec s enable now age shared c v =
    Inr (c2\<lparr>ok_compressed_hash := Some (sha_reverse dg), ok_out := ba_set_output o3\<rparr>)"
    using out0(1) m(1,11,12) o1(1) l1 c2(1) o3(1) dg
    by (simp add: ont_cons_cmp_block_def ont_cons_cmp_init_def ont_cons_cmp_execute_def c1_def Let_def del: length_append)
  then show ?thesis using o3(2,3) sids c2(5-8) m(9,10) by (simp add: c1_def)
qed

section \<open>Reading the compressed message\<close>

lemma bx_cons_part_at:
  assumes v: "bv_ok v" "bv_bytes v = pre @ le_bytes 4 (length xs) @ xs @ post" and xs: "length xs < 2 ^ 32" and off: "off = length pre"
  shows "\<exists>w. bx_cons_part v off = Inr (w, length (pre @ le_bytes 4 (length xs) @ xs)) \<and> bv_ok w \<and> bv_bytes w = xs \<and> bv_size w = length xs"
proof -
  note [simp del] = le_bytes.simps le_bytes_numeral
  let ?p = "pre @ le_bytes 4 (length xs)" let ?w = "bv_sub v (length xs) (length ?p)"
  have 1: "get_le (bv_read v) 4 (length pre) = Inr (length xs, length ?p)"
    using bvs.get_le_at [OF v] xs by (simp add: le_val_le_bytes)
  have sz: "length ?p + length xs \<le> bv_size v" using v length_bv_bytes [of v] by (simp add: bv_ok_def)
  have w: "bv_ok ?w" "bv_bytes ?w = xs"
    using bv_wf_sub [of v "length ?p" "length xs"] v sz by (simp_all add: bv_ok_def slice_def)
  have "u64 (length ?p + length xs) = length ?p + length xs"
    using sz v(1) bv_size_less [of v] by (intro u64_id) (simp add: bv_ok_def)
  then show ?thesis using 1 w by (simp add: bx_cons_part_def off add.assoc)
qed

lemma bx_cons_parse_at:
  assumes H: "\<And>bs. length (H bs) = 32" and v: "bv_ok v" "bv_bytes v = bx_encode (cons_parts H fv typ owner bvi h ts tail @ ps) sids"
    and small: "length (cons_payload bvi h ts tail) < 2 ^ 32" "length owner < 2 ^ 32" "length fv < 2 ^ 32" "typ < 256" "length ts < 2 ^ 32"
  obtains m where "bx_cons_parse v = Inr m" and "bxc_view m = v"
    and "bxc_sids_offset m = length (le_bytes 8 0 @ cons_parts H fv typ owner bvi h ts tail @ ps)"
    and "bxc_hash m = sha_of_binary (rev (H (H (ser_hashed h))))" and "bxc_tx_count m = length ts" and "bxc_type m = typ"
    and "bxc_len m = length (cons_payload bvi h ts tail)"
    and "bxc_tx_offset m = length (le_bytes 8 0 @ cons_parts H fv typ owner bvi h ts tail)"
    and "bv_ok (bxc_tail m)" and "bv_bytes (bxc_tail m) = tail" and "bv_size (bxc_tail m) = length tail"
    and "bv_ok (bxc_owner m)" and "bv_bytes (bxc_owner m) = owner" and "bv_size (bxc_owner m) = length owner"
    and "bv_ok (bxc_payload_header m)" and "bv_bytes (bxc_payload_header m) = fv" and "bv_size (bxc_payload_header m) = length fv"
    and "bv_ok (bxc_header m)" and "bv_bytes (bxc_header m) = cons_head bvi h ts" and "bv_size (bxc_header m) = length (cons_head bvi h ts)"
proof -
  note [simp del] = le_bytes.simps le_bytes_numeral
  let ?pl = "cons_payload bvi h ts tail" and ?hd = "cons_head bvi h ts" and ?dg = "rev (H (H (ser_hashed h)))"
  let ?parts = "cons_parts H fv typ owner bvi h ts tail"
  let ?z = "length (le_bytes 8 0 @ ?parts @ ps)" let ?rest = "ps @ le_bytes 4 (length sids) @ concat (map (le_bytes 4) sids)"
  let ?p1 = "le_bytes 8 ?z @ le_bytes 1 1 @ ?dg" let ?p2 = "?p1 @ le_bytes 4 (length ts)"
  let ?p3 = "?p2 @ le_bytes 4 (length tail) @ tail" let ?p4 = "?p3 @ le_bytes 4 (length owner) @ owner"
  let ?p5 = "?p4 @ le_bytes 4 (length fv) @ fv" let ?p6 = "?p5 @ le_bytes 1 typ" let ?p7 = "?p6 @ le_bytes 4 (length ?pl)"
  let ?p8 = "?p7 @ le_bytes 4 (length ?hd) @ ?hd"
  have eq: "bv_bytes v = ?p8 @ ?rest"
    using v(2) by (simp add: bx_encode_def cons_parts_def)
  have lt: "length tail < 2 ^ 32" "length ?hd < 2 ^ 32"
    using small(1) by (simp_all add: cons_payload_def cons_head_def)
  have vb: "bv_size v < 2 ^ 64" "bv_wf v" "bv_size v = length (bv_bytes v)"
    using v(1) bv_size_less [of v] length_bv_bytes [of v] by (simp_all add: bv_ok_def)
  have z: "?z < 256 ^ 8" using vb(1,3) by (simp add: eq cons_parts_def)
  have le: "get_le (bv_read v) k (length p) = Inr (x, length (p @ le_bytes k x))"
    if "bv_bytes v = p @ le_bytes k x @ q" "x < 256 ^ k" "0 < k" for p q k x
  proof -
    have "le_bytes k x \<noteq> []" using that(3) by (metis length_0_conv length_le_bytes less_numeral_extra(3))
    then show ?thesis using bvs.get_le_at [OF v(1) that(1)] that(2) by (simp add: le_val_le_bytes)
  qed
  have 1: "get_le (bv_read v) 8 0 = Inr (?z, 8)" using le [of "[]" 8 ?z] z eq by simp
  have lp: "length (le_bytes 8 ?z @ le_bytes 1 1) = 9" by simp
  have 2: "sha_read v 9 = Inr (sha_of_binary ?dg)"
  proof -
    have "slice 9 32 (bv_bytes v) = ?dg"
      unfolding eq using slice_middle [of "le_bytes 8 ?z @ le_bytes 1 1" 9 ?dg 32] H by simp
    moreover have "9 + 32 \<le> bv_size v" unfolding vb(3) eq using H by simp
    ultimately show ?thesis using sha_read_inside [OF vb(2), of 9] by simp
  qed
  have u: "u64 (8 + 1) = 9" "u64 (9 + 32) = length ?p1" using H by (simp_all add: u64_id)
  have 3: "get_le (bv_read v) 4 (length ?p1) = Inr (length ts, length ?p2)" using le [of ?p1 4 "length ts"] eq small by simp
  obtain w1 where w1: "bx_cons_part v (length ?p2) = Inr (w1, length ?p3)" "bv_ok w1" "bv_bytes w1 = tail" "bv_size w1 = length tail"
    using bx_cons_part_at [OF v(1) _ lt(1) refl, of ?p2] eq by auto
  obtain w2 where w2: "bx_cons_part v (length ?p3) = Inr (w2, length ?p4)" "bv_ok w2" "bv_bytes w2 = owner" "bv_size w2 = length owner"
    using bx_cons_part_at [OF v(1) _ small(2) refl, of ?p3] eq by auto
  obtain w3 where w3: "bx_cons_part v (length ?p4) = Inr (w3, length ?p5)" "bv_ok w3" "bv_bytes w3 = fv" "bv_size w3 = length fv"
    using bx_cons_part_at [OF v(1) _ small(3) refl, of ?p4] eq by auto
  have 4: "get_le (bv_read v) 1 (length ?p5) = Inr (typ, length ?p6)" using le [of ?p5 1 "typ"] eq small(4) by simp
  have 5: "get_le (bv_read v) 4 (length ?p6) = Inr (length ?pl, length ?p7)" using le [of ?p6 4 "length ?pl"] eq small(1) by simp
  obtain w4 where w4: "bx_cons_part v (length ?p7) = Inr (w4, length ?p8)" "bv_ok w4" "bv_bytes w4 = ?hd" "bv_size w4 = length ?hd"
    using bx_cons_part_at [OF v(1) _ lt(2) refl, of ?p7] eq by auto
  have p8: "length ?p8 = length (le_bytes 8 0 @ ?parts)" by (simp add: cons_parts_def)
  show thesis
    by (rule that [of "\<lparr>bxc_view = v, bxc_sids_offset = ?z, bxc_hash = sha_of_binary ?dg, bxc_tx_count = length ts, bxc_tail = w1,
        bxc_owner = w2, bxc_payload_header = w3, bxc_type = typ, bxc_len = length ?pl, bxc_header = w4, bxc_tx_offset = length ?p8\<rparr>"])
      (simp only: bx_cons_parse_def Let_def SHA256_BINARY_SIZE_def 1 2 3 u w1(1) w2(1) w3(1) w4(1) 4 5 rbind_simps prod.case,
       use w1 w2 w3 w4 p8 in simp_all)
qed

lemma bx_cons_get_next_tx_offset_at:
  assumes m: "bv_ok (bxc_view m)" "bv_bytes (bxc_view m) = pre @ piece ser_ont_tx cmpd t @ post"
    and t: "wf_ont_tx t" "\<not> cmpd t \<longrightarrow> hd (ser_ont_tx t) \<noteq> BTC_SHORT_ID_INDICATOR"
  shows "bx_cons_get_next_tx_offset m (length pre) = Inr (length (pre @ piece ser_ont_tx cmpd t), cmpd t)"
proof -
  let ?p = "piece ser_ont_tx cmpd t" and ?v = "bxc_view m"
  have ne: "?p \<noteq> []" using length_ser_ont_tx [OF t(1)] by (auto simp: piece_def)
  have eq: "bv_bytes ?v = pre @ [hd ?p] @ (tl ?p @ post)" using m(2) ne by simp
  have b: "bv_index ?v (length pre) = Inr (hd ?p)" using bvs.rd_middle [OF m(1) eq] by (simp add: bv_index_def)
  have small: "length pre + length ?p < 2 ^ 64" using bvs.bytes_small [OF m(1)] m(2) by simp
  show ?thesis
  proof (cases "cmpd t")
    case True
    then show ?thesis using b small by (simp add: bx_cons_get_next_tx_offset_def piece_def u64_id)
  next
    case False
    then have w: "bv_bytes ?v = pre @ ser_ont_tx t @ post" using m(2) by (simp add: piece_def)
    show ?thesis
      using b bvs.ont_get_next_tx_offset_at [OF m(1) t(1) w] False t(2)
      by (auto simp: bx_cons_get_next_tx_offset_def ont_get_next_tx_offset_def piece_def elim!: rbind_InrE)
  qed
qed

lemma bv_append_whole:
  assumes "bv_ok w" and "bv_size w = n"
  shows "bv_append acc w 0 n = Inr (acc @ bv_bytes w)"
  using assms bv_read_inside [of w 0 n] length_bv_bytes [of w] by (simp add: bv_append_def bv_ok_def slice_def)

lemma ont_cons_dcm_txs_spec:
  assumes m: "bv_ok (bxc_view m)" "bv_bytes (bxc_view m) = pre @ pieces ser_ont_tx cmpd ts @ post"
    and ts: "list_all wf_ont_tx ts" "list_all (receiver_has ser_ont_tx s cmpd sidf) ts"
  shows "ont_cons_dcm_txs m (length ts) (length pre) (map sidf (filter cmpd ts)) s acc = Inr (s, acc @ sers ser_ont_tx ts)"
  using m(2) ts
proof (induction ts arbitrary: pre acc)
  case Nil
  then show ?case by simp
next
  case (Cons t ts)
  let ?p = "piece ser_ont_tx cmpd t"
  have t: "wf_ont_tx t" "receiver_has ser_ont_tx s cmpd sidf t" using Cons.prems(2,3) by simp_all
  have eq: "bv_bytes (bxc_view m) = pre @ ?p @ (pieces ser_ont_tx cmpd ts @ post)" using Cons.prems(1) by simp
  have nx: "bx_cons_get_next_tx_offset m (length pre) = Inr (length (pre @ ?p), cmpd t)"
    using bx_cons_get_next_tx_offset_at [OF m(1) eq t(1)] t(2) by (simp add: receiver_has_def)
  have IH: "ont_cons_dcm_txs m (length ts) (length (pre @ ?p)) (map sidf (filter cmpd ts)) s acc = Inr (s, acc @ sers ser_ont_tx ts)" for acc
    using Cons.IH [of "pre @ ?p"] Cons.prems by simp
  show ?case
  proof (cases "cmpd t")
    case True
    then obtain h c where c: "ts_hash s (sidf t) = Some h" "mw_find (ts_contents s) h = Some (Some c)" "bv_ok c" "bv_bytes c = ser_ont_tx t"
      using t(2) by (auto simp: receiver_has_def)
    have "\<exists>x. get_transaction s (sidf t) = Inr (x, Some c, s)"
      using c(1,2) by (simp add: get_transaction_def mw_index_def mw_find_def mw_at_def)
    then show ?thesis using True nx IH [of "acc @ ser_ont_tx t"] bv_append_whole [OF c(3) refl] c(4) by auto
  next
    case False
    then have sl: "slice (length pre) (length (ser_ont_tx t)) (bv_bytes (bxc_view m)) = ser_ont_tx t" "?p = ser_ont_tx t"
      using eq by (simp_all add: piece_def slice_def)
    have sz: "length pre + length (ser_ont_tx t) \<le> bv_size (bxc_view m)"
      using eq sl(2) m(1) length_bv_bytes [of "bxc_view m"] by (simp add: bv_ok_def)
    then have "u64_sub (length (pre @ ?p)) (length pre) = length (ser_ont_tx t)"
      using m(1) bv_size_less [of "bxc_view m"] sl(2) by (simp add: bv_ok_def u64_sub_id)
    then show ?thesis
      using False nx IH [of "acc @ ser_ont_tx t"] sl bv_read_inside [of "bxc_view m" "length pre" "length (ser_ont_tx t)"] sz m(1)
      by (simp add: bv_append_def bv_ok_def)
  qed
qed

lemma bx_cons_deserialize_at:
  assumes v: "bv_ok (bxc_view m)" "bv_bytes (bxc_view m) = bx_encode body sids" and off: "bxc_sids_offset m = length (le_bytes 8 0 @ body)"
    and sids: "list_all (\<lambda>i. i < 2 ^ 32) sids" "length sids < 2 ^ 32"
  shows "bx_cons_deserialize_short_ids m = Inr sids"
proof -
  note [simp del] = le_bytes.simps le_bytes_numeral
  let ?m = "\<lparr>bxb_view = bxc_view m, bxb_sids_offset = bxc_sids_offset m, bxb_block = bxc_view m\<rparr>"
  have "bx_cons_deserialize_short_ids m = deserialize_short_ids ?m"
    by (simp only: bx_cons_deserialize_short_ids_def deserialize_short_ids_def bx_btc_block.select_convs)
  moreover have "deserialize_short_ids ?m = Inr sids"
    by (rule deserialize_short_ids_at [where pre = "le_bytes 8 (8 + length body) @ body"])
      (use v off sids in \<open>simp_all add: bx_encode_def\<close>)
  ultimately show ?thesis by simp
qed

section \<open>Decompression\<close>

lemma write_poke:
  assumes "written out off bs" and "xs \<noteq> []" and "length bs + length xs < 2 ^ 64"
  obtains out' where "ba_poke (ba_resize out (off + length xs)) off xs = Inr out'" and "written out' (off + length xs) (bs @ xs)"
proof -
  have w: "ba_wf out" "ba_bytes out = bs" "off = length bs" "ba_len out = length bs"
    using assms(1) length_ba_bytes [of out] by (auto simp: written_def)
  let ?o = "ba_resize out (off + length xs)"
  have o: "ba_wf ?o" "ba_len ?o = off + length xs" using w(1) by simp_all
  have "0 < length xs" using assms(2) by simp
  then obtain out' where "ba_poke ?o off xs = Inr out'" "ba_wf out'" "ba_bytes out' = patch off xs (ba_bytes ?o)"
    using ba_poke_inside [of ?o off xs] o by auto
  moreover have "patch off xs (ba_bytes ?o) = bs @ xs" using patch_resize_end [OF w(1), of "off + length xs" xs] w by simp
  ultimately show thesis using that [of out'] w(2,3) by (simp add: written_def)
qed

lemma ont_cons_dcm_init_out:
  assumes "ba_wf (od_out c)"
  obtains out where "ba_reset (ba_reserve (od_out (ont_cons_dcm_init shared c)) n) = Inr out" and "ba_wf out" and "ba_len out = 0"
proof -
  have "ba_wf (od_out (ont_cons_dcm_init shared c))" using assms by (simp add: ont_cons_dcm_init_def)
  then show thesis using that by (simp add: ba_reset_eq)
qed

lemma ont_cons_dcm_block_spec:
  assumes H: "\<And>bs. length (H bs) = 32" and out: "ba_wf (od_out c)" and pl: "pl = cons_payload bvi h ts tail"
    and w: "wf_cons_message jdec jenc front vi typ pl owner" "wf_cons_payload bvi h ts tail"
    and r: "list_all (receiver_has ser_ont_tx s cmpd sidf) ts" and sids: "list_all (\<lambda>t. cmpd t \<longrightarrow> sidf t < 2 ^ 32) ts"
    and v: "bv_ok v" "bv_bytes v = bx_encode (cons_parts H (front @ vi) typ owner bvi h ts tail @ pieces ser_ont_tx cmpd ts)
      (map sidf (filter cmpd ts))"
  shows "\<exists>c'. ont_cons_dcm_block jenc s shared c v = Inr (s, c') \<and> od_success c' \<and>
    ba_bytes (od_out c') = cons_message jenc front vi typ pl owner \<and> od_txn_count c' = length ts \<and>
    od_hash c' = Some (sha_of_binary (rev (H (H (ser_hashed h))))) \<and> od_sids c' = map sidf (filter cmpd ts) \<and>
    od_unknown_hashes c' = [] \<and> od_unknown_sids c' = []"
proof -
  note [simp del] = le_bytes.simps le_bytes_numeral
  let ?fv = "front @ vi" and ?json = "jenc typ (length pl) (b64 pl)" and ?sids = "map sidf (filter cmpd ts)"
  let ?parts = "cons_parts H ?fv typ owner bvi h ts tail"
  note sizes = cons_sizes [OF w(2), folded pl]
  have f: "typ < 256" "owner \<noteq> []" "?json \<noteq> []" "length front = 70" and msg: "length ?fv + length ?json + length owner < 2 ^ 32"
    and ts: "list_all wf_ont_tx ts"
    using w by (simp_all add: wf_cons_message_def wf_cons_payload_def cons_message_def)
  have lt: "length (cons_payload bvi h ts tail) < 2 ^ 32" "length owner < 2 ^ 32" "length ?fv < 2 ^ 32"
    using sizes(2) msg by (simp_all add: pl)
  obtain m where m: "bx_cons_parse v = Inr m" "bxc_view m = v" "bxc_sids_offset m = length (le_bytes 8 0 @ ?parts @ pieces ser_ont_tx cmpd ts)"
    "bxc_hash m = sha_of_binary (rev (H (H (ser_hashed h))))" "bxc_tx_count m = length ts" "bxc_type m = typ" "bxc_len m = length pl"
    "bxc_tx_offset m = length (le_bytes 8 0 @ ?parts)"
    "bv_ok (bxc_tail m)" "bv_bytes (bxc_tail m) = tail" "bv_size (bxc_tail m) = length tail"
    "bv_ok (bxc_owner m)" "bv_bytes (bxc_owner m) = owner" "bv_size (bxc_owner m) = length owner"
    "bv_ok (bxc_payload_header m)" "bv_bytes (bxc_payload_header m) = ?fv" "bv_size (bxc_payload_header m) = length ?fv"
    "bv_ok (bxc_header m)" "bv_bytes (bxc_header m) = cons_head bvi h ts" "bv_size (bxc_header m) = length (cons_head bvi h ts)"
    by (rule bx_cons_parse_at [where H = H, OF H v lt f(1) sizes(3)]) (simp add: pl)
  obtain out0 where o0: "ba_reset (ba_reserve (od_out (ont_cons_dcm_init shared c)) (bx_cons_get_original_block_size m)) = Inr out0"
    "ba_wf out0" "ba_len out0 = 0" by (rule ont_cons_dcm_init_out [OF out])
  have ls: "list_all (\<lambda>i. i < 2 ^ 32) ?sids" "length ?sids < 2 ^ 32"
    using sids le_less_trans [OF length_filter_le sizes(3), of cmpd] by (auto simp: list_all_iff)
  have ds: "bx_cons_deserialize_short_ids m = Inr ?sids"
    by (rule bx_cons_deserialize_at [OF _ _ m(3) ls]) (use m(2) v in simp_all)
  have w0: "written out0 0 []" using o0(2,3) by (simp add: written_def ba_bytes_def)
  have vp: "bv_bytes (bxc_payload_header m) = [] @ ?fv @ []" "bv_bytes (bxc_owner m) = [] @ owner @ []" using m(16,13) by simp_all
  have "\<exists>r. rbind (ba_copy_from_buffer out0 (bxc_payload_header m) 0 0 (length ?fv)) (\<lambda>(out, off). Inr (out, off)) = Inr r \<and>
      (case r of (out, off) \<Rightarrow> written out off ?fv)"
    by (rule write_copy [OF w0 m(15) vp(1)]) (use f(4) msg in simp_all)
  then obtain out1 where o1: "ba_copy_from_buffer out0 (bxc_payload_header m) 0 0 (length ?fv) = Inr (out1, length ?fv)"
    "written out1 (length ?fv) ?fv"
    by (auto simp: written_def elim!: rbind_InrE)
  obtain out2 where o2: "ba_poke (ba_resize out1 (length ?fv + length ?json)) (length ?fv) ?json = Inr out2"
    "written out2 (length ?fv + length ?json) (?fv @ ?json)"
    by (rule write_poke [OF o1(2) f(3)]) (use msg in simp)
  have "\<exists>r. rbind (ba_copy_from_buffer out2 (bxc_owner m) (length ?fv + length ?json) 0 (length owner)) (\<lambda>(out, off). Inr (out, off)) = Inr r \<and>
      (case r of (out, off) \<Rightarrow> written out off ((?fv @ ?json) @ owner))"
    by (rule write_copy [OF o2(2) m(12) vp(2)]) (use f(2) msg in simp_all)
  then obtain out3 k where o3: "ba_copy_from_buffer out2 (bxc_owner m) (length ?fv + length ?json) 0 (length owner) = Inr (out3, k)"
    "ba_bytes out3 = (?fv @ ?json) @ owner"
    by (auto simp: written_def elim!: rbind_InrE)
  have vb: "bv_bytes (bxc_view m) = (le_bytes 8 (8 + length (?parts @ pieces ser_ont_tx cmpd ts)) @ ?parts) @ pieces ser_ont_tx cmpd ts @
      (le_bytes 4 (length ?sids) @ concat (map (le_bytes 4) ?sids))"
    using v(2) m(2) by (simp add: bx_encode_def)
  have txs: "ont_cons_dcm_txs m (length ts) (bxc_tx_offset m) ?sids s acc = Inr (s, acc @ sers ser_ont_tx ts)" for acc
    using ont_cons_dcm_txs_spec [OF _ vb ts r, of acc] v(1) m(2,8) by simp
  have hd: "bv_append [] (bxc_header m) 0 (bv_size (bxc_header m)) = Inr (cons_head bvi h ts)"
    "bv_append acc (bxc_tail m) 0 (bv_size (bxc_tail m)) = Inr (acc @ tail)" for acc
    using bv_append_whole [OF m(18) refl, of "[]"] bv_append_whole [OF m(9) refl, of acc] m(19,10) by simp_all
  have plq: "(cons_head bvi h ts @ sers ser_ont_tx ts) @ tail = pl" using sizes(4) by simp
  have e: "base64_encode pl = Inr (b64 pl)" by (rule base64_encode_spec) (use sizes(1,2) in simp_all)
  have u: "u64 (length ?fv + length ?json) = length ?fv + length ?json" using msg by (intro u64_id) simp
  define c1 where "c1 = (ont_cons_dcm_init shared c)\<lparr>od_hash := Some (bxc_hash m), od_sids := ?sids, od_success := True,
    od_unknown_hashes := [], od_unknown_sids := [], od_txn_count := length ts, od_out := ba_set_output out3\<rparr>"
  have i: "od_sids (ont_cons_dcm_init shared c) = []" "od_unknown_hashes (ont_cons_dcm_init shared c) = []"
    "od_unknown_sids (ont_cons_dcm_init shared c) = []" by (simp_all add: ont_cons_dcm_init_def)
  have "ont_cons_dcm_block jenc s shared c v = Inr (s, c1)"
    unfolding ont_cons_dcm_block_def ont_cons_dcm_execute_def
    by (simp add: m(1) o0(1) ds get_missing_none [OF r] i m(5,6,7,14,17) o1(1) hd txs plq e u o2(1) o3(1) c1_def Let_def del: length_append append_assoc)
  then show ?thesis using o3(2) m(4) by (simp add: c1_def cons_message_def)
qed


section \<open>Properties\<close>

lemma cons_encode_small:
  assumes H: "\<And>bs. length (H bs) = 32" and w: "wf_cons_message jdec jenc front vi typ (cons_payload bvi h ts tail) owner" "wf_cons_payload bvi h ts tail"
  shows "length (bx_encode (cons_parts H (front @ vi) typ owner bvi h ts tail @ pieces ser_ont_tx cmpd ts)
    (piece_sids (ont_tx_hash H) s cmpd ts)) < 2 ^ 64"
proof -
  note sizes = cons_sizes [OF w(2)]
  have "length (pieces ser_ont_tx cmpd ts) \<le> length (sers ser_ont_tx ts)"
    using w(2) by (intro ont_bx.length_pieces) (simp add: wf_cons_payload_def)
  moreover have "length owner + length (front @ vi) < 2 ^ 32" using w(1) by (simp add: wf_cons_message_def cons_message_def)
  moreover have "length (cons_head bvi h ts) + length (sers ser_ont_tx ts) + length tail < 2 ^ 32" using sizes(2) unfolding sizes(4) by simp
  ultimately show ?thesis
    using sizes(3) length_piece_sids [of "ont_tx_hash H" s cmpd ts] length_cons_parts [where H = H, OF H, of "front @ vi" "typ" owner bvi h ts tail]
    by (simp add: bx_encode_def length_concat_le_bytes)
qed

text \<open>
  C5: a receiver that can resolve the short ids of the sender gets back, byte for byte, the consensus
  message the sender compressed: the block inside is taken out of its Base64 and JSON wrapping, compressed, rebuilt
  and wrapped again, and the bytes behind the block and behind the JSON string come back too. This holds for
  every JSON library that prints the message the way its sender did. The sender's list of ignored short ids
  is not emptied between messages: the ids of this message stand behind those of all earlier ones.
\<close>

theorem ont_consensus_round_trip:
  assumes H: "\<And>bs. length (H bs) = 32" and out: "ba_wf (ok_out c)" "ba_wf (od_out d)"
    and v: "bv_ok v" "bv_bytes v = cons_message jenc front vi typ (cons_payload bvi h ts tail) owner"
    and w: "wf_cons_message jdec jenc front vi typ (cons_payload bvi h ts tail) owner" "wf_cons_payload bvi h ts tail"
    and s: "list_all (ont_sender_ok H s) ts"
    and r: "list_all (receiver_has ser_ont_tx s' (ont_compressed H s enable (now - age)) (\<lambda>t. tx_sid s (ont_tx_hash H t))) ts"
    and sids: "list_all (\<lambda>t. ont_compressed H s enable (now - age) t \<longrightarrow> tx_sid s (ont_tx_hash H t) < 2 ^ 32) ts"
  shows "\<exists>c' d'. ont_cons_cmp_block H jdec s enable now age shared c v = Inr c' \<and>
    ok_sids c' = piece_sids (ont_tx_hash H) s (ont_compressed H s enable (now - age)) ts \<and>
    ok_ignored c' = ok_ignored c @ ignored_sids (ont_tx_hash H) s (ont_compressed H s enable (now - age)) ts \<and>
    ont_cons_dcm_block jenc s' shared' d (bv_msg (ba_bytes (ok_out c'))) = Inr (s', d') \<and>
    od_success d' \<and> ba_bytes (od_out d') = bv_bytes v \<and> od_hash d' = ok_hash c'"
proof -
  let ?cmpd = "ont_compressed H s enable (now - age)"
  let ?body = "cons_parts H (front @ vi) typ owner bvi h ts tail @ pieces ser_ont_tx ?cmpd ts"
  obtain c' where c': "ont_cons_cmp_block H jdec s enable now age shared c v = Inr c'"
    "ba_bytes (ok_out c') = bx_encode ?body (piece_sids (ont_tx_hash H) s ?cmpd ts)"
    "ok_sids c' = piece_sids (ont_tx_hash H) s ?cmpd ts" "ok_ignored c' = ok_ignored c @ ignored_sids (ont_tx_hash H) s ?cmpd ts"
    "ok_hash c' = Some (sha_of_binary (rev (H (H (ser_hashed h)))))"
    using ont_cons_cmp_block_spec [where H = H, OF H out(1) v refl w s refl] by blast
  have ok: "bv_ok (bv_msg (ba_bytes (ok_out c')))"
    using cons_encode_small [where H = H, OF H w, of ?cmpd s] unfolding bv_ok_msg c'(2) .
  have bytes: "bv_bytes (bv_msg (ba_bytes (ok_out c'))) = bx_encode ?body (map (\<lambda>t. tx_sid s (ont_tx_hash H t)) (filter ?cmpd ts))"
    unfolding bv_msg_simps c'(2) piece_sids_def ..
  obtain d' where "ont_cons_dcm_block jenc s' shared' d (bv_msg (ba_bytes (ok_out c'))) = Inr (s', d')" "od_success d'"
    "ba_bytes (od_out d') = cons_message jenc front vi typ (cons_payload bvi h ts tail) owner"
    "od_hash d' = Some (sha_of_binary (rev (H (H (ser_hashed h)))))"
    using ont_cons_dcm_block_spec [where H = H and shared = shared', OF H out(2) refl w r sids ok bytes] by blast
  with c' v(2) show ?thesis by auto
qed

text \<open>An example: the block of an invocation that has a short id and a deployment that has none, in a message with a plain frame.\<close>

definition cons_demo_enc :: json_enc where
  "cons_demo_enc typ len payload = of_nat typ # le_bytes 8 len @ payload"

definition cons_demo_dec :: json_dec where
  "cons_demo_dec bs = Inr (unat (hd bs), le_val (take 8 (tl bs)), drop 9 bs)"

definition cons_demo_hdr :: ont_hdr where
  "cons_demo_hdr = ont_demo_hdr\<lparr>oh_front := replicate 116 0\<rparr>"

abbreviation cons_demo_payload :: "byte list" where
  "cons_demo_payload \<equiv> cons_payload [0xfd, 0x17, 1] cons_demo_hdr [ont_demo_invoke, ont_demo_deploy] [9]"

abbreviation cons_demo_message :: "byte list" where
  "cons_demo_message \<equiv> cons_message cons_demo_enc (replicate 70 0) [0xfd, 0x85, 1] 3 cons_demo_payload [5]"

lemma cons_demo_facts:
  "wf_cons_payload [0xfd, 0x17, 1] cons_demo_hdr [ont_demo_invoke, ont_demo_deploy] [9]"
  "wf_cons_message cons_demo_dec cons_demo_enc (replicate 70 0) [0xfd, 0x85, 1] 3 cons_demo_payload [5]"
  "bv_ok (bv_msg cons_demo_message)"
proof -
  have tx: "wf_ont_tx ont_demo_invoke" "wf_ont_tx ont_demo_deploy"
    using ont_demo_block_facts(1) by (simp_all add: wf_ont_block_def)
  have h: "wf_cons_hdr cons_demo_hdr"
    by (simp add: wf_cons_hdr_def wf_ont_hdr_def cons_demo_hdr_def ont_demo_hdr_def wf_item_def wf_vi_def vi_val_def btc_consts)
  have lh: "length (ser_ont_hdr cons_demo_hdr) = 173"
    by (simp add: ser_ont_hdr_def ser_hashed_def cons_demo_hdr_def ont_demo_hdr_def ser_item_def)
  then have lp: "length cons_demo_payload = 283" by (simp add: cons_payload_def ont_demo_ser)
  show "wf_cons_payload [0xfd, 0x17, 1] cons_demo_hdr [ont_demo_invoke, ont_demo_deploy] [9]"
    using tx h lh lp by (simp add: wf_cons_payload_def ont_demo_ser wf_vi_def vi_val_def btc_consts)
  have lj: "length (cons_demo_enc 3 283 (b64 cons_demo_payload)) = 389" using lp by (simp add: cons_demo_enc_def length_b64)
  show "wf_cons_message cons_demo_dec cons_demo_enc (replicate 70 0) [0xfd, 0x85, 1] 3 cons_demo_payload [5]"
    using lp lj
    by (simp add: wf_cons_message_def cons_message_def wf_vi_def vi_val_def btc_consts)
      (simp add: cons_demo_dec_def cons_demo_enc_def le_val_le_bytes del: le_bytes.simps le_bytes_numeral)
  show "bv_ok (bv_msg cons_demo_message)" using lp lj by (simp add: bv_ok_msg cons_message_def)
qed

theorem ont_consensus_round_trip_witness:
  "\<exists>c' d'. ont_cons_cmp_block demo_H cons_demo_dec (sid_service ont_demo_hash) True 10 10 False (ont_cons_cmp_new 1000)
      (bv_msg cons_demo_message) = Inr c' \<and> ok_sids c' = [7] \<and>
    ont_cons_dcm_block cons_demo_enc ont_demo_receiver False (ont_cons_dcm_new 1000) (bv_msg (ba_bytes (ok_out c'))) =
      Inr (ont_demo_receiver, d') \<and>
    ba_bytes (od_out d') = cons_demo_message"
proof -
  let ?s = "sid_service ont_demo_hash" and ?ts = "[ont_demo_invoke, ont_demo_deploy]"
  note f = ont_demo_senders [OF refl] ont_demo_hashes
  have r: "list_all (receiver_has ser_ont_tx ont_demo_receiver (ont_compressed demo_H ?s True (10 - 10))
      (\<lambda>t. tx_sid ?s (ont_tx_hash demo_H t))) ?ts"
    using ont_demo_receiver_ok f(2) by (simp add: receiver_has_def [of _ _ _ _ ont_demo_deploy] ont_demo_ser BTC_SHORT_ID_INDICATOR_def)
  have i: "list_all (\<lambda>t. ont_compressed demo_H ?s True (10 - 10) t \<longrightarrow> tx_sid ?s (ont_tx_hash demo_H t) < 2 ^ 32) ?ts"
    using f by simp
  have o: "ba_wf (ok_out (ont_cons_cmp_new 1000))" "ba_wf (od_out (ont_cons_dcm_new 1000))"
    by (simp_all add: ont_cons_cmp_new_def ont_cons_dcm_new_def)
  have b: "bv_bytes (bv_msg cons_demo_message) = cons_demo_message" by simp
  have "piece_sids (ont_tx_hash demo_H) ?s (ont_compressed demo_H ?s True (10 - 10)) ?ts = [7]"
    using f by (simp add: piece_sids_def)
  with ont_consensus_round_trip [where H = demo_H and shared = False and shared' = False,
      OF length_demo_H o cons_demo_facts(3) b cons_demo_facts(2,1) f(4) r i]
  show ?thesis unfolding b by fastforce
qed

end
