(* ===== verification/HexString.thy ===== *)
theory HexString
  imports Sha256
begin

text \<open>
  Hexadecimal strings: \<^verbatim>\<open>src/lib/libutils/utils/common/string_helper.h\<close>, \<^verbatim>\<open>string_helper.cpp\<close>, and the members of
  \<open>Sha256\<close> that print and read them. A string is a list of characters.

  \<^verbatim>\<open>from_hex_string\<close> reads pairs of characters through a string stream. What the stream has not consumed
  stays in it, because \<^verbatim>\<open>clear\<close> only resets its state. The extraction of an unsigned number follows the
  standard library: it skips white space, accepts a sign and \<^verbatim>\<open>0x\<close>, and stores 0 when no digit follows. An extraction
  that finds nothing but white space leaves the variable uninitialised, which is undefined behaviour: \<open>MemFault\<close>.
\<close>

section \<open>Printing\<close>

definition hex_digit :: "nat \<Rightarrow> char" where
  "hex_digit d = ''0123456789abcdef'' ! d"

fun hex_nat :: "nat \<Rightarrow> string" where
  \<comment> \<open>\<^verbatim>\<open>ss << std::hex << n\<close>\<close>
  "hex_nat n = (if n < 16 then [hex_digit n] else hex_nat (n div 16) @ [hex_digit (n mod 16)])"

declare hex_nat.simps [simp del]

definition hex_pad :: "nat \<Rightarrow> string" where
  \<comment> \<open>\<^verbatim>\<open>ss << std::hex << std::setw(2) << std::setfill('0') << n\<close>\<close>
  "hex_pad n = replicate (2 - length (hex_nat n)) CHR ''0'' @ hex_nat n"

definition to_hex_string :: "byte list \<Rightarrow> string" where
  "to_hex_string bytes = concat (map (\<lambda>b. hex_pad (unat b)) bytes)"

section \<open>Reading\<close>

definition is_space :: "char \<Rightarrow> bool" where
  "is_space c \<longleftrightarrow> c \<in> set [CHR 0x20, CHR 0x09, CHR 0x0A, CHR 0x0B, CHR 0x0C, CHR 0x0D]"

definition hex_val :: "char \<Rightarrow> nat option" where
  "hex_val c =
     (let n = of_char c :: nat
      in if 48 \<le> n \<and> n \<le> 57 then Some (n - 48)
         else if 97 \<le> n \<and> n \<le> 102 then Some (n - 87)
         else if 65 \<le> n \<and> n \<le> 70 then Some (n - 55) else None)"

fun hex_digits :: "string \<Rightarrow> nat \<Rightarrow> nat \<times> string" where
  \<comment> \<open>the value of the digits at the front and what follows them\<close>
  "hex_digits [] acc = (acc, [])"
| "hex_digits (c # cs) acc = (case hex_val c of None \<Rightarrow> (acc, c # cs) | Some d \<Rightarrow> hex_digits cs (16 * acc + d))"

definition take_sign :: "string \<Rightarrow> bool \<times> string" where
  "take_sign cs = (if cs \<noteq> [] \<and> hd cs = CHR ''-'' then (True, tl cs) else if cs \<noteq> [] \<and> hd cs = CHR ''+'' then (False, tl cs) else (False, cs))"

definition take_0x :: "string \<Rightarrow> string" where
  "take_0x cs = (if 2 \<le> length cs \<and> cs ! 0 = CHR ''0'' \<and> cs ! 1 \<in> set ''xX'' then drop 2 cs else cs)"

definition extract_hex :: "string \<Rightarrow> nat option \<times> string" where
  \<comment> \<open>\<^verbatim>\<open>ss >> std::hex >> byte\<close> for an \<^verbatim>\<open>unsigned short\<close>: the value stored, if any, and what is left in the stream\<close>
  "extract_hex cs =
     (let cs = dropWhile is_space cs
      in if cs = [] then (None, [])
         else let (neg, cs) = take_sign cs; cs = take_0x cs; (v, rest) = hex_digits cs 0
              in (Some (if 65535 < v then 65535 else if neg then (65536 - v) mod 65536 else v), rest))"

function from_hex_loop :: "string \<Rightarrow> nat \<Rightarrow> string \<Rightarrow> byte list \<Rightarrow> byte list res" where
  \<comment> \<open>the loop at \<^verbatim>\<open>idx\<close>, with the contents of the stream and the bytes so far\<close>
  "from_hex_loop hex_str idx ss bytes =
     (if idx < length hex_str then
        (case extract_hex (ss @ take 2 (drop idx hex_str)) of
           (None, _) \<Rightarrow> Inl MemFault
         | (Some byte, ss) \<Rightarrow> from_hex_loop hex_str (idx + 2) ss (bytes @ [of_nat byte]))
      else Inr bytes)"
  by pat_completeness auto
termination
  by (relation "measure (\<lambda>(s, idx, _). length s - idx)") auto

declare from_hex_loop.simps [simp del]

definition from_hex_string :: "string \<Rightarrow> byte list \<Rightarrow> byte list res" where
  "from_hex_string hex_str bytes = from_hex_loop hex_str 0 [] bytes"

definition sha_of_hex :: "string \<Rightarrow> sha256 res" where
  "sha_of_hex hex_string =
     (if length hex_string = 2 * SHA256_BINARY_SIZE then
        rbind (from_hex_string hex_string []) (\<lambda>sha_vector.
          if sha_vector = [] then Inl OutOfRange
          else rbind (vec_read sha_vector 0 SHA256_BINARY_SIZE) (\<lambda>bs. Inr (sha_of_binary bs)))
      else Inr sha_zero)"

definition sha_hex_string :: "sha256 \<Rightarrow> string" where
  "sha_hex_string s = to_hex_string (sha_binary s)"

definition sha_repr :: "sha256 \<Rightarrow> string" where
  "sha_repr s = ''Sha256: '' @ sha_hex_string s"

section \<open>Two digits for a byte\<close>

lemma hex_val_digit:
  assumes "d < 16"
  shows "hex_val (hex_digit d) = Some d" and "\<not> is_space (hex_digit d)" and "hex_digit d \<notin> set ''+-xX''"
proof -
  have "list_all (\<lambda>d. hex_val (hex_digit d) = Some d \<and> \<not> is_space (hex_digit d) \<and> hex_digit d \<notin> set ''+-xX'') [0..<16]"
    by (simp add: upt_rec numeral_eq_Suc hex_val_def hex_digit_def is_space_def)
  then show "hex_val (hex_digit d) = Some d" "\<not> is_space (hex_digit d)" "hex_digit d \<notin> set ''+-xX''"
    using assms by (auto simp: list_all_iff)
qed

lemma hex_pad_byte:
  assumes "n < 256"
  shows "hex_pad n = [hex_digit (n div 16), hex_digit (n mod 16)]"
proof -
  have "n div 16 < 16" using assms by simp
  then show ?thesis
    by (cases "n < 16") (simp_all add: hex_pad_def hex_nat.simps [of n] hex_nat.simps [of "n div 16"] hex_digit_def)
qed

lemma extract_hex_pair:
  assumes "a < 16" and "b < 16"
  shows "extract_hex [hex_digit a, hex_digit b] = (Some (16 * a + b), [])"
  using hex_val_digit [OF assms(1)] hex_val_digit [OF assms(2)] assms
  by (simp add: extract_hex_def take_sign_def take_0x_def)

lemma byte_bound: "unat (b :: byte) < 256"
  using unsigned_less [of b] by simp

lemma length_to_hex_string: "length (to_hex_string bs) = 2 * length bs"
  by (induction bs) (simp_all add: to_hex_string_def hex_pad_byte byte_bound)

lemma from_hex_loop_to_hex:
  "from_hex_loop (to_hex_string (done @ bs)) (2 * length done) [] acc = Inr (acc @ bs)"
proof (induction bs arbitrary: "done" acc)
  case Nil
  then show ?case by (subst from_hex_loop.simps) (simp add: length_to_hex_string)
next
  case (Cons b bs)
  let ?s = "to_hex_string (done @ b # bs)"
  have b: "unat b < 256" by (rule byte_bound)
  have d: "length (to_hex_string done) = 2 * length done" by (rule length_to_hex_string)
  have split: "?s = to_hex_string done @ hex_pad (unat b) @ to_hex_string bs" by (simp add: to_hex_string_def)
  have "take 2 (drop (2 * length done) ?s) = hex_pad (unat b)" unfolding split using d b by (simp add: hex_pad_byte)
  then have e: "extract_hex ([] @ take 2 (drop (2 * length done) ?s)) = (Some (unat b), [])"
    using b by (simp add: hex_pad_byte extract_hex_pair)
  have "from_hex_loop ?s (2 * length done) [] acc = from_hex_loop ?s (2 * length done + 2) [] (acc @ [b])"
    by (subst from_hex_loop.simps) (simp only: e prod.case option.case length_to_hex_string, simp)
  then show ?case using Cons.IH [of "done @ [b]" "acc @ [b]"] by simp
qed

lemma from_hex_string_to_hex: "from_hex_string (to_hex_string bs) acc = Inr (acc @ bs)"
  using from_hex_loop_to_hex [of "[]" bs acc] by (simp add: from_hex_string_def)

text \<open>
  A hash that is read from its hexadecimal string is the hash that was printed, with its cached
  hash value; the reader of the bytes appends to what the vector holds.
\<close>

theorem sha_hex_round_trip:
  assumes "sha_wf s"
  shows "sha_of_hex (sha_hex_string s) = Inr s \<and> from_hex_string (sha_hex_string s) bytes = Inr (bytes @ sha_binary s)"
proof
  show "from_hex_string (sha_hex_string s) bytes = Inr (bytes @ sha_binary s)"
    by (simp add: sha_hex_string_def from_hex_string_to_hex)
  have len: "length (sha_binary s) = 32" "sha_hash s = get_hash (sha_binary s)" using assms by (simp_all add: sha_wf_def)
  then have "sha_binary s \<noteq> []" by auto
  then show "sha_of_hex (sha_hex_string s) = Inr s"
    using len by (simp add: sha_of_hex_def sha_hex_string_def from_hex_string_to_hex length_to_hex_string SHA256_BINARY_SIZE_def
        vec_read_def slice_def sha_of_binary_def)
qed

theorem sha_hex_round_trip_witness:
  "sha_hex_string (sha_of_binary (0xAB # replicate 31 0)) = ''ab'' @ replicate 62 CHR ''0'' \<and>
   sha_of_hex (''ab'' @ replicate 62 CHR ''0'') = Inr (sha_of_binary (0xAB # replicate 31 0))"
proof -
  have h: "sha_hex_string (sha_of_binary (0xAB # replicate 31 0)) = ''ab'' @ replicate 62 CHR ''0''" by code_simp
  have "sha_wf (sha_of_binary (0xAB # replicate 31 0))" by simp
  from sha_hex_round_trip [OF this] h show ?thesis by simp
qed

text \<open>What is not a pair of digits: characters the stream does not consume block all later pairs, and \<^verbatim>\<open>0x\<close> gives a byte.\<close>

lemma from_hex_string_examples:
  "from_hex_string ''0x11'' [] = Inr [0, 0x11]" "from_hex_string ''g011'' [] = Inr [0, 0]" "from_hex_string ''123'' [] = Inr [0x12, 3]"
  by (simp_all add: from_hex_string_def from_hex_loop.simps extract_hex_def take_sign_def take_0x_def hex_val_def is_space_def)

end
