(* ===== verification/EthJson.thy ===== *)
theory EthJson
  imports EthTx HexString
begin

text \<open>
  The JSON of an Ethereum block: \<^verbatim>\<open>eth_block_header.cpp\<close>, \<^verbatim>\<open>EthTxMessage::to_json\<close> of \<^verbatim>\<open>eth_tx_message.cpp\<close> and
  \<^verbatim>\<open>TransactionService::eth_block_to_json\<close>. The strings are built as the code builds them, with the quotes and
  commas it leaves out.

  The base fee of a header is never set and is an argument; \<open>fresh\<close> is a transaction message with its uninitialised
  members. \<open>None\<close> is a loop that does not end.
\<close>

section \<open>Results of loops that may not end\<close>

definition orbind :: "('a res) option \<Rightarrow> ('a \<Rightarrow> ('b res) option) \<Rightarrow> ('b res) option" where
  "orbind m f = Option.bind m (\<lambda>r. case r of Inl e \<Rightarrow> Some (Inl e) | Inr x \<Rightarrow> f x)"

lemma orbind_simps [simp]:
  "orbind None f = None" "orbind (Some (Inl e)) f = Some (Inl e)" "orbind (Some (Inr x)) f = f x"
  by (simp_all add: orbind_def)

lemma orbind_mono [partial_function_mono]:
  assumes "mono_option B" and "\<And>y. mono_option (C y)"
  shows "mono_option (\<lambda>f. orbind (B f) (\<lambda>y. C y f))"
  unfolding orbind_def
proof (intro bind_mono assms)
  fix r :: "'c res"
  show "mono_option (\<lambda>f. case r of Inl e \<Rightarrow> Some (Inl e) | Inr x \<Rightarrow> C x f)"
    by (cases r) (simp_all add: assms option.const_mono)
qed

section \<open>Members of an object\<close>

definition json_hex :: "string \<Rightarrow> string \<Rightarrow> string" where
  \<comment> \<open>a name and a number in quotes\<close>
  "json_hex name digits = [CHR 0x22] @ name @ [CHR 0x22, CHR '':'', CHR 0x22] @ ''0x'' @ digits @ [CHR 0x22]"

definition json_half_hex :: "string \<Rightarrow> string \<Rightarrow> string" where
  \<comment> \<open>the number lacks its first quote\<close>
  "json_half_hex name digits = [CHR 0x22] @ name @ [CHR 0x22, CHR '':''] @ ''0x'' @ digits @ [CHR 0x22]"

definition json_name :: "string \<Rightarrow> string" where
  "json_name name = [CHR 0x22] @ name @ [CHR 0x22, CHR '':'']"

fun json_commas :: "string list \<Rightarrow> string" where
  "json_commas [] = []"
| "json_commas [s] = s"
| "json_commas (s # t # ss) = s @ '','' @ json_commas (t # ss)"

section \<open>EthBlockHeader\<close>

record eth_block_header =
  eh_prev_hash :: sha256
  eh_uncles_hash :: sha256
  eh_mix_hash :: sha256
  eh_coinbase :: "byte list"
  eh_state_root :: "byte list"
  eh_transaction_root :: "byte list"
  eh_receipt_root :: "byte list"
  eh_difficulty :: nat
  eh_block_number :: nat
  eh_gas_limit :: nat
  eh_gas_used :: nat
  eh_timestamp :: nat
  eh_base_fee_per_gas :: nat
  eh_nonce :: nat
  eh_extra_data :: "byte list"
  eh_bloom :: "byte list"

definition item_hash :: "rlp list \<Rightarrow> nat \<Rightarrow> sha256 res" where
  "item_hash items idx = rbind (rbind (item_of items idx) as_rlp_string) (\<lambda>w. sha_read w 0)"

definition eth_header_fields :: "nat \<Rightarrow> rlp list \<Rightarrow> eth_block_header res" where
  "eth_header_fields base_fee items =
     rbind (item_hash items 0) (\<lambda>prev_hash.
     rbind (item_hash items 1) (\<lambda>uncles_hash.
     rbind (item_vector items 2) (\<lambda>coinbase.
     rbind (item_vector items 3) (\<lambda>state_root.
     rbind (item_vector items 4) (\<lambda>transaction_root.
     rbind (item_vector items 5) (\<lambda>receipt_root.
     rbind (item_vector items 6) (\<lambda>bloom.
     rbind (item_int items 7) (\<lambda>difficulty.
     rbind (item_int items 8) (\<lambda>block_number.
     rbind (item_int items 9) (\<lambda>gas_limit.
     rbind (item_int items 10) (\<lambda>gas_used.
     rbind (item_int items 11) (\<lambda>timestamp.
     rbind (item_vector items 12) (\<lambda>extra_data.
     rbind (item_hash items 13) (\<lambda>mix_hash.
     rbind (item_int items 14) (\<lambda>nonce.
       Inr \<lparr>eh_prev_hash = prev_hash, eh_uncles_hash = uncles_hash, eh_mix_hash = mix_hash, eh_coinbase = coinbase,
            eh_state_root = state_root, eh_transaction_root = transaction_root, eh_receipt_root = receipt_root,
            eh_difficulty = difficulty, eh_block_number = block_number, eh_gas_limit = gas_limit, eh_gas_used = gas_used,
            eh_timestamp = timestamp, eh_base_fee_per_gas = base_fee, eh_nonce = nonce, eh_extra_data = extra_data,
            eh_bloom = bloom\<rparr>)))))))))))))))"

definition eth_header_new :: "nat \<Rightarrow> buffer_view \<Rightarrow> (eth_block_header res) option" where
  "eth_header_new base_fee v =
     orbind (Some (rlp_new v 0)) (\<lambda>rlp.
     orbind (get_rlp_list rlp) (\<lambda>items. Some (eth_header_fields base_fee items)))"

definition eth_header_to_json :: "eth_block_header \<Rightarrow> string" where
  "eth_header_to_json h =
     json_name ''header'' @ ''{'' @
     json_commas
       [json_hex ''parentHash'' (sha_hex_string (eh_prev_hash h)),
        json_hex ''sha3Uncles'' (sha_hex_string (eh_uncles_hash h)),
        json_hex ''miner'' (to_hex_string (eh_coinbase h)),
        json_hex ''stateRoot'' (to_hex_string (eh_state_root h)),
        json_hex ''transactionsRoot'' (to_hex_string (eh_transaction_root h)),
        json_hex ''receiptsRoot'' (to_hex_string (eh_receipt_root h)),
        json_half_hex ''logsBloom'' (to_hex_string (eh_bloom h)),
        json_half_hex ''difficulty'' (hex_nat (eh_difficulty h)),
        json_half_hex ''number'' (hex_nat (eh_block_number h)),
        json_half_hex ''gasLimit'' (hex_nat (eh_gas_limit h)),
        json_half_hex ''gasUsed'' (hex_nat (eh_gas_used h)),
        json_half_hex ''timestamp'' (hex_nat (eh_timestamp h)),
        json_hex ''extraData'' (to_hex_string (eh_extra_data h)),
        json_hex ''mixHash'' (sha_hex_string (eh_mix_hash h)),
        json_half_hex ''nonce'' (hex_nat (eh_nonce h)),
        json_half_hex ''baseFeePerGas'' (hex_nat (eh_base_fee_per_gas h))] @ ''}''"

section \<open>EthTxMessage::to_json\<close>

definition view_to_hex :: "buffer_view \<Rightarrow> string res" where
  \<comment> \<open>\<^verbatim>\<open>to_hex_string\<close> of a view, from \<^verbatim>\<open>begin()\<close> to \<^verbatim>\<open>end()\<close>\<close>
  "view_to_hex w = (if bv_size w = 0 then Inr [] else rbind (bv_read w 0 (bv_size w)) (\<lambda>bs. Inr (to_hex_string bs)))"

fun storage_keys_json :: "rlp list \<Rightarrow> string res" where
  \<comment> \<open>the strings of the list in quotes, separated by commas\<close>
  "storage_keys_json [] = Inr []"
| "storage_keys_json (r # rs) =
     rbind (rbind (as_rlp_string r) view_to_hex) (\<lambda>s.
     rbind (storage_keys_json rs) (\<lambda>rest. Inr ([CHR 0x22] @ ''0x'' @ s @ [CHR 0x22] @ (if rs = [] then [] else '','') @ rest)))"

definition access_entry_json :: "buffer_view \<Rightarrow> nat \<Rightarrow> ((string \<times> nat) res) option" where
  \<comment> \<open>one entry and the offset behind it\<close>
  "access_entry_json v from =
     orbind (Some (rlp_new v from)) (\<lambda>rlp.
     orbind (get_rlp_list rlp) (\<lambda>items.
     orbind (Some (rbind (rbind (item_of items 0) as_rlp_string) view_to_hex)) (\<lambda>address.
     orbind (Some (rbind (item_of items 1) (\<lambda>r. rlp_new v (rlp_starting_offset r)))) (\<lambda>storage.
     orbind (get_rlp_list storage) (\<lambda>keys.
     orbind (Some (storage_keys_json keys)) (\<lambda>keys.
       Some (Inr (''{'' @ json_hex ''address'' address @ '','' @ json_name ''storageKeys'' @ ''['' @ keys @ '']}'',
         u64 (rlp_length rlp + rlp_val_offset rlp)))))))))"

partial_function (option) access_list_loop :: "buffer_view \<Rightarrow> nat \<Rightarrow> nat \<Rightarrow> string \<Rightarrow> (string res) option" where
  "access_list_loop v fin from acc =
     (if from < fin then
        orbind (access_entry_json v from) (\<lambda>(s, from).
          access_list_loop v fin from (acc @ s @ (if from < fin then '','' else [])))
      else Some (Inr acc))"

definition access_list_json :: "byte list \<Rightarrow> (string res) option" where
  "access_list_json access_list =
     orbind (if 0 < length access_list
             then access_list_loop (bv_of_ptr access_list (length access_list) 0) (length access_list) 0 []
             else Some (Inr [])) (\<lambda>s.
       Some (Inr (json_name ''accessList'' @ ''['' @ s @ '']'')))"

definition words_to_hex :: "nat list \<Rightarrow> string" where
  \<comment> \<open>\<^verbatim>\<open>to_hex_string\<close> of a vector of 64-bit words: each is cut to a byte\<close>
  "words_to_hex ws = to_hex_string (map of_nat ws)"

definition eth_tx_to_json :: "eth_tx \<Rightarrow> (string res) option" where
  "eth_tx_to_json m =
     (let ty = et_payload_type m;
          front = [json_hex ''type'' (hex_pad ty), json_hex ''hash'' (sha_hex_string (et_sha m))];
          middle = (\<lambda>data. [json_hex ''to'' (to_hex_string (et_address m)), json_hex ''value'' (words_to_hex (et_value m)),
            json_hex ''data'' (to_hex_string data)]);
          back = [json_hex ''r'' (to_hex_string (et_r m)), json_hex ''s'' (to_hex_string (et_s m))]
      in if ETH_TX_TYPE_2 < ty then Some (Inr (''{'' @ json_commas front @ '',''))
         else
           orbind (Some (bv_vector (et_data m) (bv_get_offset (et_data m)) (bv_size (et_data m)))) (\<lambda>data.
           if ty = ETH_TX_TYPE_0 then
             Some (Inr (''{'' @ json_commas (front @
               [json_hex ''nonce'' (hex_pad (et_nonce m)), json_hex ''gasPrice'' (hex_pad (et_gas_price m)),
                json_hex ''gas'' (hex_pad (et_gas_limit m))] @ middle data @
               [json_hex ''v'' (hex_pad (et_v m mod 65536))] @ back) @ ''}''))
           else
             orbind (access_list_json (et_access_list m)) (\<lambda>access_list.
             if ty = ETH_TX_TYPE_1 then
               Some (Inr (''{'' @ json_commas (front @
                 [json_hex ''chainId'' (hex_pad (et_chain_id m)), json_hex ''nonce'' (hex_pad (et_nonce m)),
                  json_hex ''gasPrice'' (hex_pad (et_gas_price m)), json_hex ''gas'' (hex_pad (et_gas_limit m))] @ middle data @
                 [access_list @ json_hex ''v'' (hex_pad (et_y_parity m))] @ back) @ ''}''))
             else
               Some (Inr (''{'' @ json_commas (front @
                 [json_hex ''chainId'' (hex_pad (et_chain_id m)), json_hex ''nonce'' (hex_pad (et_nonce m)),
                  json_hex ''maxPriorityFeePerGas'' (hex_pad (et_max_priority_fee_per_gas m)),
                  json_hex ''maxFeePerGas'' (hex_pad (et_max_fee_per_gas m)), json_hex ''startGas'' (hex_pad (et_gas_limit m))] @
                 middle data @ [access_list @ json_hex ''v'' (hex_pad (et_y_parity m))] @ back) @ ''}'')))))"

section \<open>TransactionService::eth_block_to_json\<close>

partial_function (option) block_txs_json :: "eth_tx \<Rightarrow> buffer_view \<Rightarrow> nat \<Rightarrow> nat \<Rightarrow> string \<Rightarrow> (string res) option" where
  "block_txs_json fresh v end_offset from acc =
     (if from < end_offset then
        orbind (Some (eth_get_next_tx_offset v from)) (\<lambda>(next_item_offset, _).
        orbind (eth_tx_decode v from fresh) (\<lambda>(_, tx).
        orbind (eth_tx_to_json tx) (\<lambda>s.
          block_txs_json fresh v end_offset next_item_offset (acc @ s @ (if next_item_offset < end_offset then '','' else [])))))
      else Some (Inr acc))"

partial_function (option) block_uncles_json :: "(nat \<Rightarrow> nat) \<Rightarrow> buffer_view \<Rightarrow> nat \<Rightarrow> nat \<Rightarrow> string \<Rightarrow> (string res) option" where
  "block_uncles_json base_fee v end_offset from acc =
     (if from < end_offset then
        orbind (Some (eth_get_next_uncle_offset v from)) (\<lambda>next_item_offset.
        orbind (eth_header_new (base_fee from) (bv_sub v (u64_sub next_item_offset from) from)) (\<lambda>uncle.
          block_uncles_json base_fee v end_offset next_item_offset
            (acc @ eth_header_to_json uncle @ (if next_item_offset < end_offset then '','' else []))))
      else Some (Inr acc))"

definition eth_block_to_json :: "(nat \<Rightarrow> nat) \<Rightarrow> eth_tx \<Rightarrow> buffer_view \<Rightarrow> (byte_array res) option" where
  \<comment> \<open>\<open>base_fee\<close>: what the header at an offset of the block finds in its uninitialised member\<close>
  "eth_block_to_json base_fee fresh v =
     orbind (Some (eth_parse v)) (\<lambda>block.
     orbind (eth_header_new (base_fee 0) (eb_header block)) (\<lambda>header.
     orbind (block_txs_json fresh v (eb_txn_end_offset block) (eb_txn_offset block) []) (\<lambda>txs.
     orbind (Some (bv_consume v (bv_get_offset (eb_trailer block)))) (\<lambda>(end_offset, _, from).
     orbind (block_uncles_json base_fee v end_offset from []) (\<lambda>uncles.
       Some (rbind (ba_of_string (map of_char
         (''{'' @ json_hex ''hash'' (sha_hex_string (eb_hash block)) @ '','' @ eth_header_to_json header @ '','' @
          json_name ''transactions'' @ ''['' @ txs @ '']'' @ json_name ''uncles'' @ ''['' @ uncles @ '']'')))
         (\<lambda>out. Inr (ba_set_output out))))))))"

end
