(* ===== verification/EthJsonProps.thy ===== *)
theory EthJsonProps
  imports EthJson EthTxProps
begin

text \<open>
  What \<^verbatim>\<open>eth_block_to_json\<close> prints for a well-formed block, as a function of the values in the block.
\<close>

section \<open>The access list\<close>

definition access_entry :: "byte list \<times> byte list list \<Rightarrow> rlp_value" where
  "access_entry e = RList (enc_items [RStr (fst e), RList (enc_items (map RStr (snd e)))])"

definition key_json :: "byte list \<Rightarrow> string" where
  "key_json k = [CHR 0x22] @ ''0x'' @ to_hex_string k @ [CHR 0x22]"

definition entry_json :: "byte list \<times> byte list list \<Rightarrow> string" where
  "entry_json e = ''{'' @ json_hex ''address'' (to_hex_string (fst e)) @ '','' @ json_name ''storageKeys'' @ ''['' @
     json_commas (map key_json (snd e)) @ '']}''"

lemma json_commas_Cons: "json_commas (s # ss) = s @ (if ss = [] then [] else '','' @ json_commas ss)"
  by (cases ss) simp_all

lemma view_to_hex_wf:
  assumes w: "bv_wf w"
  shows "view_to_hex w = Inr (to_hex_string (bv_bytes w))"
proof (cases "bv_size w = 0")
  case True
  then have "bv_bytes w = []" using w by (metis length_0_conv length_bv_bytes)
  then show ?thesis using True by (simp add: view_to_hex_def to_hex_string_def)
next
  case False
  then have "bv_buf w \<noteq> None" using w by (auto simp: bv_wf_def split: option.splits)
  then show ?thesis using w False bv_read_inside [of w 0 "bv_size w"] length_bv_bytes [OF w] by (simp add: view_to_hex_def slice_def)
qed

lemma storage_keys_json_spec:
  assumes "list_all2 (\<lambda>r x. \<exists>w. as_rlp_string r = Inr w \<and> bv_wf w \<and> bv_bytes w = payload x \<and> rlp_type r = value_type x) rs (map RStr ks)"
  shows "storage_keys_json rs = Inr (json_commas (map key_json ks))"
  using assms
proof (induction ks arbitrary: rs)
  case Nil
  then show ?case by simp
next
  case (Cons k ks)
  then obtain r rs' where rs: "rs = r # rs'" by (cases rs) auto
  then obtain w where w: "as_rlp_string r = Inr w" "bv_wf w" "bv_bytes w = k" using Cons.prems by auto
  have t: "list_all2 (\<lambda>r x. \<exists>w. as_rlp_string r = Inr w \<and> bv_wf w \<and> bv_bytes w = payload x \<and> rlp_type r = value_type x) rs' (map RStr ks)"
    using Cons.prems rs by simp
  then have "rs' = [] \<longleftrightarrow> ks = []" by (auto dest: list_all2_lengthD)
  then show ?case using Cons.IH [OF t] w rs by (simp add: view_to_hex_wf json_commas_Cons key_json_def)
qed

lemma access_entry_json_at:
  assumes v: "bv_ok v" "bv_bytes v = pre @ enc_value (access_entry e) @ post" and len: "length (enc_value (access_entry e)) < 2 ^ 31"
  shows "access_entry_json v (length pre) = Some (Inr (entry_json e, length (pre @ enc_value (access_entry e))))"
proof -
  let ?xs = "[RStr (fst e), RList (enc_items (map RStr (snd e)))]" let ?ks = "map RStr (snd e)"
  let ?c = "concat (map enc_value ?xs)"
  have c: "enc_value (access_entry e) = enc_list ?c" by (simp add: access_entry_def enc_items_def)
  have lc: "length ?c < 2 ^ 32" using len length_enc_list(1) [of ?c] unfolding c by simp
  define q where "q = pre @ rlp_prefix RLP_LIST_ENCODING_TYPE (length ?c)"
  define r where "r = \<lparr>rlp_buf = v, rlp_val_offset = length q, rlp_starting_offset = length pre, rlp_length = length ?c, rlp_type = RLP_LIST\<rparr>"
  note at = rlp_list_at [OF v(1) v(2) [unfolded c] lc q_def r_def]
  have ws: "list_all2 (\<lambda>r x. \<exists>w. as_rlp_string r = Inr w \<and> bv_wf w \<and> bv_bytes w = payload x \<and> rlp_type r = value_type x) (items_at v (length q) ?xs) ?xs"
    by (rule items_at_strings [OF v(1) at(3)])
  obtain i0 i1 where its: "items_at v (length q) ?xs = [i0, i1]" "rlp_starting_offset i1 = length (q @ enc_str (fst e))"
    by (simp add: rlp_item_def)
  obtain w where w: "as_rlp_string i0 = Inr w" "bv_wf w" "bv_bytes w = fst e" using ws unfolding its(1) by auto
  let ?k = "concat (map enc_value ?ks)"
  have eq: "bv_bytes v = (q @ enc_str (fst e)) @ enc_list ?k @ post" using at(3) by (simp add: enc_items_def)
  have lk: "length ?k < 2 ^ 32" using lc length_enc_list(1) [of ?k] by (simp add: enc_items_def)
  define q2 where "q2 = (q @ enc_str (fst e)) @ rlp_prefix RLP_LIST_ENCODING_TYPE (length ?k)"
  define r2 where "r2 = \<lparr>rlp_buf = v, rlp_val_offset = length q2, rlp_starting_offset = length (q @ enc_str (fst e)), rlp_length = length ?k, rlp_type = RLP_LIST\<rparr>"
  note at2 = rlp_list_at [OF v(1) eq lk q2_def r2_def]
  have keys: "storage_keys_json (items_at v (length q2) ?ks) = Inr (json_commas (map key_json (snd e)))"
    by (rule storage_keys_json_spec [OF items_at_strings [OF v(1) at2(3)]])
  have fin: "length ?c + length q = length (pre @ enc_list ?c)" by (simp add: q_def enc_list_def)
  have u: "u64 (rlp_length r + rlp_val_offset r) = length (pre @ enc_list ?c)"
    using bvs.bytes_small [OF v(1)] v(2) unfolding c by (simp only: r_def rlp.select_convs fin) (simp add: u64_id)
  have 0: "item_of [i0, i1] 0 = Inr i0" "item_of [i0, i1] 1 = Inr i1" by (simp_all add: item_of_def)
  show ?thesis
    unfolding access_entry_json_def at(1) orbind_simps at(2) its(1) 0 rbind_simps w(1) view_to_hex_wf [OF w(2)] its(2) at2(1,2) keys u
    by (simp add: entry_json_def w(3) c)
qed

lemma access_list_loop_at:
  assumes v: "bv_ok v" and len: "length (enc_items (map access_entry al)) < 2 ^ 31"
    and eq: "bv_bytes v = pre @ enc_items (map access_entry al)"
  shows "access_list_loop v (length (bv_bytes v)) (length pre) acc = Some (Inr (acc @ json_commas (map entry_json al)))"
  using len eq
proof (induction al arbitrary: pre acc)
  case Nil
  then show ?case by (subst access_list_loop.simps) simp
next
  case (Cons e al)
  let ?e = "enc_value (access_entry e)" and ?rest = "enc_items (map access_entry al)"
  have b: "bv_bytes v = pre @ ?e @ ?rest" "bv_bytes v = (pre @ ?e) @ ?rest" using Cons.prems(2) by simp_all
  have le: "length ?e < 2 ^ 31" "length ?rest < 2 ^ 31" using Cons.prems(1) by simp_all
  have lt: "length pre < length (bv_bytes v)" using b(1) enc_value_nonempty [of "access_entry e"] by simp
  have ne: "length (pre @ ?e) < length (bv_bytes v) \<longleftrightarrow> al \<noteq> []"
    using b(2) enc_value_nonempty by (cases al) auto
  have "access_list_loop v (length (bv_bytes v)) (length pre) acc =
      access_list_loop v (length (bv_bytes v)) (length (pre @ ?e)) (acc @ entry_json e @ (if al \<noteq> [] then '','' else []))"
    by (subst access_list_loop.simps) (simp only: lt if_True access_entry_json_at [OF v b(1) le(1)] orbind_simps prod.case ne)
  then show ?case using Cons.IH [OF le(2) b(2)] by (cases al) simp_all
qed

lemma access_list_json_spec:
  assumes len: "length (enc_items (map access_entry al)) < 2 ^ 31"
  shows "access_list_json (enc_items (map access_entry al)) =
    Some (Inr (json_name ''accessList'' @ ''['' @ json_commas (map entry_json al) @ '']''))"
proof (cases "al = []")
  case False
  let ?b = "enc_items (map access_entry al)" let ?v = "bv_of_ptr ?b (length ?b) 0"
  have v: "bv_ok ?v" "bv_bytes ?v = ?b" using len by (simp_all add: bv_of_ptr_def bv_ok_def bv_wf_def bv_bytes_def slice_def)
  have "0 < length ?b" using False enc_value_nonempty by (cases al) auto
  then show ?thesis using access_list_loop_at [OF v(1) len, of "[]" "[]"] v(2) by (simp add: access_list_json_def)
qed (simp add: access_list_json_def)

section \<open>Transactions\<close>

definition json_tx :: "nat \<Rightarrow> rlp_value list \<Rightarrow> (byte list \<times> byte list list) list \<Rightarrow> string" where
  \<comment> \<open>what is printed for a transaction of type \<open>ty\<close> with the items \<open>xs\<close> and, for types 1 and 2, the access list \<open>al\<close>: each
    word of the value is cut to a byte, no comma follows the access list, and the gas of type 2 is always 0\<close>
  "json_tx ty xs al =
     (let s = signed_items ty; bytes = (\<lambda>name i. json_hex name (to_hex_string (payload (xs ! i))));
          int = (\<lambda>name i. json_hex name (hex_pad (tx_int xs i)))
      in ''{'' @ json_commas (
           [json_hex ''type'' (hex_pad ty), json_hex ''hash'' (to_hex_string (eth_tx_hash (eth_tx_value ty xs)))] @
           (if ty = 0 then [] else [json_hex ''chainId'' (hex_pad (tx_int xs 0 mod 256))]) @
           (if ty = 0 then [int ''nonce'' 0, int ''gasPrice'' 1, int ''gas'' 2]
            else if ty = 1 then [int ''nonce'' 1, int ''gasPrice'' 2, int ''gas'' 3]
            else [int ''nonce'' 1, int ''maxPriorityFeePerGas'' 2, int ''maxFeePerGas'' 3, json_hex ''startGas'' ''00'']) @
           [bytes ''to'' (ty + 3), json_hex ''value'' (words_to_hex (be_words (payload (xs ! (ty + 4))))), bytes ''data'' (ty + 5),
            (if ty = 0 then json_hex ''v'' (hex_pad (tx_int xs 6 mod 65536))
             else json_name ''accessList'' @ ''['' @ json_commas (map entry_json al) @ '']'' @
               json_hex ''v'' (hex_pad (tx_int xs s mod 256))),
            bytes ''r'' (s + 1), bytes ''s'' (s + 2)]) @ ''}'')"

definition json_tx_ok :: "nat \<times> rlp_value list \<times> (byte list \<times> byte list list) list \<Rightarrow> bool" where
  "json_tx_ok t \<longleftrightarrow>
     (case t of (ty, xs, al) \<Rightarrow> eth_tx_ok ty xs \<and> (ty \<noteq> 0 \<longrightarrow> payload (xs ! (signed_items ty - 1)) = enc_items (map access_entry al)))"

lemma bv_vector_self:
  assumes "bv_wf w"
  shows "bv_vector w (bv_get_offset w) (bv_size w) = Inr (bv_bytes w)"
  using assms by (auto simp: bv_wf_def bv_vector_def bv_get_offset_def bv_bytes_def split: option.splits)

lemma eth_tx_to_json_spec:
  assumes ok: "json_tx_ok (ty, xs, al)" and m: "decoded ty xs m" "sha_binary (et_sha m) = eth_tx_hash (eth_tx_value ty xs)"
  shows "eth_tx_to_json m = Some (Inr (json_tx ty xs al))"
proof -
  have t: "eth_tx_ok ty xs" "ty \<noteq> 0 \<Longrightarrow> payload (xs ! (signed_items ty - 1)) = enc_items (map access_entry al)"
    using ok by (simp_all add: json_tx_ok_def)
  have d: "bv_vector (et_data m) (bv_get_offset (et_data m)) (bv_size (et_data m)) = Inr (payload (xs ! (ty + 5)))"
    using bv_vector_self [of "et_data m"] m(1) by (simp add: decoded_def)
  have len: "length (enc_items xs) < 2 ^ 31"
    using t(1) length_enc_items_value [of xs ty] by (simp add: eth_tx_ok_def)
  have al: "access_list_json (et_access_list m) = Some (Inr (json_name ''accessList'' @ ''['' @ json_commas (map entry_json al) @ '']''))"
    if "ty \<noteq> 0"
  proof -
    have i: "signed_items ty - 1 < length xs" using t(1) by (simp add: eth_tx_ok_def)
    have "length (enc_items (map access_entry al)) < 2 ^ 31"
      using item_pos_payload(2) [OF i] len t(2) [OF that] by simp
    then show ?thesis using access_list_json_spec t(2) [OF that] m(1) that by (simp add: decoded_def)
  qed
  have h0: "hex_pad 0 = ''00''" by (simp add: hex_pad_byte hex_digit_def)
  consider "ty = 0" | "ty = 1" | "ty = 2" using t(1) by (fastforce simp: eth_tx_ok_def)
  then show ?thesis
  proof cases
    case 1
    then show ?thesis using d m by (simp add: eth_tx_to_json_def json_tx_def eth_tx_consts Let_def decoded_def sha_hex_string_def signed_items_def)
  next
    case 2
    then show ?thesis using d m al
      by (simp add: eth_tx_to_json_def json_tx_def eth_tx_consts Let_def decoded_def sha_hex_string_def signed_items_def del: One_nat_def)
  next
    case 3
    then show ?thesis using d m al by (simp add: eth_tx_to_json_def json_tx_def eth_tx_consts Let_def decoded_def sha_hex_string_def signed_items_def h0)
  qed
qed

abbreviation json_tx_value :: "nat \<times> rlp_value list \<times> (byte list \<times> byte list list) list \<Rightarrow> rlp_value" where
  "json_tx_value t \<equiv> eth_tx_value (fst t) (fst (snd t))"

lemma block_txs_json_at:
  assumes v: "bv_ok v" "bv_from v = 0" and eq: "bv_bytes v = pre @ eth_txs (map json_tx_value ts) @ post" and ok: "list_all json_tx_ok ts"
    and len: "length (eth_txs (map json_tx_value ts)) < 2 ^ 29" and fin: "fin = length pre + length (eth_txs (map json_tx_value ts))"
  shows "block_txs_json fresh v fin (length pre) acc =
    Some (Inr (acc @ json_commas (map (\<lambda>(ty, xs, al). json_tx ty xs al) ts)))"
  using eq ok len fin
proof (induction ts arbitrary: pre acc)
  case Nil
  then show ?case by (subst block_txs_json.simps) simp
next
  case (Cons t ts)
  obtain ty xs al where t: "t = (ty, xs, al)" by (cases t)
  let ?e = "enc_value (eth_tx_value ty xs)" and ?rest = "eth_txs (map json_tx_value ts)"
  have b: "bv_bytes v = pre @ ?e @ (?rest @ post)" "bv_bytes v = (pre @ ?e) @ ?rest @ post" using Cons.prems(1) t by simp_all
  have ok: "json_tx_ok (ty, xs, al)" "list_all json_tx_ok ts" using Cons.prems(2) t by simp_all
  then have tx: "eth_tx_ok ty xs" by (simp add: json_tx_ok_def)
  have le: "length ?e < 2 ^ 29" "length ?rest < 2 ^ 29" using Cons.prems(3) t by simp_all
  have fin: "fin = length (pre @ ?e) + length ?rest" using Cons.prems(4) t by simp
  have lt: "length pre < fin" using fin enc_value_nonempty [of "eth_tx_value ty xs"] by simp
  have ne: "length (pre @ ?e) < fin \<longleftrightarrow> ts \<noteq> []" using fin enc_value_nonempty by (cases ts) auto
  obtain k where nx: "eth_get_next_tx_offset v (length pre) = Inr (length (pre @ ?e), k)"
    using eth_tx_hash_at_spec(2) [OF v(1) b(1) le(1)] by blast
  obtain o' m where m: "eth_tx_decode v (length pre) fresh = Some (Inr (o', m))" "decoded ty xs m"
    "sha_binary (et_sha m) = eth_tx_hash (eth_tx_value ty xs)"
    using eth_tx_decode_at [OF v b(1) tx, of fresh] by blast
  have "block_txs_json fresh v fin (length pre) acc =
      block_txs_json fresh v fin (length (pre @ ?e)) (acc @ json_tx ty xs al @ (if ts \<noteq> [] then '','' else []))"
    by (subst block_txs_json.simps) (simp only: lt if_True nx m(1) eth_tx_to_json_spec [OF ok(1) m(2,3)] orbind_simps prod.case ne)
  then show ?case using Cons.IH [OF b(2) ok(2) le(2) fin] t by (cases ts) simp_all
qed

section \<open>Headers\<close>

definition eth_header_ok :: "rlp_value list \<Rightarrow> bool" where
  "eth_header_ok hs \<longleftrightarrow> 15 \<le> length hs \<and> list_all (\<lambda>i. length (payload (hs ! i)) = 32) [0, 1, 13] \<and>
     list_all (\<lambda>i. length (payload (hs ! i)) \<le> 8) [7, 8, 9, 10, 11, 14]"

definition header_read :: "nat \<Rightarrow> byte list \<Rightarrow> rlp_value list \<Rightarrow> eth_block_header" where
  \<comment> \<open>hashes and integers are those of the header; the other strings are read from the allocation \<open>mem\<close> as if
    the header stood at its start\<close>
  "header_read base_fee mem hs =
     (let k = length (rlp_prefix RLP_LIST_ENCODING_TYPE (length (enc_items hs)));
          hash = (\<lambda>i. sha_of_binary (payload (hs ! i))); vec = (\<lambda>i. slice (k + item_pos hs i) (length (payload (hs ! i))) mem)
      in \<lparr>eh_prev_hash = hash 0, eh_uncles_hash = hash 1, eh_mix_hash = hash 13, eh_coinbase = vec 2, eh_state_root = vec 3,
          eh_transaction_root = vec 4, eh_receipt_root = vec 5, eh_difficulty = tx_int hs 7, eh_block_number = tx_int hs 8,
          eh_gas_limit = tx_int hs 9, eh_gas_used = tx_int hs 10, eh_timestamp = tx_int hs 11, eh_base_fee_per_gas = base_fee,
          eh_nonce = tx_int hs 14, eh_extra_data = vec 12, eh_bloom = vec 6\<rparr>)"

lemma item_hash_at:
  assumes "rbind (item_of its i) as_rlp_string = Inr w" and "bv_wf w" and "bv_bytes w = bs" and "length bs = 32"
  shows "item_hash its i = Inr (sha_of_binary bs)"
  using assms sha_read_inside [of w 0] length_bv_bytes [of w] by (simp add: item_hash_def slice_def)

lemma eth_header_new_at:
  assumes v: "bv_ok v" "bv_buf v = Some mem" "bv_bytes v = enc_list (enc_items hs)" and ok: "eth_header_ok hs"
    and len: "length (enc_items hs) < 2 ^ 32"
  shows "eth_header_new base_fee v = Some (Inr (header_read base_fee mem hs))"
proof -
  define q where "q = [] @ rlp_prefix RLP_LIST_ENCODING_TYPE (length (enc_items hs))"
  define r where "r = \<lparr>rlp_buf = v, rlp_val_offset = length q, rlp_starting_offset = length ([] :: byte list),
    rlp_length = length (enc_items hs), rlp_type = RLP_LIST\<rparr>"
  have "bv_bytes v = [] @ enc_list (enc_items hs) @ []" using v(3) by simp
  note at = rlp_list_at [OF v(1) this [unfolded enc_items_def] len [unfolded enc_items_def] q_def [unfolded enc_items_def] r_def [unfolded enc_items_def]]
  define its where "its = items_at v (length q) hs"
  have b: "bv_bytes v = q @ enc_items hs @ []" using at(3) by (simp add: enc_items_def)
  have l: "i < length hs" if "i < 15" for i using ok that by (simp add: eth_header_ok_def)
  note item = item_at_any [OF v(1,2) b len l its_def]
  have s: "length (payload (hs ! i)) = 32" if "i \<in> {0, 1, 13}" for i using ok that by (auto simp: eth_header_ok_def)
  have n: "length (payload (hs ! i)) \<le> 8" if "i \<in> {7, 8, 9, 10, 11, 14}" for i using ok that by (auto simp: eth_header_ok_def)
  have hash: "item_hash its i = Inr (sha_of_binary (payload (hs ! i)))" if "i \<in> {0, 1, 13}" for i
  proof -
    have "i < 15" using that by auto
    then obtain w where "rbind (item_of its i) as_rlp_string = Inr w" "bv_wf w" "bv_bytes w = payload (hs ! i)" using item(4) by blast
    then show ?thesis by (rule item_hash_at) (rule s [OF that])
  qed
  have int: "item_int its i = Inr (tx_int hs i)" if "i \<in> {7, 8, 9, 10, 11, 14}" for i
  proof -
    have "i < 15" using that by auto
    then show ?thesis using item(2) n [OF that] by blast
  qed
  have "eth_header_fields base_fee its = Inr (header_read base_fee mem hs)"
    by (simp add: eth_header_fields_def hash int item(1) header_read_def q_def Let_def del: One_nat_def)
  then show ?thesis using at(1,2) by (simp add: eth_header_new_def its_def)
qed

section \<open>The block\<close>

definition block_json :: "nat \<Rightarrow> byte list \<Rightarrow> rlp_value list \<Rightarrow> (nat \<times> rlp_value list \<times> (byte list \<times> byte list list) list) list \<Rightarrow> string" where
  "block_json base_fee D hs ts =
     ''{'' @ json_hex ''hash'' (to_hex_string (sha3_256 (enc_list (enc_items hs)))) @ '','' @
     eth_header_to_json (header_read base_fee D hs) @ '','' @
     json_name ''transactions'' @ ''['' @ json_commas (map (\<lambda>(ty, xs, al). json_tx ty xs al) ts) @ '']'' @ json_name ''uncles'' @ ''[]''"

lemma eth_parse_views:
  assumes "eth_parse v = Inr m"
  shows "bv_buf (eb_header m) = bv_buf v" and "bv_get_offset (eb_trailer m) = u64 (bv_from v + eb_txn_end_offset m)"
  using assms by (auto simp: eth_parse_def bv_get_offset_def bv_sub_def Let_def split: prod.splits elim!: rbind_InrE)

text \<open>
  C16: the JSON of a well-formed block, to the letter. Hashes and integers of the header and all members of
  the transactions are those of the block, in order. But the other strings of the header (miner, roots, bloom, extra
  data) are read as if the header stood at the start of the block, so they are shifted by the list prefix of the block; eight
  numbers lack their first quote, the base fee is never set, a comma is missing after every access list and in
  front of the uncles, the block's brace is not closed, and no uncle is printed, because the length of their list is
  taken for its end.
\<close>

theorem eth_block_json:
  assumes hs: "hs = RStr prev # hs'" "eth_header_ok hs" and ts: "list_all json_tx_ok ts"
    and wf: "wf_eth_block prev (enc_items hs') (map json_tx_value ts) (enc_list us @ rest)"
    and D: "D = eth_block_bytes (eth_header prev (enc_items hs')) (eth_txs (map json_tx_value ts)) (enc_list us @ rest)"
    and us: "2 * length us + length rest \<le> length D"
  shows "\<exists>out. eth_block_to_json base_fee fresh (bv_msg D) = Some (Inr out) \<and> ba_bytes out = map of_char (block_json (base_fee 0) D hs ts)"
proof -
  let ?v = "bv_msg D" and ?ts = "map json_tx_value ts" and ?hdr = "eth_header prev (enc_items hs')"
  have lD: "length D < 2 ^ 29" using wf by (simp add: wf_eth_block_def D)
  have v: "bv_ok ?v" "bv_from ?v = 0" using lD by simp_all
  obtain pre m where m: "eth_parse ?v = Inr m" "D = pre @ eth_txs ?ts @ enc_list us @ rest" "eb_txn_offset m = length pre"
    "eb_txn_end_offset m = length (pre @ eth_txs ?ts)" "eb_hash m = sha_of_binary (sha3_256 ?hdr)"
    "bv_ok (eb_header m)" "bv_bytes (eb_header m) = ?hdr"
    using eth_parse_spec [OF wf v(1) refl] D by auto
  have hdr: "?hdr = enc_list (enc_items hs)" by (simp add: eth_header_def hs(1))
  have "length (enc_items hs) \<le> length D"
    using length_enc_list [of "enc_items hs"] length_enc_list(1) [of "?hdr @ enc_list (eth_txs ?ts) @ enc_list us @ rest"]
    by (simp add: D eth_block_bytes_def hdr)
  then have h: "eth_header_new (base_fee 0) (eb_header m) = Some (Inr (header_read (base_fee 0) D hs))"
    using eth_header_new_at [OF m(6) _ _ hs(2)] eth_parse_views(1) [OF m(1)] m(7) hdr lD by simp
  have txs: "block_txs_json fresh ?v (eb_txn_end_offset m) (eb_txn_offset m) [] =
      Some (Inr (json_commas (map (\<lambda>(ty, xs, al). json_tx ty xs al) ts)))"
    using block_txs_json_at [OF v, of pre ts "enc_list us @ rest" _ fresh "[]"] m(2-4) ts lD by simp
  let ?off = "length (pre @ eth_txs ?ts)"
  have "?off \<le> length D" using m(2) by simp
  then have off: "bv_get_offset (eb_trailer m) = ?off" using eth_parse_views(2) [OF m(1)] m(4) lD by (simp add: u64_id)
  have b: "bv_bytes ?v = (pre @ eth_txs ?ts) @ enc_list us @ rest" using m(2) by simp
  have "length us \<le> length D" using us by simp
  then obtain k where k: "bv_consume ?v ?off = Inr (length us, RLP_LIST, ?off + k)" "length (enc_list us) = k + length us"
    using consume_list_bv [OF v(1) b _ refl] lD by (simp add: enc_list_def)
  have "length us \<le> ?off + k" using us arg_cong [OF m(2), of length] k(2) by simp
  then have un: "block_uncles_json base_fee ?v (length us) (?off + k) [] = Some (Inr [])"
    by (subst block_uncles_json.simps) simp
  have "eth_block_to_json base_fee fresh ?v = Some (rbind (ba_of_string (map of_char (block_json (base_fee 0) D hs ts))) (\<lambda>out. Inr (ba_set_output out)))"
    unfolding eth_block_to_json_def m(1) orbind_simps h txs off k(1) prod.case un
    by (simp add: block_json_def m(5) sha_hex_string_def hdr)
  moreover have "block_json (base_fee 0) D hs ts \<noteq> []" by (simp add: block_json_def)
  ultimately show ?thesis by (simp add: ba_of_string_def ba_bytes_def ba_set_output_def)
qed

text \<open>An example: a block of one transaction and without uncles. Its miner is read three bytes too early.\<close>

definition json_demo_items :: "rlp_value list" where
  "json_demo_items = [RStr (replicate 32 2), RStr (replicate 20 7), RStr (replicate 32 3), RStr (replicate 32 3), RStr (replicate 32 3),
     RStr (replicate 4 0), RStr [5], RStr [1, 0], RStr [9], RStr [8], RStr [7], RStr [], RStr (replicate 32 6), RStr (replicate 8 4)]"

abbreviation json_demo_header :: "rlp_value list" where
  "json_demo_header \<equiv> RStr (replicate 32 1) # json_demo_items"

abbreviation json_demo_tx :: "nat \<times> rlp_value list \<times> (byte list \<times> byte list list) list" where
  "json_demo_tx \<equiv> (0, eth_demo_items (replicate 32 1), [])"

definition json_demo_block :: "byte list" where
  "json_demo_block = eth_block_bytes (eth_header (replicate 32 1) (enc_items json_demo_items)) (eth_txs (map json_tx_value [json_demo_tx])) (enc_list [] @ [])"

lemma enc_str_prefix: "2 \<le> length bs \<Longrightarrow> length bs < 56 \<Longrightarrow> enc_str bs = of_nat (128 + length bs) # bs"
  by (simp add: enc_str_def rlp_prefix_def rlp_consts)

lemma json_demo_facts:
  "eth_header_ok json_demo_header" "list_all json_tx_ok [json_demo_tx]"
  "wf_eth_block (replicate 32 1) (enc_items json_demo_items) (map json_tx_value [json_demo_tx]) (enc_list [] @ [])"
  "eh_coinbase (header_read 0 json_demo_block json_demo_header) = [2, 2, 0x94] @ replicate 17 7"
proof -
  show "eth_header_ok json_demo_header" by (simp add: eth_header_ok_def json_demo_items_def)
  show "list_all json_tx_ok [json_demo_tx]" using eth_demo_ok [of "replicate 32 1"] by (simp add: json_tx_ok_def)
  let ?tx = "enc_value (eth_tx_value 0 (eth_demo_items (replicate 32 1)))" and ?h = "enc_list (enc_items json_demo_header)"
  obtain more where i: "enc_items json_demo_items = (0xa0 # replicate 32 2) @ (0x94 # replicate 20 7) @ more" "length more = 154"
    by (simp add: json_demo_items_def enc_str_prefix) (simp add: enc_str_def rlp_prefix_def rlp_consts)
  have e: "enc_items json_demo_header = (0xa0 # replicate 32 1) @ enc_items json_demo_items" "length (enc_items json_demo_header) = 241"
    by (simp_all add: enc_str_prefix i)
  have hl: "length ?h = 243" by (simp add: enc_list_def e(2) rlp_prefix_def get_length_bytes_size_eq del: enc_items_simps)
  have h: "eth_header (replicate 32 1) (enc_items json_demo_items) = ?h" by (simp add: eth_header_def)
  have "length (enc_items (eth_demo_items (replicate 32 1))) = 95"
    by (simp add: eth_demo_items_def enc_str_prefix) (simp add: enc_str_def rlp_prefix_def rlp_consts)
  then have t: "length ?tx = 97" by (simp add: eth_tx_value_def enc_list_def rlp_prefix_def get_length_bytes_size_eq)
  then have c: "length (?h @ enc_list (eth_txs (map json_tx_value [json_demo_tx])) @ enc_list []) = 343"
    using hl by (simp add: enc_list_def [of ?tx] enc_list_def [of "[]"] rlp_prefix_def get_length_bytes_size_eq)
  then have D: "json_demo_block = rlp_prefix RLP_LIST_ENCODING_TYPE 343 @ ?h @ enc_list ?tx @ enc_list []"
    unfolding json_demo_block_def eth_block_bytes_def h by (subst enc_list_def) simp
  have "length json_demo_block = 346" unfolding D using c by (simp add: rlp_prefix_def get_length_bytes_size_eq)
  then show "wf_eth_block (replicate 32 1) (enc_items json_demo_items) (map json_tx_value [json_demo_tx]) (enc_list [] @ [])"
    using t by (simp add: wf_eth_block_def json_demo_block_def)
  let ?p = "rlp_prefix RLP_LIST_ENCODING_TYPE 343" and ?q = "rlp_prefix RLP_LIST_ENCODING_TYPE 241"
  have hq: "?h = ?q @ enc_items json_demo_header" by (simp add: enc_list_def e(2) del: enc_items_simps)
  have pq: "length ?p = 3" "length ?q = 2" by (simp_all add: rlp_prefix_def get_length_bytes_size_eq)
  have r: "replicate 32 (2 :: byte) = replicate 30 2 @ [2, 2]" "replicate 20 (7 :: byte) = replicate 17 7 @ replicate 3 7"
    by (simp_all add: numeral_eq_Suc)
  let ?a = "?p @ ?q @ (0xa0 # replicate 32 1) @ (0xa0 # replicate 30 2)" and ?b = "[2, 2, 0x94] @ replicate 17 (7 :: byte)"
  have eqD: "json_demo_block = ?a @ ?b @ replicate 3 7 @ more @ enc_list ?tx @ enc_list []"
    unfolding D hq by (simp add: enc_str_prefix i(1) r)
  have "slice 69 20 json_demo_block = ?b" unfolding eqD by (rule slice_middle) (simp_all add: pq)
  moreover have "item_pos json_demo_header 2 = 67" "length (payload (json_demo_header ! 2)) = 20"
    by (simp_all add: item_pos_def json_demo_items_def enc_str_prefix take_Cons')
  ultimately show "eh_coinbase (header_read 0 json_demo_block json_demo_header) = [2, 2, 0x94] @ replicate 17 7"
    using e(2) pq(2) by (simp add: header_read_def Let_def del: enc_items_simps)
qed

theorem eth_block_json_witness:
  "\<exists>out. eth_block_to_json (\<lambda>_. 0) eth_demo_fresh (bv_msg json_demo_block) = Some (Inr out) \<and>
    ba_bytes out = map of_char (block_json 0 json_demo_block json_demo_header [json_demo_tx]) \<and>
    eh_coinbase (header_read 0 json_demo_block json_demo_header) = [2, 2, 0x94] @ replicate 17 7"
proof -
  have us: "2 * length ([] :: byte list) + length ([] :: byte list) \<le> length json_demo_block" by simp
  show ?thesis
    using eth_block_json [OF refl json_demo_facts(1-3) json_demo_block_def us, of "\<lambda>_. 0" eth_demo_fresh] json_demo_facts(4) by simp
qed

end
