(* ===== verification/Encryption.thy ===== *)
theory Encryption
  imports Buffers
begin

text \<open>
  Encryption of messages: \<^verbatim>\<open>encryption_helper.cpp\<close> and \<^verbatim>\<open>encrypted_message.cpp\<close> of \<^verbatim>\<open>src/lib/libutils/utils/crypto\<close>,
  \<^verbatim>\<open>encryption_task.cpp\<close> and \<^verbatim>\<open>decryption_task.cpp\<close> of \<^verbatim>\<open>src/lib/libtpe/tpe/task\<close>.

  The functions of libsodium are parameters: \<open>box key nonce m\<close> and \<open>unbox key nonce c\<close> are \<^verbatim>\<open>crypto_secretbox\<close> and
  \<^verbatim>\<open>crypto_secretbox_open\<close> on padded messages, \<open>None\<close> a negative return value; \<open>new_key\<close> is what the key generator
  writes and \<open>rnd\<close> the random bytes. Their constants are those of the library's documentation.
\<close>

type_synonym secretbox = "byte list \<Rightarrow> byte list \<Rightarrow> byte list \<Rightarrow> byte list option"

definition KEYBYTES :: nat where "KEYBYTES = 32"
definition NONCE_LEN :: nat where "NONCE_LEN = 24"
definition ZEROBYTES :: nat where "ZEROBYTES = 32"
definition BOXZEROBYTES :: nat where "BOXZEROBYTES = 16"

lemmas box_consts = KEYBYTES_def NONCE_LEN_def ZEROBYTES_def BOXZEROBYTES_def

section \<open>EncryptedMessage\<close>

record encrypted_message =
  em_nonce :: byte_array
  em_cipher :: byte_array
  em_cipher_text :: byte_array

definition em_new :: "nat \<Rightarrow> encrypted_message" where
  "em_new cipher_len =
     \<lparr>em_nonce = ba_with_capacity NONCE_LEN, em_cipher = ba_with_capacity cipher_len,
      em_cipher_text = ba_with_capacity (u64 (NONCE_LEN + cipher_len))\<rparr>"

definition ba_raw :: "byte_array \<Rightarrow> nat \<Rightarrow> nat \<Rightarrow> byte list res" where
  \<comment> \<open>\<^verbatim>\<open>n\<close> bytes from \<^verbatim>\<open>byte_array() + off\<close>: only the start of the array is checked\<close>
  "ba_raw b off n = rbind (ba_at b 0) (\<lambda>_. if off + n \<le> length (ba_arr b) then Inr (slice off n (ba_arr b)) else Inl MemFault)"

definition ba_raw_write :: "byte_array \<Rightarrow> nat \<Rightarrow> byte list \<Rightarrow> byte_array res" where
  "ba_raw_write b off bs =
     rbind (ba_at b 0) (\<lambda>_. if off + length bs \<le> length (ba_arr b) then Inr (b\<lparr>ba_arr := patch off bs (ba_arr b)\<rparr>) else Inl MemFault)"

definition ba_memcpy :: "byte_array \<Rightarrow> nat \<Rightarrow> byte_array \<Rightarrow> nat \<Rightarrow> nat \<Rightarrow> byte_array res" where
  \<comment> \<open>\<^verbatim>\<open>memcpy(&dst.char_array()[to], &src.char_array()[off], n)\<close>\<close>
  "ba_memcpy dst to src off n = rbind (ba_at dst 0) (\<lambda>_. rbind (ba_raw src off n) (ba_raw_write dst to))"

definition em_set_cipher_text :: "encrypted_message \<Rightarrow> nat \<Rightarrow> encrypted_message res" where
  "em_set_cipher_text m cipher_start_idx =
     rbind (ba_shift_left (em_cipher m) cipher_start_idx) (\<lambda>cipher.
     rbind (ba_clear (ba_resize (em_cipher_text m) (u64 (ba_len cipher + NONCE_LEN)))) (\<lambda>text.
     rbind (ba_memcpy text 0 (em_nonce m) 0 NONCE_LEN) (\<lambda>text.
     rbind (ba_memcpy text NONCE_LEN cipher 0 (ba_len cipher)) (\<lambda>text.
       Inr (m\<lparr>em_cipher := ba_set_output cipher, em_cipher_text := ba_set_output text\<rparr>)))))"

definition em_from_cipher_text :: "encrypted_message \<Rightarrow> byte list \<Rightarrow> nat \<Rightarrow> encrypted_message res" where
  "em_from_cipher_text m cipher_text padding_len =
     rbind (ba_clear (ba_resize (em_cipher m) (u64_sub (u64 (length cipher_text + padding_len)) NONCE_LEN))) (\<lambda>cipher.
     rbind (ba_from_array (em_cipher_text m) cipher_text 0 0) (\<lambda>text.
     rbind (ba_memcpy (em_nonce m) 0 text 0 NONCE_LEN) (\<lambda>nonce.
     rbind (ba_memcpy cipher padding_len text NONCE_LEN (u64_sub (ba_len cipher) padding_len)) (\<lambda>cipher.
       Inr \<lparr>em_nonce = nonce, em_cipher = cipher, em_cipher_text = text\<rparr>))))"

definition em_resize :: "encrypted_message \<Rightarrow> nat \<Rightarrow> encrypted_message" where
  "em_resize m cipher_length =
     \<lparr>em_nonce = ba_resize (em_nonce m) NONCE_LEN, em_cipher = ba_resize (em_cipher m) cipher_length,
      em_cipher_text = ba_resize (em_cipher_text m) (u64 (cipher_length + NONCE_LEN))\<rparr>"

definition em_reserve :: "encrypted_message \<Rightarrow> nat \<Rightarrow> encrypted_message" where
  "em_reserve m cipher_capacity =
     m\<lparr>em_cipher := ba_reserve (em_cipher m) cipher_capacity,
       em_cipher_text := ba_reserve (em_cipher_text m) (u64 (cipher_capacity + NONCE_LEN))\<rparr>"

definition em_clear :: "encrypted_message \<Rightarrow> encrypted_message res" where
  "em_clear m =
     rbind (ba_clear (em_cipher m)) (\<lambda>cipher. rbind (ba_clear (em_cipher_text m)) (\<lambda>text. rbind (ba_clear (em_nonce m)) (\<lambda>nonce.
       Inr \<lparr>em_nonce = nonce, em_cipher = cipher, em_cipher_text = text\<rparr>)))"

section \<open>encryption_helper\<close>

definition crypto_init :: "bool \<Rightarrow> unit res" where
  \<comment> \<open>whether \<^verbatim>\<open>sodium_init\<close> succeeded\<close>
  "crypto_init ok = (if ok then Inr () else Inl CryptoInitializationError)"

definition generate_key_array :: "byte list \<Rightarrow> byte_array \<Rightarrow> byte_array res" where
  "generate_key_array new_key key =
     (if ba_len key = 0 then
        rbind (ba_clear (ba_resize key KEYBYTES)) (\<lambda>key. rbind (ba_raw_write key 0 new_key) (\<lambda>key. Inr (ba_set_output key)))
      else if ba_len key \<noteq> KEYBYTES then Inl InvalidKeyError else Inr key)"

definition encrypt ::
  "secretbox \<Rightarrow> byte list \<Rightarrow> byte list \<Rightarrow> byte_array \<Rightarrow> byte_array \<Rightarrow> encrypted_message \<Rightarrow> (byte_array \<times> encrypted_message) res" where
  \<comment> \<open>the box is as long as the message, and as many random bytes are drawn as the nonce is long\<close>
  "encrypt box new_key rnd plain key cipher =
     (if ba_len (em_cipher cipher) < BOXZEROBYTES then Inl RuntimeError
      else rbind (generate_key_array new_key key) (\<lambda>key.
        rbind (ba_raw_write (em_nonce cipher) 0 (take (ba_len (em_nonce cipher)) rnd)) (\<lambda>nonce.
        rbind (ba_raw plain 0 (ba_len plain)) (\<lambda>m.
        rbind (ba_raw nonce 0 NONCE_LEN) (\<lambda>n.
        rbind (ba_raw key 0 KEYBYTES) (\<lambda>k.
          case box k n m of
            None \<Rightarrow> Inl EncryptionError
          | Some c \<Rightarrow>
              rbind (ba_raw_write (em_cipher cipher) 0 c) (\<lambda>c.
              rbind (em_set_cipher_text (cipher\<lparr>em_nonce := nonce, em_cipher := c\<rparr>) BOXZEROBYTES) (\<lambda>cipher.
                Inr (key, cipher)))))))))"

definition decrypt :: "secretbox \<Rightarrow> encrypted_message \<Rightarrow> buffer_view \<Rightarrow> byte_array \<Rightarrow> byte_array res" where
  "decrypt unbox cipher key plain_text =
     rbind (ba_at plain_text 0) (\<lambda>_.
     rbind (ba_raw (em_cipher cipher) 0 (ba_len (em_cipher cipher))) (\<lambda>c.
     rbind (ba_raw (em_nonce cipher) 0 NONCE_LEN) (\<lambda>n.
     rbind (bv_read key 0 KEYBYTES) (\<lambda>k.
       case unbox k n c of
         None \<Rightarrow> Inl DecryptionError
       | Some m \<Rightarrow>
           rbind (ba_raw_write plain_text 0 m) (\<lambda>plain_text.
           rbind (ba_shift_left plain_text ZEROBYTES) (\<lambda>plain_text. Inr (ba_set_output plain_text)))))))"

definition get_cipher_length :: "nat \<Rightarrow> nat" where
  "get_cipher_length plain_length = u64 (plain_length + ZEROBYTES)"

definition get_plain_length :: "nat \<Rightarrow> nat" where
  "get_plain_length cipher_text_length = u64 (cipher_text_length + BOXZEROBYTES)"

definition get_key_length :: nat where "get_key_length = KEYBYTES"
definition get_padding_length :: nat where "get_padding_length = ZEROBYTES"
definition get_cipher_padding_length :: nat where "get_cipher_padding_length = BOXZEROBYTES"

section \<open>EncryptionTask\<close>

record encryption_task =
  en_cipher :: encrypted_message
  en_plain :: byte_array
  en_key :: byte_array

definition encryption_task_new :: "nat \<Rightarrow> encryption_task" where
  "encryption_task_new plain_capacity =
     \<lparr>en_cipher = em_reserve (em_new 0) (get_cipher_length plain_capacity),
      en_plain = ba_reserve ba_new (u64 (plain_capacity + get_padding_length)),
      en_key = ba_reserve ba_new get_key_length\<rparr>"

definition encryption_init :: "encryption_task \<Rightarrow> buffer_view \<Rightarrow> buffer_view \<Rightarrow> encryption_task res" where
  "encryption_init t plain key =
     rbind (ba_copy_from_buffer (en_plain t) plain get_padding_length 0 (bv_size plain)) (\<lambda>(p, _).
     rbind (if bv_to_bool key then rbind (ba_copy_from_buffer (en_key t) key 0 0 (bv_size key)) (\<lambda>(k, _). Inr k)
            else ba_reset (en_key t)) (\<lambda>k.
     rbind (em_clear (em_resize (en_cipher t) (ba_len p))) (\<lambda>c.
       Inr \<lparr>en_cipher = c, en_plain = p, en_key = k\<rparr>)))"

definition encryption_execute :: "secretbox \<Rightarrow> byte list \<Rightarrow> byte list \<Rightarrow> encryption_task \<Rightarrow> encryption_task res" where
  "encryption_execute box new_key rnd t =
     rbind (encrypt box new_key rnd (en_plain t) (en_key t) (en_cipher t)) (\<lambda>(key, cipher).
       Inr (t\<lparr>en_key := key, en_cipher := cipher\<rparr>))"

section \<open>DecryptionTask\<close>

record decryption_task =
  de_cipher :: encrypted_message
  de_plain :: byte_array
  de_key :: buffer_view



definition decryption_execute :: "secretbox \<Rightarrow> decryption_task \<Rightarrow> decryption_task res" where
  "decryption_execute unbox t =
     rbind (decrypt unbox (de_cipher t) (de_key t) (de_plain t)) (\<lambda>plain. Inr (t\<lparr>de_plain := plain\<rparr>))"

section \<open>The buffers\<close>

lemma ba_raw_inside:
  "ba_wf b \<Longrightarrow> 0 < ba_len b \<Longrightarrow> off + n \<le> ba_len b \<Longrightarrow> ba_raw b off n = Inr (slice off n (ba_bytes b))"
  by (simp add: ba_raw_def ba_at_inside ba_wf_def ba_bytes_def slice_def drop_take min_def)

lemma ba_raw_write_inside:
  assumes "ba_has_spare b" and "0 < ba_len b" and "off + length bs \<le> ba_len b"
  obtains b' where "ba_raw_write b off bs = Inr b'" and "ba_has_spare b'" and "ba_len b' = ba_len b"
    and "ba_bytes b' = patch off bs (ba_bytes b)"
proof -
  have wf: "ba_wf b" using assms(1) by (simp add: ba_has_spare_def)
  then have "off + length bs \<le> length (ba_arr b)" using assms(3) by (simp add: ba_wf_def)
  then have "ba_raw_write b off bs = Inr (b\<lparr>ba_arr := patch off bs (ba_arr b)\<rparr>)"
    using assms wf by (simp add: ba_raw_write_def ba_at_inside)
  then show thesis using that ba_wf_poked [OF wf assms(3)] assms by (auto simp: ba_has_spare_def ba_wf_def)
qed

lemma ba_memcpy_inside:
  assumes "ba_has_spare dst" and "0 < ba_len dst" and "ba_raw src off n = Inr bs" and "to + length bs \<le> ba_len dst"
  obtains b where "ba_memcpy dst to src off n = Inr b" and "ba_has_spare b" and "ba_len b = ba_len dst"
    and "ba_bytes b = patch to bs (ba_bytes dst)"
proof -
  have "ba_at dst 0 = Inr (ba_bytes dst ! 0)" using assms by (intro ba_at_inside) (auto simp: ba_has_spare_def)
  moreover obtain b where "ba_raw_write dst to bs = Inr b" "ba_has_spare b" "ba_len b = ba_len dst"
    "ba_bytes b = patch to bs (ba_bytes dst)"
    by (rule ba_raw_write_inside [OF assms(1,2,4)])
  ultimately show thesis using that assms(3) by (simp add: ba_memcpy_def)
qed

lemma ba_shift_left_inside:
  assumes "ba_has_spare b" and "n \<le> ba_len b" and "ba_len b < 2 ^ 64"
  obtains b' where "ba_shift_left b n = Inr b'" and "ba_has_spare b'" and "ba_len b' = ba_len b - n"
    and "ba_bytes b' = drop n (ba_bytes b)"
proof -
  have wf: "ba_wf b" and len: "ba_len b \<le> length (ba_arr b)" using assms(1) by (auto simp: ba_has_spare_def ba_wf_def)
  have id: "u64_sub (ba_len b) n = ba_len b - n" using assms(2,3) by (simp add: u64_sub_id)
  let ?kept = "slice n (ba_len b - n) (ba_arr b)"
  have k: "?kept = drop n (ba_bytes b)" by (simp only: slice_def ba_bytes_def drop_take)
  then have "length ?kept = ba_len b - n" using wf by simp
  with len have fits: "length (patch 0 ?kept (ba_arr b)) = length (ba_arr b)" by simp
  let ?b = "b\<lparr>ba_arr := patch 0 ?kept (ba_arr b), ba_len := ba_len b - n\<rparr>"
  have "ba_shift_left b n = Inr ?b" using assms(2) len id by (simp add: ba_shift_left_def Let_def)
  moreover have "ba_has_spare ?b" using assms(1,2) fits by (auto simp: ba_has_spare_def ba_wf_def)
  moreover have "ba_bytes ?b = drop n (ba_bytes b)"
    using \<open>length ?kept = ba_len b - n\<close> unfolding k [symmetric] by (simp add: ba_bytes_def patch_0 del: length_slice)
  ultimately show thesis using that by simp
qed

lemma ba_from_array_all:
  assumes "ba_has_spare b" and "src \<noteq> []"
  obtains b' where "ba_from_array b src 0 0 = Inr b'" and "ba_has_spare b'" and "ba_len b' = length src" and "ba_bytes b' = src"
proof -
  define r where "r = (if ba_cap b < length src then ba_reserve b (length src) else b)"
  have "ba_has_spare r" using assms(1) by (auto simp: r_def intro: ba_has_spare_resize)
  then obtain c where c: "ba_clear r = Inr c" "ba_has_spare c" "ba_cap c = ba_cap r" by (rule ba_clear_in_bounds)
  have cap: "length src \<le> ba_cap c" using c(3) by (simp add: r_def)
  let ?c = "c\<lparr>ba_len := length src\<rparr>"
  have wf: "ba_wf ?c" "ba_has_spare ?c" using c(2) cap by (auto simp: ba_has_spare_def ba_wf_def)
  obtain b' where b': "ba_poke ?c 0 src = Inr b'" "ba_wf b'" "ba_len b' = length src" "ba_cap b' = ba_cap c"
    "ba_bytes b' = patch 0 src (ba_bytes ?c)"
    using ba_poke_inside [OF wf(1), of 0 src] assms(2) by auto
  have "ba_at ?c 0 = Inr (ba_bytes ?c ! 0)" using wf(1) assms(2) by (intro ba_at_inside) auto
  then have "ba_from_array b src 0 0 = Inr b'"
    using c(1) b'(1) unfolding r_def by (simp add: ba_from_array_def Let_def split: if_splits)
  moreover have "length (ba_arr b') = length (ba_arr c)"
    using b'(1) by (auto simp: ba_poke_def ba_at_def split: if_splits)
  then have "ba_has_spare b'" using b'(2,4) c(2) by (auto simp: ba_has_spare_def)
  moreover have "ba_bytes b' = src" using b'(5) wf(1) by (simp add: patch_0)
  ultimately show thesis using that b'(3) by simp
qed

lemma ba_copy_from_buffer_spare:
  assumes "ba_has_spare b" and "bv_wf v" and "0 < bv_size v" and "off + bv_size v < 2 ^ 64"
  obtains b' where "ba_copy_from_buffer b v off 0 (bv_size v) = Inr (b', off + bv_size v)" and "ba_has_spare b'"
    and "ba_len b' = max (ba_len b) (off + bv_size v)"
    and "ba_bytes b' = patch off (bv_bytes v)
           (ba_bytes (if ba_len b < off + bv_size v then ba_resize b (off + bv_size v) else b))"
    and "ba_arr b' = patch off (bv_bytes v)
           (ba_arr (if ba_len b < off + bv_size v then ba_resize b (off + bv_size v) else b))"
proof -
  let ?n = "off + bv_size v" and ?ys = "bv_bytes v"
  define r where "r = (if ba_len b < ?n then ba_resize b ?n else b)"
  have r: "ba_has_spare r" "ba_wf r" "ba_len r = max (ba_len b) ?n"
    using assms(1) ba_has_spare_resize(2) [of b ?n] by (auto simp: r_def ba_has_spare_def)
  have len: "length ?ys = bv_size v" using assms(2) by simp
  have "ba_at r 0 = Inr (ba_bytes r ! 0)" using r assms(3) by (intro ba_at_inside) auto
  moreover have "bv_at_read v 0 (bv_size v) = Inr ?ys"
    using assms(2,3) len by (subst bv_at_read_inside) (auto simp: slice_0_all)
  moreover have fits: "?n \<le> length (ba_arr r)" using r by (simp add: ba_wf_def)
  ultimately have "ba_copy_from_buffer b v off 0 (bv_size v) = Inr (r\<lparr>ba_arr := patch off ?ys (ba_arr r)\<rparr>, ?n)"
    using assms(4) by (simp add: ba_copy_from_buffer_def Let_def u64_id flip: r_def)
  moreover have "ba_has_spare (r\<lparr>ba_arr := patch off ?ys (ba_arr r)\<rparr>)"
    using r fits len by (auto simp: ba_has_spare_def ba_wf_def)
  ultimately show thesis
    using that r ba_wf_poked(2) [of r off ?ys] len by (simp add: r_def)
qed

section \<open>What the operations leave behind\<close>

text \<open>What libsodium documents of the two functions: a box can be opened with the key and the nonce it was made with.\<close>

definition secretbox_inverse :: "secretbox \<Rightarrow> secretbox \<Rightarrow> bool" where
  "secretbox_inverse box unbox \<longleftrightarrow>
     (\<forall>k n m. \<exists>c. length c = BOXZEROBYTES + length m \<and>
        box k n (replicate ZEROBYTES 0 @ m) = Some (replicate BOXZEROBYTES 0 @ c) \<and>
        unbox k n (replicate BOXZEROBYTES 0 @ c) = Some (replicate ZEROBYTES 0 @ m))"

definition em_ok :: "encrypted_message \<Rightarrow> bool" where
  "em_ok m \<longleftrightarrow> ba_has_spare (em_nonce m) \<and> ba_has_spare (em_cipher m) \<and> ba_has_spare (em_cipher_text m)"

lemma ba_has_spare_set_output [wf_intros, simp]: "ba_has_spare (ba_set_output b) \<longleftrightarrow> ba_has_spare b"
  by (simp add: ba_has_spare_def ba_set_output_def ba_wf_def)

lemma ba_wf_spare: "ba_has_spare b \<Longrightarrow> ba_wf b"
  by (simp add: ba_has_spare_def)

lemma ba_len_set_output [simp]: "ba_len (ba_set_output b) = ba_len b"
  by (simp add: ba_set_output_def)

lemma set_cipher_text_spec:
  assumes "em_ok m" and "ba_len (em_nonce m) = NONCE_LEN" and "n < ba_len (em_cipher m)"
    and "ba_len (em_cipher m) + NONCE_LEN < 2 ^ 64"
  obtains m' where "em_set_cipher_text m n = Inr m'" and "em_ok m'" and "em_nonce m' = em_nonce m"
    and "ba_bytes (em_cipher_text m') = ba_bytes (em_nonce m) @ drop n (ba_bytes (em_cipher m))"
proof -
  have ok: "ba_has_spare (em_nonce m)" "ba_has_spare (em_cipher m)" "ba_has_spare (em_cipher_text m)"
    using assms(1) by (auto simp: em_ok_def)
  obtain c where c: "ba_shift_left (em_cipher m) n = Inr c" "ba_has_spare c" "ba_len c = ba_len (em_cipher m) - n"
    "ba_bytes c = drop n (ba_bytes (em_cipher m))"
    by (rule ba_shift_left_inside [OF ok(2), of n]) (use assms in auto)
  let ?N = "ba_len c + NONCE_LEN"
  have N: "u64 ?N = ?N" using assms(4) c(3) by (intro u64_id) simp
  obtain t where t: "ba_clear (ba_resize (em_cipher_text m) ?N) = Inr t" "ba_has_spare t" "ba_len t = ?N"
    by (rule ba_clear_in_bounds [OF ba_has_spare_resize(2) [OF ok(3), of ?N]]) auto
  have nonce: "ba_raw (em_nonce m) 0 NONCE_LEN = Inr (ba_bytes (em_nonce m))"
    using ok(1) assms(2) by (subst ba_raw_inside) (auto simp: ba_wf_spare slice_0_all NONCE_LEN_def)
  have ln: "length (ba_bytes (em_nonce m)) = NONCE_LEN" using ok(1) assms(2) by (simp add: ba_wf_spare)
  obtain t1 where t1: "ba_memcpy t 0 (em_nonce m) 0 NONCE_LEN = Inr t1" "ba_has_spare t1" "ba_len t1 = ?N"
    "ba_bytes t1 = patch 0 (ba_bytes (em_nonce m)) (ba_bytes t)"
    by (rule ba_memcpy_inside [OF t(2) _ nonce, of 0]) (use t ln in \<open>auto simp: NONCE_LEN_def\<close>)
  have cipher: "ba_raw c 0 (ba_len c) = Inr (ba_bytes c)"
    using c(2,3) assms(3) by (subst ba_raw_inside) (auto simp: ba_wf_spare intro!: slice_0_all)
  have lc: "length (ba_bytes c) = ba_len c" using c(2) by (simp add: ba_wf_spare)
  obtain t2 where t2: "ba_memcpy t1 NONCE_LEN c 0 (ba_len c) = Inr t2" "ba_has_spare t2" "ba_len t2 = ?N"
    "ba_bytes t2 = patch NONCE_LEN (ba_bytes c) (ba_bytes t1)"
    by (rule ba_memcpy_inside [OF t1(2) _ cipher, of NONCE_LEN]) (use t1 lc in \<open>auto simp: NONCE_LEN_def\<close>)
  have "ba_bytes t2 = ba_bytes (em_nonce m) @ ba_bytes c"
    using ln lc t(2,3) unfolding t2(4) t1(4) by (simp add: patch_def ba_wf_spare)
  then show thesis
    using that c t t1 t2 ok N by (simp add: em_set_cipher_text_def em_ok_def)
qed

lemma generate_key_spec:
  assumes "ba_has_spare key" and "ba_len key = 0 \<or> ba_len key = KEYBYTES" and "length new_key = KEYBYTES"
  obtains key' where "generate_key_array new_key key = Inr key'" and "ba_has_spare key'" and "ba_len key' = KEYBYTES"
    and "ba_bytes key' = (if ba_len key = 0 then new_key else ba_bytes key)"
proof (cases "ba_len key = 0")
  case True
  obtain k where k: "ba_clear (ba_resize key KEYBYTES) = Inr k" "ba_has_spare k" "ba_len k = KEYBYTES"
    by (rule ba_clear_in_bounds [OF ba_has_spare_resize(2) [OF assms(1), of KEYBYTES]]) auto
  obtain k1 where k1: "ba_raw_write k 0 new_key = Inr k1" "ba_has_spare k1" "ba_len k1 = KEYBYTES"
    "ba_bytes k1 = patch 0 new_key (ba_bytes k)"
    by (rule ba_raw_write_inside [OF k(2), of 0 new_key]) (use k assms(3) in \<open>auto simp: KEYBYTES_def\<close>)
  have "ba_bytes k1 = new_key" using k1(4) k(2,3) assms(3) by (simp add: patch_0 ba_wf_spare)
  then show thesis using that True k(1) k1(1-3) by (simp add: generate_key_array_def)
next
  case False
  then show thesis using that assms by (simp add: generate_key_array_def)
qed

definition en_ok :: "encryption_task \<Rightarrow> bool" where
  \<comment> \<open>the first \<^verbatim>\<open>ZEROBYTES\<close> bytes of the plain array are never written\<close>
  "en_ok t \<longleftrightarrow> em_ok (en_cipher t) \<and> ba_has_spare (en_plain t) \<and> ba_has_spare (en_key t) \<and>
     (ba_len (en_key t) = 0 \<or> ba_len (en_key t) = KEYBYTES) \<and> ba_len (en_plain t) < 2 ^ 63 \<and>
     take ZEROBYTES (ba_arr (en_plain t)) = take (length (ba_arr (en_plain t))) (replicate ZEROBYTES 0)"

lemma em_ok_new [wf_intros]: "em_ok (em_new n)"
  by (simp add: em_ok_def em_new_def ba_has_spare_base)

lemma em_ok_resize [wf_intros]: "em_ok m \<Longrightarrow> em_ok (em_resize m n)" "em_ok m \<Longrightarrow> em_ok (em_reserve m n)"
  by (simp_all add: em_ok_def em_resize_def em_reserve_def ba_has_spare_resize)

lemma zeros_reserve:
  assumes "take k (ba_arr b) = take (length (ba_arr b)) (replicate k 0)"
  shows "take k (ba_arr (ba_reserve b n)) = take (length (ba_arr (ba_reserve b n))) (replicate k 0)"
proof -
  have nth: "ba_arr b ! i = 0" if "i < k" "i < length (ba_arr b)" for i
    using arg_cong [OF assms, of "\<lambda>xs. xs ! i"] that by simp
  then show ?thesis
    using assms by (intro nth_equalityI) (auto simp: ba_reserve_def vec_resize_def nth_append)
qed

lemma en_ok_new [wf_intros]: "en_ok (encryption_task_new c)"
proof -
  have len: "ba_len ba_new = 0" by (simp add: ba_new_def)
  have "take ZEROBYTES (ba_arr (ba_reserve ba_new n)) = take (length (ba_arr (ba_reserve ba_new n))) (replicate ZEROBYTES 0)" for n
    by (rule zeros_reserve) (simp add: ba_new_def)
  then show ?thesis
    unfolding en_ok_def encryption_task_new_def
    by (simp only: encryption_task.select_convs) (simp add: len wf_intros del: take_replicate)
qed

lemma em_clear_spec:
  assumes "em_ok m"
  obtains m' where "em_clear m = Inr m'" and "em_ok m'" and "ba_len (em_cipher m') = ba_len (em_cipher m)"
    and "ba_len (em_nonce m') = ba_len (em_nonce m)"
proof -
  have ok: "ba_has_spare (em_nonce m)" "ba_has_spare (em_cipher m)" "ba_has_spare (em_cipher_text m)"
    using assms by (auto simp: em_ok_def)
  obtain n where "ba_clear (em_nonce m) = Inr n" "ba_has_spare n" "ba_len n = ba_len (em_nonce m)"
    by (rule ba_clear_in_bounds [OF ok(1)])
  moreover obtain c where "ba_clear (em_cipher m) = Inr c" "ba_has_spare c" "ba_len c = ba_len (em_cipher m)"
    by (rule ba_clear_in_bounds [OF ok(2)])
  moreover obtain t where "ba_clear (em_cipher_text m) = Inr t" "ba_has_spare t"
    by (rule ba_clear_in_bounds [OF ok(3)])
  ultimately show thesis using that by (simp add: em_clear_def em_ok_def)
qed

lemma encryption_init_spec:
  assumes "en_ok t" and "bv_wf plain" and "0 < bv_size plain" and "bv_size plain < 2 ^ 62"
    and "bv_wf key" and "bv_to_bool key \<longrightarrow> bv_size key = KEYBYTES"
  obtains t' where "encryption_init t plain key = Inr t'" and "en_ok t'"
    and "ba_bytes (en_plain t') =
           replicate ZEROBYTES 0 @ bv_bytes plain @ drop (ZEROBYTES + bv_size plain) (ba_bytes (en_plain t))"
    and "ba_len (en_key t') = (if bv_to_bool key then KEYBYTES else 0)"
    and "bv_to_bool key \<longrightarrow> ba_bytes (en_key t') = bv_bytes key"
    and "ba_len (em_nonce (en_cipher t')) = NONCE_LEN"
    and "ba_len (em_cipher (en_cipher t')) = ba_len (en_plain t')"
proof -
  have ok: "em_ok (en_cipher t)" "ba_has_spare (en_plain t)" "ba_has_spare (en_key t)"
    "ba_len (en_key t) = 0 \<or> ba_len (en_key t) = KEYBYTES" "ba_len (en_plain t) < 2 ^ 63"
    "take ZEROBYTES (ba_arr (en_plain t)) = take (length (ba_arr (en_plain t))) (replicate ZEROBYTES 0)"
    using assms(1) by (auto simp: en_ok_def)
  let ?n = "ZEROBYTES + bv_size plain"
  define r where "r = (if ba_len (en_plain t) < ?n then ba_resize (en_plain t) ?n else en_plain t)"
  obtain p where p: "ba_copy_from_buffer (en_plain t) plain ZEROBYTES 0 (bv_size plain) = Inr (p, ?n)" "ba_has_spare p"
    "ba_len p = max (ba_len (en_plain t)) ?n" "ba_bytes p = patch ZEROBYTES (bv_bytes plain) (ba_bytes r)"
    "ba_arr p = patch ZEROBYTES (bv_bytes plain) (ba_arr r)"
    by (rule ba_copy_from_buffer_spare [OF ok(2) assms(2,3), of ZEROBYTES])
      (use assms(4) in \<open>auto simp: ZEROBYTES_def r_def\<close>)
  have r: "ba_has_spare r" "ba_len r = max (ba_len (en_plain t)) ?n"
    using ok(2) ba_has_spare_resize(2) [OF ok(2)] by (auto simp: r_def)
  have zr: "take ZEROBYTES (ba_arr r) = take (length (ba_arr r)) (replicate ZEROBYTES 0)"
    using ok(6) zeros_reserve [OF ok(6)] by (simp add: r_def ba_resize_def)
  have len: "ba_len r \<le> length (ba_arr r)" using r(1) by (auto simp: ba_has_spare_def ba_wf_def)
  have zeros: "take ZEROBYTES (ba_arr r) = replicate ZEROBYTES 0" using zr len r(2) by simp
  have lp: "length (bv_bytes plain) = bv_size plain" using assms(2) by simp
  have zp: "take ZEROBYTES (ba_arr p) = take (length (ba_arr p)) (replicate ZEROBYTES 0)"
    using zeros len r(2) lp unfolding p(5) by (simp add: patch_def)
  have zb: "take ZEROBYTES (ba_bytes r) = replicate ZEROBYTES 0" using zeros r(2) by (simp add: ba_bytes_def min_absorb1)
  have rest: "drop ?n (ba_bytes r) = drop ?n (ba_bytes (en_plain t))"
    using ok(2) by (auto simp: r_def ba_wf_spare)
  have bytes: "ba_bytes p = replicate ZEROBYTES 0 @ bv_bytes plain @ drop ?n (ba_bytes (en_plain t))"
    unfolding p(4) by (simp add: patch_def lp zb rest)
  obtain k where k: "(if bv_to_bool key then rbind (ba_copy_from_buffer (en_key t) key 0 0 (bv_size key)) (\<lambda>(k, _). Inr k)
      else ba_reset (en_key t)) = Inr k" "ba_has_spare k" "ba_len k = (if bv_to_bool key then KEYBYTES else 0)"
    "bv_to_bool key \<longrightarrow> ba_bytes k = bv_bytes key"
  proof (cases "bv_to_bool key")
    case True
    then have sz: "bv_size key = KEYBYTES" using assms(6) by simp
    obtain k where "ba_copy_from_buffer (en_key t) key 0 0 (bv_size key) = Inr (k, 0 + bv_size key)" "ba_has_spare k"
      "ba_len k = max (ba_len (en_key t)) (0 + bv_size key)"
      "ba_bytes k = patch 0 (bv_bytes key)
        (ba_bytes (if ba_len (en_key t) < 0 + bv_size key then ba_resize (en_key t) (0 + bv_size key) else en_key t))"
      by (rule ba_copy_from_buffer_spare [OF ok(3) assms(5), of 0]) (auto simp: sz KEYBYTES_def)
    then show thesis
      using that [of k] True sz ok(3,4) assms(5) by (auto simp: patch_0 ba_wf_spare)
  next
    case False
    then show thesis
      using that [of "ba_resize (en_key t) 0"] ba_has_spare_resize(2) [OF ok(3)] by (simp add: ba_reset_def ba_clear_def)
  qed
  obtain c where c: "em_clear (em_resize (en_cipher t) (ba_len p)) = Inr c" "em_ok c" "ba_len (em_cipher c) = ba_len p"
    "ba_len (em_nonce c) = NONCE_LEN"
    by (rule em_clear_spec [OF em_ok_resize(1) [OF ok(1), of "ba_len p"]]) (auto simp: em_resize_def)
  have "ba_len p < 2 ^ 63" using p(3) ok(5) assms(4) by (simp add: ZEROBYTES_def)
  then show thesis
    using that [of "\<lparr>en_cipher = c, en_plain = p, en_key = k\<rparr>"] p(1,2) k c bytes zp
    by (simp add: encryption_init_def get_padding_length_def en_ok_def split: if_splits)
qed

lemma encryption_execute_spec:
  assumes inv: "secretbox_inverse box unbox" and "en_ok t" and plain: "ba_bytes (en_plain t) = replicate ZEROBYTES 0 @ m"
    and "ba_len (em_nonce (en_cipher t)) = NONCE_LEN" and "ba_len (em_cipher (en_cipher t)) = ba_len (en_plain t)"
    and "length rnd = NONCE_LEN" and "length new_key = KEYBYTES"
  obtains t' c where "encryption_execute box new_key rnd t = Inr t'" and "en_ok t'" and "en_plain t' = en_plain t"
    and "ba_bytes (en_key t') = (if ba_len (en_key t) = 0 then new_key else ba_bytes (en_key t))"
    and "length c = BOXZEROBYTES + length m"
    and "unbox (ba_bytes (en_key t')) rnd (replicate BOXZEROBYTES 0 @ c) = Some (replicate ZEROBYTES 0 @ m)"
    and "ba_bytes (em_cipher_text (en_cipher t')) = rnd @ c"
proof -
  have ok: "em_ok (en_cipher t)" "ba_has_spare (en_plain t)" "ba_has_spare (en_key t)"
    "ba_len (en_key t) = 0 \<or> ba_len (en_key t) = KEYBYTES" "ba_len (en_plain t) < 2 ^ 63"
    using assms(2) by (auto simp: en_ok_def)
  have em: "ba_has_spare (em_nonce (en_cipher t))" "ba_has_spare (em_cipher (en_cipher t))"
    "ba_has_spare (em_cipher_text (en_cipher t))" using ok(1) by (auto simp: em_ok_def)
  have lp: "ba_len (en_plain t) = ZEROBYTES + length m"
    using arg_cong [OF plain, of length] ok(2) by (simp add: ba_wf_spare)
  obtain key where key: "generate_key_array new_key (en_key t) = Inr key" "ba_has_spare key" "ba_len key = KEYBYTES"
    "ba_bytes key = (if ba_len (en_key t) = 0 then new_key else ba_bytes (en_key t))"
    by (rule generate_key_spec [OF ok(3,4) assms(7)])
  obtain n where n: "ba_raw_write (em_nonce (en_cipher t)) 0 rnd = Inr n" "ba_has_spare n" "ba_len n = NONCE_LEN"
    "ba_bytes n = patch 0 rnd (ba_bytes (em_nonce (en_cipher t)))"
    by (rule ba_raw_write_inside [OF em(1), of 0 rnd]) (use assms in \<open>auto simp: NONCE_LEN_def\<close>)
  have nb: "ba_bytes n = rnd" using n(4) em(1) assms(4,6) by (simp add: patch_0 ba_wf_spare)
  obtain c where c: "length c = BOXZEROBYTES + length m"
    "box (ba_bytes key) rnd (replicate ZEROBYTES 0 @ m) = Some (replicate BOXZEROBYTES 0 @ c)"
    "unbox (ba_bytes key) rnd (replicate BOXZEROBYTES 0 @ c) = Some (replicate ZEROBYTES 0 @ m)"
    using inv unfolding secretbox_inverse_def by blast
  have raws: "ba_raw (en_plain t) 0 (ba_len (en_plain t)) = Inr (replicate ZEROBYTES 0 @ m)"
    "ba_raw n 0 NONCE_LEN = Inr rnd" "ba_raw key 0 KEYBYTES = Inr (ba_bytes key)"
    using ok(2) n(2,3) key(2,3) lp plain nb
    by (auto simp: ba_raw_inside ba_wf_spare slice_0_all box_consts)
  obtain d where d: "ba_raw_write (em_cipher (en_cipher t)) 0 (replicate BOXZEROBYTES 0 @ c) = Inr d" "ba_has_spare d"
    "ba_len d = ba_len (en_plain t)"
    "ba_bytes d = patch 0 (replicate BOXZEROBYTES 0 @ c) (ba_bytes (em_cipher (en_cipher t)))"
    by (rule ba_raw_write_inside [OF em(2), of 0 "replicate BOXZEROBYTES 0 @ c"])
      (use assms(5) lp c(1) in \<open>auto simp: box_consts\<close>)
  have db: "drop BOXZEROBYTES (ba_bytes d) = c"
    using em(2) assms(5) lp c(1) unfolding d(4) by (simp add: patch_0 ba_wf_spare box_consts)
  define e where "e = (en_cipher t)\<lparr>em_nonce := n, em_cipher := d\<rparr>"
  have e: "em_ok e" "ba_len (em_nonce e) = NONCE_LEN" "BOXZEROBYTES < ba_len (em_cipher e)"
    "ba_len (em_cipher e) + NONCE_LEN < 2 ^ 64"
    using em n d(2,3) lp ok(5) by (auto simp: e_def em_ok_def box_consts)
  obtain e' where e': "em_set_cipher_text e BOXZEROBYTES = Inr e'" "em_ok e'" "em_nonce e' = em_nonce e"
    "ba_bytes (em_cipher_text e') = ba_bytes (em_nonce e) @ drop BOXZEROBYTES (ba_bytes (em_cipher e))"
    by (rule set_cipher_text_spec [OF e])
  have "\<not> ba_len (em_cipher (en_cipher t)) < BOXZEROBYTES" using assms(5) lp by (simp add: box_consts)
  then have "encryption_execute box new_key rnd t = Inr (t\<lparr>en_key := key, en_cipher := e'\<rparr>)"
    using key(1) n(1) assms(4,6) raws c(2) d(1) e'(1)
    by (simp add: encryption_execute_def encrypt_def e_def)
  moreover have "en_ok (t\<lparr>en_key := key, en_cipher := e'\<rparr>)" using assms(2) key(2,3) e'(2) by (simp add: en_ok_def)
  ultimately show thesis
    using that [of "t\<lparr>en_key := key, en_cipher := e'\<rparr>" c] key(4) c e'(4) nb db by (simp add: e_def)
qed

lemma from_cipher_text_spec:
  assumes "em_ok m" and "ba_len (em_nonce m) = NONCE_LEN" and "length n = NONCE_LEN" and "BOXZEROBYTES \<le> length c"
    and "length c < 2 ^ 63"
  obtains m' where "em_from_cipher_text m (n @ c) BOXZEROBYTES = Inr m'" and "em_ok m'" and "ba_bytes (em_nonce m') = n"
    and "ba_bytes (em_cipher m') = replicate BOXZEROBYTES 0 @ c" and "ba_len (em_nonce m') = NONCE_LEN"
proof -
  have ok: "ba_has_spare (em_nonce m)" "ba_has_spare (em_cipher m)" "ba_has_spare (em_cipher_text m)"
    using assms(1) by (auto simp: em_ok_def)
  let ?L = "BOXZEROBYTES + length c"
  have L: "u64_sub (u64 (length (n @ c) + BOXZEROBYTES)) NONCE_LEN = ?L"
    using assms(3,5) by (simp add: u64_id u64_sub_id box_consts)
  have P: "u64_sub ?L BOXZEROBYTES = length c" using assms(5) by (simp add: u64_sub_id box_consts)
  obtain d where d: "ba_clear (ba_resize (em_cipher m) ?L) = Inr d" "ba_has_spare d" "ba_len d = ?L"
    "ba_bytes d = replicate ?L 0"
    by (rule ba_clear_in_bounds [OF ba_has_spare_resize(2) [OF ok(2), of ?L]]) auto
  obtain t where t: "ba_from_array (em_cipher_text m) (n @ c) 0 0 = Inr t" "ba_has_spare t" "ba_len t = length (n @ c)"
    "ba_bytes t = n @ c"
    by (rule ba_from_array_all [OF ok(3), of "n @ c"]) (use assms(3) in \<open>auto simp: NONCE_LEN_def\<close>)
  have raws: "ba_raw t 0 NONCE_LEN = Inr n" "ba_raw t NONCE_LEN (length c) = Inr c"
    using t(2-4) assms(3) by (auto simp: ba_raw_inside ba_wf_spare NONCE_LEN_def slice_def)
  obtain n' where n': "ba_memcpy (em_nonce m) 0 t 0 NONCE_LEN = Inr n'" "ba_has_spare n'" "ba_len n' = NONCE_LEN"
    "ba_bytes n' = patch 0 n (ba_bytes (em_nonce m))"
    by (rule ba_memcpy_inside [OF ok(1) _ raws(1), of 0]) (use assms in \<open>auto simp: NONCE_LEN_def\<close>)
  obtain d' where d': "ba_memcpy d BOXZEROBYTES t NONCE_LEN (length c) = Inr d'" "ba_has_spare d'" "ba_bytes d' = patch BOXZEROBYTES c (ba_bytes d)"
    by (rule ba_memcpy_inside [OF d(2) _ raws(2), of BOXZEROBYTES]) (use d(3) in \<open>auto simp: box_consts\<close>)
  have "ba_bytes n' = n" using n'(4) ok(1) assms(2,3) by (simp add: patch_0 ba_wf_spare)
  moreover have "ba_bytes d' = replicate BOXZEROBYTES 0 @ c" unfolding d'(3) d(4) by (simp add: patch_def)
  moreover have "em_from_cipher_text m (n @ c) BOXZEROBYTES = Inr \<lparr>em_nonce = n', em_cipher = d', em_cipher_text = t\<rparr>"
    using d(1,3) t(1) n'(1) d'(1) L P by (simp add: em_from_cipher_text_def)
  ultimately show thesis using that n'(2,3) d'(2) t(2) by (simp add: em_ok_def)
qed

lemma decrypt_spec:
  assumes "em_ok m" and "ba_bytes (em_nonce m) = n" and "length n = NONCE_LEN" and "ba_bytes (em_cipher m) = c"
    and "unbox k n c = Some (replicate ZEROBYTES 0 @ p)" and "length c = ZEROBYTES + length p" and "length p < 2 ^ 63"
    and "length k = KEYBYTES" and "ba_has_spare q"
  obtains q' where "decrypt unbox m (bv_msg k) (ba_resize q (ba_len (em_cipher m))) = Inr q'" and "ba_bytes q' = p"
proof -
  have ok: "ba_has_spare (em_nonce m)" "ba_has_spare (em_cipher m)" using assms(1) by (auto simp: em_ok_def)
  have lens: "ba_len (em_nonce m) = NONCE_LEN" "ba_len (em_cipher m) = ZEROBYTES + length p"
    using assms(2-4,6) ok length_ba_bytes [OF ba_wf_spare] by metis+
  define r where "r = ba_resize q (ba_len (em_cipher m))"
  have r: "ba_has_spare r" "ba_len r = ZEROBYTES + length p"
    using ba_has_spare_resize(2) [OF assms(9)] lens(2) by (simp_all add: r_def)
  have reads: "ba_raw (em_cipher m) 0 (ba_len (em_cipher m)) = Inr c" "ba_raw (em_nonce m) 0 NONCE_LEN = Inr n"
    "bv_read (bv_msg k) 0 KEYBYTES = Inr k"
    using ok lens assms(2-4,6,8) by (auto simp: ba_raw_inside ba_wf_spare slice_0_all bv_read_msg box_consts)
  have at: "ba_at r 0 = Inr (ba_bytes r ! 0)" using r by (intro ba_at_inside) (auto simp: ba_wf_spare ZEROBYTES_def)
  obtain w where w: "ba_raw_write r 0 (replicate ZEROBYTES 0 @ p) = Inr w" "ba_has_spare w" "ba_len w = ba_len r"
    "ba_bytes w = patch 0 (replicate ZEROBYTES 0 @ p) (ba_bytes r)"
    by (rule ba_raw_write_inside [OF r(1), of 0 "replicate ZEROBYTES 0 @ p"]) (use r(2) in \<open>auto simp: ZEROBYTES_def\<close>)
  have wb: "ba_bytes w = replicate ZEROBYTES 0 @ p" using r unfolding w(4) by (simp add: patch_0 ba_wf_spare)
  obtain q' where q': "ba_shift_left w ZEROBYTES = Inr q'" "ba_bytes q' = drop ZEROBYTES (ba_bytes w)"
    by (rule ba_shift_left_inside [OF w(2), of ZEROBYTES]) (use w(3) r(2) assms(7) in \<open>auto simp: ZEROBYTES_def\<close>)
  have "decrypt unbox m (bv_msg k) r = Inr (ba_set_output q')"
    using at reads assms(5) w(1) q'(1) by (simp add: decrypt_def)
  then show thesis using that q'(2) wb by (simp add: r_def)
qed

section \<open>Properties\<close>

text \<open>
  C36: A message that an \<open>EncryptionTask\<close> has encrypted is opened again by \<open>decrypt\<close>: the task is initialised with a plain
  text and with a key of 32 bytes or with none, it runs, its cipher text is read into an \<open>EncryptedMessage\<close> that has been
  resized, and decryption with the key the task used gives back the plain text, followed by what the plain text of an
  earlier, longer message of the same task had beyond the length of this one: the task never shortens its array. The
  task stays well-formed, so it can be used again.
\<close>

theorem encryption_round_trip:
  assumes inv: "secretbox_inverse box unbox" and ok: "en_ok t"
    and plain: "bv_wf plain" "0 < bv_size plain" "bv_size plain < 2 ^ 62"
    and key: "bv_wf key" "bv_to_bool key \<longrightarrow> bv_size key = KEYBYTES"
    and len: "length rnd = NONCE_LEN" "length new_key = KEYBYTES"
    and m: "em_ok m" and q: "ba_has_spare q"
  shows "\<exists>t1 t2 m1 q1. encryption_init t plain key = Inr t1 \<and> encryption_execute box new_key rnd t1 = Inr t2 \<and> en_ok t2 \<and>
    ba_bytes (en_key t2) = (if bv_to_bool key then bv_bytes key else new_key) \<and>
    em_from_cipher_text (em_resize m n) (ba_bytes (em_cipher_text (en_cipher t2))) get_cipher_padding_length = Inr m1 \<and>
    decrypt unbox m1 (bv_msg (ba_bytes (en_key t2))) (ba_resize q (ba_len (em_cipher m1))) = Inr q1 \<and>
    ba_bytes q1 = bv_bytes plain @ drop (ZEROBYTES + bv_size plain) (ba_bytes (en_plain t))"
proof -
  define p where "p = bv_bytes plain @ drop (ZEROBYTES + bv_size plain) (ba_bytes (en_plain t))"
  obtain t1 where t1: "encryption_init t plain key = Inr t1" "en_ok t1"
    "ba_bytes (en_plain t1) = replicate ZEROBYTES 0 @ p" "ba_len (en_key t1) = (if bv_to_bool key then KEYBYTES else 0)"
    "bv_to_bool key \<longrightarrow> ba_bytes (en_key t1) = bv_bytes key" "ba_len (em_nonce (en_cipher t1)) = NONCE_LEN"
    "ba_len (em_cipher (en_cipher t1)) = ba_len (en_plain t1)"
    by (rule encryption_init_spec [OF ok plain key]) (simp add: p_def)
  obtain t2 c where t2: "encryption_execute box new_key rnd t1 = Inr t2" "en_ok t2"
    "ba_bytes (en_key t2) = (if ba_len (en_key t1) = 0 then new_key else ba_bytes (en_key t1))"
    "length c = BOXZEROBYTES + length p"
    "unbox (ba_bytes (en_key t2)) rnd (replicate BOXZEROBYTES 0 @ c) = Some (replicate ZEROBYTES 0 @ p)"
    "ba_bytes (em_cipher_text (en_cipher t2)) = rnd @ c"
    by (rule encryption_execute_spec [OF inv t1(2,3,6,7) len])
  have used: "ba_bytes (en_key t2) = (if bv_to_bool key then bv_bytes key else new_key)"
    using t2(3) t1(4,5) by (simp add: KEYBYTES_def)
  then have lk: "length (ba_bytes (en_key t2)) = KEYBYTES" using key len by auto
  have "length (replicate ZEROBYTES 0 @ p) < 2 ^ 63"
    using t1(2) unfolding t1(3) [symmetric] by (simp add: en_ok_def ba_wf_spare)
  then have lp: "length p < 2 ^ 63 - 32" by (simp add: ZEROBYTES_def)
  obtain m1 where m1: "em_from_cipher_text (em_resize m n) (rnd @ c) BOXZEROBYTES = Inr m1" "em_ok m1"
    "ba_bytes (em_nonce m1) = rnd" "ba_bytes (em_cipher m1) = replicate BOXZEROBYTES 0 @ c"
    by (rule from_cipher_text_spec [OF em_ok_resize(1) [OF m, of n] _ len(1), of c])
      (use t2(4) lp in \<open>auto simp: em_resize_def box_consts\<close>)
  obtain q1 where "decrypt unbox m1 (bv_msg (ba_bytes (en_key t2))) (ba_resize q (ba_len (em_cipher m1))) = Inr q1"
    "ba_bytes q1 = p"
    by (rule decrypt_spec [where unbox = unbox and p = p, OF m1(2,3) len(1) m1(4) t2(5) _ _ lk q]) (use t2(4) lp in \<open>auto simp: box_consts\<close>)
  then show ?thesis using t1(1) t2(1,2,6) m1(1) used p_def by (auto simp: get_cipher_padding_length_def)
qed

definition null_box :: secretbox where "null_box k n m = Some (replicate ZEROBYTES 0 @ drop ZEROBYTES m)"
definition null_unbox :: secretbox where "null_unbox k n c = Some c"

lemma null_box_inverse: "secretbox_inverse null_box null_unbox"
  unfolding secretbox_inverse_def null_box_def null_unbox_def
proof (intro allI)
  fix k n m :: "byte list"
  have "replicate 32 (0 :: byte) = replicate 16 0 @ replicate 16 0" by (simp flip: replicate_add)
  then show "\<exists>c. length c = BOXZEROBYTES + length m \<and>
      Some (replicate ZEROBYTES 0 @ drop ZEROBYTES (replicate ZEROBYTES 0 @ m)) = Some (replicate BOXZEROBYTES 0 @ c) \<and>
      Some (replicate BOXZEROBYTES 0 @ c) = Some (replicate ZEROBYTES 0 @ m)"
    by (intro exI [of _ "replicate BOXZEROBYTES 0 @ m"]) (simp add: box_consts)
qed

theorem encryption_round_trip_witness:
  "\<exists>t1 t2 m1 q1. encryption_init (encryption_task_new 10) (bv_msg [1, 2, 3]) bv_empty = Inr t1 \<and>
    encryption_execute null_box (replicate 32 7) (replicate 24 9) t1 = Inr t2 \<and>
    em_from_cipher_text (em_resize (em_new 0) 0) (ba_bytes (em_cipher_text (en_cipher t2))) get_cipher_padding_length = Inr m1 \<and>
    decrypt null_unbox m1 (bv_msg (ba_bytes (en_key t2))) (ba_resize ba_new (ba_len (em_cipher m1))) = Inr q1 \<and>
    ba_bytes q1 = [1, 2, 3]"
proof -
  have "ba_bytes (en_plain (encryption_task_new 10)) = []"
    by (simp add: encryption_task_new_def ba_bytes_def) (simp add: ba_new_def)
  then show ?thesis
    using encryption_round_trip [OF null_box_inverse en_ok_new [of 10], of "bv_msg [1, 2, 3]" bv_empty "replicate 24 9"
        "replicate 32 7" "em_new 0" ba_new 0]
    by (auto simp: bv_empty_def bv_wf_def bv_to_bool_def box_consts em_ok_new ba_has_spare_base)
qed



end
