(* ===== verification/Allocators.thy ===== *)
theory Allocators
  imports TaskPool
begin

text \<open>
  Memory allocation: \<open>TrackedAllocator\<close> of \<^verbatim>\<open>src/lib/libutils/utils/common\<close>, \<open>ConcurrentAllocator\<close> and
  \<open>MemoryAllocationThread\<close> of \<^verbatim>\<open>src/lib/libutils/utils/concurrency\<close>.

  A block is a number, and \<^verbatim>\<open>operator new\<close> returns any number that is not a block already. The concurrent
  allocator keeps spare blocks for small requests, which a thread replenishes, and returns blocks later. The critical
  sections of its methods are functions; the system of its clients, the thread that replenishes and the heap is a
  step relation over them. The thread is a second one, with the points at which it holds the mutex.
\<close>

section \<open>TrackedAllocator\<close>

record tracked_allocator =
  ta_size :: nat
  ta_total :: nat

definition ta_new :: "nat \<Rightarrow> tracked_allocator" where
  "ta_new elem = \<lparr>ta_size = elem, ta_total = 0\<rparr>"

definition ta_copy :: "nat \<Rightarrow> tracked_allocator \<Rightarrow> tracked_allocator" where
  \<comment> \<open>the copy, for a type of \<open>elem\<close> bytes, starts with the bytes of the original\<close>
  "ta_copy elem other = \<lparr>ta_size = elem, ta_total = ta_total other\<rparr>"

definition ta_allocate :: "nat \<Rightarrow> tracked_allocator \<Rightarrow> tracked_allocator" where
  "ta_allocate n a = a\<lparr>ta_total := u64 (ta_total a + u64 (n * ta_size a))\<rparr>"

definition ta_deallocate :: "nat \<Rightarrow> tracked_allocator \<Rightarrow> tracked_allocator" where
  "ta_deallocate n a = a\<lparr>ta_total := u64_sub (ta_total a) (n * ta_size a)\<rparr>"

lemma ta_total_balanced:
  assumes "ta_total a + n * ta_size a < 2 ^ 64"
  shows "ta_deallocate n (ta_allocate n a) = a"
proof -
  have "n * ta_size a < 2 ^ 64" using assms by linarith
  then show ?thesis using assms by (simp add: ta_allocate_def ta_deallocate_def u64_id u64_sub_id)
qed

section \<open>MemoryAllocationThread\<close>

text \<open>
  Where the thread is: it has not locked the mutex yet, tests the stop flag, is about to wait, waits, was woken and
  wants the mutex back, works off events, runs a callback, or has returned.
\<close>

datatype mt_point = Start | AtTest | AtWait | Waiting | Woken | Draining | Calling nat | Finished

record 'cb mem_thread =
  mt_stop :: bool
  mt_last_idx :: nat
  mt_callbacks :: "nat \<rightharpoonup> 'cb"
  mt_events :: "nat list"
  mt_point :: mt_point

definition mt_new :: "'cb mem_thread" where
  "mt_new = \<lparr>mt_stop = False, mt_last_idx = 0, mt_callbacks = Map.empty, mt_events = [], mt_point = Start\<rparr>"

definition mt_locked :: "'cb mem_thread \<Rightarrow> bool" where
  \<comment> \<open>whether the thread holds the mutex\<close>
  "mt_locked m = (case mt_point m of AtTest \<Rightarrow> True | AtWait \<Rightarrow> True | Draining \<Rightarrow> True | Calling _ \<Rightarrow> True | _ \<Rightarrow> False)"

definition mt_wake :: "'cb mem_thread \<Rightarrow> 'cb mem_thread" where
  "mt_wake m = (if mt_point m = Waiting then m\<lparr>mt_point := Woken\<rparr> else m)"

definition mt_add :: "'cb \<Rightarrow> 'cb mem_thread \<Rightarrow> nat \<times> 'cb mem_thread" where
  \<comment> \<open>\<^verbatim>\<open>emplace\<close> keeps a callback that has the index already\<close>
  "mt_add callback m =
     (let idx = mt_last_idx m
      in (idx, m\<lparr>mt_last_idx := u32 (idx + 1),
                mt_callbacks := (if mt_callbacks m idx = None then (mt_callbacks m)(idx \<mapsto> callback) else mt_callbacks m)\<rparr>))"

definition mt_remove :: "nat \<Rightarrow> 'cb mem_thread \<Rightarrow> 'cb mem_thread" where
  "mt_remove idx m = m\<lparr>mt_callbacks := (mt_callbacks m)(idx := None)\<rparr>"

definition mt_notify :: "nat \<Rightarrow> 'cb mem_thread \<Rightarrow> 'cb mem_thread" where
  "mt_notify idx m = mt_wake (m\<lparr>mt_events := mt_events m @ [idx]\<rparr>)"

definition mt_request_stop :: "'cb mem_thread \<Rightarrow> 'cb mem_thread" where
  \<comment> \<open>the destructor, up to \<^verbatim>\<open>join\<close>; it does not lock the mutex\<close>
  "mt_request_stop m = mt_wake (m\<lparr>mt_stop := True\<rparr>)"

definition mt_loop :: "'cb mem_thread \<Rightarrow> 'cb mem_thread option" where
  \<comment> \<open>the next step of \<^verbatim>\<open>_thread_loop\<close>; \<open>None\<close> where it waits or has returned\<close>
  "mt_loop m =
     (case mt_point m of
        Start \<Rightarrow> Some (m\<lparr>mt_point := AtTest\<rparr>)
      | AtTest \<Rightarrow> Some (m\<lparr>mt_point := (if mt_stop m then Finished else AtWait)\<rparr>)
      | AtWait \<Rightarrow> Some (m\<lparr>mt_point := Waiting\<rparr>)
      | Waiting \<Rightarrow> None
      | Woken \<Rightarrow> Some (m\<lparr>mt_point := Draining\<rparr>)
      | Draining \<Rightarrow>
          (case mt_events m of
             [] \<Rightarrow> Some (m\<lparr>mt_point := AtTest\<rparr>)
           | idx # events \<Rightarrow>
               if mt_callbacks m idx \<noteq> None then Some (m\<lparr>mt_point := Calling idx\<rparr>) else Some (m\<lparr>mt_events := events\<rparr>))
      | Calling idx \<Rightarrow> Some (m\<lparr>mt_events := tl (mt_events m), mt_point := Draining\<rparr>)
      | Finished \<Rightarrow> None)"

inductive mt_step :: "'cb mem_thread \<Rightarrow> 'cb mem_thread \<Rightarrow> bool" where
  mt_run: "mt_loop m = Some m' \<Longrightarrow> mt_step m m'"
| mt_client_add: "\<not> mt_locked m \<Longrightarrow> mt_step m (snd (mt_add cb m))"
| mt_client_remove: "\<not> mt_locked m \<Longrightarrow> mt_step m (mt_remove idx m)"
| mt_client_notify: "\<not> mt_locked m \<Longrightarrow> mt_step m (mt_notify idx m)"
| mt_destroy: "mt_step m (mt_request_stop m)"
| mt_spurious: "mt_step m (mt_wake m)"

section \<open>ConcurrentAllocator\<close>

type_synonym block = nat

record allocator =
  ca_max_ptrs :: nat
  ca_max_count :: nat
  ca_size :: nat
  ca_queues :: "block list list"
  ca_dealloc :: "(block \<times> nat) list"
  ca_idx :: nat
  ca_registered :: bool
  ca_total :: nat

definition ca_register :: "'cb \<Rightarrow> 'cb mem_thread \<Rightarrow> allocator \<Rightarrow> allocator \<times> 'cb mem_thread" where
  "ca_register callback executor a =
     (let (idx, executor) = mt_add callback executor in (a\<lparr>ca_idx := idx, ca_registered := True\<rparr>, executor))"

definition ca_new :: "nat \<Rightarrow> nat \<Rightarrow> nat \<Rightarrow> allocator" where
  \<comment> \<open>without an executor\<close>
  "ca_new elem max_ptrs max_count =
     \<lparr>ca_max_ptrs = max_ptrs, ca_max_count = max_count, ca_size = elem, ca_queues = replicate max_count [], ca_dealloc = [],
      ca_idx = 0, ca_registered = False, ca_total = 0\<rparr>"

definition ca_copy :: "nat \<Rightarrow> 'cb \<Rightarrow> 'cb mem_thread \<Rightarrow> allocator \<Rightarrow> allocator \<times> 'cb mem_thread" where
  \<comment> \<open>a copy has no blocks of its own; it registers with the executor of the original, if there is one\<close>
  "ca_copy elem callback executor other =
     (let a = (ca_new elem (ca_max_ptrs other) (ca_max_count other))\<lparr>ca_total := ca_total other\<rparr>
      in if ca_registered other then ca_register callback executor a else (a, executor))"

definition ca_take :: "nat \<Rightarrow> allocator \<Rightarrow> (block option \<times> bool \<times> allocator) res" where
  \<comment> \<open>the first part of \<^verbatim>\<open>allocate\<close>, under the lock: a spare block, if there is one, and whether to notify\<close>
  "ca_take n a =
     (if ca_max_count a < n then Inr (None, False, a)
      else let i = u64_sub n 1
           in if length (ca_queues a) \<le> i then Inl OutOfRange
              else case ca_queues a ! i of
                     [] \<Rightarrow> Inr (None, True, a)
                   | p # ps \<Rightarrow> Inr (Some p, True, a\<lparr>ca_queues := (ca_queues a)[i := ps]\<rparr>))"

definition ca_count :: "nat \<Rightarrow> allocator \<Rightarrow> allocator" where
  \<comment> \<open>the second part, when a block was obtained from \<^verbatim>\<open>operator new\<close>\<close>
  "ca_count n a = a\<lparr>ca_total := u64 (ca_total a + u64 (n * ca_size a))\<rparr>"

definition ca_deallocate :: "block \<Rightarrow> nat \<Rightarrow> allocator \<Rightarrow> block list \<times> allocator" where
  \<comment> \<open>with the blocks that are given back to the heap\<close>
  "ca_deallocate p n a =
     (let (freed, q) = (if ca_max_ptrs a < length (ca_dealloc a) then (map fst (ca_dealloc a), []) else ([], ca_dealloc a))
      in (freed, a\<lparr>ca_dealloc := q @ [(p, n)]\<rparr>))"

definition ca_swap :: "allocator \<Rightarrow> (block \<times> nat) list \<times> allocator" where
  "ca_swap a = (ca_dealloc a, a\<lparr>ca_dealloc := []\<rparr>)"

definition ca_push :: "nat \<Rightarrow> block \<Rightarrow> allocator \<Rightarrow> allocator" where
  "ca_push i p a = ca_count (i + 1) (a\<lparr>ca_queues := (ca_queues a)[i := ca_queues a ! i @ [p]]\<rparr>)"

definition ca_destroy :: "allocator \<Rightarrow> block list \<times> allocator" where
  \<comment> \<open>the destructor behind \<^verbatim>\<open>remove\<close>\<close>
  "ca_destroy a =
     (map fst (ca_dealloc a) @ concat (ca_queues a), a\<lparr>ca_dealloc := [], ca_queues := [], ca_registered := False\<rparr>)"

definition ca_unregister :: "'cb mem_thread \<Rightarrow> allocator \<Rightarrow> 'cb mem_thread" where
  \<comment> \<open>the first step of the destructor\<close>
  "ca_unregister executor a = (if ca_registered a then mt_remove (ca_idx a) executor else executor)"

definition ca_notify :: "'cb mem_thread \<Rightarrow> allocator \<Rightarrow> 'cb mem_thread" where
  \<comment> \<open>what \<^verbatim>\<open>deallocate\<close>, and \<^verbatim>\<open>allocate\<close> of a size that has a queue, do last, without the lock\<close>
  "ca_notify executor a = (if ca_registered a then mt_notify (ca_idx a) executor else executor)"

section \<open>The allocator, its clients and the heap\<close>

text \<open>
  \<open>_check_allocations\<close>, which the thread runs as a callback, between two locks of the mutex: it fills queue \<open>i\<close> up to
  \<open>j\<close> blocks, has a block for it, or gives blocks back. \<open>copy\<close> is the queue it has taken over.
\<close>

datatype check_point =
  Resting
| Filling nat nat "(block \<times> nat) list"
| Pushing nat nat block "(block \<times> nat) list"
| Freeing "(block \<times> nat) list"

text \<open>
  A client holds blocks, wants a block of \<open>n\<close> elements for which there was no spare one, or has one from
  \<^verbatim>\<open>operator new\<close> and waits for the lock. A block that is deleted without being allocated sets \<open>me_fault\<close>.
\<close>

record memory =
  me_alloc :: allocator
  me_live :: "block list"
  me_fault :: bool
  me_held :: "(block \<times> nat) list"
  me_wants :: "nat list"
  me_flight :: "(block \<times> nat) list"
  me_check :: check_point

definition me_init :: "allocator \<Rightarrow> memory" where
  "me_init a = \<lparr>me_alloc = a, me_live = [], me_fault = False, me_held = [], me_wants = [], me_flight = [], me_check = Resting\<rparr>"

fun heap_free :: "block list \<Rightarrow> memory \<Rightarrow> memory" where
  "heap_free [] s = s"
| "heap_free (p # ps) s =
     heap_free ps (if p \<in> set (me_live s) then s\<lparr>me_live := remove1 p (me_live s)\<rparr> else s\<lparr>me_fault := True\<rparr>)"

definition check_enter :: "nat \<Rightarrow> (block \<times> nat) list \<Rightarrow> allocator \<Rightarrow> check_point" where
  "check_enter i copy a = (if i < ca_max_count a then Filling i (length (ca_queues a ! i)) copy else Freeing copy)"

definition check_run :: "block \<Rightarrow> memory \<Rightarrow> memory" where
  \<comment> \<open>\<open>p\<close> is what \<^verbatim>\<open>operator new\<close> returns in this step\<close>
  "check_run p s =
     (case me_check s of
        Resting \<Rightarrow> (let (copy, a) = ca_swap (me_alloc s) in s\<lparr>me_alloc := a, me_check := check_enter 0 copy a\<rparr>)
      | Filling i j copy \<Rightarrow>
          if j < ca_max_ptrs (me_alloc s) then s\<lparr>me_live := p # me_live s, me_check := Pushing i j p copy\<rparr>
          else s\<lparr>me_check := check_enter (i + 1) copy (me_alloc s)\<rparr>
      | Pushing i j q copy \<Rightarrow> s\<lparr>me_alloc := ca_push i q (me_alloc s), me_check := Filling i (j + 1) copy\<rparr>
      | Freeing [] \<Rightarrow> s\<lparr>me_check := Resting\<rparr>
      | Freeing (x # copy) \<Rightarrow> heap_free [fst x] (s\<lparr>me_check := Freeing copy\<rparr>))"

inductive me_step :: "memory \<Rightarrow> memory \<Rightarrow> bool" where
  me_take: "ca_take n (me_alloc s) = Inr (Some p, b, a) \<Longrightarrow>
    me_step s (s\<lparr>me_alloc := a, me_held := (p, n) # me_held s\<rparr>)"
| me_miss: "ca_take n (me_alloc s) = Inr (None, b, a) \<Longrightarrow> me_step s (s\<lparr>me_alloc := a, me_wants := n # me_wants s\<rparr>)"
| me_new: "n \<in> set (me_wants s) \<Longrightarrow> p \<notin> set (me_live s) \<Longrightarrow>
    me_step s (s\<lparr>me_wants := remove1 n (me_wants s), me_live := p # me_live s, me_flight := (p, n) # me_flight s\<rparr>)"
| me_count: "(p, n) \<in> set (me_flight s) \<Longrightarrow>
    me_step s (s\<lparr>me_alloc := ca_count n (me_alloc s), me_flight := remove1 (p, n) (me_flight s),
      me_held := (p, n) # me_held s\<rparr>)"
| me_release: "(p, n) \<in> set (me_held s) \<Longrightarrow> ca_deallocate p n (me_alloc s) = (freed, a) \<Longrightarrow>
    me_step s (heap_free freed (s\<lparr>me_alloc := a, me_held := remove1 (p, n) (me_held s)\<rparr>))"
| me_check: "p \<notin> set (me_live s) \<Longrightarrow> me_step s (check_run p s)"

inductive me_reachable :: "allocator \<Rightarrow> memory \<Rightarrow> bool" for a where
  me_start: "me_reachable a (me_init a)"
| me_next: "me_reachable a s \<Longrightarrow> me_step s s' \<Longrightarrow> me_reachable a s'"

inductive_cases me_stepE: "me_step s s'"

section \<open>Invariant\<close>

definition ca_blocks :: "allocator \<Rightarrow> block multiset" where
  "ca_blocks a = mset (concat (ca_queues a)) + mset (map fst (ca_dealloc a))"

fun check_blocks :: "check_point \<Rightarrow> block multiset" where
  "check_blocks Resting = {#}"
| "check_blocks (Filling i j copy) = mset (map fst copy)"
| "check_blocks (Pushing i j p copy) = add_mset p (mset (map fst copy))"
| "check_blocks (Freeing copy) = mset (map fst copy)"

definition me_blocks :: "memory \<Rightarrow> block multiset" where
  "me_blocks s = mset (map fst (me_held s)) + mset (map fst (me_flight s)) + ca_blocks (me_alloc s) + check_blocks (me_check s)"

definition ca_wf :: "allocator \<Rightarrow> bool" where
  "ca_wf a \<longleftrightarrow> length (ca_queues a) = ca_max_count a \<and> (\<forall>q \<in> set (ca_queues a). length q \<le> ca_max_ptrs a) \<and>
     length (ca_dealloc a) \<le> ca_max_ptrs a + 1"

fun check_wf :: "allocator \<Rightarrow> check_point \<Rightarrow> bool" where
  "check_wf a (Filling i j copy) \<longleftrightarrow> i < ca_max_count a \<and> length (ca_queues a ! i) \<le> j \<and> j \<le> ca_max_ptrs a"
| "check_wf a (Pushing i j p copy) \<longleftrightarrow> i < ca_max_count a \<and> length (ca_queues a ! i) \<le> j \<and> j < ca_max_ptrs a"
| "check_wf a _ \<longleftrightarrow> True"

definition me_wf :: "memory \<Rightarrow> bool" where
  "me_wf s \<longleftrightarrow> \<not> me_fault s \<and> distinct (me_live s) \<and> me_blocks s = mset (me_live s) \<and> ca_wf (me_alloc s) \<and>
     check_wf (me_alloc s) (me_check s)"

lemma heap_free_owned:
  assumes "mset ps + rest = mset (me_live s)" and "distinct (me_live s)"
  shows "\<exists>live. heap_free ps s = s\<lparr>me_live := live\<rparr> \<and> mset live = rest \<and> distinct live"
  using assms
proof (induction ps arbitrary: s)
  case Nil
  then show ?case by (intro exI [of _ "me_live s"]) simp
next
  case (Cons p ps)
  have "p \<in># mset (me_live s)" by (simp flip: Cons.prems(1))
  then have p: "p \<in> set (me_live s)" by simp
  let ?s = "s\<lparr>me_live := remove1 p (me_live s)\<rparr>"
  have "mset ps + rest = mset (me_live ?s)" using Cons.prems(1) by (simp flip: Cons.prems(1))
  from Cons.IH [OF this] Cons.prems(2) p show ?case by auto
qed

lemma check_wf_enter: "ca_wf a \<Longrightarrow> check_wf a (check_enter i copy a)"
  by (auto simp: check_enter_def ca_wf_def)

lemma check_blocks_enter [simp]: "check_blocks (check_enter i copy a) = mset (map fst copy)"
  by (simp add: check_enter_def)

lemma check_wf_mono:
  assumes "check_wf a c" and "ca_max_ptrs a' = ca_max_ptrs a" and "ca_max_count a' = ca_max_count a"
    and "\<And>i. length (ca_queues a' ! i) \<le> length (ca_queues a ! i)"
  shows "check_wf a' c"
  using assms(1-3) assms(4) [THEN le_trans] by (cases c) auto

lemma queue_update_length:
  assumes "length q \<le> length (xs ! i)"
  shows "length (xs[i := q] ! j) \<le> length (xs ! j)"
  using assms by (cases "i = j"; cases "i < length xs") (auto simp: list_update_beyond)

lemma ca_take_wf:
  assumes "ca_take n a = Inr (r, b, a')" and "ca_wf a"
  shows "ca_wf a'" and "ca_blocks a = (case r of None \<Rightarrow> {#} | Some p \<Rightarrow> {#p#}) + ca_blocks a'"
    and "check_wf a c \<longrightarrow> check_wf a' c"
proof -
  let ?i = "u64_sub n 1"
  consider (none) "r = None" "a' = a"
    | (some) p ps where "r = Some p" "?i < length (ca_queues a)" "ca_queues a ! ?i = p # ps" "a' = a\<lparr>ca_queues := (ca_queues a)[?i := ps]\<rparr>"
  proof (cases "ca_max_count a < n \<or> ca_queues a ! ?i = []")
    case True
    then show thesis using assms(1) none by (simp add: ca_take_def Let_def split: if_splits)
  next
    case False
    then obtain p ps where "ca_queues a ! ?i = p # ps" by (cases "ca_queues a ! ?i") auto
    with False show thesis using assms(1) some [of p ps] by (simp add: ca_take_def Let_def split: if_splits)
  qed
  then have "ca_wf a' \<and> ca_blocks a = (case r of None \<Rightarrow> {#} | Some p \<Rightarrow> {#p#}) + ca_blocks a' \<and>
    (check_wf a c \<longrightarrow> check_wf a' c)"
  proof cases
    case none
    then show ?thesis using assms(2) by simp
  next
    case some
    have "p # ps \<in> set (ca_queues a)" using some(2,3) nth_mem by metis
    then have "length ps \<le> ca_max_ptrs a" using assms(2) by (fastforce simp: ca_wf_def)
    then have "ca_wf a'" using assms(2) some(4) by (auto simp: ca_wf_def dest!: set_update_subset_insert [THEN subsetD])
    moreover have "mset (concat (ca_queues a)) = add_mset p (mset (concat (ca_queues a')))"
      using mset_concat_update [OF some(2), of "\<lambda>q. q" ps] some(3,4) by simp
    moreover have "check_wf a c \<longrightarrow> check_wf a' c"
      using check_wf_mono [of a c a'] queue_update_length [of ps "ca_queues a" ?i] some(3,4) by simp
    ultimately show ?thesis using some(1,4) by (simp add: ca_blocks_def)
  qed
  then show "ca_wf a'" "ca_blocks a = (case r of None \<Rightarrow> {#} | Some p \<Rightarrow> {#p#}) + ca_blocks a'"
    "check_wf a c \<longrightarrow> check_wf a' c" by (iprover)+
qed

lemma ca_take_zero:
  \<comment> \<open>\<^verbatim>\<open>allocate(0)\<close> throws: it looks for the queue before the first\<close>
  assumes "ca_wf a" and "ca_max_count a < 2 ^ 64 - 1"
  shows "ca_take 0 a = Inl OutOfRange"
proof -
  have "u64_sub 0 1 = 2 ^ 64 - 1" by (simp add: u64_sub_def u64_def)
  then show ?thesis using assms by (simp add: ca_take_def ca_wf_def Let_def)
qed

lemma ca_count_simps [simp]:
  "ca_wf (ca_count n a) \<longleftrightarrow> ca_wf a" "ca_blocks (ca_count n a) = ca_blocks a" "check_wf (ca_count n a) c \<longleftrightarrow> check_wf a c"
  by (cases c; simp add: ca_count_def ca_wf_def ca_blocks_def)+

lemma ca_deallocate_wf:
  assumes "ca_deallocate p n a = (freed, a')" and "ca_wf a"
  shows "ca_wf a'" and "add_mset p (ca_blocks a) = mset freed + ca_blocks a'" and "check_wf a c \<Longrightarrow> check_wf a' c"
  using assms check_wf_mono [of a c a']
  by (auto simp: ca_deallocate_def ca_wf_def ca_blocks_def Let_def split: if_splits)

lemma ca_push_wf:
  assumes "ca_wf a" and "i < ca_max_count a" and "length (ca_queues a ! i) < ca_max_ptrs a"
  shows "ca_wf (ca_push i p a)" and "ca_blocks (ca_push i p a) = add_mset p (ca_blocks a)"
    and "length (ca_queues (ca_push i p a) ! i) = length (ca_queues a ! i) + 1"
    and "ca_max_count (ca_push i p a) = ca_max_count a" and "ca_max_ptrs (ca_push i p a) = ca_max_ptrs a"
proof -
  have i: "i < length (ca_queues a)" using assms(1,2) by (simp add: ca_wf_def)
  show "ca_wf (ca_push i p a)"
    unfolding ca_push_def ca_count_simps(1)
    using assms by (auto simp: ca_wf_def dest!: set_update_subset_insert [THEN subsetD])
  show "ca_blocks (ca_push i p a) = add_mset p (ca_blocks a)"
    using mset_concat_update [OF i, of "\<lambda>q. q" "ca_queues a ! i @ [p]"]
    unfolding ca_push_def ca_count_simps(2) by (simp add: ca_blocks_def)
qed (use assms in \<open>auto simp: ca_push_def ca_count_def ca_wf_def\<close>)

lemmas me_simps = me_wf_def me_blocks_def

lemma mset_fst_remove1:
  assumes "(p, n) \<in> set xs"
  shows "image_mset fst (mset xs) = add_mset p (image_mset fst (mset xs - {#(p, n)#}))"
proof -
  have "mset xs = add_mset (p, n) (mset xs - {#(p, n)#})" using assms by simp
  then have "image_mset fst (mset xs) = image_mset fst (add_mset (p, n) (mset xs - {#(p, n)#}))" by (rule arg_cong)
  then show ?thesis by simp
qed

lemma me_wf_heap_free:
  assumes "\<not> me_fault s" and "distinct (me_live s)" and "mset ps + me_blocks s = mset (me_live s)"
    and "ca_wf (me_alloc s)" and "check_wf (me_alloc s) (me_check s)"
  shows "me_wf (heap_free ps s)"
proof -
  obtain live where "heap_free ps s = s\<lparr>me_live := live\<rparr>" "mset live = me_blocks s" "distinct live"
    using heap_free_owned [OF assms(3,2)] by auto
  then show ?thesis using assms(1,4,5) by (simp add: me_simps)
qed

lemma me_wf_check:
  assumes wf: "me_wf s" and p: "p \<notin> set (me_live s)"
  shows "me_wf (check_run p s)"
proof (cases "me_check s")
  case Resting
  then show ?thesis
    using wf check_wf_enter [of "snd (ca_swap (me_alloc s))" 0]
    by (simp add: check_run_def me_simps ca_swap_def ca_wf_def ca_blocks_def add.assoc)
next
  case (Filling i j copy)
  then show ?thesis using wf p check_wf_enter [of "me_alloc s"] by (auto simp: check_run_def me_simps)
next
  case (Pushing i j q copy)
  then have i: "i < ca_max_count (me_alloc s)" "length (ca_queues (me_alloc s) ! i) < ca_max_ptrs (me_alloc s)"
    using wf by (auto simp: me_wf_def)
  have "ca_wf (me_alloc s)" using wf by (simp add: me_wf_def)
  note push = ca_push_wf [OF this i, of q]
  show ?thesis using wf Pushing push by (simp add: check_run_def me_simps)
next
  case (Freeing copy)
  show ?thesis
  proof (cases copy)
    case Nil
    then show ?thesis using wf Freeing by (simp add: check_run_def me_simps)
  next
    case (Cons x xs)
    have "me_wf (heap_free [fst x] (s\<lparr>me_check := Freeing xs\<rparr>))"
      by (rule me_wf_heap_free) (use wf Freeing Cons in \<open>simp_all add: me_simps\<close>)
    then show ?thesis using Freeing Cons by (simp add: check_run_def)
  qed
qed

lemma me_wf_step:
  assumes "me_step s s'" and wf: "me_wf s"
  shows "me_wf s'"
proof -
  have aw: "ca_wf (me_alloc s)" using wf by (simp add: me_wf_def)
  from assms(1) show ?thesis
  proof cases
    case (me_take n p b a)
    note t = ca_take_wf(1,2) [OF me_take(2) aw] ca_take_wf(3) [OF me_take(2) aw, of "me_check s"]
    show ?thesis using wf t by (simp add: me_take(1) me_simps)
  next
    case (me_miss n b a)
    note t = ca_take_wf(1,2) [OF me_miss(2) aw] ca_take_wf(3) [OF me_miss(2) aw, of "me_check s"]
    show ?thesis using wf t by (simp add: me_miss(1) me_simps)
  next
    case (me_new n p)
    show ?thesis using wf me_new by (simp add: me_simps)
  next
    case (me_count p n)
    show ?thesis using wf by (simp add: me_count(1) me_simps mset_fst_remove1 [OF me_count(2)])
  next
    case (me_release p n freed a)
    note d = ca_deallocate_wf(1,2) [OF me_release(3) aw] ca_deallocate_wf(3) [OF me_release(3) aw, of "me_check s"]
    let ?s = "s\<lparr>me_alloc := a, me_held := remove1 (p, n) (me_held s)\<rparr>"
    have "mset freed + me_blocks ?s = me_blocks s"
      using d(2) by (simp add: me_blocks_def mset_fst_remove1 [OF me_release(2)] ac_simps)
    then show ?thesis unfolding me_release(1) by (intro me_wf_heap_free) (use wf d in \<open>simp_all add: me_wf_def\<close>)
  next
    case (me_check p)
    then show ?thesis using me_wf_check [OF wf] by simp
  qed
qed

lemma me_wf_reachable:
  assumes "me_reachable a s" and "ca_wf a" and "ca_blocks a = {#}"
  shows "me_wf s"
  using assms(1)
proof (induction rule: me_reachable.induct)
  case me_start
  then show ?case using assms(2,3) by (simp add: me_init_def me_simps)
next
  case (me_next s s')
  then show ?case using me_wf_step by blast
qed

lemma ca_wf_new: "ca_wf (ca_new elem k n)" "ca_blocks (ca_new elem k n) = {#}"
  by (auto simp: ca_new_def ca_wf_def ca_blocks_def)

section \<open>Properties\<close>

text \<open>
  C24: The allocator never hands out a block twice, and never one that it is going to hand out, to replenish with or to give
  back: in every state that clients and the replenishing thread can reach by any interleaving of their critical sections,
  the blocks of the clients are distinct, allocated, and none of the allocator's. No block is given back to the heap that
  is not allocated. The spare blocks of a size and the blocks that wait to be given back stay within the limits.
\<close>

theorem allocator_blocks_unique:
  assumes "me_reachable a s" and "ca_wf a" and "ca_blocks a = {#}"
  shows "\<not> me_fault s \<and> distinct (map fst (me_held s)) \<and> fst ` set (me_held s) \<subseteq> set (me_live s) \<and>
    fst ` set (me_held s) \<inter> set_mset (ca_blocks (me_alloc s) + check_blocks (me_check s)) = {} \<and>
    list_all (\<lambda>q. length q \<le> ca_max_ptrs (me_alloc s)) (ca_queues (me_alloc s)) \<and>
    length (ca_dealloc (me_alloc s)) \<le> ca_max_ptrs (me_alloc s) + 1"
proof -
  have wf: "me_wf s" by (rule me_wf_reachable [OF assms])
  let ?rest = "mset (map fst (me_flight s)) + ca_blocks (me_alloc s) + check_blocks (me_check s)"
  obtain rest where rest: "mset rest = ?rest" using ex_mset by blast
  have "mset (map fst (me_held s) @ rest) = mset (me_live s)" using wf rest by (simp add: me_simps ac_simps)
  note same = same_elements [OF this]
  have "distinct (map fst (me_held s) @ rest)" using wf same(1) by (simp add: me_wf_def)
  then have d: "distinct (map fst (me_held s))" "fst ` set (me_held s) \<inter> set rest = {}" by auto
  have "set_mset (ca_blocks (me_alloc s) + check_blocks (me_check s)) \<subseteq> set rest"
    using arg_cong [OF rest, of set_mset] by auto
  with d(2) have "fst ` set (me_held s) \<inter> set_mset (ca_blocks (me_alloc s) + check_blocks (me_check s)) = {}" by blast
  moreover have "fst ` set (me_held s) \<subseteq> set (me_live s)" using same(2) by auto
  ultimately show ?thesis using wf d(1) by (simp add: me_wf_def ca_wf_def list_all_iff)
qed

definition demo_memory :: memory where
  \<comment> \<open>one client got block 5 from the heap; the thread has put block 6 into the queue and rests\<close>
  "demo_memory = (me_init (ca_new 4 1 1))\<lparr>me_alloc := (ca_new 4 1 1)\<lparr>ca_queues := [[6]], ca_total := 8\<rparr>,
     me_live := [6, 5], me_held := [(5, 1)]\<rparr>"

lemma me_reachable_check:
  "me_reachable a s \<Longrightarrow> p \<notin> set (me_live s) \<Longrightarrow> check_run p s = s' \<Longrightarrow> me_reachable a s'"
  using me_next me_step.me_check by metis

lemmas me_demo_simps = me_init_def ca_new_def ca_take_def ca_count_def ca_swap_def ca_push_def check_run_def check_enter_def
  u64_sub_def u64_def

lemma demo_memory_reachable: "me_reachable (ca_new 4 1 1) demo_memory"
proof -
  let ?a = "ca_new 4 1 1"
  let ?s1 = "(me_init ?a)\<lparr>me_wants := [1]\<rparr>"
  let ?s2 = "(me_init ?a)\<lparr>me_live := [5], me_flight := [(5, 1)]\<rparr>"
  let ?s3 = "(me_init ?a)\<lparr>me_alloc := ?a\<lparr>ca_total := 4\<rparr>, me_live := [5], me_held := [(5, 1)]\<rparr>"
  have "ca_take 1 ?a = Inr (None, True, ?a)" by (simp add: me_demo_simps)
  then have "me_reachable ?a ?s1"
    using me_next [OF me_start me_step.me_miss [of 1 "me_init ?a" True ?a]] by (simp add: me_init_def)
  then have "me_reachable ?a ?s2" using me_next [OF _ me_step.me_new [of 1 ?s1 5]] by (simp add: me_init_def)
  then have "me_reachable ?a ?s3"
    using me_next [OF _ me_step.me_count [of 5 1 ?s2]] by (simp add: me_init_def ca_count_def ca_new_def u64_def)
  then have "me_reachable ?a (?s3\<lparr>me_check := Filling 0 0 []\<rparr>)"
    by (rule me_reachable_check [where p = 6]) (simp_all add: me_demo_simps)
  then have "me_reachable ?a (?s3\<lparr>me_live := [6, 5], me_check := Pushing 0 0 6 []\<rparr>)"
    by (rule me_reachable_check [where p = 6]) (simp_all add: me_demo_simps)
  then have "me_reachable ?a (demo_memory\<lparr>me_check := Filling 0 1 []\<rparr>)"
    by (rule me_reachable_check [where p = 7]) (simp_all add: demo_memory_def me_demo_simps)
  then have "me_reachable ?a (demo_memory\<lparr>me_check := Freeing []\<rparr>)"
    by (rule me_reachable_check [where p = 7]) (simp_all add: demo_memory_def me_demo_simps)
  then show ?thesis
    by (rule me_reachable_check [where p = 7]) (simp_all add: demo_memory_def me_demo_simps)
qed

theorem allocator_blocks_unique_witness:
  "distinct (map fst (me_held demo_memory)) \<and> me_held demo_memory = [(5, 1)] \<and> ca_queues (me_alloc demo_memory) = [[6]]"
  using allocator_blocks_unique [OF demo_memory_reachable ca_wf_new] by (simp add: demo_memory_def)

text \<open>
  When all clients have returned their blocks and the replenishing thread rests, the destructor of the allocator gives
  every remaining block back to the heap exactly once.
\<close>

theorem allocator_destroy_frees_all:
  assumes "me_reachable a s" and "ca_wf a" and "ca_blocks a = {#}"
    and "me_held s = []" and "me_flight s = []" and "me_check s = Resting"
  shows "\<not> me_fault (heap_free (fst (ca_destroy (me_alloc s))) s) \<and> me_live (heap_free (fst (ca_destroy (me_alloc s))) s) = []"
proof -
  have wf: "me_wf s" by (rule me_wf_reachable [OF assms(1-3)])
  then have "mset (fst (ca_destroy (me_alloc s))) + {#} = mset (me_live s)"
    using assms(4-6) by (simp add: me_simps ca_destroy_def ca_blocks_def ac_simps)
  from heap_free_owned [OF this] wf show ?thesis by (auto simp: me_wf_def)
qed

definition demo_returned :: memory where
  \<comment> \<open>the client has returned its block\<close>
  "demo_returned = demo_memory\<lparr>me_alloc := (me_alloc demo_memory)\<lparr>ca_dealloc := [(5, 1)]\<rparr>, me_held := []\<rparr>"

lemma demo_returned_reachable: "me_reachable (ca_new 4 1 1) demo_returned"
proof -
  have "ca_deallocate 5 1 (me_alloc demo_memory) = ([], me_alloc demo_returned)"
    by (simp add: ca_deallocate_def demo_returned_def demo_memory_def me_init_def ca_new_def)
  then show ?thesis
    using me_next [OF demo_memory_reachable me_step.me_release [of 5 1 demo_memory]]
    by (simp add: demo_returned_def demo_memory_def)
qed

theorem allocator_destroy_frees_all_witness:
  "me_live demo_returned = [6, 5] \<and> fst (ca_destroy (me_alloc demo_returned)) = [5, 6] \<and>
    me_live (heap_free (fst (ca_destroy (me_alloc demo_returned))) demo_returned) = []"
  using allocator_destroy_frees_all [OF demo_returned_reachable ca_wf_new]
  by (simp add: demo_returned_def demo_memory_def me_init_def ca_destroy_def)

text \<open>
  The destructor of the thread can wait for ever: it sets the stop flag and notifies without locking the mutex, and
  the thread waits without testing a condition. When both happen after the thread has tested the flag and before it
  waits, the thread has no step, and it is not finished.
\<close>

theorem memory_thread_shutdown_hangs:
  "\<exists>m m' :: 'cb mem_thread. mt_step\<^sup>*\<^sup>* mt_new m \<and> mt_loop (mt_request_stop m) = Some m' \<and>
     mt_stop m' \<and> mt_loop m' = None \<and> mt_point m' \<noteq> Finished"
proof -
  let ?m1 = "mt_new\<lparr>mt_point := AtTest\<rparr> :: 'cb mem_thread" and ?m = "mt_new\<lparr>mt_point := AtWait\<rparr> :: 'cb mem_thread"
  have "mt_step mt_new ?m1" by (rule mt_run) (simp add: mt_loop_def mt_new_def)
  moreover have "mt_step ?m1 ?m" by (rule mt_run) (simp add: mt_loop_def mt_new_def)
  ultimately have "mt_step\<^sup>*\<^sup>* mt_new ?m" by (simp add: converse_rtranclp_into_rtranclp)
  moreover have "mt_loop (mt_request_stop ?m) = Some (?m\<lparr>mt_stop := True, mt_point := Waiting\<rparr>)"
    by (simp add: mt_loop_def mt_request_stop_def mt_wake_def)
  ultimately show ?thesis by (intro exI [of _ ?m] exI conjI) (auto simp: mt_loop_def)
qed

text \<open>
  The thread only calls a callback that is registered, and holds the mutex meanwhile, so none is called once
  \<^verbatim>\<open>remove\<close> has returned.
\<close>

definition mt_wf :: "'cb mem_thread \<Rightarrow> bool" where
  "mt_wf m \<longleftrightarrow> (\<forall>idx. mt_point m = Calling idx \<longrightarrow> mt_callbacks m idx \<noteq> None \<and> (\<exists>events. mt_events m = idx # events))"

lemma mt_wf_step: "mt_step m m' \<Longrightarrow> mt_wf m \<Longrightarrow> mt_wf m'"
  by (induction rule: mt_step.induct)
    (auto simp: mt_wf_def mt_loop_def mt_locked_def mt_add_def mt_remove_def mt_notify_def mt_request_stop_def mt_wake_def
      Let_def split: mt_point.splits list.splits if_splits)

theorem memory_thread_calls_registered:
  assumes "mt_step\<^sup>*\<^sup>* mt_new m" and "mt_point m = Calling idx"
  shows "mt_callbacks m idx \<noteq> None \<and> mt_locked m"
proof -
  have "mt_wf m"
    using assms(1)
  proof induction
    case base
    show ?case by (simp add: mt_new_def mt_wf_def)
  next
    case (step m m')
    then show ?case using mt_wf_step by blast
  qed
  then show ?thesis using assms(2) by (simp add: mt_wf_def mt_locked_def)
qed

end
