(* ===== verification/EthGateway.thy ===== *)
theory EthGateway
  imports EthTxProps TxMessagesProps OntMessage
begin

text \<open>
  Transactions from an Ethereum node: \<^verbatim>\<open>TransactionService::process_gateway_transaction_from_node\<close> with the message parser
  and the transaction validator that a service for Ethereum has. The first part holds for every parser and every
  validator that leaves the nonces alone, as the one for Ethereum does here: the service passes it the time 0.
\<close>

section \<open>Any blockchain\<close>

definition node_seen :: "tx_service \<Rightarrow> hash \<Rightarrow> bool" where
  "node_seen s h \<longleftrightarrow> has_transaction_contents s h \<or> removed_transaction s h"

definition node_record :: "bool \<Rightarrow> parsed_tx \<Rightarrow> nat \<Rightarrow> byte list" where
  \<comment> \<open>seen flag, hash, offset and length in the message, outcome of the validation\<close>
  "node_record seen t st =
     le_bytes 1 (if seen then 1 else 0) @ ptx_hash t @ le_bytes 4 (ptx_offset t) @ le_bytes 4 (ptx_length t) @ le_bytes 4 st"

definition node_contents :: "buffer_view \<Rightarrow> parsed_tx \<Rightarrow> byte list" where
  "node_contents msg t = slice (ptx_offset t) (ptx_length t) (bv_bytes msg)"

definition node_learn :: "buffer_view \<Rightarrow> parsed_tx \<Rightarrow> tx_service \<Rightarrow> tx_service" where
  "node_learn msg t s = (if node_seen s (ptx_hash t) then s else store_new s (ptx_hash t) (node_contents msg t))"

fun node_answer :: "buffer_view \<Rightarrow> tx_service \<Rightarrow> (parsed_tx \<times> nat) list \<Rightarrow> byte list" where
  "node_answer msg s [] = []"
| "node_answer msg s ((t, st) # ts) =
     node_record (node_seen s (ptx_hash t)) t (if node_seen s (ptx_hash t) then set_bit TX_VALIDATION_STATUS_VALID_TX 0 else st) @
     node_answer msg (node_learn msg t s) ts"

definition ptx_ok :: "buffer_view \<Rightarrow> parsed_tx \<Rightarrow> bool" where
  "ptx_ok msg t \<longleftrightarrow> length (ptx_hash t) = 32 \<and> 0 < ptx_length t \<and> ptx_offset t + ptx_length t \<le> bv_size msg"

definition node_valid :: "validator \<Rightarrow> nat \<Rightarrow> bool \<Rightarrow> buffer_view \<Rightarrow> tx_service \<Rightarrow> parsed_tx \<Rightarrow> nat \<Rightarrow> bool" where
  \<comment> \<open>what the validator says of a transaction of the message\<close>
  "node_valid validate min_fee enable msg s t st \<longleftrightarrow>
     (if enable
      then validate (bv_msg (node_contents msg t)) min_fee 0 (ts_nonces s) (ts_allowed_time s) (ts_allowed_gas s) = Inr (st, ts_nonces s)
      else st = set_bit TX_VALIDATION_STATUS_VALID_TX 0)"

lemma store_new_frame [simp]:
  "ts_nonces (store_new s h c) = ts_nonces s" "ts_allowed_time (store_new s h c) = ts_allowed_time s"
  "ts_allowed_gas (store_new s h c) = ts_allowed_gas s" "ts_hash_removed (store_new s h c) = ts_hash_removed s"
  by (simp_all add: store_new_def)

lemma node_valid_learn [simp]: "node_valid validate min_fee enable msg (node_learn msg t s) = node_valid validate min_fee enable msg s"
  by (simp add: node_valid_def node_learn_def fun_eq_iff)

lemma length_node_record [simp]: "length (ptx_hash t) = 32 \<Longrightarrow> length (node_record seen t st) = 45"
  by (simp add: node_record_def)

lemma node_contents_ok:
  assumes "bv_ok msg" and "ptx_ok msg t" and "bv_size msg < 2 ^ 32"
  shows "buffer_copy (bv_sub msg (ptx_length t) (ptx_offset t)) = Inr (bv_msg (node_contents msg t))"
    and "length (node_contents msg t) = ptx_length t" and "ptx_offset t < 2 ^ 32" and "ptx_length t < 2 ^ 32"
proof -
  have "bv_wf (bv_sub msg (ptx_length t) (ptx_offset t))"
    "bv_bytes (bv_sub msg (ptx_length t) (ptx_offset t)) = node_contents msg t"
    using bv_wf_sub [of msg "ptx_offset t" "ptx_length t"] assms by (auto simp: bv_ok_def ptx_ok_def node_contents_def)
  then show "buffer_copy (bv_sub msg (ptx_length t) (ptx_offset t)) = Inr (bv_msg (node_contents msg t))"
    using assms(2) by (simp add: buffer_copy_bytes ptx_ok_def)
  show "length (node_contents msg t) = ptx_length t"
    using assms(1,2) by (auto simp: node_contents_def ptx_ok_def bv_ok_def min_def)
qed (use assms in \<open>auto simp: ptx_ok_def\<close>)

lemma node_store_spec:
  assumes s: "ts_wf s" and msg: "bv_ok msg" "bv_size msg < 2 ^ 32" and t: "ptx_ok msg t"
    and valid: "node_valid validate min_fee enable msg s t st"
  shows "node_tx_store validate min_fee enable msg s t = Inr (st, store_new s (ptx_hash t) (node_contents msg t))"
    and "ts_wf (node_learn msg t s)"
proof -
  let ?h = "ptx_hash t" and ?c = "node_contents msg t"
  note c = node_contents_ok [OF msg(1) t msg(2)]
  obtain r where r: "set_transaction_contents s ?h (bv_msg ?c) = Inr (r, store_new s ?h ?c)"
    using s by (cases rule: set_transaction_contents_cases [of s ?h "bv_msg ?c"]) (auto simp: store_new_def mw_find_def)
  then show "node_tx_store validate min_fee enable msg s t = Inr (st, store_new s ?h ?c)"
    using valid c(1) by (simp add: node_tx_store_def node_valid_def)
  show "ts_wf (node_learn msg t s)" using s ts_wf_set_transaction_contents [OF s r] by (simp add: node_learn_def)
qed

lemma node_tx_spec:
  assumes s: "ts_wf s" and msg: "bv_ok msg" "bv_size msg < 2 ^ 32" and t: "ptx_ok msg t"
    and valid: "node_valid validate min_fee enable msg s t st" and st: "st < 2 ^ 32"
    and b: "zbuf b out" "ba_len b = length out" "length out + 45 < 2 ^ 64"
  shows "\<exists>b'. node_tx validate min_fee enable msg (s, b, length out) t = Inr (node_learn msg t s, b', length out + 45) \<and>
    zbuf b' (out @ node_answer msg s [(t, st)]) \<and> ba_len b' = length out + 45"
proof -
  define seen where "seen = node_seen s (ptx_hash t)"
  define v where "v = (if seen then set_bit TX_VALIDATION_STATUS_VALID_TX 0 else st)"
  note c = node_contents_ok [OF msg(1) t msg(2)]
  have h: "length (ptx_hash t) = 32" using t by (simp add: ptx_ok_def)
  have "(if seen then Inr (set_bit TX_VALIDATION_STATUS_VALID_TX 0, s) else node_tx_store validate min_fee enable msg s t) =
    Inr (v, node_learn msg t s)"
    using node_store_spec(1) [OF s msg t valid] by (simp add: v_def seen_def node_learn_def)
  note first = this [unfolded seen_def node_seen_def]
  let ?f = "if seen then 1 else 0 :: nat" and ?n = "length out"
  obtain b1 where b1: "ba_set_le 1 b ?f ?n = Inr (b1, ?n + 1)" "zbuf b1 (out @ le_bytes 1 ?f)"
    using zbuf_set_le [OF b(1), of 1 ?n ?f] b(3) by auto
  have l1: "ba_len b1 = ?n + 1" using ba_set_le_len [OF b1(1)] b(2,3) by (simp add: u64_id)
  obtain b2 where b2: "ba_copy_hash b1 (ptx_hash t) (?n + 1) = Inr (b2, ?n + 33)" "zbuf b2 (out @ le_bytes 1 ?f @ ptx_hash t)"
    using zbuf_copy_hash [OF b1(2) h, of "?n + 1"] b(3) by (auto simp: add.assoc)
  have l2: "ba_len b2 = ?n + 33" using ba_copy_hash_len [OF b2(1)] l1 b(3) by (simp add: u64_id)
  obtain b3 where b3: "ba_set_le 4 b2 (ptx_offset t) (?n + 33) = Inr (b3, ?n + 37)"
    "zbuf b3 (out @ le_bytes 1 ?f @ ptx_hash t @ le_bytes 4 (ptx_offset t))"
    using zbuf_set_le [OF b2(2), of 4 "?n + 33" "ptx_offset t"] b(3) h by (auto simp: add.assoc)
  have l3: "ba_len b3 = ?n + 37" using ba_set_le_len [OF b3(1)] l2 b(3) by (simp add: u64_id)
  obtain b4 where b4: "ba_set_le 4 b3 (ptx_length t) (?n + 37) = Inr (b4, ?n + 41)"
    "zbuf b4 (out @ le_bytes 1 ?f @ ptx_hash t @ le_bytes 4 (ptx_offset t) @ le_bytes 4 (ptx_length t))"
    using zbuf_set_le [OF b3(2), of 4 "?n + 37" "ptx_length t"] b(3) h by (auto simp: add.assoc)
  have l4: "ba_len b4 = ?n + 41" using ba_set_le_len [OF b4(1)] l3 b(3) by (simp add: u64_id)
  obtain b5 where b5: "ba_set_le 4 b4 v (?n + 41) = Inr (b5, ?n + 45)" "zbuf b5 (out @ node_record seen t v)"
    using zbuf_set_le [OF b4(2), of 4 "?n + 41" v] b(3) h by (auto simp: add.assoc node_record_def)
  have l5: "ba_len b5 = ?n + 45" using ba_set_le_len [OF b5(1)] l4 b(3) by (simp add: u64_id)
  have "u32 v = v" using st by (intro u32_id) (simp add: v_def tx_status_consts)
  then have "node_tx validate min_fee enable msg (s, b, ?n) t = Inr (node_learn msg t s, b5, ?n + 45)"
    using first b1(1) b2(1) b3(1) b4(1) b5(1) c(3,4)
    by (simp add: node_tx_def Let_def seen_def node_seen_def u32_id)
  then show ?thesis using b5(2) l5 by (simp add: v_def seen_def)
qed

lemma node_txs_spec:
  assumes s: "ts_wf s" and msg: "bv_ok msg" "bv_size msg < 2 ^ 32"
    and ts: "list_all (\<lambda>(t, st). ptx_ok msg t \<and> node_valid validate min_fee enable msg s t st \<and> st < 2 ^ 32) ts"
    and b: "zbuf b out" "ba_len b = length out" "length out + 45 * length ts < 2 ^ 64"
  shows "\<exists>b'. node_txs validate min_fee enable msg (map fst ts) (s, b, length out) =
      Inr (fold (node_learn msg) (map fst ts) s, b', length out + 45 * length ts) \<and>
    zbuf b' (out @ node_answer msg s ts) \<and> ba_len b' = length out + 45 * length ts \<and>
    ts_wf (fold (node_learn msg) (map fst ts) s)"
  using s ts b
proof (induction ts arbitrary: s b out)
  case (Cons t ts)
  obtain p st where t: "t = (p, st)" by fastforce
  have p: "ptx_ok msg p" "node_valid validate min_fee enable msg s p st" "st < 2 ^ 32" using Cons.prems(2) t by simp_all
  have len: "length (node_answer msg s [(p, st)]) = 45" using p(1) by (simp add: ptx_ok_def)
  obtain b1 where b1: "node_tx validate min_fee enable msg (s, b, length out) p = Inr (node_learn msg p s, b1, length out + 45)"
    "zbuf b1 (out @ node_answer msg s [(p, st)])" "ba_len b1 = length out + 45"
    using node_tx_spec [OF Cons.prems(1) msg p Cons.prems(3,4)] Cons.prems(5) by auto
  have "ts_wf (node_learn msg p s)" by (rule node_store_spec(2) [OF Cons.prems(1) msg p(1,2)])
  moreover have "list_all (\<lambda>(t, st). ptx_ok msg t \<and> node_valid validate min_fee enable msg (node_learn msg p s) t st \<and> st < 2 ^ 32) ts"
    using Cons.prems(2) by simp
  ultimately obtain b' where "node_txs validate min_fee enable msg (map fst ts) (node_learn msg p s, b1, length (out @ node_answer msg s [(p, st)])) =
      Inr (fold (node_learn msg) (map fst ts) (node_learn msg p s), b', length (out @ node_answer msg s [(p, st)]) + 45 * length ts)"
    "zbuf b' ((out @ node_answer msg s [(p, st)]) @ node_answer msg (node_learn msg p s) ts)"
    "ba_len b' = length (out @ node_answer msg s [(p, st)]) + 45 * length ts"
    "ts_wf (fold (node_learn msg) (map fst ts) (node_learn msg p s))"
    using Cons.IH [OF _ _ b1(2)] b1(3) len Cons.prems(5) by fastforce
  then show ?case using b1(1) len t by (simp add: add.assoc)
qed simp

lemma from_node_spec:
  assumes s: "ts_wf s" and msg: "bv_ok msg" "bv_size msg < 2 ^ 32" and p: "parse msg = Inr (map fst ts)"
    and ts: "list_all (\<lambda>(t, st). ptx_ok msg t \<and> node_valid validate min_fee enable msg s t st \<and> st < 2 ^ 32) ts"
    and n: "length ts < 2 ^ 32"
  shows "\<exists>b. process_gateway_transaction_from_node parse validate s msg min_fee enable =
      Inr (b, fold (node_learn msg) (map fst ts) s) \<and>
    ba_bytes b = le_bytes 4 (length ts) @ node_answer msg s ts \<and> ts_wf (fold (node_learn msg) (map fst ts) s)"
proof -
  let ?b = "ba_with_capacity (TX_COUNT_LEN + length ts * (SHA256_LEN + SEEN_FLAG_LEN + 4 + 4 + 4))"
  obtain b1 where b1: "ba_set_le 4 ?b (length ts) 0 = Inr (b1, 4)" "zbuf b1 (le_bytes 4 (length ts))"
    using zbuf_set_le [OF zbuf_new, of 4 0] by auto
  have l1: "ba_len b1 = length (le_bytes 4 (length ts))" using ba_set_le_len [OF b1(1)] by (simp add: ba_with_capacity_def u64_id)
  obtain b2 where b2: "node_txs validate min_fee enable msg (map fst ts) (s, b1, 4) =
      Inr (fold (node_learn msg) (map fst ts) s, b2, 4 + 45 * length ts)"
    "zbuf b2 (le_bytes 4 (length ts) @ node_answer msg s ts)" "ba_len b2 = 4 + 45 * length ts"
    "ts_wf (fold (node_learn msg) (map fst ts) s)"
    using node_txs_spec [OF s msg ts b1(2) l1] n by auto
  have wf: "ba_wf b2" using b2(2) by (simp add: zbuf_def)
  have "length (node_answer msg s ts) = 45 * length ts"
    using ts by (induction ts arbitrary: s) (auto simp: ptx_ok_def)
  then have "ba_bytes (ba_resize b2 (ba_len b2)) = le_bytes 4 (length ts) @ node_answer msg s ts"
    using b2(3) by (intro zbuf_bytes [OF b2(2)]) simp
  then have "ba_bytes b2 = le_bytes 4 (length ts) @ node_answer msg s ts" using wf by (simp add: ba_bytes_resize_shrink)
  then show ?thesis
    using p b1(1) b2(1,4) n by (simp add: process_gateway_transaction_from_node_def u32_id)
qed

section \<open>Ethereum\<close>

text \<open>What a service for Ethereum calls. That the two functions return is part of what is shown below.\<close>

definition eth_message_parser :: "buffer_view \<Rightarrow> parsed_tx list res" where
  "eth_message_parser v = the (parse_transactions_message v)"

definition eth_validator ::
  "(byte list \<Rightarrow> nat \<Rightarrow> 'sig option) \<Rightarrow> ('sig \<Rightarrow> byte list \<Rightarrow> 'key option) \<Rightarrow> ('key \<Rightarrow> byte list) \<Rightarrow> eth_tx \<Rightarrow> validator" where
  "eth_validator parse_compact ecdsa_recover serialize fresh v fee now nonces age factor =
     the (eth_transaction_validation parse_compact ecdsa_recover serialize fresh v fee now nonces age factor)"

definition create_message_parser :: "(byte list \<Rightarrow> byte list) \<Rightarrow> string \<Rightarrow> buffer_view \<Rightarrow> parsed_tx list res" where
  "create_message_parser H protocol = (if protocol = ''ethereum'' then eth_message_parser else ont_parse_transactions_message H)"

definition create_transaction_validator ::
  "(byte list \<Rightarrow> nat \<Rightarrow> 'sig option) \<Rightarrow> ('sig \<Rightarrow> byte list \<Rightarrow> 'key option) \<Rightarrow> ('key \<Rightarrow> byte list) \<Rightarrow> eth_tx \<Rightarrow> string \<Rightarrow> validator res" where
  "create_transaction_validator parse_compact ecdsa_recover serialize fresh protocol =
     (if protocol = ''bitcoin'' \<or> protocol = ''bitcoincash'' then Inr btc_transaction_validation
      else if protocol = ''ethereum'' then Inr (eth_validator parse_compact ecdsa_recover serialize fresh)
      else if protocol = ''ontology'' then Inr ont_transaction_validation
      else Inl RuntimeError)"

definition ts_copy :: "tx_service \<Rightarrow> tx_service" where
  \<comment> \<open>the copy constructor: the containers of the copy are new\<close>
  "ts_copy other = ts_new 100 100 (ts_final other) (ts_allowed_time other) (ts_allowed_gas other)"

lemma ethereum_service:
  "create_message_parser H ''ethereum'' = eth_message_parser"
  "create_transaction_validator parse_compact ecdsa_recover serialize fresh ''ethereum'' =
     Inr (eth_validator parse_compact ecdsa_recover serialize fresh)"
  by (simp_all add: create_message_parser_def create_transaction_validator_def)

definition eth_verdict ::
  "(byte list \<Rightarrow> nat \<Rightarrow> 'sig option) \<Rightarrow> ('sig \<Rightarrow> byte list \<Rightarrow> 'key option) \<Rightarrow> ('key \<Rightarrow> byte list) \<Rightarrow> nat \<Rightarrow> nat \<Rightarrow> rlp_value list \<Rightarrow> nat" where
  "eth_verdict parse_compact ecdsa_recover serialize min_fee ty xs =
     (if eth_sender parse_compact ecdsa_recover serialize ty xs = None then set_bit TX_VALIDATION_STATUS_INVALID_SIGNATURE 0
      else if tx_int xs (ty + 1) < min_fee then set_bit TX_VALIDATION_STATUS_INVALID_LOW_FEE 0
      else set_bit TX_VALIDATION_STATUS_VALID_TX 0)"

definition eth_tx_sendable :: "nat \<Rightarrow> rlp_value list \<Rightarrow> bool" where
  "eth_tx_sendable ty xs \<longleftrightarrow>
     eth_tx_ok ty xs \<and> length (payload (xs ! (ty + 3))) \<le> 20 \<and> length (payload (xs ! (signed_items ty + 1))) \<le> 32 \<and>
     length (payload (xs ! (signed_items ty + 2))) \<le> 32 \<and> (ty = 0 \<longrightarrow> legacy_v_ok (tx_int xs 6))"

lemma eth_validator_verdict:
  assumes "eth_tx_sendable ty xs" and "uncompressed_format serialize"
  shows "eth_validator parse_compact ecdsa_recover serialize fresh (bv_msg (enc_value (eth_tx_value ty xs))) min_fee 0 nonces age factor =
    Inr (eth_verdict parse_compact ecdsa_recover serialize min_fee ty xs, nonces)"
proof -
  let ?v = "bv_msg (enc_value (eth_tx_value ty xs))"
  have "bv_ok ?v" using assms(1) by (simp add: eth_tx_sendable_def eth_tx_ok_def)
  moreover have "bv_bytes ?v = enc_value (eth_tx_value ty xs) @ []" by simp
  ultimately have "eth_transaction_validation parse_compact ecdsa_recover serialize fresh ?v min_fee 0 nonces age factor =
      Some (Inr (eth_verdict parse_compact ecdsa_recover serialize min_fee ty xs, nonces))"
    using assms(1) unfolding eth_tx_sendable_def
    by (subst eth_validation_verdict [where ty = ty and xs = xs and post = "[]", OF _ bv_msg_simps(2) _ _ _ _ _ _ assms(2)])
      (auto simp: eth_verdict_def split: option.split)
  then show ?thesis by (simp add: eth_validator_def)
qed

lemma eth_verdict_less: "eth_verdict parse_compact ecdsa_recover serialize min_fee ty xs < 2 ^ 32"
  by (simp add: eth_verdict_def tx_status_consts)

lemma node_learn_bytes:
  assumes "ts_wf s"
  shows "tx_bytes (node_learn msg t s) k =
    (if tx_bytes s k = None \<and> k = ptx_hash t \<and> \<not> removed_transaction s k then Some (node_contents msg t) else tx_bytes s k)"
proof -
  have "has_transaction_contents s k \<longleftrightarrow> tx_bytes s k \<noteq> None" for k
    using assms by (auto simp: tx_bytes_def has_transaction_contents_def ts_wf_def mw_find_def split: option.splits)
  then show ?thesis by (auto simp: node_learn_def node_seen_def store_new_bytes [OF assms] split: option.splits)
qed

lemma removed_learn [simp]: "removed_transaction (node_learn msg t s) k = removed_transaction s k"
  by (simp add: removed_transaction_def node_learn_def)

lemma fold_learn_bytes:
  assumes "ts_wf s" and "bv_ok msg" "bv_size msg < 2 ^ 32" and "list_all (ptx_ok msg) ps"
  shows "tx_bytes (fold (node_learn msg) ps s) k =
    (if tx_bytes s k = None \<and> \<not> removed_transaction s k
     then map_option (node_contents msg) (find (\<lambda>t. ptx_hash t = k) ps) else tx_bytes s k)"
  using assms(1,4)
proof (induction ps arbitrary: s)
  case (Cons t ps)
  have "node_valid (\<lambda>_ _ _ _ _ _. Inl RuntimeError) 0 False msg s t (set_bit TX_VALIDATION_STATUS_VALID_TX 0)"
    by (simp add: node_valid_def)
  then have "ts_wf (node_learn msg t s)"
    using node_store_spec(2) [OF Cons.prems(1) assms(2,3)] Cons.prems(2) by fastforce
  then show ?case using Cons.IH Cons.prems node_learn_bytes [OF Cons.prems(1)] by auto
qed simp

lemma length_parsed_at [simp]: "length (parsed_at n ts) = length ts"
  by (induction ts arbitrary: n) auto

lemma node_contents_at:
  assumes "bv_bytes msg = pre @ enc_value t @ post"
  shows "node_contents msg \<lparr>ptx_hash = h, ptx_offset = length pre, ptx_length = length (enc_value t)\<rparr> = enc_value t"
  using assms by (simp add: node_contents_def slice_middle)

lemma find_parsed_at:
  assumes "bv_bytes msg = pre @ eth_txs ts @ post"
  shows "map_option (node_contents msg) (find (\<lambda>t. ptx_hash t = k) (parsed_at (length pre) ts)) =
    map_option enc_value (find (\<lambda>t. eth_tx_hash t = k) ts)"
  using assms
proof (induction ts arbitrary: pre)
  case (Cons t ts)
  have "bv_bytes msg = pre @ enc_value t @ eth_txs ts @ post" using Cons.prems by simp
  from node_contents_at [OF this] show ?case using Cons.IH [of "pre @ enc_value t"] Cons.prems by simp
qed simp

lemma parsed_at_ok:
  assumes "bv_ok msg" and "bv_bytes msg = pre @ eth_txs ts @ post"
  shows "list_all (ptx_ok msg) (parsed_at (length pre) ts)"
  using assms(2)
proof (induction ts arbitrary: pre)
  case (Cons t ts)
  have "bv_size msg = length (pre @ enc_value t @ eth_txs ts @ post)" using Cons.prems assms(1) length_bv_bytes [of msg] by (simp add: bv_ok_def)
  then show ?case using Cons.IH [of "pre @ enc_value t"] Cons.prems enc_value_nonempty [of t] by (simp add: ptx_ok_def eth_tx_hash_def)
qed simp

lemma length_eth_txs: "length ts \<le> length (eth_txs ts)"
proof (induction ts)
  case (Cons t ts)
  have "1 \<le> length (enc_value t)" using enc_value_nonempty [of t] by (cases "enc_value t") auto
  moreover have "length (eth_txs (t # ts)) = length (enc_value t) + length (eth_txs ts)" by simp
  ultimately show ?case using Cons.IH by simp
qed simp

lemma parsed_at_valid:
  fixes parse_compact ecdsa_recover serialize fresh min_fee
  defines "verdict \<equiv> \<lambda>(ty, xs). eth_verdict parse_compact ecdsa_recover serialize min_fee ty xs"
  assumes ok: "list_all (case_prod eth_tx_sendable) txs" and ser: "uncompressed_format serialize"
    and msg: "bv_bytes msg = pre @ eth_txs (map (case_prod eth_tx_value) txs) @ post"
  shows "list_all (\<lambda>(t, st). node_valid (eth_validator parse_compact ecdsa_recover serialize fresh) min_fee True msg s t st \<and> st < 2 ^ 32)
    (zip (parsed_at (length pre) (map (case_prod eth_tx_value) txs)) (map verdict txs))"
  using ok msg
proof (induction txs arbitrary: pre)
  case (Cons tx txs)
  obtain ty xs where tx: "tx = (ty, xs)" by fastforce
  let ?t = "eth_tx_value ty xs"
  have "bv_bytes msg = pre @ enc_value ?t @ eth_txs (map (case_prod eth_tx_value) txs) @ post" using Cons.prems(2) tx by simp
  from node_contents_at [OF this]
  have "node_valid (eth_validator parse_compact ecdsa_recover serialize fresh) min_fee True msg s
      \<lparr>ptx_hash = eth_tx_hash ?t, ptx_offset = length pre, ptx_length = length (enc_value ?t)\<rparr> (verdict tx)"
    using eth_validator_verdict [OF _ ser, of ty xs] Cons.prems(1) tx by (simp add: node_valid_def verdict_def)
  moreover have "verdict tx < 2 ^ 32" using eth_verdict_less by (simp add: verdict_def tx)
  ultimately show ?case using Cons.IH [of "pre @ enc_value ?t"] Cons.prems tx by simp
qed simp

text \<open>
  C13: What a service for Ethereum does with a message of transactions from a node. It ends; the answer tells of every transaction
  whether it was seen before, its hash, its place in the message and the verdict: whether the signature recovers to a key and
  whether the fee is high enough, and never anything about the nonce. The service then has the contents it had and, under its
  hash, the first transaction of the message with a hash for which it had none and which it has not removed, whatever the verdict.
\<close>

theorem ethereum_node_transactions:
  assumes msg: "bv_ok v" "bv_bytes v = enc_list (eth_txs (map (case_prod eth_tx_value) txs)) @ post" "bv_size v < 2 ^ 32"
    and len: "length (eth_txs (map (case_prod eth_tx_value) txs)) < 2 ^ 29"
    and ok: "list_all (case_prod eth_tx_sendable) txs" and ser: "uncompressed_format serialize" and s: "ts_wf s"
  shows "\<exists>b s'. process_gateway_transaction_from_node (create_message_parser H ''ethereum'')
      (eth_validator parse_compact ecdsa_recover serialize fresh) s v min_fee True = Inr (b, s') \<and> ts_wf s' \<and>
    ba_bytes b = le_bytes 4 (length txs) @ node_answer v s
      (zip (parsed_at (length (rlp_prefix RLP_LIST_ENCODING_TYPE (length (eth_txs (map (case_prod eth_tx_value) txs)))))
             (map (case_prod eth_tx_value) txs))
           (map (\<lambda>(ty, xs). eth_verdict parse_compact ecdsa_recover serialize min_fee ty xs) txs)) \<and>
    tx_bytes s' h = (if tx_bytes s h = None \<and> \<not> removed_transaction s h
      then map_option enc_value (find (\<lambda>t. eth_tx_hash t = h) (map (case_prod eth_tx_value) txs)) else tx_bytes s h)"
proof -
  let ?ts = "map (case_prod eth_tx_value) txs"
  define q where "q = rlp_prefix RLP_LIST_ENCODING_TYPE (length (eth_txs ?ts))"
  let ?ps = "parsed_at (length q) ?ts"
  let ?zs = "zip ?ps (map (\<lambda>(ty, xs). eth_verdict parse_compact ecdsa_recover serialize min_fee ty xs) txs)"
  have eq: "bv_bytes v = q @ eth_txs ?ts @ post" using msg(2) by (simp add: enc_list_def q_def)
  have fst: "map fst ?zs = ?ps" by simp
  have parse: "eth_message_parser v = Inr (map fst ?zs)"
    using parse_message_at [OF msg(1,2) len] unfolding fst by (simp add: eth_message_parser_def q_def)
  have okp: "list_all (ptx_ok v) ?ps" by (rule parsed_at_ok [OF msg(1) eq])
  have "list_all (\<lambda>(t, st). ptx_ok v t) ?zs"
    using okp unfolding list_all_iff by (auto dest: set_zip_leftD)
  with parsed_at_valid [OF ok ser eq]
  have valid: "list_all (\<lambda>(t, st). ptx_ok v t \<and>
      node_valid (eth_validator parse_compact ecdsa_recover serialize fresh) min_fee True v s t st \<and> st < 2 ^ 32) ?zs"
    unfolding list_all_iff by fast
  have n: "length ?zs < 2 ^ 32" using length_eth_txs [of ?ts] len by simp
  obtain b where b: "process_gateway_transaction_from_node eth_message_parser (eth_validator parse_compact ecdsa_recover serialize fresh)
      s v min_fee True = Inr (b, fold (node_learn v) (map fst ?zs) s)"
    "ba_bytes b = le_bytes 4 (length ?zs) @ node_answer v s ?zs" "ts_wf (fold (node_learn v) (map fst ?zs) s)"
    using from_node_spec [where ts = ?zs and parse = eth_message_parser and enable = True and min_fee = min_fee
        and validate = "eth_validator parse_compact ecdsa_recover serialize fresh", OF s msg(1,3) parse valid n] by blast
  have "tx_bytes (fold (node_learn v) ?ps s) h = (if tx_bytes s h = None \<and> \<not> removed_transaction s h
      then map_option enc_value (find (\<lambda>t. eth_tx_hash t = h) ?ts) else tx_bytes s h)"
    unfolding fold_learn_bytes [OF s msg(1,3) okp] find_parsed_at [OF eq] ..
  then show ?thesis using b unfolding fst q_def ethereum_service by auto
qed

theorem ethereum_node_transactions_witness:
  "\<exists>b s'. process_gateway_transaction_from_node (create_message_parser (\<lambda>bs. bs) ''ethereum'')
      (eth_validator (\<lambda>_ _. Some ()) (\<lambda>_ _. Some ()) eth_demo_key eth_demo_fresh) (ts_new 2 8 1 10 2)
      (bv_msg (enc_list (eth_txs [eth_tx_value 0 (eth_demo_items (replicate 32 2))]))) 10 True = Inr (b, s') \<and>
    tx_bytes s' (eth_tx_hash (eth_tx_value 0 (eth_demo_items (replicate 32 2)))) = Some (enc_value (eth_tx_value 0 (eth_demo_items (replicate 32 2)))) \<and>
    take 5 (ba_bytes b) = [1, 0, 0, 0, 0] \<and> drop 45 (ba_bytes b) = [8, 0, 0, 0]"
proof -
  let ?xs = "eth_demo_items (replicate 32 2)"
  define t where "t = eth_tx_value 0 ?xs"
  define m where "m = enc_list (eth_txs [t])"
  have r: "length (replicate 32 (2 :: byte)) = 32 \<or> length (replicate 32 (2 :: byte)) = 33" by simp
  have len: "length (eth_txs [t]) < 2 ^ 29" using eth_demo_len(1) [OF r] by (simp add: t_def)
  have "length m \<le> 9 + length (eth_txs [t])"
    using length_rlp_prefix [of "length (eth_txs [t])" RLP_LIST_ENCODING_TYPE] len by (simp add: m_def enc_list_def)
  then have msg: "bv_ok (bv_msg m)" "bv_size (bv_msg m) < 2 ^ 32" using len by simp_all
  have bytes: "bv_bytes (bv_msg m) = enc_list (eth_txs (map (case_prod eth_tx_value) [(0, ?xs)])) @ []"
    by (simp add: m_def t_def)
  have ok: "list_all (case_prod eth_tx_sendable) [(0, ?xs)]"
    using eth_demo_ok [OF r] by (simp add: eth_tx_sendable_def signed_items_def eth_demo_fields legacy_v_ok_def)
  have ser: "uncompressed_format eth_demo_key" by (simp add: uncompressed_format_def eth_demo_key_def)
  have none: "\<not> node_seen (ts_new p c f a g) k" "tx_bytes (ts_new p c f a g) k = None" "\<not> removed_transaction (ts_new p c f a g) k" for p c f a g k
    by (simp_all add: node_seen_def has_transaction_contents_def removed_transaction_def tx_bytes_def ts_new_def mw_find_def mw_new_def om_find_def om_new_def)
  have verdict: "eth_verdict (\<lambda>_ _. Some ()) (\<lambda>_ _. Some ()) eth_demo_key 10 0 ?xs = 8"
    by (simp add: eth_verdict_def eth_sender_def eth_parity_def eth_demo_fields eth_demo_key_def tx_status_consts)
  have h: "length (eth_tx_hash t) = 32" by (simp add: eth_tx_hash_def)
  note result = ethereum_node_transactions [where h = "eth_tx_hash t" and min_fee = 10 and fresh = eth_demo_fresh
      and parse_compact = "\<lambda>_ _. Some ()" and ecdsa_recover = "\<lambda>_ _. Some ()" and H = "\<lambda>bs. bs", OF msg(1) bytes msg(2) _ ok ser ts_wf_new(1) [of 2 8 1 10 2]]
  from result len
  show ?thesis
    by (auto simp: none verdict node_record_def h m_def le_bytes_numeral simp flip: t_def)
qed

end
