(* ===== verification/Spec2Isabelle.thy ===== *)
theory Spec2Isabelle
  imports EthDecompressionProps EthTxProps TxMessagesProps TxRuns TaskPool CleanupProps
  CompactRoundTrip OntConsensusRoundTrip EthJsonProps Encryption Allocators
  EthGateway
begin

text \<open>
  This development verifies the C++ core of the bxextensions repository, the native library behind
  a blockchain distribution network's gateways and relays. The library compresses blocks by
  replacing transactions both sides know by four-byte short ids, runs that work on thread pools and
  keeps the transactions and short ids in a transaction service.

  \<^bold>\<open>Parts of the program and theories.\<close> Paths are below \<^verbatim>\<open>src/lib\<close>.

  \<^item> \<open>Prelude\<close>: the error type and its bind, machine sizes (\<^verbatim>\<open>size_t\<close> arithmetic as \<open>u64\<close>, \<^verbatim>\<open>uint32_t\<close> as
    \<open>u32\<close>), byte images of integers, generic list lemmas and the collections of lemmas.
  \<^item> \<open>Buffers\<close>, \<open>BufferHelper\<close>: \<^verbatim>\<open>libutils/utils/common\<close> (\<^verbatim>\<open>BufferView\<close>, \<^verbatim>\<open>BufferCopy\<close>, \<^verbatim>\<open>ByteArray\<close> and the integer
    codecs). A buffer is its allocation and the window on it; an access outside the window is the
    exception the code throws, an access outside the allocation is the error \<open>MemFault\<close>. Code that is a
    template over its buffer is stated over the locales \<open>byte_source\<close> and \<open>byte_sink\<close>, which the two
    buffer classes interpret.
  \<^item> \<open>Sha256\<close>, \<open>CompactShortId\<close>: \<^verbatim>\<open>libutils/utils/crypto\<close>. The digest is OpenSSL's and a parameter \<open>H\<close>;
    the SipHash of compact blocks is the code's own and is proved equal to the reference algorithm.
  \<^item> \<open>BtcMessage\<close>: \<^verbatim>\<open>libutils/utils/protocols/bitcoin\<close>, the wire format of blocks, transactions,
    compressed and compact blocks. The scanners are proved against a grammar of transactions.
  \<^item> \<open>Containers\<close>, \<open>BucketContainer\<close>: \<^verbatim>\<open>OrderedMap\<close>, \<^verbatim>\<open>MapWrapper\<close>, \<^verbatim>\<open>DefaultMap\<close>, \<^verbatim>\<open>Bucket\<close> and
    \<^verbatim>\<open>SafeBucketContainer\<close>, the set whose writers queue their work while somebody reads.
  \<^item> \<open>TxService\<close>, \<open>TxServiceProps\<close>: \<^verbatim>\<open>libtpe/tpe/service/transaction_service.cpp\<close>, the operations on
    single transactions, the invariant of the containers and what each operation does. \<open>TxRuns\<close> has the
    sequences of all public operations and the invariant of the states they reach.
  \<^item> \<open>TxMessages\<close>, \<open>TxMessagesProps\<close>: the operations of the same class on whole messages:
    synchronisation of two services, lookup by short ids, relayed transactions and transactions of
    a node.
  \<^item> \<open>ByteRegions\<close>, \<open>SharedFill\<close>: what the decompression tasks share: bytes written into the regions of a
    buffer, and jobs that fill one buffer step by step under a schedule, with the locale \<open>fill_job\<close>.
  \<^item> \<open>BtcCompression\<close>, \<open>BtcDecompression\<close> with their \<open>Props\<close>: \<^verbatim>\<open>libtpe/tpe/task/btc_block_*_task.cpp\<close> and
    their sub-tasks.
  \<^item> \<open>BlockCodec\<close>, \<open>BlockRestore\<close>: what the Bitcoin and the Ontology tasks share, proved once in the locales
    \<open>tx_format\<close> and \<open>bx_format\<close> for every transaction format, and interpreted for both.
  \<^item> \<open>OntMessage\<close>, \<open>OntCompression\<close>, \<open>OntDecompression\<close> with their \<open>Props\<close>: the wire format of
    \<^verbatim>\<open>libutils/utils/protocols/ontology\<close> and \<^verbatim>\<open>libtpe/tpe/task/ont_block_*_task.cpp\<close>.
  \<^item> \<open>Base64\<close>, \<open>OntConsensus\<close>, \<open>OntConsensusProps\<close>, \<open>OntConsensusRoundTrip\<close>: \<^verbatim>\<open>encoding/base64_encoder.h\<close>,
    \<^verbatim>\<open>libutils/utils/protocols/ontology/consensus\<close> and \<^verbatim>\<open>libtpe/tpe/task/ont_consensus_block_*_task.cpp\<close>. A consensus
    message carries its block as Base64 inside JSON; the JSON library is a pair of parameters.
  \<^item> \<open>CompactBlock\<close>: \<^verbatim>\<open>libtpe/tpe/service/compact_block_data_service.cpp\<close>, \<^verbatim>\<open>btc_compact_block_mapping_task.cpp\<close>,
    \<^verbatim>\<open>btc_compact_block_compression_task.cpp\<close> and their sub-tasks. \<open>CompactParseProps\<close> has what parsing gives,
    \<open>CompactMapProps\<close> the invariant of the mapping, \<open>CompactCompressionProps\<close> the bytes the compression writes and
    \<open>CompactRoundTrip\<close> the way from a compact block to the restored block.
  \<^item> \<open>CleanupTasks\<close>, \<open>CleanupProps\<close>: \<^verbatim>\<open>btc_block_cleanup_task.cpp\<close>, \<^verbatim>\<open>ont_block_cleanup_task.cpp\<close>,
    \<^verbatim>\<open>block_confirmation_cleanup_task.cpp\<close> and the confirmation message, with the locale \<open>clean_format\<close>.
  \<^item> \<open>Rlp\<close>, \<open>Keccak\<close>: \<^verbatim>\<open>rlp_encoder.*\<close> and \<^verbatim>\<open>rlp.*\<close> of \<^verbatim>\<open>libutils/utils/encoding\<close>, and the Keccak-256 hash of
    \<^verbatim>\<open>libutils/utils/crypto\<close>.
  \<^item> \<open>EthMessage\<close>: \<^verbatim>\<open>libutils/utils/protocols/ethereum\<close>, the views on a block, its compressed form and the
    transactions in both.
  \<^item> \<open>EthCompression\<close>, \<open>EthDecompression\<close> with their \<open>Props\<close>: \<^verbatim>\<open>libtpe/tpe/task/eth_block_*_task.cpp\<close> and
    their sub-tasks.
  \<^item> \<open>EthTx\<close>, \<open>EthTxProps\<close>: the transactions of \<^verbatim>\<open>libutils/utils/protocols/ethereum\<close>, their messages, parser and
    validator, and \<^verbatim>\<open>libutils/utils/crypto/signature.cpp\<close>. \<open>EthGateway\<close> puts them into the transaction
    service, which selects them by the name of the blockchain.
  \<^item> \<open>HexString\<close>: \<^verbatim>\<open>libutils/utils/common/string_helper.*\<close> and the hexadecimal strings of \<^verbatim>\<open>Sha256\<close>.
  \<^item> \<open>EthJson\<close>, \<open>EthJsonProps\<close>: \<^verbatim>\<open>eth_block_header.cpp\<close>, the JSON of \<^verbatim>\<open>eth_tx_message.cpp\<close> and
    \<^verbatim>\<open>TransactionService::eth_block_to_json\<close>.
  \<^item> \<open>Encryption\<close>: \<^verbatim>\<open>encryption_helper.cpp\<close>, \<^verbatim>\<open>encrypted_message.cpp\<close> and \<^verbatim>\<open>libtpe/tpe/task/encryption_task.cpp\<close>,
    \<^verbatim>\<open>decryption_task.cpp\<close>; the two functions of libsodium are parameters.
  \<^item> \<open>TaskPool\<close>: \<^verbatim>\<open>libtpe/tpe/task/task_base.cpp\<close>, \<^verbatim>\<open>sub_task_base.cpp\<close>, \<^verbatim>\<open>task_thread_pool.h\<close> and the queues and
    threads of \<^verbatim>\<open>libutils/utils/concurrency\<close>.
  \<^item> \<open>Allocators\<close>: \<^verbatim>\<open>libutils/utils/common/tracked_allocator.h\<close>, and the concurrent allocator and the thread
    that replenishes it in \<^verbatim>\<open>libutils/utils/concurrency\<close>, as step relations.

  \<^bold>\<open>How the code is translated.\<close> Every class is a record, every method a function on it that returns
  \<open>error + result\<close>, so that each \<^verbatim>\<open>throw\<close> is a branch. Loops whose number of iterations is given by a
  counter or a list are recursive functions on it; the loops of the scanners recurse on the count they
  read. A loop that the data can keep running for ever is a partial function into \<open>option\<close>, and \<open>None\<close> is a
  run without end; no definition uses fuel. Hash sets and maps whose iteration order shows in a result take that order as an argument
  (\<open>ins\<close>, \<open>hins\<close>, \<open>order\<close>), and the theorems hold for all orders. The clock and the transaction
  validator are arguments. Doubles are real numbers.

  \<^bold>\<open>Concurrency.\<close> Sub-tasks of the compression only touch their own data, so each runs as one step;
  an exception of a sub-task is rethrown where the task waits for it. The sub-tasks of the
  decompression copy transactions into one shared output buffer while the task continues: they are
  jobs whose single copies are interleaved by the schedules \<open>sched1\<close> (after the dispatch and before the
  copy of the block header) and \<open>sched2\<close> (after that copy), and whatever is not done then runs when the
  task waits. The Ethereum task has one schedule. The appends of the cleanup sub-tasks to
  the shared vectors are interleaved by a schedule as well, and so are the accesses of the mapping sub-tasks of a compact
  block to the shared map, placeholders and counter. The theorems quantify over all schedules. Queues, threads and pools are a step relation whose reachable
  states are treated by rule induction; since no lock covers \<^verbatim>\<open>enqueue_task\<close>, the calls of clients are steps of
  their own (choice of a queue, check, marking, push), and the flag \<open>d\<close> of the relation says whether clients keep from
  enqueueing the same task object at the same time. Memory is sequentially consistent.

  \<^bold>\<open>What is shown.\<close> The round trip of block compression in this theory rests on the refinement of the two
  tasks: the compression writes a reference encoding of the block, and the decompression inverts it
  under every schedule or reports exactly what is missing. Ontology blocks have the same round trip, and so have Ontology
  consensus messages, through Base64 and JSON. A compact block whose prefilled transactions come first is
  resolved from the pool, completed and compressed so that its receiver restores the whole block. The round trip is shown for Ethereum blocks too, on top of
  the RLP decoder, which splits every encoded list into its items again, and of the Keccak
  sponge, which equals the reference definition for every message. The validator of Ethereum transactions is
  shown to decide by the key that the signature recovers to for the signing payload, and what a service for Ethereum
  answers to a message of transactions and stores of it follows from that. The JSON of an Ethereum
  block is stated to the letter. The transaction service keeps its
  containers consistent under every sequence of operations that return, and two services synchronise. What an encryption task encrypts can be decrypted again. Cleaning up after a
  block or a confirmation makes it forget the named transactions and no other. The bucket
  container gives readers a stable snapshot and then catches up with the writers, except for one
  sequence of writes. A pool that is not stopped executes every task once, comes to rest if the bodies of the tasks end, and
  never holds a task twice unless two clients enqueue it at the same time. The concurrent allocator hands out
  no block twice. Where the code falls short of
  what it means to do, a theorem states the exact behaviour.

  \<^bold>\<open>What is not modelled.\<close> The functions of libsodium, OpenSSL and secp256k1, the JSON library, statistics of memory
  and the Python bindings. Allocation never fails in the model.
\<close>

section \<open>Compression and decompression\<close>

lemma bx_encode_small:
  assumes "wf_block hdr vi ts"
  shows "length (bx_encode (hdr @ vi @ txs_pieces cmpd ts) (txs_sids H s cmpd ts)) < 2 ^ 64"
proof -
  have "length (txs_pieces cmpd ts) \<le> length (ser_txs ts)" using assms by (intro btc_bx.length_pieces) (simp add: wf_block_def)
  then show ?thesis
    using assms length_piece_sids [of "tx_hash H" s cmpd ts]
    by (simp add: bx_encode_def wf_block_def btc_block_def length_concat_le_bytes)
qed

text \<open>
  C1: a receiver that can resolve the short ids of the sender gets back, byte for byte, the bitcoin
  block the sender compressed, and the same block hash. This holds for all pool sizes on both
  sides, for all states the two tasks are left in by earlier blocks, and for every interleaving of
  the sub-tasks of the receiver.
\<close>

theorem btc_round_trip:
  assumes H: "\<And>bs. length (H bs) = 32" and c: "cmp_task_ok pool c" "0 < pool"
    and b: "wf_block hdr vi ts" "list_all (sender_ok H s) ts" "bv_ok v" "bv_bytes v = btc_block hdr vi ts"
    and len: "length_field_ok hdr vi ts"
    and r: "list_all (receiver_ok s' (tx_compressed H s enable (now - age)) (\<lambda>t. tx_sid s (tx_hash H t))) ts"
    and sids: "list_all (\<lambda>t. tx_compressed H s enable (now - age) t \<longrightarrow> tx_sid s (tx_hash H t) < 2 ^ 32) ts"
    and d: "0 < pool'" "ba_wf (dt_out d)" "ba_cap (dt_out d) < 2 ^ 32"
  shows "\<exists>c' d'. cmp_block H s pool enable now age shared c v = Inr c' \<and>
    dcm_block H s' pool' sched1 sched2 shared' d (bv_msg (ba_bytes (ct_out c'))) = Inr (s', d') \<and>
    dt_success d' \<and> ba_bytes (dt_out d') = bv_bytes v \<and> dt_hash d' = ct_hash c'"
proof -
  let ?cmpd = "tx_compressed H s enable (now - age)"
  obtain c' where c': "cmp_block H s pool enable now age shared c v = Inr c'"
    "ba_bytes (ct_out c') = bx_encode (hdr @ vi @ txs_pieces ?cmpd ts) (txs_sids H s ?cmpd ts)"
    "ct_hash c' = Some (sha_of_binary (rev (H (H (slice 24 80 hdr)))))"
    using cmp_block_spec [OF H c b refl, of enable now age shared] by blast
  have ok: "bv_ok (bv_msg (ba_bytes (ct_out c')))" using bx_encode_small [OF b(1)] c'(2) by simp
  have bytes: "bv_bytes (bv_msg (ba_bytes (ct_out c'))) =
      bx_encode (hdr @ vi @ txs_pieces ?cmpd ts) (map (\<lambda>t. tx_sid s (tx_hash H t)) (filter ?cmpd ts))"
    using c'(2) by (simp add: piece_sids_def)
  obtain d' where "dcm_block H s' pool' sched1 sched2 shared' d (bv_msg (ba_bytes (ct_out c'))) = Inr (s', d')"
    "dt_success d'" "ba_bytes (dt_out d') = btc_block hdr vi ts" "dt_hash d' = Some (sha_of_binary (rev (H (H (slice 24 80 hdr)))))"
    using dcm_block_spec [where H = H and ?sched1.0 = sched1 and ?sched2.0 = sched2 and shared = shared', OF H d b(1) len r sids ok bytes]
    by blast
  with c' b(4) show ?thesis by auto
qed

lemma demo_task_ok: "ba_wf (dt_out (dcm_task_new 1000 1))" "ba_cap (dt_out (dcm_task_new 1000 1)) < 2 ^ 32"
  by (simp add: dcm_task_new_def, simp add: dcm_task_new_def ba_with_capacity_def)

lemma demo_length_field: "length_field_ok demo_hdr [2] [demo_tx a, demo_tx b]"
  by (simp add: length_field_ok_def demo_hdr_def slice_def btc_block_def demo_tx_ser)

theorem btc_round_trip_witness:
  "\<exists>c' d'. cmp_block demo_H demo_sender 2 True 10 10 False (cmp_task_new 1000 1) demo_block = Inr c' \<and>
    dcm_block demo_H demo_receiver 2 [1, 0, 1] [0] False (dcm_task_new 1000 1) (bv_msg (ba_bytes (ct_out c'))) = Inr (demo_receiver, d') \<and>
    ba_bytes (dt_out d') = bv_bytes demo_block"
proof -
  have "list_all (receiver_ok demo_receiver (tx_compressed demo_H demo_sender True (10 - 10)) (\<lambda>t. tx_sid demo_sender (tx_hash demo_H t)))
      [demo_tx 1, demo_tx 2]"
    using demo_receiver_ok demo_compressed by (auto simp: receiver_has_def demo_tx_ser BTC_SHORT_ID_INDICATOR_def)
  moreover have "list_all (\<lambda>t. tx_compressed demo_H demo_sender True (10 - 10) t \<longrightarrow> tx_sid demo_sender (tx_hash demo_H t) < 2 ^ 32)
      [demo_tx 1, demo_tx 2]"
    using demo_compressed by simp
  ultimately show ?thesis
    using btc_round_trip [where H = demo_H and pool' = 2 and ?sched1.0 = "[1, 0, 1]" and ?sched2.0 = "[0]" and shared = False and shared' = False,
      OF length_demo_H cmp_task_ok_new _ demo_block_facts(1) demo_compressed(4) demo_block_facts(2,3) demo_length_field _ _ _ demo_task_ok, of 2]
    by fastforce
qed

text \<open>
  C32: the two directions are not inverse for a block that contains a transaction whose first byte,
  the low byte of its version, is the short id indicator: compressed without short ids, the block
  is refused by the receiver, which takes the transaction for a short id and finds none.
\<close>

theorem btc_round_trip_fails_on_indicator_version:
  assumes H: "\<And>bs. length (H bs) = 32" and c: "cmp_task_ok pool c" "0 < pool"
    and b: "wf_block hdr vi (t # ts)" "list_all (sender_ok H s) (t # ts)" "bv_ok v" "bv_bytes v = btc_block hdr vi (t # ts)"
    and len: "length_field_ok hdr vi (t # ts)" and t: "hd (tx_version t) = BTC_SHORT_ID_INDICATOR"
    and d: "0 < pool'" "ba_wf (dt_out d)" "ba_cap (dt_out d) < 2 ^ 32"
  shows "\<exists>c'. cmp_block H s pool False now age shared c v = Inr c' \<and>
    dcm_block H s' pool' sched1 sched2 shared' d (bv_msg (ba_bytes (ct_out c'))) = Inl RuntimeError"
proof -
  let ?cmpd = "tx_compressed H s False (now - age)"
  have none: "\<not> ?cmpd u" for u by (simp add: sid_usable_def)
  then have all: "txs_pieces ?cmpd us = ser_txs us" "txs_sids H s ?cmpd us = []" for us
    by (simp_all add: pieces_def sers_def piece_def [abs_def] piece_sids_def)
  obtain c' where c': "cmp_block H s pool False now age shared c v = Inr c'"
    "ba_bytes (ct_out c') = bx_encode (hdr @ vi @ txs_pieces ?cmpd (t # ts)) (txs_sids H s ?cmpd (t # ts))"
    using cmp_block_spec [OF H c b refl, of False now age shared] by blast
  have ok: "bv_ok (bv_msg (ba_bytes (ct_out c')))"
    using bx_encode_small [OF b(1), of ?cmpd H s] unfolding bv_ok_msg c'(2) .
  have bytes: "bv_bytes (bv_msg (ba_bytes (ct_out c'))) = bx_encode (btc_block hdr vi (t # ts)) []"
    unfolding bv_msg_simps c'(2) all by (simp add: btc_block_def)
  have "length (tx_version t) = 4" using b(1) by (simp add: wf_block_def wf_tx_def)
  then have "hd (ser_tx t) = BTC_SHORT_ID_INDICATOR" using t by (cases "tx_version t") (auto simp: ser_tx_def)
  from dcm_block_indicator_byte [where H = H, OF H d b(1) len this ok bytes] c'(1) show ?thesis by blast
qed

theorem btc_round_trip_fails_on_indicator_version_witness:
  "\<exists>c'. cmp_block demo_H demo_sender 2 False 10 10 False (cmp_task_new 1000 1)
      (bv_msg (btc_block demo_hdr [2] [demo_tx 0xff, demo_tx 2])) = Inr c' \<and>
    dcm_block demo_H demo_receiver 2 [] [] False (dcm_task_new 1000 1) (bv_msg (ba_bytes (ct_out c'))) = Inl RuntimeError"
proof -
  let ?ts = "[demo_tx 0xff, demo_tx 2]"
  have b: "wf_block demo_hdr [2] ?ts" "bv_ok (bv_msg (btc_block demo_hdr [2] ?ts))"
    by (simp_all add: wf_block_def btc_block_def demo_hdr_def demo_tx_ser wf_demo_tx wf_vi_def vi_val_def btc_consts)
  have s: "list_all (sender_ok demo_H demo_sender) ?ts"
    by (simp add: sid_resolved_def has_short_id_hash_def demo_sender_facts demo_hash)
  have t: "hd (tx_version (demo_tx 0xff)) = BTC_SHORT_ID_INDICATOR" by (simp add: demo_tx_def BTC_SHORT_ID_INDICATOR_def)
  from btc_round_trip_fails_on_indicator_version [where H = demo_H, OF length_demo_H cmp_task_ok_new _ b(1) s b(2) bv_msg_simps(4) demo_length_field t _ demo_task_ok]
  show ?thesis by simp
qed

section \<open>Ethereum blocks\<close>

text \<open>
  C2: the same for Ethereum blocks: what the compression task leaves behind its starting offset is a
  message from which the decompression task of a receiver that resolves the sender's short ids
  rebuilds the block, byte for byte behind its own starting offset, and the same block hash. Both
  tasks end. The transactions fit into the receiver's buffer, and the sub-tasks the receiver does not
  need for this block have completed an earlier run.
\<close>

theorem eth_round_trip:
  assumes H: "\<And>bs. length (H bs) = 32" and c: "ba_tight (ec_out c)"
    and b: "wf_eth_block prev hdr_rest ts trailer" "list_all (eth_sender_ok s) ts" "bv_ok v"
      "bv_bytes v = eth_block_bytes (eth_header prev hdr_rest) (eth_txs ts) trailer"
    and r: "list_all (eth_receiver_ok s' (eth_compressed s enable (now - age)) (\<lambda>t. tx_sid s (eth_tx_hash t))) ts"
    and d: "0 < pool" "ba_tight (ed_out d)" "16 + length (eth_header prev hdr_rest) + length (eth_txs ts) \<le> ba_cap (ed_out d)"
      "eth_ready pool (length ts) d"
  shows "\<exists>c' d'. eth_cmp_block H s enable now age shared c v = Some (Inr c') \<and>
    eth_dcm_block s' pool sched shared' d (bv_msg (drop (ec_starting_offset c') (ba_bytes (ec_out c')))) = Some (Inr (s', d')) \<and>
    ed_success d' \<and> drop (ed_starting_offset d') (ba_bytes (ed_out d')) = bv_bytes v \<and> ed_hash d' = ec_hash c'"
proof -
  let ?cmpd = "eth_compressed s enable (now - age)" and ?hdr = "eth_header prev hdr_rest"
  let ?msg = "eth_block_bytes ?hdr (eth_pieces ?cmpd ts) trailer" and ?sids = "eth_sids s ?cmpd ts"
  obtain c' where c': "eth_cmp_block H s enable now age shared c v = Some (Inr c')"
    "drop (ec_starting_offset c') (ba_bytes (ec_out c')) = bx_encode ?msg ?sids"
    "ec_hash c' = Some (sha_of_binary (sha3_256 ?hdr))"
    using eth_compression_spec [where H = H, OF H c b refl refl, of enable now age shared] by blast
  note bd = eth_message_bounds [OF b(1) refl]
  have "length ?sids < 2 ^ 29" using le_less_trans [OF length_filter_le bd(3)] by (simp add: eth_sids_def)
  then have ok: "bv_ok (bv_msg (bx_encode ?msg ?sids))" using bd(5) [of ?cmpd] by (simp add: bx_encode_def length_concat_le_bytes)
  have bytes: "bv_bytes (bv_msg (bx_encode ?msg ?sids)) = bx_encode ?msg (map (\<lambda>t. tx_sid s (eth_tx_hash t)) (filter ?cmpd ts))"
    by (simp add: eth_sids_def)
  obtain d' where "eth_dcm_block s' pool sched shared' d (bv_msg (bx_encode ?msg ?sids)) = Some (Inr (s', d'))" "ed_success d'"
    "drop (ed_starting_offset d') (ba_bytes (ed_out d')) = eth_block_bytes ?hdr (eth_txs ts) trailer" "ed_hash d' = Some (sha_of_binary (sha3_256 ?hdr))"
    using eth_dcm_block_spec [OF d(1-3) b(1) refl r ok bytes, of sched shared'] d(4) by auto
  with c' b(4) show ?thesis by auto
qed

theorem eth_round_trip_witness:
  "\<exists>c' d'. eth_cmp_block demo_H eth_demo_sender True 10 10 False (eth_cmp_new 1000) (bv_msg eth_demo_block) = Some (Inr c') \<and>
    eth_dcm_block eth_demo_receiver 1 [0] False (eth_dcm_new 1000 100) (bv_msg (drop (ec_starting_offset c') (ba_bytes (ec_out c')))) =
      Some (Inr (eth_demo_receiver, d')) \<and>
    drop (ed_starting_offset d') (ba_bytes (ed_out d')) = eth_demo_block"
proof -
  have r: "list_all (eth_receiver_ok eth_demo_receiver (eth_compressed eth_demo_sender True (10 - 10)) (\<lambda>t. tx_sid eth_demo_sender (eth_tx_hash t))) [eth_demo_tx]"
    using eth_demo_receiver_ok eth_demo_facts(2,3) by (simp add: eth_receiver_ok_def)
  have "eth_ready 1 (length [eth_demo_tx]) (eth_dcm_new 1000 100)"
    by (simp add: eth_ready_def eth_init_sub_tasks_def eth_demo_task eth_last_idx_def bulk_idx_def)
  moreover have "ba_tight (ec_out (eth_cmp_new 1000))" by (simp add: eth_cmp_new_def)
  ultimately show ?thesis
    using eth_round_trip [where H = demo_H and pool = 1 and sched = "[0]" and shared = False and shared' = False,
      OF length_demo_H _ eth_demo_wf eth_demo_facts(1,4) _ r _ eth_demo_task(1), of "eth_cmp_new 1000"] eth_demo_msg_facts(3)
    by (auto simp: eth_demo_task(2) eth_demo_block_def)
qed

end
